(* ===== verification/Prelude.thy ===== *)
theory Prelude
  imports "HOL-Library.Word" "HOL-Library.Multiset"
begin

text \<open>
  Shared vocabulary of the development.  Machine sizes (\<open>usize\<close> is 64 bits on every
  target the allocator supports), the Rust integer helpers the sources call
  (\<open>is_power_of_two\<close>, \<open>trailing_zeros\<close>, \<open>div_ceil\<close>, checked and saturating
  arithmetic), and the facts about powers of two and masks that the components share.
  The collection \<open>bitmask\<close> holds the rewrite rules that turn mask arithmetic
  into \<open>div\<close> and \<open>mod\<close>.
\<close>

unbundle bit_operations_syntax

named_theorems bitmask \<open>mask arithmetic as div and mod\<close>

type_synonym u8 = "8 word"
type_synonym u32 = "32 word"
type_synonym u64 = "64 word"

abbreviation usize_max :: nat where "usize_max \<equiv> 2 ^ 64 - 1"
abbreviation u128_max :: nat where "u128_max \<equiv> 2 ^ 128 - 1"

subsection \<open>Natural numbers standing for machine integers\<close>

text \<open>\<open>usize::is_power_of_two\<close>, and \<open>trailing_zeros\<close> of a non-zero value.\<close>

definition is_power_of_two :: "nat \<Rightarrow> bool" where
  "is_power_of_two n \<longleftrightarrow> 0 < n \<and> n AND (n - 1) = 0"

fun trailing_zeros :: "nat \<Rightarrow> nat" where
  "trailing_zeros n = (if n = 0 then 64 else if odd n then 0 else Suc (trailing_zeros (n div 2)))"

declare trailing_zeros.simps [simp del]

definition div_ceil :: "nat \<Rightarrow> nat \<Rightarrow> nat" where
  "div_ceil a b = a div b + (if a mod b = 0 then 0 else 1)"

lemma and_pred_two_pow [bitmask]: "(n::nat) AND (2 ^ k - Suc 0) = n mod 2 ^ k"
  using take_bit_eq_mask [of k n] by (simp add: mask_eq_exp_minus_1 take_bit_eq_mod)

lemma is_power_of_two_pow [simp, intro]: "is_power_of_two (2 ^ k)"
  by (simp add: is_power_of_two_def bitmask)

lemma power_of_two_half:
  assumes "is_power_of_two n" and "even n"
  shows "is_power_of_two (n div 2)"
proof -
  from assms obtain m where n: "n = 2 * m" and "0 < m"
    by (auto simp: is_power_of_two_def elim: evenE)
  then have "(2 * m - 1) div 2 = m - 1" and "odd (2 * m - 1)" by auto
  then have "(2 * m) AND (2 * m - 1) = 2 * (m AND (m - 1))"
    by (subst and_rec) simp
  with assms n \<open>0 < m\<close> show ?thesis by (simp add: is_power_of_two_def)
qed

lemma power_of_two_odd:
  assumes "is_power_of_two n" and "odd n"
  shows "n = 1"
proof (rule ccontr)
  assume "n \<noteq> 1"
  from assms(2) obtain m where n: "n = 2 * m + 1" by (blast elim: oddE)
  with \<open>n \<noteq> 1\<close> have "0 < m" by simp
  from n have "n AND (n - 1) = 2 * (m AND m)"
    by (subst and_rec) simp
  with \<open>0 < m\<close> assms(1) show False by (simp add: is_power_of_two_def)
qed

lemma is_power_of_two_trailing_zeros:
  "is_power_of_two n \<Longrightarrow> n = 2 ^ trailing_zeros n"
proof (induction n rule: trailing_zeros.induct)
  case (1 n)
  show ?case
  proof (cases "odd n")
    case True
    with 1 have "n = 1" by (blast intro: power_of_two_odd)
    then show ?thesis by (simp add: trailing_zeros.simps)
  next
    case False
    from 1 False have "is_power_of_two (n div 2)" by (blast intro: power_of_two_half)
    moreover from 1 have "n \<noteq> 0" by (simp add: is_power_of_two_def)
    ultimately have "n div 2 = 2 ^ trailing_zeros (n div 2)" using 1 False by blast
    moreover from False have "n = 2 * (n div 2)" by simp
    ultimately show ?thesis using False \<open>n \<noteq> 0\<close> by (metis power_Suc trailing_zeros.simps)
  qed
qed

lemma is_power_of_two_iff: "is_power_of_two n \<longleftrightarrow> (\<exists>k. n = 2 ^ k)"
  using is_power_of_two_trailing_zeros by auto

lemma power_of_two_pos [dest]: "is_power_of_two n \<Longrightarrow> 0 < n"
  by (simp add: is_power_of_two_def)

lemma trailing_zeros_pow [simp]: "trailing_zeros (2 ^ k) = k"
  using is_power_of_two_trailing_zeros [OF is_power_of_two_pow [of k]]
  by simp

lemma and_pred_power_of_two [bitmask]:
  "is_power_of_two m \<Longrightarrow> n AND (m - Suc 0) = n mod m"
  by (auto simp: is_power_of_two_iff and_pred_two_pow)

lemma power_of_two_dvd_iff:
  "is_power_of_two a \<Longrightarrow> is_power_of_two b \<Longrightarrow> a dvd b \<longleftrightarrow> a \<le> b"
  by (auto simp: is_power_of_two_iff dvd_power_iff_le)

lemma or_pred_power_of_two [bitmask]:
  assumes "is_power_of_two m"
  shows "n OR (m - Suc 0) = n - n mod m + (m - 1)"
proof -
  obtain k where m: "m = 2 ^ k" using assms by (auto simp: is_power_of_two_iff)
  have "n OR mask k = push_bit k (drop_bit k n) + mask k"
    by (rule bit_eqI) (auto simp: bit_simps disjunctive_add)
  moreover have "push_bit k (drop_bit k n) = n - n mod m"
    by (simp add: m push_bit_eq_mult drop_bit_eq_div minus_mod_eq_div_mult [symmetric])
  ultimately show ?thesis by (simp add: m mask_eq_exp_minus_1)
qed

lemma and_high_mask:
  fixes x :: nat
  assumes "x < 2 ^ n" and "k \<le> n"
  shows "x AND (2 ^ n - 2 ^ k) = x - x mod 2 ^ k"
proof -
  have m: "(2::nat) ^ n - 2 ^ k = push_bit k (mask (n - k))"
    using assms(2) by (simp add: push_bit_eq_mult mask_eq_exp_minus_1 diff_mult_distrib
        flip: power_add)
  have "x AND push_bit k (mask (n - k)) = push_bit k (drop_bit k x)"
  proof (rule bit_eqI)
    fix i
    show "bit (x AND push_bit k (mask (n - k))) i \<longleftrightarrow> bit (push_bit k (drop_bit k x)) i"
    proof (cases "i < n")
      case True
      then show ?thesis by (auto simp: bit_simps)
    next
      case False
      then have "x < 2 ^ i" using assms(1) by (meson not_less order_less_le_trans
            power_increasing_iff one_less_numeral_iff semiring_norm(76) linorder_not_le)
      then have "\<not> bit x i" by (simp add: bit_nat_def)
      with False show ?thesis by (auto simp: bit_simps)
    qed
  qed
  then show ?thesis
    by (simp add: m push_bit_eq_mult drop_bit_eq_div minus_mod_eq_div_mult [symmetric])
qed

subsection \<open>Cyclic distance\<close>

text \<open>
  \<open>cdist C a b\<close> is how many steps forward lead from slot \<open>a\<close> to slot \<open>b\<close> of a ring of
  \<open>C\<close> slots.  In the sources it is written \<open>b.wrapping_sub(a) & (C - 1)\<close>.
\<close>

definition cdist :: "nat \<Rightarrow> nat \<Rightarrow> nat \<Rightarrow> nat" where
  "cdist C a b = (b + C - a) mod C"

definition wrapping_sub :: "nat \<Rightarrow> nat \<Rightarrow> nat" where
  "wrapping_sub a b = (a + 2 ^ 64 - b) mod 2 ^ 64"

lemma cdist_less [simp]: "0 < C \<Longrightarrow> cdist C a b < C"
  by (simp add: cdist_def)

lemma cdist_same [simp]: "a < C \<Longrightarrow> cdist C a a = 0"
  by (simp add: cdist_def)

lemma cdist_cases:
  "a < C \<Longrightarrow> b < C \<Longrightarrow> cdist C a b = (if a \<le> b then b - a else b + C - a)"
  by (auto simp: cdist_def mod_if)

lemma cdist_split:
  assumes "a < C" "b < C" "c < C" and "cdist C a b < cdist C a c"
  shows "cdist C a c = cdist C a b + cdist C b c"
  using assms by (auto simp: cdist_cases split: if_splits)

lemma cdist_chain:
  assumes "h < C" "a < C" "b < C" "p < C"
    and "cdist C h a < cdist C h p" and "cdist C a b < cdist C a p"
  shows "cdist C h b < cdist C h p"
  using assms by (auto simp: cdist_cases split: if_splits)

lemma cdist_eq_0 [simp]: "a < C \<Longrightarrow> b < C \<Longrightarrow> cdist C a b = 0 \<longleftrightarrow> a = b"
  by (auto simp: cdist_cases)

lemma cdist_inj: "a < C \<Longrightarrow> b < C \<Longrightarrow> c < C \<Longrightarrow> cdist C a b = cdist C a c \<longleftrightarrow> b = c"
  by (auto simp: cdist_cases)

lemma cdist_Suc_left:
  "a < C \<Longrightarrow> b < C \<Longrightarrow> a \<noteq> b \<Longrightarrow> Suc (cdist C (Suc a mod C) b) = cdist C a b"
  by (cases "Suc a = C") (auto simp: cdist_cases)

lemma cdist_Suc_right:
  "a < C \<Longrightarrow> b < C \<Longrightarrow> Suc b mod C \<noteq> a \<Longrightarrow> cdist C a (Suc b mod C) = Suc (cdist C a b)"
  by (cases "Suc b = C") (auto simp: cdist_cases)

lemma cdist_add: "a < C \<Longrightarrow> t < C \<Longrightarrow> cdist C a ((a + t) mod C) = t"
  by (cases "a + t < C") (auto simp: cdist_cases mod_if)

lemma wrapping_sub_mask:
  assumes "is_power_of_two C" "C \<le> 2 ^ 63" "a < C" "b < C"
  shows "wrapping_sub a b AND (C - Suc 0) = cdist C b a"
proof -
  from assms(1) obtain k where k: "C = 2 ^ k" by (auto simp: is_power_of_two_iff)
  have "k \<le> 63" using power_le_imp_le_exp [of "2::nat" k 63] assms(2) k by simp
  then have dvd: "C dvd 2 ^ 64" unfolding k by (intro le_imp_power_dvd) simp
  then obtain m :: nat where m: "2 ^ 64 = C * m" by (auto simp: dvd_def)
  then have "0 < m" by (cases m) auto
  then obtain m' where m': "m = Suc m'" by (cases m) auto
  have "wrapping_sub a b AND (C - Suc 0) = (a + 2 ^ 64 - b) mod C"
    unfolding wrapping_sub_def and_pred_power_of_two [OF assms(1)]
    by (rule mod_mod_cancel [OF dvd])
  also have "a + 2 ^ 64 - b = (a + C - b) + C * m'"
    unfolding m m' using assms(4) by simp
  finally show ?thesis by (simp add: cdist_def)
qed

subsection \<open>Words and the numbers they stand for\<close>

lemma unat_u64_less [simp]: "unat (w :: u64) < 18446744073709551616"
  using unsigned_less [where 'a = nat, of w] by simp

lemma odd_unat_iff: "odd (unat (w :: 'a::len word)) \<longleftrightarrow> odd w"
  by (simp add: bit_unsigned_iff flip: bit_0)

lemma not_bit_above:
  fixes w :: "'a::len word"
  assumes "unat w < 2 ^ n" and "n \<le> i"
  shows "\<not> bit w i"
proof -
  have "unat w < 2 ^ i" using assms by (meson less_le_trans one_le_numeral power_increasing)
  then have "\<not> bit (unat w) i" by (simp add: bit_iff_odd)
  then show ?thesis by (simp add: bit_unsigned_iff)
qed

subsection \<open>Lists as arrays\<close>

lemma distinct_map_filter_nth:
  assumes "distinct (map f (filter P xs))" and "i < length xs" "j < length xs" "P (xs ! i)" "P (xs ! j)"
    and "f (xs ! i) = f (xs ! j)"
  shows "i = j"
proof -
  have "\<not> i < j" if "distinct (map f (filter P xs))" "i < length xs" "j < length xs"
    "P (xs ! i)" "P (xs ! j)" "f (xs ! i) = f (xs ! j)" for i j
  proof
    assume "i < j"
    have "xs = take j xs @ xs ! j # drop (Suc j) xs" using that(3) by (rule id_take_nth_drop)
    then have "distinct (map f (filter P (take j xs @ xs ! j # drop (Suc j) xs)))" using that(1) by simp
    then have "f (xs ! j) \<notin> f ` set (filter P (take j xs))" using that(5) by simp
    moreover have "xs ! i \<in> set (take j xs)" using \<open>i < j\<close> that(2)
      by (auto simp: in_set_conv_nth intro!: exI [of _ i])
    then have "f (xs ! i) \<in> f ` set (filter P (take j xs))" using that(4) by simp
    ultimately show False using that(6) by simp
  qed
  from this [of i j] this [of j i] assms show ?thesis by (metis linorder_neqE_nat)
qed

lemma or_low_bits:
  fixes a m :: nat
  assumes "a mod 2 ^ k = 0" and "m < 2 ^ k"
  shows "a OR m = a + m"
proof -
  have "\<not> bit a n \<or> \<not> bit m n" for n
  proof (cases "n < k")
    case True
    have "a = push_bit k (a div 2 ^ k)" using assms(1) by (simp add: push_bit_eq_mult mult.commute)
        (metis dvd_imp_mod_0 dvd_mult_div_cancel mod_0_imp_dvd)
    then show ?thesis using True by (metis bit_push_bit_iff_nat not_less)
  next
    case False
    then have "m < 2 ^ n" using assms(2)
      by (meson less_le_trans not_less one_le_numeral power_increasing)
    then show ?thesis by (simp add: bit_iff_odd)
  qed
  then show ?thesis by (simp add: disjunctive_add)
qed

subsection \<open>Searching an index range\<close>

lemma find_append:
  "find P (xs @ ys) = (case find P xs of None \<Rightarrow> find P ys | Some x \<Rightarrow> Some x)"
  by (induction xs) auto

lemma find_upt_skip:
  assumes "\<And>c. i \<le> c \<Longrightarrow> c < j \<Longrightarrow> \<not> P c" and "i \<le> j" and "j \<le> n"
  shows "find P [i..<n] = find P [j..<n]"
proof -
  have "[i..<n] = [i..<j] @ [j..<n]" using assms(2,3) by (metis le_add_diff_inverse upt_add_eq_append)
  moreover have "find P [i..<j] = None" using assms(1) by (auto simp: find_None_iff)
  ultimately show ?thesis by (simp add: find_append)
qed

lemma find_upt_Some_iff:
  "find P [i..<n] = Some c \<longleftrightarrow> i \<le> c \<and> c < n \<and> P c \<and> (\<forall>d. i \<le> d \<and> d < c \<longrightarrow> \<not> P d)"
proof
  assume "find P [i..<n] = Some c"
  then obtain m where m: "m < n - i" "P (i + m)" "c = i + m"
    and first: "\<And>j. j < m \<Longrightarrow> \<not> P ([i..<n] ! j)"
    by (auto simp: find_Some_iff)
  have "\<not> P d" if "i \<le> d" "d < c" for d
    using first [of "d - i"] that m by simp
  with m show "i \<le> c \<and> c < n \<and> P c \<and> (\<forall>d. i \<le> d \<and> d < c \<longrightarrow> \<not> P d)"
    by auto
next
  assume "i \<le> c \<and> c < n \<and> P c \<and> (\<forall>d. i \<le> d \<and> d < c \<longrightarrow> \<not> P d)"
  then show "find P [i..<n] = Some c"
    by (subst find_upt_skip [of i c]) (auto simp: upt_conv_Cons)
qed

end
