(* ===== verification/SizeClasses.thy ===== *)
theory SizeClasses
  imports Prelude
begin

text \<open>
  The crate \<open>size-classes\<close> (\<open>crates/size-classes/src/lib.rs\<close>): the construction of the
  size-class table from its parameters, the size-to-class lookup table, and the request
  classification \<open>class_for\<close> that the allocator calls on every request.

  A \<open>usize\<close> is a natural number; every checked operation, assertion and
  \<open>debug_assert!\<close> of the source is a branch that yields an error value, so the model
  is the debug build, whose assertions are on.  The const generic parameters \<open>N\<close> and
  \<open>L\<close> are arguments.
\<close>

subsection \<open>Parameters and errors\<close>

record params =
  min_block :: nat
  growth :: "nat \<times> nat"
  geo_count :: nat
  extras :: "nat list"
  huge_threshold :: nat

definition params_new :: "nat \<Rightarrow> nat \<times> nat \<Rightarrow> nat \<Rightarrow> nat list \<Rightarrow> nat \<Rightarrow> params" where
  "params_new mb gr gc ex ht =
     \<lparr>min_block = mb, growth = gr, geo_count = gc, extras = ex, huge_threshold = ht\<rparr>"

datatype sc_error =
    MinBlockNotPowerOfTwo
  | LenOverflow
  | GeoCountZero
  | GrowthDenominatorZero
  | TableLenMismatch
  | ExtraMisaligned
  | ExtraTooSmall
  | ExtrasNotIncreasing
  | GeoMulOverflow
  | GeoAddOverflow
  | GeoUsizeOverflow
  | TableNotIncreasing
  | TableEmpty
  | TooManyClasses
  | LookupLenMismatch
  | SmallMaxMisaligned
  | AlignNotPowerOfTwo

subsection \<open>\<open>size2class_len\<close>\<close>

definition size2class_len :: "nat \<Rightarrow> nat \<Rightarrow> sc_error + nat" where
  "size2class_len max_class mb =
     (if \<not> is_power_of_two mb then Inl MinBlockNotPowerOfTwo
      else if max_class div mb + 1 > usize_max then Inl LenOverflow
      else Inr (max_class div mb + 1))"

subsection \<open>\<open>build_table\<close>\<close>

text \<open>The validation loop over \<open>params.extras\<close>, from index \<open>i\<close> on.\<close>

function check_extras :: "nat \<Rightarrow> nat list \<Rightarrow> nat \<Rightarrow> sc_error + unit" where
  "check_extras mb ex i =
     (if i < length ex then
        if ex ! i AND (mb - 1) \<noteq> 0 then Inl ExtraMisaligned
        else if ex ! i < mb then Inl ExtraTooSmall
        else if 0 < i \<and> ex ! i \<le> ex ! (i - 1) then Inl ExtrasNotIncreasing
        else check_extras mb ex (Suc i)
      else Inr ())"
  by pat_completeness auto
termination by (relation "measure (\<lambda>(mb, ex, i). length ex - i)") auto

text \<open>
  The next geometric value after \<open>cur\<close>: scaled by the growth ratio in 128 bits, rounded
  up to the block size, bumped by one block when the ratio does not grow it.
\<close>

definition next_geo :: "params \<Rightarrow> nat \<Rightarrow> sc_error + nat" where
  "next_geo p cur =
     (let mask = min_block p - 1; num = fst (growth p); den = snd (growth p) in
      if cur * num > u128_max then Inl GeoMulOverflow
      else let scaled = div_ceil (cur * num) den in
      if scaled + mask > u128_max then Inl GeoAddOverflow
      else let rounded = (scaled + mask) AND (u128_max - mask) in
      if rounded > usize_max then Inl GeoUsizeOverflow
      else if rounded \<le> cur then
        (if cur + min_block p > usize_max then Inl GeoUsizeOverflow
         else Inr (cur + min_block p))
      else Inr rounded)"

text \<open>
  The two-cursor merge: \<open>gi\<close> and \<open>ei\<close> are the source's cursors, \<open>cur\<close> the pending
  geometric value, \<open>out\<close> the entries written so far (the source's \<open>oi\<close> is its length).
\<close>

function merge_loop :: "params \<Rightarrow> nat \<Rightarrow> nat \<Rightarrow> nat \<Rightarrow> nat list \<Rightarrow> sc_error + nat list" where
  "merge_loop p gi ei cur out =
     (if gi < geo_count p \<or> ei < length (extras p) then
        let take_geo = (if geo_count p \<le> gi then False
                        else if length (extras p) \<le> ei then True
                        else cur < extras p ! ei) in
        if take_geo then
          (if Suc gi < geo_count p then
             (case next_geo p cur of
                Inl e \<Rightarrow> Inl e
              | Inr nxt \<Rightarrow> merge_loop p (Suc gi) ei nxt (out @ [cur]))
           else merge_loop p (Suc gi) ei cur (out @ [cur]))
        else merge_loop p gi (Suc ei) cur (out @ [extras p ! ei])
      else Inr out)"
  by pat_completeness auto
termination
  by (relation "measure (\<lambda>(p, gi, ei, cur, out). (geo_count p - gi) + (length (extras p) - ei))")
     (auto split: if_splits)

declare check_extras.simps [simp del] merge_loop.simps [simp del]

text \<open>The strictly-increasing checks of \<open>build_table\<close> and \<open>build_size2class\<close>, from index \<open>i\<close> on.\<close>

function increasing_from :: "nat list \<Rightarrow> nat \<Rightarrow> bool" where
  "increasing_from t i =
     (if i < length t then (if t ! i > t ! (i - 1) then increasing_from t (Suc i) else False)
      else True)"
  by pat_completeness auto
termination by (relation "measure (\<lambda>(t, i). length t - i)") auto

declare increasing_from.simps [simp del]

definition build_table :: "nat \<Rightarrow> params \<Rightarrow> sc_error + nat list" where
  "build_table N p =
     (if \<not> is_power_of_two (min_block p) then Inl MinBlockNotPowerOfTwo
      else if geo_count p = 0 then Inl GeoCountZero
      else if snd (growth p) = 0 then Inl GrowthDenominatorZero
      else if geo_count p + length (extras p) > usize_max
              \<or> geo_count p + length (extras p) \<noteq> N then Inl TableLenMismatch
      else case check_extras (min_block p) (extras p) 0 of
        Inl e \<Rightarrow> Inl e
      | Inr _ \<Rightarrow>
          (case merge_loop p 0 0 (min_block p) [] of
             Inl e \<Rightarrow> Inl e
           | Inr out \<Rightarrow> if increasing_from out 1 then Inr out else Inl TableNotIncreasing))"

subsection \<open>\<open>build_size2class\<close>\<close>

text \<open>The inner loop: advance the class cursor to the first class of at least \<open>need\<close> bytes.\<close>

function advance_class :: "nat list \<Rightarrow> nat \<Rightarrow> nat \<Rightarrow> nat" where
  "advance_class t need ci =
     (if ci < length t then (if t ! ci \<ge> need then ci else advance_class t need (Suc ci))
      else ci)"
  by pat_completeness auto
termination by (relation "measure (\<lambda>(t, need, ci). length t - ci)") auto

declare advance_class.simps [simp del]

definition bucket_need :: "nat \<Rightarrow> nat \<Rightarrow> nat \<Rightarrow> nat" where
  "bucket_need mb small_max k =
     (if (k + 1) * mb \<le> usize_max \<and> (k + 1) * mb < small_max then (k + 1) * mb else small_max)"

text \<open>The outer loop: \<open>out\<close> holds the entries below \<open>k\<close>, \<open>n\<close> of them are still to come.\<close>

fun fill_size2class :: "nat list \<Rightarrow> nat \<Rightarrow> nat \<Rightarrow> nat \<Rightarrow> nat \<Rightarrow> nat \<Rightarrow> u8 list \<Rightarrow> u8 list" where
  "fill_size2class t mb small_max 0 k ci out = out"
| "fill_size2class t mb small_max (Suc n) k ci out =
     (let ci' = advance_class t (bucket_need mb small_max k) ci
      in fill_size2class t mb small_max n (Suc k) ci' (out @ [word_of_nat ci']))"

definition build_size2class :: "nat list \<Rightarrow> nat \<Rightarrow> nat \<Rightarrow> sc_error + u8 list" where
  "build_size2class t mb L =
     (if length t = 0 then Inl TableEmpty
      else if \<not> is_power_of_two mb then Inl MinBlockNotPowerOfTwo
      else if length t > 256 then Inl TooManyClasses
      else if \<not> increasing_from t 1 then Inl TableNotIncreasing
      else case size2class_len (t ! (length t - 1)) mb of
        Inl e \<Rightarrow> Inl e
      | Inr len \<Rightarrow>
          if L \<noteq> len then Inl LookupLenMismatch
          else Inr (fill_size2class t mb (t ! (length t - 1)) L 0 0 []))"

subsection \<open>The assembled classifier\<close>

record size_classes =
  table :: "nat list"
  size2class :: "u8 list"
  min_block_shift :: nat
  sc_huge_threshold :: nat

definition build :: "nat \<Rightarrow> nat \<Rightarrow> params \<Rightarrow> sc_error + size_classes" where
  "build N L p =
     (case build_table N p of
        Inl e \<Rightarrow> Inl e
      | Inr t \<Rightarrow>
          (case build_size2class t (min_block p) L of
             Inl e \<Rightarrow> Inl e
           | Inr s2c \<Rightarrow>
               if t ! (N - 1) mod min_block p \<noteq> 0 then Inl SmallMaxMisaligned
               else Inr \<lparr>table = t, size2class = s2c,
                         min_block_shift = trailing_zeros (min_block p),
                         sc_huge_threshold = huge_threshold p\<rparr>))"

definition sc_min_block :: "size_classes \<Rightarrow> nat" where
  "sc_min_block sc = push_bit (min_block_shift sc) 1"

definition small_align_max :: "size_classes \<Rightarrow> nat" where
  "small_align_max sc = push_bit (min_block_shift sc) 1"

definition small_max :: "size_classes \<Rightarrow> nat" where
  "small_max sc = table sc ! (length (table sc) - 1)"

definition block_size :: "size_classes \<Rightarrow> nat \<Rightarrow> nat option" where
  "block_size sc i = (if i < length (table sc) then Some (table sc ! i) else None)"

definition is_huge :: "size_classes \<Rightarrow> nat \<Rightarrow> bool" where
  "is_huge sc sz \<longleftrightarrow> sc_huge_threshold sc \<le> sz"

text \<open>
  The scan of \<open>class_for\<close> for over-aligned requests.  Its cursor jumps through the lookup
  table, so nothing in the loop itself bounds it: the model is partial (\<open>None\<close> would be
  a loop that never ends) and termination is a theorem about built classifiers.
\<close>

partial_function (option) class_scan :: "size_classes \<Rightarrow> nat \<Rightarrow> nat \<Rightarrow> nat option option" where
  "class_scan sc align i =
     (if i < length (table sc) then
        let block = table sc ! i in
        if block AND (align - 1) = 0 then Some (Some i)
        else
          let next_idx = drop_bit (min_block_shift sc) (block OR (align - 1)) in
          if length (size2class sc) - 1 \<le> next_idx then Some None
          else class_scan sc align (unat (size2class sc ! next_idx))
      else Some None)"

definition class_for :: "size_classes \<Rightarrow> nat \<Rightarrow> nat \<Rightarrow> (sc_error + nat option) option" where
  "class_for sc sz align =
     (if \<not> is_power_of_two align then Some (Inl AlignNotPowerOfTwo)
      else
        let need = (if align < sz then sz else align);
            seed_idx = drop_bit (min_block_shift sc) (need - 1) in
        if length (size2class sc) - 1 \<le> seed_idx then Some (Inr None)
        else
          let seed = unat (size2class sc ! seed_idx) in
          if align \<le> push_bit (min_block_shift sc) 1 then Some (Inr (Some seed))
          else map_option Inr (class_scan sc align seed))"

text \<open>\<open>try_class_for\<close>: the total entry point, with the \<open>InvalidAlign\<close> error as a value.\<close>

datatype invalid_align = InvalidAlign nat

definition try_class_for ::
    "size_classes \<Rightarrow> nat \<Rightarrow> nat \<Rightarrow> (invalid_align + (sc_error + nat option)) option" where
  "try_class_for sc sz align =
     (if \<not> is_power_of_two align then Some (Inl (InvalidAlign align))
      else map_option Inr (class_for sc sz align))"


subsection \<open>Facts about the construction\<close>

definition block_aligned :: "nat \<Rightarrow> nat list \<Rightarrow> bool" where
  "block_aligned mb xs \<longleftrightarrow> (\<forall>x \<in> set xs. mb dvd x \<and> mb \<le> x)"

text \<open>The values of the parameters fit the source's \<open>usize\<close> fields.\<close>

definition usize_params :: "params \<Rightarrow> bool" where
  "usize_params p \<longleftrightarrow> min_block p \<le> usize_max \<and> (\<forall>x \<in> set (extras p). x \<le> usize_max)"

lemma check_extras_ok:
  assumes "check_extras mb ex i = Inr ()" and "is_power_of_two mb" and "i \<le> j" and "j < length ex"
  shows "mb dvd ex ! j \<and> mb \<le> ex ! j"
  using assms
proof (induction mb ex i rule: check_extras.induct)
  case (1 mb ex i)
  show ?case
  proof (cases "i = j")
    case True
    with "1.prems" show ?thesis
      by (auto simp: check_extras.simps [of mb ex j] bitmask mod_eq_0_iff_dvd split: if_splits)
  next
    case False
    with "1.prems" show ?thesis
      by (intro "1.IH") (auto simp: check_extras.simps [of mb ex i] split: if_splits)
  qed
qed

lemma check_extras_aligned:
  "check_extras mb ex 0 = Inr () \<Longrightarrow> is_power_of_two mb \<Longrightarrow> block_aligned mb ex"
  by (auto simp: block_aligned_def in_set_conv_nth dest: check_extras_ok)

lemma next_geo_ok:
  assumes "next_geo p cur = Inr n" and "is_power_of_two (min_block p)" and "min_block p dvd cur"
  shows "min_block p dvd n \<and> cur < n \<and> n \<le> usize_max"
proof -
  obtain k where k: "min_block p = 2 ^ k" using assms(2) by (auto simp: is_power_of_two_iff)
  define y where "y = div_ceil (cur * fst (growth p)) (snd (growth p)) + (min_block p - 1)"
  show ?thesis
  proof (cases "y > u128_max")
    case True
    with assms(1) show ?thesis by (simp add: next_geo_def Let_def y_def split: if_splits)
  next
    case False
    then have y: "y < 2 ^ 128" by simp
    moreover have "2 ^ k - 1 \<le> y" by (simp add: y_def k)
    ultimately have "(2::nat) ^ k \<le> 2 ^ 128" by simp
    then have "k \<le> 128" by (rule power_le_imp_le_exp [rotated]) simp
    have "u128_max - (min_block p - 1) = 2 ^ 128 - 2 ^ k" by (simp add: k)
    then have r: "y AND (u128_max - (min_block p - 1)) = y - y mod 2 ^ k"
      using and_high_mask [OF y \<open>k \<le> 128\<close>] by simp
    have "2 ^ k dvd y - y mod 2 ^ k" by (rule dvd_minus_mod)
    moreover have "next_geo p cur =
       (if cur * fst (growth p) > u128_max then Inl GeoMulOverflow
        else if y > u128_max then Inl GeoAddOverflow
        else if y - y mod 2 ^ k > usize_max then Inl GeoUsizeOverflow
        else if y - y mod 2 ^ k \<le> cur then
          (if cur + min_block p > usize_max then Inl GeoUsizeOverflow
           else Inr (cur + min_block p))
        else Inr (y - y mod 2 ^ k))"
      by (simp only: next_geo_def Let_def r flip: y_def)
    ultimately show ?thesis using assms(1,3) by (auto simp: k split: if_splits)
  qed
qed


lemma merge_loop_ok:
  assumes "merge_loop p gi ei cur out = Inr r" and "is_power_of_two (min_block p)"
    and "block_aligned (min_block p) (extras p)" and "min_block p dvd cur" and "min_block p \<le> cur"
    and "usize_params p" and "cur \<le> usize_max"
  shows "\<exists>s. r = out @ s \<and> length s = (geo_count p - gi) + (length (extras p) - ei)
           \<and> block_aligned (min_block p) s \<and> set (drop ei (extras p)) \<subseteq> set s
           \<and> (gi < geo_count p \<longrightarrow> cur \<in> set s) \<and> (\<forall>x \<in> set s. x \<le> usize_max)"
  using assms
proof (induction p gi ei cur out rule: merge_loop.induct)
  case (1 p gi ei cur out)
  define take_geo where "take_geo = (if geo_count p \<le> gi then False
      else if length (extras p) \<le> ei then True else cur < extras p ! ei)"
  have unfold: "merge_loop p gi ei cur out =
     (if gi < geo_count p \<or> ei < length (extras p) then
        if take_geo then
          (if Suc gi < geo_count p then
             (case next_geo p cur of
                Inl e \<Rightarrow> Inl e
              | Inr nxt \<Rightarrow> merge_loop p (Suc gi) ei nxt (out @ [cur]))
           else merge_loop p (Suc gi) ei cur (out @ [cur]))
        else merge_loop p gi (Suc ei) cur (out @ [extras p ! ei])
      else Inr out)"
    by (simp only: merge_loop.simps [of p gi ei cur out] take_geo_def Let_def)
  show ?case
  proof (cases "gi < geo_count p \<or> ei < length (extras p)")
    case False
    with "1.prems" show ?thesis by (auto simp: unfold block_aligned_def)
  next
    case more: True
    show ?thesis
    proof (cases take_geo)
      case geo: True
      then have gi: "gi < geo_count p" by (auto simp: take_geo_def split: if_splits)
      have rest: "\<exists>nxt. merge_loop p (Suc gi) ei nxt (out @ [cur]) = Inr r \<and> min_block p dvd nxt
          \<and> min_block p \<le> nxt \<and> nxt \<le> usize_max
          \<and> (Suc gi < geo_count p \<longrightarrow> next_geo p cur = Inr nxt)
          \<and> (\<not> Suc gi < geo_count p \<longrightarrow> nxt = cur)"
      proof (cases "Suc gi < geo_count p")
        case True
        with more geo "1.prems" show ?thesis
          by (auto simp: unfold split: sum.splits dest!: next_geo_ok)
      next
        case False
        with more geo "1.prems" show ?thesis by (auto simp: unfold)
      qed
      then obtain nxt where nxt: "merge_loop p (Suc gi) ei nxt (out @ [cur]) = Inr r"
        and nxt_ok: "min_block p dvd nxt" "min_block p \<le> nxt" "nxt \<le> usize_max"
        and from_geo: "Suc gi < geo_count p \<Longrightarrow> next_geo p cur = Inr nxt"
        and from_cur: "\<not> Suc gi < geo_count p \<Longrightarrow> nxt = cur"
        by blast
      have "\<exists>s. r = (out @ [cur]) @ s
          \<and> length s = (geo_count p - Suc gi) + (length (extras p) - ei)
          \<and> block_aligned (min_block p) s \<and> set (drop ei (extras p)) \<subseteq> set s
          \<and> (\<forall>x \<in> set s. x \<le> usize_max)"
      proof (cases "Suc gi < geo_count p")
        case True
        from "1.IH"(1) [OF more take_geo_def geo True from_geo [OF True]] nxt nxt_ok "1.prems"
        show ?thesis by blast
      next
        case False
        from "1.IH"(2) [OF more take_geo_def geo False] nxt "1.prems" from_cur [OF False]
        show ?thesis by blast
      qed
      then obtain s where "r = out @ cur # s"
        and "length s = (geo_count p - Suc gi) + (length (extras p) - ei)"
        and "block_aligned (min_block p) s" and "set (drop ei (extras p)) \<subseteq> set s"
        and "\<forall>x \<in> set s. x \<le> usize_max"
        by auto
      with "1.prems" gi show ?thesis
        by (intro exI [of _ "cur # s"]) (auto simp: block_aligned_def)
    next
      case ext: False
      with more have ei: "ei < length (extras p)" by (auto simp: take_geo_def split: if_splits)
      from more ext "1.prems" have "merge_loop p gi (Suc ei) cur (out @ [extras p ! ei]) = Inr r"
        by (simp add: unfold)
      from "1.IH"(3) [OF more take_geo_def ext this "1.prems"(2-)]
      obtain s where "r = out @ extras p ! ei # s"
        and "length s = (geo_count p - gi) + (length (extras p) - Suc ei)"
        and "block_aligned (min_block p) s" and "set (drop (Suc ei) (extras p)) \<subseteq> set s"
        and "gi < geo_count p \<longrightarrow> cur \<in> set s" and "\<forall>x \<in> set s. x \<le> usize_max"
        by auto
      moreover have "drop ei (extras p) = extras p ! ei # drop (Suc ei) (extras p)"
        using ei by (rule Cons_nth_drop_Suc [symmetric])
      ultimately show ?thesis using "1.prems" ei
        by (intro exI [of _ "extras p ! ei # s"])
           (auto simp: block_aligned_def usize_params_def)
    qed
  qed
qed

lemma increasing_from_iff:
  "0 < i \<Longrightarrow> increasing_from t i \<longleftrightarrow> (\<forall>j. i \<le> j \<and> j < length t \<longrightarrow> t ! (j - 1) < t ! j)"
proof (induction t i rule: increasing_from.induct)
  case (1 t i)
  show ?case
  proof (cases "i < length t \<and> t ! (i - 1) < t ! i")
    case True
    then have "increasing_from t i \<longleftrightarrow> increasing_from t (Suc i)"
      by (simp add: increasing_from.simps [of t i])
    also have "\<dots> \<longleftrightarrow> (\<forall>j. Suc i \<le> j \<and> j < length t \<longrightarrow> t ! (j - 1) < t ! j)"
      using "1.IH" True by simp
    finally show ?thesis using True by (metis Suc_leD Suc_leI le_neq_implies_less)
  next
    case False
    then show ?thesis by (auto simp: increasing_from.simps [of t i])
  qed
qed

lemma increasing_from_sorted [simp]: "increasing_from t (Suc 0) \<longleftrightarrow> sorted_wrt (<) t"
proof -
  have "(\<forall>j. Suc 0 \<le> j \<and> j < length t \<longrightarrow> t ! (j - 1) < t ! j)
      \<longleftrightarrow> (\<forall>i. Suc i < length t \<longrightarrow> t ! i < t ! Suc i)" (is "?L \<longleftrightarrow> ?R")
  proof
    assume ?L
    then show ?R by fastforce
  next
    assume R: ?R
    show ?L
    proof (intro allI impI)
      fix j assume "Suc 0 \<le> j \<and> j < length t"
      then show "t ! (j - 1) < t ! j" using R by (cases j) auto
    qed
  qed
  moreover have "transp ((<) :: nat \<Rightarrow> nat \<Rightarrow> bool)" by (rule transp_on_less)
  ultimately show ?thesis
    by (simp only: increasing_from_iff [OF zero_less_Suc] sorted_wrt_iff_nth_Suc_transp)
qed

theorem build_table_ok:
  assumes "build_table N p = Inr t" and "usize_params p"
  shows "length t = N \<and> sorted_wrt (<) t \<and> t \<noteq> [] \<and> t ! 0 = min_block p
     \<and> block_aligned (min_block p) t \<and> set (extras p) \<subseteq> set t \<and> (\<forall>x \<in> set t. x \<le> usize_max)"
proof -
  from assms have mb: "is_power_of_two (min_block p)" and geo: "0 < geo_count p"
    and N: "N = geo_count p + length (extras p)"
    and ex: "check_extras (min_block p) (extras p) 0 = Inr ()"
    and merge: "merge_loop p 0 0 (min_block p) [] = Inr t" and inc: "increasing_from t 1"
    by (auto simp: build_table_def split: if_splits sum.splits)
  have "min_block p \<le> usize_max" using assms(2) by (simp add: usize_params_def)
  with merge_loop_ok [OF merge mb check_extras_aligned [OF ex mb]] assms(2) geo N
  have t: "length t = N" "block_aligned (min_block p) t" "set (extras p) \<subseteq> set t"
    "min_block p \<in> set t" "\<forall>x \<in> set t. x \<le> usize_max" by auto
  have sorted: "sorted_wrt (<) t" using inc by simp
  from t(4) obtain i where i: "i < length t" "t ! i = min_block p" by (auto simp: in_set_conv_nth)
  have "t ! 0 = min_block p"
  proof (rule ccontr)
    assume "t ! 0 \<noteq> min_block p"
    with i have "0 < i" by (cases i) auto
    with sorted i have "t ! 0 < min_block p" by (metis sorted_wrt_nth_less)
    moreover have "t ! 0 \<in> set t" using i by (cases t) auto
    ultimately show False using t(2) by (auto simp: block_aligned_def)
  qed
  with t sorted i show ?thesis by auto
qed


subsection \<open>Facts about the lookup table\<close>

definition first_fit :: "nat list \<Rightarrow> nat \<Rightarrow> nat" where
  "first_fit t need = length (takeWhile (\<lambda>x. x < need) t)"

lemma first_fit_le: "first_fit t need \<le> length t"
  by (simp add: first_fit_def length_takeWhile_le)

lemma first_fit_below: "i < first_fit t need \<Longrightarrow> t ! i < need"
  using nth_mem [of i "takeWhile (\<lambda>x. x < need) t"]
  by (auto simp: first_fit_def takeWhile_nth dest: set_takeWhileD)

lemma first_fit_at: "first_fit t need < length t \<Longrightarrow> need \<le> t ! first_fit t need"
  using nth_length_takeWhile [of "\<lambda>x. x < need" t] by (simp add: first_fit_def)

lemma first_fit_above:
  "sorted_wrt (<) t \<Longrightarrow> i < length t \<Longrightarrow> first_fit t need \<le> i \<longleftrightarrow> need \<le> t ! i"
  using first_fit_below [of i t need] first_fit_at [of t need]
    sorted_wrt_nth_less [of "(<)" t "first_fit t need" i]
  by (metis leD leI le_neq_implies_less less_le_trans order.trans less_imp_le)

lemma first_fit_lt:
  "sorted_wrt (<) t \<Longrightarrow> t \<noteq> [] \<Longrightarrow> need \<le> t ! (length t - 1) \<Longrightarrow> first_fit t need < length t"
  by (metis first_fit_above diff_less length_greater_0_conv less_one order_le_less_trans)

lemma first_fit_mono: "need \<le> need' \<Longrightarrow> first_fit t need \<le> first_fit t need'"
  unfolding first_fit_def by (induction t) auto

lemma first_fit_cong:
  "(\<And>x. x \<in> set t \<Longrightarrow> x < a \<longleftrightarrow> x < b) \<Longrightarrow> first_fit t a = first_fit t b"
  unfolding first_fit_def by (metis (mono_tags, lifting) takeWhile_cong)

lemma advance_class_first_fit:
  "ci \<le> first_fit t need \<Longrightarrow> advance_class t need ci = first_fit t need"
proof (induction t need ci rule: advance_class.induct)
  case (1 t need ci)
  show ?case
  proof (cases "ci < length t \<and> \<not> need \<le> t ! ci")
    case True
    with "1.prems" have "Suc ci \<le> first_fit t need"
      using first_fit_at [of t need] by (metis Suc_leI le_neq_implies_less)
    with True "1.IH" show ?thesis by (simp add: advance_class.simps [of t need ci])
  next
    case False
    with "1.prems" have "ci = first_fit t need"
      using first_fit_below [of ci t need] first_fit_le [of t need] by fastforce
    with False show ?thesis by (subst advance_class.simps) auto
  qed
qed

lemma bucket_need_mono:
  assumes "k \<le> l"
  shows "bucket_need mb m k \<le> bucket_need mb m l"
proof -
  define a b where "a = (k + 1) * mb" and "b = (l + 1) * mb"
  have "a \<le> b" unfolding a_def b_def using assms by (intro mult_le_mono1) simp
  then show ?thesis unfolding bucket_need_def a_def [symmetric] b_def [symmetric] by auto
qed

lemma fill_size2class_eq:
  "ci \<le> first_fit t (bucket_need mb m k) \<Longrightarrow>
   fill_size2class t mb m n k ci out =
     out @ map (\<lambda>j. word_of_nat (first_fit t (bucket_need mb m j))) [k..<k + n]"
proof (induction n arbitrary: k ci out)
  case 0
  then show ?case by simp
next
  case (Suc n)
  have "first_fit t (bucket_need mb m k) \<le> first_fit t (bucket_need mb m (Suc k))"
    by (intro first_fit_mono bucket_need_mono) simp
  with Suc show ?case by (simp add: advance_class_first_fit upt_conv_Cons Let_def del: upt_Suc)
qed

subsection \<open>Well-formed classifiers\<close>

definition wf_classes :: "nat \<Rightarrow> size_classes \<Rightarrow> bool" where
  "wf_classes k sc \<longleftrightarrow>
     table sc \<noteq> [] \<and> sorted_wrt (<) (table sc) \<and> block_aligned (2 ^ k) (table sc)
     \<and> length (table sc) \<le> 256 \<and> min_block_shift sc = k \<and> (\<forall>x \<in> set (table sc). x \<le> usize_max)
     \<and> size2class sc =
         map (\<lambda>j. word_of_nat (first_fit (table sc) (bucket_need (2 ^ k) (small_max sc) j)))
           [0..<small_max sc div 2 ^ k + 1]"

lemma build_wf:
  assumes "build N L p = Inr sc" and "usize_params p"
  shows "min_block p = 2 ^ min_block_shift sc \<and> wf_classes (min_block_shift sc) sc
    \<and> build_table N p = Inr (table sc) \<and> sc_huge_threshold sc = huge_threshold p"
proof -
  from assms(1) obtain t s2c where t: "build_table N p = Inr t"
    and s2c: "build_size2class t (min_block p) L = Inr s2c"
    and sc: "sc = \<lparr>table = t, size2class = s2c, min_block_shift = trailing_zeros (min_block p),
                   sc_huge_threshold = huge_threshold p\<rparr>"
    by (auto simp: build_def split: sum.splits if_splits)
  from t have "is_power_of_two (min_block p)" by (simp add: build_table_def split: if_splits)
  then obtain k where mb: "min_block p = 2 ^ k" by (auto simp: is_power_of_two_iff)
  from s2c have len: "length t \<le> 256" and L: "L = t ! (length t - 1) div min_block p + 1"
    and fill: "s2c = fill_size2class t (min_block p) (t ! (length t - 1)) L 0 0 []"
    by (auto simp: build_size2class_def size2class_len_def split: if_splits sum.splits)
  have "s2c = map (\<lambda>j. word_of_nat (first_fit t (bucket_need (min_block p) (t ! (length t - 1)) j)))
                [0..<L]"
    using fill fill_size2class_eq [of 0 t "min_block p" "t ! (length t - 1)" 0 L "[]"] by simp
  with build_table_ok [OF t assms(2)] len mb L t show ?thesis
    by (simp add: wf_classes_def sc small_max_def del: upt_Suc)
qed

lemma wf_small_max:
  "wf_classes k sc \<Longrightarrow> small_max sc \<in> set (table sc) \<and> 2 ^ k dvd small_max sc
     \<and> small_max sc \<le> usize_max"
  by (auto simp: wf_classes_def small_max_def block_aligned_def)

lemma wf_lookup_length: "wf_classes k sc \<Longrightarrow> length (size2class sc) - Suc 0 = small_max sc div 2 ^ k"
  by (simp add: wf_classes_def)

lemma wf_lookup:
  assumes "wf_classes k sc" and "j < small_max sc div 2 ^ k"
  shows "unat (size2class sc ! j) = first_fit (table sc) ((j + 1) * 2 ^ k)"
proof -
  from assms(2) have "(j + 1) * 2 ^ k \<le> small_max sc"
    by (metis Suc_eq_plus1 Suc_leI div_times_less_eq_dividend mult_le_mono1 order_trans)
  then have "bucket_need (2 ^ k) (small_max sc) j = (j + 1) * 2 ^ k"
    using wf_small_max [OF assms(1)] by (auto simp: bucket_need_def)
  moreover have "first_fit (table sc) ((j + 1) * 2 ^ k) < 256"
    using first_fit_lt [of "table sc" "(j + 1) * 2 ^ k"] assms(1) \<open>(j + 1) * 2 ^ k \<le> _\<close>
    by (auto simp: wf_classes_def small_max_def)
  ultimately show ?thesis using assms by (simp add: wf_classes_def unat_of_nat del: upt_Suc)
qed


subsection \<open>Classification is optimal\<close>

text \<open>
  The reference: the first class that is large enough and aligned, by linear search.
\<close>

definition class_spec :: "nat list \<Rightarrow> nat \<Rightarrow> nat \<Rightarrow> nat option" where
  "class_spec t sz align = find (\<lambda>c. max sz align \<le> t ! c \<and> align dvd t ! c) [0..<length t]"

lemma class_spec_from:
  assumes "sorted_wrt (<) t"
  shows "class_spec t sz align = find (\<lambda>c. align dvd t ! c) [first_fit t (max sz align)..<length t]"
proof -
  have "class_spec t sz align =
      find (\<lambda>c. max sz align \<le> t ! c \<and> align dvd t ! c) [first_fit t (max sz align)..<length t]"
    unfolding class_spec_def
    by (rule find_upt_skip) (auto dest!: first_fit_below simp: first_fit_le)
  also have "\<dots> = find (\<lambda>c. align dvd t ! c) [first_fit t (max sz align)..<length t]"
    using first_fit_above [OF assms] by (intro find_cong) auto
  finally show ?thesis .
qed

lemma first_fit_round:
  assumes "block_aligned (2 ^ k) t" and "0 < need"
  shows "first_fit t (((need - 1) div 2 ^ k + 1) * 2 ^ k) = first_fit t need"
proof (rule first_fit_cong)
  fix x assume "x \<in> set t"
  then obtain y where y: "x = y * 2 ^ k" using assms(1) by (auto simp: block_aligned_def dvd_def)
  have "x < ((need - 1) div 2 ^ k + 1) * 2 ^ k \<longleftrightarrow> y \<le> (need - 1) div 2 ^ k"
    unfolding y by (subst mult_less_cancel2) (simp add: less_Suc_eq_le)
  also have "\<dots> \<longleftrightarrow> y * 2 ^ k \<le> need - 1" by (simp add: less_eq_div_iff_mult_less_eq)
  finally show "x < ((need - 1) div 2 ^ k + 1) * 2 ^ k \<longleftrightarrow> x < need" using assms(2) y by auto
qed

lemma round_up_div:
  fixes b :: nat
  assumes "k < a"
  shows "((b - b mod 2 ^ a + (2 ^ a - 1)) div 2 ^ k + 1) * 2 ^ k = (b div 2 ^ a + 1) * 2 ^ a"
proof -
  define q where "q = b div 2 ^ a"
  obtain d where a: "a = k + Suc d" using assms less_iff_Suc_add by auto
  have "b - b mod 2 ^ a + (2 ^ a - 1) = q * 2 ^ a + (2 ^ a - 1)"
    by (simp add: q_def minus_mod_eq_div_mult)
  also have "\<dots> = (q * 2 ^ Suc d + (2 ^ Suc d - 1)) * 2 ^ k + (2 ^ k - 1)"
  proof -
    define m :: nat where "m = 2 ^ Suc d - 1"
    have m: "(2::nat) ^ Suc d = m + 1" by (simp add: m_def)
    have "(2::nat) ^ a = (m + 1) * 2 ^ k" unfolding a power_add m by (rule mult.commute)
    moreover obtain e :: nat where "2 ^ k = e + 1"
      by (metis add.commute le_add_diff_inverse one_le_numeral one_le_power)
    ultimately show ?thesis unfolding m by (simp add: algebra_simps)
  qed
  moreover have "(X * 2 ^ k + (2 ^ k - 1)) div 2 ^ k = X" for X :: nat
    by (simp only: div_mult_self3 [OF power_not_zero [OF zero_neq_numeral [symmetric]]]) simp
  ultimately have X: "(b - b mod 2 ^ a + (2 ^ a - 1)) div 2 ^ k = q * 2 ^ Suc d + (2 ^ Suc d - 1)"
    by simp
  have "q * 2 ^ Suc d + (2 ^ Suc d - 1) + 1 = (q + 1) * 2 ^ Suc d"
    by (simp only: add.assoc le_add_diff_inverse2 [OF one_le_power [OF one_le_numeral]]) simp
  moreover have "(q + 1) * 2 ^ Suc d * 2 ^ k = (q + 1) * 2 ^ a"
    by (simp only: a power_add mult.assoc mult.commute [of "2 ^ k"])
  ultimately show ?thesis unfolding X q_def [symmetric] by (simp only:)
qed

lemma no_multiple_between:
  fixes b x m :: nat
  assumes "b < x" and "x < (b div m + 1) * m" and "m dvd x"
  shows "m dvd b"
proof -
  obtain y where y: "x = y * m" using assms(3) by (metis dvd_def mult.commute)
  with assms(2) have "y < b div m + 1" using mult_less_cancel2 by blast
  then have "y \<le> b div m" by simp
  then have "x \<le> b" unfolding y by (metis div_times_less_eq_dividend mult_le_mono1 order_trans)
  with assms(1) show ?thesis by simp
qed

lemma sorted_le_last:
  fixes t :: "nat list"
  assumes "sorted_wrt (<) t" and "c < length t"
  shows "t ! c \<le> t ! (length t - 1)"
proof (cases "c = length t - 1")
  case False
  with assms(2) have "c < length t - 1" by linarith
  with sorted_wrt_nth_less [OF assms(1)] show ?thesis by (auto intro: less_imp_le)
qed simp

lemma class_scan_correct:
  assumes wf: "wf_classes k sc" and "k < a"
  shows "class_scan sc (2 ^ a) i = Some (find (\<lambda>c. 2 ^ a dvd table sc ! c) [i..<length (table sc)])"
proof (induction "length (table sc) - i" arbitrary: i rule: less_induct)
  case less
  let ?t = "table sc"
  have sorted: "sorted_wrt (<) ?t" and shift: "min_block_shift sc = k"
    using wf by (simp_all add: wf_classes_def)
  show ?case
  proof (cases "i < length ?t")
    case False
    then show ?thesis by (simp add: class_scan.simps)
  next
    case i: True
    define b where "b = ?t ! i"
    define up where "up = (b div 2 ^ a + 1) * 2 ^ a"
    define j where "j = drop_bit (min_block_shift sc) (b OR (2 ^ a - 1))"
    have "j = (b - b mod 2 ^ a + (2 ^ a - 1)) div 2 ^ k"
      by (simp add: j_def shift drop_bit_eq_div or_pred_power_of_two)
    then have up_j: "up = (j + 1) * 2 ^ k" by (simp only: up_def round_up_div [OF assms(2)])
    have "b < up" unfolding up_def
      by (metis Suc_eq_plus1 dividend_less_div_times mult.commute mult_Suc_right zero_less_numeral
          zero_less_power add.commute)
    have step: "class_scan sc (2 ^ a) i =
        (if 2 ^ a dvd b then Some (Some i)
         else if length (size2class sc) - 1 \<le> j then Some None
         else class_scan sc (2 ^ a) (unat (size2class sc ! j)))"
      using i by (subst class_scan.simps)
        (simp add: Let_def b_def j_def and_pred_two_pow dvd_eq_mod_eq_0)
    show ?thesis
    proof (cases "2 ^ a dvd b")
      case True
      with step i show ?thesis by (simp add: b_def upt_conv_Cons)
    next
      case nd: False
      have skip: "\<not> 2 ^ a dvd ?t ! c" if "i \<le> c" "c < length ?t" "?t ! c < up" for c
      proof (cases "c = i")
        case True
        with nd show ?thesis by (simp add: b_def)
      next
        case False
        with that have "b < ?t ! c" using sorted_wrt_nth_less [OF sorted] by (simp add: b_def)
        with that nd no_multiple_between [of b "?t ! c" "2 ^ a"] show ?thesis by (auto simp: up_def)
      qed
      show ?thesis
      proof (cases "small_max sc div 2 ^ k \<le> j")
        case True
        then have "small_max sc < up"
          by (metis up_j Suc_eq_plus1 div_less_iff_less_mult less_Suc_eq_le zero_less_numeral
              zero_less_power)
        moreover have "?t ! c \<le> small_max sc" if "c < length ?t" for c
          using that sorted_le_last [OF sorted] by (simp add: small_max_def)
        ultimately have "find (\<lambda>c. 2 ^ a dvd ?t ! c) [i..<length ?t] = None"
          using skip by (fastforce simp: find_None_iff)
        with True nd step wf show ?thesis by (simp add: wf_lookup_length)
      next
        case False
        then have look: "unat (size2class sc ! j) = first_fit ?t up"
          using wf_lookup [OF wf, of j] by (simp add: up_j)
        have "i < first_fit ?t up"
          using first_fit_above [OF sorted i] \<open>b < up\<close> by (metis b_def leD leI)
        moreover have "find (\<lambda>c. 2 ^ a dvd ?t ! c) [i..<length ?t]
            = find (\<lambda>c. 2 ^ a dvd ?t ! c) [first_fit ?t up..<length ?t]"
        proof (rule find_upt_skip)
          fix c assume "i \<le> c" and c: "c < first_fit ?t up"
          then show "\<not> 2 ^ a dvd ?t ! c"
            using skip first_fit_below [OF c] first_fit_le [of ?t up] by (meson less_le_trans)
        qed (use \<open>i < first_fit ?t up\<close> first_fit_le in auto)
        ultimately show ?thesis
          using False nd step wf look less [of "first_fit ?t up"] i
          by (simp add: wf_lookup_length)
      qed
    qed
  qed
qed

lemma class_for_wf:
  assumes wf: "wf_classes k sc" and align: "is_power_of_two align"
  shows "class_for sc sz align = Some (Inr (class_spec (table sc) sz align))"
proof -
  obtain a where a: "align = 2 ^ a" using align by (auto simp: is_power_of_two_iff)
  let ?t = "table sc" and ?need = "max sz align"
  have sorted: "sorted_wrt (<) ?t" and shift: "min_block_shift sc = k"
    and al: "block_aligned (2 ^ k) ?t" and ne: "?t \<noteq> []" using wf by (simp_all add: wf_classes_def)
  define j where "j = (?need - 1) div 2 ^ k"
  have need: "0 < ?need" by (simp add: a less_max_iff_disj)
  have fit: "first_fit ?t ((j + 1) * 2 ^ k) = first_fit ?t ?need"
    unfolding j_def by (rule first_fit_round [OF al need])
  have unfold: "class_for sc sz align =
     (if small_max sc div 2 ^ k \<le> j then Some (Inr None)
      else if a \<le> k then Some (Inr (Some (unat (size2class sc ! j))))
      else map_option Inr (class_scan sc align (unat (size2class sc ! j))))"
    using wf_lookup_length [OF wf]
    by (simp add: class_for_def a shift j_def drop_bit_eq_div push_bit_eq_mult Let_def max_def)
  show ?thesis
  proof (cases "small_max sc div 2 ^ k \<le> j")
    case True
    then have "small_max sc < (j + 1) * 2 ^ k"
      by (metis Suc_eq_plus1 div_less_iff_less_mult less_Suc_eq_le zero_less_numeral zero_less_power)
    then have "length ?t \<le> first_fit ?t ((j + 1) * 2 ^ k)"
      using first_fit_above [OF sorted, of "length ?t - 1" "(j + 1) * 2 ^ k"] ne
      by (auto simp: small_max_def not_le)
    then have "length ?t \<le> first_fit ?t ?need" unfolding fit .
    then show ?thesis using True by (simp add: unfold class_spec_from [OF sorted] fit)
  next
    case False
    have seed: "unat (size2class sc ! j) = first_fit ?t ?need"
      using wf_lookup [OF wf, of j] False fit by simp
    have lt: "first_fit ?t ?need < length ?t"
    proof -
      have "(j + 1) * 2 ^ k \<le> small_max sc"
        using False by (metis Suc_eq_plus1 Suc_leI div_times_less_eq_dividend mult_le_mono1
            not_le order_trans)
      then have "first_fit ?t ((j + 1) * 2 ^ k) < length ?t"
        unfolding small_max_def by (rule first_fit_lt [OF sorted ne])
      then show ?thesis unfolding fit .
    qed
    show ?thesis
    proof (cases "a \<le> k")
      case True
      have "align dvd ?t ! first_fit ?t ?need"
        using al lt True by (auto simp: block_aligned_def a intro: dvd_trans [OF le_imp_power_dvd])
      with lt True False seed show ?thesis
        by (simp add: unfold class_spec_from [OF sorted] upt_conv_Cons)
    next
      case a_gt: False
      with False seed show ?thesis
        using class_scan_correct [OF wf, of a, folded a]
        by (simp add: unfold class_spec_from [OF sorted])
    qed
  qed
qed

subsection \<open>The table against its two sources\<close>

text \<open>The geometric values the construction starts from, without the merge.\<close>

fun geo_values :: "params \<Rightarrow> nat \<Rightarrow> nat \<Rightarrow> sc_error + nat list" where
  "geo_values p 0 cur = Inr []"
| "geo_values p (Suc n) cur =
     (if n = 0 then Inr [cur]
      else case next_geo p cur of
        Inl e \<Rightarrow> Inl e
      | Inr nxt \<Rightarrow>
          (case geo_values p n nxt of Inl e \<Rightarrow> Inl e | Inr g \<Rightarrow> Inr (cur # g)))"

lemma merge_loop_set:
  assumes "merge_loop p gi ei cur out = Inr r"
  shows "\<exists>g. geo_values p (geo_count p - gi) cur = Inr g
    \<and> set r = set out \<union> set g \<union> set (drop ei (extras p))"
  using assms
proof (induction p gi ei cur out rule: merge_loop.induct)
  case (1 p gi ei cur out)
  define take_geo where "take_geo = (if geo_count p \<le> gi then False
      else if length (extras p) \<le> ei then True else cur < extras p ! ei)"
  note unfold = merge_loop.simps [of p gi ei cur out, unfolded Let_def, folded take_geo_def]
  consider (stop) "\<not> (gi < geo_count p \<or> ei < length (extras p))"
    | (geo) "gi < geo_count p \<or> ei < length (extras p)" "take_geo"
    | (ext) "gi < geo_count p \<or> ei < length (extras p)" "\<not> take_geo" by blast
  then show ?case
  proof cases
    case stop
    with "1.prems" show ?thesis by (auto simp: unfold)
  next
    case geo
    then have "gi < geo_count p" by (auto simp: take_geo_def split: if_splits)
    then obtain n where n: "geo_count p - gi = Suc n" "geo_count p - Suc gi = n"
      by (metis Suc_diff_Suc)
    show ?thesis
    proof (cases "Suc gi < geo_count p")
      case True
      with geo "1.prems" obtain nxt where nxt: "next_geo p cur = Inr nxt"
        and rest: "merge_loop p (Suc gi) ei nxt (out @ [cur]) = Inr r"
        by (auto simp: unfold split: sum.splits)
      from "1.IH"(1) [OF geo(1) take_geo_def geo(2) True nxt rest] n True nxt
      show ?thesis by auto
    next
      case False
      with geo "1.prems" have rest: "merge_loop p (Suc gi) ei cur (out @ [cur]) = Inr r"
        by (simp add: unfold)
      from "1.IH"(2) [OF geo(1) take_geo_def geo(2) False rest] n False show ?thesis by auto
    qed
  next
    case ext
    then have ei: "ei < length (extras p)" by (auto simp: take_geo_def split: if_splits)
    from ext "1.prems" have rest: "merge_loop p gi (Suc ei) cur (out @ [extras p ! ei]) = Inr r"
      by (simp add: unfold)
    have "set (drop ei (extras p)) = insert (extras p ! ei) (set (drop (Suc ei) (extras p)))"
      using Cons_nth_drop_Suc [OF ei] by (metis list.simps(15))
    with "1.IH"(3) [OF ext(1) take_geo_def ext(2) rest] show ?thesis by auto
  qed
qed

lemma next_multiple:
  fixes y m :: nat
  assumes "0 < m"
  shows "m dvd (y + (m - 1)) - (y + (m - 1)) mod m"
    and "y \<le> (y + (m - 1)) - (y + (m - 1)) mod m"
    and "m dvd z \<Longrightarrow> y \<le> z \<Longrightarrow> (y + (m - 1)) - (y + (m - 1)) mod m \<le> z"
proof -
  define u where "u = y + (m - 1)"
  have r: "u mod m < m" "u mod m \<le> u" using assms by simp_all
  show "m dvd u - u mod m" by (rule dvd_minus_mod)
  show "y \<le> u - u mod m" using r u_def assms by linarith
  assume z: "m dvd z" "y \<le> z"
  show "u - u mod m \<le> z"
  proof (rule ccontr)
    assume "\<not> u - u mod m \<le> z"
    then have lt: "z < u - u mod m" by simp
    have "m dvd (u - u mod m) - z" using z(1) dvd_minus_mod [of m u] by (rule dvd_diff_nat [rotated])
    then have "m \<le> (u - u mod m) - z" using lt by (simp add: dvd_imp_le)
    then show False using z(2) u_def assms by linarith
  qed
qed

lemma div_ceil_le_iff: "0 < d \<Longrightarrow> div_ceil a d \<le> z \<longleftrightarrow> a \<le> z * d"
proof -
  assume d: "0 < d"
  have a: "a div d * d + a mod d = a" by simp
  have r: "a mod d < d" using d by simp
  show ?thesis
  proof (cases "a mod d = 0")
    case True
    then have "a = a div d * d" using a by linarith
    then show ?thesis using d True by (metis add.right_neutral div_ceil_def mult_le_cancel2)
  next
    case False
    show ?thesis
    proof
      assume "div_ceil a d \<le> z"
      then have "a div d + 1 \<le> z" using False by (simp add: div_ceil_def)
      then have "(a div d + 1) * d \<le> z * d" by (rule mult_le_mono1)
      moreover have "(a div d + 1) * d = a div d * d + d" by simp
      ultimately show "a \<le> z * d" using a r by linarith
    next
      assume "a \<le> z * d"
      have "\<not> z \<le> a div d"
      proof
        assume "z \<le> a div d"
        then have "z * d \<le> a div d * d" by (rule mult_le_mono1)
        with \<open>a \<le> z * d\<close> a False show False by linarith
      qed
      then show "div_ceil a d \<le> z" using False by (simp add: div_ceil_def)
    qed
  qed
qed

lemma next_geo_value:
  assumes "next_geo p cur = Inr n" and "is_power_of_two (min_block p)"
  defines "y \<equiv> div_ceil (cur * fst (growth p)) (snd (growth p)) + (min_block p - 1)"
  shows "n = (if y - y mod min_block p \<le> cur then cur + min_block p else y - y mod min_block p)
    \<and> n \<le> usize_max"
proof -
  obtain k where k: "min_block p = 2 ^ k" using assms(2) by (auto simp: is_power_of_two_iff)
  show ?thesis
  proof (cases "y > u128_max")
    case True
    with assms(1) show ?thesis by (simp add: next_geo_def Let_def y_def split: if_splits)
  next
    case False
    then have y: "y < 2 ^ 128" by simp
    moreover have "2 ^ k - 1 \<le> y" by (simp add: y_def k)
    ultimately have "(2::nat) ^ k \<le> 2 ^ 128" by simp
    then have "k \<le> 128" by (rule power_le_imp_le_exp [rotated]) simp
    have "u128_max - (min_block p - 1) = 2 ^ 128 - 2 ^ k" by (simp add: k)
    then have r: "y AND (u128_max - (min_block p - 1)) = y - y mod min_block p"
      using and_high_mask [OF y \<open>k \<le> 128\<close>] by (simp add: k)
    show ?thesis using assms(1)
      by (simp only: next_geo_def Let_def r flip: y_def) (auto split: if_splits)
  qed
qed

text \<open>A small parameter set, for the examples.\<close>

definition tiny :: params where "tiny = params_new 16 (2, 1) 3 [48] 100"

lemma tiny_sel: "min_block tiny = 16" "growth tiny = (2, 1)" "geo_count tiny = 3" "extras tiny = [48]"
  by (simp_all add: params_new_def tiny_def)

lemma tiny_merge: "merge_loop tiny 0 0 16 [] = Inr [16, 32, 48, 64]"
  by (simp add: merge_loop.simps next_geo_def Let_def div_ceil_def tiny_sel)

lemma tiny_extras: "check_extras 16 [48] 0 = Inr ()"
  by (simp add: check_extras.simps)

lemma power_of_two_samples: "is_power_of_two 8" "is_power_of_two 16" "is_power_of_two 32"
  using is_power_of_two_pow [of 3] is_power_of_two_pow [of 4] is_power_of_two_pow [of 5] by simp_all

lemma tiny_table: "build_table 4 tiny = Inr [16, 32, 48, 64]"
  using tiny_merge tiny_extras by (simp add: build_table_def tiny_sel power_of_two_samples)

lemma tiny_usize: "usize_params tiny"
  by (simp add: usize_params_def tiny_sel)

text \<open>each geometric value of the table is the least multiple of the block size that exceeds the
  value before it and is at least that value scaled by the growth ratio: rounding loses
  nothing and the forced bump is one block.\<close>

theorem next_geo_least:
  assumes "next_geo p cur = Inr n" and "is_power_of_two (min_block p)" and "min_block p dvd cur"
    and "0 < snd (growth p)"
  shows "min_block p dvd n \<and> cur < n \<and> cur * fst (growth p) \<le> n * snd (growth p)
    \<and> (\<forall>z. min_block p dvd z \<and> cur < z \<and> cur * fst (growth p) \<le> z * snd (growth p) \<longrightarrow> n \<le> z)"
proof -
  let ?mb = "min_block p" and ?c = "div_ceil (cur * fst (growth p)) (snd (growth p))"
  have mb: "0 < ?mb" using assms(2) by (rule power_of_two_pos)
  define r where "r = ?c + (?mb - 1) - (?c + (?mb - 1)) mod ?mb"
  have n: "n = (if r \<le> cur then cur + ?mb else r)"
    using next_geo_value [OF assms(1,2)] by (simp add: r_def)
  note r = next_multiple(1,2) [OF mb, of ?c, folded r_def]
  have least: "r \<le> z" if "?mb dvd z" "?c \<le> z" for z
    unfolding r_def by (rule next_multiple(3) [OF mb that])
  have scaled: "?c \<le> z \<longleftrightarrow> cur * fst (growth p) \<le> z * snd (growth p)" for z
    using assms(4) by (rule div_ceil_le_iff)
  have up: "cur + ?mb \<le> z" if "?mb dvd z" "cur < z" for z
    using that assms(3) by (metis add.commute dvd_add_right_iff dvd_imp_le le_add_diff_inverse
        less_imp_le_nat nat_add_left_cancel_le zero_less_diff)
  show ?thesis
  proof (cases "r \<le> cur")
    case True
    then have "n = cur + ?mb" by (simp add: n)
    moreover have "?c \<le> cur + ?mb" using r(2) True by linarith
    ultimately show ?thesis using up assms(3) mb scaled by auto
  next
    case False
    then have "n = r" by (simp add: n)
    with r least False scaled show ?thesis by auto
  qed
qed

lemma next_geo_least_witness:
  "\<exists>n. next_geo (params_new 16 (5, 4) 40 [] 0) 112 = Inr n \<and> n = 144 \<and> 112 * 5 \<le> n * 4"
proof -
  let ?p = "params_new 16 (5, 4) 40 [] 0"
  have s: "min_block ?p = 16" "growth ?p = (5, 4)" by (simp_all add: params_new_def)
  have v: "next_geo ?p 112 = Inr 144" by (simp add: next_geo_def s div_ceil_def)
  have "is_power_of_two (min_block ?p)" using is_power_of_two_pow [of 4] by (simp add: s)
  from next_geo_least [OF v this] v show ?thesis by (auto simp: s)
qed

text \<open>C12: a table that \<open>build_table\<close> returns is strictly increasing, starts with the block size, and
  holds exactly the geometric values and the extra classes, \<open>N\<close> of them, each a positive
  multiple of the block size that fits in \<open>usize\<close>: the two-cursor merge loses, duplicates
  and misplaces nothing.\<close>

theorem build_table_contents:
  assumes "build_table N p = Inr t" and "usize_params p"
  shows "\<exists>g. geo_values p (geo_count p) (min_block p) = Inr g \<and> set t = set g \<union> set (extras p)
    \<and> sorted_wrt (<) t \<and> length t = N \<and> t ! 0 = min_block p
    \<and> (\<forall>x \<in> set t. min_block p dvd x \<and> min_block p \<le> x \<and> x \<le> usize_max)"
proof -
  from assms(1) have "merge_loop p 0 0 (min_block p) [] = Inr t"
    by (auto simp: build_table_def split: if_splits sum.splits)
  from merge_loop_set [OF this] build_table_ok [OF assms] show ?thesis
    by (auto simp: block_aligned_def)
qed

lemma build_table_contents_witness:
  "\<exists>g t. build_table 4 tiny = Inr t \<and> set t = set g \<union> {48}
    \<and> geo_values tiny 3 16 = Inr g \<and> sorted_wrt (<) t"
  using build_table_contents [OF tiny_table tiny_usize] tiny_table by (auto simp: tiny_sel)

text \<open>C13: for every classifier the crate can build and every power-of-two alignment, \<open>class_for\<close>
  terminates, raises no error and returns the first class that is large enough and aligned,
  as a linear search of the table would: the lookup table and the scan that jumps through it
  skip no fitting class.\<close>

theorem class_for_is_first_fit:
  assumes "build N L p = Inr sc" and "usize_params p" and "is_power_of_two align"
  shows "class_for sc sz align = Some (Inr (class_spec (table sc) sz align))"
  using class_for_wf [OF _ assms(3)] build_wf [OF assms(1,2)] by blast

lemma class_for_is_first_fit_witness:
  "\<exists>sc. build 4 5 tiny = Inr sc
     \<and> class_for sc 33 32 = Some (Inr (Some 3)) \<and> class_for sc 65 8 = Some (Inr None)"
proof -
  have "\<exists>sc. build 4 5 tiny = Inr sc \<and> table sc = [16, 32, 48, 64]"
    by (simp add: build_def tiny_table build_size2class_def size2class_len_def power_of_two_samples
        tiny_sel)
  then obtain sc where sc: "build 4 5 tiny = Inr sc" and tb: "table sc = [16, 32, 48, 64]" by blast
  have "class_spec (table sc) 33 32 = Some 3" and "class_spec (table sc) 65 8 = None"
    by (simp_all add: class_spec_def tb upt_rec)
  with class_for_is_first_fit [OF sc tiny_usize, of 32 33] sc
    class_for_is_first_fit [OF sc tiny_usize, of 8 65]
  show ?thesis by (auto simp: power_of_two_samples)
qed

end
