(* ===== verification/ClassTable.thy ===== *)
theory ClassTable
  imports SizeClasses
begin

text \<open>
  The allocator's own size classes (\<open>src/alloc_core/platform/size_classes.rs\<close>, in the
  \<open>production\<close> build, without the medium classes): the parameters handed to
  the crate \<open>size-classes\<close>, the table and the classifier they give, the exact-division
  test by reciprocal multiplication, and the classification entry points.  Values that the
  source computes in \<open>const\<close> context are definitions here; that they exist, so that the
  constant evaluation does not panic, is proved.
\<close>

subsection \<open>Parameters\<close>

definition MIN_BLOCK :: nat where "MIN_BLOCK = 16"
definition MIN_BLOCK_SHIFT :: nat where "MIN_BLOCK_SHIFT = trailing_zeros MIN_BLOCK"
definition SEGMENT :: nat where "SEGMENT = push_bit 22 1"
definition GROWTH :: "nat \<times> nat" where "GROWTH = (5, 4)"
definition GEO_COUNT :: nat where "GEO_COUNT = 40"
definition EXTRAS :: "nat list" where
  "EXTRAS = [256, 512, 1024, 2048, 4096, 6144, 8192, 12288, 16384]"
definition TABLE_LEN :: nat where "TABLE_LEN = GEO_COUNT + length EXTRAS"
definition HUGE_THRESHOLD :: nat where "HUGE_THRESHOLD = SEGMENT"
definition PARAMS :: params where
  "PARAMS = params_new MIN_BLOCK GROWTH GEO_COUNT EXTRAS HUGE_THRESHOLD"

text \<open>\<open>projr\<close> reads the value of a \<open>const\<close> evaluation that did not panic.\<close>

definition SIZE_CLASS_TABLE :: "nat list" where
  "SIZE_CLASS_TABLE = projr (build_table TABLE_LEN PARAMS)"
definition SMALL_CLASS_COUNT :: nat where "SMALL_CLASS_COUNT = length SIZE_CLASS_TABLE"
definition SMALL_MAX :: nat where "SMALL_MAX = SIZE_CLASS_TABLE ! (TABLE_LEN - 1)"
definition S2C_LEN :: nat where "S2C_LEN = projr (size2class_len SMALL_MAX MIN_BLOCK)"
definition SC :: size_classes where "SC = projr (build TABLE_LEN S2C_LEN PARAMS)"

lemma MIN_BLOCK_SHIFT_eq [simp]: "MIN_BLOCK_SHIFT = 4"
  using trailing_zeros_pow [of 4] by (simp add: MIN_BLOCK_SHIFT_def MIN_BLOCK_def)

lemma PARAMS_sel [simp]:
  "min_block PARAMS = 16" "growth PARAMS = (5, 4)" "geo_count PARAMS = 40"
  "extras PARAMS = [256, 512, 1024, 2048, 4096, 6144, 8192, 12288, 16384]"
  "huge_threshold PARAMS = 2 ^ 22"
  by (simp_all add: PARAMS_def params_new_def MIN_BLOCK_def GROWTH_def GEO_COUNT_def EXTRAS_def
      HUGE_THRESHOLD_def SEGMENT_def)

lemma TABLE_LEN_eq [simp]: "TABLE_LEN = 49"
  by (simp add: TABLE_LEN_def GEO_COUNT_def EXTRAS_def)

lemma usize_PARAMS: "usize_params PARAMS"
  by (simp add: usize_params_def)

subsection \<open>The constant evaluation succeeds\<close>

lemma check_extras_PARAMS: "check_extras 16 (extras PARAMS) 0 = Inr ()"
  by (simp add: check_extras.simps)

lemma merge_PARAMS:
  "merge_loop PARAMS 0 0 16 [] = Inr
     [16, 32, 48, 64, 80, 112, 144, 192, 240, 256, 304, 384, 480, 512, 608, 768, 960, 1024, 1200,
      1504, 1888, 2048, 2368, 2960, 3712, 4096, 4640, 5808, 6144, 7264, 8192, 9088, 11360, 12288,
      14208, 16384, 17760, 22208, 27760, 34704, 43392, 54240, 67808, 84768, 105968, 132464, 165584,
      206992, 258752]"
  by (simp add: merge_loop.simps next_geo_def Let_def div_ceil_def)

lemma is_power_of_two_16 [simp]: "is_power_of_two 16"
  using is_power_of_two_pow [of 4] by simp

lemma build_table_PARAMS:
  "build_table TABLE_LEN PARAMS = Inr
     [16, 32, 48, 64, 80, 112, 144, 192, 240, 256, 304, 384, 480, 512, 608, 768, 960, 1024, 1200,
      1504, 1888, 2048, 2368, 2960, 3712, 4096, 4640, 5808, 6144, 7264, 8192, 9088, 11360, 12288,
      14208, 16384, 17760, 22208, 27760, 34704, 43392, 54240, 67808, 84768, 105968, 132464, 165584,
      206992, 258752]"
  using check_extras_PARAMS merge_PARAMS by (simp add: build_table_def)

lemma SIZE_CLASS_TABLE_eq:
  "SIZE_CLASS_TABLE =
     [16, 32, 48, 64, 80, 112, 144, 192, 240, 256, 304, 384, 480, 512, 608, 768, 960, 1024, 1200,
      1504, 1888, 2048, 2368, 2960, 3712, 4096, 4640, 5808, 6144, 7264, 8192, 9088, 11360, 12288,
      14208, 16384, 17760, 22208, 27760, 34704, 43392, 54240, 67808, 84768, 105968, 132464, 165584,
      206992, 258752]"
  by (simp add: SIZE_CLASS_TABLE_def build_table_PARAMS del: TABLE_LEN_eq)

lemma length_table [simp]: "length SIZE_CLASS_TABLE = 49"
  by (simp add: SIZE_CLASS_TABLE_eq)

lemma SMALL_CLASS_COUNT_eq [simp]: "SMALL_CLASS_COUNT = 49"
  by (simp add: SMALL_CLASS_COUNT_def)

lemma table_last: "SIZE_CLASS_TABLE ! 48 = 258752"
  by (simp add: SIZE_CLASS_TABLE_eq)

lemma SMALL_MAX_eq [simp]: "SMALL_MAX = 258752"
  by (simp add: SMALL_MAX_def table_last)

lemma S2C_LEN_eq [simp]: "S2C_LEN = 16173"
  by (simp add: S2C_LEN_def size2class_len_def MIN_BLOCK_def)

lemma build_PARAMS: "\<exists>sc. build TABLE_LEN S2C_LEN PARAMS = Inr sc \<and> table sc = SIZE_CLASS_TABLE"
proof -
  have t: "build_table 49 PARAMS = Inr SIZE_CLASS_TABLE"
    using build_table_PARAMS SIZE_CLASS_TABLE_eq by simp
  then have "sorted_wrt (<) SIZE_CLASS_TABLE"
    using build_table_ok [OF _ usize_PARAMS] by blast
  then have "\<exists>s2c. build_size2class SIZE_CLASS_TABLE (min_block PARAMS) S2C_LEN = Inr s2c"
    by (simp add: build_size2class_def size2class_len_def)
       (simp add: SIZE_CLASS_TABLE_eq)
  then show ?thesis by (auto simp: build_def t SIZE_CLASS_TABLE_eq)
qed

lemma build_SC: "build TABLE_LEN S2C_LEN PARAMS = Inr SC" and table_SC: "table SC = SIZE_CLASS_TABLE"
  using build_PARAMS by (auto simp: SC_def)

lemma shift_SC: "min_block_shift SC = 4"
proof -
  have "(2::nat) ^ min_block_shift SC = 2 ^ 4"
    using build_wf [OF build_SC usize_PARAMS] by simp
  then show ?thesis by (metis power_inject_exp one_less_numeral_iff semiring_norm(76))
qed

lemma wf_SC: "wf_classes 4 SC"
  using build_wf [OF build_SC usize_PARAMS] shift_SC by simp


subsection \<open>Classification entry points\<close>

text \<open>
  The live tags of \<open>src/alloc_core/segment/bitmap/live_tag.rs\<close>: a tag is the byte
  \<open>class + 1\<close>; \<open>from_class\<close> panics (\<open>None\<close>) above the last class.
\<close>

type_synonym live_tag = u8

definition tag_from_class :: "nat \<Rightarrow> live_tag option" where
  "tag_from_class c = (if 1 \<le> c + 1 \<and> c + 1 \<le> SMALL_CLASS_COUNT then Some (word_of_nat (c + 1)) else None)"

definition tag_class :: "live_tag \<Rightarrow> nat" where
  "tag_class t = unat t - 1"

text \<open>\<open>LiveTag::of_seed\<close>: the entry of \<open>SIZE2TAG\<close>, itself filled from \<open>SIZE2CLASS\<close>.\<close>

definition tag_of_seed :: "nat \<Rightarrow> live_tag option" where
  "tag_of_seed seed =
     (if seed < length (size2class SC) then tag_from_class (unat (size2class SC ! seed)) else None)"

definition class_for_small_align :: "nat \<Rightarrow> (nat option) option" where
  "class_for_small_align sz =
     (let seed_idx = (if sz = 0 then 0 else drop_bit MIN_BLOCK_SHIFT (sz - 1)) in
      if S2C_LEN - 1 \<le> seed_idx then Some None
      else map_option (\<lambda>t. Some (tag_class t)) (tag_of_seed seed_idx))"

definition alloc_class_for :: "nat \<Rightarrow> nat \<Rightarrow> (sc_error + nat option) option" where
  "alloc_class_for sz align =
     (if \<not> is_power_of_two align then Some (Inl AlignNotPowerOfTwo)
      else if align \<le> MIN_BLOCK then map_option Inr (class_for_small_align sz)
      else class_for SC sz align)"

definition alloc_try_class_for ::
    "nat \<Rightarrow> nat \<Rightarrow> (invalid_align + (sc_error + nat option)) option" where
  "alloc_try_class_for sz align = try_class_for SC sz align"

definition alloc_block_size :: "nat \<Rightarrow> nat option" where
  "alloc_block_size idx = block_size SC idx"

subsection \<open>Exact division by reciprocal multiplication\<close>

fun recip_loop :: "u64 \<Rightarrow> nat \<Rightarrow> u64 \<Rightarrow> u64" where
  "recip_loop d_odd 0 x = x"
| "recip_loop d_odd (Suc n) x = recip_loop d_odd n (x * (2 - d_odd * x))"

definition reciprocal :: "u64 \<Rightarrow> u64" where
  "reciprocal d = (let d_odd = drop_bit (trailing_zeros (unat d)) d in recip_loop d_odd 6 1)"

type_synonym divisor_params = "u64 \<times> u64 \<times> nat"

definition divisor_params :: "u64 \<Rightarrow> divisor_params" where
  "divisor_params d = (reciprocal d, (- 1) div d, trailing_zeros (unat d))"

definition DIVISIBILITY :: "divisor_params list" where
  "DIVISIBILITY = map (\<lambda>d. divisor_params (word_of_nat d)) SIZE_CLASS_TABLE"

definition divides_with :: "divisor_params \<Rightarrow> u64 \<Rightarrow> bool" where
  "divides_with ps off = (case ps of (recip, limit, shift) \<Rightarrow> word_rotr shift (off * recip) \<le> limit)"

definition divides :: "nat \<Rightarrow> u64 \<Rightarrow> bool option" where
  "divides idx off =
     (if idx < length DIVISIBILITY then Some (divides_with (DIVISIBILITY ! idx) off) else None)"

subsection \<open>The reciprocal is exact\<close>

lemma trailing_zeros_split:
  assumes "0 < n"
  shows "\<exists>m. odd m \<and> n = m * 2 ^ trailing_zeros n"
  using assms
proof (induction n rule: trailing_zeros.induct)
  case (1 n)
  show ?case
  proof (cases "odd n")
    case True
    then show ?thesis using 1 by (auto simp: trailing_zeros.simps [of n] intro: exI [of _ n])
  next
    case False
    with 1 obtain m where m: "odd m" "n div 2 = m * 2 ^ trailing_zeros (n div 2)"
      by (auto elim!: evenE)
    from False have "n = 2 * (n div 2)" by simp
    with m False 1 show ?thesis
      by (intro exI [of _ m]) (auto simp: trailing_zeros.simps [of n] mult.assoc)
  qed
qed

text \<open>
  One Newton step squares the error \<open>1 - d * x\<close>; six steps from an odd \<open>d\<close> and \<open>x = 1\<close>
  reach \<open>2 ^ 64\<close>, which is zero in the word.
\<close>

lemma recip_loop_error:
  "1 - d * recip_loop d n x = (1 - d * x) ^ (2 ^ n)"
proof (induction n arbitrary: x)
  case 0
  then show ?case by simp
next
  case (Suc n)
  have "1 - d * (x * (2 - d * x)) = (1 - d * x) ^ 2"
    by (simp add: power2_eq_square algebra_simps)
  with Suc [of "x * (2 - d * x)"] show ?case by (simp flip: power_mult)
qed

lemma recip_loop_inverse:
  assumes "odd (d :: u64)"
  shows "d * recip_loop d 6 1 = 1"
proof -
  obtain e where "d = 2 * e + 1" using assms by (blast elim: oddE)
  then have e: "1 - d * 1 = 2 * (- e)" by simp
  have "1 - d * recip_loop d 6 1 = (1 - d * 1) ^ 64"
    using recip_loop_error [of d 6 1] by simp
  also have "\<dots> = 2 ^ 64 * (- e) ^ 64" unfolding e by (rule power_mult_distrib)
  also have "(2 :: u64) ^ 64 = 0" by simp
  finally show ?thesis by simp
qed


lemma rotr_eq_iff:
  fixes q r :: u64
  assumes "k < 64" and "unat r < 2 ^ (64 - k)"
  shows "word_rotr k q = r \<longleftrightarrow> q = push_bit k r"
proof
  assume r: "word_rotr k q = r"
  show "q = push_bit k r"
  proof (rule bit_word_eqI)
    fix n assume n: "n < LENGTH(64)"
    show "bit q n \<longleftrightarrow> bit (push_bit k r) n"
    proof (cases "k \<le> n")
      case True
      then have "bit (word_rotr k q) (n - k) \<longleftrightarrow> bit q n"
        using n less_imp_diff_less by (simp add: bit_word_rotr_iff)
      with True n r show ?thesis by (simp add: bit_push_bit_iff)
    next
      case False
      define i where "i = n + (64 - k)"
      have "i < 64" and "(i + k) mod 64 = n" using False n assms(1) by (auto simp: i_def)
      then have "bit (word_rotr k q) i \<longleftrightarrow> bit q n" by (simp add: bit_word_rotr_iff)
      moreover have "\<not> bit r i" using assms by (intro not_bit_above) (auto simp: i_def)
      ultimately show ?thesis using False r by (simp add: bit_push_bit_iff)
    qed
  qed
next
  assume q: "q = push_bit k r"
  show "word_rotr k q = r"
  proof (rule bit_word_eqI)
    fix n assume n: "n < LENGTH(64)"
    show "bit (word_rotr k q) n \<longleftrightarrow> bit r n"
    proof (cases "n + k < 64")
      case True
      then show ?thesis using n by (simp add: bit_word_rotr_iff q bit_push_bit_iff)
    next
      case False
      then have "\<not> bit r n" using assms by (intro not_bit_above) auto
      moreover have "n + k - 64 < 64" "n + k - 64 < k" using False n assms(1) by auto
      then have "(n + k) mod 64 < k" using False by (simp add: mod_if)
      ultimately show ?thesis using n by (simp add: bit_word_rotr_iff q bit_push_bit_iff)
    qed
  qed
qed

theorem divides_with_correct:
  assumes "d \<noteq> 0"
  shows "divides_with (divisor_params d) off \<longleftrightarrow> unat d dvd unat off"
proof -
  define D N k where "D = unat d" and "N = unat off" and "k = trailing_zeros D"
  have D0: "0 < D" using assms by (simp add: D_def unat_gt_0)
  have D64: "D < 2 ^ 64" and N64: "N < 2 ^ 64"
    by (simp_all add: D_def N_def)
  obtain m where m: "odd m" "D = m * 2 ^ k" using trailing_zeros_split [OF D0] by (auto simp: k_def)
  have "2 ^ k \<le> D" using m by (cases m) auto
  then have k64: "k < 64" using D64 by (meson le_less_trans nat_power_less_imp_less zero_less_numeral)
  define w where "w = drop_bit k d"
  have uw: "unat w = m"
    unfolding w_def unat_drop_bit_eq D_def [symmetric] m(2) by (simp add: drop_bit_eq_div)
  have d: "d = push_bit k w"
    by (rule word_unat_eq_iff [THEN iffD2])
       (use m D64 in \<open>simp add: unsigned_push_bit_eq uw take_bit_eq_mod push_bit_nat_def flip: D_def\<close>)
  have "odd w" using uw m(1) by (simp flip: odd_unat_iff)
  then have inverse: "w * recip_loop w 6 1 = 1" by (rule recip_loop_inverse)
  define q where "q = off * recip_loop w 6 1"
  have lim: "unat ((- 1 :: u64) div d) = (2 ^ 64 - 1) div D"
    by (simp add: unat_div_distrib D_def unsigned_minus_1_eq_mask mask_eq_exp_minus_1)
  have test: "divides_with (divisor_params d) off \<longleftrightarrow> unat (word_rotr k q) \<le> (2 ^ 64 - 1) div D"
    by (simp add: divides_with_def divisor_params_def reciprocal_def Let_def q_def w_def
        word_le_nat_alt lim flip: D_def k_def)
  show ?thesis
  proof
    assume "divides_with (divisor_params d) off"
    define r where "r = word_rotr k q"
    have "unat r \<le> (2 ^ 64 - 1) div D"
      using test \<open>divides_with (divisor_params d) off\<close> by (simp add: r_def)
    then have rD: "unat r * D \<le> 2 ^ 64 - 1"
      by (metis div_times_less_eq_dividend mult_le_mono1 order_trans)
    have "unat r * 2 ^ k \<le> unat r * D" using \<open>2 ^ k \<le> D\<close> by simp
    from order.trans [OF this rD] have "unat r * 2 ^ k < 2 ^ 64" by (rule le_less_trans) simp
    then have "unat r * 2 ^ k < 2 ^ (64 - k) * 2 ^ k" using k64 by (simp flip: power_add)
    then have "unat r < 2 ^ (64 - k)" by simp
    then have "q = push_bit k r" using rotr_eq_iff [OF k64] r_def by blast
    then have "off = d * r"
      using inverse by (simp add: q_def d push_bit_eq_mult) (metis (no_types) mult.assoc mult.commute mult.right_neutral)
    then have "unat off = unat d * unat r"
      using rD by (simp add: unat_word_ariths D_def mult.commute)
    then show "unat d dvd unat off" by simp
  next
    assume "unat d dvd unat off"
    then obtain j where j: "N = D * j" by (auto simp: D_def N_def)
    have "j \<le> (2 ^ 64 - 1) div D" using N64 D0 j
      by (simp add: less_eq_div_iff_mult_less_eq mult.commute)
    then have jD: "j * D \<le> 2 ^ 64 - 1" and j64: "j < 2 ^ 64"
      using D0 N64 j by (auto simp: mult.commute)
        (metis One_nat_def Suc_leI le_less_trans mult.commute mult_le_mono1 nat_mult_1)
    define r :: u64 where "r = word_of_nat j"
    have ur: "unat r = j" using j64 by (simp add: r_def unat_of_nat)
    have "j * 2 ^ k \<le> j * D" using \<open>2 ^ k \<le> D\<close> by simp
    from order.trans [OF this jD] have "j * 2 ^ k < 2 ^ 64" by (rule le_less_trans) simp
    then have "j * 2 ^ k < 2 ^ (64 - k) * 2 ^ k" using k64 by (simp flip: power_add)
    then have small: "unat r < 2 ^ (64 - k)" by (simp add: ur)
    have "off = d * r"
      by (rule word_unat_eq_iff [THEN iffD2]) (use j N64 in \<open>simp add: unat_word_ariths ur flip: D_def N_def\<close>)
    then have "q = push_bit k r"
      using inverse by (simp add: q_def d push_bit_eq_mult) (metis (no_types) mult.assoc mult.commute mult.right_neutral)
    then have "word_rotr k q = r" using rotr_eq_iff [OF k64 small] by blast
    with test \<open>j \<le> (2 ^ 64 - 1) div D\<close> ur show "divides_with (divisor_params d) off" by simp
  qed
qed


lemma DIVISIBILITY_nth:
  "idx < 49 \<Longrightarrow> DIVISIBILITY ! idx = divisor_params (word_of_nat (SIZE_CLASS_TABLE ! idx))"
  by (simp add: DIVISIBILITY_def)

lemma length_DIVISIBILITY [simp]: "length DIVISIBILITY = 49"
  by (simp add: DIVISIBILITY_def)

lemma sorted_table: "sorted_wrt (<) SIZE_CLASS_TABLE"
  and aligned_table: "block_aligned (2 ^ 4) SIZE_CLASS_TABLE"
  using wf_SC unfolding wf_classes_def table_SC by blast+

lemma small_max_SC: "small_max SC = 258752"
  by (simp add: small_max_def table_SC table_last)

lemma table_entry:
  assumes "idx < 49"
  shows "16 \<le> SIZE_CLASS_TABLE ! idx \<and> SIZE_CLASS_TABLE ! idx \<le> 258752
     \<and> 16 dvd SIZE_CLASS_TABLE ! idx"
proof -
  have idx: "idx < length SIZE_CLASS_TABLE" using assms by simp
  from sorted_le_last [OF sorted_table idx] have "SIZE_CLASS_TABLE ! idx \<le> 258752"
    by (simp add: table_last)
  moreover have "SIZE_CLASS_TABLE ! idx \<in> set SIZE_CLASS_TABLE" using idx by (rule nth_mem)
  with aligned_table have "2 ^ 4 dvd SIZE_CLASS_TABLE ! idx \<and> 2 ^ 4 \<le> SIZE_CLASS_TABLE ! idx"
    unfolding block_aligned_def by blast
  ultimately show ?thesis by simp
qed

lemma divides_eq:
  assumes "idx < SMALL_CLASS_COUNT"
  shows "divides idx off = Some (SIZE_CLASS_TABLE ! idx dvd unat off)"
proof -
  have idx: "idx < 49" using assms by simp
  define b where "b = SIZE_CLASS_TABLE ! idx"
  have "16 \<le> b" "b \<le> 258752" using table_entry [OF idx] by (simp_all add: b_def)
  then have u: "unat (word_of_nat b :: u64) = b" by (simp add: unat_of_nat)
  with \<open>16 \<le> b\<close> have "(word_of_nat b :: u64) \<noteq> 0" by (metis not_numeral_le_zero unsigned_0)
  from divides_with_correct [OF this, of off]
  have "divides_with (divisor_params (word_of_nat b)) off \<longleftrightarrow> b dvd unat off" by (simp only: u)
  with idx show ?thesis by (simp only: divides_def length_DIVISIBILITY DIVISIBILITY_nth b_def if_True)
qed

subsection \<open>The entry points agree with the reference search\<close>

lemma tag_class_from_class: "c < SMALL_CLASS_COUNT \<Longrightarrow> map_option tag_class (tag_from_class c) = Some c"
  by (simp add: tag_from_class_def tag_class_def unat_of_nat flip: of_nat_Suc)

lemma length_lookup_SC: "length (size2class SC) = 16173"
  using wf_SC by (simp add: wf_classes_def small_max_SC)

lemma lookup_SC_lt:
  assumes "\<not> 16172 \<le> j"
  shows "unat (size2class SC ! j) < 49"
proof -
  have "unat (size2class SC ! j) = first_fit (table SC) ((j + 1) * 2 ^ 4)"
    using assms by (intro wf_lookup [OF wf_SC]) (simp add: small_max_SC)
  also have "\<dots> < length (table SC)"
  proof (rule first_fit_lt)
    show "sorted_wrt (<) (table SC)" by (simp add: table_SC sorted_table)
    show "table SC \<noteq> []" using length_table by (auto simp: table_SC simp del: length_table)
    show "(j + 1) * 2 ^ 4 \<le> table SC ! (length (table SC) - 1)"
      using assms by (simp add: table_SC table_last)
  qed
  finally show ?thesis by (simp add: table_SC)
qed

lemma class_for_small_align_eq:
  assumes "is_power_of_two align" and "align \<le> MIN_BLOCK"
  shows "map_option Inr (class_for_small_align sz) = class_for SC sz align"
proof -
  have "0 < align" using assms(1) by (rule power_of_two_pos)
  have al: "align \<le> push_bit (min_block_shift SC) 1"
    using assms(2) by (simp add: shift_SC MIN_BLOCK_def push_bit_eq_mult)
  define j where "j = drop_bit 4 ((if align < sz then sz else align) - 1)"
  have j: "(if sz = 0 then 0 else drop_bit 4 (sz - 1)) = j"
    using assms(2) \<open>0 < align\<close> by (auto simp: j_def drop_bit_eq_div MIN_BLOCK_def)
  have small: "class_for_small_align sz =
      (if 16172 \<le> j then Some None else map_option (\<lambda>t. Some (tag_class t)) (tag_of_seed j))"
    unfolding class_for_small_align_def MIN_BLOCK_SHIFT_eq j S2C_LEN_eq Let_def by simp
  have big: "class_for SC sz align =
      (if 16172 \<le> j then Some (Inr None) else Some (Inr (Some (unat (size2class SC ! j)))))"
    unfolding class_for_def shift_SC length_lookup_SC Let_def j_def [symmetric]
    using assms(1) al by (simp add: shift_SC)
  show ?thesis
  proof (cases "16172 \<le> j")
    case False
    then have "map_option tag_class (tag_of_seed j) = Some (unat (size2class SC ! j))"
      using tag_class_from_class [of "unat (size2class SC ! j)"] lookup_SC_lt [OF False]
      by (simp add: tag_of_seed_def length_lookup_SC)
    with False show ?thesis by (auto simp: small big)
  qed (simp add: small big)
qed

lemma alloc_class_for_eq:
  assumes "is_power_of_two align"
  shows "alloc_class_for sz align = Some (Inr (class_spec SIZE_CLASS_TABLE sz align))"
  using class_for_small_align_eq [OF assms, of sz] class_for_wf [OF wf_SC assms, of sz] assms
  by (simp add: alloc_class_for_def table_SC)

subsection \<open>Properties\<close>

text \<open>C14: classification is total and exact on the allocator's own table: for a power-of-two alignment the
  answer is the first class that is large enough and a multiple of the alignment, and there
  is no answer exactly when no class fits.\<close>

theorem alloc_class_for_complete:
  assumes "is_power_of_two align"
  shows "(\<exists>c < SMALL_CLASS_COUNT. alloc_class_for sz align = Some (Inr (Some c))
        \<and> sz \<le> SIZE_CLASS_TABLE ! c \<and> align dvd SIZE_CLASS_TABLE ! c
        \<and> (\<forall>d < c. SIZE_CLASS_TABLE ! d < sz \<or> \<not> align dvd SIZE_CLASS_TABLE ! d))
    \<or> (alloc_class_for sz align = Some (Inr None)
        \<and> (\<forall>d < SMALL_CLASS_COUNT. SIZE_CLASS_TABLE ! d < sz \<or> \<not> align dvd SIZE_CLASS_TABLE ! d))"
proof -
  have le: "align \<le> SIZE_CLASS_TABLE ! d" if "d < 49" "align dvd SIZE_CLASS_TABLE ! d" for d
    using table_entry [OF that(1)] by (intro dvd_imp_le [OF that(2)]) simp
  show ?thesis
  proof (cases "class_spec SIZE_CLASS_TABLE sz align")
    case None
    then have "\<forall>d < 49. \<not> (max sz align \<le> SIZE_CLASS_TABLE ! d \<and> align dvd SIZE_CLASS_TABLE ! d)"
      by (simp add: class_spec_def find_None_iff)
    with le None alloc_class_for_eq [OF assms, of sz] show ?thesis
      by (metis SMALL_CLASS_COUNT_eq linorder_not_le max.bounded_iff)
  next
    case (Some c)
    then have "c < 49" "max sz align \<le> SIZE_CLASS_TABLE ! c" "align dvd SIZE_CLASS_TABLE ! c"
      and "\<forall>d < c. \<not> (max sz align \<le> SIZE_CLASS_TABLE ! d \<and> align dvd SIZE_CLASS_TABLE ! d)"
      by (simp_all add: class_spec_def find_upt_Some_iff)
    with le Some alloc_class_for_eq [OF assms, of sz] show ?thesis
      by (metis SMALL_CLASS_COUNT_eq less_trans linorder_not_le max.bounded_iff)
  qed
qed

lemma alloc_class_for_complete_witness:
  "(\<exists>c < SMALL_CLASS_COUNT. alloc_class_for 100 64 = Some (Inr (Some c)))
    \<or> alloc_class_for 100 64 = Some (Inr None)"
  using alloc_class_for_complete [of 64 100] is_power_of_two_pow [of 6] by auto

text \<open>Neighbouring classes are at most the growth ratio and a rounding step apart.\<close>

lemma table_growth:
  "d < 48 \<Longrightarrow> 4 * SIZE_CLASS_TABLE ! Suc d \<le> 5 * SIZE_CLASS_TABLE ! d + 64"
proof -
  have "\<forall>d \<in> set [0..<48]. 4 * SIZE_CLASS_TABLE ! Suc d \<le> 5 * SIZE_CLASS_TABLE ! d + 64"
    by (simp add: SIZE_CLASS_TABLE_eq upt_rec)
  moreover assume "d < 48"
  ultimately show ?thesis by simp
qed

text \<open>a request of ordinary alignment that a class can hold is served, and the block it gets wastes
  at most a quarter of the request plus one block: growth by 5/4 and rounding to 16 bytes
  bound internal fragmentation.\<close>

theorem alloc_class_waste:
  assumes "is_power_of_two align" and "align \<le> MIN_BLOCK" and "0 < sz" and "sz \<le> SMALL_MAX"
  shows "\<exists>c b. alloc_class_for sz align = Some (Inr (Some c)) \<and> alloc_block_size c = Some b
    \<and> sz \<le> b \<and> align dvd b \<and> 4 * b \<le> 5 * (sz - 1) + 64"
proof -
  let ?t = "SIZE_CLASS_TABLE"
  have al: "align dvd 16" using power_of_two_dvd_iff [OF assms(1) is_power_of_two_16] assms(2)
    by (simp add: MIN_BLOCK_def)
  have fits: "max sz align \<le> ?t ! d \<and> align dvd ?t ! d \<longleftrightarrow> sz \<le> ?t ! d" if "d < 49" for d
    using table_entry [OF that] al assms(2) by (auto simp: MIN_BLOCK_def intro: dvd_trans)
  then have "class_spec ?t sz align = find (\<lambda>d. sz \<le> ?t ! d) [0..<49]"
    unfolding class_spec_def length_table by (intro find_cong) auto
  moreover have "\<exists>c < 49. sz \<le> ?t ! c" using assms(4) table_last by (intro exI [of _ 48]) simp
  then obtain c where c: "find (\<lambda>d. sz \<le> ?t ! d) [0..<49] = Some c"
    by (metis (no_types, lifting) atLeastLessThan_upt find_None_iff lessThan_atLeast0 lessThan_iff
        not_None_eq)
  ultimately have cls: "alloc_class_for sz align = Some (Inr (Some c))"
    using alloc_class_for_eq [OF assms(1), of sz] by simp
  from c have c49: "c < 49" and le: "sz \<le> ?t ! c" and min: "\<forall>d < c. ?t ! d < sz"
    by (auto simp: find_upt_Some_iff)
  have "4 * ?t ! c \<le> 5 * (sz - 1) + 64"
  proof (cases c)
    case 0
    then show ?thesis by (simp add: SIZE_CLASS_TABLE_eq)
  next
    case (Suc d)
    with min have "?t ! d < sz" by blast
    moreover have "4 * ?t ! c \<le> 5 * ?t ! d + 64" using table_growth [of d] Suc c49 by simp
    ultimately show ?thesis by linarith
  qed
  moreover have "alloc_block_size c = Some (?t ! c)"
    using c49 by (simp add: alloc_block_size_def block_size_def table_SC)
  moreover have "align dvd ?t ! c" using table_entry [OF c49] al by (blast intro: dvd_trans)
  ultimately show ?thesis using cls le by blast
qed

lemma alloc_class_waste_witness:
  "\<exists>c b. alloc_class_for 1000 16 = Some (Inr (Some c)) \<and> alloc_block_size c = Some b
    \<and> 1000 \<le> b \<and> 4 * b \<le> 5059"
  using alloc_class_waste [of 16 1000] by (auto simp: MIN_BLOCK_def)

text \<open>C15: the division-free test that validates an interior pointer is exact: the product with the
  stored reciprocal, rotated and compared with the stored limit, tells for every class and
  every 64-bit offset whether the offset is a multiple of the block size.\<close>

theorem divides_exact:
  assumes "idx < SMALL_CLASS_COUNT"
  shows "divides idx off = Some (SIZE_CLASS_TABLE ! idx dvd unat off)"
  using assms by (rule divides_eq)

lemma divides_exact_witness: "divides 4 160 = Some True \<and> divides 4 100 = Some False"
  using divides_exact [of 4 160] divides_exact [of 4 100] by (simp add: SIZE_CLASS_TABLE_eq)

text \<open>the fallible entry point reports exactly the alignments that are not a power of two, and
  otherwise agrees with the fast entry point, whose shortcut for small alignments reads the
  biased class tags instead of the table.\<close>

theorem alloc_try_class_for_agrees:
  "alloc_try_class_for sz align =
     (if is_power_of_two align then map_option Inr (alloc_class_for sz align)
      else Some (Inl (InvalidAlign align)))"
proof (cases "is_power_of_two align")
  case True
  then have "alloc_class_for sz align = class_for SC sz align"
    using alloc_class_for_eq [OF True, of sz] class_for_wf [OF wf_SC True, of sz] by (simp add: table_SC)
  with True show ?thesis by (simp add: alloc_try_class_for_def try_class_for_def)
qed (simp add: alloc_try_class_for_def try_class_for_def)

end
