(* ===== verification/SegmentHeader.thy ===== *)
theory SegmentHeader
  imports ClassTable
begin

text \<open>
  The metadata of a segment: the header record and its packed owner word
  (\<open>src/alloc_core/segment/segment_header/segment_header_impl.rs\<close>), the accessors of the
  header fields (\<open>segment_header_views.rs\<close>, \<open>segment_header_meta_fields.rs\<close>), and the
  layout of the metadata regions inside a segment (\<open>segment_header_layout.rs\<close>,
  \<open>descriptors.rs\<close>, \<open>layout_asserts.rs\<close>).  Addresses and \<open>usize\<close> fields are
  natural numbers, the null pointer is \<open>0\<close>; \<open>u32\<close> counters are natural numbers with the
  checked operations of the source written out.  A call of \<open>fatal\<close>, which aborts the
  process, is the left value that carries its message.
\<close>

type_synonym fatal = string

subsection \<open>The owner word\<close>

definition OWNER_STATE_LIVE :: u64 where "OWNER_STATE_LIVE = 0"
definition OWNER_STATE_MASK :: u64 where "OWNER_STATE_MASK = 1"
definition OWNER_ID_MASK :: u64 where "OWNER_ID_MASK = push_bit 1 (push_bit 31 1 - 1)"
definition OWNER_ID_NONE :: u32 where "OWNER_ID_NONE = 0x7FFFFFFF"
definition OWNER_ID_FALLBACK :: u32 where "OWNER_ID_FALLBACK = 0x7FFFFFFE"

definition pack_owner :: "u64 \<Rightarrow> u32 \<Rightarrow> u32 \<Rightarrow> u64" where
  "pack_owner state owner_id generation =
     (state AND OWNER_STATE_MASK)
     OR push_bit 1 (ucast owner_id AND (push_bit 31 1 - 1))
     OR push_bit 32 (ucast generation)"

definition unpack_owner_id :: "u64 \<Rightarrow> u32" where
  "unpack_owner_id w = ucast (drop_bit 1 (w AND OWNER_ID_MASK))"

subsection \<open>The header\<close>

datatype segment_kind = Primordial | Small | Large | Unknown

definition SEGMENT_MAGIC :: nat where "SEGMENT_MAGIC = 0x5EF5E001"
definition NO_NODE_RAW :: nat where "NO_NODE_RAW = 2 ^ 32 - 1"

text \<open>The discriminants of \<open>SegmentKind\<close>, and the total decoding of the byte.\<close>

primrec kind_byte :: "segment_kind \<Rightarrow> u8" where
  "kind_byte Primordial = 0"
| "kind_byte Small = 1"
| "kind_byte Large = 2"
| "kind_byte Unknown = 0xFF"

definition decode_kind :: "u8 \<Rightarrow> segment_kind" where
  "decode_kind b = (if b = 0 then Primordial else if b = 1 then Small else if b = 2 then Large else Unknown)"

record segment_header =
  bump :: nat
  owner_state :: u64
  magic :: nat
  live_count :: nat
  decommitted :: nat
  kind :: segment_kind
  large_size :: nat
  large_align :: nat
  payload_offset :: nat
  span_usable :: nat
  reservation :: nat
  reservation_len :: nat
  pool_next :: nat
  pool_prev :: nat
  committed_payload_end :: nat
  reserved_capacity :: nat
  segment_id :: nat
  node_id :: nat
  payload_virgin :: nat
  sidecar_defer_window :: nat

definition header_small :: "nat \<Rightarrow> nat \<Rightarrow> nat \<Rightarrow> nat \<Rightarrow> segment_header" where
  "header_small sid b res res_len =
     \<lparr>bump = b, owner_state = pack_owner OWNER_STATE_LIVE OWNER_ID_NONE 0, magic = SEGMENT_MAGIC,
      live_count = 0, decommitted = 0, kind = Small, large_size = 0, large_align = 0,
      payload_offset = 0, span_usable = 0, reservation = res, reservation_len = res_len,
      pool_next = 0, pool_prev = 0, committed_payload_end = 0, reserved_capacity = 0,
      segment_id = sid, node_id = NO_NODE_RAW, payload_virgin = 0, sidecar_defer_window = 0\<rparr>"

text \<open>\<open>bump - size\<close> is the payload offset; its underflow is a panic (\<open>None\<close>).\<close>

definition header_large ::
    "nat \<Rightarrow> nat \<Rightarrow> nat \<Rightarrow> nat \<Rightarrow> nat \<Rightarrow> nat \<Rightarrow> nat \<Rightarrow> nat \<Rightarrow> segment_header option" where
  "header_large sid sz align usable capacity b res res_len =
     (if b < sz then None
      else Some
        \<lparr>bump = b, owner_state = pack_owner OWNER_STATE_LIVE OWNER_ID_NONE 0, magic = SEGMENT_MAGIC,
         live_count = 0, decommitted = 0, kind = Large, large_size = sz, large_align = align,
         payload_offset = b - sz, span_usable = usable, reservation = res,
         reservation_len = res_len, pool_next = 0, pool_prev = 0, committed_payload_end = 0,
         reserved_capacity = capacity, segment_id = sid, node_id = NO_NODE_RAW,
         payload_virgin = 0, sidecar_defer_window = 0\<rparr>)"

text \<open>The live-block counter of a segment: a checked \<open>u32\<close> bounded by the block count.\<close>

definition live_limit :: nat where "live_limit = SEGMENT div MIN_BLOCK"

definition add_live :: "nat \<Rightarrow> segment_header \<Rightarrow> fatal + segment_header" where
  "add_live n h =
     (if live_count h + n < 2 ^ 32 \<and> live_count h + n \<le> live_limit
      then Inr (h\<lparr>live_count := live_count h + n\<rparr>)
      else Inl ''segment_header_meta_fields: add_live live_count overflow'')"

definition sub_live :: "nat \<Rightarrow> segment_header \<Rightarrow> fatal + nat \<times> segment_header" where
  "sub_live n h =
     (if n \<le> live_count h then Inr (live_count h - n, h\<lparr>live_count := live_count h - n\<rparr>)
      else Inl ''segment_header_meta_fields: sub_live live_count underflow'')"

definition inc_live :: "segment_header \<Rightarrow> fatal + segment_header" where
  "inc_live h = add_live 1 h"

definition dec_live :: "segment_header \<Rightarrow> fatal + nat \<times> segment_header" where
  "dec_live h = sub_live 1 h"

definition is_decommitted :: "segment_header \<Rightarrow> bool" where
  "is_decommitted h \<longleftrightarrow> decommitted h \<noteq> 0"

definition set_decommitted :: "bool \<Rightarrow> segment_header \<Rightarrow> segment_header" where
  "set_decommitted v h = h\<lparr>decommitted := (if v then 1 else 0)\<rparr>"

subsection \<open>The layout of the metadata\<close>

text \<open>
  The layout \<open>repr(C)\<close> gives a struct: each field at the next multiple of its alignment, the
  size rounded up to the largest alignment.  Fields are pairs of size and alignment.
\<close>

fun field_offsets :: "nat \<Rightarrow> (nat \<times> nat) list \<Rightarrow> nat list" where
  "field_offsets pos [] = []"
| "field_offsets pos ((sz, al) # fs) =
     div_ceil pos al * al # field_offsets (div_ceil pos al * al + sz) fs"

fun fields_end :: "nat \<Rightarrow> (nat \<times> nat) list \<Rightarrow> nat" where
  "fields_end pos [] = pos"
| "fields_end pos ((sz, al) # fs) = fields_end (div_ceil pos al * al + sz) fs"

definition repr_c_size :: "(nat \<times> nat) list \<Rightarrow> nat" where
  "repr_c_size fs = (let al = Max (set (map snd fs)) in div_ceil (fields_end 0 fs) al * al)"

definition header_fields :: "(nat \<times> nat) list" where
  "header_fields =
     [(8, 8), (8, 8), (4, 4), (4, 4), (4, 4), (1, 1), (8, 8), (8, 8), (8, 8), (8, 8), (8, 8),
      (8, 8), (8, 8), (8, 8), (8, 8), (8, 8), (4, 4), (4, 4), (4, 4), (4, 4)]"

definition HEADER_SIZE :: nat where "HEADER_SIZE = repr_c_size header_fields"

definition PAGE :: nat where "PAGE = 4096"
definition MAX_REALISTIC_PAGE_SIZE :: nat where "MAX_REALISTIC_PAGE_SIZE = push_bit 16 1"
definition PAGES_PER_SEGMENT :: nat where "PAGES_PER_SEGMENT = SEGMENT div PAGE"
definition LAZY_FIRST_CHUNK :: nat where "LAZY_FIRST_CHUNK = 256 * 1024"

text \<open>\<open>align_up_const\<close> masks, \<open>align_up\<close> divides (and asserts a non-zero alignment).\<close>

definition align_up_const :: "nat \<Rightarrow> nat \<Rightarrow> nat" where
  "align_up_const n a = (let mask = a - 1 in (n + mask) AND (usize_max - mask))"

definition align_up :: "nat \<Rightarrow> nat \<Rightarrow> nat option" where
  "align_up n a = (if 0 < a then Some (div_ceil n a * a) else None)"

definition TERMINAL_WORDS_OFF :: nat where "TERMINAL_WORDS_OFF = align_up_const HEADER_SIZE 8"
definition REMOTE_HEAD_OFF :: nat where
  "REMOTE_HEAD_OFF = TERMINAL_WORDS_OFF + field_offsets 0 [(4, 4), (8, 8)] ! 0"
definition LARGE_STATE_OFF :: nat where
  "LARGE_STATE_OFF = TERMINAL_WORDS_OFF + field_offsets 0 [(4, 4), (8, 8)] ! 1"

definition PAGE_MAP_FOOTPRINT :: nat where "PAGE_MAP_FOOTPRINT = PAGES_PER_SEGMENT * 1"
definition BIN_TABLE_FOOTPRINT :: nat where "BIN_TABLE_FOOTPRINT = SMALL_CLASS_COUNT * 4"
definition STATE_BYTE_FOOTPRINT :: nat where "STATE_BYTE_FOOTPRINT = SEGMENT div MIN_BLOCK"
definition REGISTRY_FOOTPRINT :: nat where "REGISTRY_FOOTPRINT = 4096 * 8"
definition HASH_FOOTPRINT :: nat where "HASH_FOOTPRINT = 2 * 4096 * 8"
definition FREE_LIST_FOOTPRINT :: nat where "FREE_LIST_FOOTPRINT = 4096 * 4"
definition ACTIVE_KIND_FOOTPRINT :: nat where
  "ACTIVE_KIND_FOOTPRINT = repr_c_size [(64 * 8, 8), (64 * 8, 8), (8, 8), (8, 8)]"

definition FREE_LIST_NULL :: nat where "FREE_LIST_NULL = 2 ^ 32 - 1"

definition page_map_off :: nat where "page_map_off = align_up_const HEADER_SIZE PAGE"
definition bin_table_off :: nat where "bin_table_off = page_map_off + PAGE_MAP_FOOTPRINT"
definition state_byte_off :: nat where
  "state_byte_off = align_up_const (bin_table_off + BIN_TABLE_FOOTPRINT * 2) 8"
definition owner_metadata_end :: nat where
  "owner_metadata_end = state_byte_off + STATE_BYTE_FOOTPRINT"
definition small_meta_end_pre_runstack :: nat where
  "small_meta_end_pre_runstack = owner_metadata_end"
definition small_meta_end :: nat where
  "small_meta_end = align_up_const small_meta_end_pre_runstack PAGE"
definition primordial_registry_off :: nat where "primordial_registry_off = small_meta_end"
definition primordial_hash_off :: nat where
  "primordial_hash_off = align_up_const (primordial_registry_off + REGISTRY_FOOTPRINT) 8"
definition primordial_free_list_off :: nat where
  "primordial_free_list_off = align_up_const (primordial_hash_off + HASH_FOOTPRINT) 4"
definition primordial_free_top_off :: nat where
  "primordial_free_top_off = primordial_free_list_off + FREE_LIST_FOOTPRINT"
definition primordial_active_kind_off :: nat where
  "primordial_active_kind_off = align_up_const (primordial_free_top_off + 4) 8"
definition primordial_active_kind_end :: nat where
  "primordial_active_kind_end = primordial_active_kind_off + ACTIVE_KIND_FOOTPRINT"
definition primordial_meta_end :: nat where
  "primordial_meta_end = align_up_const primordial_active_kind_end PAGE"

text \<open>
  The page size of the system is a parameter; the \<open>debug_assert!\<close>s on it give \<open>None\<close>.
\<close>

definition small_decommit_start :: "nat \<Rightarrow> nat option" where
  "small_decommit_start real_page =
     (if real_page \<le> MAX_REALISTIC_PAGE_SIZE then align_up small_meta_end real_page else None)"

definition primordial_decommit_start :: "nat \<Rightarrow> nat option" where
  "primordial_decommit_start real_page =
     (if real_page \<le> MAX_REALISTIC_PAGE_SIZE then align_up primordial_meta_end real_page else None)"

definition lazy_initial_commit :: "nat \<Rightarrow> nat \<Rightarrow> nat option" where
  "lazy_initial_commit meta_end page_size =
     (if \<not> (0 < page_size \<and> is_power_of_two page_size) then None
      else if \<not> page_size \<le> MAX_REALISTIC_PAGE_SIZE then None
      else align_up (meta_end + LAZY_FIRST_CHUNK) page_size)"

definition segment_base_of :: "nat \<Rightarrow> nat" where
  "segment_base_of addr = addr AND (usize_max - (SEGMENT - 1))"

text \<open>
  \<open>Segment::reserve_biased\<close>: over-reserve by the alignment and place the root so that the
  payload, \<open>metadata\<close> bytes behind it, is aligned.  \<open>reserve\<close> and \<open>commit\<close> are the
  operating system's: the first maps a length to the address and length of a new mapping and
  to the token and length by which it is released.
\<close>

definition reserve_biased ::
    "(nat \<Rightarrow> (nat \<times> nat \<times> nat \<times> nat) option) \<Rightarrow> (nat \<Rightarrow> nat \<Rightarrow> bool) \<Rightarrow> nat \<Rightarrow> nat \<Rightarrow> nat \<Rightarrow> nat
       \<Rightarrow> (nat \<times> nat \<times> nat) option" where
  "reserve_biased reserve commit useful committed align metadata =
     (if useful + align > usize_max then None
      else case reserve (useful + align) of
        None \<Rightarrow> None
      | Some (origin, raw_len, token, token_len) \<Rightarrow>
          if origin + metadata > usize_max \<or> origin + metadata + (align - 1) > usize_max then None
          else
            let payload = (origin + metadata + (align - 1)) AND (usize_max - (align - 1)) in
            if payload < metadata \<or> payload - metadata < origin then None
            else
              let root_offset = payload - metadata - origin in
              if root_offset + useful > usize_max \<or> root_offset + useful > raw_len
                 \<or> committed > useful then None
              else if \<not> commit (origin + root_offset) committed then None
              else if token = 0 then None
              else Some (origin + root_offset, token, token_len))"

subsection \<open>Facts about rounding\<close>

lemma div_ceil_mult:
  fixes n a :: nat
  assumes "0 < a"
  shows "(n + (a - 1)) - (n + (a - 1)) mod a = div_ceil n a * a"
proof -
  have "(n + (a - 1)) div a = div_ceil n a"
  proof (cases "n mod a = 0")
    case True
    then obtain q where n: "n = a * q" by (auto simp: dvd_def simp flip: dvd_eq_mod_eq_0)
    have "(a * q + (a - 1)) div a = q + (a - 1) div a" using assms by (intro div_mult_self4) simp
    moreover have "(a - 1) div a = 0" using assms by simp
    ultimately have "(a * q + (a - 1)) div a = q" by linarith
    then show ?thesis using assms by (simp add: n div_ceil_def)
  next
    case False
    define q r where "q = n div a" and "r = n mod a"
    have n: "n = a * q + r" and r: "0 < r" "r < a" using False assms by (simp_all add: q_def r_def)
    have "n + (a - 1) = (r - 1) + a * (q + 1)" using n r assms by (simp add: algebra_simps)
    moreover have "r - 1 < a" using r by simp
    ultimately have "(n + (a - 1)) div a = q + 1" using assms by (metis add.commute add.left_neutral
          div_less div_mult_self4 less_not_refl)
    then show ?thesis using False by (simp add: div_ceil_def q_def)
  qed
  then show ?thesis by (simp add: minus_mod_eq_div_mult)
qed

lemma mask_up:
  assumes "is_power_of_two a" and "x \<le> usize_max" and "a \<le> 2 ^ 64"
  shows "x AND (usize_max - (a - 1)) = x - x mod a"
proof -
  obtain k where k: "a = 2 ^ k" using assms(1) by (auto simp: is_power_of_two_iff)
  have "k \<le> 64" using assms(3) unfolding k by (rule power_le_imp_le_exp [rotated]) simp
  have "x < 2 ^ 64" using assms(2) by (rule le_less_trans) simp
  have "usize_max - (a - 1) = 2 ^ 64 - 2 ^ k" by (simp add: k)
  with and_high_mask [OF \<open>x < 2 ^ 64\<close> \<open>k \<le> 64\<close>] show ?thesis by (simp add: k)
qed

lemma align_up_const_eq:
  assumes "is_power_of_two a" and "n + (a - 1) \<le> usize_max"
  shows "align_up_const n a = div_ceil n a * a"
proof -
  have a: "0 < a" using assms(1) by (rule power_of_two_pos)
  have "a - 1 \<le> usize_max" using assms(2) by linarith
  then have "a \<le> 2 ^ 64" using a by simp
  from mask_up [OF assms(1,2) this] div_ceil_mult [OF a, of n] show ?thesis
    by (simp add: align_up_const_def Let_def)
qed

lemma div_ceil_bounds:
  assumes "0 < a"
  shows "n \<le> div_ceil n a * a" and "div_ceil n a * a < n + a" and "a dvd div_ceil n a * a"
proof -
  have "(n + (a - 1)) mod a < a" using assms by simp
  with div_ceil_mult [OF assms, of n] assms show "n \<le> div_ceil n a * a" "div_ceil n a * a < n + a"
    by linarith+
qed simp

lemma power_of_two_values: "is_power_of_two 4" "is_power_of_two 4096"
  using is_power_of_two_pow [of 2] is_power_of_two_pow [of 12] by simp_all

lemma power_of_two_8 [simp]: "is_power_of_two 8"
  using is_power_of_two_pow [of 3] by simp

lemma layout_values [simp]:
  "HEADER_SIZE = 128" "SEGMENT = 4194304" "PAGE = 4096" "PAGES_PER_SEGMENT = 1024"
  "MAX_REALISTIC_PAGE_SIZE = 65536" "LAZY_FIRST_CHUNK = 262144"
  "PAGE_MAP_FOOTPRINT = 1024" "BIN_TABLE_FOOTPRINT = 196" "STATE_BYTE_FOOTPRINT = 262144"
  "ACTIVE_KIND_FOOTPRINT = 1040" "live_limit = 262144"
  by (simp_all add: HEADER_SIZE_def repr_c_size_def header_fields_def div_ceil_def SEGMENT_def PAGE_def
      PAGES_PER_SEGMENT_def MAX_REALISTIC_PAGE_SIZE_def LAZY_FIRST_CHUNK_def push_bit_eq_mult
      PAGE_MAP_FOOTPRINT_def BIN_TABLE_FOOTPRINT_def STATE_BYTE_FOOTPRINT_def MIN_BLOCK_def
      ACTIVE_KIND_FOOTPRINT_def live_limit_def)

lemma terminal_offsets [simp]:
  "TERMINAL_WORDS_OFF = 128" "REMOTE_HEAD_OFF = 128" "LARGE_STATE_OFF = 136"
  by (simp_all add: TERMINAL_WORDS_OFF_def REMOTE_HEAD_OFF_def LARGE_STATE_OFF_def align_up_const_eq
      power_of_two_values div_ceil_def)

lemma layout_offsets [simp]:
  "page_map_off = 4096" "bin_table_off = 5120" "state_byte_off = 5512" "owner_metadata_end = 267656"
  "small_meta_end = 270336" "primordial_registry_off = 270336" "primordial_hash_off = 303104"
  "primordial_free_list_off = 368640" "primordial_free_top_off = 385024"
  "primordial_active_kind_off = 385032" "primordial_active_kind_end = 386072"
  "primordial_meta_end = 389120"
proof -
  note up = align_up_const_eq power_of_two_values div_ceil_def
  show a: "page_map_off = 4096" by (simp add: page_map_off_def up)
  show b: "bin_table_off = 5120" by (simp add: bin_table_off_def a)
  show c: "state_byte_off = 5512" by (simp add: state_byte_off_def b up)
  show d: "owner_metadata_end = 267656" by (simp add: owner_metadata_end_def c)
  show e: "small_meta_end = 270336" by (simp add: small_meta_end_def small_meta_end_pre_runstack_def d up)
  show f: "primordial_registry_off = 270336" by (simp add: primordial_registry_off_def e)
  show g: "primordial_hash_off = 303104" by (simp add: primordial_hash_off_def REGISTRY_FOOTPRINT_def f up)
  show h: "primordial_free_list_off = 368640"
    by (simp add: primordial_free_list_off_def HASH_FOOTPRINT_def g up)
  show i: "primordial_free_top_off = 385024" by (simp add: primordial_free_top_off_def FREE_LIST_FOOTPRINT_def h)
  show j: "primordial_active_kind_off = 385032" by (simp add: primordial_active_kind_off_def i up)
  show k: "primordial_active_kind_end = 386072" by (simp add: primordial_active_kind_end_def j)
  show "primordial_meta_end = 389120" by (simp add: primordial_meta_end_def k up)
qed

lemma decode_kind_byte [simp]: "decode_kind (kind_byte k) = k"
  by (cases k) (simp_all add: decode_kind_def)

subsection \<open>Properties\<close>

text \<open>packing an owner into its word is lossless on the 31-bit owner ids, sentinels included: the
  id, the state bit and the generation are read back unchanged.\<close>

theorem owner_word_roundtrip:
  assumes "unat owner_id < 2 ^ 31"
  shows "unpack_owner_id (pack_owner state owner_id generation) = owner_id
    \<and> pack_owner state owner_id generation AND OWNER_STATE_MASK = state AND OWNER_STATE_MASK
    \<and> drop_bit 32 (pack_owner state owner_id generation) = ucast generation"
proof -
  have m: "(push_bit 31 1 - 1 :: u64) = mask 31" "OWNER_ID_MASK = push_bit 1 (mask 31)"
    by (simp_all add: mask_eq_exp_minus_1 OWNER_ID_MASK_def push_bit_of_1)
  have one: "OWNER_STATE_MASK = mask 1" by (simp add: OWNER_STATE_MASK_def mask_eq_exp_minus_1)
  have high: "\<not> bit owner_id 31" using assms by (rule not_bit_above) simp
  have "unpack_owner_id (pack_owner state owner_id generation) = owner_id"
  proof (rule bit_word_eqI)
    fix n assume "n < LENGTH(32)"
    then have n: "n < 32" by simp
    show "bit (unpack_owner_id (pack_owner state owner_id generation)) n \<longleftrightarrow> bit owner_id n"
    proof (cases "n = 31")
      case True
      with high show ?thesis
        unfolding unpack_owner_id_def pack_owner_def m one
        by (auto simp: bit_simps simp del: push_bit_Suc drop_bit_Suc mask_numeral)
    next
      case False
      with n show ?thesis
        unfolding unpack_owner_id_def pack_owner_def m one
        by (auto simp: bit_simps simp del: push_bit_Suc drop_bit_Suc mask_numeral)
    qed
  qed
  moreover have "pack_owner state owner_id generation AND OWNER_STATE_MASK = state AND OWNER_STATE_MASK"
    unfolding pack_owner_def m one
    by (rule bit_word_eqI) (auto simp: bit_simps simp del: push_bit_Suc drop_bit_Suc mask_numeral)
  moreover have "drop_bit 32 (pack_owner state owner_id generation) = ucast generation"
    unfolding pack_owner_def m one
    by (rule bit_word_eqI) (auto simp: bit_simps dest: bit_imp_le_length simp del: push_bit_Suc drop_bit_Suc mask_numeral)
  ultimately show ?thesis by blast
qed

lemma owner_word_roundtrip_witness:
  "unpack_owner_id (pack_owner OWNER_STATE_LIVE OWNER_ID_NONE 7) = OWNER_ID_NONE
    \<and> unpack_owner_id (pack_owner OWNER_STATE_LIVE OWNER_ID_FALLBACK 0) = OWNER_ID_FALLBACK"
  using owner_word_roundtrip [of OWNER_ID_NONE OWNER_STATE_LIVE 7]
    owner_word_roundtrip [of OWNER_ID_FALLBACK OWNER_STATE_LIVE 0]
  by (simp add: OWNER_ID_NONE_def OWNER_ID_FALLBACK_def)

text \<open>the live counter of a segment stays within the number of blocks a segment can hold: adding
  aborts exactly when it would exceed that bound, and otherwise is undone by subtracting.\<close>

theorem live_counter_bounded:
  assumes "live_count h \<le> live_limit"
  shows "case add_live n h of
      Inl _ \<Rightarrow> live_limit < live_count h + n
    | Inr h' \<Rightarrow> live_count h' \<le> live_limit \<and> sub_live n h' = Inr (live_count h, h)"
  using assms by (auto simp: add_live_def sub_live_def)

lemma live_counter_bounded_witness:
  "case add_live 3 (header_small 1 4096 0 0) of
      Inl _ \<Rightarrow> False | Inr h' \<Rightarrow> sub_live 3 h' = Inr (0, header_small 1 4096 0 0)"
  using live_counter_bounded [of "header_small 1 4096 0 0" 3]
  by (auto simp: header_small_def split: sum.splits)

text \<open>The metadata regions of the primordial segment, in address order: offset and length.\<close>

definition primordial_regions :: "(nat \<times> nat) list" where
  "primordial_regions =
     [(0, HEADER_SIZE), (REMOTE_HEAD_OFF, 4), (LARGE_STATE_OFF, 8), (page_map_off, PAGE_MAP_FOOTPRINT),
      (bin_table_off, BIN_TABLE_FOOTPRINT * 2), (state_byte_off, STATE_BYTE_FOOTPRINT),
      (primordial_registry_off, REGISTRY_FOOTPRINT), (primordial_hash_off, HASH_FOOTPRINT),
      (primordial_free_list_off, FREE_LIST_FOOTPRINT), (primordial_free_top_off, 4),
      (primordial_active_kind_off, ACTIVE_KIND_FOOTPRINT)]"

text \<open>The metadata regions of a segment do not overlap, the words that are accessed atomically are
  aligned, and all of them end before the payload, which leaves at least a page of it.\<close>

theorem metadata_regions_disjoint:
  "sorted_wrt (\<lambda>r r'. fst r + snd r \<le> fst r') primordial_regions
   \<and> (\<forall>r \<in> set primordial_regions. fst r + snd r \<le> primordial_meta_end)
   \<and> small_meta_end \<le> primordial_registry_off \<and> primordial_meta_end + PAGE \<le> SEGMENT
   \<and> PAGE dvd small_meta_end \<and> PAGE dvd primordial_meta_end
   \<and> 4 dvd REMOTE_HEAD_OFF \<and> 8 dvd LARGE_STATE_OFF \<and> 8 dvd primordial_registry_off
   \<and> 8 dvd primordial_hash_off \<and> 4 dvd primordial_free_list_off \<and> 4 dvd primordial_free_top_off
   \<and> 8 dvd primordial_active_kind_off"
  by (simp add: primordial_regions_def REGISTRY_FOOTPRINT_def HASH_FOOTPRINT_def FREE_LIST_FOOTPRINT_def)

lemma metadata_regions_disjoint_witness:
  "map fst primordial_regions =
      [0, 128, 136, 4096, 5120, 5512, 270336, 303104, 368640, 385024, 385032]
    \<and> (\<exists>r \<in> set primordial_regions. r = (state_byte_off, 262144) \<and> fst r + snd r \<le> primordial_meta_end)"
proof -
  have "(state_byte_off, 262144) \<in> set primordial_regions" by (simp add: primordial_regions_def)
  then have "\<exists>r \<in> set primordial_regions. r = (state_byte_off, 262144) \<and> fst r + snd r \<le> primordial_meta_end"
    using metadata_regions_disjoint by blast
  then show ?thesis by (simp add: primordial_regions_def)
qed

text \<open>on every page size up to 64 KiB, the part of a segment committed up front is a whole number
  of pages that covers the metadata and the first chunk and stays inside the segment.\<close>

theorem lazy_commit_covers:
  assumes "is_power_of_two page_size" and "page_size \<le> MAX_REALISTIC_PAGE_SIZE"
    and "meta_end \<in> {small_meta_end, primordial_meta_end}"
  shows "\<exists>c. lazy_initial_commit meta_end page_size = Some c \<and> page_size dvd c
    \<and> meta_end + LAZY_FIRST_CHUNK \<le> c \<and> c \<le> SEGMENT"
proof -
  have p: "0 < page_size" using assms(1) by (rule power_of_two_pos)
  note b = div_ceil_bounds [OF p, of "meta_end + LAZY_FIRST_CHUNK"]
  have "lazy_initial_commit meta_end page_size =
      Some (div_ceil (meta_end + LAZY_FIRST_CHUNK) page_size * page_size)"
    using assms p by (simp add: lazy_initial_commit_def align_up_def)
  moreover have "div_ceil (meta_end + LAZY_FIRST_CHUNK) page_size * page_size \<le> SEGMENT"
    using b(2) assms(2,3) by auto
  ultimately show ?thesis using b by blast
qed

lemma lazy_commit_covers_witness:
  "\<exists>c. lazy_initial_commit primordial_meta_end 65536 = Some c \<and> 65536 dvd c \<and> c \<le> SEGMENT"
  using lazy_commit_covers [of 65536 primordial_meta_end] is_power_of_two_pow [of 16] by auto

text \<open>over-reserving by the alignment always leaves room: when the operating system hands out a
  mapping of the requested length, the biased root lies inside it with all its useful bytes
  and the payload behind the metadata is aligned.\<close>

theorem reserve_biased_placed:
  assumes "reserve_biased reserve commit useful committed align metadata = Some (root, token, len)"
    and "is_power_of_two align"
  shows "\<exists>origin raw_len. reserve (useful + align) = Some (origin, raw_len, token, len)
    \<and> origin \<le> root \<and> root + useful \<le> origin + raw_len \<and> align dvd root + metadata
    \<and> root < origin + align \<and> committed \<le> useful \<and> commit root committed \<and> token \<noteq> 0"
proof -
  obtain origin raw_len where r: "reserve (useful + align) = Some (origin, raw_len, token, len)"
    using assms(1) unfolding reserve_biased_def Let_def
    by (simp only: split: if_split_asm option.split_asm prod.split_asm) simp_all
  define payload where "payload = (origin + metadata + (align - 1)) AND (usize_max - (align - 1))"
  have small: "origin + metadata + (align - 1) \<le> usize_max"
    and pos: "metadata \<le> payload" "origin \<le> payload - metadata"
    and fits: "payload - metadata - origin + useful \<le> raw_len" and c: "committed \<le> useful"
    and root: "root = origin + (payload - metadata - origin)" and "commit root committed" "token \<noteq> 0"
    using assms(1) unfolding reserve_biased_def Let_def r
    by (simp_all only: option.case prod.case flip: payload_def split: if_split_asm) simp_all
  have a: "0 < align" using assms(2) by (rule power_of_two_pos)
  have "align - 1 \<le> usize_max" using small by linarith
  then have "align \<le> 2 ^ 64" using a by simp
  from mask_up [OF assms(2) small this] div_ceil_mult [OF a, of "origin + metadata"]
  have payload: "payload = div_ceil (origin + metadata) align * align" by (simp add: payload_def)
  note b = div_ceil_bounds [OF a, of "origin + metadata", folded payload]
  have "root + metadata = payload" using root pos by simp
  then have "align dvd root + metadata" "root < origin + align" using b by auto
  moreover have "root + useful \<le> origin + raw_len" using fits root pos by linarith
  ultimately show ?thesis using r root c \<open>commit root committed\<close> \<open>token \<noteq> 0\<close> by auto
qed

lemma reserve_biased_placed_witness:
  "\<exists>root. reserve_biased (\<lambda>n. Some (4096, n, 1, n)) (\<lambda>_ _. True) 8192 4096 65536 4096
      = Some (root, 1, 73728) \<and> 65536 dvd root + 4096"
proof -
  have p: "is_power_of_two 65536" using is_power_of_two_pow [of 16] by simp
  have "8192 AND (18446744073709551615 - 65535) = (0::nat)" by simp
  have m: "73727 AND (usize_max - (65536 - 1)) = 65536"
    using mask_up [OF p, of 73727] by simp
  have "reserve_biased (\<lambda>n. Some (4096, n, 1, n)) (\<lambda>_ _. True) 8192 4096 65536 4096
      = Some (61440, 1, 73728)"
    using m by (simp add: reserve_biased_def)
  from reserve_biased_placed [OF this p] this show ?thesis by auto
qed

end
