(* ===== verification/Interfaces.thy ===== *)
theory Interfaces
  imports Prelude
begin

text \<open>
  The contracts between the components, as locales: a client's lemmas are proved once from
  the laws it relies on, and the provider discharges the laws by an interpretation in its own
  theory.  \<open>key_index\<close> is what the segment table asks of its hash index,
  \<open>ordered_set\<close> what a sweep over the active segments asks of their index, and
  \<open>transition_system\<close> the rule of invariants that the lock-free components share.
\<close>

subsection \<open>An index from keys to small identities\<close>

text \<open>
  \<open>view\<close> is the finite map the index stands for, \<open>used\<close> how many of its
  \<open>capacity\<close> slots are taken.  An identity is stored biased by one, and a lookup
  resolves it through \<open>base_at\<close>, the array of the owner of the identities.
\<close>

locale key_index =
  fixes invar :: "'s \<Rightarrow> bool"
    and view :: "'s \<Rightarrow> nat \<Rightarrow> nat option"
    and used :: "'s \<Rightarrow> nat"
    and capacity :: nat
    and ok_key :: "nat \<Rightarrow> bool"
    and max_id :: nat
    and insert_id :: "'s \<Rightarrow> nat \<Rightarrow> nat \<Rightarrow> 's option"
    and remove_key :: "'s \<Rightarrow> nat \<Rightarrow> ('e + 's) option"
    and find_root :: "(nat \<Rightarrow> nat) \<Rightarrow> 's \<Rightarrow> nat \<Rightarrow> nat option option"
  assumes insert_law: "invar s \<Longrightarrow> ok_key k \<Longrightarrow> i < max_id \<Longrightarrow> view s k = None
      \<Longrightarrow> Suc (used s) < capacity
      \<Longrightarrow> \<exists>s'. insert_id s k i = Some s' \<and> invar s' \<and> view s' = (view s)(k \<mapsto> i + 1)
          \<and> used s' = Suc (used s)"
    and remove_law: "invar s
      \<Longrightarrow> \<exists>s'. remove_key s k = Some (Inr s') \<and> invar s' \<and> view s' = (view s)(k := None)
          \<and> used s = used s' + (if view s k = None then 0 else 1)"
    and find_law: "invar s \<Longrightarrow> find_root base_at s k = Some (case view s k of
        None \<Rightarrow> None
      | Some ident \<Rightarrow>
          (let root = (if ident = 0 then k else base_at (ident - 1))
           in if root \<noteq> 0 then Some root else None))"
begin

text \<open>The index holds exactly the (finite) map \<open>m\<close> from keys to identities.\<close>

definition represents :: "'s \<Rightarrow> (nat \<Rightarrow> nat option) \<Rightarrow> bool" where
  "represents s m \<longleftrightarrow> invar s \<and> view s = (\<lambda>k. map_option Suc (m k)) \<and> finite (dom m)
     \<and> used s = card (dom m)"

lemma represents_insert:
  assumes "represents s m" and "ok_key k" and "i < max_id" and "m k = None"
    and "Suc (card (dom m)) < capacity"
  shows "\<exists>s'. insert_id s k i = Some s' \<and> represents s' (m(k \<mapsto> i))"
proof -
  from assms have s: "invar s" "view s k = None" "Suc (used s) < capacity"
    by (simp_all add: represents_def)
  from insert_law [OF s(1) assms(2,3) s(2,3)] obtain s' where
    s': "insert_id s k i = Some s'" "invar s'" "view s' = (view s)(k \<mapsto> i + 1)"
      "used s' = Suc (used s)" by blast
  have "k \<notin> dom m" using assms(4) by blast
  with s' assms(1) have "represents s' (m(k \<mapsto> i))"
    by (auto simp: represents_def fun_eq_iff)
  with s'(1) show ?thesis by blast
qed

lemma represents_remove:
  assumes "represents s m"
  shows "\<exists>s'. remove_key s k = Some (Inr s') \<and> represents s' (m(k := None))"
proof -
  from assms have "invar s" by (simp add: represents_def)
  from remove_law [OF this, of k] obtain s' where
    s': "remove_key s k = Some (Inr s')" "invar s'" "view s' = (view s)(k := None)"
      "used s = used s' + (if view s k = None then 0 else 1)" by blast
  have fin: "finite (dom m)" and u: "used s = card (dom m)"
    and v: "view s = (\<lambda>k. map_option Suc (m k))" using assms by (simp_all add: represents_def)
  have "used s' = card (dom m - {k})"
  proof (cases "m k")
    case None
    then have "dom m - {k} = dom m" by blast
    with None s'(4) u v show ?thesis by simp
  next
    case (Some i)
    then have "k \<in> dom m" by blast
    with fin Some s'(4) u v show ?thesis by (simp add: card_Diff_singleton)
  qed
  with s' fin v have "represents s' (m(k := None))"
    by (simp add: represents_def fun_eq_iff)
  with s'(1) show ?thesis by blast
qed

lemma represents_find:
  "represents s m \<Longrightarrow> find_root base_at s k = Some (case m k of
      None \<Rightarrow> None | Some i \<Rightarrow> if base_at i \<noteq> 0 then Some (base_at i) else None)"
  using find_law [of s base_at k] by (auto simp: represents_def Let_def split: option.split)

lemma represents_empty:
  "invar s \<Longrightarrow> view s = (\<lambda>k. None) \<Longrightarrow> used s = 0 \<Longrightarrow> represents s (\<lambda>k. None)"
  by (simp add: represents_def dom_def)

end

subsection \<open>A set walked in increasing order\<close>

text \<open>
  The loop \<open>while let Some(i) = next(from) { ...; from = i + 1 }\<close> of the sources: the
  members it visits, in order (\<open>None\<close>: it never ends).
\<close>

partial_function (option) sweep :: "(nat \<Rightarrow> 'e + nat option) \<Rightarrow> nat \<Rightarrow> ('e + nat list) option" where
  "sweep nxt start =
     (case nxt start of
        Inl e \<Rightarrow> Some (Inl e)
      | Inr r \<Rightarrow>
          (case r of
             None \<Rightarrow> Some (Inr [])
           | Some i \<Rightarrow> Option.bind (sweep nxt (Suc i)) (\<lambda>rest. Some (map_sum id ((#) i) rest))))"

locale ordered_set =
  fixes invar :: "'s \<Rightarrow> bool"
    and members :: "'s \<Rightarrow> nat set"
    and bound :: nat
    and next_from :: "'s \<Rightarrow> nat \<Rightarrow> 'e + nat option"
  assumes members_bound: "invar s \<Longrightarrow> members s \<subseteq> {..<bound}"
    and next_law: "invar s \<Longrightarrow> \<exists>r. next_from s start = Inr r \<and> (case r of
        None \<Rightarrow> \<forall>j \<in> members s. j < start
      | Some i \<Rightarrow> i \<in> members s \<and> start \<le> i \<and> (\<forall>j \<in> members s. start \<le> j \<longrightarrow> i \<le> j))"
begin

lemma finite_members: "invar s \<Longrightarrow> finite (members s)"
  using members_bound finite_subset by blast

text \<open>A sweep ends, raises no error and visits exactly the members from \<open>start\<close> on, in order.\<close>

lemma sweep_members:
  assumes "invar s"
  shows "sweep (next_from s) start = Some (Inr (sorted_list_of_set {i \<in> members s. start \<le> i}))"
proof (induction "bound - start" arbitrary: start rule: less_induct)
  case less
  from next_law [OF assms, of start] obtain r where r: "next_from s start = Inr r"
    and least: "case r of None \<Rightarrow> \<forall>j \<in> members s. j < start
      | Some i \<Rightarrow> i \<in> members s \<and> start \<le> i \<and> (\<forall>j \<in> members s. start \<le> j \<longrightarrow> i \<le> j)" by blast
  show ?case
  proof (cases r)
    case None
    with least have none: "{i \<in> members s. start \<le> i} = {}" by (auto simp: not_le)
    show ?thesis unfolding none by (subst sweep.simps) (simp add: r None)
  next
    case (Some i)
    with least have i: "i \<in> members s" "start \<le> i" "\<forall>j \<in> members s. start \<le> j \<longrightarrow> i \<le> j" by auto
    let ?rest = "{j \<in> members s. Suc i \<le> j}"
    have "i < bound" using members_bound [OF assms] i(1) by blast
    then have "bound - Suc i < bound - start" using i(2) by simp
    from less.hyps [OF this] have step: "sweep (next_from s) start = Some (Inr (i # sorted_list_of_set ?rest))"
      by (subst sweep.simps) (simp add: r Some)
    have fin: "finite ?rest" using finite_members [OF assms] by simp
    have "{j \<in> members s. start \<le> j} = insert i ?rest" using i by force
    then have "sorted_list_of_set {j \<in> members s. start \<le> j} = insort i (sorted_list_of_set ?rest)"
      using fin by simp
    also have "\<dots> = i # sorted_list_of_set ?rest"
      using fin by (intro insort_is_Cons) auto
    finally show ?thesis using step by simp
  qed
qed

end

subsection \<open>Interleaved steps\<close>

text \<open>
  The lock-free components are step relations: one step is one atomic access of one thread.
  A property that holds initially and that every step keeps holds in every reachable state.
\<close>

inductive reachable :: "('s \<Rightarrow> bool) \<Rightarrow> ('s \<Rightarrow> 's \<Rightarrow> bool) \<Rightarrow> 's \<Rightarrow> bool"
  for start :: "'s \<Rightarrow> bool" and step :: "'s \<Rightarrow> 's \<Rightarrow> bool" where
  reach_start: "start s \<Longrightarrow> reachable start step s"
| reach_step: "reachable start step s \<Longrightarrow> step s s' \<Longrightarrow> reachable start step s'"

locale transition_system =
  fixes start :: "'s \<Rightarrow> bool"
    and step :: "'s \<Rightarrow> 's \<Rightarrow> bool"
    and good :: "'s \<Rightarrow> bool"
  assumes start_good: "start s \<Longrightarrow> good s"
    and step_good: "good s \<Longrightarrow> step s s' \<Longrightarrow> good s'"
begin

lemma reachable_good: "reachable start step s \<Longrightarrow> good s"
  by (induction rule: reachable.induct) (blast intro: start_good step_good)+

end

text \<open>A quantity that no step from a good state decreases only grows along every run.\<close>

locale ranked_system = transition_system +
  fixes rank :: "'s \<Rightarrow> nat"
  assumes step_rank: "good s \<Longrightarrow> step s s' \<Longrightarrow> rank s \<le> rank s'"
begin

lemma run_good: "step\<^sup>*\<^sup>* s s' \<Longrightarrow> good s \<Longrightarrow> good s'"
  by (induction rule: rtranclp_induct) (blast intro: step_good)+

lemma run_rank: "step\<^sup>*\<^sup>* s s' \<Longrightarrow> good s \<Longrightarrow> rank s \<le> rank s'"
proof (induction rule: rtranclp_induct)
  case (step s' s'')
  then show ?case using run_good step_rank order.trans by metis
qed simp

end

end
