(* ===== verification/HashIndex.thy ===== *)
theory HashIndex
  imports Interfaces
begin

text \<open>
  The open-addressed hash index of the segment table
  (\<open>src/alloc_core/segment/segment_table/hash.rs\<close>): linear probing over
  \<open>HASH_CAPACITY\<close> slots, deletion by backward shift.  The slot array is a list of
  addresses, \<open>0\<close> the null pointer; an entry is a \<open>SEGMENT\<close>-aligned key with the segment's
  table index plus one in its low bits.  The loops of the source have no bound of their own:
  they are partial functions here (\<open>None\<close> would be a loop that never ends), a
  \<open>debug_assert!\<close> that fires is an error value, and both are proved impossible for an index
  with a free slot.
\<close>

definition MAX_SEGMENTS :: nat where "MAX_SEGMENTS = 4096"
definition HASH_CAPACITY :: nat where "HASH_CAPACITY = 2 * MAX_SEGMENTS"
definition SEGMENT_SHIFT :: nat where "SEGMENT_SHIFT = 22"

datatype hash_error = HashFull | RemoveLooped | ShiftLooped

subsection \<open>Operations\<close>

definition hash_index :: "nat \<Rightarrow> nat" where
  "hash_index addr =
     (let key = drop_bit SEGMENT_SHIFT addr
      in (key XOR drop_bit 13 key XOR drop_bit 26 key) AND (HASH_CAPACITY - 1))"

definition next_slot :: "nat \<Rightarrow> nat" where
  "next_slot i = (i + 1) AND (HASH_CAPACITY - 1)"

text \<open>The segment base an entry carries, and the identity in its low bits.\<close>

definition entry_base :: "nat \<Rightarrow> nat" where
  "entry_base e = e AND (usize_max - (push_bit SEGMENT_SHIFT 1 - 1))"

definition entry_id :: "nat \<Rightarrow> nat" where
  "entry_id e = e AND (push_bit SEGMENT_SHIFT 1 - 1)"

partial_function (option) insert_loop ::
    "nat list \<Rightarrow> nat \<Rightarrow> nat \<Rightarrow> nat \<Rightarrow> (hash_error + nat list) option" where
  "insert_loop s base start i =
     (if s ! i = 0 then Some (Inr (s[i := base]))
      else let i' = next_slot i in
        if i' = start then Some (Inl HashFull) else insert_loop s base start i')"

definition hash_insert :: "nat list \<Rightarrow> nat \<Rightarrow> (hash_error + nat list) option" where
  "hash_insert s base = insert_loop s base (hash_index base) (hash_index base)"

partial_function (option) probe_free :: "nat list \<Rightarrow> nat \<Rightarrow> nat option" where
  "probe_free s i = (if s ! i = 0 then Some i else probe_free s (next_slot i))"

definition hash_insert_identity :: "nat list \<Rightarrow> nat \<Rightarrow> nat \<Rightarrow> nat list option" where
  "hash_insert_identity s key ident =
     map_option (\<lambda>i. s[i := key OR (ident + 1)]) (probe_free s (hash_index key))"

text \<open>
  \<open>hash_remove\<close>, first loop: the slot that holds \<open>base\<close> (\<open>Inr None\<close>: an empty slot ends
  the search, nothing to remove).
\<close>

partial_function (option) remove_find ::
    "nat list \<Rightarrow> nat \<Rightarrow> nat \<Rightarrow> nat \<Rightarrow> (hash_error + nat option) option" where
  "remove_find s base start i =
     (if s ! i = 0 then Some (Inr None)
      else if entry_base (s ! i) = base then Some (Inr (Some i))
      else let i' = next_slot i in
        if i' = start then Some (Inl RemoveLooped) else remove_find s base start i')"

text \<open>
  Second loop: pull later entries of the cluster back over the hole when the hole lies on
  their probe path, until an empty slot ends the cluster; then clear the last hole.
\<close>

definition shift_eligible :: "nat \<Rightarrow> nat \<Rightarrow> nat \<Rightarrow> bool" where
  "shift_eligible entry hole j =
     (let mask = HASH_CAPACITY - 1;
          home = hash_index entry;
          dist_hole = wrapping_sub hole home AND mask;
          dist_j = wrapping_sub j home AND mask
      in dist_hole \<le> dist_j)"

partial_function (option) shift_back ::
    "nat list \<Rightarrow> nat \<Rightarrow> nat \<Rightarrow> nat \<Rightarrow> (hash_error + nat list) option" where
  "shift_back s i hole j =
     (if s ! j = 0 then Some (Inr (s[hole := 0]))
      else let eligible = shift_eligible (s ! j) hole j;
               s' = (if eligible then s[hole := s ! j] else s);
               hole' = (if eligible then j else hole);
               j' = next_slot j in
        if j' = i then Some (Inl ShiftLooped) else shift_back s' i hole' j')"

definition hash_remove :: "nat list \<Rightarrow> nat \<Rightarrow> (hash_error + nat list) option" where
  "hash_remove s base =
     Option.bind (remove_find s base (hash_index base) (hash_index base))
       (\<lambda>r. case r of
          Inl e \<Rightarrow> Some (Inl e)
        | Inr None \<Rightarrow> Some (Inr s)
        | Inr (Some i) \<Rightarrow> shift_back s i i (next_slot i))"

text \<open>
  \<open>hash_find\<close>: \<open>base_at\<close> is the segment table's slot array, \<open>0\<close> its null entries.
\<close>

partial_function (option) find_loop ::
    "(nat \<Rightarrow> nat) \<Rightarrow> nat list \<Rightarrow> nat \<Rightarrow> nat \<Rightarrow> nat \<Rightarrow> nat option option" where
  "find_loop base_at s base start i =
     (if s ! i = 0 then Some None
      else if entry_base (s ! i) = base then
        (let ident = entry_id (s ! i);
             root = (if ident = 0 then s ! i else base_at (ident - 1))
         in Some (if root \<noteq> 0 then Some root else None))
      else let i' = next_slot i in
        if i' = start then Some None else find_loop base_at s base start i')"

definition hash_find :: "(nat \<Rightarrow> nat) \<Rightarrow> nat list \<Rightarrow> nat \<Rightarrow> nat option option" where
  "hash_find base_at s base = find_loop base_at s base (hash_index base) (hash_index base)"

definition hash_contains :: "(nat \<Rightarrow> nat) \<Rightarrow> nat list \<Rightarrow> nat \<Rightarrow> bool option" where
  "hash_contains base_at s base = map_option (\<lambda>r. r \<noteq> None) (hash_find base_at s base)"

subsection \<open>The probing invariant\<close>

abbreviation ring :: nat where "ring \<equiv> HASH_CAPACITY"

text \<open>
  Every slot on the probe path of an entry, from its home slot up to its own, is occupied;
  \<open>h\<close> (none: \<open>ring\<close>) is a slot that counts as occupied while a deletion is under way.
\<close>

definition path_full :: "nat list \<Rightarrow> nat \<Rightarrow> bool" where
  "path_full s h \<longleftrightarrow>
     (\<forall>p q. p < ring \<and> q < ring \<and> s ! p \<noteq> 0
        \<and> cdist ring (hash_index (s ! p)) q < cdist ring (hash_index (s ! p)) p
      \<longrightarrow> s ! q \<noteq> 0 \<or> q = h)"

definition distinct_bases :: "nat list \<Rightarrow> bool" where
  "distinct_bases s \<longleftrightarrow> distinct (map entry_base (filter (\<lambda>e. e \<noteq> 0) s))"

definition hash_used :: "nat list \<Rightarrow> nat" where
  "hash_used s = length (filter (\<lambda>e. e \<noteq> 0) s)"

definition hash_inv :: "nat list \<Rightarrow> bool" where
  "hash_inv s \<longleftrightarrow> length s = ring \<and> (\<forall>e \<in> set s. e \<le> usize_max) \<and> path_full s ring
     \<and> distinct_bases s \<and> hash_used s < ring"

text \<open>The finite map an index stands for: segment base to identity bits.\<close>

definition hash_view :: "nat list \<Rightarrow> nat \<Rightarrow> nat option" where
  "hash_view s base = map_option entry_id (find (\<lambda>e. e \<noteq> 0 \<and> entry_base e = base) s)"

subsection \<open>Basic facts\<close>

lemma ring_eq: "ring = 8192" by (simp add: HASH_CAPACITY_def MAX_SEGMENTS_def)

lemma ring_pos [simp]: "0 < ring" by (simp add: ring_eq)

lemma ring_pow: "is_power_of_two ring"
  using is_power_of_two_pow [of 13] by (simp add: ring_eq)

lemma and_ring [simp]: "n AND (ring - Suc 0) = n mod ring"
  by (rule and_pred_power_of_two [OF ring_pow])

lemma hash_index_less [simp]: "hash_index a < ring"
  by (simp add: hash_index_def Let_def)

lemma next_slot_eq: "next_slot i = Suc i mod ring"
  by (simp add: next_slot_def)

lemma next_slot_less [simp]: "next_slot i < ring"
  by (simp add: next_slot_eq)

lemma shift_eligible_eq:
  assumes "hole < ring" and "j < ring"
  shows "shift_eligible e hole j \<longleftrightarrow> cdist ring (hash_index e) hole \<le> cdist ring (hash_index e) j"
proof -
  have "ring \<le> 2 ^ 63" by (simp add: ring_eq)
  from wrapping_sub_mask [OF ring_pow this _ hash_index_less] assms show ?thesis
    unfolding shift_eligible_def Let_def One_nat_def by (simp only:)
qed

lemma entry_base_eq:
  assumes "e \<le> usize_max"
  shows "entry_base e = e - e mod 2 ^ 22"
proof -
  have "usize_max - (push_bit SEGMENT_SHIFT 1 - 1) = 2 ^ 64 - (2::nat) ^ 22"
    by (simp add: SEGMENT_SHIFT_def push_bit_eq_mult)
  with and_high_mask [of e 64 22] assms show ?thesis by (simp add: entry_base_def)
qed

lemma entry_id_eq: "entry_id e = e mod 2 ^ 22"
  using and_pred_two_pow [of e 22] by (simp add: entry_id_def SEGMENT_SHIFT_def push_bit_eq_mult)

lemma hash_index_entry_base:
  assumes "e \<le> usize_max"
  shows "hash_index (entry_base e) = hash_index e"
proof -
  have "drop_bit 22 (e - e mod 2 ^ 22) = drop_bit 22 e"
    by (simp add: drop_bit_eq_div minus_mod_eq_div_mult)
  then show ?thesis by (simp add: hash_index_def entry_base_eq [OF assms] SEGMENT_SHIFT_def)
qed


text \<open>
  The search loops visit the slots of the ring in order from \<open>start\<close>.  With a first slot
  \<open>p\<close> at which the loop stops, and \<open>go\<close> true of none of the slots before it, the loop
  reaches \<open>p\<close>.
\<close>

lemma ring_induct [consumes 2, case_names stop step]:
  assumes "i < ring" and "p < ring" and "P p"
    and "\<And>i. i < ring \<Longrightarrow> i \<noteq> p \<Longrightarrow> P (next_slot i) \<Longrightarrow> P i"
  shows "P i"
  using assms(1)
proof (induction "cdist ring i p" arbitrary: i)
  case 0
  with assms(2,3) show ?case by simp
next
  case (Suc n)
  then have "i \<noteq> p" by auto
  with Suc assms(2) cdist_Suc_left [of i ring p] have "n = cdist ring (next_slot i) p"
    by (simp add: next_slot_eq)
  with Suc.hyps(1) Suc.prems \<open>i \<noteq> p\<close> assms(4) show ?case by simp
qed

text \<open>Slots strictly before \<open>p\<close> on the way from \<open>start\<close>.\<close>

definition before :: "nat \<Rightarrow> nat \<Rightarrow> nat \<Rightarrow> bool" where
  "before start p q \<longleftrightarrow> cdist ring start q < cdist ring start p"

lemma next_slot_before:
  assumes "start < ring" "p < ring" "i < ring" "i \<noteq> p" and "\<not> before start p i \<longrightarrow> i = p"
  shows "next_slot i \<noteq> start \<and> (before start p (next_slot i) \<or> next_slot i = p)"
proof -
  from assms have b: "cdist ring start i < cdist ring start p" by (auto simp: before_def)
  have "next_slot i \<noteq> start"
  proof
    assume "next_slot i = start"
    then have "Suc (cdist ring start i) = ring"
      using assms(1,3) by (auto simp: next_slot_eq cdist_cases mod_if split: if_splits)
    with b cdist_less [OF ring_pos, of start p] show False by linarith
  qed
  then have "cdist ring start (next_slot i) = Suc (cdist ring start i)"
    using assms(1,3) by (simp add: next_slot_eq cdist_Suc_right)
  with b assms(1,2) \<open>next_slot i \<noteq> start\<close> show ?thesis
    by (auto simp: before_def) (metis Suc_leI cdist_inj le_neq_implies_less next_slot_less)
qed

lemma before_start: "start < ring \<Longrightarrow> p < ring \<Longrightarrow> start \<noteq> p \<Longrightarrow> before start p start"
  unfolding before_def by (metis cdist_eq_0 cdist_same gr0I)


lemma hash_inv_length: "hash_inv s \<Longrightarrow> length s = ring"
  and hash_inv_entry: "hash_inv s \<Longrightarrow> q < ring \<Longrightarrow> s ! q \<le> usize_max"
  and hash_inv_path: "hash_inv s \<Longrightarrow> path_full s ring"
  and hash_inv_distinct: "hash_inv s \<Longrightarrow> distinct_bases s"
  unfolding hash_inv_def by (blast, metis nth_mem, blast+)

lemma path_fullD:
  "path_full s h \<Longrightarrow> p < ring \<Longrightarrow> q < ring \<Longrightarrow> s ! p \<noteq> 0 \<Longrightarrow> before (hash_index (s ! p)) p q
    \<Longrightarrow> s ! q \<noteq> 0 \<or> q = h"
  unfolding path_full_def before_def by blast

lemma distinct_basesD:
  "distinct_bases s \<Longrightarrow> length s = ring \<Longrightarrow> p < ring \<Longrightarrow> q < ring \<Longrightarrow> s ! p \<noteq> 0 \<Longrightarrow> s ! q \<noteq> 0
    \<Longrightarrow> entry_base (s ! p) = entry_base (s ! q) \<Longrightarrow> p = q"
  unfolding distinct_bases_def
  by (rule distinct_map_filter_nth [where f = entry_base and xs = s and P = "\<lambda>e. e \<noteq> 0"]) simp_all

lemma free_slot:
  assumes "hash_used s < ring" and "length s = ring"
  shows "\<exists>z < ring. s ! z = 0"
proof (rule ccontr)
  assume "\<not> ?thesis"
  then have "filter (\<lambda>e. e \<noteq> 0) s = s" using assms(2) by (auto simp: filter_id_conv in_set_conv_nth)
  with assms show False by (simp add: hash_used_def)
qed

definition stops :: "nat list \<Rightarrow> nat \<Rightarrow> nat \<Rightarrow> bool" where
  "stops s base p \<longleftrightarrow> s ! p = 0 \<or> entry_base (s ! p) = base"

lemma find_loop_stops:
  assumes "start < ring" "p < ring" "stops s base p"
    and "\<forall>q < ring. before start p q \<longrightarrow> \<not> stops s base q" and "i < ring"
  shows "i = p \<or> before start p i \<longrightarrow> find_loop base_at s base start i =
    Some (if s ! p = 0 then None
          else let ident = entry_id (s ! p);
                   root = (if ident = 0 then s ! p else base_at (ident - 1))
               in if root \<noteq> 0 then Some root else None)"
  using assms(5,2)
proof (induction i rule: ring_induct)
  case stop
  show ?case using assms(3) by (subst find_loop.simps) (auto simp: stops_def Let_def)
next
  case (step i)
  show ?case
  proof
    assume i: "i = p \<or> before start p i"
    with step.hyps assms(1,2) next_slot_before [of start p i]
    have "next_slot i \<noteq> start" and "next_slot i = p \<or> before start p (next_slot i)" by auto
    moreover have "\<not> stops s base i" using i step.hyps assms(4) by auto
    ultimately show "find_loop base_at s base start i =
      Some (if s ! p = 0 then None
          else let ident = entry_id (s ! p);
                   root = (if ident = 0 then s ! p else base_at (ident - 1))
               in if root \<noteq> 0 then Some root else None)"
      using step.IH by (subst find_loop.simps) (simp add: stops_def)
  qed
qed

lemma remove_find_stops:
  assumes "start < ring" "p < ring" "stops s base p"
    and "\<forall>q < ring. before start p q \<longrightarrow> \<not> stops s base q" and "i < ring"
  shows "i = p \<or> before start p i \<longrightarrow> remove_find s base start i =
    Some (Inr (if s ! p = 0 then None else Some p))"
  using assms(5,2)
proof (induction i rule: ring_induct)
  case stop
  show ?case using assms(3) by (subst remove_find.simps) (auto simp: stops_def)
next
  case (step i)
  show ?case
  proof
    assume i: "i = p \<or> before start p i"
    with step.hyps assms(1,2) next_slot_before [of start p i]
    have "next_slot i \<noteq> start" and "next_slot i = p \<or> before start p (next_slot i)" by auto
    moreover have "\<not> stops s base i" using i step.hyps assms(4) by auto
    ultimately show "remove_find s base start i =
      Some (Inr (if s ! p = 0 then None else Some p))"
      using step.IH by (subst remove_find.simps) (simp add: stops_def)
  qed
qed

lemma first_stop:
  assumes inv: "hash_inv s"
  shows "\<exists>p < ring. stops s base p
    \<and> (\<forall>q < ring. before (hash_index base) p q \<longrightarrow> \<not> stops s base q)
    \<and> (s ! p = 0 \<longrightarrow> (\<forall>q < ring. s ! q \<noteq> 0 \<longrightarrow> entry_base (s ! q) \<noteq> base))"
proof -
  let ?start = "hash_index base"
  from inv obtain z where "z < ring" "s ! z = 0"
    using free_slot unfolding hash_inv_def by blast
  then have "z < ring \<and> stops s base z" by (simp add: stops_def)
  from ex_has_least_nat [of "\<lambda>p. p < ring \<and> stops s base p", OF this, of "cdist ring ?start"]
  obtain p where p: "p < ring" "stops s base p"
    and least: "\<And>q. cdist ring ?start q < cdist ring ?start p \<Longrightarrow> \<not> (q < ring \<and> stops s base q)"
    by (meson leD)
  have "\<not> stops s base q" if "before ?start p q" "q < ring" for q
    using least that by (auto simp: before_def)
  moreover have "entry_base (s ! q) \<noteq> base" if "s ! p = 0" "q < ring" "s ! q \<noteq> 0" for q
  proof
    assume e: "entry_base (s ! q) = base"
    have "s ! q \<le> usize_max" using inv that(2) by (rule hash_inv_entry)
    then have home: "hash_index (s ! q) = ?start" using hash_index_entry_base [of "s ! q"] e by simp
    have "stops s base q" using e by (simp add: stops_def)
    then have "\<not> cdist ring ?start q < cdist ring ?start p" using least that by blast
    moreover have "p \<noteq> q" using that by auto
    ultimately have "cdist ring ?start p < cdist ring ?start q"
      using cdist_inj [of ?start ring p q] p(1) that by fastforce
    then have "before (hash_index (s ! q)) q p" by (simp add: before_def home)
    with path_fullD [OF hash_inv_path [OF inv] that(2) p(1) that(3)] p(1) that(1)
    show False by auto
  qed
  ultimately show ?thesis using p by blast
qed


lemma hash_view_entry:
  assumes "hash_inv s" "p < ring" "s ! p \<noteq> 0"
  shows "hash_view s (entry_base (s ! p)) = Some (entry_id (s ! p))"
proof -
  let ?P = "\<lambda>e. e \<noteq> 0 \<and> entry_base e = entry_base (s ! p)"
  have "s ! p \<in> set s" using assms by (simp add: hash_inv_length)
  then have "find ?P s \<noteq> None" using assms(3) by (auto simp: find_None_iff)
  then obtain e where e: "find ?P s = Some e" by blast
  then obtain q where q: "q < length s" "s ! q = e" "?P e" by (auto simp: find_Some_iff)
  then have "q = p" using assms distinct_basesD [OF hash_inv_distinct hash_inv_length, of s q p]
    by (simp add: hash_inv_length)
  with q e show ?thesis by (simp add: hash_view_def)
qed

lemma hash_view_None:
  assumes "hash_inv s" "\<And>q. q < ring \<Longrightarrow> s ! q \<noteq> 0 \<Longrightarrow> entry_base (s ! q) \<noteq> base"
  shows "hash_view s base = None"
  using assms by (auto simp: hash_view_def find_None_iff in_set_conv_nth hash_inv_length)

theorem hash_find_view:
  assumes inv: "hash_inv s"
  shows "hash_find base_at s base = Some (case hash_view s base of
      None \<Rightarrow> None
    | Some ident \<Rightarrow>
        (let root = (if ident = 0 then base else base_at (ident - 1))
         in if root \<noteq> 0 then Some root else None))"
proof -
  from first_stop [OF inv, of base] obtain p where p: "p < ring" "stops s base p"
    and f: "\<forall>q < ring. before (hash_index base) p q \<longrightarrow> \<not> stops s base q"
    and absent: "s ! p = 0 \<longrightarrow> (\<forall>q < ring. s ! q \<noteq> 0 \<longrightarrow> entry_base (s ! q) \<noteq> base)"
    by (elim exE conjE)
  have start: "hash_index base = p \<or> before (hash_index base) p (hash_index base)"
    using before_start [of "hash_index base" p] p(1) by auto
  note found = find_loop_stops [OF hash_index_less p f hash_index_less, THEN mp, OF start]
  show ?thesis
  proof (cases "s ! p = 0")
    case True
    then have "hash_view s base = None" using hash_view_None [OF inv] absent by blast
    with True found show ?thesis by (simp add: hash_find_def)
  next
    case False
    then have b: "entry_base (s ! p) = base" using p(2) by (simp add: stops_def)
    then have view: "hash_view s base = Some (entry_id (s ! p))"
      using hash_view_entry [OF inv p(1) False] by simp
    have "s ! p = base" if "entry_id (s ! p) = 0"
      using that b entry_base_eq [OF hash_inv_entry [OF inv p(1)]] by (simp add: entry_id_eq)
    with False view found show ?thesis by (auto simp: hash_find_def Let_def)
  qed
qed


subsection \<open>Insertion\<close>

lemma hash_view_Some_iff:
  assumes "hash_inv s"
  shows "hash_view s base = Some ident \<longleftrightarrow>
    (\<exists>e \<in> set s. e \<noteq> 0 \<and> entry_base e = base \<and> entry_id e = ident)"
proof
  assume "hash_view s base = Some ident"
  then obtain e where "find (\<lambda>e. e \<noteq> 0 \<and> entry_base e = base) s = Some e" "entry_id e = ident"
    by (auto simp: hash_view_def)
  then show "\<exists>e \<in> set s. e \<noteq> 0 \<and> entry_base e = base \<and> entry_id e = ident"
    by (auto simp: find_Some_iff)
next
  assume "\<exists>e \<in> set s. e \<noteq> 0 \<and> entry_base e = base \<and> entry_id e = ident"
  then obtain p where "p < ring" "s ! p \<noteq> 0" "entry_base (s ! p) = base" "entry_id (s ! p) = ident"
    using hash_inv_length [OF assms] by (auto simp: in_set_conv_nth)
  then show "hash_view s base = Some ident" using hash_view_entry [OF assms] by blast
qed

lemma probe_free_stops:
  assumes "start < ring" "p < ring" "s ! p = 0"
    and "\<forall>q < ring. before start p q \<longrightarrow> s ! q \<noteq> 0" and "i < ring"
  shows "i = p \<or> before start p i \<longrightarrow> probe_free s i = Some p"
  using assms(5,2)
proof (induction i rule: ring_induct)
  case stop
  show ?case using assms(3) by (subst probe_free.simps) simp
next
  case (step i)
  show ?case
  proof
    assume i: "i = p \<or> before start p i"
    with step.hyps assms(1,2) next_slot_before [of start p i]
    have "next_slot i = p \<or> before start p (next_slot i)" by auto
    moreover have "s ! i \<noteq> 0" using i step.hyps assms(4) by auto
    ultimately show "probe_free s i = Some p" using step.IH by (subst probe_free.simps) simp
  qed
qed

text \<open>An aligned key with an identity below \<open>2 ^ 22\<close> packs into one entry.\<close>

definition segment_key :: "nat \<Rightarrow> bool" where
  "segment_key key \<longleftrightarrow> key \<le> usize_max \<and> key mod 2 ^ 22 = 0"

lemma packed_entry:
  assumes "segment_key key" and "ident + 1 < 2 ^ 22"
  shows "key OR (ident + 1) = key + (ident + 1)" and "entry_base (key OR (ident + 1)) = key"
    and "entry_id (key OR (ident + 1)) = ident + 1" and "key OR (ident + 1) \<noteq> 0"
    and "key OR (ident + 1) \<le> usize_max" and "hash_index (key OR (ident + 1)) = hash_index key"
proof -
  show e: "key OR (ident + 1) = key + (ident + 1)"
    using assms by (intro or_low_bits [of _ 22]) (auto simp: segment_key_def)
  obtain y where y: "key = y * 2 ^ 22"
    using assms(1) unfolding segment_key_def by (metis mod_0_imp_dvd dvd_def mult.commute)
  with assms(1) have "y < 2 ^ 42" by (simp add: segment_key_def)
  then have "key + 2 ^ 22 \<le> 2 ^ 64" unfolding y by simp
  with assms(2) show le: "key OR (ident + 1) \<le> usize_max" unfolding e by simp
  show b: "entry_base (key OR (ident + 1)) = key" and "entry_id (key OR (ident + 1)) = ident + 1"
    using entry_base_eq [OF le] assms(2) unfolding e entry_id_eq by (simp_all add: y)
  show "key OR (ident + 1) \<noteq> 0" unfolding e by simp
  show "hash_index (key OR (ident + 1)) = hash_index key"
    using hash_index_entry_base [OF le] b by simp
qed


lemma hash_used_insert:
  assumes "length s = ring" "p < ring" "s ! p = 0" "e \<noteq> 0"
  shows "hash_used (s[p := e]) = Suc (hash_used s)"
proof -
  have "s = take p s @ 0 # drop (Suc p) s"
    using assms(1-3) id_take_nth_drop [of p s] by simp
  then have "hash_used s = length (filter (\<lambda>e. e \<noteq> 0) (take p s @ 0 # drop (Suc p) s))"
    by (simp add: hash_used_def)
  moreover have "s[p := e] = take p s @ e # drop (Suc p) s"
    using assms(1,2) by (simp add: upd_conv_take_nth_drop)
  ultimately show ?thesis using assms(4) by (simp add: hash_used_def)
qed

lemma path_full_insert:
  assumes "path_full s ring" and len: "length s = ring" and p: "p < ring" "s ! p = 0" and "e \<noteq> 0"
    and "\<forall>q < ring. before (hash_index e) p q \<longrightarrow> s ! q \<noteq> 0"
  shows "path_full (s[p := e]) ring"
  unfolding path_full_def
proof (intro allI impI, elim conjE)
  fix r q
  let ?t = "s[p := e]"
  assume r: "r < ring" and q: "q < ring" and "?t ! r \<noteq> 0"
    and b: "cdist ring (hash_index (?t ! r)) q < cdist ring (hash_index (?t ! r)) r"
  have "q = p \<or> s ! q \<noteq> 0"
  proof (cases "r = p")
    case True
    with b p len assms(6) q show ?thesis by (simp add: before_def)
  next
    case False
    then have "?t ! r = s ! r" by simp
    with b \<open>?t ! r \<noteq> 0\<close> path_fullD [OF assms(1) r q] q show ?thesis by (auto simp: before_def)
  qed
  then show "?t ! q \<noteq> 0 \<or> q = ring" using p len \<open>e \<noteq> 0\<close> by (cases "q = p") auto
qed

theorem hash_insert_identity_ok:
  assumes inv: "hash_inv s" and key: "segment_key key" "ident + 1 < 2 ^ 22"
    and absent: "hash_view s key = None" and room: "Suc (hash_used s) < ring"
  shows "\<exists>s'. hash_insert_identity s key ident = Some s' \<and> hash_inv s'
    \<and> hash_view s' = (hash_view s)(key \<mapsto> ident + 1) \<and> hash_used s' = Suc (hash_used s)"
proof -
  define e where "e = key OR (ident + 1)"
  note e = packed_entry [OF key, folded e_def]
  have len: "length s = ring" using inv by (rule hash_inv_length)
  let ?start = "hash_index key"
  have "hash_used s < ring" using inv by (simp add: hash_inv_def)
  then have "\<exists>z. z < ring \<and> s ! z = 0" using free_slot len by blast
  then obtain z where "z < ring \<and> s ! z = 0" by blast
  from ex_has_least_nat [of "\<lambda>p. p < ring \<and> s ! p = 0", OF this, of "cdist ring ?start"]
  obtain p where p: "p < ring" "s ! p = 0"
    and l: "\<forall>q. q < ring \<and> s ! q = 0 \<longrightarrow> cdist ring ?start p \<le> cdist ring ?start q"
    by (elim exE conjE)
  have least: "\<forall>q < ring. before ?start p q \<longrightarrow> s ! q \<noteq> 0"
    using l by (meson before_def leD)
  have "probe_free s ?start = Some p"
    using probe_free_stops [OF hash_index_less p least hash_index_less]
      before_start [of ?start p] p(1) by auto
  then have ins: "hash_insert_identity s key ident = Some (s[p := e])"
    by (simp add: hash_insert_identity_def e_def)
  have set: "set (s[p := e]) \<union> {0} = insert e (set s) \<union> {0}"
  proof -
    have "s = take p s @ 0 # drop (Suc p) s" using p len id_take_nth_drop [of p s] by simp
    then have "set s = set (take p s) \<union> {0} \<union> set (drop (Suc p) s)" by (metis Un_insert_right
          list.simps(15) set_append sup_bot.right_neutral sup_assoc insert_is_Un)
    moreover have "s[p := e] = take p s @ e # drop (Suc p) s"
      using p len by (simp add: upd_conv_take_nth_drop)
    ultimately show ?thesis by auto
  qed
  have fresh: "entry_base f \<noteq> key" if "f \<in> set s" "f \<noteq> 0" for f
    using hash_view_Some_iff [OF inv, of key "entry_id f"] that absent by auto
  have "distinct_bases (s[p := e])"
  proof -
    have s: "s = take p s @ 0 # drop (Suc p) s" using p len id_take_nth_drop [of p s] by simp
    have "distinct (map entry_base (filter (\<lambda>e. e \<noteq> 0) (take p s @ 0 # drop (Suc p) s)))"
      using hash_inv_distinct [OF inv] s by (simp add: distinct_bases_def)
    moreover have "entry_base e \<notin> entry_base ` {f \<in> set (take p s) \<union> set (drop (Suc p) s). f \<noteq> 0}"
      using fresh in_set_takeD [of _ p s] in_set_dropD [of _ "Suc p" s] unfolding e(2) by blast
    moreover have "s[p := e] = take p s @ e # drop (Suc p) s"
      using p len by (simp add: upd_conv_take_nth_drop)
    ultimately show ?thesis using e(4) by (auto simp: distinct_bases_def)
  qed
  moreover have "\<forall>f \<in> set (s[p := e]). f \<le> usize_max"
    using inv e(5) set_update_subset_insert [of s p e] unfolding hash_inv_def by blast
  moreover have "path_full (s[p := e]) ring"
    using path_full_insert [OF hash_inv_path [OF inv] len p e(4)] least e(6) by simp
  ultimately have inv': "hash_inv (s[p := e])"
    using hash_used_insert [OF len p e(4)] room len by (simp add: hash_inv_def)
  have "hash_view (s[p := e]) k = Some i \<longleftrightarrow> ((hash_view s)(key \<mapsto> ident + 1)) k = Some i" for k i
  proof -
    have "hash_view (s[p := e]) k = Some i \<longleftrightarrow>
        (\<exists>f \<in> insert e (set s). f \<noteq> 0 \<and> entry_base f = k \<and> entry_id f = i)"
      unfolding hash_view_Some_iff [OF inv'] using set by blast
    with hash_view_Some_iff [OF inv, of k i] e(2-4) fresh show ?thesis by auto
  qed
  then have "hash_view (s[p := e]) = (hash_view s)(key \<mapsto> ident + 1)"
    by (intro ext) (metis not_Some_eq)
  with ins inv' hash_used_insert [OF len p e(4)] show ?thesis by blast
qed


subsection \<open>Removal by backward shift\<close>

text \<open>
  Between the hole and the cursor, no entry has the hole on its probe path.  \<open>z\<close> is a free
  slot that ends the cluster.
\<close>

definition shift_inv :: "nat list \<Rightarrow> nat \<Rightarrow> nat \<Rightarrow> nat \<Rightarrow> nat \<Rightarrow> bool" where
  "shift_inv s i hole j z \<longleftrightarrow>
     length s = ring \<and> i < ring \<and> hole < ring \<and> j < ring \<and> z < ring \<and> j \<noteq> hole
     \<and> path_full (s[hole := 0]) hole
     \<and> (\<forall>q < ring. q \<noteq> hole \<and> before hole j q \<and> s ! q \<noteq> 0 \<longrightarrow> \<not> before (hash_index (s ! q)) q hole)
     \<and> s ! z = 0 \<and> z \<noteq> hole \<and> z \<noteq> i
     \<and> cdist ring hole j \<le> cdist ring hole z \<and> cdist ring i j \<le> cdist ring i z"

lemma next_toward:
  assumes "i < ring" "j < ring" "z < ring" and "cdist ring i j \<le> cdist ring i z" and "j \<noteq> z"
  shows "cdist ring i (next_slot j) \<le> cdist ring i z"
proof (cases "next_slot j = i")
  case True
  then show ?thesis using assms(1) by simp
next
  case False
  then have "cdist ring i (next_slot j) = Suc (cdist ring i j)"
    using assms(1,2) by (simp add: next_slot_eq cdist_Suc_right)
  moreover have "cdist ring i j \<noteq> cdist ring i z" using cdist_inj [OF assms(1-3)] assms(5) by simp
  ultimately show ?thesis using assms(4) by linarith
qed

lemma shift_done:
  assumes "shift_inv s i hole j z" and "s ! j = 0"
  shows "path_full (s[hole := 0]) ring"
  unfolding path_full_def
proof (intro allI impI, elim conjE)
  fix p q
  let ?L = "s[hole := 0]"
  assume p: "p < ring" and q: "q < ring" and np: "?L ! p \<noteq> 0"
    and b: "cdist ring (hash_index (?L ! p)) q < cdist ring (hash_index (?L ! p)) p"
  from assms(1) have len: "length s = ring" and hole: "hole < ring" and j: "j < ring" "j \<noteq> hole"
    and full: "path_full ?L hole"
    and btw: "\<forall>q < ring. q \<noteq> hole \<and> before hole j q \<and> s ! q \<noteq> 0
      \<longrightarrow> \<not> before (hash_index (s ! q)) q hole"
    by (simp_all add: shift_inv_def)
  have "p \<noteq> hole" using np hole len by auto
  then have Lp: "?L ! p = s ! p" by simp
  have "\<not> before (hash_index (?L ! p)) p hole"
  proof
    assume h: "before (hash_index (?L ! p)) p hole"
    have "p \<noteq> j" using np Lp assms(2) by auto
    show False
    proof (cases "before hole j p")
      case True
      with btw p \<open>p \<noteq> hole\<close> np Lp h show False by auto
    next
      case False
      then have "cdist ring hole j < cdist ring hole p"
        using cdist_inj [OF hole j(1) p] \<open>p \<noteq> j\<close> unfolding before_def by linarith
      then have "before (hash_index (?L ! p)) p j"
        using cdist_chain [of "hash_index (?L ! p)" ring hole j p] h hole j p by (simp add: before_def)
      with path_fullD [OF full p j(1) np] j assms(2) show False by simp
    qed
  qed
  with path_fullD [OF full p q np] b show "?L ! q \<noteq> 0 \<or> q = ring"
    unfolding before_def by blast
qed

lemma shift_move:
  assumes "shift_inv s i hole j z" and "s ! j \<noteq> 0" and "shift_eligible (s ! j) hole j"
  shows "shift_inv (s[hole := s ! j]) i j (next_slot j) z"
    and "mset ((s[hole := s ! j])[j := 0]) = mset (s[hole := 0])"
proof -
  let ?L = "s[hole := 0]" and ?e = "s ! j"
  let ?t = "s[hole := s ! j]"
  let ?L' = "?t[j := 0]"
  from assms(1) have len: "length s = ring" and i: "i < ring" and hole: "hole < ring"
    and j: "j < ring" "j \<noteq> hole" and z: "z < ring" "s ! z = 0" "z \<noteq> hole" "z \<noteq> i"
    and full: "path_full ?L hole" and iz: "cdist ring i j \<le> cdist ring i z"
    by (simp_all add: shift_inv_def)
  have "j \<noteq> z" using z(2) assms(2) by auto
  have "cdist ring (hash_index ?e) hole \<noteq> cdist ring (hash_index ?e) j"
    using cdist_inj [of "hash_index ?e" ring hole j] hole j by simp
  then have jump: "cdist ring (hash_index ?e) hole < cdist ring (hash_index ?e) j"
    using assms(3) shift_eligible_eq [OF hole j(1)] by simp
  have L': "?L' = ?L[hole := ?L ! j, j := ?L ! hole]"
    using j hole len by (simp add: list_update_swap)
  show "mset ?L' = mset ?L"
    unfolding L' using mset_swap [of j ?L hole] hole j len by simp
  have "path_full ?L' j"
    unfolding path_full_def
  proof (intro allI impI, elim conjE)
    fix p q
    assume p: "p < ring" and q: "q < ring" and np: "?L' ! p \<noteq> 0"
      and b: "cdist ring (hash_index (?L' ! p)) q < cdist ring (hash_index (?L' ! p)) p"
    have "p \<noteq> j" using np j len by auto
    have "q = hole \<or> ?L ! q \<noteq> 0"
    proof (cases "p = hole")
      case True
      then have "?L' ! p = ?e" using j hole len by simp
      with b True jump have "before (hash_index ?e) j q" by (simp add: before_def)
      with path_fullD [OF full j(1) q] j assms(2) show ?thesis by auto
    next
      case False
      then have "?L' ! p = ?L ! p" using \<open>p \<noteq> j\<close> by simp
      with path_fullD [OF full p q] np b show ?thesis by (auto simp: before_def)
    qed
    then show "?L' ! q \<noteq> 0 \<or> q = j"
      using assms(2) hole len by (cases "q = j"; cases "q = hole") auto
  qed
  moreover have "next_slot j \<noteq> j" using j(1) by (auto simp: next_slot_eq ring_eq mod_if)
  moreover have "cdist ring j (next_slot j) = 1"
    using cdist_Suc_right [OF j(1) j(1)] \<open>next_slot j \<noteq> j\<close> j(1) by (simp add: next_slot_eq)
  moreover have "1 \<le> cdist ring j z"
    using cdist_eq_0 [OF j(1) z(1)] \<open>j \<noteq> z\<close> by linarith
  moreover have "\<not> before j (next_slot j) q" if "q < ring" "q \<noteq> j" for q
    using that cdist_eq_0 [OF j(1) that(1)] \<open>cdist ring j (next_slot j) = 1\<close>
    by (auto simp: before_def)
  moreover have "cdist ring i (next_slot j) \<le> cdist ring i z"
    by (rule next_toward [OF i j(1) z(1) iz \<open>j \<noteq> z\<close>])
  ultimately show "shift_inv ?t i j (next_slot j) z"
    using len i j z \<open>j \<noteq> z\<close> unfolding shift_inv_def by auto
qed


lemma shift_keep:
  assumes inv: "shift_inv s i hole j z" and "s ! j \<noteq> 0" and "\<not> shift_eligible (s ! j) hole j"
  shows "shift_inv s i hole (next_slot j) z"
proof -
  from inv have hole: "hole < ring" and j: "j < ring" "j \<noteq> hole" and i: "i < ring"
    and z: "z < ring" "s ! z = 0" and hz: "cdist ring hole j \<le> cdist ring hole z"
    and iz: "cdist ring i j \<le> cdist ring i z"
    and btw: "\<forall>q < ring. q \<noteq> hole \<and> before hole j q \<and> s ! q \<noteq> 0
      \<longrightarrow> \<not> before (hash_index (s ! q)) q hole"
    by (simp_all add: shift_inv_def)
  have "j \<noteq> z" using z(2) assms(2) by auto
  have ne: "next_slot j \<noteq> hole"
  proof
    assume "next_slot j = hole"
    then have "Suc (cdist ring hole j) = ring"
      using hole j by (auto simp: next_slot_eq cdist_cases mod_if split: if_splits)
    moreover have "cdist ring hole j \<noteq> cdist ring hole z"
      using cdist_inj [OF hole j(1) z(1)] \<open>j \<noteq> z\<close> by simp
    ultimately show False using hz cdist_less [OF ring_pos, of hole z] by linarith
  qed
  then have d: "cdist ring hole (next_slot j) = Suc (cdist ring hole j)"
    using hole j by (simp add: next_slot_eq cdist_Suc_right)
  have "\<not> before (hash_index (s ! j)) j hole"
    using assms(3) shift_eligible_eq [OF hole j(1)] by (simp add: before_def)
  moreover have "q = j \<or> before hole j q" if "q < ring" "before hole (next_slot j) q" for q
    using that d cdist_inj [OF hole j(1) that(1)] by (auto simp: before_def less_Suc_eq)
  ultimately have "\<forall>q < ring. q \<noteq> hole \<and> before hole (next_slot j) q \<and> s ! q \<noteq> 0
      \<longrightarrow> \<not> before (hash_index (s ! q)) q hole"
    using btw by blast
  moreover have "cdist ring hole (next_slot j) \<le> cdist ring hole z"
    by (rule next_toward [OF hole j(1) z(1) hz \<open>j \<noteq> z\<close>])
  moreover have "cdist ring i (next_slot j) \<le> cdist ring i z"
    by (rule next_toward [OF i j(1) z(1) iz \<open>j \<noteq> z\<close>])
  ultimately show ?thesis using inv ne by (simp add: shift_inv_def)
qed

lemma shift_inv_not_start:
  assumes "shift_inv s i hole j z" and "s ! j \<noteq> 0"
  shows "next_slot j \<noteq> i"
proof
  assume e: "next_slot j = i"
  from assms have b: "i < ring" "j < ring" "z < ring" "s ! z = 0" "cdist ring i j \<le> cdist ring i z"
    by (simp_all add: shift_inv_def)
  then have "j \<noteq> z" using assms(2) by auto
  have "Suc (cdist ring i j) = ring"
    using b e by (auto simp: next_slot_eq cdist_cases mod_if split: if_splits)
  moreover have "cdist ring i j \<noteq> cdist ring i z" using cdist_inj [OF b(1-3)] \<open>j \<noteq> z\<close> by simp
  ultimately show False using b(5) cdist_less [OF ring_pos, of i z] by linarith
qed

lemma shift_back_ok:
  assumes "shift_inv s i hole j z"
  shows "\<exists>s'. shift_back s i hole j = Some (Inr s') \<and> mset s' = mset (s[hole := 0])
           \<and> path_full s' ring"
  using assms
proof (induction "cdist ring j z" arbitrary: s hole j rule: less_induct)
  case less
  show ?case
  proof (cases "s ! j = 0")
    case True
    then show ?thesis using shift_done [OF less.prems] by (subst shift_back.simps) simp
  next
    case False
    have j: "j < ring" "z < ring" "j \<noteq> z" using less.prems False by (auto simp: shift_inv_def)
    then have dec: "cdist ring (next_slot j) z < cdist ring j z"
      using cdist_Suc_left [of j ring z] by (simp add: next_slot_eq)
    note ne = shift_inv_not_start [OF less.prems False]
    show ?thesis
    proof (cases "shift_eligible (s ! j) hole j")
      case True
      from less.hyps [OF dec shift_move(1) [OF less.prems False True]]
        shift_move(2) [OF less.prems False True] ne False True
      show ?thesis by (subst shift_back.simps) (simp add: Let_def)
    next
      case nel: False
      from less.hyps [OF dec shift_keep [OF less.prems False nel]] ne False nel
      show ?thesis by (subst shift_back.simps) (simp add: Let_def)
    qed
  qed
qed

text \<open>Facts that only depend on the entries, not on where they lie.\<close>

lemma mset_facts:
  assumes "mset s = mset t"
  shows "set s = set t" and "hash_used s = hash_used t" and "distinct_bases s = distinct_bases t"
    and "length s = length t"
proof -
  show "set s = set t" using assms by (rule mset_eq_setD)
  show "length s = length t" using assms by (rule mset_eq_length)
  have f: "mset (filter (\<lambda>e. e \<noteq> 0) s) = mset (filter (\<lambda>e. e \<noteq> 0) t)"
    using assms by (simp only: mset_filter)
  then show "hash_used s = hash_used t" unfolding hash_used_def by (rule mset_eq_length)
  from f have "mset (map entry_base (filter (\<lambda>e. e \<noteq> 0) s)) =
      mset (map entry_base (filter (\<lambda>e. e \<noteq> 0) t))" by (simp only: mset_map)
  then show "distinct_bases s = distinct_bases t"
    unfolding distinct_bases_def by (rule mset_eq_imp_distinct_iff)
qed

lemma clear_slot:
  assumes "hash_inv s" "p < ring" "s ! p \<noteq> 0"
  shows "distinct_bases (s[p := 0])" and "hash_used s = Suc (hash_used (s[p := 0]))"
    and "\<And>e. e \<noteq> 0 \<Longrightarrow> e \<in> set (s[p := 0]) \<longleftrightarrow> e \<in> set s \<and> entry_base e \<noteq> entry_base (s ! p)"
proof -
  have len: "p < length s" using assms by (simp add: hash_inv_length)
  define a b where "a = take p s" and "b = drop (Suc p) s"
  have s: "s = a @ s ! p # b" using len by (simp add: a_def b_def id_take_nth_drop)
  have c: "s[p := 0] = a @ 0 # b" using len by (simp add: a_def b_def upd_conv_take_nth_drop)
  have d: "distinct (map entry_base (filter (\<lambda>e. e \<noteq> 0) (a @ s ! p # b)))"
    using hash_inv_distinct [OF assms(1)] s by (simp add: distinct_bases_def)
  then show "distinct_bases (s[p := 0])" using assms(3) by (auto simp: distinct_bases_def c)
  have "hash_used s = length (filter (\<lambda>e. e \<noteq> 0) (a @ s ! p # b))" using s by (simp add: hash_used_def)
  then show "hash_used s = Suc (hash_used (s[p := 0]))" using assms(3) by (simp add: hash_used_def c)
  fix e :: nat assume "e \<noteq> 0"
  have "e \<in> set s \<longleftrightarrow> e \<in> set (a @ s ! p # b)" using s by simp
  moreover have "entry_base (s ! p) \<notin> entry_base ` {x \<in> set a \<union> set b. x \<noteq> 0}"
    using d assms(3) by auto
  then have "entry_base e \<noteq> entry_base (s ! p)" if "e \<in> set a \<union> set b"
    using that \<open>e \<noteq> 0\<close> by (metis (mono_tags, lifting) imageI mem_Collect_eq)
  ultimately show "e \<in> set (s[p := 0]) \<longleftrightarrow> e \<in> set s \<and> entry_base e \<noteq> entry_base (s ! p)"
    using \<open>e \<noteq> 0\<close> by (auto simp: c)
qed

theorem hash_remove_ok:
  assumes inv: "hash_inv s"
  shows "\<exists>s'. hash_remove s base = Some (Inr s') \<and> hash_inv s'
    \<and> hash_view s' = (hash_view s)(base := None)
    \<and> hash_used s = hash_used s' + (if hash_view s base = None then 0 else 1)"
proof -
  have len: "length s = ring" using inv by (rule hash_inv_length)
  from first_stop [OF inv, of base] obtain p where p: "p < ring" "stops s base p"
    and f: "\<forall>q < ring. before (hash_index base) p q \<longrightarrow> \<not> stops s base q"
    and absent: "s ! p = 0 \<longrightarrow> (\<forall>q < ring. s ! q \<noteq> 0 \<longrightarrow> entry_base (s ! q) \<noteq> base)"
    by (elim exE conjE)
  have start: "hash_index base = p \<or> before (hash_index base) p (hash_index base)"
    using before_start [of "hash_index base" p] p(1) by auto
  note found = remove_find_stops [OF hash_index_less p f hash_index_less, THEN mp, OF start]
  show ?thesis
  proof (cases "s ! p = 0")
    case True
    then have v: "hash_view s base = None" using hash_view_None [OF inv] absent by blast
    then have "hash_view s = (hash_view s)(base := None)" by auto
    with True found v inv show ?thesis by (simp add: hash_remove_def)
  next
    case False
    then have b: "entry_base (s ! p) = base" using p(2) by (simp add: stops_def)
    have view: "hash_view s base = Some (entry_id (s ! p))"
      using hash_view_entry [OF inv p(1) False] b by simp
    have "hash_used s < ring" using inv by (simp add: hash_inv_def)
    then obtain z where z: "z < ring" "s ! z = 0" using free_slot len by blast
    have "p \<noteq> z" using z False by auto
    have nx: "next_slot p \<noteq> p" using p(1) by (auto simp: next_slot_eq ring_eq mod_if)
    have one: "cdist ring p (next_slot p) = 1"
      using cdist_Suc_right [OF p(1) p(1)] nx p(1) by (simp add: next_slot_eq)
    have far: "1 \<le> cdist ring p z" using cdist_eq_0 [OF p(1) z(1)] \<open>p \<noteq> z\<close> by linarith
    have "path_full (s[p := 0]) p"
      using hash_inv_path [OF inv] p(1) len unfolding path_full_def
      by (auto simp: nth_list_update split: if_splits)
    moreover have "\<not> before p (next_slot p) q" if "q < ring" "q \<noteq> p" for q
      using that cdist_eq_0 [OF p(1) that(1)] one by (auto simp: before_def)
    ultimately have "shift_inv s p p (next_slot p) z"
      using len p(1) z nx one far \<open>p \<noteq> z\<close> unfolding shift_inv_def by auto
    from shift_back_ok [OF this] obtain s' where s': "shift_back s p p (next_slot p) = Some (Inr s')"
      and ms: "mset s' = mset (s[p := 0])" and full: "path_full s' ring"
      by blast
    note mf = mset_facts [OF ms] and cl = clear_slot [OF inv p(1) False]
    have rm: "hash_remove s base = Some (Inr s')" using found False s' by (simp add: hash_remove_def)
    have "\<forall>e \<in> set s'. e \<le> usize_max"
      using inv mf(1) set_update_subset_insert [of s p 0] unfolding hash_inv_def by auto
    then have inv': "hash_inv s'"
      using mf cl len full inv unfolding hash_inv_def by simp
    have "hash_view s' k = Some i \<longleftrightarrow> ((hash_view s)(base := None)) k = Some i" for k i
    proof -
      have "hash_view s' k = Some i \<longleftrightarrow>
          (\<exists>e. e \<noteq> 0 \<and> e \<in> set s \<and> entry_base e \<noteq> base \<and> entry_base e = k \<and> entry_id e = i)"
        unfolding hash_view_Some_iff [OF inv'] mf(1) using cl(3) b by blast
      also have "\<dots> \<longleftrightarrow> k \<noteq> base \<and> hash_view s k = Some i"
        unfolding hash_view_Some_iff [OF inv] by blast
      finally show ?thesis by auto
    qed
    then have "hash_view s' = (hash_view s)(base := None)" by (intro ext) (metis not_Some_eq)
    with rm inv' mf(2) cl(2) view show ?thesis by simp
  qed
qed

subsection \<open>The index meets the contract of the segment table\<close>

interpretation seg_index: key_index hash_inv hash_view hash_used HASH_CAPACITY segment_key
  "2 ^ 22 - 1" hash_insert_identity hash_remove hash_find
proof unfold_locales
  show "\<exists>s'. hash_insert_identity s k i = Some s' \<and> hash_inv s' \<and> hash_view s' = (hash_view s)(k \<mapsto> i + 1)
      \<and> hash_used s' = Suc (hash_used s)"
    if "hash_inv s" "segment_key k" "i < 2 ^ 22 - 1" "hash_view s k = None" "Suc (hash_used s) < ring"
    for s k i
    using that by (intro hash_insert_identity_ok) auto
qed (rule hash_remove_ok hash_find_view, assumption)+

subsection \<open>The empty index\<close>

definition hash_empty :: "nat list" where "hash_empty = replicate HASH_CAPACITY 0"

lemma hash_empty_inv: "hash_inv hash_empty" "hash_view hash_empty = (\<lambda>k. None)" "hash_used hash_empty = 0"
  by (simp_all add: hash_empty_def hash_inv_def path_full_def distinct_bases_def hash_used_def
      hash_view_def fun_eq_iff find_None_iff)

lemma hash_empty_represents: "seg_index.represents hash_empty (\<lambda>k. None)"
  by (rule seg_index.represents_empty) (simp_all add: hash_empty_inv)

subsection \<open>Properties\<close>

text \<open>A lookup terminates and finds exactly the entries of the index: the base itself for an
  entry without identity bits, the registered segment for one with them.\<close>

theorem hash_find_exact:
  assumes "hash_inv s"
  shows "hash_find base_at s base = Some (case hash_view s base of
      None \<Rightarrow> None
    | Some ident \<Rightarrow>
        (let root = (if ident = 0 then base else base_at (ident - 1))
         in if root \<noteq> 0 then Some root else None))"
  using assms by (rule hash_find_view)

lemma hash_find_exact_witness: "hash_find (\<lambda>i. 7) hash_empty (2 ^ 22) = Some None"
  using hash_find_exact [OF hash_empty_inv(1)] by (simp add: hash_empty_inv)

text \<open>inserting an absent segment key into an index with two free slots terminates, keeps the
  probing invariant and adds exactly that key, with its identity biased by one.\<close>

theorem hash_insert_exact:
  assumes "hash_inv s" and "segment_key key" and "ident + 1 < 2 ^ 22"
    and "hash_view s key = None" and "Suc (hash_used s) < HASH_CAPACITY"
  shows "\<exists>s'. hash_insert_identity s key ident = Some s' \<and> hash_inv s'
    \<and> hash_view s' = (hash_view s)(key \<mapsto> ident + 1) \<and> hash_used s' = Suc (hash_used s)"
  using assms by (rule hash_insert_identity_ok)

lemma hash_insert_exact_witness:
  "\<exists>s'. hash_insert_identity hash_empty (2 ^ 22) 5 = Some s' \<and> hash_view s' (2 ^ 22) = Some 6"
proof -
  have "segment_key (2 ^ 22)" by (simp add: segment_key_def)
  with hash_insert_exact [OF hash_empty_inv(1), of "2 ^ 22" 5] show ?thesis
    by (auto simp: hash_empty_inv ring_eq)
qed

text \<open>C16: removal by backward shift terminates without tripping its loop assertions, keeps every
  remaining entry reachable from its home slot, and removes exactly the given base.\<close>

theorem hash_remove_exact:
  assumes "hash_inv s"
  shows "\<exists>s'. hash_remove s base = Some (Inr s') \<and> hash_inv s'
    \<and> hash_view s' = (hash_view s)(base := None)
    \<and> hash_used s = hash_used s' + (if hash_view s base = None then 0 else 1)"
  using assms by (rule hash_remove_ok)

lemma hash_remove_exact_witness:
  "\<exists>s s'. hash_view s (2 ^ 22) = Some 6 \<and> hash_remove s (2 ^ 22) = Some (Inr s')
    \<and> hash_view s' (2 ^ 22) = None \<and> hash_used s' = 0"
proof -
  have "segment_key (2 ^ 22)" by (simp add: segment_key_def)
  then obtain s where s: "hash_inv s" "hash_view s = [2 ^ 22 \<mapsto> 6]" "hash_used s = 1"
    using hash_insert_identity_ok [OF hash_empty_inv(1), of "2 ^ 22" 5]
    by (auto simp: hash_empty_inv ring_eq)
  from hash_remove_exact [OF s(1), of "2 ^ 22"] obtain s' where
    "hash_remove s (2 ^ 22) = Some (Inr s')" "hash_view s' = (hash_view s)(2 ^ 22 := None)"
    "hash_used s = hash_used s' + (if hash_view s (2 ^ 22) = None then 0 else 1)" by blast
  with s show ?thesis by (intro exI [of _ s] exI [of _ s']) simp
qed

end
