(* ===== verification/ActiveKind.thy ===== *)
theory ActiveKind
  imports SegmentHeader HashIndex
begin

text \<open>
  The two-level index of the active segments of each kind
  (\<open>src/alloc_core/segment/segment_table/active_kind_index.rs\<close>): per kind a bitmap of
  \<open>MAX_SEGMENTS\<close> bits in 64 words and a summary word with a bit for every non-zero word.
  The source addresses the two lanes by byte offsets into a \<open>repr(C)\<close> struct; here the
  lane is a truth value, \<open>True\<close> for the large segments.
\<close>

subsection \<open>Words as bit sets\<close>

definition word_bit :: "nat \<Rightarrow> nat \<times> nat" where
  "word_bit index = (index div 64, index mod 64)"

abbreviation lowest_bit :: "u64 \<Rightarrow> nat" where
  "lowest_bit w \<equiv> trailing_zeros (unat w)"

lemma trailing_zeros_bit:
  assumes "0 < n"
  shows "bit n (trailing_zeros n)" and "j < trailing_zeros n \<Longrightarrow> \<not> bit n j"
proof -
  from trailing_zeros_split [OF assms] obtain m where m: "odd m" "n = m * 2 ^ trailing_zeros n"
    by blast
  then have n: "n = push_bit (trailing_zeros n) m" by (simp add: push_bit_eq_mult)
  show "bit n (trailing_zeros n)" by (subst n) (use m(1) in \<open>simp add: bit_push_bit_iff_nat bit_0\<close>)
  show "j < trailing_zeros n \<Longrightarrow> \<not> bit n j" by (subst n) (simp add: bit_push_bit_iff_nat)
qed

lemma bit_unat [simp]: "bit (unat (w :: u64)) i \<longleftrightarrow> bit w i"
  by (simp add: bit_unsigned_iff)

lemma lowest_bit_word:
  assumes "w \<noteq> 0"
  shows "bit w (lowest_bit w)" and "lowest_bit w < 64" and "j < lowest_bit w \<Longrightarrow> \<not> bit w j"
proof -
  have "0 < unat w" using assms by (simp add: unat_gt_0)
  note tz = trailing_zeros_bit [OF this]
  show b: "bit w (lowest_bit w)" using tz(1) by simp
  show "lowest_bit w < 64" using bit_imp_le_length [OF b] by simp
  show "j < lowest_bit w \<Longrightarrow> \<not> bit w j" using tz(2) by simp
qed

lemma word_zero_iff: "(w :: u64) = 0 \<longleftrightarrow> (\<forall>i < 64. \<not> bit w i)"
  by (auto simp: bit_eq_iff)

text \<open>The simplifier writes \<open>1 << b\<close> as a power.\<close>

lemma and_bit_zero: "b < 64 \<Longrightarrow> (w :: u64) AND 2 ^ b = 0 \<longleftrightarrow> \<not> bit w b"
  by (auto simp: word_zero_iff bit_simps simp flip: push_bit_of_1)

lemma bit_or_one: "b < 64 \<Longrightarrow> bit ((w :: u64) OR 2 ^ b) i \<longleftrightarrow> bit w i \<or> i = b"
  by (auto simp: bit_simps simp flip: push_bit_of_1)

lemma bit_and_not_one: "b < 64 \<Longrightarrow> bit ((w :: u64) AND NOT (2 ^ b)) i \<longleftrightarrow> bit w i \<and> i \<noteq> b"
  by (auto simp: bit_simps dest: bit_imp_le_length simp flip: push_bit_of_1)

lemma bit_and_from: "bit ((w :: u64) AND push_bit b (- 1)) i \<longleftrightarrow> bit w i \<and> b \<le> i"
  by (auto simp: bit_simps dest: bit_imp_le_length)

subsection \<open>Operations\<close>

definition WORDS :: nat where "WORDS = MAX_SEGMENTS div 64"

record active_kind =
  ak_small :: "u64 list"
  ak_large :: "u64 list"
  ak_small_summary :: u64
  ak_large_summary :: u64

primrec offsets :: "segment_kind \<Rightarrow> fatal + bool" where
  "offsets Small = Inr False"
| "offsets Primordial = Inr False"
| "offsets Large = Inr True"
| "offsets Unknown = Inl ''active_kind_index: unknown segment kind''"

definition leaves :: "bool \<Rightarrow> active_kind \<Rightarrow> u64 list" where
  "leaves l a = (if l then ak_large a else ak_small a)"

definition summary :: "bool \<Rightarrow> active_kind \<Rightarrow> u64" where
  "summary l a = (if l then ak_large_summary a else ak_small_summary a)"

definition write_leaf :: "bool \<Rightarrow> nat \<Rightarrow> u64 \<Rightarrow> active_kind \<Rightarrow> active_kind" where
  "write_leaf l w v a =
     (if l then a\<lparr>ak_large := (ak_large a)[w := v]\<rparr> else a\<lparr>ak_small := (ak_small a)[w := v]\<rparr>)"

definition write_summary :: "bool \<Rightarrow> u64 \<Rightarrow> active_kind \<Rightarrow> active_kind" where
  "write_summary l v a = (if l then a\<lparr>ak_large_summary := v\<rparr> else a\<lparr>ak_small_summary := v\<rparr>)"

definition ak_set :: "nat \<Rightarrow> segment_kind \<Rightarrow> active_kind \<Rightarrow> fatal + active_kind" where
  "ak_set slot k a =
     (if MAX_SEGMENTS \<le> slot then Inl ''active_kind_index: set slot out of range''
      else case offsets k of
        Inl e \<Rightarrow> Inl e
      | Inr l \<Rightarrow>
          let (w, b) = word_bit slot; bit = push_bit b 1; old = leaves l a ! w in
          if old AND bit \<noteq> 0 \<or> leaves (\<not> l) a ! w AND bit \<noteq> 0
          then Inl ''active_kind_index: set on occupied slot''
          else
            let a' = write_leaf l w (old OR bit) a in
            Inr (if old = 0 then write_summary l (summary l a' OR push_bit w 1) a' else a'))"

definition ak_zeroed :: active_kind where
  "ak_zeroed = \<lparr>ak_small = replicate WORDS 0, ak_large = replicate WORDS 0,
                ak_small_summary = 0, ak_large_summary = 0\<rparr>"

definition init_in_place :: "fatal + active_kind" where
  "init_in_place = ak_set 0 Primordial ak_zeroed"

definition ak_contains :: "nat \<Rightarrow> segment_kind \<Rightarrow> active_kind \<Rightarrow> fatal + bool" where
  "ak_contains slot k a =
     (if MAX_SEGMENTS \<le> slot then Inr False
      else case offsets k of
        Inl e \<Rightarrow> Inl e
      | Inr l \<Rightarrow> let (w, b) = word_bit slot in Inr (leaves l a ! w AND push_bit b 1 \<noteq> 0))"

definition ak_clear :: "nat \<Rightarrow> segment_kind \<Rightarrow> active_kind \<Rightarrow> fatal + active_kind" where
  "ak_clear slot k a =
     (if slot = 0 \<or> MAX_SEGMENTS \<le> slot then Inl ''active_kind_index: clear slot out of range''
      else case offsets k of
        Inl e \<Rightarrow> Inl e
      | Inr l \<Rightarrow>
          let (w, b) = word_bit slot; bit = push_bit b 1; old = leaves l a ! w in
          if old AND bit = 0 then Inl ''active_kind_index: clear of empty slot''
          else
            let new = old AND NOT bit; a' = write_leaf l w new a in
            Inr (if new = 0 then write_summary l (summary l a' AND NOT (push_bit w 1)) a' else a'))"

definition ak_next :: "segment_kind \<Rightarrow> nat \<Rightarrow> active_kind \<Rightarrow> fatal + nat option" where
  "ak_next k start a =
     (if MAX_SEGMENTS \<le> start then Inr None
      else case offsets k of
        Inl e \<Rightarrow> Inl e
      | Inr l \<Rightarrow>
          let (word, b) = word_bit start; leaf = leaves l a ! word AND push_bit b (- 1) in
          if leaf \<noteq> 0 then Inr (Some (word * 64 + lowest_bit leaf))
          else if word = WORDS - 1 then Inr None
          else
            let later = summary l a AND push_bit (word + 1) (- 1) in
            if later = 0 then Inr None
            else
              let next_word = lowest_bit later; next_leaf = leaves l a ! next_word in
              if next_leaf = 0 then Inl ''active_kind_index: summary word without matching leaf''
              else Inr (Some (next_word * 64 + lowest_bit next_leaf)))"

subsection \<open>The sets an index stands for\<close>

definition ak_members :: "bool \<Rightarrow> active_kind \<Rightarrow> nat set" where
  "ak_members l a = {i. i < MAX_SEGMENTS \<and> bit (leaves l a ! (i div 64)) (i mod 64)}"

definition ak_inv :: "active_kind \<Rightarrow> bool" where
  "ak_inv a \<longleftrightarrow> (\<forall>l. length (leaves l a) = WORDS \<and> (\<forall>w < WORDS. bit (summary l a) w \<longleftrightarrow> leaves l a ! w \<noteq> 0))
     \<and> ak_members False a \<inter> ak_members True a = {}"

lemma words_eq [simp]: "WORDS = 64" and max_segments_eq [simp]: "MAX_SEGMENTS = 4096"
  by (simp_all add: WORDS_def MAX_SEGMENTS_def)

lemma lane_simps [simp]:
  "leaves l (write_leaf l w v a) = (leaves l a)[w := v]"
  "leaves (\<not> l) (write_leaf l w v a) = leaves (\<not> l) a"
  "leaves l (write_leaf (\<not> l) w v a) = leaves l a"
  "summary l' (write_leaf l w v a) = summary l' a"
  "leaves l' (write_summary l s a) = leaves l' a"
  "summary l (write_summary l s a) = s"
  "summary (\<not> l) (write_summary l s a) = summary (\<not> l) a"
  "summary l (write_summary (\<not> l) s a) = summary l a"
  by (auto simp: leaves_def write_leaf_def summary_def write_summary_def)

lemma lane_cases: "(\<forall>l'. P l') \<longleftrightarrow> P l \<and> P (\<not> (l :: bool))"
  by (cases l) (auto simp: all_bool_eq)

lemma ak_inv_lane:
  assumes "ak_inv a"
  shows "length (leaves l a) = 64" and "w < 64 \<Longrightarrow> bit (summary l a) w \<longleftrightarrow> leaves l a ! w \<noteq> 0"
  using assms by (auto simp: ak_inv_def)

lemma member_iff: "i < 4096 \<Longrightarrow> i \<in> ak_members l a \<longleftrightarrow> bit (leaves l a ! (i div 64)) (i mod 64)"
  by (simp add: ak_members_def)

lemma ak_members_bound: "ak_members l a \<subseteq> {..<4096}"
  by (auto simp: ak_members_def)

subsection \<open>Correctness of the operations\<close>

lemma lane_update:
  assumes "ak_inv a" and "i < 4096"
  shows "ak_members l (write_leaf l (i div 64) v a) =
    {j. j < 4096 \<and> (if j div 64 = i div 64 then bit v (j mod 64) else j \<in> ak_members l a)}"
proof -
  have "i div 64 < 64" using assms(2) by simp
  then show ?thesis using ak_inv_lane(1) [OF assms(1), of l]
    by (auto simp: ak_members_def nth_list_update)
qed

lemma ak_members_summary [simp]: "ak_members l (write_summary l' s a) = ak_members l a"
  by (simp add: ak_members_def)

lemma ak_members_other [simp]:
  "ak_members (\<not> l) (write_leaf l w v a) = ak_members (\<not> l) a"
  "ak_members l (write_leaf (\<not> l) w v a) = ak_members l a"
  by (simp_all add: ak_members_def)

text \<open>Rewriting one leaf word keeps the invariant when the summary bit of that word is kept in step.\<close>

lemma write_leaf_inv:
  assumes inv: "ak_inv a" and w: "w < 64"
    and summ: "\<And>w'. w' < 64 \<Longrightarrow> bit s w' \<longleftrightarrow> (if w' = w then v \<noteq> 0 else bit (summary l a) w')"
    and disj: "ak_members l (write_leaf l w v a) \<inter> ak_members (\<not> l) a = {}"
  shows "ak_inv (write_summary l s (write_leaf l w v a))"
proof -
  let ?a = "write_summary l s (write_leaf l w v a)"
  have l: "length (leaves l ?a) = 64 \<and> (\<forall>w' < 64. bit (summary l ?a) w' \<longleftrightarrow> leaves l ?a ! w' \<noteq> 0)"
    using ak_inv_lane [OF inv, where l = l] summ w by (auto simp: nth_list_update)
  have n: "length (leaves (\<not> l) ?a) = 64
      \<and> (\<forall>w' < 64. bit (summary (\<not> l) ?a) w' \<longleftrightarrow> leaves (\<not> l) ?a ! w' \<noteq> 0)"
    using ak_inv_lane [OF inv, where l = "\<not> l"] by simp
  have "ak_members l ?a \<inter> ak_members (\<not> l) ?a = {}" using disj by simp
  then have "ak_members False ?a \<inter> ak_members True ?a = {}" by (cases l) (simp_all add: Int_commute)
  with l n show ?thesis unfolding ak_inv_def words_eq lane_cases [of _ l] by blast
qed

lemma write_leaf_summary_same: "write_summary l (summary l a) (write_leaf l w v a) = write_leaf l w v a"
  by (simp add: write_summary_def write_leaf_def summary_def)

text \<open>A leaf word that differs in one bit changes the membership of one slot.\<close>

lemma lane_update_bit:
  assumes inv: "ak_inv a" and i: "i < 4096"
    and v: "\<And>j. bit v j \<longleftrightarrow> (if j = i mod 64 then c else bit (leaves l a ! (i div 64)) j)"
  shows "ak_members l (write_leaf l (i div 64) v a) =
    (if c then insert i (ak_members l a) else ak_members l a - {i})"
proof (rule set_eqI)
  fix j
  have m: "j \<in> ak_members l (write_leaf l (i div 64) v a) \<longleftrightarrow>
      j < 4096 \<and> (if j div 64 = i div 64 then bit v (j mod 64) else j \<in> ak_members l a)"
    unfolding lane_update [OF inv i] by simp
  have split: "j = i \<longleftrightarrow> j div 64 = i div 64 \<and> j mod 64 = i mod 64" by (metis div_mult_mod_eq)
  show "j \<in> ak_members l (write_leaf l (i div 64) v a) \<longleftrightarrow>
      j \<in> (if c then insert i (ak_members l a) else ak_members l a - {i})"
  proof (cases "j div 64 = i div 64")
    case True
    then have "j \<in> ak_members l a \<longleftrightarrow> j < 4096 \<and> bit (leaves l a ! (i div 64)) (j mod 64)"
      by (simp add: ak_members_def)
    with True m v [of "j mod 64"] split i show ?thesis by auto
  next
    case False
    with m split show ?thesis by (auto simp: ak_members_def)
  qed
qed

theorem ak_set_ok:
  assumes inv: "ak_inv a" and "offsets k = Inr l"
  shows "case ak_set i k a of
      Inl _ \<Rightarrow> 4096 \<le> i \<or> i \<in> ak_members l a \<union> ak_members (\<not> l) a
    | Inr a' \<Rightarrow> i < 4096 \<and> i \<notin> ak_members l a \<union> ak_members (\<not> l) a \<and> ak_inv a'
        \<and> ak_members l a' = insert i (ak_members l a) \<and> ak_members (\<not> l) a' = ak_members (\<not> l) a"
proof (cases "i < 4096 \<and> i \<notin> ak_members l a \<union> ak_members (\<not> l) a")
  case False
  then have "4096 \<le> i \<or> bit (leaves l a ! (i div 64)) (i mod 64) \<or> bit (leaves (\<not> l) a ! (i div 64)) (i mod 64)"
    by (auto simp: ak_members_def)
  with False assms(2) show ?thesis by (auto simp: ak_set_def word_bit_def and_bit_zero Let_def)
next
  case True
  define w b where "w = i div 64" and "b = i mod 64"
  have i: "i < 4096" using True by simp
  then have wb: "w < 64" "b < 64" by (simp_all add: w_def b_def)
  define old where "old = leaves l a ! w"
  define v where "v = old OR 2 ^ b"
  have free: "\<not> bit old b" "\<not> bit (leaves (\<not> l) a ! w) b"
    using True by (simp_all add: ak_members_def w_def b_def old_def)
  define s where "s = (if old = 0 then summary l a OR 2 ^ w else summary l a)"
  have r: "ak_set i k a = Inr (write_summary l s (write_leaf l w v a))"
    using True assms(2) free wb write_leaf_summary_same [of l a w v]
    by (simp add: ak_set_def word_bit_def and_bit_zero Let_def s_def v_def old_def flip: w_def b_def)
  have vb: "bit v j \<longleftrightarrow> bit old j \<or> j = b" for j using bit_or_one [OF wb(2)] by (simp add: v_def)
  have mem: "ak_members l (write_leaf l w v a) = insert i (ak_members l a)"
    unfolding w_def using lane_update_bit [OF inv i, of v True l] vb by (simp add: old_def w_def b_def)
  have "v \<noteq> 0" using vb [of b] by auto
  have "ak_inv (write_summary l s (write_leaf l w v a))"
  proof (rule write_leaf_inv [OF inv wb(1)])
    fix w' :: nat assume "w' < 64"
    then show "bit s w' \<longleftrightarrow> (if w' = w then v \<noteq> 0 else bit (summary l a) w')"
      using ak_inv_lane(2) [OF inv wb(1), of l] \<open>v \<noteq> 0\<close>
      by (auto simp: s_def bit_or_one [OF wb(1)] old_def)
  next
    show "ak_members l (write_leaf l w v a) \<inter> ak_members (\<not> l) a = {}"
      using inv True unfolding mem ak_inv_def by (cases l) auto
  qed
  with r mem True show ?thesis by simp
qed

theorem ak_clear_ok:
  assumes inv: "ak_inv a" and "offsets k = Inr l"
  shows "case ak_clear i k a of
      Inl _ \<Rightarrow> i = 0 \<or> i \<notin> ak_members l a
    | Inr a' \<Rightarrow> i \<noteq> 0 \<and> i \<in> ak_members l a \<and> ak_inv a'
        \<and> ak_members l a' = ak_members l a - {i} \<and> ak_members (\<not> l) a' = ak_members (\<not> l) a"
proof (cases "i \<noteq> 0 \<and> i \<in> ak_members l a")
  case False
  then have "i = 0 \<or> 4096 \<le> i \<or> \<not> bit (leaves l a ! (i div 64)) (i mod 64)"
    by (auto simp: ak_members_def)
  with False assms(2) show ?thesis by (auto simp: ak_clear_def word_bit_def and_bit_zero Let_def)
next
  case True
  then have i: "i < 4096" by (auto simp: ak_members_def)
  define w b where "w = i div 64" and "b = i mod 64"
  have wb: "w < 64" "b < 64" using i by (simp_all add: w_def b_def)
  define old where "old = leaves l a ! w"
  define v where "v = old AND NOT (2 ^ b)"
  have there: "bit old b" using True by (simp add: ak_members_def w_def b_def old_def)
  define s where "s = (if v = 0 then summary l a AND NOT (2 ^ w) else summary l a)"
  have r: "ak_clear i k a = Inr (write_summary l s (write_leaf l w v a))"
    using True i assms(2) there wb write_leaf_summary_same [of l a w v]
    by (auto simp: ak_clear_def word_bit_def and_bit_zero Let_def s_def v_def old_def simp flip: w_def b_def)
  have vb: "bit v j \<longleftrightarrow> bit old j \<and> j \<noteq> b" for j using bit_and_not_one [OF wb(2)] by (simp add: v_def)
  have mem: "ak_members l (write_leaf l w v a) = ak_members l a - {i}"
    unfolding w_def using lane_update_bit [OF inv i, of v False l] vb by (simp add: old_def w_def b_def)
  have "old \<noteq> 0" using there by auto
  have "ak_inv (write_summary l s (write_leaf l w v a))"
  proof (rule write_leaf_inv [OF inv wb(1)])
    fix w' :: nat assume "w' < 64"
    then show "bit s w' \<longleftrightarrow> (if w' = w then v \<noteq> 0 else bit (summary l a) w')"
      using ak_inv_lane(2) [OF inv wb(1), of l] \<open>old \<noteq> 0\<close>
      by (auto simp: s_def bit_and_not_one [OF wb(1)] old_def)
  next
    show "ak_members l (write_leaf l w v a) \<inter> ak_members (\<not> l) a = {}"
      using inv unfolding mem ak_inv_def by (cases l) auto
  qed
  with r mem True show ?thesis by simp
qed

lemma slot_parts: "k < 64 \<Longrightarrow> (w * 64 + k) div 64 = w \<and> (w * 64 + k) mod 64 = (k::nat)"
  by simp

lemma slot_order:
  assumes "(i::nat) div 64 < j div 64"
  shows "i < j"
  using assms by (meson div_le_mono leD leI)

text \<open>Where the smallest member from \<open>start\<close> on is: in the word of \<open>start\<close>, or the lowest bit of the next non-zero word.\<close>

lemma least_in_word:
  assumes "bit (leaves l a ! w) k" and "w < 64" and "start div 64 = w" and "start mod 64 \<le> k"
    and "\<forall>j < k. \<not> (bit (leaves l a ! w) j \<and> start mod 64 \<le> j)"
  shows "w * 64 + k \<in> ak_members l a \<and> start \<le> w * 64 + k
    \<and> (\<forall>j \<in> ak_members l a. start \<le> j \<longrightarrow> w * 64 + k \<le> j)"
proof -
  have k: "k < 64" using bit_imp_le_length [OF assms(1)] by simp
  have s: "start = w * 64 + start mod 64" using assms(3) by (metis div_mult_mod_eq)
  have "w * 64 + k \<le> j" if j: "j \<in> ak_members l a" "start \<le> j" for j
  proof (cases "j div 64 = w")
    case True
    then have "j = w * 64 + j mod 64" by (metis div_mult_mod_eq)
    moreover have "start mod 64 \<le> j mod 64" using s j(2) calculation by linarith
    moreover have "bit (leaves l a ! w) (j mod 64)" using j(1) True by (simp add: ak_members_def)
    then have "\<not> j mod 64 < k" using assms(5) calculation(2) by blast
    ultimately show ?thesis by linarith
  next
    case False
    moreover have "w \<le> j div 64" using j(2) assms(3) by (auto intro: div_le_mono)
    ultimately have "(w * 64 + k) div 64 < j div 64" using k by simp
    then have "w * 64 + k < j" by (rule slot_order)
    then show ?thesis by simp
  qed
  moreover have "w * 64 + k \<in> ak_members l a" using assms(1,2) k by (simp add: ak_members_def)
  ultimately show ?thesis using s assms(4) by auto
qed

lemma least_later:
  assumes "bit (leaves l a ! w) k" and "w < 64" and "start div 64 < w"
    and "\<forall>j < k. \<not> bit (leaves l a ! w) j"
    and none: "\<forall>j \<in> ak_members l a. start \<le> j \<longrightarrow> w \<le> j div 64"
  shows "w * 64 + k \<in> ak_members l a \<and> start \<le> w * 64 + k
    \<and> (\<forall>j \<in> ak_members l a. start \<le> j \<longrightarrow> w * 64 + k \<le> j)"
proof -
  have k: "k < 64" using bit_imp_le_length [OF assms(1)] by simp
  have "w * 64 + k \<le> j" if j: "j \<in> ak_members l a" "start \<le> j" for j
  proof (cases "j div 64 = w")
    case True
    then have "bit (leaves l a ! w) (j mod 64)" using j(1) by (simp add: ak_members_def)
    then have "k \<le> j mod 64" using assms(4) not_less by blast
    moreover have "j = w * 64 + j mod 64" using True by (metis div_mult_mod_eq)
    ultimately show ?thesis by linarith
  next
    case False
    moreover have "w \<le> j div 64" using none j by blast
    ultimately have "(w * 64 + k) div 64 < j div 64" using k by simp
    then have "w * 64 + k < j" by (rule slot_order)
    then show ?thesis by simp
  qed
  moreover have "w * 64 + k \<in> ak_members l a" using assms(1,2) k by (simp add: ak_members_def)
  moreover have "start < w * 64 + k" by (rule slot_order) (use assms(3) k in simp)
  ultimately show ?thesis by auto
qed

theorem ak_next_ok:
  assumes inv: "ak_inv a" and k: "offsets k = Inr l"
  shows "\<exists>r. ak_next k start a = Inr r \<and> (case r of
      None \<Rightarrow> \<forall>j \<in> ak_members l a. j < start
    | Some i \<Rightarrow> i \<in> ak_members l a \<and> start \<le> i \<and> (\<forall>j \<in> ak_members l a. start \<le> j \<longrightarrow> i \<le> j))"
proof (cases "start < 4096")
  case False
  then show ?thesis by (auto simp: ak_next_def ak_members_def)
next
  case True
  define w b where "w = start div 64" and "b = start mod 64"
  have w: "w < 64" using True by (simp add: w_def)
  define leaf later where "leaf = (leaves l a ! w AND push_bit b (- 1))"
    and "later = (summary l a AND push_bit (w + 1) (- 1))"
  note r = ak_next_def [of k start a, unfolded word_bit_def Let_def k prod.case sum.case
      words_eq max_segments_eq, folded w_def b_def, folded leaf_def later_def]
  have lb: "bit leaf j \<longleftrightarrow> bit (leaves l a ! w) j \<and> b \<le> j" for j unfolding leaf_def by (rule bit_and_from)
  have sb: "bit later j \<longleftrightarrow> bit (summary l a) j \<and> w < j" for j
    unfolding later_def bit_and_from by (simp add: Suc_le_eq)
  show ?thesis
  proof (cases "leaf = 0")
    case False
    note low = lowest_bit_word [OF False]
    have here: "bit (leaves l a ! w) (lowest_bit leaf)" "start mod 64 \<le> lowest_bit leaf"
      and first: "\<forall>j < lowest_bit leaf. \<not> (bit (leaves l a ! w) j \<and> start mod 64 \<le> j)"
      using low(1,3) lb unfolding b_def by blast+
    note least = least_in_word [OF here(1) w w_def [symmetric] here(2) first]
    have "ak_next k start a = Inr (Some (w * 64 + lowest_bit leaf))"
      unfolding r using True False by simp
    with least show ?thesis by simp
  next
    case leaf0: True
    have beyond: "w < j div 64" if j: "j \<in> ak_members l a" "start \<le> j" for j
    proof (rule ccontr)
      assume "\<not> w < j div 64"
      moreover have "w \<le> j div 64" using j(2) by (simp add: w_def div_le_mono)
      ultimately have e: "j div 64 = w" by simp
      then have "bit (leaves l a ! w) (j mod 64)" using j(1) by (simp add: ak_members_def)
      moreover have "start = w * 64 + b" unfolding w_def b_def by (simp add: mult.commute)
      with j(2) e have "b \<le> j mod 64" using div_mult_mod_eq [of j 64] by simp
      ultimately have "bit leaf (j mod 64)" using lb by blast
      with leaf0 show False by simp
    qed
    have summ: "bit (summary l a) (j div 64)" if j: "j \<in> ak_members l a" for j
    proof -
      have "j div 64 < 64" "bit (leaves l a ! (j div 64)) (j mod 64)" using j by (auto simp: ak_members_def)
      then show ?thesis using ak_inv_lane(2) [OF inv] by fastforce
    qed
    show ?thesis
    proof (cases "later = 0")
      case later0: True
      have "j < start" if j: "j \<in> ak_members l a" for j
      proof (rule ccontr)
        assume "\<not> j < start"
        then have "bit later (j div 64)" using beyond [OF j] summ [OF j] sb by simp
        with later0 show False by simp
      qed
      then show ?thesis using True leaf0 later0 by (simp add: r)
    next
      case False
      define nw where "nw = lowest_bit later"
      have nw: "nw < 64" "w < nw" "bit (summary l a) nw"
        using lowest_bit_word(1,2) [OF False] sb by (simp_all add: nw_def)
      then have nz: "leaves l a ! nw \<noteq> 0" using ak_inv_lane(2) [OF inv] by blast
      have "nw \<le> j div 64" if "j \<in> ak_members l a" "start \<le> j" for j
        using that beyond summ sb lowest_bit_word(3) [OF False] unfolding nw_def
        by (meson not_less)
      then have "\<forall>j \<in> ak_members l a. start \<le> j \<longrightarrow> nw \<le> j div 64" by blast
      moreover have "\<forall>j < lowest_bit (leaves l a ! nw). \<not> bit (leaves l a ! nw) j"
        using lowest_bit_word(3) [OF nz] by blast
      moreover have "start div 64 < nw" using nw(2) by (simp only: w_def)
      ultimately have least: "nw * 64 + lowest_bit (leaves l a ! nw) \<in> ak_members l a
          \<and> start \<le> nw * 64 + lowest_bit (leaves l a ! nw)
          \<and> (\<forall>j \<in> ak_members l a. start \<le> j \<longrightarrow> nw * 64 + lowest_bit (leaves l a ! nw) \<le> j)"
        using least_later [OF lowest_bit_word(1) [OF nz] nw(1)] by blast
      have "ak_next k start a = Inr (Some (nw * 64 + lowest_bit (leaves l a ! nw)))"
        unfolding r using True leaf0 False nz nw by (simp flip: nw_def)
      with least show ?thesis by simp
    qed
  qed
qed

subsection \<open>The index as two ordered sets\<close>

interpretation small_lane: ordered_set ak_inv "ak_members False" 4096 "\<lambda>a start. ak_next Small start a"
  by unfold_locales (rule ak_members_bound, rule ak_next_ok, simp_all)

interpretation large_lane: ordered_set ak_inv "ak_members True" 4096 "\<lambda>a start. ak_next Large start a"
  by unfold_locales (rule ak_members_bound, rule ak_next_ok, simp_all)

lemma ak_zeroed_inv: "ak_inv ak_zeroed" "ak_members l ak_zeroed = {}"
proof -
  have z: "leaves l ak_zeroed = replicate 64 0" "summary l ak_zeroed = 0" for l
    by (simp_all add: ak_zeroed_def leaves_def summary_def)
  show m: "ak_members l ak_zeroed = {}" for l by (auto simp: ak_members_def z)
  show "ak_inv ak_zeroed" by (simp add: ak_inv_def z m)
qed

lemma init_in_place_ok:
  "\<exists>a. init_in_place = Inr a \<and> ak_inv a \<and> ak_members False a = {0} \<and> ak_members True a = {}"
  using ak_set_ok [OF ak_zeroed_inv(1), of Primordial False 0]
  by (auto simp: init_in_place_def ak_zeroed_inv split: sum.splits)

subsection \<open>Properties\<close>

text \<open>Registering a segment in the index aborts exactly when the slot is out of range or already
  active in either lane, and otherwise adds the slot to the lane of its kind, leaves the
  other lane alone and keeps every summary bit equal to its word being non-zero.\<close>

theorem active_set_exact:
  assumes "ak_inv a" and "offsets k = Inr l"
  shows "case ak_set i k a of
      Inl _ \<Rightarrow> MAX_SEGMENTS \<le> i \<or> i \<in> ak_members l a \<union> ak_members (\<not> l) a
    | Inr a' \<Rightarrow> i < MAX_SEGMENTS \<and> i \<notin> ak_members l a \<union> ak_members (\<not> l) a \<and> ak_inv a'
        \<and> ak_members l a' = insert i (ak_members l a) \<and> ak_members (\<not> l) a' = ak_members (\<not> l) a"
  unfolding max_segments_eq by (rule ak_set_ok [OF assms])

lemma active_set_exact_witness:
  "\<exists>a. ak_set 70 Large ak_zeroed = Inr a \<and> ak_inv a \<and> ak_members True a = {70}"
  using active_set_exact [OF ak_zeroed_inv(1), of Large True 70]
  by (auto simp: ak_zeroed_inv split: sum.splits)

text \<open>C17: unregistering aborts exactly for the primordial slot and for slots that are not active in the
  lane, and otherwise removes that slot alone; a word that becomes empty loses its summary bit.\<close>

theorem active_clear_exact:
  assumes "ak_inv a" and "offsets k = Inr l"
  shows "case ak_clear i k a of
      Inl _ \<Rightarrow> i = 0 \<or> i \<notin> ak_members l a
    | Inr a' \<Rightarrow> i \<noteq> 0 \<and> i \<in> ak_members l a \<and> ak_inv a'
        \<and> ak_members l a' = ak_members l a - {i} \<and> ak_members (\<not> l) a' = ak_members (\<not> l) a"
  using assms by (rule ak_clear_ok)

lemma active_clear_exact_witness:
  "\<exists>a a'. ak_members True a = {70} \<and> ak_clear 70 Large a = Inr a' \<and> ak_members True a' = {}"
proof -
  obtain a where a: "ak_inv a" "ak_members True a = {70}"
    using ak_set_ok [OF ak_zeroed_inv(1), of Large True 70]
    by (auto simp: ak_zeroed_inv split: sum.splits)
  with active_clear_exact [OF a(1), of Large True 70] show ?thesis
    by (auto split: sum.splits)
qed

text \<open>The walk \<open>while let Some(i) = next(kind, from)\<close> over the active segments of a kind ends, never
  meets a summary bit without a word, and visits exactly the active slots, in increasing
  order.\<close>

theorem active_sweep_exact:
  assumes "ak_inv a"
  shows "sweep (\<lambda>start. ak_next Small start a) 0 = Some (Inr (sorted_list_of_set (ak_members False a)))
    \<and> sweep (\<lambda>start. ak_next Large start a) 0 = Some (Inr (sorted_list_of_set (ak_members True a)))"
  using small_lane.sweep_members [OF assms, of 0] large_lane.sweep_members [OF assms, of 0] by simp

lemma active_sweep_exact_witness:
  "\<exists>a. init_in_place = Inr a \<and> sweep (\<lambda>start. ak_next Small start a) 0 = Some (Inr [0])
    \<and> sweep (\<lambda>start. ak_next Large start a) 0 = Some (Inr [])"
proof -
  obtain a where a: "init_in_place = Inr a" "ak_inv a" "ak_members False a = {0}" "ak_members True a = {}"
    using init_in_place_ok by blast
  from active_sweep_exact [OF a(2)] a show ?thesis by auto
qed

end
