(* ===== verification/SegmentTable.thy ===== *)
theory SegmentTable
  imports ActiveKind
begin

text \<open>
  The table of registered segments (\<open>segment_table_impl.rs\<close>, \<open>hash.rs\<close> and
  \<open>active_kind_ops.rs\<close> under \<open>src/alloc_core/segment/segment_table/\<close>): the slot array,
  the hash index over it, the free list of recycled slots, the index of the active kinds and
  the two lookup caches.  Modelled is the table of a build without \<open>alloc-global\<close>, which
  has no route slots.  The headers that live in segment memory are the argument \<open>mem\<close>;
  a \<open>None\<close> result is a probe loop that does not end, a left value an abort.
\<close>

definition OWN_CACHE_SIZE :: nat where "OWN_CACHE_SIZE = 16"
definition OWN_CACHE_EMPTY_KEY :: nat where "OWN_CACHE_EMPTY_KEY = usize_max"
definition LAST_EMPTY_KEY :: nat where "LAST_EMPTY_KEY = usize_max"
definition FREE_LIST_CAPACITY :: nat where "FREE_LIST_CAPACITY = MAX_SEGMENTS"

text \<open>\<open>unverified\<close> and \<open>released\<close> record the effects of \<open>recycle\<close> outside the table.\<close>

record segment_table =
  slots :: "nat list"
  active :: active_kind
  own_cache :: "(nat \<times> nat) list"
  last_key :: nat
  last_root :: nat
  seg_count :: nat
  hash_slots :: "nat list"
  free_list :: "nat list"
  free_top :: nat
  unverified :: nat
  released :: "(nat \<times> nat) list"

definition from_primordial ::
    "nat list \<Rightarrow> nat \<Rightarrow> nat list \<Rightarrow> nat list \<Rightarrow> nat \<Rightarrow> active_kind \<Rightarrow> segment_table" where
  "from_primordial sl cnt hs fl ft ak =
     \<lparr>slots = sl, active = ak, own_cache = replicate OWN_CACHE_SIZE (OWN_CACHE_EMPTY_KEY, 0),
      last_key = LAST_EMPTY_KEY, last_root = 0, seg_count = cnt, hash_slots = hs,
      free_list = fl, free_top = ft, unverified = 0, released = []\<rparr>"

definition base_at :: "segment_table \<Rightarrow> nat \<Rightarrow> nat" where
  "base_at t i = (if seg_count t \<le> i then 0 else slots t ! i)"

definition bases :: "segment_table \<Rightarrow> nat list" where
  "bases t = filter (\<lambda>p. p \<noteq> 0) (map (\<lambda>i. slots t ! i) [0..<seg_count t])"

subsection \<open>The free list\<close>

definition free_list_push :: "nat \<Rightarrow> segment_table \<Rightarrow> fatal + segment_table" where
  "free_list_push idx t =
     (if \<not> free_top t < FREE_LIST_CAPACITY
      then Inl ''free-list overflow -- more recycled slots than MAX_SEGMENTS''
      else Inr (t\<lparr>free_list := (free_list t)[free_top t := idx], free_top := free_top t + 1\<rparr>))"

definition free_list_pop :: "segment_table \<Rightarrow> nat option \<times> segment_table" where
  "free_list_pop t =
     (if free_top t = 0 then (None, t)
      else (Some (free_list t ! (free_top t - 1)), t\<lparr>free_top := free_top t - 1\<rparr>))"

definition next_register_slot :: "bool \<Rightarrow> segment_table \<Rightarrow> nat" where
  "next_register_slot has_free t =
     (if \<not> has_free then seg_count t else free_list t ! (free_top t - 1))"

subsection \<open>The lookup caches\<close>

definition cache_index :: "nat \<Rightarrow> nat" where
  "cache_index addr = drop_bit SEGMENT_SHIFT addr AND (OWN_CACHE_SIZE - 1)"

definition own_cache_clear :: "nat \<Rightarrow> segment_table \<Rightarrow> segment_table" where
  "own_cache_clear base t =
     (let t' = t\<lparr>own_cache :=
         map (\<lambda>e. if snd e = base then (OWN_CACHE_EMPTY_KEY, 0) else e) (own_cache t)\<rparr>
      in if last_root t' = base then t'\<lparr>last_key := LAST_EMPTY_KEY, last_root := 0\<rparr> else t')"

definition memo :: "segment_table \<Rightarrow> nat \<times> nat" where
  "memo t = (last_key t, last_root t)"

definition probe_arm :: "nat \<Rightarrow> segment_table \<Rightarrow> nat option \<times> segment_table" where
  "probe_arm key t =
     (let (cached_key, cached_root) = own_cache t ! cache_index key in
      if cached_key = key \<and> cached_root = key
      then (Some cached_root, t\<lparr>last_key := key, last_root := cached_root\<rparr>)
      else (None, t))"

definition canonical_base_of_mut :: "nat \<Rightarrow> segment_table \<Rightarrow> (nat option \<times> segment_table) option" where
  "canonical_base_of_mut key t =
     (if last_key t = key then Some (Some (last_root t), t)
      else
        let index = cache_index key; (cached_key, cached_root) = own_cache t ! index in
        if cached_key = key then
          Some (Some cached_root,
                if cached_root = key then t\<lparr>last_key := key, last_root := cached_root\<rparr> else t)
        else map_option
          (\<lambda>r. case r of
             None \<Rightarrow> (None, t)
           | Some root \<Rightarrow> (Some root, t\<lparr>own_cache := (own_cache t)[index := (key, root)]\<rparr>))
          (hash_find (base_at t) (hash_slots t) key))"

definition contains_base :: "nat \<Rightarrow> segment_table \<Rightarrow> (bool \<times> segment_table) option" where
  "contains_base base t =
     map_option (\<lambda>(r, t'). (r \<noteq> None, t')) (canonical_base_of_mut base t)"

definition canonical_base_of :: "nat \<Rightarrow> segment_table \<Rightarrow> nat option option" where
  "canonical_base_of base t =
     (if last_key t = base then Some (Some (last_root t))
      else
        let (cached_key, cached_root) = own_cache t ! cache_index base in
        if cached_key = base then Some (Some cached_root)
        else hash_find (base_at t) (hash_slots t) base)"

subsection \<open>Registration\<close>

primrec hash_msg :: "hash_error \<Rightarrow> fatal" where
  "hash_msg HashFull = ''hash table full -- load factor exceeded''"
| "hash_msg RemoveLooped = ''hash_remove looped without finding base''"
| "hash_msg ShiftLooped = ''hash_remove backward-shift looped -- no empty slot found in cluster''"

text \<open>The tail of both branches of \<open>register_payload\<close>: index the key, then the kind.\<close>

definition index_slot ::
    "nat \<Rightarrow> nat \<Rightarrow> segment_kind \<Rightarrow> segment_table \<Rightarrow> (fatal + nat option \<times> segment_table) option" where
  "index_slot i key k t =
     Option.bind (hash_insert_identity (hash_slots t) key i) (\<lambda>h.
       case ak_set i k (active t) of
         Inl e \<Rightarrow> Some (Inl e)
       | Inr a \<Rightarrow> Some (Inr (Some i, t\<lparr>hash_slots := h, active := a\<rparr>)))"

definition register_payload ::
    "nat \<Rightarrow> segment_kind \<Rightarrow> nat \<Rightarrow> segment_table \<Rightarrow> (fatal + nat option \<times> segment_table) option" where
  "register_payload base k payload t =
     (if k \<noteq> Small \<and> k \<noteq> Large then Some (Inr (None, t))
      else
        let key = segment_base_of payload; has_free = (free_top t \<noteq> 0) in
        if \<not> has_free \<and> MAX_SEGMENTS \<le> seg_count t then Some (Inr (None, t))
        else case free_list_pop t of
          (Some i, t1) \<Rightarrow> index_slot i key k (t1\<lparr>slots := (slots t1)[i := base]\<rparr>)
        | (None, t1) \<Rightarrow>
            let idx = seg_count t1 in
            if MAX_SEGMENTS \<le> idx then Some (Inr (None, t1))
            else index_slot idx key k (t1\<lparr>slots := (slots t1)[idx := base], seg_count := idx + 1\<rparr>))"

definition register ::
    "nat \<Rightarrow> segment_kind \<Rightarrow> segment_table \<Rightarrow> (fatal + nat option \<times> segment_table) option" where
  "register base k t = register_payload base k base t"

text \<open>The address under which a segment is indexed: the segment base of its payload.\<close>

definition payload_key :: "(nat \<Rightarrow> segment_header) \<Rightarrow> nat \<Rightarrow> nat" where
  "payload_key mem base = segment_base_of (base + payload_offset (mem base))"

definition unregister ::
    "(nat \<Rightarrow> segment_header) \<Rightarrow> nat \<Rightarrow> segment_table \<Rightarrow> (fatal + segment_table) option" where
  "unregister mem base t =
     (let i = segment_id (mem base) in
      if base_at t i \<noteq> base then Some (Inr t)
      else
        let key = payload_key mem base in
        case ak_clear i (kind (mem base)) (active t) of
          Inl e \<Rightarrow> Some (Inl e)
        | Inr a \<Rightarrow>
            let t1 = t\<lparr>active := a, slots := (slots t)[i := 0]\<rparr> in
            Option.bind (hash_remove (hash_slots t1) key) (\<lambda>r.
              case r of
                Inl e \<Rightarrow> Some (Inl (hash_msg e))
              | Inr h \<Rightarrow> Some (free_list_push i (own_cache_clear base (t1\<lparr>hash_slots := h\<rparr>)))))"

text \<open>
  \<open>recycle\<close> releases the reservation of a segment that the hash index knows by its base:
  first the slot the header names, then a scan of the table.
\<close>

definition recycle_slot :: "(nat \<Rightarrow> segment_header) \<Rightarrow> nat \<Rightarrow> segment_table \<Rightarrow> nat option" where
  "recycle_slot mem base t =
     (if base_at t (segment_id (mem base)) = base then Some (segment_id (mem base))
      else find (\<lambda>i. base_at t i = base) [0..<seg_count t])"

definition release_segment :: "nat \<Rightarrow> nat \<Rightarrow> segment_table \<Rightarrow> segment_table" where
  "release_segment res len t =
     (if res = 0 then t else t\<lparr>released := released t @ [(res, len)]\<rparr>)"

definition recycle ::
    "(nat \<Rightarrow> segment_header) \<Rightarrow> nat \<Rightarrow> segment_table \<Rightarrow> (fatal + segment_table) option" where
  "recycle mem base t =
     Option.bind (hash_find (base_at t) (hash_slots t) base) (\<lambda>found.
       if found = None then Some (Inr (t\<lparr>unverified := unverified t + 1\<rparr>))
       else case recycle_slot mem base t of
         None \<Rightarrow> Some (Inr (t\<lparr>unverified := unverified t + 1\<rparr>))
       | Some i \<Rightarrow>
           (case ak_clear i (kind (mem base)) (active t) of
              Inl e \<Rightarrow> Some (Inl e)
            | Inr a \<Rightarrow>
                Option.bind (hash_remove (hash_slots t) base) (\<lambda>r.
                  case r of
                    Inl e \<Rightarrow> Some (Inl (hash_msg e))
                  | Inr h \<Rightarrow>
                      let t1 = own_cache_clear base (t\<lparr>active := a, hash_slots := h\<rparr>);
                          t2 = release_segment (reservation (mem base)) (reservation_len (mem base)) t1
                      in Some (free_list_push i (t2\<lparr>slots := (slots t2)[i := 0]\<rparr>)))))"

definition next_active :: "segment_kind \<Rightarrow> nat \<Rightarrow> segment_table \<Rightarrow> fatal + nat option" where
  "next_active k start t =
     (case ak_next k start (active t) of
        Inl e \<Rightarrow> Inl e
      | Inr r \<Rightarrow>
          (case r of
             None \<Rightarrow> Inr None
           | Some i \<Rightarrow>
               if seg_count t \<le> i
               then Inl ''active_kind_ops: active index entry beyond table count''
               else Inr (Some i)))"

text \<open>
  The census that compares the active index with the headers of all slots: the numbers of
  small and large segments, and whether the index agrees with them everywhere.
\<close>

definition expected_kind :: "(nat \<Rightarrow> segment_header) \<Rightarrow> nat \<Rightarrow> fatal + bool \<times> bool" where
  "expected_kind mem base =
     (if base = 0 then Inr (False, False)
      else case kind (mem base) of
        Small \<Rightarrow> Inr (True, False)
      | Primordial \<Rightarrow> Inr (True, False)
      | Large \<Rightarrow> Inr (False, True)
      | Unknown \<Rightarrow> Inl ''active_kind_ops: unknown segment kind'')"

fun census_scan ::
    "(nat \<Rightarrow> segment_header) \<Rightarrow> segment_table \<Rightarrow> nat list \<Rightarrow> nat \<times> nat \<times> bool \<Rightarrow> fatal + nat \<times> nat \<times> bool" where
  "census_scan mem t [] acc = Inr acc"
| "census_scan mem t (i # is) (small, large, exact) =
     (case expected_kind mem (base_at t i) of
        Inl e \<Rightarrow> Inl e
      | Inr (es, el) \<Rightarrow>
          (case ak_contains i Small (active t) of
             Inl e \<Rightarrow> Inl e
           | Inr cs \<Rightarrow>
               (case ak_contains i Large (active t) of
                  Inl e \<Rightarrow> Inl e
                | Inr cl \<Rightarrow> census_scan mem t is
                    (small + of_bool es, large + of_bool el, exact \<and> cs = es \<and> cl = el))))"

definition active_kind_census ::
    "(nat \<Rightarrow> segment_header) \<Rightarrow> segment_table \<Rightarrow> (fatal + nat \<times> nat \<times> bool) option" where
  "active_kind_census mem t =
     (case census_scan mem t [0..<MAX_SEGMENTS] (0, 0, True) of
        Inl e \<Rightarrow> Some (Inl e)
      | Inr (small, large, exact) \<Rightarrow>
          Option.bind (sweep (\<lambda>start. next_active Small start t) 0) (\<lambda>r.
            case r of
              Inl e \<Rightarrow> Some (Inl e)
            | Inr xs \<Rightarrow>
                Option.bind (sweep (\<lambda>start. next_active Large start t) 0) (\<lambda>r'.
                  case r' of
                    Inl e \<Rightarrow> Some (Inl e)
                  | Inr ys \<Rightarrow> Some (Inr (small, large,
                      exact \<and> length xs = small \<and> length ys = large)))))"

text \<open>
  The table as \<open>primordial()\<close> (\<open>src/alloc_core/alloc_core/bootstrap.rs\<close>) leaves it: zeroed
  memory, the primordial segment in slot 0, written into its home slot of the hash.
\<close>

definition bootstrap_table :: "nat \<Rightarrow> fatal + segment_table" where
  "bootstrap_table base =
     (let reg_slots = (replicate MAX_SEGMENTS 0)[0 := base];
          start_idx = hash_index base;
          hashes = (replicate HASH_CAPACITY 0)[start_idx := base OR 1]
      in case init_in_place of
           Inl e \<Rightarrow> Inl e
         | Inr ak \<Rightarrow> Inr (from_primordial reg_slots 1 hashes (replicate FREE_LIST_CAPACITY 0) 0 ak))"

subsection \<open>The invariant of the table\<close>

text \<open>
  \<open>m\<close> maps the key of every live segment to its slot.  The hash index stores exactly
  \<open>m\<close>, the free list exactly the empty slots below the count, the active index each live
  slot in the lane of its kind, and a cache entry is empty or agrees with \<open>m\<close>.
\<close>

definition live :: "segment_table \<Rightarrow> nat set" where
  "live t = {i. i < seg_count t \<and> slots t ! i \<noteq> 0}"

definition cached_ok :: "segment_table \<Rightarrow> (nat \<Rightarrow> nat option) \<Rightarrow> nat \<Rightarrow> nat \<Rightarrow> bool" where
  "cached_ok t m key root \<longleftrightarrow> (key = usize_max \<and> root = 0) \<or> (\<exists>i. m key = Some i \<and> slots t ! i = root)"

definition free_ok :: "segment_table \<Rightarrow> bool" where
  "free_ok t \<longleftrightarrow> length (free_list t) = 4096 \<and> free_top t \<le> 4096
     \<and> distinct (take (free_top t) (free_list t))
     \<and> set (take (free_top t) (free_list t)) = {i. i < seg_count t \<and> slots t ! i = 0}"

definition keys_ok :: "(nat \<Rightarrow> segment_header) \<Rightarrow> segment_table \<Rightarrow> (nat \<Rightarrow> nat option) \<Rightarrow> bool" where
  "keys_ok mem t m \<longleftrightarrow>
     (\<forall>key i. m key = Some i \<longleftrightarrow> i \<in> live t \<and> key = payload_key mem (slots t ! i))
     \<and> (\<forall>i \<in> live t. \<forall>j \<in> live t. slots t ! i = slots t ! j \<longrightarrow> i = j)"

definition kinds_ok :: "(nat \<Rightarrow> segment_header) \<Rightarrow> segment_table \<Rightarrow> bool" where
  "kinds_ok mem t \<longleftrightarrow> ak_inv (active t)
     \<and> (\<forall>i \<in> live t. kind (mem (slots t ! i)) \<noteq> Unknown)
     \<and> ak_members False (active t) = {i \<in> live t. kind (mem (slots t ! i)) \<noteq> Large}
     \<and> ak_members True (active t) = {i \<in> live t. kind (mem (slots t ! i)) = Large}"

definition table_inv :: "(nat \<Rightarrow> segment_header) \<Rightarrow> segment_table \<Rightarrow> (nat \<Rightarrow> nat option) \<Rightarrow> bool" where
  "table_inv mem t m \<longleftrightarrow> length (slots t) = 4096 \<and> seg_count t \<le> 4096 \<and> free_ok t
     \<and> seg_index.represents (hash_slots t) m \<and> keys_ok mem t m \<and> kinds_ok mem t
     \<and> length (own_cache t) = 16 \<and> (\<forall>e \<in> set (own_cache t). cached_ok t m (fst e) (snd e))
     \<and> cached_ok t m (last_key t) (last_root t)"

text \<open>The lookup the caches and the index implement.\<close>

definition lookup :: "segment_table \<Rightarrow> (nat \<Rightarrow> nat option) \<Rightarrow> nat \<Rightarrow> nat option" where
  "lookup t m key = map_option (\<lambda>i. slots t ! i) (m key)"

subsection \<open>Facts about the parts\<close>

lemma and_shifted_mask: "(x::nat) AND push_bit k (mask j) = push_bit k (take_bit j (drop_bit k x))"
  by (rule bit_eqI) (auto simp: bit_simps)

lemma and_low_clear: "x AND (2 ^ 64 - 2 ^ 22) \<le> usize_max \<and> (x AND (2 ^ 64 - 2 ^ 22)) mod 2 ^ 22 = (0::nat)"
proof -
  define v where "v = take_bit 42 (drop_bit 22 x)"
  have m: "(2::nat) ^ 64 - 2 ^ 22 = push_bit 22 (mask 42)" by (simp add: push_bit_eq_mult mask_eq_exp_minus_1)
  have "x AND (2 ^ 64 - 2 ^ 22) = push_bit 22 v" unfolding m v_def by (rule and_shifted_mask)
  then have e: "x AND (2 ^ 64 - 2 ^ 22) = v * 2 ^ 22" by (simp only: push_bit_eq_mult)
  have "v < 2 ^ 42" unfolding v_def by (rule take_bit_nat_less_exp)
  then have "v \<le> 2 ^ 42 - 1" by simp
  then have "v * 2 ^ 22 \<le> (2 ^ 42 - 1) * 2 ^ 22" by (rule mult_le_mono1)
  also have "\<dots> \<le> usize_max" by simp
  finally show ?thesis unfolding e by simp
qed

lemma segment_key_base [simp]: "segment_key (segment_base_of x)"
proof -
  have "usize_max - (SEGMENT - 1) = 2 ^ 64 - 2 ^ 22" by simp
  then show ?thesis using and_low_clear [of x] by (simp only: segment_key_def segment_base_of_def)
qed

lemma segment_key_payload [simp]: "segment_key (payload_key mem base)"
  by (simp add: payload_key_def)

lemma segment_key_not_max: "segment_key k \<Longrightarrow> k \<noteq> usize_max"
  by (auto simp: segment_key_def)

lemma cache_index_less [simp]: "cache_index a < 16"
  using and_pred_two_pow [of "drop_bit SEGMENT_SHIFT a" 4]
  by (simp add: cache_index_def OWN_CACHE_SIZE_def)

text \<open>The parts of the invariant that the caches do not touch.\<close>

lemma cache_independent [simp]:
  "live (t\<lparr>own_cache := c\<rparr>) = live t" "live (t\<lparr>last_key := k, last_root := r\<rparr>) = live t"
  "free_ok (t\<lparr>own_cache := c\<rparr>) = free_ok t" "free_ok (t\<lparr>last_key := k, last_root := r\<rparr>) = free_ok t"
  "keys_ok mem (t\<lparr>own_cache := c\<rparr>) m = keys_ok mem t m"
  "keys_ok mem (t\<lparr>last_key := k, last_root := r\<rparr>) m = keys_ok mem t m"
  "kinds_ok mem (t\<lparr>own_cache := c\<rparr>) = kinds_ok mem t"
  "kinds_ok mem (t\<lparr>last_key := k, last_root := r\<rparr>) = kinds_ok mem t"
  "cached_ok (t\<lparr>own_cache := c\<rparr>) m = cached_ok t m"
  "cached_ok (t\<lparr>last_key := k, last_root := r\<rparr>) m = cached_ok t m"
  by (simp_all add: live_def free_ok_def keys_ok_def kinds_ok_def cached_ok_def fun_eq_iff)

lemma live_bound: "table_inv mem t m \<Longrightarrow> i \<in> live t \<Longrightarrow> i < 4096"
  by (auto simp: table_inv_def live_def)

lemma live_base_at: "i \<in> live t \<Longrightarrow> base_at t i = slots t ! i \<and> slots t ! i \<noteq> 0"
  by (simp add: live_def base_at_def)

lemma keys_live: "keys_ok mem t m \<Longrightarrow> m key = Some i \<Longrightarrow> i \<in> live t \<and> key = payload_key mem (slots t ! i)"
  by (simp add: keys_ok_def)

lemma dom_card:
  assumes "table_inv mem t m"
  shows "card (dom m) \<le> 4096"
proof -
  have sub: "dom m \<subseteq> (\<lambda>i. payload_key mem (slots t ! i)) ` live t"
    using assms by (auto simp: table_inv_def keys_ok_def)
  have "live t \<subseteq> {..<4096}" using live_bound [OF assms] by blast
  then have fin: "finite (live t)" and card: "card (live t) \<le> 4096"
    by (simp add: finite_subset) (use \<open>live t \<subseteq> {..<4096}\<close> card_mono [of "{..<4096::nat}" "live t"] in simp)
  have "card (dom m) \<le> card (live t)" using surj_card_le [OF fin sub] .
  with card show ?thesis by simp
qed

lemma index_find:
  assumes "table_inv mem t m"
  shows "hash_find (base_at t) (hash_slots t) key = Some (lookup t m key)"
proof -
  have "seg_index.represents (hash_slots t) m" and k: "keys_ok mem t m"
    using assms by (simp_all add: table_inv_def)
  from seg_index.represents_find [OF this(1), of "base_at t" key] show ?thesis
    using keys_live [OF k] live_base_at by (auto simp: lookup_def split: option.split)
qed

lemma cached_lookup: "cached_ok t m key root \<Longrightarrow> segment_key key \<Longrightarrow> lookup t m key = Some root"
  by (auto simp: cached_ok_def lookup_def dest: segment_key_not_max)

subsection \<open>Lookups\<close>

theorem canonical_base_of_ok:
  assumes inv: "table_inv mem t m" and key: "segment_key key"
  shows "canonical_base_of key t = Some (lookup t m key)"
proof -
  have "own_cache t ! cache_index key \<in> set (own_cache t)" using inv by (simp add: table_inv_def)
  then have c: "cached_ok t m (fst (own_cache t ! cache_index key)) (snd (own_cache t ! cache_index key))"
    and l: "cached_ok t m (last_key t) (last_root t)" using inv by (simp_all add: table_inv_def)
  have "lookup t m key = Some (last_root t)" if "last_key t = key"
    using cached_lookup [OF l] key that by simp
  moreover have "lookup t m key = Some (snd (own_cache t ! cache_index key))"
    if "fst (own_cache t ! cache_index key) = key"
    using cached_lookup [OF c] key that by simp
  ultimately show ?thesis using index_find [OF inv, of key]
    by (auto simp: canonical_base_of_def Let_def split: prod.splits)
qed

text \<open>Updates of the caches with entries the map agrees with.\<close>

lemma table_inv_last:
  "table_inv mem t m \<Longrightarrow> cached_ok t m k r \<Longrightarrow> table_inv mem (t\<lparr>last_key := k, last_root := r\<rparr>) m"
  by (simp add: table_inv_def)

lemma table_inv_cache:
  assumes "table_inv mem t m" and "cached_ok t m k r"
  shows "table_inv mem (t\<lparr>own_cache := (own_cache t)[i := (k, r)]\<rparr>) m"
proof -
  have "cached_ok t m (fst e) (snd e)" if "e \<in> set ((own_cache t)[i := (k, r)])" for e
  proof -
    from that have "e = (k, r) \<or> e \<in> set (own_cache t)"
      using set_update_subset_insert [of "own_cache t" i "(k, r)"] by blast
    with assms show ?thesis by (auto simp: table_inv_def)
  qed
  with assms(1) show ?thesis by (simp add: table_inv_def)
qed

lemma lookup_cached: "lookup t m key = Some root \<Longrightarrow> cached_ok t m key root"
  by (auto simp: lookup_def cached_ok_def)

theorem canonical_base_of_mut_ok:
  assumes inv: "table_inv mem t m" and key: "segment_key key"
  shows "\<exists>t'. canonical_base_of_mut key t = Some (lookup t m key, t') \<and> table_inv mem t' m
    \<and> slots t' = slots t \<and> seg_count t' = seg_count t"
proof -
  obtain ck cr where e: "own_cache t ! cache_index key = (ck, cr)" by force
  have "own_cache t ! cache_index key \<in> set (own_cache t)" using inv by (simp add: table_inv_def)
  then have c: "cached_ok t m ck cr" and l: "cached_ok t m (last_key t) (last_root t)"
    using inv e by (auto simp: table_inv_def)
  consider (last) "last_key t = key" | (hit) "last_key t \<noteq> key" "ck = key"
    | (probe) "last_key t \<noteq> key" "ck \<noteq> key" by blast
  then show ?thesis
  proof cases
    case last
    then have "lookup t m key = Some (last_root t)" using cached_lookup [OF l] key by simp
    with last inv show ?thesis by (simp add: canonical_base_of_mut_def)
  next
    case hit
    then have "lookup t m key = Some cr" using cached_lookup [OF c] key by simp
    with hit inv table_inv_last [OF inv c] show ?thesis
      by (auto simp: canonical_base_of_mut_def Let_def e)
  next
    case probe
    show ?thesis
    proof (cases "lookup t m key")
      case None
      with probe inv index_find [OF inv, of key] show ?thesis
        by (simp add: canonical_base_of_mut_def Let_def e)
    next
      case (Some root)
      from table_inv_cache [OF inv lookup_cached [OF Some], of "cache_index key"]
        probe Some index_find [OF inv, of key] show ?thesis
        by (simp add: canonical_base_of_mut_def Let_def e)
    qed
  qed
qed

theorem probe_arm_ok:
  assumes inv: "table_inv mem t m" and key: "segment_key key"
  shows "\<exists>r t'. probe_arm key t = (r, t') \<and> table_inv mem t' m
    \<and> (r \<noteq> None \<longrightarrow> r = Some key \<and> lookup t m key = Some key \<and> memo t' = (key, key))"
proof -
  obtain ck cr where e: "own_cache t ! cache_index key = (ck, cr)" by force
  have "own_cache t ! cache_index key \<in> set (own_cache t)" using inv by (simp add: table_inv_def)
  then have c: "cached_ok t m ck cr" using inv e by (auto simp: table_inv_def)
  show ?thesis
  proof (cases "ck = key \<and> cr = key")
    case True
    then show ?thesis using table_inv_last [OF inv c] cached_lookup [OF c] key
      by (simp add: probe_arm_def Let_def e memo_def)
  next
    case False
    then show ?thesis using inv by (auto simp: probe_arm_def Let_def e)
  qed
qed

subsection \<open>Registration\<close>

lemma offsets_known: "k \<noteq> Unknown \<Longrightarrow> offsets k = Inr (k = Large)"
  by (cases k) simp_all

lemma lane_members:
  assumes "kinds_ok mem t"
  shows "ak_members l (active t) = {i \<in> live t. (kind (mem (slots t ! i)) = Large) = l}"
  using assms by (cases l) (auto simp: kinds_ok_def)

text \<open>A new segment at a slot that is not live, in a table whose other parts are already adjusted.\<close>

lemma index_slot_ok:
  assumes inv: "table_inv mem t m"
    and i: "i < 4096" "i \<notin> live t" and base: "base \<noteq> 0" "base \<notin> (\<lambda>j. slots t ! j) ` live t"
    and k: "kind (mem base) = k" "k \<noteq> Unknown"
    and key: "payload_key mem base = key" "m key = None"
    and t1: "slots t1 = (slots t)[i := base]" "seg_count t1 \<le> 4096" "live t1 = insert i (live t)"
      "free_ok t1" "active t1 = active t" "hash_slots t1 = hash_slots t" "own_cache t1 = own_cache t"
      "last_key t1 = last_key t" "last_root t1 = last_root t"
  shows "\<exists>t'. index_slot i key k t1 = Some (Inr (Some i, t')) \<and> table_inv mem t' (m(key \<mapsto> i))
    \<and> slots t' = slots t1 \<and> seg_count t' = seg_count t1"
proof -
  from inv have rep: "seg_index.represents (hash_slots t) m" and keys: "keys_ok mem t m"
    and kinds: "kinds_ok mem t" and len: "length (slots t) = 4096" by (simp_all add: table_inv_def)
  have old: "slots t1 ! j = slots t ! j" if "j \<in> live t" for j
    using that i(2) by (cases "j = i") (auto simp: t1(1))
  have new: "slots t1 ! i = base" using i(1) len by (simp add: t1(1))
  have "segment_key key" unfolding key(1) [symmetric] by simp
  moreover have "i < 2 ^ 22 - 1" using i(1) by simp
  moreover have "Suc (card (dom m)) < HASH_CAPACITY" using dom_card [OF inv] by (simp add: ring_eq)
  ultimately obtain h where h: "hash_insert_identity (hash_slots t) key i = Some h"
    "seg_index.represents h (m(key \<mapsto> i))"
    using seg_index.represents_insert [OF rep _ _ key(2)] by blast
  let ?l = "k = Large"
  have aki: "ak_inv (active t)" using kinds by (simp add: kinds_ok_def)
  have "i \<notin> ak_members ?l (active t) \<union> ak_members (\<not> ?l) (active t)"
    using i(2) lane_members [OF kinds] by blast
  then obtain a where a: "ak_set i k (active t) = Inr a" "ak_inv a"
    "ak_members ?l a = insert i (ak_members ?l (active t))"
    "ak_members (\<not> ?l) a = ak_members (\<not> ?l) (active t)"
    using ak_set_ok [OF aki offsets_known [OF k(2)], of i] i(1)
    by (cases "ak_set i k (active t)") auto
  let ?t = "t1\<lparr>hash_slots := h, active := a\<rparr>"
  have run: "index_slot i key k t1 = Some (Inr (Some i, ?t))"
    by (simp add: index_slot_def t1 h a)
  have live: "live ?t = insert i (live t)" using t1(3) by (simp add: live_def)
  have "keys_ok mem ?t (m(key \<mapsto> i))"
    unfolding keys_ok_def live
  proof (intro conjI allI ballI)
    fix key' i'
    show "(m(key \<mapsto> i)) key' = Some i' \<longleftrightarrow> i' \<in> insert i (live t) \<and> key' = payload_key mem (slots ?t ! i')"
    proof (cases "i' = i")
      case True
      have "m key' \<noteq> Some i" using keys_live [OF keys] i(2) by blast
      with True new key(1) show ?thesis by auto
    next
      case False
      have "m key' = Some i' \<longleftrightarrow> i' \<in> live t \<and> key' = payload_key mem (slots t ! i')"
        using keys by (simp add: keys_ok_def)
      with False old key(2) show ?thesis by auto
    qed
  next
    fix j j' assume j: "j \<in> insert i (live t)" "j' \<in> insert i (live t)"
    have nb: "slots t ! j \<noteq> base" if "j \<in> live t" for j using base(2) that by blast
    have inj: "\<forall>j \<in> live t. \<forall>j' \<in> live t. slots t ! j = slots t ! j' \<longrightarrow> j = j'"
      using keys by (simp add: keys_ok_def)
    show "slots ?t ! j = slots ?t ! j' \<longrightarrow> j = j'"
    proof (cases "j = i \<or> j' = i")
      case True
      have "slots ?t ! x = base \<longleftrightarrow> x = i" if "x \<in> insert i (live t)" for x
        using that old [of x] nb [of x] new by (cases "x = i") auto
      with True j show ?thesis by metis
    next
      case False
      with j have "j \<in> live t" "j' \<in> live t" by auto
      with inj old show ?thesis by simp
    qed
  qed
  moreover have "kinds_ok mem ?t"
  proof -
    have mem: "ak_members l a = {j \<in> insert i (live t). (kind (mem (slots t1 ! j)) = Large) = l}" for l
    proof -
      have "ak_members l (active t) = {j \<in> live t. (kind (mem (slots t1 ! j)) = Large) = l}" for l
        using lane_members [OF kinds, of l] old by auto
      then show ?thesis using a(3,4) new k(1) by (cases "l = ?l") auto
    qed
    have "\<forall>j \<in> insert i (live t). kind (mem (slots t1 ! j)) \<noteq> Unknown"
      using kinds old new k by (auto simp: kinds_ok_def)
    with mem a(2) show ?thesis unfolding kinds_ok_def live by auto
  qed
  moreover have "cached_ok ?t (m(key \<mapsto> i)) ck cr" if "cached_ok t m ck cr" for ck cr
    using that key(2) old keys_live [OF keys] by (fastforce simp: cached_ok_def)
  ultimately have "table_inv mem ?t (m(key \<mapsto> i))"
    using inv t1 h(2) by (auto simp: table_inv_def free_ok_def)
  with run show ?thesis by auto
qed

lemma free_ok_bounds:
  assumes "free_ok t"
  shows "length (free_list t) = 4096" "free_top t \<le> 4096" "distinct (take (free_top t) (free_list t))"
    "set (take (free_top t) (free_list t)) = {i. i < seg_count t \<and> slots t ! i = 0}"
  using assms unfolding free_ok_def by blast+

text \<open>Taking a slot off the free list, or the first slot beyond the count.\<close>

lemma take_pop:
  assumes "0 < n" "n \<le> length xs" "distinct (take n xs)"
  shows "distinct (take (n - 1) xs)" and "set (take (n - 1) xs) = set (take n xs) - {xs ! (n - 1)}"
    and "xs ! (n - 1) \<in> set (take n xs)"
proof -
  have e: "take n xs = take (n - 1) xs @ [xs ! (n - 1)]"
    using assms(1,2) take_Suc_conv_app_nth [of "n - 1" xs] by simp
  with assms(3) show "distinct (take (n - 1) xs)" "set (take (n - 1) xs) = set (take n xs) - {xs ! (n - 1)}"
    "xs ! (n - 1) \<in> set (take n xs)" by auto
qed

theorem register_payload_ok:
  assumes inv: "table_inv mem t m"
    and k: "k = Small \<or> k = Large" "kind (mem base) = k"
    and base: "base \<noteq> 0" "base \<notin> (\<lambda>j. slots t ! j) ` live t"
    and key: "payload_key mem base = segment_base_of payload" "m (segment_base_of payload) = None"
  shows "(live t = {..<4096} \<and> register_payload base k payload t = Some (Inr (None, t)))
    \<or> (\<exists>i t'. i = next_register_slot (free_top t \<noteq> 0) t \<and> i < 4096 \<and> i \<notin> live t
        \<and> live t' = insert i (live t) \<and> register_payload base k payload t = Some (Inr (Some i, t'))
        \<and> table_inv mem t' (m(segment_base_of payload \<mapsto> i)) \<and> slots t' = (slots t)[i := base])"
proof (cases "free_top t = 0")
  case False
  define i where "i = free_list t ! (free_top t - 1)"
  define t1 where "t1 = t\<lparr>free_top := free_top t - 1, slots := (slots t)[i := base]\<rparr>"
  from inv have free: "free_ok t" and len: "length (slots t) = 4096" "seg_count t \<le> 4096"
    by (simp_all add: table_inv_def)
  then have pop: "distinct (take (free_top t - 1) (free_list t))"
    "set (take (free_top t - 1) (free_list t)) = set (take (free_top t) (free_list t)) - {i}"
    "i \<in> set (take (free_top t) (free_list t))"
    using take_pop [of "free_top t" "free_list t"] False by (simp_all add: free_ok_def i_def)
  then have i: "i < seg_count t" "slots t ! i = 0" using free by (auto simp: free_ok_def)
  have fields: "slots t1 = (slots t)[i := base]" "seg_count t1 = seg_count t" "active t1 = active t" "hash_slots t1 = hash_slots t"
    "own_cache t1 = own_cache t" "last_key t1 = last_key t" "last_root t1 = last_root t"
    by (simp_all add: t1_def)
  have dead: "i \<notin> live t" "i < 4096" using i len(2) by (auto simp: live_def)
  have known: "k \<noteq> Unknown" using k(1) by auto
  have il: "i < length (slots t)" using i(1) len by simp
  have live1: "live t1 = insert i (live t)"
  proof (rule set_eqI)
    fix j
    show "j \<in> live t1 \<longleftrightarrow> j \<in> insert i (live t)"
      using il i(1) base(1) by (cases "j = i") (simp_all add: live_def fields(1,2))
  qed
  have free1: "free_ok t1"
  proof -
    have "{j. j < seg_count t \<and> (slots t)[i := base] ! j = 0} =
        {j. j < seg_count t \<and> slots t ! j = 0} - {i}"
    proof (rule set_eqI)
      fix j
      show "j \<in> {j. j < seg_count t \<and> (slots t)[i := base] ! j = 0} \<longleftrightarrow>
          j \<in> {j. j < seg_count t \<and> slots t ! j = 0} - {i}"
        using il base(1) by (cases "j = i") simp_all
    qed
    also have "\<dots> = set (take (free_top t - 1) (free_list t))"
      using free pop(2) by (simp add: free_ok_def)
    finally have e: "set (take (free_top t - 1) (free_list t)) =
        {j. j < seg_count t \<and> (slots t)[i := base] ! j = 0}" ..
    have "length (free_list t) = 4096" "free_top t \<le> 4096" using free_ok_bounds [OF free] by auto
    then have "length (free_list t) = 4096" "free_top t - 1 \<le> 4096" by linarith+
    with e pop(1) show ?thesis unfolding free_ok_def t1_def by simp
  qed
  from fields(2) len(2) have cnt: "seg_count t1 \<le> 4096" by simp
  from index_slot_ok [OF inv dead(2,1) base k(2) known key fields(1) cnt live1 free1 fields(3-7)]
  obtain t' where "index_slot i (segment_base_of payload) k t1 = Some (Inr (Some i, t'))"
    "table_inv mem t' (m(segment_base_of payload \<mapsto> i))" "slots t' = slots t1"
    "seg_count t' = seg_count t1" by blast
  moreover have "register_payload base k payload t = index_slot i (segment_base_of payload) k t1"
    using False k(1) by (auto simp: register_payload_def free_list_pop_def Let_def t1_def i_def)
  moreover have "live t' = insert i (live t)"
    using calculation(3,4) live1 by (simp add: live_def)
  ultimately show ?thesis using dead len False
    by (auto simp: t1_def next_register_slot_def i_def)
next
  case True
  let ?i = "seg_count t"
  define t1 where "t1 = t\<lparr>slots := (slots t)[?i := base], seg_count := ?i + 1\<rparr>"
  from inv have free: "free_ok t" and len: "length (slots t) = 4096" "?i \<le> 4096"
    by (simp_all add: table_inv_def)
  have all: "live t = {..<?i}" using free True by (auto simp: free_ok_def live_def)
  show ?thesis
  proof (cases "?i = 4096")
    case full: True
    then have "register_payload base k payload t = Some (Inr (None, t))"
      using True k(1) by (auto simp: register_payload_def Let_def)
    then show ?thesis using all full by simp
  next
    case False
    then have i: "?i < 4096" using len(2) by simp
    have fields: "slots t1 = (slots t)[?i := base]" "seg_count t1 = ?i + 1" "active t1 = active t" "hash_slots t1 = hash_slots t"
    "own_cache t1 = own_cache t" "last_key t1 = last_key t" "last_root t1 = last_root t"
      by (simp_all add: t1_def)
    have dead: "?i \<notin> live t" by (simp add: live_def)
    have known: "k \<noteq> Unknown" using k(1) by auto
    have live1: "live t1 = insert ?i (live t)"
      using base(1) len i unfolding all by (auto simp: live_def t1_def nth_list_update all_conj_distrib)
        (use all in \<open>auto simp: live_def\<close>)
    have free1: "free_ok t1"
    proof -
      have "{j. j < Suc ?i \<and> (slots t)[?i := base] ! j = 0} = {}"
        using all base(1) len i by (auto simp: live_def nth_list_update less_Suc_eq)
      then show ?thesis using free True by (simp add: free_ok_def t1_def)
    qed
    from fields(2) i have cnt: "seg_count t1 \<le> 4096" by simp
    from index_slot_ok [OF inv i dead base k(2) known key fields(1) cnt live1 free1 fields(3-7)]
    obtain t' where "index_slot ?i (segment_base_of payload) k t1 = Some (Inr (Some ?i, t'))"
      "table_inv mem t' (m(segment_base_of payload \<mapsto> ?i))" "slots t' = slots t1"
      "seg_count t' = seg_count t1" by blast
    moreover have "register_payload base k payload t = index_slot ?i (segment_base_of payload) k t1"
      using True False i k(1) by (auto simp: register_payload_def free_list_pop_def Let_def t1_def)
    moreover have "live t' = insert ?i (live t)"
      using calculation(3,4) live1 by (simp add: live_def)
    ultimately show ?thesis using i len dead True by (auto simp: t1_def next_register_slot_def)
  qed
qed

subsection \<open>Removal\<close>

lemma own_cache_clear_fields [simp]:
  "own_cache (own_cache_clear base t) =
     map (\<lambda>e. if snd e = base then (OWN_CACHE_EMPTY_KEY, 0) else e) (own_cache t)"
  "last_root (own_cache_clear base t) = (if last_root t = base then 0 else last_root t)"
  "last_key (own_cache_clear base t) = (if last_root t = base then LAST_EMPTY_KEY else last_key t)"
  "slots (own_cache_clear base t) = slots t" "seg_count (own_cache_clear base t) = seg_count t"
  "active (own_cache_clear base t) = active t" "hash_slots (own_cache_clear base t) = hash_slots t"
  "free_list (own_cache_clear base t) = free_list t" "free_top (own_cache_clear base t) = free_top t"
  by (simp_all add: own_cache_clear_def Let_def)

lemma free_count:
  assumes "free_ok t" "i \<in> live t" "i < 4096" "seg_count t \<le> 4096"
  shows "free_top t < 4096"
proof -
  have "card (set (take (free_top t) (free_list t))) = free_top t"
    using distinct_card [OF free_ok_bounds(3) [OF assms(1)]] free_ok_bounds(1,2) [OF assms(1)] by simp
  moreover have "set (take (free_top t) (free_list t)) \<subseteq> {..<4096} - {i}"
    unfolding free_ok_bounds(4) [OF assms(1)] using assms(2,4) by (auto simp: live_def)
  then have "card (set (take (free_top t) (free_list t))) \<le> card ({..<4096} - {i})"
    by (rule card_mono [rotated]) simp
  moreover have "card ({..<4096} - {i}) = 4095" using assms(3) by (simp add: card_Diff_singleton)
  ultimately show ?thesis by linarith
qed

lemma free_push:
  assumes free: "free_ok t" and i: "i \<in> live t" "i < 4096" "seg_count t \<le> 4096" "length (slots t) = 4096"
  shows "free_ok (t\<lparr>slots := (slots t)[i := 0], free_list := (free_list t)[free_top t := i],
    free_top := free_top t + 1\<rparr>)"
proof -
  note b = free_ok_bounds [OF free] and lt = free_count [OF free i(1-3)]
  have tk: "take (Suc (free_top t)) ((free_list t)[free_top t := i]) = take (free_top t) (free_list t) @ [i]"
    using b(1) lt by (simp add: take_Suc_conv_app_nth)
  have "i \<notin> set (take (free_top t) (free_list t))" using i(1) unfolding b(4) by (simp add: live_def)
  then have "distinct (take (Suc (free_top t)) ((free_list t)[free_top t := i]))"
    unfolding tk using b(3) by simp
  moreover have "set (take (Suc (free_top t)) ((free_list t)[free_top t := i])) =
      {j. j < seg_count t \<and> (slots t)[i := 0] ! j = 0}"
  proof (rule set_eqI)
    fix j
    have "j \<in> set (take (Suc (free_top t)) ((free_list t)[free_top t := i])) \<longleftrightarrow>
        j = i \<or> j < seg_count t \<and> slots t ! j = 0"
      unfolding tk using b(4) by simp
    then show "j \<in> set (take (Suc (free_top t)) ((free_list t)[free_top t := i])) \<longleftrightarrow>
        j \<in> {j. j < seg_count t \<and> (slots t)[i := 0] ! j = 0}"
      using i by (cases "j = i") (simp_all add: live_def)
  qed
  ultimately show ?thesis using b(1) lt unfolding free_ok_def by simp
qed

lemma drop_slot_ok:
  assumes inv: "table_inv mem t m" and i: "i \<in> live t" and base: "slots t ! i = base"
    and a: "ak_clear i (kind (mem base)) (active t) = Inr a"
    and h: "seg_index.represents h (m(payload_key mem base := None))"
    and t1: "slots t1 = (slots t)[i := 0]" "seg_count t1 = seg_count t" "active t1 = a" "hash_slots t1 = h"
      "free_list t1 = free_list t" "free_top t1 = free_top t"
      "own_cache t1 = map (\<lambda>e. if snd e = base then (OWN_CACHE_EMPTY_KEY, 0) else e) (own_cache t)"
      "last_key t1 = (if last_root t = base then LAST_EMPTY_KEY else last_key t)"
      "last_root t1 = (if last_root t = base then 0 else last_root t)"
  shows "\<exists>t'. free_list_push i t1 = Inr t' \<and> table_inv mem t' (m(payload_key mem base := None))
    \<and> live t' = live t - {i} \<and> (\<forall>j \<in> live t'. slots t' ! j = slots t ! j)"
proof -
  let ?key = "payload_key mem base" and ?m = "m(payload_key mem base := None)"
  let ?t' = "t1\<lparr>free_list := (free_list t1)[free_top t1 := i], free_top := free_top t1 + 1\<rparr>"
  from inv have free: "free_ok t" and keys: "keys_ok mem t m" and kinds: "kinds_ok mem t"
    and len: "length (slots t) = 4096" "seg_count t \<le> 4096" by (simp_all add: table_inv_def)
  have i4: "i < 4096" by (rule live_bound [OF inv i])
  have mi: "m ?key = Some i" using keys i base by (simp add: keys_ok_def)
  have "free_list_push i t1 = Inr ?t'"
    using free_count [OF free i i4 len(2)] by (simp add: free_list_push_def t1 FREE_LIST_CAPACITY_def)
  moreover
  have live: "live ?t' = live t - {i}"
  proof (rule set_eqI)
    fix j show "j \<in> live ?t' \<longleftrightarrow> j \<in> live t - {i}"
      using i4 len by (cases "j = i") (simp_all add: live_def t1)
  qed
  moreover have same: "\<forall>j \<in> live ?t'. slots ?t' ! j = slots t ! j"
    unfolding live by (simp add: t1)
  moreover have "table_inv mem ?t' ?m"
  proof -
    have "free_ok ?t'" using free_push [OF free i i4 len(2,1)] by (simp add: free_ok_def t1)
    moreover have "keys_ok mem ?t' ?m"
      unfolding keys_ok_def live
    proof (intro conjI allI ballI)
      fix key j
      have "m key = Some j \<longleftrightarrow> j \<in> live t \<and> key = payload_key mem (slots t ! j)"
        using keys by (simp add: keys_ok_def)
      then show "?m key = Some j \<longleftrightarrow> j \<in> live t - {i} \<and> key = payload_key mem (slots ?t' ! j)"
        using mi base by (cases "j = i") (auto simp: t1)
    next
      fix j j' assume "j \<in> live t - {i}" "j' \<in> live t - {i}"
      then show "slots ?t' ! j = slots ?t' ! j' \<longrightarrow> j = j'"
        using keys same unfolding live keys_ok_def by auto
    qed
    moreover have "kinds_ok mem ?t'"
    proof -
      let ?l = "kind (mem base) = Large"
      have "ak_inv (active t)" and ku: "kind (mem base) \<noteq> Unknown" using kinds i base by (auto simp: kinds_ok_def)
      from ak_clear_ok [OF this(1) offsets_known [OF ku], of i] a
      have ak: "ak_inv a" "ak_members ?l a = ak_members ?l (active t) - {i}"
        "ak_members (\<not> ?l) a = ak_members (\<not> ?l) (active t)" by simp_all
      have "ak_members l a = {j \<in> live t - {i}. (kind (mem (slots t ! j)) = Large) = l}" for l
        using ak(2,3) lane_members [OF kinds, of l] base by (cases "l = ?l") auto
      then have "ak_members l a = {j \<in> live ?t'. (kind (mem (slots ?t' ! j)) = Large) = l}" for l
        using same unfolding live by auto
      with kinds ak(1) same show ?thesis unfolding kinds_ok_def live by (auto simp: t1)
    qed
    moreover have c: "cached_ok ?t' ?m k r" if "cached_ok t m k r" "r \<noteq> base" for k r
      using that(1)
      unfolding cached_ok_def
    proof (elim disjE exE conjE)
      fix j assume j: "m k = Some j" "slots t ! j = r"
      then have "j \<noteq> i" "k \<noteq> ?key" using that(2) base mi by auto
      with j show "k = usize_max \<and> r = 0 \<or> (\<exists>i. ?m k = Some i \<and> slots ?t' ! i = r)"
        by (auto simp: t1)
    qed blast
    moreover have e: "cached_ok ?t' ?m usize_max 0" by (simp add: cached_ok_def)
    moreover have "\<forall>e \<in> set (own_cache ?t'). cached_ok ?t' ?m (fst e) (snd e)"
      using inv c e by (auto simp: table_inv_def t1 OWN_CACHE_EMPTY_KEY_def simp del: power_0_Suc)
    moreover have "cached_ok ?t' ?m (last_key ?t') (last_root ?t')"
      using inv c e by (simp add: table_inv_def t1 LAST_EMPTY_KEY_def)
    moreover have "length (slots ?t') = 4096" "seg_count ?t' \<le> 4096" "hash_slots ?t' = h"
      "length (own_cache ?t') = 16" using len inv by (simp_all add: t1 table_inv_def)
    ultimately show ?thesis using h unfolding table_inv_def by simp
  qed
  ultimately show ?thesis by blast
qed

theorem unregister_ok:
  assumes inv: "table_inv mem t m" and i: "segment_id (mem base) = i" "i \<noteq> 0" and base: "base \<noteq> 0"
  shows "if base_at t i = base
    then \<exists>t'. unregister mem base t = Some (Inr t') \<and> table_inv mem t' (m(payload_key mem base := None))
      \<and> live t' = live t - {i} \<and> (\<forall>j \<in> live t'. slots t' ! j = slots t ! j)
    else unregister mem base t = Some (Inr t)"
proof (cases "base_at t i = base")
  case True
  then have live: "i \<in> live t" "slots t ! i = base" using base
    by (auto simp: base_at_def live_def split: if_splits)
  from inv have rep: "seg_index.represents (hash_slots t) m" and kinds: "kinds_ok mem t"
    by (simp_all add: table_inv_def)
  from seg_index.represents_remove [OF rep, of "payload_key mem base"] obtain h where
    h: "hash_remove (hash_slots t) (payload_key mem base) = Some (Inr h)"
      "seg_index.represents h (m(payload_key mem base := None))" by blast
  have ku: "kind (mem base) \<noteq> Unknown" and aki: "ak_inv (active t)"
    using kinds live by (auto simp: kinds_ok_def)
  have "i \<in> ak_members (kind (mem base) = Large) (active t)"
    using lane_members [OF kinds] live by simp
  then obtain a where a: "ak_clear i (kind (mem base)) (active t) = Inr a"
    using ak_clear_ok [OF aki offsets_known [OF ku], of i] i(2) by (auto split: sum.splits)
  let ?t1 = "own_cache_clear base (t\<lparr>active := a, slots := (slots t)[i := 0], hash_slots := h\<rparr>)"
  have "unregister mem base t = Some (free_list_push i ?t1)"
    using True i(1) by (simp add: unregister_def Let_def a h)
  moreover from drop_slot_ok [OF inv live a h(2), of ?t1]
  obtain t' where "free_list_push i ?t1 = Inr t'" "table_inv mem t' (m(payload_key mem base := None))"
    "live t' = live t - {i}" "\<forall>j \<in> live t'. slots t' ! j = slots t ! j" by (auto cong: if_cong)
  ultimately show ?thesis using True by auto
next
  case False
  then show ?thesis using i(1) by (simp add: unregister_def Let_def)
qed

lemma release_segment_fields [simp]:
  "slots (release_segment r n t) = slots t" "seg_count (release_segment r n t) = seg_count t"
  "active (release_segment r n t) = active t" "hash_slots (release_segment r n t) = hash_slots t"
  "free_list (release_segment r n t) = free_list t" "free_top (release_segment r n t) = free_top t"
  "own_cache (release_segment r n t) = own_cache t" "last_key (release_segment r n t) = last_key t"
  "last_root (release_segment r n t) = last_root t"
  by (simp_all add: release_segment_def)

lemma find_slot:
  assumes "table_inv mem t m" and "i \<in> live t" and "slots t ! i = base"
  shows "recycle_slot mem base t = Some i"
proof -
  have only: "j = i" if "base_at t j = base" for j
  proof -
    have "j \<in> live t" "slots t ! j = base"
      using that live_base_at [OF assms(2)] assms(3) by (auto simp: base_at_def live_def split: if_splits)
    with assms show ?thesis by (auto simp: table_inv_def keys_ok_def)
  qed
  have here: "base_at t i = base" using live_base_at [OF assms(2)] assms(3) by simp
  have "find (\<lambda>i. base_at t i = base) [0..<seg_count t] = Some i"
  proof -
    have "i < seg_count t" using assms(2) by (simp add: live_def)
    moreover have "\<forall>d. 0 \<le> d \<and> d < i \<longrightarrow> base_at t d \<noteq> base" using only by blast
    ultimately show ?thesis unfolding find_upt_Some_iff using here by blast
  qed
  moreover have "segment_id (mem base) = i" if "base_at t (segment_id (mem base)) = base"
    by (rule only [OF that])
  ultimately show ?thesis unfolding recycle_slot_def by simp
qed

theorem recycle_ok:
  assumes inv: "table_inv mem t m" and base: "segment_key base" "base \<noteq> 0" "payload_key mem base = base"
    and not_primordial: "slots t ! 0 \<noteq> base"
  shows "if \<exists>i \<in> live t. slots t ! i = base
    then \<exists>t'. recycle mem base t = Some (Inr t') \<and> table_inv mem t' (m(base := None))
      \<and> live t' = {i \<in> live t. slots t ! i \<noteq> base} \<and> (\<forall>j \<in> live t'. slots t' ! j = slots t ! j)
      \<and> released t' = released t @ (if reservation (mem base) = 0 then []
          else [(reservation (mem base), reservation_len (mem base))])
    else recycle mem base t = Some (Inr (t\<lparr>unverified := unverified t + 1\<rparr>))"
proof (cases "\<exists>i \<in> live t. slots t ! i = base")
  case True
  then obtain i where i: "i \<in> live t" "slots t ! i = base" by blast
  from inv have rep: "seg_index.represents (hash_slots t) m" and kinds: "kinds_ok mem t"
    and keys: "keys_ok mem t m" by (simp_all add: table_inv_def)
  have "m base = Some i" using keys i base(3) by (simp add: keys_ok_def)
  then have found: "hash_find (base_at t) (hash_slots t) base = Some (Some base)"
    using index_find [OF inv, of base] i(2) by (simp add: lookup_def)
  from seg_index.represents_remove [OF rep, of base] obtain h where
    h: "hash_remove (hash_slots t) base = Some (Inr h)" "seg_index.represents h (m(base := None))" by blast
  have ku: "kind (mem base) \<noteq> Unknown" and aki: "ak_inv (active t)"
    using kinds i by (auto simp: kinds_ok_def)
  have "i \<in> ak_members (kind (mem base) = Large) (active t)" using lane_members [OF kinds] i by simp
  moreover have "i \<noteq> 0" using i(2) not_primordial by metis
  ultimately obtain a where a: "ak_clear i (kind (mem base)) (active t) = Inr a"
    using ak_clear_ok [OF aki offsets_known [OF ku], of i] by (auto split: sum.splits)
  let ?t2 = "release_segment (reservation (mem base)) (reservation_len (mem base))
    (own_cache_clear base (t\<lparr>active := a, hash_slots := h\<rparr>))"
  let ?t3 = "?t2\<lparr>slots := (slots ?t2)[i := 0]\<rparr>"
  have run: "recycle mem base t = Some (free_list_push i ?t3)"
    by (simp add: recycle_def found find_slot [OF inv i] a h Let_def)
  have h': "seg_index.represents h (m(payload_key mem base := None))" using h(2) base(3) by simp
  from drop_slot_ok [OF inv i a h', of ?t3] obtain t' where
    t': "free_list_push i ?t3 = Inr t'" "table_inv mem t' (m(base := None))"
    "live t' = live t - {i}" "\<forall>j \<in> live t'. slots t' ! j = slots t ! j"
    using base(3) by (auto cong: if_cong)
  have "released t' = released ?t3" using t'(1) by (auto simp: free_list_push_def split: if_splits)
  also have "\<dots> = released t @ (if reservation (mem base) = 0 then []
          else [(reservation (mem base), reservation_len (mem base))])"
    by (simp add: release_segment_def own_cache_clear_def Let_def)
  finally have rel: "released t' = released t @ (if reservation (mem base) = 0 then []
          else [(reservation (mem base), reservation_len (mem base))])" .
  have "live t - {i} = {j \<in> live t. slots t ! j \<noteq> base}"
    using keys i by (auto simp: keys_ok_def)
  with run t' rel True show ?thesis by auto
next
  case False
  have "recycle_slot mem base t = None"
  proof -
    have "base_at t j \<noteq> base" for j
      using False base(2) by (auto simp: base_at_def live_def not_le)
    then show ?thesis by (simp add: recycle_slot_def find_None_iff)
  qed
  with False show ?thesis using index_find [OF inv, of base]
    by (cases "lookup t m base") (simp_all add: recycle_def)
qed

subsection \<open>The primordial table\<close>

lemma segment_base_of_key:
  assumes "segment_key base"
  shows "segment_base_of base = base"
proof -
  have "usize_max - (SEGMENT - 1) = 2 ^ 64 - 2 ^ 22" by simp
  moreover have "base < 2 ^ 64" using assms by (simp add: segment_key_def)
  ultimately show ?thesis using and_high_mask [of base 64 22] assms
    by (simp add: segment_base_of_def segment_key_def)
qed

lemma probe_empty: "length s = ring \<Longrightarrow> s ! i = 0 \<Longrightarrow> probe_free s i = Some i"
  by (subst probe_free.simps) simp

theorem bootstrap_table_ok:
  assumes base: "segment_key base" "base \<noteq> 0"
    and hdr: "kind (mem base) = Primordial" "payload_offset (mem base) = 0"
  shows "\<exists>t. bootstrap_table base = Inr t \<and> table_inv mem t [base \<mapsto> 0] \<and> live t = {0}
    \<and> slots t ! 0 = base \<and> free_top t = 0 \<and> seg_count t = 1"
proof -
  obtain ak where ak: "init_in_place = Inr ak" "ak_inv ak" "ak_members False ak = {0}" "ak_members True ak = {}"
    using init_in_place_ok by blast
  let ?h = "(replicate HASH_CAPACITY 0)[hash_index base := base OR 1]"
  have z: "probe_free hash_empty (hash_index base) = Some (hash_index base)"
    by (rule probe_empty) (simp_all add: hash_empty_def)
  have ins: "hash_insert_identity hash_empty base 0 = Some ?h"
    unfolding hash_insert_identity_def z by (simp add: hash_empty_def)
  from seg_index.represents_insert [OF hash_empty_represents base(1), of 0] ins
  have rep: "seg_index.represents ?h [base \<mapsto> 0]" by (simp add: ring_eq)
  let ?t = "from_primordial ((replicate MAX_SEGMENTS 0)[0 := base]) 1 ?h (replicate FREE_LIST_CAPACITY 0) 0 ak"
  have run: "bootstrap_table base = Inr ?t" by (simp add: bootstrap_table_def ak(1))
  have key: "payload_key mem base = base" using hdr(2) segment_base_of_key [OF base(1)]
    by (simp add: payload_key_def)
  have sl: "slots ?t ! 0 = base" "seg_count ?t = 1" "length (slots ?t) = 4096"
    by (simp_all add: from_primordial_def)
  have live: "live ?t = {0}" using sl base(2) by (auto simp: live_def)
  have "free_ok ?t" using sl base(2)
    by (auto simp: free_ok_def from_primordial_def FREE_LIST_CAPACITY_def intro!: gr0I)
  moreover have "keys_ok mem ?t [base \<mapsto> 0]"
    unfolding keys_ok_def live using sl(1) key by auto
  moreover have "kinds_ok mem ?t"
    unfolding kinds_ok_def live using sl(1) hdr(1) ak(2-4) by (auto simp: from_primordial_def)
  moreover have "cached_ok ?t [base \<mapsto> 0] OWN_CACHE_EMPTY_KEY 0" "cached_ok ?t [base \<mapsto> 0] LAST_EMPTY_KEY 0"
    by (simp_all add: cached_ok_def OWN_CACHE_EMPTY_KEY_def LAST_EMPTY_KEY_def)
  ultimately have "table_inv mem ?t [base \<mapsto> 0]"
    using rep sl unfolding table_inv_def by (simp add: from_primordial_def OWN_CACHE_SIZE_def)
  with run live sl show ?thesis by (auto simp: from_primordial_def)
qed

theorem next_active_ok:
  assumes inv: "table_inv mem t m" and k: "offsets k = Inr l"
  shows "\<exists>r. next_active k start t = Inr r \<and> (case r of
      None \<Rightarrow> \<forall>j \<in> ak_members l (active t). j < start
    | Some i \<Rightarrow> i \<in> ak_members l (active t) \<and> start \<le> i
        \<and> (\<forall>j \<in> ak_members l (active t). start \<le> j \<longrightarrow> i \<le> j))"
proof -
  from inv have kinds: "kinds_ok mem t" by (simp add: table_inv_def)
  then have "ak_inv (active t)" by (simp add: kinds_ok_def)
  from ak_next_ok [OF this k, of start] obtain r where
    r: "ak_next k start (active t) = Inr r" and least: "case r of
      None \<Rightarrow> \<forall>j \<in> ak_members l (active t). j < start
    | Some i \<Rightarrow> i \<in> ak_members l (active t) \<and> start \<le> i
        \<and> (\<forall>j \<in> ak_members l (active t). start \<le> j \<longrightarrow> i \<le> j)" by blast
  have "next_active k start t = Inr r"
  proof (cases r)
    case (Some i)
    then have "i \<in> live t" using least lane_members [OF kinds, of l] by simp
    then show ?thesis using r Some by (simp add: next_active_def live_def)
  qed (simp add: next_active_def r)
  with least show ?thesis by blast
qed

interpretation active_walk: ordered_set
  "\<lambda>t. \<exists>mem m. table_inv mem t m" "\<lambda>t. ak_members False (active t)" 4096 "\<lambda>t start. next_active Small start t"
proof (unfold_locales, goal_cases)
  case (1 t)
  then show ?case using ak_members_bound by blast
next
  case (2 t start)
  then show ?case using next_active_ok [of _ t _ Small False start] by auto
qed

interpretation large_walk: ordered_set
  "\<lambda>t. \<exists>mem m. table_inv mem t m" "\<lambda>t. ak_members True (active t)" 4096 "\<lambda>t start. next_active Large start t"
proof (unfold_locales, goal_cases)
  case (1 t)
  then show ?case using ak_members_bound by blast
next
  case (2 t start)
  then show ?case using next_active_ok [of _ t _ Large True start] by auto
qed

lemma contains_member:
  assumes "offsets k = Inr l" and "i < 4096"
  shows "ak_contains i k a = Inr (i \<in> ak_members l a)"
proof -
  have "i mod 64 < 64" by simp
  from and_bit_zero [OF this] show ?thesis using assms
    by (simp add: ak_contains_def word_bit_def ak_members_def)
qed

lemma expected_members:
  assumes inv: "table_inv mem t m"
  shows "expected_kind mem (base_at t i) =
    Inr (i \<in> ak_members False (active t), i \<in> ak_members True (active t))"
proof -
  from inv have kinds: "kinds_ok mem t" by (simp add: table_inv_def)
  show ?thesis
  proof (cases "i \<in> live t")
    case True
    then have "base_at t i = slots t ! i" "slots t ! i \<noteq> 0" "kind (mem (slots t ! i)) \<noteq> Unknown"
      using kinds live_base_at by (auto simp: kinds_ok_def)
    with True lane_members [OF kinds] show ?thesis
      by (cases "kind (mem (slots t ! i))") (simp_all add: expected_kind_def)
  next
    case False
    then have "base_at t i = 0" by (auto simp: live_def base_at_def)
    with False lane_members [OF kinds] show ?thesis by (simp add: expected_kind_def)
  qed
qed

lemma census_scan_ok:
  assumes inv: "table_inv mem t m" and "\<forall>i \<in> set is. i < 4096"
  shows "census_scan mem t is (s, l, ex) = Inr
    (s + length (filter (\<lambda>i. i \<in> ak_members False (active t)) is),
     l + length (filter (\<lambda>i. i \<in> ak_members True (active t)) is), ex)"
  using assms(2)
proof (induction "is" arbitrary: s l)
  case (Cons i "is")
  then show ?case
    by (simp add: expected_members [OF inv] contains_member [of Small False] contains_member [of Large True])
qed simp

lemma count_members:
  assumes "S \<subseteq> {..<n}"
  shows "length (filter (\<lambda>i. i \<in> S) [0..<n]) = card S"
proof -
  have "length (filter (\<lambda>i. i \<in> S) [0..<n]) = card (set (filter (\<lambda>i. i \<in> S) [0..<n]))"
    by (rule distinct_card [symmetric]) simp
  also have "set (filter (\<lambda>i. i \<in> S) [0..<n]) = S" using assms by auto
  finally show ?thesis .
qed

theorem census_ok:
  assumes inv: "table_inv mem t m"
  shows "active_kind_census mem t = Some (Inr
    (card {i \<in> live t. kind (mem (slots t ! i)) \<noteq> Large},
     card {i \<in> live t. kind (mem (slots t ! i)) = Large}, True))"
proof -
  let ?S = "ak_members False (active t)" and ?L = "ak_members True (active t)"
  from inv have kinds: "kinds_ok mem t" by (simp add: table_inv_def)
  note b = ak_members_bound [of False "active t"] ak_members_bound [of True "active t"]
  have i: "\<exists>mem m. table_inv mem t m" using inv by blast
  have "sweep (\<lambda>start. next_active Small start t) 0 = Some (Inr (sorted_list_of_set ?S))"
    "sweep (\<lambda>start. next_active Large start t) 0 = Some (Inr (sorted_list_of_set ?L))"
    using active_walk.sweep_members [OF i, of 0] large_walk.sweep_members [OF i, of 0] by simp_all
  moreover have "census_scan mem t [0..<4096] (0, 0, True) = Inr (card ?S, card ?L, True)"
    using census_scan_ok [OF inv, of "[0..<4096]" 0 0 True] count_members [OF b(1)] count_members [OF b(2)]
    by simp
  ultimately have "active_kind_census mem t = Some (Inr (card ?S, card ?L, True))"
    by (simp add: active_kind_census_def)
  then show ?thesis using lane_members [OF kinds] by simp
qed

subsection \<open>A sample table\<close>

text \<open>The primordial segment at \<open>2 ^ 22\<close> and a small one at \<open>2 ^ 23\<close>, for the examples.\<close>

definition sample_mem :: "nat \<Rightarrow> segment_header" where
  "sample_mem b = (if b = 2 ^ 22 then (header_small 0 389120 b b)\<lparr>kind := Primordial\<rparr>
     else header_small 1 270336 b (2 ^ 22))"

lemma sample_keys:
  "segment_key (2 ^ 22)" "segment_key (2 ^ 23)" "segment_base_of (2 ^ 23) = 2 ^ 23"
  "payload_key sample_mem (2 ^ 22) = 2 ^ 22" "payload_key sample_mem (2 ^ 23) = 2 ^ 23"
proof -
  show k: "segment_key (2 ^ 22)" "segment_key (2 ^ 23)" by (simp_all add: segment_key_def)
  show "segment_base_of (2 ^ 23) = 2 ^ 23" using segment_base_of_key [OF k(2)] .
  show "payload_key sample_mem (2 ^ 22) = 2 ^ 22" "payload_key sample_mem (2 ^ 23) = 2 ^ 23"
    using segment_base_of_key [OF k(1)] segment_base_of_key [OF k(2)]
    by (simp_all add: payload_key_def sample_mem_def header_small_def)
qed

lemma sample_primordial:
  "\<exists>t. bootstrap_table (2 ^ 22) = Inr t \<and> table_inv sample_mem t [2 ^ 22 \<mapsto> 0] \<and> live t = {0}
    \<and> slots t ! 0 = 2 ^ 22 \<and> free_top t = 0 \<and> seg_count t = 1"
  by (rule bootstrap_table_ok) (use sample_keys in \<open>simp_all add: sample_mem_def header_small_def\<close>)

lemma sample_two:
  "\<exists>t. table_inv sample_mem t [2 ^ 22 \<mapsto> 0, 2 ^ 23 \<mapsto> 1] \<and> live t = {0, 1}
    \<and> slots t ! 0 = 2 ^ 22 \<and> slots t ! 1 = 2 ^ 23"
proof -
  from sample_primordial obtain t where t: "table_inv sample_mem t [2 ^ 22 \<mapsto> 0]" "live t = {0}"
    "slots t ! 0 = 2 ^ 22" "free_top t = 0" "seg_count t = 1" by blast
  have one: "(1 :: nat) \<in> {..<4096}" unfolding lessThan_iff by simp
  have "1 \<notin> live t" unfolding t(2) by simp
  with one have full: "live t \<noteq> {..<4096}" by blast
  have k: "kind (sample_mem (2 ^ 23)) = Small" by (simp add: sample_mem_def header_small_def)
  have fresh: "(2 ^ 23 :: nat) \<notin> (\<lambda>j. slots t ! j) ` live t" using t(2,3) by simp
  have key: "payload_key sample_mem (2 ^ 23) = segment_base_of (2 ^ 23)"
    by (simp only: sample_keys)
  have absent: "[2 ^ 22 \<mapsto> 0] (segment_base_of (2 ^ 23)) = (None :: nat option)"
    unfolding sample_keys by simp
  have nz: "(2 ^ 23 :: nat) \<noteq> 0" by simp
  from register_payload_ok [OF t(1) disjI1 [OF refl] k nz fresh key absent] full obtain i t' where
    i: "i = next_register_slot (free_top t \<noteq> 0) t" and t': "live t' = insert i (live t)"
      "table_inv sample_mem t' ([2 ^ 22 \<mapsto> 0](segment_base_of (2 ^ 23) \<mapsto> i))"
      "slots t' = (slots t)[i := 2 ^ 23]"
    by blast
  have "i = 1" using i t(4,5) by (simp add: next_register_slot_def)
  moreover have "length (slots t) = 4096" using t(1) by (simp add: table_inv_def)
  ultimately show ?thesis using t' t(2,3) unfolding sample_keys
    by (intro exI [of _ t']) auto
qed

subsection \<open>Properties\<close>

text \<open>The table that bootstrap writes by hand, with the primordial entry placed directly in its
  home slot, satisfies the invariant that every later operation relies on.\<close>

theorem bootstrap_establishes_table:
  assumes "segment_key base" and "base \<noteq> 0"
    and "kind (mem base) = Primordial" and "payload_offset (mem base) = 0"
  shows "\<exists>t. bootstrap_table base = Inr t \<and> table_inv mem t [base \<mapsto> 0] \<and> live t = {0}"
  using bootstrap_table_ok [where base = base and mem = mem] assms by blast

lemma bootstrap_establishes_table_witness:
  "\<exists>t. bootstrap_table (2 ^ 22) = Inr t \<and> live t = {0}"
proof -
  have "kind (sample_mem (2 ^ 22)) = Primordial" "payload_offset (sample_mem (2 ^ 22)) = 0"
    "(2 ^ 22 :: nat) \<noteq> 0" by (simp_all add: sample_mem_def header_small_def)
  then show ?thesis
    using bootstrap_establishes_table [where base = "2 ^ 22" and mem = sample_mem] sample_keys(1) by blast
qed

text \<open>A segment lookup answers exactly the registered segment of the address, whether the memo, the
  direct-mapped cache or the hash index supplies it; the read-only and the caching lookup
  agree, and filling the caches keeps the table's invariant.\<close>

theorem lookup_exact:
  assumes "table_inv mem t m" and "segment_key key"
  shows "canonical_base_of key t = Some (lookup t m key)
    \<and> (\<exists>t'. canonical_base_of_mut key t = Some (lookup t m key, t') \<and> table_inv mem t' m
        \<and> canonical_base_of key t' = Some (lookup t m key))"
proof -
  obtain t' where t': "canonical_base_of_mut key t = Some (lookup t m key, t')" "table_inv mem t' m"
    "slots t' = slots t" using canonical_base_of_mut_ok [OF assms] by blast
  then show ?thesis using canonical_base_of_ok [OF assms] canonical_base_of_ok [OF t'(2) assms(2)]
    by (simp add: lookup_def)
qed

lemma lookup_exact_witness:
  "\<exists>t. canonical_base_of (2 ^ 23) t = Some (Some (2 ^ 23))"
proof -
  obtain t where t: "table_inv sample_mem t [2 ^ 22 \<mapsto> 0, 2 ^ 23 \<mapsto> 1]" "slots t ! 1 = 2 ^ 23"
    using sample_two by blast
  have "lookup t [2 ^ 22 \<mapsto> 0, 2 ^ 23 \<mapsto> 1] (2 ^ 23) = Some (2 ^ 23)" using t(2) by (simp add: lookup_def)
  then show ?thesis using lookup_exact [OF t(1) sample_keys(2)] by auto
qed

text \<open>C18: registering a segment whose payload address is not indexed yet fails exactly when all 4096
  slots are live, leaving the table as it was; otherwise it takes the slot announced
  beforehand, which was not live, and extends the table by exactly that segment.\<close>

theorem register_exact:
  assumes "table_inv mem t m" and "k = Small \<or> k = Large" and "kind (mem base) = k"
    and "base \<noteq> 0" and "base \<notin> (\<lambda>j. slots t ! j) ` live t"
    and "payload_key mem base = segment_base_of payload" and "m (segment_base_of payload) = None"
  shows "(live t = {..<4096} \<and> register_payload base k payload t = Some (Inr (None, t)))
    \<or> (\<exists>i t'. i = next_register_slot (free_top t \<noteq> 0) t \<and> i < 4096 \<and> i \<notin> live t
        \<and> live t' = insert i (live t) \<and> register_payload base k payload t = Some (Inr (Some i, t'))
        \<and> table_inv mem t' (m(segment_base_of payload \<mapsto> i)) \<and> slots t' = (slots t)[i := base])"
  by (rule register_payload_ok [OF assms])

lemma register_exact_witness:
  "\<exists>t. (live t = {..<4096} \<and> register_payload (2 ^ 23) Small (2 ^ 23) t = Some (Inr (None, t)))
    \<or> (\<exists>i t'. i \<notin> live t \<and> register_payload (2 ^ 23) Small (2 ^ 23) t = Some (Inr (Some i, t')))"
proof -
  obtain t where t: "table_inv sample_mem t [2 ^ 22 \<mapsto> 0]" "live t = {0}" "slots t ! 0 = 2 ^ 22"
    using sample_primordial by blast
  have k: "kind (sample_mem (2 ^ 23)) = Small" by (simp add: sample_mem_def header_small_def)
  have fresh: "(2 ^ 23 :: nat) \<notin> (\<lambda>j. slots t ! j) ` live t" using t(2,3) by simp
  have key: "payload_key sample_mem (2 ^ 23) = segment_base_of (2 ^ 23)" by (simp only: sample_keys)
  have absent: "[2 ^ 22 \<mapsto> 0] (segment_base_of (2 ^ 23)) = (None :: nat option)"
    unfolding sample_keys by simp
  have nz: "(2 ^ 23 :: nat) \<noteq> 0" by simp
  from register_exact [OF t(1) disjI1 [OF refl] k nz fresh key absent] show ?thesis by blast
qed

text \<open>C19: unregistering a segment removes it everywhere: the slot is free for reuse, the index of its
  kind and the hash no longer hold it, and no cache still answers for its address; a base
  the table does not hold at the slot its header names changes nothing.\<close>

theorem unregister_exact:
  assumes "table_inv mem t m" and "segment_id (mem base) = i" and "i \<noteq> 0" and "base \<noteq> 0"
  shows "if base_at t i = base
    then \<exists>t'. unregister mem base t = Some (Inr t') \<and> table_inv mem t' (m(payload_key mem base := None))
      \<and> live t' = live t - {i} \<and> canonical_base_of (payload_key mem base) t' = Some None
    else unregister mem base t = Some (Inr t)"
proof (cases "base_at t i = base")
  case True
  then obtain t' where t': "unregister mem base t = Some (Inr t')"
    "table_inv mem t' (m(payload_key mem base := None))" "live t' = live t - {i}"
    using unregister_ok [OF assms] by auto
  have "canonical_base_of (payload_key mem base) t' = Some None"
    using canonical_base_of_ok [OF t'(2), of "payload_key mem base"] by (simp add: lookup_def)
  with True t' show ?thesis by simp
next
  case False
  then show ?thesis using unregister_ok [OF assms] by simp
qed

lemma unregister_exact_witness:
  "\<exists>t t'. live t = {0, 1} \<and> unregister sample_mem (2 ^ 23) t = Some (Inr t') \<and> live t' = {0}
    \<and> canonical_base_of (2 ^ 23) t' = Some None"
proof -
  obtain t where t: "table_inv sample_mem t [2 ^ 22 \<mapsto> 0, 2 ^ 23 \<mapsto> 1]" "live t = {0, 1}"
    "slots t ! 1 = 2 ^ 23" using sample_two by blast
  have hid: "segment_id (sample_mem (2 ^ 23)) = 1" by (simp add: sample_mem_def header_small_def)
  have "1 \<in> live t" using t(2) by simp
  then have b: "base_at t 1 = 2 ^ 23" using live_base_at [of 1 t] t(3) by simp
  have nz: "(2 ^ 23 :: nat) \<noteq> 0" "(1 :: nat) \<noteq> 0" by simp_all
  from unregister_exact [OF t(1) hid nz(2,1), unfolded if_P [OF b]] obtain t' where
    t': "unregister sample_mem (2 ^ 23) t = Some (Inr t')" "live t' = live t - {1}"
    "canonical_base_of (payload_key sample_mem (2 ^ 23)) t' = Some None" by blast
  have "live t' = {0}" unfolding t'(2) t(2) by auto
  then show ?thesis using t(2) t'(1) t'(3) [unfolded sample_keys] by blast
qed

text \<open>Recycling a segment releases its reservation to the operating system exactly once and only
  when the table holds the segment; the entry disappears from the slot array, the hash, the
  kind index and the caches, and an unknown base only counts as unverified.\<close>

theorem recycle_exact:
  assumes "table_inv mem t m" and "segment_key base" and "base \<noteq> 0" and "payload_key mem base = base"
    and "slots t ! 0 \<noteq> base"
  shows "if \<exists>i \<in> live t. slots t ! i = base
    then \<exists>t'. recycle mem base t = Some (Inr t') \<and> table_inv mem t' (m(base := None))
      \<and> live t' = {i \<in> live t. slots t ! i \<noteq> base} \<and> (\<forall>j \<in> live t'. slots t' ! j = slots t ! j)
      \<and> released t' = released t @ (if reservation (mem base) = 0 then []
          else [(reservation (mem base), reservation_len (mem base))])
    else recycle mem base t = Some (Inr (t\<lparr>unverified := unverified t + 1\<rparr>))"
  by (rule recycle_ok [OF assms])

lemma recycle_exact_witness:
  "\<exists>t t'. live t = {0, 1} \<and> recycle sample_mem (2 ^ 23) t = Some (Inr t')
    \<and> released t' = released t @ [(2 ^ 23, 2 ^ 22)]"
proof -
  obtain t where t: "table_inv sample_mem t [2 ^ 22 \<mapsto> 0, 2 ^ 23 \<mapsto> 1]" "live t = {0, 1}"
    "slots t ! 0 = 2 ^ 22" "slots t ! 1 = 2 ^ 23" using sample_two by blast
  have nz: "(2 ^ 23 :: nat) \<noteq> 0" and np: "slots t ! 0 \<noteq> 2 ^ 23" using t(3) by simp_all
  have ex: "\<exists>i \<in> live t. slots t ! i = 2 ^ 23" using t(2,4) by blast
  have "reservation (sample_mem (2 ^ 23)) = 2 ^ 23" "reservation_len (sample_mem (2 ^ 23)) = 2 ^ 22"
    by (simp_all add: sample_mem_def header_small_def)
  with recycle_exact [OF t(1) sample_keys(2) nz sample_keys(5) np, unfolded if_P [OF ex]] nz t(2)
  show ?thesis by auto
qed

text \<open>the census, which compares the kind index with the headers of all slots and with two walks of
  the index, terminates and reports the exact numbers of small and large segments and full
  agreement.\<close>

theorem census_exact:
  assumes "table_inv mem t m"
  shows "active_kind_census mem t = Some (Inr
    (card {i \<in> live t. kind (mem (slots t ! i)) \<noteq> Large},
     card {i \<in> live t. kind (mem (slots t ! i)) = Large}, True))"
  by (rule census_ok [OF assms])

lemma census_exact_witness:
  "\<exists>t. bootstrap_table (2 ^ 22) = Inr t \<and> active_kind_census sample_mem t = Some (Inr (1, 0, True))"
proof -
  obtain t where t: "bootstrap_table (2 ^ 22) = Inr t" "table_inv sample_mem t [2 ^ 22 \<mapsto> 0]" "live t = {0}"
    "slots t ! 0 = 2 ^ 22" using sample_primordial by blast
  have "kind (sample_mem (slots t ! 0)) = Primordial" unfolding t(4) by (simp add: sample_mem_def)
  then have s: "{i \<in> live t. kind (sample_mem (slots t ! i)) \<noteq> Large} = {0}"
    and l: "{i \<in> live t. kind (sample_mem (slots t ! i)) = Large} = {}" unfolding t(3) by auto
  have "active_kind_census sample_mem t = Some (Inr (1, 0, True))"
    using census_exact [OF t(2)] unfolding s l by simp
  then show ?thesis using t(1) by blast
qed

end
