(* ===== verification/Results.thy ===== *)
theory Results
  imports Prelude
begin

text \<open>
  Sequencing of operations that may fail.  A left value is an abort (\<open>fatal\<close>, a failed
  assertion or an overflow check); where the operation contains a loop that is not known to
  end, the result is an option over it and \<open>None\<close> is a loop that does not end.
\<close>

primrec rbind :: "'e + 'a \<Rightarrow> ('a \<Rightarrow> 'e + 'b) \<Rightarrow> 'e + 'b" where
  "rbind (Inl e) f = Inl e"
| "rbind (Inr x) f = f x"

lemma rbind_Inr_iff: "rbind r f = Inr y \<longleftrightarrow> (\<exists>x. r = Inr x \<and> f x = Inr y)"
  by (cases r) auto

lemma rbind_cong [fundef_cong]:
  "r = r' \<Longrightarrow> (\<And>x. r' = Inr x \<Longrightarrow> f x = g x) \<Longrightarrow> rbind r f = rbind r' g"
  by (cases r') auto

type_synonym ('e, 'a) run = "('e + 'a) option"

definition ret :: "'a \<Rightarrow> ('e, 'a) run" where "ret x = Some (Inr x)"

definition abort :: "'e \<Rightarrow> ('e, 'a) run" where "abort e = Some (Inl e)"

definition tbind :: "('e, 'a) run \<Rightarrow> ('a \<Rightarrow> ('e, 'b) run) \<Rightarrow> ('e, 'b) run" where
  "tbind r f = (case r of None \<Rightarrow> None | Some (Inl e) \<Rightarrow> Some (Inl e) | Some (Inr x) \<Rightarrow> f x)"

lemma tbind_ret [simp]: "tbind (ret x) f = f x"
  by (simp add: tbind_def ret_def)

lemma tbind_Some [simp]: "tbind (Some (Inr x)) f = f x"
  by (simp add: tbind_def)

lemma tbind_abort [simp]: "tbind (abort e) f = abort e"
  by (simp add: tbind_def abort_def)

lemma ret_inject [simp]: "ret x = ret y \<longleftrightarrow> x = y"
  by (simp add: ret_def)

lemma tbind_cong [fundef_cong]:
  "r = r' \<Longrightarrow> (\<And>x. r' = Some (Inr x) \<Longrightarrow> f x = g x) \<Longrightarrow> tbind r f = tbind r' g"
  by (auto simp: tbind_def split: option.split sum.split)

end
