(* ===== verification/SmallPool.thy ===== *)
theory SmallPool
  imports SegmentTable Results
begin

text \<open>
  The pool of empty small segments
  (\<open>src/alloc_core/small/alloc_core_small_pool/alloc_core_small_pool_impl.rs\<close>,
  \<open>decommit.rs\<close>) with the per-class discovery cursors
  (\<open>alloc_core_small/find_segment/class_cursor.rs\<close>): segments that emptied are kept, up to
  a cap, on a doubly linked list threaded through their headers, the most recent one at the
  head; the rest are recycled in the segment table.  The build has no segment directory and no
  \<open>alloc-global\<close>; debug assertions and overflow checks are on.
\<close>

definition CLASS_CURSOR_NONE :: nat where "CLASS_CURSOR_NONE = 2 ^ 16 - 1"

text \<open>
  The fields of \<open>AllocCore\<close> the pool uses.  \<open>seg_mem\<close> holds the header at each base,
  \<open>bin_heads\<close> the head of each class's free list of the segment at a base.
\<close>

record small_pool =
  pool_head :: nat
  pool_tail :: nat
  pooled_count :: nat
  pool_cap :: nat
  last_pool_decay_tick :: "nat option"
  pool_decay_interval :: nat
  small_cur :: nat
  small_class_cursor :: "nat list"
  seg_mem :: "nat \<Rightarrow> segment_header"
  bin_heads :: "nat \<Rightarrow> nat \<Rightarrow> nat"
  seg_table :: segment_table
  decommit_calls :: nat

type_synonym 'a pool_run = "(fatal, 'a) run"

definition on_header :: "nat \<Rightarrow> (segment_header \<Rightarrow> segment_header) \<Rightarrow> small_pool \<Rightarrow> small_pool" where
  "on_header base f s = s\<lparr>seg_mem := (seg_mem s)(base := f (seg_mem s base))\<rparr>"

definition set_pool_next :: "nat \<Rightarrow> nat \<Rightarrow> small_pool \<Rightarrow> small_pool" where
  "set_pool_next base v = on_header base (\<lambda>h. h\<lparr>pool_next := v\<rparr>)"

definition set_pool_prev :: "nat \<Rightarrow> nat \<Rightarrow> small_pool \<Rightarrow> small_pool" where
  "set_pool_prev base v = on_header base (\<lambda>h. h\<lparr>pool_prev := v\<rparr>)"

subsection \<open>The list\<close>

definition pool_push_front :: "nat \<Rightarrow> small_pool \<Rightarrow> small_pool pool_run" where
  "pool_push_front base s =
     (let s1 = set_pool_prev base 0 s;
          s2 = set_pool_next base (pool_head s1) s1;
          s3 = (if pool_head s2 = 0 then s2\<lparr>pool_tail := base\<rparr> else set_pool_prev (pool_head s2) base s2);
          s4 = s3\<lparr>pool_head := base\<rparr>
      in if 2 ^ 32 - 1 \<le> pooled_count s4 then abort ''attempt to add with overflow''
         else ret (s4\<lparr>pooled_count := pooled_count s4 + 1\<rparr>))"

definition pool_unlink :: "nat \<Rightarrow> small_pool \<Rightarrow> small_pool pool_run" where
  "pool_unlink base s =
     (let prv = pool_prev (seg_mem s base); nxt = pool_next (seg_mem s base);
          s1 = (if prv = 0 then s\<lparr>pool_head := nxt\<rparr> else set_pool_next prv nxt s);
          s2 = (if nxt = 0 then s1\<lparr>pool_tail := prv\<rparr> else set_pool_prev nxt prv s1);
          s3 = set_pool_prev base 0 (set_pool_next base 0 s2)
      in if pooled_count s3 = 0 then abort ''attempt to subtract with overflow''
         else ret (s3\<lparr>pooled_count := pooled_count s3 - 1\<rparr>))"

definition is_pooled :: "nat \<Rightarrow> small_pool \<Rightarrow> bool" where
  "is_pooled base s \<longleftrightarrow> pool_head s = base \<or> pool_prev (seg_mem s base) \<noteq> 0"

definition pop_pooled_segment :: "small_pool \<Rightarrow> (nat option \<times> small_pool) pool_run" where
  "pop_pooled_segment s =
     (if pool_head s = 0
      then if pooled_count s \<noteq> 0 then abort ''head null but pooled_count != 0'' else ret (None, s)
      else let base = pool_head s in tbind (pool_unlink base s) (\<lambda>s'. ret (Some base, s')))"

definition unpool_if_present :: "nat \<Rightarrow> small_pool \<Rightarrow> small_pool pool_run" where
  "unpool_if_present base s = (if is_pooled base s then pool_unlink base s else ret s)"

subsection \<open>Class cursors\<close>

definition live_small_slot_at :: "nat \<Rightarrow> nat \<Rightarrow> small_pool \<Rightarrow> bool" where
  "live_small_slot_at base slot s \<longleftrightarrow> base \<noteq> 0 \<and> kind (seg_mem s base) \<in> {Small, Primordial}
     \<and> segment_id (seg_mem s base) = slot"

definition class_cursor_scan_start :: "nat \<Rightarrow> nat \<Rightarrow> small_pool \<Rightarrow> nat option" where
  "class_cursor_scan_start class_idx n s =
     (let slot = small_class_cursor s ! class_idx in
      if slot = CLASS_CURSOR_NONE then None else if slot < n then Some (slot + 1) else None)"

definition record_class_cursor :: "nat \<Rightarrow> nat \<Rightarrow> small_pool \<Rightarrow> small_pool pool_run" where
  "record_class_cursor class_idx base s =
     (if base = small_cur s then ret s
      else
        let slot = segment_id (seg_mem s base) in
        if \<not> slot < CLASS_CURSOR_NONE then abort ''assertion failed: slot < CLASS_CURSOR_NONE''
        else ret (s\<lparr>small_class_cursor := (small_class_cursor s)[class_idx := slot]\<rparr>))"

definition invalidate_class_cursor_for_slot :: "nat \<Rightarrow> small_pool \<Rightarrow> small_pool" where
  "invalidate_class_cursor_for_slot slot s =
     s\<lparr>small_class_cursor :=
       map (\<lambda>cursor. if cursor = slot then CLASS_CURSOR_NONE else cursor) (small_class_cursor s)\<rparr>"

definition invalidate_all_class_cursors :: "small_pool \<Rightarrow> small_pool" where
  "invalidate_all_class_cursors s =
     s\<lparr>small_class_cursor := map (\<lambda>_. CLASS_CURSOR_NONE) (small_class_cursor s)\<rparr>"

definition cursor_probe_base :: "nat \<Rightarrow> small_pool \<Rightarrow> (nat option \<times> small_pool) pool_run" where
  "cursor_probe_base class_idx s =
     (let slot = small_class_cursor s ! class_idx in
      if slot = CLASS_CURSOR_NONE then ret (None, s)
      else
        let base = base_at (seg_table s) slot in
        if base = small_cur s \<or> \<not> live_small_slot_at base slot s
        then ret (None, s\<lparr>small_class_cursor := (small_class_cursor s)[class_idx := CLASS_CURSOR_NONE]\<rparr>)
        else if bin_heads s base class_idx = FREE_LIST_NULL then ret (None, s)
        else tbind (unpool_if_present base s) (\<lambda>s'. ret (Some base, s')))"

subsection \<open>Release or retain\<close>

definition dec_live_and_maybe_decommit :: "nat \<Rightarrow> small_pool \<Rightarrow> bool" where
  "dec_live_and_maybe_decommit base s =
     (let h = seg_mem s base in
      if live_count h \<noteq> 0 \<or> base = small_cur s \<or> is_decommitted h then False
      else if kind h \<noteq> Small then False
      else True)"

definition dec_live_batch_and_maybe_decommit :: "nat \<Rightarrow> nat \<Rightarrow> small_pool \<Rightarrow> bool" where
  "dec_live_batch_and_maybe_decommit base k s =
     (if k = 0 then False
      else
        let h = seg_mem s base in
        if live_count h \<noteq> 0 \<or> base = small_cur s \<or> is_decommitted h then False
        else if kind h \<noteq> Small then False
        else True)"

text \<open>The leg of \<open>decommit_empty_segment_impl\<close> taken when a release follows.\<close>

definition decommit_empty_segment_for_release :: "nat \<Rightarrow> small_pool \<Rightarrow> small_pool" where
  "decommit_empty_segment_for_release base s =
     on_header base (\<lambda>h. set_decommitted True (h\<lparr>bump := small_meta_end\<rparr>))
       (s\<lparr>decommit_calls := decommit_calls s + 1\<rparr>)"

definition release_empty_segment_now :: "nat \<Rightarrow> small_pool \<Rightarrow> small_pool" where
  "release_empty_segment_now base s = decommit_empty_segment_for_release base s"

text \<open>The end of every release: reset the header, drop the cursors of the slot, recycle.\<close>

definition release_and_recycle :: "nat \<Rightarrow> small_pool \<Rightarrow> small_pool pool_run" where
  "release_and_recycle base s =
     (let s1 = release_empty_segment_now base s;
          cursor_slot = segment_id (seg_mem s1 base);
          s2 = invalidate_class_cursor_for_slot cursor_slot s1
      in tbind (recycle (seg_mem s2) base (seg_table s2)) (\<lambda>t. ret (s2\<lparr>seg_table := t\<rparr>)))"

definition release_or_pool_empty_segment :: "nat \<Rightarrow> small_pool \<Rightarrow> (bool \<times> small_pool) pool_run" where
  "release_or_pool_empty_segment base s =
     (if is_pooled base s then abort ''double-pool of an already-pooled segment''
      else if pooled_count s < pool_cap s
      then tbind (pool_push_front base s) (\<lambda>s'. ret (True, s'))
      else tbind (release_and_recycle base s) (\<lambda>s'. ret (False, s')))"

definition finalize_old_cursor_if_orphaned :: "nat \<Rightarrow> small_pool \<Rightarrow> small_pool pool_run" where
  "finalize_old_cursor_if_orphaned old_cur s =
     (let h = seg_mem s old_cur in
      if live_count h \<noteq> 0 \<or> is_decommitted h then ret s
      else if kind h \<noteq> Small then ret s
      else if is_pooled old_cur s then ret s
      else tbind (release_or_pool_empty_segment old_cur s) (\<lambda>(_, s'). ret s'))"

text \<open>The clock reading \<open>now\<close> is an argument.\<close>

definition maybe_decay_small_pool :: "nat \<Rightarrow> small_pool \<Rightarrow> small_pool pool_run" where
  "maybe_decay_small_pool now s =
     (if pooled_count s = 0 then ret s
      else case last_pool_decay_tick s of
          None \<Rightarrow> ret (s\<lparr>last_pool_decay_tick := Some now\<rparr>)
        | Some t \<Rightarrow>
            if now - t < pool_decay_interval s then ret s
            else
              let s1 = s\<lparr>last_pool_decay_tick := Some now\<rparr>; base = pool_tail s1 in
              if base = 0 then abort ''pooled_count > 0 but pool_tail is null''
              else tbind (pool_unlink base s1) (release_and_recycle base))"

lemma pop_pooled_count:
  "pop_pooled_segment s = Some (Inr (Some base, s')) \<Longrightarrow> pooled_count s' < pooled_count s"
  by (auto simp: pop_pooled_segment_def pool_unlink_def Let_def tbind_def ret_def abort_def
      set_pool_next_def set_pool_prev_def on_header_def split: if_splits option.splits sum.splits)

lemma release_and_recycle_count:
  "release_and_recycle base s = Some (Inr s') \<Longrightarrow> pooled_count s' = pooled_count s"
  by (auto simp: release_and_recycle_def release_empty_segment_now_def ret_def tbind_def Let_def
      decommit_empty_segment_for_release_def invalidate_class_cursor_for_slot_def on_header_def
      split: option.splits sum.splits)

function drain_small_pool :: "small_pool \<Rightarrow> (nat \<times> small_pool) pool_run" where
  "drain_small_pool s =
     tbind (pop_pooled_segment s) (\<lambda>(popped, s1).
       case popped of
         None \<Rightarrow> ret (0, s1)
       | Some base \<Rightarrow>
           tbind (release_and_recycle base s1) (\<lambda>s2.
           tbind (drain_small_pool s2) (\<lambda>(drained, s3). ret (drained + 1, s3))))"
  by auto
termination
  by (relation "measure pooled_count") (auto, metis pop_pooled_count release_and_recycle_count)

declare drain_small_pool.simps [simp del]

subsection \<open>The linked list\<close>

text \<open>
  \<open>lseg mem p ps n\<close>: the headers link \<open>ps\<close> in order, with \<open>p\<close> before the first
  and \<open>n\<close> after the last.
\<close>

fun lseg :: "(nat \<Rightarrow> segment_header) \<Rightarrow> nat \<Rightarrow> nat list \<Rightarrow> nat \<Rightarrow> bool" where
  "lseg mem p [] n = True"
| "lseg mem p (b # bs) n = (pool_prev (mem b) = p \<and> pool_next (mem b) = hd (bs @ [n]) \<and> lseg mem b bs n)"

lemma lseg_append:
  "lseg mem p (xs @ ys) n \<longleftrightarrow> lseg mem p xs (hd (ys @ [n])) \<and> lseg mem (last (p # xs)) ys n"
  by (induction xs arbitrary: p) (auto simp: hd_append)

lemma lseg_cong:
  "(\<And>b. b \<in> set xs \<Longrightarrow> pool_prev (mem' b) = pool_prev (mem b) \<and> pool_next (mem' b) = pool_next (mem b))
   \<Longrightarrow> lseg mem' p xs n = lseg mem p xs n"
  by (induction xs arbitrary: p) auto

lemma lseg_last_next:
  assumes "lseg mem p xs n" and "distinct xs" and "xs \<noteq> []"
  shows "lseg (mem(last xs := (mem (last xs))\<lparr>pool_next := n'\<rparr>)) p xs n'"
proof -
  obtain ys b where xs: "xs = ys @ [b]" using assms(3) by (cases xs rule: rev_cases) auto
  let ?mem = "mem(b := (mem b)\<lparr>pool_next := n'\<rparr>)"
  have "b \<notin> set ys" using assms(2) xs by simp
  then have "lseg ?mem p ys b = lseg mem p ys b" by (intro lseg_cong) auto
  then show ?thesis using assms(1) unfolding xs lseg_append by simp
qed

lemma lseg_first_prev:
  assumes "lseg mem p xs n" and "distinct xs" and "xs \<noteq> []"
  shows "lseg (mem(hd xs := (mem (hd xs))\<lparr>pool_prev := p'\<rparr>)) p' xs n"
proof -
  obtain b ys where xs: "xs = b # ys" using assms(3) by (cases xs) auto
  let ?mem = "mem(b := (mem b)\<lparr>pool_prev := p'\<rparr>)"
  have "b \<notin> set ys" using assms(2) xs by simp
  then have "lseg ?mem b ys n = lseg mem b ys n" by (intro lseg_cong) auto
  then show ?thesis using assms(1) unfolding xs by simp
qed

text \<open>The list the pool stands for: head first, tail last, counted.\<close>

definition pool_list :: "small_pool \<Rightarrow> nat list \<Rightarrow> bool" where
  "pool_list s ps \<longleftrightarrow> lseg (seg_mem s) 0 ps 0 \<and> pool_head s = hd (ps @ [0]) \<and> pool_tail s = last (0 # ps)
     \<and> pooled_count s = length ps \<and> distinct ps \<and> 0 \<notin> set ps"

text \<open>Only the links of headers change, and outside the list not even those.\<close>

definition no_links :: "segment_header \<Rightarrow> segment_header" where
  "no_links h = h\<lparr>pool_next := 0, pool_prev := 0\<rparr>"

definition relinked :: "nat set \<Rightarrow> (nat \<Rightarrow> segment_header) \<Rightarrow> (nat \<Rightarrow> segment_header) \<Rightarrow> bool" where
  "relinked P mem mem' \<longleftrightarrow> (\<forall>b. no_links (mem' b) = no_links (mem b)) \<and> (\<forall>b. b \<notin> P \<longrightarrow> mem' b = mem b)"

lemma relinked_refl [simp]: "relinked P mem mem"
  by (simp add: relinked_def)

lemma relinked_step:
  "relinked P mem mem' \<Longrightarrow> b \<in> P \<Longrightarrow> relinked P mem (mem'(b := (mem' b)\<lparr>pool_next := n\<rparr>))"
  "relinked P mem mem' \<Longrightarrow> b \<in> P \<Longrightarrow> relinked P mem (mem'(b := (mem' b)\<lparr>pool_prev := p\<rparr>))"
  by (auto simp: relinked_def no_links_def)

lemma relinked_fields:
  assumes "relinked P mem mem'"
  shows "kind (mem' b) = kind (mem b)" "payload_offset (mem' b) = payload_offset (mem b)"
    "segment_id (mem' b) = segment_id (mem b)" "live_count (mem' b) = live_count (mem b)"
    "decommitted (mem' b) = decommitted (mem b)" "reservation (mem' b) = reservation (mem b)"
    "reservation_len (mem' b) = reservation_len (mem b)"
proof -
  have e: "no_links (mem' b) = no_links (mem b)" using assms by (simp add: relinked_def)
  show "kind (mem' b) = kind (mem b)" "payload_offset (mem' b) = payload_offset (mem b)"
    "segment_id (mem' b) = segment_id (mem b)" "live_count (mem' b) = live_count (mem b)"
    "decommitted (mem' b) = decommitted (mem b)" "reservation (mem' b) = reservation (mem b)"
    "reservation_len (mem' b) = reservation_len (mem b)"
    using arg_cong [OF e, of kind] arg_cong [OF e, of payload_offset] arg_cong [OF e, of segment_id]
      arg_cong [OF e, of live_count] arg_cong [OF e, of decommitted] arg_cong [OF e, of reservation]
      arg_cong [OF e, of reservation_len]
    by (simp_all add: no_links_def)
qed

definition same_but_list :: "nat set \<Rightarrow> small_pool \<Rightarrow> small_pool \<Rightarrow> bool" where
  "same_but_list P s s' \<longleftrightarrow> relinked P (seg_mem s) (seg_mem s')
     \<and> s' = s\<lparr>pool_head := pool_head s', pool_tail := pool_tail s', pooled_count := pooled_count s',
        seg_mem := seg_mem s'\<rparr>"

lemma pool_push_front_ok:
  assumes lst: "pool_list s ps" and b: "b \<noteq> 0" "b \<notin> set ps" and room: "length ps < 2 ^ 32 - 1"
  shows "\<exists>s'. pool_push_front b s = ret s' \<and> pool_list s' (b # ps) \<and> same_but_list (insert b (set ps)) s s'"
proof -
  let ?hd = "hd (ps @ [0])"
  let ?m1 = "(seg_mem s)(b := (seg_mem s b)\<lparr>pool_prev := 0, pool_next := ?hd\<rparr>)"
  let ?m2 = "if ps = [] then ?m1 else ?m1(hd ps := (?m1 (hd ps))\<lparr>pool_prev := b\<rparr>)"
  let ?s' = "s\<lparr>pool_head := b, pool_tail := last (b # ps), pooled_count := Suc (length ps), seg_mem := ?m2\<rparr>"
  have hd0: "?hd = 0 \<longleftrightarrow> ps = []" using lst by (cases ps) (auto simp: pool_list_def)
  have head: "pool_head s = ?hd" "pool_tail s = last (0 # ps)" "pooled_count s = length ps"
    using lst by (simp_all add: pool_list_def)
  have run: "pool_push_front b s = ret ?s'"
  proof (cases "ps = []")
    case True
    then show ?thesis using head
      by (simp add: pool_push_front_def Let_def set_pool_next_def set_pool_prev_def on_header_def)
  next
    case False
    then have "hd ps \<noteq> 0" "?hd = hd ps" using hd0 by simp_all
    with False show ?thesis using head room
      by (simp add: pool_push_front_def Let_def set_pool_next_def set_pool_prev_def on_header_def)
  qed
  have seg: "lseg ?m1 0 ps 0"
    using lst b(2) by (subst lseg_cong [where mem = "seg_mem s"]) (auto simp: pool_list_def)
  have "lseg ?m2 b ps 0"
  proof (cases "ps = []")
    case False
    then show ?thesis using lseg_first_prev [OF seg _ False, of b] lst by (simp add: pool_list_def)
  qed simp
  moreover have "hd ps \<noteq> b" if "ps \<noteq> []" using that b(2) by (cases ps) auto
  ultimately have "lseg ?m2 0 (b # ps) 0" by (auto simp: hd_append)
  then have "pool_list ?s' (b # ps)" using lst b by (simp add: pool_list_def)
  moreover have "relinked (insert b (set ps)) (seg_mem s) ?m2"
    by (cases ps) (auto simp: relinked_def no_links_def)
  then have "same_but_list (insert b (set ps)) s ?s'" by (simp add: same_but_list_def)
  ultimately show ?thesis using run by blast
qed

lemma pool_unlink_run:
  assumes "pool_prev (seg_mem s b) = p" and "pool_next (seg_mem s b) = n" and "0 < pooled_count s"
  defines "m1 \<equiv> if p = 0 then seg_mem s else (seg_mem s)(p := (seg_mem s p)\<lparr>pool_next := n\<rparr>)"
  defines "m2 \<equiv> if n = 0 then m1 else m1(n := (m1 n)\<lparr>pool_prev := p\<rparr>)"
  defines "m3 \<equiv> m2(b := (m2 b)\<lparr>pool_next := 0, pool_prev := 0\<rparr>)"
  shows "pool_unlink b s = ret (s\<lparr>pool_head := if p = 0 then n else pool_head s,
    pool_tail := if n = 0 then p else pool_tail s, pooled_count := pooled_count s - 1, seg_mem := m3\<rparr>)"
  using assms(3) unfolding pool_unlink_def assms(1,2) set_pool_next_def set_pool_prev_def on_header_def Let_def
  by (cases "p = 0"; cases "n = 0") (simp_all add: m1_def m2_def m3_def)

lemma pool_unlink_ok:
  assumes lst: "pool_list s ps" and b: "b \<in> set ps"
  shows "\<exists>s'. pool_unlink b s = ret s' \<and> pool_list s' (remove1 b ps) \<and> same_but_list (set ps) s s'
    \<and> pool_prev (seg_mem s' b) = 0"
proof -
  obtain xs ys where ps: "ps = xs @ b # ys" using b by (auto dest: split_list)
  with lst have d: "distinct xs" "distinct ys" "b \<notin> set xs" "b \<notin> set ys" "\<forall>c \<in> set xs. c \<notin> set ys"
    "0 \<notin> set xs" "0 \<notin> set ys" "b \<noteq> 0" by (auto simp: pool_list_def)
  define prv where "prv = last (0 # xs)"
  define nxt where "nxt = hd (ys @ [0])"
  from lst ps have seg: "lseg (seg_mem s) 0 xs b" "lseg (seg_mem s) b ys 0"
    "pool_prev (seg_mem s b) = prv" "pool_next (seg_mem s b) = nxt"
    by (simp_all add: pool_list_def lseg_append prv_def nxt_def)
  have pz: "prv = 0 \<longleftrightarrow> xs = []" using d(6) unfolding prv_def by (cases xs rule: rev_cases) auto
  have nz: "nxt = 0 \<longleftrightarrow> ys = []" using d(7) unfolding nxt_def by (cases ys) auto
  define m1 where "m1 = (if prv = 0 then seg_mem s else (seg_mem s)(prv := (seg_mem s prv)\<lparr>pool_next := nxt\<rparr>))"
  define m2 where "m2 = (if nxt = 0 then m1 else m1(nxt := (m1 nxt)\<lparr>pool_prev := prv\<rparr>))"
  define m3 where "m3 = m2(b := (m2 b)\<lparr>pool_next := 0, pool_prev := 0\<rparr>)"
  let ?s' = "s\<lparr>pool_head := hd (xs @ ys @ [0]), pool_tail := last (0 # xs @ ys),
     pooled_count := length (xs @ ys), seg_mem := m3\<rparr>"
  have head: "pool_head s = hd (xs @ b # ys @ [0])" "pool_tail s = last (0 # xs @ b # ys)"
    "pooled_count s = Suc (length xs + length ys)"
    using lst ps by (simp_all add: pool_list_def)
  have e1: "(if xs = [] then nxt else pool_head s) = hd (xs @ ys @ [0])"
    unfolding head(1) nxt_def by (cases xs) simp_all
  have e2: "(if ys = [] then prv else pool_tail s) = last (0 # xs @ ys)"
    unfolding head(2) prv_def by (cases ys rule: rev_cases) simp_all
  have e3: "pooled_count s - 1 = length (xs @ ys)" unfolding head(3) by simp
  note e = e1 e2 e3
  have "0 < pooled_count s" using head(3) by simp
  from pool_unlink_run [OF seg(3,4) this] have run: "pool_unlink b s = ret ?s'"
    unfolding m3_def m2_def m1_def pz nz e .
  have lx: "prv \<in> set xs" if "xs \<noteq> []" using that unfolding prv_def by (cases xs rule: rev_cases) auto
  have hy: "nxt \<in> set ys" if "ys \<noteq> []" using that unfolding nxt_def by (cases ys) auto
  have m3: "m3 c = m2 c" if "c \<noteq> b" for c using that by (simp add: m3_def)
  have m2: "m2 c = m1 c" if "c \<in> set xs" for c
  proof (cases "ys = []")
    case True
    then have "nxt = 0" using nz by blast
    then show ?thesis by (simp add: m2_def)
  next
    case False
    then have "c \<noteq> nxt" using hy d(5) that by blast
    then show ?thesis by (simp add: m2_def)
  qed
  have m1: "m1 c = seg_mem s c" if "c \<in> set ys" for c
  proof (cases "xs = []")
    case True
    then have "prv = 0" using pz by blast
    then show ?thesis by (simp add: m1_def)
  next
    case False
    then have "c \<noteq> prv" using lx d(5) that by blast
    then show ?thesis by (simp add: m1_def)
  qed
  have "lseg m1 0 xs nxt"
  proof (cases "xs = []")
    case False
    then have "prv = last xs" by (simp add: prv_def)
    with False lseg_last_next [OF seg(1) d(1) False, of nxt] pz show ?thesis unfolding m1_def by simp
  qed simp
  moreover have "m3 c = m1 c" if "c \<in> set xs" for c
    using m3 [of c] m2 [OF that] d(3) that by metis
  then have "lseg m3 0 xs nxt = lseg m1 0 xs nxt" by (intro lseg_cong) metis
  ultimately have sx: "lseg m3 0 xs nxt" by blast
  have "lseg m1 b ys 0 = lseg (seg_mem s) b ys 0" by (intro lseg_cong) (metis m1)
  then have y1: "lseg m1 b ys 0" using seg(2) by blast
  have hd_ys: "nxt = hd ys" if "ys \<noteq> []" using that by (simp add: nxt_def)
  have y2: "lseg m2 prv ys 0"
  proof (cases "ys = []")
    case False
    have "nxt \<noteq> 0" using nz False by blast
    then have "m2 = m1(hd ys := (m1 (hd ys))\<lparr>pool_prev := prv\<rparr>)"
      using hd_ys [OF False] by (simp add: m2_def)
    with lseg_first_prev [OF y1 d(2) False, of prv] show ?thesis by (simp only:)
  qed simp
  have "m3 c = m2 c" if "c \<in> set ys" for c using m3 that d(4) by metis
  then have "lseg m3 prv ys 0 = lseg m2 prv ys 0" by (intro lseg_cong) metis
  then have "lseg m3 prv ys 0" using y2 by blast
  with sx have "lseg m3 0 (xs @ ys) 0" by (simp add: lseg_append prv_def nxt_def)
  moreover have rm: "remove1 b ps = xs @ ys" using ps d(3) by (simp add: remove1_append)
  ultimately have "pool_list ?s' (remove1 b ps)" using d by (auto simp: pool_list_def hd_append)
  moreover have "relinked (set ps) (seg_mem s) m3"
    unfolding relinked_def no_links_def m3_def m2_def m1_def using lx hy ps pz nz by auto
  then have "same_but_list (set ps) s ?s'" by (simp add: same_but_list_def)
  ultimately show ?thesis using run by (intro exI [of _ ?s']) (simp add: m3_def)
qed

subsection \<open>The invariant of the pool\<close>

definition in_table :: "small_pool \<Rightarrow> nat \<Rightarrow> bool" where
  "in_table s b \<longleftrightarrow> (\<exists>i \<in> live (seg_table s). slots (seg_table s) ! i = b)"

text \<open>An empty small segment of the table that is neither the primordial one nor being carved.\<close>

definition idle :: "small_pool \<Rightarrow> nat \<Rightarrow> bool" where
  "idle s b \<longleftrightarrow> segment_key b \<and> b \<noteq> 0 \<and> payload_key (seg_mem s) b = b \<and> slots (seg_table s) ! 0 \<noteq> b
     \<and> in_table s b \<and> dec_live_and_maybe_decommit b s"

text \<open>
  Exactly the segments of \<open>ps\<close> are linked, all of them idle members of the table, at most
  \<open>pool_cap\<close> of them; a class cursor names no dead slot and no large segment.
\<close>

definition small_slots :: "small_pool \<Rightarrow> nat set" where
  "small_slots s = {i \<in> live (seg_table s). kind (seg_mem s (slots (seg_table s) ! i)) \<noteq> Large}"

definition env_ok :: "small_pool \<Rightarrow> (nat \<Rightarrow> nat option) \<Rightarrow> bool" where
  "env_ok s m \<longleftrightarrow> table_inv (seg_mem s) (seg_table s) m \<and> 0 \<in> live (seg_table s)
     \<and> (\<forall>i \<in> live (seg_table s). segment_id (seg_mem s (slots (seg_table s) ! i)) = i)
     \<and> (\<forall>c \<in> set (small_class_cursor s). c = CLASS_CURSOR_NONE \<or> c \<in> small_slots s)"

definition pool_inv :: "small_pool \<Rightarrow> (nat \<Rightarrow> nat option) \<Rightarrow> nat list \<Rightarrow> bool" where
  "pool_inv s m ps \<longleftrightarrow> env_ok s m \<and> pool_list s ps \<and> length ps \<le> pool_cap s \<and> pool_cap s < 2 ^ 32
     \<and> (\<forall>b \<in> set ps. idle s b)
     \<and> (\<forall>b. in_table s b \<and> b \<notin> set ps \<longrightarrow> pool_prev (seg_mem s b) = 0)"

lemma dec_live_iff: "dec_live_and_maybe_decommit b s \<longleftrightarrow> live_count (seg_mem s b) = 0 \<and> b \<noteq> small_cur s
   \<and> \<not> is_decommitted (seg_mem s b) \<and> kind (seg_mem s b) = Small"
  by (simp add: dec_live_and_maybe_decommit_def Let_def)

lemma table_inv_cong:
  assumes "\<And>b. kind (mem' b) = kind (mem b)" and "\<And>b. payload_offset (mem' b) = payload_offset (mem b)"
  shows "table_inv mem' t m = table_inv mem t m"
  unfolding table_inv_def keys_ok_def kinds_ok_def payload_key_def assms by (rule refl)

lemma live_slot_bound: "table_inv mem t m \<Longrightarrow> i \<in> live t \<Longrightarrow> i < 4096"
  by (auto simp: table_inv_def live_def)

lemma relinked_same:
  assumes "same_but_list P s s'"
  shows "seg_table s' = seg_table s" "small_class_cursor s' = small_class_cursor s" "small_cur s' = small_cur s"
    "pool_cap s' = pool_cap s" "last_pool_decay_tick s' = last_pool_decay_tick s" "in_table s' = in_table s" "idle s' = idle s" "env_ok s' m = env_ok s m"
proof -
  from assms have r: "relinked P (seg_mem s) (seg_mem s')"
    and e: "s' = s\<lparr>pool_head := pool_head s', pool_tail := pool_tail s', pooled_count := pooled_count s',
        seg_mem := seg_mem s'\<rparr>" by (simp_all add: same_but_list_def)
  show f: "seg_table s' = seg_table s" "small_class_cursor s' = small_class_cursor s"
    "small_cur s' = small_cur s" "pool_cap s' = pool_cap s" "last_pool_decay_tick s' = last_pool_decay_tick s"
    by (subst e; simp)+
  show t: "in_table s' = in_table s" by (simp add: fun_eq_iff in_table_def f)
  show "idle s' = idle s"
    by (simp add: fun_eq_iff idle_def f t payload_key_def dec_live_and_maybe_decommit_def Let_def
        is_decommitted_def relinked_fields [OF r])
  have "table_inv (seg_mem s') (seg_table s) m = table_inv (seg_mem s) (seg_table s) m"
    by (rule table_inv_cong) (simp_all add: relinked_fields [OF r])
  then show "env_ok s' m = env_ok s m"
    by (simp add: env_ok_def small_slots_def f relinked_fields [OF r])
qed

lemma is_pooled_iff:
  assumes inv: "pool_inv s m ps" and b: "in_table s b" "b \<noteq> 0"
  shows "is_pooled b s \<longleftrightarrow> b \<in> set ps"
proof
  assume p: "is_pooled b s"
  show "b \<in> set ps"
  proof (rule ccontr)
    assume n: "b \<notin> set ps"
    then have "pool_prev (seg_mem s b) = 0" using inv b by (simp add: pool_inv_def)
    with p have "hd (ps @ [0]) = b" using inv by (simp add: is_pooled_def pool_inv_def pool_list_def)
    then show False using n b(2) by (cases ps) auto
  qed
next
  assume "b \<in> set ps"
  then obtain xs ys where ps: "ps = xs @ b # ys" by (auto dest: split_list)
  have lst: "pool_list s ps" using inv by (simp add: pool_inv_def)
  show "is_pooled b s"
  proof (cases "xs = []")
    case True
    then show ?thesis using lst ps by (simp add: is_pooled_def pool_list_def)
  next
    case False
    then have "pool_prev (seg_mem s b) = last xs" using lst ps by (simp add: pool_list_def lseg_append)
    moreover have "last xs \<in> set ps" using False ps by simp
    ultimately have "pool_prev (seg_mem s b) \<noteq> 0" using lst unfolding pool_list_def by metis
    then show ?thesis by (simp add: is_pooled_def)
  qed
qed

text \<open>
  What the pool leaves alone: the free lists, the current segment, the memory of the other
  segments, and of the headers of the segments that stay everything but the links; a segment that
  goes was an empty small one.
\<close>

definition pool_frame :: "small_pool \<Rightarrow> small_pool \<Rightarrow> bool" where
  "pool_frame s s' \<longleftrightarrow> bin_heads s' = bin_heads s \<and> small_cur s' = small_cur s
     \<and> length (small_class_cursor s') = length (small_class_cursor s)
     \<and> slots (seg_table s') ! 0 = slots (seg_table s) ! 0
     \<and> live (seg_table s') \<subseteq> live (seg_table s)
     \<and> (\<forall>b. in_table s' b \<longrightarrow> in_table s b \<and> no_links (seg_mem s' b) = no_links (seg_mem s b))
     \<and> (\<forall>b. \<not> in_table s b \<longrightarrow> seg_mem s' b = seg_mem s b)
     \<and> (\<forall>b. in_table s b \<and> \<not> in_table s' b \<longrightarrow> live_count (seg_mem s b) = 0 \<and> b \<noteq> small_cur s
           \<and> kind (seg_mem s b) \<noteq> Large)"

lemma pool_frame_refl [simp]: "pool_frame s s"
  by (simp add: pool_frame_def)

lemma no_links_live: "no_links h' = no_links h \<Longrightarrow> live_count h' = live_count h \<and> kind h' = kind h"
  unfolding no_links_def by (frule arg_cong [where f = live_count], drule arg_cong [where f = kind]) simp

lemma pool_frame_trans:
  assumes "pool_frame s s'" and "pool_frame s' s''"
  shows "pool_frame s s''"
proof -
  have "live_count (seg_mem s b) = 0 \<and> b \<noteq> small_cur s \<and> kind (seg_mem s b) \<noteq> Large"
    if "in_table s b" "\<not> in_table s'' b" for b
  proof (cases "in_table s' b")
    case True
    then have "live_count (seg_mem s' b) = 0" "b \<noteq> small_cur s'" "kind (seg_mem s' b) \<noteq> Large" using assms(2) that(2) by (simp_all add: pool_frame_def)
    moreover have "no_links (seg_mem s' b) = no_links (seg_mem s b)" using assms(1) True by (simp add: pool_frame_def)
    ultimately show ?thesis using no_links_live [of "seg_mem s' b" "seg_mem s b"] assms(1) by (simp add: pool_frame_def)
  qed (use assms(1) that in \<open>simp add: pool_frame_def\<close>)
  moreover have "live (seg_table s'') \<subseteq> live (seg_table s)" using assms unfolding pool_frame_def by blast
  moreover have "seg_mem s'' b = seg_mem s b" if "\<not> in_table s b" for b
    using assms that unfolding pool_frame_def by metis
  ultimately show ?thesis using assms by (simp add: pool_frame_def)
qed

lemma same_frame:
  assumes "same_but_list P s s'" and "\<forall>b \<in> P. in_table s b"
  shows "pool_frame s s'"
proof -
  from assms(1) have e: "s' = s\<lparr>pool_head := pool_head s', pool_tail := pool_tail s', pooled_count := pooled_count s',
        seg_mem := seg_mem s'\<rparr>" by (simp add: same_but_list_def)
  have "bin_heads s' = bin_heads s" by (subst e) simp
  moreover have "seg_mem s' b = seg_mem s b" if "\<not> in_table s b" for b
    using assms that by (auto simp: same_but_list_def relinked_def)
  ultimately show ?thesis using assms(1) relinked_same [OF assms(1)]
    by (simp add: pool_frame_def same_but_list_def relinked_def)
qed

text \<open>Admission and removal.\<close>

lemma push_ok:
  assumes inv: "pool_inv s m ps" and b: "idle s b" "b \<notin> set ps" and room: "length ps < pool_cap s"
  shows "\<exists>s'. pool_push_front b s = ret s' \<and> pool_inv s' m (b # ps) \<and> pool_frame s s'"
proof -
  have p: "pool_list s ps" "b \<noteq> 0" "length ps < 2 ^ 32 - 1"
    using inv b room by (auto simp: pool_inv_def idle_def)
  from pool_push_front_ok [OF p(1,2) b(2) p(3)] obtain s' where
    s': "pool_push_front b s = ret s'" "pool_list s' (b # ps)" "same_but_list (insert b (set ps)) s s'" by blast
  note same = relinked_same [OF s'(3)]
  have "pool_prev (seg_mem s' c) = 0" if "in_table s c" "c \<notin> set (b # ps)" for c
  proof -
    have "seg_mem s' c = seg_mem s c" using s'(3) that(2) by (auto simp: same_but_list_def relinked_def)
    then show ?thesis using inv that by (simp add: pool_inv_def)
  qed
  then have "pool_inv s' m (b # ps)"
    using inv b room s'(2) unfolding pool_inv_def same by (auto simp: Suc_le_eq)
  moreover have "\<forall>c \<in> insert b (set ps). in_table s c" using inv b by (auto simp: pool_inv_def idle_def)
  ultimately show ?thesis using s'(1) same_frame [OF s'(3)] by blast
qed

lemma unlink_ok:
  assumes inv: "pool_inv s m ps" and b: "b \<in> set ps"
  shows "\<exists>s'. pool_unlink b s = ret s' \<and> pool_inv s' m (remove1 b ps) \<and> idle s' b \<and> b \<notin> set (remove1 b ps)
    \<and> seg_table s' = seg_table s \<and> relinked (set ps) (seg_mem s) (seg_mem s')
    \<and> last_pool_decay_tick s' = last_pool_decay_tick s \<and> pool_frame s s'"
proof -
  have lst: "pool_list s ps" using inv by (simp add: pool_inv_def)
  from pool_unlink_ok [OF lst b] obtain s' where
    s': "pool_unlink b s = ret s'" "pool_list s' (remove1 b ps)" "same_but_list (set ps) s s'"
      "pool_prev (seg_mem s' b) = 0" by blast
  note same = relinked_same [OF s'(3)]
  have d: "distinct ps" using lst by (simp add: pool_list_def)
  have "pool_prev (seg_mem s' c) = 0" if "in_table s c" "c \<notin> set (remove1 b ps)" for c
  proof (cases "c = b")
    case False
    then have "c \<notin> set ps" using that(2) d by (simp add: set_remove1_eq)
    moreover from this have "seg_mem s' c = seg_mem s c" using s'(3) by (auto simp: same_but_list_def relinked_def)
    ultimately show ?thesis using inv that by (simp add: pool_inv_def)
  qed (use s'(4) in simp)
  moreover have "length (remove1 b ps) \<le> length ps" by (simp add: length_remove1)
  ultimately have "pool_inv s' m (remove1 b ps)"
    using inv s'(2) d unfolding pool_inv_def same by (auto simp: set_remove1_eq)
  moreover have "idle s' b" using inv b unfolding same by (simp add: pool_inv_def)
  moreover have "relinked (set ps) (seg_mem s) (seg_mem s')" using s'(3) by (simp add: same_but_list_def)
  moreover have "\<forall>c \<in> set ps. in_table s c" using inv by (auto simp: pool_inv_def idle_def)
  ultimately show ?thesis using s'(1) same(1,5) d same_frame [OF s'(3)] by (auto simp: set_remove1_eq)
qed

subsection \<open>Release\<close>

lemma release_and_recycle_ok:
  assumes inv: "pool_inv s m ps" and b: "idle s b" "b \<notin> set ps"
  shows "\<exists>s'. release_and_recycle b s = ret s' \<and> pool_inv s' (m(b := None)) ps \<and> \<not> in_table s' b
    \<and> segment_id (seg_mem s b) \<notin> set (small_class_cursor s')
    \<and> released (seg_table s') = released (seg_table s) @ (if reservation (seg_mem s b) = 0 then []
        else [(reservation (seg_mem s b), reservation_len (seg_mem s b))])
    \<and> (\<forall>c. c \<noteq> b \<longrightarrow> seg_mem s' c = seg_mem s c) \<and> last_pool_decay_tick s' = last_pool_decay_tick s
    \<and> pool_frame s s'"
proof -
  let ?t = "seg_table s"
  let ?mem = "(seg_mem s)(b := set_decommitted True ((seg_mem s b)\<lparr>bump := small_meta_end\<rparr>))"
  let ?slot = "segment_id (seg_mem s b)"
  let ?cs = "map (\<lambda>c. if c = ?slot then CLASS_CURSOR_NONE else c) (small_class_cursor s)"
  have f: "kind (?mem c) = kind (seg_mem s c)" "payload_offset (?mem c) = payload_offset (seg_mem s c)"
    "segment_id (?mem c) = segment_id (seg_mem s c)" "reservation (?mem c) = reservation (seg_mem s c)"
    "reservation_len (?mem c) = reservation_len (seg_mem s c)" "pool_prev (?mem c) = pool_prev (seg_mem s c)"
    "pool_next (?mem c) = pool_next (seg_mem s c)" for c
    by (simp_all add: set_decommitted_def)
  from inv have tinv: "table_inv (seg_mem s) ?t m" and zero: "0 \<in> live ?t"
    and ids: "\<forall>i \<in> live ?t. segment_id (seg_mem s (slots ?t ! i)) = i"
    and cur: "\<forall>c \<in> set (small_class_cursor s). c = CLASS_CURSOR_NONE \<or> c \<in> small_slots s"
    by (simp_all add: pool_inv_def env_ok_def)
  have tinv': "table_inv ?mem ?t m" unfolding table_inv_cong [OF f(1,2)] by (rule tinv)
  from b(1) obtain i where i: "i \<in> live ?t" "slots ?t ! i = b" by (auto simp: idle_def in_table_def)
  have key: "segment_key b" "b \<noteq> 0" "payload_key ?mem b = b" "slots ?t ! 0 \<noteq> b"
    using b(1) unfolding payload_key_def f by (simp_all add: idle_def payload_key_def)
  have ex: "\<exists>i \<in> live ?t. slots ?t ! i = b" using i by blast
  from recycle_ok [OF tinv' key, unfolded if_P [OF ex] f] obtain t' where
    t': "recycle ?mem b ?t = Some (Inr t')" "table_inv ?mem t' (m(b := None))"
      "live t' = {i \<in> live ?t. slots ?t ! i \<noteq> b}" "\<forall>j \<in> live t'. slots t' ! j = slots ?t ! j"
      "released t' = released ?t @ (if reservation (seg_mem s b) = 0 then []
        else [(reservation (seg_mem s b), reservation_len (seg_mem s b))])" by blast
  let ?s' = "s\<lparr>decommit_calls := decommit_calls s + 1, seg_mem := ?mem, small_class_cursor := ?cs, seg_table := t'\<rparr>"
  have run: "release_and_recycle b s = ret ?s'"
    using t'(1) by (simp add: release_and_recycle_def release_empty_segment_now_def Let_def ret_def
        decommit_empty_segment_for_release_def invalidate_class_cursor_for_slot_def on_header_def
        set_decommitted_def)
  have tab: "in_table ?s' c \<longleftrightarrow> in_table s c \<and> c \<noteq> b" for c
    using t'(3,4) unfolding in_table_def by auto
  have zero': "0 \<in> live t'" "slots t' ! 0 = slots ?t ! 0" using zero key(4) t'(3,4) by auto
  have slot: "i = ?slot" using bspec [OF ids i(1)] unfolding i(2) by (rule sym)
  have gone: "?slot \<notin> live t'" unfolding slot [symmetric] t'(3) using i by simp
  have dead: "j = ?slot" if "j \<in> live ?t" "slots ?t ! j = b" for j
    using bspec [OF ids that(1)] unfolding that(2) by (rule sym)
  have ss: "small_slots ?s' = {i \<in> small_slots s. slots ?t ! i \<noteq> b}"
    using t'(3,4) by (auto simp: small_slots_def)
  have "\<forall>c \<in> set ?cs. c = CLASS_CURSOR_NONE \<or> c \<in> small_slots ?s'"
    unfolding ss using cur dead by (fastforce simp: small_slots_def)
  moreover have "\<forall>j \<in> live t'. segment_id (?mem (slots t' ! j)) = j"
    unfolding f using ids t'(3,4) by auto
  ultimately have "env_ok ?s' (m(b := None))" using t'(2) zero' by (simp add: env_ok_def)
  moreover have "idle ?s' c" if "idle s c" "c \<noteq> b" for c
    using that tab [of c] zero'(2)
    by (simp add: idle_def payload_key_def dec_live_iff)
  moreover have "lseg ?mem 0 ps 0 = lseg (seg_mem s) 0 ps 0" by (rule lseg_cong) (simp only: f)
  then have "pool_list ?s' ps" using inv by (simp add: pool_inv_def pool_list_def)
  moreover have "pool_prev (?mem c) = 0" if "in_table ?s' c" "c \<notin> set ps" for c
    unfolding f using inv that tab [of c] by (simp add: pool_inv_def)
  ultimately have "pool_inv ?s' (m(b := None)) ps"
    using inv b(2) unfolding pool_inv_def by auto
  moreover have "?slot < 4096" using live_slot_bound [OF tinv i(1)] slot by simp
  then have "?slot \<notin> set ?cs" by (auto simp: CLASS_CURSOR_NONE_def)
  moreover have "pool_frame s ?s'"
  proof -
    have "live_count (seg_mem s b) = 0 \<and> b \<noteq> small_cur s \<and> kind (seg_mem s b) \<noteq> Large"
      using b(1) by (simp add: idle_def dec_live_iff)
    moreover have "c = b" if "in_table s c \<and> \<not> in_table ?s' c" for c using tab [of c] that by blast
    moreover have "seg_mem ?s' c = seg_mem s c" if "in_table ?s' c \<or> \<not> in_table s c" for c
      using tab [of c] that b(1) by (auto simp: idle_def)
    moreover have "slots (seg_table ?s') ! 0 = slots (seg_table s) ! 0" using zero' by simp
    moreover have "live (seg_table ?s') \<subseteq> live (seg_table s)" using t'(3) by auto
    ultimately show ?thesis unfolding pool_frame_def using tab by (simp del: fun_upd_apply) metis
  qed
  ultimately show ?thesis using run tab [of b] t'(5) by (intro exI [of _ ?s']) simp
qed

lemma release_or_pool_ok:
  assumes inv: "pool_inv s m ps" and b: "idle s b" "b \<notin> set ps"
  shows "if length ps < pool_cap s
    then \<exists>s'. release_or_pool_empty_segment b s = ret (True, s') \<and> pool_inv s' m (b # ps) \<and> pool_frame s s'
    else \<exists>s'. release_or_pool_empty_segment b s = ret (False, s') \<and> pool_inv s' (m(b := None)) ps
      \<and> \<not> in_table s' b \<and> segment_id (seg_mem s b) \<notin> set (small_class_cursor s') \<and> pool_frame s s'"
proof -
  have tb: "in_table s b" "b \<noteq> 0" using b(1) by (simp_all add: idle_def)
  have np: "\<not> is_pooled b s" using is_pooled_iff [OF inv tb] b(2) by simp
  have cnt: "pooled_count s = length ps" using inv by (simp add: pool_inv_def pool_list_def)
  show ?thesis
  proof (cases "length ps < pool_cap s")
    case True
    from push_ok [OF inv b True] obtain s' where "pool_push_front b s = ret s'" "pool_inv s' m (b # ps)" "pool_frame s s'"
      by blast
    then show ?thesis using True np cnt by (simp add: release_or_pool_empty_segment_def)
  next
    case False
    from release_and_recycle_ok [OF inv b] obtain s' where
      "release_and_recycle b s = ret s'" "pool_inv s' (m(b := None)) ps" "\<not> in_table s' b"
      "segment_id (seg_mem s b) \<notin> set (small_class_cursor s')" "pool_frame s s'" by blast
    then show ?thesis using False np cnt by (simp add: release_or_pool_empty_segment_def)
  qed
qed

lemma decay_ok:
  assumes inv: "pool_inv s m ps"
  shows "\<exists>s' m' ps'. maybe_decay_small_pool now s = ret s' \<and> pool_inv s' m' ps' \<and> pool_frame s s'
    \<and> (if ps \<noteq> [] \<and> last_pool_decay_tick s \<noteq> None
         \<and> pool_decay_interval s \<le> now - the (last_pool_decay_tick s)
       then ps' = butlast ps \<and> m' = m(last ps := None) \<and> \<not> in_table s' (last ps)
       else ps' = ps \<and> m' = m)"
proof -
  have cnt: "pooled_count s = length ps" and lst: "pool_list s ps" using inv by (simp_all add: pool_inv_def pool_list_def)
  have tick: "pool_inv (s\<lparr>last_pool_decay_tick := t\<rparr>) m ps" for t
    using inv by (simp add: pool_inv_def pool_list_def env_ok_def small_slots_def idle_def in_table_def
        dec_live_and_maybe_decommit_def)
  have tf: "pool_frame s (s\<lparr>last_pool_decay_tick := t\<rparr>)" for t by (auto simp: pool_frame_def in_table_def)
  consider "ps = []" | "ps \<noteq> []" "last_pool_decay_tick s = None"
    | t where "ps \<noteq> []" "last_pool_decay_tick s = Some t" "now - t < pool_decay_interval s"
    | t where "ps \<noteq> []" "last_pool_decay_tick s = Some t" "pool_decay_interval s \<le> now - t"
    by (metis not_le option.exhaust)
  then show ?thesis
  proof cases
    case 4
    let ?s = "s\<lparr>last_pool_decay_tick := Some now\<rparr>" and ?b = "last ps"
    have b: "?b \<in> set ps" using 4(1) by simp
    have tail: "pool_tail ?s = ?b" using lst 4(1) by (simp add: pool_list_def)
    have b0: "?b \<noteq> 0" using lst b unfolding pool_list_def by metis
    from unlink_ok [OF tick b] obtain s1 where s1: "pool_unlink ?b ?s = ret s1"
      "pool_inv s1 m (remove1 ?b ps)" "idle s1 ?b" "?b \<notin> set (remove1 ?b ps)"
      "pool_frame ?s s1" by blast
    from release_and_recycle_ok [OF s1(2,3,4)] obtain s2 where s2: "release_and_recycle ?b s1 = ret s2"
      "pool_inv s2 (m(?b := None)) (remove1 ?b ps)" "\<not> in_table s2 ?b"
      "pool_frame s1 s2" by blast
    have "ps = butlast ps @ [?b]" "?b \<notin> set (butlast ps)"
      using 4(1) lst by (simp, metis append_butlast_last_id distinct_butlast not_distinct_conv_prefix pool_list_def)
    then have "remove1 ?b ps = butlast ps" by (metis remove1_append remove1.simps append_Nil2)
    moreover have "maybe_decay_small_pool now s = ret s2"
      using 4 cnt tail b0 s1(1) s2(1) by (simp add: maybe_decay_small_pool_def Let_def)
    moreover have "pool_frame s s2"
      by (rule pool_frame_trans [OF tf pool_frame_trans [OF s1(5) s2(4)]])
    ultimately show ?thesis using 4 s2(2,3) by auto
  qed (use cnt inv tick tf in \<open>auto simp: maybe_decay_small_pool_def\<close>)
qed

lemma drain_ok:
  "pool_inv s m ps \<Longrightarrow> \<exists>s' m'. drain_small_pool s = ret (length ps, s') \<and> pool_inv s' m' [] \<and> pool_frame s s' \<and> (\<forall>k. m k = None \<longrightarrow> m' k = None)
     \<and> released (seg_table s') = released (seg_table s) @ concat (map (\<lambda>b. if reservation (seg_mem s b) = 0
         then [] else [(reservation (seg_mem s b), reservation_len (seg_mem s b))]) ps)"
proof (induction ps arbitrary: s m)
  case Nil
  then have "pop_pooled_segment s = ret (None, s)"
    by (simp add: pop_pooled_segment_def pool_inv_def pool_list_def)
  with Nil show ?case by (subst drain_small_pool.simps) auto
next
  case (Cons b ps)
  have lst: "pool_list s (b # ps)" using Cons.prems by (simp add: pool_inv_def)
  then have head: "pool_head s = b" "b \<noteq> 0" "b \<notin> set ps" by (auto simp: pool_list_def)
  have "b \<in> set (b # ps)" by simp
  from unlink_ok [OF Cons.prems this] obtain s1 where s1: "pool_unlink b s = ret s1" "pool_inv s1 m ps"
    "idle s1 b" "b \<notin> set ps" "seg_table s1 = seg_table s" "relinked (set (b # ps)) (seg_mem s) (seg_mem s1)"
    "pool_frame s s1" by auto
  from release_and_recycle_ok [OF s1(2,3,4)] obtain s2 where s2: "release_and_recycle b s1 = ret s2"
    "pool_inv s2 (m(b := None)) ps"
    "released (seg_table s2) = released (seg_table s1) @ (if reservation (seg_mem s1 b) = 0 then []
        else [(reservation (seg_mem s1 b), reservation_len (seg_mem s1 b))])"
    "\<forall>c. c \<noteq> b \<longrightarrow> seg_mem s2 c = seg_mem s1 c" "pool_frame s1 s2" by blast
  from Cons.IH [OF s2(2)] obtain s3 m3 where s3: "drain_small_pool s2 = ret (length ps, s3)"
    "pool_inv s3 m3 []" "released (seg_table s3) = released (seg_table s2) @ concat (map (\<lambda>b. if reservation (seg_mem s2 b) = 0
         then [] else [(reservation (seg_mem s2 b), reservation_len (seg_mem s2 b))]) ps)" "pool_frame s2 s3"
    "\<forall>k. (m(b := None)) k = None \<longrightarrow> m3 k = None" by blast
  have "pop_pooled_segment s = ret (Some b, s1)" using head s1(1) by (simp add: pop_pooled_segment_def Let_def)
  then have run: "drain_small_pool s = ret (length (b # ps), s3)"
    using s2(1) s3(1) by (subst drain_small_pool.simps) simp
  have "(if reservation (seg_mem s2 c) = 0 then [] else [(reservation (seg_mem s2 c), reservation_len (seg_mem s2 c))])
      = (if reservation (seg_mem s c) = 0 then [] else [(reservation (seg_mem s c), reservation_len (seg_mem s c))])"
    if "c \<in> set ps" for c
    using s2(4) s1(4) that relinked_fields(6,7) [OF s1(6), of c] by metis
  then have m: "map (\<lambda>b. if reservation (seg_mem s2 b) = 0 then [] else [(reservation (seg_mem s2 b), reservation_len (seg_mem s2 b))]) ps
      = map (\<lambda>b. if reservation (seg_mem s b) = 0 then [] else [(reservation (seg_mem s b), reservation_len (seg_mem s b))]) ps"
    by simp
  have "released (seg_table s3) = released (seg_table s) @ concat (map (\<lambda>b. if reservation (seg_mem s b) = 0
         then [] else [(reservation (seg_mem s b), reservation_len (seg_mem s b))]) (b # ps))"
    unfolding s3(3) m s2(3) s1(5) relinked_fields(6,7) [OF s1(6)] by simp
  moreover have "pool_frame s s3" by (rule pool_frame_trans [OF s1(7) pool_frame_trans [OF s2(5) s3(4)]])
  moreover have "\<forall>k. m k = None \<longrightarrow> m3 k = None" using s3(5) by simp
  ultimately show ?case using run s3(2) by blast
qed

lemma unpool_ok:
  assumes inv: "pool_inv s m ps" and b: "in_table s b" "b \<noteq> 0"
  shows "\<exists>s'. unpool_if_present b s = ret s' \<and> pool_inv s' m (remove1 b ps) \<and> b \<notin> set (remove1 b ps)
    \<and> seg_table s' = seg_table s \<and> pool_frame s s'"
proof (cases "b \<in> set ps")
  case True
  then show ?thesis using unlink_ok [OF inv True] is_pooled_iff [OF inv b]
    by (auto simp: unpool_if_present_def)
next
  case False
  then show ?thesis using inv is_pooled_iff [OF inv b]
    by (simp add: unpool_if_present_def remove1_idem)
qed

lemma cursor_probe_ok:
  assumes inv: "pool_inv s m ps" and c: "class_idx < length (small_class_cursor s)"
  shows "\<exists>r s'. cursor_probe_base class_idx s = ret (r, s') \<and> pool_frame s s' \<and> seg_table s' = seg_table s
    \<and> (case r of
         None \<Rightarrow> pool_inv s' m ps
       | Some base \<Rightarrow> pool_inv s' m (remove1 base ps) \<and> base \<notin> set (remove1 base ps) \<and> in_table s base
           \<and> base \<noteq> small_cur s \<and> kind (seg_mem s base) \<in> {Small, Primordial}
           \<and> bin_heads s base class_idx \<noteq> FREE_LIST_NULL)"
proof -
  let ?slot = "small_class_cursor s ! class_idx"
  let ?base = "base_at (seg_table s) ?slot"
  have cur: "\<forall>c \<in> set (small_class_cursor s). c = CLASS_CURSOR_NONE \<or> c \<in> small_slots s"
    using inv by (simp add: pool_inv_def env_ok_def)
  show ?thesis
  proof (cases "?slot = CLASS_CURSOR_NONE")
    case True
    then show ?thesis using inv by (simp add: cursor_probe_base_def)
  next
    case named: False
    then have "?slot \<in> small_slots s" using cur c nth_mem by blast
    then have slot: "?slot \<in> live (seg_table s)" by (simp add: small_slots_def)
    then have base: "in_table s ?base" "?base \<noteq> 0"
      using live_base_at [OF slot] by (auto simp: in_table_def live_def)
    show ?thesis
    proof (cases "?base = small_cur s \<or> \<not> live_small_slot_at ?base ?slot s")
      case True
      let ?s = "s\<lparr>small_class_cursor := (small_class_cursor s)[class_idx := CLASS_CURSOR_NONE]\<rparr>"
      have "\<forall>c \<in> set (small_class_cursor ?s). c = CLASS_CURSOR_NONE \<or> c \<in> small_slots s"
        using cur set_update_subset_insert by fastforce
      moreover have "pool_frame s ?s" by (auto simp: pool_frame_def in_table_def)
      ultimately have "pool_inv ?s m ps" "pool_frame s ?s" using inv
        by (simp_all add: pool_inv_def pool_list_def env_ok_def small_slots_def idle_def in_table_def dec_live_iff)
      then show ?thesis using named True by (simp add: cursor_probe_base_def Let_def)
    next
      case False
      from unpool_ok [OF inv base] obtain s' where "unpool_if_present ?base s = ret s'"
        "pool_inv s' m (remove1 ?base ps)" "?base \<notin> set (remove1 ?base ps)"
        "pool_frame s s'" "seg_table s' = seg_table s" by blast
      then show ?thesis using named False base inv
        by (cases "bin_heads s ?base class_idx = FREE_LIST_NULL")
          (auto simp: cursor_probe_base_def Let_def live_small_slot_at_def)
    qed
  qed
qed

text \<open>The carving segment that is left behind, and the cursor that names a segment found.\<close>

lemma finalize_ok:
  assumes inv: "pool_inv s m ps" and b: "segment_key b" "b \<noteq> 0" "payload_key (seg_mem s) b = b" "in_table s b"
    and other: "b \<noteq> small_cur s" "kind (seg_mem s b) = Small \<Longrightarrow> slots (seg_table s) ! 0 \<noteq> b"
  shows "\<exists>s' m' ps'. finalize_old_cursor_if_orphaned b s = ret s' \<and> pool_inv s' m' ps' \<and> pool_frame s s'"
proof (cases "dec_live_and_maybe_decommit b s \<and> b \<notin> set ps")
  case True
  then have id: "idle s b" using b other by (simp add: idle_def dec_live_iff)
  have np: "\<not> is_pooled b s" using is_pooled_iff [OF inv b(4,2)] True by simp
  then have run: "finalize_old_cursor_if_orphaned b s
      = tbind (release_or_pool_empty_segment b s) (\<lambda>(_, s'). ret s')"
    using True by (simp add: finalize_old_cursor_if_orphaned_def dec_live_iff Let_def)
  from release_or_pool_ok [OF inv id] True obtain kept s' m' ps' where
    "release_or_pool_empty_segment b s = ret (kept, s')" "pool_inv s' m' ps'" "pool_frame s s'"
    by (cases "length ps < pool_cap s") (simp, blast)+
  then show ?thesis unfolding run by auto
next
  case False
  then have "finalize_old_cursor_if_orphaned b s = ret s"
    using is_pooled_iff [OF inv b(4,2)] other(1)
    by (auto simp: finalize_old_cursor_if_orphaned_def dec_live_iff Let_def)
  then show ?thesis using inv by auto
qed

lemma record_cursor_ok:
  assumes inv: "pool_inv s m ps" and b: "in_table s b" "kind (seg_mem s b) \<noteq> Large"
  shows "\<exists>s'. record_class_cursor c b s = ret s' \<and> pool_inv s' m ps \<and> pool_frame s s'"
proof -
  let ?i = "segment_id (seg_mem s b)"
  have env: "env_ok s m" using inv by (simp add: pool_inv_def)
  from b(1) obtain i where i: "i \<in> live (seg_table s)" "slots (seg_table s) ! i = b" by (auto simp: in_table_def)
  then have "?i = i" using env by (auto simp: env_ok_def)
  then have l: "?i \<in> small_slots s" "?i \<in> live (seg_table s)" using i b(2) by (simp_all add: small_slots_def)
  have "table_inv (seg_mem s) (seg_table s) m" using env by (simp add: env_ok_def)
  from live_slot_bound [OF this l(2)] have less: "?i < CLASS_CURSOR_NONE" by (simp add: CLASS_CURSOR_NONE_def)
  let ?s = "s\<lparr>small_class_cursor := (small_class_cursor s)[c := ?i]\<rparr>"
  have "\<forall>d \<in> set (small_class_cursor ?s). d = CLASS_CURSOR_NONE \<or> d \<in> small_slots s"
    using env l(1) set_update_subset_insert [of "small_class_cursor s" c ?i] by (auto simp: env_ok_def)
  moreover have "pool_frame s ?s" by (auto simp: pool_frame_def in_table_def)
  ultimately have "pool_inv ?s m ps" "pool_frame s ?s" using inv
    by (simp_all add: pool_inv_def pool_list_def env_ok_def small_slots_def idle_def in_table_def dec_live_iff)
  then show ?thesis using inv less by (auto simp: record_class_cursor_def Let_def)
qed

subsection \<open>An example pool\<close>

definition sample_pool :: "segment_table \<Rightarrow> small_pool" where
  "sample_pool t = \<lparr>pool_head = 0, pool_tail = 0, pooled_count = 0, pool_cap = 1,
     last_pool_decay_tick = Some 10, pool_decay_interval = 100, small_cur = 2 ^ 22,
     small_class_cursor = replicate 49 CLASS_CURSOR_NONE, seg_mem = sample_mem,
     bin_heads = (\<lambda>_ _. FREE_LIST_NULL), seg_table = t, decommit_calls = 0\<rparr>"

lemma sample_pool_ok:
  "\<exists>t. pool_inv (sample_pool t) [2 ^ 22 \<mapsto> 0, 2 ^ 23 \<mapsto> 1] [] \<and> idle (sample_pool t) (2 ^ 23)"
proof -
  obtain t where t: "table_inv sample_mem t [2 ^ 22 \<mapsto> 0, 2 ^ 23 \<mapsto> 1]" "live t = {0, 1}"
    "slots t ! 0 = 2 ^ 22" "slots t ! 1 = 2 ^ 23" using sample_two by blast
  have f: "seg_mem (sample_pool t) = sample_mem" "seg_table (sample_pool t) = t"
    by (simp_all add: sample_pool_def)
  have id: "segment_id (sample_mem (2 ^ 22)) = 0" "segment_id (sample_mem (2 ^ 23)) = 1"
    by (simp_all add: sample_mem_def header_small_def)
  have k: "kind (sample_mem (2 ^ 23)) = Small" "live_count (sample_mem (2 ^ 23)) = 0"
    "\<not> is_decommitted (sample_mem (2 ^ 23))" "pool_prev (sample_mem b) = 0" for b
    by (simp_all add: sample_mem_def header_small_def is_decommitted_def)
  have ids: "\<forall>i \<in> live t. segment_id (sample_mem (slots t ! i)) = i"
    unfolding t(2) by (simp only: ball_simps t(3,4) id)
  have zero: "0 \<in> live t" unfolding t(2) by simp
  have "env_ok (sample_pool t) [2 ^ 22 \<mapsto> 0, 2 ^ 23 \<mapsto> 1]"
    unfolding env_ok_def f using t(1) ids zero by (simp add: sample_pool_def)
  moreover have "pool_list (sample_pool t) []" by (simp add: pool_list_def sample_pool_def)
  moreover have "pool_cap (sample_pool t) < 2 ^ 32" by (simp add: sample_pool_def)
  ultimately have "pool_inv (sample_pool t) [2 ^ 22 \<mapsto> 0, 2 ^ 23 \<mapsto> 1] []"
    unfolding pool_inv_def f by (simp add: k(4))
  moreover have "in_table (sample_pool t) (2 ^ 23)" unfolding in_table_def f using t(2,4) by blast
  then have "idle (sample_pool t) (2 ^ 23)"
    unfolding idle_def dec_live_iff f using sample_keys(2,5) k t(3) by (simp add: sample_pool_def)
  ultimately show ?thesis by blast
qed

text \<open>A freshly pooled segment points to the older one with \<open>pool_next\<close>; the head has no
  \<open>pool_prev\<close>.\<close>

lemma push_links:
  assumes "pool_list s ps" and "b \<noteq> 0" and "b \<notin> set ps" and "length ps < 2 ^ 32 - 1"
    and "pool_push_front b s = ret s'"
  shows "pool_next (seg_mem s' b) = pool_head s" and "pool_prev (seg_mem s' b) = 0" and "pool_head s' = b"
  using pool_push_front_ok [OF assms(1-4)] assms(1,5) by (auto simp: pool_list_def)

subsection \<open>Properties\<close>

text \<open>C24: A small segment that empties is kept as the most recent entry of the pool while there is
  room, and is otherwise recycled at once: it leaves the table and no class cursor names its slot
  any more.  Either way the linked list in the headers stays exact and within the cap.\<close>

theorem pool_admission_exact:
  assumes "pool_inv s m ps" and "idle s b" and "b \<notin> set ps"
  shows "if length ps < pool_cap s
    then \<exists>s'. release_or_pool_empty_segment b s = ret (True, s') \<and> pool_inv s' m (b # ps)
    else \<exists>s'. release_or_pool_empty_segment b s = ret (False, s') \<and> pool_inv s' (m(b := None)) ps
      \<and> \<not> in_table s' b \<and> segment_id (seg_mem s b) \<notin> set (small_class_cursor s')"
  using release_or_pool_ok [OF assms] by (auto split: if_splits)

text \<open>Draining the pool ends, counts exactly the pooled segments, leaves the pool empty and gives
  the reservation of each of them back to the system exactly once.\<close>

theorem pool_drain_exact:
  assumes "pool_inv s m ps"
  shows "\<exists>s' m'. drain_small_pool s = ret (length ps, s') \<and> pool_inv s' m' []
     \<and> released (seg_table s') = released (seg_table s) @ concat (map (\<lambda>b. if reservation (seg_mem s b) = 0
         then [] else [(reservation (seg_mem s b), reservation_len (seg_mem s b))]) ps)"
  using drain_ok [OF assms] by blast

text \<open>A decay tick that is due evicts exactly the segment that has been pooled longest and
  removes it from the table; any other call leaves the pool as it is.\<close>

theorem pool_decay_oldest:
  assumes "pool_inv s m ps"
  shows "\<exists>s' m' ps'. maybe_decay_small_pool now s = ret s' \<and> pool_inv s' m' ps'
    \<and> (if ps \<noteq> [] \<and> last_pool_decay_tick s \<noteq> None
         \<and> pool_decay_interval s \<le> now - the (last_pool_decay_tick s)
       then ps' = butlast ps \<and> m' = m(last ps := None) \<and> \<not> in_table s' (last ps)
       else ps' = ps \<and> m' = m)"
  using decay_ok [OF assms, of now] by blast

text \<open>The segment a class cursor hands out is a live small segment of the table with a free
  block of that class, it is not the one being carved, and it is no longer in the pool.\<close>

theorem cursor_probe_safe:
  assumes "pool_inv s m ps" and "class_idx < length (small_class_cursor s)"
  shows "\<exists>r s'. cursor_probe_base class_idx s = ret (r, s')
    \<and> (case r of
         None \<Rightarrow> pool_inv s' m ps
       | Some base \<Rightarrow> pool_inv s' m (remove1 base ps) \<and> base \<notin> set (remove1 base ps) \<and> in_table s base
           \<and> base \<noteq> small_cur s \<and> kind (seg_mem s base) \<in> {Small, Primordial}
           \<and> bin_heads s base class_idx \<noteq> FREE_LIST_NULL)"
  using cursor_probe_ok [OF assms] by blast

lemma pool_admission_exact_witness:
  "\<exists>s s' m. release_or_pool_empty_segment (2 ^ 23) s = ret (True, s') \<and> pool_inv s' m [2 ^ 23]"
proof -
  obtain t where t: "pool_inv (sample_pool t) [2 ^ 22 \<mapsto> 0, 2 ^ 23 \<mapsto> 1] []" "idle (sample_pool t) (2 ^ 23)"
    using sample_pool_ok by blast
  have "length [] < pool_cap (sample_pool t)" by (simp add: sample_pool_def)
  moreover have "(2 ^ 23 :: nat) \<notin> set []" by simp
  ultimately show ?thesis using pool_admission_exact [OF t] by (metis (no_types, lifting))
qed

lemma sample_pooled: "\<exists>s m. pool_inv s m [2 ^ 23]"
proof -
  obtain t where t: "pool_inv (sample_pool t) [2 ^ 22 \<mapsto> 0, 2 ^ 23 \<mapsto> 1] []" "idle (sample_pool t) (2 ^ 23)"
    using sample_pool_ok by blast
  have "length [] < pool_cap (sample_pool t)" and "(2 ^ 23 :: nat) \<notin> set []"
    by (simp_all add: sample_pool_def)
  from push_ok [OF t this(2,1)] show ?thesis by blast
qed

lemma pool_drain_exact_witness: "\<exists>s s' m. drain_small_pool s = ret (1, s') \<and> pool_inv s' m []"
proof -
  obtain s m where "pool_inv s m [2 ^ 23]" using sample_pooled by blast
  from pool_drain_exact [OF this] show ?thesis by auto
qed

lemma pool_decay_oldest_witness:
  "\<exists>s s' m m'. pool_inv s m [2 ^ 23] \<and> (\<exists>ps'. maybe_decay_small_pool 1000 s = ret s' \<and> pool_inv s' m' ps')"
proof -
  obtain s m where "pool_inv s m [2 ^ 23]" using sample_pooled by blast
  with pool_decay_oldest [OF this, of 1000] show ?thesis by blast
qed

lemma cursor_probe_safe_witness: "\<exists>s r s'. cursor_probe_base 3 s = ret (r, s')"
proof -
  obtain t where t: "pool_inv (sample_pool t) [2 ^ 22 \<mapsto> 0, 2 ^ 23 \<mapsto> 1] []" using sample_pool_ok by blast
  have "3 < length (small_class_cursor (sample_pool t))" by (simp add: sample_pool_def)
  from cursor_probe_safe [OF t this] show ?thesis by blast
qed

end
