(* ===== verification/SmallBlocks.thy ===== *)
theory SmallBlocks
  imports SegmentHeader Interfaces Results
begin

text \<open>
  The blocks of one small segment: the per-block state bytes
  (\<open>src/alloc_core/segment/bitmap/state_byte.rs\<close>), the table of free-list heads
  (\<open>segment_header/descriptors.rs\<close>), the checked links of the free lists
  (\<open>platform/node.rs\<close>, \<open>config/continuation_bounds.rs\<close>), and the operations that issue
  and take back blocks (\<open>small/alloc_core_small/alloc_core_small_impl.rs\<close>,
  \<open>dealloc.rs\<close>, \<open>find_segment/scan.rs\<close>).  The build is the one of the pool: debug
  assertions on, decommit on, no route slots, no lazy commit, not hardened.  The two builds of
  the misuse checks differ in what a rejected free does, so \<open>safe_mode\<close> (the feature
  \<open>misuse-checks\<close>) is a parameter.
\<close>

subsection \<open>The segment\<close>

text \<open>
  \<open>bins\<close> is the table of heads, \<open>states\<close> the state byte of each granule, \<open>cells\<close> the
  first word at each offset of the payload (the link of a free block, anything in a live one).
\<close>

record small_segment =
  seg_hdr :: segment_header
  bins :: "nat \<Rightarrow> nat"
  states :: "nat \<Rightarrow> u8"
  cells :: "nat \<Rightarrow> nat"

definition LIVE :: u8 where "LIVE = 0"
definition MAG :: u8 where "MAG = 1"
definition FREE :: u8 where "FREE = 2"

definition GRANULE_SHIFT :: nat where "GRANULE_SHIFT = trailing_zeros MIN_BLOCK"

definition encode :: "nat \<Rightarrow> u8 \<Rightarrow> u8" where
  "encode class_idx state = (word_of_nat class_idx + 1) OR push_bit 6 state"

definition state_read :: "nat \<Rightarrow> small_segment \<Rightarrow> u8" where
  "state_read off s = states s (drop_bit GRANULE_SHIFT off)"

definition state_write :: "nat \<Rightarrow> nat \<Rightarrow> u8 \<Rightarrow> small_segment \<Rightarrow> small_segment" where
  "state_write off class_idx state s =
     s\<lparr>states := (states s)(drop_bit GRANULE_SHIFT off := encode class_idx state)\<rparr>"

text \<open>A rejected free: a no-op in safe mode, fatal under debug assertions alone.\<close>

definition shadow_reject :: "bool \<Rightarrow> string \<Rightarrow> 'a \<Rightarrow> fatal + 'a" where
  "shadow_reject safe_mode site s = (if safe_mode then Inr s else Inl site)"

definition bin_head :: "nat \<Rightarrow> small_segment \<Rightarrow> fatal + nat" where
  "bin_head c s = (if \<not> c < SMALL_CLASS_COUNT then Inl ''class index out of range'' else Inr (bins s c))"

definition set_bin_head :: "nat \<Rightarrow> nat \<Rightarrow> small_segment \<Rightarrow> fatal + small_segment" where
  "set_bin_head c off s =
     (if \<not> c < SMALL_CLASS_COUNT then Inl ''class index out of range''
      else Inr (s\<lparr>bins := (bins s)(c := off)\<rparr>))"

definition bin_table_init :: "nat \<Rightarrow> nat" where "bin_table_init = (\<lambda>c. FREE_LIST_NULL)"

definition on_hdr :: "(segment_header \<Rightarrow> fatal + segment_header) \<Rightarrow> small_segment \<Rightarrow> fatal + small_segment" where
  "on_hdr f s = rbind (f (seg_hdr s)) (\<lambda>h. Inr (s\<lparr>seg_hdr := h\<rparr>))"

definition set_bump :: "nat \<Rightarrow> small_segment \<Rightarrow> small_segment" where
  "set_bump b s = s\<lparr>seg_hdr := (seg_hdr s)\<lparr>bump := b\<rparr>\<rparr>"

definition payload_start :: "segment_kind \<Rightarrow> nat" where
  "payload_start k = (if k = Primordial then primordial_meta_end else small_meta_end)"

subsection \<open>Links\<close>

definition bounds_new :: "small_segment \<Rightarrow> fatal + nat \<times> nat" where
  "bounds_new s =
     (let lo = (case kind (seg_hdr s) of Primordial \<Rightarrow> primordial_meta_end | _ \<Rightarrow> small_meta_end);
          hi = min (bump (seg_hdr s)) SEGMENT
      in if hi < lo then Inl ''node: free-list continuation out of range or misaligned''
         else Inr (lo, hi - lo))"

definition contains_aligned :: "nat \<times> nat \<Rightarrow> nat \<Rightarrow> bool" where
  "contains_aligned b off \<longleftrightarrow> wrapping_sub off (fst b) < snd b \<and> off AND (MIN_BLOCK - 1) = 0"

definition continuation_fatal :: "nat \<Rightarrow> nat \<Rightarrow> string" where
  "continuation_fatal base nxt =
     (if nxt < base then ''node: free-list continuation precedes segment base''
      else ''node: free-list continuation out of range or misaligned'')"

definition continuation_offset_or_fatal :: "nat \<Rightarrow> nat \<Rightarrow> nat \<times> nat \<Rightarrow> fatal + nat" where
  "continuation_offset_or_fatal base nxt bounds =
     (let off = wrapping_sub nxt base in
      if \<not> contains_aligned bounds off then Inl (continuation_fatal base nxt)
      else Inr (off mod 2 ^ 32))"

subsection \<open>Issuing a freed block\<close>

definition pop_free :: "nat \<Rightarrow> nat \<Rightarrow> small_segment \<Rightarrow> fatal + nat option \<times> small_segment" where
  "pop_free base class_idx s =
     rbind (bin_head class_idx s) (\<lambda>head_off.
       if head_off = FREE_LIST_NULL then Inr (None, s)
       else if base + head_off = 0 then Inr (None, s)
       else
         let nxt = cells s head_off in
         rbind (if nxt = 0 then Inr FREE_LIST_NULL
                else rbind (bounds_new s) (continuation_offset_or_fatal base nxt)) (\<lambda>new_head.
         rbind (set_bin_head class_idx new_head s) (\<lambda>s1.
           if state_read head_off s1 \<noteq> encode class_idx FREE
           then Inl ''pop_free: free-list head must carry its exact class FREE byte''
           else rbind (on_hdr inc_live (state_write head_off class_idx LIVE s1)) (\<lambda>s2.
             Inr (Some (base + head_off), s2)))))"

fun drain_loop ::
    "nat \<Rightarrow> nat \<Rightarrow> u8 \<Rightarrow> nat \<times> nat \<Rightarrow> nat \<Rightarrow> nat \<Rightarrow> small_segment \<Rightarrow> fatal + nat list \<times> nat \<times> small_segment" where
  "drain_loop base class_idx issue_state bounds 0 head_off s = Inr ([], head_off, s)"
| "drain_loop base class_idx issue_state bounds (Suc room) head_off s =
     (if head_off = FREE_LIST_NULL then Inr ([], head_off, s)
      else if base + head_off = 0 then Inr ([], head_off, s)
      else
        let nxt = cells s head_off in
        rbind (if nxt = 0 then Inr FREE_LIST_NULL else continuation_offset_or_fatal base nxt bounds) (\<lambda>next_off.
        rbind (drain_loop base class_idx issue_state bounds room next_off
                 (state_write head_off class_idx issue_state s)) (\<lambda>(ptrs, h, s').
          Inr ((base + head_off) # ptrs, h, s'))))"

definition try_drain_freelist_batch ::
    "nat \<Rightarrow> nat \<Rightarrow> nat \<Rightarrow> u8 \<Rightarrow> small_segment \<Rightarrow> fatal + nat list \<times> small_segment" where
  "try_drain_freelist_batch base class_idx out_len issue_state s =
     (if out_len = 0 then Inr ([], s)
      else rbind (bin_head class_idx s) (\<lambda>head_off.
        if head_off = FREE_LIST_NULL then Inr ([], s)
        else rbind (bounds_new s) (\<lambda>bounds.
          rbind (drain_loop base class_idx issue_state bounds out_len head_off s) (\<lambda>(ptrs, h, s1).
          rbind (set_bin_head class_idx h s1) (\<lambda>s2.
          rbind (on_hdr (add_live (length ptrs)) s2) (\<lambda>s3. Inr (ptrs, s3)))))))"

subsection \<open>Issuing a new block\<close>

text \<open>
  \<open>recommit\<close> is the answer of the operating system to the request to back the payload of a
  decommitted segment again.
\<close>

definition recommit_if_needed :: "bool \<Rightarrow> small_segment \<Rightarrow> small_segment option" where
  "recommit_if_needed recommit s =
     (if is_decommitted (seg_hdr s)
      then if \<not> recommit then None else Some (s\<lparr>seg_hdr := set_decommitted False (seg_hdr s)\<rparr>)
      else Some s)"

definition aligned_to :: "nat \<Rightarrow> nat \<Rightarrow> fatal + nat" where
  "aligned_to n a = (case align_up n a of None \<Rightarrow> Inl ''align must be non-zero'' | Some m \<Rightarrow> Inr m)"

definition carve_block ::
    "bool \<Rightarrow> nat \<Rightarrow> nat \<Rightarrow> nat \<Rightarrow> small_segment \<Rightarrow> fatal + nat option \<times> small_segment" where
  "carve_block recommit base class_idx bsize s =
     rbind (aligned_to (bump (seg_hdr s)) bsize) (\<lambda>aligned_bump.
       if SEGMENT < aligned_bump + bsize then Inr (None, s)
       else case recommit_if_needed recommit s of
           None \<Rightarrow> Inr (None, s)
         | Some s1 \<Rightarrow>
             rbind (on_hdr inc_live (set_bump (aligned_bump + bsize) s1)) (\<lambda>s2.
               Inr (Some (base + aligned_bump), state_write aligned_bump class_idx LIVE s2)))"

definition try_carve_batch ::
    "bool \<Rightarrow> nat \<Rightarrow> nat \<Rightarrow> nat \<Rightarrow> nat \<Rightarrow> u8 \<Rightarrow> small_segment \<Rightarrow> fatal + nat list \<times> small_segment" where
  "try_carve_batch recommit base class_idx bsize out_len issue_state s =
     (if out_len = 0 then Inr ([], s)
      else rbind (aligned_to (bump (seg_hdr s)) bsize) (\<lambda>start.
        if SEGMENT < start + bsize then Inr ([], s)
        else
          let n = min out_len ((SEGMENT - start) div bsize);
              offs = map (\<lambda>i. start + i * bsize) [0..<n]
          in case recommit_if_needed recommit s of
              None \<Rightarrow> Inr ([], s)
            | Some s1 \<Rightarrow>
                rbind (on_hdr (add_live n) (set_bump (start + n * bsize) s1)) (\<lambda>s2.
                  Inr (map ((+) base) (if issue_state = MAG then rev offs else offs),
                       fold (\<lambda>off. state_write off class_idx issue_state) offs s2))))"

subsection \<open>Taking a block back\<close>

text \<open>
  \<open>dealloc_small\<close> up to the live counter, and whether it got there; what an emptied segment
  does then is the pool's.
\<close>

definition dealloc_small ::
    "bool \<Rightarrow> nat \<Rightarrow> nat \<Rightarrow> nat \<Rightarrow> small_segment \<Rightarrow> fatal + bool \<times> small_segment" where
  "dealloc_small safe_mode base ptr class_idx s =
     (let off = (ptr - base) mod 2 ^ 32 in
      if ptr < base then Inl ''attempt to subtract with overflow''
      else if off < payload_start (kind (seg_hdr s))
      then shadow_reject safe_mode ''misuse check rejected a free (dealloc_small payload start)'' (False, s)
      else if bump (seg_hdr s) \<le> off
      then shadow_reject safe_mode ''misuse check rejected a free (dealloc_small bump)'' (False, s)
      else if off AND (MIN_BLOCK - 1) \<noteq> 0 \<or> state_read off s \<noteq> encode class_idx LIVE
      then shadow_reject safe_mode ''misuse check rejected a free (dealloc_small)'' (False, s)
      else if base + off = 0 then Inr (False, s)
      else
        rbind (bin_head class_idx s) (\<lambda>old_head.
          let old_head_ptr = (if old_head = FREE_LIST_NULL then 0 else base + old_head);
              s1 = s\<lparr>cells := (cells s)(off := old_head_ptr)\<rparr>
          in rbind (set_bin_head class_idx off s1) (\<lambda>s2.
             rbind (on_hdr (\<lambda>h. rbind (dec_live h) (\<lambda>(_, h'). Inr h')) (state_write off class_idx FREE s2))
               (\<lambda>s3. Inr (True, s3)))))"

definition REFILL_BATCH :: nat where "REFILL_BATCH = 31"

fun refill_loop ::
    "bool \<Rightarrow> bool \<Rightarrow> nat \<Rightarrow> nat \<Rightarrow> nat \<Rightarrow> nat \<Rightarrow> small_segment \<Rightarrow> fatal + small_segment" where
  "refill_loop safe_mode recommit base class_idx bsize 0 s = Inr s"
| "refill_loop safe_mode recommit base class_idx bsize (Suc k) s =
     rbind (carve_block recommit base class_idx bsize s) (\<lambda>(extra, s1).
       case extra of
         None \<Rightarrow> Inr s1
       | Some p \<Rightarrow> rbind (dealloc_small safe_mode (segment_base_of p) p class_idx s1)
           (\<lambda>(_, s2). refill_loop safe_mode recommit base class_idx bsize k s2))"

definition carve_block_with_refill ::
    "bool \<Rightarrow> bool \<Rightarrow> nat \<Rightarrow> nat \<Rightarrow> nat \<Rightarrow> small_segment \<Rightarrow> fatal + nat option \<times> small_segment" where
  "carve_block_with_refill safe_mode recommit base class_idx bsize s =
     rbind (carve_block recommit base class_idx bsize s) (\<lambda>(first, s1).
       case first of
         None \<Rightarrow> Inr (None, s1)
       | Some p \<Rightarrow> rbind (refill_loop safe_mode recommit base class_idx bsize REFILL_BATCH s1)
           (\<lambda>s2. Inr (Some p, s2)))"

text \<open>A fresh small segment: an empty table, zeroed state bytes, the bump at the payload.\<close>

definition fresh_segment :: "segment_header \<Rightarrow> (nat \<Rightarrow> nat) \<Rightarrow> small_segment" where
  "fresh_segment h m = \<lparr>seg_hdr = h, bins = bin_table_init, states = (\<lambda>_. 0), cells = m\<rparr>"

subsection \<open>The blocks a segment holds\<close>

definition class_size :: "nat \<Rightarrow> nat" where "class_size c = SIZE_CLASS_TABLE ! c"

lemma class_size_facts:
  assumes "c < 49"
  shows "16 dvd class_size c" "16 \<le> class_size c" "class_size c \<le> 258752"
proof -
  have "\<forall>d \<in> set SIZE_CLASS_TABLE. 16 dvd d \<and> 16 \<le> d \<and> d \<le> 258752"
    unfolding SIZE_CLASS_TABLE_eq by simp
  moreover have "class_size c \<in> set SIZE_CLASS_TABLE" using assms by (simp add: class_size_def)
  ultimately show "16 dvd class_size c" "16 \<le> class_size c" "class_size c \<le> 258752" by blast+
qed

lemma granule_shift [simp]: "GRANULE_SHIFT = 4"
  using MIN_BLOCK_SHIFT_eq unfolding GRANULE_SHIFT_def MIN_BLOCK_SHIFT_def .

text \<open>A state byte read back: the class and the state it encodes.\<close>

definition decode :: "u8 \<Rightarrow> (nat \<times> u8) option" where
  "decode b =
     (let c = unat b mod 64; st = unat b div 64 in
      if c = 0 \<or> 49 < c \<or> st = 3 then None else Some (c - 1, word_of_nat st))"

lemma unat_encode:
  assumes "c < 49" and "unat st < 3"
  shows "unat (encode c st) = 64 * unat st + (c + 1)"
proof -
  have l: "unat (word_of_nat c + 1 :: u8) = c + 1"
    using assms(1) by (simp add: unat_word_ariths unat_of_nat)
  have h: "unat (push_bit 6 st) = 64 * unat st"
    using assms(2) by (simp add: push_bit_eq_mult unat_word_ariths)
  have "unat (encode c st) = (c + 1) OR (64 * unat st)"
    by (simp only: encode_def unsigned_or_eq l h)
  also have "\<dots> = (64 * unat st) OR (c + 1)" by (rule or.commute)
  also have "\<dots> = 64 * unat st + (c + 1)"
    by (rule or_low_bits [where k = 6]) (use assms(1) in simp_all)
  finally show ?thesis .
qed

lemma encoded_parts:
  fixes c u :: nat
  assumes "c < 49"
  shows "(64 * u + (c + 1)) div 64 = u" "(64 * u + (c + 1)) mod 64 = c + 1"
proof -
  have "64 * u + (c + 1) = (c + 1) + 64 * u" by (rule add.commute)
  moreover have "(c + 1) div 64 = 0" "(c + 1) mod 64 = c + 1" using assms by simp_all
  ultimately show "(64 * u + (c + 1)) div 64 = u" "(64 * u + (c + 1)) mod 64 = c + 1"
    by (simp_all only: div_mult_self2 [OF zero_neq_numeral [symmetric]] mod_mult_self2 add_0_right)
qed

lemma decode_encode: "c < 49 \<Longrightarrow> unat st < 3 \<Longrightarrow> decode (encode c st) = Some (c, st)"
  using encoded_parts [of c "unat st"] by (simp add: decode_def unat_encode Let_def del: mult_Suc)

lemma encode_decode:
  assumes "decode b = Some (c, st)"
  shows "c < 49 \<and> unat st < 3 \<and> b = encode c st"
proof -
  let ?c = "unat b mod 64" and ?st = "unat b div 64"
  have ne: "?c \<noteq> 0" "\<not> 49 < ?c" "?st \<noteq> 3" and c: "c = ?c - 1" and st: "st = word_of_nat ?st"
    using assms by (auto simp: decode_def Let_def split: if_splits)
  have "unat b < 256" using unsigned_less [of b] by simp
  then have s3: "?st < 3" using ne(3) by (simp add: less_mult_imp_div_less)
  then have u: "unat st = ?st" by (simp add: st unat_of_nat)
  have c49: "c < 49" using ne c by linarith
  have "unat (encode c st) = 64 * ?st + ?c" using unat_encode [OF c49] s3 u ne(1) c by simp
  also have "\<dots> = unat b" by simp
  finally show ?thesis using c49 s3 u by (simp add: word_unat_eq_iff)
qed

lemma states_small [simp]: "unat LIVE < 3" "unat MAG < 3" "unat FREE < 3"
  by (simp_all add: LIVE_def MAG_def FREE_def)

lemma states_differ [simp]: "LIVE \<noteq> FREE" "FREE \<noteq> LIVE" "MAG \<noteq> FREE" "FREE \<noteq> MAG" "LIVE \<noteq> MAG"
  by (simp_all add: LIVE_def MAG_def FREE_def)

definition block :: "small_segment \<Rightarrow> nat \<Rightarrow> (nat \<times> u8) option" where
  "block s off = (if off < SEGMENT \<and> 16 dvd off then decode (state_read off s) else None)"

lemma block_hdr [simp]:
  "block (s\<lparr>seg_hdr := h\<rparr>) = block s" "block (s\<lparr>bins := hs\<rparr>) = block s" "block (s\<lparr>cells := m\<rparr>) = block s"
  by (simp_all add: fun_eq_iff block_def state_read_def)

lemma state_write_fields [simp]:
  "seg_hdr (state_write off c st s) = seg_hdr s" "bins (state_write off c st s) = bins s"
  "cells (state_write off c st s) = cells s"
  by (simp_all add: state_write_def)

lemma block_write:
  assumes "off < SEGMENT" and "16 dvd off" and "c < 49" and "unat st < 3"
  shows "block (state_write off c st s) = (block s)(off \<mapsto> (c, st))"
proof
  fix x
  have "drop_bit 4 x \<noteq> drop_bit 4 off" if "16 dvd x" "x \<noteq> off"
    using that assms(2) by (auto simp: drop_bit_eq_div dvd_def)
  then show "block (state_write off c st s) x = ((block s)(off \<mapsto> (c, st))) x"
    using assms by (auto simp: block_def state_write_def state_read_def decode_encode)
qed

lemma block_bounds: "block s off = Some (c, st) \<Longrightarrow> off < SEGMENT \<and> 16 dvd off \<and> c < 49 \<and> unat st < 3"
  by (auto simp: block_def split: if_splits dest: encode_decode)

lemma state_read_block:
  assumes "off < SEGMENT" and "16 dvd off" and "c < 49" and "unat st < 3"
  shows "state_read off s = encode c st \<longleftrightarrow> block s off = Some (c, st)"
  using assms by (auto simp: block_def decode_encode dest: encode_decode)

text \<open>The blocks in use: the caller's and those a magazine holds.\<close>

definition held :: "(nat \<Rightarrow> (nat \<times> u8) option) \<Rightarrow> nat \<Rightarrow> nat option" where
  "held B off = (case B off of None \<Rightarrow> None | Some (c, st) \<Rightarrow> if st = FREE then None else Some c)"

lemma held_Some: "held B off = Some c \<longleftrightarrow> (\<exists>st. B off = Some (c, st) \<and> st \<noteq> FREE)"
  by (auto simp: held_def split: option.splits if_splits)

lemma held_upd: "held (B(off \<mapsto> (c, st))) = (held B)(off := if st = FREE then None else Some c)"
  by (auto simp: held_def fun_eq_iff)

subsection \<open>The invariant\<close>

text \<open>
  Blocks lie inside the carved payload, at multiples of their size, apart from each other;
  each class's free list visits exactly its free blocks; the live counter counts the rest.
\<close>

definition placed :: "segment_kind \<Rightarrow> nat \<Rightarrow> (nat \<Rightarrow> (nat \<times> u8) option) \<Rightarrow> bool" where
  "placed k b B \<longleftrightarrow> (\<forall>off c st. B off = Some (c, st) \<longrightarrow>
     payload_start k \<le> off \<and> off + class_size c \<le> b \<and> class_size c dvd off)"

definition apart :: "(nat \<Rightarrow> (nat \<times> u8) option) \<Rightarrow> bool" where
  "apart B \<longleftrightarrow> (\<forall>off c st off' c' st'. B off = Some (c, st) \<and> B off' = Some (c', st') \<and> off < off'
     \<longrightarrow> off + class_size c \<le> off')"

definition link_ptr :: "nat \<Rightarrow> nat \<Rightarrow> nat" where
  "link_ptr base h = (if h = FREE_LIST_NULL then 0 else base + h)"

primrec free_chain :: "nat \<Rightarrow> (nat \<Rightarrow> nat) \<Rightarrow> nat \<Rightarrow> nat list \<Rightarrow> bool" where
  "free_chain base m h [] = (h = FREE_LIST_NULL)"
| "free_chain base m h (x # xs) =
     (h = x \<and> (\<exists>y. m x = link_ptr base y \<and> free_chain base m y xs))"

definition free_lists :: "nat \<Rightarrow> (nat \<Rightarrow> nat) \<Rightarrow> (nat \<Rightarrow> nat) \<Rightarrow> (nat \<Rightarrow> (nat \<times> u8) option) \<Rightarrow> bool" where
  "free_lists base m h B \<longleftrightarrow> (\<forall>c < 49. \<exists>xs. free_chain base m (h c) xs \<and> distinct xs
     \<and> set xs = {off. B off = Some (c, FREE)})"

definition based :: "nat \<Rightarrow> bool" where
  "based base \<longleftrightarrow> 0 < base \<and> base + SEGMENT \<le> 2 ^ 64 \<and> SEGMENT dvd base"

definition seg_ok :: "nat \<Rightarrow> small_segment \<Rightarrow> bool" where
  "seg_ok base s \<longleftrightarrow> based base \<and> kind (seg_hdr s) \<in> {Primordial, Small}
     \<and> payload_start (kind (seg_hdr s)) \<le> bump (seg_hdr s) \<and> bump (seg_hdr s) \<le> SEGMENT
     \<and> placed (kind (seg_hdr s)) (bump (seg_hdr s)) (block s) \<and> apart (block s)
     \<and> free_lists base (cells s) (bins s) (block s)
     \<and> live_count (seg_hdr s) = card (dom (held (block s)))"

lemma free_chain_cong:
  "(\<And>x. x \<in> set xs \<Longrightarrow> m' x = m x) \<Longrightarrow> free_chain base m' h xs = free_chain base m h xs"
  by (induction xs arbitrary: h) auto

lemma chain_null: "free_chain base m h xs \<Longrightarrow> FREE_LIST_NULL \<notin> set xs \<Longrightarrow> h = FREE_LIST_NULL \<longleftrightarrow> xs = []"
  by (cases xs) auto

subsection \<open>Updating the invariant\<close>

text \<open>Blocks \<open>Y\<close> issued to state \<open>st\<close> as blocks of class \<open>c\<close>.\<close>

definition issue :: "nat \<Rightarrow> u8 \<Rightarrow> nat set \<Rightarrow> (nat \<Rightarrow> (nat \<times> u8) option) \<Rightarrow> nat \<Rightarrow> (nat \<times> u8) option" where
  "issue c st Y B = (\<lambda>off. if off \<in> Y then Some (c, st) else B off)"

lemma issue_single: "issue c st {off} B = B(off \<mapsto> (c, st))"
  by (simp add: issue_def fun_eq_iff)

lemma same_classes:
  assumes "\<And>off. map_option fst (B' off) = map_option fst (B off)"
  shows "placed k b B' = placed k b B" and "apart B' = apart B"
proof -
  have e: "(\<exists>st. B' off = Some (c, st)) \<longleftrightarrow> (\<exists>st. B off = Some (c, st))" for off c
    using assms [of off] by (cases "B' off"; cases "B off"; force)
  have p: "placed k b D \<longleftrightarrow> (\<forall>off c. (\<exists>st. D off = Some (c, st)) \<longrightarrow>
     payload_start k \<le> off \<and> off + class_size c \<le> b \<and> class_size c dvd off)" for D
    unfolding placed_def by blast
  have q: "apart D \<longleftrightarrow> (\<forall>off c off' c'. (\<exists>st. D off = Some (c, st)) \<and> (\<exists>st. D off' = Some (c', st)) \<and> off < off'
     \<longrightarrow> off + class_size c \<le> off')" for D
    unfolding apart_def by blast
  show "placed k b B' = placed k b B" unfolding p e ..
  show "apart B' = apart B" unfolding q e ..
qed

lemma issue_classes:
  "(\<And>y. y \<in> Y \<Longrightarrow> B y = Some (c, FREE)) \<Longrightarrow> map_option fst (issue c st Y B off) = map_option fst (B off)"
  by (simp add: issue_def)

lemma placed_new:
  assumes "placed k b B" and "b \<le> b'"
    and "\<And>y. y \<in> Y \<Longrightarrow> payload_start k \<le> y \<and> y + class_size c \<le> b' \<and> class_size c dvd y"
  shows "placed k b' (issue c st Y B)"
  using assms by (fastforce simp: placed_def issue_def)

lemma apart_new:
  assumes "apart B" and "placed k b B" and new: "\<And>y. y \<in> Y \<Longrightarrow> b \<le> y"
    and each: "\<And>y z. y \<in> Y \<Longrightarrow> z \<in> Y \<Longrightarrow> y < z \<Longrightarrow> y + class_size c \<le> z" and c: "c < 49"
  shows "apart (issue c st Y B)"
proof -
  have below: "x + class_size c' \<le> y" if "B x = Some (c', st')" "y \<in> Y" for x y c' st'
    using assms(2) that new unfolding placed_def by (meson order.trans)
  show ?thesis unfolding apart_def
  proof (intro allI impI, elim conjE)
    fix x c1 st1 y c2 st2
    assume B: "issue c st Y B x = Some (c1, st1)" "issue c st Y B y = Some (c2, st2)" and xy: "x < y"
    show "x + class_size c1 \<le> y"
    proof (cases "x \<in> Y")
      case True
      have "y \<in> Y"
      proof (rule ccontr)
        assume "y \<notin> Y"
        then have "B y = Some (c2, st2)" using B(2) by (simp add: issue_def)
        from below [OF this True] xy show False by simp
      qed
      then show ?thesis using each [OF True _ xy] B(1) True by (simp add: issue_def)
    next
      case False
      then have x: "B x = Some (c1, st1)" using B(1) by (simp add: issue_def)
      show ?thesis
      proof (cases "y \<in> Y")
        case True
        then show ?thesis using below [OF x] by simp
      next
        case False
        then have "B y = Some (c2, st2)" using B(2) by (simp add: issue_def)
        then show ?thesis using assms(1) x xy unfolding apart_def by blast
      qed
    qed
  qed
qed

lemma free_lists_take:
  assumes fl: "free_lists base m h B" and c: "c < 49"
    and xs: "distinct (ys @ zs)" "set (ys @ zs) = {off. B off = Some (c, FREE)}"
    and rest: "free_chain base m y zs" and st: "st \<noteq> FREE"
  shows "free_lists base m (h(c := y)) (issue c st (set ys) B)"
  unfolding free_lists_def
proof (intro allI impI)
  fix d assume d: "d < (49 :: nat)"
  have ys: "B off = Some (c, FREE)" if "off \<in> set ys" for off using xs(2) that by auto
  show "\<exists>xs. free_chain base m ((h(c := y)) d) xs \<and> distinct xs
      \<and> set xs = {off. issue c st (set ys) B off = Some (d, FREE)}"
  proof (cases "d = c")
    case True
    have "set zs = {off. issue c st (set ys) B off = Some (d, FREE)}"
      using xs st ys True by (auto simp: issue_def)
    then show ?thesis using rest xs(1) True by auto
  next
    case False
    from fl d obtain ws where ws: "free_chain base m (h d) ws" "distinct ws"
      "set ws = {off. B off = Some (d, FREE)}" unfolding free_lists_def by blast
    have "set ws = {off. issue c st (set ys) B off = Some (d, FREE)}"
      using ws(3) ys False st by (auto simp: issue_def)
    then show ?thesis using ws(1,2) False by auto
  qed
qed

lemma free_lists_new:
  assumes "free_lists base m h B" and "st \<noteq> FREE" and "\<And>y. y \<in> Y \<Longrightarrow> B y = None"
  shows "free_lists base m h (issue c st Y B)"
proof -
  have "{off. issue c st Y B off = Some (d, FREE)} = {off. B off = Some (d, FREE)}" for d
    using assms(2,3) by (auto simp: issue_def split: if_splits)
  then show ?thesis using assms(1) by (simp add: free_lists_def)
qed

lemma free_lists_put:
  assumes fl: "free_lists base m h B" and off: "B off = Some (c, st)" "st \<noteq> FREE" and c: "c < 49"
  shows "free_lists base (m(off := link_ptr base (h c))) (h(c := off)) (B(off \<mapsto> (c, FREE)))"
  unfolding free_lists_def
proof (intro allI impI)
  fix d assume d: "d < (49 :: nat)"
  let ?m = "m(off := link_ptr base (h c))"
  from fl d obtain xs where xs: "free_chain base m (h d) xs" "distinct xs"
    "set xs = {o'. B o' = Some (d, FREE)}" unfolding free_lists_def by blast
  have notin: "off \<notin> set xs" unfolding xs(3) using off by simp
  then have m: "free_chain base ?m (h d) xs" using xs(1) by (subst free_chain_cong) auto
  show "\<exists>xs. free_chain base ?m ((h(c := off)) d) xs \<and> distinct xs
      \<and> set xs = {o'. (B(off \<mapsto> (c, FREE))) o' = Some (d, FREE)}"
  proof (cases "d = c")
    case True
    then have "free_chain base ?m off (off # xs)" using m by auto
    moreover have "set (off # xs) = {o'. (B(off \<mapsto> (c, FREE))) o' = Some (d, FREE)}"
      using xs(3) True by auto
    ultimately show ?thesis using True notin xs(2) by (intro exI [of _ "off # xs"]) simp
  next
    case False
    then have "set xs = {o'. (B(off \<mapsto> (c, FREE))) o' = Some (d, FREE)}" using xs(3) off(1) by auto
    then show ?thesis using m xs(2) False by auto
  qed
qed

lemma block_dom: "dom (block s) \<subseteq> (\<lambda>i. 16 * i) ` {..<262144}"
proof
  fix off assume "off \<in> dom (block s)"
  then have "off < 4194304" "16 dvd off" using block_bounds by force+
  then show "off \<in> (\<lambda>i. 16 * i) ` {..<262144}" by (auto simp: dvd_def)
qed

lemma finite_blocks: "finite (dom (block s))"
  using block_dom by (rule finite_subset) simp

lemma held_dom: "dom (held B) \<subseteq> dom B"
  by (auto simp: held_def split: option.splits)

lemma held_count: "card (dom (held (block s))) \<le> 262144"
proof -
  have "dom (held (block s)) \<subseteq> (\<lambda>i. 16 * i) ` {..<262144}" using held_dom block_dom by (rule order.trans)
  then have "card (dom (held (block s))) \<le> card ((\<lambda>i. 16 * i) ` {..<262144 :: nat})"
    by (intro card_mono) simp_all
  also have "\<dots> \<le> 262144" using card_image_le [of "{..<262144 :: nat}" "\<lambda>i. 16 * i"] by simp
  finally show ?thesis .
qed

lemma finite_held: "finite (dom (held (block s)))"
  using held_dom finite_blocks by (rule finite_subset)

lemma held_issue:
  assumes "st \<noteq> FREE"
  shows "dom (held (issue c st Y B)) = dom (held B) \<union> Y"
  using assms by (auto simp: held_def issue_def split: option.splits if_splits)

lemma held_issue_count:
  assumes "block s' = issue c st (set ys) (block s)" and "st \<noteq> FREE" and "distinct ys"
    and "\<And>y. y \<in> set ys \<Longrightarrow> held (block s) y = None"
  shows "card (dom (held (block s'))) = card (dom (held (block s))) + length ys"
proof -
  have "dom (held (block s)) \<inter> set ys = {}" using assms(4) by force
  then have "card (dom (held (block s)) \<union> set ys) = card (dom (held (block s))) + card (set ys)"
    using finite_held by (intro card_Un_disjoint) auto
  then show ?thesis using assms(1,3) held_issue [OF assms(2)] by (simp add: distinct_card)
qed

lemma on_add_live:
  assumes "live_count (seg_hdr s) + n \<le> 262144"
  shows "on_hdr (add_live n) s
    = Inr (s\<lparr>seg_hdr := (seg_hdr s)\<lparr>live_count := live_count (seg_hdr s) + n\<rparr>\<rparr>)"
  using assms by (simp add: on_hdr_def add_live_def)

lemma block_writes:
  assumes "\<And>y. y \<in> set ys \<Longrightarrow> y < SEGMENT \<and> 16 dvd y" and "c < 49" and "unat st < 3"
  shows "block (fold (\<lambda>off. state_write off c st) ys s) = issue c st (set ys) (block s)"
  using assms(1)
proof (induction ys arbitrary: s)
  case (Cons y ys)
  have "block (state_write y c st s) = (block s)(y \<mapsto> (c, st))"
    by (rule block_write) (use Cons.prems assms in simp_all)
  then show ?case using Cons by (auto simp: issue_def fun_eq_iff)
qed (simp add: issue_def)

lemma writes_fields [simp]:
  "seg_hdr (fold (\<lambda>off. state_write off c st) ys s) = seg_hdr s"
  "bins (fold (\<lambda>off. state_write off c st) ys s) = bins s"
  "cells (fold (\<lambda>off. state_write off c st) ys s) = cells s"
  by (induction ys arbitrary: s) simp_all

text \<open>Free blocks handed out again.\<close>

lemma seg_ok_reissue:
  assumes ok: "seg_ok base s" and c: "c < 49" and st: "st \<noteq> FREE"
    and free: "\<And>y. y \<in> set ys \<Longrightarrow> block s y = Some (c, FREE)" and d: "distinct ys"
    and b: "block s' = issue c st (set ys) (block s)"
    and fl: "free_lists base (cells s') (bins s') (block s')"
    and h: "seg_hdr s' = (seg_hdr s)\<lparr>live_count := live_count (seg_hdr s) + length ys\<rparr>"
  shows "seg_ok base s'"
proof -
  have "held (block s) y = None" if "y \<in> set ys" for y using free [OF that] by (simp add: held_def)
  then have "card (dom (held (block s'))) = live_count (seg_hdr s) + length ys"
    using held_issue_count [OF b st d] ok by (simp add: seg_ok_def)
  moreover have "placed k n (block s') = placed k n (block s)" "apart (block s') = apart (block s)" for k n
    unfolding b by (rule same_classes, rule issue_classes, use free in blast)+
  ultimately show ?thesis using ok fl h by (simp add: seg_ok_def)
qed

text \<open>New blocks behind the bump.\<close>

lemma seg_ok_new:
  assumes ok: "seg_ok base s" and c: "c < 49" and st: "st \<noteq> FREE" and d: "distinct ys"
    and new: "\<And>y. y \<in> set ys \<Longrightarrow> bump (seg_hdr s) \<le> y \<and> y + class_size c \<le> b' \<and> class_size c dvd y"
    and each: "\<And>y z. y \<in> set ys \<Longrightarrow> z \<in> set ys \<Longrightarrow> y < z \<Longrightarrow> y + class_size c \<le> z"
    and b': "bump (seg_hdr s) \<le> b'" "b' \<le> SEGMENT"
    and b: "block s' = issue c st (set ys) (block s)" and cells: "cells s' = cells s" "bins s' = bins s"
    and h: "seg_hdr s' = (seg_hdr s)\<lparr>bump := b', live_count := live_count (seg_hdr s) + length ys, decommitted := dc\<rparr>"
  shows "seg_ok base s' \<and> (\<forall>y \<in> set ys. block s y = None)"
proof -
  let ?k = "kind (seg_hdr s)"
  have pl: "placed ?k (bump (seg_hdr s)) (block s)" and ps: "payload_start ?k \<le> bump (seg_hdr s)"
    using ok by (simp_all add: seg_ok_def)
  have none: "block s y = None" if y: "y \<in> set ys" for y
  proof (rule ccontr)
    assume "block s y \<noteq> None"
    then obtain c' st' where e: "block s y = Some (c', st')" by auto
    then have "y + class_size c' \<le> bump (seg_hdr s)" "16 \<le> class_size c'"
      using pl class_size_facts(2) block_bounds [OF e] unfolding placed_def by blast+
    then show False using new [OF y] by simp
  qed
  have "placed ?k b' (block s')" unfolding b
    by (rule placed_new [OF pl b'(1)]) (use new ps in \<open>blast intro: order.trans\<close>)
  moreover have "apart (block s')" unfolding b
    by (rule apart_new [OF _ pl]) (use ok new each c in \<open>auto simp: seg_ok_def\<close>)
  moreover have "free_lists base (cells s') (bins s') (block s')" unfolding b cells
    by (rule free_lists_new [OF _ st none]) (use ok in \<open>simp_all add: seg_ok_def\<close>)
  moreover have "card (dom (held (block s'))) = live_count (seg_hdr s) + length ys"
    using held_issue_count [OF b st d] none ok by (simp add: seg_ok_def held_def)
  ultimately show ?thesis using ok h b' none ps by (simp add: seg_ok_def)
qed

subsection \<open>Links read back\<close>

definition seg_bounds :: "small_segment \<Rightarrow> nat \<times> nat" where
  "seg_bounds s = (payload_start (kind (seg_hdr s)), bump (seg_hdr s) - payload_start (kind (seg_hdr s)))"

lemma bounds_ok: "seg_ok base s \<Longrightarrow> bounds_new s = Inr (seg_bounds s)"
  by (auto simp: seg_ok_def bounds_new_def seg_bounds_def payload_start_def Let_def)

definition valid_off :: "small_segment \<Rightarrow> nat \<Rightarrow> bool" where
  "valid_off s y \<longleftrightarrow> payload_start (kind (seg_hdr s)) \<le> y \<and> y < bump (seg_hdr s) \<and> 16 dvd y"

lemma block_valid:
  assumes "seg_ok base s" and "block s y = Some (c, st)"
  shows "valid_off s y"
proof -
  have "payload_start (kind (seg_hdr s)) \<le> y" "y + class_size c \<le> bump (seg_hdr s)"
    using assms unfolding seg_ok_def placed_def by blast+
  then show ?thesis using block_bounds [OF assms(2)] class_size_facts(2) [of c] by (simp add: valid_off_def)
qed

lemma low_bits_16: "(off :: nat) AND 15 = 0 \<longleftrightarrow> 16 dvd off"
  using and_pred_two_pow [of off 4] by (simp add: dvd_eq_mod_eq_0)

lemma wrapping_sub_ge:
  assumes "b \<le> a" and "a < 2 ^ 64"
  shows "wrapping_sub a b = a - b"
proof -
  have "a + 2 ^ 64 - b = (a - b) + 2 ^ 64" using assms(1) by simp
  then show ?thesis using assms(2) by (simp only: wrapping_sub_def mod_add_self2) simp
qed

definition read_link :: "nat \<Rightarrow> nat \<times> nat \<Rightarrow> nat \<Rightarrow> fatal + nat" where
  "read_link base b nxt = (if nxt = 0 then Inr FREE_LIST_NULL else continuation_offset_or_fatal base nxt b)"

lemma read_link_ok:
  assumes ok: "seg_ok base s" and y: "y = FREE_LIST_NULL \<or> valid_off s y"
  shows "read_link base (seg_bounds s) (link_ptr base y) = Inr y"
proof (cases "y = FREE_LIST_NULL")
  case False
  then have v: "valid_off s y" using y by simp
  have "base + SEGMENT \<le> 2 ^ 64" "0 < base" "bump (seg_hdr s) \<le> SEGMENT" using ok by (simp_all add: seg_ok_def based_def)
  then have yl: "y < SEGMENT" "base + y < 2 ^ 64" "0 < base" using v by (simp_all add: valid_off_def)
  have "wrapping_sub (base + y) base = y" using yl by (simp add: wrapping_sub_ge)
  moreover have "wrapping_sub y (payload_start (kind (seg_hdr s))) = y - payload_start (kind (seg_hdr s))"
    using v yl by (simp add: wrapping_sub_ge valid_off_def)
  moreover have "y mod 2 ^ 32 = y" using yl(1) by simp
  ultimately show ?thesis using False v yl(3)
    by (simp add: read_link_def link_ptr_def continuation_offset_or_fatal_def contains_aligned_def seg_bounds_def
        valid_off_def MIN_BLOCK_def low_bits_16 diff_less_mono Let_def)
qed (simp add: read_link_def link_ptr_def)

text \<open>What a class's free list is.\<close>

lemma free_list_of:
  assumes "seg_ok base s" and "c < 49"
  obtains xs where "free_chain base (cells s) (bins s c) xs" "distinct xs"
    "set xs = {off. block s off = Some (c, FREE)}"
  using assms unfolding seg_ok_def free_lists_def by blast

lemma valid_null: "seg_ok base s \<Longrightarrow> valid_off s y \<Longrightarrow> y \<noteq> FREE_LIST_NULL"
  by (auto simp: seg_ok_def valid_off_def FREE_LIST_NULL_def)

lemma free_chain_head:
  "free_chain base m h xs \<Longrightarrow> h = hd (xs @ [FREE_LIST_NULL])"
  by (cases xs) auto

lemma read_chain_link:
  assumes ok: "seg_ok base s" and ch: "free_chain base m h (x # xs)" and v: "\<And>y. y \<in> set xs \<Longrightarrow> valid_off s y"
  shows "\<exists>y. read_link base (seg_bounds s) (m x) = Inr y \<and> free_chain base m y xs"
proof -
  from ch obtain y where y: "m x = link_ptr base y" "free_chain base m y xs" by auto
  have "y = FREE_LIST_NULL \<or> valid_off s y" using free_chain_head [OF y(2)] v by (cases xs) auto
  from read_link_ok [OF ok this] y show ?thesis by auto
qed

text \<open>The draining loop takes a prefix of the list, in order.\<close>

lemma drain_loop_ok:
  assumes ok: "seg_ok base s0" and "free_chain base (cells s) h xs" and "\<And>y. y \<in> set xs \<Longrightarrow> valid_off s0 y"
  shows "\<exists>y. drain_loop base c st (seg_bounds s0) n h s
      = Inr (map ((+) base) (take n xs), y, fold (\<lambda>off. state_write off c st) (take n xs) s)
    \<and> free_chain base (cells s) y (drop n xs)"
  using assms(2,3)
proof (induction n arbitrary: h xs s)
  case (Suc n)
  show ?case
  proof (cases xs)
    case Nil
    then show ?thesis using Suc.prems by simp
  next
    case (Cons x ys)
    have hx: "h = x" using Suc.prems(1) Cons by simp
    have nn: "x \<noteq> FREE_LIST_NULL" "0 < base"
      using valid_null [OF ok Suc.prems(2)] Cons ok by (simp_all add: seg_ok_def based_def)
    from read_chain_link [OF ok Suc.prems(1) [unfolded Cons]] Suc.prems(2) Cons obtain y where
      y: "read_link base (seg_bounds s0) (cells s x) = Inr y" "free_chain base (cells s) y ys" by auto
    let ?s = "state_write x c st s"
    have "free_chain base (cells ?s) y ys" using y(2) by simp
    from Suc.IH [OF this] Suc.prems(2) Cons obtain z where
      z: "drain_loop base c st (seg_bounds s0) n y ?s
          = Inr (map ((+) base) (take n ys), z, fold (\<lambda>off. state_write off c st) (take n ys) ?s)"
        "free_chain base (cells ?s) z (drop n ys)" by auto
    have "drain_loop base c st (seg_bounds s0) (Suc n) h s
      = Inr (map ((+) base) (take (Suc n) xs), z, fold (\<lambda>off. state_write off c st) (take (Suc n) xs) s)"
      using nn y(1) z(1) Cons by (simp add: hx Let_def read_link_def)
    then show ?thesis using z(2) Cons by auto
  qed
qed auto

subsection \<open>The operations\<close>

text \<open>Only the live counter of the header changes.\<close>

definition counted :: "segment_header \<Rightarrow> nat \<Rightarrow> segment_header" where
  "counted h n = h\<lparr>live_count := n\<rparr>"

lemma live_room:
  assumes "seg_ok base s" and "block s' = issue c st (set ys) (block s)" and "st \<noteq> FREE" and "distinct ys"
    and "\<And>y. y \<in> set ys \<Longrightarrow> held (block s) y = None"
  shows "live_count (seg_hdr s) + length ys \<le> 262144"
  using held_issue_count [OF assms(2-5)] held_count [of s'] assms(1) by (simp add: seg_ok_def)

lemma try_drain_ok:
  assumes ok: "seg_ok base s" and c: "c < 49" and st: "st \<noteq> FREE" "unat st < 3"
    and ch: "free_chain base (cells s) (bins s c) xs" "distinct xs" "set xs = {off. block s off = Some (c, FREE)}"
  shows "\<exists>s'. try_drain_freelist_batch base c n st s = Inr (map ((+) base) (take n xs), s')
    \<and> seg_ok base s' \<and> block s' = issue c st (set (take n xs)) (block s) \<and> cells s' = cells s
    \<and> bins s' = (bins s)(c := hd (drop n xs @ [FREE_LIST_NULL]))
    \<and> states s' = states (fold (\<lambda>off. state_write off c st) (take n xs) s)
    \<and> seg_hdr s' = counted (seg_hdr s) (live_count (seg_hdr s) + length (take n xs))"
proof (cases "n = 0 \<or> xs = []")
  case True
  then have "try_drain_freelist_batch base c n st s = Inr ([], s)"
    using c ch(1) by (auto simp: try_drain_freelist_batch_def bin_head_def)
  then show ?thesis using True ok free_chain_head [OF ch(1)] by (auto simp: issue_def counted_def)
next
  case False
  have v: "valid_off s y" if "y \<in> set xs" for y using block_valid [OF ok] that ch(3) by auto
  have "bins s c \<in> set xs" using ch(1) False by (cases xs) auto
  then have nn: "bins s c \<noteq> FREE_LIST_NULL" using valid_null [OF ok v] by blast
  let ?ys = "take n xs"
  let ?s1 = "fold (\<lambda>off. state_write off c st) ?ys s"
  from drain_loop_ok [OF ok ch(1) v] obtain h where
    h: "drain_loop base c st (seg_bounds s) n (bins s c) s = Inr (map ((+) base) ?ys, h, ?s1)"
      "free_chain base (cells s) h (drop n xs)" by blast
  have fr: "block s y = Some (c, FREE)" if "y \<in> set ?ys" for y using that ch(3) in_set_takeD by fastforce
  let ?s2 = "?s1\<lparr>bins := (bins s)(c := h)\<rparr>"
  have b: "block ?s2 = issue c st (set ?ys) (block s)"
    using block_writes [of ?ys c st s] block_bounds [OF fr] c st(2) by simp
  have d: "distinct ?ys" using ch(2) by simp
  have nh: "held (block s) y = None" if "y \<in> set ?ys" for y using fr [OF that] by (simp add: held_def)
  note room = live_room [OF ok b st(1) d nh]
  let ?s3 = "?s2\<lparr>seg_hdr := (seg_hdr s)\<lparr>live_count := live_count (seg_hdr s) + length ?ys\<rparr>\<rparr>"
  have run: "try_drain_freelist_batch base c n st s = Inr (map ((+) base) ?ys, ?s3)"
    using False nn c h(1) bounds_ok [OF ok] room on_add_live [of ?s2 "length ?ys"]
    by (simp add: try_drain_freelist_batch_def bin_head_def set_bin_head_def)
  have "free_lists base (cells ?s3) (bins ?s3) (block ?s3)"
  proof -
    have fl: "free_lists base (cells s) (bins s) (block s)" using ok by (simp add: seg_ok_def)
    have "free_lists base (cells s) ((bins s)(c := h)) (issue c st (set ?ys) (block s))"
      by (rule free_lists_take [OF fl c _ _ h(2) st(1)]) (use ch in simp_all)
    then show ?thesis using b by simp
  qed
  then have "seg_ok base ?s3" by (intro seg_ok_reissue [OF ok c st(1) fr d]) (use b in simp_all)
  then show ?thesis using run b free_chain_head [OF h(2)] by (intro exI [of _ ?s3]) (simp add: counted_def)
qed

text \<open>A single pop is a batch of one.\<close>

lemma pop_free_ok:
  assumes ok: "seg_ok base s" and c: "c < 49"
    and ch: "free_chain base (cells s) (bins s c) xs" "distinct xs" "set xs = {off. block s off = Some (c, FREE)}"
  shows "\<exists>s'. pop_free base c s = Inr (if xs = [] then None else Some (base + hd xs), s')
    \<and> seg_ok base s' \<and> block s' = issue c LIVE (set (take 1 xs)) (block s) \<and> cells s' = cells s
    \<and> bins s' = (bins s)(c := hd (drop 1 xs @ [FREE_LIST_NULL]))
    \<and> states s' = states (fold (\<lambda>off. state_write off c LIVE) (take 1 xs) s)
    \<and> seg_hdr s' = counted (seg_hdr s) (live_count (seg_hdr s) + length (take 1 xs))"
proof (cases xs)
  case Nil
  then have "pop_free base c s = Inr (None, s)" using c ch(1) by (simp add: pop_free_def bin_head_def)
  then show ?thesis using Nil ok ch(1) by (simp add: issue_def counted_def fun_upd_idem)
next
  case (Cons x zs)
  have v: "valid_off s y" if "y \<in> set xs" for y using block_valid [OF ok] that ch(3) by auto
  have x: "bins s c = x" "x \<noteq> FREE_LIST_NULL" "0 < base"
    using ch(1) v valid_null [OF ok, of x] ok Cons by (auto simp: seg_ok_def based_def)
  from read_chain_link [OF ok ch(1) [unfolded Cons]] v Cons obtain h where
    h: "read_link base (seg_bounds s) (cells s x) = Inr h" "free_chain base (cells s) h zs" by auto
  have bx: "block s x = Some (c, FREE)" using ch(3) Cons by auto
  note bb = block_bounds [OF bx]
  let ?s2 = "state_write x c LIVE (s\<lparr>bins := (bins s)(c := h)\<rparr>)"
  have b: "block ?s2 = issue c LIVE (set [x]) (block s)" using bb by (simp add: block_write issue_single)
  have nh: "held (block s) y = None" if "y \<in> set [x]" for y using that bx by (simp add: held_def)
  have room: "live_count (seg_hdr s) + 1 \<le> 262144" using live_room [OF ok b _ _ nh] by simp
  let ?s3 = "?s2\<lparr>seg_hdr := (seg_hdr s)\<lparr>live_count := live_count (seg_hdr s) + 1\<rparr>\<rparr>"
  have rl: "(if cells s x = 0 then Inr FREE_LIST_NULL
      else rbind (bounds_new s) (continuation_offset_or_fatal base (cells s x))) = Inr h"
    using h(1) bounds_ok [OF ok] by (simp add: read_link_def split: if_splits)
  have "state_read x (s\<lparr>bins := (bins s)(c := h)\<rparr>) = encode c FREE"
    using state_read_block [of x c FREE s] bx bb by (simp add: state_read_def)
  then have run: "pop_free base c s = Inr (Some (base + x), ?s3)"
    using x c rl room on_add_live [of ?s2 1]
    by (simp add: pop_free_def bin_head_def set_bin_head_def Let_def inc_live_def [abs_def])
  have "free_lists base (cells ?s3) (bins ?s3) (block ?s3)"
  proof -
    have fl: "free_lists base (cells s) (bins s) (block s)" using ok by (simp add: seg_ok_def)
    have "free_lists base (cells s) ((bins s)(c := h)) (issue c LIVE (set [x]) (block s))"
      by (rule free_lists_take [OF fl c _ _ h(2)]) (use ch Cons in simp_all)
    then show ?thesis using b by simp
  qed
  then have "seg_ok base ?s3" by (intro seg_ok_reissue [OF ok c _ _ _, of LIVE "[x]"]) (use b bx in simp_all)
  then show ?thesis using run b Cons free_chain_head [OF h(2)]
    by (intro exI [of _ ?s3]) (simp add: counted_def state_write_def)
qed

text \<open>Where the next block of a class goes, and whether it can go there.\<close>

definition carve_start :: "nat \<Rightarrow> small_segment \<Rightarrow> nat" where
  "carve_start c s = div_ceil (bump (seg_hdr s)) (class_size c) * class_size c"

definition carvable :: "bool \<Rightarrow> nat \<Rightarrow> small_segment \<Rightarrow> bool" where
  "carvable recommit c s \<longleftrightarrow> carve_start c s + class_size c \<le> SEGMENT
     \<and> (is_decommitted (seg_hdr s) \<longrightarrow> recommit)"

definition carved_hdr :: "segment_header \<Rightarrow> nat \<Rightarrow> nat \<Rightarrow> segment_header" where
  "carved_hdr h b n = h\<lparr>bump := b, live_count := live_count h + n,
     decommitted := (if is_decommitted h then 0 else decommitted h)\<rparr>"

lemma carve_start_facts:
  assumes "c < 49"
  shows "aligned_to (bump (seg_hdr s)) (class_size c) = Inr (carve_start c s)"
    and "bump (seg_hdr s) \<le> carve_start c s" and "class_size c dvd carve_start c s" and "16 dvd carve_start c s"
proof -
  have p: "0 < class_size c" using class_size_facts(2) [OF assms] by simp
  show "aligned_to (bump (seg_hdr s)) (class_size c) = Inr (carve_start c s)"
    using p by (simp add: aligned_to_def align_up_def carve_start_def)
  show "bump (seg_hdr s) \<le> carve_start c s" and "class_size c dvd carve_start c s"
    using div_ceil_bounds [OF p] by (simp_all add: carve_start_def)
  then show "16 dvd carve_start c s" using class_size_facts(1) [OF assms] dvd_trans by blast
qed

lemma carve_start_less: "c < 49 \<Longrightarrow> carve_start c s < bump (seg_hdr s) + class_size c"
  unfolding carve_start_def by (rule div_ceil_bounds(2)) (use class_size_facts(2) in force)

lemma recommit_ok:
  "recommit_if_needed recommit s = (if is_decommitted (seg_hdr s) \<and> \<not> recommit then None
     else Some (s\<lparr>seg_hdr := (seg_hdr s)\<lparr>decommitted :=
       (if is_decommitted (seg_hdr s) then 0 else decommitted (seg_hdr s))\<rparr>\<rparr>))"
  by (simp add: recommit_if_needed_def set_decommitted_def)

lemma try_carve_ok:
  fixes n :: nat and recommit :: bool
  assumes ok: "seg_ok base s" and c: "c < 49" and st: "st \<noteq> FREE" "unat st < 3"
  defines "sz \<equiv> class_size c" and "a \<equiv> carve_start c s"
  defines "k \<equiv> if carvable recommit c s then min n ((SEGMENT - a) div sz) else 0"
  defines "ys \<equiv> map (\<lambda>i. a + i * sz) [0..<k]"
  shows "\<exists>s'. try_carve_batch recommit base c sz n st s
      = Inr (map ((+) base) (if st = MAG then rev ys else ys), s')
    \<and> seg_ok base s' \<and> block s' = issue c st (set ys) (block s) \<and> (\<forall>y \<in> set ys. block s y = None)
    \<and> cells s' = cells s \<and> bins s' = bins s
    \<and> seg_hdr s' = (if k = 0 then seg_hdr s else carved_hdr (seg_hdr s) (a + k * sz) k)"
proof (cases "k = 0")
  case True
  have p: "0 < sz" using class_size_facts(2) [OF c] by (simp add: sz_def)
  have "n = 0 \<or> SEGMENT < a + sz \<or> is_decommitted (seg_hdr s) \<and> \<not> recommit"
  proof (rule ccontr)
    assume "\<not> ?thesis"
    then have "carvable recommit c s" "0 < n" and fit: "a + sz \<le> SEGMENT"
      by (simp_all add: carvable_def a_def sz_def)
    moreover have "sz \<le> SEGMENT - a" using fit by linarith
    then have "1 \<le> (SEGMENT - a) div sz" using div_le_mono [of sz "SEGMENT - a" sz] p by simp
    ultimately show False using True by (simp add: k_def)
  qed
  then have "try_carve_batch recommit base c sz n st s = Inr ([], s)"
    using carve_start_facts(1) [OF c, of s] recommit_ok [of recommit s]
    by (auto simp: try_carve_batch_def sz_def a_def Let_def)
  then show ?thesis using True ok by (auto simp: ys_def issue_def)
next
  case False
  then have cv: "carvable recommit c s" and k: "k = min n ((SEGMENT - a) div sz)" "0 < n"
    by (auto simp: k_def split: if_splits)
  have p: "16 \<le> sz" "16 dvd sz" using class_size_facts [OF c] by (simp_all add: sz_def)
  have fits: "a + k * sz \<le> SEGMENT"
  proof -
    have "k * sz \<le> (SEGMENT - a) div sz * sz" using k by simp
    also have "\<dots> \<le> SEGMENT - a" by (rule div_times_less_eq_dividend)
    finally have "k * sz \<le> SEGMENT - a" .
    moreover have "a + sz \<le> SEGMENT" using cv by (simp add: carvable_def a_def sz_def)
    ultimately show ?thesis by linarith
  qed
  have yi: "bump (seg_hdr s) \<le> y \<and> y + class_size c \<le> a + k * sz \<and> class_size c dvd y \<and> y < SEGMENT \<and> 16 dvd y"
    if mem: "y \<in> set ys" for y
  proof -
    obtain i where i: "i < k" "y = a + i * sz" using mem by (auto simp: ys_def)
    have "(i + 1) * sz \<le> k * sz" using i(1) by (intro mult_le_mono1) simp
    then have "y + sz \<le> a + k * sz" using i(2) by simp
    moreover have "sz dvd y" using i(2) carve_start_facts(3) [OF c, of s] by (simp add: a_def sz_def)
    moreover have "16 dvd y" using calculation(2) p(2) dvd_trans by blast
    moreover have "bump (seg_hdr s) \<le> y" using i(2) carve_start_facts(2) [OF c, of s] by (simp add: a_def)
    ultimately show ?thesis using fits p(1) by (simp add: sz_def)
  qed
  have each: "y + class_size c \<le> z" if yz: "y \<in> set ys" "z \<in> set ys" "y < z" for y z
  proof -
    obtain i j where ij: "y = a + i * sz" "z = a + j * sz" using yz by (auto simp: ys_def)
    then have "i < j" using yz(3) by simp
    then have "(i + 1) * sz \<le> j * sz" by (intro mult_le_mono1) simp
    then show ?thesis using ij by (simp add: sz_def)
  qed
  have d: "distinct ys" using p(1) by (simp add: ys_def distinct_map inj_on_def)
  have len: "length ys = k" by (simp add: ys_def)
  let ?h = "carved_hdr (seg_hdr s) (a + k * sz) k"
  let ?s0 = "s\<lparr>seg_hdr := (seg_hdr s)\<lparr>decommitted :=
       (if is_decommitted (seg_hdr s) then 0 else decommitted (seg_hdr s))\<rparr>\<rparr>"
  let ?s1 = "set_bump (a + k * sz) ?s0"
  let ?s' = "fold (\<lambda>off. state_write off c st) ys (s\<lparr>seg_hdr := ?h\<rparr>)"
  have b: "block ?s' = issue c st (set ys) (block s)"
    using block_writes [of ys c st "s\<lparr>seg_hdr := ?h\<rparr>"] yi c st(2) by simp
  have good: "seg_ok base ?s' \<and> (\<forall>y \<in> set ys. block s y = None)"
  proof (rule seg_ok_new [OF ok c st(1) d _ each _ fits b])
    show "bump (seg_hdr s) \<le> a + k * sz"
      using carve_start_facts(2) [OF c, of s] by (simp add: a_def)
  qed (use yi len in \<open>simp_all add: carved_hdr_def\<close>)
  have room: "live_count (seg_hdr s) + k \<le> 262144"
    using live_room [OF ok b st(1) d] good len by (simp add: held_def)
  have "on_hdr (add_live k) ?s1 = Inr (s\<lparr>seg_hdr := ?h\<rparr>)"
    using on_add_live [of ?s1 k] room by (simp add: set_bump_def carved_hdr_def)
  moreover have rc: "recommit_if_needed recommit s = Some ?s0"
    using cv recommit_ok [of recommit s] by (auto simp: carvable_def)
  ultimately have run: "try_carve_batch recommit base c sz n st s
      = Inr (map ((+) base) (if st = MAG then rev ys else ys), ?s')"
    using k cv carve_start_facts(1) [OF c, of s] rc
    by (simp add: try_carve_batch_def Let_def a_def sz_def ys_def carvable_def)
  then show ?thesis using good b False by (intro exI [of _ ?s']) simp
qed

lemma carve_block_ok:
  fixes recommit :: bool
  assumes ok: "seg_ok base s" and c: "c < 49"
  defines "a \<equiv> carve_start c s"
  shows "if carvable recommit c s
    then \<exists>s'. carve_block recommit base c (class_size c) s = Inr (Some (base + a), s') \<and> seg_ok base s'
      \<and> block s' = (block s)(a \<mapsto> (c, LIVE)) \<and> block s a = None \<and> cells s' = cells s \<and> bins s' = bins s
      \<and> seg_hdr s' = carved_hdr (seg_hdr s) (a + class_size c) 1
    else carve_block recommit base c (class_size c) s = Inr (None, s)"
proof (cases "carvable recommit c s")
  case False
  then have "carve_block recommit base c (class_size c) s = Inr (None, s)"
    using carve_start_facts(1) [OF c, of s] recommit_ok [of recommit s]
    by (auto simp: carve_block_def carvable_def)
  then show ?thesis using False by simp
next
  case True
  have p: "16 \<le> class_size c" using class_size_facts [OF c] by simp
  have fits: "a + class_size c \<le> SEGMENT" using True by (simp add: carvable_def a_def)
  note af = carve_start_facts [OF c, of s, folded a_def]
  let ?h = "carved_hdr (seg_hdr s) (a + class_size c) 1"
  let ?s0 = "s\<lparr>seg_hdr := (seg_hdr s)\<lparr>decommitted :=
       (if is_decommitted (seg_hdr s) then 0 else decommitted (seg_hdr s))\<rparr>\<rparr>"
  let ?s1 = "set_bump (a + class_size c) ?s0"
  let ?s' = "state_write a c LIVE (s\<lparr>seg_hdr := ?h\<rparr>)"
  have b: "block ?s' = issue c LIVE (set [a]) (block s)"
    using block_write [of a c LIVE "s\<lparr>seg_hdr := ?h\<rparr>"] fits p af(4) c by (simp add: issue_single)
  have good: "seg_ok base ?s' \<and> (\<forall>y \<in> set [a]. block s y = None)"
    by (rule seg_ok_new [OF ok c _ _ _ _ _ fits b]) (use af in \<open>simp_all add: carved_hdr_def\<close>)
  have room: "live_count (seg_hdr s) + 1 \<le> 262144"
    using live_room [OF ok b] good by (simp add: held_def)
  have "on_hdr inc_live ?s1 = Inr (s\<lparr>seg_hdr := ?h\<rparr>)"
    using on_add_live [of ?s1 1] room by (simp add: set_bump_def carved_hdr_def inc_live_def [abs_def])
  moreover have rc: "recommit_if_needed recommit s = Some ?s0"
    using True recommit_ok [of recommit s] by (auto simp: carvable_def)
  ultimately have "carve_block recommit base c (class_size c) s = Inr (Some (base + a), ?s')"
    using True af(1) fits rc
    by (simp add: carve_block_def carvable_def)
  then show ?thesis using True good b by (simp add: issue_single)
qed

lemma dealloc_small_ok:
  assumes ok: "seg_ok base s" and c: "c < 49" and ptr: "base \<le> ptr" "ptr < base + SEGMENT"
  defines "off \<equiv> ptr - base"
  shows "if block s off = Some (c, LIVE)
    then \<exists>s'. dealloc_small safe_mode base ptr c s = Inr (True, s') \<and> seg_ok base s'
      \<and> block s' = (block s)(off \<mapsto> (c, FREE)) \<and> cells s' = (cells s)(off := link_ptr base (bins s c))
      \<and> bins s' = (bins s)(c := off)
      \<and> seg_hdr s' = counted (seg_hdr s) (live_count (seg_hdr s) - 1) \<and> 0 < live_count (seg_hdr s)
    else if safe_mode then dealloc_small safe_mode base ptr c s = Inr (False, s)
    else \<exists>e. dealloc_small safe_mode base ptr c s = Inl e"
proof -
  have o: "off < SEGMENT" "off mod 2 ^ 32 = off" using ptr by (auto simp: off_def)
  show ?thesis
  proof (cases "block s off = Some (c, LIVE)")
    case True
    note v = block_valid [OF ok True] and bb = block_bounds [OF True]
    have ne: "0 < base" using ok by (simp add: seg_ok_def based_def)
    let ?n = "live_count (seg_hdr s)"
    have dom: "dom (held ((block s)(off \<mapsto> (c, FREE)))) = dom (held (block s)) - {off}"
      by (auto simp: held_upd)
    have h: "off \<in> dom (held (block s))" using True by (simp add: held_def domIff)
    have n: "?n = card (dom (held (block s)))" using ok by (simp add: seg_ok_def)
    then have pos: "0 < ?n" using h finite_held card_gt_0_iff by (metis empty_iff)
    let ?s = "s\<lparr>cells := (cells s)(off := link_ptr base (bins s c)), bins := (bins s)(c := off)\<rparr>"
    let ?s' = "(state_write off c FREE ?s)\<lparr>seg_hdr := counted (seg_hdr s) (?n - 1)\<rparr>"
    have rd: "state_read off s = encode c LIVE" using state_read_block [of off c LIVE s] True bb by simp
    have run: "dealloc_small safe_mode base ptr c s = Inr (True, ?s')"
      using v bb ne rd pos c ptr(1) o(2) unfolding dealloc_small_def Let_def off_def [symmetric]
      by (simp add: valid_off_def MIN_BLOCK_def low_bits_16 bin_head_def set_bin_head_def
          on_hdr_def dec_live_def sub_live_def link_ptr_def counted_def)
    have b: "block ?s' = (block s)(off \<mapsto> (c, FREE))"
      using block_write [of off c FREE ?s] bb by simp
    have cls: "map_option fst (((block s)(off \<mapsto> (c, FREE))) x) = map_option fst (block s x)" for x
      using True by simp
    have fl: "free_lists base (cells ?s') (bins ?s') (block ?s')"
      using free_lists_put [of base "cells s" "bins s" "block s" off c LIVE] ok True c b
      by (simp add: seg_ok_def)
    have "card (dom (held (block ?s'))) = card (dom (held (block s))) - 1"
      unfolding b dom using h finite_held by (simp add: card_Diff_singleton)
    then have "card (dom (held (block ?s'))) = ?n - 1" by (simp only: n)
    then have "seg_ok base ?s'"
      using ok fl unfolding seg_ok_def b same_classes(1) [OF cls] same_classes(2) [OF cls]
      by (simp add: counted_def)
    then show ?thesis using True run b pos by (simp del: fun_upd_apply)
  next
    case False
    have "state_read off s \<noteq> encode c LIVE" if "16 dvd off"
      using state_read_block [of off c LIVE s] that False c o(1) by simp
    then have "off < payload_start (kind (seg_hdr s)) \<or> bump (seg_hdr s) \<le> off \<or> off AND 15 \<noteq> 0
        \<or> state_read off s \<noteq> encode c LIVE" by (auto simp: low_bits_16)
    then show ?thesis using False ptr(1) o(2) unfolding dealloc_small_def Let_def off_def [symmetric]
      by (auto simp: MIN_BLOCK_def shadow_reject_def)
  qed
qed

text \<open>The refill carves blocks and frees them again: nothing issued before is touched.\<close>

lemma segment_base_of_in:
  assumes "based base" and "a < SEGMENT"
  shows "segment_base_of (base + a) = base"
proof -
  obtain q where q: "base = SEGMENT * q" using assms(1) by (auto simp: based_def dvd_def)
  have "SEGMENT = 2 ^ 22" by simp
  then have "is_power_of_two SEGMENT" using is_power_of_two_pow [of 22] by (simp only:)
  moreover have "base + a \<le> usize_max" "SEGMENT \<le> 2 ^ 64" using assms by (simp_all add: based_def)
  ultimately have "segment_base_of (base + a) = base + a - (base + a) mod SEGMENT"
    unfolding segment_base_of_def by (rule mask_up)
  moreover have "(base + a) mod SEGMENT = a" using assms(2) unfolding q by simp
  ultimately show ?thesis by simp
qed

definition hdr_frame :: "segment_header \<Rightarrow> segment_header \<Rightarrow> bool" where
  "hdr_frame h h' \<longleftrightarrow> h'\<lparr>bump := 0, live_count := 0, decommitted := 0\<rparr>
     = h\<lparr>bump := 0, live_count := 0, decommitted := 0\<rparr>"

definition only_frees :: "nat \<Rightarrow> small_segment \<Rightarrow> small_segment \<Rightarrow> bool" where
  "only_frees c s s' \<longleftrightarrow> hdr_frame (seg_hdr s) (seg_hdr s')
     \<and> live_count (seg_hdr s') = live_count (seg_hdr s) \<and> bump (seg_hdr s) \<le> bump (seg_hdr s')
     \<and> (\<forall>p < bump (seg_hdr s). cells s' p = cells s p)
     \<and> (\<forall>off. block s off \<noteq> None \<longrightarrow> block s' off = block s off \<and> cells s' off = cells s off)
     \<and> (\<forall>off x. block s off = None \<and> block s' off = Some x \<longrightarrow> x = (c, FREE))"

lemma only_frees_refl: "only_frees c s s"
  by (auto simp: only_frees_def hdr_frame_def)

lemma only_frees_trans:
  assumes "only_frees c s s'" and "only_frees c s' s''"
  shows "only_frees c s s''"
proof -
  have new: "x = (c, FREE)" if "block s off = None" "block s'' off = Some x" for off x
  proof (cases "block s' off")
    case None
    then show ?thesis using assms(2) that(2) unfolding only_frees_def by blast
  next
    case (Some y)
    then have "y = (c, FREE)" "block s'' off = Some y"
      using assms that(1) unfolding only_frees_def by (blast, metis option.distinct(1))
    then show ?thesis using that(2) by simp
  qed
  have "block s'' off = block s off \<and> cells s'' off = cells s off" if "block s off \<noteq> None" for off
  proof -
    have "block s' off = block s off \<and> cells s' off = cells s off"
      using assms(1) that unfolding only_frees_def by blast
    then show ?thesis using assms(2) that unfolding only_frees_def by metis
  qed
  moreover have "hdr_frame (seg_hdr s) (seg_hdr s'')" "live_count (seg_hdr s'') = live_count (seg_hdr s)"
    "bump (seg_hdr s) \<le> bump (seg_hdr s'')" "\<forall>p < bump (seg_hdr s). cells s'' p = cells s p"
    using assms by (simp_all add: only_frees_def hdr_frame_def)
  ultimately show ?thesis using new unfolding only_frees_def by blast
qed

lemma refill_loop_ok:
  assumes "seg_ok base s" and c: "c < 49"
  shows "\<exists>s'. refill_loop safe_mode recommit base c (class_size c) k s = Inr s' \<and> seg_ok base s' \<and> only_frees c s s'"
  using assms(1)
proof (induction k arbitrary: s)
  case 0
  then show ?case by (simp add: only_frees_refl)
next
  case (Suc k)
  let ?a = "carve_start c s"
  note carve = carve_block_ok [OF Suc.prems c, of recommit]
  show ?case
  proof (cases "carvable recommit c s")
    case False
    then show ?thesis using carve Suc.prems by (simp add: only_frees_refl)
  next
    case True
    with carve obtain s1 where s1: "carve_block recommit base c (class_size c) s = Inr (Some (base + ?a), s1)"
      "seg_ok base s1" "block s1 = (block s)(?a \<mapsto> (c, LIVE))" "block s ?a = None" "cells s1 = cells s"
      "bins s1 = bins s" "seg_hdr s1 = carved_hdr (seg_hdr s) (?a + class_size c) 1" by auto
    have a: "?a < SEGMENT" using True class_size_facts(2) [OF c] by (simp add: carvable_def)
    have sb: "segment_base_of (base + ?a) = base"
      by (rule segment_base_of_in [OF _ a]) (use s1(2) in \<open>simp add: seg_ok_def\<close>)
    have "base + ?a < base + SEGMENT" using a by simp
    from dealloc_small_ok [OF s1(2) c le_add1 this, of safe_mode] s1(3) obtain s2 where
      s2: "dealloc_small safe_mode base (base + ?a) c s1 = Inr (True, s2)" "seg_ok base s2"
        "block s2 = (block s1)(?a \<mapsto> (c, FREE))" "cells s2 = (cells s1)(?a := link_ptr base (bins s1 c))"
        "seg_hdr s2 = counted (seg_hdr s1) (live_count (seg_hdr s1) - 1)" by auto
    have of: "only_frees c s s2"
      using s1(4) carve_start_facts(2) [OF c, of s] by (auto simp: only_frees_def s2(3-5) s1(3,5,7) hdr_frame_def carved_hdr_def counted_def split: if_splits)
    from Suc.IH [OF s2(2)] obtain s' where
      "refill_loop safe_mode recommit base c (class_size c) k s2 = Inr s'" "seg_ok base s'" "only_frees c s2 s'"
      by blast
    then show ?thesis using s1(1) s2(1) sb only_frees_trans [OF of] by simp
  qed
qed

lemma carve_with_refill_ok:
  assumes ok: "seg_ok base s" and c: "c < 49"
  defines "a \<equiv> carve_start c s"
  shows "if carvable recommit c s
    then \<exists>s'. carve_block_with_refill safe_mode recommit base c (class_size c) s = Inr (Some (base + a), s')
      \<and> seg_ok base s' \<and> block s a = None \<and> a + class_size c \<le> SEGMENT \<and> block s' a = Some (c, LIVE)
      \<and> (\<forall>off. off \<noteq> a \<longrightarrow> held (block s') off = held (block s) off)
      \<and> (\<forall>off. block s off \<noteq> None \<longrightarrow> block s' off = block s off \<and> cells s' off = cells s off)
      \<and> (\<forall>p < bump (seg_hdr s). cells s' p = cells s p)
      \<and> hdr_frame (seg_hdr s) (seg_hdr s') \<and> live_count (seg_hdr s') = live_count (seg_hdr s) + 1
    else carve_block_with_refill safe_mode recommit base c (class_size c) s = Inr (None, s)"
proof (cases "carvable recommit c s")
  case False
  then show ?thesis using carve_block_ok [OF ok c, of recommit] by (simp add: carve_block_with_refill_def)
next
  case True
  with carve_block_ok [OF ok c, of recommit] obtain s1 where
    s1: "carve_block recommit base c (class_size c) s = Inr (Some (base + a), s1)" "seg_ok base s1"
      "block s1 = (block s)(a \<mapsto> (c, LIVE))" "block s a = None" "cells s1 = cells s"
      "seg_hdr s1 = carved_hdr (seg_hdr s) (a + class_size c) 1" by (auto simp: a_def)
  from refill_loop_ok [OF s1(2) c] obtain s' where
    s': "refill_loop safe_mode recommit base c (class_size c) REFILL_BATCH s1 = Inr s'" "seg_ok base s'"
      "only_frees c s1 s'" by blast
  have run: "carve_block_with_refill safe_mode recommit base c (class_size c) s = Inr (Some (base + a), s')"
    using s1(1) s'(1) by (simp add: carve_block_with_refill_def)
  have keep: "block s' off = block s off \<and> cells s' off = cells s off" if "block s off \<noteq> None" for off
    using s'(3) s1(3-5) that by (auto simp: only_frees_def)
  have "held (block s') off = held (block s) off" if "off \<noteq> a" for off
  proof (cases "block s off")
    case None
    then have "block s1 off = None" using that s1(3) by simp
    then have "\<forall>x. block s' off = Some x \<longrightarrow> x = (c, FREE)" using s'(3) by (simp add: only_frees_def)
    then show ?thesis using None by (cases "block s' off") (auto simp: held_def)
  qed (use keep [of off] in \<open>simp add: held_def\<close>)
  moreover have "block s' a = Some (c, LIVE)" using s'(3) s1(3) by (simp add: only_frees_def)
  moreover have "hdr_frame (seg_hdr s) (seg_hdr s') \<and> live_count (seg_hdr s') = live_count (seg_hdr s) + 1"
    using s'(3) s1(6) by (simp add: only_frees_def hdr_frame_def carved_hdr_def)
  moreover have "a + class_size c \<le> SEGMENT" using True by (simp add: carvable_def a_def)
  moreover have "\<forall>p < bump (seg_hdr s). cells s' p = cells s p"
    using s'(3) s1(5,6) carve_start_facts(2) [OF c, of s] by (simp add: only_frees_def carved_hdr_def a_def)
  ultimately show ?thesis using True run s'(2) s1(4) keep by simp
qed

subsection \<open>A batch is a sequence of pops\<close>

fun pops :: "nat \<Rightarrow> nat \<Rightarrow> nat \<Rightarrow> small_segment \<Rightarrow> fatal + nat list \<times> small_segment" where
  "pops base c 0 s = Inr ([], s)"
| "pops base c (Suc n) s =
     rbind (pop_free base c s) (\<lambda>(r, s1).
       case r of None \<Rightarrow> Inr ([], s1)
       | Some p \<Rightarrow> rbind (pops base c n s1) (\<lambda>(ps, s2). Inr (p # ps, s2)))"

definition mark :: "nat \<Rightarrow> u8 \<Rightarrow> nat \<Rightarrow> (nat \<Rightarrow> u8) \<Rightarrow> nat \<Rightarrow> u8" where
  "mark c st off b = b(drop_bit 4 off := encode c st)"

lemma states_write: "states (state_write off c st s) = mark c st off (states s)"
  by (simp add: state_write_def mark_def)

lemma states_fold: "states (fold (\<lambda>off. state_write off c st) ys s) = fold (mark c st) ys (states s)"
  by (induction ys arbitrary: s) (simp_all add: states_write)

lemma chain_tail:
  "free_chain base m h (x # zs) \<Longrightarrow> free_chain base m (hd (zs @ [FREE_LIST_NULL])) zs"
  by (auto dest: free_chain_head)

lemma pops_ok:
  assumes "seg_ok base s" and c: "c < 49"
    and "free_chain base (cells s) (bins s c) xs" "distinct xs" "set xs = {off. block s off = Some (c, FREE)}"
  shows "\<exists>t. pops base c n s = Inr (map ((+) base) (take n xs), t) \<and> cells t = cells s
    \<and> bins t = (bins s)(c := hd (drop n xs @ [FREE_LIST_NULL]))
    \<and> states t = fold (mark c LIVE) (take n xs) (states s)
    \<and> seg_hdr t = counted (seg_hdr s) (live_count (seg_hdr s) + length (take n xs))"
  using assms(1,3-5)
proof (induction n arbitrary: s xs)
  case 0
  then show ?case using free_chain_head [OF 0(2)] by (simp add: counted_def fun_upd_idem)
next
  case (Suc n)
  from pop_free_ok [OF Suc.prems(1) c Suc.prems(2-4)] obtain s1 where
    s1: "pop_free base c s = Inr (if xs = [] then None else Some (base + hd xs), s1)" "seg_ok base s1"
      "block s1 = issue c LIVE (set (take 1 xs)) (block s)" "cells s1 = cells s"
      "bins s1 = (bins s)(c := hd (drop 1 xs @ [FREE_LIST_NULL]))"
      "states s1 = states (fold (\<lambda>off. state_write off c LIVE) (take 1 xs) s)"
      "seg_hdr s1 = counted (seg_hdr s) (live_count (seg_hdr s) + length (take 1 xs))" by blast
  show ?case
  proof (cases xs)
    case Nil
    then show ?thesis using s1 by (intro exI [of _ s1]) simp
  next
    case (Cons x zs)
    have ch: "free_chain base (cells s1) (bins s1 c) zs"
      using chain_tail [of base "cells s" "bins s c" x zs] Suc.prems(2) s1(4,5) Cons by simp
    have "set zs = {off. block s1 off = Some (c, FREE)}"
      using Suc.prems(3,4) Cons s1(3) by (auto simp: issue_def)
    moreover have "distinct zs" using Suc.prems(3) Cons by simp
    ultimately obtain t where
      t: "pops base c n s1 = Inr (map ((+) base) (take n zs), t)" "cells t = cells s1"
        "bins t = (bins s1)(c := hd (drop n zs @ [FREE_LIST_NULL]))"
        "states t = fold (mark c LIVE) (take n zs) (states s1)"
        "seg_hdr t = counted (seg_hdr s1) (live_count (seg_hdr s1) + length (take n zs))"
      using Suc.IH [OF s1(2) ch] by blast
    show ?thesis using t s1 Cons by (intro exI [of _ t]) (simp add: states_fold states_write counted_def)
  qed
qed

text \<open>Draining a free list in a batch, with its bounds computed once and the counter and the head
  written once at the end, is exactly the sequence of single pops: the same blocks in the same
  order and the same final segment, for every batch size.\<close>

theorem drain_is_pops:
  assumes ok: "seg_ok base s" and c: "c < SMALL_CLASS_COUNT"
  shows "try_drain_freelist_batch base c n LIVE s = pops base c n s"
proof -
  have c': "c < 49" using c by simp
  from free_list_of [OF ok c'] obtain xs where
    xs: "free_chain base (cells s) (bins s c) xs" "distinct xs" "set xs = {off. block s off = Some (c, FREE)}" .
  from try_drain_ok [OF ok c' _ _ xs, of LIVE n] obtain s' where
    s': "try_drain_freelist_batch base c n LIVE s = Inr (map ((+) base) (take n xs), s')"
      "cells s' = cells s" "bins s' = (bins s)(c := hd (drop n xs @ [FREE_LIST_NULL]))"
      "states s' = states (fold (\<lambda>off. state_write off c LIVE) (take n xs) s)"
      "seg_hdr s' = counted (seg_hdr s) (live_count (seg_hdr s) + length (take n xs))" by auto
  from pops_ok [OF ok c' xs, of n] obtain t where
    t: "pops base c n s = Inr (map ((+) base) (take n xs), t)" "cells t = cells s"
      "bins t = (bins s)(c := hd (drop n xs @ [FREE_LIST_NULL]))"
      "states t = fold (mark c LIVE) (take n xs) (states s)"
      "seg_hdr t = counted (seg_hdr s) (live_count (seg_hdr s) + length (take n xs))" by blast
  have "s' = t" using s'(2-5) t(2-5) by (intro small_segment.equality) (simp_all add: states_fold)
  then show ?thesis using s'(1) t(1) by simp
qed

text \<open>C11: A free is accepted exactly when its pointer is the start of a block of that class that is
  in use; then the block becomes the first free one and nothing else changes.  Every other
  pointer into the segment (a second free, an interior pointer, a wrong class, metadata, memory
  never issued) changes nothing: it is ignored in safe mode and stops the process otherwise.\<close>

theorem dealloc_exact:
  assumes ok: "seg_ok base s" and c: "c < SMALL_CLASS_COUNT" and ptr: "base \<le> ptr" "ptr < base + SEGMENT"
  shows "if block s (ptr - base) = Some (c, LIVE)
    then \<exists>s'. dealloc_small safe_mode base ptr c s = Inr (True, s') \<and> seg_ok base s'
      \<and> block s' = (block s)(ptr - base \<mapsto> (c, FREE)) \<and> bins s' = (bins s)(c := ptr - base)
      \<and> (\<forall>p. p \<noteq> ptr - base \<longrightarrow> cells s' p = cells s p)
      \<and> live_count (seg_hdr s') + 1 = live_count (seg_hdr s)
    else if safe_mode then dealloc_small safe_mode base ptr c s = Inr (False, s)
    else \<exists>e. dealloc_small safe_mode base ptr c s = Inl e"
proof -
  have "c < 49" using c by simp
  from dealloc_small_ok [OF ok this ptr, of safe_mode] show ?thesis
    by (auto simp: counted_def split: if_splits)
qed

subsection \<open>A segment in use\<close>

text \<open>
  What the allocator does to a segment, with the pointers it issues: by pop, batch or carving, to
  the caller or to a magazine; and frees of arbitrary pointers into the segment.  Besides, the
  callers store what they like in their blocks.
\<close>

definition opt_list :: "'a option \<Rightarrow> 'a list" where
  "opt_list r = (case r of None \<Rightarrow> [] | Some x \<Rightarrow> [x])"

inductive seg_op :: "nat \<Rightarrow> small_segment \<Rightarrow> nat list \<Rightarrow> nat list \<Rightarrow> small_segment \<Rightarrow> bool" for base :: nat where
  op_pop: "c < SMALL_CLASS_COUNT \<Longrightarrow> pop_free base c s = Inr (r, s') \<Longrightarrow> seg_op base s (opt_list r) [] s'"
| op_drain: "c < SMALL_CLASS_COUNT \<Longrightarrow> st \<in> {LIVE, MAG}
    \<Longrightarrow> try_drain_freelist_batch base c n st s = Inr (ps, s') \<Longrightarrow> seg_op base s ps [] s'"
| op_carve: "c < SMALL_CLASS_COUNT \<Longrightarrow> st \<in> {LIVE, MAG}
    \<Longrightarrow> try_carve_batch recommit base c (class_size c) n st s = Inr (ps, s') \<Longrightarrow> seg_op base s ps [] s'"
| op_refill: "c < SMALL_CLASS_COUNT
    \<Longrightarrow> carve_block_with_refill safe_mode recommit base c (class_size c) s = Inr (r, s')
    \<Longrightarrow> seg_op base s (opt_list r) [] s'"
| op_free: "c < SMALL_CLASS_COUNT \<Longrightarrow> base \<le> ptr \<Longrightarrow> ptr < base + SEGMENT
    \<Longrightarrow> dealloc_small safe_mode base ptr c s = Inr (fin, s') \<Longrightarrow> seg_op base s [] (if fin then [ptr] else []) s'"

inductive seg_step :: "nat \<Rightarrow> small_segment \<Rightarrow> small_segment \<Rightarrow> bool" for base :: nat where
  step_op: "seg_op base s ps fs s' \<Longrightarrow> seg_step base s s'"
| step_write: "block s b = Some (c, LIVE)
    \<Longrightarrow> seg_step base s (s\<lparr>cells := \<lambda>p. if b < p + 8 \<and> p < b + class_size c then g p else cells s p\<rparr>)"

definition seg_fresh :: "nat \<Rightarrow> small_segment \<Rightarrow> bool" where
  "seg_fresh base s \<longleftrightarrow> based base \<and> (\<exists>h m. s = fresh_segment h m \<and> kind h \<in> {Primordial, Small}
     \<and> bump h = payload_start (kind h) \<and> live_count h = 0)"

lemma payload_start_le: "payload_start k \<le> SEGMENT"
  by (simp add: payload_start_def)

lemma fresh_ok: "seg_fresh base s \<Longrightarrow> seg_ok base s"
proof -
  assume "seg_fresh base s"
  then obtain h m where s: "based base" "s = fresh_segment h m" "kind h \<in> {Primordial, Small}"
    "bump h = payload_start (kind h)" "live_count h = 0" unfolding seg_fresh_def by blast
  have b: "block s = (\<lambda>off. None)"
    by (simp add: s(2) fun_eq_iff block_def fresh_segment_def state_read_def decode_def)
  have "free_lists base (cells s) (bins s) (block s)"
    unfolding free_lists_def b
    by (intro allI impI exI [of _ "[]"]) (simp add: s(2) fresh_segment_def bin_table_init_def)
  moreover have "dom (held (block s)) = {}" by (auto simp: b held_def)
  moreover have "seg_hdr s = h" by (simp add: s(2) fresh_segment_def)
  moreover have "placed k n (block s)" "apart (block s)" for k n by (simp_all add: b placed_def apart_def)
  ultimately show ?thesis using s(1,3-5) payload_start_le [of "kind h"]
    by (simp add: seg_ok_def del: layout_values)
qed

text \<open>The callers' writes miss every free block.\<close>

lemma write_ok:
  assumes ok: "seg_ok base s" and b: "block s b = Some (c, LIVE)"
  shows "seg_ok base (s\<lparr>cells := \<lambda>p. if b < p + 8 \<and> p < b + class_size c then g p else cells s p\<rparr>)"
proof -
  let ?m = "\<lambda>p. if b < p + 8 \<and> p < b + class_size c then g p else cells s p"
  have ap: "apart (block s)" and fl: "free_lists base (cells s) (bins s) (block s)"
    using ok by (simp_all add: seg_ok_def)
  have far: "?m y = cells s y" if y: "block s y = Some (d, FREE)" for y d
  proof -
    have "y \<noteq> b" using y b by auto
    then consider "y < b" | "b < y" by linarith
    then show ?thesis
    proof cases
      case 1
      then have "y + class_size d \<le> b" using ap y b unfolding apart_def by blast
      moreover have "16 \<le> class_size d" using class_size_facts(2) block_bounds [OF y] by blast
      ultimately show ?thesis by simp
    next
      case 2
      then have "b + class_size c \<le> y" using ap y b unfolding apart_def by blast
      then show ?thesis by simp
    qed
  qed
  have "free_lists base ?m (bins s) (block s)"
    unfolding free_lists_def
  proof (intro allI impI)
    fix d assume "d < (49 :: nat)"
    with fl obtain xs where xs: "free_chain base (cells s) (bins s d) xs" "distinct xs"
      "set xs = {off. block s off = Some (d, FREE)}" unfolding free_lists_def by blast
    have "free_chain base ?m (bins s d) xs = free_chain base (cells s) (bins s d) xs"
      by (rule free_chain_cong) (use xs(3) far in blast)
    then show "\<exists>xs. free_chain base ?m (bins s d) xs \<and> distinct xs \<and> set xs = {off. block s off = Some (d, FREE)}"
      using xs by blast
  qed
  then show ?thesis using ok by (simp add: seg_ok_def)
qed

text \<open>
  What an operation does to the blocks in use: it adds those it issues, which were not in use,
  may take one away, and leaves the contents of the others alone.
\<close>

definition issues :: "nat \<Rightarrow> small_segment \<Rightarrow> nat list \<Rightarrow> small_segment \<Rightarrow> bool" where
  "issues base s ps s' \<longleftrightarrow> distinct ps
     \<and> (\<forall>p \<in> set ps. base \<le> p \<and> held (block s) (p - base) = None \<and> held (block s') (p - base) \<noteq> None)
     \<and> (\<forall>off. held (block s) off = None \<and> held (block s') off \<noteq> None \<longrightarrow> base + off \<in> set ps)"

definition keeps_contents :: "small_segment \<Rightarrow> small_segment \<Rightarrow> bool" where
  "keeps_contents s s' \<longleftrightarrow> (\<forall>off c. held (block s) off = Some c \<and> held (block s') off \<noteq> None
     \<longrightarrow> held (block s') off = Some c \<and> (\<forall>p. off \<le> p \<and> p < off + class_size c \<longrightarrow> cells s' p = cells s p))"

definition frees :: "nat \<Rightarrow> small_segment \<Rightarrow> nat list \<Rightarrow> small_segment \<Rightarrow> bool" where
  "frees base s fs s' \<longleftrightarrow> (\<forall>p \<in> set fs. base \<le> p)
     \<and> (\<forall>off. held (block s) off \<noteq> None \<and> held (block s') off = None \<longleftrightarrow> base + off \<in> set fs)"

definition op_effect :: "nat \<Rightarrow> small_segment \<Rightarrow> nat list \<Rightarrow> nat list \<Rightarrow> small_segment \<Rightarrow> bool" where
  "op_effect base s ps fs s' \<longleftrightarrow> seg_ok base s' \<and> issues base s ps s' \<and> keeps_contents s s' \<and> frees base s fs s'"

lemma effect_none: "seg_ok base s \<Longrightarrow> op_effect base s [] [] s"
  by (auto simp: op_effect_def issues_def keeps_contents_def frees_def)

lemma effect_issue:
  assumes ok: "seg_ok base s'" and b: "block s' = issue c st (set ys) (block s)" and st: "st \<noteq> FREE"
    and new: "\<And>y. y \<in> set ys \<Longrightarrow> held (block s) y = None" and cells: "cells s' = cells s"
    and ps: "distinct ys" "ps = map ((+) base) ys \<or> ps = rev (map ((+) base) ys)"
  shows "op_effect base s ps [] s'"
proof -
  have h: "held (block s') off = (if off \<in> set ys then Some c else held (block s) off)" for off
    unfolding b using st by (simp add: held_def issue_def)
  have p: "set ps = (+) base ` set ys" "distinct ps" using ps by (auto simp: distinct_map)
  have "issues base s ps s'" unfolding issues_def using p h new by (auto split: if_splits)
  moreover have "keeps_contents s s'" unfolding keeps_contents_def using h new cells by auto
  moreover have "frees base s [] s'" unfolding frees_def h by auto
  ultimately show ?thesis using ok by (simp add: op_effect_def)
qed

lemma held_below:
  assumes "seg_ok base s" and "held (block s) off = Some c"
  shows "off + class_size c \<le> bump (seg_hdr s)"
proof -
  from assms(2) obtain st where "block s off = Some (c, st)" by (auto simp: held_Some)
  then show ?thesis using assms(1) unfolding seg_ok_def placed_def by blast
qed

lemma effect_refill:
  assumes ok: "seg_ok base s" "seg_ok base s'" and a: "block s a = None" "block s' a = Some (c, LIVE)"
    and others: "\<And>off. off \<noteq> a \<Longrightarrow> held (block s') off = held (block s) off"
    and cells: "\<And>p. p < bump (seg_hdr s) \<Longrightarrow> cells s' p = cells s p"
  shows "op_effect base s [base + a] [] s'"
proof -
  have h: "held (block s) a = None" "held (block s') a = Some c" using a by (simp_all add: held_def)
  have only: "off = a" if "held (block s) off = None" "held (block s') off \<noteq> None" for off
  proof (rule ccontr)
    assume "off \<noteq> a"
    from others [OF this] that show False by simp
  qed
  have "base + off \<in> set [base + a]" if "held (block s) off = None \<and> held (block s') off \<noteq> None" for off
    using only [of off] that by simp
  then have "issues base s [base + a] s'" unfolding issues_def using h by simp
  moreover have "keeps_contents s s'" unfolding keeps_contents_def
  proof (intro allI impI, elim conjE)
    fix off d assume d: "held (block s) off = Some d" and "held (block s') off \<noteq> None"
    then have "off \<noteq> a" using h by auto
    then show "held (block s') off = Some d \<and> (\<forall>p. off \<le> p \<and> p < off + class_size d \<longrightarrow> cells s' p = cells s p)"
      using others d held_below [OF ok(1) d] cells by auto
  qed
  moreover have "frees base s [] s'"
  proof -
    have "held (block s') off \<noteq> None" if "held (block s) off \<noteq> None" for off
      using that others [of off] h by (cases "off = a") simp_all
    then show ?thesis unfolding frees_def by (metis empty_iff empty_set)
  qed
  ultimately show ?thesis using ok by (simp add: op_effect_def)
qed

lemma effect_free:
  assumes ok: "seg_ok base s" "seg_ok base s'" and off: "block s off = Some (c, LIVE)"
    and b: "block s' = (block s)(off \<mapsto> (c, FREE))" and m: "cells s' = (cells s)(off := v)"
  shows "op_effect base s [] [base + off] s'"
proof -
  have h: "held (block s') = (held (block s))(off := None)" by (simp add: b held_upd)
  have ap: "apart (block s)" using ok(1) by (simp add: seg_ok_def)
  have "keeps_contents s s'" unfolding keeps_contents_def
  proof (intro allI impI, elim conjE)
    fix y d assume y: "held (block s) y = Some d" "held (block s') y \<noteq> None"
    then have ne: "y \<noteq> off" using h by (auto split: if_splits)
    from y(1) obtain st where "block s y = Some (d, st)" by (auto simp: held_Some)
    then have "y + class_size d \<le> off" if "y < off" using ap off that unfolding apart_def by blast
    then have "off \<noteq> p" if "y \<le> p" "p < y + class_size d" for p using that ne by (cases "y < off") auto
    then show "held (block s') y = Some d \<and> (\<forall>p. y \<le> p \<and> p < y + class_size d \<longrightarrow> cells s' p = cells s p)"
      using y ne h m by auto
  qed
  moreover have "issues base s [] s'" unfolding issues_def h by (auto split: if_splits)
  moreover have "frees base s [base + off] s'" unfolding frees_def h using off by (auto simp: held_def)
  ultimately show ?thesis using ok by (simp add: op_effect_def)
qed

lemma seg_op_effect:
  assumes ok: "seg_ok base s" and op: "seg_op base s ps fs s'"
  shows "op_effect base s ps fs s'"
  using op
proof (cases rule: seg_op.cases)
  case (op_pop c r)
  then have c: "c < 49" by simp
  from free_list_of [OF ok c] obtain xs where xs: "free_chain base (cells s) (bins s c) xs" "distinct xs"
    "set xs = {off. block s off = Some (c, FREE)}" .
  from pop_free_ok [OF ok c xs] op_pop(4) have s': "seg_ok base s'"
    "block s' = issue c LIVE (set (take 1 xs)) (block s)" "cells s' = cells s"
    "r = (if xs = [] then None else Some (base + hd xs))" by auto
  have "held (block s) y = None" if "y \<in> set (take 1 xs)" for y
  proof -
    have "y \<in> set xs" using that by (rule in_set_takeD)
    then show ?thesis unfolding xs(3) by (simp add: held_def)
  qed
  from effect_issue [OF s'(1,2) _ this s'(3)] show ?thesis
    using xs(2) op_pop(1,2) s'(4) by (cases xs) (simp_all add: opt_list_def)
next
  case (op_drain c st n)
  then have c: "c < 49" "st \<noteq> FREE" "unat st < 3" by auto
  from free_list_of [OF ok c(1)] obtain xs where xs: "free_chain base (cells s) (bins s c) xs" "distinct xs"
    "set xs = {off. block s off = Some (c, FREE)}" .
  from try_drain_ok [OF ok c xs, of n] op_drain(4) have s': "seg_ok base s'"
    "block s' = issue c st (set (take n xs)) (block s)" "cells s' = cells s" "ps = map ((+) base) (take n xs)" by auto
  have "held (block s) y = None" if "y \<in> set (take n xs)" for y
    using in_set_takeD [OF that] xs(3) by (auto simp: held_def)
  from effect_issue [OF s'(1,2) c(2) this s'(3)] show ?thesis using xs(2) s'(4) op_drain(1) by simp
next
  case (op_carve c st recommit n)
  then have c: "c < 49" "st \<noteq> FREE" "unat st < 3" by auto
  let ?k = "if carvable recommit c s then min n ((SEGMENT - carve_start c s) div class_size c) else 0"
  let ?ys = "map (\<lambda>i. carve_start c s + i * class_size c) [0..<?k]"
  from try_carve_ok [OF ok c, where n = n and recommit = recommit] op_carve(4) have s': "seg_ok base s'"
    "block s' = issue c st (set ?ys) (block s)" "cells s' = cells s" "\<forall>y \<in> set ?ys. block s y = None"
    "ps = map ((+) base) (if st = MAG then rev ?ys else ?ys)" by auto
  have "0 < class_size c" using class_size_facts(2) [OF c(1)] by simp
  then have d: "distinct ?ys" by (simp add: distinct_map inj_on_def)
  have "held (block s) y = None" if "y \<in> set ?ys" for y
    using bspec [OF s'(4) that] by (simp add: held_def)
  moreover have "ps = map ((+) base) ?ys \<or> ps = rev (map ((+) base) ?ys)"
    by (cases "st = MAG"; simp only: s'(5) if_True if_False rev_map [symmetric] simp_thms)
  ultimately show ?thesis using effect_issue [OF s'(1,2) c(2) _ s'(3) d] op_carve(1) by blast
next
  case (op_refill c safe_mode recommit r)
  then have "c < 49" by simp
  from carve_with_refill_ok [OF ok this, of recommit safe_mode] op_refill(4) show ?thesis
    using effect_none [OF ok] op_refill(1,2)
    by (auto simp: opt_list_def split: if_splits intro: effect_refill [OF ok])
next
  case (op_free c ptr safe_mode fin)
  then have c: "c < 49" by simp
  show ?thesis
  proof (cases "block s (ptr - base) = Some (c, LIVE)")
    case True
    from dealloc_small_ok [OF ok c op_free(4,5), of safe_mode] True op_free(6) have
      "seg_ok base s'" "block s' = (block s)(ptr - base \<mapsto> (c, FREE))"
      "cells s' = (cells s)(ptr - base := link_ptr base (bins s c))" by auto
    from effect_free [OF ok this(1) True this(2,3)] show ?thesis
      using op_free(1,2,4,6) dealloc_small_ok [OF ok c op_free(4,5), of safe_mode] True by auto
  next
    case False
    then have "s' = s" "\<not> fin" using dealloc_small_ok [OF ok c op_free(4,5), of safe_mode] op_free(6)
      by (auto split: if_splits)
    then show ?thesis using effect_none [OF ok] op_free(1,2) by simp
  qed
qed

lemma seg_step_ok: "seg_ok base s \<Longrightarrow> seg_step base s s' \<Longrightarrow> seg_ok base s'"
  by (erule seg_step.cases) (use seg_op_effect write_ok in \<open>auto simp: op_effect_def\<close>)

interpretation seg_life: transition_system "seg_fresh base" "seg_step base" "seg_ok base"
  by unfold_locales (blast intro: fresh_ok seg_step_ok)+

subsection \<open>Properties\<close>

text \<open>C9: Whatever is issued, freed (rightly or wrongly) and written by the callers in a segment, the
  blocks in use lie inside the carved payload, at multiples of their class size, and never
  overlap; the live counter is their number; each class's free list can be walked from its head
  and visits every free block of the class exactly once, so it is never corrupted or cyclic.\<close>

theorem segment_sound:
  assumes "reachable (seg_fresh base) (seg_step base) s"
  shows "(\<forall>off c. held (block s) off = Some c \<longrightarrow> payload_start (kind (seg_hdr s)) \<le> off
      \<and> off + class_size c \<le> bump (seg_hdr s) \<and> class_size c dvd off) \<and> bump (seg_hdr s) \<le> SEGMENT
    \<and> (\<forall>off c off' c'. held (block s) off = Some c \<and> held (block s) off' = Some c' \<and> off < off'
        \<longrightarrow> off + class_size c \<le> off')
    \<and> live_count (seg_hdr s) = card (dom (held (block s)))
    \<and> (\<forall>c < SMALL_CLASS_COUNT. \<exists>xs. free_chain base (cells s) (bins s c) xs \<and> distinct xs
        \<and> set xs = {off. block s off = Some (c, FREE)})"
proof -
  have ok: "seg_ok base s" by (rule seg_life.reachable_good [OF assms])
  have pl: "placed (kind (seg_hdr s)) (bump (seg_hdr s)) (block s)" and ap: "apart (block s)"
    using ok by (simp_all add: seg_ok_def)
  have "payload_start (kind (seg_hdr s)) \<le> off \<and> off + class_size c \<le> bump (seg_hdr s) \<and> class_size c dvd off"
    if "held (block s) off = Some c" for off c
    using pl that unfolding placed_def by (auto simp: held_Some)
  moreover have "off + class_size c \<le> off'"
    if "held (block s) off = Some c" "held (block s) off' = Some c'" "off < off'" for off c off' c'
    using ap that unfolding apart_def by (auto simp: held_Some)
  ultimately show ?thesis using ok unfolding seg_ok_def free_lists_def SMALL_CLASS_COUNT_eq by blast
qed

text \<open>C10: Every pointer an operation issues is a block that was not in use before and is now, no
  pointer is issued twice in a batch, and no block becomes used without being issued.  A block stops
  being used only if it is freed: an operation that issues takes no block out of use, and an
  accepted free takes out exactly the block at the pointer it was given.  Every block that stays
  in use keeps its class and its whole contents, whatever the operation does to the lists around it.\<close>

theorem issue_exact:
  assumes "reachable (seg_fresh base) (seg_step base) s" and "seg_op base s ps fs s'"
  shows "issues base s ps s' \<and> keeps_contents s s'
    \<and> (\<forall>off. held (block s) off \<noteq> None \<and> held (block s') off = None \<longleftrightarrow> base + off \<in> set fs)
    \<and> (fs = [] \<or> ps = [] \<and> (\<exists>ptr c safe_mode. fs = [ptr] \<and> base \<le> ptr \<and> dealloc_small safe_mode base ptr c s = Inr (True, s')))"
proof -
  have "fs = [] \<or> ps = [] \<and> (\<exists>ptr c safe_mode. dealloc_small safe_mode base ptr c s = Inr (True, s') \<and> fs = [ptr] \<and> base \<le> ptr)"
    using assms(2) by (cases rule: seg_op.cases) (auto split: if_splits)
  then show ?thesis
    using seg_op_effect [OF seg_life.reachable_good [OF assms(1)] assms(2)] unfolding op_effect_def frees_def by blast
qed

text \<open>A small segment at 4 MiB from which a 16-byte block is carved.\<close>

definition sample_base :: nat where "sample_base = 4194304"

definition sample_seg :: small_segment where
  "sample_seg = fresh_segment (header_small 1 small_meta_end 0 0) (\<lambda>_. 0)"

lemma class_size_0: "class_size 0 = 16"
  by (simp add: class_size_def SIZE_CLASS_TABLE_eq)

lemma sample_fresh: "seg_fresh sample_base sample_seg"
proof -
  have "based sample_base" by (simp add: based_def sample_base_def)
  then show ?thesis unfolding seg_fresh_def sample_seg_def
    by (auto simp: header_small_def payload_start_def)
qed

lemma sample_start: "reachable (seg_fresh sample_base) (seg_step sample_base) sample_seg"
  by (rule reach_start) (rule sample_fresh)

lemma sample_issued:
  "\<exists>s a. reachable (seg_fresh sample_base) (seg_step sample_base) s
     \<and> seg_op sample_base sample_seg [sample_base + a] [] s \<and> block s a = Some (0, LIVE) \<and> a < SEGMENT"
proof -
  have ok: "seg_ok sample_base sample_seg" by (rule fresh_ok [OF sample_fresh])
  have b: "bump (seg_hdr sample_seg) = small_meta_end" "is_decommitted (seg_hdr sample_seg) = False"
    by (simp_all add: sample_seg_def fresh_segment_def header_small_def is_decommitted_def)
  have "carvable True 0 sample_seg"
    by (simp add: carvable_def carve_start_def b class_size_0 div_ceil_def)
  with carve_with_refill_ok [OF ok, of 0 True True] obtain s' where
    s': "carve_block_with_refill True True sample_base 0 (class_size 0) sample_seg
        = Inr (Some (sample_base + carve_start 0 sample_seg), s')"
      "block s' (carve_start 0 sample_seg) = Some (0, LIVE)" by auto
  have "seg_op sample_base sample_seg (opt_list (Some (sample_base + carve_start 0 sample_seg))) [] s'"
    by (rule op_refill [OF _ s'(1)]) simp
  then have op: "seg_op sample_base sample_seg [sample_base + carve_start 0 sample_seg] [] s'"
    by (simp add: opt_list_def)
  have "reachable (seg_fresh sample_base) (seg_step sample_base) s'"
    by (rule reach_step [OF sample_start step_op [OF op]])
  with op s'(2) block_bounds [OF s'(2)] show ?thesis by blast
qed

lemma segment_sound_witness:
  "\<exists>s a. held (block s) a = Some 0 \<and> a + class_size 0 \<le> bump (seg_hdr s) \<and> 16 dvd a"
proof -
  from sample_issued obtain s a where s: "reachable (seg_fresh sample_base) (seg_step sample_base) s"
    "block s a = Some (0, LIVE)" by blast
  then have "held (block s) a = Some 0" by (simp add: held_def)
  with segment_sound [OF s(1)] class_size_0 show ?thesis by metis
qed

lemma issue_exact_witness:
  "\<exists>s a. issues sample_base sample_seg [sample_base + a] s \<and> keeps_contents sample_seg s
     \<and> (\<nexists>off. held (block sample_seg) off \<noteq> None \<and> held (block s) off = None)"
proof -
  from sample_issued obtain s a where "seg_op sample_base sample_seg [sample_base + a] [] s" by blast
  note e = issue_exact [OF sample_start this]
  have "held (block s) off \<noteq> None" if "held (block sample_seg) off \<noteq> None" for off
  proof
    assume "held (block s) off = None"
    then have "sample_base + off \<in> set []" using e that by blast
    then show False by simp
  qed
  then show ?thesis using e by blast
qed

lemma drain_is_pops_witness:
  "try_drain_freelist_batch sample_base 0 5 LIVE sample_seg = pops sample_base 0 5 sample_seg"
  by (rule drain_is_pops [OF fresh_ok [OF sample_fresh]]) simp

lemma dealloc_exact_witness:
  "\<exists>s s' a. block s a = Some (0, LIVE) \<and> dealloc_small True sample_base (sample_base + a) 0 s = Inr (True, s')
     \<and> block s' a = Some (0, FREE)"
proof -
  from sample_issued obtain s a where s: "reachable (seg_fresh sample_base) (seg_step sample_base) s"
    "block s a = Some (0, LIVE)" "a < SEGMENT" by blast
  have "sample_base \<le> sample_base + a" "sample_base + a < sample_base + SEGMENT" using s(3) by simp_all
  from dealloc_exact [OF seg_life.reachable_good [OF s(1)] _ this, of 0 True] s(2)
  obtain s' where "dealloc_small True sample_base (sample_base + a) 0 s = Inr (True, s')"
    "block s' = (block s)(a \<mapsto> (0, FREE))" by auto
  then show ?thesis using s(2) by (intro exI [of _ s] exI [of _ s'] exI [of _ a]) simp
qed

end
