(* ===== verification/SmallHeap.thy ===== *)
theory SmallHeap
  imports SmallPool SmallBlocks
begin

text \<open>
  The small allocator as a whole: the segments of the table with their blocks, the pool, the class
  cursors and the segment being carved
  (\<open>src/alloc_core/small/alloc_core_small/alloc_core_small_impl.rs\<close>, \<open>dealloc.rs\<close>,
  \<open>reserve.rs\<close>, \<open>find_segment/scan.rs\<close>, \<open>find_segment/class_cursor.rs\<close>).  The build
  is that of the parts: no directory, no route slots, one memory node.  What the operating system
  answers is an argument: the mapping of a new segment in the state in which it is asked
  (\<open>None\<close>: out of memory), the recommit of a decommitted one, the clock.
\<close>

subsection \<open>The state\<close>

record small_heap =
  hpool :: small_pool
  blk_states :: "nat \<Rightarrow> nat \<Rightarrow> u8"
  blk_cells :: "nat \<Rightarrow> nat \<Rightarrow> nat"

type_synonym 'a heap_run = "(fatal, 'a) run"

text \<open>The segment at a base, read out of the heap and put back.\<close>

definition segment_at :: "nat \<Rightarrow> small_heap \<Rightarrow> small_segment" where
  "segment_at b H = \<lparr>seg_hdr = seg_mem (hpool H) b, bins = bin_heads (hpool H) b,
     states = blk_states H b, cells = blk_cells H b\<rparr>"

definition put_segment :: "nat \<Rightarrow> small_segment \<Rightarrow> small_heap \<Rightarrow> small_heap" where
  "put_segment b s H =
     H\<lparr>hpool := (hpool H)\<lparr>seg_mem := (seg_mem (hpool H))(b := seg_hdr s),
         bin_heads := (bin_heads (hpool H))(b := bins s)\<rparr>,
       blk_states := (blk_states H)(b := states s), blk_cells := (blk_cells H)(b := cells s)\<rparr>"

definition on_pool :: "(small_pool \<Rightarrow> small_pool pool_run) \<Rightarrow> small_heap \<Rightarrow> small_heap heap_run" where
  "on_pool f H = tbind (f (hpool H)) (\<lambda>p. ret (H\<lparr>hpool := p\<rparr>))"

definition on_segment ::
    "nat \<Rightarrow> (small_segment \<Rightarrow> fatal + 'a \<times> small_segment) \<Rightarrow> small_heap \<Rightarrow> ('a \<times> small_heap) heap_run" where
  "on_segment b f H = tbind (Some (f (segment_at b H))) (\<lambda>(r, s). ret (r, put_segment b s H))"

definition heap_pop :: "nat \<Rightarrow> nat \<Rightarrow> small_heap \<Rightarrow> (nat option \<times> small_heap) heap_run" where
  "heap_pop b c = on_segment b (pop_free b c)"

subsection \<open>Finding a segment with a free block\<close>

definition pop_from_class_cursor :: "nat \<Rightarrow> small_heap \<Rightarrow> (nat option \<times> small_heap) heap_run" where
  "pop_from_class_cursor c H =
     (if small_class_cursor (hpool H) ! c = CLASS_CURSOR_NONE then ret (None, H)
      else tbind (cursor_probe_base c (hpool H)) (\<lambda>(r, p).
        case r of None \<Rightarrow> ret (None, H\<lparr>hpool := p\<rparr>) | Some b \<Rightarrow> heap_pop b c (H\<lparr>hpool := p\<rparr>)))"

text \<open>One leg of \<open>linear_scan\<close>: the active small segments of the slots from \<open>start\<close> up to \<open>hi\<close>.\<close>

partial_function (option) scan_range ::
    "nat \<Rightarrow> nat \<Rightarrow> nat \<Rightarrow> small_heap \<Rightarrow> (nat option \<times> small_heap) heap_run" where
  "scan_range c start hi H =
     (if \<not> start < hi then ret (None, H)
      else case next_active Small start (seg_table (hpool H)) of
        Inl e \<Rightarrow> abort e
      | Inr r \<Rightarrow>
          (case r of
             None \<Rightarrow> ret (None, H)
           | Some i \<Rightarrow>
               if hi \<le> i then ret (None, H)
               else
                 let b = base_at (seg_table (hpool H)) i in
                 if b = 0 \<or> kind (seg_mem (hpool H) b) \<notin> {Small, Primordial}
                 then abort ''find_segment: drained segment is not a live small segment''
                 else if bin_heads (hpool H) b c \<noteq> FREE_LIST_NULL
                 then tbind (on_pool (unpool_if_present b) H) (\<lambda>H'. ret (Some b, H'))
                 else scan_range c (i + 1) hi H))"

definition linear_scan :: "nat \<Rightarrow> small_heap \<Rightarrow> (nat option \<times> small_heap) heap_run" where
  "linear_scan c H =
     (let n = seg_count (seg_table (hpool H));
          start = (case class_cursor_scan_start c n (hpool H) of None \<Rightarrow> 0 | Some i \<Rightarrow> i)
      in tbind (scan_range c start n H) (\<lambda>(r, H').
         case r of None \<Rightarrow> scan_range c 0 start H' | Some b \<Rightarrow> ret (Some b, H')))"

definition find_segment_with_free :: "nat \<Rightarrow> small_heap \<Rightarrow> (nat option \<times> small_heap) heap_run" where
  "find_segment_with_free c H =
     tbind (linear_scan c H) (\<lambda>(r, H').
       case r of
         None \<Rightarrow> ret (None, H')
       | Some b \<Rightarrow> tbind (on_pool (record_class_cursor c b) H') (\<lambda>H''. ret (Some b, H'')))"

definition alloc_small_via_discovery :: "nat \<Rightarrow> small_heap \<Rightarrow> (nat option \<times> small_heap) heap_run" where
  "alloc_small_via_discovery c H =
     tbind (pop_from_class_cursor c H) (\<lambda>(r, H1).
       case r of
         Some p \<Rightarrow> ret (Some p, H1)
       | None \<Rightarrow> tbind (find_segment_with_free c H1) (\<lambda>(seg, H2).
           case seg of None \<Rightarrow> ret (None, H2) | Some b \<Rightarrow> heap_pop b c H2))"

subsection \<open>A new segment\<close>

text \<open>
  The system answers a request with base, reservation token and length of a mapping, or refuses
  it; a second request follows a refusal once the pool is drained.  A fresh mapping reads as zero.
\<close>

type_synonym mapper = "small_heap \<Rightarrow> (nat \<times> nat \<times> nat) option"

definition reserve_small_segment_impl :: "nat \<Rightarrow> mapper \<Rightarrow> small_heap \<Rightarrow> (nat option \<times> small_heap) heap_run" where
  "reserve_small_segment_impl now os H =
     tbind (on_pool (maybe_decay_small_pool now) H) (\<lambda>H1.
     tbind (if os H1 = None \<and> 0 < pooled_count (hpool H1)
            then tbind (on_pool (\<lambda>p. tbind (drain_small_pool p) (\<lambda>(_, p'). ret p')) H1) (\<lambda>H2. ret (os H2, H2))
            else ret (os H1, H1)) (\<lambda>(seg, H2).
       case seg of
         None \<Rightarrow> ret (None, H2)
       | Some (b, res, res_len) \<Rightarrow>
           tbind (register b Small (seg_table (hpool H2))) (\<lambda>(r, t).
             case r of
               None \<Rightarrow> ret (None, H2\<lparr>hpool := (hpool H2)\<lparr>seg_table := release_segment res res_len t\<rparr>\<rparr>)
             | Some i \<Rightarrow> ret (Some b, put_segment b
                 (fresh_segment (header_small i small_meta_end res res_len) (\<lambda>_. 0))
                 (H2\<lparr>hpool := (hpool H2)\<lparr>seg_table := t\<rparr>\<rparr>)))))"

definition reserve_small_segment :: "nat \<Rightarrow> mapper \<Rightarrow> small_heap \<Rightarrow> (nat option \<times> small_heap) heap_run" where
  "reserve_small_segment now os H =
     tbind (reserve_small_segment_impl now os H) (\<lambda>(r, H1).
       case r of
         None \<Rightarrow> ret (None, H1)
       | Some b \<Rightarrow>
           let old_cur = small_cur (hpool H1); H2 = H1\<lparr>hpool := (hpool H1)\<lparr>small_cur := b\<rparr>\<rparr> in
           tbind (on_pool (finalize_old_cursor_if_orphaned old_cur) H2) (\<lambda>H3. ret (Some b, H3)))"

subsection \<open>Allocation and deallocation\<close>

text \<open>
  Without route slots every issue is prepared; what is left of \<open>prepare_current_carve\<close> is the
  rounding with its assertion.
\<close>

definition prepare_current_carve :: "nat \<Rightarrow> small_heap \<Rightarrow> bool heap_run" where
  "prepare_current_carve bsize H =
     Some (rbind (aligned_to (bump (seg_mem (hpool H) (small_cur (hpool H)))) bsize) (\<lambda>_. Inr True))"

definition heap_carve ::
    "bool \<Rightarrow> bool \<Rightarrow> nat \<Rightarrow> nat \<Rightarrow> small_heap \<Rightarrow> (nat option \<times> small_heap) heap_run" where
  "heap_carve safe_mode recommit c bsize H =
     on_segment (small_cur (hpool H))
       (carve_block_with_refill safe_mode recommit (small_cur (hpool H)) c bsize) H"

definition alloc_small ::
    "bool \<Rightarrow> bool \<Rightarrow> nat \<Rightarrow> mapper \<Rightarrow> nat \<Rightarrow> small_heap \<Rightarrow> (nat option \<times> small_heap) heap_run" where
  "alloc_small safe_mode recommit now os c H =
     (case alloc_block_size c of
        None \<Rightarrow> abort ''index out of bounds''
      | Some bsize \<Rightarrow>
          tbind (heap_pop (small_cur (hpool H)) c H) (\<lambda>(r1, H1).
          if r1 \<noteq> None then ret (r1, H1) else
          tbind (alloc_small_via_discovery c H1) (\<lambda>(r2, H2).
          if r2 \<noteq> None then ret (r2, H2) else
          tbind (prepare_current_carve bsize H2) (\<lambda>ready.
          if \<not> ready then ret (None, H2) else
          tbind (heap_carve safe_mode recommit c bsize H2) (\<lambda>(r3, H3).
          if r3 \<noteq> None then ret (r3, H3) else
          tbind (reserve_small_segment now os H3) (\<lambda>(seg, H4).
          if seg = None then ret (None, H4) else
          tbind (heap_pop (small_cur (hpool H4)) c H4) (\<lambda>(r5, H5).
          if r5 \<noteq> None then ret (r5, H5) else
          heap_carve safe_mode recommit c bsize H5)))))))"

definition heap_dealloc :: "bool \<Rightarrow> nat \<Rightarrow> nat \<Rightarrow> nat \<Rightarrow> small_heap \<Rightarrow> small_heap heap_run" where
  "heap_dealloc safe_mode b ptr c H =
     tbind (on_segment b (dealloc_small safe_mode b ptr c) H) (\<lambda>(accepted, H1).
       if accepted \<and> dec_live_and_maybe_decommit b (hpool H1)
       then tbind (release_or_pool_empty_segment b (hpool H1)) (\<lambda>(_, p). ret (H1\<lparr>hpool := p\<rparr>))
       else ret H1)"

text \<open>The refill frees blocks of the current segment, which is never pooled by that.\<close>

lemma refill_no_tail: "\<not> dec_live_and_maybe_decommit (small_cur s) s"
  by (simp add: dec_live_and_maybe_decommit_def Let_def)

subsection \<open>A new heap\<close>

definition resolve_pool_cap_u32 :: "nat \<Rightarrow> nat \<Rightarrow> nat" where
  "resolve_pool_cap_u32 by_segments by_bytes =
     (if min by_segments by_bytes < 2 ^ 32 then min by_segments by_bytes else 2 ^ 32 - 1)"

text \<open>
  The primordial header is written as a small one and then patched.  The rest of the memory, the
  headers \<open>mem\<close> of other addresses included, is never read before it is written.
\<close>

definition primordial_header :: "nat \<Rightarrow> nat \<Rightarrow> segment_header" where
  "primordial_header res res_len =
     (let hdr = header_small 0 0 res res_len in hdr\<lparr>kind := Primordial, bump := primordial_meta_end\<rparr>)"

definition new_inner ::
    "nat \<Rightarrow> nat \<Rightarrow> nat \<Rightarrow> (nat \<Rightarrow> segment_header) \<Rightarrow> nat \<Rightarrow> nat \<Rightarrow> nat \<Rightarrow> fatal + small_heap" where
  "new_inner by_segments by_bytes interval mem base res res_len =
     rbind (bootstrap_table base) (\<lambda>t.
       Inr \<lparr>hpool = \<lparr>pool_head = 0, pool_tail = 0, pooled_count = 0,
              pool_cap = resolve_pool_cap_u32 by_segments by_bytes, last_pool_decay_tick = None,
              pool_decay_interval = interval, small_cur = base,
              small_class_cursor = replicate SMALL_CLASS_COUNT CLASS_CURSOR_NONE,
              seg_mem = mem(base := primordial_header res res_len), bin_heads = (\<lambda>_. bin_table_init),
              seg_table = t, decommit_calls = 0\<rparr>,
            blk_states = (\<lambda>_ _. 0), blk_cells = (\<lambda>_ _. 0)\<rparr>)"

subsection \<open>The blocks of the heap\<close>

text \<open>The small segments, the blocks in use by address, the word at an address.\<close>

definition small_base :: "small_heap \<Rightarrow> nat \<Rightarrow> bool" where
  "small_base H b \<longleftrightarrow> in_table (hpool H) b \<and> kind (seg_mem (hpool H) b) \<noteq> Large"

definition heap_blocks :: "small_heap \<Rightarrow> nat \<Rightarrow> nat option" where
  "heap_blocks H a = (let b = segment_base_of a in
     if small_base H b then held (block (segment_at b H)) (a - b) else None)"

definition heap_word :: "small_heap \<Rightarrow> nat \<Rightarrow> nat" where
  "heap_word H a = blk_cells H (segment_base_of a) (a - segment_base_of a)"

definition keeps_words :: "small_heap \<Rightarrow> small_heap \<Rightarrow> bool" where
  "keeps_words H H' \<longleftrightarrow> (\<forall>a d. heap_blocks H a = Some d \<and> heap_blocks H' a = Some d
     \<longrightarrow> (\<forall>q. a \<le> q \<and> q < a + class_size d \<longrightarrow> heap_word H' q = heap_word H q))"

text \<open>
  The pool and the table are sound; every small segment is indexed by its own address and sound,
  and as nothing of this build caches blocks, each of its blocks is live or free;
  the segment being carved is a small one of the table; slot 0 holds the primordial one.
\<close>

definition no_cached :: "small_segment \<Rightarrow> bool" where
  "no_cached s \<longleftrightarrow> (\<forall>off c st. block s off = Some (c, st) \<longrightarrow> st = LIVE \<or> st = FREE)"

definition segs_ok :: "small_heap \<Rightarrow> bool" where
  "segs_ok H \<longleftrightarrow> length (small_class_cursor (hpool H)) = 49 \<and> small_base H (small_cur (hpool H))
     \<and> kind (seg_mem (hpool H) (slots (seg_table (hpool H)) ! 0)) = Primordial
     \<and> (\<forall>b. small_base H b \<longrightarrow> segment_key b \<and> b \<noteq> 0 \<and> payload_key (seg_mem (hpool H)) b = b
          \<and> seg_ok b (segment_at b H) \<and> no_cached (segment_at b H))"

definition heap_inv :: "small_heap \<Rightarrow> nat list \<Rightarrow> bool" where
  "heap_inv H ps \<longleftrightarrow> (\<exists>m. pool_inv (hpool H) m ps) \<and> segs_ok H"

lemma based_key: "segment_key b \<Longrightarrow> b \<noteq> 0 \<Longrightarrow> based b"
proof -
  assume "segment_key b" "b \<noteq> 0"
  then obtain k where k: "b = 4194304 * k" "b \<le> usize_max" "0 < b" by (auto simp: segment_key_def)
  then have "k < 4398046511104" by simp
  then show "based b" using k by (simp add: based_def)
qed

lemma segment_base_le: "segment_base_of a \<le> a"
proof -
  have "(2 ^ 64 - 2 ^ 22 :: nat) = push_bit 22 (mask 42)" by (simp add: push_bit_eq_mult mask_eq_exp_minus_1)
  moreover have "usize_max - (SEGMENT - 1) = 2 ^ 64 - 2 ^ 22" by simp
  ultimately have "segment_base_of a = push_bit 22 (take_bit 42 (drop_bit 22 a))"
    unfolding segment_base_of_def by (simp only: and_shifted_mask)
  also have "\<dots> \<le> a div 2 ^ 22 * 2 ^ 22"
    by (simp add: push_bit_eq_mult drop_bit_eq_div take_bit_eq_mod)
  also have "\<dots> \<le> a" by (rule div_times_less_eq_dividend)
  finally show ?thesis .
qed

lemma heap_blocks_at:
  assumes "based b" and "off < SEGMENT"
  shows "heap_blocks H (b + off) = (if small_base H b then held (block (segment_at b H)) off else None)"
  using segment_base_of_in [OF assms] by (simp add: heap_blocks_def)

lemma heap_block_parts:
  assumes "heap_blocks H a = Some c"
  shows "small_base H (segment_base_of a)" "held (block (segment_at (segment_base_of a) H)) (a - segment_base_of a) = Some c"
  using assms by (auto simp: heap_blocks_def Let_def split: if_splits)

subsection \<open>A step of the pool\<close>

lemma no_links_fields:
  assumes "no_links h' = no_links h"
  shows "kind h' = kind h" "payload_offset h' = payload_offset h" "segment_id h' = segment_id h"
    "live_count h' = live_count h" "bump h' = bump h" "decommitted h' = decommitted h"
  using arg_cong [OF assms, of kind] arg_cong [OF assms, of payload_offset] arg_cong [OF assms, of segment_id]
    arg_cong [OF assms, of live_count] arg_cong [OF assms, of bump] arg_cong [OF assms, of decommitted]
  by (simp_all add: no_links_def)

lemma seg_ok_relink: "no_links h = no_links (seg_hdr s) \<Longrightarrow> seg_ok b (s\<lparr>seg_hdr := h\<rparr>) = seg_ok b s"
  using no_links_fields [of h "seg_hdr s"] by (simp add: seg_ok_def)

text \<open>What a step leaves for later: the carving segment, and room for new segments.\<close>

definition seg_span :: "small_heap \<Rightarrow> nat \<Rightarrow> nat" where
  "seg_span H b = (if kind (seg_mem (hpool H) b) = Large then span_usable (seg_mem (hpool H) b) else SEGMENT)"

definition clear :: "small_heap \<Rightarrow> nat \<Rightarrow> nat \<Rightarrow> bool" where
  "clear H b n \<longleftrightarrow> (\<forall>s. in_table (hpool H) s \<longrightarrow> (s + seg_span H s \<le> b \<or> b + n \<le> s) \<and> s \<noteq> b
     \<and> payload_key (seg_mem (hpool H)) s \<notin> {b ..< b + n})"

definition unmapped :: "small_heap \<Rightarrow> nat \<Rightarrow> bool" where
  "unmapped H b \<longleftrightarrow> segment_key b \<and> b \<noteq> 0 \<and> clear H b SEGMENT"

lemma unmapped_apart: "unmapped H b \<Longrightarrow> in_table (hpool H) s \<Longrightarrow> s \<noteq> b \<and> payload_key (seg_mem (hpool H)) s \<noteq> b"
  by (auto simp: unmapped_def clear_def)

text \<open>
  \<open>moves X H H'\<close>: on the way from \<open>H\<close> to \<open>H'\<close> the table gained at most the small
  segments \<open>X\<close>, kept every large one, and no memory was written but that of small segments.
\<close>

definition extent :: "segment_header \<Rightarrow> segment_kind \<times> nat \<times> nat" where
  "extent h = (kind h, payload_offset h, span_usable h)"

definition moves :: "nat set \<Rightarrow> small_heap \<Rightarrow> small_heap \<Rightarrow> bool" where
  "moves X H H' \<longleftrightarrow>
     (\<forall>s. in_table (hpool H') s \<longrightarrow> s \<in> X \<and> kind (seg_mem (hpool H') s) \<noteq> Large
        \<or> in_table (hpool H) s \<and> extent (seg_mem (hpool H') s) = extent (seg_mem (hpool H) s))
     \<and> (\<forall>s. in_table (hpool H) s \<and> kind (seg_mem (hpool H) s) = Large
        \<longrightarrow> in_table (hpool H') s \<and> no_links (seg_mem (hpool H') s) = no_links (seg_mem (hpool H) s))
     \<and> (\<forall>s. \<not> in_table (hpool H) s \<and> s \<notin> X \<longrightarrow> seg_mem (hpool H') s = seg_mem (hpool H) s)
     \<and> (\<forall>q. \<not> small_base H (segment_base_of q) \<and> segment_base_of q \<notin> X \<longrightarrow> heap_word H' q = heap_word H q)"

definition evolves :: "small_heap \<Rightarrow> small_heap \<Rightarrow> bool" where
  "evolves H H' \<longleftrightarrow> small_cur (hpool H') = small_cur (hpool H)
     \<and> live (seg_table (hpool H')) \<subseteq> live (seg_table (hpool H)) \<and> moves {} H H'"

lemma moves_refl [simp]: "moves X H H"
  by (auto simp: moves_def)

lemma moves_table:
  assumes "moves X H H'" and "in_table (hpool H') s"
  shows "s \<in> X \<and> kind (seg_mem (hpool H') s) \<noteq> Large
    \<or> in_table (hpool H) s \<and> extent (seg_mem (hpool H') s) = extent (seg_mem (hpool H) s)"
  using assms by (simp add: moves_def)

lemma moves_trans:
  assumes a: "moves X H H1" and b: "moves Y H1 H2"
  shows "moves (X \<union> Y) H H2"
proof -
  have tab: "s \<in> X \<union> Y \<and> kind (seg_mem (hpool H2) s) \<noteq> Large
      \<or> in_table (hpool H) s \<and> extent (seg_mem (hpool H2) s) = extent (seg_mem (hpool H) s)"
    if "in_table (hpool H2) s" for s
  proof (cases "in_table (hpool H1) s \<and> extent (seg_mem (hpool H2) s) = extent (seg_mem (hpool H1) s)")
    case True
    then show ?thesis using moves_table [OF a, of s] by (auto simp: extent_def)
  next
    case False
    then show ?thesis using moves_table [OF b that] by auto
  qed
  have out: "\<not> in_table (hpool H1) s" if "\<not> in_table (hpool H) s" "s \<notin> X" for s
    using moves_table [OF a, of s] that by auto
  have "seg_mem (hpool H2) s = seg_mem (hpool H) s" if "\<not> in_table (hpool H) s" "s \<notin> X \<union> Y" for s
    using a b out [of s] that by (simp add: moves_def)
  moreover have "heap_word H2 q = heap_word H q"
    if "\<not> small_base H (segment_base_of q)" "segment_base_of q \<notin> X \<union> Y" for q
  proof -
    have "\<not> small_base H1 (segment_base_of q)"
      using moves_table [OF a, of "segment_base_of q"] that by (auto simp: small_base_def extent_def)
    then show ?thesis using a b that by (simp add: moves_def)
  qed
  moreover have "in_table (hpool H2) s \<and> no_links (seg_mem (hpool H2) s) = no_links (seg_mem (hpool H) s)"
    if "in_table (hpool H) s" "kind (seg_mem (hpool H) s) = Large" for s
  proof -
    have 1: "in_table (hpool H1) s" "no_links (seg_mem (hpool H1) s) = no_links (seg_mem (hpool H) s)"
      using a that by (simp_all add: moves_def)
    then have "kind (seg_mem (hpool H1) s) = Large" using that(2) no_links_live by metis
    then show ?thesis using b 1 by (simp add: moves_def)
  qed
  ultimately show ?thesis using tab unfolding moves_def by blast
qed

lemma moves_after: "moves {} H H1 \<Longrightarrow> moves X H1 H2 \<Longrightarrow> moves X H H2"
  using moves_trans [of "{}" H H1 X H2] by simp

lemma moves_then: "moves X H H1 \<Longrightarrow> moves {} H1 H2 \<Longrightarrow> moves X H H2"
  using moves_trans [of X H H1 "{}" H2] by simp

lemma clear_moves:
  assumes "moves {} H K" and "clear H b n"
  shows "clear K b n"
  unfolding clear_def
proof (intro allI impI)
  fix s assume "in_table (hpool K) s"
  then have s: "in_table (hpool H) s" "extent (seg_mem (hpool K) s) = extent (seg_mem (hpool H) s)"
    using moves_table [OF assms(1)] by auto
  then have "seg_span K s = seg_span H s" "payload_key (seg_mem (hpool K)) s = payload_key (seg_mem (hpool H)) s"
    by (simp_all add: seg_span_def extent_def payload_key_def)
  then show "(s + seg_span K s \<le> b \<or> b + n \<le> s) \<and> s \<noteq> b \<and> payload_key (seg_mem (hpool K)) s \<notin> {b ..< b + n}"
    using assms(2) s(1) unfolding clear_def by metis
qed

lemma evolves_refl [simp]: "evolves H H"
  by (simp add: evolves_def)

lemma evolves_trans: "evolves H H' \<Longrightarrow> evolves H' H'' \<Longrightarrow> evolves H H''"
  unfolding evolves_def by (elim conjE, intro conjI moves_after [of H H' "{}" H'']) (assumption | simp | blast)+

lemma moves_pool:
  assumes f: "pool_frame (hpool H) p"
  shows "moves {} H (H\<lparr>hpool := p\<rparr>)"
proof -
  have "in_table (hpool H) s \<and> extent (seg_mem p s) = extent (seg_mem (hpool H) s)" if "in_table p s" for s
  proof -
    have "in_table (hpool H) s" and n: "no_links (seg_mem p s) = no_links (seg_mem (hpool H) s)"
      using f that by (simp_all add: pool_frame_def)
    moreover have "span_usable (seg_mem p s) = span_usable (seg_mem (hpool H) s)"
      using arg_cong [OF n, of span_usable] by (simp add: no_links_def)
    ultimately show ?thesis using no_links_fields(1,2) [OF n] by (simp add: extent_def)
  qed
  moreover have "in_table p s \<and> no_links (seg_mem p s) = no_links (seg_mem (hpool H) s)"
    if "in_table (hpool H) s" "kind (seg_mem (hpool H) s) = Large" for s
    using f that unfolding pool_frame_def by blast
  moreover have "seg_mem p s = seg_mem (hpool H) s" if "\<not> in_table (hpool H) s" for s
    using f that by (simp add: pool_frame_def)
  ultimately show ?thesis by (simp add: moves_def heap_word_def)
qed

lemma segment_at_pool:
  "bin_heads p = bin_heads (hpool H) \<Longrightarrow> segment_at b (H\<lparr>hpool := p\<rparr>) = (segment_at b H)\<lparr>seg_hdr := seg_mem p b\<rparr>"
  by (simp add: segment_at_def)

lemma pool_step:
  assumes inv: "heap_inv H ps" and p: "pool_inv p m ps'" "pool_frame (hpool H) p"
  shows "heap_inv (H\<lparr>hpool := p\<rparr>) ps'" "heap_blocks (H\<lparr>hpool := p\<rparr>) = heap_blocks H"
    "heap_word (H\<lparr>hpool := p\<rparr>) = heap_word H" "evolves H (H\<lparr>hpool := p\<rparr>)"
    "small_base (H\<lparr>hpool := p\<rparr>) b \<longleftrightarrow> small_base H b \<and> in_table p b"
proof -
  let ?H = "H\<lparr>hpool := p\<rparr>"
  have ok: "segs_ok H" using inv by (simp add: heap_inv_def)
  have f: "bin_heads p = bin_heads (hpool H)" "small_cur p = small_cur (hpool H)"
    "length (small_class_cursor p) = length (small_class_cursor (hpool H))"
    "slots (seg_table p) ! 0 = slots (seg_table (hpool H)) ! 0"
    "live (seg_table p) \<subseteq> live (seg_table (hpool H))"
    using p(2) by (simp_all add: pool_frame_def)
  have stay: "in_table (hpool H) b \<and> no_links (seg_mem p b) = no_links (seg_mem (hpool H) b)" if "in_table p b" for b
    using p(2) that by (simp add: pool_frame_def)
  have gone: "live_count (seg_mem (hpool H) b) = 0 \<and> b \<noteq> small_cur (hpool H)"
    if "in_table (hpool H) b" "\<not> in_table p b" for b
    using p(2) that by (simp add: pool_frame_def)
  have kd: "kind (seg_mem p b) = kind (seg_mem (hpool H) b)" if "in_table p b" for b
    by (rule no_links_fields(1) [OF conjunct2 [OF stay [OF that]]])
  have sb: "small_base ?H b \<longleftrightarrow> small_base H b \<and> in_table p b" for b
    using stay [of b] kd [of b] unfolding small_base_def by auto
  have key: "payload_key (seg_mem p) b = payload_key (seg_mem (hpool H)) b" if "in_table p b" for b
    unfolding payload_key_def no_links_fields(2) [OF conjunct2 [OF stay [OF that]]] by (rule refl)
  note at = segment_at_pool [where H = H, OF f(1)]
  have "seg_ok b (segment_at b ?H) \<and> no_cached (segment_at b ?H)" if "small_base ?H b" for b
  proof -
    have t: "small_base H b" "in_table p b" using that sb by simp_all
    have "no_links (seg_mem p b) = no_links (seg_hdr (segment_at b H))"
      using stay [OF t(2)] by (simp add: segment_at_def)
    moreover have "seg_ok b (segment_at b H) \<and> no_cached (segment_at b H)" using ok t(1) by (simp add: segs_ok_def)
    ultimately show ?thesis unfolding at by (simp add: seg_ok_relink no_cached_def)
  qed
  moreover have "in_table p (slots (seg_table p) ! 0)"
    using p(1) by (auto simp: pool_inv_def env_ok_def in_table_def)
  then have "kind (seg_mem p (slots (seg_table p) ! 0)) = Primordial"
    using kd ok f(4) by (simp add: segs_ok_def)
  moreover have "small_base ?H (small_cur p)" using sb gone ok f(2) by (auto simp: segs_ok_def small_base_def)
  ultimately have "segs_ok ?H" using ok sb key f by (simp add: segs_ok_def)
  then show "heap_inv ?H ps'" using p(1) by (auto simp: heap_inv_def)
  show "heap_blocks ?H = heap_blocks H"
  proof
    fix a
    let ?b = "segment_base_of a"
    have e: "block (segment_at b ?H) = block (segment_at b H)" for b by (simp add: at)
    show "heap_blocks ?H a = heap_blocks H a"
    proof (cases "small_base H ?b \<and> \<not> small_base ?H ?b")
      case True
      then have "in_table (hpool H) ?b" "\<not> in_table p ?b" unfolding sb by (auto simp: small_base_def)
      then have "live_count (seg_hdr (segment_at ?b H)) = 0" using gone by (simp add: segment_at_def)
      then have "dom (held (block (segment_at ?b H))) = {}"
        using ok True finite_held by (simp add: segs_ok_def seg_ok_def)
      then have "held (block (segment_at ?b H)) x = None" for x by (auto simp: dom_def)
      then show ?thesis using True by (simp add: heap_blocks_def Let_def)
    qed (use sb e in \<open>auto simp: heap_blocks_def Let_def\<close>)
  qed
  show "small_base ?H b \<longleftrightarrow> small_base H b \<and> in_table p b" by (rule sb)
  show "heap_word ?H = heap_word H" by (simp add: fun_eq_iff heap_word_def)
  show "evolves H ?H" using f moves_pool [OF p(2)] by (simp add: evolves_def)
qed

subsection \<open>A step in one segment\<close>

lemma hdr_frame_fields:
  assumes "hdr_frame h h'"
  shows "kind h' = kind h" "payload_offset h' = payload_offset h" "segment_id h' = segment_id h"
    "pool_next h' = pool_next h" "pool_prev h' = pool_prev h" "span_usable h' = span_usable h"
proof -
  have e: "h'\<lparr>bump := 0, live_count := 0, decommitted := 0\<rparr> = h\<lparr>bump := 0, live_count := 0, decommitted := 0\<rparr>"
    using assms by (simp add: hdr_frame_def)
  show "kind h' = kind h" "payload_offset h' = payload_offset h" "segment_id h' = segment_id h"
    "pool_next h' = pool_next h" "pool_prev h' = pool_prev h" "span_usable h' = span_usable h"
    using arg_cong [OF e, of kind] arg_cong [OF e, of payload_offset] arg_cong [OF e, of segment_id]
      arg_cong [OF e, of pool_next] arg_cong [OF e, of pool_prev] arg_cong [OF e, of span_usable] by simp_all
qed

lemma hdr_frame_counted: "hdr_frame h (counted h n)"
  by (simp add: hdr_frame_def counted_def)

lemma put_segment_same [simp]: "put_segment b (segment_at b H) H = H"
  by (simp add: put_segment_def segment_at_def)

lemma segment_at_put: "segment_at c (put_segment b s H) = (if c = b then s else segment_at c H)"
  by (simp add: put_segment_def segment_at_def)

lemma put_segment_pool [simp]:
  "seg_table (hpool (put_segment b s H)) = seg_table (hpool H)"
  "small_cur (hpool (put_segment b s H)) = small_cur (hpool H)"
  "small_class_cursor (hpool (put_segment b s H)) = small_class_cursor (hpool H)"
  "seg_mem (hpool (put_segment b s H)) = (seg_mem (hpool H))(b := seg_hdr s)"
  by (simp_all add: put_segment_def)

lemma mem_frame:
  assumes "hdr_frame (mem b) h"
  shows "kind ((mem(b := h)) c) = kind (mem c)" "payload_offset ((mem(b := h)) c) = payload_offset (mem c)"
    "segment_id ((mem(b := h)) c) = segment_id (mem c)" "pool_next ((mem(b := h)) c) = pool_next (mem c)"
    "pool_prev ((mem(b := h)) c) = pool_prev (mem c)"
  using hdr_frame_fields [OF assms] by simp_all

lemma put_pool_inv:
  assumes inv: "pool_inv (hpool H) m ps" and b: "b \<notin> set ps"
    and h: "hdr_frame (seg_mem (hpool H) b) (seg_hdr s)"
  shows "pool_inv (hpool (put_segment b s H)) m ps"
proof -
  let ?p = "hpool (put_segment b s H)"
  note f = mem_frame [where mem = "seg_mem (hpool H)", OF h]
  have eqs: "pool_head ?p = pool_head (hpool H)" "pool_tail ?p = pool_tail (hpool H)"
    "pooled_count ?p = pooled_count (hpool H)" "pool_cap ?p = pool_cap (hpool H)"
    by (simp_all add: put_segment_def)
  have t: "in_table ?p = in_table (hpool H)" by (simp add: fun_eq_iff in_table_def)
  have "table_inv (seg_mem ?p) (seg_table (hpool H)) m = table_inv (seg_mem (hpool H)) (seg_table (hpool H)) m"
    by (rule table_inv_cong) (simp_all only: put_segment_pool f)
  moreover have "small_slots ?p = small_slots (hpool H)" unfolding small_slots_def put_segment_pool f by (rule refl)
  ultimately have "env_ok ?p m" using inv unfolding pool_inv_def env_ok_def put_segment_pool f by metis
  moreover have "lseg (seg_mem ?p) 0 ps 0 = lseg (seg_mem (hpool H)) 0 ps 0"
    by (rule lseg_cong) (simp only: put_segment_pool f)
  then have "pool_list ?p ps" using inv by (simp add: pool_inv_def pool_list_def eqs)
  moreover have "idle ?p c" if "c \<in> set ps" for c
  proof -
    have "c \<noteq> b" "idle (hpool H) c" using that b inv by (auto simp: pool_inv_def)
    then show ?thesis by (simp add: idle_def t dec_live_iff payload_key_def)
  qed
  moreover have "pool_prev (seg_mem ?p c) = 0" if "in_table ?p c" "c \<notin> set ps" for c
    using that inv unfolding put_segment_pool f t by (simp add: pool_inv_def)
  ultimately show ?thesis using inv unfolding pool_inv_def eqs by blast
qed

lemma put_step:
  assumes inv: "heap_inv H ps" and b: "small_base H b" "b \<notin> set ps"
    and s: "seg_ok b s" "hdr_frame (seg_hdr (segment_at b H)) (seg_hdr s)" "no_cached s"
  defines "H' \<equiv> put_segment b s H"
  shows "heap_inv H' ps" "evolves H H'" "small_base H' = small_base H"
    "heap_blocks H' a = (if segment_base_of a = b then held (block s) (a - b) else heap_blocks H a)"
    "heap_word H' q = (if segment_base_of q = b then cells s (q - b) else heap_word H q)"
proof -
  have h: "hdr_frame (seg_mem (hpool H) b) (seg_hdr s)" using s(2) by (simp add: segment_at_def)
  note f = mem_frame [where mem = "seg_mem (hpool H)", OF h]
  have ok: "segs_ok H" using inv by (simp add: heap_inv_def)
  have t: "in_table (hpool H') = in_table (hpool H)" by (simp add: fun_eq_iff in_table_def H'_def)
  show sb: "small_base H' = small_base H" unfolding fun_eq_iff small_base_def t unfolding H'_def put_segment_pool f by simp
  have key: "payload_key (seg_mem (hpool H')) c = payload_key (seg_mem (hpool H)) c" for c
    unfolding payload_key_def H'_def put_segment_pool f by (rule refl)
  have "segs_ok H'" unfolding segs_ok_def sb key
    using ok s(1,3) unfolding H'_def put_segment_pool f segment_at_put by (auto simp: segs_ok_def)
  then show "heap_inv H' ps" using inv put_pool_inv [OF _ b(2) h] unfolding heap_inv_def H'_def by blast
  show word: "heap_word H' q = (if segment_base_of q = b then cells s (q - b) else heap_word H q)" for q
    by (simp add: heap_word_def H'_def put_segment_def)
  have "extent (seg_hdr s) = extent (seg_mem (hpool H) b)" "kind (seg_mem (hpool H) b) \<noteq> Large"
    using hdr_frame_fields [OF h] b(1) by (simp_all add: extent_def small_base_def)
  then have "moves {} H H'" using b(1) unfolding moves_def t word
    by (auto simp: small_base_def H'_def)
  then show "evolves H H'" unfolding evolves_def by (simp add: H'_def)
  show "heap_blocks H' a = (if segment_base_of a = b then held (block s) (a - b) else heap_blocks H a)"
    unfolding heap_blocks_def Let_def sb using b(1) by (auto simp: H'_def segment_at_put)
qed

subsection \<open>What an operation does to the blocks\<close>

definition heap_effect :: "nat \<Rightarrow> nat option \<Rightarrow> small_heap \<Rightarrow> small_heap \<Rightarrow> bool" where
  "heap_effect c r H H' \<longleftrightarrow> keeps_words H H'
     \<and> (case r of None \<Rightarrow> heap_blocks H' = heap_blocks H
          | Some p \<Rightarrow> heap_blocks H p = None \<and> heap_blocks H' = (heap_blocks H)(p \<mapsto> c))"

lemma effect_refl [simp]: "heap_effect c None H H"
  by (simp add: heap_effect_def keeps_words_def)

lemma heap_effect_trans:
  assumes "heap_effect c None H H1" and "heap_effect c r H1 H2"
  shows "heap_effect c r H H2"
proof -
  have e: "heap_blocks H1 = heap_blocks H" using assms(1) by (simp add: heap_effect_def)
  have "keeps_words H H2" using assms unfolding heap_effect_def keeps_words_def e by metis
  then show ?thesis using assms(2) unfolding heap_effect_def e by simp
qed

lemma pool_effect:
  assumes "heap_inv H ps" and "pool_inv p m ps'" and "pool_frame (hpool H) p"
  shows "heap_effect c None H (H\<lparr>hpool := p\<rparr>)"
  using pool_step(2,3) [OF assms] by (simp add: heap_effect_def keeps_words_def)

lemma heap_inv_seg:
  assumes "heap_inv H ps" and "small_base H b"
  shows "based b" "seg_ok b (segment_at b H)" "b \<noteq> 0" "in_table (hpool H) b" "segment_key b"
    "no_cached (segment_at b H)"
proof -
  show ok: "seg_ok b (segment_at b H)" "b \<noteq> 0" "segment_key b" "no_cached (segment_at b H)"
    using assms by (simp_all add: heap_inv_def segs_ok_def)
  show "based b" using ok(1) by (simp add: seg_ok_def)
  show "in_table (hpool H) b" using assms(2) by (simp add: small_base_def)
qed

lemma block_span:
  assumes inv: "heap_inv H ps" and a: "heap_blocks H a = Some d"
  shows "a + class_size d \<le> segment_base_of a + SEGMENT"
    and "a \<le> q \<Longrightarrow> q < a + class_size d \<Longrightarrow> segment_base_of q = segment_base_of a"
proof -
  let ?b = "segment_base_of a"
  note parts = heap_block_parts [OF a] and seg = heap_inv_seg [OF inv heap_block_parts(1) [OF a]]
  have "a - ?b + class_size d \<le> bump (seg_hdr (segment_at ?b H))" by (rule held_below [OF seg(2) parts(2)])
  moreover have "bump (seg_hdr (segment_at ?b H)) \<le> SEGMENT" using seg(2) by (simp add: seg_ok_def)
  ultimately show le: "a + class_size d \<le> ?b + SEGMENT" using segment_base_le [of a] by linarith
  show "segment_base_of q = ?b" if "a \<le> q" "q < a + class_size d"
  proof -
    have "q - ?b < SEGMENT" "?b + (q - ?b) = q" using that le segment_base_le [of a] by linarith+
    then show ?thesis using segment_base_of_in [OF seg(1), of "q - ?b"] by (simp only:)
  qed
qed

lemma put_keeps_words:
  assumes inv: "heap_inv H ps" and b: "small_base H b" "b \<notin> set ps"
    and s: "seg_ok b s" "hdr_frame (seg_hdr (segment_at b H)) (seg_hdr s)" "no_cached s"
    and keep: "keeps_contents (segment_at b H) s"
  shows "keeps_words H (put_segment b s H)"
proof -
  let ?H = "put_segment b s H"
  note step = put_step [OF inv b s]
  show ?thesis unfolding keeps_words_def
  proof (intro allI impI, elim conjE)
    fix a d q assume a: "heap_blocks H a = Some d" "heap_blocks ?H a = Some d" and q: "a \<le> q" "q < a + class_size d"
    have sq: "segment_base_of q = segment_base_of a" by (rule block_span(2) [OF inv a(1) q])
    show "heap_word ?H q = heap_word H q"
    proof (cases "segment_base_of a = b")
      case True
      have "held (block (segment_at b H)) (a - b) = Some d" "held (block s) (a - b) = Some d"
        using heap_block_parts(2) [OF a(1)] a(2) step(4) [of a] True by simp_all
      moreover have "a - b \<le> q - b" "q - b < a - b + class_size d" using q segment_base_le [of a] True by linarith+
      ultimately have "cells s (q - b) = cells (segment_at b H) (q - b)"
        using keep unfolding keeps_contents_def by auto
      then show ?thesis using step(5) [of q] sq True by (simp add: heap_word_def segment_at_def)
    qed (use step(5) [of q] sq in simp)
  qed
qed

lemma put_effect:
  assumes inv: "heap_inv H ps" and b: "small_base H b" "b \<notin> set ps"
    and s: "seg_ok b s" "hdr_frame (seg_hdr (segment_at b H)) (seg_hdr s)" "no_cached s"
    and keep: "keeps_contents (segment_at b H) s"
    and h: "held (block s) = (case r of None \<Rightarrow> held (block (segment_at b H))
      | Some p \<Rightarrow> (held (block (segment_at b H)))(p - b \<mapsto> c))"
    and r: "\<And>p. r = Some p \<Longrightarrow> b \<le> p \<and> p - b < SEGMENT \<and> held (block (segment_at b H)) (p - b) = None"
  shows "heap_effect c r H (put_segment b s H)"
proof -
  let ?H = "put_segment b s H"
  note step = put_step [OF inv b s]
  have "keeps_words H ?H" by (rule put_keeps_words [OF inv b s keep])
  moreover have "heap_blocks ?H = heap_blocks H" if n: "r = None"
  proof
    fix a show "heap_blocks ?H a = heap_blocks H a"
      using step(4) [of a] h n b(1) by (auto simp: heap_blocks_def Let_def)
  qed
  moreover have "heap_blocks H p = None \<and> heap_blocks ?H = (heap_blocks H)(p \<mapsto> c)" if p: "r = Some p" for p
  proof
    have bp: "segment_base_of p = b"
      using segment_base_of_in [OF heap_inv_seg(1) [OF inv b(1)], of "p - b"] r [OF p] by simp
    then show "heap_blocks H p = None" using r [OF p] b(1) by (simp add: heap_blocks_def)
    show "heap_blocks ?H = (heap_blocks H)(p \<mapsto> c)"
    proof
      fix a
      have "a - b \<noteq> p - b" if "segment_base_of a = b" "a \<noteq> p"
        using that segment_base_le [of a] r [OF p] by linarith
      then show "heap_blocks ?H a = ((heap_blocks H)(p \<mapsto> c)) a"
        using step(4) [of a] h p b(1) bp by (cases "a = p") (auto simp: heap_blocks_def Let_def)
    qed
  qed
  ultimately show ?thesis by (cases r) (simp_all add: heap_effect_def)
qed

subsection \<open>Popping and carving\<close>

lemma heap_pop_ok:
  assumes inv: "heap_inv H ps" and b: "small_base H b" "b \<notin> set ps" and c: "c < 49"
  shows "\<exists>r H'. heap_pop b c H = ret (r, H') \<and> heap_inv H' ps \<and> heap_effect c r H H' \<and> evolves H H'
    \<and> (r = None \<longrightarrow> H' = H)"
proof -
  let ?s = "segment_at b H"
  note ok = heap_inv_seg(2) [OF inv b(1)]
  from free_list_of [OF ok c] obtain xs where xs: "free_chain b (cells ?s) (bins ?s c) xs" "distinct xs"
    "set xs = {off. block ?s off = Some (c, FREE)}" .
  let ?r = "if xs = [] then None else Some (b + hd xs)"
  from pop_free_ok [OF ok c xs] obtain s' where s': "pop_free b c ?s = Inr (?r, s')" "seg_ok b s'"
    "block s' = issue c LIVE (set (take 1 xs)) (block ?s)"
    "seg_hdr s' = counted (seg_hdr ?s) (live_count (seg_hdr ?s) + length (take 1 xs))" by blast
  have run: "heap_pop b c H = ret (?r, put_segment b s' H)" using s'(1) by (simp add: heap_pop_def on_segment_def)
  have fr: "hdr_frame (seg_hdr ?s) (seg_hdr s')" unfolding s'(4) by (rule hdr_frame_counted)
  show ?thesis
  proof (cases xs)
    case Nil
    then have "pop_free b c ?s = Inr (None, ?s)" using c xs(1) by (simp add: pop_free_def bin_head_def)
    then have "put_segment b s' H = H" using s'(1) by simp
    then show ?thesis using run Nil inv by simp
  next
    case (Cons x zs)
    then have x: "block ?s x = Some (c, FREE)" using xs(3) by auto
    have "seg_op b ?s (opt_list ?r) [] s'" by (rule op_pop [OF _ s'(1)]) (use c in simp)
    from seg_op_effect [OF ok this] have keep: "keeps_contents ?s s'" by (simp add: op_effect_def)
    have h: "held (block s') = (held (block ?s))(x \<mapsto> c)"
      unfolding s'(3) using Cons by (simp add: issue_single held_upd)
    have hx: "held (block ?s) x = None" "x < SEGMENT" using x block_bounds [OF x] by (simp_all add: held_def)
    have nc: "no_cached s'" using heap_inv_seg(6) [OF inv b(1)]
      unfolding no_cached_def s'(3) issue_def by (auto split: if_splits)
    have "heap_effect c (Some (b + x)) H (put_segment b s' H)"
      by (rule put_effect [OF inv b s'(2) fr nc keep]) (use h hx in auto)
    then show ?thesis using run Cons put_step(1,2) [OF inv b s'(2) fr nc] by simp
  qed
qed

lemma heap_carve_ok:
  fixes H :: small_heap
  assumes inv: "heap_inv H ps" and c: "c < 49"
  defines "cur \<equiv> small_cur (hpool H)"
  assumes cur: "cur \<notin> set ps"
  shows "\<exists>r H'. heap_carve safe_mode recommit c (class_size c) H = ret (r, H') \<and> heap_inv H' ps
    \<and> heap_effect c r H H' \<and> evolves H H' \<and> (r = None \<longrightarrow> H' = H)
    \<and> (carvable recommit c (segment_at cur H) \<longrightarrow> r \<noteq> None)"
proof -
  let ?s = "segment_at cur H" and ?a = "carve_start c (segment_at cur H)"
  have b: "small_base H cur" using inv by (simp add: heap_inv_def segs_ok_def cur_def)
  note ok = heap_inv_seg(2) [OF inv b]
  show ?thesis
  proof (cases "carvable recommit c ?s")
    case False
    then have "carve_block_with_refill safe_mode recommit cur c (class_size c) ?s = Inr (None, ?s)"
      using carve_with_refill_ok [OF ok c, of recommit safe_mode] by simp
    then have "heap_carve safe_mode recommit c (class_size c) H = ret (None, H)"
      unfolding heap_carve_def on_segment_def cur_def [symmetric] by simp
    then show ?thesis using inv False by simp
  next
    case True
    then obtain s' where s': "carve_block_with_refill safe_mode recommit cur c (class_size c) ?s = Inr (Some (cur + ?a), s')"
      "seg_ok cur s'" "block ?s ?a = None" "?a + class_size c \<le> SEGMENT" "block s' ?a = Some (c, LIVE)"
      "\<forall>off. off \<noteq> ?a \<longrightarrow> held (block s') off = held (block ?s) off" "hdr_frame (seg_hdr ?s) (seg_hdr s')"
      "\<forall>off. block ?s off \<noteq> None \<longrightarrow> block s' off = block ?s off"
      using carve_with_refill_ok [OF ok c, of recommit safe_mode] by auto
    have run: "heap_carve safe_mode recommit c (class_size c) H = ret (Some (cur + ?a), put_segment cur s' H)"
      unfolding heap_carve_def on_segment_def cur_def [symmetric] using s'(1) by simp
    have "seg_op cur ?s (opt_list (Some (cur + ?a))) [] s'" by (rule op_refill [OF _ s'(1)]) (use c in simp)
    from seg_op_effect [OF ok this] have keep: "keeps_contents ?s s'" by (simp add: op_effect_def)
    have h: "held (block s') = (held (block ?s))(?a \<mapsto> c)"
    proof
      fix off show "held (block s') off = ((held (block ?s))(?a \<mapsto> c)) off"
        using s'(5,6) by (cases "off = ?a") (simp_all add: held_def)
    qed
    have ha: "held (block ?s) ?a = None" "?a < SEGMENT"
      using s'(3,4) class_size_facts(2) [OF c] by (simp_all add: held_def)
    have nc: "no_cached s'" unfolding no_cached_def
    proof (intro allI impI)
      fix off d st assume x: "block s' off = Some (d, st)"
      show "st = LIVE \<or> st = FREE"
      proof (cases "st = FREE \<or> off = ?a")
        case True
        then show ?thesis using x s'(5) by auto
      next
        case False
        then have "held (block s') off = Some d" using x by (simp add: held_def)
        then have "held (block ?s) off = Some d" using s'(6) False by simp
        then have "block ?s off \<noteq> None" by (auto simp: held_Some)
        then have "block ?s off = Some (d, st)" using s'(8) x by simp
        then show ?thesis using heap_inv_seg(6) [OF inv b] unfolding no_cached_def by blast
      qed
    qed
    have "heap_effect c (Some (cur + ?a)) H (put_segment cur s' H)"
      by (rule put_effect [OF inv b cur s'(2,7) nc keep]) (use h ha in auto)
    then show ?thesis using run put_step(1,2) [OF inv b cur s'(2,7) nc] by simp
  qed
qed

subsection \<open>Discovery\<close>

lemma table_of:
  assumes "heap_inv H ps"
  obtains m where "pool_inv (hpool H) m ps" "table_inv (seg_mem (hpool H)) (seg_table (hpool H)) m"
  using assms by (auto simp: heap_inv_def pool_inv_def env_ok_def)

lemma cur_not_pooled:
  assumes "heap_inv H ps"
  shows "small_cur (hpool H) \<notin> set ps" "small_base H (small_cur (hpool H))"
  using assms by (auto simp: heap_inv_def segs_ok_def pool_inv_def idle_def dec_live_iff)

lemma cursor_pop_ok:
  assumes inv: "heap_inv H ps" and c: "c < 49"
  shows "\<exists>r H' ps'. pop_from_class_cursor c H = ret (r, H') \<and> heap_inv H' ps' \<and> heap_effect c r H H' \<and> evolves H H'"
proof (cases "small_class_cursor (hpool H) ! c = CLASS_CURSOR_NONE")
  case True
  then show ?thesis using inv by (auto simp: pop_from_class_cursor_def)
next
  case False
  from inv obtain m where pinv: "pool_inv (hpool H) m ps" by (rule table_of)
  have "c < length (small_class_cursor (hpool H))" using inv c by (simp add: heap_inv_def segs_ok_def)
  from cursor_probe_ok [OF pinv this] obtain r p where p: "cursor_probe_base c (hpool H) = ret (r, p)"
    "pool_frame (hpool H) p" "seg_table p = seg_table (hpool H)" and r: "case r of
         None \<Rightarrow> pool_inv p m ps
       | Some b \<Rightarrow> pool_inv p m (remove1 b ps) \<and> b \<notin> set (remove1 b ps) \<and> in_table (hpool H) b
           \<and> b \<noteq> small_cur (hpool H) \<and> kind (seg_mem (hpool H) b) \<in> {Small, Primordial}
           \<and> bin_heads (hpool H) b c \<noteq> FREE_LIST_NULL" by blast
  let ?H = "H\<lparr>hpool := p\<rparr>"
  show ?thesis
  proof (cases r)
    case None
    then have pp: "pool_inv p m ps" using r by simp
    show ?thesis using False p(1) None pool_step(1,4) [OF inv pp p(2)] pool_effect [OF inv pp p(2), of c]
      by (auto simp: pop_from_class_cursor_def)
  next
    case (Some b)
    then have pp: "pool_inv p m (remove1 b ps)" and b: "b \<notin> set (remove1 b ps)" "in_table (hpool H) b"
      "kind (seg_mem (hpool H) b) \<noteq> Large" using r by auto
    note step = pool_step [OF inv pp p(2)]
    have "in_table p b" using b(2) p(3) by (simp add: in_table_def)
    then have sb: "small_base ?H b" unfolding step(5) using b(2,3) by (simp add: small_base_def)
    from heap_pop_ok [OF step(1) sb b(1) c] obtain r' H' where h: "heap_pop b c ?H = ret (r', H')"
      "heap_inv H' (remove1 b ps)" "heap_effect c r' ?H H'" "evolves ?H H'" by blast
    have "pop_from_class_cursor c H = ret (r', H')"
      using False p(1) Some h(1) by (simp add: pop_from_class_cursor_def)
    then show ?thesis using h(2) heap_effect_trans [OF pool_effect [OF inv pp p(2)] h(3)]
        evolves_trans [OF step(4) h(4)] by blast
  qed
qed

text \<open>The sweep over the small segments ends, and what it finds is not pooled any more.\<close>

lemma scan_range_ok:
  assumes inv: "heap_inv H ps"
  shows "\<exists>r H' ps'. scan_range c start hi H = ret (r, H') \<and> heap_inv H' ps' \<and> heap_effect d None H H' \<and> evolves H H'
    \<and> (case r of None \<Rightarrow> H' = H | Some b \<Rightarrow> small_base H' b \<and> b \<notin> set ps')"
proof (induction "hi - start" arbitrary: start rule: less_induct)
  case less
  from inv obtain m where pinv: "pool_inv (hpool H) m ps"
    and tinv: "table_inv (seg_mem (hpool H)) (seg_table (hpool H)) m" by (rule table_of)
  let ?t = "seg_table (hpool H)"
  show ?case
  proof (cases "start < hi")
    case False
    then show ?thesis using inv by (subst scan_range.simps) auto
  next
    case True
    have "offsets Small = Inr False" using offsets_known [of Small] by simp
    from next_active_ok [OF tinv this, of start] obtain r where r: "next_active Small start ?t = Inr r"
      "case r of None \<Rightarrow> \<forall>j \<in> ak_members False (active ?t). j < start
        | Some i \<Rightarrow> i \<in> ak_members False (active ?t) \<and> start \<le> i
          \<and> (\<forall>j \<in> ak_members False (active ?t). start \<le> j \<longrightarrow> i \<le> j)" by blast
    show ?thesis
    proof (cases r)
      case None
      then show ?thesis using True r(1) inv by (subst scan_range.simps) auto
    next
      case (Some i)
      show ?thesis
      proof (cases "hi \<le> i")
        case True
        then show ?thesis using \<open>start < hi\<close> r(1) Some inv by (subst scan_range.simps) auto
      next
        case False
        let ?b = "base_at ?t i"
        have "i \<in> live ?t \<and> kind (seg_mem (hpool H) (slots ?t ! i)) \<noteq> Large
          \<and> kind (seg_mem (hpool H) (slots ?t ! i)) \<noteq> Unknown"
          using r(2) Some tinv by (auto simp: table_inv_def kinds_ok_def)
        then have b: "in_table (hpool H) ?b" "?b \<noteq> 0" "kind (seg_mem (hpool H) ?b) \<in> {Small, Primordial}"
          using live_base_at [of i ?t] by (auto simp: in_table_def intro: segment_kind.exhaust)
        show ?thesis
        proof (cases "bin_heads (hpool H) ?b c = FREE_LIST_NULL")
          case True
          then have run: "scan_range c start hi H = scan_range c (i + 1) hi H"
            using \<open>start < hi\<close> r(1) Some False b by (subst scan_range.simps) (auto simp: Let_def)
          have "hi - (i + 1) < hi - start" using r(2) Some False \<open>start < hi\<close> by auto
          from less [OF this] show ?thesis unfolding run .
        next
          case full: False
          from unpool_ok [OF pinv b(1,2)] obtain p where p: "unpool_if_present ?b (hpool H) = ret p"
            "pool_inv p m (remove1 ?b ps)" "?b \<notin> set (remove1 ?b ps)" "seg_table p = ?t"
            "pool_frame (hpool H) p" by blast
          have run: "scan_range c start hi H = ret (Some ?b, H\<lparr>hpool := p\<rparr>)"
            using \<open>start < hi\<close> r(1) Some False b full p(1)
            by (subst scan_range.simps) (auto simp: Let_def on_pool_def)
          have "in_table p ?b" using b(1) p(4) by (simp add: in_table_def)
          then have "small_base (H\<lparr>hpool := p\<rparr>) ?b"
            using pool_step(5) [OF inv p(2,5), of ?b] b by (auto simp: small_base_def)
          then show ?thesis unfolding run
            using pool_step(1,4) [OF inv p(2,5)] pool_effect [OF inv p(2,5), of d] p(3) by auto
        qed
      qed
    qed
  qed
qed

lemma linear_scan_ok:
  assumes inv: "heap_inv H ps"
  shows "\<exists>r H' ps'. linear_scan c H = ret (r, H') \<and> heap_inv H' ps' \<and> heap_effect d None H H' \<and> evolves H H'
    \<and> (case r of None \<Rightarrow> H' = H | Some b \<Rightarrow> small_base H' b \<and> b \<notin> set ps')"
proof -
  let ?n = "seg_count (seg_table (hpool H))"
  let ?start = "case class_cursor_scan_start c ?n (hpool H) of None \<Rightarrow> 0 | Some i \<Rightarrow> i"
  from scan_range_ok [OF inv, of c ?start ?n d] obtain r H' ps' where r: "scan_range c ?start ?n H = ret (r, H')"
    "heap_inv H' ps'" "heap_effect d None H H'" "evolves H H'"
    "case r of None \<Rightarrow> H' = H | Some b \<Rightarrow> small_base H' b \<and> b \<notin> set ps'" by blast
  show ?thesis
  proof (cases r)
    case None
    then have "linear_scan c H = scan_range c 0 ?start H" using r(1,5) by (simp add: linear_scan_def Let_def)
    then show ?thesis using scan_range_ok [OF inv, of c 0 ?start d] by simp
  next
    case (Some b)
    then have "linear_scan c H = ret (Some b, H')" using r(1) by (simp add: linear_scan_def Let_def)
    then show ?thesis using r(2-5) Some by auto
  qed
qed

lemma find_segment_ok:
  assumes inv: "heap_inv H ps"
  shows "\<exists>r H' ps'. find_segment_with_free c H = ret (r, H') \<and> heap_inv H' ps' \<and> heap_effect d None H H' \<and> evolves H H'
    \<and> (case r of None \<Rightarrow> H' = H | Some b \<Rightarrow> small_base H' b \<and> b \<notin> set ps')"
proof -
  from linear_scan_ok [OF inv] obtain r H1 ps1 where r: "linear_scan c H = ret (r, H1)"
    "heap_inv H1 ps1" "heap_effect d None H H1" "evolves H H1"
    "case r of None \<Rightarrow> H1 = H | Some b \<Rightarrow> small_base H1 b \<and> b \<notin> set ps1" by blast
  show ?thesis
  proof (cases r)
    case None
    then show ?thesis using r by (auto simp: find_segment_with_free_def)
  next
    case (Some b)
    then have b: "small_base H1 b" "b \<notin> set ps1" using r(5) by simp_all
    then have tb: "in_table (hpool H1) b" "kind (seg_mem (hpool H1) b) \<noteq> Large" by (simp_all add: small_base_def)
    from r(2) obtain m where pinv: "pool_inv (hpool H1) m ps1" by (rule table_of)
    from record_cursor_ok [OF pinv tb, of c] obtain p where p: "record_class_cursor c b (hpool H1) = ret p"
      "pool_inv p m ps1" "pool_frame (hpool H1) p" by blast
    have "seg_table p = seg_table (hpool H1)"
      using p(1) by (auto simp: record_class_cursor_def Let_def abort_def ret_def split: if_splits)
    then have "small_base (H1\<lparr>hpool := p\<rparr>) b"
      using pool_step(5) [OF r(2) p(2,3), of b] b(1) by (simp add: small_base_def in_table_def)
    moreover have "find_segment_with_free c H = ret (Some b, H1\<lparr>hpool := p\<rparr>)"
      using r(1) Some p(1) by (simp add: find_segment_with_free_def on_pool_def)
    ultimately show ?thesis using b(2) pool_step(1) [OF r(2) p(2,3)]
        heap_effect_trans [OF r(3) pool_effect [OF r(2) p(2,3)]] evolves_trans [OF r(4) pool_step(4) [OF r(2) p(2,3)]]
      by auto
  qed
qed

lemma discovery_ok:
  assumes inv: "heap_inv H ps" and c: "c < 49"
  shows "\<exists>r H' ps'. alloc_small_via_discovery c H = ret (r, H') \<and> heap_inv H' ps' \<and> heap_effect c r H H' \<and> evolves H H'"
proof -
  from cursor_pop_ok [OF inv c] obtain r1 H1 ps1 where r1: "pop_from_class_cursor c H = ret (r1, H1)"
    "heap_inv H1 ps1" "heap_effect c r1 H H1" "evolves H H1" by blast
  show ?thesis
  proof (cases r1)
    case (Some q)
    then show ?thesis using r1 by (auto simp: alloc_small_via_discovery_def)
  next
    case None
    from find_segment_ok [OF r1(2)] obtain r2 H2 ps2 where r2: "find_segment_with_free c H1 = ret (r2, H2)"
      "heap_inv H2 ps2" "heap_effect c None H1 H2" "evolves H1 H2"
      "case r2 of None \<Rightarrow> H2 = H1 | Some b \<Rightarrow> small_base H2 b \<and> b \<notin> set ps2" by blast
    note to2 = heap_effect_trans [OF r1(3) [unfolded None] r2(3)] evolves_trans [OF r1(4) r2(4)]
    show ?thesis
    proof (cases r2)
      case None2: None
      then show ?thesis using r1(1) None r2(1,2) to2 by (auto simp: alloc_small_via_discovery_def)
    next
      case (Some b)
      then have "small_base H2 b" "b \<notin> set ps2" using r2(5) by simp_all
      from heap_pop_ok [OF r2(2) this c] obtain r3 H3 where r3: "heap_pop b c H2 = ret (r3, H3)"
        "heap_inv H3 ps2" "heap_effect c r3 H2 H3" "evolves H2 H3" by blast
      then show ?thesis using r1(1) None r2(1) Some heap_effect_trans [OF to2(1) r3(3)] evolves_trans [OF to2(2) r3(4)]
        by (auto simp: alloc_small_via_discovery_def)
    qed
  qed
qed

subsection \<open>A new segment\<close>

lemma table_inv_live_cong:
  assumes "table_inv mem t m"
    and "\<And>i. i \<in> live t \<Longrightarrow> kind (mem' (slots t ! i)) = kind (mem (slots t ! i))
      \<and> payload_offset (mem' (slots t ! i)) = payload_offset (mem (slots t ! i))"
  shows "table_inv mem' t m"
proof -
  have "keys_ok mem' t m" using assms unfolding table_inv_def keys_ok_def payload_key_def by metis
  moreover have "{i \<in> live t. kind (mem' (slots t ! i)) = Large} = {i \<in> live t. kind (mem (slots t ! i)) = Large}"
    "{i \<in> live t. kind (mem' (slots t ! i)) \<noteq> Large} = {i \<in> live t. kind (mem (slots t ! i)) \<noteq> Large}"
    using assms(2) by auto
  then have "kinds_ok mem' t" using assms unfolding table_inv_def kinds_ok_def by metis
  ultimately show ?thesis using assms(1) by (simp add: table_inv_def)
qed

definition added :: "nat \<Rightarrow> nat \<Rightarrow> nat \<Rightarrow> nat \<Rightarrow> segment_table \<Rightarrow> small_heap \<Rightarrow> small_heap" where
  "added b i res res_len t H = put_segment b (fresh_segment (header_small i small_meta_end res res_len) (\<lambda>_. 0))
     (H\<lparr>hpool := (hpool H)\<lparr>seg_table := t\<rparr>\<rparr>)"

lemma added_fields [simp]:
  "seg_table (hpool (added b i res res_len t H)) = t"
  "small_cur (hpool (added b i res res_len t H)) = small_cur (hpool H)"
  "small_class_cursor (hpool (added b i res res_len t H)) = small_class_cursor (hpool H)"
  "seg_mem (hpool (added b i res res_len t H)) = (seg_mem (hpool H))(b := header_small i small_meta_end res res_len)"
  "pool_head (hpool (added b i res res_len t H)) = pool_head (hpool H)"
  "pool_tail (hpool (added b i res res_len t H)) = pool_tail (hpool H)"
  "pooled_count (hpool (added b i res res_len t H)) = pooled_count (hpool H)"
  "pool_cap (hpool (added b i res res_len t H)) = pool_cap (hpool H)"
  by (simp_all add: added_def put_segment_def fresh_segment_def)

lemma segment_at_added: "segment_at c (added b i res res_len t H)
    = (if c = b then fresh_segment (header_small i small_meta_end res res_len) (\<lambda>_. 0) else segment_at c H)"
  unfolding added_def segment_at_put by (simp add: segment_at_def)

lemma header_small_fields:
  "kind (header_small i n res res_len) = Small" "payload_offset (header_small i n res res_len) = 0"
  "segment_id (header_small i n res res_len) = i" "pool_prev (header_small i n res res_len) = 0"
  "bump (header_small i n res res_len) = n" "live_count (header_small i n res res_len) = 0"
  "decommitted (header_small i n res res_len) = 0"
  by (simp_all add: header_small_def)

text \<open>The table after a registration that found a slot.\<close>

lemma added_pool:
  assumes inv: "heap_inv H ps" and b: "unmapped H b" and pinv: "pool_inv (hpool H) m ps"
    and t: "i \<notin> live (seg_table (hpool H))" "i < 4096" "live t = insert i (live (seg_table (hpool H)))"
      "slots t = (slots (seg_table (hpool H)))[i := b]"
      "table_inv ((seg_mem (hpool H))(b := header_small i small_meta_end res res_len)) t m'"
  shows "pool_inv (hpool (added b i res res_len t H)) m' ps"
    "in_table (hpool (added b i res res_len t H)) c \<longleftrightarrow> in_table (hpool H) c \<or> c = b"
    "slots t ! 0 = slots (seg_table (hpool H)) ! 0"
proof -
  let ?p = "hpool (added b i res res_len t H)" and ?t = "seg_table (hpool H)"
  let ?mem = "(seg_mem (hpool H))(b := header_small i small_meta_end res res_len)"
  have env: "env_ok (hpool H) m" and lst: "pool_list (hpool H) ps" using pinv by (simp_all add: pool_inv_def)
  have len: "length (slots ?t) = 4096" using env by (simp add: env_ok_def table_inv_def)
  have at: "slots t ! j = (if j = i then b else slots ?t ! j)" for j using t(2) len unfolding t(4) by simp
  have nb: "\<not> in_table (hpool H) b" using unmapped_apart [OF b] by auto
  then have other: "slots ?t ! j \<noteq> b" if "j \<in> live ?t" for j using that by (auto simp: in_table_def)
  have zero: "0 \<in> live ?t" using env by (simp add: env_ok_def)
  then show z: "slots t ! 0 = slots ?t ! 0" using at [of 0] t(1) by auto
  have tab: "in_table ?p c \<longleftrightarrow> in_table (hpool H) c \<or> c = b" for c
    unfolding in_table_def added_fields t(3) using at t(1) by auto
  then show "in_table ?p c \<longleftrightarrow> in_table (hpool H) c \<or> c = b" .
  have np: "b \<notin> set ps" using nb pinv by (auto simp: pool_inv_def idle_def)
  have "segment_id (?mem (slots t ! j)) = j" if "j \<in> live t" for j
    using that t(1,3) env at [of j] other [of j] by (auto simp: env_ok_def header_small_fields)
  moreover have "small_slots (hpool H) \<subseteq> small_slots ?p"
    using t(1,3) at other by (auto simp: small_slots_def)
  then have "\<forall>d \<in> set (small_class_cursor (hpool H)). d = CLASS_CURSOR_NONE \<or> d \<in> small_slots ?p"
    using env by (auto simp: env_ok_def)
  ultimately have "env_ok ?p m'" using t(3,5) zero by (simp add: env_ok_def)
  moreover have "lseg ?mem 0 ps 0 = lseg (seg_mem (hpool H)) 0 ps 0" by (rule lseg_cong) (use np in auto)
  then have "pool_list ?p ps" using lst by (simp add: pool_list_def)
  moreover have "idle ?p d" if "d \<in> set ps" for d
  proof -
    have d: "d \<noteq> b" "idle (hpool H) d" using that np pinv by (auto simp: pool_inv_def)
    then show ?thesis using tab z by (simp add: idle_def dec_live_iff payload_key_def)
  qed
  moreover have "pool_prev (seg_mem ?p d) = 0" if "in_table ?p d" "d \<notin> set ps" for d
    using that tab pinv by (auto simp: pool_inv_def header_small_fields)
  ultimately show "pool_inv ?p m' ps" using pinv by (simp add: pool_inv_def)
qed

lemma fresh_small_ok:
  assumes "based b"
  shows "seg_ok b (fresh_segment (header_small i small_meta_end res res_len) (\<lambda>_. 0))"
    "no_cached (fresh_segment h (\<lambda>_. 0))"
    "held (block (fresh_segment (header_small i small_meta_end res res_len) (\<lambda>_. 0))) off = None"
proof -
  let ?s = "fresh_segment (header_small i small_meta_end res res_len) (\<lambda>_. 0)"
  have "seg_fresh b ?s" unfolding seg_fresh_def using assms
    by (intro conjI exI [of _ "header_small i small_meta_end res res_len"] exI [of _ "\<lambda>_. 0"])
      (simp_all add: header_small_fields payload_start_def)
  then show ok: "seg_ok b ?s" by (rule fresh_ok)
  then have "dom (held (block ?s)) = {}"
    using finite_held [of ?s] by (simp add: seg_ok_def fresh_segment_def header_small_fields)
  then show "held (block ?s) off = None" by (auto simp: dom_def)
  show "no_cached (fresh_segment h (\<lambda>_. 0))"
    by (simp add: no_cached_def block_def fresh_segment_def state_read_def decode_def)
qed

lemma added_heap:
  assumes inv: "heap_inv H ps" and b: "unmapped H b" and pinv: "pool_inv (hpool H) m ps"
    and t: "i \<notin> live (seg_table (hpool H))" "i < 4096" "live t = insert i (live (seg_table (hpool H)))"
      "slots t = (slots (seg_table (hpool H)))[i := b]"
      "table_inv ((seg_mem (hpool H))(b := header_small i small_meta_end res res_len)) t m'"
  defines "H' \<equiv> added b i res res_len t H"
  shows "heap_inv H' ps" "heap_effect c None H H'" "small_base H' b" "moves {b} H H'"
proof -
  note pool = added_pool [OF inv b pinv t, folded H'_def]
  have ok: "segs_ok H" using inv by (simp add: heap_inv_def)
  have key: "segment_key b" "b \<noteq> 0" "\<not> in_table (hpool H) b"
    using b unmapped_apart [OF b] by (auto simp: unmapped_def)
  note bb = based_key [OF key(1,2)]
  have mem: "seg_mem (hpool H') = (seg_mem (hpool H))(b := header_small i small_meta_end res res_len)"
    by (simp add: H'_def)
  have sb: "small_base H' d \<longleftrightarrow> small_base H d \<or> d = b" for d
    unfolding small_base_def pool(2) mem using key(3) by (auto simp: header_small_fields)
  show "small_base H' b" using sb by simp
  have nsb: "\<not> small_base H b" using key(3) by (simp add: small_base_def)
  have at: "segment_at d H' = segment_at d H" if "d \<noteq> b" for d using that by (simp add: H'_def segment_at_added)
  have pk: "payload_key (seg_mem (hpool H')) d = (if d = b then b else payload_key (seg_mem (hpool H)) d)" for d
    using segment_base_of_key [OF key(1)] by (simp add: payload_key_def mem header_small_fields)
  have "in_table (hpool H) (slots (seg_table (hpool H)) ! 0)"
    using pinv by (auto simp: pool_inv_def env_ok_def in_table_def)
  then have "slots (seg_table (hpool H)) ! 0 \<noteq> b" using key(3) by metis
  then have k0: "kind (seg_mem (hpool H') (slots (seg_table (hpool H')) ! 0)) = Primordial"
    using ok pool(3) by (simp add: segs_ok_def H'_def)
  have "segment_key d \<and> d \<noteq> 0 \<and> payload_key (seg_mem (hpool H')) d = d \<and> seg_ok d (segment_at d H')
      \<and> no_cached (segment_at d H')" if "small_base H' d" for d
  proof (cases "d = b")
    case True
    then show ?thesis using key pk fresh_small_ok(1,2) [OF bb] by (simp add: H'_def segment_at_added)
  next
    case False
    then show ?thesis using that sb ok pk at [OF False] by (simp add: segs_ok_def)
  qed
  then have "segs_ok H'" using ok sb k0 by (simp add: segs_ok_def H'_def)
  then show "heap_inv H' ps" using pool(1) by (auto simp: heap_inv_def)
  have "heap_blocks H' = heap_blocks H"
  proof
    fix a
    show "heap_blocks H' a = heap_blocks H a"
    proof (cases "segment_base_of a = b")
      case True
      then show ?thesis using nsb fresh_small_ok(3) [OF bb]
        by (simp add: heap_blocks_def Let_def sb H'_def segment_at_added)
    qed (simp add: heap_blocks_def Let_def sb at)
  qed
  moreover have word: "heap_word H' q = heap_word H q" if "segment_base_of q \<noteq> b" for q
    using that by (simp add: heap_word_def H'_def added_def put_segment_def)
  then show "moves {b} H H'" unfolding moves_def pool(2) mem
    using key(3) by (auto simp: header_small_fields)
  have "keeps_words H H'" unfolding keeps_words_def
  proof (intro allI impI, elim conjE)
    fix a d q assume a: "heap_blocks H a = Some d" and q: "a \<le> q" "q < a + class_size d"
    have "segment_base_of q \<noteq> b"
      using block_span(2) [OF inv a q] heap_block_parts(1) [OF a] nsb by auto
    then show "heap_word H' q = heap_word H q" by (rule word)
  qed
  ultimately show "heap_effect c None H H'" by (simp add: heap_effect_def)
qed

lemma register_added:
  assumes inv: "heap_inv H ps" and b: "unmapped H b"
  shows "\<exists>r t. register b Small (seg_table (hpool H)) = Some (Inr (r, t)) \<and> (case r of
      None \<Rightarrow> t = seg_table (hpool H) \<and> live (seg_table (hpool H)) = {..<4096}
    | Some i \<Rightarrow> heap_inv (added b i res res_len t H) ps \<and> heap_effect c None H (added b i res res_len t H)
        \<and> small_base (added b i res res_len t H) b \<and> moves {b} H (added b i res res_len t H))"
proof -
  let ?t = "seg_table (hpool H)"
  from inv obtain m where pinv: "pool_inv (hpool H) m ps" and tinv: "table_inv (seg_mem (hpool H)) ?t m"
    by (rule table_of)
  have key: "segment_key b" "b \<noteq> 0" "\<not> in_table (hpool H) b"
    using b unmapped_apart [OF b] by (auto simp: unmapped_def)
  let ?mem = "\<lambda>i. (seg_mem (hpool H))(b := header_small i small_meta_end res res_len)"
  define i where "i = next_register_slot (free_top ?t \<noteq> 0) ?t"
  have tinv': "table_inv (?mem i) ?t m"
    by (rule table_inv_live_cong [OF tinv]) (use key(3) in \<open>auto simp: in_table_def\<close>)
  have fresh: "b \<notin> (\<lambda>j. slots ?t ! j) ` live ?t" using key(3) by (auto simp: in_table_def)
  have pk: "payload_key (?mem i) b = segment_base_of b" by (simp add: payload_key_def header_small_fields)
  have "m b = None"
  proof (rule ccontr)
    assume "m b \<noteq> None"
    then obtain j where "m b = Some j" by blast
    then have "j \<in> live ?t \<and> b = payload_key (seg_mem (hpool H)) (slots ?t ! j)"
      using tinv keys_live by (auto simp: table_inv_def)
    then show False using unmapped_apart [OF b, of "slots ?t ! j"] by (auto simp: in_table_def)
  qed
  then have absent: "m (segment_base_of b) = None" using segment_base_of_key [OF key(1)] by simp
  have k: "kind (?mem i b) = Small" by (simp add: header_small_fields)
  from register_payload_ok [OF tinv' disjI1 [OF refl] k key(2) fresh pk absent]
  consider "live ?t = {..<4096}" "register b Small ?t = Some (Inr (None, ?t))"
    | t' where "i < 4096" "i \<notin> live ?t" "live t' = insert i (live ?t)"
      "register b Small ?t = Some (Inr (Some i, t'))"
      "table_inv (?mem i) t' (m(segment_base_of b \<mapsto> i))" "slots t' = (slots ?t)[i := b]"
    unfolding register_def i_def by blast
  then show ?thesis
  proof cases
    case 1
    then show ?thesis by auto
  next
    case 2
    from added_heap [OF inv b pinv 2(2,1,3,6,5)] 2(4) show ?thesis by auto
  qed
qed

text \<open>
  The system maps new segments at aligned addresses that no segment of the table occupies.  What a
  request adds to the table is one such answer.
\<close>

definition maps_fresh :: "mapper \<Rightarrow> bool" where
  "maps_fresh os \<longleftrightarrow> (\<forall>K b res len. os K = Some (b, res, len) \<longrightarrow> unmapped K b)"

definition grows :: "mapper \<Rightarrow> small_heap \<Rightarrow> small_heap \<Rightarrow> bool" where
  "grows os H H' \<longleftrightarrow> moves {} H H'
     \<or> (\<exists>K ps b res len. heap_inv K ps \<and> heap_effect 0 None H K \<and> moves {} H K
          \<and> os K = Some (b, res, len) \<and> moves {b} K H')"

definition refused :: "mapper \<Rightarrow> small_heap \<Rightarrow> bool" where
  "refused os H \<longleftrightarrow> (\<exists>K. evolves H K \<and> os K = None) \<or> live (seg_table (hpool H)) = {..<4096}"

lemma effect_None: "heap_effect c None H H' \<Longrightarrow> heap_effect d None H H'"
  by (simp add: heap_effect_def)

lemma grows_after: "heap_effect 0 None H H1 \<Longrightarrow> moves {} H H1 \<Longrightarrow> grows os H1 H' \<Longrightarrow> grows os H H'"
  unfolding grows_def by (blast intro: moves_after heap_effect_trans)

lemma grows_then: "grows os H H1 \<Longrightarrow> moves {} H1 H' \<Longrightarrow> grows os H H'"
  unfolding grows_def by (blast intro: moves_then)

lemma refused_after:
  assumes "heap_inv H ps" and "evolves H H1" and "refused os H1"
  shows "refused os H"
proof -
  from assms(1) obtain m where "table_inv (seg_mem (hpool H)) (seg_table (hpool H)) m" by (rule table_of)
  then have "live (seg_table (hpool H)) \<subseteq> {..<4096}" using live_bound by auto
  moreover have "live (seg_table (hpool H1)) \<subseteq> live (seg_table (hpool H))" using assms(2) by (simp add: evolves_def)
  ultimately show ?thesis using assms(2,3) unfolding refused_def by (blast intro: evolves_trans)
qed

lemma release_ok:
  assumes "pool_inv p m ps"
  shows "pool_inv (p\<lparr>seg_table := release_segment res len (seg_table p)\<rparr>) m ps"
    "pool_frame p (p\<lparr>seg_table := release_segment res len (seg_table p)\<rparr>)"
proof -
  let ?p = "p\<lparr>seg_table := release_segment res len (seg_table p)\<rparr>"
  have l: "live (release_segment res len t) = live t" for t by (simp add: live_def)
  have t: "in_table ?p = in_table p" by (simp add: fun_eq_iff in_table_def l)
  have "table_inv (seg_mem p) (release_segment res len (seg_table p)) m = table_inv (seg_mem p) (seg_table p) m"
    by (simp add: release_segment_def table_inv_def free_ok_def keys_ok_def kinds_ok_def cached_ok_def live_def)
  then have "env_ok ?p m" using assms by (simp add: pool_inv_def env_ok_def small_slots_def l)
  moreover have "idle ?p = idle p" by (simp add: fun_eq_iff idle_def t dec_live_iff)
  ultimately show "pool_inv ?p m ps" using assms unfolding pool_inv_def t by (simp add: pool_list_def)
  show "pool_frame p ?p" unfolding pool_frame_def t by (simp add: l)
qed

definition newly_carved :: "small_segment \<Rightarrow> bool" where
  "newly_carved s \<longleftrightarrow> (\<exists>i res len. s = fresh_segment (header_small i small_meta_end res len) (\<lambda>_. 0))"

lemma reserve_impl_ok:
  assumes inv: "heap_inv H ps" and os: "maps_fresh os"
  shows "\<exists>r H' ps'. reserve_small_segment_impl now os H = ret (r, H') \<and> heap_inv H' ps'
    \<and> heap_effect c None H H' \<and> grows os H H' \<and> small_cur (hpool H') = small_cur (hpool H)
    \<and> (case r of None \<Rightarrow> refused os H | Some b \<Rightarrow> small_base H' b \<and> b \<noteq> small_cur (hpool H') \<and> b \<notin> set ps'
        \<and> newly_carved (segment_at b H'))"
proof -
  from inv obtain m where pinv: "pool_inv (hpool H) m ps" by (rule table_of)
  from decay_ok [OF pinv, of now] obtain p1 m1 ps1 where p1: "maybe_decay_small_pool now (hpool H) = ret p1"
    "pool_inv p1 m1 ps1" "pool_frame (hpool H) p1" by blast
  let ?H1 = "H\<lparr>hpool := p1\<rparr>"
  note s1 = pool_step [OF inv p1(2,3)] pool_effect [OF inv p1(2,3), of c]
  let ?low = "os ?H1 = None \<and> 0 < pooled_count (hpool ?H1)"
  let ?drain = "\<lambda>p. tbind (drain_small_pool p) (\<lambda>(_, p'). ret p')"
  obtain H2 ps2 where H2: "(if ?low then tbind (on_pool ?drain ?H1) (\<lambda>H2. ret (os H2, H2))
      else ret (os ?H1, ?H1)) = ret (os H2, H2)" "heap_inv H2 ps2" "heap_effect c None H H2" "evolves H H2"
  proof (cases ?low)
    case True
    from drain_ok [OF p1(2)] obtain p2 m2 where p2: "drain_small_pool p1 = ret (length ps1, p2)" "pool_inv p2 m2 []"
      "pool_frame p1 p2" by blast
    have f: "pool_frame (hpool H) p2" by (rule pool_frame_trans [OF p1(3) p2(3)])
    show ?thesis using that [of "H\<lparr>hpool := p2\<rparr>" "[]"] True p2(1)
        pool_step(1,4) [OF inv p2(2) f] pool_effect [OF inv p2(2) f] by (simp add: on_pool_def)
  next
    case False
    then show ?thesis using that [of ?H1 ps1] s1 by (auto simp: on_pool_def)
  qed
  have cur: "small_cur (hpool H2) = small_cur (hpool H)" and mv: "moves {} H H2"
    using H2(4) by (simp_all add: evolves_def)
  have run: "reserve_small_segment_impl now os H = (case os H2 of
         None \<Rightarrow> ret (None, H2)
       | Some (b, res, res_len) \<Rightarrow>
           tbind (register b Small (seg_table (hpool H2))) (\<lambda>(r, t).
             case r of
               None \<Rightarrow> ret (None, H2\<lparr>hpool := (hpool H2)\<lparr>seg_table := release_segment res res_len t\<rparr>\<rparr>)
             | Some i \<Rightarrow> ret (Some b, added b i res res_len t H2)))"
    unfolding reserve_small_segment_impl_def on_pool_def [of "maybe_decay_small_pool now"] added_def
    using p1(1) H2(1) by simp
  show ?thesis
  proof (cases "os H2")
    case None
    then have "refused os H" using H2(4) by (auto simp: refused_def)
    then show ?thesis using run None H2(2,3) cur mv by (auto simp: grows_def)
  next
    case (Some x)
    obtain b res len where x: "x = (b, res, len)" by (cases x)
    have um: "unmapped H2 b" using os Some x unfolding maps_fresh_def by blast
    from register_added [OF H2(2) um, of res len c] obtain r t where
      r: "register b Small (seg_table (hpool H2)) = Some (Inr (r, t))" "case r of
      None \<Rightarrow> t = seg_table (hpool H2) \<and> live (seg_table (hpool H2)) = {..<4096}
    | Some i \<Rightarrow> heap_inv (added b i res len t H2) ps2 \<and> heap_effect c None H2 (added b i res len t H2)
        \<and> small_base (added b i res len t H2) b \<and> moves {b} H2 (added b i res len t H2)" by blast
    show ?thesis
    proof (cases r)
      case None
      from H2(2) obtain m2 where pinv2: "pool_inv (hpool H2) m2 ps2" by (rule table_of)
      note rel = release_ok [OF pinv2, of res len]
      let ?H' = "H2\<lparr>hpool := (hpool H2)\<lparr>seg_table := release_segment res len t\<rparr>\<rparr>"
      have H': "?H' = H2\<lparr>hpool := (hpool H2)\<lparr>seg_table := release_segment res len (seg_table (hpool H2))\<rparr>\<rparr>"
        using r(2) None by simp
      have "refused os H2" using r(2) None by (simp add: refused_def)
      then have "refused os H" by (rule refused_after [OF inv H2(4)])
      moreover have "moves {} H ?H'" unfolding H' by (rule moves_after [OF mv moves_pool [OF rel(2)]])
      moreover have "reserve_small_segment_impl now os H = ret (None, ?H')" using run Some x r(1) None by simp
      moreover have "heap_inv ?H' ps2" unfolding H' by (rule pool_step(1) [OF H2(2) rel])
      moreover have "heap_effect c None H ?H'" unfolding H'
        by (rule heap_effect_trans [OF H2(3) pool_effect [OF H2(2) rel]])
      ultimately show ?thesis using cur
        by (intro exI [of _ None] exI [of _ ?H'] exI [of _ ps2]) (simp add: grows_def)
    next
      case (Some i)
      have nt: "\<not> in_table (hpool H2) b" using unmapped_apart [OF um] by auto
      have "b \<noteq> small_cur (hpool H2)" using nt cur_not_pooled(2) [OF H2(2)] by (auto simp: small_base_def)
      moreover have "b \<notin> set ps2" using nt H2(2) by (auto simp: heap_inv_def pool_inv_def idle_def)
      moreover have "grows os H (added b i res len t H2)"
        unfolding grows_def using mv \<open>os H2 = Some x\<close> x r(2) Some H2(2) effect_None [OF H2(3), of 0] by auto
      ultimately show ?thesis using run \<open>os H2 = Some x\<close> x r Some cur heap_effect_trans [OF H2(3)]
        by (auto simp: segment_at_added newly_carved_def)
    qed
  qed
qed

lemma switch_cur:
  assumes inv: "heap_inv H ps" and b: "small_base H b" "b \<notin> set ps"
  defines "H' \<equiv> H\<lparr>hpool := (hpool H)\<lparr>small_cur := b\<rparr>\<rparr>"
  shows "heap_inv H' ps" "heap_effect c None H H'" "segment_at d H' = segment_at d H" "moves {} H H'"
proof -
  have t: "in_table (hpool H') = in_table (hpool H)" by (simp add: fun_eq_iff in_table_def H'_def)
  show "moves {} H H'" unfolding moves_def t by (simp add: H'_def heap_word_def)
  have sb: "small_base H' = small_base H" unfolding fun_eq_iff small_base_def t by (simp add: H'_def)
  show at: "segment_at d H' = segment_at d H" for d by (simp add: H'_def segment_at_def)
  from inv obtain m where pinv: "pool_inv (hpool H) m ps" by (rule table_of)
  have "idle (hpool H') d" if "d \<in> set ps" for d
  proof -
    have "idle (hpool H) d" "d \<noteq> b" using that pinv b(2) by (auto simp: pool_inv_def)
    then show ?thesis unfolding idle_def t dec_live_iff by (simp add: H'_def)
  qed
  then have "pool_inv (hpool H') m ps" using pinv unfolding pool_inv_def t
    by (simp add: H'_def pool_list_def env_ok_def small_slots_def)
  moreover have "segs_ok H'" using inv b(1) unfolding heap_inv_def segs_ok_def sb at by (simp add: H'_def)
  ultimately show "heap_inv H' ps" by (auto simp: heap_inv_def)
  have "heap_word H' = heap_word H" by (simp add: fun_eq_iff heap_word_def H'_def)
  moreover have "heap_blocks H' = heap_blocks H"
    unfolding fun_eq_iff heap_blocks_def sb at by simp
  ultimately show "heap_effect c None H H'" by (simp add: heap_effect_def keeps_words_def)
qed

lemma reserve_ok:
  assumes inv: "heap_inv H ps" and os: "maps_fresh os" and c: "c < 49"
  shows "\<exists>r H' ps'. reserve_small_segment now os H = ret (r, H') \<and> heap_inv H' ps'
    \<and> heap_effect c None H H' \<and> grows os H H' \<and> (r = None \<longrightarrow> refused os H)
    \<and> (r \<noteq> None \<longrightarrow> carvable recommit c (segment_at (small_cur (hpool H')) H'))"
proof -
  obtain r H1 ps1 where
    r: "reserve_small_segment_impl now os H = ret (r, H1)" "heap_inv H1 ps1" "heap_effect c None H H1"
      "grows os H H1"
      "case r of None \<Rightarrow> refused os H | Some b \<Rightarrow> small_base H1 b \<and> b \<noteq> small_cur (hpool H1) \<and> b \<notin> set ps1
        \<and> newly_carved (segment_at b H1)" using reserve_impl_ok [OF inv os, of now c]
    by (elim exE conjE) (rule that, assumption+)
  show ?thesis
  proof (cases r)
    case None
    then have "reserve_small_segment now os H = ret (None, H1)"
      using r(1) by (simp add: reserve_small_segment_def)
    then show ?thesis using r(2-5) None by (intro exI [of _ None] exI [of _ H1] exI [of _ ps1]) simp
  next
    case (Some b)
    then have b: "small_base H1 b" "b \<noteq> small_cur (hpool H1)" "b \<notin> set ps1" using r(5) by simp_all
    obtain i res len where new: "segment_at b H1 = fresh_segment (header_small i small_meta_end res len) (\<lambda>_. 0)"
      using r(5) Some by (auto simp: newly_carved_def)
    let ?old = "small_cur (hpool H1)"
    let ?H2 = "H1\<lparr>hpool := (hpool H1)\<lparr>small_cur := b\<rparr>\<rparr>"
    note sw = switch_cur [OF r(2) b(1,3)]
    from sw(1) obtain m where pinv: "pool_inv (hpool ?H2) m ps1" by (rule table_of)
    have old: "small_base ?H2 ?old"
      using cur_not_pooled(2) [OF r(2)] by (simp add: small_base_def in_table_def)
    note old_ok = heap_inv_seg [OF sw(1) old]
    have ok: "segs_ok ?H2" using sw(1) by (simp add: heap_inv_def)
    have "payload_key (seg_mem (hpool ?H2)) ?old = ?old" using ok old by (simp add: segs_ok_def)
    moreover have "?old \<noteq> small_cur (hpool ?H2)" using b(2) by simp
    moreover have "slots (seg_table (hpool ?H2)) ! 0 \<noteq> ?old" if k: "kind (seg_mem (hpool ?H2) ?old) = Small"
    proof
      assume "slots (seg_table (hpool ?H2)) ! 0 = ?old"
      then have "kind (seg_mem (hpool ?H2) ?old) = Primordial" using ok unfolding segs_ok_def by metis
      then show False using k by simp
    qed
    ultimately obtain p m' ps' where p: "finalize_old_cursor_if_orphaned ?old (hpool ?H2) = ret p"
      "pool_inv p m' ps'" "pool_frame (hpool ?H2) p"
      using finalize_ok [OF pinv old_ok(5,3) _ old_ok(4)] by blast
    let ?H3 = "?H2\<lparr>hpool := p\<rparr>"
    note st = pool_step [OF sw(1) p(2,3)]
    have run: "reserve_small_segment now os H = ret (Some b, ?H3)"
      using r(1) Some p(1) by (simp add: reserve_small_segment_def on_pool_def Let_def)
    have cur: "small_cur p = b" using p(3) by (simp add: pool_frame_def)
    have "small_base ?H3 b" using cur_not_pooled(2) [OF st(1)] cur by simp
    then have "in_table p b" by (simp add: small_base_def)
    then have "no_links (seg_mem p b) = no_links (seg_hdr (segment_at b H1))"
      using p(3) by (simp add: pool_frame_def segment_at_def)
    from no_links_fields(5,6) [OF this] have h: "bump (seg_mem p b) = small_meta_end" "decommitted (seg_mem p b) = 0"
      unfolding new by (simp_all add: fresh_segment_def header_small_fields)
    have "small_meta_end + 2 * class_size c \<le> SEGMENT" using class_size_facts(3) [OF c] by simp
    moreover have "carve_start c (segment_at b ?H3) < small_meta_end + class_size c"
      using carve_start_less [OF c, of "segment_at b ?H3"] h(1) by (simp add: segment_at_def)
    ultimately have "carve_start c (segment_at b ?H3) + class_size c \<le> SEGMENT" by linarith
    then have "carvable recommit c (segment_at b ?H3)"
      using h(2) by (simp add: carvable_def segment_at_def is_decommitted_def)
    moreover have "grows os H ?H3"
      by (rule grows_then [OF grows_then [OF r(4) sw(4)]]) (use st(4) in \<open>simp add: evolves_def\<close>)
    ultimately show ?thesis using run st(1) cur heap_effect_trans [OF r(3) heap_effect_trans [OF sw(2) pool_effect [OF sw(1) p(2,3)]]]
      by auto
  qed
qed

subsection \<open>Allocation\<close>

lemma alloc_size: "c < 49 \<Longrightarrow> alloc_block_size c = Some (class_size c)"
  by (simp add: alloc_block_size_def class_size_def block_size_def table_SC)

lemma prepare_ok: "c < 49 \<Longrightarrow> prepare_current_carve (class_size c) H = ret True"
  using carve_start_facts(1) [of c "segment_at (small_cur (hpool H)) H"]
  by (simp add: prepare_current_carve_def segment_at_def ret_def)

text \<open>The attempts of an allocation, one after the other until one succeeds.\<close>

definition outcome ::
    "mapper \<Rightarrow> nat \<Rightarrow> small_heap \<Rightarrow> (nat option \<times> small_heap) heap_run \<Rightarrow> bool" where
  "outcome os c H run \<longleftrightarrow> (\<exists>r H' ps'. run = ret (r, H') \<and> heap_inv H' ps' \<and> heap_effect c r H H'
     \<and> grows os H H' \<and> (r = None \<longrightarrow> refused os H))"

lemma outcome_ret:
  "heap_inv H' ps' \<Longrightarrow> heap_effect c r H H' \<Longrightarrow> grows os H H' \<Longrightarrow> (r = None \<Longrightarrow> refused os H)
     \<Longrightarrow> outcome os c H (ret (r, H'))"
  by (auto simp: outcome_def)

lemma grows_evolves: "evolves H H' \<Longrightarrow> grows os H H'"
  by (simp add: grows_def evolves_def)

lemma outcome_after:
  assumes "heap_inv H ps" and "heap_effect c None H H1" and "evolves H H1" and "outcome os c H1 run"
  shows "outcome os c H run"
proof -
  obtain r H' ps' where r: "run = ret (r, H')" "heap_inv H' ps'" "heap_effect c r H1 H'" "grows os H1 H'"
    "r = None \<longrightarrow> refused os H1"
    using assms(4) unfolding outcome_def by (elim exE conjE) (rule that, assumption+)
  have "grows os H H'"
    by (rule grows_after [OF effect_None [OF assms(2)] _ r(4)]) (use assms(3) in \<open>simp add: evolves_def\<close>)
  then show ?thesis unfolding r(1)
    by (intro outcome_ret [OF r(2) heap_effect_trans [OF assms(2) r(3)]])
      (use r(5) refused_after [OF assms(1,3)] in blast)+
qed

lemma outcome_try:
  assumes inv: "heap_inv H ps" and run: "run = ret (r, H1)" "heap_inv H1 ps1" "heap_effect c r H H1" "evolves H H1"
    and else_ok: "r = None \<Longrightarrow> outcome os c H1 (f H1)"
  shows "outcome os c H (tbind run (\<lambda>(r, H). if r \<noteq> None then ret (r, H) else f H))"
proof (cases r)
  case None
  then have "outcome os c H (f H1)" using outcome_after [OF inv _ run(4)] run(3) else_ok by simp
  then show ?thesis using run(1) None by simp
next
  case (Some p)
  then show ?thesis using run(1) outcome_ret [OF run(2,3) grows_evolves [OF run(4)]] by simp
qed

text \<open>The last attempt: a new segment, which always has room.\<close>

definition alloc_in_new ::
    "bool \<Rightarrow> bool \<Rightarrow> nat \<Rightarrow> mapper \<Rightarrow> nat \<Rightarrow> small_heap \<Rightarrow> (nat option \<times> small_heap) heap_run" where
  "alloc_in_new safe_mode recommit now os c H =
     tbind (reserve_small_segment now os H) (\<lambda>(seg, H4).
       if seg = None then ret (None, H4)
       else tbind (heap_pop (small_cur (hpool H4)) c H4) (\<lambda>(r5, H5).
         if r5 \<noteq> None then ret (r5, H5) else heap_carve safe_mode recommit c (class_size c) H5))"

lemma alloc_in_new_ok:
  assumes inv: "heap_inv H ps" and os: "maps_fresh os" and c: "c < 49"
  shows "outcome os c H (alloc_in_new safe_mode recommit now os c H)"
proof -
  obtain r1 H1 ps1 where r1: "reserve_small_segment now os H = ret (r1, H1)" "heap_inv H1 ps1"
    "heap_effect c None H H1" "grows os H H1" "r1 = None \<longrightarrow> refused os H"
    "r1 \<noteq> None \<longrightarrow> carvable recommit c (segment_at (small_cur (hpool H1)) H1)"
    using reserve_ok [OF inv os c, of now recommit] by (elim exE conjE) (rule that, assumption+)
  show ?thesis
  proof (cases r1)
    case None
    then show ?thesis using r1 by (simp add: alloc_in_new_def outcome_ret)
  next
    case (Some b)
    note cur = cur_not_pooled [OF r1(2)]
    from heap_pop_ok [OF r1(2) cur(2,1) c] obtain r2 H2 where r2: "heap_pop (small_cur (hpool H1)) c H1 = ret (r2, H2)"
      "heap_inv H2 ps1" "heap_effect c r2 H1 H2" "evolves H1 H2" "r2 = None \<longrightarrow> H2 = H1" by blast
    from heap_carve_ok [OF r1(2) c cur(1), of safe_mode recommit] obtain r3 H3 where
      r3: "heap_carve safe_mode recommit c (class_size c) H1 = ret (r3, H3)" "heap_inv H3 ps1" "heap_effect c r3 H1 H3"
        "evolves H1 H3" "carvable recommit c (segment_at (small_cur (hpool H1)) H1) \<longrightarrow> r3 \<noteq> None" by blast
    have "\<exists>r H' . alloc_in_new safe_mode recommit now os c H = ret (r, H') \<and> r \<noteq> None
      \<and> heap_inv H' ps1 \<and> heap_effect c r H1 H' \<and> evolves H1 H'"
      using r1(1,6) r2 r3 Some by (cases r2) (auto simp: alloc_in_new_def)
    then obtain r H' where r: "alloc_in_new safe_mode recommit now os c H = ret (r, H')" "r \<noteq> None"
      "heap_inv H' ps1" "heap_effect c r H1 H'" "evolves H1 H'" by blast
    have "grows os H H'" by (rule grows_then [OF r1(4)]) (use r(5) in \<open>simp add: evolves_def\<close>)
    then show ?thesis unfolding r(1)
      by (intro outcome_ret [OF r(3) heap_effect_trans [OF r1(3) r(4)]]) (use r(2) in simp_all)
  qed
qed

lemma alloc_small_eq:
  assumes "c < 49"
  shows "alloc_small safe_mode recommit now os c H =
    tbind (heap_pop (small_cur (hpool H)) c H) (\<lambda>(r, H). if r \<noteq> None then ret (r, H) else
    tbind (alloc_small_via_discovery c H) (\<lambda>(r, H). if r \<noteq> None then ret (r, H) else
    tbind (heap_carve safe_mode recommit c (class_size c) H) (\<lambda>(r, H). if r \<noteq> None then ret (r, H) else
    alloc_in_new safe_mode recommit now os c H)))"
  unfolding alloc_small_def alloc_size [OF assms] alloc_in_new_def option.case(2)
    prepare_ok [OF assms] tbind_ret not_True_eq_False if_False by (rule refl)

lemma alloc_small_ok:
  assumes inv: "heap_inv H ps" and os: "maps_fresh os" and c: "c < 49"
  shows "outcome os c H (alloc_small safe_mode recommit now os c H)"
proof -
  note cur = cur_not_pooled [OF inv]
  from heap_pop_ok [OF inv cur(2,1) c] obtain r1 H1 where r1: "heap_pop (small_cur (hpool H)) c H = ret (r1, H1)"
    "heap_inv H1 ps" "heap_effect c r1 H H1" "evolves H H1" by blast
  from discovery_ok [OF r1(2) c] obtain r2 H2 ps2 where r2: "alloc_small_via_discovery c H1 = ret (r2, H2)"
    "heap_inv H2 ps2" "heap_effect c r2 H1 H2" "evolves H1 H2" by blast
  from heap_carve_ok [OF r2(2) c cur_not_pooled(1) [OF r2(2)], of safe_mode recommit] obtain r3 H3 where
    r3: "heap_carve safe_mode recommit c (class_size c) H2 = ret (r3, H3)" "heap_inv H3 ps2"
      "heap_effect c r3 H2 H3" "evolves H2 H3" by blast
  show ?thesis unfolding alloc_small_eq [OF c]
    by (rule outcome_try [OF inv r1], rule outcome_try [OF r1(2) r2], rule outcome_try [OF r2(2) r3],
      rule alloc_in_new_ok [OF r3(2) os c])
qed

subsection \<open>Deallocation\<close>

lemma empty_tail_ok:
  assumes inv: "heap_inv H ps" and b: "small_base H b" "b \<notin> set ps"
    and e: "dec_live_and_maybe_decommit b (hpool H)"
  shows "\<exists>kept p ps'. release_or_pool_empty_segment b (hpool H) = ret (kept, p) \<and> heap_inv (H\<lparr>hpool := p\<rparr>) ps'
    \<and> heap_blocks (H\<lparr>hpool := p\<rparr>) = heap_blocks H \<and> heap_word (H\<lparr>hpool := p\<rparr>) = heap_word H
    \<and> moves {} H (H\<lparr>hpool := p\<rparr>)"
proof -
  have ok: "segs_ok H" using inv by (simp add: heap_inv_def)
  from inv obtain m where pinv: "pool_inv (hpool H) m ps" by (rule table_of)
  have "kind (seg_mem (hpool H) b) = Small" using e by (simp add: dec_live_iff)
  then have "slots (seg_table (hpool H)) ! 0 \<noteq> b" using ok by (auto simp: segs_ok_def)
  then have id: "idle (hpool H) b" using ok b(1) heap_inv_seg [OF inv b(1)] e by (simp add: idle_def segs_ok_def)
  from release_or_pool_ok [OF pinv id b(2)] obtain kept p m' ps' where
    p: "release_or_pool_empty_segment b (hpool H) = ret (kept, p)" "pool_inv p m' ps'" "pool_frame (hpool H) p"
    by (cases "length ps < pool_cap (hpool H)") (simp, blast)+
  then show ?thesis using pool_step(1-3) [OF inv p(2,3)] moves_pool [OF p(3)] by blast
qed

lemma pooled_empty:
  assumes inv: "heap_inv H ps" and b: "small_base H b" and blk: "held (block (segment_at b H)) off = Some c"
  shows "b \<notin> set ps"
proof
  assume "b \<in> set ps"
  then have "live_count (seg_hdr (segment_at b H)) = 0"
    using inv by (auto simp: heap_inv_def pool_inv_def idle_def dec_live_iff segment_at_def)
  then have "dom (held (block (segment_at b H))) = {}"
    using heap_inv_seg(2) [OF inv b] finite_held [of "segment_at b H"] by (simp add: seg_ok_def)
  then show False using blk by (auto simp: dom_def)
qed

lemma heap_dealloc_ok:
  assumes inv: "heap_inv H ps" and b: "small_base H b" and c: "c < 49" and ptr: "b \<le> ptr" "ptr < b + SEGMENT"
  shows "if block (segment_at b H) (ptr - b) = Some (c, LIVE)
    then \<exists>H' ps'. heap_dealloc safe_mode b ptr c H = ret H' \<and> heap_inv H' ps'
      \<and> heap_blocks H' = (heap_blocks H)(ptr := None) \<and> keeps_words H H' \<and> moves {} H H'
    else if safe_mode then heap_dealloc safe_mode b ptr c H = ret H
    else \<exists>e. heap_dealloc safe_mode b ptr c H = abort e"
proof -
  let ?s = "segment_at b H"
  note ok = heap_inv_seg [OF inv b]
  note dealloc = dealloc_small_ok [OF ok(2) c ptr, of safe_mode]
  show ?thesis
  proof (cases "block ?s (ptr - b) = Some (c, LIVE)")
    case False
    then show ?thesis using dealloc
      by (auto simp: heap_dealloc_def on_segment_def tbind_def abort_def ret_def)
  next
    case True
    with dealloc obtain s' where s': "dealloc_small safe_mode b ptr c ?s = Inr (True, s')" "seg_ok b s'"
      "block s' = (block ?s)(ptr - b \<mapsto> (c, FREE))"
      "seg_hdr s' = counted (seg_hdr ?s) (live_count (seg_hdr ?s) - 1)" by auto
    have np: "b \<notin> set ps" by (rule pooled_empty [OF inv b, of "ptr - b" c]) (simp add: True held_def)
    have fr: "hdr_frame (seg_hdr ?s) (seg_hdr s')" unfolding s'(4) by (rule hdr_frame_counted)
    have nc: "no_cached s'" using heap_inv_seg(6) [OF inv b]
      unfolding no_cached_def s'(3) by (auto split: if_splits)
    let ?H = "put_segment b s' H"
    note step = put_step [OF inv b np s'(2) fr nc]
    have "seg_op b ?s [] (if True then [ptr] else []) s'" by (rule op_free [OF _ ptr s'(1)]) (use c in simp)
    from seg_op_effect [OF ok(2) this] have keep: "keeps_contents ?s s'" by (simp add: op_effect_def)
    have kw: "keeps_words H ?H" by (rule put_keeps_words [OF inv b np s'(2) fr nc keep])
    have bp: "segment_base_of ptr = b"
      using segment_base_of_in [OF ok(1), of "ptr - b"] ptr by simp
    have blocks: "heap_blocks ?H = (heap_blocks H)(ptr := None)"
    proof
      fix a
      have "a - b \<noteq> ptr - b" if "segment_base_of a = b" "a \<noteq> ptr"
        using that segment_base_le [of a] ptr by linarith
      then show "heap_blocks ?H a = ((heap_blocks H)(ptr := None)) a"
        using step(4) [of a] b bp by (cases "a = ptr") (auto simp: s'(3) held_upd heap_blocks_def Let_def)
    qed
    have sb: "small_base ?H b" using step(3) b by simp
    have mv: "moves {} H ?H" using step(2) by (simp add: evolves_def)
    show ?thesis
    proof (cases "dec_live_and_maybe_decommit b (hpool ?H)")
      case False
      then have "heap_dealloc safe_mode b ptr c H = ret ?H"
        using s'(1) by (simp add: heap_dealloc_def on_segment_def)
      then show ?thesis using True step(1) blocks kw mv by auto
    next
      case tail: True
      from empty_tail_ok [OF step(1) sb np tail] obtain kept p ps' where
        p: "release_or_pool_empty_segment b (hpool ?H) = ret (kept, p)" "heap_inv (?H\<lparr>hpool := p\<rparr>) ps'"
          "heap_blocks (?H\<lparr>hpool := p\<rparr>) = heap_blocks ?H" "heap_word (?H\<lparr>hpool := p\<rparr>) = heap_word ?H"
        "moves {} ?H (?H\<lparr>hpool := p\<rparr>)" by blast
      have "heap_dealloc safe_mode b ptr c H = ret (?H\<lparr>hpool := p\<rparr>)"
        using s'(1) tail p(1) by (simp add: heap_dealloc_def on_segment_def)
      moreover have "keeps_words H (?H\<lparr>hpool := p\<rparr>)" using kw unfolding keeps_words_def p(3,4) .
      moreover have "moves {} H (?H\<lparr>hpool := p\<rparr>)" by (rule moves_after [OF mv p(5)])
      ultimately show ?thesis using True p(2,3) blocks by auto
    qed
  qed
qed

subsection \<open>The heap in use\<close>

lemma new_inner_ok:
  assumes base: "segment_key base" "base \<noteq> 0"
  shows "\<exists>H. new_inner by_segments by_bytes interval mem base res res_len = Inr H \<and> heap_inv H []
    \<and> heap_blocks H = (\<lambda>a. None) \<and> live (seg_table (hpool H)) = {0} \<and> small_cur (hpool H) = base
    \<and> (\<forall>b. in_table (hpool H) b \<longrightarrow> b = base)"
proof -
  let ?h = "primordial_header res res_len" and ?mem = "mem(base := primordial_header res res_len)"
  have hdr: "kind (?mem base) = Primordial" "payload_offset (?mem base) = 0"
    "segment_id ?h = 0" "live_count ?h = 0" "bump ?h = primordial_meta_end" "pool_prev ?h = 0" "kind ?h = Primordial"
    by (simp_all add: primordial_header_def header_small_fields Let_def)
  from bootstrap_table_ok [where mem = ?mem, OF base hdr(1,2)] obtain t where
    t: "bootstrap_table base = Inr t" "table_inv ?mem t [base \<mapsto> 0]" "live t = {0}" "slots t ! 0 = base" by blast
  obtain H where run: "new_inner by_segments by_bytes interval mem base res res_len = Inr H"
    and H: "H = \<lparr>hpool = \<lparr>pool_head = 0, pool_tail = 0, pooled_count = 0,
              pool_cap = resolve_pool_cap_u32 by_segments by_bytes, last_pool_decay_tick = None,
              pool_decay_interval = interval, small_cur = base,
              small_class_cursor = replicate SMALL_CLASS_COUNT CLASS_CURSOR_NONE,
              seg_mem = ?mem, bin_heads = (\<lambda>_. bin_table_init), seg_table = t, decommit_calls = 0\<rparr>,
            blk_states = (\<lambda>_ _. 0), blk_cells = (\<lambda>_ _. 0)\<rparr>"
    by (simp add: new_inner_def t(1))
  have f: "seg_mem (hpool H) = ?mem" "seg_table (hpool H) = t" "small_cur (hpool H) = base"
    "small_class_cursor (hpool H) = replicate 49 CLASS_CURSOR_NONE"
    by (simp_all add: H)
  have tab: "in_table (hpool H) b \<longleftrightarrow> b = base" for b using t(3,4) by (auto simp: in_table_def f)
  have "env_ok (hpool H) [base \<mapsto> 0]" unfolding env_ok_def f using t hdr(3) by simp
  moreover have "pool_list (hpool H) []" "pool_cap (hpool H) < 2 ^ 32"
    by (simp_all add: pool_list_def H resolve_pool_cap_u32_def)
  ultimately have "pool_inv (hpool H) [base \<mapsto> 0] []" unfolding pool_inv_def tab f using hdr(6) by simp
  moreover have sb: "small_base H b \<longleftrightarrow> b = base" for b unfolding small_base_def tab f using hdr(7) by auto
  have seg: "segment_at base H = fresh_segment ?h (\<lambda>_. 0)"
    by (simp add: segment_at_def fresh_segment_def H)
  have "seg_fresh base (segment_at base H)" unfolding seg_fresh_def seg
    using based_key [OF base] hdr by (intro conjI exI [of _ ?h] exI [of _ "\<lambda>_. 0"]) (simp_all add: payload_start_def)
  then have ok: "seg_ok base (segment_at base H)" by (rule fresh_ok)
  have "no_cached (segment_at base H)" unfolding seg by (rule fresh_small_ok(2) [OF based_key [OF base]])
  then have "segs_ok H" unfolding segs_ok_def sb f using base ok t(4) hdr segment_base_of_key [OF base(1)]
    by (simp add: payload_key_def)
  ultimately have "heap_inv H []" by (auto simp: heap_inv_def)
  moreover have "dom (held (block (segment_at base H))) = {}"
    using ok finite_held [of "segment_at base H"] hdr(4) by (simp add: seg_ok_def seg fresh_segment_def)
  then have "heap_blocks H = (\<lambda>a. None)"
    unfolding heap_blocks_def sb Let_def fun_eq_iff by (auto simp: dom_def)
  ultimately show ?thesis using run t(3) tab f by simp
qed

text \<open>
  The program: allocations of any class with any answers of the system, frees of any address in a
  small segment, and stores of the callers into the blocks they have.
\<close>

definition heap_start :: "small_heap \<Rightarrow> bool" where
  "heap_start H \<longleftrightarrow> (\<exists>by_segments by_bytes interval mem base res res_len. segment_key base \<and> base \<noteq> 0
     \<and> new_inner by_segments by_bytes interval mem base res res_len = Inr H)"

inductive heap_step :: "bool \<Rightarrow> small_heap \<Rightarrow> small_heap \<Rightarrow> bool" for safe_mode :: bool where
  step_alloc: "c < SMALL_CLASS_COUNT \<Longrightarrow> maps_fresh os
    \<Longrightarrow> alloc_small safe_mode recommit now os c H = ret (r, H') \<Longrightarrow> heap_step safe_mode H H'"
| step_dealloc: "c < SMALL_CLASS_COUNT \<Longrightarrow> small_base H (segment_base_of ptr) \<Longrightarrow> ptr \<le> usize_max
    \<Longrightarrow> heap_dealloc safe_mode (segment_base_of ptr) ptr c H = ret H' \<Longrightarrow> heap_step safe_mode H H'"
| step_store: "small_base H b \<Longrightarrow> block (segment_at b H) off = Some (c, LIVE)
    \<Longrightarrow> heap_step safe_mode H (put_segment b ((segment_at b H)
          \<lparr>cells := \<lambda>p. if off < p + 8 \<and> p < off + class_size c then g p else cells (segment_at b H) p\<rparr>) H)"

definition heap_good :: "small_heap \<Rightarrow> bool" where "heap_good H \<longleftrightarrow> (\<exists>ps. heap_inv H ps)"

lemma in_segment:
  assumes "ptr \<le> usize_max"
  shows "ptr < segment_base_of ptr + SEGMENT"
proof -
  have "SEGMENT = 2 ^ 22" by simp
  then have "is_power_of_two SEGMENT" using is_power_of_two_pow [of 22] by (simp only:)
  then have "segment_base_of ptr = ptr - ptr mod SEGMENT"
    unfolding segment_base_of_def using assms by (intro mask_up) simp_all
  moreover have "ptr mod SEGMENT < SEGMENT" "ptr mod SEGMENT \<le> ptr" by simp_all
  ultimately show ?thesis by linarith
qed

lemma store_ok:
  fixes g :: "nat \<Rightarrow> nat"
  assumes inv: "heap_inv H ps" and b: "small_base H b" and blk: "block (segment_at b H) off = Some (c, LIVE)"
  defines "s \<equiv> (segment_at b H)
      \<lparr>cells := \<lambda>p. if off < p + 8 \<and> p < off + class_size c then g p else cells (segment_at b H) p\<rparr>"
  shows "heap_inv (put_segment b s H) ps \<and> heap_blocks (put_segment b s H) = heap_blocks H"
proof -
  have ok: "seg_ok b s" unfolding s_def by (rule write_ok [OF heap_inv_seg(2) [OF inv b] blk])
  have np: "b \<notin> set ps" by (rule pooled_empty [OF inv b, of off c]) (simp add: blk held_def)
  have nc: "no_cached s" using heap_inv_seg(6) [OF inv b] by (simp add: s_def no_cached_def)
  have "hdr_frame (seg_hdr (segment_at b H)) (seg_hdr s)" by (simp add: s_def hdr_frame_def)
  note step = put_step [OF inv b np ok this nc]
  have "block s = block (segment_at b H)" by (simp add: s_def)
  then have "heap_blocks (put_segment b s H) a = heap_blocks H a" for a
    using step(4) [of a] b by (auto simp: heap_blocks_def Let_def)
  then show ?thesis using step(1) by blast
qed

lemma heap_step_good: "heap_good H \<Longrightarrow> heap_step safe_mode H H' \<Longrightarrow> heap_good H'"
proof -
  assume "heap_good H"
  then obtain ps where inv: "heap_inv H ps" by (auto simp: heap_good_def)
  assume "heap_step safe_mode H H'"
  then show "heap_good H'"
  proof cases
    case (step_alloc c os recommit now r)
    then have "c < 49" by simp
    from alloc_small_ok [OF inv step_alloc(2) this, of safe_mode recommit now] step_alloc(3) show ?thesis
      by (auto simp: outcome_def heap_good_def)
  next
    case (step_dealloc c ptr)
    then have "c < 49" by simp
    from heap_dealloc_ok [OF inv step_dealloc(2) this segment_base_le in_segment [OF step_dealloc(3)], of safe_mode]
      step_dealloc(4) inv show ?thesis by (auto simp: heap_good_def abort_def ret_def split: if_splits)
  next
    case (step_store b off c g)
    from store_ok [OF inv step_store(2,3)] step_store(1) show ?thesis by (auto simp: heap_good_def)
  qed
qed

interpretation heap_life: transition_system heap_start "heap_step safe_mode" heap_good
proof
  show "heap_good H" if "heap_start H" for H
  proof -
    from that obtain by_segments by_bytes interval mem base res res_len where s: "segment_key base" "base \<noteq> 0"
      "new_inner by_segments by_bytes interval mem base res res_len = Inr H" unfolding heap_start_def by blast
    from new_inner_ok [OF s(1,2), of by_segments by_bytes interval mem res res_len] s(3) show ?thesis
      by (auto simp: heap_good_def)
  qed
qed (rule heap_step_good)

lemma reachable_inv:
  assumes "reachable heap_start (heap_step safe_mode) H"
  obtains ps where "heap_inv H ps"
  using heap_life.reachable_good [OF assms] by (auto simp: heap_good_def)

subsection \<open>Properties\<close>

lemma heap_block_live:
  assumes "heap_inv H ps" and "small_base H (segment_base_of a)"
  shows "block (segment_at (segment_base_of a) H) (a - segment_base_of a) = Some (c, LIVE)
    \<longleftrightarrow> heap_blocks H a = Some c"
  using heap_inv_seg(6) [OF assms] assms(2)
  unfolding no_cached_def heap_blocks_def Let_def by (auto simp: held_Some)

lemma heap_apart:
  assumes inv: "heap_inv H ps" and a: "heap_blocks H a = Some c" "heap_blocks H a' = Some c'" "a < a'"
  shows "a + class_size c \<le> a'"
proof (cases "segment_base_of a' = segment_base_of a")
  case True
  let ?b = "segment_base_of a"
  have "apart (block (segment_at ?b H))"
    using heap_inv_seg(2) [OF inv heap_block_parts(1) [OF a(1)]] by (simp add: seg_ok_def)
  moreover have "held (block (segment_at ?b H)) (a - ?b) = Some c" "held (block (segment_at ?b H)) (a' - ?b) = Some c'"
    using heap_block_parts(2) [OF a(1)] heap_block_parts(2) [OF a(2)] True by simp_all
  moreover have "a - ?b < a' - ?b" using a(3) segment_base_le [of a] by linarith
  ultimately have "a - ?b + class_size c \<le> a' - ?b" unfolding apart_def by (auto simp: held_Some)
  then show ?thesis using segment_base_le [of a] a(3) by linarith
next
  case False
  then show ?thesis using block_span(2) [OF inv a(1), of a'] a(3) by linarith
qed

lemma heap_placed:
  assumes inv: "heap_inv H ps" and a: "heap_blocks H a = Some c"
  defines "b \<equiv> segment_base_of a"
  shows "small_base H b \<and> b + small_meta_end \<le> a \<and> a + class_size c \<le> b + SEGMENT \<and> class_size c dvd a - b"
proof -
  let ?s = "segment_at b H"
  have "placed (kind (seg_hdr ?s)) (bump (seg_hdr ?s)) (block ?s)"
    using heap_inv_seg(2) [OF inv heap_block_parts(1) [OF a]] by (simp add: seg_ok_def b_def)
  then have p: "payload_start (kind (seg_hdr ?s)) \<le> a - b" "class_size c dvd a - b"
    using heap_block_parts(2) [OF a] unfolding placed_def b_def by (auto simp: held_Some)
  have "small_meta_end \<le> payload_start (kind (seg_hdr ?s))" by (simp add: payload_start_def)
  then have "b + small_meta_end \<le> a" using p(1) segment_base_le [of a, folded b_def] by linarith
  then show ?thesis using p(2) heap_block_parts(1) [OF a] block_span(1) [OF inv a] by (simp add: b_def)
qed

text \<open>Whatever sequence of allocations, frees (rightful or not) and stores the program runs, and
  whatever the system answers, no two blocks in use overlap; each lies within one small segment of
  the table, behind its metadata, at a multiple of its class size from its base.\<close>

theorem heap_blocks_disjoint:
  assumes "reachable heap_start (heap_step safe_mode) H" and "heap_blocks H a = Some c"
  defines "b \<equiv> segment_base_of a"
  shows "small_base H b \<and> b + small_meta_end \<le> a \<and> a + class_size c \<le> b + SEGMENT \<and> class_size c dvd a - b
    \<and> (\<forall>a' c'. heap_blocks H a' = Some c' \<and> a < a' \<longrightarrow> a + class_size c \<le> a')"
proof -
  from assms(1) obtain ps where inv: "heap_inv H ps" by (rule reachable_inv)
  show ?thesis using heap_placed [OF inv assms(2)] heap_apart [OF inv assms(2)] unfolding b_def by blast
qed

text \<open>C8: Allocation of a class always comes to a result.  A pointer it returns was not in use and is
  now a block of that class, and no other block changes; every block in use keeps its contents.  It
  fails only when the system refuses a segment or all 4096 slots of the table are taken.\<close>

theorem heap_alloc_exact:
  assumes "reachable heap_start (heap_step safe_mode) H" and "c < SMALL_CLASS_COUNT"
    and "maps_fresh os"
  shows "\<exists>r H'. alloc_small safe_mode recommit now os c H = ret (r, H') \<and> keeps_words H H'
    \<and> (case r of
         None \<Rightarrow> heap_blocks H' = heap_blocks H
           \<and> ((\<exists>K. evolves H K \<and> os K = None) \<or> live (seg_table (hpool H)) = {..<MAX_SEGMENTS})
       | Some p \<Rightarrow> heap_blocks H p = None \<and> heap_blocks H' = (heap_blocks H)(p \<mapsto> c))"
proof -
  from assms(1) obtain ps where inv: "heap_inv H ps" by (rule reachable_inv)
  have "c < 49" using assms(2) by simp
  from alloc_small_ok [OF inv assms(3) this, of safe_mode recommit now] obtain r H' where
    "alloc_small safe_mode recommit now os c H = ret (r, H')" "heap_effect c r H H'"
    "r = None \<longrightarrow> refused os H" unfolding outcome_def
    by (elim exE conjE) (rule that, assumption+)
  then show ?thesis by (cases r) (auto simp: heap_effect_def refused_def)
qed

text \<open>Freeing an address in a small segment removes exactly the block of that class that starts
  there, if it is in use, and keeps the contents of all others, also when the segment empties and
  is pooled or given back; any other address changes nothing (safe mode) or stops the process.\<close>

theorem heap_free_exact:
  assumes "reachable heap_start (heap_step safe_mode) H" and "c < SMALL_CLASS_COUNT"
    and "small_base H (segment_base_of ptr)" and "ptr \<le> usize_max"
  shows "if heap_blocks H ptr = Some c
    then \<exists>H'. heap_dealloc safe_mode (segment_base_of ptr) ptr c H = ret H'
      \<and> heap_blocks H' = (heap_blocks H)(ptr := None) \<and> keeps_words H H'
    else if safe_mode then heap_dealloc safe_mode (segment_base_of ptr) ptr c H = ret H
    else \<exists>e. heap_dealloc safe_mode (segment_base_of ptr) ptr c H = abort e"
proof -
  from assms(1) obtain ps where inv: "heap_inv H ps" by (rule reachable_inv)
  have "c < 49" using assms(2) by simp
  from heap_dealloc_ok [OF inv assms(3) this segment_base_le in_segment [OF assms(4)], of safe_mode]
  show ?thesis unfolding heap_block_live [OF inv assms(3)] by (auto split: if_splits)
qed

subsection \<open>An example heap\<close>

text \<open>A system that has one segment to give.\<close>

definition one_segment :: mapper where
  "one_segment K = (if unmapped K (2 ^ 23) then Some (2 ^ 23, 1, 1) else None)"

lemma one_segment_fresh: "maps_fresh one_segment"
  by (simp add: maps_fresh_def one_segment_def)

lemma sample_start_heap:
  "\<exists>H. heap_start H \<and> \<not> refused one_segment H \<and> heap_blocks H = (\<lambda>a. None)"
proof -
  have b: "segment_key (2 ^ 22)" "(2 ^ 22 :: nat) \<noteq> 0" by (simp_all add: segment_key_def)
  from new_inner_ok [OF b, of 4 16777216 100 sample_mem 1 1] obtain H where
    H: "new_inner 4 16777216 100 sample_mem (2 ^ 22) 1 1 = Inr H" "heap_inv H []" "heap_blocks H = (\<lambda>a. None)"
      "live (seg_table (hpool H)) = {0}" "small_cur (hpool H) = 2 ^ 22" "\<forall>b. in_table (hpool H) b \<longrightarrow> b = 2 ^ 22"
    by blast
  have "payload_key (seg_mem (hpool H)) (2 ^ 22) = 2 ^ 22" "small_base H (2 ^ 22)"
    using H(2) unfolding heap_inv_def segs_ok_def H(5) by blast+
  then have "s = 2 ^ 22 \<and> payload_key (seg_mem (hpool H)) s = 2 ^ 22 \<and> seg_span H s = SEGMENT"
    if "in_table (hpool H) s" for s using H(6) that by (auto simp: seg_span_def small_base_def)
  then have "clear H (2 ^ 23) SEGMENT" unfolding clear_def by fastforce
  then have u: "unmapped H (2 ^ 23)" by (simp add: unmapped_def segment_key_def)
  have "(1 :: nat) \<notin> {0}" "(1 :: nat) \<in> {..<4096}" by simp_all
  then have "{..<4096} \<noteq> {0 :: nat}" by blast
  then have "\<not> refused one_segment H" unfolding refused_def one_segment_def H(4)
    using u clear_moves [of H _ "2 ^ 23" SEGMENT] by (auto simp: unmapped_def evolves_def)
  moreover have "heap_start H" unfolding heap_start_def using b H(1) by blast
  ultimately show ?thesis using H(3) by auto
qed

lemma sample_alloc:
  "\<exists>H p. reachable heap_start (heap_step True) H \<and> heap_blocks H p = Some 0"
proof -
  from sample_start_heap obtain H where H: "heap_start H" "\<not> refused one_segment H" by blast
  obtain ps where inv: "heap_inv H ps" using heap_life.start_good [OF H(1)] by (auto simp: heap_good_def)
  from alloc_small_ok [OF inv one_segment_fresh, of 0 True True 0] H(2) obtain p H' where
    a: "alloc_small True True 0 one_segment 0 H = ret (Some p, H')" "heap_effect 0 (Some p) H H'"
    unfolding outcome_def by auto
  have "heap_step True H H'" by (rule step_alloc [OF _ one_segment_fresh a(1)]) simp
  with H(1) have "reachable heap_start (heap_step True) H'" by (blast intro: reach_start reach_step)
  moreover have "heap_blocks H' p = Some 0" using a(2) by (simp add: heap_effect_def)
  ultimately show ?thesis by blast
qed

lemma heap_blocks_disjoint_witness:
  "\<exists>H p. heap_blocks H p = Some 0 \<and> p + 16 \<le> segment_base_of p + SEGMENT"
proof -
  from sample_alloc obtain H p where H: "reachable heap_start (heap_step True) H" "heap_blocks H p = Some 0" by blast
  from heap_blocks_disjoint [OF H] H(2) show ?thesis using class_size_0 by auto
qed

lemma heap_alloc_exact_witness:
  "\<exists>H p H'. alloc_small True True 0 one_segment 0 H = ret (Some p, H')
     \<and> heap_blocks H = (\<lambda>a. None) \<and> heap_blocks H' = [p \<mapsto> 0]"
proof -
  from sample_start_heap obtain H where H: "heap_start H" "\<not> refused one_segment H" "heap_blocks H = (\<lambda>a. None)"
    by blast
  have "reachable heap_start (heap_step True) H" "0 < SMALL_CLASS_COUNT" using H(1) by (auto intro: reach_start)
  from heap_alloc_exact [OF this one_segment_fresh, of True 0] obtain r H' where
    r: "alloc_small True True 0 one_segment 0 H = ret (r, H')" "case r of
         None \<Rightarrow> heap_blocks H' = heap_blocks H
           \<and> ((\<exists>K. evolves H K \<and> one_segment K = None) \<or> live (seg_table (hpool H)) = {..<MAX_SEGMENTS})
       | Some p \<Rightarrow> heap_blocks H p = None \<and> heap_blocks H' = (heap_blocks H)(p \<mapsto> 0)" by blast
  then show ?thesis using H(2,3) by (cases r) (auto simp: refused_def)
qed

lemma heap_free_exact_witness:
  "\<exists>H p H'. heap_blocks H p = Some 0 \<and> heap_dealloc True (segment_base_of p) p 0 H = ret H' \<and> heap_blocks H' p = None"
proof -
  from sample_alloc obtain H p where H: "reachable heap_start (heap_step True) H" "heap_blocks H p = Some 0" by blast
  then obtain ps where inv: "heap_inv H ps" by (blast elim: reachable_inv)
  note seg = heap_inv_seg(1) [OF inv heap_block_parts(1) [OF H(2)]]
  have "p \<le> usize_max"
    using heap_placed [OF inv H(2)] seg class_size_facts(2) [of 0] by (simp add: based_def)
  from heap_free_exact [OF H(1) _ heap_block_parts(1) [OF H(2)] this, of 0] H(2) obtain H' where
    "heap_dealloc True (segment_base_of p) p 0 H = ret H'" "heap_blocks H' = (heap_blocks H)(p := None)" by auto
  with H(2) show ?thesis by (intro exI [of _ H] exI [of _ p] exI [of _ H']) simp
qed

end
