(* ===== verification/LargeState.thy ===== *)
theory LargeState
  imports SegmentHeader Interfaces
begin

text \<open>
  The life cycle word of a large reservation
  (\<open>src/alloc_core/segment/segment_header/terminal_words.rs\<close>,
  \<open>src/alloc_core/large/reservation_state.rs\<close>): a phase in the low three bits and a
  generation above them, changed only by compare-and-swap.  An operation that loads the word
  and then swaps it is two definitions, so that other threads can act in between; the
  sequential operation composes them.
\<close>

subsection \<open>The packed word\<close>

datatype large_phase_t =
  PhUnused | PhInitializing | PhLive | PhPending | PhConsuming | PhCached | PhReleased

primrec phase_code :: "large_phase_t \<Rightarrow> u64" where
  "phase_code PhUnused = 0"
| "phase_code PhInitializing = 1"
| "phase_code PhLive = 2"
| "phase_code PhPending = 3"
| "phase_code PhConsuming = 4"
| "phase_code PhCached = 5"
| "phase_code PhReleased = 6"

definition PHASE_BITS :: nat where "PHASE_BITS = 3"
definition MAX_LARGE_GENERATION :: u64 where "MAX_LARGE_GENERATION = drop_bit PHASE_BITS (- 1)"

definition pack_large_state :: "large_phase_t \<Rightarrow> u64 \<Rightarrow> fatal + u64" where
  "pack_large_state ph generation =
     (if MAX_LARGE_GENERATION < generation
      then Inl ''terminal_words: pack_large_state generation exceeds MAX_LARGE_GENERATION''
      else Inr (push_bit PHASE_BITS generation OR phase_code ph))"

definition large_generation :: "u64 \<Rightarrow> u64" where
  "large_generation w = drop_bit PHASE_BITS w"

definition large_phase :: "u64 \<Rightarrow> large_phase_t option" where
  "large_phase w =
     (let p = w AND (push_bit PHASE_BITS 1 - 1) in
      if p = 0 then Some PhUnused
      else if p = 1 then Some PhInitializing
      else if p = 2 then Some PhLive
      else if p = 3 then Some PhPending
      else if p = 4 then Some PhConsuming
      else if p = 5 then Some PhCached
      else if p = 6 then Some PhReleased
      else None)"

definition next_large_generation_bounded :: "u64 \<Rightarrow> u64 \<Rightarrow> u64 option" where
  "next_large_generation_bounded generation limit =
     (if limit \<le> generation \<or> MAX_LARGE_GENERATION < limit then None else Some (generation + 1))"

definition next_large_generation :: "u64 \<Rightarrow> u64 option" where
  "next_large_generation generation = next_large_generation_bounded generation MAX_LARGE_GENERATION"

subsection \<open>Operations\<close>

text \<open>The result of an atomic compare-and-swap, and the word after it.\<close>

definition cas :: "u64 \<Rightarrow> u64 \<Rightarrow> u64 \<Rightarrow> bool \<times> u64" where
  "cas expected new w = (if w = expected then (True, new) else (False, w))"

definition transition :: "u64 \<Rightarrow> large_phase_t \<Rightarrow> large_phase_t \<Rightarrow> u64 \<Rightarrow> fatal + bool \<times> u64" where
  "transition generation from_ph to_ph w =
     (case pack_large_state from_ph generation of
        Inl e \<Rightarrow> Inl e
      | Inr expected \<Rightarrow>
          (case pack_large_state to_ph generation of
             Inl e \<Rightarrow> Inl e
           | Inr new \<Rightarrow> Inr (cas expected new w)))"

definition publish_pending :: "u64 \<Rightarrow> u64 \<Rightarrow> fatal + bool \<times> u64" where
  "publish_pending generation w = transition generation PhLive PhPending w"

definition cache_consumed :: "u64 \<Rightarrow> u64 \<Rightarrow> fatal + bool \<times> u64" where
  "cache_consumed generation w = transition generation PhConsuming PhCached w"

definition release_consumed :: "u64 \<Rightarrow> u64 \<Rightarrow> fatal + bool \<times> u64" where
  "release_consumed generation w = transition generation PhConsuming PhReleased w"

definition release_cached :: "u64 \<Rightarrow> u64 \<Rightarrow> fatal + bool \<times> u64" where
  "release_cached generation w = transition generation PhCached PhReleased w"

definition release_initializing :: "u64 \<Rightarrow> u64 \<Rightarrow> fatal + bool \<times> u64" where
  "release_initializing generation w = transition generation PhInitializing PhReleased w"

definition finish_reuse :: "u64 \<Rightarrow> u64 \<Rightarrow> fatal + bool \<times> u64" where
  "finish_reuse generation w = transition generation PhInitializing PhLive w"

text \<open>The load of a claim or a reuse, and the swap that follows it.\<close>

definition observe :: "large_phase_t \<Rightarrow> u64 \<Rightarrow> u64 option" where
  "observe ph w = (if large_phase w \<noteq> Some ph then None else Some w)"

definition claim_cas :: "u64 \<Rightarrow> u64 \<Rightarrow> fatal + u64 option \<times> u64" where
  "claim_cas observed w =
     (case pack_large_state PhConsuming (large_generation observed) of
        Inl e \<Rightarrow> Inl e
      | Inr new \<Rightarrow>
          let (ok, w') = cas observed new w in
          Inr (if ok then Some (large_generation observed) else None, w'))"

definition reuse_cas :: "u64 \<Rightarrow> u64 \<Rightarrow> fatal + u64 option \<times> u64" where
  "reuse_cas observed w =
     (case next_large_generation (large_generation observed) of
        None \<Rightarrow> Inr (None, w)
      | Some nxt \<Rightarrow>
          (case pack_large_state PhInitializing nxt of
             Inl e \<Rightarrow> Inl e
           | Inr new \<Rightarrow>
               let (ok, w') = cas observed new w in
               Inr (if ok then Some nxt else None, w')))"

definition claim_pending :: "u64 \<Rightarrow> fatal + u64 option \<times> u64" where
  "claim_pending w =
     (case observe PhPending w of None \<Rightarrow> Inr (None, w) | Some observed \<Rightarrow> claim_cas observed w)"

definition claim_live :: "u64 \<Rightarrow> fatal + u64 option \<times> u64" where
  "claim_live w =
     (case observe PhLive w of None \<Rightarrow> Inr (None, w) | Some observed \<Rightarrow> claim_cas observed w)"

definition begin_reuse :: "u64 \<Rightarrow> fatal + u64 option \<times> u64" where
  "begin_reuse w =
     (case observe PhCached w of None \<Rightarrow> Inr (None, w) | Some observed \<Rightarrow> reuse_cas observed w)"

text \<open>The terminal words of a segment, and the operations of \<open>SegmentMeta\<close> on them.\<close>

record terminal_words =
  remote_head :: u32
  large_word :: u64

definition REMOTE_HEAD_EMPTY :: u32 where "REMOTE_HEAD_EMPTY = - 1"

definition init_terminal :: "large_phase_t \<Rightarrow> u64 \<Rightarrow> fatal + terminal_words" where
  "init_terminal ph generation =
     (case pack_large_state ph generation of
        Inl e \<Rightarrow> Inl e
      | Inr w \<Rightarrow> Inr \<lparr>remote_head = REMOTE_HEAD_EMPTY, large_word = w\<rparr>)"

definition init_small_terminal :: "fatal + terminal_words" where
  "init_small_terminal = init_terminal PhUnused 0"

definition init_large_terminal :: "fatal + terminal_words" where
  "init_large_terminal = init_terminal PhLive 1"

definition begin_large_reuse :: "terminal_words \<Rightarrow> fatal + u64 option \<times> terminal_words" where
  "begin_large_reuse tw =
     (if large_phase (large_word tw) \<noteq> Some PhCached
      then Inl ''terminal_words: begin_large_reuse on non-cached state''
      else case begin_reuse (large_word tw) of
        Inl e \<Rightarrow> Inl e
      | Inr (r, w) \<Rightarrow> Inr (r, tw\<lparr>large_word := w\<rparr>))"

definition finish_large_reuse :: "u64 \<Rightarrow> terminal_words \<Rightarrow> fatal + terminal_words" where
  "finish_large_reuse generation tw =
     (let tw' = tw\<lparr>remote_head := REMOTE_HEAD_EMPTY\<rparr> in
      case finish_reuse generation (large_word tw') of
        Inl e \<Rightarrow> Inl e
      | Inr (ok, w) \<Rightarrow>
          if \<not> ok then Inl ''terminal_words: finish_large_reuse transition failed''
          else Inr (tw'\<lparr>large_word := w\<rparr>))"

subsection \<open>Packing is lossless\<close>

lemma max_generation: "MAX_LARGE_GENERATION = mask 61"
  by (rule bit_word_eqI) (auto simp: MAX_LARGE_GENERATION_def PHASE_BITS_def bit_simps simp del: mask_numeral)

lemma unat_max_generation: "unat MAX_LARGE_GENERATION = 2 ^ 61 - 1"
  unfolding max_generation by (simp add: mask_eq_exp_minus_1)

lemma unat_drop_bit_div: "unat (drop_bit n w) = unat w div 2 ^ n"
  by (subst unat_drop_bit_eq) (rule drop_bit_eq_div)

lemma generation_small: "large_generation w \<le> MAX_LARGE_GENERATION"
proof -
  have "unat (large_generation w) = unat w div 2 ^ 3"
    unfolding large_generation_def PHASE_BITS_def by (rule unat_drop_bit_div)
  moreover have "unat w < 2 ^ 61 * 2 ^ 3" by simp
  then have "unat w div 2 ^ 3 < 2 ^ 61" by (rule less_mult_imp_div_less)
  ultimately show ?thesis unfolding word_le_nat_alt unat_max_generation by linarith
qed

lemma small_generation_bits: "g \<le> MAX_LARGE_GENERATION \<Longrightarrow> bit g i \<Longrightarrow> i < 61"
proof (rule ccontr)
  assume g: "g \<le> MAX_LARGE_GENERATION" "bit g i" and "\<not> i < 61"
  from g(1) have "unat g \<le> 2 ^ 61 - 1" unfolding word_le_nat_alt unat_max_generation .
  then have "unat g < 2 ^ 61" by (rule le_less_trans) simp
  then have "\<not> bit g i" using \<open>\<not> i < 61\<close> by (intro not_bit_above [where n = 61]) simp_all
  with g(2) show False by simp
qed

lemma phase_code_bits: "bit (phase_code ph) i \<Longrightarrow> i < 3"
proof (rule ccontr)
  assume b: "bit (phase_code ph) i" and "\<not> i < 3"
  have "unat (phase_code ph) < 2 ^ 3" by (cases ph) simp_all
  then have "\<not> bit (phase_code ph) i" using \<open>\<not> i < 3\<close> by (intro not_bit_above [where n = 3]) simp_all
  with b show False by simp
qed

lemma low_mask: "push_bit PHASE_BITS 1 - 1 = (mask 3 :: u64)"
  by (simp add: PHASE_BITS_def mask_eq_exp_minus_1)

definition packed_word :: "large_phase_t \<Rightarrow> u64 \<Rightarrow> u64" where
  "packed_word ph g = push_bit 3 g OR phase_code ph"

lemma pack_large_state_eq: "g \<le> MAX_LARGE_GENERATION \<Longrightarrow> pack_large_state ph g = Inr (packed_word ph g)"
  by (simp add: pack_large_state_def packed_word_def PHASE_BITS_def)

lemma pack_large_state_abort: "MAX_LARGE_GENERATION < g \<Longrightarrow> \<exists>e. pack_large_state ph g = Inl e"
  by (simp add: pack_large_state_def)

lemma pack_generation: "g \<le> MAX_LARGE_GENERATION \<Longrightarrow> large_generation (packed_word ph g) = g"
  by (rule bit_word_eqI)
     (auto simp: large_generation_def packed_word_def PHASE_BITS_def bit_simps simp del: push_bit_numeral
       dest: phase_code_bits small_generation_bits)

lemma pack_low: "packed_word ph g AND mask 3 = phase_code ph"
  by (rule bit_word_eqI)
     (auto simp: packed_word_def bit_simps simp del: push_bit_numeral mask_numeral dest: phase_code_bits)

lemma phase_code_inj: "phase_code ph = phase_code ph' \<longleftrightarrow> ph = ph'"
  by (cases ph; cases ph') simp_all

lemma pack_phase: "large_phase (packed_word ph g) = Some ph"
  unfolding large_phase_def low_mask pack_low by (cases ph) simp_all

lemma phase_word: "large_phase w = Some ph \<longleftrightarrow> w AND mask 3 = phase_code ph"
  unfolding large_phase_def low_mask by (cases ph) (auto simp: Let_def)

lemma pack_split: "large_phase w = Some ph \<Longrightarrow> packed_word ph (large_generation w) = w"
  unfolding phase_word packed_word_def large_generation_def PHASE_BITS_def
proof (rule bit_word_eqI)
  fix n assume w: "w AND mask 3 = phase_code ph" and "n < LENGTH(64)"
  have "bit (phase_code ph) n \<longleftrightarrow> bit w n \<and> n < 3"
    unfolding w [symmetric] by (auto simp: bit_simps simp del: mask_numeral)
  then show "bit (push_bit 3 (drop_bit 3 w) OR phase_code ph) n \<longleftrightarrow> bit w n"
    using \<open>n < LENGTH(64)\<close> by (auto simp: bit_simps simp del: push_bit_numeral)
qed

lemma pack_eq_iff:
  "g \<le> MAX_LARGE_GENERATION \<Longrightarrow> w = packed_word ph g \<longleftrightarrow> large_phase w = Some ph \<and> large_generation w = g"
  using pack_phase pack_generation pack_split by auto

subsection \<open>What the operations do\<close>

lemma transition_eq:
  assumes "g \<le> MAX_LARGE_GENERATION"
  shows "transition g a b w =
    Inr (if large_phase w = Some a \<and> large_generation w = g then (True, packed_word b g) else (False, w))"
  using pack_eq_iff [OF assms, of w a]
  by (simp add: transition_def pack_large_state_eq [OF assms] cas_def)

lemma transition_abort: "MAX_LARGE_GENERATION < g \<Longrightarrow> \<exists>e. transition g a b w = Inl e"
  by (simp add: transition_def pack_large_state_def)

lemma transition_cases:
  "transition g a b w = Inr (ok, w') \<Longrightarrow> g \<le> MAX_LARGE_GENERATION \<and>
     (if large_phase w = Some a \<and> large_generation w = g then ok \<and> w' = packed_word b g else \<not> ok \<and> w' = w)"
  using transition_abort [of g a b w] transition_eq [of g a b w]
  by (cases "g \<le> MAX_LARGE_GENERATION") (auto split: if_splits simp: not_le)

lemma claim_cas_eq:
  "claim_cas obs w = Inr (if w = obs then (Some (large_generation obs), packed_word PhConsuming (large_generation obs))
     else (None, w))"
  by (simp add: claim_cas_def pack_large_state_eq [OF generation_small] cas_def)

lemma next_generation_Some:
  "next_large_generation g = Some n \<Longrightarrow> g < MAX_LARGE_GENERATION \<and> n = g + 1
     \<and> n \<le> MAX_LARGE_GENERATION \<and> unat n = Suc (unat g)"
proof -
  assume n: "next_large_generation g = Some n"
  then have g: "g < MAX_LARGE_GENERATION" and ng: "n = g + 1"
    by (auto simp: next_large_generation_def next_large_generation_bounded_def split: if_splits)
  have "unat g < unat MAX_LARGE_GENERATION" using g by (simp add: word_less_nat_alt)
  moreover have "unat MAX_LARGE_GENERATION < 2 ^ 61" unfolding unat_max_generation by simp
  ultimately have u: "unat n = Suc (unat g)" unfolding ng by (simp add: unat_word_ariths)
  then have "n \<le> MAX_LARGE_GENERATION" using g by (simp add: word_le_nat_alt word_less_nat_alt)
  with g ng u show ?thesis by blast
qed

lemma reuse_cas_eq:
  "reuse_cas obs w = Inr (case next_large_generation (large_generation obs) of
       None \<Rightarrow> (None, w)
     | Some n \<Rightarrow> if w = obs then (Some n, packed_word PhInitializing n) else (None, w))"
  by (auto simp: reuse_cas_def cas_def pack_large_state_eq split: option.splits
      dest!: next_generation_Some)

subsection \<open>Threads sharing one word\<close>

text \<open>
  One atomic access per step.  Any thread may publish for any generation (a producer with a
  stale route included) or evict; a claim and a reuse load the word and swap it later; the
  thread whose swap succeeded holds the reservation until it caches or releases it, the one
  whose reuse succeeded renews it until it finishes or rolls back.  \<open>claims\<close>
  records the generations claimed so far.
\<close>

datatype claimant = Away | ClaimLoaded u64 | Holding u64 | ReuseLoaded u64 | Renewing u64

record large_sys =
  word_of :: u64
  claimant_of :: "nat \<Rightarrow> claimant"
  claims :: "u64 list"

definition large_move :: "large_sys \<Rightarrow> u64 \<Rightarrow> nat \<Rightarrow> claimant \<Rightarrow> large_sys" where
  "large_move s w t c = s\<lparr>word_of := w, claimant_of := (claimant_of s)(t := c)\<rparr>"

inductive large_step :: "large_sys \<Rightarrow> large_sys \<Rightarrow> bool" where
  step_publish: "publish_pending g (word_of s) = Inr (ok, w) \<Longrightarrow> large_step s (s\<lparr>word_of := w\<rparr>)"
| step_evict: "release_cached g (word_of s) = Inr (ok, w) \<Longrightarrow> large_step s (s\<lparr>word_of := w\<rparr>)"
| step_load: "claimant_of s t = Away \<Longrightarrow> ph \<in> {PhPending, PhLive}
    \<Longrightarrow> observe ph (word_of s) = Some obs
    \<Longrightarrow> large_step s (large_move s (word_of s) t (ClaimLoaded obs))"
| step_claim: "claimant_of s t = ClaimLoaded obs \<Longrightarrow> claim_cas obs (word_of s) = Inr (Some g, w)
    \<Longrightarrow> large_step s (large_move s w t (Holding g)\<lparr>claims := g # claims s\<rparr>)"
| step_claim_lost: "claimant_of s t = ClaimLoaded obs \<Longrightarrow> claim_cas obs (word_of s) = Inr (None, w)
    \<Longrightarrow> large_step s (large_move s w t Away)"
| step_cache: "claimant_of s t = Holding g \<Longrightarrow> cache_consumed g (word_of s) = Inr (ok, w)
    \<Longrightarrow> large_step s (large_move s w t Away)"
| step_release: "claimant_of s t = Holding g \<Longrightarrow> release_consumed g (word_of s) = Inr (ok, w)
    \<Longrightarrow> large_step s (large_move s w t Away)"
| step_reuse_load: "claimant_of s t = Away \<Longrightarrow> observe PhCached (word_of s) = Some obs
    \<Longrightarrow> large_step s (large_move s (word_of s) t (ReuseLoaded obs))"
| step_reuse: "claimant_of s t = ReuseLoaded obs \<Longrightarrow> reuse_cas obs (word_of s) = Inr (Some g, w)
    \<Longrightarrow> large_step s (large_move s w t (Renewing g))"
| step_reuse_lost: "claimant_of s t = ReuseLoaded obs \<Longrightarrow> reuse_cas obs (word_of s) = Inr (None, w)
    \<Longrightarrow> large_step s (large_move s w t Away)"
| step_finish: "claimant_of s t = Renewing g \<Longrightarrow> finish_reuse g (word_of s) = Inr (ok, w)
    \<Longrightarrow> large_step s (large_move s w t Away)"
| step_rollback: "claimant_of s t = Renewing g \<Longrightarrow> release_initializing g (word_of s) = Inr (ok, w)
    \<Longrightarrow> large_step s (large_move s w t Away)"

inductive_cases large_stepE: "large_step s s'"

definition large_start :: "large_sys \<Rightarrow> bool" where
  "large_start s \<longleftrightarrow> (\<exists>tw. init_large_terminal = Inr tw \<and> word_of s = large_word tw)
     \<and> (\<forall>t. claimant_of s t = Away) \<and> claims s = []"

text \<open>
  The invariant: the word shows the phase and generation of the thread that holds or renews,
  that thread is alone, a loaded word was in the phase that was asked for, and the claims are
  distinct and of past generations.
\<close>

definition in_phase :: "u64 \<Rightarrow> large_phase_t \<Rightarrow> u64 \<Rightarrow> bool" where
  "in_phase w ph g \<longleftrightarrow> large_phase w = Some ph \<and> large_generation w = g"

primrec role_ok :: "u64 \<Rightarrow> claimant \<Rightarrow> bool" where
  "role_ok w Away = True"
| "role_ok w (ClaimLoaded obs) = (large_phase obs \<in> {Some PhLive, Some PhPending})"
| "role_ok w (Holding g) = in_phase w PhConsuming g"
| "role_ok w (ReuseLoaded obs) = (large_phase obs = Some PhCached)"
| "role_ok w (Renewing g) = in_phase w PhInitializing g"

primrec in_charge :: "claimant \<Rightarrow> bool" where
  "in_charge Away = False"
| "in_charge (ClaimLoaded obs) = False"
| "in_charge (Holding g) = True"
| "in_charge (ReuseLoaded obs) = False"
| "in_charge (Renewing g) = True"

definition ledger_ok :: "u64 \<Rightarrow> u64 list \<Rightarrow> bool" where
  "ledger_ok w cs \<longleftrightarrow> distinct cs \<and> (\<forall>g \<in> set cs. g \<le> large_generation w)
     \<and> (large_generation w \<in> set cs
        \<longrightarrow> large_phase w \<in> {Some PhConsuming, Some PhCached, Some PhReleased})"

definition large_good :: "large_sys \<Rightarrow> bool" where
  "large_good s \<longleftrightarrow> (\<forall>t. role_ok (word_of s) (claimant_of s t))
     \<and> (\<forall>t u. in_charge (claimant_of s t) \<and> in_charge (claimant_of s u) \<longrightarrow> t = u)
     \<and> ledger_ok (word_of s) (claims s)"

lemma observe_Some: "observe ph w = Some obs \<longleftrightarrow> obs = w \<and> large_phase w = Some ph"
  by (auto simp: observe_def)

lemma large_start_good: "large_start s \<Longrightarrow> large_good s"
  by (auto simp: large_start_def large_good_def ledger_ok_def)

lemmas large_ops = publish_pending_def release_cached_def cache_consumed_def release_consumed_def
  finish_reuse_def release_initializing_def

text \<open>A step taken by \<open>transition\<close> leaves the word or moves it on at the same generation.\<close>

lemma transition_view:
  assumes "transition g a b w = Inr (ok, w')"
  shows "large_generation w' = large_generation w
    \<and> (w' = w \<and> \<not> ok \<and> \<not> (large_phase w = Some a \<and> large_generation w = g)
       \<or> large_phase w = Some a \<and> large_generation w = g \<and> large_phase w' = Some b \<and> ok)"
  using transition_cases [OF assms] by (auto split: if_splits simp: pack_generation pack_phase)

text \<open>Who is in charge shows in the word, and a role out of charge does not depend on it.\<close>

lemma in_charge_phase:
  "role_ok w c \<Longrightarrow> in_charge c \<Longrightarrow> large_phase w \<in> {Some PhConsuming, Some PhInitializing}"
  by (cases c) (auto simp: in_phase_def)

lemma role_ok_idle: "\<not> in_charge c \<Longrightarrow> role_ok w c = role_ok w' c"
  by (cases c) auto

lemma large_good_nobody:
  assumes "large_good s" and "large_phase (word_of s) \<notin> {Some PhConsuming, Some PhInitializing}"
  shows "\<not> in_charge (claimant_of s t)"
  using assms in_charge_phase unfolding large_good_def by blast

text \<open>A thread changes its role and the word; nobody else was in charge.\<close>

lemma large_good_move:
  assumes good: "large_good s" and alone: "\<And>u. u \<noteq> t \<Longrightarrow> \<not> in_charge (claimant_of s u)"
    and "role_ok w c" and "ledger_ok w cs"
  shows "large_good (large_move s w t c\<lparr>claims := cs\<rparr>)"
proof -
  have "role_ok w (claimant_of s u)" if "u \<noteq> t" for u
    using good role_ok_idle [OF alone [OF that]] unfolding large_good_def by blast
  then show ?thesis using assms by (auto simp: large_good_def large_move_def)
qed

lemma large_good_charge: "large_good s \<Longrightarrow> in_charge (claimant_of s t) \<Longrightarrow> u \<noteq> t \<Longrightarrow> \<not> in_charge (claimant_of s u)"
  unfolding large_good_def by blast

lemma large_good_word:
  assumes "large_good s" and "large_phase (word_of s) \<notin> {Some PhConsuming, Some PhInitializing}"
    and "ledger_ok w (claims s)"
  shows "large_good (s\<lparr>word_of := w\<rparr>)"
  using assms large_good_nobody [OF assms(1,2)] role_ok_idle [of _ w "word_of s"]
  unfolding large_good_def by auto

lemma ledger_move:
  assumes "ledger_ok w cs" and "transition g a b w = Inr (ok, w')"
    and "a = PhLive \<and> b = PhPending \<or> b \<in> {PhCached, PhReleased} \<or> a = PhInitializing \<and> b = PhLive"
  shows "ledger_ok w' cs"
  using assms(1,3) transition_view [OF assms(2)] by (auto simp: ledger_ok_def)

text \<open>A thread in charge ends its turn: its swap succeeds and the invariant holds on.\<close>

lemma large_good_leave:
  assumes good: "large_good s"
    and tr: "transition g a b (word_of s) = Inr (ok, w)"
    and c: "claimant_of s t = Holding g \<and> a = PhConsuming \<and> b \<in> {PhCached, PhReleased}
      \<or> claimant_of s t = Renewing g \<and> a = PhInitializing \<and> b \<in> {PhLive, PhReleased}"
  shows "large_good (large_move s w t Away)"
proof -
  have "in_charge (claimant_of s t)" using c by auto
  from large_good_charge [OF good this] have alone: "\<And>u. u \<noteq> t \<Longrightarrow> \<not> in_charge (claimant_of s u)" .
  have "ledger_ok w (claims s)"
    using good c by (intro ledger_move [OF _ tr]) (auto simp: large_good_def)
  from large_good_move [OF good alone _ this, of t Away] show ?thesis
    by (simp add: large_move_def)
qed

text \<open>A thread out of charge looks at the word and leaves it.\<close>

lemma large_good_look:
  assumes good: "large_good s" and "\<not> in_charge (claimant_of s t)" and "\<not> in_charge c"
    and "role_ok (word_of s) c"
  shows "large_good (large_move s (word_of s) t c)"
  using assms by (auto simp: large_good_def large_move_def)

lemma claim_cas_view:
  "claim_cas obs w = Inr (Some g, w') \<Longrightarrow> w = obs \<and> g = large_generation obs \<and> in_phase w' PhConsuming g"
  "claim_cas obs w = Inr (None, w') \<Longrightarrow> w' = w"
  by (auto simp: claim_cas_eq in_phase_def pack_phase pack_generation [OF generation_small] split: if_splits)

lemma reuse_cas_view:
  "reuse_cas obs w = Inr (Some g, w') \<Longrightarrow> w = obs \<and> in_phase w' PhInitializing g \<and> large_generation obs < g"
  "reuse_cas obs w = Inr (None, w') \<Longrightarrow> w' = w"
  by (auto simp: reuse_cas_eq in_phase_def pack_phase pack_generation word_less_nat_alt
      split: option.splits if_splits dest!: next_generation_Some)

lemma large_good_claim:
  assumes good: "large_good s" and t: "claimant_of s t = ClaimLoaded obs"
    and c: "claim_cas obs (word_of s) = Inr (Some g, w)"
  shows "large_good (large_move s w t (Holding g)\<lparr>claims := g # claims s\<rparr>)"
proof -
  from claim_cas_view(1) [OF c] have obs: "word_of s = obs" "g = large_generation obs"
    and w: "in_phase w PhConsuming g" by auto
  have ph: "large_phase obs \<in> {Some PhLive, Some PhPending}"
    using good t unfolding large_good_def by (metis role_ok.simps(2))
  have "ledger_ok obs (claims s)" using good obs by (simp add: large_good_def)
  with ph w obs have "ledger_ok w (g # claims s)" by (auto simp: ledger_ok_def in_phase_def)
  moreover have "\<not> in_charge (claimant_of s u)" for u
    by (rule large_good_nobody [OF good]) (use ph obs in auto)
  ultimately show ?thesis using w by (intro large_good_move [OF good]) auto
qed

lemma large_good_reuse:
  assumes good: "large_good s" and t: "claimant_of s t = ReuseLoaded obs"
    and c: "reuse_cas obs (word_of s) = Inr (Some g, w)"
  shows "large_good (large_move s w t (Renewing g))"
proof -
  from reuse_cas_view(1) [OF c] have obs: "word_of s = obs" "large_generation obs < g"
    and w: "in_phase w PhInitializing g" by auto
  have ph: "large_phase obs = Some PhCached"
    using good t unfolding large_good_def by (metis role_ok.simps(4))
  have "ledger_ok obs (claims s)" using good obs by (simp add: large_good_def)
  then have "ledger_ok w (claims s)" using w obs(2) by (fastforce simp: ledger_ok_def in_phase_def)
  moreover have "\<not> in_charge (claimant_of s u)" for u
    by (rule large_good_nobody [OF good]) (use ph obs in auto)
  ultimately have "large_good (large_move s w t (Renewing g)\<lparr>claims := claims s\<rparr>)"
    using w by (intro large_good_move [OF good]) auto
  then show ?thesis by (simp add: large_move_def)
qed

lemma large_good_free_swap:
  assumes good: "large_good s" and tr: "transition g a b (word_of s) = Inr (ok, w)"
    and ab: "a = PhLive \<and> b = PhPending \<or> a = PhCached \<and> b = PhReleased"
  shows "large_good (s\<lparr>word_of := w\<rparr>)"
proof (cases ok)
  case True
  then have "large_phase (word_of s) = Some a" using transition_view [OF tr] by auto
  moreover have "ledger_ok w (claims s)"
    using good ab by (intro ledger_move [OF _ tr]) (auto simp: large_good_def)
  ultimately show ?thesis using ab by (intro large_good_word [OF good]) auto
next
  case False
  then have "w = word_of s" using transition_view [OF tr] by auto
  then show ?thesis using good by simp
qed

lemma large_step_good: "large_good s \<Longrightarrow> large_step s s' \<Longrightarrow> large_good s'"
proof (erule large_stepE, goal_cases)
  case (3 t ph obs)
  then show ?case by (auto simp: observe_Some intro!: large_good_look)
next
  case (5 t obs w)
  then show ?case by (auto intro!: large_good_look dest!: claim_cas_view(2))
next
  case (8 t obs)
  then show ?case by (auto simp: observe_Some intro!: large_good_look)
next
  case (10 t obs w)
  then show ?case by (auto intro!: large_good_look dest!: reuse_cas_view(2))
qed (auto simp: large_ops intro: large_good_free_swap large_good_leave large_good_claim large_good_reuse)

text \<open>The generation never goes back.\<close>

lemma large_step_rank:
  "large_good s \<Longrightarrow> large_step s s' \<Longrightarrow> unat (large_generation (word_of s)) \<le> unat (large_generation (word_of s'))"
  by (erule large_stepE)
     (auto simp: large_ops large_move_def in_phase_def word_less_nat_alt
       dest!: transition_view claim_cas_view reuse_cas_view)

interpretation large_life: ranked_system large_start large_step large_good
    "\<lambda>s. unat (large_generation (word_of s))"
  by unfold_locales (fact large_start_good large_step_good large_step_rank)+

text \<open>The claims only grow, so a claimed generation stays past publishing.\<close>

lemma large_claims_grow: "large_step\<^sup>*\<^sup>* s s' \<Longrightarrow> set (claims s) \<subseteq> set (claims s')"
  by (induction rule: rtranclp_induct) (auto elim!: large_stepE simp: large_move_def)

lemma reachable_run: "reachable start step s \<Longrightarrow> step\<^sup>*\<^sup>* s s' \<Longrightarrow> reachable start step s'"
  by (rotate_tac 1, induction rule: rtranclp_induct) (auto intro: reach_step)

text \<open>A run: a fresh reservation is loaded, claimed, cached, renewed and live again.\<close>

definition life0 :: large_sys where
  "life0 = \<lparr>word_of = 10, claimant_of = (\<lambda>t. Away), claims = []\<rparr>"
definition life1 :: large_sys where "life1 = large_move life0 10 7 (ClaimLoaded 10)"
definition life2 :: large_sys where "life2 = large_move life1 12 7 (Holding 1)\<lparr>claims := [1]\<rparr>"
definition life3 :: large_sys where "life3 = large_move life2 13 7 Away"

lemma life_reachable:
  "reachable large_start large_step life2" "large_step life2 life3"
proof -
  have "(1::u64) \<le> MAX_LARGE_GENERATION" by (simp add: max_generation mask_eq_exp_minus_1)
  then have "large_start life0"
    by (simp add: large_start_def life0_def init_large_terminal_def init_terminal_def
        pack_large_state_eq packed_word_def)
  then have r0: "reachable large_start large_step life0" by (rule reach_start)
  have "large_step life0 life1"
    unfolding life1_def using step_load [of life0 7 PhLive 10]
    by (simp add: life0_def observe_Some phase_word mask_eq_exp_minus_1)
  with r0 have r1: "reachable large_start large_step life1" by (rule reach_step)
  have "large_step life1 life2"
    unfolding life2_def using step_claim [of life1 7 10 1 12]
    by (simp add: life1_def life0_def large_move_def claim_cas_eq large_generation_def PHASE_BITS_def packed_word_def)
  with r1 show "reachable large_start large_step life2" by (rule reach_step)
  show "large_step life2 life3"
    unfolding life3_def
    by (rule step_cache [of life2 7 1 True 13])
      (simp_all add: life2_def life1_def life0_def large_move_def cache_consumed_def transition_eq
        max_generation phase_word large_generation_def PHASE_BITS_def packed_word_def mask_eq_exp_minus_1)
qed

subsection \<open>Properties\<close>

text \<open>C20: A packed word gives back its phase and generation, distinct pairs packed_word to distinct
  words, every word with a known phase is the packing of its parts, and packing a generation
  above the bound panics.\<close>

theorem large_word_roundtrip:
  "(if g \<le> MAX_LARGE_GENERATION
    then \<exists>w. pack_large_state ph g = Inr w \<and> large_phase w = Some ph \<and> large_generation w = g
    else \<exists>e. pack_large_state ph g = Inl e)
   \<and> (case large_phase v of None \<Rightarrow> True
      | Some p \<Rightarrow> pack_large_state p (large_generation v) = Inr v)"
  by (auto simp: pack_large_state_eq pack_large_state_abort generation_small pack_split pack_phase
      pack_generation not_le split: option.split)

text \<open>C21: However publications, claims, evictions, caching and reuse of any number of threads
  interleave, no generation of a large reservation is claimed twice: there is no double
  free.\<close>

theorem large_claimed_once:
  assumes "reachable large_start large_step s"
  shows "distinct (claims s)"
  using large_life.reachable_good [OF assms] by (simp add: large_good_def ledger_ok_def)

text \<open>The thread that claimed a reservation is alone in charge of it, and whichever way it
  ends its turn, caching or releasing, its swap succeeds, whatever the other threads did in
  between.\<close>

theorem large_holder_completes:
  assumes "reachable large_start large_step s" and "claimant_of s t = Holding g"
  shows "(\<forall>u. u \<noteq> t \<longrightarrow> \<not> in_charge (claimant_of s u))
    \<and> (\<exists>w. cache_consumed g (word_of s) = Inr (True, w) \<and> large_phase w = Some PhCached)
    \<and> (\<exists>w. release_consumed g (word_of s) = Inr (True, w) \<and> large_phase w = Some PhReleased)"
proof -
  from large_life.reachable_good [OF assms(1)] have good: "large_good s" .
  then have w: "in_phase (word_of s) PhConsuming g"
    using assms(2) unfolding large_good_def by (metis role_ok.simps(3))
  then have "g \<le> MAX_LARGE_GENERATION" using generation_small by (auto simp: in_phase_def)
  then show ?thesis using w large_good_charge [OF good, of t] assms(2)
    by (auto simp: large_ops transition_eq in_phase_def pack_phase)
qed

text \<open>A generation that was claimed can never be published again: a producer that frees a
  large block twice, or through a stale route, finds its swap refused and the word unchanged, at
  any later moment.\<close>

theorem large_no_republish:
  assumes "reachable large_start large_step s" and "large_step\<^sup>*\<^sup>* s s'" and "g \<in> set (claims s)"
  shows "publish_pending g (word_of s') = Inr (False, word_of s')
    \<and> unat (large_generation (word_of s)) \<le> unat (large_generation (word_of s'))"
proof -
  have good: "large_good s" by (rule large_life.reachable_good [OF assms(1)])
  have "large_good s'" by (rule large_life.run_good [OF assms(2) good])
  moreover have "g \<in> set (claims s')" using large_claims_grow [OF assms(2)] assms(3) by blast
  ultimately have late: "g \<le> large_generation (word_of s')" "\<not> in_phase (word_of s') PhLive g"
    by (auto simp: large_good_def ledger_ok_def in_phase_def)
  from late(1) have "g \<le> MAX_LARGE_GENERATION" using generation_small by (rule order.trans)
  then show ?thesis using large_life.run_rank [OF assms(2) good] late(2)
    by (simp add: publish_pending_def transition_eq in_phase_def)
qed

lemma large_claimed_once_witness: "claims life2 = [1] \<and> distinct (claims life2)"
  using large_claimed_once [OF life_reachable(1)] by (simp add: life2_def large_move_def)

lemma large_holder_completes_witness:
  "claimant_of life2 7 = Holding 1 \<and> (\<exists>w. cache_consumed 1 (word_of life2) = Inr (True, w))"
proof -
  have "claimant_of life2 7 = Holding 1" by (simp add: life2_def large_move_def)
  then show ?thesis using large_holder_completes [OF life_reachable(1)] by blast
qed

lemma large_no_republish_witness: "publish_pending 1 (word_of life3) = Inr (False, word_of life3)"
proof -
  have "(1::u64) \<in> set (claims life2)" by (simp add: life2_def)
  moreover have "large_step\<^sup>*\<^sup>* life2 life3" using life_reachable(2) by blast
  ultimately show ?thesis using large_no_republish [OF life_reachable(1)] by blast
qed

end
