(* ===== verification/BitLoops.thy ===== *)
theory BitLoops
  imports Prelude
begin

text \<open>
  The loop the sources run over an occupancy word,
  \<open>while bits != 0 { let i = bits.trailing_zeros(); bits &= bits - 1; ... }\<close>,
  with a body that may break, and \<open>u64::trailing_ones\<close>.
\<close>

subsection \<open>Clearing the lowest set bit\<close>

lemma and_pred_even: "(2 * m) AND (2 * m - Suc 0) = 2 * (m AND (m - Suc 0))"
  by (cases m) (simp_all add: and_rec [of "Suc (Suc _)"])

lemma bit_trailing_zeros:
  fixes n :: nat
  assumes "n \<noteq> 0"
  shows "bit n (trailing_zeros n) \<and> (\<forall>j < trailing_zeros n. \<not> bit n j)
    \<and> (\<forall>j. bit (n AND (n - 1)) j \<longleftrightarrow> bit n j \<and> j \<noteq> trailing_zeros n)"
  using assms
proof (induction n rule: trailing_zeros.induct)
  case (1 n)
  show ?case
  proof (cases "odd n")
    case True
    then obtain m where n: "n = 2 * m + 1" by (blast elim: oddE)
    have "n AND (n - 1) = 2 * m" using n by (simp add: and_rec [of "Suc _"])
    moreover have "bit (2 * m) j \<longleftrightarrow> bit n j \<and> j \<noteq> 0" for j
      using n by (cases j) (simp_all add: bit_0 bit_Suc)
    ultimately show ?thesis using 1(2) True by (simp add: trailing_zeros.simps bit_0)
  next
    case False
    then obtain m where n: "n = 2 * m" by (blast elim: evenE)
    with 1(2) have "m \<noteq> 0" by simp
    have tz: "trailing_zeros n = Suc (trailing_zeros m)"
      using False 1(2) unfolding n by (subst trailing_zeros.simps) simp
    have dv: "n div 2 = m" using n by simp
    from 1(1) [OF 1(2) False, unfolded dv, OF \<open>m \<noteq> 0\<close>]
    have m: "bit m (trailing_zeros m)" "\<forall>j < trailing_zeros m. \<not> bit m j"
      "\<forall>j. bit (m AND (m - 1)) j \<longleftrightarrow> bit m j \<and> j \<noteq> trailing_zeros m" by auto
    have dbl: "bit (2 * k) j \<longleftrightarrow> (case j of 0 \<Rightarrow> False | Suc i \<Rightarrow> bit k i)" for k j :: nat
      by (cases j) (simp_all add: bit_0 bit_Suc)
    have e: "n AND (n - 1) = 2 * (m AND (m - 1))" using n and_pred_even [of m] by simp
    show ?thesis unfolding e unfolding n tz [unfolded n]
      using m by (auto simp: dbl split: nat.split)
  qed
qed

definition word_tz :: "u64 \<Rightarrow> nat" where
  "word_tz w = trailing_zeros (unat w)"

lemma unat_pred: "w \<noteq> 0 \<Longrightarrow> unat (w - 1 :: 'a::len word) = unat w - 1"
  by (simp add: unat_minus_one)

lemma word_tz:
  assumes "w \<noteq> 0"
  shows "word_tz w < 64" "bit w (word_tz w)" "j < word_tz w \<Longrightarrow> \<not> bit w j"
    "bit (w AND (w - 1)) j \<longleftrightarrow> bit w j \<and> j \<noteq> word_tz w"
proof -
  have b: "bit v j \<longleftrightarrow> bit (unat v) j" for v :: u64 and j by (simp add: bit_unsigned_iff)
  have "unat w \<noteq> 0" using assms by (simp add: unat_eq_0)
  from bit_trailing_zeros [OF this]
  show t: "bit w (word_tz w)" and "j < word_tz w \<Longrightarrow> \<not> bit w j"
    and "bit (w AND (w - 1)) j \<longleftrightarrow> bit w j \<and> j \<noteq> word_tz w"
    by (simp_all add: b word_tz_def unsigned_and_eq unat_pred assms)
  show "word_tz w < 64" using bit_imp_le_length [OF t] by simp
qed

lemma clear_lowest_less: "w \<noteq> 0 \<Longrightarrow> unat (w AND (w - 1)) < unat (w :: u64)"
proof -
  assume w: "w \<noteq> 0"
  have "w AND (w - 1) \<le> w - 1" by (rule word_and_le1)
  then have "unat (w AND (w - 1)) \<le> unat w - 1" using unat_pred [OF w] by (simp add: word_le_nat_alt)
  moreover have "unat w \<noteq> 0" using w by (simp add: unat_eq_0)
  ultimately show ?thesis by linarith
qed

subsection \<open>The loop\<close>

text \<open>The body returns the loop variables and whether it breaks.\<close>

function bit_loop :: "(nat \<Rightarrow> 'a \<Rightarrow> 'a \<times> bool) \<Rightarrow> u64 \<Rightarrow> 'a \<Rightarrow> 'a" where
  "bit_loop body w acc =
     (if w = 0 then acc
      else let (acc', stop) = body (word_tz w) acc in
        if stop then acc' else bit_loop body (w AND (w - 1)) acc')"
  by auto
termination
  by (relation "measure (\<lambda>(_, w, _). unat w)") (auto simp: clear_lowest_less)

declare bit_loop.simps [simp del]

fun visit :: "(nat \<Rightarrow> 'a \<Rightarrow> 'a \<times> bool) \<Rightarrow> nat list \<Rightarrow> 'a \<Rightarrow> 'a" where
  "visit body [] acc = acc"
| "visit body (i # is) acc = (let (acc', stop) = body i acc in if stop then acc' else visit body is acc')"

definition set_bits_of :: "u64 \<Rightarrow> nat list" where
  "set_bits_of w = filter (bit w) [0..<64]"

lemma set_set_bits_of [simp]: "set (set_bits_of w) = {i. bit w i}"
  by (auto simp: set_bits_of_def dest: bit_imp_le_length)

lemma filter_upt_first:
  "k < n \<Longrightarrow> P k \<Longrightarrow> (\<And>j. j < k \<Longrightarrow> \<not> P j) \<Longrightarrow> (\<And>j. Q j \<longleftrightarrow> P j \<and> j \<noteq> k)
   \<Longrightarrow> filter P [0..<n] = k # filter Q [0..<n]"
proof -
  assume k: "k < n" "P k" "\<And>j. j < k \<Longrightarrow> \<not> P j" and Q: "\<And>j. Q j \<longleftrightarrow> P j \<and> j \<noteq> k"
  have e: "[0..<n] = [0..<k] @ k # [Suc k..<n]"
    using k(1) by (metis upt_conv_Cons le_add_diff_inverse less_imp_le upt_add_eq_append zero_le)
  have "filter P [0..<k] = []" "filter Q [0..<k] = []" using k(3) Q by (auto simp: filter_empty_conv)
  moreover have "filter P [Suc k..<n] = filter Q [Suc k..<n]"
    by (rule filter_cong) (auto simp: Q)
  ultimately show ?thesis unfolding e using k(2) Q by simp
qed

lemma set_bits_of_step: "w \<noteq> 0 \<Longrightarrow> set_bits_of w = word_tz w # set_bits_of (w AND (w - 1))"
  unfolding set_bits_of_def by (rule filter_upt_first) (use word_tz [of w] in auto)

lemma set_bits_of_0 [simp]: "set_bits_of 0 = []"
  by (simp add: set_bits_of_def)

text \<open>The loop visits the set bits in increasing order.\<close>

lemma bit_loop_visit: "bit_loop body w acc = visit body (set_bits_of w) acc"
proof (induction body w acc rule: bit_loop.induct)
  case (1 body w acc)
  show ?case
  proof (cases "w = 0")
    case False
    with 1 show ?thesis
      by (subst bit_loop.simps) (simp add: set_bits_of_step [OF False] split: prod.split)
  qed (simp add: bit_loop.simps)
qed

subsection \<open>Trailing ones\<close>

fun ones_from :: "nat \<Rightarrow> nat" where
  "ones_from n = (if n = 0 \<or> even n then 0 else Suc (ones_from (n div 2)))"

declare ones_from.simps [simp del]

definition trailing_ones :: "u64 \<Rightarrow> nat" where
  "trailing_ones w = ones_from (unat w)"

lemma ones_from_bits: "\<not> bit n (ones_from n) \<and> (\<forall>j < ones_from n. bit n j)"
proof (induction n rule: ones_from.induct)
  case (1 n)
  show ?case
  proof (cases "odd n")
    case True
    then have pos: "\<not> (n = 0 \<or> even n)" by (metis even_zero)
    show ?thesis using 1 [OF pos] pos
      by (subst (1 2) ones_from.simps) (auto simp: bit_Suc bit_0 less_Suc_eq_0_disj)
  qed (simp add: ones_from.simps bit_0)
qed

lemma trailing_ones_bits: "\<not> bit w (trailing_ones w)" "j < trailing_ones w \<Longrightarrow> bit w j"
  using ones_from_bits [of "unat w"] by (simp_all add: trailing_ones_def bit_unsigned_iff)

end
