(* ===== verification/LargeCache.thy ===== *)
theory LargeCache
  imports LargeState BitLoops Results
begin

text \<open>
  The cache of freed large reservations
  (\<open>src/alloc_core/large/alloc_core_large_cache.rs\<close>,
  \<open>alloc_core_large_cache_eviction.rs\<close>, the cache parts of
  \<open>alloc_core_large.rs\<close>): eight slots with an occupancy word, a byte budget, eviction
  of the oldest deposit, decay of the bytes above the headroom over time.  The build is the one
  without the extension and the adaptive policy, with overflow checks on.
\<close>

subsection \<open>State\<close>

definition LARGE_CACHE_SLOTS :: nat where "LARGE_CACHE_SLOTS = 8"
definition LARGE_CACHE_SIZE_FACTOR :: nat where "LARGE_CACHE_SIZE_FACTOR = 2"
definition DECAY_CLOCK_CHECK_STRIDE :: nat where "DECAY_CLOCK_CHECK_STRIDE = 64"
definition DECAY_CATCHUP_MAX_STEPS :: nat where "DECAY_CATCHUP_MAX_STEPS = 8"

record cached_large =
  cl_reservation :: nat
  cl_reservation_len :: nat
  cl_base :: nat
  cl_usable_size :: nat
  cl_reserved_capacity :: nat
  cl_seq :: u64

text \<open>Durations and instants are numbers of nanoseconds.\<close>

record decay_config =
  decay_rate_bp :: nat
  decay_interval :: nat
  headroom_bytes :: nat

text \<open>
  The fields of \<open>AllocCore\<close> the cache uses (the array of slots is a function, every
  access guards its index), with the large state word of the segment at
  each base and the reservations given back to the system, newest first.
\<close>

record cache_state =
  large_cache :: "nat \<Rightarrow> cached_large option"
  large_cache_occupied :: u64
  large_cache_budget_bytes :: "nat option"
  large_cache_used_bytes :: nat
  large_cache_seq :: u64
  decay_settings :: decay_config
  last_decay_tick :: "nat option"
  large_cache_decay_op_count :: u32
  state_word :: "nat \<Rightarrow> u64"
  os_released :: "(nat \<times> nat) list"

text \<open>Addition with an overflow check.\<close>

definition usize_add :: "nat \<Rightarrow> nat \<Rightarrow> fatal + nat" where
  "usize_add a b = (if usize_max < a + b then Inl ''attempt to add with overflow'' else Inr (a + b))"

subsection \<open>Slots\<close>

definition large_cache_scan_bound :: nat where "large_cache_scan_bound = LARGE_CACHE_SLOTS"

definition large_cache_slot_get :: "nat \<Rightarrow> cache_state \<Rightarrow> cached_large option" where
  "large_cache_slot_get idx c = (if idx < LARGE_CACHE_SLOTS then large_cache c idx else None)"

definition large_cache_slot_take :: "nat \<Rightarrow> cache_state \<Rightarrow> fatal + cached_large \<times> cache_state" where
  "large_cache_slot_take idx c =
     (if idx < LARGE_CACHE_SLOTS
      then case large_cache c idx of
          None \<Rightarrow> Inl ''large_cache_slot_take: empty base slot''
        | Some taken \<Rightarrow> Inr (taken, c\<lparr>large_cache := (large_cache c)(idx := None),
            large_cache_occupied := large_cache_occupied c AND NOT (push_bit idx 1)\<rparr>)
      else Inl ''large_cache_slot_take: idx out of base range with extension disabled'')"

definition large_cache_slot_set :: "nat \<Rightarrow> cached_large \<Rightarrow> cache_state \<Rightarrow> fatal + cache_state" where
  "large_cache_slot_set idx entry c =
     (if idx < LARGE_CACHE_SLOTS
      then Inr (c\<lparr>large_cache := (large_cache c)(idx \<mapsto> entry),
        large_cache_occupied := large_cache_occupied c OR push_bit idx 1\<rparr>)
      else Inl ''large_cache_slot_set: idx out of base range with extension disabled'')"

definition large_cache_occupied_within_bound :: "cache_state \<Rightarrow> u64" where
  "large_cache_occupied_within_bound c =
     (if large_cache_scan_bound < 64
      then large_cache_occupied c AND (push_bit large_cache_scan_bound 1 - 1)
      else large_cache_occupied c)"

definition large_cache_find_free_slot :: "cache_state \<Rightarrow> nat option" where
  "large_cache_find_free_slot c =
     (let base_free = trailing_ones (large_cache_occupied c)
      in if base_free < LARGE_CACHE_SLOTS then Some base_free else None)"

definition large_cache_deposit_budget_infeasible :: "nat \<Rightarrow> cache_state \<Rightarrow> bool" where
  "large_cache_deposit_budget_infeasible usable_size c =
     (case large_cache_budget_bytes c of None \<Rightarrow> False | Some budget \<Rightarrow> budget < usable_size)"

subsection \<open>Eviction\<close>

definition oldest_body :: "cache_state \<Rightarrow> nat \<Rightarrow> nat option \<times> u64 \<Rightarrow> (nat option \<times> u64) \<times> bool" where
  "oldest_body c i best =
     (case large_cache_slot_get i c of
        None \<Rightarrow> (best, False)
      | Some e \<Rightarrow> if cl_seq e < snd best then ((Some i, cl_seq e), cl_seq e = 0) else (best, False))"

definition oldest_occupied_slot :: "cache_state \<Rightarrow> nat option" where
  "oldest_occupied_slot c =
     fst (bit_loop (oldest_body c) (large_cache_occupied_within_bound c) (None, - 1))"

text \<open>Taking a victim out of its slot and giving its reservation back.\<close>

definition evict_victim :: "nat \<Rightarrow> cache_state \<Rightarrow> fatal + cached_large \<times> cache_state" where
  "evict_victim victim_idx c =
     rbind (large_cache_slot_take victim_idx c) (\<lambda>(victim, c1).
       let c2 = c1\<lparr>large_cache_used_bytes := large_cache_used_bytes c1 - cl_usable_size victim\<rparr>;
           base = cl_base victim;
           generation = large_generation (state_word c2 base)
       in rbind (release_cached generation (state_word c2 base)) (\<lambda>(ok, w).
            if \<not> ok then Inl ''large_cache_eviction: cached release failed''
            else Inr (victim, c2\<lparr>state_word := (state_word c2)(base := w),
              os_released := (cl_reservation victim, cl_reservation_len victim) # os_released c2\<rparr>)))"

definition evict_one_oldest :: "cache_state \<Rightarrow> fatal + bool \<times> cache_state" where
  "evict_one_oldest c =
     (case oldest_occupied_slot c of
        None \<Rightarrow> Inr (False, c)
      | Some victim_idx \<Rightarrow> rbind (evict_victim victim_idx c) (\<lambda>(_, c'). Inr (True, c')))"

definition evict_oldest_noting_gone :: "cache_state \<Rightarrow> fatal + bool \<times> cache_state" where
  "evict_oldest_noting_gone c = evict_one_oldest c"

text \<open>Every eviction empties a slot, so the loops below end.\<close>

definition entries :: "cache_state \<Rightarrow> nat" where
  "entries c = card {i. i < LARGE_CACHE_SLOTS \<and> large_cache c i \<noteq> None}"

lemma slot_take_Inr:
  "large_cache_slot_take idx c = Inr (v, c') \<Longrightarrow> idx < LARGE_CACHE_SLOTS \<and> large_cache c idx = Some v
   \<and> c' = c\<lparr>large_cache := (large_cache c)(idx := None),
        large_cache_occupied := large_cache_occupied c AND NOT (push_bit idx 1)\<rparr>"
  unfolding large_cache_slot_take_def by (simp split: if_splits option.splits)

lemma slot_take_entries:
  "large_cache_slot_take idx c = Inr (v, c') \<Longrightarrow> entries c = Suc (entries c')"
proof -
  assume t: "large_cache_slot_take idx c = Inr (v, c')"
  let ?S = "\<lambda>c. {i. i < LARGE_CACHE_SLOTS \<and> large_cache c i \<noteq> None}"
  from slot_take_Inr [OF t] have "idx \<in> ?S c" and "?S c' = ?S c - {idx}" by auto
  moreover have "finite (?S c)" by simp
  ultimately show ?thesis unfolding entries_def by (simp only: card.remove)
qed

lemma evict_victim_entries: "evict_victim i c = Inr (v, c') \<Longrightarrow> entries c' < entries c"
proof -
  assume e: "evict_victim i c = Inr (v, c')"
  then obtain c1 where t: "large_cache_slot_take i c = Inr (v, c1)" and l: "large_cache c' = large_cache c1"
    by (fastforce simp: evict_victim_def rbind_Inr_iff Let_def split: if_splits)
  have "entries c' = entries c1" by (simp add: entries_def l)
  then show ?thesis using slot_take_entries [OF t] by simp
qed

lemma evict_one_oldest_entries:
  "evict_one_oldest c = Inr (True, c') \<Longrightarrow> entries c' < entries c"
  by (auto simp: evict_one_oldest_def rbind_Inr_iff split: option.splits dest: evict_victim_entries)

function evict_at_least_loop :: "nat \<Rightarrow> nat \<Rightarrow> cache_state \<Rightarrow> fatal + cache_state" where
  "evict_at_least_loop min_bytes released c =
     (if min_bytes \<le> released then Inr c
      else case oldest_occupied_slot c of
          None \<Rightarrow> Inr c
        | Some victim_idx \<Rightarrow>
            rbind (evict_victim victim_idx c) (\<lambda>(victim, c').
            rbind (usize_add released (cl_usable_size victim)) (\<lambda>released'.
              evict_at_least_loop min_bytes released' c')))"
  by auto
termination
  by (relation "measure (\<lambda>(_, _, c). entries c)") (auto dest: evict_victim_entries)

definition evict_at_least :: "nat \<Rightarrow> cache_state \<Rightarrow> fatal + cache_state" where
  "evict_at_least min_bytes c = evict_at_least_loop min_bytes 0 c"

function evict_all_loop :: "cache_state \<Rightarrow> fatal + cache_state" where
  "evict_all_loop c = rbind (evict_one_oldest c) (\<lambda>(more, c').
     if more then evict_all_loop c' else Inr c')"
  by auto
termination
  by (relation "measure entries") (auto dest: evict_one_oldest_entries)

definition evict_all :: "cache_state \<Rightarrow> fatal + cache_state" where
  "evict_all c = rbind (evict_all_loop c) (\<lambda>c'.
     Inr (c'\<lparr>last_decay_tick := None, large_cache_decay_op_count := 0\<rparr>))"

declare evict_at_least_loop.simps [simp del] evict_all_loop.simps [simp del]

subsection \<open>Decay\<close>

definition run_decay_step :: "cache_state \<Rightarrow> fatal + cache_state" where
  "run_decay_step c =
     (let target = headroom_bytes (decay_settings c);
          excess = large_cache_used_bytes c - target
      in if excess = 0 then Inr c
         else let release = min (excess * decay_rate_bp (decay_settings c)) usize_max div 10000
              in if release = 0 then Inr c else evict_at_least release c)"

fun decay_steps :: "nat \<Rightarrow> cache_state \<Rightarrow> fatal + cache_state" where
  "decay_steps 0 c = Inr c"
| "decay_steps (Suc n) c = rbind (run_decay_step c) (decay_steps n)"

text \<open>The clock reading \<open>now\<close> is an argument.\<close>

definition decay_due :: "nat \<Rightarrow> nat \<Rightarrow> cache_state \<Rightarrow> fatal + cache_state" where
  "decay_due now elapsed c =
     (let interval = decay_interval (decay_settings c)
      in if elapsed < interval then Inr c
         else
           let (intervals_due, c1) =
                 (if interval = 0 then (1, c\<lparr>last_decay_tick := Some now\<rparr>)
                  else (min (elapsed div interval) DECAY_CATCHUP_MAX_STEPS, c))
           in rbind (decay_steps intervals_due c1) (\<lambda>c2.
                if interval = 0 then Inr c2
                else Inr (c2\<lparr>last_decay_tick :=
                  (if large_cache_used_bytes c2 \<le> headroom_bytes (decay_settings c2) then Some now
                   else map_option (\<lambda>t. t + interval * intervals_due) (last_decay_tick c2))\<rparr>)))"

definition maybe_decay_large_cache :: "nat \<Rightarrow> cache_state \<Rightarrow> fatal + cache_state" where
  "maybe_decay_large_cache now c =
     (if large_cache_used_bytes c \<le> headroom_bytes (decay_settings c) then Inr c
      else
        let zero_interval = (decay_interval (decay_settings c) = 0);
            c1 = c\<lparr>large_cache_decay_op_count := large_cache_decay_op_count c + 1\<rparr>
        in if \<not> zero_interval
              \<and> unat (large_cache_decay_op_count c1) mod DECAY_CLOCK_CHECK_STRIDE \<noteq> 0
              \<and> last_decay_tick c1 \<noteq> None
           then Inr c1
           else
             let c2 = c1\<lparr>large_cache_decay_op_count := 0\<rparr>
             in case last_decay_tick c2 of
                  Some t \<Rightarrow> decay_due now (now - t) c2
                | None \<Rightarrow>
                    let c3 = c2\<lparr>last_decay_tick := Some now\<rparr>
                    in if zero_interval then decay_due now 0 c3 else Inr c3)"

subsection \<open>Deposit and best fit\<close>

text \<open>The admission loop of a freed reservation: the slot it may take, if any.\<close>

definition budget_ok :: "nat \<Rightarrow> cache_state \<Rightarrow> fatal + bool" where
  "budget_ok usable_size c =
     (case large_cache_budget_bytes c of
        None \<Rightarrow> Inr True
      | Some budget \<Rightarrow>
          rbind (usize_add (large_cache_used_bytes c) usable_size) (\<lambda>sum. Inr (sum \<le> budget)))"

function admit_loop :: "nat \<Rightarrow> cache_state \<Rightarrow> fatal + nat option \<times> cache_state" where
  "admit_loop usable_size c =
     rbind (budget_ok usable_size c) (\<lambda>ok.
       case large_cache_find_free_slot c of
         Some idx \<Rightarrow>
           if ok then Inr (Some idx, c)
           else rbind (evict_oldest_noting_gone c) (\<lambda>(evicted, c').
             if \<not> evicted then Inr (None, c') else admit_loop usable_size c')
       | None \<Rightarrow>
           rbind (evict_oldest_noting_gone c) (\<lambda>(evicted, c').
             if \<not> evicted then Inr (None, c') else admit_loop usable_size c'))"
  by auto
termination
  by (relation "measure (\<lambda>(_, c). entries c)")
     (auto simp: evict_oldest_noting_gone_def dest: evict_one_oldest_entries)

declare admit_loop.simps [simp del]

definition admit :: "nat \<Rightarrow> nat \<Rightarrow> cache_state \<Rightarrow> fatal + nat option \<times> cache_state" where
  "admit al usable_size c =
     (if al < SEGMENT \<and> \<not> large_cache_deposit_budget_infeasible usable_size c
      then admit_loop usable_size c else Inr (None, c))"

text \<open>Publishing an admitted reservation as a cache entry, and giving back a refused one.\<close>

definition cache_entry ::
    "segment_header \<Rightarrow> nat \<Rightarrow> u64 \<Rightarrow> nat \<Rightarrow> cache_state \<Rightarrow> fatal + cache_state" where
  "cache_entry hdr base generation slot_idx c =
     rbind (cache_consumed generation (state_word c base)) (\<lambda>(ok, w).
       if \<not> ok then Inl ''large: consumed cache transition failed''
       else
         let c1 = c\<lparr>state_word := (state_word c)(base := w)\<rparr>;
             seq = large_cache_seq c1;
             c2 = c1\<lparr>large_cache_seq := large_cache_seq c1 + 1\<rparr>
         in rbind (large_cache_slot_set slot_idx
              \<lparr>cl_reservation = reservation hdr, cl_reservation_len = reservation_len hdr,
               cl_base = base, cl_usable_size = span_usable hdr,
               cl_reserved_capacity = reserved_capacity hdr, cl_seq = seq\<rparr> c2) (\<lambda>c3.
            rbind (usize_add (large_cache_used_bytes c3) (span_usable hdr)) (\<lambda>used.
              Inr (c3\<lparr>large_cache_used_bytes := used\<rparr>))))"

definition release_refused :: "segment_header \<Rightarrow> nat \<Rightarrow> u64 \<Rightarrow> cache_state \<Rightarrow> fatal + cache_state" where
  "release_refused hdr base generation c =
     rbind (release_consumed generation (state_word c base)) (\<lambda>(ok, w).
       if \<not> ok then Inl ''large: consumed release failed''
       else Inr (c\<lparr>state_word := (state_word c)(base := w),
         os_released := (reservation hdr, reservation_len hdr) # os_released c\<rparr>))"

text \<open>The cache part of \<open>reclaim_large_segment\<close>; clearing the magic of the segment is a step of the whole
  instance (\<open>LargeHeap\<close>), whose state holds the headers.\<close>

definition deposit_large :: "segment_header \<Rightarrow> nat \<Rightarrow> u64 \<Rightarrow> cache_state \<Rightarrow> fatal + cache_state" where
  "deposit_large hdr base generation c =
     rbind (admit (large_align hdr) (span_usable hdr) c) (\<lambda>(admitted, c').
       case admitted of
         Some slot_idx \<Rightarrow> cache_entry hdr base generation slot_idx c'
       | None \<Rightarrow> release_refused hdr base generation c')"

text \<open>The scan of \<open>alloc_large\<close>: the tightest compatible entry.\<close>

definition fit_body :: "nat \<Rightarrow> cache_state \<Rightarrow> nat \<Rightarrow> nat option \<times> nat \<Rightarrow> (nat option \<times> nat) \<times> bool" where
  "fit_body usable c i best =
     (case large_cache_slot_get i c of
        None \<Rightarrow> (best, False)
      | Some slot \<Rightarrow>
          if usable \<le> cl_usable_size slot
             \<and> cl_usable_size slot \<le> min (usable * LARGE_CACHE_SIZE_FACTOR) usize_max
             \<and> cl_usable_size slot < snd best
          then ((Some i, cl_usable_size slot), False) else (best, False))"

definition best_fit :: "nat \<Rightarrow> cache_state \<Rightarrow> nat option" where
  "best_fit usable c =
     fst (bit_loop (fit_body usable c) (large_cache_occupied_within_bound c) (None, usize_max))"

subsection \<open>The loops that keep the best\<close>

text \<open>Both scans keep the slot with the least key; a key that cannot be beaten may break.\<close>

definition pick :: "(nat \<Rightarrow> 'k :: linorder option) \<Rightarrow> ('k \<Rightarrow> bool) \<Rightarrow> nat \<Rightarrow> nat option \<times> 'k
    \<Rightarrow> (nat option \<times> 'k) \<times> bool" where
  "pick key stop i best =
     (case key i of None \<Rightarrow> (best, False)
      | Some k \<Rightarrow> if k < snd best then ((Some i, k), stop k) else (best, False))"

definition least_key :: "(nat \<Rightarrow> 'k :: linorder option) \<Rightarrow> nat list \<Rightarrow> 'k \<Rightarrow> bool" where
  "least_key key xs k \<longleftrightarrow> (\<forall>j \<in> set xs. \<forall>k'. key j = Some k' \<longrightarrow> k \<le> k')"

lemma visit_pick:
  assumes "\<And>k. stop k \<Longrightarrow> (\<forall>k'. k \<le> k')"
  shows "case visit (pick key stop) xs (bi, ki) of (r, k) \<Rightarrow>
     (r, k) = (bi, ki) \<and> least_key key xs ki
     \<or> (\<exists>i \<in> set xs. r = Some i \<and> key i = Some k \<and> k < ki \<and> least_key key xs k)"
proof (induction xs arbitrary: bi ki)
  case (Cons i xs)
  show ?case
  proof (cases "key i")
    case None
    then show ?thesis using Cons [of bi ki] by (auto simp: pick_def least_key_def split: prod.splits)
  next
    case (Some k)
    show ?thesis
    proof (cases "k < ki")
      case True
      show ?thesis
      proof (cases "stop k")
        case True
        then show ?thesis using Some \<open>k < ki\<close> assms [OF True] by (auto simp: pick_def least_key_def)
      next
        case False
        then show ?thesis using Some \<open>k < ki\<close> Cons [of "Some i" k]
          by (auto simp: pick_def least_key_def split: prod.splits intro: order.strict_implies_order order.strict_trans)
      qed
    next
      case False
      then show ?thesis using Some Cons [of bi ki]
        by (auto simp: pick_def least_key_def not_less split: prod.splits intro: order.trans order.strict_implies_order)
    qed
  qed
qed (simp add: least_key_def)

lemma oldest_body_pick:
  "oldest_body c = pick (\<lambda>i. map_option cl_seq (large_cache_slot_get i c)) (\<lambda>k. k = 0)"
  by (intro ext) (simp add: oldest_body_def pick_def split: option.split)

definition fit_key :: "nat \<Rightarrow> cache_state \<Rightarrow> nat \<Rightarrow> nat option" where
  "fit_key usable c i =
     (case large_cache_slot_get i c of None \<Rightarrow> None
      | Some slot \<Rightarrow> if usable \<le> cl_usable_size slot
            \<and> cl_usable_size slot \<le> min (usable * LARGE_CACHE_SIZE_FACTOR) usize_max
          then Some (cl_usable_size slot) else None)"

lemma fit_body_pick: "fit_body usable c = pick (fit_key usable c) (\<lambda>k. False)"
  by (intro ext) (simp add: fit_body_def fit_key_def pick_def split: option.split)

subsection \<open>The invariant of the cache\<close>

text \<open>
  The sum of a quantity over the entries, and the reservations the cache still has to give
  back together with those it gave back.
\<close>

definition slot_sum :: "(cached_large \<Rightarrow> 'a :: comm_monoid_add) \<Rightarrow> (nat \<Rightarrow> cached_large option) \<Rightarrow> 'a" where
  "slot_sum g f = (\<Sum>i < LARGE_CACHE_SLOTS. case f i of None \<Rightarrow> 0 | Some e \<Rightarrow> g e)"

definition holdings :: "cache_state \<Rightarrow> (nat \<times> nat) multiset" where
  "holdings c = slot_sum (\<lambda>e. {#(cl_reservation e, cl_reservation_len e)#}) (large_cache c)
     + mset (os_released c)"

definition cached :: "cache_state \<Rightarrow> nat \<Rightarrow> cached_large \<Rightarrow> bool" where
  "cached c i e \<longleftrightarrow> i < LARGE_CACHE_SLOTS \<and> large_cache c i = Some e"

definition entries_ok :: "cache_state \<Rightarrow> bool" where
  "entries_ok c \<longleftrightarrow>
     (\<forall>i e. cached c i e \<longrightarrow> cl_seq e < large_cache_seq c \<and> large_phase (state_word c (cl_base e)) = Some PhCached)
     \<and> (\<forall>i j e e'. cached c i e \<and> cached c j e' \<and> (cl_seq e = cl_seq e' \<or> cl_base e = cl_base e') \<longrightarrow> i = j)"

definition cache_inv :: "cache_state \<Rightarrow> bool" where
  "cache_inv c \<longleftrightarrow> (\<forall>i. bit (large_cache_occupied c) i \<longleftrightarrow> i < LARGE_CACHE_SLOTS \<and> large_cache c i \<noteq> None)
     \<and> large_cache_used_bytes c = slot_sum cl_usable_size (large_cache c)
     \<and> large_cache_used_bytes c \<le> usize_max
     \<and> (\<forall>b. large_cache_budget_bytes c = Some b \<longrightarrow> large_cache_used_bytes c \<le> b)
     \<and> entries_ok c"

lemma slot_sum_take:
  assumes "i < LARGE_CACHE_SLOTS" and "f i = Some v"
  shows "slot_sum g f = g v + slot_sum g (f(i := None))"
proof -
  let ?h = "\<lambda>f j. case f j of None \<Rightarrow> 0 | Some e \<Rightarrow> g e"
  have "slot_sum g f = ?h f i + (\<Sum>j \<in> {..<LARGE_CACHE_SLOTS} - {i}. ?h f j)"
    unfolding slot_sum_def using assms(1) by (intro sum.remove) auto
  also have "(\<Sum>j \<in> {..<LARGE_CACHE_SLOTS} - {i}. ?h f j) = (\<Sum>j \<in> {..<LARGE_CACHE_SLOTS} - {i}. ?h (f(i := None)) j)"
    by (rule sum.cong) auto
  also have "\<dots> = slot_sum g (f(i := None))"
    unfolding slot_sum_def using assms(1) by (subst (2) sum.remove [of _ i]) auto
  finally show ?thesis using assms(2) by simp
qed

lemma slot_sum_put:
  assumes "i < LARGE_CACHE_SLOTS" and "f i = None"
  shows "slot_sum g (f(i \<mapsto> v)) = g v + slot_sum g f"
proof -
  have "(f(i \<mapsto> v))(i := None) = f" using assms(2) by auto
  then show ?thesis using slot_sum_take [of i "f(i \<mapsto> v)" v g] assms(1) by simp
qed

lemma bits_within_bound:
  assumes "cache_inv c"
  shows "bit (large_cache_occupied_within_bound c) i \<longleftrightarrow> (\<exists>e. cached c i e)"
proof -
  have m: "(push_bit 8 1 - 1 :: u64) = mask 8" by (simp add: mask_eq_exp_minus_1)
  show ?thesis
    using assms unfolding cache_inv_def large_cache_occupied_within_bound_def large_cache_scan_bound_def
      LARGE_CACHE_SLOTS_def cached_def m
    by (auto simp: bit_simps simp del: mask_numeral)
qed

lemma slot_get_cached: "large_cache_slot_get i c = Some e \<longleftrightarrow> cached c i e"
  by (simp add: large_cache_slot_get_def cached_def)

lemma oldest_slot:
  assumes "cache_inv c"
  shows "case oldest_occupied_slot c of
       None \<Rightarrow> \<forall>i e. \<not> cached c i e
     | Some i \<Rightarrow> \<exists>e. cached c i e \<and> (\<forall>j e'. cached c j e' \<longrightarrow> cl_seq e \<le> cl_seq e')"
proof -
  let ?key = "\<lambda>i. map_option cl_seq (large_cache_slot_get i c)"
  let ?xs = "set_bits_of (large_cache_occupied_within_bound c)"
  obtain r k where v: "visit (pick ?key (\<lambda>k. k = 0)) ?xs (None, - 1) = (r, k)" by fastforce
  have r: "oldest_occupied_slot c = r"
    unfolding oldest_occupied_slot_def bit_loop_visit oldest_body_pick v by simp
  have lk: "least_key ?key ?xs m \<longleftrightarrow> (\<forall>j e'. cached c j e' \<longrightarrow> m \<le> cl_seq e')" for m
    using bits_within_bound [OF assms] by (auto simp: least_key_def slot_get_cached)
  from visit_pick [where stop = "\<lambda>k. k = 0" and key = ?key and xs = ?xs and bi = None and ki = "- 1"]
  consider "r = None" "least_key ?key ?xs (- 1)"
    | i where "r = Some i" "?key i = Some k" "least_key ?key ?xs k"
    unfolding v by auto
  then show ?thesis
  proof cases
    case 1
    have "cl_seq e < - 1" if "cached c i e" for i e
      using assms that word_n1_ge [of "large_cache_seq c"] unfolding cache_inv_def entries_ok_def
      by (meson order.strict_trans2)
    with 1 show ?thesis unfolding r lk by (auto simp: not_le [symmetric])
  next
    case 2
    then show ?thesis unfolding r lk by (auto simp: slot_get_cached)
  qed
qed

lemma best_fit_slot:
  assumes "cache_inv c"
  shows "case best_fit usable c of
       None \<Rightarrow> \<forall>i e. cached c i e \<longrightarrow> \<not> (usable \<le> cl_usable_size e \<and> cl_usable_size e \<le> 2 * usable
          \<and> cl_usable_size e < usize_max)
     | Some i \<Rightarrow> \<exists>e. cached c i e \<and> usable \<le> cl_usable_size e \<and> cl_usable_size e \<le> 2 * usable
          \<and> (\<forall>j e'. cached c j e' \<and> usable \<le> cl_usable_size e' \<longrightarrow> cl_usable_size e \<le> cl_usable_size e')"
proof -
  let ?xs = "set_bits_of (large_cache_occupied_within_bound c)"
  let ?fits = "\<lambda>e. usable \<le> cl_usable_size e \<and> cl_usable_size e \<le> min (usable * LARGE_CACHE_SIZE_FACTOR) usize_max"
  obtain r k where v: "visit (pick (fit_key usable c) (\<lambda>k. False)) ?xs (None, usize_max) = (r, k)" by fastforce
  have r: "best_fit usable c = r" unfolding best_fit_def bit_loop_visit fit_body_pick v by simp
  have fk: "fit_key usable c j = Some m \<longleftrightarrow> (\<exists>e. cached c j e \<and> ?fits e \<and> m = cl_usable_size e)" for j m
    by (cases "large_cache_slot_get j c") (auto simp: fit_key_def simp flip: slot_get_cached)
  have lk: "least_key (fit_key usable c) ?xs m \<longleftrightarrow> (\<forall>j e'. cached c j e' \<and> ?fits e' \<longrightarrow> m \<le> cl_usable_size e')" for m
    using bits_within_bound [OF assms] by (auto simp: least_key_def fk)
  from visit_pick [where stop = "\<lambda>k. False" and key = "fit_key usable c" and xs = ?xs and bi = None
      and ki = usize_max]
  consider "r = None" "least_key (fit_key usable c) ?xs usize_max"
    | i where "r = Some i" "fit_key usable c i = Some k" "least_key (fit_key usable c) ?xs k" "k < usize_max"
    unfolding v by auto
  then show ?thesis
  proof cases
    case 1
    then show ?thesis unfolding r lk LARGE_CACHE_SIZE_FACTOR_def
      by (fastforce simp: mult.commute not_le [symmetric])
  next
    case 2
    from 2(2) obtain e where e: "cached c i e" "?fits e" "k = cl_usable_size e" by (auto simp: fk)
    have "cl_usable_size e \<le> cl_usable_size e'" if "cached c j e'" "usable \<le> cl_usable_size e'" for j e'
    proof (cases "?fits e'")
      case True
      then show ?thesis using 2(3) that(1) e(3) unfolding lk by blast
    next
      case False
      then show ?thesis using that(2) e(2) by auto
    qed
    with e 2 show ?thesis unfolding r LARGE_CACHE_SIZE_FACTOR_def by (auto simp: mult.commute)
  qed
qed

subsection \<open>Evicting\<close>

text \<open>
  \<open>evicted c c'\<close>: some entries are gone, all older than every entry that stays; their
  reservations are given back, and nothing else of the cache changed but the byte count and the
  decay clock.
\<close>

definition evicted :: "cache_state \<Rightarrow> cache_state \<Rightarrow> bool" where
  "evicted c c' \<longleftrightarrow> holdings c' = holdings c
     \<and> (\<forall>i e. cached c' i e \<longrightarrow> cached c i e)
     \<and> (\<forall>i e j e'. cached c i e \<and> \<not> cached c' i e \<and> cached c' j e' \<longrightarrow> cl_seq e < cl_seq e')
     \<and> large_cache_used_bytes c' \<le> large_cache_used_bytes c
     \<and> large_cache_budget_bytes c' = large_cache_budget_bytes c \<and> large_cache_seq c' = large_cache_seq c
     \<and> decay_settings c' = decay_settings c
     \<and> (\<forall>b. (\<forall>i e. cached c i e \<longrightarrow> cl_base e \<noteq> b) \<longrightarrow> state_word c' b = state_word c b)"

lemma evicted_refl [simp]: "evicted c c"
  unfolding evicted_def by blast

lemma evicted_trans: "evicted c c' \<Longrightarrow> evicted c' c'' \<Longrightarrow> evicted c c''"
proof -
  assume a: "evicted c c'" and b: "evicted c' c''"
  have "cl_seq e < cl_seq e'" if "cached c i e" "\<not> cached c'' i e" "cached c'' j e'" for i e j e'
  proof (cases "cached c' i e")
    case True
    then show ?thesis using b that unfolding evicted_def by blast
  next
    case False
    then show ?thesis using a b that unfolding evicted_def by blast
  qed
  moreover have "state_word c'' x = state_word c x" if "\<forall>i e. cached c i e \<longrightarrow> cl_base e \<noteq> x" for x
    using a b that unfolding evicted_def by metis
  ultimately show ?thesis using a b unfolding evicted_def by (auto intro: order.trans)
qed

lemma evicted_clock:
  "evicted c c' \<Longrightarrow> evicted c (c'\<lparr>last_decay_tick := t, large_cache_decay_op_count := n\<rparr>)"
  by (simp add: evicted_def cached_def holdings_def)

lemma cache_inv_clock:
  "cache_inv c \<Longrightarrow> cache_inv (c\<lparr>last_decay_tick := t, large_cache_decay_op_count := n\<rparr>)"
  unfolding cache_inv_def entries_ok_def cached_def by (elim conjE, intro conjI) simp_all

text \<open>One victim, the oldest.\<close>

lemma release_cached_cached:
  "large_phase w = Some PhCached \<Longrightarrow>
   release_cached (large_generation w) w = Inr (True, packed_word PhReleased (large_generation w))"
  by (simp add: release_cached_def transition_eq [OF generation_small])

text \<open>Emptying a slot, and what it does to the parts of the invariant.\<close>

lemma inv_without:
  assumes inv: "cache_inv c" and i: "cached c i v"
    and c': "large_cache c' = (large_cache c)(i := None)"
      "large_cache_occupied c' = large_cache_occupied c AND NOT (push_bit i 1)"
      "large_cache_used_bytes c' = large_cache_used_bytes c - cl_usable_size v"
      "large_cache_budget_bytes c' = large_cache_budget_bytes c" "large_cache_seq c' = large_cache_seq c"
      "\<And>b. b \<noteq> cl_base v \<Longrightarrow> state_word c' b = state_word c b"
  shows "cache_inv c'" and "large_cache_used_bytes c = large_cache_used_bytes c' + cl_usable_size v"
proof -
  have i8: "i < LARGE_CACHE_SLOTS" "large_cache c i = Some v" using i by (simp_all add: cached_def)
  from slot_sum_take [where f = "large_cache c" and g = cl_usable_size, OF i8] inv
  have used: "large_cache_used_bytes c = cl_usable_size v + slot_sum cl_usable_size (large_cache c')"
    unfolding c'(1) by (simp add: cache_inv_def)
  then show u: "large_cache_used_bytes c = large_cache_used_bytes c' + cl_usable_size v"
    unfolding c'(3) by simp
  have occ: "\<forall>j. bit (large_cache_occupied c') j \<longleftrightarrow> j < LARGE_CACHE_SLOTS \<and> large_cache c' j \<noteq> None"
    using inv i8(1) unfolding c'(1,2) cache_inv_def LARGE_CACHE_SLOTS_def by (auto simp: bit_simps)
  have cd: "cached c' j e \<longleftrightarrow> cached c j e \<and> j \<noteq> i" for j e unfolding cached_def c'(1) by auto
  have "entries_ok c" using inv by (simp add: cache_inv_def)
  moreover have "cl_base e \<noteq> cl_base v" if "cached c j e" "j \<noteq> i" for j e
    using \<open>entries_ok c\<close> that i unfolding entries_ok_def by blast
  ultimately have "entries_ok c'" using c'(5,6) unfolding entries_ok_def cd by metis
  moreover have "large_cache_used_bytes c' = slot_sum cl_usable_size (large_cache c')" using used u by simp
  moreover have "large_cache_used_bytes c' \<le> large_cache_used_bytes c" using u by simp
  then have "large_cache_used_bytes c' \<le> usize_max
      \<and> (\<forall>b. large_cache_budget_bytes c' = Some b \<longrightarrow> large_cache_used_bytes c' \<le> b)"
    using inv unfolding c'(4) cache_inv_def by (meson order.trans)
  ultimately show "cache_inv c'" using occ unfolding cache_inv_def by blast
qed

lemma evict_victim_ok:
  assumes inv: "cache_inv c" and i: "cached c i v"
    and oldest: "\<forall>j e. cached c j e \<longrightarrow> cl_seq v \<le> cl_seq e"
  shows "\<exists>c'. evict_victim i c = Inr (v, c') \<and> cache_inv c' \<and> evicted c c'
    \<and> large_cache c' = (large_cache c)(i := None)
    \<and> large_cache_used_bytes c = large_cache_used_bytes c' + cl_usable_size v
    \<and> last_decay_tick c' = last_decay_tick c
    \<and> large_cache_decay_op_count c' = large_cache_decay_op_count c"
proof -
  let ?w = "state_word c (cl_base v)"
  let ?c' = "c\<lparr>large_cache := (large_cache c)(i := None),
      large_cache_occupied := large_cache_occupied c AND NOT (push_bit i 1),
      large_cache_used_bytes := large_cache_used_bytes c - cl_usable_size v,
      state_word := (state_word c)(cl_base v := packed_word PhReleased (large_generation ?w)),
      os_released := (cl_reservation v, cl_reservation_len v) # os_released c\<rparr>"
  have i8: "i < LARGE_CACHE_SLOTS" "large_cache c i = Some v" using i by (simp_all add: cached_def)
  have "large_phase ?w = Some PhCached" using inv i by (simp add: cache_inv_def entries_ok_def)
  from release_cached_cached [OF this] i8
  have run: "evict_victim i c = Inr (v, ?c')"
    by (simp add: evict_victim_def large_cache_slot_take_def Let_def)
  have inv': "cache_inv ?c'" and used: "large_cache_used_bytes c = large_cache_used_bytes ?c' + cl_usable_size v"
    by (rule inv_without [OF inv i]; simp)+
  have cd: "cached ?c' j e \<longleftrightarrow> cached c j e \<and> j \<noteq> i" for j e by (auto simp: cached_def)
  have "cl_seq e < cl_seq e'" if "cached c j e" "\<not> cached ?c' j e" "cached ?c' k e'" for j e k e'
  proof -
    have "j = i" "e = v" "k \<noteq> i" "cached c k e'" using that i unfolding cd by (auto simp: cached_def)
    moreover from this have "cl_seq v \<noteq> cl_seq e'"
      using inv i unfolding cache_inv_def entries_ok_def by blast
    ultimately show ?thesis using oldest by (metis order.not_eq_order_implies_strict)
  qed
  moreover have "holdings ?c' = holdings c"
    using slot_sum_take [where f = "large_cache c" and g = "\<lambda>e. {#(cl_reservation e, cl_reservation_len e)#}", OF i8]
    by (simp add: holdings_def)
  moreover have "state_word ?c' b = state_word c b" if "\<forall>i e. cached c i e \<longrightarrow> cl_base e \<noteq> b" for b
    using that i by auto
  ultimately have "evicted c ?c'" using used cd unfolding evicted_def by auto
  then show ?thesis using run inv' used by (intro exI [of _ ?c']) simp
qed

lemma evict_one_oldest_ok:
  assumes "cache_inv c"
  shows "\<exists>b c'. evict_one_oldest c = Inr (b, c') \<and> cache_inv c' \<and> evicted c c'
    \<and> (b \<longleftrightarrow> (\<exists>i e. cached c i e)) \<and> (\<not> b \<longrightarrow> c' = c)"
proof (cases "oldest_occupied_slot c")
  case None
  then show ?thesis using oldest_slot [OF assms] assms
    by (intro exI [of _ False]) (simp add: evict_one_oldest_def)
next
  case (Some i)
  with oldest_slot [OF assms] obtain v where v: "cached c i v" "\<forall>j e. cached c j e \<longrightarrow> cl_seq v \<le> cl_seq e"
    by auto
  from evict_victim_ok [OF assms v] obtain c' where
    "evict_victim i c = Inr (v, c')" "cache_inv c'" "evicted c c'" by blast
  with Some v(1) show ?thesis
    by (intro exI [of _ True] exI [of _ c']) (auto simp: evict_one_oldest_def)
qed

lemma evict_at_least_loop_ok:
  assumes "cache_inv c" and "released + large_cache_used_bytes c \<le> usize_max"
  shows "\<exists>c'. evict_at_least_loop m released c = Inr c' \<and> cache_inv c' \<and> evicted c c'
    \<and> (m \<le> released + (large_cache_used_bytes c - large_cache_used_bytes c') \<or> (\<forall>i e. \<not> cached c' i e))
    \<and> last_decay_tick c' = last_decay_tick c
    \<and> large_cache_decay_op_count c' = large_cache_decay_op_count c
    \<and> (m \<le> released \<longrightarrow> c' = c)
    \<and> (released < m \<and> (\<exists>i e. cached c i e) \<longrightarrow> (\<exists>i e. cached c i e \<and> \<not> cached c' i e))"
  using assms
proof (induction m released c rule: evict_at_least_loop.induct)
  case (1 m released c)
  show ?case
  proof (cases "m \<le> released")
    case True
    then show ?thesis using 1 by (subst evict_at_least_loop.simps) simp
  next
    case more: False
    show ?thesis
    proof (cases "oldest_occupied_slot c")
      case None
      then show ?thesis using 1 oldest_slot [OF 1(2)] more by (subst evict_at_least_loop.simps) simp
    next
      case (Some i)
      with oldest_slot [OF 1(2)] obtain v where v: "cached c i v"
        "\<forall>j e. cached c j e \<longrightarrow> cl_seq v \<le> cl_seq e" by auto
      from evict_victim_ok [OF 1(2) v] obtain c1 where
        c1: "evict_victim i c = Inr (v, c1)" "cache_inv c1" "evicted c c1"
          "large_cache c1 = (large_cache c)(i := None)"
          "large_cache_used_bytes c = large_cache_used_bytes c1 + cl_usable_size v"
          "last_decay_tick c1 = last_decay_tick c"
          "large_cache_decay_op_count c1 = large_cache_decay_op_count c" by blast
      have add: "usize_add released (cl_usable_size v) = Inr (released + cl_usable_size v)"
        using 1(3) c1(5) by (simp add: usize_add_def)
      have bound: "released + cl_usable_size v + large_cache_used_bytes c1 \<le> usize_max"
        using 1(3) c1(5) by simp
      from 1(1) [OF more Some c1(1) refl add c1(2) bound] obtain c' where
        c': "evict_at_least_loop m (released + cl_usable_size v) c1 = Inr c'" "cache_inv c'" "evicted c1 c'"
          "m \<le> released + cl_usable_size v + (large_cache_used_bytes c1 - large_cache_used_bytes c')
            \<or> (\<forall>i e. \<not> cached c' i e)"
          "last_decay_tick c' = last_decay_tick c1"
          "large_cache_decay_op_count c' = large_cache_decay_op_count c1" by blast
      have run: "evict_at_least_loop m released c = Inr c'"
        using more Some c1(1) add c'(1) by (subst evict_at_least_loop.simps) simp
      have less: "large_cache_used_bytes c' \<le> large_cache_used_bytes c1" using c'(3) by (simp add: evicted_def)
      have "\<not> cached c1 i v" using c1(4) by (simp add: cached_def)
      then have "\<not> cached c' i v" using c'(3) unfolding evicted_def by blast
      then have "\<exists>i e. cached c i e \<and> \<not> cached c' i e" using v(1) by blast
      moreover have "m \<le> released + (large_cache_used_bytes c - large_cache_used_bytes c') \<or> (\<forall>i e. \<not> cached c' i e)"
        using c'(4) c1(5) less by auto
      ultimately show ?thesis
        using run c'(2,5,6) c1(6,7) evicted_trans [OF c1(3) c'(3)] more by auto
    qed
  qed
qed

lemma evict_at_least_ok:
  assumes "cache_inv c"
  shows "\<exists>c'. evict_at_least m c = Inr c' \<and> cache_inv c' \<and> evicted c c'
    \<and> (m \<le> large_cache_used_bytes c - large_cache_used_bytes c' \<or> (\<forall>i e. \<not> cached c' i e))
    \<and> last_decay_tick c' = last_decay_tick c
    \<and> large_cache_decay_op_count c' = large_cache_decay_op_count c
    \<and> (0 < m \<and> (\<exists>i e. cached c i e) \<longrightarrow> (\<exists>i e. cached c i e \<and> \<not> cached c' i e))"
proof -
  have "0 + large_cache_used_bytes c \<le> usize_max" using assms by (simp add: cache_inv_def)
  from evict_at_least_loop_ok [OF assms this, of m] show ?thesis
    unfolding evict_at_least_def by auto
qed

lemma evict_all_ok:
  assumes "cache_inv c"
  shows "\<exists>c'. evict_all c = Inr c' \<and> cache_inv c' \<and> evicted c c' \<and> (\<forall>i e. \<not> cached c' i e)
    \<and> last_decay_tick c' = None \<and> large_cache_decay_op_count c' = 0"
proof -
  have "\<exists>c'. evict_all_loop c = Inr c' \<and> cache_inv c' \<and> evicted c c' \<and> (\<forall>i e. \<not> cached c' i e)"
    using assms
  proof (induction c rule: evict_all_loop.induct)
    case (1 c)
    from evict_one_oldest_ok [OF 1(2)] obtain b c1 where
      c1: "evict_one_oldest c = Inr (b, c1)" "cache_inv c1" "evicted c c1"
        "b \<longleftrightarrow> (\<exists>i e. cached c i e)" "\<not> b \<longrightarrow> c1 = c" by blast
    show ?case
    proof (cases b)
      case True
      from 1(1) [OF c1(1) refl True c1(2)] evicted_trans [OF c1(3)] show ?thesis
        using c1(1) True by (subst evict_all_loop.simps) auto
    next
      case False
      then show ?thesis using c1 1(2) by (subst evict_all_loop.simps) auto
    qed
  qed
  then obtain c' where c': "evict_all_loop c = Inr c'" "cache_inv c'" "evicted c c'" "\<forall>i e. \<not> cached c' i e"
    by blast
  let ?c = "c'\<lparr>last_decay_tick := None, large_cache_decay_op_count := 0\<rparr>"
  have "evict_all c = Inr ?c" using c'(1) by (simp add: evict_all_def)
  moreover have "cache_inv ?c" "evicted c ?c" using c' cache_inv_clock evicted_clock by blast+
  moreover have "\<forall>i e. \<not> cached ?c i e" using c'(4) by (simp add: cached_def)
  ultimately show ?thesis by (intro exI [of _ ?c]) simp
qed

subsection \<open>Decaying\<close>

lemma no_entries_used: "cache_inv c \<Longrightarrow> \<forall>i e. \<not> cached c i e \<Longrightarrow> large_cache_used_bytes c = 0"
proof -
  assume "cache_inv c" "\<forall>i e. \<not> cached c i e"
  then have "large_cache_used_bytes c = slot_sum cl_usable_size (large_cache c)"
    and "\<forall>i < LARGE_CACHE_SLOTS. large_cache c i = None" by (auto simp: cache_inv_def cached_def)
  then show ?thesis by (simp add: slot_sum_def)
qed

definition decay_release :: "cache_state \<Rightarrow> nat" where
  "decay_release c = min ((large_cache_used_bytes c - headroom_bytes (decay_settings c))
     * decay_rate_bp (decay_settings c)) usize_max div 10000"

lemma run_decay_step_ok:
  assumes inv: "cache_inv c"
  shows "\<exists>c'. run_decay_step c = Inr c' \<and> cache_inv c' \<and> evicted c c'
    \<and> last_decay_tick c' = last_decay_tick c
    \<and> (0 < decay_release c \<longrightarrow> (\<exists>i e. cached c i e \<and> \<not> cached c' i e))
    \<and> large_cache_used_bytes c' \<le> large_cache_used_bytes c - min (decay_release c) (large_cache_used_bytes c)"
proof -
  let ?excess = "large_cache_used_bytes c - headroom_bytes (decay_settings c)"
  have run: "run_decay_step c = (if ?excess = 0 \<or> decay_release c = 0 then Inr c else evict_at_least (decay_release c) c)"
    by (simp add: run_decay_step_def decay_release_def Let_def)
  show ?thesis
  proof (cases "?excess = 0 \<or> decay_release c = 0")
    case True
    then have "decay_release c = 0" by (auto simp: decay_release_def)
    then show ?thesis using True inv unfolding run by simp
  next
    case False
    from evict_at_least_ok [OF inv, of "decay_release c"] obtain c' where
      c': "evict_at_least (decay_release c) c = Inr c'" "cache_inv c'" "evicted c c'"
        "decay_release c \<le> large_cache_used_bytes c - large_cache_used_bytes c' \<or> (\<forall>i e. \<not> cached c' i e)"
        "last_decay_tick c' = last_decay_tick c"
        "0 < decay_release c \<and> (\<exists>i e. cached c i e) \<longrightarrow> (\<exists>i e. cached c i e \<and> \<not> cached c' i e)" by blast
    have "\<exists>i e. cached c i e" using no_entries_used [OF inv] False by fastforce
    with c'(6) False have gone: "0 < decay_release c \<longrightarrow> (\<exists>i e. cached c i e \<and> \<not> cached c' i e)" by blast
    have "large_cache_used_bytes c' \<le> large_cache_used_bytes c" using c'(3) by (simp add: evicted_def)
    then have "large_cache_used_bytes c' \<le> large_cache_used_bytes c - min (decay_release c) (large_cache_used_bytes c)"
      using c'(4) no_entries_used [OF c'(2)] by auto
    with False c' gone show ?thesis unfolding run by auto
  qed
qed

lemma decay_steps_ok:
  "cache_inv c \<Longrightarrow> \<exists>c'. decay_steps n c = Inr c' \<and> cache_inv c' \<and> evicted c c'
     \<and> last_decay_tick c' = last_decay_tick c
     \<and> (0 < n \<and> 0 < decay_release c \<longrightarrow> (\<exists>i e. cached c i e \<and> \<not> cached c' i e))"
proof (induction n arbitrary: c)
  case (Suc n)
  from run_decay_step_ok [OF Suc.prems] obtain c1 where c1: "run_decay_step c = Inr c1" "cache_inv c1"
    "evicted c c1" "last_decay_tick c1 = last_decay_tick c"
    "0 < decay_release c \<longrightarrow> (\<exists>i e. cached c i e \<and> \<not> cached c1 i e)"
    by (elim exE conjE) (rule that)
  from Suc.IH [OF c1(2)] obtain c2 where c2: "decay_steps n c1 = Inr c2" "cache_inv c2" "evicted c1 c2"
    "last_decay_tick c2 = last_decay_tick c1" by blast
  have "0 < decay_release c \<longrightarrow> (\<exists>i e. cached c i e \<and> \<not> cached c2 i e)"
    using c1(5) c2(3) unfolding evicted_def by blast
  with c1 c2 evicted_trans [OF c1(3) c2(3)] show ?case by (intro exI [of _ c2]) simp
qed simp

lemma decay_due_ok:
  assumes inv: "cache_inv c" and tick: "last_decay_tick c = Some t" "t + elapsed \<le> now"
  shows "\<exists>c'. decay_due now elapsed c = Inr c' \<and> cache_inv c' \<and> evicted c c'
    \<and> (\<exists>t'. last_decay_tick c' = Some t' \<and> t \<le> t' \<and> t' \<le> now)
    \<and> (decay_interval (decay_settings c) \<le> elapsed \<and> 0 < decay_release c
        \<longrightarrow> (\<exists>i e. cached c i e \<and> \<not> cached c' i e))"
proof -
  let ?i = "decay_interval (decay_settings c)"
  let ?n = "min (elapsed div ?i) DECAY_CATCHUP_MAX_STEPS"
  consider "elapsed < ?i" | "?i = 0" | "0 < ?i" "?i \<le> elapsed" by linarith
  then show ?thesis
  proof cases
    case 1
    then show ?thesis using assms by (simp add: decay_due_def Let_def)
  next
    case 2
    let ?c1 = "c\<lparr>last_decay_tick := Some now\<rparr>"
    have "?c1 = c\<lparr>last_decay_tick := Some now, large_cache_decay_op_count := large_cache_decay_op_count c\<rparr>"
      by simp
    then have c1: "cache_inv ?c1" "evicted c ?c1"
      using cache_inv_clock [OF inv] evicted_clock [OF evicted_refl] by metis+
    have same: "cached ?c1 = cached c" "decay_release ?c1 = decay_release c"
      by (simp_all add: fun_eq_iff cached_def decay_release_def)
    from decay_steps_ok [OF c1(1), of 1] obtain c2 where c2: "decay_steps 1 ?c1 = Inr c2" "cache_inv c2"
      "evicted ?c1 c2" "last_decay_tick c2 = Some now"
      "0 < decay_release c \<longrightarrow> (\<exists>i e. cached c i e \<and> \<not> cached c2 i e)"
      unfolding same by auto
    have "decay_due now elapsed c = Inr c2" using 2 c2(1) by (simp add: decay_due_def Let_def)
    with c2 evicted_trans [OF c1(2) c2(3)] tick show ?thesis by (intro exI [of _ c2]) simp
  next
    case 3
    from decay_steps_ok [OF inv, of ?n] obtain c2 where c2: "decay_steps ?n c = Inr c2" "cache_inv c2"
      "evicted c c2" "last_decay_tick c2 = Some t"
      "0 < ?n \<and> 0 < decay_release c \<longrightarrow> (\<exists>i e. cached c i e \<and> \<not> cached c2 i e)"
      using tick(1) by auto
    let ?t = "if large_cache_used_bytes c2 \<le> headroom_bytes (decay_settings c2) then now else t + ?i * ?n"
    let ?c3 = "c2\<lparr>last_decay_tick := Some ?t\<rparr>"
    have run: "decay_due now elapsed c = Inr ?c3" using 3 c2(1,4) by (simp add: decay_due_def Let_def)
    have "?c3 = c2\<lparr>last_decay_tick := Some ?t, large_cache_decay_op_count := large_cache_decay_op_count c2\<rparr>"
      by simp
    then have c3: "cache_inv ?c3" "evicted c ?c3"
      using cache_inv_clock [OF c2(2)] evicted_clock [OF c2(3)] by metis+
    have "?i * ?n \<le> ?i * (elapsed div ?i)" by simp
    also have "\<dots> \<le> elapsed" by simp
    finally have t: "t \<le> ?t \<and> ?t \<le> now" using tick(2) by auto
    have "0 < ?n" using 3 by (simp add: DECAY_CATCHUP_MAX_STEPS_def div_greater_zero_iff)
    moreover have "cached ?c3 = cached c2" by (simp add: fun_eq_iff cached_def)
    ultimately have "0 < decay_release c \<longrightarrow> (\<exists>i e. cached c i e \<and> \<not> cached ?c3 i e)"
      using c2(5) by metis
    with run c3 t show ?thesis by (intro exI [of _ ?c3]) simp
  qed
qed

lemma maybe_decay_ok:
  assumes inv: "cache_inv c" and tick: "\<forall>t. last_decay_tick c = Some t \<longrightarrow> t \<le> now"
  shows "\<exists>c'. maybe_decay_large_cache now c = Inr c' \<and> cache_inv c' \<and> evicted c c'
    \<and> (\<forall>t. last_decay_tick c' = Some t \<longrightarrow> t \<le> now)
    \<and> (last_decay_tick c \<noteq> None \<and> unat (large_cache_decay_op_count c + 1) mod 64 = 0
        \<and> decay_interval (decay_settings c) \<le> now - the (last_decay_tick c) \<and> 0 < decay_release c
        \<longrightarrow> (\<exists>i e. cached c i e \<and> \<not> cached c' i e))"
proof (cases "large_cache_used_bytes c \<le> headroom_bytes (decay_settings c)")
  case True
  then have "maybe_decay_large_cache now c = Inr c" "decay_release c = 0"
    by (simp_all add: maybe_decay_large_cache_def decay_release_def)
  with assms show ?thesis by simp
next
  case excess: False
  let ?zero = "decay_interval (decay_settings c) = 0"
  let ?skip = "\<not> ?zero \<and> unat (large_cache_decay_op_count c + 1) mod 64 \<noteq> 0 \<and> last_decay_tick c \<noteq> None"
  define at where "at = (\<lambda>t n. c\<lparr>last_decay_tick := t, large_cache_decay_op_count := n\<rparr>)"
  have c: "cache_inv (at t n)" "evicted c (at t n)" for t n
    unfolding at_def using cache_inv_clock [OF inv] evicted_clock [OF evicted_refl] by metis+
  have same: "cached (at t n) = cached c" "decay_release (at t n) = decay_release c"
    "decay_settings (at t n) = decay_settings c" "last_decay_tick (at t n) = t" for t n
    by (simp_all add: at_def fun_eq_iff cached_def decay_release_def)
  have run: "maybe_decay_large_cache now c =
    (if ?skip then Inr (at (last_decay_tick c) (large_cache_decay_op_count c + 1))
     else case last_decay_tick c of
         Some t \<Rightarrow> decay_due now (now - t) (at (Some t) 0)
       | None \<Rightarrow> if ?zero then decay_due now 0 (at (Some now) 0) else Inr (at (Some now) 0))"
  proof -
    have upd: "c\<lparr>large_cache_decay_op_count := n\<rparr> = at (last_decay_tick c) n"
      "(at t n)\<lparr>large_cache_decay_op_count := m\<rparr> = at t m" "(at t n)\<lparr>last_decay_tick := u\<rparr> = at u n"
      "large_cache_decay_op_count (at t n) = n" for t u n m by (simp_all add: at_def)
    show ?thesis
      using excess unfolding maybe_decay_large_cache_def Let_def DECAY_CLOCK_CHECK_STRIDE_def upd same
      by (simp split: option.split)
  qed
  show ?thesis
  proof (cases ?skip)
    case True
    then show ?thesis unfolding run using c same tick by (intro exI [of _ "at _ _"]) auto
  next
    case ask: False
    show ?thesis
    proof (cases "last_decay_tick c")
      case None
      have le: "now + 0 \<le> now" by simp
      from decay_due_ok [OF c(1) same(4) le, of 0] obtain c' where
        c': "decay_due now 0 (at (Some now) 0) = Inr c'" "cache_inv c'" "evicted (at (Some now) 0) c'"
          "\<exists>t'. last_decay_tick c' = Some t' \<and> now \<le> t' \<and> t' \<le> now" by blast
      have *: "maybe_decay_large_cache now c = (if ?zero then Inr c' else Inr (at (Some now) 0))"
        unfolding run using None c'(1) by simp
      show ?thesis unfolding * using None c c'(2,4) same(4) evicted_trans [OF c(2) c'(3)] by auto
    next
      case (Some t)
      then have "t + (now - t) \<le> now" using tick by simp
      from decay_due_ok [OF c(1) same(4) this, of 0] obtain c' where
        c': "decay_due now (now - t) (at (Some t) 0) = Inr c'" "cache_inv c'" "evicted (at (Some t) 0) c'"
          "\<exists>t'. last_decay_tick c' = Some t' \<and> t \<le> t' \<and> t' \<le> now"
          "decay_interval (decay_settings c) \<le> now - t \<and> 0 < decay_release c
            \<longrightarrow> (\<exists>i e. cached c i e \<and> \<not> cached c' i e)"
        unfolding same by blast
      have *: "maybe_decay_large_cache now c = Inr c'" unfolding run using Some c'(1) ask by auto
      show ?thesis unfolding * using Some c'(2,4,5) evicted_trans [OF c(2) c'(3)] by auto
    qed
  qed
qed

subsection \<open>Depositing\<close>

lemma free_cache_slot:
  assumes "cache_inv c"
  shows "case large_cache_find_free_slot c of
      None \<Rightarrow> \<forall>i < LARGE_CACHE_SLOTS. large_cache c i \<noteq> None
    | Some i \<Rightarrow> i < LARGE_CACHE_SLOTS \<and> large_cache c i = None"
proof -
  have "bit (large_cache_occupied c) i \<longleftrightarrow> i < LARGE_CACHE_SLOTS \<and> large_cache c i \<noteq> None" for i
    using assms by (simp add: cache_inv_def)
  then show ?thesis using trailing_ones_bits [where w = "large_cache_occupied c"]
    by (auto simp: large_cache_find_free_slot_def Let_def not_less)
qed

definition feasible :: "nat \<Rightarrow> cache_state \<Rightarrow> bool" where
  "feasible usable c \<longleftrightarrow> large_cache_used_bytes c + usable \<le> usize_max
     \<and> (\<forall>b. large_cache_budget_bytes c = Some b \<longrightarrow> usable \<le> b)"

lemma budget_ok_feasible:
  "feasible usable c \<Longrightarrow> budget_ok usable c = Inr (\<forall>b. large_cache_budget_bytes c = Some b
     \<longrightarrow> large_cache_used_bytes c + usable \<le> b)"
  by (auto simp: budget_ok_def usize_add_def feasible_def split: option.split)

lemma admit_loop_ok:
  assumes "cache_inv c" and "feasible usable c"
  shows "\<exists>i c'. admit_loop usable c = Inr (Some i, c') \<and> cache_inv c' \<and> evicted c c'
    \<and> i < LARGE_CACHE_SLOTS \<and> large_cache c' i = None \<and> large_cache_used_bytes c' + usable \<le> usize_max
    \<and> (\<forall>b. large_cache_budget_bytes c' = Some b \<longrightarrow> large_cache_used_bytes c' + usable \<le> b)"
  using assms
proof (induction usable c rule: admit_loop.induct)
  case (1 usable c)
  let ?ok = "\<forall>b. large_cache_budget_bytes c = Some b \<longrightarrow> large_cache_used_bytes c + usable \<le> b"
  have bok: "budget_ok usable c = Inr ?ok" by (rule budget_ok_feasible [OF 1(4)])
  show ?case
  proof (cases "?ok \<and> large_cache_find_free_slot c \<noteq> None")
    case True
    then obtain i where i: "large_cache_find_free_slot c = Some i" by auto
    have "admit_loop usable c = Inr (Some i, c)"
      using True i by (subst admit_loop.simps) (simp add: bok)
    moreover have "i < LARGE_CACHE_SLOTS \<and> large_cache c i = None" using free_cache_slot [OF 1(3)] i by simp
    moreover have "large_cache_used_bytes c + usable \<le> usize_max" using 1(4) by (simp add: feasible_def)
    ultimately show ?thesis using 1(3) True by (intro exI [of _ i] exI [of _ c]) simp
  next
    case False
    have some: "\<exists>i e. cached c i e"
    proof (rule ccontr)
      assume none: "\<nexists>i e. cached c i e"
      then have "large_cache c 0 = None" by (auto simp: cached_def LARGE_CACHE_SLOTS_def)
      then have "large_cache_find_free_slot c \<noteq> None" using free_cache_slot [OF 1(3)]
        by (auto simp: LARGE_CACHE_SLOTS_def split: option.splits)
      moreover have "large_cache_used_bytes c = 0" using no_entries_used [OF 1(3)] none by blast
      then have ?ok using 1(4) by (simp add: feasible_def)
      ultimately show False using False by blast
    qed
    from evict_one_oldest_ok [OF 1(3)] some obtain c1 where
      c1: "evict_oldest_noting_gone c = Inr (True, c1)" "cache_inv c1" "evicted c c1"
      unfolding evict_oldest_noting_gone_def by auto
    have f1: "feasible usable c1" using 1(4) c1(3) by (auto simp: feasible_def evicted_def)
    have run: "admit_loop usable c = admit_loop usable c1"
      using False c1(1) by (subst admit_loop.simps) (auto simp: bok split: option.split)
    have "\<exists>i c'. admit_loop usable c1 = Inr (Some i, c') \<and> cache_inv c' \<and> evicted c1 c'
      \<and> i < LARGE_CACHE_SLOTS \<and> large_cache c' i = None \<and> large_cache_used_bytes c' + usable \<le> usize_max
      \<and> (\<forall>b. large_cache_budget_bytes c' = Some b \<longrightarrow> large_cache_used_bytes c' + usable \<le> b)"
    proof (cases "large_cache_find_free_slot c")
      case None
      then show ?thesis using 1(1) [OF bok None c1(1) refl _ c1(2) f1] by simp
    next
      case (Some i)
      then have "\<not> ?ok" using False by blast
      then show ?thesis using 1(2) [OF bok Some _ c1(1) refl _ c1(2) f1] by simp
    qed
    then show ?thesis unfolding run using evicted_trans [OF c1(3)] by blast
  qed
qed

text \<open>A reservation whose claim is held, and which is not in the cache.\<close>

definition depositable :: "segment_header \<Rightarrow> nat \<Rightarrow> u64 \<Rightarrow> cache_state \<Rightarrow> bool" where
  "depositable hdr base generation c \<longleftrightarrow>
     in_phase (state_word c base) PhConsuming generation
     \<and> (\<forall>i e. cached c i e \<longrightarrow> cl_base e \<noteq> base)
     \<and> large_cache_used_bytes c + span_usable hdr \<le> usize_max
     \<and> large_cache_seq c < - 1"

definition entry_of :: "segment_header \<Rightarrow> nat \<Rightarrow> u64 \<Rightarrow> cached_large" where
  "entry_of hdr base seq = \<lparr>cl_reservation = reservation hdr, cl_reservation_len = reservation_len hdr,
     cl_base = base, cl_usable_size = span_usable hdr, cl_reserved_capacity = reserved_capacity hdr,
     cl_seq = seq\<rparr>"

lemma consumed_swap:
  assumes "in_phase w PhConsuming g"
  shows "cache_consumed g w = Inr (True, packed_word PhCached g)"
    and "release_consumed g w = Inr (True, packed_word PhReleased g)"
proof -
  have "g \<le> MAX_LARGE_GENERATION" using assms generation_small by (auto simp: in_phase_def)
  then show "cache_consumed g w = Inr (True, packed_word PhCached g)"
    and "release_consumed g w = Inr (True, packed_word PhReleased g)"
    using assms by (simp_all add: large_ops transition_eq in_phase_def)
qed

lemma depositable_evicted: "depositable hdr base g c \<Longrightarrow> evicted c c' \<Longrightarrow> depositable hdr base g c'"
  unfolding depositable_def evicted_def by (auto intro: order.trans)

lemma word_less_Suc: "w < - 1 \<Longrightarrow> w < w + (1 :: u64)"
proof -
  assume "w < - 1"
  then have "unat w < 2 ^ 64 - 1"
    by (simp add: word_less_nat_alt unsigned_minus_1_eq_mask mask_eq_exp_minus_1)
  then show ?thesis by (simp add: word_less_nat_alt unat_word_ariths)
qed

lemma cache_entry_ok:
  assumes inv: "cache_inv c" and dep: "depositable hdr base g c"
    and i: "i < LARGE_CACHE_SLOTS" "large_cache c i = None"
    and b: "\<forall>b. large_cache_budget_bytes c = Some b \<longrightarrow> large_cache_used_bytes c + span_usable hdr \<le> b"
  shows "\<exists>c'. cache_entry hdr base g i c = Inr c' \<and> cache_inv c'
    \<and> holdings c' = holdings c + {#(reservation hdr, reservation_len hdr)#}
    \<and> large_cache c' = (large_cache c)(i \<mapsto> entry_of hdr base (large_cache_seq c))
    \<and> os_released c' = os_released c \<and> large_phase (state_word c' base) = Some PhCached
    \<and> (\<forall>b. b \<noteq> base \<longrightarrow> state_word c' b = state_word c b)"
proof -
  let ?e = "entry_of hdr base (large_cache_seq c)"
  let ?c' = "c\<lparr>large_cache := (large_cache c)(i \<mapsto> ?e),
    large_cache_occupied := large_cache_occupied c OR push_bit i 1,
    large_cache_used_bytes := large_cache_used_bytes c + span_usable hdr,
    large_cache_seq := large_cache_seq c + 1, state_word := (state_word c)(base := packed_word PhCached g)\<rparr>"
  from dep have w: "in_phase (state_word c base) PhConsuming g"
    and fresh: "\<And>j e. cached c j e \<Longrightarrow> cl_base e \<noteq> base"
    and sum: "large_cache_used_bytes c + span_usable hdr \<le> usize_max" and seq: "large_cache_seq c < - 1"
    by (auto simp: depositable_def)
  have run: "cache_entry hdr base g i c = Inr ?c'"
    using consumed_swap(1) [OF w] i(1) sum
    by (simp add: cache_entry_def large_cache_slot_set_def usize_add_def entry_of_def Let_def)
  have cd: "cached ?c' j e \<longleftrightarrow> (if j = i then e = ?e else cached c j e)" for j e
    using i by (auto simp: cached_def)
  have ok: "entries_ok c" using inv by (simp add: cache_inv_def)
  have lt: "large_cache_seq c < large_cache_seq c + 1"
    by (rule word_less_Suc [OF seq])
  have "cl_seq e < large_cache_seq c + 1 \<and> cl_seq e \<noteq> large_cache_seq c" if "cached c j e" for j e
    using ok that lt unfolding entries_ok_def by (metis order.strict_trans order.irrefl)
  note old = this
  have new: "cl_seq ?e = large_cache_seq c" "cl_base ?e = base" by (simp_all add: entry_of_def)
  have "cl_seq e < large_cache_seq c + 1 \<and> large_phase (state_word ?c' (cl_base e)) = Some PhCached"
    if "cached ?c' j e" for j e
  proof (cases "j = i")
    case True
    then show ?thesis using that lt new unfolding cd by (simp add: pack_phase)
  next
    case False
    then have "cached c j e" using that unfolding cd by simp
    then show ?thesis using old [of j e] ok fresh [of j e] unfolding entries_ok_def by simp
  qed
  moreover have "j = k" if "cached ?c' j e" "cached ?c' k e'" "cl_seq e = cl_seq e' \<or> cl_base e = cl_base e'"
    for j k e e'
  proof (cases "j = i \<longleftrightarrow> k = i")
    case True
    show ?thesis
    proof (cases "j = i")
      case False
      then have "cached c j e" "cached c k e'" using that True unfolding cd by simp_all
      then show ?thesis using ok that(3) unfolding entries_ok_def by blast
    qed (use True in simp)
  next
    case False
    then show ?thesis using that old fresh new unfolding cd by (metis (full_types))
  qed
  ultimately have "entries_ok ?c'" unfolding entries_ok_def by auto
  moreover have "\<forall>j. bit (large_cache_occupied ?c') j \<longleftrightarrow> j < LARGE_CACHE_SLOTS \<and> large_cache ?c' j \<noteq> None"
    using inv i(1) unfolding cache_inv_def LARGE_CACHE_SLOTS_def by (auto simp: bit_simps)
  moreover have "large_cache_used_bytes ?c' = slot_sum cl_usable_size (large_cache ?c')"
    using inv slot_sum_put [where f = "large_cache c", OF i, of cl_usable_size]
    by (simp add: cache_inv_def entry_of_def)
  ultimately have "cache_inv ?c'" using sum b unfolding cache_inv_def by simp
  moreover have "holdings ?c' = holdings c + {#(reservation hdr, reservation_len hdr)#}"
    using slot_sum_put [where f = "large_cache c", OF i, of "\<lambda>e. {#(cl_reservation e, cl_reservation_len e)#}"]
    by (simp add: holdings_def entry_of_def)
  ultimately show ?thesis using run by (intro exI [of _ ?c']) (simp add: pack_phase)
qed

lemma release_refused_ok:
  assumes inv: "cache_inv c" and dep: "depositable hdr base g c"
  shows "\<exists>c'. release_refused hdr base g c = Inr c' \<and> cache_inv c'
    \<and> holdings c' = holdings c + {#(reservation hdr, reservation_len hdr)#}
    \<and> large_cache c' = large_cache c
    \<and> os_released c' = (reservation hdr, reservation_len hdr) # os_released c
    \<and> large_phase (state_word c' base) = Some PhReleased
    \<and> (\<forall>b. b \<noteq> base \<longrightarrow> state_word c' b = state_word c b)"
proof -
  let ?c' = "c\<lparr>state_word := (state_word c)(base := packed_word PhReleased g),
      os_released := (reservation hdr, reservation_len hdr) # os_released c\<rparr>"
  have run: "release_refused hdr base g c = Inr ?c'"
    using consumed_swap(2) dep by (simp add: release_refused_def depositable_def)
  have cd: "cached ?c' = cached c" by (simp add: fun_eq_iff cached_def)
  have "entries_ok ?c'" using inv dep unfolding cache_inv_def entries_ok_def cd depositable_def by auto
  then have "cache_inv ?c'" using inv unfolding cache_inv_def by (elim conjE, intro conjI) simp_all
  then show ?thesis using run by (intro exI [of _ ?c']) (simp add: pack_phase holdings_def)
qed

definition admissible :: "nat \<Rightarrow> nat \<Rightarrow> cache_state \<Rightarrow> bool" where
  "admissible al usable c \<longleftrightarrow> al < SEGMENT \<and> (\<forall>b. large_cache_budget_bytes c = Some b \<longrightarrow> usable \<le> b)"

lemma admit_ok:
  assumes inv: "cache_inv c" and sum: "large_cache_used_bytes c + usable \<le> usize_max"
  shows "\<exists>r c'. admit al usable c = Inr (r, c') \<and> cache_inv c' \<and> evicted c c' \<and> (case r of
      None \<Rightarrow> \<not> admissible al usable c \<and> c' = c
    | Some i \<Rightarrow> admissible al usable c \<and> i < LARGE_CACHE_SLOTS \<and> large_cache c' i = None
        \<and> (\<forall>b. large_cache_budget_bytes c' = Some b \<longrightarrow> large_cache_used_bytes c' + usable \<le> b))"
proof (cases "admissible al usable c")
  case True
  then have "feasible usable c" and al: "al < SEGMENT"
    and "\<not> large_cache_deposit_budget_infeasible usable c"
    using sum by (auto simp: feasible_def admissible_def large_cache_deposit_budget_infeasible_def split: option.split)
  then have "admit al usable c = admit_loop usable c" by (simp add: admit_def)
  with admit_loop_ok [OF inv \<open>feasible usable c\<close>] True show ?thesis by fastforce
next
  case False
  then have "admit al usable c = Inr (None, c)"
    by (auto simp: admit_def admissible_def large_cache_deposit_budget_infeasible_def not_le split: option.split)
  then show ?thesis using False inv by simp
qed

lemma deposit_large_ok:
  assumes inv: "cache_inv c" and dep: "depositable hdr base g c"
  defines "fits \<equiv> admissible (large_align hdr) (span_usable hdr) c"
  shows "\<exists>c'. deposit_large hdr base g c = Inr c' \<and> cache_inv c'
    \<and> holdings c' = holdings c + {#(reservation hdr, reservation_len hdr)#}
    \<and> large_phase (state_word c' base) = Some (if fits then PhCached else PhReleased)"
proof -
  have sum: "large_cache_used_bytes c + span_usable hdr \<le> usize_max" using dep by (simp add: depositable_def)
  obtain r c1 where c1: "admit (large_align hdr) (span_usable hdr) c = Inr (r, c1)" "cache_inv c1" "evicted c c1"
    and r: "case r of None \<Rightarrow> \<not> fits \<and> c1 = c | Some i \<Rightarrow> fits \<and> i < LARGE_CACHE_SLOTS \<and> large_cache c1 i = None
      \<and> (\<forall>b. large_cache_budget_bytes c1 = Some b \<longrightarrow> large_cache_used_bytes c1 + span_usable hdr \<le> b)"
    using admit_ok [OF inv sum, of "large_align hdr"] unfolding fits_def by blast
  show ?thesis
  proof (cases r)
    case None
    then show ?thesis using release_refused_ok [OF inv dep] c1(1) r by (auto simp: deposit_large_def)
  next
    case (Some i)
    then have i: "fits" "i < LARGE_CACHE_SLOTS" "large_cache c1 i = None"
      "\<forall>b. large_cache_budget_bytes c1 = Some b \<longrightarrow> large_cache_used_bytes c1 + span_usable hdr \<le> b"
      using r by simp_all
    from cache_entry_ok [OF c1(2) depositable_evicted [OF dep c1(3)] i(2-4)] obtain c' where
      c': "cache_entry hdr base g i c1 = Inr c'" "cache_inv c'"
        "holdings c' = holdings c1 + {#(reservation hdr, reservation_len hdr)#}"
        "large_phase (state_word c' base) = Some PhCached" by blast
    have "holdings c1 = holdings c" using c1(3) by (simp add: evicted_def)
    then show ?thesis using c1(1) Some i(1) c' by (intro exI [of _ c']) (simp add: deposit_large_def)
  qed
qed

subsection \<open>An example cache\<close>

definition entry_a :: cached_large where
  "entry_a = \<lparr>cl_reservation = 100, cl_reservation_len = 9000000, cl_base = 4194304,
     cl_usable_size = 8388608, cl_reserved_capacity = 8388608, cl_seq = 1\<rparr>"
definition entry_b :: cached_large where
  "entry_b = \<lparr>cl_reservation = 200, cl_reservation_len = 5000000, cl_base = 16777216,
     cl_usable_size = 4194304, cl_reserved_capacity = 4194304, cl_seq = 0\<rparr>"

definition sample_cache :: cache_state where
  "sample_cache = \<lparr>large_cache = [0 \<mapsto> entry_a, 1 \<mapsto> entry_b], large_cache_occupied = 3,
     large_cache_budget_bytes = Some 16777216, large_cache_used_bytes = 12582912, large_cache_seq = 2,
     decay_settings = \<lparr>decay_rate_bp = 1000, decay_interval = 100, headroom_bytes = 1000000\<rparr>,
     last_decay_tick = Some 50, large_cache_decay_op_count = 63,
     state_word = (\<lambda>b. if b = 0 then 12 else 13), os_released = []\<rparr>"

lemma sample_slots: "cached sample_cache i e \<longleftrightarrow> i = 0 \<and> e = entry_a \<or> i = 1 \<and> e = entry_b"
  by (auto simp: cached_def sample_cache_def LARGE_CACHE_SLOTS_def)

lemma sample_bits: "bit (3 :: u64) i \<longleftrightarrow> i < 2"
proof -
  have m: "(3 :: u64) = mask 2" by (simp add: mask_eq_exp_minus_1)
  show ?thesis unfolding m by (auto simp: bit_mask_iff simp del: mask_numeral)
qed

lemma sample_cache_inv: "cache_inv sample_cache"
proof -
  have "\<forall>i. bit (large_cache_occupied sample_cache) i
      \<longleftrightarrow> i < LARGE_CACHE_SLOTS \<and> large_cache sample_cache i \<noteq> None"
    unfolding sample_cache_def cache_state.simps sample_bits LARGE_CACHE_SLOTS_def by auto
  moreover have "slot_sum cl_usable_size (large_cache sample_cache) = 12582912"
    by (simp add: slot_sum_def sample_cache_def LARGE_CACHE_SLOTS_def entry_a_def entry_b_def
        lessThan_nat_numeral lessThan_Suc)
  moreover have "large_phase 13 = Some PhCached" by (simp add: phase_word mask_eq_exp_minus_1)
  then have "entries_ok sample_cache"
    unfolding entries_ok_def sample_slots
    by (auto simp: entry_a_def entry_b_def sample_cache_def)
  ultimately show ?thesis by (simp add: cache_inv_def) (simp add: sample_cache_def)
qed

definition sample_freed :: segment_header where
  "sample_freed = the (header_large 7 9000000 4096 12582912 12582912 9004096 300 13000000)"

lemma sample_depositable: "depositable sample_freed 0 1 sample_cache"
proof -
  have "in_phase 12 PhConsuming 1"
    by (simp add: in_phase_def phase_word large_generation_def PHASE_BITS_def mask_eq_exp_minus_1)
  then show ?thesis unfolding depositable_def sample_slots
    by (auto simp: sample_cache_def sample_freed_def header_large_def entry_a_def entry_b_def)
qed

subsection \<open>Properties\<close>

text \<open>C22: Eviction by amount releases the oldest deposits first and stops only when enough bytes
  are released or the cache is empty; it never fails, every reservation is either still cached or
  given back to the system exactly once, and every entry that stays is younger than every entry
  that went.\<close>

theorem cache_eviction_fifo:
  assumes "cache_inv c"
  shows "\<exists>c'. evict_at_least m c = Inr c' \<and> cache_inv c' \<and> holdings c' = holdings c
    \<and> (m \<le> large_cache_used_bytes c - large_cache_used_bytes c' \<or> (\<forall>i e. \<not> cached c' i e))
    \<and> (\<forall>i e j e'. cached c i e \<and> \<not> cached c' i e \<and> cached c' j e' \<longrightarrow> cl_seq e < cl_seq e')"
proof -
  from evict_at_least_ok [OF assms, of m] obtain c' where
    "evict_at_least m c = Inr c'" "cache_inv c'" "evicted c c'"
    "m \<le> large_cache_used_bytes c - large_cache_used_bytes c' \<or> (\<forall>i e. \<not> cached c' i e)" by blast
  then show ?thesis unfolding evicted_def by blast
qed

text \<open>C23: Freeing a large reservation with the claim in hand always succeeds: it is cached exactly
  when its alignment is below a segment and it fits the budget on its own, evicting older deposits
  as far as needed, and is released otherwise; the cache keeps its invariant (occupancy word, byte
  count, budget) and no reservation is lost or given back twice.\<close>

theorem cache_deposit_exact:
  assumes "cache_inv c" and "depositable hdr base g c"
  shows "\<exists>c'. deposit_large hdr base g c = Inr c' \<and> cache_inv c'
    \<and> holdings c' = holdings c + {#(reservation hdr, reservation_len hdr)#}
    \<and> large_phase (state_word c' base) = Some
        (if large_align hdr < SEGMENT \<and> (\<forall>b. large_cache_budget_bytes c = Some b \<longrightarrow> span_usable hdr \<le> b)
         then PhCached else PhReleased)"
  using deposit_large_ok [OF assms] unfolding admissible_def by blast

text \<open>The reuse scan returns the smallest cached reservation that is big enough, provided it is
  at most twice the requested size, and nothing only when no cached reservation qualifies.\<close>

theorem cache_best_fit:
  assumes "cache_inv c"
  shows "case best_fit usable c of
       None \<Rightarrow> \<forall>i e. cached c i e \<longrightarrow> \<not> (usable \<le> cl_usable_size e \<and> cl_usable_size e \<le> 2 * usable
          \<and> cl_usable_size e < usize_max)
     | Some i \<Rightarrow> \<exists>e. cached c i e \<and> usable \<le> cl_usable_size e \<and> cl_usable_size e \<le> 2 * usable
          \<and> (\<forall>j e'. cached c j e' \<and> usable \<le> cl_usable_size e' \<longrightarrow> cl_usable_size e \<le> cl_usable_size e')"
  by (rule best_fit_slot [OF assms])

text \<open>The decay hook never fails, keeps the invariant and the clock behind the current time, and
  makes progress: when the clock is read, an interval has passed and the step amounts to a byte,
  at least one entry leaves the cache.\<close>

theorem cache_decay_progress:
  assumes "cache_inv c" and "\<forall>t. last_decay_tick c = Some t \<longrightarrow> t \<le> now"
  shows "\<exists>c'. maybe_decay_large_cache now c = Inr c' \<and> cache_inv c' \<and> holdings c' = holdings c
    \<and> (\<forall>t. last_decay_tick c' = Some t \<longrightarrow> t \<le> now)
    \<and> (last_decay_tick c \<noteq> None \<and> unat (large_cache_decay_op_count c + 1) mod 64 = 0
        \<and> decay_interval (decay_settings c) \<le> now - the (last_decay_tick c) \<and> 0 < decay_release c
        \<longrightarrow> (\<exists>i e. cached c i e \<and> \<not> cached c' i e))"
proof -
  from maybe_decay_ok [OF assms] obtain c' where
    "maybe_decay_large_cache now c = Inr c'" "cache_inv c'" "evicted c c'"
    "\<forall>t. last_decay_tick c' = Some t \<longrightarrow> t \<le> now"
    "last_decay_tick c \<noteq> None \<and> unat (large_cache_decay_op_count c + 1) mod 64 = 0
        \<and> decay_interval (decay_settings c) \<le> now - the (last_decay_tick c) \<and> 0 < decay_release c
        \<longrightarrow> (\<exists>i e. cached c i e \<and> \<not> cached c' i e)" by (elim exE conjE) (rule that)
  moreover from this(3) have "holdings c' = holdings c" by (simp add: evicted_def)
  ultimately show ?thesis by (intro exI [of _ c'] conjI)
qed

lemma cache_eviction_fifo_witness:
  "\<exists>c'. evict_at_least 5000000 sample_cache = Inr c' \<and> cache_inv c' \<and> holdings c' = holdings sample_cache"
  using cache_eviction_fifo [OF sample_cache_inv] by blast

lemma cache_deposit_exact_witness:
  "\<exists>c'. deposit_large sample_freed 0 1 sample_cache = Inr c' \<and> cache_inv c'
    \<and> large_phase (state_word c' 0) = Some PhCached"
proof -
  have "large_align sample_freed < SEGMENT" by (simp add: sample_freed_def header_large_def SEGMENT_def)
  moreover have "\<forall>b. large_cache_budget_bytes sample_cache = Some b \<longrightarrow> span_usable sample_freed \<le> b"
    by (simp add: sample_freed_def header_large_def sample_cache_def)
  ultimately show ?thesis
    using cache_deposit_exact [OF sample_cache_inv sample_depositable] by auto
qed

lemma cache_best_fit_witness: "\<exists>i e. best_fit 4000000 sample_cache = Some i \<and> cached sample_cache i e"
proof -
  have b: "cached sample_cache 1 entry_b" "4000000 \<le> cl_usable_size entry_b"
    "cl_usable_size entry_b \<le> 2 * 4000000" "cl_usable_size entry_b < usize_max"
    by (simp add: sample_slots) (simp_all add: entry_b_def)
  note fit = cache_best_fit [OF sample_cache_inv, of 4000000]
  show ?thesis
  proof (cases "best_fit 4000000 sample_cache")
    case None
    from fit [unfolded None option.case] b show ?thesis by blast
  next
    case (Some i)
    from fit [unfolded Some option.case] Some show ?thesis by blast
  qed
qed

lemma cache_decay_progress_witness:
  "\<exists>c'. maybe_decay_large_cache 500 sample_cache = Inr c' \<and> cache_inv c'
    \<and> (\<exists>i e. cached sample_cache i e \<and> \<not> cached c' i e)"
proof -
  have t: "\<forall>t. last_decay_tick sample_cache = Some t \<longrightarrow> t \<le> 500" by (simp add: sample_cache_def)
  have "last_decay_tick sample_cache \<noteq> None \<and> unat (large_cache_decay_op_count sample_cache + 1) mod 64 = 0
     \<and> decay_interval (decay_settings sample_cache) \<le> 500 - the (last_decay_tick sample_cache)
     \<and> 0 < decay_release sample_cache"
    by (simp add: sample_cache_def decay_release_def)
  with cache_decay_progress [OF sample_cache_inv t] show ?thesis by blast
qed

end
