(* ===== verification/LargeHeap.thy ===== *)
theory LargeHeap
  imports SmallHeap LargeCache
begin

text \<open>
  Large allocations: a reservation of their own per block, registered in the table beside the
  small segments while in use, kept in the cache or given back when freed
  (\<open>src/alloc_core/large/alloc_core_large.rs\<close>, \<open>dealloc_large_at_base\<close> of
  \<open>alloc_core/mem/mem_impl.rs\<close>, \<open>Segment\<close> of \<open>platform/os.rs\<close>).  The build is that of
  the parts: whole-segment spans, no reserved capacity beyond them, one memory node, misuse checks
  on.  The answers of the operating system depend on the state in which it is asked, and the page
  size and the clock are arguments.
\<close>

subsection \<open>The state\<close>

text \<open>The small heap with the table and the headers, the cache with the state words, remote heads.\<close>

record alloc_core =
  core_heap :: small_heap
  core_cache :: cache_state
  core_heads :: "nat \<Rightarrow> u32"

type_synonym 'a core_run = "(fatal, 'a) run"

definition header_at :: "nat \<Rightarrow> alloc_core \<Rightarrow> segment_header" where
  "header_at b A = seg_mem (hpool (core_heap A)) b"

definition set_header :: "nat \<Rightarrow> (segment_header \<Rightarrow> segment_header) \<Rightarrow> alloc_core \<Rightarrow> alloc_core" where
  "set_header b f A = A\<lparr>core_heap := (core_heap A)\<lparr>hpool := on_header b f (hpool (core_heap A))\<rparr>\<rparr>"

definition core_table :: "alloc_core \<Rightarrow> segment_table" where
  "core_table A = seg_table (hpool (core_heap A))"

definition set_table :: "segment_table \<Rightarrow> alloc_core \<Rightarrow> alloc_core" where
  "set_table t A = A\<lparr>core_heap := (core_heap A)\<lparr>hpool := (hpool (core_heap A))\<lparr>seg_table := t\<rparr>\<rparr>\<rparr>"

definition terminal_at :: "nat \<Rightarrow> alloc_core \<Rightarrow> terminal_words" where
  "terminal_at b A = \<lparr>remote_head = core_heads A b, large_word = state_word (core_cache A) b\<rparr>"

definition put_word :: "nat \<Rightarrow> u64 \<Rightarrow> alloc_core \<Rightarrow> alloc_core" where
  "put_word b w A = A\<lparr>core_cache := (core_cache A)\<lparr>state_word := (state_word (core_cache A))(b := w)\<rparr>\<rparr>"

definition put_terminal :: "nat \<Rightarrow> terminal_words \<Rightarrow> alloc_core \<Rightarrow> alloc_core" where
  "put_terminal b tw A = (put_word b (large_word tw) A)\<lparr>core_heads := (core_heads A)(b := remote_head tw)\<rparr>"

text \<open>\<open>os::release_segment\<close>, and what the system answers.\<close>

definition give_back :: "nat \<Rightarrow> nat \<Rightarrow> alloc_core \<Rightarrow> alloc_core" where
  "give_back res len A =
     (if res = 0 then A
      else A\<lparr>core_cache := (core_cache A)\<lparr>os_released := (res, len) # os_released (core_cache A)\<rparr>\<rparr>)"

record os_calls =
  map_segments :: "nat \<Rightarrow> (nat \<times> nat \<times> nat) option"
  map_lazy :: "nat \<Rightarrow> (nat \<times> nat \<times> nat \<times> nat) option"
  commit_range :: "nat \<Rightarrow> nat \<Rightarrow> bool"

type_synonym system = "alloc_core \<Rightarrow> os_calls"

definition segment_reserve :: "os_calls \<Rightarrow> nat \<Rightarrow> (nat \<times> nat \<times> nat) option" where
  "segment_reserve calls len = (if len = 0 then None else map_segments calls (div_ceil len SEGMENT * SEGMENT))"

text \<open>
  Words of memory written by others than the allocator: the system, which maps zeroed pages, and
  the callers.  A word is the eight bytes at an address.
\<close>

definition store_words :: "nat set \<Rightarrow> (nat \<Rightarrow> nat) \<Rightarrow> small_heap \<Rightarrow> small_heap" where
  "store_words Q g H = H\<lparr>blk_cells := \<lambda>b off.
     if b + off \<in> Q \<and> b = segment_base_of (b + off) then g (b + off) else blk_cells H b off\<rparr>"

definition words_in :: "nat \<Rightarrow> nat \<Rightarrow> nat set" where
  "words_in a n = {q. a \<le> q \<and> q + 8 \<le> a + n}"

definition mapped :: "nat \<Rightarrow> nat \<Rightarrow> alloc_core \<Rightarrow> alloc_core" where
  "mapped b n A = A\<lparr>core_heap := store_words (words_in b n) (\<lambda>_. 0) (core_heap A)\<rparr>"

subsection \<open>Geometry\<close>

definition large_payload_offset :: "nat \<Rightarrow> nat \<Rightarrow> fatal + nat" where
  "large_payload_offset page align =
     (case align_up HEADER_SIZE (if SEGMENT \<le> align then page else max align page) of
        None \<Rightarrow> Inl ''align must be non-zero'' | Some off \<Rightarrow> Inr off)"

definition large_payload_address_matches :: "nat \<Rightarrow> nat \<Rightarrow> nat \<Rightarrow> bool" where
  "large_payload_address_matches address base off \<longleftrightarrow> base + off \<le> usize_max \<and> base + off = address"

definition large_payload_mismatch :: "nat \<Rightarrow> nat \<Rightarrow> alloc_core \<Rightarrow> bool" where
  "large_payload_mismatch base ptr A \<longleftrightarrow> kind (header_at base A) = Large
     \<and> \<not> large_payload_address_matches ptr base (payload_offset (header_at base A))"

definition reject_large_interior_free :: "nat \<Rightarrow> nat \<Rightarrow> alloc_core \<Rightarrow> bool" where
  "reject_large_interior_free base ptr A = large_payload_mismatch base ptr A"

definition large_usable :: "nat \<Rightarrow> nat option" where
  "large_usable needed =
     (let n_segments = div_ceil needed SEGMENT
      in if usize_max < n_segments * SEGMENT then None else Some (n_segments * SEGMENT))"

subsection \<open>Allocation\<close>

definition decay_both :: "nat \<Rightarrow> alloc_core \<Rightarrow> alloc_core core_run" where
  "decay_both now A =
     tbind (Some (maybe_decay_large_cache now (core_cache A))) (\<lambda>c.
     tbind (on_pool (maybe_decay_small_pool now) (core_heap A)) (\<lambda>H.
       ret (A\<lparr>core_cache := c, core_heap := H\<rparr>)))"

definition drain_heap :: "small_heap \<Rightarrow> small_heap heap_run" where
  "drain_heap = on_pool (\<lambda>p. tbind (drain_small_pool p) (\<lambda>(_, p'). ret p'))"

text \<open>
  The reservation of a new large block: biased when the alignment is a segment or more, whole
  segments otherwise.  The pointer comes with a flag: the memory is fresh from the system.
\<close>

definition reserve_large :: "os_calls \<Rightarrow> nat \<Rightarrow> nat \<Rightarrow> nat \<Rightarrow> (nat \<times> nat \<times> nat) option" where
  "reserve_large calls usable align off =
     (if SEGMENT \<le> align then reserve_biased (map_lazy calls) (commit_range calls) usable usable align off
      else segment_reserve calls usable)"

definition reserve_or_drain ::
    "system \<Rightarrow> nat \<Rightarrow> nat \<Rightarrow> nat \<Rightarrow> alloc_core \<Rightarrow> ((nat \<times> nat \<times> nat) option \<times> alloc_core) core_run" where
  "reserve_or_drain os usable align off A =
     (let seg = reserve_large (os A) usable align off
      in if seg = None \<and> 0 < pooled_count (hpool (core_heap A))
         then tbind (drain_heap (core_heap A)) (\<lambda>H.
           let A' = A\<lparr>core_heap := H\<rparr> in ret (reserve_large (os A') usable align off, A'))
         else ret (seg, A))"

definition alloc_large_slow ::
    "system \<Rightarrow> nat \<Rightarrow> nat \<Rightarrow> nat \<Rightarrow> nat \<Rightarrow> alloc_core \<Rightarrow> ((nat option \<times> bool) \<times> alloc_core) core_run" where
  "alloc_large_slow os sz align usable off A =
     tbind (reserve_or_drain os usable align off A) (\<lambda>(seg, A1).
       case seg of
         None \<Rightarrow> ret ((None, True), A1)
       | Some (b, res, len) \<Rightarrow>
           let A2 = mapped b usable A1 in
           tbind (register_payload b Large (b + off) (core_table A2)) (\<lambda>(r, t).
             case r of
               None \<Rightarrow> ret ((None, True), give_back res len (set_table t A2))
             | Some i \<Rightarrow>
                 (case header_large i sz align usable usable (off + sz) res len of
                    None \<Rightarrow> abort ''attempt to subtract with overflow''
                  | Some hdr \<Rightarrow>
                      tbind (Some init_large_terminal) (\<lambda>tw.
                        ret ((Some (b + off), True), put_terminal b tw (set_header b (\<lambda>_. hdr) (set_table t A2)))))))"

text \<open>The reuse of a cached reservation, with its two ways back to the slow path.\<close>

definition reuse_exhausted :: "cached_large \<Rightarrow> alloc_core \<Rightarrow> alloc_core core_run" where
  "reuse_exhausted slot A =
     (let b = cl_base slot; w = state_word (core_cache A) b
      in tbind (Some (release_cached (large_generation w) w)) (\<lambda>(ok, w').
           if \<not> ok then abort ''large: cached release failed''
           else ret (give_back (cl_reservation slot) (cl_reservation_len slot) (put_word b w' A))))"

definition reuse_refused :: "cached_large \<Rightarrow> u64 \<Rightarrow> alloc_core \<Rightarrow> alloc_core core_run" where
  "reuse_refused slot generation A =
     (let b = cl_base slot
      in tbind (Some (release_initializing generation (state_word (core_cache A) b))) (\<lambda>(ok, w').
           if \<not> ok then abort ''large: initializing release failed''
           else ret (give_back (cl_reservation slot) (cl_reservation_len slot) (put_word b w' A))))"

definition restamp :: "nat \<Rightarrow> nat \<Rightarrow> nat \<Rightarrow> segment_header \<Rightarrow> segment_header" where
  "restamp sz align off h =
     h\<lparr>magic := SEGMENT_MAGIC, large_size := sz, large_align := align, bump := off + sz, payload_offset := off\<rparr>"

text \<open>The four debug assertions on the header of the reservation taken.\<close>

definition reuse_diverged :: "cached_large \<Rightarrow> segment_header \<Rightarrow> bool" where
  "reuse_diverged slot pre \<longleftrightarrow> span_usable pre \<noteq> cl_usable_size slot
     \<or> reserved_capacity pre \<noteq> cl_reserved_capacity slot
     \<or> reservation pre \<noteq> cl_reservation slot \<or> reservation_len pre \<noteq> cl_reservation_len slot"

definition reuse_large ::
    "system \<Rightarrow> nat \<Rightarrow> nat \<Rightarrow> nat \<Rightarrow> nat \<Rightarrow> nat \<Rightarrow> alloc_core \<Rightarrow> ((nat option \<times> bool) \<times> alloc_core) core_run" where
  "reuse_large os sz align usable off idx A =
     tbind (Some (large_cache_slot_take idx (core_cache A))) (\<lambda>(slot, c).
     let b = cl_base slot; A1 = A\<lparr>core_cache := c\<rparr> in
     tbind (Some (begin_large_reuse (terminal_at b A1))) (\<lambda>(g, tw).
     let A2 = put_terminal b tw A1;
         A3 = A2\<lparr>core_cache := (core_cache A2)
           \<lparr>large_cache_used_bytes := large_cache_used_bytes (core_cache A2) - cl_usable_size slot\<rparr>\<rparr> in
     case g of
       None \<Rightarrow> tbind (reuse_exhausted slot A3) (alloc_large_slow os sz align usable off)
     | Some generation \<Rightarrow>
         if reuse_diverged slot (header_at b A3) then abort ''F12: header and cache slot diverged'' else
         let A4 = set_header b (restamp sz align off) A3 in
         tbind (register_payload b Large (b + off) (core_table A4)) (\<lambda>(r, t).
           case r of
             None \<Rightarrow> tbind (reuse_refused slot generation (set_table t A4)) (alloc_large_slow os sz align usable off)
           | Some i \<Rightarrow>
               let A5 = set_header b (\<lambda>h. h\<lparr>segment_id := i\<rparr>) (set_table t A4) in
               tbind (Some (finish_large_reuse generation (terminal_at b A5))) (\<lambda>tw'.
                 ret ((Some (b + off), False), put_terminal b tw' A5)))))"

definition alloc_large ::
    "system \<Rightarrow> nat \<Rightarrow> nat \<Rightarrow> nat \<Rightarrow> nat \<Rightarrow> alloc_core \<Rightarrow> ((nat option \<times> bool) \<times> alloc_core) core_run" where
  "alloc_large os page now sz align A =
     tbind (decay_both now A) (\<lambda>A1.
     tbind (Some (large_payload_offset page align)) (\<lambda>off.
       if usize_max < off + sz then ret ((None, True), A1)
       else case large_usable (off + sz) of
         None \<Rightarrow> ret ((None, True), A1)
       | Some usable \<Rightarrow>
           (case if align < SEGMENT then best_fit usable (core_cache A1) else None of
              Some idx \<Rightarrow> reuse_large os sz align usable off idx A1
            | None \<Rightarrow> alloc_large_slow os sz align usable off A1)))"

subsection \<open>Deallocation\<close>

definition dealloc_large_at_base :: "bool \<Rightarrow> nat \<Rightarrow> nat \<Rightarrow> nat \<Rightarrow> alloc_core \<Rightarrow> alloc_core core_run" where
  "dealloc_large_at_base safe_mode now ptr b A =
     (if reject_large_interior_free b ptr A
      then Some (shadow_reject safe_mode ''misuse check rejected a Large free of an interior pointer'' A)
      else
        tbind (Some (claim_live (state_word (core_cache A) b))) (\<lambda>(g, w).
        case g of
          None \<Rightarrow> abort ''mem_impl: large live credit missing on free''
        | Some generation \<Rightarrow>
            tbind (decay_both now (put_word b w A)) (\<lambda>A1.
            let stale = header_at b A1 in
            tbind (Some (admit (large_align stale) (span_usable stale) (core_cache A1))) (\<lambda>(admitted, c).
            let A2 = A1\<lparr>core_cache := c\<rparr> in
            tbind (unregister (seg_mem (hpool (core_heap A2))) b (core_table A2)) (\<lambda>t.
            let A3 = set_table t A2 in
            case admitted of
              Some slot_idx \<Rightarrow>
                let A4 = set_header b (\<lambda>h. h\<lparr>magic := 0\<rparr>) A3 in
                tbind (Some (cache_entry stale b generation slot_idx (core_cache A4))) (\<lambda>c'. ret (A4\<lparr>core_cache := c'\<rparr>))
            | None \<Rightarrow>
                tbind (Some (release_refused stale b generation (core_cache A3))) (\<lambda>c'. ret (A3\<lparr>core_cache := c'\<rparr>)))))))"

subsection \<open>The table with large segments\<close>

text \<open>A change of the table and the headers that leaves the small segments alone.\<close>

definition retable :: "(nat \<Rightarrow> segment_header) \<Rightarrow> segment_table \<Rightarrow> small_heap \<Rightarrow> small_heap" where
  "retable mem t H = H\<lparr>hpool := (hpool H)\<lparr>seg_mem := mem, seg_table := t\<rparr>\<rparr>"

lemma retable_fields [simp]:
  "seg_mem (hpool (retable mem t H)) = mem" "seg_table (hpool (retable mem t H)) = t"
  "small_cur (hpool (retable mem t H)) = small_cur (hpool H)"
  "small_class_cursor (hpool (retable mem t H)) = small_class_cursor (hpool H)"
  "bin_heads (hpool (retable mem t H)) = bin_heads (hpool H)"
  "pool_cap (hpool (retable mem t H)) = pool_cap (hpool H)"
  by (simp_all add: retable_def)

lemma retable_ok:
  assumes inv: "heap_inv H ps" and t: "table_inv mem t m" "0 \<in> live t" "slots t ! 0 = slots (seg_table (hpool H)) ! 0"
    and ids: "\<forall>i \<in> live t. segment_id (mem (slots t ! i)) = i"
    and small: "\<And>s. small_base (retable mem t H) s \<longleftrightarrow> small_base H s" "\<And>s. small_base H s \<Longrightarrow> mem s = seg_mem (hpool H) s"
    and cur: "small_slots (hpool H) \<subseteq> small_slots (hpool (retable mem t H))"
    and prev: "\<And>s. in_table (hpool (retable mem t H)) s \<Longrightarrow> kind (mem s) = Large \<Longrightarrow> pool_prev (mem s) = 0"
  shows "heap_inv (retable mem t H) ps" "heap_blocks (retable mem t H) = heap_blocks H"
    "heap_word (retable mem t H) = heap_word H"
proof -
  let ?H = "retable mem t H"
  from inv obtain m0 where pinv: "pool_inv (hpool H) m0 ps" by (rule table_of)
  have ok: "segs_ok H" using inv by (simp add: heap_inv_def)
  have "env_ok (hpool ?H) m"
    using pinv t ids cur by (auto simp: env_ok_def pool_inv_def)
  moreover have pooled: "small_base H b" if "b \<in> set ps" for b
    using that pinv by (auto simp: pool_inv_def idle_def dec_live_iff small_base_def)
  have "lseg mem 0 ps 0 = lseg (seg_mem (hpool H)) 0 ps 0"
    by (rule lseg_cong) (use pooled small(2) in simp)
  then have "pool_list (hpool ?H) ps" using pinv by (simp add: pool_inv_def pool_list_def retable_def)
  moreover have "idle (hpool ?H) b" if "b \<in> set ps" for b
  proof -
    have b: "small_base H b" "idle (hpool H) b" using that pooled pinv by (simp_all add: pool_inv_def)
    have "mem b = seg_mem (hpool H) b" by (rule small(2) [OF b(1)])
    moreover have "small_base ?H b" using small(1) b(1) by simp
    then have "in_table (hpool ?H) b" by (simp add: small_base_def)
    ultimately show ?thesis using b(2) t(3) by (simp add: idle_def dec_live_iff payload_key_def)
  qed
  moreover have "pool_prev (mem b) = 0" if "in_table (hpool ?H) b" "b \<notin> set ps" for b
  proof (cases "kind (mem b) = Large")
    case False
    then have b: "small_base H b" using that(1) small(1) [of b] by (simp add: small_base_def)
    then show ?thesis using that(2) small(2) [OF b] pinv by (simp add: pool_inv_def small_base_def)
  qed (use prev that in blast)
  ultimately have "pool_inv (hpool ?H) m ps" using pinv by (simp add: pool_inv_def)
  moreover have seg: "segment_at b ?H = segment_at b H" if "small_base H b" for b
    using small(2) [OF that] by (simp add: segment_at_def retable_def)
  have "in_table (hpool H) (slots (seg_table (hpool H)) ! 0)"
    using pinv by (auto simp: pool_inv_def env_ok_def in_table_def)
  then have "small_base H (slots (seg_table (hpool H)) ! 0)" using ok by (simp add: segs_ok_def small_base_def)
  then have "kind (mem (slots t ! 0)) = Primordial" using small(2) t(3) ok by (simp add: segs_ok_def)
  then have "segs_ok ?H" using ok seg small(2) unfolding segs_ok_def small(1)
    by (auto simp: payload_key_def)
  ultimately show "heap_inv ?H ps" by (auto simp: heap_inv_def)
  show "heap_blocks ?H = heap_blocks H"
    by (simp add: fun_eq_iff heap_blocks_def Let_def small(1) seg)
  show "heap_word ?H = heap_word H" by (simp add: fun_eq_iff heap_word_def retable_def)
qed

lemma register_large_ok:
  assumes inv: "heap_inv H ps" and b: "b \<noteq> 0" "\<not> in_table (hpool H) b"
    and hdr: "kind hdr = Large" "pool_prev hdr = 0"
    and key: "\<And>s. in_table (hpool H) s \<Longrightarrow> payload_key (seg_mem (hpool H)) s \<noteq> segment_base_of (b + payload_offset hdr)"
  defines "mem i \<equiv> (seg_mem (hpool H))(b := hdr\<lparr>segment_id := i\<rparr>)"
  shows "\<exists>r t. register_payload b Large (b + payload_offset hdr) (seg_table (hpool H)) = Some (Inr (r, t)) \<and> (case r of
      None \<Rightarrow> t = seg_table (hpool H) \<and> live (seg_table (hpool H)) = {..<4096}
    | Some i \<Rightarrow> heap_inv (retable (mem i) t H) ps \<and> heap_blocks (retable (mem i) t H) = heap_blocks H
        \<and> heap_word (retable (mem i) t H) = heap_word H
        \<and> (\<forall>s. in_table (hpool (retable (mem i) t H)) s \<longleftrightarrow> in_table (hpool H) s \<or> s = b))"
proof -
  let ?t = "seg_table (hpool H)" and ?key = "segment_base_of (b + payload_offset hdr)"
  from inv obtain m where pinv: "pool_inv (hpool H) m ps" and tinv: "table_inv (seg_mem (hpool H)) ?t m"
    by (rule table_of)
  have env: "env_ok (hpool H) m" using pinv by (simp add: pool_inv_def)
  have mem: "mem i b = hdr\<lparr>segment_id := i\<rparr>" "s \<noteq> b \<Longrightarrow> mem i s = seg_mem (hpool H) s" for i s
    by (simp_all add: mem_def)
  have other: "slots ?t ! j \<noteq> b" if "j \<in> live ?t" for j using that b(2) by (auto simp: in_table_def)
  have tinv': "table_inv (mem i) ?t m" for i
    by (rule table_inv_live_cong [OF tinv]) (use other mem(2) in simp)
  have fresh: "b \<notin> (\<lambda>j. slots ?t ! j) ` live ?t" using other by blast
  have pk: "payload_key (mem i) b = ?key" for i by (simp add: payload_key_def mem(1))
  have absent: "m ?key = None"
  proof (rule ccontr)
    assume "m ?key \<noteq> None"
    then obtain j where "m ?key = Some j" by blast
    then have "j \<in> live ?t \<and> ?key = payload_key (seg_mem (hpool H)) (slots ?t ! j)"
      using tinv keys_live by (auto simp: table_inv_def)
    then show False using key [of "slots ?t ! j"] by (auto simp: in_table_def)
  qed
  define i where "i = next_register_slot (free_top ?t \<noteq> 0) ?t"
  have k: "kind (mem i b) = Large" by (simp add: mem(1) hdr(1))
  from register_payload_ok [OF tinv' disjI2 [OF refl] k b(1) fresh pk absent]
  consider "live ?t = {..<4096}" "register_payload b Large (b + payload_offset hdr) ?t = Some (Inr (None, ?t))"
    | t' where "i < 4096" "i \<notin> live ?t" "live t' = insert i (live ?t)"
      "register_payload b Large (b + payload_offset hdr) ?t = Some (Inr (Some i, t'))"
      "table_inv (mem i) t' (m(?key \<mapsto> i))" "slots t' = (slots ?t)[i := b]"
    unfolding i_def by blast
  then show ?thesis
  proof cases
    case 1
    then show ?thesis by auto
  next
    case 2
    let ?H = "retable (mem i) t' H"
    have len: "length (slots ?t) = 4096" using tinv by (simp add: table_inv_def)
    have at: "slots t' ! j = (if j = i then b else slots ?t ! j)" for j using 2(1) len unfolding 2(6) by simp
    have zero: "0 \<in> live ?t" using env by (simp add: env_ok_def)
    have tab: "in_table (hpool ?H) s \<longleftrightarrow> in_table (hpool H) s \<or> s = b" for s
      unfolding in_table_def retable_fields 2(3) using at 2(2) by auto
    have 4: "0 \<in> live t'" "slots t' ! 0 = slots ?t ! 0" using zero 2(2,3) at [of 0] by auto
    have ids: "\<forall>j \<in> live t'. segment_id (mem i (slots t' ! j)) = j"
      using env 2(2,3) at other mem by (auto simp: env_ok_def)
    have sb: "small_base ?H s \<longleftrightarrow> small_base H s" for s
      unfolding small_base_def tab using b(2) mem hdr(1) by (cases "s = b") auto
    have ms: "mem i s = seg_mem (hpool H) s" if "small_base H s" for s
    proof (rule mem(2))
      show "s \<noteq> b" using that b(2) by (auto simp: small_base_def)
    qed
    have sl: "small_slots (hpool H) \<subseteq> small_slots (hpool ?H)"
      using 2(2,3) at other mem(2) by (auto simp: small_slots_def)
    have prev: "pool_prev (mem i s) = 0" if "in_table (hpool ?H) s" "kind (mem i s) = Large" for s
    proof (cases "s = b")
      case False
      then have s: "in_table (hpool H) s" "kind (seg_mem (hpool H) s) = Large" using that tab mem(2) by simp_all
      then have "s \<notin> set ps" using pinv by (auto simp: pool_inv_def idle_def dec_live_iff)
      then show ?thesis using s(1) pinv mem(2) [OF False] by (simp add: pool_inv_def)
    qed (simp add: mem(1) hdr(2))
    note new = retable_ok [OF inv 2(5) 4 ids sb ms sl prev]
    show ?thesis
    proof (intro exI conjI)
      show "register_payload b Large (b + payload_offset hdr) ?t = Some (Inr (Some i, t'))" by (rule 2(4))
    qed (unfold option.case, use new tab in blast)
  qed
qed

lemma unregister_large_ok:
  assumes inv: "heap_inv H ps" and b: "b \<noteq> 0" "in_table (hpool H) b" "kind (seg_mem (hpool H) b) = Large"
  shows "\<exists>t. unregister (seg_mem (hpool H)) b (seg_table (hpool H)) = Some (Inr t)
    \<and> (\<forall>h. let H' = retable ((seg_mem (hpool H))(b := h)) t H in heap_inv H' ps \<and> heap_blocks H' = heap_blocks H
        \<and> heap_word H' = heap_word H \<and> (\<forall>s. in_table (hpool H') s \<longleftrightarrow> in_table (hpool H) s \<and> s \<noteq> b))"
proof -
  let ?t = "seg_table (hpool H)" and ?mem = "seg_mem (hpool H)"
  from inv obtain m where pinv: "pool_inv (hpool H) m ps" and tinv: "table_inv ?mem ?t m" by (rule table_of)
  have env: "env_ok (hpool H) m" using pinv by (simp add: pool_inv_def)
  from b(2) obtain i where i: "i \<in> live ?t" "slots ?t ! i = b" by (auto simp: in_table_def)
  then have id: "segment_id (?mem b) = i" using env by (auto simp: env_ok_def)
  have prim: "kind (?mem (slots ?t ! 0)) = Primordial" using inv by (simp add: heap_inv_def segs_ok_def)
  have "slots ?t ! 0 \<noteq> b"
  proof
    assume "slots ?t ! 0 = b"
    then show False using prim b(3) by simp
  qed
  then have "i \<noteq> 0" using i(2) by metis
  have at_i: "base_at ?t i = b" using i by (simp add: base_at_def live_def)
  from unregister_ok [OF tinv id \<open>i \<noteq> 0\<close> b(1), unfolded if_P [OF at_i]] obtain t where
    t: "unregister ?mem b ?t = Some (Inr t)" "table_inv ?mem t (m(payload_key ?mem b := None))"
      "live t = live ?t - {i}" "\<forall>j \<in> live t. slots t ! j = slots ?t ! j" by blast
  have one: "j = i" if "j \<in> live ?t" "slots ?t ! j = b" for j
    using that i tinv by (auto simp: table_inv_def keys_ok_def)
  have "heap_inv (retable (?mem(b := h)) t H) ps \<and> heap_blocks (retable (?mem(b := h)) t H) = heap_blocks H
      \<and> heap_word (retable (?mem(b := h)) t H) = heap_word H
      \<and> (\<forall>s. in_table (hpool (retable (?mem(b := h)) t H)) s \<longleftrightarrow> in_table (hpool H) s \<and> s \<noteq> b)" for h
  proof -
    let ?H = "retable (?mem(b := h)) t H"
    have stay: "slots t ! j = slots ?t ! j" "j \<in> live ?t" "j \<noteq> i" if "j \<in> live t" for j
      using bspec [OF t(4) that] that unfolding t(3) by simp_all
    have other: "slots t ! j \<noteq> b" if "j \<in> live t" for j using stay [OF that] one by metis
    have tinv': "table_inv (?mem(b := h)) t (m(payload_key ?mem b := None))"
      by (rule table_inv_live_cong [OF t(2)]) (use other in simp)
    have tab: "in_table (hpool ?H) s \<longleftrightarrow> in_table (hpool H) s \<and> s \<noteq> b" for s
    proof
      assume "in_table (hpool ?H) s"
      then obtain j where "j \<in> live t" "slots t ! j = s" by (auto simp: in_table_def)
      then show "in_table (hpool H) s \<and> s \<noteq> b" using stay [of j] other [of j] by (auto simp: in_table_def)
    next
      assume s: "in_table (hpool H) s \<and> s \<noteq> b"
      then obtain j where j: "j \<in> live ?t" "slots ?t ! j = s" by (auto simp: in_table_def)
      then have "j \<in> live t" unfolding t(3) using s i by auto
      then show "in_table (hpool ?H) s" using stay [of j] j by (auto simp: in_table_def)
    qed
    have "0 \<in> live ?t" using env by (simp add: env_ok_def)
    then have "0 \<in> live t" unfolding t(3) using \<open>i \<noteq> 0\<close> by simp
    then have 4: "0 \<in> live t" "slots t ! 0 = slots ?t ! 0" using stay by simp_all
    have ids: "\<forall>j \<in> live t. segment_id ((?mem(b := h)) (slots t ! j)) = j"
      using env stay other by (auto simp: env_ok_def)
    have sb: "small_base ?H s \<longleftrightarrow> small_base H s" for s
      unfolding small_base_def tab using b(3) by (cases "s = b") auto
    have ms: "(?mem(b := h)) s = ?mem s" if "small_base H s" for s
      using that b(3) by (auto simp: small_base_def)
    have sl: "small_slots (hpool H) \<subseteq> small_slots (hpool ?H)"
    proof
      fix j assume "j \<in> small_slots (hpool H)"
      then have j: "j \<in> live ?t" "kind (?mem (slots ?t ! j)) \<noteq> Large" by (simp_all add: small_slots_def)
      then have "j \<noteq> i" using i(2) b(3) by auto
      then have "j \<in> live t" unfolding t(3) using j(1) by simp
      then show "j \<in> small_slots (hpool ?H)" using j(2) stay(1) other by (simp add: small_slots_def)
    qed
    have prev: "pool_prev ((?mem(b := h)) s) = 0" if "in_table (hpool ?H) s" "kind ((?mem(b := h)) s) = Large" for s
    proof -
      have s: "in_table (hpool H) s" "kind (?mem s) = Large" "s \<noteq> b" using that tab by (auto split: if_splits)
      then have "s \<notin> set ps" using pinv by (auto simp: pool_inv_def idle_def dec_live_iff)
      then show ?thesis using s pinv by (simp add: pool_inv_def)
    qed
    show ?thesis using retable_ok [OF inv tinv' 4 ids sb ms sl prev] tab by blast
  qed
  then show ?thesis using t(1) unfolding Let_def by blast
qed

subsection \<open>The invariant\<close>

text \<open>
  The segments of the table and the cached reservations lie apart; a large segment has its block
  inside, aligned, and a live state word unless it is one of \<open>E\<close>, which are being freed; a cached
  reservation is not in the table, and its header still tells its extent.
\<close>

definition large_base :: "alloc_core \<Rightarrow> nat \<Rightarrow> bool" where
  "large_base A b \<longleftrightarrow> in_table (hpool (core_heap A)) b \<and> kind (header_at b A) = Large"

definition large_header_ok :: "nat \<Rightarrow> segment_header \<Rightarrow> bool" where
  "large_header_ok b h \<longleftrightarrow> b \<noteq> 0 \<and> b + span_usable h \<le> 2 ^ 64 \<and> 0 < large_size h
     \<and> payload_offset h + large_size h \<le> span_usable h \<and> large_align h dvd b + payload_offset h
     \<and> b \<le> segment_base_of (b + payload_offset h) \<and> (large_align h < SEGMENT \<longrightarrow> segment_key b)
     \<and> reservation h \<noteq> 0 \<and> HEADER_SIZE \<le> payload_offset h"

definition large_sound :: "nat set \<Rightarrow> alloc_core \<Rightarrow> nat \<Rightarrow> bool" where
  "large_sound E A b \<longleftrightarrow> large_header_ok b (header_at b A)
     \<and> (b \<notin> E \<longrightarrow> large_phase (state_word (core_cache A) b) = Some PhLive)"

definition cached_header_ok :: "cached_large \<Rightarrow> segment_header \<Rightarrow> bool" where
  "cached_header_ok e h \<longleftrightarrow> kind h = Large \<and> pool_prev h = 0 \<and> span_usable h = cl_usable_size e
     \<and> reservation h = cl_reservation e \<and> reservation_len h = cl_reservation_len e
     \<and> reserved_capacity h = cl_reserved_capacity e"

definition cached_sound :: "alloc_core \<Rightarrow> cached_large \<Rightarrow> bool" where
  "cached_sound A e \<longleftrightarrow> \<not> in_table (hpool (core_heap A)) (cl_base e) \<and> segment_key (cl_base e) \<and> cl_base e \<noteq> 0
     \<and> cl_base e + cl_usable_size e \<le> 2 ^ 64 \<and> cl_reservation e \<noteq> 0
     \<and> cached_header_ok e (header_at (cl_base e) A)"

definition region :: "alloc_core \<Rightarrow> nat \<Rightarrow> nat \<Rightarrow> bool" where
  "region A b n \<longleftrightarrow> (in_table (hpool (core_heap A)) b \<and> n = seg_span (core_heap A) b)
     \<or> (\<exists>i e. cached (core_cache A) i e \<and> b = cl_base e \<and> n = cl_usable_size e)"

definition regions_apart :: "alloc_core \<Rightarrow> bool" where
  "regions_apart A \<longleftrightarrow> (\<forall>b n c l. region A b n \<and> region A c l \<and> b \<noteq> c \<longrightarrow> b + n \<le> c \<or> c + l \<le> b)"

definition core_inv :: "nat set \<Rightarrow> alloc_core \<Rightarrow> nat list \<Rightarrow> bool" where
  "core_inv E A ps \<longleftrightarrow> heap_inv (core_heap A) ps \<and> cache_inv (core_cache A)
     \<and> (\<forall>b. large_base A b \<longrightarrow> large_sound E A b)
     \<and> (\<forall>i e. cached (core_cache A) i e \<longrightarrow> cached_sound A e) \<and> regions_apart A"

text \<open>Addresses nothing occupies; the system maps only there.\<close>

definition vacant :: "alloc_core \<Rightarrow> nat \<Rightarrow> nat \<Rightarrow> bool" where
  "vacant A b n \<longleftrightarrow> clear (core_heap A) b n
     \<and> (\<forall>i e. cached (core_cache A) i e \<longrightarrow>
          (cl_base e + cl_usable_size e \<le> b \<or> b + n \<le> cl_base e) \<and> cl_base e \<noteq> b)"

definition answers_fresh :: "alloc_core \<Rightarrow> os_calls \<Rightarrow> bool" where
  "answers_fresh A calls \<longleftrightarrow>
     (\<forall>n b res len. map_segments calls n = Some (b, res, len) \<longrightarrow>
        segment_key b \<and> b \<noteq> 0 \<and> b + n \<le> 2 ^ 64 \<and> res \<noteq> 0 \<and> vacant A b n)
     \<and> (\<forall>n b raw res len. map_lazy calls n = Some (b, raw, res, len) \<longrightarrow>
        b \<noteq> 0 \<and> b + raw \<le> 2 ^ 64 \<and> vacant A b raw)"

definition fresh_system :: "system \<Rightarrow> bool" where
  "fresh_system os \<longleftrightarrow> (\<forall>A. answers_fresh A (os A))"

lemma core_inv_parts:
  assumes "core_inv E A ps"
  shows "heap_inv (core_heap A) ps" "cache_inv (core_cache A)" "regions_apart A"
    "large_base A b \<Longrightarrow> large_sound E A b" "cached (core_cache A) i e \<Longrightarrow> cached_sound A e"
  using assms unfolding core_inv_def by blast+

lemma no_links_large:
  assumes "no_links h' = no_links h"
  shows "large_header_ok b h' = large_header_ok b h" "large_size h' = large_size h"
    "payload_offset h' = payload_offset h" "reservation h' = reservation h" "reservation_len h' = reservation_len h"
proof -
  have "large_size h' = large_size h" "large_align h' = large_align h" "payload_offset h' = payload_offset h"
    "span_usable h' = span_usable h" "reservation h' = reservation h" "reservation_len h' = reservation_len h"
    using arg_cong [OF assms, of large_size] arg_cong [OF assms, of large_align]
      arg_cong [OF assms, of payload_offset] arg_cong [OF assms, of span_usable]
      arg_cong [OF assms, of reservation] arg_cong [OF assms, of reservation_len] by (simp_all add: no_links_def)
  then show "large_header_ok b h' = large_header_ok b h" "large_size h' = large_size h"
    "payload_offset h' = payload_offset h" "reservation h' = reservation h" "reservation_len h' = reservation_len h"
    by (simp_all add: large_header_ok_def)
qed

lemma vacant_region:
  assumes "vacant A b n" and "region A c l"
  shows "c + l \<le> b \<or> b + n \<le> c" "c \<noteq> b"
  using assms unfolding vacant_def clear_def region_def by blast+

lemma regions_apart_grow:
  assumes "regions_apart A" and new: "\<And>b n. region A' b n \<Longrightarrow> region A b n \<or> b = x \<and> n = l"
    and v: "\<And>c k. region A c k \<Longrightarrow> c + k \<le> x \<or> x + l \<le> c"
  shows "regions_apart A'"
  unfolding regions_apart_def
proof (intro allI impI, elim conjE)
  fix b n c k assume "region A' b n" "region A' c k" "b \<noteq> c"
  with new [of b n] new [of c k] consider "region A b n" "region A c k" | "region A b n" "c = x" "k = l"
    | "region A c k" "b = x" "n = l" by blast
  then show "b + n \<le> c \<or> c + k \<le> b"
  proof cases
    case 1
    then show ?thesis using assms(1) \<open>b \<noteq> c\<close> unfolding regions_apart_def by blast
  next
    case 2
    then show ?thesis using v [of b n] by blast
  next
    case 3
    then show ?thesis using v [of c k] by blast
  qed
qed

lemma regions_apart_shrink:
  assumes "regions_apart A" and "\<And>b n. region A' b n \<Longrightarrow> region A b n"
  shows "regions_apart A'"
  using assms unfolding regions_apart_def by blast

subsection \<open>Steps of the small heap and of the cache\<close>

lemma large_moves:
  assumes mv: "moves X (core_heap A) H"
  defines "A' \<equiv> A\<lparr>core_heap := H\<rparr>"
  shows "large_base A' b \<longleftrightarrow> large_base A b"
    "large_base A b \<Longrightarrow> no_links (header_at b A') = no_links (header_at b A)"
proof -
  show *: "large_base A b \<Longrightarrow> no_links (header_at b A') = no_links (header_at b A)"
    using mv by (simp add: moves_def large_base_def header_at_def A'_def)
  show "large_base A' b \<longleftrightarrow> large_base A b"
  proof
    assume "large_base A' b"
    then have "in_table (hpool H) b" "kind (seg_mem (hpool H) b) = Large"
      by (simp_all add: large_base_def header_at_def A'_def)
    then show "large_base A b" using moves_table [OF mv, of b]
      by (auto simp: large_base_def header_at_def extent_def)
  next
    assume b: "large_base A b"
    then have "in_table (hpool H) b" using mv by (simp add: moves_def large_base_def header_at_def)
    moreover have "kind (header_at b A') = Large" using no_links_live [OF * [OF b]] b by (simp add: large_base_def)
    ultimately show "large_base A' b" by (simp add: large_base_def A'_def)
  qed
qed

lemma core_moves:
  assumes inv: "core_inv E A ps" and H: "heap_inv H ps'" and mv: "moves X (core_heap A) H"
    and X: "X \<subseteq> {x}" "x \<in> X \<Longrightarrow> vacant A x SEGMENT"
  shows "core_inv E (A\<lparr>core_heap := H\<rparr>) ps'"
proof -
  let ?A = "A\<lparr>core_heap := H\<rparr>"
  note lg = large_moves [OF mv]
  have "large_sound E ?A b" if "large_base ?A b" for b
  proof -
    have b: "large_base A b" using that lg(1) by simp
    then show ?thesis using core_inv_parts(4) [OF inv b] no_links_large(1) [OF lg(2) [OF b]]
      by (simp add: large_sound_def)
  qed
  moreover have "cached_sound ?A e" if e: "cached (core_cache A) i e" for i e
  proof -
    have s: "cached_sound A e" by (rule core_inv_parts(5) [OF inv e])
    have n: "cl_base e \<notin> X" using X e by (auto simp: vacant_def)
    then have "\<not> in_table (hpool H) (cl_base e)" using moves_table [OF mv, of "cl_base e"] s
      by (auto simp: cached_sound_def)
    moreover have "header_at (cl_base e) ?A = header_at (cl_base e) A"
      using mv n s by (simp add: moves_def cached_sound_def header_at_def)
    ultimately show ?thesis using s by (simp add: cached_sound_def)
  qed
  moreover have reg: "region A b n \<or> b \<in> X \<and> n = SEGMENT" if "region ?A b n" for b n
  proof (cases "in_table (hpool H) b \<and> n = seg_span H b")
    case True
    then show ?thesis using moves_table [OF mv, of b]
      by (auto simp: region_def seg_span_def extent_def)
  next
    case False
    then show ?thesis using that by (auto simp: region_def)
  qed
  have "regions_apart ?A"
  proof (cases "x \<in> X")
    case True
    show ?thesis
      by (rule regions_apart_grow [OF core_inv_parts(3) [OF inv], of _ x SEGMENT])
        (use reg X True vacant_region(1) [OF X(2) [OF True]] in blast)+
  next
    case False
    then show ?thesis using reg X(1) by (intro regions_apart_shrink [OF core_inv_parts(3) [OF inv]]) blast
  qed
  ultimately show ?thesis using inv H by (simp add: core_inv_def)
qed

lemma core_shrunk:
  assumes inv: "core_inv E A ps" and c: "cache_inv c" "\<And>i e. cached c i e \<Longrightarrow> cached (core_cache A) i e"
    and word: "\<And>b. large_base A b \<Longrightarrow> b \<notin> E' \<Longrightarrow> b \<notin> E \<and> state_word c b = state_word (core_cache A) b"
  shows "core_inv E' (A\<lparr>core_cache := c\<rparr>) ps"
proof -
  let ?A = "A\<lparr>core_cache := c\<rparr>"
  have lb: "large_base ?A b = large_base A b" for b by (simp add: large_base_def header_at_def)
  have "large_sound E' ?A b" if "large_base ?A b" for b
    using core_inv_parts(4) [OF inv, of b] word [of b] that lb by (simp add: large_sound_def header_at_def)
  moreover have "cached_sound ?A e" if "cached c i e" for i e
    using core_inv_parts(5) [OF inv c(2) [OF that]] by (simp add: cached_sound_def header_at_def)
  moreover have "regions_apart ?A"
    by (rule regions_apart_shrink [OF core_inv_parts(3) [OF inv]]) (use c(2) in \<open>auto simp: region_def\<close>)
  ultimately show "core_inv E' ?A ps" using inv c(1) by (simp add: core_inv_def)
qed

lemma large_not_cached:
  assumes "core_inv E A ps" and "large_base A b" and "cached (core_cache A) i e"
  shows "cl_base e \<noteq> b"
  using core_inv_parts(5) [OF assms(1,3)] assms(2) by (auto simp: cached_sound_def large_base_def)

lemma core_evicted:
  assumes inv: "core_inv E A ps" and c: "cache_inv c" "evicted (core_cache A) c"
  shows "core_inv E (A\<lparr>core_cache := c\<rparr>) ps"
proof (rule core_shrunk [OF inv c(1)])
  show "cached (core_cache A) i e" if "cached c i e" for i e using c(2) that by (simp add: evicted_def)
  show "b \<notin> E \<and> state_word c b = state_word (core_cache A) b" if "large_base A b" "b \<notin> E" for b
    using c(2) large_not_cached [OF inv that(1)] that(2) by (simp add: evicted_def)
qed

subsection \<open>The blocks in use\<close>

text \<open>Address and size of every block, small and large, and the words of memory at stake.\<close>

definition smalls :: "alloc_core \<Rightarrow> (nat \<times> nat) set" where
  "smalls A = {(a, class_size c) | a c. heap_blocks (core_heap A) a = Some c}"

definition larges :: "alloc_core \<Rightarrow> (nat \<times> nat) set" where
  "larges A = {(b + payload_offset (header_at b A), large_size (header_at b A)) | b. large_base A b}"

definition in_use :: "alloc_core \<Rightarrow> (nat \<times> nat) set" where
  "in_use A = smalls A \<union> larges A"

definition keeps :: "(nat \<times> nat) set \<Rightarrow> alloc_core \<Rightarrow> alloc_core \<Rightarrow> bool" where
  "keeps S A A' \<longleftrightarrow> (\<forall>a n q. (a, n) \<in> S \<and> a \<le> q \<and> q < a + n
     \<longrightarrow> heap_word (core_heap A') q = heap_word (core_heap A) q)"

definition holds_larges :: "alloc_core \<Rightarrow> alloc_core \<Rightarrow> bool" where
  "holds_larges A A' \<longleftrightarrow> (\<forall>b. large_base A b \<longrightarrow> large_base A' b
     \<and> payload_offset (header_at b A') = payload_offset (header_at b A)
     \<and> large_size (header_at b A') = large_size (header_at b A))"

lemma holds_larges_trans: "holds_larges A A1 \<Longrightarrow> holds_larges A1 A2 \<Longrightarrow> holds_larges A A2"
  by (simp add: holds_larges_def)

lemma holds_larges_subset: "holds_larges A A' \<Longrightarrow> larges A \<subseteq> larges A'"
  by (force simp: holds_larges_def larges_def)

text \<open>\<open>gains r A A'\<close>: nothing changed for the blocks in use but that \<open>r\<close> is one more.\<close>

definition gains :: "(nat \<times> nat) option \<Rightarrow> alloc_core \<Rightarrow> alloc_core \<Rightarrow> bool" where
  "gains r A A' \<longleftrightarrow> keeps (in_use A) A A' \<and> smalls A \<subseteq> smalls A' \<and> holds_larges A A' \<and> (case r of
     None \<Rightarrow> in_use A' = in_use A
   | Some x \<Rightarrow> (\<forall>n. (fst x, n) \<notin> in_use A) \<and> in_use A' = insert x (in_use A))"

lemma gains_refl [simp]: "gains None A A"
  by (simp add: gains_def keeps_def holds_larges_def)

lemma gains_cache:
  "core_heap A' = core_heap A \<Longrightarrow> gains None A A'"
  by (simp add: gains_def keeps_def in_use_def smalls_def larges_def holds_larges_def large_base_def header_at_def)

lemma gains_trans:
  assumes "gains None A A1" and "gains r A1 A2"
  shows "gains r A A2"
proof -
  have e: "in_use A1 = in_use A" using assms(1) by (simp add: gains_def)
  have "keeps (in_use A) A A2" using assms unfolding gains_def e keeps_def by metis
  moreover have "smalls A \<subseteq> smalls A2" "holds_larges A A2"
    using assms holds_larges_trans unfolding gains_def by blast+
  ultimately show ?thesis using assms(2) unfolding gains_def e by simp
qed

text \<open>
  \<open>shrunk A A'\<close>: the table and the cache hold at most what they held, the segments where they were.
  \<open>settled A A'\<close>: that, and nothing changed for the blocks in use.
\<close>

definition shrunk :: "alloc_core \<Rightarrow> alloc_core \<Rightarrow> bool" where
  "shrunk A A' \<longleftrightarrow> live (core_table A') \<subseteq> live (core_table A)
     \<and> (\<forall>s. in_table (hpool (core_heap A')) s \<longrightarrow> in_table (hpool (core_heap A)) s
          \<and> extent (header_at s A') = extent (header_at s A))
     \<and> (\<forall>i e. cached (core_cache A') i e \<longrightarrow> cached (core_cache A) i e)"

definition settled :: "alloc_core \<Rightarrow> alloc_core \<Rightarrow> bool" where
  "settled A A' \<longleftrightarrow> gains None A A' \<and> shrunk A A'"

lemma shrunk_trans:
  assumes "shrunk A A1" and "shrunk A1 A2"
  shows "shrunk A A2"
  unfolding shrunk_def
proof (intro conjI allI impI)
  show "live (core_table A2) \<subseteq> live (core_table A)" using assms unfolding shrunk_def by blast
  fix s assume s: "in_table (hpool (core_heap A2)) s"
  then have 1: "in_table (hpool (core_heap A1)) s" "extent (header_at s A2) = extent (header_at s A1)"
    using assms(2) unfolding shrunk_def by blast+
  then show "in_table (hpool (core_heap A)) s" using assms(1) unfolding shrunk_def by blast
  show "extent (header_at s A2) = extent (header_at s A)" using 1 assms(1) unfolding shrunk_def by simp
next
  fix i e assume "cached (core_cache A2) i e"
  then show "cached (core_cache A) i e" using assms unfolding shrunk_def by blast
qed

lemma settled_gains: "settled A A' \<Longrightarrow> gains None A A'"
  by (simp add: settled_def)

lemma settled_refl [simp]: "settled A A"
  by (simp add: settled_def shrunk_def)

lemma settled_trans: "settled A A1 \<Longrightarrow> settled A1 A2 \<Longrightarrow> settled A A2"
  unfolding settled_def using gains_trans shrunk_trans by blast

lemma settled_cache:
  "core_heap A' = core_heap A \<Longrightarrow> (\<And>i e. cached (core_cache A') i e \<Longrightarrow> cached (core_cache A) i e) \<Longrightarrow> settled A A'"
  by (simp add: settled_def gains_cache shrunk_def core_table_def header_at_def)

lemma small_region:
  assumes inv: "core_inv E A ps" and a: "heap_blocks (core_heap A) a = Some c"
  shows "region A (segment_base_of a) SEGMENT" "segment_base_of a \<le> a" "0 < class_size c"
    "a + class_size c \<le> segment_base_of a + SEGMENT" "\<not> large_base A (segment_base_of a)"
proof -
  note H = core_inv_parts(1) [OF inv]
  note p = heap_placed [OF H a] and sb = heap_block_parts(1) [OF a]
  show "region A (segment_base_of a) SEGMENT"
    using sb by (simp add: region_def seg_span_def small_base_def)
  show "\<not> large_base A (segment_base_of a)" using sb by (simp add: large_base_def small_base_def header_at_def)
  show "segment_base_of a \<le> a" by (rule segment_base_le)
  show "a + class_size c \<le> segment_base_of a + SEGMENT" using p by simp
  show "0 < class_size c"
  proof -
    let ?s = "segment_at (segment_base_of a) (core_heap A)"
    obtain st where "block ?s (a - segment_base_of a) = Some (c, st)"
      using heap_block_parts(2) [OF a] by (auto simp: held_Some)
    then have "c < 49" using block_bounds by blast
    then show ?thesis using class_size_facts(2) [of c] by simp
  qed
qed

lemma large_region:
  assumes inv: "core_inv E A ps" and b: "large_base A b"
  shows "region A b (span_usable (header_at b A))" "0 < large_size (header_at b A)"
    "b + payload_offset (header_at b A) + large_size (header_at b A) \<le> b + span_usable (header_at b A)"
    "b + span_usable (header_at b A) \<le> 2 ^ 64"
  using core_inv_parts(4) [OF inv b] b
  by (simp_all add: region_def seg_span_def large_base_def header_at_def large_sound_def large_header_ok_def)

lemma block_region:
  assumes inv: "core_inv E A ps" and a: "(a, n) \<in> in_use A"
  shows "\<exists>b l. region A b l \<and> b \<le> a \<and> a + n \<le> b + l \<and> 0 < n \<and> (large_base A b \<longleftrightarrow> (a, n) \<in> larges A)
    \<and> (if (a, n) \<in> larges A then a = b + payload_offset (header_at b A) \<and> n = large_size (header_at b A)
       else (a, n) \<in> smalls A)"
proof (cases "(a, n) \<in> larges A")
  case True
  then obtain b where b: "large_base A b" "a = b + payload_offset (header_at b A)" "n = large_size (header_at b A)"
    by (auto simp: larges_def)
  note r = large_region [OF inv b(1)]
  show ?thesis by (intro exI [of _ b] exI [of _ "span_usable (header_at b A)"]) (use r b True in simp)
next
  case False
  then obtain c where c: "heap_blocks (core_heap A) a = Some c" "n = class_size c"
    using a by (auto simp: in_use_def smalls_def)
  note r = small_region [OF inv c(1)]
  show ?thesis
    by (intro exI [of _ "segment_base_of a"] exI [of _ SEGMENT]) (use r c False in \<open>auto simp: smalls_def\<close>)
qed

text \<open>No two blocks overlap.\<close>

lemma blocks_apart:
  assumes inv: "core_inv E A ps" and a: "(a, n) \<in> in_use A" "(a', n') \<in> in_use A" "(a, n) \<noteq> (a', n')"
  shows "a + n \<le> a' \<or> a' + n' \<le> a"
proof -
  obtain b l where b: "region A b l" "b \<le> a" "a + n \<le> b + l" "0 < n" "large_base A b \<longleftrightarrow> (a, n) \<in> larges A"
    "if (a, n) \<in> larges A then a = b + payload_offset (header_at b A) \<and> n = large_size (header_at b A)
     else (a, n) \<in> smalls A" using block_region [OF inv a(1)] by (elim exE conjE) (rule that, assumption+)
  obtain b' l' where b': "region A b' l'" "b' \<le> a'" "a' + n' \<le> b' + l'" "0 < n'"
    "large_base A b' \<longleftrightarrow> (a', n') \<in> larges A"
    "if (a', n') \<in> larges A then a' = b' + payload_offset (header_at b' A) \<and> n' = large_size (header_at b' A)
     else (a', n') \<in> smalls A" using block_region [OF inv a(2)] by (elim exE conjE) (rule that, assumption+)
  show ?thesis
  proof (cases "b = b'")
    case False
    then have "b + l \<le> b' \<or> b' + l' \<le> b"
      using core_inv_parts(3) [OF inv] b(1) b'(1) unfolding regions_apart_def by blast
    then show ?thesis using b(2,3) b'(2,3) by linarith
  next
    case True
    then have k: "(a, n) \<in> larges A \<longleftrightarrow> (a', n') \<in> larges A" using b(5) b'(5) by simp
    show ?thesis
    proof (cases "(a, n) \<in> larges A")
      case large: True
      then show ?thesis using b(6) b'(6) k a(3) True by simp
    next
      case False
      then obtain c c' where c: "heap_blocks (core_heap A) a = Some c" "n = class_size c"
        "heap_blocks (core_heap A) a' = Some c'" "n' = class_size c'"
        using b(6) b'(6) k by (auto simp: smalls_def)
      have "a \<noteq> a'"
      proof
        assume "a = a'"
        then have "c = c'" using c(1,3) by simp
        then show False using a(3) \<open>a = a'\<close> c(2,4) by simp
      qed
      then show ?thesis
        using heap_apart [OF core_inv_parts(1) [OF inv], of a c a' c']
          heap_apart [OF core_inv_parts(1) [OF inv], of a' c' a c] c by (cases "a < a'") auto
    qed
  qed
qed

text \<open>The memory of a large block is no small segment's, and will not be one's.\<close>

lemma large_words:
  assumes inv: "core_inv E A ps" and a: "(a, n) \<in> larges A" and q: "a \<le> q" "q < a + n"
  shows "\<not> small_base (core_heap A) (segment_base_of q)"
    "vacant A x SEGMENT \<Longrightarrow> segment_base_of q \<noteq> x"
proof -
  obtain b where b: "large_base A b" "a = b + payload_offset (header_at b A)" "n = large_size (header_at b A)"
    using a by (auto simp: larges_def)
  let ?l = "span_usable (header_at b A)" and ?s = "segment_base_of q"
  note r = large_region [OF inv b(1)]
  have q': "b \<le> q" "q < b + ?l" using q r(3) b(2,3) by linarith+
  then have "q \<le> usize_max" using r(4) by simp
  from segment_base_le in_segment [OF this] have s: "?s \<le> q" "q < ?s + SEGMENT" .
  show "\<not> small_base (core_heap A) ?s"
  proof
    assume sb: "small_base (core_heap A) ?s"
    then have "region A ?s SEGMENT" by (simp add: region_def seg_span_def small_base_def)
    moreover have "?s \<noteq> b" using sb b(1) by (auto simp: small_base_def large_base_def header_at_def)
    ultimately have "?s + SEGMENT \<le> b \<or> b + ?l \<le> ?s"
      using core_inv_parts(3) [OF inv] r(1) unfolding regions_apart_def by blast
    then show False using q' s by linarith
  qed
  show "?s \<noteq> x" if "vacant A x SEGMENT"
  proof
    assume "?s = x"
    then show False using vacant_region(1) [OF that r(1)] q' s by linarith
  qed
qed

lemma keeps_moves:
  assumes inv: "core_inv E A ps" and mv: "moves X (core_heap A) H" and X: "X \<subseteq> {x}" "x \<in> X \<Longrightarrow> vacant A x SEGMENT"
  defines "A' \<equiv> A\<lparr>core_heap := H\<rparr>"
  shows "larges A' = larges A" "keeps (larges A) A A'" "holds_larges A A'"
proof -
  note lg = large_moves [OF mv, folded A'_def]
  have hold: "payload_offset (header_at b A') = payload_offset (header_at b A)"
    "large_size (header_at b A') = large_size (header_at b A)" if "large_base A b" for b
    using no_links_large(2,3) [OF lg(2) [OF that]] by blast+
  then show "holds_larges A A'" by (simp add: holds_larges_def lg(1))
  from hold show "larges A' = larges A" unfolding larges_def lg(1)
    by (intro Collect_cong iff_exI) auto
  show "keeps (larges A) A A'" unfolding keeps_def
  proof (intro allI impI, elim conjE)
    fix a n q assume a: "(a, n) \<in> larges A" "a \<le> q" "q < a + n"
    have "segment_base_of q \<notin> X" using large_words(2) [OF inv a, of x] X by auto
    then show "heap_word (core_heap A') q = heap_word (core_heap A) q"
      using mv large_words(1) [OF inv a] by (simp add: moves_def A'_def)
  qed
qed

lemma keeps_smalls:
  assumes "keeps_words (core_heap A) H" and "\<And>a c. (a, c) \<in> S \<Longrightarrow> heap_blocks (core_heap A) a = Some c \<and> heap_blocks H a = Some c"
  shows "keeps ((\<lambda>(a, c). (a, class_size c)) ` S) A (A\<lparr>core_heap := H\<rparr>)"
  unfolding keeps_def
proof (intro allI impI, elim conjE)
  fix a n q assume "(a, n) \<in> (\<lambda>(a, c). (a, class_size c)) ` S" and q: "a \<le> q" "q < a + n"
  then obtain c where c: "(a, c) \<in> S" "n = class_size c" by auto
  from assms(2) [OF c(1)] assms(1) q c(2)
  show "heap_word (core_heap (A\<lparr>core_heap := H\<rparr>)) q = heap_word (core_heap A) q"
    unfolding keeps_words_def by simp
qed

lemma keeps_Un: "keeps (S \<union> T) A A' \<longleftrightarrow> keeps S A A' \<and> keeps T A A'"
  unfolding keeps_def by blast

lemma smalls_image: "smalls A = (\<lambda>(a, c). (a, class_size c)) ` {(a, c). heap_blocks (core_heap A) a = Some c}"
  by (auto simp: smalls_def)

lemma gains_heap:
  assumes inv: "core_inv E A ps" and H: "heap_inv H ps'" and e: "heap_effect c r (core_heap A) H"
    and mv: "moves X (core_heap A) H" and X: "X \<subseteq> {x}" "x \<in> X \<Longrightarrow> vacant A x SEGMENT"
  shows "gains (map_option (\<lambda>p. (p, class_size c)) r) A (A\<lparr>core_heap := H\<rparr>)"
proof -
  let ?A = "A\<lparr>core_heap := H\<rparr>"
  have inv': "core_inv E ?A ps'" by (rule core_moves [OF inv H mv X(1)]) (rule X(2))
  have lg: "larges ?A = larges A" "keeps (larges A) A ?A" "holds_larges A ?A"
    by (rule keeps_moves [OF inv mv X(1)], erule X(2))+
  have "heap_blocks H a = Some d" if "heap_blocks (core_heap A) a = Some d" for a d
    using e that by (cases r) (auto simp: heap_effect_def)
  then have "keeps (smalls A) A ?A" unfolding smalls_image
    using e by (intro keeps_smalls) (auto simp: heap_effect_def)
  then have k: "keeps (in_use A) A ?A" unfolding in_use_def keeps_Un using lg(2) by blast
  show ?thesis
  proof (cases r)
    case None
    then have "smalls ?A = smalls A" using e by (simp add: heap_effect_def smalls_def)
    then show ?thesis using k None lg(1,3) by (simp add: gains_def in_use_def)
  next
    case (Some p)
    then have hb: "heap_blocks (core_heap A) p = None" "heap_blocks H = (heap_blocks (core_heap A))(p \<mapsto> c)"
      using e by (simp_all add: heap_effect_def)
    then have sm: "smalls ?A = insert (p, class_size c) (smalls A)" by (auto simp: smalls_def)
    then have u: "in_use ?A = insert (p, class_size c) (in_use A)" using lg(1) by (auto simp: in_use_def)
    have "(p, n) \<notin> in_use A" for n
    proof
      assume n: "(p, n) \<in> in_use A"
      have "(p, n) \<in> larges A" using n hb(1) by (auto simp: in_use_def smalls_def)
      then have l: "(p, n) \<in> larges ?A" using lg(1) by simp
      have "heap_blocks (core_heap ?A) p = Some c" using hb(2) by simp
      from small_region(3,5) [OF inv' this] have s: "0 < class_size c" "\<not> large_base ?A (segment_base_of p)" .
      have ne: "(p, n) \<noteq> (p, class_size c)"
      proof
        assume "(p, n) = (p, class_size c)"
        then have "(p, class_size c) \<in> larges ?A" using l by simp
        then obtain b where b: "large_base ?A b" "p = b + payload_offset (header_at b ?A)"
          "class_size c = large_size (header_at b ?A)" by (auto simp: larges_def)
        have "p < p + class_size c" using s(1) by simp
        from large_words(1) [OF inv' \<open>(p, class_size c) \<in> larges ?A\<close> order_refl this]
        have "\<not> small_base H (segment_base_of p)" by simp
        then show False using heap_block_parts(1) [of H p c] hb(2) by simp
      qed
      have "0 < n" using block_region [OF inv n] by metis
      have "(p, n) \<in> in_use ?A" "(p, class_size c) \<in> in_use ?A" using n u by auto
      from blocks_apart [OF inv' this ne] show False using s(1) \<open>0 < n\<close> by linarith
    qed
    then show ?thesis using k Some u lg(3) sm by (auto simp: gains_def)
  qed
qed

subsection \<open>Decay and the reservation of a span\<close>

definition page_ok :: "nat \<Rightarrow> bool" where
  "page_ok page \<longleftrightarrow> is_power_of_two page \<and> page \<le> MAX_REALISTIC_PAGE_SIZE"

definition clock_ok :: "nat \<Rightarrow> alloc_core \<Rightarrow> bool" where
  "clock_ok now A \<longleftrightarrow> (\<forall>t. last_decay_tick (core_cache A) = Some t \<longrightarrow> t \<le> now)"

lemma pool_core:
  assumes inv: "core_inv E A ps" and p: "pool_inv p m ps'" "pool_frame (hpool (core_heap A)) p"
  shows "core_inv E (A\<lparr>core_heap := (core_heap A)\<lparr>hpool := p\<rparr>\<rparr>) ps'"
    "settled A (A\<lparr>core_heap := (core_heap A)\<lparr>hpool := p\<rparr>\<rparr>)"
proof -
  note H = core_inv_parts(1) [OF inv] and mv = moves_pool [OF p(2)]
  note step = pool_step(1) [OF H p] pool_effect [OF H p, of 0]
  show "core_inv E (A\<lparr>core_heap := (core_heap A)\<lparr>hpool := p\<rparr>\<rparr>) ps'"
    by (rule core_moves [OF inv step(1) mv, of 0]) simp_all
  have "shrunk A (A\<lparr>core_heap := (core_heap A)\<lparr>hpool := p\<rparr>\<rparr>)"
    using moves_table [OF mv] p(2) by (simp add: shrunk_def core_table_def header_at_def pool_frame_def)
  then show "settled A (A\<lparr>core_heap := (core_heap A)\<lparr>hpool := p\<rparr>\<rparr>)"
    using gains_heap [OF inv step(1,2) mv, of 0] by (simp add: settled_def)
qed

lemma decay_both_ok:
  assumes inv: "core_inv E A ps" and now: "clock_ok now A"
  shows "\<exists>A' ps'. decay_both now A = ret A' \<and> core_inv E A' ps' \<and> settled A A' \<and> clock_ok now A'
    \<and> (\<forall>b. large_base A b \<longrightarrow> state_word (core_cache A') b = state_word (core_cache A) b
        \<and> large_base A' b \<and> no_links (header_at b A') = no_links (header_at b A))
    \<and> large_cache_seq (core_cache A') = large_cache_seq (core_cache A)"
proof -
  from maybe_decay_ok [OF core_inv_parts(2) [OF inv], of now] now obtain c where
    c: "maybe_decay_large_cache now (core_cache A) = Inr c" "cache_inv c" "evicted (core_cache A) c"
      "\<forall>t. last_decay_tick c = Some t \<longrightarrow> t \<le> now" unfolding clock_ok_def by blast
  let ?A1 = "A\<lparr>core_cache := c\<rparr>"
  have inv1: "core_inv E ?A1 ps" by (rule core_evicted [OF inv c(2,3)])
  from core_inv_parts(1) [OF inv] obtain m where pinv: "pool_inv (hpool (core_heap A)) m ps" by (rule table_of)
  from decay_ok [OF pinv, of now] obtain p m' ps' where p: "maybe_decay_small_pool now (hpool (core_heap A)) = ret p"
    "pool_inv p m' ps'" "pool_frame (hpool (core_heap A)) p" by blast
  let ?H = "(core_heap A)\<lparr>hpool := p\<rparr>"
  have f: "pool_frame (hpool (core_heap ?A1)) p" using p(3) by simp
  have run: "decay_both now A = ret (A\<lparr>core_cache := c, core_heap := ?H\<rparr>)"
    using c(1) p(1) by (simp add: decay_both_def on_pool_def)
  have eq: "A\<lparr>core_cache := c, core_heap := ?H\<rparr> = ?A1\<lparr>core_heap := (core_heap ?A1)\<lparr>hpool := p\<rparr>\<rparr>" by simp
  note pc = pool_core [OF inv1 p(2) f]
  have g: "settled A (A\<lparr>core_cache := c, core_heap := ?H\<rparr>)" unfolding eq
    by (rule settled_trans [OF settled_cache pc(2)]) (use c(3) in \<open>simp_all add: evicted_def\<close>)
  have mv: "moves {} (core_heap ?A1) ?H" using moves_pool [OF p(3)] by simp
  have "state_word c b = state_word (core_cache A) b \<and> large_base (A\<lparr>core_cache := c, core_heap := ?H\<rparr>) b
      \<and> no_links (header_at b (A\<lparr>core_cache := c, core_heap := ?H\<rparr>)) = no_links (header_at b A)"
    if b: "large_base A b" for b
  proof -
    have "large_base ?A1 b" using b by (simp add: large_base_def header_at_def)
    moreover have "state_word c b = state_word (core_cache A) b"
      using c(3) large_not_cached [OF inv b] by (simp add: evicted_def)
    ultimately show ?thesis using large_moves [OF mv, of b] by (simp add: header_at_def)
  qed
  moreover have "large_cache_seq c = large_cache_seq (core_cache A)" using c(3) by (simp add: evicted_def)
  ultimately show ?thesis using run pc(1) g c(4) unfolding eq
    by (intro exI [of _ "?A1\<lparr>core_heap := (core_heap ?A1)\<lparr>hpool := p\<rparr>\<rparr>"] exI [of _ ps'] conjI)
      (simp_all add: clock_ok_def)
qed

lemma reserve_or_drain_ok:
  assumes inv: "core_inv E A ps"
  shows "\<exists>A' ps'. reserve_or_drain os usable align off A = ret (reserve_large (os A') usable align off, A')
    \<and> core_inv E A' ps' \<and> settled A A' \<and> core_cache A' = core_cache A"
proof (cases "reserve_large (os A) usable align off = None \<and> 0 < pooled_count (hpool (core_heap A))")
  case True
  from core_inv_parts(1) [OF inv] obtain m where pinv: "pool_inv (hpool (core_heap A)) m ps" by (rule table_of)
  from drain_ok [OF pinv] obtain p m' where p: "drain_small_pool (hpool (core_heap A)) = ret (length ps, p)"
    "pool_inv p m' []" "pool_frame (hpool (core_heap A)) p" by blast
  let ?A = "A\<lparr>core_heap := (core_heap A)\<lparr>hpool := p\<rparr>\<rparr>"
  have "reserve_or_drain os usable align off A = ret (reserve_large (os ?A) usable align off, ?A)"
    using True p(1) by (simp add: reserve_or_drain_def drain_heap_def on_pool_def Let_def)
  moreover note pool_core [OF inv p(2,3)]
  ultimately show ?thesis by (intro exI [of _ ?A] exI [of _ "[]"]) simp
next
  case False
  then show ?thesis using inv by (intro exI [of _ A] exI [of _ ps]) (auto simp: reserve_or_drain_def Let_def)
qed

text \<open>The shape of a request, and where its block comes to lie.\<close>

definition large_request :: "nat \<Rightarrow> nat \<Rightarrow> nat \<Rightarrow> nat \<Rightarrow> nat \<Rightarrow> bool" where
  "large_request page align sz usable off \<longleftrightarrow> page_ok page \<and> is_power_of_two align \<and> 0 < sz
     \<and> large_payload_offset page align = Inr off \<and> large_usable (off + sz) = Some usable"

lemma large_request_unique: "large_request page align sz usable off \<Longrightarrow> large_request page align sz usable' off' \<Longrightarrow> usable' = usable \<and> off' = off"
  by (auto simp: large_request_def)

lemma power_of_two_below: "is_power_of_two a \<Longrightarrow> a < 2 ^ n \<Longrightarrow> 2 * a \<le> 2 ^ n"
proof -
  assume "is_power_of_two a" "a < 2 ^ n"
  then obtain k where k: "a = 2 ^ k" "k < n" by (auto simp: is_power_of_two_iff)
  then have "(2 :: nat) ^ Suc k \<le> 2 ^ n" by (intro power_increasing) simp_all
  then show ?thesis using k by simp
qed

lemma payload_offset_small:
  assumes "page_ok page" and "is_power_of_two align" and "align < SEGMENT"
    and "large_payload_offset page align = Inr off"
  shows "off < SEGMENT" "align dvd off"
proof -
  let ?m = "max align page"
  have m: "is_power_of_two ?m" "?m < SEGMENT" using assms(1-3) by (auto simp: page_ok_def max_def MAX_REALISTIC_PAGE_SIZE_def)
  from m(1) have pos: "0 < ?m" by (rule power_of_two_pos)
  then have off: "off = div_ceil HEADER_SIZE ?m * ?m"
    using assms(3,4) by (simp add: large_payload_offset_def align_up_def)
  note b = div_ceil_bounds [OF pos, of HEADER_SIZE, folded off]
  have "align dvd ?m" using power_of_two_dvd_iff [OF assms(2) m(1)] by simp
  then show "align dvd off" unfolding off by simp
  have "(SEGMENT :: nat) = 2 ^ 22" by simp
  then have "2 * ?m \<le> SEGMENT" using power_of_two_below [OF m(1), of 22] m(2) by (simp only:)
  then show "off < SEGMENT" using b(2) by (auto simp: max_def split: if_splits)
qed

lemma large_request_facts:
  assumes "large_request page align sz usable off"
  shows "off + sz \<le> usable" "usable \<le> usize_max" "0 < usable" "div_ceil usable SEGMENT * SEGMENT = usable"
    "align < SEGMENT \<Longrightarrow> off < SEGMENT \<and> align dvd off" "HEADER_SIZE \<le> off"
proof -
  have u: "usable = div_ceil (off + sz) SEGMENT * SEGMENT" "usable \<le> usize_max" and sz: "0 < sz"
    using assms by (auto simp: large_request_def large_usable_def Let_def split: if_splits)
  have "(0 :: nat) < SEGMENT" by simp
  note b = div_ceil_bounds [OF this, of "off + sz", folded u(1)]
  show "off + sz \<le> usable" "usable \<le> usize_max" "0 < usable" using b(1) u(2) sz by simp_all
  show "div_ceil usable SEGMENT * SEGMENT = usable" unfolding u(1) div_ceil_def by simp
  show "off < SEGMENT \<and> align dvd off" if "align < SEGMENT"
    using payload_offset_small [OF _ _ that] assms unfolding large_request_def by blast
  have "0 < page" using assms power_of_two_pos by (simp add: large_request_def page_ok_def)
  then have m: "0 < (if SEGMENT \<le> align then page else max align page)" by (simp add: less_max_iff_disj)
  then have "off = div_ceil HEADER_SIZE (if SEGMENT \<le> align then page else max align page)
      * (if SEGMENT \<le> align then page else max align page)"
    using assms by (simp add: large_request_def large_payload_offset_def align_up_def split: if_splits)
  then show "HEADER_SIZE \<le> off" using div_ceil_bounds(1) [OF m, of HEADER_SIZE] by simp
qed

lemma vacant_part:
  assumes v: "vacant A o' raw" and r: "o' \<le> b" "b + n \<le> o' + raw" "0 < n"
  shows "vacant A b n"
proof -
  have "(s + seg_span (core_heap A) s \<le> b \<or> b + n \<le> s) \<and> s \<noteq> b
      \<and> payload_key (seg_mem (hpool (core_heap A))) s \<notin> {b ..< b + n}" if "in_table (hpool (core_heap A)) s" for s
  proof -
    have "s + seg_span (core_heap A) s \<le> o' \<or> o' + raw \<le> s" "s \<noteq> o'"
      "payload_key (seg_mem (hpool (core_heap A))) s \<notin> {o' ..< o' + raw}"
      using v that unfolding vacant_def clear_def by blast+
    then show ?thesis using r by auto
  qed
  moreover have "(cl_base e + cl_usable_size e \<le> b \<or> b + n \<le> cl_base e) \<and> cl_base e \<noteq> b"
    if "cached (core_cache A) i e" for i e
  proof -
    have "cl_base e + cl_usable_size e \<le> o' \<or> o' + raw \<le> cl_base e" "cl_base e \<noteq> o'"
      using v that unfolding vacant_def by blast+
    then show ?thesis using r by linarith
  qed
  ultimately show ?thesis unfolding vacant_def clear_def by blast
qed

lemma reserve_large_placed:
  assumes os: "answers_fresh A calls" and rq: "large_request page align sz usable off"
    and r: "reserve_large calls usable align off = Some (b, res, len)"
  shows "vacant A b usable" "res \<noteq> 0" "b \<noteq> 0" "b + usable \<le> 2 ^ 64" "align dvd b + off"
    "b \<le> segment_base_of (b + off)" "align < SEGMENT \<longrightarrow> segment_key b"
proof -
  note f = large_request_facts [OF rq]
  have pw: "is_power_of_two align" using rq by (simp add: large_request_def)
  have "(SEGMENT :: nat) = 2 ^ 22" by simp
  then have ps: "is_power_of_two SEGMENT" using is_power_of_two_pow [of 22] by (simp only:)
  have "vacant A b usable \<and> res \<noteq> 0 \<and> b \<noteq> 0 \<and> b + usable \<le> 2 ^ 64 \<and> align dvd b + off
    \<and> b \<le> segment_base_of (b + off) \<and> (align < SEGMENT \<longrightarrow> segment_key b)"
  proof (cases "SEGMENT \<le> align")
    case False
    then have "map_segments calls usable = Some (b, res, len)"
      using r f(3,4) by (simp add: reserve_large_def segment_reserve_def)
    then have o: "segment_key b" "b \<noteq> 0" "b + usable \<le> 2 ^ 64" "res \<noteq> 0" "vacant A b usable"
      using os unfolding answers_fresh_def by blast+
    have off: "off < SEGMENT" "align dvd off" using f(5) False by simp_all
    have "align dvd SEGMENT" using power_of_two_dvd_iff [OF pw ps] False by simp
    moreover have "SEGMENT dvd b" using based_key [OF o(1,2)] by (simp add: based_def)
    ultimately have "align dvd b" by (rule dvd_trans)
    moreover have "segment_base_of (b + off) = b" by (rule segment_base_of_in [OF based_key [OF o(1,2)] off(1)])
    ultimately show ?thesis using o off by simp
  next
    case True
    then have rb: "reserve_biased (map_lazy calls) (commit_range calls) usable usable align off = Some (b, res, len)"
      using r by (simp add: reserve_large_def)
    from reserve_biased_placed [OF rb pw] obtain orig raw where
      o: "map_lazy calls (usable + align) = Some (orig, raw, res, len)" "orig \<le> b" "b + usable \<le> orig + raw"
        "align dvd b + off" "res \<noteq> 0" by blast
    then have v: "orig \<noteq> 0" "orig + raw \<le> 2 ^ 64" "vacant A orig raw" using os unfolding answers_fresh_def by blast+
    have "SEGMENT dvd b + off" using power_of_two_dvd_iff [OF ps pw] True o(4) by (meson dvd_trans)
    moreover have "b + off \<le> usize_max" using o(3) v(2) f(1) rq by (simp add: large_request_def)
    ultimately have "segment_key (b + off)" by (simp add: segment_key_def dvd_eq_mod_eq_0)
    then have "segment_base_of (b + off) = b + off" by (rule segment_base_of_key)
    then show ?thesis using o v vacant_part [OF v(3) o(2,3) f(3)] True by simp
  qed
  then show "vacant A b usable" "res \<noteq> 0" "b \<noteq> 0" "b + usable \<le> 2 ^ 64" "align dvd b + off"
    "b \<le> segment_base_of (b + off)" "align < SEGMENT \<longrightarrow> segment_key b" by blast+
qed

subsection \<open>A large segment more, a cached reservation less\<close>

lemma cache_inv_word:
  assumes "cache_inv c" and "\<And>i e. cached c i e \<Longrightarrow> cl_base e \<noteq> b"
  shows "cache_inv (c\<lparr>state_word := (state_word c)(b := w)\<rparr>)"
proof -
  have "cached (c\<lparr>state_word := (state_word c)(b := w)\<rparr>) = cached c" by (simp add: fun_eq_iff cached_def)
  then show ?thesis using assms unfolding cache_inv_def entries_ok_def by auto
qed

lemma cache_inv_released: "cache_inv c \<Longrightarrow> cache_inv (c\<lparr>os_released := rs\<rparr>)"
  unfolding cache_inv_def entries_ok_def cached_def by (elim conjE, intro conjI) simp_all

lemma key_region:
  assumes inv: "core_inv E A ps" and s: "in_table (hpool (core_heap A)) s"
  shows "s \<le> payload_key (seg_mem (hpool (core_heap A))) s"
    "payload_key (seg_mem (hpool (core_heap A))) s < s + seg_span (core_heap A) s"
proof -
  let ?h = "header_at s A" and ?k = "payload_key (seg_mem (hpool (core_heap A))) s"
  have "s \<le> ?k \<and> ?k < s + seg_span (core_heap A) s"
  proof (cases "kind ?h = Large")
    case True
    then have l: "large_base A s" using s by (simp add: large_base_def)
    have "?k \<le> s + payload_offset ?h"
      using segment_base_le [of "s + payload_offset ?h"] by (simp add: payload_key_def header_at_def)
    moreover have "s \<le> ?k" "payload_offset ?h + large_size ?h \<le> span_usable ?h" "0 < large_size ?h"
      using core_inv_parts(4) [OF inv l] by (simp_all add: large_sound_def large_header_ok_def payload_key_def header_at_def)
    ultimately show ?thesis using True by (simp add: seg_span_def header_at_def)
  next
    case False
    then have "small_base (core_heap A) s" using s by (simp add: small_base_def header_at_def)
    then have "?k = s" using core_inv_parts(1) [OF inv] by (simp add: heap_inv_def segs_ok_def)
    then show ?thesis using False by (simp add: seg_span_def header_at_def)
  qed
  then show "s \<le> ?k" "?k < s + seg_span (core_heap A) s" by simp_all
qed

lemma vacant_taken:
  assumes inv: "core_inv E A ps" and e: "cached (core_cache A) i e"
    and c: "\<And>j e'. cached c j e' \<Longrightarrow> cached (core_cache A) j e' \<and> j \<noteq> i"
  shows "vacant (A\<lparr>core_cache := c\<rparr>) (cl_base e) (cl_usable_size e)"
proof -
  let ?b = "cl_base e" and ?n = "cl_usable_size e"
  have re: "region A ?b ?n" using e by (auto simp: region_def)
  have nt: "\<not> in_table (hpool (core_heap A)) ?b" using core_inv_parts(5) [OF inv e] by (simp add: cached_sound_def)
  have apart: "c' + l \<le> ?b \<or> ?b + ?n \<le> c'" if "region A c' l" "c' \<noteq> ?b" for c' l
    using core_inv_parts(3) [OF inv] that re unfolding regions_apart_def by blast
  have "clear (core_heap A) ?b ?n" unfolding clear_def
  proof (intro allI impI)
    fix s assume s: "in_table (hpool (core_heap A)) s"
    have "region A s (seg_span (core_heap A) s)" using s by (simp add: region_def)
    moreover have "s \<noteq> ?b" using s nt by auto
    ultimately show "(s + seg_span (core_heap A) s \<le> ?b \<or> ?b + ?n \<le> s) \<and> s \<noteq> ?b
        \<and> payload_key (seg_mem (hpool (core_heap A))) s \<notin> {?b ..< ?b + ?n}"
      using apart key_region [OF inv s] by fastforce
  qed
  moreover have "(cl_base e' + cl_usable_size e' \<le> ?b \<or> ?b + ?n \<le> cl_base e') \<and> cl_base e' \<noteq> ?b"
    if "cached c j e'" for j e'
  proof -
    have j: "cached (core_cache A) j e'" "j \<noteq> i" using c [OF that] by simp_all
    have "cl_base e' \<noteq> ?b" using core_inv_parts(2) [OF inv] j e unfolding cache_inv_def entries_ok_def by metis
    moreover have "region A (cl_base e') (cl_usable_size e')" using j(1) by (auto simp: region_def)
    ultimately show ?thesis using apart by blast
  qed
  ultimately show ?thesis by (simp add: vacant_def)
qed

text \<open>Registering a large segment where nothing is.\<close>

lemma add_large_ok:
  assumes inv: "core_inv E A ps" and v: "vacant A b n"
    and h: "kind h = Large" "pool_prev h = 0" "span_usable h = n" "large_header_ok b h"
  defines "mem i \<equiv> (seg_mem (hpool (core_heap A)))(b := h\<lparr>segment_id := i\<rparr>)"
  shows "\<exists>r t. register_payload b Large (b + payload_offset h) (core_table A) = Some (Inr (r, t)) \<and> (case r of
      None \<Rightarrow> t = core_table A \<and> live (core_table A) = {..<4096}
    | Some i \<Rightarrow> \<forall>A' w. core_heap A' = retable (mem i) t (core_heap A) \<and> large_phase w = Some PhLive
        \<and> core_cache A' = (core_cache A)\<lparr>state_word := (state_word (core_cache A))(b := w)\<rparr>
        \<longrightarrow> core_inv E A' ps \<and> gains (Some (b + payload_offset h, large_size h)) A A'
            \<and> (b + payload_offset h, large_size h) \<in> larges A')"
proof -
  let ?H = "core_heap A" and ?key = "segment_base_of (b + payload_offset h)"
  have ok: "b \<noteq> 0" "b \<le> ?key" "payload_offset h + large_size h \<le> n" "0 < large_size h"
    using h(3,4) by (simp_all add: large_header_ok_def)
  have nt: "\<not> in_table (hpool ?H) b" using v unfolding vacant_def clear_def by blast
  have nc: "cl_base e \<noteq> b" if "cached (core_cache A) i e" for i e using v that unfolding vacant_def by blast
  have "?key < b + n" using segment_base_le [of "b + payload_offset h"] ok(3,4) by linarith
  then have key: "payload_key (seg_mem (hpool ?H)) s \<noteq> ?key" if "in_table (hpool ?H) s" for s
    using v that ok(2) unfolding vacant_def clear_def by fastforce
  from register_large_ok [OF core_inv_parts(1) [OF inv] ok(1) nt h(1,2) key] obtain r t where
    r: "register_payload b Large (b + payload_offset h) (core_table A) = Some (Inr (r, t))" "case r of
      None \<Rightarrow> t = core_table A \<and> live (core_table A) = {..<4096}
    | Some i \<Rightarrow> heap_inv (retable (mem i) t ?H) ps \<and> heap_blocks (retable (mem i) t ?H) = heap_blocks ?H
        \<and> heap_word (retable (mem i) t ?H) = heap_word ?H
        \<and> (\<forall>s. in_table (hpool (retable (mem i) t ?H)) s \<longleftrightarrow> in_table (hpool ?H) s \<or> s = b)"
    unfolding mem_def core_table_def by blast
  have "core_inv E A' ps \<and> gains (Some (b + payload_offset h, large_size h)) A A'
      \<and> (b + payload_offset h, large_size h) \<in> larges A'"
    if i: "r = Some i" and A': "core_heap A' = retable (mem i) t ?H" "large_phase w = Some PhLive"
      "core_cache A' = (core_cache A)\<lparr>state_word := (state_word (core_cache A))(b := w)\<rparr>" for i A' w
  proof -
    have H: "heap_inv (core_heap A') ps" "heap_blocks (core_heap A') = heap_blocks ?H"
      "heap_word (core_heap A') = heap_word ?H"
      "in_table (hpool (core_heap A')) s \<longleftrightarrow> in_table (hpool ?H) s \<or> s = b" for s
      using r(2) i A'(1) by simp_all
    have hdr: "header_at s A' = (if s = b then h\<lparr>segment_id := i\<rparr> else header_at s A)" for s
      by (simp add: header_at_def A'(1) mem_def)
    have cd: "cached (core_cache A') = cached (core_cache A)" by (simp add: A'(3) fun_eq_iff cached_def)
    have cinv: "cache_inv (core_cache A')" unfolding A'(3)
      by (rule cache_inv_word [OF core_inv_parts(2) [OF inv] nc])
    have lb: "large_base A' s \<longleftrightarrow> large_base A s \<or> s = b" for s
      unfolding large_base_def H(4) hdr using h(1) nt by auto
    have "large_sound E A' s" if "large_base A' s" for s
    proof (cases "s = b")
      case True
      then show ?thesis using h(4) A'(2) unfolding large_sound_def hdr by (simp add: A'(3) large_header_ok_def)
    next
      case False
      then show ?thesis using core_inv_parts(4) [OF inv, of s] that lb unfolding large_sound_def hdr
        by (simp add: A'(3))
    qed
    moreover have "cached_sound A' e" if "cached (core_cache A') j e" for j e
    proof -
      have e: "cached (core_cache A) j e" using that cd by simp
      show ?thesis using core_inv_parts(5) [OF inv e] nc [OF e] unfolding cached_sound_def H(4) hdr by simp
    qed
    moreover have reg: "region A c l \<or> c = b \<and> l = n" if "region A' c l" for c l
    proof -
      have "seg_span (core_heap A') c = (if c = b then n else seg_span ?H c)"
        using hdr [of c] h(1,3) by (simp add: seg_span_def header_at_def split: if_splits)
      then show ?thesis using that unfolding region_def H(4) cd by (auto split: if_splits)
    qed
    have "regions_apart A'"
      by (rule regions_apart_grow [OF core_inv_parts(3) [OF inv], of _ b n])
        (use reg vacant_region(1) [OF v] in blast)+
    ultimately have "core_inv E A' ps" using H(1) cinv by (simp add: core_inv_def)
    moreover have "larges A' = insert (b + payload_offset h, large_size h) (larges A)"
    proof -
      have other: "c \<noteq> b" if "large_base A c" for c using that nt by (auto simp: large_base_def)
      have "larges A' = {(c + payload_offset (header_at c A'), large_size (header_at c A')) | c. c = b \<or> large_base A c}"
        unfolding larges_def lb by blast
      also have "\<dots> = insert (b + payload_offset (header_at b A'), large_size (header_at b A'))
          {(c + payload_offset (header_at c A'), large_size (header_at c A')) | c. large_base A c}" by blast
      also have "{(c + payload_offset (header_at c A'), large_size (header_at c A')) | c. large_base A c} = larges A"
        unfolding larges_def using other by (intro Collect_cong iff_exI) (auto simp: hdr)
      finally show ?thesis by (simp add: hdr)
    qed
    moreover have "holds_larges A A'" unfolding holds_larges_def lb hdr using nt by (auto simp: large_base_def)
    moreover have "smalls A' = smalls A" by (simp add: smalls_def H(2))
    moreover have "(b + payload_offset h, m) \<notin> in_use A" for m
    proof
      assume "(b + payload_offset h, m) \<in> in_use A"
      from block_region [OF inv this] obtain c l where c: "region A c l" "c \<le> b + payload_offset h"
        "b + payload_offset h + m \<le> c + l" "0 < m" by blast
      then show False using vacant_region(1) [OF v c(1)] ok(3,4) by linarith
    qed
    ultimately show ?thesis by (auto simp: gains_def in_use_def keeps_def H(3))
  qed
  then show ?thesis using r by (intro exI [of _ r] exI [of _ t]) (cases r, auto)
qed

text \<open>What is not in the table may be written.\<close>

lemma set_header_ok:
  assumes inv: "core_inv E A ps" and b: "\<not> in_table (hpool (core_heap A)) b"
    "\<And>i e. cached (core_cache A) i e \<Longrightarrow> cl_base e \<noteq> b"
  shows "core_inv E (set_header b f A) ps" "settled A (set_header b f A)"
proof -
  let ?A = "set_header b f A" and ?H = "core_heap A"
  let ?mem = "(seg_mem (hpool ?H))(b := f (seg_mem (hpool ?H) b))"
  let ?t = "seg_table (hpool ?H)"
  have H': "core_heap ?A = retable ?mem ?t ?H" by (simp add: set_header_def retable_def on_header_def)
  have cc: "core_cache ?A = core_cache A" by (simp add: set_header_def)
  from core_inv_parts(1) [OF inv] obtain m where pinv: "pool_inv (hpool ?H) m ps"
    and tinv: "table_inv (seg_mem (hpool ?H)) ?t m" by (rule table_of)
  have other: "slots ?t ! j \<noteq> b" if "j \<in> live ?t" for j using that b(1) by (auto simp: in_table_def)
  have tinv': "table_inv ?mem ?t m" by (rule table_inv_live_cong [OF tinv]) (use other in simp)
  have env: "env_ok (hpool ?H) m" using pinv by (simp add: pool_inv_def)
  have tab: "in_table (hpool (retable ?mem ?t ?H)) s \<longleftrightarrow> in_table (hpool ?H) s" for s
    by (simp add: in_table_def)
  have sb: "small_base (retable ?mem ?t ?H) s \<longleftrightarrow> small_base ?H s" for s
    unfolding small_base_def tab using b(1) by (cases "s = b") simp_all
  have ms: "?mem s = seg_mem (hpool ?H) s" if "small_base ?H s" for s
    using that b(1) by (auto simp: small_base_def)
  have sl: "small_slots (hpool ?H) \<subseteq> small_slots (hpool (retable ?mem ?t ?H))"
    using other by (auto simp: small_slots_def)
  have prev: "pool_prev (?mem s) = 0" if "in_table (hpool (retable ?mem ?t ?H)) s" "kind (?mem s) = Large" for s
  proof -
    have s: "in_table (hpool ?H) s" "s \<noteq> b" using that(1) tab b(1) by auto
    then have "kind (seg_mem (hpool ?H) s) = Large" using that(2) by simp
    then have "s \<notin> set ps" using pinv by (auto simp: pool_inv_def idle_def dec_live_iff)
    then show ?thesis using s pinv by (simp add: pool_inv_def)
  qed
  have ids: "\<forall>j \<in> live ?t. segment_id (?mem (slots ?t ! j)) = j" and z: "0 \<in> live ?t"
    using env other by (auto simp: env_ok_def)
  have new: "heap_inv (retable ?mem ?t ?H) ps" "heap_blocks (retable ?mem ?t ?H) = heap_blocks ?H"
    "heap_word (retable ?mem ?t ?H) = heap_word ?H"
    using retable_ok [OF core_inv_parts(1) [OF inv] tinv' z refl ids sb ms sl prev] by blast+
  have hdr: "header_at s ?A = header_at s A" if "s \<noteq> b" for s
    using that by (simp add: header_at_def H')
  have lb: "large_base ?A s \<longleftrightarrow> large_base A s" for s
    unfolding large_base_def H' tab using b(1) hdr by (cases "s = b") auto
  have out: "s \<noteq> b" if "large_base A s" for s using that b(1) by (auto simp: large_base_def)
  have "large_sound E ?A s" if "large_base ?A s" for s
    using core_inv_parts(4) [OF inv, of s] that lb hdr out by (simp add: large_sound_def cc)
  moreover have "cached_sound ?A e" if "cached (core_cache ?A) i e" for i e
    using core_inv_parts(5) [OF inv, of i e] that b(2) hdr unfolding cc cached_sound_def H' tab by simp
  moreover have "region A c l" if "region ?A c l" for c l
  proof -
    have "seg_span (core_heap ?A) c = seg_span ?H c" if "in_table (hpool ?H) c"
    proof -
      have "c \<noteq> b" using that b(1) by auto
      then show ?thesis using hdr [of c] by (simp add: seg_span_def header_at_def)
    qed
    then show ?thesis using that unfolding region_def cc H' tab by auto
  qed
  then have "regions_apart ?A" by (rule regions_apart_shrink [OF core_inv_parts(3) [OF inv]])
  ultimately show "core_inv E ?A ps" using inv new(1) by (simp add: core_inv_def H' cc)
  have "larges ?A = larges A" unfolding larges_def lb
    using hdr out by (intro Collect_cong iff_exI) auto
  moreover have "holds_larges A ?A" unfolding holds_larges_def lb using hdr out by simp
  ultimately have "gains None A ?A" using new(2,3) by (simp add: gains_def keeps_def in_use_def smalls_def H')
  moreover have "header_at s ?A = header_at s A" if "in_table (hpool ?H) s" for s
    using that b(1) hdr by metis
  then have "shrunk A ?A" unfolding shrunk_def H' tab cc by (simp add: core_table_def H')
  ultimately show "settled A ?A" by (simp add: settled_def)
qed

subsection \<open>Memory the small segments do not hold\<close>

lemma store_words_fields [simp]: "hpool (store_words Q g H) = hpool H" "blk_states (store_words Q g H) = blk_states H"
  by (simp_all add: store_words_def)

lemma store_word: "heap_word (store_words Q g H) a = (if a \<in> Q then g a else heap_word H a)"
  using segment_base_le [of a] by (simp add: heap_word_def store_words_def)

lemma store_small_base [simp]: "small_base (store_words Q g H) b = small_base H b"
  by (simp add: small_base_def)

text \<open>Everything that does not read the words themselves.\<close>

lemma store_frame:
  defines "A' Q g A \<equiv> A\<lparr>core_heap := store_words Q g (core_heap A)\<rparr>"
  shows "header_at b (A' Q g A) = header_at b A" "large_base (A' Q g A) b = large_base A b"
    "larges (A' Q g A) = larges A" "region (A' Q g A) b l = region A b l" "core_table (A' Q g A) = core_table A"
    "vacant (A' Q g A) b l = vacant A b l" "shrunk A (A' Q g A)"
proof -
  show h: "header_at b (A' Q g A) = header_at b A" for b by (simp add: header_at_def A'_def)
  show lb: "large_base (A' Q g A) b = large_base A b" for b unfolding large_base_def h by (simp add: A'_def)
  show "larges (A' Q g A) = larges A" unfolding larges_def lb h by (rule refl)
  have span: "seg_span (store_words Q g H) b = seg_span H b" for b H by (simp add: seg_span_def)
  show "region (A' Q g A) b l = region A b l" by (simp add: region_def A'_def span)
  show "core_table (A' Q g A) = core_table A" by (simp add: core_table_def A'_def)
  show "vacant (A' Q g A) b l = vacant A b l" by (simp add: vacant_def clear_def A'_def span)
  show "shrunk A (A' Q g A)" unfolding shrunk_def h by (simp add: core_table_def A'_def)
qed

lemma core_inv_store:
  assumes inv: "core_inv E A ps" and H: "heap_inv (store_words Q g (core_heap A)) ps"
  shows "core_inv E (A\<lparr>core_heap := store_words Q g (core_heap A)\<rparr>) ps"
proof -
  let ?A = "A\<lparr>core_heap := store_words Q g (core_heap A)\<rparr>"
  have "large_sound E ?A b = large_sound E A b" for b unfolding large_sound_def store_frame(1) by simp
  moreover have "cached_sound ?A e = cached_sound A e" for e unfolding cached_sound_def store_frame(1) by simp
  ultimately show ?thesis using inv H unfolding core_inv_def store_frame(2) regions_apart_def store_frame(4) by simp
qed

lemma mapped_ok:
  assumes inv: "core_inv E A ps" and v: "vacant A b n" and n: "b + n \<le> 2 ^ 64"
  shows "core_inv E (mapped b n A) ps" "settled A (mapped b n A)" "vacant (mapped b n A) b n"
    "q \<in> words_in b n \<Longrightarrow> heap_word (core_heap (mapped b n A)) q = 0"
    "core_cache (mapped b n A) = core_cache A" "core_table (mapped b n A) = core_table A"
proof -
  let ?H = "core_heap A" and ?K = "store_words (words_in b n) (\<lambda>_. 0) (core_heap A)"
  have out: "\<not> small_base ?H (segment_base_of q)" if q: "q \<in> words_in b n" for q
  proof
    assume s: "small_base ?H (segment_base_of q)"
    then have "region A (segment_base_of q) SEGMENT" by (simp add: region_def seg_span_def small_base_def)
    from vacant_region(1) [OF v this] have "segment_base_of q + SEGMENT \<le> b \<or> b + n \<le> segment_base_of q" .
    moreover have "q \<le> usize_max" using q n by (simp add: words_in_def)
    note segment_base_le [of q] in_segment [OF this]
    ultimately show False using q by (simp add: words_in_def)
  qed
  have seg: "segment_at s ?K = segment_at s ?H" if s: "small_base ?H s" for s
  proof -
    have "\<not> (s + off \<in> words_in b n \<and> s = segment_base_of (s + off))" for off
      using out [of "s + off"] s by auto
    then have "\<nexists>off. s + off \<in> words_in b n \<and> s = segment_base_of (s + off)" by blast
    then have "blk_cells ?K s = blk_cells ?H s" unfolding store_words_def fun_eq_iff by auto
    then show ?thesis by (simp add: segment_at_def)
  qed
  have "segs_ok ?K" using core_inv_parts(1) [OF inv] seg unfolding heap_inv_def segs_ok_def store_small_base by simp
  then have "heap_inv ?K ps" using core_inv_parts(1) [OF inv] by (simp add: heap_inv_def)
  from core_inv_store [OF inv this] show "core_inv E (mapped b n A) ps" by (simp add: mapped_def)
  have "heap_blocks ?K = heap_blocks ?H" using seg by (simp add: fun_eq_iff heap_blocks_def Let_def)
  then have sm: "smalls (mapped b n A) = smalls A" by (simp add: smalls_def mapped_def)
  have lg: "larges (mapped b n A) = larges A" unfolding mapped_def by (rule store_frame(3))
  have "keeps (in_use A) A (mapped b n A)" unfolding keeps_def
  proof (intro allI impI, elim conjE)
    fix a m q assume a: "(a, m) \<in> in_use A" "a \<le> q" "q < a + m"
    from block_region [OF inv a(1)] obtain c l where "region A c l" "c \<le> a" "a + m \<le> c + l" by blast
    then have "q \<notin> words_in b n" using vacant_region(1) [OF v] a(2,3) by (fastforce simp: words_in_def)
    then show "heap_word (core_heap (mapped b n A)) q = heap_word ?H q" by (simp add: mapped_def store_word)
  qed
  moreover have "shrunk A (mapped b n A)" unfolding mapped_def by (rule store_frame(7))
  moreover have "holds_larges A (mapped b n A)" unfolding holds_larges_def mapped_def store_frame(1,2) by simp
  ultimately show "settled A (mapped b n A)" by (simp add: settled_def gains_def sm lg in_use_def)
  show "vacant (mapped b n A) b n" using v unfolding mapped_def store_frame(6) .
  show "core_table (mapped b n A) = core_table A" unfolding mapped_def by (rule store_frame(5))
qed (simp_all add: mapped_def store_word)

subsection \<open>Allocating a large block\<close>

definition core_refused :: "system \<Rightarrow> nat \<Rightarrow> nat \<Rightarrow> nat \<Rightarrow> alloc_core \<Rightarrow> bool" where
  "core_refused os usable align off A \<longleftrightarrow> (\<exists>A'. shrunk A A'
     \<and> (reserve_large (os A') usable align off = None \<or> live (core_table A') = {..<4096}))"

text \<open>Zeroed memory; no reading of the clock and no deposit in the cache.\<close>

definition zeroed :: "nat \<Rightarrow> nat \<Rightarrow> alloc_core \<Rightarrow> bool" where
  "zeroed p n A \<longleftrightarrow> (\<forall>q \<in> words_in p n. heap_word (core_heap A) q = 0)"

definition steady :: "alloc_core \<Rightarrow> alloc_core \<Rightarrow> bool" where
  "steady A A' \<longleftrightarrow> last_decay_tick (core_cache A') = last_decay_tick (core_cache A)
     \<and> large_cache_seq (core_cache A') = large_cache_seq (core_cache A)"

lemma steady_trans: "steady A A1 \<Longrightarrow> steady A1 A2 \<Longrightarrow> steady A A2"
  by (simp add: steady_def)

definition large_outcome ::
    "system \<Rightarrow> nat \<Rightarrow> nat \<Rightarrow> nat \<Rightarrow> nat \<Rightarrow> nat set \<Rightarrow> alloc_core \<Rightarrow> ((nat option \<times> bool) \<times> alloc_core) core_run \<Rightarrow> bool" where
  "large_outcome os sz align usable off E A run \<longleftrightarrow> (\<exists>p fresh A' ps'. run = ret ((p, fresh), A') \<and> core_inv E A' ps'
     \<and> gains (map_option (\<lambda>p. (p, sz)) p) A A'
     \<and> (case p of None \<Rightarrow> core_refused os usable align off A
        | Some p \<Rightarrow> align dvd p \<and> (p, sz) \<in> larges A' \<and> (fresh \<longrightarrow> zeroed p sz A'))
     \<and> steady A A')"

lemma core_refused_after: "settled A A1 \<Longrightarrow> core_refused os usable align off A1 \<Longrightarrow> core_refused os usable align off A"
  unfolding core_refused_def settled_def using shrunk_trans by blast

lemma large_outcome_none:
  assumes "core_inv E A' ps'" and "gains None A A'"
    and "reserve_large (os A1) usable align off = None \<or> live (core_table A1) = {..<4096}" "settled A A1"
    and "steady A A'"
  shows "large_outcome os sz align usable off E A (ret ((None, fresh), A'))"
  unfolding large_outcome_def
  by (intro exI conjI, rule refl, rule assms(1)) (use assms in \<open>auto simp: core_refused_def settled_def\<close>)

lemma large_outcome_some:
  assumes "core_inv E A' ps'" and "gains (Some (p, sz)) A A'" and "align dvd p" and "(p, sz) \<in> larges A'"
    and "fresh \<Longrightarrow> zeroed p sz A'" and "steady A A'"
  shows "large_outcome os sz align usable off E A (ret ((Some p, fresh), A'))"
  unfolding large_outcome_def
  by (intro exI conjI, rule refl, rule assms(1)) (use assms in simp_all)

lemma large_outcome_after:
  assumes "settled A A1" and "steady A A1" and "large_outcome os sz align usable off E A1 run"
  shows "large_outcome os sz align usable off E A run"
proof -
  obtain p fresh A' ps' where r: "run = ret ((p, fresh), A')" "core_inv E A' ps'"
    "gains (map_option (\<lambda>p. (p, sz)) p) A1 A'"
    "case p of None \<Rightarrow> core_refused os usable align off A1
     | Some p \<Rightarrow> align dvd p \<and> (p, sz) \<in> larges A' \<and> (fresh \<longrightarrow> zeroed p sz A')" "steady A1 A'"
    using assms(3) unfolding large_outcome_def by (elim exE conjE) (rule that, assumption+)
  have "steady A A'" using assms(2) r(5) by (simp add: steady_def)
  moreover have "case p of None \<Rightarrow> core_refused os usable align off A
     | Some p \<Rightarrow> align dvd p \<and> (p, sz) \<in> larges A' \<and> (fresh \<longrightarrow> zeroed p sz A')"
    using r(4) core_refused_after [OF assms(1)] by (auto split: option.splits)
  ultimately show ?thesis unfolding large_outcome_def r(1)
    using r(2) gains_trans [OF settled_gains [OF assms(1)] r(3)] by blast
qed

lemma give_back_ok:
  assumes inv: "core_inv E A ps"
  shows "core_inv E (give_back res len A) ps" "settled A (give_back res len A)" "steady A (give_back res len A)"
proof -
  let ?c = "(core_cache A)\<lparr>os_released := (res, len) # os_released (core_cache A)\<rparr>"
  have "core_inv E (A\<lparr>core_cache := ?c\<rparr>) ps"
    by (rule core_shrunk [OF inv cache_inv_released [OF core_inv_parts(2) [OF inv]]]) (simp_all add: cached_def)
  then show "core_inv E (give_back res len A) ps" using inv by (simp add: give_back_def)
  show "settled A (give_back res len A)" by (rule settled_cache) (simp_all add: give_back_def cached_def split: if_splits)
  show "steady A (give_back res len A)" by (simp add: steady_def give_back_def)
qed

lemma set_table_same [simp]: "set_table (core_table A) A = A"
  by (simp add: set_table_def core_table_def)

lemma alloc_large_slow_ok:
  assumes inv: "core_inv E A ps" and os: "fresh_system os" and rq: "large_request page align sz usable off"
  shows "large_outcome os sz align usable off E A (alloc_large_slow os sz align usable off A)"
proof -
  note f = large_request_facts [OF rq]
  from reserve_or_drain_ok [OF inv] obtain A1 ps1 where
    A1: "reserve_or_drain os usable align off A = ret (reserve_large (os A1) usable align off, A1)"
      "core_inv E A1 ps1" "settled A A1" "core_cache A1 = core_cache A" by blast
  have st: "steady A A1" by (simp add: steady_def A1(4))
  show ?thesis
  proof (cases "reserve_large (os A1) usable align off")
    case None
    then have run: "alloc_large_slow os sz align usable off A = ret ((None, True), A1)"
      using A1(1) by (simp add: alloc_large_slow_def)
    show ?thesis unfolding run by (rule large_outcome_none [OF A1(2) settled_gains [OF A1(3)] _ A1(3) st]) (simp add: None)
  next
    case (Some x)
    obtain b res len where x: "x = (b, res, len)" by (cases x)
    have "answers_fresh A1 (os A1)" using os by (simp add: fresh_system_def)
    note at = reserve_large_placed [OF this rq Some [unfolded x]]
    let ?A2 = "mapped b usable A1"
    note mp = mapped_ok [OF A1(2) at(1,4)]
    have s2: "settled A ?A2" by (rule settled_trans [OF A1(3) mp(2)])
    define h where "h = the (header_large 0 sz align usable usable (off + sz) res len)"
    have hl: "header_large i sz align usable usable (off + sz) res len = Some (h\<lparr>segment_id := i\<rparr>)" for i
      by (simp add: h_def header_large_def)
    have hf: "kind h = Large" "pool_prev h = 0" "span_usable h = usable" "payload_offset h = off" "large_size h = sz"
      "large_align h = align" "reservation h = res" by (simp_all add: h_def header_large_def)
    have hok: "large_header_ok b h"
      using at f(1,6) rq by (simp add: large_header_ok_def hf large_request_def)
    from add_large_ok [OF mp(1,3) hf(1-3) hok, unfolded hf] obtain r t where
      r: "register_payload b Large (b + off) (core_table ?A2) = Some (Inr (r, t))" and rr: "case r of
        None \<Rightarrow> t = core_table ?A2 \<and> live (core_table ?A2) = {..<4096}
      | Some i \<Rightarrow> \<forall>A' w. core_heap A' = retable ((seg_mem (hpool (core_heap ?A2)))(b := h\<lparr>segment_id := i\<rparr>)) t (core_heap ?A2)
          \<and> large_phase w = Some PhLive \<and> core_cache A' = (core_cache ?A2)\<lparr>state_word := (state_word (core_cache ?A2))(b := w)\<rparr>
          \<longrightarrow> core_inv E A' ps1 \<and> gains (Some (b + off, sz)) ?A2 A' \<and> (b + off, sz) \<in> larges A'" by blast
    show ?thesis
    proof (cases r)
      case None
      then have run: "alloc_large_slow os sz align usable off A = ret ((None, True), give_back res len ?A2)"
        using A1(1) Some x r rr by (simp add: alloc_large_slow_def)
      have "live (core_table ?A2) = {..<4096}" using rr None by simp
      moreover note gb = give_back_ok [OF mp(1), of res len]
      moreover have "steady A (give_back res len ?A2)" using st gb(3) by (simp add: steady_def mp(5))
      ultimately show ?thesis unfolding run
        by (intro large_outcome_none [OF gb(1) settled_gains [OF settled_trans [OF s2 gb(2)]] _ s2]) simp_all
    next
      case (Some i)
      let ?tw = "\<lparr>remote_head = REMOTE_HEAD_EMPTY, large_word = packed_word PhLive 1\<rparr>"
      let ?A = "put_terminal b ?tw (set_header b (\<lambda>_. h\<lparr>segment_id := i\<rparr>) (set_table t ?A2))"
      have "(1 :: u64) \<le> MAX_LARGE_GENERATION" by (simp add: word_le_nat_alt unat_max_generation)
      then have tw: "init_large_terminal = Inr ?tw"
        by (simp add: init_large_terminal_def init_terminal_def pack_large_state_eq)
      have run: "alloc_large_slow os sz align usable off A = ret ((Some (b + off), True), ?A)"
        using A1(1) \<open>reserve_large (os A1) usable align off = Some x\<close> x r Some
        by (simp add: alloc_large_slow_def hl tw)
      have "core_heap ?A = retable ((seg_mem (hpool (core_heap ?A2)))(b := h\<lparr>segment_id := i\<rparr>)) t (core_heap ?A2)"
        by (simp add: put_terminal_def put_word_def set_header_def set_table_def retable_def on_header_def)
      moreover have "core_cache ?A = (core_cache ?A2)\<lparr>state_word := (state_word (core_cache ?A2))(b := packed_word PhLive 1)\<rparr>"
        by (simp add: put_terminal_def put_word_def set_header_def set_table_def)
      ultimately have "core_inv E ?A ps1 \<and> gains (Some (b + off, sz)) ?A2 ?A \<and> (b + off, sz) \<in> larges ?A"
        by (intro rr [unfolded Some option.case, rule_format, of _ "packed_word PhLive 1"] conjI)
          (assumption | rule pack_phase)+
      then have "core_inv E ?A ps1" "gains (Some (b + off, sz)) ?A2 ?A" "(b + off, sz) \<in> larges ?A" by blast+
      moreover have "steady A ?A"
        using st by (simp add: steady_def put_terminal_def put_word_def set_header_def set_table_def mp(5))
      moreover have "zeroed (b + off) sz ?A" unfolding zeroed_def
      proof
        fix q assume "q \<in> words_in (b + off) sz"
        then have "q \<in> words_in b usable" using f(1) by (auto simp: words_in_def)
        from mp(4) [OF this] show "heap_word (core_heap ?A) q = 0"
          by (simp add: put_terminal_def put_word_def set_header_def set_table_def heap_word_def)
      qed
      ultimately show ?thesis unfolding run
        by (intro large_outcome_some [OF _ gains_trans [OF settled_gains [OF s2]] at(5)])
    qed
  qed
qed

text \<open>An entry taken out of the cache, whatever its state word becomes.\<close>

definition untaken :: "nat \<Rightarrow> cached_large \<Rightarrow> u64 \<Rightarrow> alloc_core \<Rightarrow> alloc_core" where
  "untaken i e w A = A\<lparr>core_cache := (core_cache A)\<lparr>large_cache := (large_cache (core_cache A))(i := None),
     large_cache_occupied := large_cache_occupied (core_cache A) AND NOT (push_bit i 1),
     large_cache_used_bytes := large_cache_used_bytes (core_cache A) - cl_usable_size e,
     state_word := (state_word (core_cache A))(cl_base e := w)\<rparr>\<rparr>"

lemma untaken_ok:
  assumes inv: "core_inv E A ps" and e: "cached (core_cache A) i e"
  shows "core_inv E (untaken i e w A) ps" "vacant (untaken i e w A) (cl_base e) (cl_usable_size e)"
    "settled A (untaken i e w A)" "steady A (untaken i e w A)"
proof -
  define c where "c = core_cache (untaken i e w A)"
  have A': "untaken i e w A = A\<lparr>core_cache := c\<rparr>" by (simp add: untaken_def c_def)
  have cd: "cached c j e' \<Longrightarrow> cached (core_cache A) j e' \<and> j \<noteq> i" for j e'
    by (auto simp: cached_def untaken_def c_def split: if_splits)
  have cinv: "cache_inv c"
    by (rule inv_without(1) [OF core_inv_parts(2) [OF inv] e]) (simp_all add: untaken_def c_def)
  have word: "b \<noteq> cl_base e \<Longrightarrow> state_word c b = state_word (core_cache A) b" for b
    by (simp add: c_def untaken_def)
  show "core_inv E (untaken i e w A) ps" unfolding A'
  proof (rule core_shrunk [OF inv])
    show "cache_inv c" by (rule cinv)
    show "cached (core_cache A) j e'" if "cached c j e'" for j e' using cd that by blast
    show "b \<notin> E \<and> state_word c b = state_word (core_cache A) b" if "large_base A b" "b \<notin> E" for b
      using word large_not_cached [OF inv that(1) e] that(2) by metis
  qed
  show "vacant (untaken i e w A) (cl_base e) (cl_usable_size e)" unfolding A'
    by (rule vacant_taken [OF inv e]) (use cd in simp)
  show "settled A (untaken i e w A)" unfolding A' by (rule settled_cache) (use cd in simp_all)
  show "steady A (untaken i e w A)" by (simp add: steady_def untaken_def)
qed

lemma begin_reuse_cached:
  assumes "large_phase w = Some PhCached"
  shows "begin_large_reuse \<lparr>remote_head = r, large_word = w\<rparr> = Inr (case next_large_generation (large_generation w) of
      None \<Rightarrow> (None, \<lparr>remote_head = r, large_word = w\<rparr>)
    | Some n \<Rightarrow> (Some n, \<lparr>remote_head = r, large_word = packed_word PhInitializing n\<rparr>))"
  using assms by (auto simp: begin_large_reuse_def begin_reuse_def observe_def reuse_cas_eq split: option.split)

lemma initializing_swap:
  assumes "n \<le> MAX_LARGE_GENERATION"
  shows "release_initializing n (packed_word PhInitializing n) = Inr (True, packed_word PhReleased n)"
    "finish_large_reuse n \<lparr>remote_head = r, large_word = packed_word PhInitializing n\<rparr>
       = Inr \<lparr>remote_head = REMOTE_HEAD_EMPTY, large_word = packed_word PhLive n\<rparr>"
  using assms by (simp_all add: release_initializing_def finish_large_reuse_def finish_reuse_def transition_eq
      pack_phase pack_generation)

lemma reuse_large_ok:
  assumes inv: "core_inv E A ps" and os: "fresh_system os" and rq: "large_request page align sz usable off"
    and al: "align < SEGMENT" and e: "cached (core_cache A) i e" "usable \<le> cl_usable_size e"
  shows "large_outcome os sz align usable off E A (reuse_large os sz align usable off i A)"
proof -
  let ?b = "cl_base e" and ?c = "core_cache A" and ?w = "state_word (core_cache A) (cl_base e)"
  define c1 where "c1 = ?c\<lparr>large_cache := (large_cache ?c)(i := None),
      large_cache_occupied := large_cache_occupied ?c AND NOT (push_bit i 1)\<rparr>"
  note slow = alloc_large_slow_ok [OF _ os rq]
  note f = large_request_facts [OF rq] and ut = untaken_ok [OF inv e(1)]
  have cs: "cached_sound A e" by (rule core_inv_parts(5) [OF inv e(1)])
  have ph: "large_phase ?w = Some PhCached"
    using core_inv_parts(2) [OF inv] e(1) by (simp add: cache_inv_def entries_ok_def)
  have take: "large_cache_slot_take i ?c = Inr (e, c1)"
    using e(1) by (simp add: large_cache_slot_take_def cached_def c1_def)
  have tm: "terminal_at ?b (A\<lparr>core_cache := c1\<rparr>) = \<lparr>remote_head = core_heads A ?b, large_word = ?w\<rparr>"
    by (simp add: terminal_at_def c1_def)
  have put: "(put_terminal ?b \<lparr>remote_head = core_heads A ?b, large_word = w\<rparr> (A\<lparr>core_cache := c1\<rparr>))
      \<lparr>core_cache := (core_cache (put_terminal ?b \<lparr>remote_head = core_heads A ?b, large_word = w\<rparr> (A\<lparr>core_cache := c1\<rparr>)))
        \<lparr>large_cache_used_bytes := large_cache_used_bytes (core_cache
          (put_terminal ?b \<lparr>remote_head = core_heads A ?b, large_word = w\<rparr> (A\<lparr>core_cache := c1\<rparr>))) - cl_usable_size e\<rparr>\<rparr>
      = untaken i e w A" for w
    by (simp add: put_terminal_def put_word_def untaken_def c1_def)
  show ?thesis
  proof (cases "next_large_generation (large_generation ?w)")
    case None
    let ?A = "give_back (cl_reservation e) (cl_reservation_len e)
        (untaken i e (packed_word PhReleased (large_generation ?w)) A)"
    have "put_word ?b v (untaken i e w A) = untaken i e v A" for v w by (simp add: put_word_def untaken_def)
    moreover have "state_word (core_cache (untaken i e w A)) ?b = w" for w by (simp add: untaken_def)
    ultimately have "reuse_exhausted e (untaken i e ?w A) = ret ?A"
      by (simp add: reuse_exhausted_def Let_def release_cached_cached [OF ph])
    then have run: "reuse_large os sz align usable off i A = alloc_large_slow os sz align usable off ?A"
      unfolding reuse_large_def take tbind_Some prod.case Let_def tm begin_reuse_cached [OF ph] None option.case put
      by simp
    show ?thesis unfolding run
      by (rule large_outcome_after [OF settled_trans [OF ut(3) give_back_ok(2) [OF ut(1)]]
            steady_trans [OF ut(4) give_back_ok(3) [OF ut(1)]] slow [OF give_back_ok(1) [OF ut(1)]]])
  next
    case (Some n)
    let ?B = "untaken i e (packed_word PhInitializing n) A" and ?h = "restamp sz align off (header_at ?b A)"
    let ?A4 = "set_header ?b (restamp sz align off) ?B"
    have n: "n \<le> MAX_LARGE_GENERATION" using next_generation_Some [OF Some] by blast
    have hf: "kind ?h = Large" "pool_prev ?h = 0" "span_usable ?h = cl_usable_size e" "payload_offset ?h = off"
      "large_size ?h = sz" "large_align ?h = align" "reservation ?h = cl_reservation e"
      using cs by (simp_all add: cached_sound_def cached_header_ok_def restamp_def)
    have key: "segment_key ?b" "?b \<noteq> 0" "?b + cl_usable_size e \<le> 2 ^ 64" "cl_reservation e \<noteq> 0"
      "\<not> in_table (hpool (core_heap A)) ?b"
      using cs by (simp_all add: cached_sound_def)
    have off: "off < SEGMENT" "align dvd off" using f(5) al by simp_all
    have "(SEGMENT :: nat) = 2 ^ 22" by simp
    then have ps2: "is_power_of_two SEGMENT" using is_power_of_two_pow [of 22] by (simp only:)
    have pw: "is_power_of_two align" "0 < sz" using rq by (simp_all add: large_request_def)
    have "align dvd SEGMENT" using power_of_two_dvd_iff [OF pw(1) ps2] al by simp
    moreover have "SEGMENT dvd ?b" using based_key [OF key(1,2)] by (simp add: based_def)
    ultimately have d: "align dvd ?b + off" using off(2) by (meson dvd_add dvd_trans)
    have "segment_base_of (?b + off) = ?b" by (rule segment_base_of_in [OF based_key [OF key(1,2)] off(1)])
    then have hok: "large_header_ok ?b ?h"
      using key d f(1,6) e(2) pw(2) by (simp add: large_header_ok_def hf)
    have heap: "core_heap ?B = core_heap A" by (simp add: untaken_def)
    from add_large_ok [OF ut(1,2) hf(1-3) hok, unfolded hf] obtain r t where
      r: "register_payload ?b Large (?b + off) (core_table ?B) = Some (Inr (r, t))" and rr: "case r of
        None \<Rightarrow> t = core_table ?B \<and> live (core_table ?B) = {..<4096}
      | Some j \<Rightarrow> \<forall>A' w. core_heap A' = retable ((seg_mem (hpool (core_heap ?B)))(?b := ?h\<lparr>segment_id := j\<rparr>)) t (core_heap ?B)
          \<and> large_phase w = Some PhLive \<and> core_cache A' = (core_cache ?B)\<lparr>state_word := (state_word (core_cache ?B))(?b := w)\<rparr>
          \<longrightarrow> core_inv E A' ps \<and> gains (Some (?b + off, sz)) ?B A' \<and> (?b + off, sz) \<in> larges A'" by blast
    have nd: "\<not> reuse_diverged e (header_at ?b ?B)"
      using cs by (simp add: reuse_diverged_def cached_sound_def cached_header_ok_def header_at_def heap)
    have tab: "core_table ?A4 = core_table ?B" by (simp add: core_table_def set_header_def on_header_def)
    have run: "reuse_large os sz align usable off i A = (case r of
        None \<Rightarrow> tbind (reuse_refused e n (set_table t ?A4)) (alloc_large_slow os sz align usable off)
      | Some j \<Rightarrow> let A5 = set_header ?b (\<lambda>h. h\<lparr>segment_id := j\<rparr>) (set_table t ?A4) in
          tbind (Some (finish_large_reuse n (terminal_at ?b A5))) (\<lambda>tw'. ret ((Some (?b + off), False), put_terminal ?b tw' A5)))"
      unfolding reuse_large_def take tbind_Some prod.case Let_def tm begin_reuse_cached [OF ph] Some option.case put
        if_not_P [OF nd] tab r by (rule refl)
    show ?thesis
    proof (cases r)
      case None
      let ?C = "set_header ?b (restamp sz align off) (untaken i e (packed_word PhReleased n) A)"
      have t: "set_table t ?A4 = ?A4" using rr None set_table_same [of ?A4] tab by simp
      have "state_word (core_cache ?A4) ?b = packed_word PhInitializing n"
        by (simp add: set_header_def untaken_def)
      moreover have "put_word ?b (packed_word PhReleased n) ?A4 = ?C"
        by (simp add: put_word_def set_header_def untaken_def)
      ultimately have "reuse_refused e n ?A4 = ret (give_back (cl_reservation e) (cl_reservation_len e) ?C)"
        using initializing_swap(1) [OF n] by (simp add: reuse_refused_def Let_def)
      then have run': "reuse_large os sz align usable off i A
          = alloc_large_slow os sz align usable off (give_back (cl_reservation e) (cl_reservation_len e) ?C)"
        unfolding run None option.case t by simp
      let ?U = "untaken i e (packed_word PhReleased n) A"
      have "\<not> in_table (hpool (core_heap ?U)) ?b" using key(5) by (simp add: untaken_def)
      moreover have "cl_base e' \<noteq> ?b" if "cached (core_cache ?U) j e'" for j e'
        using ut(2) [of "packed_word PhReleased n"] that unfolding vacant_def by blast
      ultimately have C: "core_inv E ?C ps" "settled ?U ?C" "steady ?U ?C"
        using set_header_ok [OF ut(1)] by (blast, blast, simp add: steady_def set_header_def)
      show ?thesis unfolding run'
        by (rule large_outcome_after [OF settled_trans [OF ut(3) settled_trans [OF C(2) give_back_ok(2) [OF C(1)]]]
              steady_trans [OF ut(4) steady_trans [OF C(3) give_back_ok(3) [OF C(1)]]]
              slow [OF give_back_ok(1) [OF C(1)]]])
    next
      case (Some j)
      let ?A5 = "set_header ?b (\<lambda>h. h\<lparr>segment_id := j\<rparr>) (set_table t ?A4)"
      let ?tw = "\<lparr>remote_head = REMOTE_HEAD_EMPTY, large_word = packed_word PhLive n\<rparr>"
      let ?A = "put_terminal ?b ?tw ?A5"
      have "terminal_at ?b ?A5 = \<lparr>remote_head = core_heads A ?b, large_word = packed_word PhInitializing n\<rparr>"
        by (simp add: terminal_at_def set_header_def set_table_def untaken_def)
      then have run': "reuse_large os sz align usable off i A = ret ((Some (?b + off), False), ?A)"
        unfolding run Some option.case Let_def using initializing_swap(2) [OF n] by simp
      have "core_heap ?A = retable ((seg_mem (hpool (core_heap ?B)))(?b := ?h\<lparr>segment_id := j\<rparr>)) t (core_heap ?B)"
        by (simp add: put_terminal_def put_word_def set_header_def set_table_def retable_def on_header_def
            untaken_def header_at_def)
      moreover have "core_cache ?A = (core_cache ?B)\<lparr>state_word := (state_word (core_cache ?B))(?b := packed_word PhLive n)\<rparr>"
        by (simp add: put_terminal_def put_word_def set_header_def set_table_def)
      ultimately have "core_inv E ?A ps \<and> gains (Some (?b + off, sz)) ?B ?A \<and> (?b + off, sz) \<in> larges ?A"
        by (intro rr [unfolded Some option.case, rule_format, of _ "packed_word PhLive n"] conjI)
          (assumption | rule pack_phase)+
      then have "core_inv E ?A ps" "gains (Some (?b + off, sz)) ?B ?A" "(?b + off, sz) \<in> larges ?A" by blast+
      then show ?thesis unfolding run'
        by (intro large_outcome_some [OF _ gains_trans [OF settled_gains [OF ut(3)]] d])
          (simp_all add: steady_def put_terminal_def put_word_def set_header_def set_table_def untaken_def)
    qed
  qed
qed

lemma payload_offset_exists:
  assumes "is_power_of_two align" and "page_ok page"
  shows "\<exists>off. large_payload_offset page align = Inr off"
  using assms power_of_two_pos by (auto simp: large_payload_offset_def align_up_def page_ok_def max_def)

lemma alloc_large_ok:
  assumes inv: "core_inv E A ps" and os: "fresh_system os" and now: "clock_ok now A"
    and rq: "page_ok page" "is_power_of_two align" "0 < sz"
  shows "\<exists>p fresh A' ps'. alloc_large os page now sz align A = ret ((p, fresh), A') \<and> core_inv E A' ps'
    \<and> gains (map_option (\<lambda>p. (p, sz)) p) A A'
    \<and> (case p of None \<Rightarrow> \<forall>off usable. large_request page align sz usable off \<longrightarrow> core_refused os usable align off A
       | Some p \<Rightarrow> align dvd p \<and> (p, sz) \<in> larges A' \<and> (fresh \<longrightarrow> zeroed p sz A'))
    \<and> clock_ok now A' \<and> large_cache_seq (core_cache A') = large_cache_seq (core_cache A)"
proof -
  from decay_both_ok [OF inv now] obtain A1 ps1 where
    d: "decay_both now A = ret A1" "core_inv E A1 ps1" "settled A A1" "clock_ok now A1"
    "large_cache_seq (core_cache A1) = large_cache_seq (core_cache A)" by blast
  from payload_offset_exists [OF rq(2,1)] obtain off where off: "large_payload_offset page align = Inr off" by blast
  show ?thesis
  proof (cases "usize_max < off + sz \<or> large_usable (off + sz) = None")
    case True
    then have run: "alloc_large os page now sz align A = ret ((None, True), A1)"
      using d(1) off by (auto simp: alloc_large_def)
    have no: "\<not> large_request page align sz usable off'" for usable off'
    proof
      assume l: "large_request page align sz usable off'"
      then have "off' = off" "large_usable (off + sz) = Some usable" using off by (auto simp: large_request_def)
      then show False using True large_request_facts(1,2) [OF l] by simp
    qed
    show ?thesis unfolding run
      by (intro exI conjI, rule refl, rule d(2)) (use settled_gains [OF d(3)] d(4,5) no in simp_all)
  next
    case False
    then obtain usable where u: "large_usable (off + sz) = Some usable" "off + sz \<le> usize_max" by auto
    have lr: "large_request page align sz usable off" using rq off u by (simp add: large_request_def)
    let ?i = "if align < SEGMENT then best_fit usable (core_cache A1) else None"
    have run: "alloc_large os page now sz align A = (case ?i of
        Some idx \<Rightarrow> reuse_large os sz align usable off idx A1 | None \<Rightarrow> alloc_large_slow os sz align usable off A1)"
      using d(1) off u by (simp add: alloc_large_def)
    have out: "large_outcome os sz align usable off E A1 (alloc_large os page now sz align A)"
    proof (cases ?i)
      case None
      then show ?thesis unfolding run using alloc_large_slow_ok [OF d(2) os lr] by simp
    next
      case (Some i)
      then have al: "align < SEGMENT" "best_fit usable (core_cache A1) = Some i" by (auto split: if_splits)
      then obtain e where e: "cached (core_cache A1) i e" "usable \<le> cl_usable_size e"
        using best_fit_slot [OF core_inv_parts(2) [OF d(2)], of usable] by auto
      show ?thesis unfolding run Some option.case by (rule reuse_large_ok [OF d(2) os lr al(1) e])
    qed
    have uniq: "off' = off \<and> usable' = usable" if "large_request page align sz usable' off'" for off' usable'
      using that off u by (auto simp: large_request_def)
    obtain p fresh A' ps' where r: "alloc_large os page now sz align A = ret ((p, fresh), A')" "core_inv E A' ps'"
      "gains (map_option (\<lambda>p. (p, sz)) p) A1 A'"
      "case p of None \<Rightarrow> core_refused os usable align off A1
       | Some p \<Rightarrow> align dvd p \<and> (p, sz) \<in> larges A' \<and> (fresh \<longrightarrow> zeroed p sz A')" "steady A1 A'"
      using out unfolding large_outcome_def by (elim exE conjE) (rule that, assumption+)
    have "case p of None \<Rightarrow> \<forall>off usable. large_request page align sz usable off \<longrightarrow> core_refused os usable align off A
       | Some p \<Rightarrow> align dvd p \<and> (p, sz) \<in> larges A' \<and> (fresh \<longrightarrow> zeroed p sz A')"
      using r(4) uniq core_refused_after [OF d(3)] by (auto split: option.splits)
    moreover have "clock_ok now A'" "large_cache_seq (core_cache A') = large_cache_seq (core_cache A)"
      using r(5) d(4,5) by (simp_all add: steady_def clock_ok_def)
    ultimately show ?thesis using r(1,2) gains_trans [OF settled_gains [OF d(3)] r(3)] by blast
  qed
qed

end
