(* ===== verification/LargeFree.thy ===== *)
theory LargeFree
  imports LargeHeap
begin

text \<open>
  The free of a large block: its credit is claimed, the segment leaves the table, and its
  reservation goes to the cache or back to the system (\<open>dealloc_large_at_base\<close> of
  \<open>src/alloc_core/mem/mem_impl.rs\<close>).
\<close>

subsection \<open>The bytes the cache counts\<close>

text \<open>The cached spans and a large segment lie apart in the address space, so their sizes add up in it.\<close>

lemma apart_sum:
  assumes fin: "finite I" and apart: "\<And>i j. i \<in> I \<Longrightarrow> j \<in> I \<Longrightarrow> i \<noteq> j \<Longrightarrow>
      (lo i :: nat) + n i \<le> lo j \<or> lo j + n j \<le> lo i" and bound: "\<And>i. i \<in> I \<Longrightarrow> 0 < lo i \<and> lo i + n i \<le> m"
  shows "sum n I \<le> m - 1"
proof -
  let ?f = "\<lambda>i. {lo i ..< lo i + n i}"
  have "card (\<Union> (?f ` I)) = (\<Sum>i \<in> I. card (?f i))"
  proof (rule card_UN_disjoint [OF fin])
    show "\<forall>i \<in> I. \<forall>j \<in> I. i \<noteq> j \<longrightarrow> ?f i \<inter> ?f j = {}" using apart by fastforce
  qed simp
  moreover have "\<Union> (?f ` I) \<subseteq> {1 ..< m}" using bound by fastforce
  from card_mono [OF finite_atLeastLessThan this] have "card (\<Union> (?f ` I)) \<le> m - 1" by simp
  ultimately show ?thesis by simp
qed

lemma used_with_large:
  assumes inv: "core_inv E A ps" and b: "large_base A b"
  shows "large_cache_used_bytes (core_cache A) + span_usable (header_at b A) \<le> usize_max"
proof -
  let ?c = "core_cache A" and ?l = "span_usable (header_at b A)"
  define I where "I = {i. i < LARGE_CACHE_SLOTS \<and> large_cache ?c i \<noteq> None}"
  define lo where "lo i = (if i = LARGE_CACHE_SLOTS then b else cl_base (the (large_cache ?c i)))" for i
  define n where "n i = (if i = LARGE_CACHE_SLOTS then ?l else cl_usable_size (the (large_cache ?c i)))" for i
  let ?J = "insert LARGE_CACHE_SLOTS I"
  have fin: "finite I" by (simp add: I_def)
  have entry: "\<exists>e. cached ?c i e \<and> lo i = cl_base e \<and> n i = cl_usable_size e" if "i \<in> I" for i
    using that by (auto simp: I_def lo_def n_def cached_def)
  note l = large_region [OF inv b]
  have b0: "b \<noteq> 0" using core_inv_parts(4) [OF inv b] by (simp add: large_sound_def large_header_ok_def)
  have reg: "region A (lo i) (n i) \<and> 0 < lo i \<and> lo i + n i \<le> 2 ^ 64" if i: "i \<in> ?J" for i
  proof (cases "i = LARGE_CACHE_SLOTS")
    case True
    then show ?thesis using l b0 by (simp add: lo_def n_def)
  next
    case False
    then obtain e where e: "cached ?c i e" "lo i = cl_base e" "n i = cl_usable_size e" using entry i by blast
    then show ?thesis using core_inv_parts(5) [OF inv e(1)] by (auto simp: region_def cached_sound_def)
  qed
  have ne: "lo i \<noteq> lo j" if ij: "i \<in> ?J" "j \<in> ?J" "i \<noteq> j" for i j
  proof -
    have eb: "lo k \<noteq> b" if k: "k \<in> I" for k
      using entry [OF k] large_not_cached [OF inv b] by metis
    have "lo LARGE_CACHE_SLOTS = b" by (simp add: lo_def)
    moreover have "lo i \<noteq> lo j" if i: "i \<in> I" and j: "j \<in> I"
      using entry [OF i] entry [OF j] ij(3) core_inv_parts(2) [OF inv] unfolding cache_inv_def entries_ok_def by metis
    ultimately show ?thesis using ij eb by (metis insertE)
  qed
  have "sum n ?J \<le> 2 ^ 64 - 1"
  proof (rule apart_sum [of ?J lo n])
    show "finite ?J" using fin by simp
    show "lo i + n i \<le> lo j \<or> lo j + n j \<le> lo i" if "i \<in> ?J" "j \<in> ?J" "i \<noteq> j" for i j
      using core_inv_parts(3) [OF inv] reg [OF that(1)] reg [OF that(2)] ne [OF that] unfolding regions_apart_def by blast
    show "0 < lo i \<and> lo i + n i \<le> 2 ^ 64" if "i \<in> ?J" for i using reg [OF that] by blast
  qed
  moreover have "sum n ?J = ?l + sum n I" using fin by (simp add: I_def n_def)
  moreover have "large_cache_used_bytes ?c = sum n I"
  proof -
    have "large_cache_used_bytes ?c = slot_sum cl_usable_size (large_cache ?c)"
      using core_inv_parts(2) [OF inv] by (simp add: cache_inv_def)
    also have "\<dots> = sum n I" unfolding slot_sum_def
      by (rule sum.mono_neutral_cong_right) (auto simp: I_def n_def split: option.splits)
    finally show ?thesis .
  qed
  ultimately show ?thesis by simp
qed

subsection \<open>A large segment less\<close>

lemma smalls_not_large:
  assumes inv: "core_inv E A ps" and a: "(a, n) \<in> smalls A"
  shows "(a, k) \<notin> larges A"
proof
  assume l: "(a, k) \<in> larges A"
  obtain c where c: "heap_blocks (core_heap A) a = Some c" using a by (auto simp: smalls_def)
  have "0 < k" using l large_region(2) [OF inv] by (auto simp: larges_def)
  then have "\<not> small_base (core_heap A) (segment_base_of a)" using large_words(1) [OF inv l, of a] by simp
  then show False using heap_block_parts(1) [OF c] by blast
qed

lemma larges_differ:
  assumes inv: "core_inv E A ps" and b: "large_base A b" "large_base A s" "s \<noteq> b"
  shows "s + payload_offset (header_at s A) \<noteq> b + payload_offset (header_at b A)"
proof -
  note lb = large_region [OF inv b(1)] and ls = large_region [OF inv b(2)]
  have "s + span_usable (header_at s A) \<le> b \<or> b + span_usable (header_at b A) \<le> s"
    using core_inv_parts(3) [OF inv] lb(1) ls(1) b(3) unfolding regions_apart_def by blast
  then show ?thesis using lb(2,3) ls(2,3) by linarith
qed

lemma large_pool_prev:
  assumes inv: "core_inv E A ps" and b: "large_base A b"
  shows "pool_prev (header_at b A) = 0"
proof -
  from core_inv_parts(1) [OF inv] obtain m where pinv: "pool_inv (hpool (core_heap A)) m ps" by (rule table_of)
  then have "b \<notin> set ps" using b by (auto simp: pool_inv_def idle_def dec_live_iff large_base_def header_at_def)
  then show ?thesis using pinv b by (simp add: pool_inv_def large_base_def header_at_def)
qed

text \<open>\<open>loses x A A'\<close>: nothing changed for the blocks in use but that \<open>x\<close> is gone.\<close>

definition loses :: "nat \<times> nat \<Rightarrow> alloc_core \<Rightarrow> alloc_core \<Rightarrow> bool" where
  "loses x A A' \<longleftrightarrow> in_use A' = in_use A - {x} \<and> smalls A - {x} \<subseteq> smalls A' \<and> larges A - {x} \<subseteq> larges A'
     \<and> keeps (in_use A - {x}) A A'"

lemma loses_after:
  assumes "gains None A A1" and "loses x A1 A'"
  shows "loses x A A'"
proof -
  have u: "in_use A1 = in_use A" and k: "keeps (in_use A) A A1" "smalls A \<subseteq> smalls A1" "larges A \<subseteq> larges A1"
    using assms(1) holds_larges_subset by (simp_all add: gains_def)
  have "keeps (in_use A - {x}) A A'" using k(1) assms(2) unfolding loses_def u keeps_def by (metis Diff_iff)
  then show ?thesis using k(2,3) assms(2) unfolding loses_def u by blast
qed

text \<open>
  What the table holds without the segment, with whatever the header became; the reservation may
  have become an entry of the cache.
\<close>

lemma remove_large_ok:
  assumes inv: "core_inv {b} A ps" and b: "large_base A b"
    and h: "h = header_at b A \<or> h = (header_at b A)\<lparr>magic := 0\<rparr>"
    and t: "unregister (seg_mem (hpool (core_heap A))) b (core_table A) = Some (Inr t)"
    and A': "core_heap A' = retable ((seg_mem (hpool (core_heap A)))(b := h)) t (core_heap A)"
    and c: "cache_inv (core_cache A')" "\<And>s. s \<noteq> b \<Longrightarrow> state_word (core_cache A') s = state_word (core_cache A) s"
      "\<And>i e. cached (core_cache A') i e \<Longrightarrow> cached (core_cache A) i e
         \<or> e = entry_of (header_at b A) b (cl_seq e) \<and> large_align (header_at b A) < SEGMENT"
  shows "core_inv {} A' ps"
    "loses (b + payload_offset (header_at b A), large_size (header_at b A)) A A'"
proof -
  let ?H = "core_heap A" and ?mem = "(seg_mem (hpool (core_heap A)))(b := h)"
  have lh: "large_header_ok b (header_at b A)" using core_inv_parts(4) [OF inv b] by (simp add: large_sound_def)
  have b': "b \<noteq> 0" "in_table (hpool ?H) b" "kind (seg_mem (hpool ?H) b) = Large"
    using b lh by (simp_all add: large_base_def large_header_ok_def header_at_def)
  from unregister_large_ok [OF core_inv_parts(1) [OF inv] b'] t obtain t' where
    t': "t' = t" "\<forall>h. let H' = retable ((seg_mem (hpool ?H))(b := h)) t' ?H in heap_inv H' ps \<and> heap_blocks H' = heap_blocks ?H
        \<and> heap_word H' = heap_word ?H \<and> (\<forall>s. in_table (hpool H') s \<longleftrightarrow> in_table (hpool ?H) s \<and> s \<noteq> b)"
    unfolding core_table_def by auto
  then have new: "heap_inv (core_heap A') ps" "heap_blocks (core_heap A') = heap_blocks ?H"
      "heap_word (core_heap A') = heap_word ?H"
      "\<And>s. in_table (hpool (core_heap A')) s \<longleftrightarrow> in_table (hpool ?H) s \<and> s \<noteq> b"
    unfolding A' Let_def by blast+
  have hdr: "header_at s A' = (if s = b then h else header_at s A)" for s by (simp add: header_at_def A')
  have lb: "large_base A' s \<longleftrightarrow> large_base A s \<and> s \<noteq> b" for s
    unfolding large_base_def new(4) hdr by auto
  have sound: "large_sound {} A' s" if "large_base A' s" for s
    using that core_inv_parts(4) [OF inv, of s] c(2) [of s] unfolding lb by (simp add: large_sound_def hdr)
  have prev: "pool_prev (header_at b A) = 0" by (rule large_pool_prev [OF inv b])
  have cs: "cached_sound A' e" if "cached (core_cache A') i e" for i e
    using c(3) [OF that]
  proof
    assume e: "cached (core_cache A) i e"
    have "cl_base e \<noteq> b" by (rule large_not_cached [OF inv b e])
    then show ?thesis using core_inv_parts(5) [OF inv e] by (simp add: cached_sound_def new(4) hdr)
  next
    assume "e = entry_of (header_at b A) b (cl_seq e) \<and> large_align (header_at b A) < SEGMENT"
    then obtain q where e: "e = entry_of (header_at b A) b q" "large_align (header_at b A) < SEGMENT" by blast
    have "cached_header_ok e h" using h b'(3) prev by (auto simp: cached_header_ok_def e(1) entry_of_def header_at_def)
    then show ?thesis using lh e(2)
      by (simp add: cached_sound_def new(4) hdr e(1) entry_of_def large_header_ok_def)
  qed
  have span: "seg_span ?H b = span_usable (header_at b A)" using b'(3) by (simp add: seg_span_def header_at_def)
  have reg: "region A s l" if r: "region A' s l" for s l
    using r unfolding region_def [of A']
  proof (elim disjE exE conjE)
    assume "in_table (hpool (core_heap A')) s" and l: "l = seg_span (core_heap A') s"
    then have "in_table (hpool ?H) s" "s \<noteq> b" using new(4) by blast+
    then show ?thesis using l hdr [of s] by (simp add: region_def seg_span_def header_at_def)
  next
    fix i e assume e: "cached (core_cache A') i e" "s = cl_base e" "l = cl_usable_size e"
    from c(3) [OF e(1)] show ?thesis
    proof
      assume "e = entry_of (header_at b A) b (cl_seq e) \<and> large_align (header_at b A) < SEGMENT"
      then have "cl_base e = b \<and> cl_usable_size e = span_usable (header_at b A)"
        by (metis cached_large.select_convs(3,4) entry_of_def)
      then show ?thesis using e b'(2) span by (simp add: region_def)
    qed (use e in \<open>auto simp: region_def\<close>)
  qed
  have "regions_apart A'" by (rule regions_apart_shrink [OF core_inv_parts(3) [OF inv] reg])
  then show "core_inv {} A' ps" using new(1) c(1) sound cs by (simp add: core_inv_def)
  have sm: "smalls A' = smalls A" by (simp add: smalls_def new(2))
  let ?x = "(b + payload_offset (header_at b A), large_size (header_at b A))"
  have lg: "larges A' = larges A - {?x}"
  proof
    show "larges A' \<subseteq> larges A - {?x}"
      using larges_differ [OF inv b] by (auto simp: larges_def lb hdr)
    show "larges A - {?x} \<subseteq> larges A'"
      by (auto simp: larges_def lb hdr)
  qed
  have "?x \<notin> smalls A"
  proof
    have l: "?x \<in> larges A" using b by (auto simp: larges_def)
    assume "?x \<in> smalls A"
    from smalls_not_large [OF inv this] l show False by blast
  qed
  then show "loses ?x A A'" unfolding loses_def in_use_def sm lg
    by (auto simp: keeps_def new(3))
qed

subsection \<open>The free\<close>

lemma claim_live_live:
  assumes "large_phase w = Some PhLive"
  shows "claim_live w = Inr (Some (large_generation w), packed_word PhConsuming (large_generation w))"
  using assms by (simp add: claim_live_def observe_def claim_cas_eq)

lemma set_table_heap:
  "core_heap (set_table t A) = retable (seg_mem (hpool (core_heap A))) t (core_heap A)"
  by (simp add: set_table_def retable_def)

lemma dealloc_large_ok:
  assumes inv: "core_inv {} A ps" and b: "large_base A b" and now: "clock_ok now A"
    and sq: "large_cache_seq (core_cache A) < - 1"
  defines "ptr \<equiv> b + payload_offset (header_at b A)"
  shows "\<exists>A' ps'. dealloc_large_at_base safe now ptr b A = ret A' \<and> core_inv {} A' ps'
    \<and> loses (ptr, large_size (header_at b A)) A A'"
proof -
  let ?w = "state_word (core_cache A) b" and ?h = "header_at b A"
  let ?g = "large_generation ?w"
  let ?B = "put_word b (packed_word PhConsuming ?g) A"
  note lr = large_region [OF inv b]
  have "ptr \<le> usize_max" using lr(2-4) by (simp add: ptr_def)
  then have match: "\<not> reject_large_interior_free b ptr A"
    by (simp add: reject_large_interior_free_def large_payload_mismatch_def large_payload_address_matches_def ptr_def)
  have "large_phase ?w = Some PhLive" using core_inv_parts(4) [OF inv b] by (simp add: large_sound_def)
  note claim = claim_live_live [OF this]
  let ?cB = "(core_cache A)\<lparr>state_word := (state_word (core_cache A))(b := packed_word PhConsuming ?g)\<rparr>"
  have cB: "cache_inv ?cB" by (rule cache_inv_word [OF core_inv_parts(2) [OF inv] large_not_cached [OF inv b]])
  have invB: "core_inv {b} ?B ps" unfolding put_word_def
    by (rule core_shrunk [OF inv cB]) (auto simp: cached_def)
  have gB: "gains None A ?B" by (rule gains_cache) (simp add: put_word_def)
  have nowB: "clock_ok now ?B" using now by (simp add: clock_ok_def put_word_def)
  have bB: "large_base ?B b" "header_at b ?B = ?h" using b by (simp_all add: large_base_def header_at_def put_word_def)
  from decay_both_ok [OF invB nowB] obtain A1 ps1 where d: "decay_both now ?B = ret A1" "core_inv {b} A1 ps1"
    "settled ?B A1" "\<forall>s. large_base ?B s \<longrightarrow> state_word (core_cache A1) s = state_word (core_cache ?B) s
        \<and> large_base A1 s \<and> no_links (header_at s A1) = no_links (header_at s ?B)"
    "large_cache_seq (core_cache A1) = large_cache_seq (core_cache ?B)" by blast
  have b1: "large_base A1 b" "state_word (core_cache A1) b = packed_word PhConsuming ?g"
    "no_links (header_at b A1) = no_links ?h"
    using d(4) [rule_format, OF bB(1)] bB(2) by (simp_all add: put_word_def)
  let ?s = "header_at b A1"
  from admit_ok [OF core_inv_parts(2) [OF d(2)] used_with_large [OF d(2) b1(1)], of "large_align ?s"]
  obtain r c where r: "admit (large_align ?s) (span_usable ?s) (core_cache A1) = Inr (r, c)" "cache_inv c"
    "evicted (core_cache A1) c" "case r of
      None \<Rightarrow> \<not> admissible (large_align ?s) (span_usable ?s) (core_cache A1) \<and> c = core_cache A1
    | Some i \<Rightarrow> admissible (large_align ?s) (span_usable ?s) (core_cache A1) \<and> i < LARGE_CACHE_SLOTS \<and> large_cache c i = None
        \<and> (\<forall>b. large_cache_budget_bytes c = Some b \<longrightarrow> large_cache_used_bytes c + span_usable ?s \<le> b)" by blast
  let ?A2 = "A1\<lparr>core_cache := c\<rparr>"
  have inv2: "core_inv {b} ?A2 ps1" by (rule core_evicted [OF d(2) r(2,3)])
  have b2: "large_base ?A2 b" "header_at b ?A2 = ?s" using b1(1) by (simp_all add: large_base_def header_at_def)
  have dep: "depositable ?s b ?g c"
  proof -
    have "in_phase (state_word c b) PhConsuming ?g"
      using r(3) large_not_cached [OF d(2) b1(1)] b1(2) pack_phase pack_generation [OF generation_small]
      by (simp add: evicted_def in_phase_def)
    moreover have "large_cache_seq c < - 1" using sq r(3) d(5) by (simp add: evicted_def put_word_def)
    ultimately show ?thesis
      using used_with_large [OF inv2 b2(1)] large_not_cached [OF inv2 b2(1)] b2(2) by (simp add: depositable_def)
  qed
  have b3: "b \<noteq> 0" "in_table (hpool (core_heap ?A2)) b" "kind (seg_mem (hpool (core_heap ?A2)) b) = Large"
    using b2 core_inv_parts(4) [OF inv2 b2(1)] by (simp_all add: large_base_def header_at_def large_sound_def large_header_ok_def)
  from unregister_large_ok [OF core_inv_parts(1) [OF inv2] b3] obtain t where
    t: "unregister (seg_mem (hpool (core_heap ?A2))) b (core_table ?A2) = Some (Inr t)"
    unfolding core_table_def by blast
  let ?mem = "seg_mem (hpool (core_heap ?A2))"
  have same: "payload_offset ?s = payload_offset ?h" "large_size ?s = large_size ?h"
    using no_links_large(2,3) [OF b1(3)] by blast+
  have g: "gains None A ?A2" by (rule gains_trans [OF gains_trans [OF gB settled_gains [OF d(3)]] gains_cache]) simp
  have done_: ?thesis if run: "dealloc_large_at_base safe now ptr b A = ret A'" and h: "h = ?s \<or> h = ?s\<lparr>magic := 0\<rparr>"
    and heap: "core_heap A' = retable (?mem(b := h)) t (core_heap ?A2)"
    and c': "cache_inv (core_cache A')" "\<And>s. s \<noteq> b \<Longrightarrow> state_word (core_cache A') s = state_word c s"
      "\<And>i e. cached (core_cache A') i e \<Longrightarrow> cached c i e \<or> e = entry_of ?s b (cl_seq e) \<and> large_align ?s < SEGMENT"
    for A' h
  proof -
    have h2: "h = header_at b ?A2 \<or> h = (header_at b ?A2)\<lparr>magic := 0\<rparr>" using h b2(2) by simp
    have sw: "state_word (core_cache A') s = state_word (core_cache ?A2) s" if "s \<noteq> b" for s using c'(2) that by simp
    have en: "cached (core_cache ?A2) i e \<or> e = entry_of (header_at b ?A2) b (cl_seq e) \<and> large_align (header_at b ?A2) < SEGMENT"
      if "cached (core_cache A') i e" for i e using c'(3) [OF that] b2(2) by simp
    note rem = remove_large_ok [OF inv2 b2(1) h2 t heap c'(1) sw en, unfolded b2(2) same, folded ptr_def]
    show ?thesis using run rem(1) loses_after [OF g rem(2)] by blast
  qed
  show ?thesis
  proof (cases r)
    case None
    from release_refused_ok [OF r(2) dep] obtain c' where
      c': "release_refused ?s b ?g c = Inr c'" "cache_inv c'" "large_cache c' = large_cache c"
        "\<forall>s. s \<noteq> b \<longrightarrow> state_word c' s = state_word c s" by blast
    let ?A' = "(set_table t ?A2)\<lparr>core_cache := c'\<rparr>"
    have "dealloc_large_at_base safe now ptr b A = ret ?A'"
      using match claim d(1) r(1) None t c'(1)
      by (simp add: dealloc_large_at_base_def Let_def set_table_def)
    then show ?thesis
      by (rule done_ [of _ ?s]) (use c' b2(2) in \<open>simp_all add: set_table_def retable_def header_at_def cached_def\<close>)
  next
    case (Some i)
    then have i: "i < LARGE_CACHE_SLOTS" "large_cache c i = None" "large_align ?s < SEGMENT"
      "\<forall>b. large_cache_budget_bytes c = Some b \<longrightarrow> large_cache_used_bytes c + span_usable ?s \<le> b"
      using r(4) by (simp_all add: admissible_def)
    from cache_entry_ok [OF r(2) dep i(1,2,4)] obtain c' where
      c': "cache_entry ?s b ?g i c = Inr c'" "cache_inv c'"
        "large_cache c' = (large_cache c)(i \<mapsto> entry_of ?s b (large_cache_seq c))"
        "\<forall>s. s \<noteq> b \<longrightarrow> state_word c' s = state_word c s" by blast
    let ?A' = "(set_header b (\<lambda>h. h\<lparr>magic := 0\<rparr>) (set_table t ?A2))\<lparr>core_cache := c'\<rparr>"
    have "dealloc_large_at_base safe now ptr b A = ret ?A'"
      using match claim d(1) r(1) Some t c'(1)
      by (simp add: dealloc_large_at_base_def Let_def set_table_def set_header_def)
    moreover have "core_heap ?A' = retable (?mem(b := ?s\<lparr>magic := 0\<rparr>)) t (core_heap ?A2)"
      by (simp add: set_table_def set_header_def retable_def on_header_def header_at_def)
    moreover have "cached c j e \<or> e = entry_of ?s b (cl_seq e) \<and> large_align ?s < SEGMENT" if "cached (core_cache ?A') j e" for j e
    proof (cases "j = i")
      case True
      then have "e = entry_of ?s b (large_cache_seq c)" using that c'(3) by (simp add: cached_def)
      then have "e = entry_of ?s b (cl_seq e)" by (simp add: entry_of_def)
      then show ?thesis using i(3) by blast
    qed (use that c'(3) in \<open>simp add: cached_def\<close>)
    ultimately show ?thesis using c'(2,4) by (intro done_ [of ?A' "?s\<lparr>magic := 0\<rparr>"]) simp_all
  qed
qed

end
