(* ===== verification/AllocCore.thy ===== *)
theory AllocCore
  imports LargeFree
begin

text \<open>
  One allocator instance: a request is classified and goes to the small heap or becomes a large
  block; a free finds the segment of an address through the table and follows its kind
  (\<open>src/alloc_core/alloc_core/mem/mem_impl.rs\<close>, \<open>state.rs\<close>, \<open>segment/segment_header/block_kind.rs\<close>).
\<close>

subsection \<open>Routing\<close>

datatype alloc_kind = KindSmall nat | KindLarge

definition classify :: "nat \<Rightarrow> nat \<Rightarrow> alloc_kind core_run" where
  "classify sz align =
     (case alloc_class_for sz align of
        None \<Rightarrow> abort ''index out of bounds''
      | Some (Inl e) \<Rightarrow> abort ''align must be a power of two''
      | Some (Inr (Some c)) \<Rightarrow> ret (KindSmall c)
      | Some (Inr None) \<Rightarrow> ret KindLarge)"

definition canonical_block_of :: "nat \<Rightarrow> alloc_core \<Rightarrow> ((nat \<times> nat) option \<times> alloc_core) core_run" where
  "canonical_block_of ptr A =
     (case canonical_base_of_mut (segment_base_of ptr) (core_table A) of
        None \<Rightarrow> None
      | Some (None, t) \<Rightarrow> ret (None, set_table t A)
      | Some (Some base, t) \<Rightarrow>
          let A' = set_table t A
          in if kind (header_at base A') = Large
             then let off = (ptr + 2 ^ 64 - base) mod 2 ^ 64
                  in if span_usable (header_at base A') \<le> off then ret (None, A')
                     else ret (Some (base, base + off), A')
             else if base \<noteq> segment_base_of ptr
             then abort ''X-span: non-Large root must equal its SEGMENT-aligned key''
             else ret (Some (base, base + ptr mod SEGMENT), A'))"

datatype block_kind = BlockPrimordial | BlockSmall nat | BlockLarge | BlockUnknown

definition block_kind_of :: "segment_kind \<Rightarrow> nat option \<Rightarrow> block_kind" where
  "block_kind_of k c =
     (case k of
        Primordial \<Rightarrow> BlockPrimordial
      | Large \<Rightarrow> BlockLarge
      | Unknown \<Rightarrow> BlockUnknown
      | Small \<Rightarrow> (case c of Some class_idx \<Rightarrow> BlockSmall class_idx | None \<Rightarrow> BlockUnknown))"

text \<open>The small heap's part of a step, with the answers of the system in its states.\<close>

definition small_mapper :: "system \<Rightarrow> alloc_core \<Rightarrow> mapper" where
  "small_mapper os A = (\<lambda>K. segment_reserve (os (A\<lparr>core_heap := K\<rparr>)) SEGMENT)"

definition on_heap :: "(small_heap \<Rightarrow> ('a \<times> small_heap) heap_run) \<Rightarrow> alloc_core \<Rightarrow> ('a \<times> alloc_core) core_run" where
  "on_heap f A = tbind (f (core_heap A)) (\<lambda>(r, H). ret (r, A\<lparr>core_heap := H\<rparr>))"

definition core_alloc ::
    "bool \<Rightarrow> bool \<Rightarrow> system \<Rightarrow> nat \<Rightarrow> nat \<Rightarrow> nat \<Rightarrow> nat \<Rightarrow> alloc_core \<Rightarrow> (nat option \<times> alloc_core) core_run" where
  "core_alloc safe_mode recommit os page now layout_size layout_align A =
     (let sz = max layout_size MIN_BLOCK
      in tbind (classify sz layout_align) (\<lambda>k.
         case k of
           KindSmall c \<Rightarrow> on_heap (alloc_small safe_mode recommit now (small_mapper os A) c) A
         | KindLarge \<Rightarrow> tbind (alloc_large os page now sz layout_align A) (\<lambda>((p, _), A'). ret (p, A'))))"

definition dealloc_at_base ::
    "bool \<Rightarrow> nat \<Rightarrow> nat \<Rightarrow> nat \<Rightarrow> nat \<Rightarrow> nat \<Rightarrow> alloc_core \<Rightarrow> alloc_core core_run" where
  "dealloc_at_base safe_mode now ptr layout_size layout_align base A =
     (let k = kind (header_at base A);
          small = (\<lambda>c. tbind (heap_dealloc safe_mode base ptr c (core_heap A)) (\<lambda>H. ret (A\<lparr>core_heap := H\<rparr>)))
      in case k of
           Large \<Rightarrow> dealloc_large_at_base safe_mode now ptr base A
         | Unknown \<Rightarrow> ret A
         | _ \<Rightarrow> tbind (classify (max layout_size MIN_BLOCK) layout_align) (\<lambda>ck.
             let class = (case ck of KindSmall c \<Rightarrow> Some c | KindLarge \<Rightarrow> None)
             in case block_kind_of k class of
                  BlockSmall c \<Rightarrow> small c
                | BlockPrimordial \<Rightarrow> (case class of None \<Rightarrow> ret A | Some c \<Rightarrow> small c)
                | _ \<Rightarrow> ret A))"

definition core_dealloc :: "bool \<Rightarrow> nat \<Rightarrow> nat \<Rightarrow> nat \<Rightarrow> nat \<Rightarrow> alloc_core \<Rightarrow> alloc_core core_run" where
  "core_dealloc safe_mode now ptr layout_size layout_align A =
     (if ptr = 0 then ret A
      else tbind (canonical_block_of ptr A) (\<lambda>(r, A').
        case r of
          None \<Rightarrow> ret A'
        | Some (base, blk) \<Rightarrow> dealloc_at_base safe_mode now blk layout_size layout_align base A'))"

subsection \<open>Classification\<close>

lemma table_class_size: "SIZE_CLASS_TABLE ! c = class_size c"
  by (simp add: class_size_def)

lemma classify_cases:
  assumes "is_power_of_two align"
  obtains c where "classify sz align = ret (KindSmall c)" "c < 49" "sz \<le> class_size c" "align dvd class_size c"
  | "classify sz align = ret KindLarge"
proof (cases "class_spec SIZE_CLASS_TABLE sz align")
  case None
  then show ?thesis using that(2) alloc_class_for_eq [OF assms] by (simp add: classify_def)
next
  case (Some c)
  then have "classify sz align = ret (KindSmall c)" using alloc_class_for_eq [OF assms] by (simp add: classify_def)
  moreover from alloc_class_for_complete [OF assms, of sz] Some alloc_class_for_eq [OF assms, of sz]
  have "c < SMALL_CLASS_COUNT \<and> sz \<le> SIZE_CLASS_TABLE ! c \<and> align dvd SIZE_CLASS_TABLE ! c" by auto
  ultimately show ?thesis using that(1) by (simp add: table_class_size)
qed

subsection \<open>The lookup of an address\<close>

text \<open>A table that differs in its lookup caches only.\<close>

lemma relookup_ok:
  assumes inv: "core_inv E A ps" and pinv: "pool_inv (hpool (core_heap A)) m ps"
    and t: "table_inv (seg_mem (hpool (core_heap A))) t m" "slots t = slots (core_table A)" "seg_count t = seg_count (core_table A)"
  shows "core_inv E (set_table t A) ps" "settled A (set_table t A)"
    "in_table (hpool (core_heap (set_table t A))) = in_table (hpool (core_heap A))"
proof -
  let ?p = "hpool (core_heap A)" and ?q = "(hpool (core_heap A))\<lparr>seg_table := t\<rparr>"
  have l: "live t = live (seg_table ?p)" using t(2,3) by (simp add: live_def core_table_def)
  have tab: "in_table ?q = in_table ?p" using t(2) by (simp add: fun_eq_iff in_table_def l core_table_def)
  have "env_ok ?q m" using pinv t(1,2) by (simp add: pool_inv_def env_ok_def small_slots_def l core_table_def)
  moreover have "idle ?q = idle ?p"
    using t(2) by (simp add: fun_eq_iff idle_def tab dec_live_iff core_table_def)
  ultimately have q: "pool_inv ?q m ps" using pinv unfolding pool_inv_def tab by (simp add: pool_list_def)
  have f: "pool_frame ?p ?q" unfolding pool_frame_def tab using t(2) by (simp add: l core_table_def)
  have A': "set_table t A = A\<lparr>core_heap := (core_heap A)\<lparr>hpool := ?q\<rparr>\<rparr>" by (simp add: set_table_def)
  show "core_inv E (set_table t A) ps" "settled A (set_table t A)" unfolding A'
    by (rule pool_core [OF inv q f])+
  show "in_table (hpool (core_heap (set_table t A))) = in_table (hpool (core_heap A))" using tab by (simp add: set_table_def)
qed

lemma mod_SEGMENT: "segment_base_of p + p mod SEGMENT = p" if "p \<le> usize_max"
proof -
  have "SEGMENT = 2 ^ 22" by simp
  then have "is_power_of_two SEGMENT" using is_power_of_two_pow [of 22] by (simp only:)
  then have "segment_base_of p = p - p mod SEGMENT"
    unfolding segment_base_of_def using that by (intro mask_up) simp_all
  then show ?thesis by simp
qed

lemma wrapped_sub:
  fixes b p :: nat
  assumes "b \<le> p" and "p \<le> usize_max"
  shows "(p + 2 ^ 64 - b) mod 2 ^ 64 = p - b"
proof -
  have "p + 2 ^ 64 - b = (p - b) + 2 ^ 64" using assms(1) by (rule diff_add_assoc2)
  then have "(p + 2 ^ 64 - b) mod 2 ^ 64 = (p - b) mod 2 ^ 64" by (simp only: mod_add_self2)
  also have "\<dots> = p - b" by (rule mod_less) (use assms(2) in simp)
  finally show ?thesis .
qed

lemma wrapped_offset:
  fixes b p n :: nat
  assumes "b + n \<le> 2 ^ 64" and "p \<le> usize_max" and "(p + 2 ^ 64 - b) mod 2 ^ 64 < n"
  shows "b \<le> p \<and> p < b + n \<and> (p + 2 ^ 64 - b) mod 2 ^ 64 = p - b"
proof -
  have "b \<le> p"
  proof (rule ccontr)
    assume "\<not> b \<le> p"
    then have "p + 2 ^ 64 - b < 2 ^ 64" by simp
    then have "(p + 2 ^ 64 - b) mod 2 ^ 64 = p + 2 ^ 64 - b" by (rule mod_less)
    then show False using assms(1,3) by linarith
  qed
  then have "(p + 2 ^ 64 - b) mod 2 ^ 64 = p - b" by (rule wrapped_sub [OF _ assms(2)])
  then show ?thesis using \<open>b \<le> p\<close> assms(3) by linarith
qed

text \<open>The segment an address is found in; a block in use is found by the address it was given out with.\<close>

lemma canonical_block_ok:
  assumes inv: "core_inv E A ps" and ptr: "ptr \<le> usize_max"
  shows "\<exists>r A'. canonical_block_of ptr A = ret (r, A') \<and> core_inv E A' ps \<and> settled A A'
    \<and> core_cache A' = core_cache A \<and> (\<forall>b. header_at b A' = header_at b A \<and> large_base A' b = large_base A b
        \<and> small_base (core_heap A') b = small_base (core_heap A) b)
    \<and> (case r of
        None \<Rightarrow> (\<forall>n. (ptr, n) \<notin> in_use A)
      | Some (b, blk) \<Rightarrow> blk = ptr \<and> (if large_base A b then b \<le> ptr \<and> ptr < b + span_usable (header_at b A)
          else small_base (core_heap A) b \<and> b = segment_base_of ptr))"
proof -
  let ?p = "hpool (core_heap A)" and ?key = "segment_base_of ptr"
  from core_inv_parts(1) [OF inv] obtain m where pinv: "pool_inv ?p m ps"
    and tinv: "table_inv (seg_mem ?p) (seg_table ?p) m" by (rule table_of)
  from canonical_base_of_mut_ok [OF tinv segment_key_base, of ptr] obtain t where
    t: "canonical_base_of_mut ?key (core_table A) = Some (lookup (core_table A) m ?key, t)"
      "table_inv (seg_mem ?p) t m" "slots t = slots (core_table A)" "seg_count t = seg_count (core_table A)"
    unfolding core_table_def by blast
  let ?A = "set_table t A"
  note re = relookup_ok [OF inv pinv t(2-4)]
  have h: "header_at b ?A = header_at b A" for b by (simp add: header_at_def set_table_def)
  have lb: "large_base ?A b = large_base A b" for b unfolding large_base_def re(3) h by (rule refl)
  have sb: "small_base (core_heap ?A) b = small_base (core_heap A) b" for b
    unfolding small_base_def re(3) by (simp add: set_table_def)
  have key: "m k = Some i \<longleftrightarrow> i \<in> live (core_table A) \<and> k = payload_key (seg_mem ?p) (slots (core_table A) ! i)" for k i
    using tinv by (simp add: table_inv_def keys_ok_def core_table_def)
  have found: "lookup (core_table A) m ?key = Some b \<longleftrightarrow> in_table ?p b \<and> payload_key (seg_mem ?p) b = ?key" for b
    unfolding lookup_def map_option_eq_Some key in_table_def core_table_def [symmetric] by auto
  have used: "\<exists>b. lookup (core_table A) m ?key = Some b \<and> (large_base A b \<and> b \<le> ptr \<and> ptr < b + span_usable (header_at b A)
      \<or> small_base (core_heap A) b)" if u: "(ptr, n) \<in> in_use A" for n
  proof -
    from u consider "(ptr, n) \<in> larges A" | c where "heap_blocks (core_heap A) ptr = Some c"
      by (auto simp: in_use_def smalls_def)
    then show ?thesis
    proof cases
      case 1
      then obtain b where b: "large_base A b" "ptr = b + payload_offset (header_at b A)" by (auto simp: larges_def)
      note lr = large_region [OF inv b(1)]
      have "lookup (core_table A) m ?key = Some b" unfolding found
        using b by (simp add: large_base_def payload_key_def header_at_def)
      then show ?thesis using b lr(2,3) by auto
    next
      case 2
      have s: "small_base (core_heap A) ?key" using heap_block_parts(1) [OF 2] .
      then have "payload_key (seg_mem ?p) ?key = ?key" using core_inv_parts(1) [OF inv] by (simp add: heap_inv_def segs_ok_def)
      then show ?thesis using s found by (auto simp: small_base_def)
    qed
  qed
  have small_key: "b = ?key" if "small_base (core_heap A) b" "payload_key (seg_mem ?p) b = ?key" for b
    using that core_inv_parts(1) [OF inv] by (simp add: heap_inv_def segs_ok_def)
  note common = re(1,2)
  show ?thesis
  proof (cases "lookup (core_table A) m ?key")
    case None
    then have run: "canonical_block_of ptr A = ret (None, ?A)" using t(1) by (simp add: canonical_block_of_def)
    have "(ptr, n) \<notin> in_use A" for n using used None by auto
    then show ?thesis unfolding run using common h lb sb
      by (intro exI [of _ None] exI [of _ ?A]) (simp add: set_table_def)
  next
    case (Some b)
    then have b: "in_table ?p b" "payload_key (seg_mem ?p) b = ?key" using found by blast+
    show ?thesis
    proof (cases "large_base A b")
      case False
      then have s: "small_base (core_heap A) b" using b(1) by (simp add: small_base_def large_base_def header_at_def)
      then have k: "b = ?key" by (rule small_key [OF _ b(2)])
      have "b + ptr mod SEGMENT = ptr" using mod_SEGMENT [OF ptr] k by simp
      then have run: "canonical_block_of ptr A = ret (Some (b, ptr), ?A)"
        using t(1) Some s h by (simp add: canonical_block_of_def small_base_def header_at_def Let_def flip: k)
      show ?thesis unfolding run using common h lb sb False s k
        by (intro exI [of _ "Some (b, ptr)"] exI [of _ ?A]) (simp add: set_table_def)
    next
      case True
      note lr = large_region [OF inv True]
      let ?off = "(ptr + 2 ^ 64 - b) mod 2 ^ 64" and ?n = "span_usable (header_at b A)"
      have run: "canonical_block_of ptr A = (if ?n \<le> ?off then ret (None, ?A) else ret (Some (b, b + ?off), ?A))"
        using t(1) Some True h by (simp add: canonical_block_of_def large_base_def Let_def)
      show ?thesis
      proof (cases "?n \<le> ?off")
        case far: True
        have "(ptr, n) \<notin> in_use A" for n
        proof
          assume "(ptr, n) \<in> in_use A"
          from used [OF this] Some True have i: "b \<le> ptr" "ptr < b + ?n"
            by (auto simp: large_base_def small_base_def header_at_def)
          from wrapped_sub [OF i(1) ptr] have "?off = ptr - b" .
          then show False using far i by linarith
        qed
        then show ?thesis unfolding run using common h lb sb far
          by (intro exI [of _ None] exI [of _ ?A]) (simp add: set_table_def)
      next
        case False
        from wrapped_offset [OF lr(4) ptr] False have i: "b \<le> ptr" "ptr < b + ?n" "?off = ptr - b" by auto
        then show ?thesis unfolding run using common h lb sb False True
          by (intro exI [of _ "Some (b, ptr)"] exI [of _ ?A]) (simp add: set_table_def)
      qed
    qed
  qed
qed

subsection \<open>Allocation\<close>

text \<open>The bytes a request of this layout gets, and what serves it.\<close>

definition block_bytes :: "nat \<Rightarrow> nat \<Rightarrow> nat" where
  "block_bytes sz align = (case classify (max sz MIN_BLOCK) align of
     Some (Inr (KindSmall c)) \<Rightarrow> class_size c | _ \<Rightarrow> max sz MIN_BLOCK)"

definition serves :: "alloc_core \<Rightarrow> nat \<Rightarrow> nat \<Rightarrow> nat \<Rightarrow> bool" where
  "serves A p sz align \<longleftrightarrow> (case classify (max sz MIN_BLOCK) align of
     Some (Inr (KindSmall c)) \<Rightarrow> heap_blocks (core_heap A) p = Some c | _ \<Rightarrow> (p, max sz MIN_BLOCK) \<in> larges A)"

definition core_refuses :: "system \<Rightarrow> nat \<Rightarrow> nat \<Rightarrow> nat \<Rightarrow> alloc_core \<Rightarrow> bool" where
  "core_refuses os page sz align A \<longleftrightarrow> (\<exists>A'. shrunk A A' \<and> (live (core_table A') = {..<4096}
     \<or> (case classify (max sz MIN_BLOCK) align of
          Some (Inr (KindSmall c)) \<Rightarrow> segment_reserve (os A') SEGMENT = None
        | _ \<Rightarrow> (\<nexists>off usable. large_request page align (max sz MIN_BLOCK) usable off)
            \<or> (\<exists>off usable. large_request page align (max sz MIN_BLOCK) usable off \<and> reserve_large (os A') usable align off = None))))"

lemma shrunk_refl [simp]: "shrunk A A"
  by (simp add: shrunk_def)

lemma evolves_shrunk: "evolves (core_heap A) K \<Longrightarrow> shrunk A (A\<lparr>core_heap := K\<rparr>)"
  using moves_table [of "{}" "core_heap A" K] by (simp add: evolves_def shrunk_def core_table_def header_at_def)

lemma small_refuses:
  assumes "refused (small_mapper os A) (core_heap A)" and "classify (max sz MIN_BLOCK) align = Some (Inr (KindSmall c))"
  shows "core_refuses os page sz align A"
  using assms(1) unfolding refused_def
proof (elim disjE exE conjE)
  fix K assume "evolves (core_heap A) K" "small_mapper os A K = None"
  then show ?thesis using evolves_shrunk [of A K] assms(2)
    by (auto simp: core_refuses_def small_mapper_def intro: exI [of _ "A\<lparr>core_heap := K\<rparr>"])
next
  assume "live (seg_table (hpool (core_heap A))) = {..<4096}"
  then show ?thesis by (auto simp: core_refuses_def core_table_def intro: exI [of _ A])
qed

lemma large_refuses:
  assumes r: "\<forall>off usable. large_request page align (max sz MIN_BLOCK) usable off \<longrightarrow> core_refused os usable align off A"
    and c: "classify (max sz MIN_BLOCK) align = Some (Inr KindLarge)"
  shows "core_refuses os page sz align A"
proof (cases "\<exists>off usable. large_request page align (max sz MIN_BLOCK) usable off")
  case False
  then show ?thesis using c by (auto simp: core_refuses_def intro: exI [of _ A])
next
  case True
  then obtain off usable where lr: "large_request page align (max sz MIN_BLOCK) usable off" by blast
  then obtain A' where A': "shrunk A A'" "reserve_large (os A') usable align off = None \<or> live (core_table A') = {..<4096}"
    using r unfolding core_refused_def by blast
  then show ?thesis using A' c lr unfolding core_refuses_def by (intro exI [of _ A']) auto
qed

lemma serves_in_use: "serves A p sz align \<Longrightarrow> (p, block_bytes sz align) \<in> in_use A"
  unfolding serves_def block_bytes_def in_use_def smalls_def
  by (auto split: option.splits sum.splits alloc_kind.splits)

lemma segment_span_rounded: "div_ceil SEGMENT SEGMENT * SEGMENT = SEGMENT"
  by (simp add: div_ceil_def)

lemma mapper_fresh:
  assumes "fresh_system os"
  shows "maps_fresh (small_mapper os A)"
    "small_mapper os A K = Some (b, res, len) \<Longrightarrow> vacant (A\<lparr>core_heap := K\<rparr>) b SEGMENT"
proof -
  have *: "segment_key b \<and> b \<noteq> 0 \<and> vacant (A\<lparr>core_heap := K\<rparr>) b SEGMENT"
    if "small_mapper os A K = Some (b, res, len)" for K b res len
  proof -
    have "map_segments (os (A\<lparr>core_heap := K\<rparr>)) SEGMENT = Some (b, res, len)"
      using that unfolding small_mapper_def segment_reserve_def segment_span_rounded by (simp split: if_splits)
    then show ?thesis using assms unfolding fresh_system_def answers_fresh_def by blast
  qed
  show "maps_fresh (small_mapper os A)" unfolding maps_fresh_def unmapped_def
  proof (intro allI impI conjI)
    fix K b res len assume "small_mapper os A K = Some (b, res, len)"
    from * [OF this] show "segment_key b" "b \<noteq> 0" "clear K b SEGMENT" by (simp_all add: vacant_def)
  qed
  show "small_mapper os A K = Some (b, res, len) \<Longrightarrow> vacant (A\<lparr>core_heap := K\<rparr>) b SEGMENT" using * by blast
qed

text \<open>A step of the small heap is a step of the whole.\<close>

lemma core_grows:
  assumes inv: "core_inv E A ps" and os: "fresh_system os" and H: "heap_inv H ps'"
    and e: "heap_effect c r (core_heap A) H" and g: "grows (small_mapper os A) (core_heap A) H"
  shows "core_inv E (A\<lparr>core_heap := H\<rparr>) ps'" "gains (map_option (\<lambda>p. (p, class_size c)) r) A (A\<lparr>core_heap := H\<rparr>)"
proof -
  have "core_inv E (A\<lparr>core_heap := H\<rparr>) ps' \<and> gains (map_option (\<lambda>p. (p, class_size c)) r) A (A\<lparr>core_heap := H\<rparr>)"
    using g unfolding grows_def
  proof (elim disjE exE conjE)
    assume mv: "moves {} (core_heap A) H"
    show ?thesis using core_moves [OF inv H mv, of 0] gains_heap [OF inv H e mv, of 0] by simp
  next
    fix K qs b res len assume K: "heap_inv K qs" "heap_effect 0 None (core_heap A) K" "moves {} (core_heap A) K"
      and b: "small_mapper os A K = Some (b, res, len)" and mv: "moves {b} K H"
    let ?A = "A\<lparr>core_heap := K\<rparr>"
    have inv': "core_inv E ?A qs" and g': "gains None A ?A"
      using core_moves [OF inv K(1,3), of 0] gains_heap [OF inv K(1,2,3), of 0] by simp_all
    have v: "vacant ?A b SEGMENT" by (rule mapper_fresh(2) [OF os b])
    have mv': "moves {b} (core_heap ?A) H" using mv by simp
    have hb: "heap_blocks K = heap_blocks (core_heap A)" using K(2) by (simp add: heap_effect_def)
    have "keeps_words (core_heap A) H" "keeps_words (core_heap A) K" using e K(2) by (simp_all add: heap_effect_def)
    then have "keeps_words K H" unfolding keeps_words_def hb by metis
    then have e': "heap_effect c r (core_heap ?A) H" using e unfolding heap_effect_def by (cases r) (simp_all add: hb)
    have A'': "?A\<lparr>core_heap := H\<rparr> = A\<lparr>core_heap := H\<rparr>" by simp
    show ?thesis using core_moves [OF inv' H mv' subset_refl] gains_heap [OF inv' H e' mv' subset_refl] v
        gains_trans [OF g'] unfolding A'' by blast
  qed
  then show "core_inv E (A\<lparr>core_heap := H\<rparr>) ps'"
    "gains (map_option (\<lambda>p. (p, class_size c)) r) A (A\<lparr>core_heap := H\<rparr>)" by blast+
qed

lemma class_size_inj: "c < 49 \<Longrightarrow> d < 49 \<Longrightarrow> class_size c = class_size d \<Longrightarrow> c = d"
proof -
  have "distinct SIZE_CLASS_TABLE" unfolding SIZE_CLASS_TABLE_eq by simp
  then show "c < 49 \<Longrightarrow> d < 49 \<Longrightarrow> class_size c = class_size d \<Longrightarrow> c = d"
    using nth_eq_iff_index_eq [of SIZE_CLASS_TABLE c d] length_table by (simp add: class_size_def)
qed

lemma heap_class: "heap_blocks H a = Some c \<Longrightarrow> c < 49"
  using heap_block_parts(2) [of H a c] block_bounds by (auto simp: held_Some)

text \<open>A block that stays in use keeps serving its request.\<close>

lemma serves_stays:
  assumes "\<And>n. (p, n) \<in> smalls A \<Longrightarrow> (p, n) \<in> smalls A'" and "\<And>n. (p, n) \<in> larges A \<Longrightarrow> (p, n) \<in> larges A'"
    and "serves A p sz align"
  shows "serves A' p sz align"
proof -
  have "heap_blocks (core_heap A') p = Some c" if c: "heap_blocks (core_heap A) p = Some c" for c
  proof -
    have "(p, class_size c) \<in> smalls A'" by (rule assms(1)) (use c in \<open>auto simp: smalls_def\<close>)
    then obtain d where d: "class_size c = class_size d" "heap_blocks (core_heap A') p = Some d" by (auto simp: smalls_def)
    then show ?thesis using class_size_inj [OF heap_class [OF c] heap_class [OF d(2)]] by simp
  qed
  then show ?thesis using assms(2,3) unfolding serves_def
    by (auto split: option.splits sum.splits alloc_kind.splits)
qed

lemma gains_serves: "gains r A A' \<Longrightarrow> serves A p sz align \<Longrightarrow> serves A' p sz align"
  by (rule serves_stays) (auto simp: gains_def dest: holds_larges_subset)

lemma loses_serves: "loses (q, n) A A' \<Longrightarrow> p \<noteq> q \<Longrightarrow> serves A p sz align \<Longrightarrow> serves A' p sz align"
  by (rule serves_stays) (auto simp: loses_def)

lemma small_aligned:
  assumes inv: "core_inv E A ps" and a: "heap_blocks (core_heap A) p = Some c"
    and al: "is_power_of_two align" "align dvd class_size c"
  shows "align dvd p"
proof -
  let ?b = "segment_base_of p"
  note H = core_inv_parts(1) [OF inv] and pl = heap_placed [OF core_inv_parts(1) [OF inv] a]
  have "align \<le> class_size c"
    using class_size_facts(2) [OF heap_class [OF a]] by (intro dvd_imp_le [OF al(2)]) simp
  then have "align \<le> SEGMENT" using class_size_facts(3) [OF heap_class [OF a]] by simp
  moreover have "(SEGMENT :: nat) = 2 ^ 22" by simp
  then have "is_power_of_two SEGMENT" using is_power_of_two_pow [of 22] by (simp only:)
  ultimately have "align dvd SEGMENT" using power_of_two_dvd_iff [OF al(1)] by simp
  moreover have "SEGMENT dvd ?b" using heap_inv_seg(1) [OF H] pl by (simp add: based_def)
  ultimately have "align dvd ?b" by (rule dvd_trans)
  moreover have "align dvd p - ?b" using al(2) pl by (blast intro: dvd_trans)
  moreover have "?b \<le> p" by (rule segment_base_le)
  ultimately show ?thesis by (metis dvd_add le_add_diff_inverse)
qed

lemma core_alloc_ok:
  assumes inv: "core_inv {} A ps" and os: "fresh_system os" and now: "clock_ok now A"
    and rq: "page_ok page" "is_power_of_two align"
  shows "\<exists>p A' ps'. core_alloc safe recommit os page now sz align A = ret (p, A') \<and> core_inv {} A' ps'
    \<and> gains (map_option (\<lambda>p. (p, block_bytes sz align)) p) A A' \<and> sz \<le> block_bytes sz align
    \<and> (case p of None \<Rightarrow> core_refuses os page sz align A | Some p \<Rightarrow> align dvd p \<and> serves A' p sz align)
    \<and> clock_ok now A' \<and> large_cache_seq (core_cache A') = large_cache_seq (core_cache A)"
  using rq(2)
proof (cases rule: classify_cases [of align "max sz MIN_BLOCK"])
  case (1 c)
  from alloc_small_ok [OF core_inv_parts(1) [OF inv] mapper_fresh(1) [OF os] 1(2), of A safe recommit now]
  obtain r H ps' where r: "alloc_small safe recommit now (small_mapper os A) c (core_heap A) = ret (r, H)"
    "heap_inv H ps'" "heap_effect c r (core_heap A) H" "grows (small_mapper os A) (core_heap A) H"
    "r = None \<longrightarrow> refused (small_mapper os A) (core_heap A)"
    unfolding outcome_def by (elim exE conjE) (rule that, assumption+)
  let ?A = "A\<lparr>core_heap := H\<rparr>"
  note cg = core_grows [OF inv os r(2-4)]
  have cl: "classify (max sz MIN_BLOCK) align = Some (Inr (KindSmall c))" using 1(1) by (simp add: ret_def)
  have run: "core_alloc safe recommit os page now sz align A = ret (r, ?A)"
    using r(1) 1(1) by (simp add: core_alloc_def on_heap_def)
  have bytes: "block_bytes sz align = class_size c" "sz \<le> class_size c" using 1(3) by (simp_all add: block_bytes_def cl)
  have "case r of None \<Rightarrow> core_refuses os page sz align A | Some p \<Rightarrow> align dvd p \<and> serves ?A p sz align"
  proof (cases r)
    case None
    then show ?thesis using small_refuses [OF _ cl] r(5) by simp
  next
    case (Some p)
    have hb: "heap_blocks (core_heap ?A) p = Some c" using r(3) Some by (simp add: heap_effect_def)
    then show ?thesis using small_aligned [OF cg(1) hb rq(2) 1(4)] Some by (simp add: serves_def cl)
  qed
  moreover have "clock_ok now ?A" "large_cache_seq (core_cache ?A) = large_cache_seq (core_cache A)"
    using now by (simp_all add: clock_ok_def)
  ultimately show ?thesis unfolding run bytes(1) using cg bytes(2) by blast
next
  case 2
  let ?n = "max sz MIN_BLOCK"
  have "0 < ?n" by (simp add: MIN_BLOCK_def)
  from alloc_large_ok [OF inv os now rq this] obtain p fresh A' ps' where
    r: "alloc_large os page now ?n align A = ret ((p, fresh), A')" "core_inv {} A' ps'"
      "gains (map_option (\<lambda>p. (p, ?n)) p) A A'"
      "case p of None \<Rightarrow> \<forall>off usable. large_request page align ?n usable off \<longrightarrow> core_refused os usable align off A
       | Some p \<Rightarrow> align dvd p \<and> (p, ?n) \<in> larges A' \<and> (fresh \<longrightarrow> zeroed p ?n A')"
      "clock_ok now A'" "large_cache_seq (core_cache A') = large_cache_seq (core_cache A)" by (elim exE conjE) (rule that, assumption+)
  have cl: "classify ?n align = Some (Inr KindLarge)" using 2 by (simp add: ret_def)
  have run: "core_alloc safe recommit os page now sz align A = ret (p, A')"
    using r(1) 2 by (simp add: core_alloc_def)
  have bytes: "block_bytes sz align = ?n" by (simp add: block_bytes_def cl)
  have "case p of None \<Rightarrow> core_refuses os page sz align A | Some p \<Rightarrow> align dvd p \<and> serves A' p sz align"
    using r(4) large_refuses [OF _ cl] by (cases p) (simp_all add: serves_def cl)
  then show ?thesis unfolding run bytes using r(2,3,5,6) by auto
qed

subsection \<open>Deallocation\<close>

lemma small_dealloc_ok:
  assumes inv: "core_inv {} A ps" and a: "heap_blocks (core_heap A) p = Some c" and ptr: "p \<le> usize_max"
  shows "\<exists>H ps'. heap_dealloc safe (segment_base_of p) p c (core_heap A) = ret H
    \<and> core_inv {} (A\<lparr>core_heap := H\<rparr>) ps' \<and> loses (p, class_size c) A (A\<lparr>core_heap := H\<rparr>)"
proof -
  let ?b = "segment_base_of p"
  note sb = heap_block_parts(1) [OF a] and H = core_inv_parts(1) [OF inv] and c = heap_class [OF a]
  have "block (segment_at ?b (core_heap A)) (p - ?b) = Some (c, LIVE)"
    using heap_block_live [OF H sb] a by simp
  with heap_dealloc_ok [OF H sb c segment_base_le in_segment [OF ptr], of safe] obtain K ps' where
    K: "heap_dealloc safe ?b p c (core_heap A) = ret K" "heap_inv K ps'"
      "heap_blocks K = (heap_blocks (core_heap A))(p := None)" "keeps_words (core_heap A) K" "moves {} (core_heap A) K"
    by auto
  let ?A = "A\<lparr>core_heap := K\<rparr>" and ?x = "(p, class_size c)"
  have lg: "larges ?A = larges A" "keeps (larges A) A ?A" using keeps_moves [OF inv K(5), of 0] by simp_all
  have sm: "smalls ?A = smalls A - {?x}"
  proof (rule set_eqI)
    fix y :: "nat \<times> nat"
    show "y \<in> smalls ?A \<longleftrightarrow> y \<in> smalls A - {?x}" using a K(3) by (cases y) (auto simp: smalls_def)
  qed
  have x: "?x \<in> smalls A" using a by (auto simp: smalls_def)
  have nx: "?x \<notin> larges A" by (rule smalls_not_large [OF inv x])
  let ?S = "{(a, d). heap_blocks (core_heap A) a = Some d \<and> a \<noteq> p}"
  have S: "smalls A - {?x} = (\<lambda>(a, d). (a, class_size d)) ` ?S"
    using a by (auto simp: smalls_def)
  have "keeps (smalls A - {?x}) A ?A" unfolding S by (rule keeps_smalls [OF K(4)]) (auto simp: K(3))
  moreover have u: "in_use A - {?x} = (smalls A - {?x}) \<union> larges A" using nx by (auto simp: in_use_def)
  ultimately have "keeps (in_use A - {?x}) A ?A" unfolding u keeps_Un using lg(2) by blast
  then have "loses ?x A ?A" unfolding loses_def using sm lg(1) nx by (auto simp: in_use_def)
  moreover have "core_inv {} ?A ps'" using core_moves [OF inv K(2,5), of 0] by simp
  ultimately show ?thesis using K(1) by blast
qed

lemma overlap_same:
  assumes inv: "core_inv E A ps" and r: "region A b n" "region A c l" and p: "b \<le> p" "p < b + n" "c \<le> p" "p < c + l"
  shows "b = c"
proof (rule ccontr)
  assume "b \<noteq> c"
  then have "b + n \<le> c \<or> c + l \<le> b" using core_inv_parts(3) [OF inv] r unfolding regions_apart_def by blast
  then show False using p by linarith
qed

lemma in_use_bounds:
  assumes inv: "core_inv E A ps" and u: "(p, n) \<in> in_use A"
  shows "p \<le> usize_max" "p \<noteq> 0"
proof -
  have "p \<le> usize_max \<and> p \<noteq> 0"
  proof (cases "(p, n) \<in> larges A")
    case True
    then obtain b where b: "large_base A b" "p = b + payload_offset (header_at b A)" by (auto simp: larges_def)
    have "b \<noteq> 0" using core_inv_parts(4) [OF inv b(1)] by (simp add: large_sound_def large_header_ok_def)
    then show ?thesis using large_region(2-4) [OF inv b(1)] b(2) by simp
  next
    case False
    then obtain c where a: "heap_blocks (core_heap A) p = Some c" using u by (auto simp: in_use_def smalls_def)
    note pl = heap_placed [OF core_inv_parts(1) [OF inv] a]
    note seg = heap_inv_seg [OF core_inv_parts(1) [OF inv] heap_block_parts(1) [OF a]]
    have "segment_base_of p + SEGMENT \<le> 2 ^ 64" using seg(1) by (simp add: based_def)
    moreover have "0 < class_size c" using class_size_facts(2) [OF heap_class [OF a]] by simp
    moreover have "segment_base_of p \<le> p" by (rule segment_base_le)
    ultimately show ?thesis using pl seg(3) by simp
  qed
  then show "p \<le> usize_max" "p \<noteq> 0" by blast+
qed

text \<open>The segment that serves a request, as the lookup of its block finds it.\<close>

definition homed :: "alloc_core \<Rightarrow> nat \<Rightarrow> nat \<Rightarrow> nat \<Rightarrow> nat \<Rightarrow> bool" where
  "homed A p sz align b \<longleftrightarrow> (case classify (max sz MIN_BLOCK) align of
     Some (Inr (KindSmall c)) \<Rightarrow> b = segment_base_of p \<and> heap_blocks (core_heap A) p = Some c
   | _ \<Rightarrow> large_base A b \<and> p = b + payload_offset (header_at b A) \<and> max sz MIN_BLOCK = large_size (header_at b A))"

lemma homed_cases:
  assumes "is_power_of_two align" and "homed A p sz align b"
  obtains (small) c where "classify (max sz MIN_BLOCK) align = ret (KindSmall c)" "c < 49" "max sz MIN_BLOCK \<le> class_size c"
    "align dvd class_size c" "block_bytes sz align = class_size c"
    "b = segment_base_of p" "heap_blocks (core_heap A) p = Some c"
  | (large) "classify (max sz MIN_BLOCK) align = ret KindLarge" "block_bytes sz align = max sz MIN_BLOCK" "large_base A b"
    "p = b + payload_offset (header_at b A)" "max sz MIN_BLOCK = large_size (header_at b A)"
proof (cases rule: classify_cases [OF assms(1), of "max sz MIN_BLOCK"])
  case (1 c)
  then show ?thesis using small [of c] assms(2) by (simp add: homed_def block_bytes_def ret_def)
next
  case 2
  then show ?thesis using large assms(2) by (simp add: homed_def block_bytes_def ret_def)
qed

lemma homed_serves: "homed A p sz align b \<Longrightarrow> serves A p sz align"
  unfolding homed_def serves_def larges_def by (auto split: option.splits sum.splits alloc_kind.splits)

lemma serves_homed:
  assumes inv: "core_inv E A ps" and al: "is_power_of_two align" and sv: "serves A p sz align" and p: "p \<le> usize_max"
    and b: "if large_base A b then b \<le> p \<and> p < b + span_usable (header_at b A)
       else small_base (core_heap A) b \<and> b = segment_base_of p"
  shows "homed A p sz align b"
  using al
proof (cases rule: classify_cases [of align "max sz MIN_BLOCK"])
  case (1 c)
  have cl: "classify (max sz MIN_BLOCK) align = Some (Inr (KindSmall c))" using 1(1) by (simp add: ret_def)
  have hb: "heap_blocks (core_heap A) p = Some c" using sv by (simp add: serves_def cl)
  note sr = small_region [OF inv hb]
  have "\<not> large_base A b"
  proof
    assume l: "large_base A b"
    have "p < segment_base_of p + SEGMENT" by (rule in_segment [OF p])
    then have "b = segment_base_of p"
      using overlap_same [OF inv large_region(1) [OF inv l] sr(1), of p] b l sr(2) by simp
    then show False using l sr(5) by simp
  qed
  then show ?thesis using b hb by (simp add: homed_def cl)
next
  case 2
  let ?n = "max sz MIN_BLOCK"
  have cl: "classify ?n align = Some (Inr KindLarge)" using 2 by (simp add: ret_def)
  have l: "(p, ?n) \<in> larges A" using sv by (simp add: serves_def cl)
  then obtain d where d: "large_base A d" "p = d + payload_offset (header_at d A)" "?n = large_size (header_at d A)"
    by (auto simp: larges_def)
  note lr = large_region [OF inv d(1)]
  have "large_base A b"
  proof (rule ccontr)
    assume "\<not> large_base A b"
    then have "small_base (core_heap A) (segment_base_of p)" using b by auto
    moreover have "0 < ?n" using lr(2) d(3) by simp
    ultimately show False using large_words(1) [OF inv l, of p] by simp
  qed
  then have "b = d"
    using overlap_same [OF inv large_region(1) [OF inv] lr(1), of b p] b lr(2,3) d(2) by simp
  then show ?thesis unfolding homed_def cl option.case sum.case alloc_kind.case using d by blast
qed

lemma homed_gains:
  assumes "gains r A A'" and "homed A p sz align b"
  shows "homed A' p sz align b"
proof -
  have "holds_larges A A'" using assms(1) by (simp add: gains_def)
  moreover have "serves A' p sz align" using gains_serves [OF assms(1) homed_serves [OF assms(2)]] .
  ultimately show ?thesis using assms(2) unfolding homed_def serves_def holds_larges_def
    by (auto split: option.splits sum.splits alloc_kind.splits)
qed

lemma dealloc_homed_ok:
  assumes inv: "core_inv {} A ps" and now: "clock_ok now A" and sq: "large_cache_seq (core_cache A) < - 1"
    and al: "is_power_of_two align" and b: "homed A p sz align b"
  shows "\<exists>A' ps'. dealloc_at_base safe now p sz align b A = ret A' \<and> core_inv {} A' ps'
    \<and> loses (p, block_bytes sz align) A A'"
  using al b
proof (cases rule: homed_cases)
  case (small c)
  have "(p, block_bytes sz align) \<in> in_use A" using serves_in_use [OF homed_serves [OF b]] .
  note bd = in_use_bounds [OF inv this]
  have k: "kind (header_at b A) = Primordial \<or> kind (header_at b A) = Small"
    using heap_inv_seg(2) [OF core_inv_parts(1) [OF inv] heap_block_parts(1) [OF small(7)]] small(6)
    by (auto simp: seg_ok_def segment_at_def header_at_def)
  from small_dealloc_ok [OF inv small(7) bd(1), of safe] obtain H ps' where
    H: "heap_dealloc safe b p c (core_heap A) = ret H" "core_inv {} (A\<lparr>core_heap := H\<rparr>) ps'"
      "loses (p, class_size c) A (A\<lparr>core_heap := H\<rparr>)" unfolding small(6) by blast
  have "dealloc_at_base safe now p sz align b A = ret (A\<lparr>core_heap := H\<rparr>)"
    using k H(1) small(1) by (auto simp: dealloc_at_base_def block_kind_of_def Let_def)
  then show ?thesis using H(2,3) unfolding small(5) by auto
next
  case large
  from dealloc_large_ok [OF inv large(3) now sq, of safe] obtain A' ps' where
    A': "dealloc_large_at_base safe now p b A = ret A'" "core_inv {} A' ps'" "loses (p, max sz MIN_BLOCK) A A'"
    using large(4,5) by auto
  have "kind (header_at b A) = Large" using large(3) by (simp add: large_base_def)
  then have "dealloc_at_base safe now p sz align b A = ret A'"
    using A'(1) by (simp add: dealloc_at_base_def Let_def)
  then show ?thesis using A'(2,3) unfolding large(2) by auto
qed

text \<open>The lookup of a block in use, with the segment that serves it.\<close>

lemma find_served:
  assumes inv: "core_inv E A ps" and al: "is_power_of_two align" and sv: "serves A p sz align"
  obtains A1 b where "canonical_block_of p A = ret (Some (b, p), A1)" "core_inv E A1 ps" "settled A A1"
    "core_cache A1 = core_cache A" "homed A1 p sz align b" "p \<le> usize_max" "p \<noteq> 0"
proof -
  note u = serves_in_use [OF sv] and bd = in_use_bounds [OF inv serves_in_use [OF sv]]
  from canonical_block_ok [OF inv bd(1)] obtain r A1 where
    r: "canonical_block_of p A = ret (r, A1)" "core_inv E A1 ps" "settled A A1" "core_cache A1 = core_cache A"
      "\<forall>b. header_at b A1 = header_at b A \<and> large_base A1 b = large_base A b
        \<and> small_base (core_heap A1) b = small_base (core_heap A) b"
      "case r of
        None \<Rightarrow> (\<forall>n. (p, n) \<notin> in_use A)
      | Some (b, blk) \<Rightarrow> blk = p \<and> (if large_base A b then b \<le> p \<and> p < b + span_usable (header_at b A)
          else small_base (core_heap A) b \<and> b = segment_base_of p)" by blast
  obtain b where b: "r = Some (b, p)"
      "if large_base A b then b \<le> p \<and> p < b + span_usable (header_at b A)
       else small_base (core_heap A) b \<and> b = segment_base_of p"
    using r(6) u by (cases r) auto
  have "if large_base A1 b then b \<le> p \<and> p < b + span_usable (header_at b A1)
      else small_base (core_heap A1) b \<and> b = segment_base_of p" using b(2) r(5) by simp
  from serves_homed [OF r(2) al gains_serves [OF settled_gains [OF r(3)] sv] bd(1) this]
  show ?thesis using that r(1-4) b(1) bd by blast
qed

lemma core_dealloc_ok:
  assumes inv: "core_inv {} A ps" and now: "clock_ok now A" and sq: "large_cache_seq (core_cache A) < - 1"
    and al: "is_power_of_two align" and sv: "serves A p sz align"
  shows "\<exists>A' ps'. core_dealloc safe now p sz align A = ret A' \<and> core_inv {} A' ps'
    \<and> loses (p, block_bytes sz align) A A'"
proof -
  obtain A1 b where b: "canonical_block_of p A = ret (Some (b, p), A1)" "core_inv {} A1 ps" "settled A A1"
    "core_cache A1 = core_cache A" "homed A1 p sz align b" "p \<noteq> 0" by (rule find_served [OF inv al sv]) (rule that)
  have "clock_ok now A1" "large_cache_seq (core_cache A1) < - 1" using now sq b(4) by (simp_all add: clock_ok_def)
  from dealloc_homed_ok [OF b(2) this al b(5), of safe] obtain A' ps' where
    A': "dealloc_at_base safe now p sz align b A1 = ret A'" "core_inv {} A' ps'" "loses (p, block_bytes sz align) A1 A'" by blast
  then show ?thesis using b(1,6) loses_after [OF settled_gains [OF b(3)]] by (auto simp: core_dealloc_def)
qed

text \<open>A free of any address with any layout: at most the block that starts there goes.\<close>

definition frees :: "bool \<Rightarrow> nat \<Rightarrow> alloc_core \<Rightarrow> alloc_core core_run \<Rightarrow> bool" where
  "frees safe p A run \<longleftrightarrow>
     (\<exists>A' ps'. run = ret A' \<and> core_inv {} A' ps' \<and> (gains None A A' \<or> (\<exists>n. (p, n) \<in> in_use A \<and> loses (p, n) A A')))
     \<or> \<not> safe \<and> (\<exists>e. run = abort e)"

lemma frees_same: "core_inv {} A ps \<Longrightarrow> frees safe p A (ret A)"
  unfolding frees_def by (intro disjI1 exI [of _ A] exI [of _ ps] conjI) simp_all

lemma frees_after:
  assumes "gains None A A1" and "frees safe p A1 run"
  shows "frees safe p A run"
proof -
  have "in_use A1 = in_use A" using assms(1) by (simp add: gains_def)
  then show ?thesis using assms(2) gains_trans [OF assms(1)] loses_after [OF assms(1)] unfolding frees_def by metis
qed

lemma frees_reject: "core_inv {} A ps \<Longrightarrow> frees safe p A (Some (shadow_reject safe e A))"
  using frees_same [of A ps safe p] by (cases safe) (auto simp: shadow_reject_def frees_def ret_def abort_def)

lemma heap_frees:
  assumes inv: "core_inv {} A ps" and b: "small_base (core_heap A) (segment_base_of p)" and p: "p \<le> usize_max" and c: "c < 49"
  shows "frees safe p A (tbind (heap_dealloc safe (segment_base_of p) p c (core_heap A)) (\<lambda>H. ret (A\<lparr>core_heap := H\<rparr>)))"
proof (cases "heap_blocks (core_heap A) p = Some c")
  case True
  from small_dealloc_ok [OF inv True p, of safe] obtain H ps' where
    H: "heap_dealloc safe (segment_base_of p) p c (core_heap A) = ret H" "core_inv {} (A\<lparr>core_heap := H\<rparr>) ps'"
      "loses (p, class_size c) A (A\<lparr>core_heap := H\<rparr>)" by blast
  have "(p, class_size c) \<in> in_use A" using True by (auto simp: in_use_def smalls_def)
  then show ?thesis using H by (auto simp: frees_def)
next
  case False
  note Hi = core_inv_parts(1) [OF inv]
  have "block (segment_at (segment_base_of p) (core_heap A)) (p - segment_base_of p) \<noteq> Some (c, LIVE)"
    using heap_block_live [OF Hi b] False by simp
  with heap_dealloc_ok [OF Hi b c segment_base_le in_segment [OF p], of safe]
  have "if safe then heap_dealloc safe (segment_base_of p) p c (core_heap A) = ret (core_heap A)
      else \<exists>e. heap_dealloc safe (segment_base_of p) p c (core_heap A) = abort e" by simp
  then show ?thesis using frees_same [OF inv] by (auto simp: frees_def split: if_splits)
qed

lemma large_frees:
  assumes inv: "core_inv {} A ps" and b: "large_base A b" and now: "clock_ok now A"
    and sq: "large_cache_seq (core_cache A) < - 1"
  shows "frees safe p A (dealloc_large_at_base safe now p b A)"
proof (cases "p = b + payload_offset (header_at b A)")
  case True
  from dealloc_large_ok [OF inv b now sq, of safe] obtain A' ps' where
    A': "dealloc_large_at_base safe now p b A = ret A'" "core_inv {} A' ps'" "loses (p, large_size (header_at b A)) A A'"
    unfolding True by blast
  have "(p, large_size (header_at b A)) \<in> in_use A" using b True by (auto simp: in_use_def larges_def)
  then show ?thesis using A' by (auto simp: frees_def)
next
  case False
  then have "reject_large_interior_free b p A"
    using b by (auto simp: reject_large_interior_free_def large_payload_mismatch_def large_payload_address_matches_def large_base_def)
  then show ?thesis using frees_reject [OF inv] by (simp add: dealloc_large_at_base_def)
qed

lemma core_dealloc_frees:
  assumes inv: "core_inv {} A ps" and now: "clock_ok now A" and sq: "large_cache_seq (core_cache A) < - 1"
    and al: "is_power_of_two align" and p: "p \<le> usize_max"
  shows "frees safe p A (core_dealloc safe now p sz align A)"
proof (cases "p = 0")
  case True
  then show ?thesis using frees_same [OF inv] by (simp add: core_dealloc_def)
next
  case False
  from canonical_block_ok [OF inv p] obtain r A1 where
    r: "canonical_block_of p A = ret (r, A1)" "core_inv {} A1 ps" "settled A A1" "core_cache A1 = core_cache A"
      "\<forall>b. header_at b A1 = header_at b A \<and> large_base A1 b = large_base A b
        \<and> small_base (core_heap A1) b = small_base (core_heap A) b"
      "case r of
        None \<Rightarrow> (\<forall>n. (p, n) \<notin> in_use A)
      | Some (b, blk) \<Rightarrow> blk = p \<and> (if large_base A b then b \<le> p \<and> p < b + span_usable (header_at b A)
          else small_base (core_heap A) b \<and> b = segment_base_of p)" by blast
  have now1: "clock_ok now A1" and sq1: "large_cache_seq (core_cache A1) < - 1"
    using now sq r(4) by (simp_all add: clock_ok_def)
  have "frees safe p A1 (core_dealloc safe now p sz align A)"
  proof (cases r)
    case None
    then show ?thesis using frees_same [OF r(2)] r(1) False by (simp add: core_dealloc_def)
  next
    case (Some x)
    then obtain b where b: "r = Some (b, p)" "if large_base A b then b \<le> p \<and> p < b + span_usable (header_at b A)
        else small_base (core_heap A) b \<and> b = segment_base_of p" using r(6) by (cases x) auto
    have run: "core_dealloc safe now p sz align A = dealloc_at_base safe now p sz align b A1"
      using r(1) b(1) False by (simp add: core_dealloc_def)
    show ?thesis
    proof (cases "large_base A b")
      case True
      then have l: "large_base A1 b" using r(5) by blast
      then have "kind (header_at b A1) = Large" by (simp add: large_base_def)
      then show ?thesis unfolding run using large_frees [OF r(2) l now1 sq1] by (simp add: dealloc_at_base_def Let_def)
    next
      case nl: False
      then have s: "small_base (core_heap A1) (segment_base_of p)" "b = segment_base_of p" using b(2) r(5) by auto
      have k: "kind (header_at b A1) = Primordial \<or> kind (header_at b A1) = Small"
        using heap_inv_seg(2) [OF core_inv_parts(1) [OF r(2)] s(1)] s(2)
        by (auto simp: seg_ok_def segment_at_def header_at_def)
      show ?thesis using al
      proof (cases rule: classify_cases [of align "max sz MIN_BLOCK"])
        case (1 c)
        then have "dealloc_at_base safe now p sz align b A1
            = tbind (heap_dealloc safe (segment_base_of p) p c (core_heap A1)) (\<lambda>H. ret (A1\<lparr>core_heap := H\<rparr>))"
          using k s(2) by (auto simp: dealloc_at_base_def block_kind_of_def Let_def)
        then show ?thesis unfolding run using heap_frees [OF r(2) s(1) p 1(2)] by simp
      next
        case 2
        then have "dealloc_at_base safe now p sz align b A1 = ret A1"
          using k by (auto simp: dealloc_at_base_def block_kind_of_def Let_def)
        then show ?thesis unfolding run using frees_same [OF r(2)] by simp
      qed
    qed
  qed
  then show ?thesis by (rule frees_after [OF settled_gains [OF r(3)]])
qed

subsection \<open>Stores of the callers\<close>

text \<open>The words an access to the block of \<open>n\<close> bytes at \<open>p\<close> can touch.\<close>

definition touched :: "nat \<Rightarrow> nat \<Rightarrow> nat set" where
  "touched p n = {q. p < q + 8 \<and> q < p + n}"

text \<open>A block's words lie in its own region, behind the header or the metadata.\<close>

lemma touched_region:
  assumes inv: "core_inv E A ps" and u: "(p, n) \<in> in_use A" and q: "q \<in> touched p n"
    and b: "small_base (core_heap A) (segment_base_of q)"
  shows "\<exists>c. heap_blocks (core_heap A) p = Some c \<and> n = class_size c \<and> segment_base_of q = segment_base_of p"
proof -
  let ?s = "segment_base_of q"
  have q': "p < q + 8" "q < p + n" using q by (simp_all add: touched_def)
  have reg: "region A ?s SEGMENT" using b by (simp add: region_def seg_span_def small_base_def)
  have seg: "segment_key ?s" "?s \<noteq> 0" using heap_inv_seg(3,5) [OF core_inv_parts(1) [OF inv] b] by simp_all
  from block_region [OF inv u] obtain d l where d: "region A d l" "d \<le> p" "p + n \<le> d + l"
    "large_base A d \<longleftrightarrow> (p, n) \<in> larges A"
    "if (p, n) \<in> larges A then p = d + payload_offset (header_at d A) \<and> n = large_size (header_at d A) else (p, n) \<in> smalls A"
    by blast
  have p: "p \<le> usize_max" by (rule in_use_bounds(1) [OF inv u])
  show ?thesis
  proof (cases "(p, n) \<in> larges A")
    case True
    then have l: "large_base A d" "p = d + payload_offset (header_at d A)" using d(4,5) by simp_all
    note lr = large_region [OF inv l(1)]
    have "q < d + span_usable (header_at d A)" using q'(2) True d(5) lr(3) by simp
    then have "q \<le> usize_max" using lr(4) by simp
    note sq = segment_base_le [of q] in_segment [OF this]
    have "?s \<noteq> d" using b l(1) by (auto simp: small_base_def large_base_def header_at_def)
    then have "?s + SEGMENT \<le> d \<or> d + span_usable (header_at d A) \<le> ?s"
      using core_inv_parts(3) [OF inv] reg lr(1) unfolding regions_apart_def by blast
    then have "?s + SEGMENT \<le> d" using \<open>q < d + span_usable (header_at d A)\<close> sq(1) by linarith
    then have "q < d" using sq(2) by linarith
    then have "payload_offset (header_at d A) < 8" using q'(1) l(2) by linarith
    then show ?thesis using core_inv_parts(4) [OF inv l(1)] by (simp add: large_sound_def large_header_ok_def)
  next
    case False
    then obtain c where c: "heap_blocks (core_heap A) p = Some c" "n = class_size c"
      using d(5) by (auto simp: smalls_def)
    note pl = heap_placed [OF core_inv_parts(1) [OF inv] c(1)]
    note seg' = heap_inv_seg [OF core_inv_parts(1) [OF inv] heap_block_parts(1) [OF c(1)]]
    have "8 \<le> (small_meta_end :: nat)" by simp
    then have "segment_base_of p \<le> q" "q < segment_base_of p + SEGMENT" using q' pl c(2) by linarith+
    then have "segment_base_of q = segment_base_of p"
      using segment_base_of_in [OF seg'(1), of "q - segment_base_of p"] by simp
    then show ?thesis using c by blast
  qed
qed

lemma store_core_ok:
  fixes g :: "nat \<Rightarrow> nat"
  assumes inv: "core_inv {} A ps" and u: "(p, n) \<in> in_use A" and Q: "Q \<subseteq> touched p n"
  defines "A' \<equiv> A\<lparr>core_heap := store_words Q g (core_heap A)\<rparr>"
  shows "core_inv {} A' ps" "smalls A' = smalls A" "larges A' = larges A"
proof -
  let ?H = "core_heap A" and ?K = "store_words Q g (core_heap A)"
  note Hi = core_inv_parts(1) [OF inv]
  have seg: "seg_ok b (segment_at b ?K) \<and> block (segment_at b ?K) = block (segment_at b ?H)" if b: "small_base ?H b" for b
  proof (cases "\<exists>off. b + off \<in> Q \<and> b = segment_base_of (b + off)")
    case False
    then have "blk_cells ?K b = blk_cells ?H b" unfolding store_words_def fun_eq_iff by auto
    then have "segment_at b ?K = segment_at b ?H" by (simp add: segment_at_def)
    then show ?thesis using heap_inv_seg(2) [OF Hi b] by simp
  next
    case True
    then obtain off where o: "b + off \<in> touched p n" "segment_base_of (b + off) = b" using Q by auto
    from touched_region [OF inv u o(1)] b o(2) obtain c where
      c: "heap_blocks ?H p = Some c" "n = class_size c" "b = segment_base_of p" by auto
    let ?s = "segment_at b ?H"
    have live: "block ?s (p - b) = Some (c, LIVE)" using heap_block_live [OF Hi] b c(1,3) by simp
    note pl = heap_placed [OF Hi c(1), folded c(3)]
    have bp: "b \<le> p" using segment_base_le [of p] c(3) by simp
    have "segment_base_of (b + x) = b" if "b + x < p + n" for x
    proof (rule segment_base_of_in [OF heap_inv_seg(1) [OF Hi b]])
      show "x < SEGMENT" using that pl c(2) by linarith
    qed
    then have base: "b = segment_base_of (b + x)" if "b + x \<in> Q" for x using that Q by (auto simp: touched_def)
    define h where "h x = (if b + x \<in> Q then g (b + x) else cells ?s x)" for x
    have "b + x \<in> Q \<Longrightarrow> p - b < x + 8 \<and> x < p - b + class_size c" for x
      using Q bp c(2) by (fastforce simp: touched_def)
    then have "blk_cells ?K b x = (if p - b < x + 8 \<and> x < p - b + class_size c then h x else cells ?s x)" for x
      using base [of x] by (simp add: store_words_def h_def segment_at_def)
    then have "segment_at b ?K = ?s\<lparr>cells := \<lambda>x. if p - b < x + 8 \<and> x < p - b + class_size c then h x else cells ?s x\<rparr>"
      by (simp add: segment_at_def fun_eq_iff)
    then show ?thesis using write_ok [OF heap_inv_seg(2) [OF Hi b] live, of h] by simp
  qed
  have nc: "no_cached (segment_at b ?K)" if b: "small_base ?H b" for b
    using seg [OF b] heap_inv_seg(6) [OF Hi b] by (simp add: no_cached_def)
  have "segs_ok ?K" using Hi seg nc unfolding heap_inv_def segs_ok_def store_small_base by simp
  then have "heap_inv ?K ps" using Hi by (simp add: heap_inv_def)
  then show "core_inv {} A' ps" unfolding A'_def by (rule core_inv_store [OF inv])
  have "heap_blocks ?K a = heap_blocks ?H a" for a using seg [of "segment_base_of a"] by (simp add: heap_blocks_def Let_def)
  then show "smalls A' = smalls A" by (simp add: smalls_def A'_def)
  show "larges A' = larges A" unfolding A'_def by (rule store_frame(3))
qed

end
