(* ===== verification/Realloc.thy ===== *)
theory Realloc
  imports AllocCore
begin

text \<open>
  Moving and zeroing: \<open>realloc\<close> with its two ways in place and its way by copy
  (\<open>src/alloc_core/alloc_core/mem/mem_impl.rs\<close>, \<open>realloc_fastpath.rs\<close>) and \<open>alloc_zeroed\<close>.
\<close>

subsection \<open>Bulk stores\<close>

text \<open>
  \<open>Node::copy_nonoverlapping\<close> and \<open>Node::zero\<close> over words: a word that lies in the range gets the
  new contents, one that straddles an end of the range some value \<open>edge\<close>.
\<close>

definition fill_block :: "(nat \<Rightarrow> nat) \<Rightarrow> nat \<Rightarrow> nat \<Rightarrow> (nat \<Rightarrow> nat) \<Rightarrow> alloc_core \<Rightarrow> alloc_core" where
  "fill_block edge dst n g A =
     A\<lparr>core_heap := store_words (touched dst n) (\<lambda>q. if q \<in> words_in dst n then g q else edge q) (core_heap A)\<rparr>"

definition copy_nonoverlapping :: "(nat \<Rightarrow> nat) \<Rightarrow> nat \<Rightarrow> nat \<Rightarrow> nat \<Rightarrow> alloc_core \<Rightarrow> alloc_core" where
  "copy_nonoverlapping edge src dst n A = fill_block edge dst n (\<lambda>q. heap_word (core_heap A) (src + (q - dst))) A"

definition node_zero :: "(nat \<Rightarrow> nat) \<Rightarrow> nat \<Rightarrow> nat \<Rightarrow> alloc_core \<Rightarrow> alloc_core" where
  "node_zero edge dst n A = fill_block edge dst n (\<lambda>_. 0) A"

subsection \<open>Reallocation\<close>

text \<open>\<open>Layout::from_size_align\<close>: the size, rounded up to the alignment, fits an \<open>isize\<close>.\<close>

definition layout_from_size_align :: "nat \<Rightarrow> nat \<Rightarrow> bool" where
  "layout_from_size_align sz align \<longleftrightarrow> is_power_of_two align \<and> sz + align \<le> 2 ^ 63"

definition small_committed_bound :: "nat \<Rightarrow> nat" where
  "small_committed_bound base = SEGMENT"

definition safe_payload_read_span :: "nat \<Rightarrow> nat \<Rightarrow> alloc_core \<Rightarrow> nat" where
  "safe_payload_read_span base payload A =
     (let seg_span = if kind (header_at base A) = Large then span_usable (header_at base A)
                     else small_committed_bound base;
          off = (payload + 2 ^ 64 - base) mod 2 ^ 64
      in seg_span - off)"

definition realloc_large_inplace_known_base ::
    "nat \<Rightarrow> nat \<Rightarrow> nat \<Rightarrow> nat \<Rightarrow> alloc_core \<Rightarrow> (nat option \<times> alloc_core) core_run" where
  "realloc_large_inplace_known_base base ptr old_size new_size A =
     (let old_eff = max old_size MIN_BLOCK; new_eff = max new_size MIN_BLOCK
      in if old_eff \<le> new_eff then
           let payload_off = payload_offset (header_at base A)
           in if 2 ^ 64 \<le> base + payload_off then abort ''attempt to add with overflow''
              else if ptr \<noteq> base + payload_off then ret (None, A)
              else if payload_off + new_eff < 2 ^ 64 \<and> payload_off + new_eff \<le> span_usable (header_at base A)
              then ret (Some ptr, set_header base (\<lambda>h. h\<lparr>large_size := new_eff\<rparr>) A)
              else ret (None, A)
         else ret (None, A))"

definition class_lookup :: "nat \<Rightarrow> nat \<Rightarrow> nat option core_run" where
  "class_lookup sz align =
     (case alloc_class_for sz align of
        None \<Rightarrow> abort ''index out of bounds''
      | Some (Inl e) \<Rightarrow> abort ''align must be a power of two''
      | Some (Inr c) \<Rightarrow> ret c)"

definition realloc_inplace_fast_path_known_base ::
    "nat \<Rightarrow> nat \<Rightarrow> nat \<Rightarrow> nat \<Rightarrow> nat \<Rightarrow> alloc_core \<Rightarrow> (nat option \<times> alloc_core) core_run" where
  "realloc_inplace_fast_path_known_base base0 ptr0 old_size align new_size A =
     (let key = segment_base_of ptr0
      in case canonical_base_of key (core_table A) of
           None \<Rightarrow> None
         | Some None \<Rightarrow> ret (None, A)
         | Some (Some canonical) \<Rightarrow>
             if base0 \<noteq> canonical \<and> base0 \<noteq> key then ret (None, A)
             else
               let base = canonical;
                   off = (ptr0 + 2 ^ 64 - base) mod 2 ^ 64;
                   k = kind (header_at base A);
                   span = if k = Large then span_usable (header_at base A) else SEGMENT
               in if span \<le> off then ret (None, A)
                  else
                    let ptr = base + off
                    in if k = Large then realloc_large_inplace_known_base base ptr old_size new_size A
                       else if k = Small \<or> k = Primordial then
                         tbind (class_lookup (max old_size MIN_BLOCK) align) (\<lambda>old_class.
                         tbind (class_lookup (max new_size MIN_BLOCK) align) (\<lambda>new_class.
                           if old_class \<noteq> None \<and> new_class = old_class then ret (Some ptr, A) else ret (None, A)))
                       else ret (None, A))"

text \<open>The way by copy: \<open>now\<close> is the clock of the allocation, \<open>later\<close> that of the free.\<close>

definition realloc_move ::
    "bool \<Rightarrow> bool \<Rightarrow> system \<Rightarrow> nat \<Rightarrow> nat \<Rightarrow> nat \<Rightarrow> (nat \<Rightarrow> nat) \<Rightarrow> nat \<Rightarrow> nat \<Rightarrow> nat \<Rightarrow> nat \<Rightarrow> nat \<Rightarrow> alloc_core
     \<Rightarrow> (nat option \<times> alloc_core) core_run" where
  "realloc_move safe_mode recommit os page now later edge base blk old_size align new_size A =
     (if \<not> layout_from_size_align new_size align then ret (None, A)
      else tbind (core_alloc safe_mode recommit os page now new_size align A) (\<lambda>(r, A1).
        case r of
          None \<Rightarrow> ret (None, A1)
        | Some new_ptr \<Rightarrow>
            let A2 = copy_nonoverlapping edge blk new_ptr (min old_size new_size) A1
            in tbind (dealloc_at_base safe_mode later blk old_size align base A2) (\<lambda>A3. ret (Some new_ptr, A3))))"

definition core_realloc ::
    "bool \<Rightarrow> bool \<Rightarrow> system \<Rightarrow> nat \<Rightarrow> nat \<Rightarrow> nat \<Rightarrow> (nat \<Rightarrow> nat) \<Rightarrow> nat \<Rightarrow> nat \<Rightarrow> nat \<Rightarrow> nat \<Rightarrow> alloc_core
     \<Rightarrow> (nat option \<times> alloc_core) core_run" where
  "core_realloc safe_mode recommit os page now later edge ptr old_size align new_size A =
     (if ptr = 0 then ret (None, A)
      else tbind (canonical_block_of ptr A) (\<lambda>(r, A1).
        case r of
          None \<Rightarrow> ret (None, A1)
        | Some (base, blk) \<Rightarrow>
            if large_payload_mismatch base blk A1
            then Some (shadow_reject safe_mode ''misuse check rejected a realloc of an interior pointer in safe mode'' (None, A1))
            else tbind (realloc_inplace_fast_path_known_base base blk old_size align new_size A1) (\<lambda>(p, A2).
              case p of
                Some p \<Rightarrow> ret (Some p, A2)
              | None \<Rightarrow>
                  if safe_payload_read_span base blk A2 < old_size
                  then Some (shadow_reject safe_mode
                    ''misuse check rejected a realloc with an oversized old layout in safe mode'' (None, A2))
                  else realloc_move safe_mode recommit os page now later edge base blk old_size align new_size A2)))"

subsection \<open>Zeroed allocation\<close>

definition alloc_zeroed ::
    "bool \<Rightarrow> bool \<Rightarrow> system \<Rightarrow> nat \<Rightarrow> nat \<Rightarrow> (nat \<Rightarrow> nat) \<Rightarrow> nat \<Rightarrow> nat \<Rightarrow> alloc_core
     \<Rightarrow> (nat option \<times> alloc_core) core_run" where
  "alloc_zeroed safe_mode recommit os page now edge layout_size layout_align A =
     (let sz = max layout_size MIN_BLOCK
      in tbind (classify sz layout_align) (\<lambda>k.
         case k of
           KindSmall c \<Rightarrow>
             tbind (on_heap (alloc_small safe_mode recommit now (small_mapper os A) c) A) (\<lambda>(r, A1).
               case r of None \<Rightarrow> ret (None, A1) | Some ptr \<Rightarrow> ret (Some ptr, node_zero edge ptr sz A1))
         | KindLarge \<Rightarrow>
             tbind (alloc_large os page now sz layout_align A) (\<lambda>((r, is_fresh), A1).
               case r of
                 None \<Rightarrow> ret (None, A1)
               | Some ptr \<Rightarrow> ret (Some ptr, if is_fresh then A1 else node_zero edge ptr sz A1))))"

subsection \<open>Facts of the bulk stores\<close>

lemma words_touched: "words_in p n \<subseteq> touched p n"
  by (auto simp: words_in_def touched_def)

lemma touched_mono: "n \<le> l \<Longrightarrow> touched p n \<subseteq> touched p l"
  by (auto simp: touched_def)

lemma fill_block_fields [simp]: "core_cache (fill_block edge p n g A) = core_cache A"
  by (simp add: fill_block_def)

lemma fill_word:
  "q \<in> words_in p n \<Longrightarrow> heap_word (core_heap (fill_block edge p n g A)) q = g q"
  "q \<notin> touched p n \<Longrightarrow> heap_word (core_heap (fill_block edge p n g A)) q = heap_word (core_heap A) q"
  using words_touched [of n p] by (auto simp: fill_block_def store_word words_in_def touched_def)

lemma fill_ok:
  assumes inv: "core_inv {} A ps" and u: "(p, l) \<in> in_use A" and n: "n \<le> l"
  shows "core_inv {} (fill_block edge p n g A) ps" "in_use (fill_block edge p n g A) = in_use A"
    "serves (fill_block edge p n g A) q sz al = serves A q sz al"
    "homed (fill_block edge p n g A) q sz al b = homed A q sz al b"
proof -
  let ?g = "\<lambda>q. if q \<in> words_in p n then g q else edge q"
  note st = store_core_ok [OF inv u touched_mono [OF n], of ?g, folded fill_block_def]
  show "core_inv {} (fill_block edge p n g A) ps" by (rule st(1))
  show "in_use (fill_block edge p n g A) = in_use A" using st(2,3) by (simp add: in_use_def)
  have eq: "serves B q sz al" if "serves A' q sz al" "smalls A' = smalls B" "larges A' = larges B" for A' B
    by (rule serves_stays [OF _ _ that(1)]) (simp_all add: that(2,3))
  show sv: "serves (fill_block edge p n g A) q sz al = serves A q sz al"
    using eq [OF _ st(2,3)] eq [OF _ st(2,3) [symmetric]] by blast
  have h: "header_at b (fill_block edge p n g A) = header_at b A" "large_base (fill_block edge p n g A) b = large_base A b"
    unfolding fill_block_def by (rule store_frame)+
  show "homed (fill_block edge p n g A) q sz al b = homed A q sz al b"
    using sv unfolding homed_def serves_def h by (auto split: option.splits sum.splits alloc_kind.splits)
qed

subsection \<open>The segment of a block in use\<close>

lemma homed_found:
  assumes inv: "core_inv E A ps" and al: "is_power_of_two align" and b: "homed A p sz align b"
  shows "canonical_base_of (segment_base_of p) (core_table A) = Some (Some b)"
    "b \<le> p" "p < b + (if kind (header_at b A) = Large then span_usable (header_at b A) else SEGMENT)"
    "(p + 2 ^ 64 - b) mod 2 ^ 64 = p - b" "(kind (header_at b A) = Large) = large_base A b"
proof -
  let ?p = "hpool (core_heap A)" and ?key = "segment_base_of p"
  from core_inv_parts(1) [OF inv] obtain m where tinv: "table_inv (seg_mem ?p) (seg_table ?p) m" by (rule table_of)
  have key: "m k = Some i \<longleftrightarrow> i \<in> live (core_table A) \<and> k = payload_key (seg_mem ?p) (slots (core_table A) ! i)" for k i
    using tinv by (simp add: table_inv_def keys_ok_def core_table_def)
  have found: "lookup (core_table A) m ?key = Some d \<longleftrightarrow> in_table ?p d \<and> payload_key (seg_mem ?p) d = ?key" for d
    unfolding lookup_def map_option_eq_Some key in_table_def core_table_def [symmetric] by auto
  have p: "p \<le> usize_max" by (rule in_use_bounds(1) [OF inv serves_in_use [OF homed_serves [OF b]]])
  have "in_table ?p b \<and> payload_key (seg_mem ?p) b = ?key \<and> b \<le> p
      \<and> p < b + (if kind (header_at b A) = Large then span_usable (header_at b A) else SEGMENT)
      \<and> (kind (header_at b A) = Large) = large_base A b"
    using al b
  proof (cases rule: homed_cases)
    case (small c)
    note sb = heap_block_parts(1) [OF small(7)]
    then have "kind (header_at b A) \<noteq> Large" "in_table ?p b" using small(6) by (simp_all add: small_base_def header_at_def)
    moreover have "payload_key (seg_mem ?p) b = ?key"
      using sb core_inv_parts(1) [OF inv] small(6) by (simp add: heap_inv_def segs_ok_def)
    ultimately show ?thesis using segment_base_le [of p] in_segment [OF p] small(6) by (simp add: large_base_def)
  next
    case large
    note lr = large_region [OF inv large(3)]
    have "in_table ?p b" "kind (header_at b A) = Large" using large(3) by (simp_all add: large_base_def)
    then show ?thesis using lr(2,3) large(3,4) by (simp add: payload_key_def header_at_def)
  qed
  note all = this
  then show le: "b \<le> p" and "(kind (header_at b A) = Large) = large_base A b"
    and "p < b + (if kind (header_at b A) = Large then span_usable (header_at b A) else SEGMENT)" by blast+
  have "lookup (core_table A) m ?key = Some b" unfolding found using all by blast
  then show "canonical_base_of ?key (core_table A) = Some (Some b)"
    using canonical_base_of_ok [OF tinv segment_key_base, of p] by (simp add: core_table_def)
  show "(p + 2 ^ 64 - b) mod 2 ^ 64 = p - b" by (rule wrapped_sub [OF le p])
qed

text \<open>A large block given another size inside its span.\<close>

lemma resize_ok:
  assumes inv: "core_inv E A ps" and b: "large_base A b" and n: "0 < n" "payload_offset (header_at b A) + n \<le> span_usable (header_at b A)"
  defines "A' \<equiv> set_header b (\<lambda>h. h\<lparr>large_size := n\<rparr>) A"
  shows "core_inv E A' ps" "smalls A' = smalls A" "heap_word (core_heap A') = heap_word (core_heap A)"
    "header_at s A' = (if s = b then (header_at b A)\<lparr>large_size := n\<rparr> else header_at s A)" "large_base A' s = large_base A s"
    "larges A' = insert (b + payload_offset (header_at b A), n)
       (larges A - {(b + payload_offset (header_at b A), large_size (header_at b A))})"
proof -
  let ?H = "core_heap A" and ?h = "(header_at b A)\<lparr>large_size := n\<rparr>"
  let ?mem = "(seg_mem (hpool ?H))(b := ?h)" and ?t = "seg_table (hpool ?H)"
  have H': "core_heap A' = retable ?mem ?t ?H" by (simp add: A'_def set_header_def retable_def on_header_def header_at_def)
  have cc: "core_cache A' = core_cache A" by (simp add: A'_def set_header_def)
  have k: "kind (seg_mem (hpool ?H) b) = Large" "in_table (hpool ?H) b" using b by (simp_all add: large_base_def header_at_def)
  from core_inv_parts(1) [OF inv] obtain m where pinv: "pool_inv (hpool ?H) m ps"
    and tinv: "table_inv (seg_mem (hpool ?H)) ?t m" by (rule table_of)
  have env: "env_ok (hpool ?H) m" using pinv by (simp add: pool_inv_def)
  have same: "kind (?mem s) = kind (seg_mem (hpool ?H) s)" "payload_offset (?mem s) = payload_offset (seg_mem (hpool ?H) s)"
    "segment_id (?mem s) = segment_id (seg_mem (hpool ?H) s)" "pool_prev (?mem s) = pool_prev (seg_mem (hpool ?H) s)"
    "span_usable (?mem s) = span_usable (seg_mem (hpool ?H) s)" for s
    by (simp_all add: header_at_def)
  have tinv': "table_inv ?mem ?t m" unfolding table_inv_cong [OF same(1,2)] by (rule tinv)
  have tab: "in_table (hpool (retable ?mem ?t ?H)) s \<longleftrightarrow> in_table (hpool ?H) s" for s by (simp add: in_table_def)
  have sb: "small_base (retable ?mem ?t ?H) s \<longleftrightarrow> small_base ?H s" for s
    unfolding small_base_def tab retable_fields same(1) ..
  have ms: "?mem s = seg_mem (hpool ?H) s" if "small_base ?H s" for s using that k(1) by (auto simp: small_base_def)
  have sl: "small_slots (hpool ?H) \<subseteq> small_slots (hpool (retable ?mem ?t ?H))"
    unfolding small_slots_def retable_fields same(1) by (rule subset_refl)
  have prev: "pool_prev (?mem s) = 0" if "in_table (hpool (retable ?mem ?t ?H)) s" "kind (?mem s) = Large" for s
    using large_pool_prev [OF inv, of s] that unfolding tab same by (simp add: large_base_def header_at_def)
  have ids: "\<forall>j \<in> live ?t. segment_id (?mem (slots ?t ! j)) = j" and z: "0 \<in> live ?t"
    unfolding same(3) using env by (auto simp: env_ok_def)
  have new: "heap_inv (retable ?mem ?t ?H) ps" "heap_blocks (retable ?mem ?t ?H) = heap_blocks ?H"
    "heap_word (retable ?mem ?t ?H) = heap_word ?H"
    using retable_ok [OF core_inv_parts(1) [OF inv] tinv' z refl ids sb ms sl prev] by blast+
  show hdr: "header_at s A' = (if s = b then ?h else header_at s A)" for s by (simp add: header_at_def H')
  show lb: "large_base A' s = large_base A s" for s
    unfolding large_base_def H' tab hdr by (cases "s = b") simp_all
  have "large_sound E A' s" if "large_base A' s" for s
    using core_inv_parts(4) [OF inv, of s] that n unfolding lb large_sound_def hdr cc
    by (cases "s = b") (simp_all add: large_header_ok_def)
  moreover have "cached_sound A' e" if "cached (core_cache A') i e" for i e
  proof -
    have e: "cached_sound A e" using core_inv_parts(5) [OF inv, of i e] that unfolding cc by blast
    then have "cl_base e \<noteq> b" using k(2) by (auto simp: cached_sound_def)
    then show ?thesis using e unfolding cached_sound_def hdr H' tab by simp
  qed
  moreover have span: "seg_span (retable ?mem ?t ?H) c = seg_span ?H c" for c
    unfolding seg_span_def retable_fields same by (rule refl)
  have "region A c l" if "region A' c l" for c l
    using that unfolding region_def cc H' tab span by blast
  then have "regions_apart A'" by (rule regions_apart_shrink [OF core_inv_parts(3) [OF inv]])
  ultimately show "core_inv E A' ps" using inv new(1) by (simp add: core_inv_def H' cc)
  show "smalls A' = smalls A" "heap_word (core_heap A') = heap_word ?H" using new(2,3) by (simp_all add: smalls_def H')
  let ?p = "b + payload_offset (header_at b A)"
  show "larges A' = insert (?p, n) (larges A - {(?p, large_size (header_at b A))})"
  proof (intro set_eqI iffI)
    fix x assume "x \<in> larges A'"
    then obtain s where s: "large_base A s" "x = (s + payload_offset (header_at s A'), large_size (header_at s A'))"
      unfolding larges_def lb by blast
    show "x \<in> insert (?p, n) (larges A - {(?p, large_size (header_at b A))})"
    proof (cases "s = b")
      case True
      then show ?thesis using s(2) hdr by simp
    next
      case False
      then show ?thesis using s hdr larges_differ [OF inv b s(1)] by (auto simp: larges_def)
    qed
  next
    fix x assume x: "x \<in> insert (?p, n) (larges A - {(?p, large_size (header_at b A))})"
    show "x \<in> larges A'"
    proof (cases "x = (?p, n)")
      case True
      then show ?thesis unfolding larges_def lb hdr using b by (intro CollectI exI [of _ b]) simp
    next
      case False
      then obtain s where s: "large_base A s" "x = (s + payload_offset (header_at s A), large_size (header_at s A))"
        and "x \<noteq> (?p, large_size (header_at b A))" using x unfolding larges_def by blast
      then have "s \<noteq> b" by blast
      then show ?thesis using s unfolding larges_def lb hdr by (intro CollectI exI [of _ s]) simp
    qed
  qed
qed

subsection \<open>What a reallocation does to the blocks\<close>

text \<open>Words that lie in a block, as opposed to those that reach over its end.\<close>

definition keeps_inside :: "(nat \<times> nat) set \<Rightarrow> alloc_core \<Rightarrow> alloc_core \<Rightarrow> bool" where
  "keeps_inside S A A' \<longleftrightarrow> (\<forall>a l q. (a, l) \<in> S \<and> q \<in> words_in a l
     \<longrightarrow> heap_word (core_heap A') q = heap_word (core_heap A) q)"

text \<open>The block \<open>x\<close> became \<open>y\<close> with its first \<open>n\<close> bytes; no other block changed.\<close>

definition replaces :: "nat \<times> nat \<Rightarrow> nat \<times> nat \<Rightarrow> nat \<Rightarrow> alloc_core \<Rightarrow> alloc_core \<Rightarrow> bool" where
  "replaces x y n A A' \<longleftrightarrow> in_use A' = insert y (in_use A - {x})
     \<and> (fst y = fst x \<or> (\<forall>k. (fst y, k) \<notin> in_use A))
     \<and> (\<forall>i. i + 8 \<le> n \<longrightarrow> heap_word (core_heap A') (fst y + i) = heap_word (core_heap A) (fst x + i))
     \<and> keeps_inside (in_use A - {x}) A A'
     \<and> (\<forall>s sz al. s \<noteq> fst x \<and> serves A s sz al \<longrightarrow> serves A' s sz al)"

lemma keeps_keeps_inside: "keeps S A A' \<Longrightarrow> T \<subseteq> S \<Longrightarrow> keeps_inside T A A'"
  unfolding keeps_def keeps_inside_def words_in_def by fastforce

lemma keeps_inside_trans: "keeps_inside S A A1 \<Longrightarrow> keeps_inside S A1 A2 \<Longrightarrow> keeps_inside S A A2"
  by (simp add: keeps_inside_def)

lemma replaces_after:
  assumes "gains None A A1" and "replaces x y n A1 A'" and x: "x \<in> in_use A" "n \<le> snd x"
  shows "replaces x y n A A'"
proof -
  have u: "in_use A1 = in_use A" and k: "keeps (in_use A) A A1" using assms(1) by (simp_all add: gains_def)
  have "heap_word (core_heap A1) (fst x + i) = heap_word (core_heap A) (fst x + i)" if "i + 8 \<le> n" for i
  proof -
    have "(fst x, snd x) \<in> in_use A" "fst x \<le> fst x + i" "fst x + i < fst x + snd x" using x that by simp_all
    then show ?thesis using k unfolding keeps_def by blast
  qed
  moreover have "keeps_inside (in_use A - {x}) A A1" by (rule keeps_keeps_inside [OF k]) blast
  moreover have "keeps_inside (in_use A - {x}) A1 A'" using assms(2) by (simp add: replaces_def u)
  ultimately show ?thesis using assms(2) keeps_inside_trans gains_serves [OF assms(1)]
    unfolding replaces_def u by (intro conjI) (blast | simp)+
qed

lemma bytes_enough: "is_power_of_two align \<Longrightarrow> sz \<le> block_bytes sz align"
  by (rule classify_cases [of align "max sz MIN_BLOCK"]) (simp_all add: block_bytes_def ret_def)

subsection \<open>In place\<close>

lemma class_lookup_eq: "is_power_of_two align \<Longrightarrow> class_lookup sz align = ret (class_spec SIZE_CLASS_TABLE sz align)"
  by (simp add: class_lookup_def alloc_class_for_eq)

lemma classify_eq: "is_power_of_two align \<Longrightarrow> classify sz align
   = ret (case class_spec SIZE_CLASS_TABLE sz align of None \<Rightarrow> KindLarge | Some c \<Rightarrow> KindSmall c)"
  by (auto simp: classify_def alloc_class_for_eq split: option.split)

lemma large_stays_large:
  assumes "is_power_of_two align" and "classify sz align = ret KindLarge" and "sz \<le> n"
  shows "classify n align = ret KindLarge"
proof -
  have "class_spec SIZE_CLASS_TABLE sz align = None" using assms(1,2) by (auto simp: classify_eq split: option.splits)
  then have "class_spec SIZE_CLASS_TABLE n align = None" using assms(3) unfolding class_spec_def find_None_iff by fastforce
  then show ?thesis using assms(1) by (simp add: classify_eq)
qed

lemma inplace_ok:
  assumes inv: "core_inv {} A ps" and al: "is_power_of_two align" and b: "homed A p old align b"
  shows "\<exists>r A'. realloc_inplace_fast_path_known_base b p old align new A = ret (r, A') \<and> core_inv {} A' ps
    \<and> (case r of
        None \<Rightarrow> A' = A
      | Some q \<Rightarrow> q = p \<and> replaces (p, block_bytes old align) (p, block_bytes new align) (min old new) A A'
          \<and> serves A' p new align)"
proof -
  note hf = homed_found [OF inv al b]
  note sv = homed_serves [OF b]
  have u: "(p, block_bytes old align) \<in> in_use A" by (rule serves_in_use [OF sv])
  have off: "\<not> (if kind (header_at b A) = Large then span_usable (header_at b A) else SEGMENT) \<le> p - b"
    using hf(2,3) by linarith
  have bp: "b + (p - b) = p" using hf(2) by simp
  show ?thesis using al b
  proof (cases rule: homed_cases)
    case (small c)
    have nl: "kind (header_at b A) \<noteq> Large" using hf(5) small_region(5) [OF inv small(7)] small(6) by simp
    have k: "kind (header_at b A) = Small \<or> kind (header_at b A) = Primordial"
      using heap_inv_seg(2) [OF core_inv_parts(1) [OF inv] heap_block_parts(1) [OF small(7)]] small(6)
      by (auto simp: seg_ok_def segment_at_def header_at_def)
    let ?o = "class_spec SIZE_CLASS_TABLE (max old MIN_BLOCK) align"
    let ?n = "class_spec SIZE_CLASS_TABLE (max new MIN_BLOCK) align"
    have run: "realloc_inplace_fast_path_known_base b p old align new A
        = (if ?o \<noteq> None \<and> ?n = ?o then ret (Some p, A) else ret (None, A))"
      unfolding realloc_inplace_fast_path_known_base_def Let_def hf(1,4) bp option.case
      using k nl off by (simp add: class_lookup_eq [OF al])
    show ?thesis
    proof (cases "?o \<noteq> None \<and> ?n = ?o")
      case True
      then have cn: "classify (max new MIN_BLOCK) align = classify (max old MIN_BLOCK) align" by (simp add: classify_eq [OF al])
      then have "block_bytes new align = block_bytes old align" using small(1) by (simp add: block_bytes_def ret_def)
      moreover have "serves A p new align" using sv small(1) by (simp add: serves_def cn ret_def)
      ultimately show ?thesis unfolding run using True inv u
        by (intro exI [of _ "Some p"] exI [of _ A]) (auto simp: replaces_def keeps_inside_def)
    next
      case False
      then have "realloc_inplace_fast_path_known_base b p old align new A = ret (None, A)" unfolding run by (rule if_not_P)
      then show ?thesis using inv by auto
    qed
  next
    case large
    let ?h = "header_at b A" and ?n = "max new MIN_BLOCK" and ?o = "max old MIN_BLOCK"
    have k: "kind ?h = Large" using large(3) by (simp add: large_base_def)
    note lr = large_region [OF inv large(3)]
    have fit: "b + payload_offset ?h < 2 ^ 64" using lr(2,3,4) by linarith
    let ?A = "set_header b (\<lambda>h. h\<lparr>large_size := ?n\<rparr>) A"
    have run: "realloc_inplace_fast_path_known_base b p old align new A = realloc_large_inplace_known_base b p old new A"
      unfolding realloc_inplace_fast_path_known_base_def Let_def hf(1,4) bp option.case using k off by simp
    show ?thesis
    proof (cases "?o \<le> ?n \<and> payload_offset ?h + ?n < 2 ^ 64 \<and> payload_offset ?h + ?n \<le> span_usable ?h")
      case True
      have run': "realloc_inplace_fast_path_known_base b p old align new A = ret (Some p, ?A)"
        unfolding run realloc_large_inplace_known_base_def Let_def using True large(4) fit by simp
      have "0 < ?n" by (simp add: MIN_BLOCK_def)
      note re = resize_ok [OF inv large(3) this conjunct2 [OF conjunct2 [OF True]]]
      have cl: "classify ?n align = ret KindLarge" by (rule large_stays_large [OF al large(1)]) (use True in simp)
      have bytes: "block_bytes new align = ?n" by (simp add: block_bytes_def cl ret_def)
      have lg: "larges ?A = insert (p, ?n) (larges A - {(p, ?o)})" using re(6) large(4,5) by simp
      have "(p, ?o) \<in> larges A" using large(3-5) by (auto simp: larges_def)
      then have ns: "(p, ?o) \<notin> smalls A" using smalls_not_large [OF inv] by blast
      have iu: "in_use ?A = insert (p, ?n) (in_use A - {(p, ?o)})" using lg re(2) ns by (auto simp: in_use_def)
      have "serves ?A s sz al" if "s \<noteq> p" "serves A s sz al" for s sz al
        by (rule serves_stays [OF _ _ that(2)]) (use that(1) in \<open>simp_all add: re(2) lg\<close>)
      then have "replaces (p, ?o) (p, ?n) (min old new) A ?A"
        unfolding replaces_def iu keeps_inside_def re(3) by simp
      moreover have "serves ?A p new align" by (simp add: serves_def cl ret_def lg)
      ultimately show ?thesis unfolding run' bytes large(2) using re(1)
        by (intro exI [of _ "Some p"] exI [of _ ?A]) simp
    next
      case False
      have "realloc_inplace_fast_path_known_base b p old align new A = ret (None, A)"
        unfolding run realloc_large_inplace_known_base_def Let_def using False large(4) fit by auto
      then show ?thesis using inv by auto
    qed
  qed
qed

subsection \<open>By copy\<close>

lemma fill_keeps:
  assumes g: "gains (Some (q, k)) A A1" and inv1: "core_inv {} A1 ps1" and n: "n \<le> k"
  shows "keeps_inside (in_use A) A (fill_block edge q n f A1)"
  unfolding keeps_inside_def
proof (intro allI impI, elim conjE)
  fix a l w assume a: "(a, l) \<in> in_use A" and w: "w \<in> words_in a l"
  have u: "(q, k) \<in> in_use A1" "(a, l) \<in> in_use A1" "(a, l) \<noteq> (q, k)" and kp: "keeps (in_use A) A A1"
    using g a by (auto simp: gains_def)
  from blocks_apart [OF inv1 u(2,1,3)] have "w \<notin> touched q n"
    using w n by (auto simp: words_in_def touched_def)
  then have "heap_word (core_heap (fill_block edge q n f A1)) w = heap_word (core_heap A1) w" by (rule fill_word(2))
  also have "a \<le> w \<and> w < a + l" using w by (auto simp: words_in_def)
  then have "heap_word (core_heap A1) w = heap_word (core_heap A) w" using kp a unfolding keeps_def by blast
  finally show "heap_word (core_heap (fill_block edge q n f A1)) w = heap_word (core_heap A) w" .
qed

text \<open>A copy into a block just gained.\<close>

lemma copy_ok:
  assumes inv: "core_inv {} A ps" and g: "gains (Some (q, k)) A A1" and inv1: "core_inv {} A1 ps1"
    and x: "(p, m) \<in> in_use A" and n: "n \<le> m" "n \<le> k"
    and A2_def: "A2 = copy_nonoverlapping edge p q n A1"
  shows "core_inv {} A2 ps1" "in_use A2 = insert (q, k) (in_use A)" "keeps_inside (in_use A) A A2" "q \<noteq> p"
    "i + 8 \<le> n \<Longrightarrow> heap_word (core_heap A2) (q + i) = heap_word (core_heap A) (p + i)"
    "serves A2 s sz al = serves A1 s sz al" "homed A2 s sz al b = homed A1 s sz al b" "core_cache A2 = core_cache A1"
proof -
  have u: "in_use A1 = insert (q, k) (in_use A)" and nq: "(q, j) \<notin> in_use A" and kp: "keeps (in_use A) A A1" for j
    using g by (simp_all add: gains_def)
  have q: "(q, k) \<in> in_use A1" by (simp add: u)
  note f = fill_ok [OF inv1 q n(2), of edge "\<lambda>r. heap_word (core_heap A1) (p + (r - q))", folded copy_nonoverlapping_def A2_def]
  show "core_inv {} A2 ps1" "in_use A2 = insert (q, k) (in_use A)" "serves A2 s sz al = serves A1 s sz al"
    "homed A2 s sz al b = homed A1 s sz al b" "core_cache A2 = core_cache A1"
    using f u by (simp_all add: A2_def copy_nonoverlapping_def)
  show "q \<noteq> p" using x nq by blast
  show "heap_word (core_heap A2) (q + i) = heap_word (core_heap A) (p + i)" if i: "i + 8 \<le> n"
  proof -
    have "q + i \<in> words_in q n" using i by (simp add: words_in_def)
    then have "heap_word (core_heap A2) (q + i) = heap_word (core_heap A1) (p + i)"
      by (simp add: A2_def copy_nonoverlapping_def fill_word)
    also have "\<dots> = heap_word (core_heap A) (p + i)"
    proof -
      have "p \<le> p + i" "p + i < p + m" using i n(1) by linarith+
      then show ?thesis using kp x unfolding keeps_def by blast
    qed
    finally show ?thesis .
  qed
  show "keeps_inside (in_use A) A A2"
    unfolding A2_def copy_nonoverlapping_def by (rule fill_keeps [OF g inv1 n(2)])
qed

lemma move_ok:
  assumes inv: "core_inv {} A ps" and os: "fresh_system os" and now: "clock_ok now A" "now \<le> later"
    and sq: "large_cache_seq (core_cache A) < - 1" and rq: "page_ok page" "is_power_of_two align"
    and b: "homed A p old align b"
  shows "\<exists>r A' ps'. realloc_move safe recommit os page now later edge b p old align new A = ret (r, A') \<and> core_inv {} A' ps'
    \<and> (case r of
        None \<Rightarrow> gains None A A' \<and> (\<not> layout_from_size_align new align \<or> core_refuses os page new align A)
      | Some q \<Rightarrow> align dvd q \<and> serves A' q new align
          \<and> replaces (p, block_bytes old align) (q, block_bytes new align) (min old new) A A')"
proof (cases "layout_from_size_align new align")
  case False
  then show ?thesis using inv by (auto simp: realloc_move_def)
next
  case True
  let ?m = "block_bytes old align" and ?k = "block_bytes new align" and ?n = "min old new"
  from core_alloc_ok [OF inv os now(1) rq, of safe recommit new] obtain r A1 ps1 where
    r: "core_alloc safe recommit os page now new align A = ret (r, A1)" "core_inv {} A1 ps1"
      "gains (map_option (\<lambda>p. (p, ?k)) r) A A1" "new \<le> ?k"
      "case r of None \<Rightarrow> core_refuses os page new align A | Some p \<Rightarrow> align dvd p \<and> serves A1 p new align"
      "clock_ok now A1" "large_cache_seq (core_cache A1) = large_cache_seq (core_cache A)"
    by (elim exE conjE) (rule that, assumption+)
  show ?thesis
  proof (cases r)
    case None
    then show ?thesis using r True by (auto simp: realloc_move_def)
  next
    case (Some q)
    have g: "gains (Some (q, ?k)) A A1" and sq1: "serves A1 q new align" "align dvd q" using r(3,5) Some by simp_all
    have x: "(p, ?m) \<in> in_use A" by (rule serves_in_use [OF homed_serves [OF b]])
    have n: "?n \<le> ?m" "?n \<le> ?k" using bytes_enough [OF rq(2), of old] r(4) by simp_all
    let ?A = "copy_nonoverlapping edge p q ?n A1"
    note c = copy_ok [OF inv g r(2) x n refl [of ?A]]
    have "clock_ok later ?A" "large_cache_seq (core_cache ?A) < - 1"
      using r(6,7) now(2) sq unfolding clock_ok_def c(8) by fastforce+
    from dealloc_homed_ok [OF c(1) this rq(2), of p old b safe] homed_gains [OF g b] obtain A' ps' where
      A': "dealloc_at_base safe later p old align b ?A = ret A'" "core_inv {} A' ps'" "loses (p, ?m) ?A A'"
      unfolding c(7) by blast
    have run: "realloc_move safe recommit os page now later edge b p old align new A = ret (Some q, A')"
      using True r(1) Some A'(1) by (simp add: realloc_move_def)
    have u: "in_use A' = insert (q, ?k) (in_use A - {(p, ?m)})" and ks: "keeps (insert (q, ?k) (in_use A - {(p, ?m)})) ?A A'"
    proof -
      have "insert (q, ?k) (in_use A) - {(p, ?m)} = insert (q, ?k) (in_use A - {(p, ?m)})" using c(4) by blast
      then show "in_use A' = insert (q, ?k) (in_use A - {(p, ?m)})" "keeps (insert (q, ?k) (in_use A - {(p, ?m)})) ?A A'"
        using A'(3) unfolding loses_def c(2) by simp_all
    qed
    have "heap_word (core_heap A') (q + i) = heap_word (core_heap A) (p + i)" if i: "i + 8 \<le> ?n" for i
    proof -
      have "q \<le> q + i" "q + i < q + ?k" using i n(2) by linarith+
      then have "heap_word (core_heap A') (q + i) = heap_word (core_heap ?A) (q + i)" using ks unfolding keeps_def by blast
      then show ?thesis using c(5) [OF i] by simp
    qed
    moreover have "keeps_inside (in_use A - {(p, ?m)}) A A'"
    proof (rule keeps_inside_trans)
      show "keeps_inside (in_use A - {(p, ?m)}) A ?A" using c(3) unfolding keeps_inside_def by blast
      show "keeps_inside (in_use A - {(p, ?m)}) ?A A'" by (rule keeps_keeps_inside [OF ks]) blast
    qed
    moreover have "serves A' s sz al" if "s \<noteq> p" "serves A s sz al" for s sz al
      using loses_serves [OF A'(3) that(1)] gains_serves [OF g that(2)] by (simp add: c(6))
    moreover have "serves A' q new align" using loses_serves [OF A'(3) c(4)] sq1(1) by (simp add: c(6))
    moreover have "\<forall>j. (q, j) \<notin> in_use A" using g by (simp add: gains_def)
    ultimately show ?thesis unfolding run using A'(2) u sq1(2)
      by (intro exI [of _ "Some q"] exI [of _ A'] exI [of _ ps']) (simp add: replaces_def)
  qed
qed

lemma core_realloc_ok:
  assumes inv: "core_inv {} A ps" and os: "fresh_system os" and now: "clock_ok now A" "now \<le> later"
    and sq: "large_cache_seq (core_cache A) < - 1" and rq: "page_ok page" "is_power_of_two align"
    and sv: "serves A p old align"
  shows "\<exists>r A' ps'. core_realloc safe recommit os page now later edge p old align new A = ret (r, A') \<and> core_inv {} A' ps'
    \<and> (case r of
        None \<Rightarrow> gains None A A' \<and> (\<not> layout_from_size_align new align \<or> core_refuses os page new align A)
      | Some q \<Rightarrow> (q = p \<or> align dvd q) \<and> serves A' q new align
          \<and> replaces (p, block_bytes old align) (q, block_bytes new align) (min old new) A A')"
proof -
  obtain A1 b where c: "canonical_block_of p A = ret (Some (b, p), A1)" "core_inv {} A1 ps" "settled A A1"
    "core_cache A1 = core_cache A" "homed A1 p old align b" "p \<le> usize_max" "p \<noteq> 0" by (rule find_served [OF inv rq(2) sv]) (rule that)
  note g = settled_gains [OF c(3)]
  have x: "(p, block_bytes old align) \<in> in_use A" by (rule serves_in_use [OF sv])
  have n: "min old new \<le> block_bytes old align" using bytes_enough [OF rq(2), of old] by simp
  note hf = homed_found [OF c(2) rq(2) c(5)]
  have nm: "\<not> large_payload_mismatch b p A1"
    using rq(2) c(5)
  proof (cases rule: homed_cases)
    case (small k)
    then show ?thesis using hf(5) small_region(5) [OF c(2) small(7)] by (simp add: large_payload_mismatch_def)
  next
    case large
    then show ?thesis using c(6) by (simp add: large_payload_mismatch_def large_payload_address_matches_def)
  qed
  have span: "\<not> safe_payload_read_span b p A1 < old"
    using rq(2) c(5)
  proof (cases rule: homed_cases)
    case (small k)
    then show ?thesis using hf(2,5) small_region(4,5) [OF c(2) small(7)]
      unfolding safe_payload_read_span_def Let_def hf(4) small_committed_bound_def by (simp, arith)
  next
    case large
    then show ?thesis using hf(2,5) large_region(3) [OF c(2) large(3)]
      unfolding safe_payload_read_span_def Let_def hf(4) by simp
  qed
  from inplace_ok [OF c(2) rq(2) c(5), of new] obtain r A2 where
    i: "realloc_inplace_fast_path_known_base b p old align new A1 = ret (r, A2)" "core_inv {} A2 ps"
      "case r of
        None \<Rightarrow> A2 = A1
      | Some q \<Rightarrow> q = p \<and> replaces (p, block_bytes old align) (p, block_bytes new align) (min old new) A1 A2
          \<and> serves A2 p new align" by blast
  show ?thesis
  proof (cases r)
    case (Some q)
    then have "core_realloc safe recommit os page now later edge p old align new A = ret (Some p, A2)"
      using c(1,7) nm i(1,3) by (simp add: core_realloc_def)
    then show ?thesis using i(2,3) Some replaces_after [OF g _ x] n by auto
  next
    case None
    then have A2: "A2 = A1" using i(3) by simp
    have run: "core_realloc safe recommit os page now later edge p old align new A
        = realloc_move safe recommit os page now later edge b p old align new A1"
      using c(1,7) nm i(1) None span by (simp add: core_realloc_def A2)
    have "clock_ok now A1" "large_cache_seq (core_cache A1) < - 1" using now sq c(4) by (simp_all add: clock_ok_def)
    from move_ok [OF c(2) os this(1) now(2) this(2) rq c(5), of safe recommit edge new] obtain r' A' ps' where
      m: "realloc_move safe recommit os page now later edge b p old align new A1 = ret (r', A')" "core_inv {} A' ps'"
        "case r' of
        None \<Rightarrow> gains None A1 A' \<and> (\<not> layout_from_size_align new align \<or> core_refuses os page new align A1)
      | Some q \<Rightarrow> align dvd q \<and> serves A' q new align
          \<and> replaces (p, block_bytes old align) (q, block_bytes new align) (min old new) A1 A'" by blast
    have "core_refuses os page new align A" if "core_refuses os page new align A1"
    proof -
      have "shrunk A A1" using c(3) by (simp add: settled_def)
      then show ?thesis using that shrunk_trans unfolding core_refuses_def by blast
    qed
    then show ?thesis unfolding run m(1) using m(2,3) gains_trans [OF g] replaces_after [OF g _ x] n
      by (cases r') auto
  qed
qed

subsection \<open>Zeroed blocks\<close>

lemma zeroing:
  assumes "is_power_of_two align"
    and "core_alloc safe recommit os page now sz align A = ret (r, A1)"
    and "\<And>p. alloc_large os page now (max sz MIN_BLOCK) align A = ret ((Some p, True), A1)
      \<Longrightarrow> zeroed p (max sz MIN_BLOCK) A1"
  obtains "r = None" "alloc_zeroed safe recommit os page now edge sz align A = ret (None, A1)"
  | p A' where "r = Some p" "alloc_zeroed safe recommit os page now edge sz align A = ret (Some p, A')"
    "A' = A1 \<and> zeroed p (max sz MIN_BLOCK) A1 \<or> A' = node_zero edge p (max sz MIN_BLOCK) A1"
  using assms(1)
proof (cases rule: classify_cases [of align "max sz MIN_BLOCK"])
  case (1 c)
  then have "on_heap (alloc_small safe recommit now (small_mapper os A) c) A = ret (r, A1)"
    using assms(2) by (simp add: core_alloc_def)
  then have "alloc_zeroed safe recommit os page now edge sz align A
      = (case r of None \<Rightarrow> ret (None, A1) | Some p \<Rightarrow> ret (Some p, node_zero edge p (max sz MIN_BLOCK) A1))"
    using 1(1) by (simp add: alloc_zeroed_def)
  then show ?thesis using that by (cases r) auto
next
  case 2
  then obtain fresh where l: "alloc_large os page now (max sz MIN_BLOCK) align A = ret ((r, fresh), A1)"
    using assms(2) by (auto simp: core_alloc_def tbind_def ret_def split: option.splits sum.splits)
  then have "alloc_zeroed safe recommit os page now edge sz align A
      = (case r of None \<Rightarrow> ret (None, A1) | Some p \<Rightarrow> ret (Some p, if fresh then A1 else node_zero edge p (max sz MIN_BLOCK) A1))"
    using 2 by (simp add: alloc_zeroed_def)
  then show ?thesis using that l assms(3) by (cases r) auto
qed

lemma alloc_zeroed_ok:
  assumes inv: "core_inv {} A ps" and os: "fresh_system os" and now: "clock_ok now A"
    and rq: "page_ok page" "is_power_of_two align"
  shows "\<exists>r A' ps'. alloc_zeroed safe recommit os page now edge sz align A = ret (r, A') \<and> core_inv {} A' ps'
    \<and> (case r of
        None \<Rightarrow> gains None A A' \<and> core_refuses os page sz align A
      | Some p \<Rightarrow> align dvd p \<and> serves A' p sz align \<and> zeroed p (max sz MIN_BLOCK) A'
          \<and> (\<forall>n. (p, n) \<notin> in_use A) \<and> in_use A' = insert (p, block_bytes sz align) (in_use A)
          \<and> keeps_inside (in_use A) A A' \<and> (\<forall>q s al. serves A q s al \<longrightarrow> serves A' q s al))"
proof -
  let ?n = "max sz MIN_BLOCK" and ?k = "block_bytes sz align"
  from core_alloc_ok [OF inv os now rq, of safe recommit sz] obtain r A1 ps1 where
    r: "core_alloc safe recommit os page now sz align A = ret (r, A1)" "core_inv {} A1 ps1"
      "gains (map_option (\<lambda>p. (p, ?k)) r) A A1"
      "case r of None \<Rightarrow> core_refuses os page sz align A | Some p \<Rightarrow> align dvd p \<and> serves A1 p sz align"
    by (elim exE conjE) (rule that, assumption+)
  have "0 < ?n" by (simp add: MIN_BLOCK_def)
  from alloc_large_ok [OF inv os now rq this]
  have fresh: "zeroed p ?n A1" if "alloc_large os page now ?n align A = ret ((Some p, True), A1)" for p
    using that by auto
  have le: "?n \<le> ?k"
    using rq(2) by (cases rule: classify_cases [of align ?n]) (simp_all add: block_bytes_def ret_def)
  show ?thesis
  proof (cases rule: zeroing [where edge = edge, OF rq(2) r(1)])
    case (1 p)
    then show "zeroed p ?n A1" by (rule fresh)
  next
    case 2
    then show ?thesis using r by auto
  next
    case (3 p A')
    have g: "gains (Some (p, ?k)) A A1" and p: "align dvd p" "serves A1 p sz align" using r(3,4) 3(1) by simp_all
    have u: "in_use A1 = insert (p, ?k) (in_use A)" "\<forall>n. (p, n) \<notin> in_use A" using g by (simp_all add: gains_def)
    then have q: "(p, ?k) \<in> in_use A1" by simp
    note f = fill_ok [OF r(2) q le, of edge "\<lambda>_. 0", folded node_zero_def]
    have "core_inv {} A' ps1 \<and> in_use A' = in_use A1 \<and> (\<forall>q s al. serves A1 q s al \<longrightarrow> serves A' q s al) \<and> zeroed p ?n A'
        \<and> keeps_inside (in_use A) A A'"
      using 3(3)
    proof (elim disjE conjE)
      assume "A' = A1" "zeroed p ?n A1"
      moreover have "keeps (in_use A) A A1" using g by (simp add: gains_def)
      ultimately show ?thesis using r(2) keeps_keeps_inside by blast
    next
      assume A': "A' = node_zero edge p ?n A1"
      have "zeroed p ?n A'" unfolding A' zeroed_def node_zero_def by (simp add: fill_word(1))
      moreover have "keeps_inside (in_use A) A A'" unfolding A' node_zero_def by (rule fill_keeps [OF g r(2) le])
      ultimately show ?thesis using f unfolding A' by blast
    qed
    then show ?thesis using 3(2) u p gains_serves [OF g]
      by (intro exI [of _ "Some p"] exI [of _ A'] exI [of _ ps1]) simp
  qed
qed

end
