(* ===== verification/Config.thy ===== *)
theory Config
  imports SmallHeap LargeCache
begin

text \<open>
  What a heap is configured with: the builders of the large-cache and the small-pool
  configuration and how unset, too small and too large values are resolved
  (\<open>src/alloc_core/config/large_cache_config.rs\<close>, \<open>small_segment_pool_config.rs\<close>,
  \<open>policy/*\<close>).  Sizes are unbounded naturals here: every constant is far below a word, and no
  function of this part adds or multiplies what the caller gave.  Durations count nanoseconds.
\<close>

subsection \<open>The pool of small segments\<close>

record small_segment_pool_config =
  cfg_pool_segments :: "nat option"
  cfg_pool_byte_cap :: "nat option"

definition DEFAULT_POOL_SEGMENTS :: nat where "DEFAULT_POOL_SEGMENTS = 4"
definition DEFAULT_POOL_BYTE_CAP :: nat where "DEFAULT_POOL_BYTE_CAP = 16 * 1024 * 1024"

definition pool_config_new :: small_segment_pool_config where
  "pool_config_new = \<lparr>cfg_pool_segments = None, cfg_pool_byte_cap = None\<rparr>"

definition with_pool_segments :: "nat \<Rightarrow> small_segment_pool_config \<Rightarrow> small_segment_pool_config" where
  "with_pool_segments n cfg = cfg\<lparr>cfg_pool_segments := Some n\<rparr>"

definition with_pool_byte_cap :: "nat \<Rightarrow> small_segment_pool_config \<Rightarrow> small_segment_pool_config" where
  "with_pool_byte_cap bytes cfg = cfg\<lparr>cfg_pool_byte_cap := Some bytes\<rparr>"

definition resolved_pool_segments :: "small_segment_pool_config \<Rightarrow> nat" where
  "resolved_pool_segments cfg = (case cfg_pool_segments cfg of Some v \<Rightarrow> v | None \<Rightarrow> DEFAULT_POOL_SEGMENTS)"

definition resolved_pool_byte_cap :: "small_segment_pool_config \<Rightarrow> nat" where
  "resolved_pool_byte_cap cfg = (case cfg_pool_byte_cap cfg of Some v \<Rightarrow> v | None \<Rightarrow> DEFAULT_POOL_BYTE_CAP)"

subsection \<open>The large cache\<close>

datatype large_cache_mode = Lazy

record large_cache_config =
  cfg_budget_bytes :: "nat option"
  cfg_headroom_bytes :: "nat option"
  cfg_decay_interval_ms :: "nat option"
  cfg_decay_rate_percent :: "nat option"
  cfg_mode :: "large_cache_mode option"
  cfg_pool :: small_segment_pool_config
  cfg_depot_budget_bytes :: "nat option"
  cfg_route_pin_cache_slots :: "nat option"
  cfg_huge_page_after_segments :: "nat option"

definition DEFAULT_HEADROOM_BYTES :: nat where "DEFAULT_HEADROOM_BYTES = 256 * 1024 * 1024"
definition DEFAULT_DECAY_INTERVAL_MS :: nat where "DEFAULT_DECAY_INTERVAL_MS = 1000"
definition DEFAULT_DECAY_RATE_PERCENT :: nat where "DEFAULT_DECAY_RATE_PERCENT = 10"
definition DEFAULT_HUGE_PAGE_AFTER_SEGMENTS :: nat where "DEFAULT_HUGE_PAGE_AFTER_SEGMENTS = 16"
definition HUGE_PAGE_AFTER_SEGMENTS_MAX :: nat where "HUGE_PAGE_AFTER_SEGMENTS_MAX = 2 ^ 32 - 1"
definition DEFAULT_PIN_CACHE_SLOTS :: nat where "DEFAULT_PIN_CACHE_SLOTS = 32"
definition PIN_CACHE_SLOTS_MIN :: nat where "PIN_CACHE_SLOTS_MIN = 4"
definition PIN_CACHE_SLOTS_MAX :: nat where "PIN_CACHE_SLOTS_MAX = 64"
definition DEFAULT_DEPOT_BUDGET_BYTES :: nat where "DEFAULT_DEPOT_BUDGET_BYTES = 1024 * 1024"
definition DEPOT_BUDGET_GRAIN :: nat where "DEPOT_BUDGET_GRAIN = 256"
definition DEPOT_BUDGET_MAX :: nat where "DEPOT_BUDGET_MAX = (2 ^ 16 - 1 - 8) * DEPOT_BUDGET_GRAIN"

definition config_new :: large_cache_config where
  "config_new = \<lparr>cfg_budget_bytes = None, cfg_headroom_bytes = None, cfg_decay_interval_ms = None,
     cfg_decay_rate_percent = None, cfg_mode = None, cfg_pool = pool_config_new,
     cfg_depot_budget_bytes = None, cfg_route_pin_cache_slots = None, cfg_huge_page_after_segments = None\<rparr>"

definition with_headroom_bytes :: "nat \<Rightarrow> large_cache_config \<Rightarrow> large_cache_config" where
  "with_headroom_bytes bytes cfg = cfg\<lparr>cfg_headroom_bytes := Some bytes\<rparr>"

definition with_budget_bytes :: "nat \<Rightarrow> large_cache_config \<Rightarrow> large_cache_config" where
  "with_budget_bytes bytes cfg = cfg\<lparr>cfg_budget_bytes := Some bytes\<rparr>"

definition with_decay_interval_ms :: "nat \<Rightarrow> large_cache_config \<Rightarrow> large_cache_config" where
  "with_decay_interval_ms ms cfg = cfg\<lparr>cfg_decay_interval_ms := Some ms\<rparr>"

definition with_decay_rate_percent :: "nat \<Rightarrow> large_cache_config \<Rightarrow> large_cache_config" where
  "with_decay_rate_percent pct cfg = cfg\<lparr>cfg_decay_rate_percent := Some pct\<rparr>"

definition with_mode :: "large_cache_mode \<Rightarrow> large_cache_config \<Rightarrow> large_cache_config" where
  "with_mode m cfg = cfg\<lparr>cfg_mode := Some m\<rparr>"

definition with_depot_budget_bytes :: "nat \<Rightarrow> large_cache_config \<Rightarrow> large_cache_config" where
  "with_depot_budget_bytes bytes cfg = cfg\<lparr>cfg_depot_budget_bytes := Some bytes\<rparr>"

definition with_route_pin_cache_slots :: "nat \<Rightarrow> large_cache_config \<Rightarrow> large_cache_config" where
  "with_route_pin_cache_slots n cfg = cfg\<lparr>cfg_route_pin_cache_slots := Some n\<rparr>"

definition with_huge_page_after_segments :: "nat \<Rightarrow> large_cache_config \<Rightarrow> large_cache_config" where
  "with_huge_page_after_segments segments cfg = cfg\<lparr>cfg_huge_page_after_segments := Some segments\<rparr>"

definition with_pool :: "small_segment_pool_config \<Rightarrow> large_cache_config \<Rightarrow> large_cache_config" where
  "with_pool pool cfg = cfg\<lparr>cfg_pool := pool\<rparr>"

definition leading_zeros :: "nat \<Rightarrow> nat" where
  "leading_zeros n = length (takeWhile (\<lambda>i. \<not> bit n i) (rev [0..<64]))"

definition resolved_route_pin_cache_slots :: "large_cache_config \<Rightarrow> nat" where
  "resolved_route_pin_cache_slots cfg =
     (let n = (case cfg_route_pin_cache_slots cfg of Some v \<Rightarrow> v | None \<Rightarrow> DEFAULT_PIN_CACHE_SLOTS);
          n' = (if n < PIN_CACHE_SLOTS_MIN then PIN_CACHE_SLOTS_MIN
                else if PIN_CACHE_SLOTS_MAX < n then PIN_CACHE_SLOTS_MAX else n)
      in push_bit (64 - 1 - leading_zeros n') 1)"

definition resolved_huge_page_after_segments :: "large_cache_config \<Rightarrow> nat" where
  "resolved_huge_page_after_segments cfg =
     (let n = (case cfg_huge_page_after_segments cfg of Some v \<Rightarrow> v | None \<Rightarrow> DEFAULT_HUGE_PAGE_AFTER_SEGMENTS)
      in if HUGE_PAGE_AFTER_SEGMENTS_MAX < n then 0 else n)"

definition resolved_depot_budget_bytes :: "large_cache_config \<Rightarrow> nat" where
  "resolved_depot_budget_bytes cfg =
     (let b = (case cfg_depot_budget_bytes cfg of Some v \<Rightarrow> v | None \<Rightarrow> DEFAULT_DEPOT_BUDGET_BYTES);
          b' = (if DEPOT_BUDGET_MAX < b then DEPOT_BUDGET_MAX else b)
      in b' div DEPOT_BUDGET_GRAIN * DEPOT_BUDGET_GRAIN)"

definition resolved_budget_bytes :: "large_cache_config \<Rightarrow> nat option" where
  "resolved_budget_bytes cfg = cfg_budget_bytes cfg"

definition resolved_headroom_bytes :: "large_cache_config \<Rightarrow> nat" where
  "resolved_headroom_bytes cfg = (case cfg_headroom_bytes cfg of Some v \<Rightarrow> v | None \<Rightarrow> DEFAULT_HEADROOM_BYTES)"

definition resolved_decay_interval :: "large_cache_config \<Rightarrow> nat" where
  "resolved_decay_interval cfg =
     (let ms = (case cfg_decay_interval_ms cfg of Some v \<Rightarrow> v | None \<Rightarrow> DEFAULT_DECAY_INTERVAL_MS) in ms * 1000000)"

definition resolved_decay_rate_bp :: "large_cache_config \<Rightarrow> nat" where
  "resolved_decay_rate_bp cfg =
     (let pct = (case cfg_decay_rate_percent cfg of Some p \<Rightarrow> p | None \<Rightarrow> DEFAULT_DECAY_RATE_PERCENT);
          clamped = (if pct < 1 then 1 else if 100 < pct then 100 else pct)
      in clamped * 100)"

definition resolved_mode :: "large_cache_config \<Rightarrow> large_cache_mode" where
  "resolved_mode cfg = (case cfg_mode cfg of Some m \<Rightarrow> m | None \<Rightarrow> Lazy)"

definition decay_from_config :: "large_cache_config \<Rightarrow> decay_config" where
  "decay_from_config cfg = \<lparr>decay_rate_bp = resolved_decay_rate_bp cfg,
     decay_interval = resolved_decay_interval cfg, headroom_bytes = resolved_headroom_bytes cfg\<rparr>"

definition resolved_pool_cap :: "large_cache_config \<Rightarrow> nat" where
  "resolved_pool_cap cfg = resolve_pool_cap_u32 (resolved_pool_segments (cfg_pool cfg))
     (resolved_pool_byte_cap (cfg_pool cfg) div SEGMENT)"

subsection \<open>Profiles\<close>

datatype large_cache_policy = LowHeadroom | Trimmed64MiB | LargeDefault | DiverseTurnover
datatype small_pool_policy = PoolDefault | Throughput

record profile =
  small_pool_of :: small_pool_policy
  large_cache_of :: large_cache_policy

definition profile_pool_segments :: "profile \<Rightarrow> nat" where
  "profile_pool_segments p = (case small_pool_of p of PoolDefault \<Rightarrow> DEFAULT_POOL_SEGMENTS | Throughput \<Rightarrow> 8)"

definition profile_pool_byte_cap :: "profile \<Rightarrow> nat" where
  "profile_pool_byte_cap p =
     (case small_pool_of p of PoolDefault \<Rightarrow> DEFAULT_POOL_BYTE_CAP | Throughput \<Rightarrow> 32 * 1024 * 1024)"

definition profile_headroom_bytes :: "profile \<Rightarrow> nat" where
  "profile_headroom_bytes p =
     (case large_cache_of p of
        LowHeadroom \<Rightarrow> 16 * 1024 * 1024
      | Trimmed64MiB \<Rightarrow> 64 * 1024 * 1024
      | LargeDefault \<Rightarrow> DEFAULT_HEADROOM_BYTES
      | DiverseTurnover \<Rightarrow> DEFAULT_HEADROOM_BYTES)"

definition to_config :: "profile \<Rightarrow> large_cache_config" where
  "to_config p = with_pool (with_pool_byte_cap (profile_pool_byte_cap p)
       (with_pool_segments (profile_pool_segments p) pool_config_new))
     (with_headroom_bytes (profile_headroom_bytes p) config_new)"

subsection \<open>Properties\<close>

text \<open>The leading zeros of a number between two powers of two.\<close>

lemma leading_zeros_between:
  assumes "2 ^ k \<le> n" and "n < 2 ^ Suc k" and "k < 64"
  shows "leading_zeros n = 63 - k"
proof -
  have high: "\<not> bit n i" if "k < i" for i
  proof -
    have "(2 :: nat) ^ Suc k \<le> 2 ^ i" using that by (intro power_increasing) simp_all
    then have "n < 2 ^ i" using assms(2) by simp
    then show ?thesis by (simp add: bit_iff_odd)
  qed
  have "n div 2 ^ k = 1"
    by (rule div_nat_eqI) (use assms(1,2) in simp_all)
  then have "bit n k" by (simp add: bit_iff_odd)
  moreover have "rev [0..<64] = rev [Suc k..<64] @ k # rev [0..<k]"
  proof -
    have "[0..<64] = [0..<k] @ [k..<64]" using upt_add_eq_append [of 0 k "64 - k"] assms(3) by simp
    also have "[k..<64] = k # [Suc k..<64]" using assms(3) by (rule upt_conv_Cons)
    finally show ?thesis by simp
  qed
  ultimately show ?thesis using high unfolding leading_zeros_def by (simp add: takeWhile_append)
qed

lemma pin_slots:
  assumes "4 \<le> n" and "n \<le> 64"
  shows "\<exists>k \<in> {2..6}. push_bit (64 - 1 - leading_zeros n) (1 :: nat) = 2 ^ k \<and> 2 ^ k \<le> n \<and> n < 2 ^ Suc k"
proof -
  have "\<exists>k \<in> {2..6}. 2 ^ k \<le> n \<and> n < 2 ^ Suc k"
  proof -
    consider "n < 8" | "8 \<le> n" "n < 16" | "16 \<le> n" "n < 32" | "32 \<le> n" "n < 64" | "n = 64" using assms(2) by linarith
    then show ?thesis
    proof cases
      case 1 then show ?thesis using assms(1) by (intro bexI [of _ 2]) simp_all
    next
      case 2 then show ?thesis by (intro bexI [of _ 3]) simp_all
    next
      case 3 then show ?thesis by (intro bexI [of _ 4]) simp_all
    next
      case 4 then show ?thesis by (intro bexI [of _ 5]) simp_all
    next
      case 5 then show ?thesis by (intro bexI [of _ 6]) simp_all
    qed
  qed
  then obtain k where k: "k \<in> {2..6}" "2 ^ k \<le> n" "n < 2 ^ Suc k" by blast
  have "leading_zeros n = 63 - k" using leading_zeros_between [OF k(2,3)] k(1) by simp
  then have "64 - 1 - leading_zeros n = k" using k(1) by simp
  then show ?thesis using k by (intro bexI [of _ k]) (simp_all add: push_bit_eq_mult)
qed

text \<open>C25: Whatever the caller configures, the resolved values are within their bounds: the pin cache has the
  largest power of two of slots, 4 to 64, that the request (or its nearest admissible value) holds;
  the depot budget is a multiple of its grain below the ceiling, less than a grain short of the
  request; the decay rate is between 1 and 100 percent; the huge-page threshold fits 32 bits.\<close>

theorem config_resolution_bounds:
  defines "pins cfg \<equiv> resolved_route_pin_cache_slots cfg" and "parked cfg \<equiv> resolved_depot_budget_bytes cfg"
  shows "(\<exists>k \<in> {2..6}. pins cfg = 2 ^ k)
    \<and> (\<forall>v. cfg_route_pin_cache_slots cfg = Some v \<longrightarrow>
        pins cfg \<le> max PIN_CACHE_SLOTS_MIN (min PIN_CACHE_SLOTS_MAX v)
        \<and> max PIN_CACHE_SLOTS_MIN (min PIN_CACHE_SLOTS_MAX v) < 2 * pins cfg)
    \<and> parked cfg \<le> DEPOT_BUDGET_MAX \<and> DEPOT_BUDGET_GRAIN dvd parked cfg
    \<and> (\<forall>v. cfg_depot_budget_bytes cfg = Some v \<longrightarrow>
        parked cfg \<le> v \<and> min v DEPOT_BUDGET_MAX < parked cfg + DEPOT_BUDGET_GRAIN)
    \<and> resolved_decay_rate_bp cfg \<in> {100..10000}
    \<and> resolved_huge_page_after_segments cfg \<le> 2 ^ 32 - 1"
proof -
  let ?n = "case cfg_route_pin_cache_slots cfg of Some v \<Rightarrow> v | None \<Rightarrow> DEFAULT_PIN_CACHE_SLOTS"
  let ?m = "max PIN_CACHE_SLOTS_MIN (min PIN_CACHE_SLOTS_MAX ?n)"
  have m: "(if ?n < PIN_CACHE_SLOTS_MIN then PIN_CACHE_SLOTS_MIN
      else if PIN_CACHE_SLOTS_MAX < ?n then PIN_CACHE_SLOTS_MAX else ?n) = ?m"
    by (auto simp: PIN_CACHE_SLOTS_MIN_def PIN_CACHE_SLOTS_MAX_def)
  have "4 \<le> ?m" "?m \<le> 64" by (auto simp: PIN_CACHE_SLOTS_MIN_def PIN_CACHE_SLOTS_MAX_def)
  from pin_slots [OF this] obtain k where
    k: "k \<in> {2..6}" "pins cfg = 2 ^ k" "2 ^ k \<le> ?m" "?m < 2 ^ Suc k"
    unfolding pins_def resolved_route_pin_cache_slots_def Let_def m by blast
  have g: "b div DEPOT_BUDGET_GRAIN * DEPOT_BUDGET_GRAIN \<le> b"
    "b < b div DEPOT_BUDGET_GRAIN * DEPOT_BUDGET_GRAIN + DEPOT_BUDGET_GRAIN" for b
    by (simp_all add: DEPOT_BUDGET_GRAIN_def)
  have "parked cfg \<le> DEPOT_BUDGET_MAX" unfolding parked_def resolved_depot_budget_bytes_def Let_def
    by (rule order.trans [OF g(1)]) simp
  moreover have "DEPOT_BUDGET_GRAIN dvd parked cfg" by (simp add: parked_def resolved_depot_budget_bytes_def Let_def)
  moreover have "parked cfg \<le> v \<and> min v DEPOT_BUDGET_MAX < parked cfg + DEPOT_BUDGET_GRAIN"
    if "cfg_depot_budget_bytes cfg = Some v" for v
  proof -
    have "parked cfg = min v DEPOT_BUDGET_MAX div DEPOT_BUDGET_GRAIN * DEPOT_BUDGET_GRAIN"
      using that by (simp add: parked_def resolved_depot_budget_bytes_def Let_def min_def)
    then show ?thesis using g [of "min v DEPOT_BUDGET_MAX"] by simp
  qed
  moreover have "resolved_decay_rate_bp cfg \<in> {100..10000}"
    by (simp add: resolved_decay_rate_bp_def Let_def)
  moreover have "resolved_huge_page_after_segments cfg \<le> 2 ^ 32 - 1"
    by (simp add: resolved_huge_page_after_segments_def Let_def HUGE_PAGE_AFTER_SEGMENTS_MAX_def)
  ultimately show ?thesis using k by auto
qed

lemma config_resolution_bounds_witness:
  "resolved_route_pin_cache_slots (with_route_pin_cache_slots 33 config_new) \<le> 33
    \<and> resolved_depot_budget_bytes (with_depot_budget_bytes 1000 config_new) \<le> 1000"
  using config_resolution_bounds [of "with_route_pin_cache_slots 33 config_new"]
    config_resolution_bounds [of "with_depot_budget_bytes 1000 config_new"]
  by (simp add: PIN_CACHE_SLOTS_MIN_def PIN_CACHE_SLOTS_MAX_def with_route_pin_cache_slots_def with_depot_budget_bytes_def)

end
