(* ===== verification/CoreLife.thy ===== *)
theory CoreLife
  imports Realloc Config
begin

text \<open>
  The life of an allocator instance: a new one, the transition system of its callers, and the
  properties that span its components
  (\<open>src/alloc_core/alloc_core/state.rs\<close>, \<open>lifecycle.rs\<close>, \<open>mem/mem_impl.rs\<close>).
\<close>

subsection \<open>A new instance\<close>

text \<open>
  \<open>new_with_config\<close>: the heap of the defaults, then the configured budget, decay and pool
  capacity.  State words and remote heads live in memory not yet mapped; \<open>words\<close> and \<open>heads\<close> are
  what it holds.
\<close>

definition new_with_config ::
    "large_cache_config \<Rightarrow> nat \<Rightarrow> (nat \<Rightarrow> segment_header) \<Rightarrow> (nat \<Rightarrow> u64) \<Rightarrow> (nat \<Rightarrow> u32) \<Rightarrow> nat \<Rightarrow> nat \<Rightarrow> nat
      \<Rightarrow> fatal + alloc_core" where
  "new_with_config config interval mem words heads base res res_len =
     rbind (new_inner DEFAULT_POOL_SEGMENTS (DEFAULT_POOL_BYTE_CAP div SEGMENT) interval mem base res res_len) (\<lambda>H.
       Inr \<lparr>core_heap = H\<lparr>hpool := (hpool H)\<lparr>pool_cap := resolved_pool_cap config\<rparr>\<rparr>,
         core_cache = \<lparr>large_cache = (\<lambda>_. None), large_cache_occupied = 0,
           large_cache_budget_bytes = resolved_budget_bytes config, large_cache_used_bytes = 0, large_cache_seq = 0,
           decay_settings = decay_from_config config, last_decay_tick = None, large_cache_decay_op_count = 0,
           state_word = words, os_released = []\<rparr>,
         core_heads = heads\<rparr>)"

lemma empty_cache:
  assumes "large_cache c = (\<lambda>_. None)" and "large_cache_occupied c = 0" and "large_cache_used_bytes c = 0"
  shows "cache_inv c" "\<not> cached c i e"
proof -
  show n: "\<not> cached c i e" for i e using assms(1) by (simp add: cached_def)
  show "cache_inv c" using assms n by (simp add: cache_inv_def entries_ok_def slot_sum_def)
qed

lemma pool_cap_ok:
  assumes "pool_inv p m []" and "cap < 2 ^ 32"
  shows "pool_inv (p\<lparr>pool_cap := cap\<rparr>) m []"
proof -
  have "in_table (p\<lparr>pool_cap := cap\<rparr>) = in_table p" by (simp add: fun_eq_iff in_table_def)
  then show ?thesis using assms by (simp add: pool_inv_def env_ok_def small_slots_def pool_list_def)
qed

lemma new_core_ok:
  assumes b: "segment_key base" "base \<noteq> 0"
  shows "\<exists>A. new_with_config config interval mem words heads base res res_len = Inr A \<and> core_inv {} A []
    \<and> in_use A = {} \<and> live (core_table A) = {0} \<and> (\<forall>s. in_table (hpool (core_heap A)) s \<longrightarrow> s = base)
    \<and> (\<forall>i e. \<not> cached (core_cache A) i e) \<and> last_decay_tick (core_cache A) = None \<and> large_cache_seq (core_cache A) = 0"
proof -
  from new_inner_ok [OF b, of DEFAULT_POOL_SEGMENTS "DEFAULT_POOL_BYTE_CAP div SEGMENT" interval mem res res_len] obtain H where
    H: "new_inner DEFAULT_POOL_SEGMENTS (DEFAULT_POOL_BYTE_CAP div SEGMENT) interval mem base res res_len = Inr H"
      "heap_inv H []" "heap_blocks H = (\<lambda>a. None)" "live (seg_table (hpool H)) = {0}" "\<forall>b. in_table (hpool H) b \<longrightarrow> b = base"
    by blast
  let ?K = "H\<lparr>hpool := (hpool H)\<lparr>pool_cap := resolved_pool_cap config\<rparr>\<rparr>"
  obtain A where run: "new_with_config config interval mem words heads base res res_len = Inr A"
    and A: "core_heap A = ?K" "large_cache (core_cache A) = (\<lambda>_. None)" "large_cache_occupied (core_cache A) = 0"
      "large_cache_used_bytes (core_cache A) = 0" "last_decay_tick (core_cache A) = None" "large_cache_seq (core_cache A) = 0"
    unfolding new_with_config_def H(1) by simp
  have tab: "in_table (hpool ?K) = in_table (hpool H)" by (simp add: fun_eq_iff in_table_def)
  have sb: "small_base ?K = small_base H" unfolding fun_eq_iff small_base_def tab by simp
  have seg: "segment_at d ?K = segment_at d H" for d by (simp add: segment_at_def)
  from H(2) obtain m where pinv: "pool_inv (hpool H) m []" by (rule table_of)
  have "resolved_pool_cap config < 2 ^ 32" by (simp add: resolved_pool_cap_def resolve_pool_cap_u32_def)
  from pool_cap_ok [OF pinv this] have "pool_inv (hpool ?K) m []" by simp
  moreover have "segs_ok ?K" using H(2) unfolding heap_inv_def segs_ok_def sb seg by simp
  ultimately have K: "heap_inv ?K []" by (auto simp: heap_inv_def)
  have "in_table (hpool H) (small_cur (hpool H))" "small_base H (small_cur (hpool H))"
    using cur_not_pooled(2) [OF H(2)] by (simp_all add: small_base_def)
  then have "small_base ?K base" using H(5) sb by metis
  then have nl: "\<not> large_base A s" for s
    using H(5) unfolding large_base_def header_at_def A(1) tab by (auto simp: small_base_def)
  note c = empty_cache [OF A(2-4)]
  have "regions_apart A" unfolding regions_apart_def region_def A(1) tab using H(5) c(2) by blast
  then have inv: "core_inv {} A []" using K c nl by (simp add: core_inv_def A(1))
  have "heap_blocks ?K = heap_blocks H" unfolding fun_eq_iff heap_blocks_def sb seg by simp
  then have "in_use A = {}" using H(3) nl by (simp add: in_use_def smalls_def larges_def A(1))
  moreover have "live (core_table A) = {0}" using H(4) by (simp add: core_table_def A(1))
  moreover have "\<forall>s. in_table (hpool (core_heap A)) s \<longrightarrow> s = base" unfolding A(1) tab by (rule H(5))
  ultimately show ?thesis using run inv c(2) A(5,6) by blast
qed

subsection \<open>The instance in use\<close>

text \<open>
  The program: allocations, zeroed or not, and frees of any layout at any address, reallocations
  of blocks in use with their layout, at any later reading of the clock and with any answers of the
  system, and stores of the callers into the blocks they have.
  The sequence number of the cache is a 64-bit word; a run ends before 2 ^ 64 - 1 deposits.
\<close>

definition core_start :: "alloc_core \<Rightarrow> bool" where
  "core_start A \<longleftrightarrow> (\<exists>config interval mem words heads base res res_len. segment_key base \<and> base \<noteq> 0
     \<and> new_with_config config interval mem words heads base res res_len = Inr A)"

inductive core_step :: "bool \<Rightarrow> alloc_core \<Rightarrow> alloc_core \<Rightarrow> bool" for safe_mode :: bool where
  core_step_alloc: "fresh_system os \<Longrightarrow> page_ok page \<Longrightarrow> clock_ok now A \<Longrightarrow> is_power_of_two align
    \<Longrightarrow> core_alloc safe_mode recommit os page now sz align A = ret (r, A') \<Longrightarrow> core_step safe_mode A A'"
| core_step_dealloc: "ptr \<le> usize_max \<Longrightarrow> clock_ok now A \<Longrightarrow> is_power_of_two align
    \<Longrightarrow> large_cache_seq (core_cache A) < - 1
    \<Longrightarrow> core_dealloc safe_mode now ptr sz align A = ret A' \<Longrightarrow> core_step safe_mode A A'"
| core_step_realloc: "fresh_system os \<Longrightarrow> page_ok page \<Longrightarrow> clock_ok now A \<Longrightarrow> now \<le> later \<Longrightarrow> is_power_of_two align
    \<Longrightarrow> large_cache_seq (core_cache A) < - 1 \<Longrightarrow> serves A ptr old align
    \<Longrightarrow> core_realloc safe_mode recommit os page now later edge ptr old align new A = ret (r, A') \<Longrightarrow> core_step safe_mode A A'"
| core_step_zeroed: "fresh_system os \<Longrightarrow> page_ok page \<Longrightarrow> clock_ok now A \<Longrightarrow> is_power_of_two align
    \<Longrightarrow> alloc_zeroed safe_mode recommit os page now edge sz align A = ret (r, A') \<Longrightarrow> core_step safe_mode A A'"
| core_step_store: "(p, n) \<in> in_use A
    \<Longrightarrow> core_step safe_mode A (A\<lparr>core_heap := store_words (touched p n) g (core_heap A)\<rparr>)"

definition core_good :: "alloc_core \<Rightarrow> bool" where "core_good A \<longleftrightarrow> (\<exists>ps. core_inv {} A ps)"

lemma core_step_good: "core_good A \<Longrightarrow> core_step safe_mode A A' \<Longrightarrow> core_good A'"
proof -
  assume "core_good A"
  then obtain ps where inv: "core_inv {} A ps" by (auto simp: core_good_def)
  assume "core_step safe_mode A A'"
  then show "core_good A'"
  proof cases
    case (core_step_alloc os page now align recommit sz r)
    from core_alloc_ok [OF inv core_step_alloc(1,3,2,4), of safe_mode recommit sz] core_step_alloc(5)
    show ?thesis by (auto simp: core_good_def)
  next
    case (core_step_dealloc ptr now align sz)
    from core_dealloc_frees [OF inv core_step_dealloc(2,4,3,1), of safe_mode sz] core_step_dealloc(5)
    show ?thesis by (auto simp: core_good_def frees_def ret_def abort_def)
  next
    case (core_step_realloc os page now later align ptr old recommit edge new r)
    from core_realloc_ok [OF inv core_step_realloc(1,3,4,6,2,5,7), of safe_mode recommit edge new] core_step_realloc(8)
    show ?thesis by (auto simp: core_good_def)
  next
    case (core_step_zeroed os page now align recommit edge sz r)
    from alloc_zeroed_ok [OF inv core_step_zeroed(1,3,2,4), of safe_mode recommit edge sz] core_step_zeroed(5)
    show ?thesis by (auto simp: core_good_def)
  next
    case (core_step_store p n g)
    from store_core_ok(1) [OF inv core_step_store(2) subset_refl] core_step_store(1) show ?thesis by (auto simp: core_good_def)
  qed
qed

interpretation core_life: transition_system core_start "core_step safe_mode" core_good
proof
  show "core_good A" if "core_start A" for A
  proof -
    from that obtain config interval mem words heads base res res_len where s: "segment_key base" "base \<noteq> 0"
      "new_with_config config interval mem words heads base res res_len = Inr A" unfolding core_start_def by blast
    from new_core_ok [OF s(1,2), of config interval mem words heads res res_len] s(3) show ?thesis
      by (auto simp: core_good_def)
  qed
qed (rule core_step_good)

lemma core_reachable_inv:
  assumes "reachable core_start (core_step safe_mode) A"
  obtains ps where "core_inv {} A ps"
  using core_life.reachable_good [OF assms] by (auto simp: core_good_def)

subsection \<open>Properties\<close>

lemma block_within:
  assumes inv: "core_inv E A ps" and u: "(a, n) \<in> in_use A"
  shows "0 < a \<and> 0 < n \<and> a + n \<le> 2 ^ 64"
proof -
  from block_region [OF inv u] obtain b l where b: "region A b l" "a + n \<le> b + l" "0 < n" by blast
  have "b + l \<le> 2 ^ 64" using b(1) unfolding region_def
  proof (elim disjE exE conjE)
    assume t: "in_table (hpool (core_heap A)) b" and l: "l = seg_span (core_heap A) b"
    show ?thesis
    proof (cases "large_base A b")
      case True
      then show ?thesis using large_region(4) [OF inv True] l by (simp add: seg_span_def large_base_def header_at_def)
    next
      case False
      then have "small_base (core_heap A) b" using t by (simp add: small_base_def large_base_def header_at_def)
      then show ?thesis using heap_inv_seg(1) [OF core_inv_parts(1) [OF inv]] False l t
        by (simp add: seg_span_def based_def large_base_def header_at_def)
    qed
  next
    fix i e assume "cached (core_cache A) i e" "b = cl_base e" "l = cl_usable_size e"
    then show ?thesis using core_inv_parts(5) [OF inv, of i e] by (simp add: cached_sound_def)
  qed
  then show ?thesis using b in_use_bounds(2) [OF inv u] by linarith
qed

text \<open>C2: Whatever sequence of allocations, frees (of any address with any layout) and stores the program runs,
  and whatever the system answers, the blocks in use, small and large, lie in the address space and no
  two of them overlap.\<close>

theorem core_blocks_disjoint:
  assumes "reachable core_start (core_step safe_mode) A" and "(a, n) \<in> in_use A"
  shows "0 < a \<and> 0 < n \<and> a + n \<le> 2 ^ 64
    \<and> (\<forall>a' n'. (a', n') \<in> in_use A \<and> (a', n') \<noteq> (a, n) \<longrightarrow> a + n \<le> a' \<or> a' + n' \<le> a)"
proof -
  from assms(1) obtain ps where inv: "core_inv {} A ps" by (rule core_reachable_inv)
  show ?thesis using block_within [OF inv assms(2)] blocks_apart [OF inv assms(2)] by metis
qed


text \<open>C3: A free with the layout of the allocation always returns and removes exactly that block, be it
  small or large and whether its segment is kept, pooled, cached or given back; every other block
  stays in use, with its contents and its layout.\<close>

theorem core_free_exact:
  assumes "reachable core_start (core_step safe_mode) A" and "clock_ok now A"
    and "large_cache_seq (core_cache A) < - 1" and "is_power_of_two align" and "serves A p sz align"
  shows "\<exists>A'. core_dealloc safe_mode now p sz align A = ret A'
    \<and> in_use A' = in_use A - {(p, block_bytes sz align)} \<and> keeps (in_use A') A A'
    \<and> (\<forall>q s al. q \<noteq> p \<and> serves A q s al \<longrightarrow> serves A' q s al)"
proof -
  from assms(1) obtain ps where inv: "core_inv {} A ps" by (rule core_reachable_inv)
  from core_dealloc_ok [OF inv assms(2-5), of safe_mode] obtain A' where
    A': "core_dealloc safe_mode now p sz align A = ret A'" "loses (p, block_bytes sz align) A A'" by blast
  have u: "in_use A' = in_use A - {(p, block_bytes sz align)}" using A'(2) by (simp add: loses_def)
  moreover have "keeps (in_use A') A A'" unfolding u using A'(2) by (simp add: loses_def)
  moreover have "\<forall>q s al. q \<noteq> p \<and> serves A q s al \<longrightarrow> serves A' q s al" using loses_serves [OF A'(2)] by blast
  ultimately show ?thesis using A'(1) by blast
qed

text \<open>C4: A free of an address at which no block in use starts (null, foreign, interior, freed before) changes
  no block: in safe mode it returns, otherwise it may stop the process.\<close>

theorem core_free_misuse:
  assumes "reachable core_start (core_step safe_mode) A" and "clock_ok now A"
    and "large_cache_seq (core_cache A) < - 1" and "is_power_of_two align" and "p \<le> usize_max"
    and "\<forall>n. (p, n) \<notin> in_use A"
  shows "(\<exists>A'. core_dealloc safe_mode now p sz align A = ret A' \<and> in_use A' = in_use A \<and> keeps (in_use A) A A')
    \<or> \<not> safe_mode \<and> (\<exists>e. core_dealloc safe_mode now p sz align A = abort e)"
proof -
  from assms(1) obtain ps where inv: "core_inv {} A ps" by (rule core_reachable_inv)
  from core_dealloc_frees [OF inv assms(2-5), of safe_mode sz] assms(6) show ?thesis
    unfolding frees_def gains_def by (auto simp: option.case_eq_if)
qed


text \<open>C6: A zeroed allocation returns a block that serves the layout and whose first \<open>max sz MIN_BLOCK\<close>
  bytes, all that were asked for and at least 16, are zero, be its memory carved, freed before, taken from
  the cache or new from the system (what rounding up to a class adds behind them may keep old data); no
  other block changed.  It returns none only if the table is full, the system
  refuses, or no span can hold the request.\<close>

theorem alloc_zeroed_exact:
  assumes "reachable core_start (core_step safe_mode) A" and "fresh_system os" and "clock_ok now A"
    and "page_ok page" and "is_power_of_two align"
  shows "\<exists>r A'. alloc_zeroed safe_mode recommit os page now edge sz align A = ret (r, A')
    \<and> (case r of
         None \<Rightarrow> in_use A' = in_use A \<and> keeps (in_use A) A A' \<and> core_refuses os page sz align A
       | Some p \<Rightarrow> align dvd p \<and> serves A' p sz align \<and> (\<forall>n. (p, n) \<notin> in_use A)
           \<and> in_use A' = insert (p, block_bytes sz align) (in_use A)
           \<and> (\<forall>q. p \<le> q \<and> q + 8 \<le> p + max sz MIN_BLOCK \<longrightarrow> heap_word (core_heap A') q = 0)
           \<and> keeps_inside (in_use A) A A' \<and> (\<forall>q s al. serves A q s al \<longrightarrow> serves A' q s al))"
proof -
  from assms(1) obtain ps where inv: "core_inv {} A ps" by (rule core_reachable_inv)
  from alloc_zeroed_ok [OF inv assms(2-5), of safe_mode recommit edge sz] obtain r A' where
    r: "alloc_zeroed safe_mode recommit os page now edge sz align A = ret (r, A')"
      "case r of
        None \<Rightarrow> gains None A A' \<and> core_refuses os page sz align A
      | Some p \<Rightarrow> align dvd p \<and> serves A' p sz align \<and> zeroed p (max sz MIN_BLOCK) A'
          \<and> (\<forall>n. (p, n) \<notin> in_use A) \<and> in_use A' = insert (p, block_bytes sz align) (in_use A)
          \<and> keeps_inside (in_use A) A A' \<and> (\<forall>q s al. serves A q s al \<longrightarrow> serves A' q s al)" by blast
  show ?thesis
    using r by (intro exI [of _ r] exI [of _ A']) (cases r, auto simp: gains_def zeroed_def words_in_def)
qed

subsection \<open>An example instance\<close>

text \<open>A system that maps at one address, whenever nothing is there.\<close>

definition one_address :: system where
  "one_address A = \<lparr>map_segments = (\<lambda>n. if 2 ^ 23 + n \<le> 2 ^ 64 \<and> vacant A (2 ^ 23) n then Some (2 ^ 23, 1, n) else None),
     map_lazy = (\<lambda>_. None), commit_range = (\<lambda>_ _. False)\<rparr>"

lemma one_address_fresh: "fresh_system one_address"
  by (simp add: fresh_system_def answers_fresh_def one_address_def segment_key_def)

lemma vacant_shrunk:
  assumes "shrunk A A'" and "vacant A b n"
  shows "vacant A' b n"
  unfolding vacant_def clear_def
proof (intro conjI allI impI)
  fix s assume "in_table (hpool (core_heap A')) s"
  then have s: "in_table (hpool (core_heap A)) s" "extent (header_at s A') = extent (header_at s A)"
    using assms(1) unfolding shrunk_def by blast+
  have "(s + seg_span (core_heap A) s \<le> b \<or> b + n \<le> s) \<and> s \<noteq> b
      \<and> payload_key (seg_mem (hpool (core_heap A))) s \<notin> {b ..< b + n}"
    using assms(2) s(1) unfolding vacant_def clear_def by blast
  moreover have "seg_span (core_heap A') s = seg_span (core_heap A) s"
    "payload_key (seg_mem (hpool (core_heap A'))) s = payload_key (seg_mem (hpool (core_heap A))) s"
    using s(2) by (simp_all add: extent_def seg_span_def payload_key_def header_at_def)
  ultimately show "s + seg_span (core_heap A') s \<le> b \<or> b + n \<le> s" "s \<noteq> b"
    "payload_key (seg_mem (hpool (core_heap A'))) s \<notin> {b ..< b + n}" by simp_all
next
  fix i e assume "cached (core_cache A') i e"
  then have "cached (core_cache A) i e" using assms(1) unfolding shrunk_def by blast
  then show "cl_base e + cl_usable_size e \<le> b \<or> b + n \<le> cl_base e" "cl_base e \<noteq> b"
    using assms(2) unfolding vacant_def by blast+
qed

lemma page_example: "page_ok 4096" "is_power_of_two 8"
  using is_power_of_two_pow [of 12] is_power_of_two_pow [of 3] by (simp_all add: page_ok_def MAX_REALISTIC_PAGE_SIZE_def)

lemma sample_core:
  "\<exists>A. core_start A \<and> in_use A = {} \<and> clock_ok 0 A \<and> large_cache_seq (core_cache A) = 0
     \<and> \<not> core_refuses one_address 4096 100 8 A \<and> \<not> core_refuses one_address 4096 10000000 8 A"
proof -
  have b: "segment_key (2 ^ 22)" "(2 ^ 22 :: nat) \<noteq> 0" by (simp_all add: segment_key_def)
  from new_core_ok [OF b, of config_new 1000 sample_mem "\<lambda>_. 0" "\<lambda>_. 0" 1 1] obtain A where
    A: "new_with_config config_new 1000 sample_mem (\<lambda>_. 0) (\<lambda>_. 0) (2 ^ 22) 1 1 = Inr A" "core_inv {} A []" "in_use A = {}"
      "live (core_table A) = {0}" "\<forall>s. in_table (hpool (core_heap A)) s \<longrightarrow> s = 2 ^ 22" "\<forall>i e. \<not> cached (core_cache A) i e"
      "last_decay_tick (core_cache A) = None" "large_cache_seq (core_cache A) = 0" by blast
  have start: "core_start A" unfolding core_start_def using b A(1) by blast
  have sc: "small_base (core_heap A) (small_cur (hpool (core_heap A)))" using cur_not_pooled(2) [OF core_inv_parts(1) [OF A(2)]] .
  then have "small_cur (hpool (core_heap A)) = 2 ^ 22" using A(5) by (simp add: small_base_def)
  then have sb: "small_base (core_heap A) (2 ^ 22)" using sc by simp
  then have "payload_key (seg_mem (hpool (core_heap A))) (2 ^ 22) = 2 ^ 22" "seg_span (core_heap A) (2 ^ 22) = SEGMENT"
    using core_inv_parts(1) [OF A(2)] by (simp_all add: heap_inv_def segs_ok_def seg_span_def small_base_def)
  then have v: "vacant A (2 ^ 23) n" for n unfolding vacant_def clear_def using A(5,6) by auto
  have maps: "map_segments (one_address A') n = Some (2 ^ 23, 1, n)" if "shrunk A A'" "2 ^ 23 + n \<le> 2 ^ 64" for A' n
    using vacant_shrunk [OF that(1) v] that(2) by (simp add: one_address_def)
  have room: "live (core_table A') \<noteq> {..<4096}" if "shrunk A A'" for A'
  proof -
    have "(1 :: nat) \<notin> live (core_table A')" using that A(4) unfolding shrunk_def by auto
    moreover have "(1 :: nat) \<in> {..<4096}" by simp
    ultimately show ?thesis by metis
  qed
  have small: "segment_reserve (one_address A') SEGMENT \<noteq> None" if "shrunk A A'" for A'
    unfolding segment_reserve_def segment_span_rounded using maps [OF that, of SEGMENT] by simp
  have large: "\<exists>off usable. large_request 4096 8 sz usable off \<and> reserve_large (one_address A') usable 8 off \<noteq> None"
    if "shrunk A A'" "0 < sz" "sz \<le> 2 ^ 40" for A' sz
  proof -
    from payload_offset_exists [OF page_example(2,1)] obtain off where off: "large_payload_offset 4096 8 = Inr off" by blast
    have "off < SEGMENT" using payload_offset_small(1) [OF page_example _ off] by simp
    moreover have "(0 :: nat) < SEGMENT" by simp
    note div_ceil_bounds(2) [OF this, of "off + sz"]
    ultimately have u: "div_ceil (off + sz) SEGMENT * SEGMENT < 2 ^ 40 + 2 ^ 23" using that(3) by simp
    define usable where "usable = div_ceil (off + sz) SEGMENT * SEGMENT"
    have lr: "large_request 4096 8 sz usable off"
      using page_example off that(2) u by (simp add: large_request_def large_usable_def usable_def Let_def)
    note f = large_request_facts [OF lr]
    have "2 ^ 23 + usable \<le> 2 ^ 64" using u by (simp add: usable_def)
    then have "reserve_large (one_address A') usable 8 off \<noteq> None"
      using maps [OF that(1), of usable] f(3,4) by (simp add: reserve_large_def segment_reserve_def)
    then show ?thesis using lr by blast
  qed
  have nr: "\<not> core_refuses one_address 4096 sz 8 A" if "sz \<le> 2 ^ 40" for sz
  proof
    have m: "0 < max sz MIN_BLOCK" "max sz MIN_BLOCK \<le> 2 ^ 40" using that by (simp_all add: MIN_BLOCK_def)
    assume "core_refuses one_address 4096 sz 8 A"
    then obtain A' where A': "shrunk A A'" "live (core_table A') = {..<4096}
     \<or> (case classify (max sz MIN_BLOCK) 8 of
          Some (Inr (KindSmall c)) \<Rightarrow> segment_reserve (one_address A') SEGMENT = None
        | _ \<Rightarrow> (\<nexists>off usable. large_request 4096 8 (max sz MIN_BLOCK) usable off)
            \<or> (\<exists>off usable. large_request 4096 8 (max sz MIN_BLOCK) usable off \<and> reserve_large (one_address A') usable 8 off = None))" unfolding core_refuses_def by blast
    show False using page_example(2)
    proof (cases rule: classify_cases [of 8 "max sz MIN_BLOCK"])
      case (1 c)
      then show False using A' room [OF A'(1)] small [OF A'(1)] by (simp add: ret_def)
    next
      case 2
      from large [OF A'(1) m] obtain off usable where lr: "large_request 4096 8 (max sz MIN_BLOCK) usable off"
        "reserve_large (one_address A') usable 8 off \<noteq> None" by blast
      have "(\<nexists>off usable. large_request 4096 8 (max sz MIN_BLOCK) usable off)
          \<or> (\<exists>off usable. large_request 4096 8 (max sz MIN_BLOCK) usable off \<and> reserve_large (one_address A') usable 8 off = None)"
        using A'(2) room [OF A'(1)] unfolding 2 by (simp only: ret_def option.case sum.case alloc_kind.case simp_thms)
      then obtain off' usable' where r: "large_request 4096 8 (max sz MIN_BLOCK) usable' off'" "reserve_large (one_address A') usable' 8 off' = None"
        using lr(1) by blast
      show False using large_request_unique [OF lr(1) r(1)] lr(2) r(2) by simp
    qed
  qed
  show ?thesis using start A(3,7,8) nr [of 100] nr [of 10000000] by (intro exI [of _ A]) (simp add: clock_ok_def)
qed



text \<open>An instance with a block of 100 bytes in use.\<close>

lemma sample_block:
  "\<exists>A p. reachable core_start (core_step True) A \<and> serves A p 100 8 \<and> clock_ok 0 A \<and> large_cache_seq (core_cache A) = 0
     \<and> in_use A = {(p, block_bytes 100 8)}"
proof -
  from sample_core obtain A where A: "core_start A" "in_use A = {}" "clock_ok 0 A" "large_cache_seq (core_cache A) = 0"
    "\<not> core_refuses one_address 4096 100 8 A" by blast
  obtain ps where inv: "core_inv {} A ps" using core_life.start_good [OF A(1)] by (auto simp: core_good_def)
  from core_alloc_ok [OF inv one_address_fresh A(3) page_example, of True True 100] A(5) obtain p A' where
    r: "core_alloc True True one_address 4096 0 100 8 A = ret (Some p, A')" "gains (Some (p, block_bytes 100 8)) A A'"
      "serves A' p 100 8" "clock_ok 0 A'" "large_cache_seq (core_cache A') = large_cache_seq (core_cache A)"
    by (auto split: option.splits)
  have "core_step True A A'" by (rule core_step_alloc [OF one_address_fresh page_example(1) A(3) page_example(2) r(1)])
  then have re: "reachable core_start (core_step True) A'" using A(1) by (blast intro: reach_start reach_step)
  have "in_use A' = {(p, block_bytes 100 8)}" using r(2) A(2) by (simp add: gains_def)
  then show ?thesis using re r(3-5) A(4) by auto
qed

lemma core_blocks_disjoint_witness:
  "\<exists>A p n. reachable core_start (core_step True) A \<and> (p, n) \<in> in_use A \<and> p + n \<le> 2 ^ 64"
proof -
  from sample_block obtain A p where A: "reachable core_start (core_step True) A" "in_use A = {(p, block_bytes 100 8)}" by blast
  from core_blocks_disjoint [OF A(1), of p "block_bytes 100 8"] A show ?thesis by auto
qed

lemma core_free_exact_witness:
  "\<exists>A p A'. serves A p 100 8 \<and> core_dealloc True 0 p 100 8 A = ret A' \<and> in_use A' = {}"
proof -
  from sample_block obtain A p where A: "reachable core_start (core_step True) A" "serves A p 100 8" "clock_ok 0 A"
    "large_cache_seq (core_cache A) = 0" "in_use A = {(p, block_bytes 100 8)}" by blast
  have "large_cache_seq (core_cache A) < - 1" unfolding A(4) by (simp add: word_neq_0_conv [symmetric])
  from core_free_exact [OF A(1,3) this page_example(2) A(2)] A(2,5) show ?thesis by auto
qed

lemma core_free_misuse_witness:
  "\<exists>A A'. in_use A = {} \<and> core_dealloc True 0 4096 100 8 A = ret A' \<and> in_use A' = {}"
proof -
  from sample_core obtain A where A: "core_start A" "in_use A = {}" "clock_ok 0 A" "large_cache_seq (core_cache A) = 0" by blast
  have re: "reachable core_start (core_step True) A" using A(1) by (rule reach_start)
  have "large_cache_seq (core_cache A) < - 1" unfolding A(4) by (simp add: word_neq_0_conv [symmetric])
  from core_free_misuse [OF re A(3) this page_example(2), of 4096 100] A(2) show ?thesis by auto
qed


lemma alloc_zeroed_exact_witness:
  "\<exists>A p A'. alloc_zeroed True True one_address 4096 0 (\<lambda>_. 7) 100 8 A = ret (Some p, A')
     \<and> in_use A' = {(p, block_bytes 100 8)} \<and> (\<forall>i \<le> 92. heap_word (core_heap A') (p + i) = 0)"
proof -
  from sample_core obtain A where A: "core_start A" "in_use A = {}" "clock_ok 0 A" "\<not> core_refuses one_address 4096 100 8 A"
    by blast
  have re: "reachable core_start (core_step True) A" using A(1) by (rule reach_start)
  from alloc_zeroed_exact [OF re one_address_fresh A(3) page_example, of True "\<lambda>_. 7" 100] A(2,4) obtain p A' where
    "alloc_zeroed True True one_address 4096 0 (\<lambda>_. 7) 100 8 A = ret (Some p, A')"
    "in_use A' = {(p, block_bytes 100 8)}" "\<forall>q. p \<le> q \<and> q + 8 \<le> p + max 100 MIN_BLOCK \<longrightarrow> heap_word (core_heap A') q = 0"
    by (auto split: option.splits)
  then show ?thesis by (intro exI [of _ A] exI [of _ p] exI [of _ A']) auto
qed

end
