(* ===== verification/CoreDrop.thy ===== *)
theory CoreDrop
  imports CoreLife
begin

text \<open>
  The end of an allocator instance, \<open>Drop for AllocCore\<close> with \<open>release_cached_on_drop\<close>
  (\<open>src/alloc_core/alloc_core/lifecycle.rs\<close>): the cached reservations, then the registered ones,
  the primordial segment, which hosts the table, last.
\<close>

subsection \<open>The walk\<close>

definition table_bases :: "segment_table \<Rightarrow> nat list" where
  "table_bases t = filter (\<lambda>p. p \<noteq> 0) (map (\<lambda>i. slots t ! i) [0..<seg_count t])"

definition release_cached_on_drop :: "cached_large \<Rightarrow> alloc_core \<Rightarrow> fatal + alloc_core" where
  "release_cached_on_drop e A =
     (let w = state_word (core_cache A) (cl_base e)
      in rbind (release_cached (large_generation w) w) (\<lambda>(ok, w').
           if \<not> ok then Inl ''lifecycle: cached release failed''
           else Inr (give_back (cl_reservation e) (cl_reservation_len e) (put_word (cl_base e) w' A))))"

fun drop_cache :: "nat list \<Rightarrow> alloc_core \<Rightarrow> fatal + alloc_core" where
  "drop_cache [] A = Inr A"
| "drop_cache (i # is) A =
     (case large_cache (core_cache A) i of
        None \<Rightarrow> drop_cache is A
      | Some e \<Rightarrow>
          rbind (release_cached_on_drop e
            (A\<lparr>core_cache := (core_cache A)\<lparr>large_cache := (large_cache (core_cache A))(i := None)\<rparr>\<rparr>)) (drop_cache is))"

definition consume_large :: "nat \<Rightarrow> alloc_core \<Rightarrow> fatal + alloc_core" where
  "consume_large b A =
     rbind (claim_live (state_word (core_cache A) b)) (\<lambda>(g, w).
       case g of
         None \<Rightarrow> Inl ''lifecycle: live claim credit missing''
       | Some generation \<Rightarrow>
           rbind (release_consumed generation w) (\<lambda>(ok, w').
             if \<not> ok then Inl ''lifecycle: consumed release failed'' else Inr (put_word b w' A)))"

fun drop_bases :: "nat list \<Rightarrow> alloc_core \<Rightarrow> fatal + alloc_core" where
  "drop_bases [] A = Inr A"
| "drop_bases (b # bs) A =
     (let hdr = header_at b A
      in rbind (if kind hdr = Large then consume_large b A else Inr A) (\<lambda>A'.
           drop_bases bs (give_back (reservation hdr) (reservation_len hdr) A')))"

definition core_drop :: "alloc_core \<Rightarrow> fatal + alloc_core" where
  "core_drop A =
     rbind (drop_cache [0..<LARGE_CACHE_SLOTS] A) (\<lambda>A1.
       case table_bases (core_table A1) of
         [] \<Rightarrow> Inr A1
       | p # rest \<Rightarrow>
           let hdr = header_at p A1
           in rbind (drop_bases rest A1) (\<lambda>A2. Inr (give_back (reservation hdr) (reservation_len hdr) A2)))"

subsection \<open>What is released\<close>

definition cache_entries :: "nat list \<Rightarrow> cache_state \<Rightarrow> cached_large list" where
  "cache_entries is c = concat (map (\<lambda>i. case large_cache c i of None \<Rightarrow> [] | Some e \<Rightarrow> [e]) is)"

definition entry_span :: "cached_large \<Rightarrow> nat \<times> nat" where
  "entry_span e = (cl_reservation e, cl_reservation_len e)"

definition segment_span_of :: "alloc_core \<Rightarrow> nat \<Rightarrow> nat \<times> nat" where
  "segment_span_of A b = (reservation (header_at b A), reservation_len (header_at b A))"

definition spans :: "(nat \<times> nat) list \<Rightarrow> (nat \<times> nat) list" where
  "spans = filter (\<lambda>r. fst r \<noteq> 0)"

lemma spans_simps [simp]: "spans [] = []" "spans (r # rs) = (if fst r = 0 then spans rs else r # spans rs)"
  "spans (rs @ qs) = spans rs @ spans qs"
  by (simp_all add: spans_def)

lemma released_give_back: "os_released (core_cache (give_back res len A)) = spans [(res, len)] @ os_released (core_cache A)"
  by (simp add: give_back_def)

lemma give_back_frame [simp]:
  "core_heap (give_back res len A) = core_heap A" "state_word (core_cache (give_back res len A)) = state_word (core_cache A)"
  "large_cache (core_cache (give_back res len A)) = large_cache (core_cache A)" "header_at b (give_back res len A) = header_at b A"
  by (simp_all add: give_back_def header_at_def)

lemma put_word_frame [simp]:
  "core_heap (put_word b w A) = core_heap A" "state_word (core_cache (put_word b w A)) = (state_word (core_cache A))(b := w)"
  "large_cache (core_cache (put_word b w A)) = large_cache (core_cache A)" "header_at s (put_word b w A) = header_at s A"
  "os_released (core_cache (put_word b w A)) = os_released (core_cache A)"
  by (simp_all add: put_word_def header_at_def)

text \<open>A registered large reservation is claimed and released.\<close>

lemma consume_live:
  assumes "large_phase (state_word (core_cache A) b) = Some PhLive"
  shows "consume_large b A = Inr (put_word b (packed_word PhReleased (large_generation (state_word (core_cache A) b))) A)"
proof -
  let ?g = "large_generation (state_word (core_cache A) b)"
  have "in_phase (packed_word PhConsuming ?g) PhConsuming ?g"
    by (simp add: in_phase_def pack_phase pack_generation generation_small)
  from consumed_swap(2) [OF this] claim_live_live [OF assms] show ?thesis by (simp add: consume_large_def)
qed

lemma release_on_drop:
  assumes "large_phase (state_word (core_cache A) (cl_base e)) = Some PhCached"
  shows "release_cached_on_drop e A = Inr (give_back (cl_reservation e) (cl_reservation_len e)
    (put_word (cl_base e) (packed_word PhReleased (large_generation (state_word (core_cache A) (cl_base e)))) A))"
  using release_cached_cached [OF assms] by (simp add: release_cached_on_drop_def Let_def)

text \<open>The slots one by one: each entry's word must still be cached when its turn comes.\<close>

lemma drop_cache_ok:
  assumes "distinct is"
    and "\<And>i e. i \<in> set is \<Longrightarrow> large_cache (core_cache A) i = Some e \<Longrightarrow> large_phase (state_word (core_cache A) (cl_base e)) = Some PhCached"
    and "\<And>i j e e'. i \<in> set is \<Longrightarrow> j \<in> set is \<Longrightarrow> large_cache (core_cache A) i = Some e \<Longrightarrow> large_cache (core_cache A) j = Some e'
      \<Longrightarrow> cl_base e = cl_base e' \<Longrightarrow> i = j"
  shows "\<exists>A'. drop_cache is A = Inr A' \<and> core_heap A' = core_heap A
    \<and> os_released (core_cache A') = rev (spans (map entry_span (cache_entries is (core_cache A)))) @ os_released (core_cache A)
    \<and> (\<forall>i. large_cache (core_cache A') i = (if i \<in> set is then None else large_cache (core_cache A) i))
    \<and> (\<forall>b. if b \<in> cl_base ` set (cache_entries is (core_cache A))
         then large_phase (state_word (core_cache A') b) = Some PhReleased
         else state_word (core_cache A') b = state_word (core_cache A) b)"
  using assms
proof (induction "is" arbitrary: A)
  case Nil
  show ?case by (simp add: cache_entries_def)
next
  case (Cons i "is")
  show ?case
  proof (cases "large_cache (core_cache A) i")
    case None
    have "\<exists>A'. drop_cache is A = Inr A' \<and> core_heap A' = core_heap A
      \<and> os_released (core_cache A') = rev (spans (map entry_span (cache_entries is (core_cache A)))) @ os_released (core_cache A)
      \<and> (\<forall>i. large_cache (core_cache A') i = (if i \<in> set is then None else large_cache (core_cache A) i))
      \<and> (\<forall>b. if b \<in> cl_base ` set (cache_entries is (core_cache A))
         then large_phase (state_word (core_cache A') b) = Some PhReleased
         else state_word (core_cache A') b = state_word (core_cache A) b)"
      by (rule Cons.IH) (use Cons.prems in \<open>auto\<close>)
    moreover have "cache_entries (i # is) (core_cache A) = cache_entries is (core_cache A)" using None by (simp add: cache_entries_def)
    ultimately show ?thesis using None by auto
  next
    case (Some e)
    let ?w = "packed_word PhReleased (large_generation (state_word (core_cache A) (cl_base e)))"
    let ?A1 = "A\<lparr>core_cache := (core_cache A)\<lparr>large_cache := (large_cache (core_cache A))(i := None)\<rparr>\<rparr>"
    let ?A2 = "give_back (cl_reservation e) (cl_reservation_len e) (put_word (cl_base e) ?w ?A1)"
    have ph: "large_phase (state_word (core_cache A) (cl_base e)) = Some PhCached" using Cons.prems(2) [of i] Some by simp
    then have run: "drop_cache (i # is) A = drop_cache is ?A2" using Some release_on_drop [of ?A1 e] by simp
    have cached2: "large_cache (core_cache ?A2) j = large_cache (core_cache A) j" if "j \<in> set is" for j
      using that Cons.prems(1) by auto
    have entries2: "cache_entries is (core_cache ?A2) = cache_entries is (core_cache A)"
      unfolding cache_entries_def by (intro arg_cong [of _ _ concat] map_cong refl) (use cached2 in simp)
    have other: "cl_base e' \<noteq> cl_base e" if "j \<in> set is" "large_cache (core_cache A) j = Some e'" for j e'
      using Cons.prems(3) [of j i e' e] that Some Cons.prems(1) by auto
    have IH: "\<exists>A'. drop_cache is ?A2 = Inr A' \<and> core_heap A' = core_heap ?A2
      \<and> os_released (core_cache A') = rev (spans (map entry_span (cache_entries is (core_cache ?A2)))) @ os_released (core_cache ?A2)
      \<and> (\<forall>i. large_cache (core_cache A') i = (if i \<in> set is then None else large_cache (core_cache ?A2) i))
      \<and> (\<forall>b. if b \<in> cl_base ` set (cache_entries is (core_cache ?A2))
         then large_phase (state_word (core_cache A') b) = Some PhReleased
         else state_word (core_cache A') b = state_word (core_cache ?A2) b)"
    proof (rule Cons.IH)
      show "distinct is" using Cons.prems(1) by simp
      show "large_phase (state_word (core_cache ?A2) (cl_base e')) = Some PhCached"
        if "j \<in> set is" "large_cache (core_cache ?A2) j = Some e'" for j e'
        using that cached2 [OF that(1)] other [of j e'] Cons.prems(2) [of j e'] by simp
      show "j = k" if "j \<in> set is" "k \<in> set is" "large_cache (core_cache ?A2) j = Some d"
        "large_cache (core_cache ?A2) k = Some d'" "cl_base d = cl_base d'" for j k d d'
        by (rule Cons.prems(3) [of j k d d']) (use that cached2 in simp_all)
    qed
    then obtain A' where A': "drop_cache is ?A2 = Inr A'" "core_heap A' = core_heap A"
      "os_released (core_cache A') = rev (spans (map entry_span (cache_entries is (core_cache A)))) @ os_released (core_cache ?A2)"
      "\<forall>i. large_cache (core_cache A') i = (if i \<in> set is then None else large_cache (core_cache ?A2) i)"
      "\<forall>b. if b \<in> cl_base ` set (cache_entries is (core_cache A))
         then large_phase (state_word (core_cache A') b) = Some PhReleased
         else state_word (core_cache A') b = state_word (core_cache ?A2) b"
      unfolding entries2 by auto
    have en: "cache_entries (i # is) (core_cache A) = e # cache_entries is (core_cache A)"
      using Some by (simp add: cache_entries_def)
    have "os_released (core_cache A') = rev (spans (map entry_span (cache_entries (i # is) (core_cache A)))) @ os_released (core_cache A)"
      unfolding A'(3) en released_give_back by (simp add: entry_span_def)
    moreover have "large_cache (core_cache A') j = (if j \<in> set (i # is) then None else large_cache (core_cache A) j)" for j
      using A'(4) by simp
    moreover have "if b \<in> cl_base ` set (cache_entries (i # is) (core_cache A))
         then large_phase (state_word (core_cache A') b) = Some PhReleased
         else state_word (core_cache A') b = state_word (core_cache A) b" for b
      using A'(5) [rule_format, of b] unfolding en by (auto simp: pack_phase split: if_splits)
    ultimately show ?thesis unfolding run using A'(1,2) by blast
  qed
qed

text \<open>The registered segments one by one.\<close>

lemma drop_bases_ok:
  assumes "distinct bs"
    and "\<And>b. b \<in> set bs \<Longrightarrow> kind (header_at b A) = Large \<Longrightarrow> large_phase (state_word (core_cache A) b) = Some PhLive"
  shows "\<exists>A'. drop_bases bs A = Inr A' \<and> core_heap A' = core_heap A
    \<and> os_released (core_cache A') = rev (spans (map (segment_span_of A) bs)) @ os_released (core_cache A)
    \<and> (\<forall>b. if b \<in> set bs \<and> kind (header_at b A) = Large then large_phase (state_word (core_cache A') b) = Some PhReleased
         else state_word (core_cache A') b = state_word (core_cache A) b)"
  using assms
proof (induction bs arbitrary: A)
  case Nil
  show ?case by simp
next
  case (Cons b bs)
  let ?h = "header_at b A"
  define A1 where "A1 = (if kind ?h = Large
    then put_word b (packed_word PhReleased (large_generation (state_word (core_cache A) b))) A else A)"
  have run1: "(if kind ?h = Large then consume_large b A else Inr A) = Inr A1"
    using consume_live [of A b] Cons.prems(2) [of b] by (simp add: A1_def)
  let ?A2 = "give_back (reservation ?h) (reservation_len ?h) A1"
  have run: "drop_bases (b # bs) A = drop_bases bs ?A2" by (simp add: Let_def run1)
  have hd: "header_at s ?A2 = header_at s A" for s by (simp add: A1_def)
  have w: "state_word (core_cache ?A2) s = state_word (core_cache A) s" if "s \<noteq> b" for s using that by (simp add: A1_def)
  have sp: "segment_span_of ?A2 = segment_span_of A" unfolding segment_span_of_def hd ..
  have "\<exists>A'. drop_bases bs ?A2 = Inr A' \<and> core_heap A' = core_heap ?A2
    \<and> os_released (core_cache A') = rev (spans (map (segment_span_of ?A2) bs)) @ os_released (core_cache ?A2)
    \<and> (\<forall>s. if s \<in> set bs \<and> kind (header_at s ?A2) = Large then large_phase (state_word (core_cache A') s) = Some PhReleased
         else state_word (core_cache A') s = state_word (core_cache ?A2) s)"
  proof (rule Cons.IH)
    show "distinct bs" using Cons.prems(1) by simp
    show "large_phase (state_word (core_cache ?A2) s) = Some PhLive" if "s \<in> set bs" "kind (header_at s ?A2) = Large" for s
      using that Cons.prems(1) Cons.prems(2) [of s] w [of s] unfolding hd by (cases "s = b") simp_all
  qed
  then obtain A' where A': "drop_bases bs ?A2 = Inr A'" "core_heap A' = core_heap A"
    "os_released (core_cache A') = rev (spans (map (segment_span_of A) bs)) @ os_released (core_cache ?A2)"
    "\<forall>s. if s \<in> set bs \<and> kind (header_at s A) = Large then large_phase (state_word (core_cache A') s) = Some PhReleased
         else state_word (core_cache A') s = state_word (core_cache ?A2) s"
    unfolding hd sp by (auto simp: A1_def)
  have "os_released (core_cache A1) = os_released (core_cache A)" by (simp add: A1_def)
  then have "os_released (core_cache A') = rev (spans (map (segment_span_of A) (b # bs))) @ os_released (core_cache A)"
    unfolding A'(3) released_give_back by (simp add: segment_span_of_def)
  moreover have "if s \<in> set (b # bs) \<and> kind (header_at s A) = Large
      then large_phase (state_word (core_cache A') s) = Some PhReleased
      else state_word (core_cache A') s = state_word (core_cache A) s" for s
  proof (cases "s = b")
    case True
    then have "state_word (core_cache A') b = state_word (core_cache A1) b" using A'(4) [rule_format, of b] Cons.prems(1) by simp
    then show ?thesis using True by (simp add: A1_def pack_phase)
  next
    case False
    then show ?thesis using A'(4) [rule_format, of s] w [OF False] by simp
  qed
  ultimately show ?case unfolding run using A'(1,2) by blast
qed

subsection \<open>The whole\<close>

lemma bases_live:
  assumes "core_inv E A ps"
  shows "set (table_bases (core_table A)) = {b. in_table (hpool (core_heap A)) b}" "distinct (table_bases (core_table A))"
    "table_bases (core_table A) \<noteq> []"
proof -
  let ?p = "hpool (core_heap A)" and ?t = "core_table A"
  from core_inv_parts(1) [OF assms] obtain m where pinv: "pool_inv ?p m ps"
    and tinv: "table_inv (seg_mem ?p) (seg_table ?p) m" by (rule table_of)
  show set: "set (table_bases ?t) = {b. in_table ?p b}" by (auto simp: table_bases_def in_table_def live_def core_table_def)
  have key: "m k = Some i \<longleftrightarrow> i \<in> live ?t \<and> k = payload_key (seg_mem ?p) (slots ?t ! i)" for k i
    using tinv by (simp add: table_inv_def keys_ok_def core_table_def)
  have "i = j" if "i \<in> live ?t" "j \<in> live ?t" "slots ?t ! i = slots ?t ! j" for i j
    using key [of "payload_key (seg_mem ?p) (slots ?t ! i)" i] key [of "payload_key (seg_mem ?p) (slots ?t ! j)" j] that by simp
  then have "inj_on ((!) (slots ?t)) (live ?t)" by (rule inj_onI)
  moreover have "table_bases ?t = map ((!) (slots ?t)) (filter (\<lambda>i. slots ?t ! i \<noteq> 0) [0..<seg_count ?t])"
    by (simp add: table_bases_def filter_map comp_def)
  moreover have "set (filter (\<lambda>i. slots ?t ! i \<noteq> 0) [0..<seg_count ?t]) = live ?t" by (auto simp: live_def)
  ultimately show "distinct (table_bases ?t)" by (simp add: distinct_map)
  have "0 \<in> live ?t" using pinv by (simp add: pool_inv_def env_ok_def core_table_def)
  then have "slots ?t ! 0 \<in> set (table_bases ?t)" unfolding set by (auto simp: in_table_def core_table_def)
  then show "table_bases ?t \<noteq> []" by auto
qed

lemma entries_set: "set (cache_entries [0..<LARGE_CACHE_SLOTS] c) = {e. \<exists>i. cached c i e}"
  by (auto simp: cache_entries_def cached_def split: option.splits)

lemma core_drop_ok:
  assumes inv: "core_inv {} A ps"
  shows "\<exists>A'. core_drop A = Inr A'
    \<and> os_released (core_cache A') =
        rev (spans (map entry_span (cache_entries [0..<LARGE_CACHE_SLOTS] (core_cache A))
          @ map (segment_span_of A) (tl (table_bases (core_table A)) @ [hd (table_bases (core_table A))]))) @ os_released (core_cache A)
    \<and> (\<forall>b. large_base A b \<or> (\<exists>i e. cached (core_cache A) i e \<and> b = cl_base e)
         \<longrightarrow> large_phase (state_word (core_cache A') b) = Some PhReleased)"
proof -
  let ?is = "[0..<LARGE_CACHE_SLOTS]" and ?c = "core_cache A" and ?bs = "table_bases (core_table A)"
  note b = bases_live [OF inv]
  have c: "cached ?c i e \<longleftrightarrow> i \<in> set ?is \<and> large_cache ?c i = Some e" for i e by (auto simp: cached_def)
  have ok: "entries_ok ?c" using core_inv_parts(2) [OF inv] by (simp add: cache_inv_def)
  have "\<exists>A'. drop_cache ?is A = Inr A' \<and> core_heap A' = core_heap A
    \<and> os_released (core_cache A') = rev (spans (map entry_span (cache_entries ?is ?c))) @ os_released ?c
    \<and> (\<forall>i. large_cache (core_cache A') i = (if i \<in> set ?is then None else large_cache ?c i))
    \<and> (\<forall>b. if b \<in> cl_base ` set (cache_entries ?is ?c)
         then large_phase (state_word (core_cache A') b) = Some PhReleased
         else state_word (core_cache A') b = state_word ?c b)"
  proof (rule drop_cache_ok)
    show "large_phase (state_word ?c (cl_base e)) = Some PhCached" if "i \<in> set ?is" "large_cache ?c i = Some e" for i e
      using ok that c [of i e] unfolding entries_ok_def by blast
    show "i = j" if "i \<in> set ?is" "j \<in> set ?is" "large_cache ?c i = Some e" "large_cache ?c j = Some e'" "cl_base e = cl_base e'"
      for i j e e'
      using ok that c [of i e] c [of j e'] unfolding entries_ok_def by blast
  qed simp
  then obtain A1 where A1: "drop_cache ?is A = Inr A1" "core_heap A1 = core_heap A"
    "os_released (core_cache A1) = rev (spans (map entry_span (cache_entries ?is ?c))) @ os_released ?c"
    "\<forall>b. if b \<in> cl_base ` {e. \<exists>i. cached ?c i e}
         then large_phase (state_word (core_cache A1) b) = Some PhReleased
         else state_word (core_cache A1) b = state_word ?c b" unfolding entries_set by blast
  have t1: "core_table A1 = core_table A" and h1: "header_at s A1 = header_at s A" for s
    by (simp_all add: core_table_def header_at_def A1(2))
  have nc: "b \<notin> cl_base ` {e. \<exists>i. cached ?c i e}" if "in_table (hpool (core_heap A)) b" for b
  proof
    assume "b \<in> cl_base ` {e. \<exists>i. cached ?c i e}"
    then obtain i e where "cached ?c i e" "b = cl_base e" by blast
    then show False using core_inv_parts(5) [OF inv, of i e] that by (simp add: cached_sound_def)
  qed
  obtain p rest where p: "?bs = p # rest" using b(3) by (cases ?bs) auto
  have inb: "in_table (hpool (core_heap A)) s" if "s \<in> set (p # rest)" for s using b(1) that unfolding p by blast
  have prim: "kind (header_at p A) \<noteq> Large"
  proof -
    from core_inv_parts(1) [OF inv] obtain m where pinv: "pool_inv (hpool (core_heap A)) m ps" by (rule table_of)
    then have z: "0 \<in> live (core_table A)" by (simp add: pool_inv_def env_ok_def core_table_def)
    then have "p = slots (core_table A) ! 0"
      using p by (cases "seg_count (core_table A)") (simp_all add: table_bases_def live_def upt_conv_Cons del: upt_Suc)
    then show ?thesis using core_inv_parts(1) [OF inv] by (simp add: heap_inv_def segs_ok_def core_table_def header_at_def)
  qed
  have live: "large_phase (state_word (core_cache A1) s) = Some PhLive" if s: "s \<in> set (p # rest)" "kind (header_at s A) = Large" for s
  proof -
    have "large_base A s" using s inb by (simp add: large_base_def)
    then have "large_phase (state_word ?c s) = Some PhLive" using core_inv_parts(4) [OF inv, of s] by (simp add: large_sound_def)
    then show ?thesis using A1(4) [rule_format, of s] nc [OF inb [OF s(1)]] by simp
  qed
  have "distinct rest" using b(2) unfolding p by simp
  from drop_bases_ok [OF this, of A1] live obtain A2 where
    A2: "drop_bases rest A1 = Inr A2" "core_heap A2 = core_heap A1"
    "os_released (core_cache A2) = rev (spans (map (segment_span_of A1) rest)) @ os_released (core_cache A1)"
    "\<forall>b. if b \<in> set rest \<and> kind (header_at b A) = Large then large_phase (state_word (core_cache A2) b) = Some PhReleased
         else state_word (core_cache A2) b = state_word (core_cache A1) b" unfolding h1 by auto
  have sp: "segment_span_of A1 = segment_span_of A" by (simp add: fun_eq_iff segment_span_of_def h1)
  let ?A = "give_back (reservation (header_at p A)) (reservation_len (header_at p A)) A2"
  have run: "core_drop A = Inr ?A" by (simp add: core_drop_def A1(1) t1 p A2(1) Let_def h1)
  have rel: "os_released (core_cache ?A) = rev (spans (map entry_span (cache_entries ?is ?c)
      @ map (segment_span_of A) (tl ?bs @ [hd ?bs]))) @ os_released ?c"
    unfolding released_give_back A2(3) A1(3) sp p by (simp add: segment_span_of_def)
  have "large_phase (state_word (core_cache ?A) s) = Some PhReleased"
    if "large_base A s \<or> (\<exists>i e. cached ?c i e \<and> s = cl_base e)" for s
    using that
  proof
    assume l: "large_base A s"
    then have "s \<in> set (p # rest)" "s \<noteq> p" using b(1) prim unfolding p large_base_def by blast+
    then have "s \<in> set rest" by simp
    then show ?thesis using A2(4) [rule_format, of s] l by (simp add: large_base_def)
  next
    assume cs: "\<exists>i e. cached ?c i e \<and> s = cl_base e"
    then have "s \<in> cl_base ` {e. \<exists>i. cached ?c i e}" by blast
    moreover have "s \<notin> set rest" using calculation nc inb by auto
    ultimately show ?thesis using A2(4) [rule_format, of s] A1(4) [rule_format, of s] by simp
  qed
  then show ?thesis unfolding run using rel by blast
qed

text \<open>C7: The drop of an instance after any run of the program comes to its end and gives every reservation
  back exactly once: those of the cache in the order of its slots, then those of the registered segments
  in the order of theirs, the primordial one, which hosts the table, last.  Every large reservation's
  state word ends released.\<close>

theorem core_drop_exact:
  assumes "reachable core_start (core_step safe_mode) A"
  shows "\<exists>A'. core_drop A = Inr A'
    \<and> os_released (core_cache A') =
        rev (spans (map entry_span (cache_entries [0..<LARGE_CACHE_SLOTS] (core_cache A))
          @ map (segment_span_of A) (tl (table_bases (core_table A)) @ [hd (table_bases (core_table A))]))) @ os_released (core_cache A)
    \<and> set (cache_entries [0..<LARGE_CACHE_SLOTS] (core_cache A)) = {e. \<exists>i. cached (core_cache A) i e}
    \<and> set (table_bases (core_table A)) = {b. in_table (hpool (core_heap A)) b} \<and> distinct (table_bases (core_table A))
    \<and> (\<forall>b. large_base A b \<or> (\<exists>i e. cached (core_cache A) i e \<and> b = cl_base e)
         \<longrightarrow> large_phase (state_word (core_cache A') b) = Some PhReleased)"
proof -
  from assms obtain ps where inv: "core_inv {} A ps" by (rule core_reachable_inv)
  from core_drop_ok [OF inv] bases_live(1,2) [OF inv] entries_set show ?thesis by auto
qed

lemma core_drop_exact_witness:
  "\<exists>A A'. core_start A \<and> core_drop A = Inr A' \<and> set (table_bases (core_table A)) = {2 ^ 22} \<and> distinct (table_bases (core_table A))"
proof -
  have b: "segment_key (2 ^ 22)" "(2 ^ 22 :: nat) \<noteq> 0" by (simp_all add: segment_key_def)
  from new_core_ok [OF b, of config_new 1000 sample_mem "\<lambda>_. 0" "\<lambda>_. 0" 1 1] obtain A where
    A: "new_with_config config_new 1000 sample_mem (\<lambda>_. 0) (\<lambda>_. 0) (2 ^ 22) 1 1 = Inr A" "core_inv {} A []"
      "\<forall>s. in_table (hpool (core_heap A)) s \<longrightarrow> s = 2 ^ 22" by blast
  have start: "core_start A" unfolding core_start_def using b A(1) by blast
  then have "reachable core_start (core_step True) A" by (rule reach_start)
  from core_drop_exact [OF this] obtain A' where A': "core_drop A = Inr A'"
    "set (table_bases (core_table A)) = {b. in_table (hpool (core_heap A)) b}" "distinct (table_bases (core_table A))" by blast
  have "set (table_bases (core_table A)) \<subseteq> {2 ^ 22}" using A(3) A'(2) by blast
  moreover have "set (table_bases (core_table A)) \<noteq> {}" using bases_live(3) [OF A(2)] by (simp only: set_empty not_False_eq_True)
  ultimately have "set (table_bases (core_table A)) = {2 ^ 22}" using subset_singletonD by metis
  then show ?thesis using start A'(1,3) by blast
qed

end
