(* ===== verification/OncePtrCell.thy ===== *)
theory OncePtrCell
  imports Interfaces
begin

text \<open>
  The write-once pointer cell (\<open>crates/once-ptr-cell/src/imp.rs\<close>): one atomic word that
  is null, the sentinel of a running initialisation, or the published pointer.  A call of one
  thread is a small program; each step of it is one access to the word (or one run of the
  caller's \<open>init\<close>, whose outcome is an argument), so that the calls of many threads
  interleave freely.
\<close>

subsection \<open>One call\<close>

definition SENTINEL_INITIALIZING :: nat where "SENTINEL_INITIALIZING = 1"

definition is_ready :: "nat \<Rightarrow> bool" where
  "is_ready a \<longleftrightarrow> a \<noteq> 0 \<and> a \<noteq> SENTINEL_INITIALIZING"

text \<open>What the caller's \<open>init\<close> did: a non-null pointer, out of memory, or a panic.\<close>

datatype init_outcome = InitSome nat | InitNone | InitPanic

datatype rollback_probe = Proven | NotApplicable

text \<open>
  The places a call can be at.  \<open>Running\<close> to \<open>Unwinding\<close> are inside the arm of
  \<open>init_slow\<close> that won the swap, with the rollback guard armed.
\<close>

datatype call =
    Outside
  | Getting | Got "nat option"
  | Fresh | Looping | Claiming | Running | Publishing nat | RollingBack | Unwinding | Waiting
  | Returned "nat option" | Panicked
  | ProbeClaim | ProbeRollback | ProbeReclaim | ProbeRestore | Probed rollback_probe

definition guard_drop :: "bool \<Rightarrow> nat \<Rightarrow> nat" where
  "guard_drop defused w = (if \<not> defused then 0 else w)"

definition get :: "nat \<Rightarrow> nat option" where
  "get w = (if is_ready w then Some w else None)"

definition fast_path :: "nat \<Rightarrow> call" where
  "fast_path w = (if is_ready w then Returned (Some w) else Looping)"

primrec run_init :: "init_outcome \<Rightarrow> call" where
  "run_init (InitSome p) = (if is_ready p then Publishing p else Unwinding)"
| "run_init InitNone = RollingBack"
| "run_init InitPanic = Unwinding"

fun init_slow_step :: "init_outcome \<Rightarrow> nat \<Rightarrow> call \<Rightarrow> nat \<times> call" where
  "init_slow_step out w Looping = (w, if is_ready w then Returned (Some w) else Claiming)"
| "init_slow_step out w Claiming = (if w = 0 then (SENTINEL_INITIALIZING, Running) else (w, Waiting))"
| "init_slow_step out w Running = (w, run_init out)"
| "init_slow_step out w (Publishing p) = (guard_drop True p, Returned (Some p))"
| "init_slow_step out w RollingBack = (guard_drop True 0, Returned None)"
| "init_slow_step out w Unwinding = (guard_drop False w, Panicked)"
| "init_slow_step out w Waiting =
     (w, if w = SENTINEL_INITIALIZING then Waiting
         else if w \<noteq> 0 then Returned (Some w) else Looping)"
| "init_slow_step out w c = (w, c)"

fun probe_step :: "nat \<Rightarrow> call \<Rightarrow> nat \<times> call" where
  "probe_step w ProbeClaim =
     (if w = 0 then (SENTINEL_INITIALIZING, ProbeRollback) else (w, Probed NotApplicable))"
| "probe_step w ProbeRollback = (0, ProbeReclaim)"
| "probe_step w ProbeReclaim =
     (if w = 0 then (SENTINEL_INITIALIZING, ProbeRestore) else (w, Probed NotApplicable))"
| "probe_step w ProbeRestore = (0, Probed Proven)"
| "probe_step w c = (w, c)"

fun call_step :: "init_outcome \<Rightarrow> nat \<Rightarrow> call \<Rightarrow> nat \<times> call" where
  "call_step out w Getting = (w, Got (get w))"
| "call_step out w Fresh = (w, fast_path w)"
| "call_step out w c =
     (if c \<in> {ProbeClaim, ProbeRollback, ProbeReclaim, ProbeRestore} then probe_step w c
      else init_slow_step out w c)"

subsection \<open>Many calls\<close>

fun ended :: "call \<Rightarrow> bool" where
  "ended Outside = True"
| "ended (Got r) = True"
| "ended (Returned r) = True"
| "ended Panicked = True"
| "ended (Probed r) = True"
| "ended c = False"

record once_sys =
  cell :: nat
  calls :: "nat \<Rightarrow> call"

definition once_new :: "once_sys \<Rightarrow> bool" where
  "once_new s \<longleftrightarrow> cell s = 0 \<and> (\<forall>t. calls s t = Outside)"

inductive once_step :: "once_sys \<Rightarrow> once_sys \<Rightarrow> bool" where
  step_call: "ended (calls s t) \<Longrightarrow> c \<in> {Getting, Fresh, ProbeClaim}
    \<Longrightarrow> once_step s (s\<lparr>calls := (calls s)(t := c)\<rparr>)"
| step_run: "\<not> ended (calls s t) \<Longrightarrow> call_step out (cell s) (calls s t) = (w, c)
    \<Longrightarrow> once_step s (s\<lparr>cell := w, calls := (calls s)(t := c)\<rparr>)"

text \<open>A call that owns the initialisation: between winning the swap and leaving the arm.\<close>

fun owning :: "call \<Rightarrow> bool" where
  "owning Running = True"
| "owning (Publishing p) = True"
| "owning RollingBack = True"
| "owning Unwinding = True"
| "owning ProbeRollback = True"
| "owning ProbeRestore = True"
| "owning c = False"

fun answered :: "call \<Rightarrow> nat option" where
  "answered (Got r) = r"
| "answered (Returned r) = r"
| "answered c = None"

definition call_ok :: "nat \<Rightarrow> call \<Rightarrow> bool" where
  "call_ok w c \<longleftrightarrow> (owning c \<longrightarrow> w = SENTINEL_INITIALIZING) \<and> (\<forall>p. c = Publishing p \<longrightarrow> is_ready p)
     \<and> (\<forall>p. answered c = Some p \<longrightarrow> is_ready p \<and> w = p)"

definition once_good :: "once_sys \<Rightarrow> bool" where
  "once_good s \<longleftrightarrow> (\<forall>t. call_ok (cell s) (calls s t))
     \<and> (\<forall>t u. owning (calls s t) \<and> owning (calls s u) \<longrightarrow> t = u)
     \<and> (cell s = SENTINEL_INITIALIZING \<longrightarrow> (\<exists>t. owning (calls s t)))"

text \<open>
  One step of a call: the word changes only from null to the sentinel, by the call that becomes
  the owner, or back from the sentinel, by the owner that leaves.
\<close>

lemma call_step_cases:
  assumes "call_step out w c = (w', c')" and "\<not> ended c" and "call_ok w c"
  shows "call_ok w' c' \<and> (\<not> owning c \<and> \<not> owning c' \<and> w' = w
      \<or> \<not> owning c \<and> owning c' \<and> w = 0 \<and> w' = SENTINEL_INITIALIZING
      \<or> owning c \<and> owning c' \<and> w' = w
      \<or> owning c \<and> \<not> owning c' \<and> w' \<noteq> SENTINEL_INITIALIZING)"
  using assms
  by (cases c; cases out)
    (auto simp: call_ok_def get_def fast_path_def is_ready_def guard_drop_def SENTINEL_INITIALIZING_def
      split: if_splits)

inductive_cases once_stepE: "once_step s s'"

lemma call_ok_other:
  assumes "call_ok w c" and "\<not> owning c" and "w' = w \<or> \<not> is_ready w"
  shows "call_ok w' c"
  using assms by (auto simp: call_ok_def)

lemma owning_not_ended: "owning c \<Longrightarrow> \<not> ended c"
  by (cases c) auto

lemma once_new_good: "once_new s \<Longrightarrow> once_good s"
  by (simp add: once_new_def once_good_def call_ok_def SENTINEL_INITIALIZING_def)

lemma once_call_good:
  assumes good: "once_good s" and t: "ended (calls s t)" and c: "c \<in> {Getting, Fresh, ProbeClaim}"
  shows "once_good (s\<lparr>calls := (calls s)(t := c)\<rparr>)"
proof -
  have no: "\<not> owning (calls s t)" using t owning_not_ended by blast
  have "\<not> owning c" "call_ok (cell s) c" using c by (auto simp: call_ok_def)
  with good no show ?thesis unfolding once_good_def by auto
qed

lemma once_run_good:
  assumes good: "once_good s" and t: "\<not> ended (calls s t)"
    and step: "call_step out (cell s) (calls s t) = (w, c)"
  shows "once_good (s\<lparr>cell := w, calls := (calls s)(t := c)\<rparr>)"
proof -
  let ?o = "owning (calls s t)"
  have ok: "\<And>u. call_ok (cell s) (calls s u)"
    and alone: "\<And>u v. owning (calls s u) \<Longrightarrow> owning (calls s v) \<Longrightarrow> u = v"
    and held: "cell s = SENTINEL_INITIALIZING \<Longrightarrow> \<exists>u. owning (calls s u)"
    using good unfolding once_good_def by blast+
  from call_step_cases [OF step t ok] have c: "call_ok w c" and
    cases: "\<not> ?o \<and> \<not> owning c \<and> w = cell s
      \<or> \<not> ?o \<and> owning c \<and> cell s = 0 \<and> w = SENTINEL_INITIALIZING
      \<or> ?o \<and> owning c \<and> w = cell s \<or> ?o \<and> \<not> owning c \<and> w \<noteq> SENTINEL_INITIALIZING" by blast+
  have free: "\<not> owning (calls s u)" if "u \<noteq> t" "?o \<or> owning c" for u
  proof (cases ?o)
    case True
    then show ?thesis using alone that(1) by blast
  next
    case False
    then have "cell s = 0" using cases that(2) by blast
    then show ?thesis using ok [of u] by (auto simp: call_ok_def SENTINEL_INITIALIZING_def)
  qed
  have "\<not> is_ready (cell s)" if "w \<noteq> cell s"
    using that cases ok [of t] by (auto simp: call_ok_def is_ready_def)
  moreover have "\<not> owning (calls s u)" if "u \<noteq> t" "w \<noteq> cell s" for u
    using free [OF that(1)] that(2) cases by blast
  ultimately have others: "call_ok w (calls s u)" if "u \<noteq> t" for u
    using call_ok_other [OF ok [of u]] ok [of u] that by (cases "w = cell s") auto
  have "\<exists>u. owning (((calls s)(t := c)) u)" if sent: "w = SENTINEL_INITIALIZING"
  proof (cases "owning c")
    case True
    then show ?thesis by auto
  next
    case False
    then have w: "\<not> ?o" "w = cell s" using cases sent by blast+
    then obtain u where "owning (calls s u)" using held sent by auto
    then show ?thesis using w(1) by (intro exI [of _ u]) auto
  qed
  then show ?thesis using c others free alone cases unfolding once_good_def by auto
qed

lemma once_step_good: "once_good s \<Longrightarrow> once_step s s' \<Longrightarrow> once_good s'"
  by (erule once_stepE) (auto intro: once_call_good once_run_good)

text \<open>A published pointer stays: readiness is never taken back.\<close>

lemma once_step_keeps:
  assumes "once_good s" and "once_step s s'" and "is_ready (cell s)"
  shows "cell s' = cell s"
  using assms(2)
proof (cases rule: once_step.cases)
  case (step_run t out w c)
  have "call_ok (cell s) (calls s t)" using assms(1) by (simp add: once_good_def)
  from call_step_cases [OF step_run(3,2) this] this assms(3) show ?thesis
    using step_run(1) by (auto simp: call_ok_def is_ready_def)
qed simp

interpretation once_life: ranked_system once_new once_step once_good "\<lambda>s. of_bool (is_ready (cell s))"
  by unfold_locales (use once_step_keeps in \<open>force intro: once_new_good once_step_good\<close>)+

lemma once_run_keeps:
  assumes "once_step\<^sup>*\<^sup>* s s'" and "once_good s" and "is_ready (cell s)"
  shows "cell s' = cell s"
  using assms
proof (induction rule: rtranclp_induct)
  case (step u v)
  then show ?case using once_step_keeps [of u v] once_life.run_good [of s u] by simp
qed simp

text \<open>A call running alone.\<close>

fun solo :: "nat \<Rightarrow> init_outcome \<Rightarrow> nat \<times> call \<Rightarrow> nat \<times> call" where
  "solo 0 out wc = wc"
| "solo (Suc n) out wc = solo n out (call_step out (fst wc) (snd wc))"

subsection \<open>Properties\<close>

text \<open>C26: However many calls interleave, in every reachable state at most one call is inside the
  initialisation, and the cell holds the sentinel exactly while one is; so neither a failed nor a
  panicking \<open>init\<close> leaves it behind.  As soon as the cell holds a pointer it holds that pointer in every
  later state: no other value, null and the sentinel included, is stored again, whether or not a call
  has answered.  Every call that answers with a pointer answers with the one in the cell.\<close>

theorem once_one_value:
  assumes "reachable once_new once_step s" and "once_step\<^sup>*\<^sup>* s s'"
  shows "(\<forall>t u. owning (calls s t) \<and> owning (calls s u) \<longrightarrow> t = u)
    \<and> (cell s = SENTINEL_INITIALIZING \<longleftrightarrow> (\<exists>t. owning (calls s t)))
    \<and> (is_ready (cell s) \<longrightarrow> cell s' = cell s)
    \<and> (\<forall>t p. answered (calls s t) = Some p \<longrightarrow> is_ready p \<and> cell s = p)
    \<and> (\<forall>t u p q. answered (calls s t) = Some p \<and> answered (calls s' u) = Some q \<longrightarrow> q = p)"
proof -
  have good: "once_good s" by (rule once_life.reachable_good [OF assms(1)])
  have good': "once_good s'" by (rule once_life.run_good [OF assms(2) good])
  have ans: "is_ready p \<and> cell s = p" if "answered (calls s t) = Some p" for t p
    using good that by (simp add: once_good_def call_ok_def)
  have kept: "is_ready (cell s) \<Longrightarrow> cell s' = cell s" by (rule once_run_keeps [OF assms(2) good])
  have "q = p" if "answered (calls s t) = Some p" "answered (calls s' u) = Some q" for t u p q
    using ans [OF that(1)] kept good' that(2) by (simp add: once_good_def call_ok_def)
  then show ?thesis using ans kept good unfolding once_good_def call_ok_def by blast
qed

text \<open>A call that starts when nobody is initialising and runs undisturbed returns within five
  accesses: with the pointer already published, else with the one its \<open>init\<close> yields; if
  \<open>init\<close> fails, it reports that and leaves the cell empty for the next call.\<close>

theorem once_solo_returns:
  assumes "w \<noteq> SENTINEL_INITIALIZING" and "\<forall>p. out = InitSome p \<longrightarrow> is_ready p"
  shows "\<exists>n \<le> 5. solo n out (w, Fresh) =
    (if is_ready w then (w, Returned (Some w))
     else case out of InitSome p \<Rightarrow> (p, Returned (Some p)) | InitNone \<Rightarrow> (0, Returned None)
        | InitPanic \<Rightarrow> (0, Panicked))"
proof (cases "is_ready w")
  case True
  then show ?thesis by (intro exI [of _ 1]) (simp add: fast_path_def)
next
  case False
  then have "w = 0" using assms(1) by (simp add: is_ready_def)
  with False assms(2) show ?thesis
    by (intro exI [of _ 5])
       (cases out; simp add: fast_path_def eval_nat_numeral guard_drop_def SENTINEL_INITIALIZING_def is_ready_def)
qed

text \<open>A run in which call 3 publishes the address 8.\<close>

definition once_at :: "nat \<Rightarrow> call \<Rightarrow> once_sys" where
  "once_at w c = \<lparr>cell = w, calls = (\<lambda>_. Outside)(3 := c)\<rparr>"

lemma once_at_step:
  assumes "reachable once_new once_step (once_at w c)" and "\<not> ended c" and "call_step out w c = (w', c')"
  shows "reachable once_new once_step (once_at w' c')"
proof -
  have "once_step (once_at w c) (once_at w' c')"
    using step_run [of "once_at w c" 3 out w' c'] assms(2,3) by (simp add: once_at_def)
  with assms(1) show ?thesis by (rule reach_step)
qed

lemma once_sample:
  "reachable once_new once_step (once_at 1 Running)"
  "reachable once_new once_step (once_at 8 (Returned (Some 8)))"
proof -
  have "once_new (once_at 0 Outside)" by (simp add: once_new_def once_at_def)
  then have "reachable once_new once_step (once_at 0 Outside)" by (rule reach_start)
  moreover have "once_step (once_at 0 Outside) (once_at 0 Fresh)"
    using step_call [of "once_at 0 Outside" 3 Fresh] by (simp add: once_at_def)
  ultimately have r: "reachable once_new once_step (once_at 0 Fresh)" by (rule reach_step)
  have "reachable once_new once_step (once_at 0 Looping)"
    by (rule once_at_step [OF r, where out = InitNone]) (simp_all add: fast_path_def is_ready_def)
  then have "reachable once_new once_step (once_at 0 Claiming)"
    by (rule once_at_step [where out = InitNone]) (simp_all add: is_ready_def)
  then show run: "reachable once_new once_step (once_at 1 Running)"
    by (rule once_at_step [where out = InitNone]) (simp_all add: SENTINEL_INITIALIZING_def)
  then have "reachable once_new once_step (once_at 1 (Publishing 8))"
    by (rule once_at_step [where out = "InitSome 8"]) (simp_all add: is_ready_def SENTINEL_INITIALIZING_def)
  then show "reachable once_new once_step (once_at 8 (Returned (Some 8)))"
    by (rule once_at_step [where out = InitNone]) (simp_all add: guard_drop_def)
qed

lemma once_one_value_witness:
  "(\<exists>s :: once_sys. cell s = SENTINEL_INITIALIZING \<and> (\<exists>!t. owning (calls s t)))
     \<and> (\<nexists>s'. once_step\<^sup>*\<^sup>* (once_at 8 (Returned (Some 8))) s' \<and> cell s' \<noteq> 8)"
proof -
  have c: "cell (once_at 1 Running) = SENTINEL_INITIALIZING" by (simp add: once_at_def SENTINEL_INITIALIZING_def)
  note one = once_one_value [OF once_sample(1) rtranclp.rtrancl_refl]
  have "\<exists>t. owning (calls (once_at 1 Running) t)" using one c by blast
  moreover have "\<forall>t u. owning (calls (once_at 1 Running) t) \<and> owning (calls (once_at 1 Running) u) \<longrightarrow> t = u" using one by blast
  ultimately have "\<exists>!t. owning (calls (once_at 1 Running) t)" by blast
  moreover have "is_ready (cell (once_at 8 (Returned (Some 8))))" "cell (once_at 8 (Returned (Some 8))) = 8"
    by (simp_all add: once_at_def is_ready_def SENTINEL_INITIALIZING_def)
  then have "cell s' = 8" if "once_step\<^sup>*\<^sup>* (once_at 8 (Returned (Some 8))) s'" for s'
    using once_one_value [OF once_sample(2) that] by simp
  ultimately show ?thesis using c by blast
qed

lemma once_solo_returns_witness: "\<exists>n \<le> 5. solo n (InitSome 16) (0, Fresh) = (16, Returned (Some 16))"
proof -
  have "(0 :: nat) \<noteq> SENTINEL_INITIALIZING" "\<forall>p. InitSome 16 = InitSome p \<longrightarrow> is_ready p"
    by (auto simp: SENTINEL_INITIALIZING_def is_ready_def)
  from once_solo_returns [OF this] show ?thesis by (simp add: is_ready_def)
qed

end
