(* ===== verification/TaggedStack.thy ===== *)
theory TaggedStack
  imports Interfaces
begin

text \<open>
  The lock-free index stack (\<open>crates/tagged-index-stack/src/imp.rs\<close>): a head word packing
  an index and a tag, links stored per index, push and pop by compare-and-swap.  A call is a
  small program whose steps are the accesses to the head and the links; calls of many threads
  interleave.  \<open>B\<close> is the const parameter \<open>INDEX_BITS\<close>; words, indices and tags
  are natural numbers with the checks of the code on their widths; debug assertions are on.
\<close>

type_synonym fault = string

subsection \<open>The head word\<close>

definition TAIL :: nat where "TAIL = 2 ^ 32 - 1"
definition INDEX_MASK :: "nat \<Rightarrow> nat" where "INDEX_MASK B = push_bit B 1 - 1"
definition TAG_BITS :: "nat \<Rightarrow> nat" where "TAG_BITS B = 64 - B"
definition TAG_MAX :: "nat \<Rightarrow> nat" where "TAG_MAX B = push_bit (TAG_BITS B) 1 - 1"

definition check_bits :: "nat \<Rightarrow> bool" where "check_bits B \<longleftrightarrow> 1 \<le> B \<and> B \<le> 16"

definition pack :: "nat \<Rightarrow> nat \<Rightarrow> nat \<Rightarrow> nat option" where
  "pack B index tag =
     (if push_bit B 1 \<le> index \<or> push_bit (TAG_BITS B) 1 \<le> tag then None
      else Some (push_bit B tag OR index))"

definition pack_truncating :: "nat \<Rightarrow> nat \<Rightarrow> nat \<Rightarrow> fault + nat" where
  "pack_truncating B index tag =
     (if \<not> index \<le> INDEX_MASK B then Inl ''pack_truncating: index out of range''
      else if \<not> tag \<le> TAG_MAX B then Inl ''pack_truncating: tag out of range''
      else Inr (push_bit B tag OR index))"

definition unpack :: "nat \<Rightarrow> nat \<Rightarrow> nat \<times> nat" where
  "unpack B w = (w AND INDEX_MASK B, drop_bit B w)"

definition empty_index :: "nat \<Rightarrow> nat" where "empty_index B = INDEX_MASK B"

definition bootstrap_empty :: "nat \<Rightarrow> fault + nat" where
  "bootstrap_empty B = pack_truncating B (INDEX_MASK B) 0"

definition is_empty :: "nat \<Rightarrow> nat \<Rightarrow> bool" where
  "is_empty B w \<longleftrightarrow> w AND INDEX_MASK B = INDEX_MASK B"

definition pushes_remaining :: "nat \<Rightarrow> nat \<Rightarrow> nat" where
  "pushes_remaining B w = (let (_, tag) = unpack B w in TAG_MAX B - tag)"

subsection \<open>Backoff\<close>

text \<open>The spins of one lost swap and the next state; the state counts lost swaps up to a cap.\<close>

definition BACKOFF_SPIN_CAP :: nat where "BACKOFF_SPIN_CAP = 6"

definition backoff_new :: nat where "backoff_new = 0"

definition backoff_spin :: "nat \<Rightarrow> nat \<times> nat" where
  "backoff_spin k = (push_bit k 1, if k < BACKOFF_SPIN_CAP then k + 1 else k)"

subsection \<open>The links\<close>

definition array_links_new :: "nat \<Rightarrow> nat list" where "array_links_new N = replicate N 0"

definition load_next :: "nat \<Rightarrow> nat list \<Rightarrow> fault + nat" where
  "load_next index links =
     (if length links \<le> index then Inl ''ArrayLinks index out of bounds'' else Inr (links ! index))"

definition store_next :: "nat \<Rightarrow> nat \<Rightarrow> nat list \<Rightarrow> fault + nat list" where
  "store_next index nxt links =
     (if length links \<le> index then Inl ''ArrayLinks index out of bounds''
      else Inr (links[index := nxt]))"

subsection \<open>Push and pop\<close>

text \<open>
  Where a call is, with its locals: the index, the head it last saw, the link it read, and the
  backoff state.
\<close>

datatype tis_call =
    Quiet
  | PushIndex nat | PushAt nat nat nat | PushCas nat nat nat
  | PopIndex | PopAt nat nat | PopCas nat nat nat
  | Pushed | Refused nat | Popped "nat option" | Panicked fault

definition push_start :: "nat \<Rightarrow> nat \<Rightarrow> nat \<Rightarrow> tis_call" where
  "push_start B w index =
     (if INDEX_MASK B \<le> index then Panicked ''index must be < INDEX_MASK''
      else PushAt index w backoff_new)"

definition link_of :: "nat \<Rightarrow> nat \<Rightarrow> nat" where
  "link_of B cur_idx = (if cur_idx = empty_index B then TAIL else cur_idx)"

definition push_store :: "nat \<Rightarrow> nat list \<Rightarrow> nat \<Rightarrow> nat \<Rightarrow> nat \<Rightarrow> nat list \<times> tis_call" where
  "push_store B links index head bk =
     (let (cur_idx, tag) = unpack B head in
      if tag = TAG_MAX B then (links, Refused index)
      else case store_next index (link_of B cur_idx) links of
          Inl e \<Rightarrow> (links, Panicked e)
        | Inr links' \<Rightarrow> (links', PushCas index head bk))"

definition push_cas :: "nat \<Rightarrow> nat \<Rightarrow> nat \<Rightarrow> nat \<Rightarrow> nat \<Rightarrow> nat \<times> tis_call" where
  "push_cas B w index head bk =
     (let (_, tag) = unpack B head; new_tag = tag + 1 in
      case pack_truncating B index new_tag of
        Inl e \<Rightarrow> (w, Panicked e)
      | Inr new_head \<Rightarrow>
          if w = head then (new_head, Pushed)
          else (w, PushAt index w (snd (backoff_spin bk))))"

definition pop_load :: "nat \<Rightarrow> nat list \<Rightarrow> nat \<Rightarrow> nat \<Rightarrow> tis_call" where
  "pop_load B links head bk =
     (if is_empty B head then Popped None
      else
        let (index, tag) = unpack B head in
        case load_next index links of
          Inl e \<Rightarrow> Panicked e
        | Inr nxt \<Rightarrow>
            if nxt \<noteq> TAIL \<and> (INDEX_MASK B \<le> nxt \<or> nxt = index)
            then Panicked ''load_next returned an invalid link''
            else PopCas head nxt bk)"

definition pop_cas :: "nat \<Rightarrow> nat \<Rightarrow> nat \<Rightarrow> nat \<Rightarrow> nat \<Rightarrow> nat \<times> tis_call" where
  "pop_cas B w head nxt bk =
     (let (index, tag) = unpack B head in
      case pack_truncating B (if nxt = TAIL then empty_index B else nxt) tag of
        Inl e \<Rightarrow> (w, Panicked e)
      | Inr new_head \<Rightarrow>
          if w = head then (new_head, Popped (Some index))
          else (w, PopAt w (if \<not> is_empty B w then snd (backoff_spin bk) else bk)))"

text \<open>One access of a call: the head, the links and where the call is afterwards.\<close>

fun tis_step :: "nat \<Rightarrow> nat \<Rightarrow> nat list \<Rightarrow> tis_call \<Rightarrow> nat \<times> nat list \<times> tis_call" where
  "tis_step B w links (PushIndex i) = (w, links, push_start B w i)"
| "tis_step B w links (PushAt i head bk) = (let (links', c) = push_store B links i head bk in (w, links', c))"
| "tis_step B w links (PushCas i head bk) = (let (w', c) = push_cas B w i head bk in (w', links, c))"
| "tis_step B w links PopIndex = (w, links, PopAt w backoff_new)"
| "tis_step B w links (PopAt head bk) = (w, links, pop_load B links head bk)"
| "tis_step B w links (PopCas head nxt bk) = (let (w', c) = pop_cas B w head nxt bk in (w', links, c))"
| "tis_step B w links c = (w, links, c)"

subsection \<open>Words as pairs\<close>

lemma index_mask: "INDEX_MASK B = 2 ^ B - 1"
  by (simp add: INDEX_MASK_def)

lemma tag_max: "TAG_MAX B = 2 ^ (64 - B) - 1"
  by (simp add: TAG_MAX_def TAG_BITS_def)

lemma unpack_div: "unpack B w = (w mod 2 ^ B, w div 2 ^ B)"
  unfolding unpack_def index_mask using and_pred_two_pow [of w B] by (simp add: drop_bit_eq_div)

lemma pack_word: "index < 2 ^ B \<Longrightarrow> push_bit B tag OR index = tag * 2 ^ B + (index :: nat)"
  by (simp add: or_low_bits [of _ B] push_bit_eq_mult)

lemma pack_truncating_eq:
  "index < 2 ^ B \<Longrightarrow> tag \<le> TAG_MAX B \<Longrightarrow> pack_truncating B index tag = Inr (tag * 2 ^ B + index)"
  by (auto simp: pack_truncating_def pack_word index_mask)

lemma unpack_pack: "index < 2 ^ B \<Longrightarrow> unpack B (tag * 2 ^ B + index) = (index, tag)"
  by (simp add: unpack_div)

definition idx :: "nat \<Rightarrow> nat \<Rightarrow> nat" where "idx B w = fst (unpack B w)"
definition tg :: "nat \<Rightarrow> nat \<Rightarrow> nat" where "tg B w = snd (unpack B w)"

lemma idx_tg_pack [simp]:
  "index < 2 ^ B \<Longrightarrow> idx B (tag * 2 ^ B + index) = index"
  "index < 2 ^ B \<Longrightarrow> tg B (tag * 2 ^ B + index) = tag"
  by (simp_all add: idx_def tg_def unpack_pack)

lemma unpack_idx_tg: "unpack B w = (idx B w, tg B w)"
  by (simp add: idx_def tg_def)

lemma idx_less: "idx B w < 2 ^ B"
  by (simp add: idx_def unpack_div)

lemma word_eq: "w = w' \<longleftrightarrow> idx B w = idx B w' \<and> tg B w = tg B w'"
  by (auto simp: idx_def tg_def unpack_div) (metis mult_div_mod_eq)

lemma is_empty_idx: "is_empty B w \<longleftrightarrow> idx B w = INDEX_MASK B"
  by (simp add: is_empty_def idx_def unpack_def)

subsection \<open>Many calls\<close>

text \<open>
  \<open>owned\<close> are the indices callers hold: only an owned index is pushed, a popped or a
  refused one is owned again.
\<close>

record tis_sys =
  head_word :: nat
  links :: "nat list"
  threads :: "nat \<Rightarrow> tis_call"
  owned :: "nat set"

fun quiet :: "tis_call \<Rightarrow> bool" where
  "quiet Quiet = True"
| "quiet Pushed = True"
| "quiet (Refused i) = True"
| "quiet (Popped r) = True"
| "quiet (Panicked e) = True"
| "quiet c = False"

fun handed_back :: "tis_call \<Rightarrow> nat set" where
  "handed_back (Refused i) = {i}"
| "handed_back (Popped (Some i)) = {i}"
| "handed_back c = {}"

inductive stack_step :: "nat \<Rightarrow> tis_sys \<Rightarrow> tis_sys \<Rightarrow> bool" for B :: nat where
  step_push: "quiet (threads s t) \<Longrightarrow> i \<in> owned s
    \<Longrightarrow> stack_step B s (s\<lparr>threads := (threads s)(t := PushIndex i), owned := owned s - {i}\<rparr>)"
| step_pop: "quiet (threads s t) \<Longrightarrow> stack_step B s (s\<lparr>threads := (threads s)(t := PopIndex)\<rparr>)"
| step_access: "\<not> quiet (threads s t) \<Longrightarrow> tis_step B (head_word s) (links s) (threads s t) = (w, ls, c)
    \<Longrightarrow> stack_step B s (s\<lparr>head_word := w, links := ls, threads := (threads s)(t := c),
      owned := owned s \<union> handed_back c\<rparr>)"

inductive_cases stack_stepE: "stack_step B s s'"

definition stack_start :: "nat \<Rightarrow> nat \<Rightarrow> tis_sys \<Rightarrow> bool" where
  "stack_start B N s \<longleftrightarrow> check_bits B \<and> N \<le> INDEX_MASK B \<and> bootstrap_empty B = Inr (head_word s)
     \<and> links s = array_links_new N \<and> (\<forall>t. threads s t = Quiet) \<and> owned s = {..<N}"

subsection \<open>The invariant\<close>

text \<open>\<open>chain B ls st\<close>: the links follow the abstract stack \<open>st\<close> down to its bottom.\<close>

fun chain :: "nat list \<Rightarrow> nat list \<Rightarrow> bool" where
  "chain ls [] = True"
| "chain ls (x # xs) = (ls ! x = hd (xs @ [TAIL]) \<and> chain ls xs)"

definition top_idx :: "nat \<Rightarrow> nat list \<Rightarrow> nat" where
  "top_idx B st = hd (st @ [empty_index B])"

definition sound_link :: "nat \<Rightarrow> nat list \<Rightarrow> nat \<Rightarrow> bool" where
  "sound_link B ls x \<longleftrightarrow> ls ! x = TAIL \<or> ls ! x < INDEX_MASK B \<and> ls ! x \<noteq> x"

fun pushing :: "tis_call \<Rightarrow> nat option" where
  "pushing (PushIndex i) = Some i"
| "pushing (PushAt i h bk) = Some i"
| "pushing (PushCas i h bk) = Some i"
| "pushing c = None"

text \<open>
  What a call in progress knows: the head it saw has a tag that is not ahead, and if a popper's
  tag is still current then either nothing changed or its index left the stack.
\<close>

definition seen_top :: "nat \<Rightarrow> nat \<Rightarrow> nat list \<Rightarrow> nat list \<Rightarrow> nat \<Rightarrow> bool" where
  "seen_top B w ls st h \<longleftrightarrow> tg B h \<le> tg B w
     \<and> (idx B h \<noteq> INDEX_MASK B \<longrightarrow> idx B h < length ls \<and> sound_link B ls (idx B h)
          \<and> (tg B h = tg B w \<longrightarrow> w = h \<or> idx B h \<notin> set st))"

fun call_inv :: "nat \<Rightarrow> nat \<Rightarrow> nat list \<Rightarrow> nat list \<Rightarrow> tis_call \<Rightarrow> bool" where
  "call_inv B w ls st (PushAt i h bk) = (idx B h \<noteq> i \<and> tg B h \<le> tg B w)"
| "call_inv B w ls st (PushCas i h bk) = (idx B h \<noteq> i \<and> tg B h \<le> tg B w \<and> tg B h < TAG_MAX B
     \<and> ls ! i = link_of B (idx B h))"
| "call_inv B w ls st (PopAt h bk) = seen_top B w ls st h"
| "call_inv B w ls st (PopCas h n bk) = (idx B h \<noteq> INDEX_MASK B \<and> seen_top B w ls st h
     \<and> (n = TAIL \<or> n < INDEX_MASK B \<and> n \<noteq> idx B h) \<and> (w = h \<longrightarrow> n = ls ! idx B h))"
| "call_inv B w ls st (Panicked e) = False"
| "call_inv B w ls st c = True"

definition stack_shape :: "nat \<Rightarrow> nat \<Rightarrow> nat \<Rightarrow> nat list \<Rightarrow> nat list \<Rightarrow> bool" where
  "stack_shape B N w ls st \<longleftrightarrow> check_bits B \<and> N \<le> INDEX_MASK B \<and> length ls = N
     \<and> idx B w = top_idx B st \<and> tg B w \<le> TAG_MAX B
     \<and> chain ls st \<and> distinct st \<and> (\<forall>x \<in> set st. x < N \<and> sound_link B ls x)"

text \<open>Every index is owned, on the stack, or being pushed by exactly one call.\<close>

definition own_ok :: "nat \<Rightarrow> nat set \<Rightarrow> nat set \<Rightarrow> (nat \<Rightarrow> nat option) \<Rightarrow> bool" where
  "own_ok N W S P \<longleftrightarrow> (\<forall>i \<in> W. i < N \<and> i \<notin> S) \<and> (\<forall>i \<in> S. i < N)
     \<and> (\<forall>t i. P t = Some i \<longrightarrow> i < N \<and> i \<notin> S \<and> i \<notin> W)
     \<and> (\<forall>t u i. P t = Some i \<and> P u = Some i \<longrightarrow> t = u)
     \<and> (\<forall>i < N. i \<in> W \<or> i \<in> S \<or> (\<exists>t. P t = Some i))"

definition stack_inv :: "nat \<Rightarrow> nat \<Rightarrow> tis_sys \<Rightarrow> nat list \<Rightarrow> bool" where
  "stack_inv B N s st \<longleftrightarrow> stack_shape B N (head_word s) (links s) st
     \<and> own_ok N (owned s) (set st) (\<lambda>t. pushing (threads s t))
     \<and> (\<forall>t. call_inv B (head_word s) (links s) st (threads s t))"

lemma own_start_push: "own_ok N W S P \<Longrightarrow> i \<in> W \<Longrightarrow> P t = None \<Longrightarrow> own_ok N (W - {i}) S (P(t \<mapsto> i))"
  unfolding own_ok_def by (auto split: if_splits) (metis option.distinct(1))

lemma own_refuse: "own_ok N W S P \<Longrightarrow> P t = Some i \<Longrightarrow> own_ok N (W \<union> {i}) S (P(t := None))"
  unfolding own_ok_def by (auto split: if_splits) (metis option.sel)+

lemma own_pushed: "own_ok N W S P \<Longrightarrow> P t = Some i \<Longrightarrow> own_ok N W (insert i S) (P(t := None))"
  unfolding own_ok_def by (auto split: if_splits) (metis option.sel)+

lemma own_popped: "own_ok N W S P \<Longrightarrow> i \<in> S \<Longrightarrow> own_ok N (W \<union> {i}) (S - {i}) P"
  unfolding own_ok_def by auto

lemma pushing_upd: "(\<lambda>u. pushing ((th(t := c)) u)) = (\<lambda>u. pushing (th u))(t := pushing c)"
  by auto

text \<open>A call moves on without changing the stack.\<close>

lemma stack_call_moves:
  assumes inv: "stack_inv B N s st" and "pushing c = pushing (threads s t)"
    and "call_inv B (head_word s) (links s) st c"
  shows "stack_inv B N (s\<lparr>threads := (threads s)(t := c)\<rparr>) st"
proof -
  have "(\<lambda>u. pushing (threads s u))(t := pushing c) = (\<lambda>u. pushing (threads s u))"
    using assms(2) by auto
  then have "own_ok N (owned s) (set st) (\<lambda>u. pushing (((threads s)(t := c)) u))"
    using inv by (simp only: pushing_upd) (simp add: stack_inv_def)
  then show ?thesis using inv assms(3) by (auto simp: stack_inv_def)
qed

lemma mask_less: "check_bits B \<Longrightarrow> INDEX_MASK B < 2 ^ B \<and> INDEX_MASK B < TAIL"
proof -
  assume "check_bits B"
  then have "B \<le> 16" by (simp add: check_bits_def)
  then have "(2::nat) ^ B \<le> 2 ^ 16" by (intro power_increasing) simp_all
  then show ?thesis by (simp add: index_mask TAIL_def)
qed

lemma seen_self:
  assumes "stack_shape B N w ls st"
  shows "seen_top B w ls st w"
proof (cases st)
  case Nil
  then show ?thesis using assms by (simp add: seen_top_def stack_shape_def top_idx_def empty_index_def)
next
  case (Cons x xs)
  then show ?thesis using assms by (simp add: seen_top_def stack_shape_def top_idx_def)
qed

lemma chain_cong: "(\<And>x. x \<in> set st \<Longrightarrow> ls' ! x = ls ! x) \<Longrightarrow> chain ls' st = chain ls st"
  by (induction st) auto

lemma top_member:
  "stack_shape B N w ls st \<Longrightarrow> idx B w \<noteq> INDEX_MASK B \<Longrightarrow> idx B w \<in> set st"
  by (cases st) (auto simp: stack_shape_def top_idx_def empty_index_def)

lemma link_sound:
  assumes "check_bits B" and "idx B h \<noteq> i" and "ls ! i = link_of B (idx B h)"
  shows "sound_link B ls i"
proof (cases "idx B h = empty_index B")
  case False
  then have "idx B h < INDEX_MASK B" using idx_less [of B h] by (simp add: index_mask empty_index_def)
  then show ?thesis using assms False by (simp add: sound_link_def link_of_def)
qed (use assms in \<open>simp add: sound_link_def link_of_def\<close>)

text \<open>Storing the link of an index that is being pushed disturbs nobody.\<close>

lemma store_call_inv:
  assumes shape: "stack_shape B N w ls st" and i: "i < N" "i \<notin> set st"
    and link: "sound_link B (ls[i := v]) i" and c: "call_inv B w ls st c" and other: "pushing c \<noteq> Some i"
  shows "call_inv B w (ls[i := v]) st c"
proof -
  have len: "length ls = N" using shape by (simp add: stack_shape_def)
  have sl: "sound_link B (ls[i := v]) x" if "sound_link B ls x" for x
  proof (cases "x = i")
    case False
    then show ?thesis using that by (simp add: sound_link_def)
  qed (use link in simp)
  have seen: "seen_top B w (ls[i := v]) st h" if "seen_top B w ls st h" for h
    using that sl by (auto simp: seen_top_def)
  have top: "idx B w \<noteq> i" if "idx B w \<noteq> INDEX_MASK B" using top_member [OF shape that] i(2) by blast
  show ?thesis using c other seen top by (cases c) auto
qed

lemma store_shape:
  assumes "stack_shape B N w ls st" and "i \<notin> set st"
  shows "stack_shape B N w (ls[i := v]) st"
proof -
  have e: "(ls[i := v]) ! x = ls ! x" if "x \<in> set st" for x using that assms(2) by (metis nth_list_update_neq)
  have "chain (ls[i := v]) st = chain ls st" by (rule chain_cong) (rule e)
  then show ?thesis using assms(1) e by (auto simp: stack_shape_def sound_link_def)
qed

lemma stack_store:
  assumes inv: "stack_inv B N s st" and t: "threads s t = PushAt i h bk" and tag: "tg B h \<noteq> TAG_MAX B"
  defines "ls \<equiv> (links s)[i := link_of B (idx B h)]"
  shows "push_store B (links s) i h bk = (ls, PushCas i h bk)
    \<and> stack_inv B N (s\<lparr>links := ls, threads := (threads s)(t := PushCas i h bk)\<rparr>) st"
proof -
  from inv have shape: "stack_shape B N (head_word s) (links s) st"
    and own: "own_ok N (owned s) (set st) (\<lambda>t. pushing (threads s t))"
    and calls: "\<And>u. call_inv B (head_word s) (links s) st (threads s u)" by (simp_all add: stack_inv_def)
  have p: "pushing (threads s t) = Some i" by (simp add: t)
  then have i: "i < N" "i \<notin> set st" using own unfolding own_ok_def by blast+
  have len: "length (links s) = N" and cb: "check_bits B" and mx: "tg B (head_word s) \<le> TAG_MAX B"
    using shape by (simp_all add: stack_shape_def)
  have h: "idx B h \<noteq> i" "tg B h \<le> tg B (head_word s)" using calls [of t] t by simp_all
  have ls_i: "ls ! i = link_of B (idx B h)" using i(1) len by (simp add: ls_def)
  have link: "sound_link B ls i" by (rule link_sound [OF cb h(1) ls_i])
  have run: "push_store B (links s) i h bk = (ls, PushCas i h bk)"
    using tag i(1) len by (simp add: push_store_def unpack_idx_tg store_next_def ls_def)
  have alone: "pushing (threads s u) \<noteq> Some i" if "u \<noteq> t" for u
    using own p that unfolding own_ok_def by blast
  have others: "call_inv B (head_word s) ls st (threads s u)" if "u \<noteq> t" for u
    unfolding ls_def by (rule store_call_inv [OF shape i link [unfolded ls_def] calls alone [OF that]])
  have "tg B h < TAG_MAX B" using h(2) mx tag by simp
  then have mine: "call_inv B (head_word s) ls st (PushCas i h bk)" using h ls_i by simp
  have "(\<lambda>u. pushing (threads s u))(t := pushing (PushCas i h bk)) = (\<lambda>u. pushing (threads s u))"
    using p by auto
  then have "own_ok N (owned s) (set st) (\<lambda>u. pushing (((threads s)(t := PushCas i h bk)) u))"
    using own by (simp only: pushing_upd)
  moreover have "stack_shape B N (head_word s) ls st" unfolding ls_def by (rule store_shape [OF shape i(2)])
  ultimately show ?thesis using run mine others by (auto simp: stack_inv_def)
qed

text \<open>A successful push: every other call now sees a tag that is behind.\<close>

lemma push_call_inv:
  assumes "call_inv B w ls st c" and "tg B w < tg B w'"
  shows "call_inv B w' ls st' c"
proof -
  have "w' \<noteq> h" if "tg B h \<le> tg B w" for h using that assms(2) by auto
  moreover have "seen_top B w' ls st' h" if "seen_top B w ls st h" for h
    using that assms(2) by (auto simp: seen_top_def)
  ultimately show ?thesis using assms by (cases c) (auto simp: seen_top_def)
qed

lemma stack_push:
  assumes inv: "stack_inv B N s st" and t: "threads s t = PushCas i h bk" and w: "head_word s = h"
  defines "w' \<equiv> (tg B h + 1) * 2 ^ B + i"
  shows "push_cas B (head_word s) i h bk = (w', Pushed)
    \<and> stack_inv B N (s\<lparr>head_word := w', threads := (threads s)(t := Pushed)\<rparr>) (i # st)"
proof -
  from inv have shape: "stack_shape B N (head_word s) (links s) st"
    and own: "own_ok N (owned s) (set st) (\<lambda>t. pushing (threads s t))"
    and calls: "\<And>u. call_inv B (head_word s) (links s) st (threads s u)" by (simp_all add: stack_inv_def)
  have p: "pushing (threads s t) = Some i" by (simp add: t)
  then have i: "i < N" "i \<notin> set st" using own unfolding own_ok_def by blast+
  have sh: "check_bits B" "N \<le> INDEX_MASK B" "idx B h = top_idx B st" "chain (links s) st"
    using shape w by (simp_all add: stack_shape_def)
  have ib: "i < 2 ^ B" using i(1) sh(2) by (simp add: index_mask)
  have h: "idx B h \<noteq> i" "tg B h < TAG_MAX B" "links s ! i = link_of B (idx B h)" using calls [of t] t by simp_all
  have word: "idx B w' = i" "tg B w' = tg B h + 1" unfolding w'_def by (rule idx_tg_pack [OF ib])+
  have "pack_truncating B i (tg B h + 1) = Inr w'"
    unfolding w'_def by (rule pack_truncating_eq [OF ib]) (use h(2) in simp)
  then have run: "push_cas B (head_word s) i h bk = (w', Pushed)"
    using w by (simp add: push_cas_def unpack_idx_tg Let_def)
  have "top_idx B (i # st) = i" by (simp add: top_idx_def)
  moreover have "links s ! i = hd (st @ [TAIL])"
  proof (cases st)
    case Nil
    then show ?thesis using h(3) sh(3) by (simp add: link_of_def top_idx_def)
  next
    case (Cons x xs)
    then have "x \<noteq> empty_index B" using shape by (auto simp: stack_shape_def empty_index_def)
    with Cons show ?thesis using h(3) sh(3) by (simp add: link_of_def top_idx_def)
  qed
  ultimately have shape': "stack_shape B N w' (links s) (i # st)"
    using shape i word h(2) link_sound [OF sh(1) h(1,3)] by (simp add: stack_shape_def)
  have "own_ok N (owned s) (insert i (set st)) ((\<lambda>u. pushing (threads s u))(t := None))"
    by (rule own_pushed [OF own p])
  then have own': "own_ok N (owned s) (set (i # st)) (\<lambda>u. pushing (((threads s)(t := Pushed)) u))"
    by (simp only: pushing_upd pushing.simps list.set)
  have "tg B (head_word s) < tg B w'" using word w by simp
  then have "call_inv B w' (links s) (i # st) (threads s u)" for u by (rule push_call_inv [OF calls])
  with run shape' own' show ?thesis by (auto simp: stack_inv_def)
qed

text \<open>A successful pop takes exactly the top: same tag, so nothing was pushed in between.\<close>

lemma pop_call_inv:
  assumes c: "call_inv B w ls (x # st) c" and same: "tg B w' = tg B w"
    and x: "idx B w = x" "x \<notin> set st" and w': "idx B w' = top_idx B st"
  shows "call_inv B w' ls st c"
proof -
  have ne: "w' \<noteq> w" if "idx B w' \<noteq> INDEX_MASK B"
  proof -
    have "idx B w' \<in> set st" using that w' by (cases st) (simp_all add: top_idx_def empty_index_def)
    then show ?thesis using x by auto
  qed
  have seen: "seen_top B w' ls st h" if "seen_top B w ls (x # st) h" for h
    using that same x by (auto simp: seen_top_def)
  have "w' \<noteq> h" if "seen_top B w ls (x # st) h" "idx B h \<noteq> INDEX_MASK B" for h
  proof
    assume h: "w' = h"
    with that(2) have "idx B w' \<noteq> INDEX_MASK B" by simp
    from ne [OF this] have "w \<noteq> h" using h by simp
    moreover have "tg B h = tg B w" using same h by simp
    ultimately have "idx B h \<notin> set (x # st)" using that unfolding seen_top_def by blast
    moreover have "idx B h \<in> set st" using that(2) w' h by (cases st) (simp_all add: top_idx_def empty_index_def)
    ultimately show False by simp
  qed
  with seen c same show ?thesis by (cases c) auto
qed

lemma stack_pop:
  assumes inv: "stack_inv B N s st" and t: "threads s t = PopCas h n bk" and w: "head_word s = h"
  shows "\<exists>x st' w'. st = x # st' \<and> pop_cas B (head_word s) h n bk = (w', Popped (Some x))
    \<and> stack_inv B N (s\<lparr>head_word := w', threads := (threads s)(t := Popped (Some x)), owned := owned s \<union> {x}\<rparr>) st'"
proof -
  from inv have shape: "stack_shape B N (head_word s) (links s) st"
    and own: "own_ok N (owned s) (set st) (\<lambda>t. pushing (threads s t))"
    and calls: "\<And>u. call_inv B (head_word s) (links s) st (threads s u)" by (simp_all add: stack_inv_def)
  have h: "idx B h \<noteq> INDEX_MASK B" "n = links s ! idx B h" using calls [of t] t w by simp_all
  have sh: "check_bits B" "N \<le> INDEX_MASK B" "idx B h = top_idx B st" "tg B h \<le> TAG_MAX B"
    using shape w by (simp_all add: stack_shape_def)
  obtain x st' where st: "st = x # st'" using h(1) sh(3) by (cases st) (simp_all add: top_idx_def empty_index_def)
  have x: "idx B h = x" "x \<notin> set st'" "x \<in> set st" using sh(3) st shape by (simp_all add: top_idx_def stack_shape_def)
  have n: "n = hd (st' @ [TAIL])" using h(2) x shape st by (simp add: stack_shape_def)
  have in_st: "y < 2 ^ B \<and> y \<noteq> TAIL \<and> y \<noteq> empty_index B" if "y \<in> set st" for y
    using that shape sh(2) mask_less [OF sh(1)] by (auto simp: stack_shape_def empty_index_def)
  let ?i = "if n = TAIL then empty_index B else n"
  have i: "?i = top_idx B st' \<and> ?i < 2 ^ B"
    using n in_st st mask_less [OF sh(1)] by (cases st') (auto simp: top_idx_def empty_index_def)
  let ?w = "tg B h * 2 ^ B + ?i"
  have word: "idx B ?w = top_idx B st'" "tg B ?w = tg B h"
    using idx_tg_pack [of ?i B "tg B h"] i by simp_all
  have "pack_truncating B ?i (tg B h) = Inr ?w" by (rule pack_truncating_eq) (use i sh(4) in simp_all)
  then have run: "pop_cas B (head_word s) h n bk = (?w, Popped (Some x))"
    using w x(1) by (simp add: pop_cas_def unpack_idx_tg Let_def)
  have shape': "stack_shape B N ?w (links s) st'"
    using shape word sh(4) st by (simp add: stack_shape_def)
  have "own_ok N (owned s \<union> {x}) (set st - {x}) (\<lambda>u. pushing (threads s u))"
    by (rule own_popped [OF own x(3)])
  moreover have "set st - {x} = set st'" using st x(2) by auto
  moreover have "(\<lambda>u. pushing (((threads s)(t := Popped (Some x))) u)) = (\<lambda>u. pushing (threads s u))"
    using t by auto
  ultimately have own': "own_ok N (owned s \<union> {x}) (set st') (\<lambda>u. pushing (((threads s)(t := Popped (Some x))) u))"
    by simp
  have "tg B ?w = tg B (head_word s)" "idx B (head_word s) = x" using word(2) w x(1) by simp_all
  then have "call_inv B ?w (links s) st' (threads s u)" for u
    using pop_call_inv [OF calls [of u, unfolded st]] x(2) word(1) by blast
  then have "stack_inv B N (s\<lparr>head_word := ?w, threads := (threads s)(t := Popped (Some x)),
      owned := owned s \<union> {x}\<rparr>) st'"
    using shape' own' by (auto simp: stack_inv_def)
  with run st show ?thesis by blast
qed

text \<open>What an access does to the abstract stack, from where the call was and is.\<close>

definition stack_effect :: "tis_call \<Rightarrow> tis_call \<Rightarrow> nat list \<Rightarrow> nat list \<Rightarrow> bool" where
  "stack_effect b c st st' \<longleftrightarrow>
     (case c of Popped (Some x) \<Rightarrow> st = x # st'
      | Pushed \<Rightarrow> (\<exists>i. pushing b = Some i \<and> st' = i # st)
      | Refused i \<Rightarrow> pushing b = Some i \<and> st' = st
      | _ \<Rightarrow> st' = st)"

lemma pop_load_ok:
  assumes "stack_shape B N w ls st" and "seen_top B w ls st h"
  shows "pushing (pop_load B ls h bk) = None \<and> handed_back (pop_load B ls h bk) = {}
    \<and> call_inv B w ls st (pop_load B ls h bk) \<and> (\<forall>x. pop_load B ls h bk \<noteq> Popped (Some x))
    \<and> pop_load B ls h bk \<noteq> Pushed"
proof (cases "idx B h = INDEX_MASK B")
  case False
  then have "idx B h < length ls" "sound_link B ls (idx B h)" using assms(2) by (simp_all add: seen_top_def)
  with False assms show ?thesis
    by (auto simp: pop_load_def is_empty_idx unpack_idx_tg load_next_def sound_link_def)
qed (simp add: pop_load_def is_empty_idx)

lemma push_cas_lost:
  assumes "i < 2 ^ B" and "tg B h < TAG_MAX B" and "w \<noteq> h"
  shows "push_cas B w i h bk = (w, PushAt i w (snd (backoff_spin bk)))"
  using assms pack_truncating_eq [of i B "Suc (tg B h)"] by (simp add: push_cas_def unpack_idx_tg Let_def)

lemma pop_cas_lost:
  assumes "n = TAIL \<or> n < 2 ^ B" and "tg B h \<le> TAG_MAX B" and "w \<noteq> h"
  shows "\<exists>bk'. pop_cas B w h n bk = (w, PopAt w bk')"
proof -
  have "empty_index B < 2 ^ B" by (simp add: empty_index_def index_mask)
  then show ?thesis
    using assms pack_truncating_eq [of "if n = TAIL then empty_index B else n" B "tg B h"]
    by (auto simp: pop_cas_def unpack_idx_tg Let_def)
qed

definition moved :: "tis_sys \<Rightarrow> nat \<Rightarrow> nat \<times> nat list \<times> tis_call \<Rightarrow> tis_sys" where
  "moved s t r = (case r of (w, ls, c) \<Rightarrow> s\<lparr>head_word := w, links := ls,
     threads := (threads s)(t := c), owned := owned s \<union> handed_back c\<rparr>)"

lemma moved_quietly:
  assumes "stack_inv B N s st" and "pushing c = pushing (threads s t)"
    and "call_inv B (head_word s) (links s) st c" and "handed_back c = {}"
  shows "stack_inv B N (moved s t (head_word s, links s, c)) st"
  using stack_call_moves [OF assms(1-3)] assms(4) by (simp add: moved_def)

lemma push_start_ok:
  assumes inv: "stack_inv B N s st" and t: "threads s t = PushIndex i"
  shows "push_start B (head_word s) i = PushAt i (head_word s) 0
    \<and> call_inv B (head_word s) (links s) st (PushAt i (head_word s) 0)"
proof -
  from inv have shape: "stack_shape B N (head_word s) (links s) st"
    and own: "own_ok N (owned s) (set st) (\<lambda>t. pushing (threads s t))" by (simp_all add: stack_inv_def)
  have "pushing (threads s t) = Some i" by (simp add: t)
  then have i: "i < N" "i \<notin> set st" using own unfolding own_ok_def by blast+
  then have "i < INDEX_MASK B" using shape by (simp add: stack_shape_def)
  moreover have "idx B (head_word s) \<noteq> i"
    using top_member [OF shape] i(2) \<open>i < INDEX_MASK B\<close> by (metis nat_neq_iff)
  ultimately show ?thesis by (simp add: push_start_def backoff_new_def)
qed

lemma push_refused:
  assumes inv: "stack_inv B N s st" and t: "threads s t = PushAt i h bk"
  shows "stack_inv B N (moved s t (head_word s, links s, Refused i)) st"
proof -
  from inv have own: "own_ok N (owned s) (set st) (\<lambda>t. pushing (threads s t))" by (simp add: stack_inv_def)
  have "pushing (threads s t) = Some i" by (simp add: t)
  from own_refuse [OF own this]
  have "own_ok N (owned s \<union> {i}) (set st) (\<lambda>u. pushing (((threads s)(t := Refused i)) u))"
    by (simp only: pushing_upd pushing.simps)
  with inv show ?thesis by (auto simp: stack_inv_def moved_def)
qed

subsection \<open>Every step\<close>

text \<open>Every access of a call keeps the invariant; the stack changes by one push or one pop.\<close>

lemma stack_access:
  assumes inv: "stack_inv B N s st" and nq: "\<not> quiet (threads s t)"
    and run: "tis_step B (head_word s) (links s) (threads s t) = r"
  shows "\<exists>st'. stack_inv B N (moved s t r) st' \<and> stack_effect (threads s t) (snd (snd r)) st st'"
proof -
  from inv have shape: "stack_shape B N (head_word s) (links s) st"
    and calls: "\<And>u. call_inv B (head_word s) (links s) st (threads s u)" by (simp_all add: stack_inv_def)
  have mx: "tg B (head_word s) \<le> TAG_MAX B" and mk: "INDEX_MASK B < 2 ^ B" "N \<le> INDEX_MASK B"
    using shape mask_less by (simp_all add: stack_shape_def)
  show ?thesis
  proof (cases "threads s t")
    case (PushIndex i)
    from push_start_ok [OF inv PushIndex] have r: "r = (head_word s, links s, PushAt i (head_word s) 0)"
      and c: "call_inv B (head_word s) (links s) st (PushAt i (head_word s) 0)" using run PushIndex by auto
    show ?thesis using moved_quietly [OF inv _ c] PushIndex unfolding r by (auto simp: stack_effect_def)
  next
    case (PushAt i h bk)
    show ?thesis
    proof (cases "tg B h = TAG_MAX B")
      case True
      then have r: "r = (head_word s, links s, Refused i)"
        using run PushAt by (simp add: push_store_def unpack_idx_tg)
      show ?thesis using push_refused [OF inv PushAt] PushAt unfolding r by (auto simp: stack_effect_def)
    next
      case False
      let ?ls = "(links s)[i := link_of B (idx B h)]"
      from stack_store [OF inv PushAt False] have r: "r = (head_word s, ?ls, PushCas i h bk)"
        and good: "stack_inv B N (s\<lparr>links := ?ls, threads := (threads s)(t := PushCas i h bk)\<rparr>) st"
        using run PushAt by auto
      from good show ?thesis unfolding r by (auto simp: moved_def stack_effect_def)
    qed
  next
    case (PushCas i h bk)
    have c: "idx B h \<noteq> i" "tg B h < TAG_MAX B" using calls [of t] PushCas by simp_all
    have p: "pushing (threads s t) = Some i" by (simp add: PushCas)
    then have i: "i < N" "i \<notin> set st" using inv unfolding stack_inv_def own_ok_def by blast+
    show ?thesis
    proof (cases "head_word s = h")
      case True
      from stack_push [OF inv PushCas this] run PushCas show ?thesis
        by (auto simp: moved_def stack_effect_def)
    next
      case False
      let ?c = "PushAt i (head_word s) (snd (backoff_spin bk))"
      have "push_cas B (head_word s) i h bk = (head_word s, ?c)"
        by (rule push_cas_lost) (use i(1) mk c(2) False in simp_all)
      then have r: "r = (head_word s, links s, ?c)" using run PushCas by simp
      have "idx B (head_word s) \<noteq> i" using top_member [OF shape] i mk(2) by (metis leD)
      then have "call_inv B (head_word s) (links s) st ?c" by simp
      from moved_quietly [OF inv _ this] p show ?thesis unfolding r by (auto simp: stack_effect_def)
    qed
  next
    case PopIndex
    let ?c = "PopAt (head_word s) backoff_new"
    have r: "r = (head_word s, links s, ?c)" using run PopIndex by simp
    have "call_inv B (head_word s) (links s) st ?c" using seen_self [OF shape] by simp
    from moved_quietly [OF inv _ this] PopIndex show ?thesis unfolding r by (auto simp: stack_effect_def)
  next
    case (PopAt h bk)
    let ?c = "pop_load B (links s) h bk"
    have r: "r = (head_word s, links s, ?c)" using run PopAt by simp
    have "seen_top B (head_word s) (links s) st h" using calls [of t] PopAt by simp
    note ok = pop_load_ok [OF shape this, of bk]
    have "stack_inv B N (moved s t r) st" unfolding r
      by (rule moved_quietly [OF inv]) (use ok PopAt in simp_all)
    moreover have "stack_effect (threads s t) ?c st st" using ok
      by (auto simp: stack_effect_def split: tis_call.split option.split)
    ultimately show ?thesis unfolding r by auto
  next
    case (PopCas h n bk)
    have c: "n = TAIL \<or> n < INDEX_MASK B" "tg B h \<le> tg B (head_word s)"
      using calls [of t] PopCas by (auto simp: seen_top_def)
    show ?thesis
    proof (cases "head_word s = h")
      case True
      from stack_pop [OF inv PopCas this] run PopCas show ?thesis
        by (auto simp: moved_def stack_effect_def)
    next
      case False
      then obtain bk' where "pop_cas B (head_word s) h n bk = (head_word s, PopAt (head_word s) bk')"
        using pop_cas_lost [of n B h "head_word s" bk] c mx mk(1) by auto
      then have r: "r = (head_word s, links s, PopAt (head_word s) bk')" using run PopCas by simp
      have "call_inv B (head_word s) (links s) st (PopAt (head_word s) bk')" using seen_self [OF shape] by simp
      from moved_quietly [OF inv _ this] PopCas show ?thesis unfolding r by (auto simp: stack_effect_def)
    qed
  qed (use nq in simp_all)
qed

lemma quiet_alone: "quiet c \<Longrightarrow> pushing c = None"
  by (cases c) simp_all

lemma stack_steps:
  assumes inv: "stack_inv B N s st" and step: "stack_step B s s'"
  shows "\<exists>t st'. stack_inv B N s' st' \<and> (\<forall>u. u \<noteq> t \<longrightarrow> threads s' u = threads s u)
    \<and> stack_effect (threads s t) (threads s' t) st st'"
  using step
proof (cases rule: stack_step.cases)
  case (step_push t i)
  from inv have own: "own_ok N (owned s) (set st) (\<lambda>t. pushing (threads s t))" by (simp add: stack_inv_def)
  from own_start_push [OF own step_push(3)] quiet_alone [OF step_push(2)]
  have "own_ok N (owned s - {i}) (set st) (\<lambda>u. pushing (((threads s)(t := PushIndex i)) u))"
    by (simp only: pushing_upd pushing.simps)
  with inv have "stack_inv B N s' st" unfolding step_push(1) by (auto simp: stack_inv_def)
  then show ?thesis unfolding step_push(1) by (intro exI [of _ t]) (auto simp: stack_effect_def)
next
  case (step_pop t)
  have "stack_inv B N s' st" unfolding step_pop(1)
    by (rule stack_call_moves [OF inv]) (simp_all add: quiet_alone [OF step_pop(2)])
  then show ?thesis unfolding step_pop(1) by (intro exI [of _ t]) (auto simp: stack_effect_def)
next
  case (step_access t w ls c)
  from stack_access [OF inv step_access(2,3)] show ?thesis
    unfolding step_access(1) by (intro exI [of _ t]) (auto simp: moved_def)
qed

lemma stack_start_inv:
  assumes "stack_start B N s"
  shows "stack_inv B N s []"
proof -
  from assms have st: "check_bits B" "N \<le> INDEX_MASK B" "bootstrap_empty B = Inr (head_word s)"
    "links s = array_links_new N" "\<And>t. threads s t = Quiet" "owned s = {..<N}" by (simp_all add: stack_start_def)
  have m: "INDEX_MASK B < 2 ^ B" using mask_less [OF st(1)] by simp
  have "bootstrap_empty B = Inr (0 * 2 ^ B + INDEX_MASK B)"
    unfolding bootstrap_empty_def by (rule pack_truncating_eq [OF m]) simp
  then have "head_word s = 0 * 2 ^ B + INDEX_MASK B" using st(3) by simp
  then have "idx B (head_word s) = INDEX_MASK B" "tg B (head_word s) = 0"
    using idx_tg_pack [OF m, of 0] by (simp_all only:)
  with st show ?thesis
    by (simp add: stack_inv_def stack_shape_def own_ok_def top_idx_def empty_index_def array_links_new_def)
qed

interpretation stack_life: transition_system "stack_start B N" "stack_step B" "\<lambda>s. \<exists>st. stack_inv B N s st"
  by unfold_locales (use stack_start_inv stack_steps in blast)+

text \<open>The abstract stack of a state: the links followed from the head.\<close>

fun follow :: "nat \<Rightarrow> nat list \<Rightarrow> nat \<Rightarrow> nat list" where
  "follow 0 ls x = []"
| "follow (Suc n) ls x = (if x = TAIL then [] else x # follow n ls (ls ! x))"

definition stack_of :: "nat \<Rightarrow> tis_sys \<Rightarrow> nat list" where
  "stack_of B s = follow (length (links s)) (links s) (link_of B (idx B (head_word s)))"

lemma follow_chain:
  "chain ls st \<Longrightarrow> TAIL \<notin> set st \<Longrightarrow> length st \<le> n \<Longrightarrow> follow n ls (hd (st @ [TAIL])) = st"
proof (induction st arbitrary: n)
  case Nil
  then show ?case by (cases n) simp_all
next
  case (Cons x st)
  then show ?case by (cases n) auto
qed

lemma stack_of_inv:
  assumes "stack_inv B N s st"
  shows "stack_of B s = st"
proof -
  from assms have shape: "stack_shape B N (head_word s) (links s) st" by (simp add: stack_inv_def)
  then have st: "chain (links s) st" "distinct st" "set st \<subseteq> {..<N}" "length (links s) = N"
    "idx B (head_word s) = top_idx B st" and mk: "N \<le> INDEX_MASK B" "INDEX_MASK B < TAIL"
    using mask_less by (auto simp: stack_shape_def)
  have "length st = card (set st)" using st(2) by (simp add: distinct_card)
  then have len: "length st \<le> N" using card_mono [OF _ st(3)] by simp
  have "link_of B (top_idx B st) = hd (st @ [TAIL])"
    using st(3) mk by (cases st) (auto simp: link_of_def top_idx_def empty_index_def)
  moreover have "TAIL \<notin> set st" using st(3) mk by auto
  ultimately show ?thesis unfolding stack_of_def st(4,5) using follow_chain [OF st(1) _ len] by simp
qed

subsection \<open>A call alone\<close>

fun alone :: "nat \<Rightarrow> nat \<Rightarrow> nat \<Rightarrow> tis_sys \<Rightarrow> tis_sys" where
  "alone B t 0 s = s"
| "alone B t (Suc n) s = alone B t n (moved s t (tis_step B (head_word s) (links s) (threads s t)))"

text \<open>How many more accesses a call needs if nobody interferes.\<close>

fun accesses :: "nat \<Rightarrow> tis_call \<Rightarrow> nat" where
  "accesses w (PushIndex i) = 3"
| "accesses w (PushAt i h bk) = (if h = w then 2 else 4)"
| "accesses w (PushCas i h bk) = (if h = w then 1 else 3)"
| "accesses w PopIndex = 3"
| "accesses w (PopAt h bk) = (if h = w then 2 else 4)"
| "accesses w (PopCas h n bk) = (if h = w then 1 else 3)"
| "accesses w c = 0"

lemma access_progress:
  assumes "tis_step B w ls c = (w', ls', c')" and "\<not> quiet c"
  shows "accesses w' c' < accesses w c \<and> (\<not> quiet c' \<longrightarrow> w' = w \<and> pushing c' = pushing c)"
  using assms
  by (cases c)
    (auto simp: push_start_def push_store_def push_cas_def pop_load_def pop_cas_def unpack_idx_tg Let_def
      split: if_splits sum.splits)

lemma refused_full:
  assumes "stack_inv B N s st" and "tis_step B (head_word s) (links s) (threads s t) = (w, ls, Refused i)"
    and "\<not> quiet (threads s t)"
  shows "tg B (head_word s) = TAG_MAX B"
proof -
  have "tg B (head_word s) \<le> TAG_MAX B" "call_inv B (head_word s) (links s) st (threads s t)"
    using assms(1) by (simp_all add: stack_inv_def stack_shape_def)
  then show ?thesis using assms(2,3)
    by (cases "threads s t")
      (auto simp: push_start_def push_store_def push_cas_def pop_load_def pop_cas_def unpack_idx_tg Let_def
        split: if_splits sum.splits)
qed

lemma alone_ends:
  assumes "stack_inv B N s st" and "\<not> quiet (threads s t)"
  shows "\<exists>n \<le> accesses (head_word s) (threads s t). \<exists>st'. let f = alone B t n s in
    quiet (threads f t) \<and> stack_inv B N f st' \<and> stack_effect (threads s t) (threads f t) st st'
    \<and> (\<forall>i. threads f t = Refused i \<longrightarrow> tg B (head_word s) = TAG_MAX B)"
  using assms
proof (induction "accesses (head_word s) (threads s t)" arbitrary: s st rule: less_induct)
  case less
  obtain w ls c where run: "tis_step B (head_word s) (links s) (threads s t) = (w, ls, c)" by (cases rule: prod_cases3)
  let ?m = "moved s t (w, ls, c)"
  have m: "threads ?m t = c" "head_word ?m = w" by (simp_all add: moved_def)
  note pr = access_progress [OF run less.prems(2)]
  from stack_access [OF less.prems run] obtain st' where
    st': "stack_inv B N ?m st'" "stack_effect (threads s t) c st st'" by auto
  show ?case
  proof (cases "quiet c")
    case True
    have "alone B t 1 s = ?m" using run by simp
    then show ?thesis using True st' m pr refused_full [OF less.prems(1) _ less.prems(2)] run
      by (intro exI [of _ 1]) (auto simp: Let_def)
  next
    case False
    then have "accesses (head_word ?m) (threads ?m t) < accesses (head_word s) (threads s t)" "\<not> quiet (threads ?m t)"
      using pr unfolding m by blast+
    from less.hyps [OF this(1) st'(1) this(2)] obtain n st'' where
      n: "n \<le> accesses w c" "quiet (threads (alone B t n ?m) t)" "stack_inv B N (alone B t n ?m) st''"
        "stack_effect c (threads (alone B t n ?m) t) st' st''"
        "\<forall>i. threads (alone B t n ?m) t = Refused i \<longrightarrow> tg B w = TAG_MAX B"
      unfolding m by (auto simp: Let_def)
    have "st' = st" using False st'(2) by (cases c) (simp_all add: stack_effect_def)
    moreover have "pushing c = pushing (threads s t)" using pr False by blast
    ultimately have eff: "stack_effect (threads s t) (threads (alone B t n ?m) t) st st''"
      using n(4) by (simp only: stack_effect_def)
    have "alone B t (Suc n) s = alone B t n ?m" using run by simp
    moreover have "Suc n \<le> accesses (head_word s) (threads s t)" using n(1) pr by linarith
    ultimately show ?thesis using n(2,3,5) eff pr False
      by (intro exI [of _ "Suc n"]) (auto simp: Let_def simp del: alone.simps)
  qed
qed

subsection \<open>Properties\<close>

text \<open>However pushes and pops interleave, every index is at any moment in exactly one place:
  held by a caller, on the stack, or in the hands of one pushing call; the links from the head
  reach each stacked index once, no call panics on a link it read, and a tag never overflows.\<close>

theorem stack_partition:
  assumes "reachable (stack_start B N) (stack_step B) s"
  shows "distinct (stack_of B s)
    \<and> owned s \<union> set (stack_of B s) \<union> {i. \<exists>t. pushing (threads s t) = Some i} = {..<N}
    \<and> owned s \<inter> set (stack_of B s) = {}
    \<and> (\<forall>t u i. pushing (threads s t) = Some i \<longrightarrow> i \<notin> owned s \<and> i \<notin> set (stack_of B s)
         \<and> (pushing (threads s u) = Some i \<longrightarrow> t = u))
    \<and> (\<forall>t e. threads s t \<noteq> Panicked e) \<and> snd (unpack B (head_word s)) \<le> TAG_MAX B"
proof -
  from stack_life.reachable_good [OF assms] obtain st where inv: "stack_inv B N s st" by blast
  have own: "own_ok N (owned s) (set st) (\<lambda>t. pushing (threads s t))"
    and calls: "\<And>t. call_inv B (head_word s) (links s) st (threads s t)"
    and shape: "distinct st" "tg B (head_word s) \<le> TAG_MAX B"
    using inv by (simp_all add: stack_inv_def stack_shape_def)
  have "threads s t \<noteq> Panicked e" for t e using calls [of t] by auto
  with own shape show ?thesis unfolding stack_of_inv [OF inv] own_ok_def tg_def by auto
qed

text \<open>C27: Every access is an operation of an abstract stack or none: the winning swap of a push
  puts the index of that call on top, the winning swap of a pop answers with the top and takes
  it off (never a stale index: no ABA), and every other access of every call leaves the stack
  as it is.\<close>

theorem stack_refines:
  assumes "reachable (stack_start B N) (stack_step B) s" and "stack_step B s s'"
  shows "\<exists>t. (\<forall>u. u \<noteq> t \<longrightarrow> threads s' u = threads s u)
    \<and> stack_effect (threads s t) (threads s' t) (stack_of B s) (stack_of B s')"
proof -
  from stack_life.reachable_good [OF assms(1)] obtain st where inv: "stack_inv B N s st" by blast
  from stack_steps [OF inv assms(2)] show ?thesis unfolding stack_of_inv [OF inv]
    using stack_of_inv by blast
qed

text \<open>C28: No call can be blocked by others: in whatever state the others left the stack, a call
  that runs undisturbed ends within four accesses; it takes effect as a push or a pop, and it
  refuses a push only when the tag is exhausted.\<close>

theorem stack_call_ends:
  assumes "reachable (stack_start B N) (stack_step B) s" and "\<not> quiet (threads s t)"
  shows "\<exists>n \<le> 4. let f = alone B t n s in quiet (threads f t) \<and> (\<forall>e. threads f t \<noteq> Panicked e)
    \<and> stack_effect (threads s t) (threads f t) (stack_of B s) (stack_of B f)
    \<and> (\<forall>i. threads f t = Refused i \<longrightarrow> pushes_remaining B (head_word s) = 0)"
proof -
  from stack_life.reachable_good [OF assms(1)] obtain st where inv: "stack_inv B N s st" by blast
  from alone_ends [OF inv assms(2)] obtain n st' where n: "n \<le> accesses (head_word s) (threads s t)"
    and f: "quiet (threads (alone B t n s) t)" "stack_inv B N (alone B t n s) st'"
      "stack_effect (threads s t) (threads (alone B t n s) t) st st'"
      "\<forall>i. threads (alone B t n s) t = Refused i \<longrightarrow> tg B (head_word s) = TAG_MAX B"
    by (auto simp: Let_def)
  have "accesses (head_word s) (threads s t) \<le> 4" by (cases "threads s t") simp_all
  moreover have "call_inv B (head_word (alone B t n s)) (links (alone B t n s)) st' (threads (alone B t n s) t)"
    using f(2) by (simp add: stack_inv_def)
  then have "threads (alone B t n s) t \<noteq> Panicked e" for e by auto
  ultimately show ?thesis using n f unfolding stack_of_inv [OF inv]
    by (intro exI [of _ n]) (auto simp: Let_def stack_of_inv [OF f(2)] pushes_remaining_def unpack_idx_tg)
qed

text \<open>Packing a pair that fits and unpacking it gives the pair back, the unchecked and the
  checked packing agree on it, and the checked one refuses exactly the pairs that do not fit.\<close>

theorem head_word_roundtrip:
  "pack B index tag = (if index < 2 ^ B \<and> tag < 2 ^ (64 - B) then Some (tag * 2 ^ B + index) else None)
   \<and> (case pack B index tag of
        None \<Rightarrow> (\<exists>e. pack_truncating B index tag = Inl e)
      | Some w \<Rightarrow> pack_truncating B index tag = Inr w \<and> unpack B w = (index, tag)
          \<and> (is_empty B w \<longleftrightarrow> index = empty_index B) \<and> pushes_remaining B w = TAG_MAX B - tag)"
proof -
  have p: "(0::nat) < 2 ^ B" "(0::nat) < 2 ^ (64 - B)" by simp_all
  have le: "index \<le> INDEX_MASK B \<longleftrightarrow> index < 2 ^ B" "tag \<le> TAG_MAX B \<longleftrightarrow> tag < 2 ^ (64 - B)"
    unfolding index_mask tag_max using p by linarith+
  show ?thesis
    by (auto simp: pack_def pack_truncating_def TAG_BITS_def le pack_word unpack_pack is_empty_idx empty_index_def
      pushes_remaining_def)
qed

text \<open>A run: call 3 pushes index 1 of a stack of two.\<close>

definition stack_at :: "nat \<Rightarrow> nat list \<Rightarrow> tis_call \<Rightarrow> nat set \<Rightarrow> tis_sys" where
  "stack_at w ls c own = \<lparr>head_word = w, links = ls, threads = (\<lambda>_. Quiet)(3 := c), owned = own\<rparr>"

lemma stack_sample:
  "reachable (stack_start 2 2) (stack_step 2) (stack_at 3 [0, TAIL] (PushCas 1 3 0) {0})"
  "stack_step 2 (stack_at 3 [0, TAIL] (PushCas 1 3 0) {0}) (stack_at 5 [0, TAIL] Pushed {0})"
proof -
  have three: "INDEX_MASK 2 = 3" "TAG_MAX 2 = 2 ^ 62 - 1" "unpack 2 3 = (3, 0)" "pack_truncating 2 1 1 = Inr 5"
    by (simp_all add: index_mask tag_max unpack_div pack_truncating_eq)
  have "pack_truncating 2 3 0 = Inr 3" using pack_truncating_eq [of 3 2 0] by simp
  then have "stack_start 2 2 (stack_at 3 [0, 0] Quiet {0, 1})"
    unfolding stack_start_def bootstrap_empty_def three
    by (auto simp: check_bits_def stack_at_def array_links_new_def numeral_2_eq_2)
  then have "reachable (stack_start 2 2) (stack_step 2) (stack_at 3 [0, 0] Quiet {0, 1})" by (rule reach_start)
  moreover have "stack_step 2 (stack_at 3 [0, 0] Quiet {0, 1}) (stack_at 3 [0, 0] (PushIndex 1) {0})"
    using step_push [of "stack_at 3 [0, 0] Quiet {0, 1}" 3 1] by (simp add: stack_at_def insert_Diff_if)
  ultimately have "reachable (stack_start 2 2) (stack_step 2) (stack_at 3 [0, 0] (PushIndex 1) {0})"
    by (rule reach_step)
  moreover have "stack_step 2 (stack_at 3 [0, 0] (PushIndex 1) {0}) (stack_at 3 [0, 0] (PushAt 1 3 0) {0})"
    using step_access [of "stack_at 3 [0, 0] (PushIndex 1) {0}" 3 2 3 "[0, 0]" "PushAt 1 3 0"]
    by (simp add: stack_at_def push_start_def three backoff_new_def)
  ultimately have "reachable (stack_start 2 2) (stack_step 2) (stack_at 3 [0, 0] (PushAt 1 3 0) {0})"
    by (rule reach_step)
  moreover have "stack_step 2 (stack_at 3 [0, 0] (PushAt 1 3 0) {0}) (stack_at 3 [0, TAIL] (PushCas 1 3 0) {0})"
    using step_access [of "stack_at 3 [0, 0] (PushAt 1 3 0) {0}" 3 2 3 "[0, TAIL]" "PushCas 1 3 0"]
    by (simp add: stack_at_def push_store_def store_next_def link_of_def empty_index_def three)
  ultimately show "reachable (stack_start 2 2) (stack_step 2) (stack_at 3 [0, TAIL] (PushCas 1 3 0) {0})"
    by (rule reach_step)
  show "stack_step 2 (stack_at 3 [0, TAIL] (PushCas 1 3 0) {0}) (stack_at 5 [0, TAIL] Pushed {0})"
    using step_access [of "stack_at 3 [0, TAIL] (PushCas 1 3 0) {0}" 3 2 5 "[0, TAIL]" Pushed] three(4)
    by (simp add: stack_at_def push_cas_def three)
qed

lemma stack_partition_witness: "distinct (stack_of 2 (stack_at 3 [0, TAIL] (PushCas 1 3 0) {0}))
    \<and> snd (unpack 2 3) \<le> TAG_MAX 2"
proof -
  have "head_word (stack_at 3 [0, TAIL] (PushCas 1 3 0) {0}) = 3" by (simp add: stack_at_def)
  with stack_partition [OF stack_sample(1)] show ?thesis by (elim conjE) (simp only: simp_thms)
qed

lemma stack_refines_witness: "\<exists>t. stack_effect (threads (stack_at 3 [0, TAIL] (PushCas 1 3 0) {0}) t)
    (threads (stack_at 5 [0, TAIL] Pushed {0}) t)
    (stack_of 2 (stack_at 3 [0, TAIL] (PushCas 1 3 0) {0})) (stack_of 2 (stack_at 5 [0, TAIL] Pushed {0}))"
proof -
  from stack_refines [OF stack_sample] show ?thesis by (elim exE conjE) (rule exI)
qed

lemma stack_call_ends_witness: "\<exists>n \<le> 4. quiet (threads (alone 2 3 n (stack_at 3 [0, TAIL] (PushCas 1 3 0) {0})) 3)"
proof -
  have "\<not> quiet (threads (stack_at 3 [0, TAIL] (PushCas 1 3 0) {0}) 3)" by (simp add: stack_at_def)
  from stack_call_ends [OF stack_sample(1) this] show ?thesis unfolding Let_def by blast
qed

end
