(* ===== verification/PageTable.thy ===== *)
theory PageTable
  imports Results
begin

text \<open>
  The page table of the lock-free region (\<open>src/concurrent/lock_free/lock_free_page_table.rs\<close>): a
  persistent radix tree with 16 children per node, copied along one path by every write.  The
  lemmas show it to be a list: \<open>tree_of\<close> is the one tree that represents a list at a height.
\<close>

subsection \<open>The tree\<close>

definition BITS :: nat where "BITS = 4"
definition FANOUT :: nat where "FANOUT = push_bit BITS 1"

datatype 'e node = NodeLeaf "'e list" | NodeInner "'e node list"

record 'e page_table =
  pt_root :: "'e node option"
  pt_height :: nat
  pt_len :: nat

definition digit :: "nat \<Rightarrow> nat \<Rightarrow> nat" where
  "digit idx level = drop_bit (BITS * level) idx AND (FANOUT - 1)"

definition pt_new :: "'e page_table" where
  "pt_new = \<lparr>pt_root = None, pt_height = 0, pt_len = 0\<rparr>"

text \<open>\<open>take(FANOUT).collect()\<close> until the iterator is empty.\<close>

fun chunks :: "nat \<Rightarrow> 'a list \<Rightarrow> 'a list list" where
  "chunks n xs = (if n = 0 \<or> xs = [] then [] else take n xs # chunks n (drop n xs))"

declare chunks.simps [simp del]

function build_up :: "'e node list \<Rightarrow> nat \<Rightarrow> 'e node list \<times> nat" where
  "build_up level height =
     (if 1 < length level then build_up (map NodeInner (chunks FANOUT level)) (height + 1) else (level, height))"
  by pat_completeness auto

definition from_vec :: "'e list \<Rightarrow> 'e page_table" where
  "from_vec items =
     (if length items = 0 then pt_new
      else
        let leaves = map NodeLeaf (chunks FANOUT items);
            (level, height) = build_up leaves 0
        in \<lparr>pt_root = (if level = [] then None else Some (last level)), pt_height = height, pt_len = length items\<rparr>)"

text \<open>The descent; \<open>level -= 1\<close> is checked.\<close>

function get_node :: "'e node \<Rightarrow> nat \<Rightarrow> nat \<Rightarrow> string + 'e option" where
  "get_node (NodeLeaf items) level idx = Inr (if digit idx 0 < length items then Some (items ! digit idx 0) else None)"
| "get_node (NodeInner children) level idx =
     (if digit idx level < length children
      then if level = 0 then Inl ''attempt to subtract with overflow''
           else get_node (children ! digit idx level) (level - 1) idx
      else Inr None)"
  by pat_completeness auto

lemma nth_node_size: "d < length cs \<Longrightarrow> size (cs ! d) < Suc (size_list size cs)"
  by (metis le_imp_less_Suc nth_mem order_refl size_list_estimation')

termination get_node
  by (relation "measure (\<lambda>(n, l, i). size n)") (auto simp: nth_node_size)

definition pt_get :: "'e page_table \<Rightarrow> nat \<Rightarrow> string + 'e option" where
  "pt_get t idx =
     (if pt_len t \<le> idx then Inr None
      else case pt_root t of None \<Rightarrow> Inr None | Some n \<Rightarrow> get_node n (pt_height t) idx)"

text \<open>\<open>put\<close>: the node on the path is copied with one child replaced or appended.\<close>

fun put :: "'e node option \<Rightarrow> nat \<Rightarrow> nat \<Rightarrow> 'e \<Rightarrow> string + 'e node" where
  "put n 0 idx item =
     (let d = digit idx 0;
          old = (case n of Some (NodeLeaf v) \<Rightarrow> v | _ \<Rightarrow> [])
      in if d < length old then Inr (NodeLeaf (old[d := item]))
         else if length old = d then Inr (NodeLeaf (old @ [item]))
         else Inl ''appends are dense'')"
| "put n (Suc level) idx item =
     (let d = digit idx (Suc level);
          old = (case n of Some (NodeInner v) \<Rightarrow> v | _ \<Rightarrow> [])
      in rbind (put (if d < length old then Some (old ! d) else None) level idx item) (\<lambda>c.
           Inr (NodeInner (take d old @ [c] @ drop (d + 1) old))))"

definition pt_set :: "'e page_table \<Rightarrow> nat \<Rightarrow> 'e \<Rightarrow> string + bool \<times> 'e page_table" where
  "pt_set t idx item =
     (if pt_len t \<le> idx then Inr (False, t)
      else case pt_root t of
             None \<Rightarrow> Inl ''non-empty table has a root''
           | Some root \<Rightarrow> rbind (put (Some root) (pt_height t) idx item) (\<lambda>r. Inr (True, t\<lparr>pt_root := Some r\<rparr>)))"

definition pt_push :: "'e page_table \<Rightarrow> 'e \<Rightarrow> string + 'e page_table" where
  "pt_push t item =
     (let idx = pt_len t
      in rbind
        (case pt_root t of
           None \<Rightarrow> Inr (None, pt_height t)
         | Some old \<Rightarrow>
             if 64 \<le> BITS * (pt_height t + 1) then Inl ''attempt to shift left with overflow''
             else if push_bit (BITS * (pt_height t + 1)) 1 \<le> idx
             then Inr (Some (NodeInner [old]), pt_height t + 1)
             else Inr (Some old, pt_height t))
        (\<lambda>(root, height). rbind (put root height idx item) (\<lambda>r.
          Inr \<lparr>pt_root = Some r, pt_height = height, pt_len = idx + 1\<rparr>)))"

subsection \<open>Chunks\<close>

lemma FANOUT_eq [simp]: "FANOUT = 16"
  by (simp add: FANOUT_def BITS_def)

lemma digit_eq: "digit idx level = idx div 16 ^ level mod 16"
proof -
  have "drop_bit (BITS * level) idx AND (FANOUT - 1) = take_bit 4 (idx div 2 ^ (4 * level))"
    by (simp add: drop_bit_eq_div BITS_def take_bit_eq_mask mask_eq_exp_minus_1)
  then show ?thesis by (simp add: digit_def take_bit_eq_mod power_mult)
qed

lemma chunks_Nil [simp]: "chunks n [] = []" "xs \<noteq> [] \<Longrightarrow> 0 < n \<Longrightarrow> chunks n xs \<noteq> []"
  by (simp_all add: chunks.simps)

lemma chunks_nth:
  "0 < n \<Longrightarrow> length (chunks n xs) = (length xs + n - 1) div n
    \<and> (\<forall>d < length (chunks n xs). chunks n xs ! d = take n (drop (n * d) xs))"
proof (induction n xs rule: chunks.induct)
  case (1 n xs)
  show ?case
  proof (cases "xs = []")
    case True
    then show ?thesis using 1(2) by simp
  next
    case False
    have c: "chunks n xs = take n xs # chunks n (drop n xs)" using False 1(2) by (subst chunks.simps) simp
    have IH: "length (chunks n (drop n xs)) = (length (drop n xs) + n - 1) div n"
      "\<And>d. d < length (chunks n (drop n xs)) \<Longrightarrow> chunks n (drop n xs) ! d = take n (drop (n * d) (drop n xs))"
      using 1 False by auto
    have "Suc ((length (drop n xs) + n - 1) div n) = (length xs + n - 1) div n"
    proof (cases "n \<le> length xs")
      case True
      have "(length xs + n - 1) div n = ((length xs - n + n - 1) + n) div n" using True 1(2) by simp
      also have "\<dots> = Suc ((length xs - n + n - 1) div n)" using 1(2) by (simp only: div_add_self2)
      finally show ?thesis by simp
    next
      case False2: False
      moreover have "0 < length xs" using False by simp
      ultimately have "(length xs + n - 1) div n = 1" using 1(2) by (intro div_nat_eqI; simp; linarith)
      then show ?thesis using False2 1(2) by simp
    qed
    then have "length (chunks n xs) = (length xs + n - 1) div n" using c IH(1) by simp
    moreover have "chunks n xs ! d = take n (drop (n * d) xs)" if "d < length (chunks n xs)" for d
      using that IH(2) [of "d - 1"] unfolding c by (cases d) (auto simp: algebra_simps)
    ultimately show ?thesis by blast
  qed
qed

lemma chunks_eqI:
  assumes "0 < n" and "length ys = (length xs + n - 1) div n" and "\<And>d. d < length ys \<Longrightarrow> ys ! d = take n (drop (n * d) xs)"
  shows "chunks n xs = ys"
  using chunks_nth [OF assms(1), of xs] assms(2,3) by (intro nth_equalityI) auto

termination build_up
proof (relation "measure (\<lambda>(l, h). length l)")
  fix level :: "'e node list" and height :: nat
  assume "1 < length level"
  then have "(length level + 16 - 1) div 16 < length level" by (intro div_less_iff_less_mult [THEN iffD2]) auto
  then show "((map NodeInner (chunks FANOUT level), height + 1), level, height) \<in> measure (\<lambda>(l, h). length l)"
    using chunks_nth [of 16 level] by simp
qed simp

declare build_up.simps [simp del]

lemma chunks_map: "0 < n \<Longrightarrow> chunks n (map f xs) = map (map f) (chunks n xs)"
  by (intro chunks_eqI) (auto simp: chunks_nth take_map drop_map)

text \<open>A list in one chunk, and chunks of chunks.\<close>

lemma chunks_one: "0 < n \<Longrightarrow> xs \<noteq> [] \<Longrightarrow> length xs \<le> n \<Longrightarrow> chunks n xs = [xs]"
  by (subst chunks.simps) simp

lemma ceil_ceil:
  fixes k m n :: nat
  assumes "0 < m" "0 < n"
  shows "((k + n - 1) div n + m - 1) div m = (k + m * n - 1) div (m * n)"
proof (cases "k = 0")
  case True
  have "(m - 1) div m = 0" "(n - 1) div n = 0" "(m * n - 1) div (m * n) = 0" using assms by simp_all
  then show ?thesis using True by simp
next
  case False
  then obtain j where k: "k = Suc j" by (cases k) auto
  have up: "(Suc i + l - 1) div l = Suc (i div l)" if "0 < l" for i l :: nat
    using that by (simp add: div_add_self2)
  have "(k + n - 1) div n = Suc (j div n)" unfolding k by (rule up) (rule assms(2))
  then have "((k + n - 1) div n + m - 1) div m = Suc (j div n div m)" using up [OF assms(1)] by simp
  also have "\<dots> = Suc (j div (m * n))" by (simp only: div_mult2_eq [symmetric] mult.commute [of n m])
  also have "\<dots> = (k + m * n - 1) div (m * n)" unfolding k by (rule up [symmetric]) (use assms in simp)
  finally show ?thesis .
qed

lemma chunks_chunks:
  assumes "0 < m" "0 < n"
  shows "map (chunks n) (chunks (m * n) xs) = chunks m (chunks n xs)"
proof (rule sym, rule chunks_eqI [OF assms(1)])
  let ?l = "length (chunks (m * n) xs)"
  have mn: "0 < m * n" using assms by simp
  show "length (map (chunks n) (chunks (m * n) xs)) = (length (chunks n xs) + m - 1) div m"
    using chunks_nth [OF mn, of xs] chunks_nth [OF assms(2), of xs] ceil_ceil [OF assms] by simp
  fix d assume "d < length (map (chunks n) (chunks (m * n) xs))"
  then have d: "d < ?l" by simp
  then have lhs: "map (chunks n) (chunks (m * n) xs) ! d = chunks n (take (m * n) (drop (m * n * d) xs))"
    using chunks_nth [OF mn, of xs] by simp
  show "map (chunks n) (chunks (m * n) xs) ! d = take m (drop (m * d) (chunks n xs))" unfolding lhs
  proof (rule chunks_eqI [OF assms(2)])
    let ?k = "length xs"
    have len: "length (take m (drop (m * d) (chunks n xs))) = min m ((?k + n - 1) div n - m * d)"
      using chunks_nth [OF assms(2), of xs] by simp
    have "(min (m * n) (?k - m * n * d) + n - 1) div n = min m ((?k + n - 1) div n - m * d)"
    proof -
      have "(?k - m * n * d + n - 1) div n = (?k + n - 1) div n - m * d"
      proof (cases "m * n * d \<le> ?k")
        case True
        have "(?k + n - 1) div n = ((?k - m * n * d + n - 1) + (m * d) * n) div n"
          using True assms(2) by (simp add: algebra_simps)
        also have "\<dots> = m * d + (?k - m * n * d + n - 1) div n" by (rule div_mult_self1) (use assms(2) in simp)
        finally show ?thesis by simp
      next
        case False
        have "(?k + n - 1) div n \<le> m * d"
        proof -
          have "?k + n - 1 < m * d * n + n" using False by (simp add: algebra_simps)
          then have "(?k + n - 1) div n < m * d + 1" by (intro div_less_iff_less_mult [THEN iffD2]) (use assms in \<open>auto simp: algebra_simps\<close>)
          then show ?thesis by simp
        qed
        then show ?thesis using False assms(2) by simp
      qed
      moreover have "(min (m * n) j + n - 1) div n = min m ((j + n - 1) div n)" for j
      proof (cases "m * n \<le> j")
        case True
        have "(m * n + n - 1) div n = m" using assms by (intro div_nat_eqI) (auto simp: algebra_simps)
        moreover have "m \<le> (j + n - 1) div n"
        proof -
          have "m * n \<le> j + n - 1" using True assms(2) by simp
          then show ?thesis using assms(2) by (simp add: less_eq_div_iff_mult_less_eq)
        qed
        ultimately show ?thesis using True by (simp add: min_def)
      next
        case False
        then have "j + n - 1 < m * n + n - 1 + 1" using assms(2) by linarith
        then have "j + n - 1 < Suc m * n" using False assms(2) by simp
        then have "(j + n - 1) div n < Suc m" by (simp add: less_mult_imp_div_less)
        then show ?thesis using False by (simp add: min_def)
      qed
      ultimately show ?thesis by simp
    qed
    then show "length (take m (drop (m * d) (chunks n xs))) = (length (take (m * n) (drop (m * n * d) xs)) + n - 1) div n"
      unfolding len by (simp add: min.commute)
    fix e assume e: "e < length (take m (drop (m * d) (chunks n xs)))"
    then have "m * d + e < length (chunks n xs)" "e < m" by auto
    then have "take m (drop (m * d) (chunks n xs)) ! e = take n (drop (n * (m * d + e)) xs)"
      using chunks_nth [OF assms(2), of xs] by simp
    also have "\<dots> = take n (drop (n * e) (take (m * n) (drop (m * n * d) xs)))"
    proof -
      have "n * Suc e \<le> n * m" by (rule mult_le_mono2) (use \<open>e < m\<close> in simp)
      then have "n \<le> m * n - n * e" by (simp add: mult.commute)
      then have "take n (drop (n * e) (take (m * n) (drop (m * n * d) xs))) = take n (drop (n * e) (drop (m * n * d) xs))"
        by (simp add: drop_take min_absorb1)
      then show ?thesis by (simp add: algebra_simps)
    qed
    finally show "take m (drop (m * d) (chunks n xs)) ! e = take n (drop (n * e) (take (m * n) (drop (m * n * d) xs)))" .
  qed
qed

subsection \<open>The tree of a list\<close>

fun tree_of :: "nat \<Rightarrow> 'e list \<Rightarrow> 'e node" where
  "tree_of 0 xs = NodeLeaf xs"
| "tree_of (Suc h) xs = NodeInner (map (tree_of h) (chunks (16 ^ Suc h) xs))"

text \<open>Replace an element or append one.\<close>

definition upsert :: "nat \<Rightarrow> 'a \<Rightarrow> 'a list \<Rightarrow> 'a list" where
  "upsert j x xs = (if j < length xs then xs[j := x] else xs @ [x])"

lemma upsert_length: "length (upsert j x xs) = (if j < length xs then length xs else Suc (length xs))"
  by (simp add: upsert_def)

lemma upsert_nth: "j \<le> length xs \<Longrightarrow> k < length (upsert j x xs) \<Longrightarrow> upsert j x xs ! k = (if k = j then x else xs ! k)"
  by (auto simp: upsert_def nth_append)

lemma chunk_count: "0 < n \<Longrightarrow> d < length (chunks n xs) \<longleftrightarrow> n * d < length xs"
proof -
  assume n: "0 < n"
  have "d < (length xs + n - 1) div n \<longleftrightarrow> Suc d * n \<le> length xs + n - 1"
    using n by (simp only: Suc_le_eq [symmetric] less_eq_div_iff_mult_less_eq)
  also have "\<dots> \<longleftrightarrow> n * d < length xs" using n by (auto simp: algebra_simps)
  finally show ?thesis using chunks_nth [OF n, of xs] by simp
qed

lemma chunk_at: "0 < n \<Longrightarrow> n * d < length xs \<Longrightarrow> chunks n xs ! d = take n (drop (n * d) xs)"
  using chunks_nth [of n xs] chunk_count [of n d xs] by simp

lemma chunk_length: "0 < n \<Longrightarrow> length (chunks n xs) = (length xs + n - 1) div n"
  using chunks_nth by blast

lemma same_chunk:
  fixes j n :: nat
  assumes "i < n" and "n * e + i = j"
  shows "e = j div n \<and> i = j mod n"
  using assms by auto

text \<open>An update of a list is an update of one chunk.\<close>

lemma chunks_upsert:
  assumes n: "0 < n" and j: "j \<le> length xs"
  shows "chunks n (upsert j x xs) = upsert (j div n) (upsert (j mod n) x (take n (drop (n * (j div n)) xs))) (chunks n xs)"
proof (rule chunks_eqI [OF n])
  let ?d = "j div n" and ?i = "j mod n" and ?c = "take n (drop (n * (j div n)) xs)"
  have ji: "n * ?d + ?i = j" "?i < n" using n by simp_all
  have dl: "?d < length (chunks n xs) \<longleftrightarrow> n * ?d < length xs" by (rule chunk_count [OF n])
  have app: "length xs = n * ?d" "?d = length (chunks n xs)" "?i = 0" if "\<not> ?d < length (chunks n xs)"
  proof -
    have "length xs \<le> n * ?d" using that dl by simp
    then show e: "length xs = n * ?d" "?i = 0" using ji(1) j by linarith+
    have "(n * ?d + n - 1) div n = ?d" using n by (intro div_nat_eqI) simp_all
    then show "?d = length (chunks n xs)" using chunk_length [OF n, of xs] e(1) by simp
  qed
  show len: "length (upsert ?d (upsert ?i x ?c) (chunks n xs)) = (length (upsert j x xs) + n - 1) div n"
  proof (cases "j < length xs")
    case True
    then have "?d < length (chunks n xs)" using dl ji(1) by linarith
    then show ?thesis using True chunk_length [OF n, of xs] by (simp add: upsert_length)
  next
    case False
    then have jl: "j = length xs" using j by simp
    show ?thesis
    proof (cases "?d < length (chunks n xs)")
      case True
      then have "0 < ?i" using dl ji(1) jl by linarith
      then have "(Suc (length xs) + n - 1) div n = Suc ?d" "(length xs + n - 1) div n = Suc ?d"
        unfolding jl [symmetric] using ji n by (intro div_nat_eqI; simp; linarith)+
      then show ?thesis using True jl chunk_length [OF n, of xs] by (simp add: upsert_length)
    next
      case False
      note a = app [OF False]
      have "(Suc (length xs) + n - 1) div n = Suc ?d" unfolding a(1) using n by (intro div_nat_eqI) simp_all
      then show ?thesis using False jl a(2) by (simp add: upsert_length)
    qed
  qed
  fix e assume e: "e < length (upsert ?d (upsert ?i x ?c) (chunks n xs))"
  have le: "?d \<le> length (chunks n xs)" using app(2) by fastforce
  have lx: "length (upsert j x xs) = (if j < length xs then length xs else Suc (length xs))" by (rule upsert_length)
  show "upsert ?d (upsert ?i x ?c) (chunks n xs) ! e = take n (drop (n * e) (upsert j x xs))"
  proof (cases "e = ?d")
    case True
    have "upsert ?d (upsert ?i x ?c) (chunks n xs) ! e = upsert ?i x ?c" using upsert_nth [OF le e] True by simp
    also have "\<dots> = take n (drop (n * ?d) (upsert j x xs))"
    proof (rule nth_equalityI)
      have rest: "?i \<le> length xs - n * ?d" "n * ?d \<le> length xs"
        "j < length xs \<longleftrightarrow> ?i < length xs - n * ?d" using ji j by linarith+
      then have il: "?i \<le> length ?c" using ji(2) by simp
      show "length (upsert ?i x ?c) = length (take n (drop (n * ?d) (upsert j x xs)))"
        using rest ji(2) by (auto simp: upsert_length min_def)
      fix k assume k: "k < length (upsert ?i x ?c)"
      then have kn: "k < n" "n * ?d + k < length (upsert j x xs)"
        using rest ji(2) by (auto simp: upsert_length min_def split: if_splits)
      have "upsert ?i x ?c ! k = (if k = ?i then x else xs ! (n * ?d + k))"
      proof (cases "k = ?i")
        case True
        then show ?thesis using upsert_nth [OF il k] by simp
      next
        case False
        then have "k < length ?c" using k il by (auto simp: upsert_length split: if_splits)
        then show ?thesis using upsert_nth [OF il k] False rest(2) by simp
      qed
      moreover have "take n (drop (n * ?d) (upsert j x xs)) ! k = (if n * ?d + k = j then x else xs ! (n * ?d + k))"
        using kn upsert_nth [OF j kn(2)] by simp
      moreover have "n * ?d + k = j \<longleftrightarrow> k = ?i" using ji(1) add_left_cancel [of "n * ?d" k ?i] by metis
      ultimately show "upsert ?i x ?c ! k = take n (drop (n * ?d) (upsert j x xs)) ! k" by simp
    qed
    finally show ?thesis using True by simp
  next
    case False
    have el: "e < length (chunks n xs)" using e False le by (auto simp: upsert_length split: if_splits)
    then have ne: "n * e < length xs" using chunk_count [OF n] by blast
    have "upsert ?d (upsert ?i x ?c) (chunks n xs) ! e = take n (drop (n * e) xs)"
      using upsert_nth [OF le e] False chunk_at [OF n ne] by simp
    also have "\<dots> = take n (drop (n * e) (upsert j x xs))"
    proof (rule nth_equalityI)
      have "n \<le> length xs - n * e" if "\<not> j < length xs"
      proof -
        have "n * e div n \<le> j div n" by (rule div_le_mono) (use that ne in simp)
        then have "e < ?d" using False n by simp
        then have "n * Suc e \<le> n * ?d" by (intro mult_le_mono2) simp
        then have "n * e + n \<le> j" using ji(1) by (simp only: mult_Suc_right)
        then show ?thesis using that j by linarith
      qed
      then show "length (take n (drop (n * e) xs)) = length (take n (drop (n * e) (upsert j x xs)))"
        by (auto simp: lx min_def)
      fix k assume k: "k < length (take n (drop (n * e) xs))"
      then have "n * e + k \<noteq> j" using False same_chunk [of k n e j] by auto
      moreover have kl: "n * e + k < length xs" using k by (simp add: less_diff_conv add.commute)
      then have "n * e + k < length (upsert j x xs)" by (simp add: lx)
      ultimately show "take n (drop (n * e) xs) ! k = take n (drop (n * e) (upsert j x xs)) ! k"
        using k ne upsert_nth [OF j] by simp
    qed
    finally show ?thesis .
  qed
qed

subsection \<open>The operations on the tree of a list\<close>

lemma mod_step: "(idx :: nat) mod 16 ^ Suc (Suc h) = 16 ^ Suc h * digit idx (Suc h) + idx mod 16 ^ Suc h"
proof -
  have "idx mod (16 ^ Suc h * 16) = 16 ^ Suc h * (idx div 16 ^ Suc h mod 16) + idx mod 16 ^ Suc h"
    by (rule mod_mult2_eq)
  then show ?thesis by (simp only: digit_eq power_Suc2)
qed

lemma get_tree:
  "length xs \<le> 16 ^ Suc h \<Longrightarrow> get_node (tree_of h xs) h idx
    = Inr (if idx mod 16 ^ Suc h < length xs then Some (xs ! (idx mod 16 ^ Suc h)) else None)"
proof (induction h arbitrary: xs)
  case 0
  then show ?case by (simp add: digit_eq)
next
  case (Suc h)
  let ?n = "16 ^ Suc h :: nat" and ?d = "digit idx (Suc h)" and ?j = "idx mod 16 ^ Suc h"
  have n: "0 < ?n" by simp
  have j: "idx mod 16 ^ Suc (Suc h) = ?n * ?d + ?j" "?j < ?n" by (rule mod_step) simp
  show ?case
  proof (cases "?d < length (chunks ?n xs)")
    case True
    then have nd: "?n * ?d < length xs" using chunk_count [OF n] by blast
    let ?c = "take ?n (drop (?n * ?d) xs)"
    have "get_node (tree_of (Suc h) xs) (Suc h) idx = get_node (tree_of h ?c) h idx"
      using True chunk_at [OF n nd] by simp
    also have "\<dots> = Inr (if ?j < length ?c then Some (?c ! ?j) else None)" by (rule Suc.IH) simp
    also have "?j < length ?c \<longleftrightarrow> ?n * ?d + ?j < length xs" using j(2) by (simp only: length_take length_drop min_less_iff_conj less_diff_conv add.commute simp_thms)
    also have "?c ! ?j = xs ! (?n * ?d + ?j)" using j(2) nd by (simp only: nth_take nth_drop less_imp_le)
    finally show ?thesis unfolding j(1) .
  next
    case False
    then have "\<not> ?n * ?d < length xs" using chunk_count [OF n] by blast
    then have "\<not> ?n * ?d + ?j < length xs" by linarith
    moreover have "get_node (tree_of (Suc h) xs) (Suc h) idx = Inr None" using False by simp
    ultimately show ?thesis unfolding j(1) by simp
  qed
qed

definition tree_opt :: "nat \<Rightarrow> 'e list \<Rightarrow> 'e node option" where
  "tree_opt h xs = (if xs = [] then None else Some (tree_of h xs))"

lemma put_tree:
  "length xs \<le> 16 ^ Suc h \<Longrightarrow> idx mod 16 ^ Suc h \<le> length xs
    \<Longrightarrow> put (tree_opt h xs) h idx item = Inr (tree_of h (upsert (idx mod 16 ^ Suc h) item xs))"
proof (induction h arbitrary: xs)
  case 0
  then show ?case by (auto simp: digit_eq tree_opt_def upsert_def)
next
  case (Suc h)
  let ?n = "16 ^ Suc h :: nat" and ?d = "digit idx (Suc h)" and ?j = "idx mod 16 ^ Suc (Suc h)"
  have n: "0 < ?n" by simp
  have j: "?j = ?n * ?d + idx mod ?n" "idx mod ?n < ?n" by (rule mod_step) simp
  then have dj: "?d = ?j div ?n" "idx mod ?n = ?j mod ?n" using same_chunk [of "idx mod ?n" ?n ?d ?j] by simp_all
  let ?c = "take ?n (drop (?n * ?d) xs)" and ?cs = "chunks ?n xs"
  have old: "(case tree_opt (Suc h) xs of Some (NodeInner v) \<Rightarrow> v | _ \<Rightarrow> []) = map (tree_of h) ?cs"
    by (simp add: tree_opt_def)
  have dl: "?d < length ?cs \<longleftrightarrow> ?n * ?d < length xs" by (rule chunk_count [OF n])
  have child: "(if ?d < length (map (tree_of h) ?cs) then Some (map (tree_of h) ?cs ! ?d) else None) = tree_opt h ?c"
  proof (cases "?d < length ?cs")
    case True
    then have "?n * ?d < length xs" using dl by blast
    then have "?c \<noteq> []" "?cs ! ?d = ?c" using chunk_at [OF n] by simp_all
    then show ?thesis using True by (simp add: tree_opt_def)
  next
    case False
    then have "?c = []" using dl by simp
    then show ?thesis using False by (simp only: tree_opt_def length_map if_True if_False simp_thms)
  qed
  have le: "idx mod ?n \<le> length ?c"
  proof -
    have "?n * ?d + idx mod ?n \<le> length xs" using Suc.prems(2) unfolding j(1) .
    then have "idx mod ?n \<le> length xs - ?n * ?d" by linarith
    then show ?thesis using j(2) by simp
  qed
  have "put (tree_opt h ?c) h idx item = Inr (tree_of h (upsert (idx mod ?n) item ?c))"
    by (rule Suc.IH [OF _ le]) simp
  then have run: "put (tree_opt (Suc h) xs) (Suc h) idx item
      = Inr (NodeInner (take ?d (map (tree_of h) ?cs) @ [tree_of h (upsert (idx mod ?n) item ?c)] @ drop (?d + 1) (map (tree_of h) ?cs)))"
    unfolding put.simps Let_def old child by simp
  have "map (tree_of h) (chunks ?n (upsert ?j item xs))
      = take ?d (map (tree_of h) ?cs) @ [tree_of h (upsert (idx mod ?n) item ?c)] @ drop (?d + 1) (map (tree_of h) ?cs)"
  proof -
    have "chunks ?n (upsert ?j item xs) = upsert ?d (upsert (idx mod ?n) item ?c) ?cs"
      using chunks_upsert [OF n Suc.prems(2), of item] unfolding dj [symmetric] .
    also have "\<dots> = take ?d ?cs @ [upsert (idx mod ?n) item ?c] @ drop (?d + 1) ?cs"
      by (simp add: upsert_def upd_conv_take_nth_drop)
    finally show ?thesis by (simp add: take_map drop_map)
  qed
  then show ?case unfolding run by (simp only: tree_of.simps)
qed

subsection \<open>The table as a list\<close>

text \<open>A table that holds the pages \<open>xs\<close>; fewer than 2 ^ 60 of them, so that no shift overflows.\<close>

definition represents_pages :: "'e page_table \<Rightarrow> 'e list \<Rightarrow> bool" where
  "represents_pages t xs \<longleftrightarrow> pt_root t = tree_opt (pt_height t) xs \<and> pt_len t = length xs
     \<and> length xs \<le> 16 ^ Suc (pt_height t) \<and> pt_height t \<le> 14"

lemma shift_16: "push_bit (BITS * k) (1 :: nat) = 16 ^ k"
  by (simp add: push_bit_eq_mult BITS_def power_mult)

lemma pt_new_ok: "represents_pages pt_new []"
  by (simp add: represents_pages_def pt_new_def tree_opt_def)

lemma pt_get_ok:
  assumes "represents_pages t xs"
  shows "pt_get t idx = Inr (if idx < length xs then Some (xs ! idx) else None)"
proof (cases "idx < length xs")
  case True
  then have "idx mod 16 ^ Suc (pt_height t) = idx" "xs \<noteq> []" using assms by (auto simp: represents_pages_def)
  then show ?thesis using assms True get_tree [of xs "pt_height t" idx]
    by (simp add: represents_pages_def pt_get_def tree_opt_def del: power_Suc)
next
  case False
  then show ?thesis using assms by (simp add: represents_pages_def pt_get_def)
qed

lemma tree_opt_root: "xs \<noteq> [] \<Longrightarrow> tree_opt h xs = Some (tree_of h xs)"
  by (simp add: tree_opt_def)

lemma pt_set_ok:
  assumes "represents_pages t xs" and "idx < length xs"
  shows "\<exists>t'. pt_set t idx item = Inr (True, t') \<and> represents_pages t' (xs[idx := item])"
proof -
  let ?h = "pt_height t"
  have xs: "xs \<noteq> []" and m: "idx mod 16 ^ Suc ?h = idx" using assms by (auto simp: represents_pages_def)
  have r: "pt_root t = Some (tree_of ?h xs)" using assms(1) tree_opt_root [OF xs] by (simp add: represents_pages_def)
  have "put (tree_opt ?h xs) ?h idx item = Inr (tree_of ?h (upsert (idx mod 16 ^ Suc ?h) item xs))"
    by (rule put_tree) (use assms m in \<open>simp_all add: represents_pages_def del: power_Suc\<close>)
  then have p: "put (Some (tree_of ?h xs)) ?h idx item = Inr (tree_of ?h (xs[idx := item]))"
    unfolding m tree_opt_root [OF xs] using assms(2) by (simp add: upsert_def)
  have "pt_set t idx item = Inr (True, t\<lparr>pt_root := Some (tree_of ?h (xs[idx := item]))\<rparr>)"
    unfolding pt_set_def r option.case p rbind.simps using assms by (simp add: represents_pages_def)
  moreover have "represents_pages (t\<lparr>pt_root := Some (tree_of ?h (xs[idx := item]))\<rparr>) (xs[idx := item])"
    using assms(1) xs by (simp add: represents_pages_def tree_opt_def del: power_Suc)
  ultimately show ?thesis by blast
qed

lemma pt_push_ok:
  assumes t: "represents_pages t xs" and room: "length xs < 16 ^ 14"
  shows "\<exists>t'. pt_push t item = Inr t' \<and> represents_pages t' (xs @ [item])"
proof -
  let ?h = "pt_height t" and ?l = "length xs"
  have f: "pt_root t = tree_opt ?h xs" "pt_len t = ?l" "?l \<le> 16 ^ Suc ?h" "?h \<le> 14"
    using t by (simp_all add: represents_pages_def)
  obtain h where h: "(case pt_root t of
           None \<Rightarrow> Inr (None, ?h)
         | Some old \<Rightarrow>
             if 64 \<le> BITS * (?h + 1) then Inl ''attempt to shift left with overflow''
             else if push_bit (BITS * (?h + 1)) 1 \<le> ?l then Inr (Some (NodeInner [old]), ?h + 1)
             else Inr (Some old, ?h)) = Inr (tree_opt h xs, h)" "?l < 16 ^ Suc h" "h \<le> 14"
  proof (cases "xs = []")
    case True
    then show ?thesis using that [of ?h] f(1,4) by (simp add: tree_opt_def)
  next
    case False
    have s: "\<not> 64 \<le> BITS * (?h + 1)" using f(4) by (simp add: BITS_def)
    have root: "pt_root t = Some (tree_of ?h xs)" using f(1) tree_opt_root [OF False] by simp
    show ?thesis
    proof (cases "16 ^ (?h + 1) \<le> ?l")
      case True
      then have l: "?l = 16 ^ Suc ?h" using f(3) by simp
      have "?h \<noteq> 14" using l room by auto
      moreover have "tree_opt (Suc ?h) xs = Some (NodeInner [tree_of ?h xs])"
        using False chunks_one [of "16 ^ Suc ?h" xs] l by (simp add: tree_opt_def)
      ultimately show ?thesis using that [of "Suc ?h"] True f(4) l
        unfolding root option.case if_not_P [OF s] shift_16 by simp
    next
      case small: False
      then show ?thesis using that [of ?h] f(4) tree_opt_root [OF False]
        unfolding root option.case if_not_P [OF s] shift_16 by simp
    qed
  qed
  have m: "?l mod 16 ^ Suc h = ?l" using h(2) by simp
  have "put (tree_opt h xs) h ?l item = Inr (tree_of h (upsert (?l mod 16 ^ Suc h) item xs))"
    by (rule put_tree) (use h(2) m in simp_all)
  then have p: "put (tree_opt h xs) h ?l item = Inr (tree_of h (xs @ [item]))" unfolding m by (simp add: upsert_def)
  have "pt_push t item = Inr \<lparr>pt_root = Some (tree_of h (xs @ [item])), pt_height = h, pt_len = ?l + 1\<rparr>"
    unfolding pt_push_def Let_def f(2) h(1) by (simp add: p)
  moreover have "represents_pages \<lparr>pt_root = Some (tree_of h (xs @ [item])), pt_height = h, pt_len = ?l + 1\<rparr> (xs @ [item])"
    using h(2,3) by (simp add: represents_pages_def tree_opt_def)
  ultimately show ?thesis by blast
qed

lemma build_up_ok:
  "level = map (tree_of h) (chunks (16 ^ Suc h) xs) \<Longrightarrow> xs \<noteq> []
    \<Longrightarrow> \<exists>h' \<ge> h. build_up level h = ([tree_of h' xs], h') \<and> length xs \<le> 16 ^ Suc h' \<and> (h < h' \<longrightarrow> 16 ^ h' < length xs)"
proof (induction level h rule: build_up.induct)
  case (1 level h)
  let ?n = "16 ^ Suc h :: nat"
  have n: "0 < ?n" by simp
  show ?case
  proof (cases "1 < length level")
    case False
    then have "\<not> ?n * 1 < length xs" using 1(2) chunk_count [OF n, of 1 xs] by simp
    then have l: "length xs \<le> ?n" by simp
    have "level = [tree_of h xs]" unfolding 1(2) chunks_one [OF n 1(3) l] by simp
    then show ?thesis using False l by (intro exI [of _ h]) (simp add: build_up.simps)
  next
    case True
    then have more: "?n * 1 < length xs" using 1(2) chunk_count [OF n, of 1 xs] by simp
    have f: "0 < FANOUT" "FANOUT * ?n = 16 ^ Suc (Suc h)" by simp_all
    have "map NodeInner (chunks FANOUT level) = map NodeInner (map (map (tree_of h)) (chunks FANOUT (chunks ?n xs)))"
      unfolding 1(2) chunks_map [OF f(1)] ..
    also have "\<dots> = map NodeInner (map (map (tree_of h)) (map (chunks ?n) (chunks (16 ^ Suc (Suc h)) xs)))"
      unfolding chunks_chunks [OF f(1) n, symmetric] f(2) ..
    also have "\<dots> = map (tree_of (Suc h)) (chunks (16 ^ Suc (Suc h)) xs)" by (simp only: map_map comp_def, rule map_cong [OF refl], simp only: tree_of.simps)
    finally have up: "map NodeInner (chunks FANOUT level) = map (tree_of (Suc h)) (chunks (16 ^ Suc (Suc h)) xs)" .
    from 1(1) [OF True, unfolded Suc_eq_plus1 [symmetric], OF up 1(3)] obtain h' where
      h': "Suc h \<le> h'" "build_up (map NodeInner (chunks FANOUT level)) (Suc h) = ([tree_of h' xs], h')"
        "length xs \<le> 16 ^ Suc h'" "Suc h < h' \<longrightarrow> 16 ^ h' < length xs" by blast
    have "build_up level h = ([tree_of h' xs], h')" using True h'(2) by (subst build_up.simps) simp
    moreover have "16 ^ h' < length xs" using h'(1,4) more by (cases "h' = Suc h") auto
    ultimately show ?thesis using h'(1,3) by (intro exI [of _ h']) auto
  qed
qed

lemma from_vec_ok:
  assumes "length xs \<le> 16 ^ 14"
  shows "represents_pages (from_vec xs) xs"
proof (cases "xs = []")
  case True
  then show ?thesis using pt_new_ok by (simp add: from_vec_def)
next
  case False
  have "map NodeLeaf (chunks FANOUT xs) = map (tree_of 0) (chunks (16 ^ Suc 0) xs)" by simp
  from build_up_ok [OF this False] obtain h where
    h: "build_up (map NodeLeaf (chunks FANOUT xs)) 0 = ([tree_of h xs], h)" "length xs \<le> 16 ^ Suc h"
      "0 < h \<longrightarrow> 16 ^ h < length xs" by blast
  have "h \<le> 14"
  proof (rule ccontr)
    assume "\<not> h \<le> 14"
    then have "(16 :: nat) ^ 14 \<le> 16 ^ h" by (intro power_increasing) simp_all
    then show False using h(3) assms \<open>\<not> h \<le> 14\<close> by simp
  qed
  then show ?thesis using False h by (simp add: from_vec_def represents_pages_def tree_opt_def)
qed

text \<open>The page table is a list: reading, replacing and appending a page do to the list it represents what
  they say, for any index and through every height of the tree, and no assertion or shift fails.\<close>

theorem page_table_is_list:
  assumes "represents_pages t xs" and "length xs < 16 ^ 14"
  shows "pt_get t i = Inr (if i < length xs then Some (xs ! i) else None)
    \<and> (\<exists>ok t'. pt_set t i x = Inr (ok, t') \<and> ok = (i < length xs)
        \<and> represents_pages t' (if i < length xs then xs[i := x] else xs))
    \<and> (\<exists>t'. pt_push t x = Inr t' \<and> represents_pages t' (xs @ [x]))"
proof -
  have "\<exists>ok t'. pt_set t i x = Inr (ok, t') \<and> ok = (i < length xs)
        \<and> represents_pages t' (if i < length xs then xs[i := x] else xs)"
  proof (cases "i < length xs")
    case True
    then show ?thesis using pt_set_ok [OF assms(1) True, of x] by auto
  next
    case False
    then have "pt_set t i x = Inr (False, t)" using assms(1) by (simp add: pt_set_def represents_pages_def)
    then show ?thesis using False assms(1) by auto
  qed
  then show ?thesis using pt_get_ok [OF assms(1)] pt_push_ok [OF assms] by blast
qed

lemma page_table_is_list_witness:
  "pt_get (from_vec [0..<300]) 299 = Inr (Some (299 :: nat))"
proof -
  have "represents_pages (from_vec [0..<300]) [0..<300 :: nat]" by (rule from_vec_ok) simp
  from page_table_is_list [OF this, of 299 0] show ?thesis by simp
qed

end
