(* ===== verification/LockFreeRegion.thy ===== *)
theory LockFreeRegion
  imports PageTable Interfaces
begin

text \<open>
  The read-mostly region of the library (\<open>src/concurrent/lock_free/lock_free_region.rs\<close>,
  \<open>lock_free_handle.rs\<close>, \<open>lock_free_capacity.rs\<close>): values behind generational handles in pages of
  64 slots.  A writer holds a mutex, copies the snapshot it read and publishes the copy with one
  atomic store; a reader takes one atomic load and then looks into an immutable snapshot.
\<close>

subsection \<open>Snapshots\<close>

definition PAGE_BITS :: nat where "PAGE_BITS = 6"
definition PAGE :: nat where "PAGE = push_bit PAGE_BITS 1"

definition u32_max :: nat where "u32_max = 2 ^ 32 - 1"

datatype 'v slot_state = Occupied 'v | Vacant "nat option"

record 'v region_slot =
  generation :: nat
  slot_state :: "'v slot_state"

record 'v snapshot =
  snap_pages :: "'v region_slot list page_table"
  free_head :: "nat option"
  snap_len :: nat

record region_handle =
  handle_region :: nat
  handle_index :: nat
  handle_generation :: nat

definition snap_slot :: "'v snapshot \<Rightarrow> nat \<Rightarrow> string + 'v region_slot option" where
  "snap_slot s index =
     rbind (pt_get (snap_pages s) (drop_bit PAGE_BITS index)) (\<lambda>p.
       case p of
         None \<Rightarrow> Inr None
       | Some page \<Rightarrow>
           if length page \<le> index AND (PAGE - 1) then Inl ''index out of bounds''
           else Inr (Some (page ! (index AND (PAGE - 1)))))"

definition empty_snapshot :: "'v snapshot" where
  "empty_snapshot = \<lparr>snap_pages = pt_new, free_head = None, snap_len = 0\<rparr>"

definition checked_total_slots :: "nat \<Rightarrow> nat \<Rightarrow> nat option" where
  "checked_total_slots page_count page_len =
     (if page_count * page_len < 2 ^ 64 \<and> page_count * page_len \<le> u32_max then Some (page_count * page_len) else None)"

definition with_pages :: "nat \<Rightarrow> string + 'v snapshot" where
  "with_pages page_count =
     (case checked_total_slots page_count PAGE of
        None \<Rightarrow> Inl ''with_pages: page_count * PAGE (indexable slot count) overflows u32; reduce page_count''
      | Some total_slots \<Rightarrow>
          let page_at = (\<lambda>page_idx. map (\<lambda>off.
                let global = page_idx * PAGE + off
                in \<lparr>generation = 0, slot_state = Vacant (if total_slots \<le> global + 1 then None else Some (global + 1))\<rparr>)
                [0..<PAGE])
          in Inr \<lparr>snap_pages = from_vec (map page_at [0..<page_count]),
                  free_head = (if page_count = 0 then None else Some 0), snap_len = 0\<rparr>)"

subsection \<open>Operations on a snapshot\<close>

definition insert_reusing :: "'v snapshot \<Rightarrow> nat \<Rightarrow> 'v \<Rightarrow> string + (nat \<times> nat) \<times> 'v snapshot" where
  "insert_reusing next head value =
     (let page_idx = drop_bit PAGE_BITS head; off = head AND (PAGE - 1)
      in rbind (pt_get (snap_pages next) page_idx) (\<lambda>p.
           case p of
             None \<Rightarrow> Inl ''page exists''
           | Some new_page \<Rightarrow>
               if length new_page \<le> off then Inl ''index out of bounds''
               else
                 let slot = new_page ! off; gen = generation slot
                 in case slot_state slot of
                      Occupied v \<Rightarrow> Inl ''free_head pointed at an Occupied slot -- free list corrupted''
                    | Vacant advanced_head \<Rightarrow>
                        rbind (pt_set (snap_pages next) page_idx (new_page[off := slot\<lparr>slot_state := Occupied value\<rparr>]))
                          (\<lambda>(_, t). Inr ((head, gen), next\<lparr>snap_pages := t, free_head := advanced_head\<rparr>))))"

definition insert_growing :: "'v snapshot \<Rightarrow> 'v \<Rightarrow> string + (nat \<times> nat) \<times> 'v snapshot" where
  "insert_growing next value =
     (let page_idx = pt_len (snap_pages next); base = page_idx * PAGE
      in if u32_max < page_idx then Inl ''page count overflows u32''
         else if u32_max < base then Inl ''new page base overflows u32''
         else if u32_max < base + (PAGE - 1) then Inl ''global slot index overflows u32''
         else
           let new_page = \<lparr>generation = 0, slot_state = Occupied value\<rparr> #
                 map (\<lambda>off. let global = base + off
                      in \<lparr>generation = 0, slot_state = Vacant (if off + 1 = PAGE then None else Some (global + 1))\<rparr>)
                   [1..<PAGE]
           in rbind (pt_push (snap_pages next) new_page) (\<lambda>t.
                Inr ((base, 0), next\<lparr>snap_pages := t, free_head := (if 1 < PAGE then Some (base + 1) else None)\<rparr>)))"

definition snap_insert :: "nat \<Rightarrow> 'v \<Rightarrow> 'v snapshot \<Rightarrow> string + region_handle \<times> 'v snapshot" where
  "snap_insert region_id value cur =
     rbind (case free_head cur of
              Some head \<Rightarrow> insert_reusing cur head value
            | None \<Rightarrow> insert_growing cur value) (\<lambda>((index, gen), next).
       Inr (\<lparr>handle_region = region_id, handle_index = index, handle_generation = gen\<rparr>, next\<lparr>snap_len := snap_len next + 1\<rparr>))"

definition snap_get :: "nat \<Rightarrow> region_handle \<Rightarrow> 'v snapshot \<Rightarrow> string + 'v option" where
  "snap_get region_id h s =
     (if handle_region h \<noteq> region_id then Inr None
      else rbind (snap_slot s (handle_index h)) (\<lambda>r.
        case r of
          None \<Rightarrow> Inr None
        | Some slot \<Rightarrow>
            if generation slot \<noteq> handle_generation h then Inr None
            else case slot_state slot of Occupied v \<Rightarrow> Inr (Some v) | Vacant n \<Rightarrow> Inr None))"

definition snap_contains :: "nat \<Rightarrow> region_handle \<Rightarrow> 'v snapshot \<Rightarrow> string + bool" where
  "snap_contains region_id h s =
     (if handle_region h \<noteq> region_id then Inr False
      else rbind (snap_slot s (handle_index h)) (\<lambda>r.
        case r of
          None \<Rightarrow> Inr False
        | Some slot \<Rightarrow> Inr (generation slot = handle_generation h
            \<and> (case slot_state slot of Occupied v \<Rightarrow> True | Vacant n \<Rightarrow> False))))"

text \<open>\<open>remove\<close>, once the region and the lock are checked; \<open>None\<close> for the snapshot: nothing to publish.\<close>

definition snap_remove :: "region_handle \<Rightarrow> 'v snapshot \<Rightarrow> string + 'v option \<times> 'v snapshot option" where
  "snap_remove h cur =
     (let page_idx = drop_bit PAGE_BITS (handle_index h); off = handle_index h AND (PAGE - 1)
      in rbind (snap_slot cur (handle_index h)) (\<lambda>r.
        case r of
          None \<Rightarrow> Inr (None, None)
        | Some slot \<Rightarrow>
            if generation slot \<noteq> handle_generation h then Inr (None, None)
            else case slot_state slot of
                   Vacant n \<Rightarrow> Inr (None, None)
                 | Occupied v \<Rightarrow>
                     rbind (pt_get (snap_pages cur) page_idx) (\<lambda>p.
                     case p of
                       None \<Rightarrow> Inl ''page exists''
                     | Some new_page \<Rightarrow>
                         if length new_page \<le> off then Inl ''index out of bounds''
                         else
                           let slot = new_page ! off;
                               (slot', head) =
                                 (if generation slot < u32_max
                                  then (slot\<lparr>generation := generation slot + 1, slot_state := Vacant (free_head cur)\<rparr>,
                                        Some (handle_index h))
                                  else (slot\<lparr>slot_state := Vacant None\<rparr>, free_head cur))
                           in rbind (pt_set (snap_pages cur) page_idx (new_page[off := slot'])) (\<lambda>(_, t).
                                if snap_len cur = 0 then Inl ''attempt to subtract with overflow''
                                else Inr (Some v, Some (cur\<lparr>snap_pages := t, free_head := head, snap_len := snap_len cur - 1\<rparr>))))))"

subsection \<open>The slots of a snapshot\<close>

lemma PAGE_eq [simp]: "PAGE = 64"
  by (simp add: PAGE_def PAGE_BITS_def)

lemma page_digits: "drop_bit PAGE_BITS i = i div 64" "i AND (PAGE - 1) = i mod 64"
proof -
  have "i AND (PAGE - 1) = take_bit 6 i" by (simp add: take_bit_eq_mask mask_eq_exp_minus_1)
  then show "i AND (PAGE - 1) = i mod 64" by (simp add: take_bit_eq_mod)
qed (simp add: drop_bit_eq_div PAGE_BITS_def)

definition slots_of :: "'v snapshot \<Rightarrow> 'v region_slot list \<Rightarrow> bool" where
  "slots_of s ss \<longleftrightarrow> represents_pages (snap_pages s) (chunks 64 ss) \<and> 64 dvd length ss \<and> length ss \<le> 2 ^ 32"

lemma whole_page:
  assumes "64 dvd length ss" and "i < length ss"
  shows "i div 64 < length (chunks 64 ss)" "chunks 64 ss ! (i div 64) = take 64 (drop (64 * (i div 64)) ss)"
    "length (chunks 64 ss ! (i div 64)) = 64" "chunks 64 ss ! (i div 64) ! (i mod 64) = ss ! i"
proof -
  obtain k where k: "length ss = 64 * k" using assms(1) by (rule dvdE)
  have d: "64 * (i div 64) < length ss" using assms(2) by (meson le_less_trans times_div_less_eq_dividend)
  then show "i div 64 < length (chunks 64 ss)" using chunk_count [of 64 "i div 64" ss] by simp
  show c: "chunks 64 ss ! (i div 64) = take 64 (drop (64 * (i div 64)) ss)" by (rule chunk_at) (use d in simp_all)
  have "i div 64 < k" using d k by simp
  then have "64 * (i div 64) + 64 \<le> length ss" using k by simp
  then show "length (chunks 64 ss ! (i div 64)) = 64" unfolding c by simp
  show "chunks 64 ss ! (i div 64) ! (i mod 64) = ss ! i" unfolding c using d by simp
qed

lemma page_update:
  assumes "64 dvd length ss" and "i < length ss"
  shows "(chunks 64 ss)[i div 64 := (chunks 64 ss ! (i div 64))[i mod 64 := x]] = chunks 64 (ss[i := x])"
proof -
  note w = whole_page [OF assms]
  have "chunks 64 (upsert i x ss) = upsert (i div 64) (upsert (i mod 64) x (take 64 (drop (64 * (i div 64)) ss))) (chunks 64 ss)"
    by (rule chunks_upsert) (use assms(2) in simp_all)
  then show ?thesis unfolding w(2) [symmetric] using w(1,3) assms(2) by (simp add: upsert_def)
qed

lemma snap_slot_ok:
  assumes "slots_of s ss"
  shows "snap_slot s i = Inr (if i < length ss then Some (ss ! i) else None)"
proof -
  from assms have r: "represents_pages (snap_pages s) (chunks 64 ss)" and d: "64 dvd length ss"
    by (simp_all add: slots_of_def)
  have n: "0 < (64 :: nat)" by simp
  show ?thesis
  proof (cases "i < length ss")
    case True
    note w = whole_page [OF d True]
    show ?thesis unfolding snap_slot_def page_digits pt_get_ok [OF r] rbind.simps using True w by simp
  next
    case False
    obtain k where k: "length ss = 64 * k" using d by (rule dvdE)
    then have "\<not> 64 * (i div 64) < length ss" using False by (auto simp: not_less dest: div_le_mono [of _ _ 64])
    then have "\<not> i div 64 < length (chunks 64 ss)" using chunk_count [OF n] by blast
    then show ?thesis unfolding snap_slot_def page_digits pt_get_ok [OF r] rbind.simps using False by simp
  qed
qed

text \<open>A slot replaced.\<close>

lemma set_slot_ok:
  assumes "slots_of s ss" and "i < length ss"
  shows "pt_get (snap_pages s) (i div 64) = Inr (Some (chunks 64 ss ! (i div 64)))"
    "\<exists>t. pt_set (snap_pages s) (i div 64) ((chunks 64 ss ! (i div 64))[i mod 64 := x]) = Inr (True, t)
      \<and> (\<forall>s'. snap_pages s' = t \<longrightarrow> slots_of s' (ss[i := x]))"
proof -
  from assms(1) have r: "represents_pages (snap_pages s) (chunks 64 ss)" and d: "64 dvd length ss" "length ss \<le> 2 ^ 32"
    by (simp_all add: slots_of_def)
  note w = whole_page [OF d(1) assms(2)]
  show "pt_get (snap_pages s) (i div 64) = Inr (Some (chunks 64 ss ! (i div 64)))" using pt_get_ok [OF r] w(1) by simp
  from pt_set_ok [OF r w(1)] obtain t where
    "pt_set (snap_pages s) (i div 64) ((chunks 64 ss ! (i div 64))[i mod 64 := x]) = Inr (True, t)"
    "represents_pages t (chunks 64 (ss[i := x]))" unfolding page_update [OF d(1) assms(2), symmetric] by blast
  then show "\<exists>t. pt_set (snap_pages s) (i div 64) ((chunks 64 ss ! (i div 64))[i mod 64 := x]) = Inr (True, t)
      \<and> (\<forall>s'. snap_pages s' = t \<longrightarrow> slots_of s' (ss[i := x]))" using d by (auto simp: slots_of_def)
qed

lemma push_page_ok:
  assumes "slots_of s ss" and "length page = 64" and "length ss + 64 \<le> 2 ^ 32"
  shows "pt_len (snap_pages s) * 64 = length ss"
    "\<exists>t. pt_push (snap_pages s) page = Inr t \<and> (\<forall>s'. snap_pages s' = t \<longrightarrow> slots_of s' (ss @ page))"
proof -
  from assms(1) have r: "represents_pages (snap_pages s) (chunks 64 ss)" and d: "64 dvd length ss" by (simp_all add: slots_of_def)
  obtain k where k: "length ss = 64 * k" using d by (rule dvdE)
  have c: "length (chunks 64 ss) = k" "length (chunks 64 (ss @ page)) = Suc k"
    using assms(2) k by (simp_all add: chunk_length)
  then show "pt_len (snap_pages s) * 64 = length ss" using r k by (simp add: represents_pages_def)
  have "chunks 64 (ss @ page) = chunks 64 ss @ [page]"
  proof (rule nth_equalityI)
    fix e assume "e < length (chunks 64 (ss @ page))"
    then have e: "e < Suc k" using c by simp
    have "chunks 64 (ss @ page) ! e = take 64 (drop (64 * e) (ss @ page))" by (rule chunk_at) (use e k assms(2) in simp_all)
    moreover have "chunks 64 ss ! e = take 64 (drop (64 * e) ss)" if "e < k" by (rule chunk_at) (use that k in simp_all)
    ultimately show "chunks 64 (ss @ page) ! e = (chunks 64 ss @ [page]) ! e"
      using e k c(1) assms(2) by (cases "e < k") (simp_all add: nth_append not_less)
  qed (use c in simp)
  moreover have "length (chunks 64 ss) < 16 ^ 14" unfolding c(1) using k assms(3) by simp
  ultimately obtain t where "pt_push (snap_pages s) page = Inr t" "represents_pages t (chunks 64 (ss @ page))"
    using pt_push_ok [OF r, of page] by auto
  then show "\<exists>t. pt_push (snap_pages s) page = Inr t \<and> (\<forall>s'. snap_pages s' = t \<longrightarrow> slots_of s' (ss @ page))"
    using d assms(2,3) by (auto simp: slots_of_def)
qed

subsection \<open>The invariant\<close>

primrec chain :: "'v region_slot list \<Rightarrow> nat option \<Rightarrow> nat list \<Rightarrow> bool" where
  "chain ss h [] \<longleftrightarrow> h = None"
| "chain ss h (i # is) \<longleftrightarrow> h = Some i \<and> i < length ss \<and> (\<exists>n. slot_state (ss ! i) = Vacant n \<and> chain ss n is)"

definition occupied :: "'v region_slot list \<Rightarrow> nat set" where
  "occupied ss = {i. i < length ss \<and> (\<exists>v. slot_state (ss ! i) = Occupied v)}"

text \<open>The values a handle's index and generation lead to.\<close>

definition live_map :: "'v region_slot list \<Rightarrow> nat \<times> nat \<Rightarrow> 'v option" where
  "live_map ss = (\<lambda>(i, g). if i < length ss \<and> generation (ss ! i) = g
     then (case slot_state (ss ! i) of Occupied v \<Rightarrow> Some v | Vacant n \<Rightarrow> None) else None)"

text \<open>
  Every vacant slot is on the free list once, or has used up its generations.  \<open>issued\<close> are the
  handles given out: none of them names a slot on the free list with its present generation.
\<close>

definition slots_sound :: "'v region_slot list \<Rightarrow> nat list \<Rightarrow> (nat \<times> nat) set \<Rightarrow> bool" where
  "slots_sound ss fs issued \<longleftrightarrow> distinct fs
     \<and> (\<forall>i < length ss. generation (ss ! i) \<le> u32_max
          \<and> (i \<in> occupied ss \<or> i \<in> set fs \<or> generation (ss ! i) = u32_max)
          \<and> (i \<in> occupied ss \<longrightarrow> (i, generation (ss ! i)) \<in> issued))
     \<and> (\<forall>i g. (i, g) \<in> issued \<longrightarrow> i < length ss \<and> g \<le> generation (ss ! i) \<and> (g = generation (ss ! i) \<longrightarrow> i \<notin> set fs))"

definition snap_ok :: "'v snapshot \<Rightarrow> 'v region_slot list \<Rightarrow> (nat \<times> nat) set \<Rightarrow> bool" where
  "snap_ok s ss issued \<longleftrightarrow> slots_of s ss \<and> snap_len s = card (occupied ss)
     \<and> (\<exists>fs. chain ss (free_head s) fs \<and> slots_sound ss fs issued)"

lemma chain_vacant: "chain ss h fs \<Longrightarrow> i \<in> set fs \<Longrightarrow> i < length ss \<and> i \<notin> occupied ss"
  by (induction fs arbitrary: h) (auto simp: occupied_def)

lemma vacant_chain_cong:
  "chain ss h fs \<Longrightarrow> length ss \<le> length ss' \<Longrightarrow> (\<And>i. i \<in> set fs \<Longrightarrow> slot_state (ss' ! i) = slot_state (ss ! i)) \<Longrightarrow> chain ss' h fs"
  by (induction fs arbitrary: h) auto

lemma finite_occupied [simp]: "finite (occupied ss)"
  by (simp add: occupied_def)

lemma occupied_update:
  assumes "i < length ss"
  shows "occupied (ss[i := x]) = (case slot_state x of Occupied v \<Rightarrow> insert i (occupied ss) | Vacant n \<Rightarrow> occupied ss - {i})"
  using assms by (auto simp: occupied_def nth_list_update split: slot_state.splits if_splits)

lemma live_map_update:
  assumes "i < length ss"
  shows "live_map (ss[i := x]) = (\<lambda>(j, g). if j = i
     then (if g = generation x then (case slot_state x of Occupied v \<Rightarrow> Some v | Vacant n \<Rightarrow> None) else None)
     else live_map ss (j, g))"
  using assms by (auto simp: live_map_def nth_list_update fun_eq_iff)

lemma live_issued: "slots_sound ss fs issued \<Longrightarrow> live_map ss (i, g) \<noteq> None \<Longrightarrow> (i, g) \<in> issued"
  by (auto simp: live_map_def slots_sound_def occupied_def split: if_splits slot_state.splits)

subsection \<open>The operations\<close>

lemma snap_get_ok:
  assumes "slots_of s ss"
  shows "snap_get rid h s = Inr (if handle_region h = rid then live_map ss (handle_index h, handle_generation h) else None)"
  using snap_slot_ok [OF assms, of "handle_index h"]
  by (auto simp: snap_get_def live_map_def split: slot_state.splits)

lemma snap_contains_ok:
  assumes "slots_of s ss"
  shows "snap_contains rid h s = Inr (handle_region h = rid \<and> live_map ss (handle_index h, handle_generation h) \<noteq> None)"
  using snap_slot_ok [OF assms, of "handle_index h"]
  by (auto simp: snap_contains_def live_map_def split: slot_state.splits)

text \<open>Insertion: into the first free slot, or into a new page when there is none.\<close>

lemma insert_reusing_ok:
  assumes ok: "snap_ok s ss issued" and head: "free_head s = Some i"
  shows "\<exists>g s' ss'. insert_reusing s i v = Inr ((i, g), s') \<and> slots_of s' ss' \<and> snap_len s' = snap_len s
    \<and> (i, g) \<notin> issued \<and> live_map ss' = (live_map ss)((i, g) \<mapsto> v) \<and> card (occupied ss') = Suc (card (occupied ss))
    \<and> length ss \<le> length ss' \<and> (\<exists>fs. chain ss' (free_head s') fs \<and> slots_sound ss' fs (insert (i, g) issued))"
proof -
  from ok obtain fs where s: "slots_of s ss" and c: "chain ss (Some i) fs" and snd: "slots_sound ss fs issued"
    using head by (auto simp: snap_ok_def)
  then obtain fs' n where fs: "fs = i # fs'" "i < length ss" "slot_state (ss ! i) = Vacant n" "chain ss n fs'"
    by (cases fs) auto
  let ?x = "(ss ! i)\<lparr>slot_state := Occupied v\<rparr>" and ?g = "generation (ss ! i)"
  let ?ss = "ss[i := ?x]"
  have d: "64 dvd length ss" using s by (simp add: slots_of_def)
  note w = whole_page [OF d fs(2)]
  from set_slot_ok [OF s fs(2)] obtain t where t: "pt_get (snap_pages s) (i div 64) = Inr (Some (chunks 64 ss ! (i div 64)))"
    "pt_set (snap_pages s) (i div 64) ((chunks 64 ss ! (i div 64))[i mod 64 := ?x]) = Inr (True, t)"
    "\<And>s'. snap_pages s' = t \<Longrightarrow> slots_of s' ?ss" by blast
  let ?s = "s\<lparr>snap_pages := t, free_head := n\<rparr>"
  have run: "insert_reusing s i v = Inr ((i, ?g), ?s)"
    unfolding insert_reusing_def page_digits Let_def t(1) rbind.simps option.case w(4) fs(3) using w(3) t(2) by simp
  have occ: "occupied ?ss = insert i (occupied ss)" "i \<notin> occupied ss"
    using occupied_update [OF fs(2), of ?x] fs(3) by (simp_all add: occupied_def)
  have lm: "live_map ?ss = (live_map ss)((i, ?g) \<mapsto> v)"
    unfolding live_map_update [OF fs(2)] using fs(3) by (auto simp: fun_eq_iff live_map_def)
  have new: "(i, ?g) \<notin> issued" using snd fs(1) by (auto simp: slots_sound_def)
  have ch: "chain ?ss n fs'"
  proof (rule vacant_chain_cong [OF fs(4)])
    fix j assume "j \<in> set fs'"
    then have "j \<noteq> i" using snd fs(1) by (auto simp: slots_sound_def)
    then show "slot_state (?ss ! j) = slot_state (ss ! j)" by simp
  qed simp
  have gen: "generation (?ss ! j) = generation (ss ! j)" for j using fs(2) by (cases "j = i") simp_all
  have "slots_sound ?ss fs' (insert (i, ?g) issued)"
    unfolding slots_sound_def gen occ(1) length_list_update using snd fs(1,2) by (auto simp: slots_sound_def)
  moreover have "card (occupied ?ss) = Suc (card (occupied ss))" unfolding occ(1) using occ(2) by simp
  ultimately show ?thesis unfolding run using t(3) [of ?s] new lm ch by (intro exI [of _ ?g] exI [of _ ?s] exI [of _ ?ss]) auto
qed

lemma chain_fresh:
  assumes "\<And>i. a \<le> i \<Longrightarrow> i < b \<Longrightarrow> i < length ss \<and> slot_state (ss ! i) = Vacant (if i + 1 = b then None else Some (i + 1))"
    and "a < b"
  shows "chain ss (Some a) [a..<b]"
  using assms
proof (induction "b - a" arbitrary: a)
  case (Suc d)
  show ?case
  proof (cases "Suc a = b")
    case True
    then show ?thesis using Suc.prems(1) [of a] by (simp add: upt_conv_Cons)
  next
    case False
    then have "chain ss (Some (Suc a)) [Suc a..<b]" using Suc by (intro Suc.hyps(1)) auto
    then show ?thesis using Suc.prems(1) [of a] Suc.prems(2) False by (simp add: upt_conv_Cons)
  qed
qed simp

lemma insert_growing_ok:
  assumes ok: "snap_ok s ss issued" and head: "free_head s = None" and room: "length ss + 64 \<le> 2 ^ 32"
  shows "\<exists>i g s' ss'. insert_growing s v = Inr ((i, g), s') \<and> slots_of s' ss' \<and> snap_len s' = snap_len s
    \<and> (i, g) \<notin> issued \<and> live_map ss' = (live_map ss)((i, g) \<mapsto> v) \<and> card (occupied ss') = Suc (card (occupied ss))
    \<and> length ss \<le> length ss' \<and> (\<exists>fs. chain ss' (free_head s') fs \<and> slots_sound ss' fs (insert (i, g) issued))"
proof -
  let ?b = "length ss"
  from ok obtain fs where s: "slots_of s ss" and c: "chain ss None fs" and snd: "slots_sound ss fs issued"
    using head by (auto simp: snap_ok_def)
  have fs: "fs = []" using c by (cases fs) auto
  define page :: "'a region_slot list" where "page = \<lparr>generation = 0, slot_state = Occupied v\<rparr> #
     map (\<lambda>off. let global = ?b + off
       in \<lparr>generation = 0, slot_state = Vacant (if off + 1 = PAGE then None else Some (global + 1))\<rparr>) [1..<PAGE]"
  have lp: "length page = 64" by (simp add: page_def)
  have pg: "page ! k = (if k = 0 then \<lparr>generation = 0, slot_state = Occupied v\<rparr>
     else \<lparr>generation = 0, slot_state = Vacant (if k + 1 = 64 then None else Some (?b + k + 1))\<rparr>)" if "k < 64" for k
    using that by (cases k) (simp_all add: page_def Let_def del: upt_Suc)
  note pp = push_page_ok [OF s lp room]
  from pp(2) obtain t where t: "pt_push (snap_pages s) page = Inr t" "\<And>s'. snap_pages s' = t \<Longrightarrow> slots_of s' (ss @ page)" by blast
  let ?s = "s\<lparr>snap_pages := t, free_head := Some (?b + 1)\<rparr>" and ?ss = "ss @ page"
  have base: "pt_len (snap_pages s) * PAGE = ?b" using pp(1) by simp
  have ok': "\<not> u32_max < pt_len (snap_pages s)" "\<not> u32_max < ?b" "\<not> u32_max < ?b + (PAGE - 1)"
    using room pp(1) by (simp_all add: u32_max_def)
  have run: "insert_growing s v = Inr ((?b, 0), ?s)"
    unfolding insert_growing_def Let_def base if_not_P [OF ok'(1)] if_not_P [OF ok'(2)] if_not_P [OF ok'(3)]
      page_def [unfolded Let_def, symmetric] t(1) by simp
  have at: "?ss ! i = (if i < ?b then ss ! i else page ! (i - ?b))" for i by (simp add: nth_append)
  have occ: "occupied ?ss = insert ?b (occupied ss)"
  proof (rule set_eqI)
    fix i show "i \<in> occupied ?ss \<longleftrightarrow> i \<in> insert ?b (occupied ss)"
      unfolding occupied_def using lp pg [of "i - ?b"] by (auto simp: at split: if_splits)
  qed
  have nb: "?b \<notin> occupied ss" by (simp add: occupied_def)
  have lm: "live_map ?ss = (live_map ss)((?b, 0) \<mapsto> v)"
    unfolding live_map_def fun_eq_iff using lp pg by (auto simp: at split: if_splits)
  have new: "(?b, 0) \<notin> issued" using snd by (auto simp: slots_sound_def)
  have ch: "chain ?ss (Some (?b + 1)) [?b + 1..<?b + 64]"
  proof (rule chain_fresh)
    show "i < length ?ss \<and> slot_state (?ss ! i) = Vacant (if i + 1 = ?b + 64 then None else Some (i + 1))"
      if "?b + 1 \<le> i" "i < ?b + 64" for i
      using that lp pg [of "i - ?b"] by (auto simp: at)
  qed simp
  have "slots_sound ?ss [?b + 1..<?b + 64] (insert (?b, 0) issued)"
    unfolding slots_sound_def
  proof (intro conjI allI impI)
    fix j assume j: "j < length ?ss"
    have g0: "generation (?ss ! j) = 0" if "\<not> j < ?b" using that j lp pg [of "j - ?b"] by (auto simp: at)
    show "generation (?ss ! j) \<le> u32_max" using snd g0 by (cases "j < ?b") (auto simp: slots_sound_def at)
    show "j \<in> occupied ?ss \<or> j \<in> set [?b + 1..<?b + 64] \<or> generation (?ss ! j) = u32_max"
      using snd fs j lp occ by (cases "j < ?b") (auto simp: slots_sound_def at)
    show "(j, generation (?ss ! j)) \<in> insert (?b, 0) issued" if "j \<in> occupied ?ss"
      using snd that occ nb g0 by (cases "j < ?b") (auto simp: slots_sound_def at occupied_def)
  next
    fix j g assume jg: "(j, g) \<in> insert (?b, 0) issued"
    have b0: "generation (?ss ! ?b) = 0" using pg [of 0] by (simp add: at)
    have "j < ?b \<and> g \<le> generation (ss ! j) \<or> (j, g) = (?b, 0)" using jg snd by (auto simp: slots_sound_def)
    then show "j < length ?ss" "g \<le> generation (?ss ! j)" using lp b0 by (auto simp: at)
    show "j \<notin> set [?b + 1..<?b + 64]" using jg snd by (fastforce simp: slots_sound_def)
  qed simp
  moreover have "card (occupied ?ss) = Suc (card (occupied ss))" unfolding occ using nb by simp
  ultimately show ?thesis unfolding run using t(2) [of ?s] new lm ch
    by (intro exI [of _ ?b] exI [of _ 0] exI [of _ ?s] exI [of _ ?ss]) auto
qed

lemma snap_insert_ok:
  assumes ok: "snap_ok s ss issued" and room: "free_head s = None \<longrightarrow> length ss + 64 \<le> 2 ^ 32"
  shows "\<exists>i g s' ss'. snap_insert rid v s = Inr (\<lparr>handle_region = rid, handle_index = i, handle_generation = g\<rparr>, s')
    \<and> (i, g) \<notin> issued \<and> snap_ok s' ss' (insert (i, g) issued) \<and> live_map ss' = (live_map ss)((i, g) \<mapsto> v)
    \<and> length ss \<le> length ss'"
proof -
  have "\<exists>i g s' ss'. (case free_head s of Some head \<Rightarrow> insert_reusing s head v | None \<Rightarrow> insert_growing s v) = Inr ((i, g), s')
    \<and> slots_of s' ss' \<and> snap_len s' = snap_len s \<and> (i, g) \<notin> issued \<and> live_map ss' = (live_map ss)((i, g) \<mapsto> v)
    \<and> card (occupied ss') = Suc (card (occupied ss)) \<and> length ss \<le> length ss'
    \<and> (\<exists>fs. chain ss' (free_head s') fs \<and> slots_sound ss' fs (insert (i, g) issued))"
  proof (cases "free_head s")
    case None
    then show ?thesis using insert_growing_ok [OF ok None, of v] room by simp
  next
    case (Some i)
    from insert_reusing_ok [OF ok Some, of v] show ?thesis unfolding Some option.case by blast
  qed
  then obtain i g s' ss' where r: "(case free_head s of Some head \<Rightarrow> insert_reusing s head v | None \<Rightarrow> insert_growing s v) = Inr ((i, g), s')"
    "slots_of s' ss'" "snap_len s' = snap_len s" "(i, g) \<notin> issued" "live_map ss' = (live_map ss)((i, g) \<mapsto> v)"
    "card (occupied ss') = Suc (card (occupied ss))" "\<exists>fs. chain ss' (free_head s') fs \<and> slots_sound ss' fs (insert (i, g) issued)"
    "length ss \<le> length ss'" by blast
  let ?s = "s'\<lparr>snap_len := snap_len s' + 1\<rparr>"
  have "snap_ok ?s ss' (insert (i, g) issued)" using r ok by (simp add: snap_ok_def slots_of_def)
  moreover have "snap_insert rid v s = Inr (\<lparr>handle_region = rid, handle_index = i, handle_generation = g\<rparr>, ?s)"
    by (simp add: snap_insert_def r(1))
  ultimately show ?thesis using r(4,5,8) by blast
qed

text \<open>Removal: the slot goes to the head of the free list under a new generation, or is retired.\<close>

lemma snap_remove_none:
  assumes "slots_of s ss" and "live_map ss (handle_index h, handle_generation h) = None"
  shows "snap_remove h s = Inr (None, None)"
  unfolding snap_remove_def Let_def snap_slot_ok [OF assms(1)] rbind.simps using assms(2)
  by (auto simp: live_map_def split: slot_state.splits if_splits)

lemma snap_remove_some:
  assumes ok: "snap_ok s ss issued" and l: "live_map ss (handle_index h, handle_generation h) = Some v"
  shows "\<exists>s' ss'. snap_remove h s = Inr (Some v, Some s') \<and> snap_ok s' ss' issued
    \<and> live_map ss' = (live_map ss)((handle_index h, handle_generation h) := None) \<and> length ss' = length ss"
proof -
  let ?i = "handle_index h" and ?g = "handle_generation h"
  from ok obtain fs where s: "slots_of s ss" and c: "chain ss (free_head s) fs" and snd: "slots_sound ss fs issued"
    and len: "snap_len s = card (occupied ss)" by (auto simp: snap_ok_def)
  have i: "?i < length ss" "generation (ss ! ?i) = ?g" "slot_state (ss ! ?i) = Occupied v"
    using l by (auto simp: live_map_def split: if_splits slot_state.splits)
  then have io: "?i \<in> occupied ss" by (simp add: occupied_def)
  then have nf: "?i \<notin> set fs" using chain_vacant [OF c] by blast
  have gm: "?g \<le> u32_max" using snd i(1,2) by (auto simp: slots_sound_def)
  have d: "64 dvd length ss" using s by (simp add: slots_of_def)
  note w = whole_page [OF d i(1)]
  define r where "r = (if ?g < u32_max then ((ss ! ?i)\<lparr>generation := ?g + 1, slot_state := Vacant (free_head s)\<rparr>, Some ?i)
    else ((ss ! ?i)\<lparr>slot_state := Vacant None\<rparr>, free_head s))"
  define fs' where "fs' = (if ?g < u32_max then ?i # fs else fs)"
  let ?ss = "ss[?i := fst r]"
  from set_slot_ok [OF s i(1)] obtain t where t: "pt_get (snap_pages s) (?i div 64) = Inr (Some (chunks 64 ss ! (?i div 64)))"
    "pt_set (snap_pages s) (?i div 64) ((chunks 64 ss ! (?i div 64))[?i mod 64 := fst r]) = Inr (True, t)"
    "\<And>s'. snap_pages s' = t \<Longrightarrow> slots_of s' ?ss" by blast
  let ?s = "s\<lparr>snap_pages := t, free_head := snd r, snap_len := snap_len s - 1\<rparr>"
  have pos: "snap_len s \<noteq> 0" using io len by auto
  have r_def': "(if ?g < u32_max then ((ss ! ?i)\<lparr>generation := ?g + 1, slot_state := Vacant (free_head s)\<rparr>, Some ?i)
    else ((ss ! ?i)\<lparr>slot_state := Vacant None\<rparr>, free_head s)) = (fst r, snd r)" by (simp add: r_def)
  have run: "snap_remove h s = Inr (Some v, Some ?s)"
    unfolding snap_remove_def page_digits Let_def snap_slot_ok [OF s] if_P [OF i(1)] t(1) rbind.simps option.case
      w(3,4) i(2,3) slot_state.case r_def' prod.case t(2) using pos by simp
  have fr: "slot_state (fst r) = Vacant (if ?g < u32_max then free_head s else None)"
    "generation (fst r) = (if ?g < u32_max then ?g + 1 else ?g)" using i(2) by (simp_all add: r_def)
  have occ: "occupied ?ss = occupied ss - {?i}" unfolding occupied_update [OF i(1)] fr(1) by simp
  have lm: "live_map ?ss = (live_map ss)((?i, ?g) := None)"
    unfolding live_map_update [OF i(1)] fr using i by (auto simp: fun_eq_iff live_map_def)
  have state: "slot_state (?ss ! j) = slot_state (ss ! j)" if "j \<in> set fs" for j using that nf by (cases "j = ?i") auto
  have ch: "chain ?ss (snd r) fs'"
  proof -
    have "chain ?ss (free_head s) fs" by (rule vacant_chain_cong [OF c]) (use state in simp_all)
    moreover have "snd r = (if ?g < u32_max then Some ?i else free_head s)" by (simp add: r_def)
    ultimately show ?thesis using i(1) fr(1) by (cases "?g < u32_max") (simp_all add: fs'_def)
  qed
  have gen: "generation (?ss ! j) = (if j = ?i then generation (fst r) else generation (ss ! j))" for j
    using i(1) by (cases "j = ?i") simp_all
  have "slots_sound ?ss fs' issued"
    unfolding slots_sound_def
  proof (intro conjI allI impI)
    show "distinct fs'" using snd nf by (simp add: slots_sound_def fs'_def)
  next
    fix j assume "j < length ?ss"
    then have j: "j < length ss" by simp
    show "generation (?ss ! j) \<le> u32_max" using snd j gm unfolding gen fr(2) by (auto simp: slots_sound_def)
    show "j \<in> occupied ?ss \<or> j \<in> set fs' \<or> generation (?ss ! j) = u32_max"
      using snd j gm unfolding gen fr(2) occ fs'_def by (cases "j = ?i") (auto simp: slots_sound_def)
    show "(j, generation (?ss ! j)) \<in> issued" if "j \<in> occupied ?ss"
      using snd j that unfolding gen occ by (auto simp: slots_sound_def)
  next
    fix j g assume jg: "(j, g) \<in> issued"
    then have b: "j < length ss" "g \<le> generation (ss ! j)" "g = generation (ss ! j) \<Longrightarrow> j \<notin> set fs"
      using snd by (auto simp: slots_sound_def)
    show "j < length ?ss" using b(1) by simp
    show "g \<le> generation (?ss ! j)" using b(2) i(2) unfolding gen fr(2) by auto
    show "j \<notin> set fs'" if "g = generation (?ss ! j)"
      using that b i(2) nf unfolding gen fr(2) fs'_def by (auto split: if_splits)
  qed
  moreover have "snap_len s - 1 = card (occupied ?ss)" unfolding occ len using io by simp
  ultimately have "snap_ok ?s ?ss issued" using t(3) [of ?s] ch by (auto simp: snap_ok_def)
  then show ?thesis unfolding run using lm by (intro exI [of _ ?s] exI [of _ ?ss]) simp
qed

text \<open>The snapshots a region starts with.\<close>

lemma empty_snapshot_ok: "snap_ok empty_snapshot [] {}" "live_map [] = (\<lambda>_. None)"
  using pt_new_ok by (auto simp: snap_ok_def slots_of_def empty_snapshot_def slots_sound_def occupied_def live_map_def intro: exI [of _ "[]"])

lemma with_pages_ok:
  assumes "n * 64 \<le> u32_max"
  shows "\<exists>s ss. with_pages n = Inr s \<and> snap_ok s ss {} \<and> length ss = n * 64 \<and> live_map ss = (\<lambda>_. None)"
proof -
  define total where "total = n * 64"
  define ss :: "'a region_slot list" where
    "ss = map (\<lambda>g. \<lparr>generation = 0, slot_state = Vacant (if total \<le> g + 1 then None else Some (g + 1))\<rparr>) [0..<total]"
  define page :: "nat \<Rightarrow> 'a region_slot list" where "page p = map (\<lambda>off. let global = p * PAGE + off
      in \<lparr>generation = 0, slot_state = Vacant (if total \<le> global + 1 then None else Some (global + 1))\<rparr>) [0..<PAGE]" for p
  have c: "checked_total_slots n PAGE = Some total" using assms by (simp add: checked_total_slots_def u32_max_def total_def)
  let ?s = "\<lparr>snap_pages = from_vec (map page [0..<n]), free_head = (if n = 0 then None else Some 0), snap_len = 0\<rparr>"
  have run: "with_pages n = Inr ?s" unfolding with_pages_def c option.case page_def [abs_def] Let_def ..
  have "chunks 64 ss = map page [0..<n]"
  proof (rule chunks_eqI)
    show "length (map page [0..<n]) = (length ss + 64 - 1) div 64" by (simp add: ss_def total_def)
    fix d assume "d < length (map page [0..<n])"
    then have d: "d < n" by simp
    show "map page [0..<n] ! d = take 64 (drop (64 * d) ss)"
    proof (rule nth_equalityI)
      show "length (map page [0..<n] ! d) = length (take 64 (drop (64 * d) ss))" using d by (simp add: page_def ss_def total_def)
      fix k assume "k < length (map page [0..<n] ! d)"
      then have "k < 64" using d by (simp add: page_def)
      then show "map page [0..<n] ! d ! k = take 64 (drop (64 * d) ss) ! k"
        using d by (simp add: page_def ss_def total_def mult.commute)
    qed
  qed simp
  moreover have "length (map page [0..<n]) \<le> 16 ^ 14" using assms by (simp add: u32_max_def)
  ultimately have "represents_pages (from_vec (map page [0..<n])) (chunks 64 ss)" by (metis from_vec_ok)
  then have sl: "slots_of ?s ss" using assms by (simp add: slots_of_def ss_def total_def u32_max_def)
  have occ: "occupied ss = {}" and lm: "live_map ss = (\<lambda>_. None)" by (auto simp: occupied_def live_map_def ss_def)
  have ch: "chain ss (free_head ?s) [0..<total]"
  proof (cases "n = 0")
    case True
    then show ?thesis by (simp add: total_def)
  next
    case False
    have "chain ss (Some 0) [0..<total]" by (rule chain_fresh) (use False in \<open>auto simp: ss_def total_def\<close>)
    then show ?thesis using False by simp
  qed
  have "length ss = total" "\<And>i. i < total \<Longrightarrow> generation (ss ! i) = 0" by (simp_all add: ss_def)
  then have "slots_sound ss [0..<total] {}" by (auto simp: slots_sound_def occ)
  then have "snap_ok ?s ss {}" using sl ch occ by (auto simp: snap_ok_def)
  then show ?thesis using run lm by (intro exI [of _ ?s] exI [of _ ss]) (simp add: ss_def total_def)
qed

subsection \<open>The region and its callers\<close>

text \<open>
  A call and its reply; a call whose writer lock is poisoned or whose index space is used up panics.
  The program counters carry the number of operations that had taken effect when the call began.
\<close>

datatype 'v region_call = CInsert 'v | CRemove region_handle | CGet region_handle

datatype 'v region_reply = RHandle region_handle | RValue "'v option" | RPanic

datatype 'v region_pc =
    PIdle
  | PCalled "'v region_call" nat
  | PLocked "'v region_call" nat
  | PHeld "'v region_call" nat "'v snapshot"
  | PRead region_handle nat "'v snapshot"
  | PStored "'v region_call" nat "'v region_reply"
  | PReturned "'v region_call" nat "'v region_reply"

text \<open>\<open>hist\<close> records the operations in the order in which they take effect, newest first.\<close>

record 'v region_system =
  published :: "'v snapshot"
  writer :: "nat option"
  poisoned :: bool
  calls :: "nat \<Rightarrow> 'v region_pc"
  hist :: "(nat \<times> 'v region_call \<times> 'v region_reply) list"

definition goto :: "nat \<Rightarrow> 'v region_pc \<Rightarrow> 'v region_system \<Rightarrow> 'v region_system" where
  "goto t pc s = s\<lparr>calls := (calls s)(t := pc)\<rparr>"

definition log_reply :: "nat \<Rightarrow> 'v region_call \<Rightarrow> 'v region_reply \<Rightarrow> 'v region_system \<Rightarrow> 'v region_system" where
  "log_reply t c r s = s\<lparr>hist := (t, c, r) # hist s\<rparr>"

text \<open>\<open>store\<close> of the next snapshot (or none), under the lock, by the writer that loaded \<open>cur\<close>.\<close>

definition write_step :: "nat \<Rightarrow> nat \<Rightarrow> 'v region_call \<Rightarrow> nat \<Rightarrow> 'v snapshot \<Rightarrow> 'v region_system \<Rightarrow> 'v region_system" where
  "write_step rid t c n cur s =
     (case c of
        CInsert v \<Rightarrow>
          (case snap_insert rid v cur of
             Inl e \<Rightarrow> goto t (PReturned c n RPanic) (s\<lparr>writer := None, poisoned := True\<rparr>)
           | Inr (h, next) \<Rightarrow> goto t (PStored c n (RHandle h)) (log_reply t c (RHandle h) (s\<lparr>published := next\<rparr>)))
      | CRemove h \<Rightarrow>
          (case snap_remove h cur of
             Inl e \<Rightarrow> goto t (PReturned c n RPanic) (s\<lparr>writer := None, poisoned := True\<rparr>)
           | Inr (r, None) \<Rightarrow> goto t (PStored c n (RValue r)) (log_reply t c (RValue r) s)
           | Inr (r, Some next) \<Rightarrow> goto t (PStored c n (RValue r)) (log_reply t c (RValue r) (s\<lparr>published := next\<rparr>)))
      | CGet h \<Rightarrow> s)"

inductive region_step :: "nat \<Rightarrow> 'v region_system \<Rightarrow> 'v region_system \<Rightarrow> bool" for rid :: nat where
  region_begin: "calls s t = PIdle \<Longrightarrow> region_step rid s (goto t (PCalled c (length (hist s))) s)"
| region_load: "calls s t = PCalled (CGet h) n \<Longrightarrow> snap_get rid h (published s) = Inr r
    \<Longrightarrow> region_step rid s (goto t (PRead h n (published s)) (log_reply t (CGet h) (RValue r) s))"
| region_look: "calls s t = PRead h n snap \<Longrightarrow> snap_get rid h snap = Inr r
    \<Longrightarrow> region_step rid s (goto t (PReturned (CGet h) n (RValue r)) s)"
| region_foreign: "calls s t = PCalled (CRemove h) n \<Longrightarrow> handle_region h \<noteq> rid
    \<Longrightarrow> region_step rid s (goto t (PReturned (CRemove h) n (RValue None)) (log_reply t (CRemove h) (RValue None) s))"
| region_lock: "calls s t = PCalled c n \<Longrightarrow> (\<exists>v. c = CInsert v) \<or> (\<exists>h. c = CRemove h \<and> handle_region h = rid)
    \<Longrightarrow> writer s = None
    \<Longrightarrow> region_step rid s (if poisoned s then goto t (PReturned c n RPanic) s else goto t (PLocked c n) (s\<lparr>writer := Some t\<rparr>))"
| region_load_full: "calls s t = PLocked c n \<Longrightarrow> region_step rid s (goto t (PHeld c n (published s)) s)"
| region_store: "calls s t = PHeld c n snap \<Longrightarrow> region_step rid s (write_step rid t c n snap s)"
| region_unlock: "calls s t = PStored c n r \<Longrightarrow> region_step rid s (goto t (PReturned c n r) (s\<lparr>writer := None\<rparr>))"
| region_return: "calls s t = PReturned c n r \<Longrightarrow> region_step rid s (goto t PIdle s)"

definition region_start :: "'v region_system \<Rightarrow> bool" where
  "region_start s \<longleftrightarrow> (published s = empty_snapshot \<or> (\<exists>n. with_pages n = Inr (published s)))
     \<and> writer s = None \<and> \<not> poisoned s \<and> calls s = (\<lambda>_. PIdle) \<and> hist s = []"

subsection \<open>The specification: a map from handles, one operation at a time\<close>

definition key_of :: "region_handle \<Rightarrow> nat \<times> nat" where
  "key_of h = (handle_index h, handle_generation h)"

text \<open>\<open>b\<close>: the values inserted, by handle; \<open>d\<close>: the handles removed since.\<close>

definition held_value :: "nat \<Rightarrow> region_handle \<Rightarrow> (nat \<times> nat \<Rightarrow> 'v option) \<times> (nat \<times> nat) set \<Rightarrow> 'v option" where
  "held_value rid h bd = (if handle_region h = rid \<and> key_of h \<notin> snd bd then fst bd (key_of h) else None)"

fun spec_apply :: "nat \<Rightarrow> 'v region_call \<Rightarrow> 'v region_reply \<Rightarrow> (nat \<times> nat \<Rightarrow> 'v option) \<times> (nat \<times> nat) set
    \<Rightarrow> ((nat \<times> nat \<Rightarrow> 'v option) \<times> (nat \<times> nat) set) option" where
  "spec_apply rid (CInsert v) (RHandle h) bd =
     (if handle_region h = rid \<and> fst bd (key_of h) = None then Some ((fst bd)(key_of h \<mapsto> v), snd bd) else None)"
| "spec_apply rid (CRemove h) (RValue r) bd =
     (if r = held_value rid h bd then Some (fst bd, if r = None then snd bd else insert (key_of h) (snd bd)) else None)"
| "spec_apply rid (CGet h) (RValue r) bd = (if r = held_value rid h bd then Some bd else None)"
| "spec_apply rid c r bd = None"

primrec replay :: "nat \<Rightarrow> (nat \<times> 'v region_call \<times> 'v region_reply) list
    \<Rightarrow> ((nat \<times> nat \<Rightarrow> 'v option) \<times> (nat \<times> nat) set) option" where
  "replay rid [] = Some (\<lambda>_. None, {})"
| "replay rid (e # es) = Option.bind (replay rid es) (spec_apply rid (fst (snd e)) (snd (snd e)))"

definition since :: "nat \<Rightarrow> 'a list \<Rightarrow> 'a list" where
  "since n es = take (length es - n) es"

lemma since_Cons: "n \<le> length es \<Longrightarrow> since n (e # es) = e # since n es"
  by (simp add: since_def Suc_diff_le)

subsection \<open>The invariant of the region\<close>

definition pc_ok :: "nat \<Rightarrow> nat \<Rightarrow> 'v region_system \<Rightarrow> bool" where
  "pc_ok rid t s \<longleftrightarrow> (case calls s t of
       PIdle \<Rightarrow> writer s \<noteq> Some t
     | PCalled c n \<Rightarrow> writer s \<noteq> Some t \<and> n \<le> length (hist s)
     | PLocked c n \<Rightarrow> writer s = Some t \<and> n \<le> length (hist s) \<and> (\<forall>h. c = CRemove h \<longrightarrow> handle_region h = rid)
     | PHeld c n snap \<Rightarrow> writer s = Some t \<and> n \<le> length (hist s) \<and> snap = published s
         \<and> (\<forall>h. c = CRemove h \<longrightarrow> handle_region h = rid)
     | PRead h n snap \<Rightarrow> writer s \<noteq> Some t \<and> n \<le> length (hist s)
         \<and> (\<exists>r. snap_get rid h snap = Inr r \<and> (t, CGet h, RValue r) \<in> set (since n (hist s)))
     | PStored c n r \<Rightarrow> writer s = Some t \<and> n \<le> length (hist s) \<and> r \<noteq> RPanic \<and> (t, c, r) \<in> set (since n (hist s))
     | PReturned c n r \<Rightarrow> writer s \<noteq> Some t \<and> n \<le> length (hist s)
         \<and> (if r = RPanic then poisoned s else (t, c, r) \<in> set (since n (hist s))))"

definition full :: "'v snapshot \<Rightarrow> bool" where
  "full s \<longleftrightarrow> 2 ^ 32 < pt_len (snap_pages s) * 64 + 64"

definition region_good :: "nat \<Rightarrow> 'v region_system \<Rightarrow> bool" where
  "region_good rid s \<longleftrightarrow> (\<exists>b d ss. replay rid (hist s) = Some (b, d) \<and> snap_ok (published s) ss (dom b)
       \<and> live_map ss = b |` (- d)) \<and> (poisoned s \<longrightarrow> full (published s)) \<and> (\<forall>t. pc_ok rid t s)"

lemma slots_len:
  assumes "slots_of s ss"
  shows "pt_len (snap_pages s) * 64 = length ss"
proof -
  obtain k where k: "length ss = 64 * k" using assms by (auto simp: slots_of_def elim: dvdE)
  then show ?thesis using assms by (simp add: slots_of_def represents_pages_def chunk_length)
qed

text \<open>What the other callers' program counters depend on.\<close>

lemma pc_ok_other:
  assumes "pc_ok rid u s" and "calls s' u = calls s u" and "(writer s' = Some u) = (writer s = Some u)"
    and "writer s = Some u \<Longrightarrow> published s' = published s" and "poisoned s \<longrightarrow> poisoned s'"
    and "hist s' = hist s \<or> hist s' = e # hist s"
  shows "pc_ok rid u s'"
proof -
  have len: "length (hist s) \<le> length (hist s')" using assms(6) by auto
  have sub: "set (since n (hist s)) \<subseteq> set (since n (hist s'))" if "n \<le> length (hist s)" for n
    using assms(6) since_Cons [OF that, of e] by auto
  show ?thesis using assms(1) unfolding pc_ok_def assms(2)
    by (cases "calls s u") (use assms(3-5) len sub in \<open>auto split: if_splits\<close>)
qed

text \<open>Steps that move one caller and the lock.\<close>

lemma good_move:
  assumes good: "region_good rid s" and s': "published s' = published s" "hist s' = hist s" "calls s' = (calls s)(t := pc)"
    and wr: "\<And>u. u \<noteq> t \<Longrightarrow> (writer s' = Some u) = (writer s = Some u)"
    and po: "poisoned s \<longrightarrow> poisoned s'" "poisoned s' \<longrightarrow> full (published s)" and pc: "pc_ok rid t s'"
  shows "region_good rid s'"
proof -
  have "pc_ok rid u s'" for u
  proof (cases "u = t")
    case False
    have "pc_ok rid u s" using good by (simp add: region_good_def)
    then show ?thesis by (rule pc_ok_other) (use s' wr False po(1) in simp_all)
  qed (use pc in simp)
  then show ?thesis using good s' po(2) unfolding region_good_def by auto
qed

text \<open>An operation takes effect: it is entered into the history, and the snapshot may be replaced.\<close>

lemma good_effect:
  assumes good: "region_good rid s" and e: "replay rid (hist s) = Some bd" "spec_apply rid c r bd = Some (b', d')"
    and snap: "snap_ok snap ss' (dom b')" "live_map ss' = b' |` (- d')" "poisoned s \<longrightarrow> full snap"
    and wr: "snap \<noteq> published s \<longrightarrow> writer s = Some t"
    and pc: "pc_ok rid t (goto t pc (log_reply t c r (s\<lparr>published := snap\<rparr>)))"
  shows "region_good rid (goto t pc (log_reply t c r (s\<lparr>published := snap\<rparr>)))"
proof -
  let ?s = "goto t pc (log_reply t c r (s\<lparr>published := snap\<rparr>))"
  have h: "hist ?s = (t, c, r) # hist s" "writer ?s = writer s" "poisoned ?s = poisoned s" "published ?s = snap"
    "calls ?s = (calls s)(t := pc)" by (simp_all add: goto_def log_reply_def)
  have "pc_ok rid u ?s" for u
  proof (cases "u = t")
    case False
    have "pc_ok rid u s" using good by (simp add: region_good_def)
    then show ?thesis by (rule pc_ok_other [where e = "(t, c, r)"]) (use h wr False in auto)
  qed (use pc in simp)
  moreover have "replay rid (hist ?s) = Some (b', d')" unfolding h by (simp add: e)
  ultimately show ?thesis using snap unfolding region_good_def h by blast
qed

lemma goto_fields [simp]:
  "published (goto t pc s) = published s" "hist (goto t pc s) = hist s" "calls (goto t pc s) = (calls s)(t := pc)"
  "writer (goto t pc s) = writer s" "poisoned (goto t pc s) = poisoned s"
  by (simp_all add: goto_def)

lemma log_reply_fields [simp]:
  "published (log_reply t c r s) = published s" "hist (log_reply t c r s) = (t, c, r) # hist s"
  "calls (log_reply t c r s) = calls s" "writer (log_reply t c r s) = writer s" "poisoned (log_reply t c r s) = poisoned s"
  by (simp_all add: log_reply_def)

lemma good_parts:
  assumes "region_good rid s"
  obtains b d ss where "replay rid (hist s) = Some (b, d)" "snap_ok (published s) ss (dom b)" "live_map ss = b |` (- d)"
    "slots_of (published s) ss" "poisoned s \<longrightarrow> full (published s)" "\<And>t. pc_ok rid t s"
  using assms by (auto simp: region_good_def snap_ok_def)

lemma get_held:
  assumes "slots_of snap ss" and "live_map ss = b |` (- d)"
  shows "snap_get rid h snap = Inr (held_value rid h (b, d))"
  using snap_get_ok [OF assms(1), of rid h] by (simp add: assms(2) held_value_def key_of_def restrict_map_def)

lemma full_len: "snap_ok s ss issued \<Longrightarrow> full s \<longleftrightarrow> 2 ^ 32 < length ss + 64"
proof -
  assume "snap_ok s ss issued"
  then have "pt_len (snap_pages s) * 64 = length ss" by (auto simp: snap_ok_def intro: slots_len)
  then show ?thesis unfolding full_def by simp
qed

lemma full_panics:
  assumes "snap_ok s ss issued" and "full s" and "free_head s = None"
  shows "\<exists>e. snap_insert rid v s = Inl e"
proof -
  from assms(1) have s: "slots_of s ss" by (auto simp: snap_ok_def)
  then obtain k where k: "length ss = 64 * k" by (auto simp: slots_of_def elim: dvdE)
  have "pt_len (snap_pages s) * PAGE = 2 ^ 32"
    using slots_len [OF s] k s assms(2) full_len [OF assms(1)] by (simp add: slots_of_def)
  then have "u32_max < pt_len (snap_pages s) * PAGE" by (simp add: u32_max_def)
  then show ?thesis using assms(3) by (simp add: snap_insert_def insert_growing_def Let_def)
qed

text \<open>A handle that was never returned was never removed.\<close>

lemma fresh_not_dead:
  assumes "replay rid es = Some (b, d)" and "k \<notin> dom b"
  shows "k \<notin> d"
  using assms
proof (induction es arbitrary: b d)
  case (Cons e es)
  obtain t c r where e: "e = (t, c, r)" by (cases e)
  from Cons.prems(1) obtain b0 d0 where p: "replay rid es = Some (b0, d0)" "spec_apply rid c r (b0, d0) = Some (b, d)"
    by (auto simp: e bind_eq_Some_conv)
  have "k \<notin> dom b0" using p(2) Cons.prems(2) by (cases "(rid, c, r, (b0, d0))" rule: spec_apply.cases) (auto split: if_splits)
  then have "k \<notin> d0" by (rule Cons.IH [OF p(1)])
  then show ?case using p(2) \<open>k \<notin> dom b0\<close>
    by (cases "(rid, c, r, (b0, d0))" rule: spec_apply.cases) (auto simp: held_value_def split: if_splits)
qed simp

lemma store_good:
  assumes good: "region_good rid s" and pc: "calls s t = PHeld c n snap"
  shows "region_good rid (write_step rid t c n snap s)"
proof -
  from good obtain b d ss where g: "replay rid (hist s) = Some (b, d)" "snap_ok (published s) ss (dom b)" "live_map ss = b |` (- d)"
    "slots_of (published s) ss" "poisoned s \<longrightarrow> full (published s)" "\<And>t. pc_ok rid t s" by (rule good_parts) (rule that)
  have p: "writer s = Some t" "n \<le> length (hist s)" "snap = published s" "\<And>h. c = CRemove h \<Longrightarrow> handle_region h = rid"
    using g(6) [of t] pc by (simp_all add: pc_ok_def)
  show ?thesis
  proof (cases c)
    case (CGet h)
    then show ?thesis using good by (simp add: write_step_def)
  next
    case (CInsert v)
    show ?thesis
    proof (cases "free_head snap = None \<longrightarrow> length ss + 64 \<le> 2 ^ 32")
      case True
      from snap_insert_ok [OF g(2) True [unfolded p(3)], of rid v] obtain i gen s' ss' where
        r: "snap_insert rid v snap = Inr (\<lparr>handle_region = rid, handle_index = i, handle_generation = gen\<rparr>, s')"
          "(i, gen) \<notin> dom b" "snap_ok s' ss' (insert (i, gen) (dom b))" "live_map ss' = (live_map ss)((i, gen) \<mapsto> v)"
          "length ss \<le> length ss'" unfolding p(3) by blast
      let ?h = "\<lparr>handle_region = rid, handle_index = i, handle_generation = gen\<rparr>"
      have dn: "(i, gen) \<notin> d" by (rule fresh_not_dead [OF g(1) r(2)])
      have run: "write_step rid t c n snap s = goto t (PStored c n (RHandle ?h)) (log_reply t c (RHandle ?h) (s\<lparr>published := s'\<rparr>))"
        by (simp add: write_step_def CInsert r(1))
      show ?thesis unfolding run
      proof (rule good_effect [OF good g(1)])
        show "spec_apply rid c (RHandle ?h) (b, d) = Some (b((i, gen) \<mapsto> v), d)"
          using r(2) by (auto simp: CInsert key_of_def)
        show "snap_ok s' ss' (dom (b((i, gen) \<mapsto> v)))" using r(3) by simp
        show "live_map ss' = (b((i, gen) \<mapsto> v)) |` (- d)" unfolding r(4) g(3) using dn by (auto simp: fun_eq_iff restrict_map_def)
        show "poisoned s \<longrightarrow> full s'" using g(5) r(5) full_len [OF g(2)] full_len [OF r(3)] by auto
        show "s' \<noteq> published s \<longrightarrow> writer s = Some t" using p(1) by simp
        show "pc_ok rid t (goto t (PStored c n (RHandle ?h)) (log_reply t c (RHandle ?h) (s\<lparr>published := s'\<rparr>)))"
          using p(1,2) by (simp add: pc_ok_def since_Cons)
      qed
    next
      case False
      then have f: "full (published s)" "free_head (published s) = None" using full_len [OF g(2)] p(3) by simp_all
      have "\<exists>e. snap_insert rid v snap = Inl e" using full_panics [OF g(2) f] unfolding p(3) .
      then obtain e where "snap_insert rid v snap = Inl e" ..
      then have run: "write_step rid t c n snap s = goto t (PReturned c n RPanic) (s\<lparr>writer := None, poisoned := True\<rparr>)"
        by (simp add: write_step_def CInsert)
      show ?thesis unfolding run
        by (rule good_move [OF good, where t = t]) (use p f in \<open>auto simp: pc_ok_def\<close>)
    qed
  next
    case (CRemove h)
    have hr: "handle_region h = rid" using p(4) CRemove by blast
    have lv: "live_map ss (handle_index h, handle_generation h) = held_value rid h (b, d)"
      using hr by (simp add: g(3) held_value_def key_of_def restrict_map_def)
    show ?thesis
    proof (cases "held_value rid h (b, d)")
      case None
      then have "snap_remove h snap = Inr (None, None)" using snap_remove_none [OF g(4)] lv p(3) by simp
      then have run: "write_step rid t c n snap s = goto t (PStored c n (RValue None)) (log_reply t c (RValue None) (s\<lparr>published := published s\<rparr>))"
        by (simp add: write_step_def CRemove)
      show ?thesis unfolding run
        by (rule good_effect [OF good g(1) _ g(2,3,5)]) (use None p(1,2) in \<open>simp_all add: CRemove pc_ok_def since_Cons\<close>)
    next
      case (Some v)
      from snap_remove_some [OF g(2)] lv Some obtain s' ss' where
        r: "snap_remove h snap = Inr (Some v, Some s')" "snap_ok s' ss' (dom b)"
          "live_map ss' = (live_map ss)((handle_index h, handle_generation h) := None)" "length ss' = length ss" unfolding p(3) by metis
      have run: "write_step rid t c n snap s = goto t (PStored c n (RValue (Some v))) (log_reply t c (RValue (Some v)) (s\<lparr>published := s'\<rparr>))"
        by (simp add: write_step_def CRemove r(1))
      show ?thesis unfolding run
      proof (rule good_effect [OF good g(1)])
        show "spec_apply rid c (RValue (Some v)) (b, d) = Some (b, insert (key_of h) d)" using Some by (simp add: CRemove)
        show "live_map ss' = b |` (- insert (key_of h) d)" unfolding r(3) g(3) by (auto simp: fun_eq_iff restrict_map_def key_of_def)
        show "poisoned s \<longrightarrow> full s'" using g(5) r(4) full_len [OF g(2)] full_len [OF r(2)] by simp
        show "pc_ok rid t (goto t (PStored c n (RValue (Some v))) (log_reply t c (RValue (Some v)) (s\<lparr>published := s'\<rparr>)))"
          using p(1,2) by (simp add: pc_ok_def since_Cons)
      qed (use r(2) p(1) in simp_all)
    qed
  qed
qed

lemma region_step_good:
  assumes good: "region_good rid s" and step: "region_step rid s s'"
  shows "region_good rid s'"
proof -
  from good obtain b d ss where g: "replay rid (hist s) = Some (b, d)" "snap_ok (published s) ss (dom b)" "live_map ss = b |` (- d)"
    "slots_of (published s) ss" "poisoned s \<longrightarrow> full (published s)" "\<And>t. pc_ok rid t s" by (rule good_parts) (rule that)
  have same: "s = s\<lparr>published := published s\<rparr>" by simp
  from step show ?thesis
  proof cases
    case (region_begin t c)
    show ?thesis unfolding region_begin(1) using g(6) [of t] region_begin(2) g(5)
      by (intro good_move [OF good, where t = t]) (auto simp: pc_ok_def)
  next
    case (region_load t h n r)
    have r: "r = held_value rid h (b, d)" using get_held [OF g(4,3)] region_load(3) by simp
    have "region_good rid (goto t (PRead h n (published s)) (log_reply t (CGet h) (RValue r) (s\<lparr>published := published s\<rparr>)))"
      by (rule good_effect [OF good g(1) _ g(2,3,5)]) (use r region_load(2,3) g(6) [of t] in \<open>auto simp: pc_ok_def since_Cons\<close>)
    then show ?thesis unfolding region_load(1) by simp
  next
    case (region_look t h n snap r)
    show ?thesis unfolding region_look(1) using g(6) [of t] region_look(2,3) g(5)
      by (intro good_move [OF good, where t = t]) (auto simp: pc_ok_def)
  next
    case (region_foreign t h n)
    have "region_good rid (goto t (PReturned (CRemove h) n (RValue None))
        (log_reply t (CRemove h) (RValue None) (s\<lparr>published := published s\<rparr>)))"
      by (rule good_effect [OF good g(1) _ g(2,3,5)])
        (use region_foreign(2,3) g(6) [of t] in \<open>auto simp: pc_ok_def since_Cons held_value_def\<close>)
    then show ?thesis unfolding region_foreign(1) by simp
  next
    case (region_lock t c n)
    have t: "pc_ok rid t s" by (rule g(6))
    show ?thesis
    proof (cases "poisoned s")
      case True
      show ?thesis unfolding region_lock(1) if_P [OF True]
        by (rule good_move [OF good, where t = t]) (use g(5) t region_lock(2-4) True in \<open>auto simp: pc_ok_def\<close>)
    next
      case False
      show ?thesis unfolding region_lock(1) if_not_P [OF False]
        by (rule good_move [OF good, where t = t]) (use g(5) t region_lock(2-4) False in \<open>auto simp: pc_ok_def\<close>)
    qed
  next
    case (region_load_full t c n)
    show ?thesis unfolding region_load_full(1) using g(6) [of t] region_load_full(2) g(5)
      by (intro good_move [OF good, where t = t]) (auto simp: pc_ok_def)
  next
    case (region_store t c n snap)
    show ?thesis unfolding region_store(1) by (rule store_good [OF good region_store(2)])
  next
    case (region_unlock t c n r)
    show ?thesis unfolding region_unlock(1) using g(6) [of t] region_unlock(2) g(5)
      by (intro good_move [OF good, where t = t]) (auto simp: pc_ok_def)
  next
    case (region_return t c n r)
    show ?thesis unfolding region_return(1) using g(6) [of t] region_return(2) g(5)
      by (intro good_move [OF good, where t = t]) (auto simp: pc_ok_def)
  qed
qed

lemma region_start_good:
  assumes "region_start s"
  shows "region_good rid s"
proof -
  obtain ss where "snap_ok (published s) ss {}" "live_map ss = (\<lambda>_. None)"
  proof (cases "published s = empty_snapshot")
    case True
    then show ?thesis using that empty_snapshot_ok by metis
  next
    case False
    then obtain n where n: "with_pages n = Inr (published s)" using assms by (auto simp: region_start_def)
    then have "n * 64 \<le> u32_max" by (auto simp: with_pages_def checked_total_slots_def split: if_splits)
    from with_pages_ok [where 'a = 'a, OF this] n show ?thesis using that by auto
  qed
  moreover have "pc_ok rid t s" for t using assms by (simp add: region_start_def pc_ok_def)
  ultimately show ?thesis using assms unfolding region_good_def
    by (intro conjI exI [of _ "\<lambda>_. None"] exI [of _ "{}"] exI [of _ ss]) (simp_all add: region_start_def restrict_map_def)
qed

interpretation region_life: transition_system region_start "region_step rid" "region_good rid"
  by unfold_locales (rule region_start_good region_step_good; assumption)+

subsection \<open>Properties\<close>

text \<open>C29: The region is linearizable: the operations, in the order in which they took effect, are a run of a map from
  handles (an insertion answers with a handle never returned before, a removal and a read with the value
  the handle holds, at most one removal with a value), and a call's answer is that of an operation that took
  effect while the call ran.  A call panics only once the index space of the region is used up.\<close>

theorem region_linearizable:
  assumes "reachable region_start (region_step rid) s"
  shows "replay rid (hist s) \<noteq> None
    \<and> (\<forall>t c n r. calls s t = PReturned c n r \<longrightarrow> (if r = RPanic then full (published s) else (t, c, r) \<in> set (since n (hist s))))"
proof -
  have good: "region_good rid s" by (rule region_life.reachable_good [OF assms])
  then obtain b d ss where g: "replay rid (hist s) = Some (b, d)" "snap_ok (published s) ss (dom b)" "live_map ss = b |` (- d)"
    "slots_of (published s) ss" "poisoned s \<longrightarrow> full (published s)" "\<And>t. pc_ok rid t s" by (rule good_parts) (rule that)
  have "if r = RPanic then full (published s) else (t, c, r) \<in> set (since n (hist s))" if "calls s t = PReturned c n r" for t c n r
    using g(5) g(6) [of t] that by (auto simp: pc_ok_def split: if_splits)
  then show ?thesis using g(1) by simp
qed

text \<open>C30: A read never waits: whatever the other callers are doing (a writer holding the lock, or one that
  panicked under it), its load and its look are enabled, and it answers with the value the handle holds in the
  map of the operations so far.\<close>

theorem region_read_returns:
  assumes "reachable region_start (region_step rid) s" and "calls s t = PCalled (CGet h) n"
  shows "\<exists>bd s1 s2. replay rid (hist s) = Some bd \<and> region_step rid s s1 \<and> region_step rid s1 s2
    \<and> calls s2 t = PReturned (CGet h) n (RValue (held_value rid h bd)) \<and> published s2 = published s \<and> writer s2 = writer s"
proof -
  have good: "region_good rid s" by (rule region_life.reachable_good [OF assms(1)])
  then obtain b d ss where g: "replay rid (hist s) = Some (b, d)" "snap_ok (published s) ss (dom b)" "live_map ss = b |` (- d)"
    "slots_of (published s) ss" "poisoned s \<longrightarrow> full (published s)" "\<And>t. pc_ok rid t s" by (rule good_parts) (rule that)
  let ?r = "held_value rid h (b, d)"
  have r: "snap_get rid h (published s) = Inr ?r" by (rule get_held [OF g(4,3)])
  let ?s1 = "goto t (PRead h n (published s)) (log_reply t (CGet h) (RValue ?r) s)"
  have 1: "region_step rid s ?s1" by (rule region_load [OF assms(2) r])
  have 2: "region_step rid ?s1 (goto t (PReturned (CGet h) n (RValue ?r)) ?s1)" by (rule region_look [OF _ r]) simp
  show ?thesis by (rule exI [of _ "(b, d)"], rule exI [of _ ?s1], rule exI, intro conjI, rule g(1), rule 1, rule 2) simp_all
qed

subsection \<open>A sample run\<close>

definition region_new :: "nat region_system" where
  "region_new = \<lparr>published = empty_snapshot, writer = None, poisoned = False, calls = \<lambda>_. PIdle, hist = []\<rparr>"

abbreviation handle_0 :: region_handle where
  "handle_0 \<equiv> \<lparr>handle_region = 1, handle_index = 0, handle_generation = 0\<rparr>"

lemma insert_first: "\<exists>s. snap_insert 1 (7 :: nat) empty_snapshot = Inr (handle_0, s)"
  by (simp add: snap_insert_def insert_growing_def Let_def empty_snapshot_def pt_new_def pt_push_def digit_eq u32_max_def)

text \<open>Caller 3 inserts 7 while caller 4 starts a read of the handle it will get.\<close>

lemma region_sample:
  "\<exists>s. reachable region_start (region_step 1) s \<and> calls s 3 = PReturned (CInsert (7 :: nat)) 0 (RHandle handle_0)
    \<and> calls s 4 = PCalled (CGet handle_0) 0 \<and> hist s = [(3, CInsert 7, RHandle handle_0)]"
proof -
  let ?R = "reachable region_start (region_step 1)" and ?c = "CInsert 7"
  obtain p where p: "snap_insert 1 (7 :: nat) empty_snapshot = Inr (handle_0, p)" using insert_first by blast
  have "?R region_new" by (rule reach_start) (simp add: region_start_def region_new_def)
  moreover have "region_step 1 region_new (goto 4 (PCalled (CGet handle_0) (length (hist region_new))) region_new)"
    by (rule region_begin) (simp add: region_new_def)
  ultimately have "?R (goto 4 (PCalled (CGet handle_0) (length (hist region_new))) region_new)" (is "reachable _ _ ?s1") by (rule reach_step)
  moreover have "region_step 1 ?s1 (goto 3 (PCalled ?c (length (hist ?s1))) ?s1)" by (rule region_begin) (simp add: region_new_def)
  ultimately have "?R (goto 3 (PCalled ?c (length (hist ?s1))) ?s1)" (is "reachable _ _ ?s2") by (rule reach_step)
  moreover have "region_step 1 ?s2 (if poisoned ?s2 then goto 3 (PReturned ?c 0 RPanic) ?s2 else goto 3 (PLocked ?c 0) (?s2\<lparr>writer := Some 3\<rparr>))"
    by (rule region_lock) (simp_all add: region_new_def)
  ultimately have "?R (goto 3 (PLocked ?c 0) (?s2\<lparr>writer := Some 3\<rparr>))" (is "reachable _ _ ?s3")
    using reach_step by (fastforce simp: region_new_def)
  moreover have "region_step 1 ?s3 (goto 3 (PHeld ?c 0 (published ?s3)) ?s3)" by (rule region_load_full) simp
  ultimately have "?R (goto 3 (PHeld ?c 0 (published ?s3)) ?s3)" (is "reachable _ _ ?s4") by (rule reach_step)
  moreover have "region_step 1 ?s4 (write_step 1 3 ?c 0 (published ?s3) ?s4)" by (rule region_store) simp
  ultimately have "?R (write_step 1 3 ?c 0 (published ?s3) ?s4)" by (rule reach_step)
  moreover have "write_step 1 3 ?c 0 (published ?s3) ?s4
      = goto 3 (PStored ?c 0 (RHandle handle_0)) (log_reply 3 ?c (RHandle handle_0) (?s4\<lparr>published := p\<rparr>))"
    using p by (simp add: write_step_def region_new_def)
  ultimately have "?R (goto 3 (PStored ?c 0 (RHandle handle_0)) (log_reply 3 ?c (RHandle handle_0) (?s4\<lparr>published := p\<rparr>)))" (is "reachable _ _ ?s5")
    by simp
  moreover have "region_step 1 ?s5 (goto 3 (PReturned ?c 0 (RHandle handle_0)) (?s5\<lparr>writer := None\<rparr>))" by (rule region_unlock) simp
  ultimately have "?R (goto 3 (PReturned ?c 0 (RHandle handle_0)) (?s5\<lparr>writer := None\<rparr>))" by (rule reach_step)
  then show ?thesis by (intro exI conjI) (assumption | simp add: region_new_def)+
qed

lemma region_linearizable_witness: "\<exists>s :: nat region_system. (3, CInsert 7, RHandle handle_0) \<in> set (since 0 (hist s)) \<and> replay 1 (hist s) \<noteq> None"
proof -
  obtain s where s: "reachable region_start (region_step 1) s" "calls s 3 = PReturned (CInsert (7 :: nat)) 0 (RHandle handle_0)"
    using region_sample by blast
  from region_linearizable [OF s(1)] s(2) have "(3, CInsert 7, RHandle handle_0) \<in> set (since 0 (hist s)) \<and> replay 1 (hist s) \<noteq> None"
    by (metis region_reply.distinct(3))
  then show ?thesis ..
qed

lemma region_read_returns_witness: "\<exists>s :: nat region_system. calls s 4 = PReturned (CGet handle_0) 0 (RValue (Some 7))"
proof -
  obtain s where s: "reachable region_start (region_step 1) s" "calls s 4 = PCalled (CGet handle_0) 0"
    "hist s = [(3, CInsert (7 :: nat), RHandle handle_0)]" using region_sample by blast
  have "held_value 1 handle_0 bd = Some 7" if "replay 1 (hist s) = Some bd" for bd
    using that by (auto simp: s(3) key_of_def held_value_def)
  moreover obtain bd and s2 :: "nat region_system" where "replay 1 (hist s) = Some bd" "calls s2 4 = PReturned (CGet handle_0) 0 (RValue (held_value 1 handle_0 bd))"
    using region_read_returns [OF s(1,2)] by (elim exE conjE) (rule that)
  ultimately have "calls s2 4 = PReturned (CGet handle_0) 0 (RValue (Some 7))" by simp
  then show ?thesis ..
qed

end
