(* ===== verification/RouteBlocks.thy ===== *)
theory RouteBlocks
  imports Results
begin

text \<open>
  The storage of a shard of the route directory (\<open>src/registry/segment_route/directory/blocks.rs\<close>):
  blocks of at most 64 pointers to entries and the index of a shard's blocks, both arrays shifted in
  place.  The lemmas read every operation as one on the list in front of an array's length.
\<close>

subsection \<open>Blocks\<close>

definition BLOCK_CAP :: nat where "BLOCK_CAP = 64"
definition BLOCK_HALF :: nat where "BLOCK_HALF = BLOCK_CAP div 2"
definition INITIAL_INDEX_CAP :: nat where "INITIAL_INDEX_CAP = 8"

text \<open>A pointer is an address, 0 the null pointer.\<close>

record route_block =
  blk_len :: nat
  blk_slots :: "nat list"

definition block_new :: route_block where
  "block_new = \<lparr>blk_len = 0, blk_slots = replicate BLOCK_CAP 0\<rparr>"

definition blk_get :: "route_block \<Rightarrow> nat \<Rightarrow> string + nat" where
  "blk_get b index = (if blk_len b \<le> index then Inl ''directory: block get index out of range'' else Inr (blk_slots b ! index))"

text \<open>The key of the entry a slot points to; \<open>ek\<close> reads the key of an entry.\<close>

definition key_at :: "(nat \<Rightarrow> nat) \<Rightarrow> route_block \<Rightarrow> nat \<Rightarrow> string + nat" where
  "key_at ek b index = rbind (blk_get b index) (\<lambda>p. Inr (ek p))"

text \<open>The loop both binary searches share: the first index of \<open>lo..hi\<close> at which \<open>p\<close> fails.\<close>

function bsearch :: "(nat \<Rightarrow> string + bool) \<Rightarrow> nat \<Rightarrow> nat \<Rightarrow> string + nat" where
  "bsearch p lo hi =
     (if lo < hi
      then let mid = lo + (hi - lo) div 2
           in rbind (p mid) (\<lambda>r. if r then bsearch p (mid + 1) hi else bsearch p lo mid)
      else Inr lo)"
  by pat_completeness auto
termination
  by (relation "measure (\<lambda>(p, lo, hi). hi - lo)") auto

declare bsearch.simps [simp del]

datatype position = Found nat | Missing nat

definition blk_find :: "(nat \<Rightarrow> nat) \<Rightarrow> route_block \<Rightarrow> nat \<Rightarrow> string + position" where
  "blk_find ek b key =
     rbind (bsearch (\<lambda>mid. rbind (key_at ek b mid) (\<lambda>k. Inr (k < key))) 0 (blk_len b)) (\<lambda>lo.
       if lo < blk_len b
       then rbind (key_at ek b lo) (\<lambda>k. Inr (if k = key then Found lo else Missing lo))
       else Inr (Missing lo))"

text \<open>The loops that open and close a gap in an array.\<close>

definition shift_up :: "nat \<Rightarrow> nat \<Rightarrow> nat list \<Rightarrow> nat list" where
  "shift_up index n a = foldl (\<lambda>s i. s[i + 1 := s ! i]) a (rev [index..<n])"

definition shift_down :: "nat \<Rightarrow> nat \<Rightarrow> nat list \<Rightarrow> nat list" where
  "shift_down index n a = foldl (\<lambda>s i. s[i := s ! (i + 1)]) a [index..<n]"

text \<open>Both return the number of cells moved.\<close>

definition insert_at :: "nat \<Rightarrow> nat \<Rightarrow> route_block \<Rightarrow> string + nat \<times> route_block" where
  "insert_at index value b =
     (if blk_len b = BLOCK_CAP \<or> blk_len b < index then Inl ''directory: block insert out of range''
      else Inr (blk_len b - index,
        b\<lparr>blk_slots := (shift_up index (blk_len b) (blk_slots b))[index := value], blk_len := blk_len b + 1\<rparr>))"

definition remove_at :: "nat \<Rightarrow> route_block \<Rightarrow> string + nat \<times> route_block" where
  "remove_at index b =
     (if blk_len b \<le> index then Inl ''directory: block remove index out of range''
      else let n = blk_len b - 1
           in Inr (n - index, b\<lparr>blk_slots := (shift_down index n (blk_slots b))[n := 0], blk_len := n\<rparr>))"

definition split_into :: "route_block \<Rightarrow> route_block \<Rightarrow> string + nat \<times> route_block \<times> route_block" where
  "split_into b dst =
     (if blk_len dst \<noteq> 0 \<or> blk_len b \<noteq> BLOCK_CAP then Inl ''directory: block split precondition violated''
      else let (s, d) = foldl (\<lambda>(s, d) i. (s[i := 0], d[i - BLOCK_HALF := s ! i])) (blk_slots b, blk_slots dst) [BLOCK_HALF..<BLOCK_CAP]
           in Inr (BLOCK_CAP - BLOCK_HALF, b\<lparr>blk_slots := s, blk_len := BLOCK_HALF\<rparr>,
                dst\<lparr>blk_slots := d, blk_len := BLOCK_CAP - BLOCK_HALF\<rparr>))"

definition absorb :: "route_block \<Rightarrow> route_block \<Rightarrow> string + nat \<times> route_block \<times> route_block" where
  "absorb b other =
     (if BLOCK_CAP < blk_len b + blk_len other then Inl ''directory: block absorb overflow''
      else let moved = blk_len other;
               (s, o') = foldl (\<lambda>(s, o') i. (s[blk_len b + i := o' ! i], o'[i := 0])) (blk_slots b, blk_slots other) [0..<moved]
           in Inr (moved, b\<lparr>blk_slots := s, blk_len := blk_len b + moved\<rparr>, other\<lparr>blk_slots := o', blk_len := 0\<rparr>))"

subsection \<open>The index of the blocks\<close>

text \<open>Its capacity is the number of its cells.\<close>

record block_index =
  ix_cells :: "nat list"
  ix_len :: nat

abbreviation ix_cap :: "block_index \<Rightarrow> nat" where "ix_cap ix \<equiv> length (ix_cells ix)"

definition index_empty :: block_index where "index_empty = \<lparr>ix_cells = [], ix_len = 0\<rparr>"

definition with_capacity :: "nat \<Rightarrow> block_index" where
  "with_capacity cap = \<lparr>ix_cells = replicate cap 0, ix_len = 0\<rparr>"

definition ix_cell :: "block_index \<Rightarrow> nat \<Rightarrow> string + nat" where
  "ix_cell ix index = (if ix_cap ix \<le> index then Inl ''directory: index cell out of range'' else Inr (ix_cells ix ! index))"

definition ix_get :: "block_index \<Rightarrow> nat \<Rightarrow> string + nat" where
  "ix_get ix index = (if ix_len ix \<le> index then Inl ''directory: index get out of range'' else ix_cell ix index)"

definition ix_copy_from :: "block_index \<Rightarrow> block_index \<Rightarrow> string + nat \<times> block_index" where
  "ix_copy_from ix old =
     (if ix_cap ix < ix_len old then Inl ''directory: index copy capacity too small''
      else rbind (foldl (\<lambda>r i. rbind r (\<lambda>c. rbind (ix_get old i) (\<lambda>p. Inr (c[i := p])))) (Inr (ix_cells ix)) [0..<ix_len old])
        (\<lambda>c. Inr (ix_len old, ix\<lparr>ix_cells := c, ix_len := ix_len old\<rparr>)))"

definition ix_insert :: "nat \<Rightarrow> nat \<Rightarrow> block_index \<Rightarrow> string + nat \<times> block_index" where
  "ix_insert index value ix =
     (if ix_len ix = ix_cap ix \<or> ix_len ix < index then Inl ''directory: index insert out of range''
      else Inr (ix_len ix - index, ix\<lparr>ix_cells := (shift_up index (ix_len ix) (ix_cells ix))[index := value], ix_len := ix_len ix + 1\<rparr>))"

definition ix_remove :: "nat \<Rightarrow> block_index \<Rightarrow> string + nat \<times> block_index" where
  "ix_remove index ix =
     (if ix_len ix \<le> index then Inl ''directory: index remove out of range''
      else let n = ix_len ix - 1
           in Inr (n - index, ix\<lparr>ix_cells := (shift_down index n (ix_cells ix))[n := 0], ix_len := n\<rparr>))"

subsection \<open>Binary search\<close>

lemma bsearch_ok:
  assumes "\<And>i. i < hi \<Longrightarrow> p i = Inr (q i)" and "\<And>i j. i \<le> j \<Longrightarrow> j < hi \<Longrightarrow> q j \<Longrightarrow> q i" and "lo \<le> hi"
  shows "\<exists>r. bsearch p lo hi = Inr r \<and> lo \<le> r \<and> r \<le> hi \<and> (\<forall>i. lo \<le> i \<longrightarrow> i < r \<longrightarrow> q i) \<and> (\<forall>i. r \<le> i \<longrightarrow> i < hi \<longrightarrow> \<not> q i)"
  using assms
proof (induction "hi - lo" arbitrary: lo hi rule: less_induct)
  case less
  show ?case
  proof (cases "lo < hi")
    case True
    let ?mid = "lo + (hi - lo) div 2"
    have m: "lo \<le> ?mid" "?mid < hi" using True by auto
    have p: "p ?mid = Inr (q ?mid)" using less.prems(1) m(2) .
    show ?thesis
    proof (cases "q ?mid")
      case t: True
      have "\<exists>r. bsearch p (?mid + 1) hi = Inr r \<and> ?mid + 1 \<le> r \<and> r \<le> hi \<and> (\<forall>i. ?mid + 1 \<le> i \<longrightarrow> i < r \<longrightarrow> q i)
        \<and> (\<forall>i. r \<le> i \<longrightarrow> i < hi \<longrightarrow> \<not> q i)"
        by (rule less.hyps) (use m less.prems in auto)
      then obtain r where r: "bsearch p (?mid + 1) hi = Inr r" "?mid + 1 \<le> r" "r \<le> hi"
        "\<forall>i. ?mid + 1 \<le> i \<longrightarrow> i < r \<longrightarrow> q i" "\<forall>i. r \<le> i \<longrightarrow> i < hi \<longrightarrow> \<not> q i" by blast
      have "bsearch p lo hi = Inr r" using True p t r(1) by (subst bsearch.simps) (simp add: Let_def)
      moreover have "q i" if "lo \<le> i" "i < r" for i
        using r(4) t less.prems(2) [of i ?mid] m(2) that by (cases "i \<le> ?mid") auto
      ultimately show ?thesis using r m(1) by (intro exI [of _ r]) auto
    next
      case f: False
      have "\<exists>r. bsearch p lo ?mid = Inr r \<and> lo \<le> r \<and> r \<le> ?mid \<and> (\<forall>i. lo \<le> i \<longrightarrow> i < r \<longrightarrow> q i)
        \<and> (\<forall>i. r \<le> i \<longrightarrow> i < ?mid \<longrightarrow> \<not> q i)"
        by (rule less.hyps) (use m less.prems in auto)
      then obtain r where r: "bsearch p lo ?mid = Inr r" "lo \<le> r" "r \<le> ?mid" "\<forall>i. lo \<le> i \<longrightarrow> i < r \<longrightarrow> q i"
        "\<forall>i. r \<le> i \<longrightarrow> i < ?mid \<longrightarrow> \<not> q i" by blast
      have "bsearch p lo hi = Inr r" using True p f r(1) by (subst bsearch.simps) (simp add: Let_def)
      moreover have "\<not> q i" if "r \<le> i" "i < hi" for i
        using r(5) f less.prems(2) [of ?mid i] that by (cases "i < ?mid") auto
      ultimately show ?thesis using r m(2) by (intro exI [of _ r]) auto
    qed
  next
    case False
    then have "bsearch p lo hi = Inr lo" by (subst bsearch.simps) simp
    then show ?thesis using False less.prems(3) by auto
  qed
qed

subsection \<open>Shifting\<close>

lemma shift_up_length [simp]: "length (shift_up i n a) = length a"
proof -
  have "length (foldl (\<lambda>s i. s[i + 1 := s ! i]) a is) = length a" for "is" by (induction "is" arbitrary: a) simp_all
  then show ?thesis by (simp add: shift_up_def)
qed

lemma shift_down_length [simp]: "length (shift_down i n a) = length a"
proof -
  have "length (foldl (\<lambda>s i. s[i := s ! (i + 1)]) a is) = length a" for "is" by (induction "is" arbitrary: a) simp_all
  then show ?thesis by (simp add: shift_down_def)
qed

lemma shift_up_nth:
  assumes "i \<le> n" and "n < length a"
  shows "shift_up i n a ! j = (if i < j \<and> j \<le> n then a ! (j - 1) else a ! j)"
  using assms(1)
proof (induction "n - i" arbitrary: i j)
  case 0
  then show ?case by (simp add: shift_up_def)
next
  case (Suc d)
  then have "shift_up i n a = (shift_up (Suc i) n a)[Suc i := shift_up (Suc i) n a ! i]"
    by (simp add: shift_up_def upt_conv_Cons)
  moreover have IH: "shift_up (Suc i) n a ! j = (if Suc i < j \<and> j \<le> n then a ! (j - 1) else a ! j)" for j
    by (rule Suc.hyps) (use Suc in auto)
  ultimately show ?case using Suc assms(2) by (auto simp: nth_list_update)
qed

lemma shift_down_nth:
  assumes "n < length a"
  shows "i \<le> n \<Longrightarrow> shift_down i n a ! j = (if i \<le> j \<and> j < n then a ! (j + 1) else a ! j)"
  using assms
proof (induction n arbitrary: j)
  case 0
  then show ?case by (simp add: shift_down_def)
next
  case (Suc n)
  show ?case
  proof (cases "i \<le> n")
    case True
    then have "shift_down i (Suc n) a = (shift_down i n a)[n := shift_down i n a ! Suc n]" by (simp add: shift_down_def)
    then show ?thesis using Suc True by (auto simp: nth_list_update)
  next
    case False
    then show ?thesis using Suc by (simp add: shift_down_def)
  qed
qed

lemma shift_up_insert:
  assumes "i \<le> n" and "n < length a"
  shows "take (Suc n) ((shift_up i n a)[i := v]) = take i (take n a) @ v # drop i (take n a)"
proof (rule nth_equalityI)
  fix j assume "j < length (take (Suc n) ((shift_up i n a)[i := v]))"
  then have "j < Suc n" by simp
  then show "take (Suc n) ((shift_up i n a)[i := v]) ! j = (take i (take n a) @ v # drop i (take n a)) ! j"
    using assms by (cases "j = i") (auto simp: nth_append nth_Cons' shift_up_nth nth_list_update min_def)
qed (use assms in simp)

lemma shift_down_remove:
  assumes "i \<le> n" and "n < length a"
  shows "take n ((shift_down i n a)[n := x]) = take i (take (Suc n) a) @ drop (Suc i) (take (Suc n) a)"
proof (rule nth_equalityI)
  fix j assume "j < length (take n ((shift_down i n a)[n := x]))"
  then have "j < n" by simp
  then show "take n ((shift_down i n a)[n := x]) ! j = (take i (take (Suc n) a) @ drop (Suc i) (take (Suc n) a)) ! j"
    using assms by (auto simp: nth_append shift_down_nth nth_list_update min_def)
qed (use assms in simp)

subsection \<open>Blocks as lists\<close>

lemma block_consts [simp]: "BLOCK_CAP = 64" "BLOCK_HALF = 32" "INITIAL_INDEX_CAP = 8"
  by (simp_all add: BLOCK_CAP_def BLOCK_HALF_def INITIAL_INDEX_CAP_def)

definition blk_ok :: "route_block \<Rightarrow> bool" where
  "blk_ok b \<longleftrightarrow> length (blk_slots b) = 64 \<and> blk_len b \<le> 64"

definition blk_list :: "route_block \<Rightarrow> nat list" where
  "blk_list b = take (blk_len b) (blk_slots b)"

lemma blk_list_length [simp]: "blk_ok b \<Longrightarrow> length (blk_list b) = blk_len b"
  by (simp add: blk_ok_def blk_list_def)

lemma block_new_ok [simp]: "blk_ok block_new" "blk_list block_new = []" "blk_len block_new = 0"
  by (simp_all add: block_new_def blk_ok_def blk_list_def)

lemma blk_get_ok: "blk_ok b \<Longrightarrow> i < length (blk_list b) \<Longrightarrow> blk_get b i = Inr (blk_list b ! i)"
  by (simp add: blk_get_def blk_list_def blk_ok_def)

lemma key_at_ok: "blk_ok b \<Longrightarrow> i < length (blk_list b) \<Longrightarrow> key_at ek b i = Inr (ek (blk_list b ! i))"
  by (simp add: key_at_def blk_get_ok del: blk_list_length)

lemma blk_find_ok:
  assumes "blk_ok b" and "sorted_wrt (<) (map ek (blk_list b))"
  shows "\<exists>i \<le> length (blk_list b). (\<forall>j < i. ek (blk_list b ! j) < key) \<and> (\<forall>j. i \<le> j \<longrightarrow> j < length (blk_list b) \<longrightarrow> key \<le> ek (blk_list b ! j))
    \<and> blk_find ek b key = Inr (if i < length (blk_list b) \<and> ek (blk_list b ! i) = key then Found i else Missing i)"
proof -
  let ?xs = "blk_list b"
  have len: "length ?xs = blk_len b" using assms(1) by simp
  have lt: "ek (?xs ! i) < ek (?xs ! j)" if "i < j" "j < length ?xs" for i j
    using assms(2) that by (simp add: sorted_wrt_iff_nth_less)
  have "\<exists>r. bsearch (\<lambda>mid. rbind (key_at ek b mid) (\<lambda>k. Inr (k < key))) 0 (blk_len b) = Inr r \<and> 0 \<le> r \<and> r \<le> blk_len b
    \<and> (\<forall>i. 0 \<le> i \<longrightarrow> i < r \<longrightarrow> ek (?xs ! i) < key) \<and> (\<forall>i. r \<le> i \<longrightarrow> i < blk_len b \<longrightarrow> \<not> ek (?xs ! i) < key)"
  proof (rule bsearch_ok)
    show "rbind (key_at ek b i) (\<lambda>k. Inr (k < key)) = Inr (ek (?xs ! i) < key)" if "i < blk_len b" for i
      using key_at_ok [OF assms(1)] that len by simp
    show "ek (?xs ! i) < key" if "i \<le> j" "j < blk_len b" "ek (?xs ! j) < key" for i j
      using lt [of i j] that len by (cases "i = j") auto
  qed simp
  then obtain r where r: "bsearch (\<lambda>mid. rbind (key_at ek b mid) (\<lambda>k. Inr (k < key))) 0 (blk_len b) = Inr r" "r \<le> blk_len b"
    "\<And>i. i < r \<Longrightarrow> ek (?xs ! i) < key" "\<And>i. r \<le> i \<Longrightarrow> i < blk_len b \<Longrightarrow> \<not> ek (?xs ! i) < key" by auto
  have "blk_find ek b key = Inr (if r < blk_len b \<and> ek (?xs ! r) = key then Found r else Missing r)"
    unfolding blk_find_def r(1) using key_at_ok [OF assms(1), of r] len by simp
  then show ?thesis unfolding len using r by (intro exI [of _ r]) (auto simp: not_less)
qed

lemma insert_at_ok:
  assumes "blk_ok b" and "length (blk_list b) < 64" and "i \<le> length (blk_list b)"
  shows "\<exists>k b'. insert_at i v b = Inr (k, b') \<and> blk_ok b' \<and> blk_list b' = take i (blk_list b) @ v # drop i (blk_list b)"
proof -
  let ?b = "b\<lparr>blk_slots := (shift_up i (blk_len b) (blk_slots b))[i := v], blk_len := blk_len b + 1\<rparr>"
  have "insert_at i v b = Inr (blk_len b - i, ?b)" using assms by (simp add: insert_at_def)
  moreover have "blk_list ?b = take i (blk_list b) @ v # drop i (blk_list b)"
    using assms shift_up_insert [of i "blk_len b" "blk_slots b" v] by (simp add: blk_list_def blk_ok_def)
  moreover have "blk_ok ?b" using assms by (simp add: blk_ok_def blk_list_def)
  ultimately show ?thesis by blast
qed

lemma remove_at_ok:
  assumes "blk_ok b" and "i < length (blk_list b)"
  shows "\<exists>k b'. remove_at i b = Inr (k, b') \<and> blk_ok b' \<and> blk_list b' = take i (blk_list b) @ drop (Suc i) (blk_list b)"
proof -
  let ?n = "blk_len b - 1"
  let ?b = "b\<lparr>blk_slots := (shift_down i ?n (blk_slots b))[?n := 0], blk_len := ?n\<rparr>"
  have l: "i < blk_len b" "blk_len b \<le> 64" "length (blk_slots b) = 64" using assms by (simp_all add: blk_ok_def)
  have "remove_at i b = Inr (?n - i, ?b)" using l by (simp add: remove_at_def Let_def)
  moreover have "blk_list ?b = take i (blk_list b) @ drop (Suc i) (blk_list b)"
    using l shift_down_remove [of i ?n "blk_slots b" 0] by (simp add: blk_list_def)
  moreover have "blk_ok ?b" using l by (simp add: blk_ok_def)
  ultimately show ?thesis by blast
qed

lemma split_loop:
  assumes "length s = 64" and "length d = 64" and "32 \<le> n" and "n \<le> 64"
  shows "foldl (\<lambda>(s, d) i. (s[i := 0], d[i - 32 := s ! i])) (s, d) [32..<n]
    = (take 32 s @ replicate (n - 32) 0 @ drop n s, take (n - 32) (drop 32 s) @ drop (n - 32) d)"
  using assms(3,4)
proof (induction n rule: dec_induct)
  case base
  then show ?case using assms by simp
next
  case (step n)
  let ?s = "take 32 s @ replicate (n - 32) 0 @ drop n s" and ?d = "take (n - 32) (drop 32 s) @ drop (n - 32) d"
  have at: "?s ! n = s ! n" using step assms by (simp add: nth_append)
  have "?s[n := 0] = take 32 s @ replicate (Suc n - 32) 0 @ drop (Suc n) s"
    using step assms by (intro nth_equalityI) (auto simp: nth_append nth_list_update)
  moreover have "?d[n - 32 := s ! n] = take (Suc n - 32) (drop 32 s) @ drop (Suc n - 32) d"
    using step assms by (intro nth_equalityI) (auto simp: nth_append nth_list_update)
  ultimately show ?case using step at by simp
qed

lemma split_into_ok:
  assumes "blk_ok b" and "blk_ok d" and "length (blk_list b) = 64" and "blk_list d = []"
  shows "\<exists>k b' d'. split_into b d = Inr (k, b', d') \<and> blk_ok b' \<and> blk_ok d' \<and> blk_list b' = take 32 (blk_list b) \<and> blk_list d' = drop 32 (blk_list b)"
proof -
  have l: "length (blk_slots b) = 64" "length (blk_slots d) = 64" "blk_len b = 64" "blk_len d = 0"
    using assms blk_list_length [OF assms(1)] blk_list_length [OF assms(2)] by (simp_all add: blk_ok_def)
  show ?thesis unfolding split_into_def using l split_loop [OF l(1,2), of 64] by (simp add: blk_ok_def blk_list_def)
qed

lemma absorb_loop:
  assumes "n + m \<le> length s" and "m \<le> length d"
  shows "foldl (\<lambda>(s, d) i. (s[n + i := d ! i], d[i := 0])) (s, d) [0..<m] = (take n s @ take m d @ drop (n + m) s, replicate m 0 @ drop m d)"
  using assms
proof (induction m)
  case (Suc m)
  have "(take n s @ take m d @ drop (n + m) s)[n + m := d ! m] = take n s @ take (Suc m) d @ drop (n + Suc m) s"
    using Suc.prems by (intro nth_equalityI) (auto simp: nth_append nth_list_update take_Suc_conv_app_nth)
  moreover have "(replicate m 0 @ drop m d)[m := 0] = replicate (Suc m) 0 @ drop (Suc m) d"
  proof -
    have "drop m d = d ! m # drop (Suc m) d" using Suc.prems by (simp add: Cons_nth_drop_Suc)
    then show ?thesis by (simp add: list_update_append replicate_append_same [symmetric] del: replicate.simps) (simp add: replicate_app_Cons_same)
  qed
  moreover have "(replicate m 0 @ drop m d) ! m = d ! m" using Suc.prems by (simp add: nth_append)
  ultimately show ?case using Suc by simp
qed simp

lemma absorb_ok:
  assumes "blk_ok b" and "blk_ok d" and "length (blk_list b) + length (blk_list d) \<le> 64"
  shows "\<exists>k b' d'. absorb b d = Inr (k, b', d') \<and> blk_ok b' \<and> blk_ok d' \<and> blk_list b' = blk_list b @ blk_list d \<and> blk_list d' = []"
proof -
  have l: "length (blk_slots b) = 64" "length (blk_slots d) = 64" "blk_len b + blk_len d \<le> 64" using assms by (simp_all add: blk_ok_def)
  show ?thesis unfolding absorb_def Let_def using l absorb_loop [of "blk_len b" "blk_len d" "blk_slots b" "blk_slots d"]
    by (simp add: blk_ok_def blk_list_def)
qed

subsection \<open>The index as a list\<close>

definition ix_ok :: "block_index \<Rightarrow> bool" where "ix_ok ix \<longleftrightarrow> ix_len ix \<le> ix_cap ix"

definition ix_list :: "block_index \<Rightarrow> nat list" where "ix_list ix = take (ix_len ix) (ix_cells ix)"

lemma ix_list_length [simp]: "ix_ok ix \<Longrightarrow> length (ix_list ix) = ix_len ix"
  by (simp add: ix_ok_def ix_list_def)

lemma ix_get_ok: "ix_ok ix \<Longrightarrow> i < length (ix_list ix) \<Longrightarrow> ix_get ix i = Inr (ix_list ix ! i)"
  by (simp add: ix_get_def ix_cell_def ix_list_def ix_ok_def)

lemma ix_insert_ok:
  assumes "ix_ok ix" and "ix_len ix < ix_cap ix" and "i \<le> length (ix_list ix)"
  shows "\<exists>k ix'. ix_insert i v ix = Inr (k, ix') \<and> ix_ok ix' \<and> ix_cap ix' = ix_cap ix
    \<and> ix_list ix' = take i (ix_list ix) @ v # drop i (ix_list ix)"
proof -
  let ?x = "ix\<lparr>ix_cells := (shift_up i (ix_len ix) (ix_cells ix))[i := v], ix_len := ix_len ix + 1\<rparr>"
  have "ix_insert i v ix = Inr (ix_len ix - i, ?x)" using assms by (simp add: ix_insert_def)
  moreover have "ix_list ?x = take i (ix_list ix) @ v # drop i (ix_list ix)"
    using assms shift_up_insert [of i "ix_len ix" "ix_cells ix" v] by (simp add: ix_list_def ix_ok_def)
  moreover have "ix_ok ?x" "ix_cap ?x = ix_cap ix" using assms by (simp_all add: ix_ok_def)
  ultimately show ?thesis by blast
qed

lemma ix_remove_ok:
  assumes "ix_ok ix" and "i < length (ix_list ix)"
  shows "\<exists>k ix'. ix_remove i ix = Inr (k, ix') \<and> ix_ok ix' \<and> ix_cap ix' = ix_cap ix
    \<and> ix_list ix' = take i (ix_list ix) @ drop (Suc i) (ix_list ix)"
proof -
  let ?n = "ix_len ix - 1"
  let ?x = "ix\<lparr>ix_cells := (shift_down i ?n (ix_cells ix))[?n := 0], ix_len := ?n\<rparr>"
  have l: "i < ix_len ix" "ix_len ix \<le> ix_cap ix" using assms by (simp_all add: ix_ok_def)
  have "ix_remove i ix = Inr (?n - i, ?x)" using l by (simp add: ix_remove_def Let_def)
  moreover have "ix_list ?x = take i (ix_list ix) @ drop (Suc i) (ix_list ix)"
    using l shift_down_remove [of i ?n "ix_cells ix" 0] by (simp add: ix_list_def)
  moreover have "ix_ok ?x" "ix_cap ?x = ix_cap ix" using l by (simp_all add: ix_ok_def)
  ultimately show ?thesis by blast
qed

lemma ix_copy_ok:
  assumes "ix_ok old" and "ix_cap old \<le> ix_cap ix"
  shows "\<exists>k ix'. ix_copy_from ix old = Inr (k, ix') \<and> ix_ok ix' \<and> ix_cap ix' = ix_cap ix \<and> ix_list ix' = ix_list old"
proof -
  have loop: "foldl (\<lambda>r i. rbind r (\<lambda>c. rbind (ix_get old i) (\<lambda>p. Inr (c[i := p])))) (Inr (ix_cells ix)) [0..<n]
      = Inr (take n (ix_cells old) @ drop n (ix_cells ix))" if "n \<le> ix_len old" for n
    using that
  proof (induction n)
    case (Suc n)
    have "(take n (ix_cells old) @ drop n (ix_cells ix))[n := ix_cells old ! n] = take (Suc n) (ix_cells old) @ drop (Suc n) (ix_cells ix)"
    proof (rule nth_equalityI)
      have "Suc n \<le> ix_cap old" "Suc n \<le> ix_cap ix" using Suc.prems assms by (simp_all add: ix_ok_def)
      then show "length ((take n (ix_cells old) @ drop n (ix_cells ix))[n := ix_cells old ! n])
          = length (take (Suc n) (ix_cells old) @ drop (Suc n) (ix_cells ix))"
        "\<And>i. i < length ((take n (ix_cells old) @ drop n (ix_cells ix))[n := ix_cells old ! n])
          \<Longrightarrow> (take n (ix_cells old) @ drop n (ix_cells ix))[n := ix_cells old ! n] ! i
            = (take (Suc n) (ix_cells old) @ drop (Suc n) (ix_cells ix)) ! i"
        by (auto simp: nth_append nth_list_update less_Suc_eq)
    qed
    then show ?case using Suc ix_get_ok [OF assms(1), of n] assms(1) by (simp add: ix_list_def ix_ok_def)
  qed simp
  let ?x = "ix\<lparr>ix_cells := take (ix_len old) (ix_cells old) @ drop (ix_len old) (ix_cells ix), ix_len := ix_len old\<rparr>"
  have l: "ix_len old \<le> ix_cap old" using assms(1) by (simp add: ix_ok_def)
  have "ix_copy_from ix old = Inr (ix_len old, ?x)" using l assms(2) loop [of "ix_len old"] by (simp add: ix_copy_from_def)
  moreover have "ix_ok ?x" "ix_cap ?x = ix_cap ix" "ix_list ?x = ix_list old"
    using l assms(2) by (simp_all add: ix_ok_def ix_list_def)
  ultimately show ?thesis by blast
qed

end
