(* ===== verification/RouteShard.thy ===== *)
theory RouteShard
  imports RouteBlocks
begin

text \<open>
  A shard of the route directory (\<open>Shard\<close> of \<open>src/registry/segment_route/directory/route_directory.rs\<close>):
  entries sorted by key in a sequence of blocks, located by two binary searches; a full block is split
  into the spare one, sparse neighbours are merged.  \<open>m\<close> is the memory of the blocks, by address.
\<close>

subsection \<open>Operations\<close>

record shard =
  sh_index :: block_index
  sh_spare :: nat

definition shard_empty :: shard where "shard_empty = \<lparr>sh_index = index_empty, sh_spare = 0\<rparr>"

type_synonym blocks = "nat \<Rightarrow> route_block"

definition sh_block :: "shard \<Rightarrow> blocks \<Rightarrow> nat \<Rightarrow> string + route_block" where
  "sh_block sh m index = rbind (ix_get (sh_index sh) index) (\<lambda>p. Inr (m p))"

definition locate :: "(nat \<Rightarrow> nat) \<Rightarrow> shard \<Rightarrow> blocks \<Rightarrow> nat \<Rightarrow> string + (nat \<times> position) option" where
  "locate ek sh m key =
     (if ix_len (sh_index sh) = 0 then Inr None
      else rbind (bsearch (\<lambda>mid. rbind (sh_block sh m mid) (\<lambda>b. rbind (key_at ek b 0) (\<lambda>k. Inr (k \<le> key)))) 0 (ix_len (sh_index sh))) (\<lambda>lo.
        rbind (sh_block sh m (lo - 1)) (\<lambda>b. rbind (blk_find ek b key) (\<lambda>r. Inr (Some (lo - 1, r))))))"

definition sh_find :: "(nat \<Rightarrow> nat) \<Rightarrow> shard \<Rightarrow> blocks \<Rightarrow> nat \<Rightarrow> string + nat option" where
  "sh_find ek sh m key =
     rbind (locate ek sh m key) (\<lambda>r.
       case r of
         Some (block, Found i) \<Rightarrow> rbind (sh_block sh m block) (\<lambda>b. rbind (blk_get b i) (\<lambda>e. Inr (Some e)))
       | _ \<Rightarrow> Inr None)"

datatype insert_result = Done | Duplicate | Need bool nat

definition sh_put :: "nat \<Rightarrow> nat \<Rightarrow> nat \<Rightarrow> shard \<Rightarrow> blocks \<Rightarrow> string + insert_result \<times> shard \<times> blocks" where
  "sh_put target pos entry sh m = rbind (insert_at pos entry (m target)) (\<lambda>(moved, b). Inr (Done, sh, m(target := b)))"

definition wanted_cap :: "block_index \<Rightarrow> nat" where
  "wanted_cap ix = (if ix_len ix < ix_cap ix then 0 else if ix_cap ix = 0 then INITIAL_INDEX_CAP else min (ix_cap ix * 2) (2 ^ 64 - 1))"

definition sh_insert_at :: "nat \<Rightarrow> nat \<Rightarrow> nat \<Rightarrow> shard \<Rightarrow> blocks \<Rightarrow> string + insert_result \<times> shard \<times> blocks" where
  "sh_insert_at entry block pos sh m =
     (let ix = sh_index sh
      in rbind (if ix_len ix = 0 then Inr True else rbind (sh_block sh m block) (\<lambda>b. Inr (blk_len b = BLOCK_CAP))) (\<lambda>needs_block.
        if needs_block \<and> (sh_spare sh = 0 \<or> wanted_cap ix \<noteq> 0) then Inr (Need (sh_spare sh = 0) (wanted_cap ix), sh, m)
        else if \<not> needs_block then rbind (ix_get ix block) (\<lambda>target. sh_put target pos entry sh m)
        else
          let fresh = sh_spare sh
          in if ix_len ix = 0
             then rbind (ix_insert 0 fresh ix) (\<lambda>(moved, ix'). sh_put fresh 0 entry \<lparr>sh_index = ix', sh_spare = 0\<rparr> m)
             else rbind (ix_get ix block) (\<lambda>old.
               rbind (split_into (m old) (m fresh)) (\<lambda>(moved, b, d).
               rbind (ix_insert (block + 1) fresh ix) (\<lambda>(moved, ix').
                 if pos \<le> BLOCK_HALF then sh_put old pos entry \<lparr>sh_index = ix', sh_spare = 0\<rparr> (m(old := b, fresh := d))
                 else sh_put fresh (pos - BLOCK_HALF) entry \<lparr>sh_index = ix', sh_spare = 0\<rparr> (m(old := b, fresh := d)))))))"

definition sh_insert :: "(nat \<Rightarrow> nat) \<Rightarrow> nat \<Rightarrow> nat \<Rightarrow> shard \<Rightarrow> blocks \<Rightarrow> string + insert_result \<times> shard \<times> blocks" where
  "sh_insert ek key entry sh m =
     rbind (locate ek sh m key) (\<lambda>r.
       case r of
         None \<Rightarrow> sh_insert_at entry 0 0 sh m
       | Some (block, Found i) \<Rightarrow> Inr (Duplicate, sh, m)
       | Some (block, Missing pos) \<Rightarrow> sh_insert_at entry block pos sh m)"

text \<open>Blocks that leave the shard in a removal: at most two.\<close>

type_synonym retired = "nat option \<times> nat option"

definition retired_push :: "nat \<Rightarrow> retired \<Rightarrow> retired" where
  "retired_push b r = (if fst r = None then (Some b, snd r) else (fst r, Some b))"

definition retire :: "nat \<Rightarrow> shard \<Rightarrow> retired \<Rightarrow> shard \<times> retired" where
  "retire b sh r = (if sh_spare sh = 0 then (sh\<lparr>sh_spare := b\<rparr>, r) else (sh, retired_push b r))"

text \<open>The right one of two adjacent blocks, at \<open>i + 1\<close>, is emptied into the left one when both fit in half a block.\<close>

definition sh_merge :: "nat \<Rightarrow> shard \<times> blocks \<times> retired \<Rightarrow> string + shard \<times> blocks \<times> retired" where
  "sh_merge i smr =
     (let (sh, m, r) = smr; ix = sh_index sh
      in rbind (ix_get ix i) (\<lambda>left. rbind (ix_get ix (i + 1)) (\<lambda>right.
        if blk_len (m left) + blk_len (m right) \<le> BLOCK_HALF
        then rbind (absorb (m left) (m right)) (\<lambda>(moved, b, d). rbind (ix_remove (i + 1) ix) (\<lambda>(moved, ix').
          let (sh', r') = retire right (sh\<lparr>sh_index := ix'\<rparr>) r in Inr (sh', m(left := b, right := d), r')))
        else Inr (sh, m, r))))"

definition sh_remove :: "(nat \<Rightarrow> nat) \<Rightarrow> nat \<Rightarrow> nat \<Rightarrow> shard \<Rightarrow> blocks \<Rightarrow> string + shard \<times> blocks \<times> retired" where
  "sh_remove ek key entry sh m =
     rbind (locate ek sh m key) (\<lambda>r.
       case r of
         Some (block, Found pos) \<Rightarrow>
           rbind (ix_get (sh_index sh) block) (\<lambda>raw.
           rbind (blk_get (m raw) pos) (\<lambda>e.
             if e \<noteq> entry then Inl ''directory: removed entry does not match key''
             else rbind (remove_at pos (m raw)) (\<lambda>(moved, b).
               let m1 = m(raw := b)
               in if blk_len b = 0
                  then rbind (ix_remove block (sh_index sh)) (\<lambda>(moved, ix').
                    let (sh', r') = retire raw (sh\<lparr>sh_index := ix'\<rparr>) (None, None) in Inr (sh', m1, r'))
                  else rbind (if block + 1 < ix_len (sh_index sh) then sh_merge block (sh, m1, (None, None))
                              else Inr (sh, m1, (None, None))) (\<lambda>smr.
                    if 0 < block then sh_merge (block - 1) smr else Inr smr))))
       | _ \<Rightarrow> Inl ''directory: remove of unindexed key'')"

text \<open>\<open>install\<close>: what is not needed any more is surplus.\<close>

definition sh_install :: "nat option \<Rightarrow> block_index option \<Rightarrow> shard \<Rightarrow> string + shard \<times> nat option \<times> block_index option" where
  "sh_install block index sh =
     (let (sh1, surplus_block) =
        (case block of None \<Rightarrow> (sh, None)
         | Some b \<Rightarrow> if sh_spare sh = 0 then (sh\<lparr>sh_spare := b\<rparr>, None) else (sh, Some b))
      in case index of
           None \<Rightarrow> Inr (sh1, surplus_block, None)
         | Some enlarged \<Rightarrow>
             if ix_len (sh_index sh1) = ix_cap (sh_index sh1) \<and> ix_cap (sh_index sh1) < ix_cap enlarged
             then rbind (ix_copy_from enlarged (sh_index sh1)) (\<lambda>(moved, e).
               Inr (sh1\<lparr>sh_index := e\<rparr>, surplus_block, Some (sh_index sh1)))
             else Inr (sh1, surplus_block, Some enlarged))"

subsection \<open>The entries of a shard\<close>

definition entry_map :: "(nat \<Rightarrow> nat) \<Rightarrow> nat list \<Rightarrow> nat \<Rightarrow> nat option" where
  "entry_map ek es = map_of (map (\<lambda>e. (ek e, e)) es)"

definition by_key :: "(nat \<Rightarrow> nat) \<Rightarrow> nat list \<Rightarrow> bool" where
  "by_key ek es \<longleftrightarrow> sorted_wrt (<) (map ek es)"

lemma by_key_append: "by_key ek (xs @ ys) \<longleftrightarrow> by_key ek xs \<and> by_key ek ys \<and> (\<forall>x \<in> set xs. \<forall>y \<in> set ys. ek x < ek y)"
  by (auto simp: by_key_def sorted_wrt_append)

lemma by_key_Cons: "by_key ek (x # ys) \<longleftrightarrow> by_key ek ys \<and> (\<forall>y \<in> set ys. ek x < ek y)"
  by (auto simp: by_key_def)

lemma by_key_simps [simp]: "by_key ek []" "by_key ek [x]"
  by (simp_all add: by_key_def)

lemma entry_map_Some:
  assumes "by_key ek es"
  shows "entry_map ek es k = Some e \<longleftrightarrow> e \<in> set es \<and> ek e = k"
proof -
  have "distinct (map ek es)" using assms by (simp add: by_key_def strict_sorted_iff)
  then show ?thesis by (auto simp: entry_map_def o_def map_of_eq_Some_iff)
qed

lemma entry_map_insert:
  assumes "by_key ek es" and "by_key ek es'" and "set es' = insert e (set es)"
  shows "entry_map ek es' = (entry_map ek es)(ek e \<mapsto> e)"
proof (rule ext)
  fix k
  have "(entry_map ek es' k = Some x) = (((entry_map ek es)(ek e \<mapsto> e)) k = Some x)" for x
  proof (cases "k = ek e")
    case True
    have "entry_map ek es' (ek e) = Some e" using assms by (simp add: entry_map_Some)
    then show ?thesis using True by simp
  next
    case False
    then show ?thesis using assms by (auto simp: entry_map_Some)
  qed
  then show "entry_map ek es' k = ((entry_map ek es)(ek e \<mapsto> e)) k" by (metis not_Some_eq)
qed

lemma entry_map_delete:
  assumes "by_key ek (xs @ e # ys)"
  shows "entry_map ek (xs @ ys) = (entry_map ek (xs @ e # ys))(ek e := None)"
proof (rule ext)
  fix k
  have k: "by_key ek (xs @ ys)" using assms by (simp add: by_key_append by_key_Cons)
  have "(entry_map ek (xs @ ys) k = Some x) = (((entry_map ek (xs @ e # ys))(ek e := None)) k = Some x)" for x
    using assms by (cases "k = ek e") (auto simp: entry_map_Some [OF k] entry_map_Some [OF assms] by_key_append by_key_Cons)
  then show "entry_map ek (xs @ ys) k = ((entry_map ek (xs @ e # ys))(ek e := None)) k" by (metis not_Some_eq)
qed

lemma by_key_inj: "by_key ek es \<Longrightarrow> x \<in> set es \<Longrightarrow> y \<in> set es \<Longrightarrow> ek x = ek y \<Longrightarrow> x = y"
  using entry_map_Some [of ek es "ek x" x] entry_map_Some [of ek es "ek x" y] by simp

text \<open>Two neighbours hold more than half a block between them.\<close>

definition dense :: "nat list list \<Rightarrow> bool" where
  "dense = successively (\<lambda>a b. 32 < length a + length b)"

lemma dense_Nil [simp]: "dense []" "dense [x]"
  by (simp_all add: dense_def)

lemma dense_append: "dense (A @ B) \<longleftrightarrow> dense A \<and> dense B \<and> (A = [] \<or> B = [] \<or> 32 < length (last A) + length (hd B))"
  by (auto simp: dense_def successively_append_iff)

lemma dense_Cons: "dense (a # B) \<longleftrightarrow> dense B \<and> (B = [] \<or> 32 < length a + length (hd B))"
  using dense_append [of "[a]" B] by simp

definition lists_ok :: "(nat \<Rightarrow> nat) \<Rightarrow> nat list list \<Rightarrow> bool" where
  "lists_ok ek L \<longleftrightarrow> [] \<notin> set L \<and> by_key ek (concat L) \<and> dense L"

definition shard_rep :: "shard \<Rightarrow> blocks \<Rightarrow> nat list list \<Rightarrow> bool" where
  "shard_rep sh m L \<longleftrightarrow> ix_ok (sh_index sh) \<and> distinct (ix_list (sh_index sh)) \<and> 0 \<notin> set (ix_list (sh_index sh))
     \<and> (\<forall>p \<in> set (ix_list (sh_index sh)). blk_ok (m p)) \<and> L = map (\<lambda>p. blk_list (m p)) (ix_list (sh_index sh))
     \<and> (sh_spare sh \<noteq> 0 \<longrightarrow> sh_spare sh \<notin> set (ix_list (sh_index sh)) \<and> blk_ok (m (sh_spare sh)) \<and> blk_list (m (sh_spare sh)) = [])"

definition owned :: "shard \<Rightarrow> nat set" where
  "owned sh = set (ix_list (sh_index sh)) \<union> (if sh_spare sh = 0 then {} else {sh_spare sh})"

lemma shard_rep_frame: "shard_rep sh m L \<Longrightarrow> (\<And>p. p \<in> owned sh \<Longrightarrow> m' p = m p) \<Longrightarrow> shard_rep sh m' L"
  by (auto simp: shard_rep_def owned_def)

lemma shard_empty_rep [simp]: "shard_rep shard_empty m []" "owned shard_empty = {}"
  by (simp_all add: shard_rep_def shard_empty_def index_empty_def ix_ok_def ix_list_def owned_def)

lemma rep_len: "shard_rep sh m L \<Longrightarrow> ix_len (sh_index sh) = length L"
  by (auto simp: shard_rep_def)

lemma rep_block:
  assumes "shard_rep sh m L" and "b < length L"
  shows "\<exists>p. ix_get (sh_index sh) b = Inr p \<and> sh_block sh m b = Inr (m p) \<and> p \<in> set (ix_list (sh_index sh)) \<and> p = ix_list (sh_index sh) ! b
    \<and> blk_ok (m p) \<and> blk_list (m p) = L ! b \<and> blk_len (m p) = length (L ! b)"
proof -
  from assms have ok: "ix_ok (sh_index sh)" and l: "b < length (ix_list (sh_index sh))" by (auto simp: shard_rep_def)
  from ix_get_ok [OF this] have g: "ix_get (sh_index sh) b = Inr (ix_list (sh_index sh) ! b)" .
  have "ix_list (sh_index sh) ! b \<in> set (ix_list (sh_index sh))" using l by simp
  with assms g show ?thesis by (auto simp: shard_rep_def sh_block_def simp flip: blk_list_length)
qed

subsection \<open>Locating a key\<close>

text \<open>The position found cuts the entries in those below the key and the others.\<close>

lemma locate_ok:
  assumes rep: "shard_rep sh m L" and ok: "lists_ok ek L" and ne: "L \<noteq> []"
  shows "\<exists>b i. b < length L \<and> i \<le> length (L ! b)
    \<and> locate ek sh m key = Inr (Some (b, if i < length (L ! b) \<and> ek (L ! b ! i) = key then Found i else Missing i))
    \<and> (\<forall>x \<in> set (concat (take b L) @ take i (L ! b)). ek x < key)
    \<and> (\<forall>x \<in> set (drop i (L ! b)). key \<le> ek x) \<and> (\<forall>x \<in> set (concat (drop (Suc b) L)). key < ek x)"
proof -
  have len: "ix_len (sh_index sh) = length L" by (rule rep_len [OF rep])
  have nel: "L ! j \<noteq> []" if "j < length L" for j
    using ok nth_mem [OF that] by (auto simp: lists_ok_def)
  have cut: "concat L = concat (take j L) @ L ! j @ concat (drop (Suc j) L)" if "j < length L" for j
    using arg_cong [OF id_take_nth_drop [OF that], of concat] by simp
  have sorted: "by_key ek (concat L)" using ok by (simp add: lists_ok_def)
  have first_mono: "ek (hd (L ! i)) < ek x" if "i < j" "j < length L" "x \<in> set (L ! j)" for i j x
  proof -
    have "L ! i \<in> set (take j L)" using that by (auto simp: set_conv_nth intro!: exI [of _ i])
    then have "hd (L ! i) \<in> set (concat (take j L))" using nel [of i] that by (intro UN_I [of "L ! i", simplified] | auto)+
    then show ?thesis using sorted that cut [OF that(2)] by (auto simp: by_key_append)
  qed
  let ?q = "\<lambda>i. ek (hd (L ! i)) \<le> key"
  have "\<exists>r. bsearch (\<lambda>mid. rbind (sh_block sh m mid) (\<lambda>b. rbind (key_at ek b 0) (\<lambda>k. Inr (k \<le> key)))) 0 (length L) = Inr r
    \<and> 0 \<le> r \<and> r \<le> length L \<and> (\<forall>i. 0 \<le> i \<longrightarrow> i < r \<longrightarrow> ?q i) \<and> (\<forall>i. r \<le> i \<longrightarrow> i < length L \<longrightarrow> \<not> ?q i)"
  proof (rule bsearch_ok)
    fix i assume i: "i < length L"
    from rep_block [OF rep i] obtain p where p: "sh_block sh m i = Inr (m p)" "blk_ok (m p)" "blk_list (m p) = L ! i" by blast
    have "key_at ek (m p) 0 = Inr (ek (L ! i ! 0))" using key_at_ok [OF p(2), of 0] nel [OF i] by (simp add: p(3) del: blk_list_length)
    then show "rbind (sh_block sh m i) (\<lambda>b. rbind (key_at ek b 0) (\<lambda>k. Inr (k \<le> key))) = Inr (?q i)"
      using nel [OF i] by (simp add: p(1) hd_conv_nth)
  next
    fix i j assume "i \<le> j" "j < length L" "?q j"
    then show "?q i" using first_mono [of i j "hd (L ! j)"] nel [of j] by (cases "i = j") auto
  qed simp
  then obtain r where r: "bsearch (\<lambda>mid. rbind (sh_block sh m mid) (\<lambda>b. rbind (key_at ek b 0) (\<lambda>k. Inr (k \<le> key)))) 0 (length L) = Inr r"
    "r \<le> length L" "\<And>i. i < r \<Longrightarrow> ?q i" "\<And>i. r \<le> i \<Longrightarrow> i < length L \<Longrightarrow> \<not> ?q i" by auto
  let ?b = "r - 1"
  have b: "?b < length L" using ne r(2) by (cases L) auto
  from rep_block [OF rep b] obtain p where p: "sh_block sh m ?b = Inr (m p)" "blk_ok (m p)" "blk_list (m p) = L ! ?b" by blast
  have sb: "by_key ek (L ! ?b)" using sorted cut [OF b] by (simp add: by_key_append)
  from blk_find_ok [OF p(2), of ek key] sb obtain i where
    i: "i \<le> length (L ! ?b)" "\<And>j. j < i \<Longrightarrow> ek (L ! ?b ! j) < key" "\<And>j. i \<le> j \<Longrightarrow> j < length (L ! ?b) \<Longrightarrow> key \<le> ek (L ! ?b ! j)"
      "blk_find ek (m p) key = Inr (if i < length (L ! ?b) \<and> ek (L ! ?b ! i) = key then Found i else Missing i)"
    by (auto simp: p(3) by_key_def)
  have run: "locate ek sh m key = Inr (Some (?b, if i < length (L ! ?b) \<and> ek (L ! ?b ! i) = key then Found i else Missing i))"
    unfolding locate_def len r(1) rbind.simps p(1) i(4) using ne by simp
  have below: "ek x < key" if "x \<in> set (concat (take ?b L))" for x
  proof -
    have "r \<noteq> 0" using that by (intro notI) simp
    then have "?q ?b" by (intro r(3)) simp
    moreover have "ek x < ek (hd (L ! ?b))" using sorted that nel [OF b] unfolding cut [OF b] by (auto simp: by_key_append)
    ultimately show ?thesis by simp
  qed
  have above: "key < ek x" if "x \<in> set (concat (drop (Suc ?b) L))" for x
  proof -
    from that obtain j where j: "x \<in> set (L ! j)" "Suc ?b \<le> j" "j < length L"
      by (fastforce simp: in_set_conv_nth)
    have "r \<le> Suc ?b" "Suc ?b < length L" using j by linarith+
    then have "\<not> ?q (Suc ?b)" by (rule r(4))
    then have "key < ek (hd (L ! Suc ?b))" by simp
    also have "\<dots> \<le> ek x"
    proof (cases "j = Suc ?b")
      case True
      have "by_key ek (L ! j)" using sorted cut [OF j(3)] by (simp add: by_key_append)
      then show ?thesis using j(1) True by (cases "L ! j") (auto simp: by_key_Cons)
    next
      case False
      then show ?thesis using first_mono [of "Suc ?b" j x] j by simp
    qed
    finally show ?thesis .
  qed
  have t: "ek x < key" if "x \<in> set (take i (L ! ?b))" for x using that i(1,2) by (auto simp: in_set_conv_nth)
  have d: "key \<le> ek x" if "x \<in> set (drop i (L ! ?b))" for x using that i(1,3) by (fastforce simp: in_set_conv_nth)
  have "\<forall>x \<in> set (concat (take ?b L) @ take i (L ! ?b)). ek x < key" using below t by auto
  then show ?thesis using b i(1) run above d by blast
qed

lemma locate_empty: "shard_rep sh m [] \<Longrightarrow> locate ek sh m key = Inr None"
  using rep_len [of sh m "[]"] by (simp add: locate_def)

lemma sh_find_ok:
  assumes rep: "shard_rep sh m L" and ok: "lists_ok ek L"
  shows "sh_find ek sh m key = Inr (entry_map ek (concat L) key)"
proof (cases "L = []")
  case True
  then show ?thesis using rep locate_empty [of sh m ek key] by (simp add: sh_find_def entry_map_def)
next
  case False
  from locate_ok [OF rep ok False, of key] obtain b i where
    bi: "b < length L" "i \<le> length (L ! b)"
      "locate ek sh m key = Inr (Some (b, if i < length (L ! b) \<and> ek (L ! b ! i) = key then Found i else Missing i))"
      "\<And>x. x \<in> set (concat (take b L) @ take i (L ! b)) \<Longrightarrow> ek x < key"
      "\<And>x. x \<in> set (drop i (L ! b)) \<Longrightarrow> key \<le> ek x" "\<And>x. x \<in> set (concat (drop (Suc b) L)) \<Longrightarrow> key < ek x" by blast
  have c: "concat L = (concat (take b L) @ take i (L ! b)) @ drop i (L ! b) @ concat (drop (Suc b) L)"
    using arg_cong [OF id_take_nth_drop [OF bi(1)], of concat] by simp
  have k: "by_key ek (concat L)" using ok by (simp add: lists_ok_def)
  show ?thesis
  proof (cases "i < length (L ! b) \<and> ek (L ! b ! i) = key")
    case True
    from rep_block [OF rep bi(1)] obtain p where p: "sh_block sh m b = Inr (m p)" "blk_ok (m p)" "blk_list (m p) = L ! b" by blast
    have "L ! b ! i \<in> set (concat L)" using True bi(1) by (auto intro!: bexI [of _ "L ! b"])
    then have "entry_map ek (concat L) key = Some (L ! b ! i)" using True k by (simp add: entry_map_Some)
    moreover have "blk_get (m p) i = Inr (L ! b ! i)" using blk_get_ok [OF p(2), of i] True by (simp add: p(3) del: blk_list_length)
    ultimately show ?thesis using True by (simp add: sh_find_def bi(3) p(1))
  next
    case False
    have "ek x \<noteq> key" if "x \<in> set (drop i (L ! b))" for x
    proof (cases "drop i (L ! b)")
      case (Cons y ys)
      then have y: "i < length (L ! b)" "y = L ! b ! i" using nth_via_drop [OF Cons] by (auto intro: ccontr)
      have "by_key ek (y # ys)" using k unfolding c Cons by (simp add: by_key_append by_key_Cons)
      then show ?thesis using that Cons y False bi(5) [of y] by (auto simp: by_key_Cons)
    qed (use that in simp)
    then have "entry_map ek (concat L) key = None" using bi(4,6) unfolding entry_map_def c
      by (fastforce simp: map_of_eq_None_iff)
    then show ?thesis unfolding sh_find_def bi(3) if_not_P [OF False] by simp
  qed
qed

subsection \<open>Insertion\<close>

lemma rep_split:
  assumes "shard_rep sh m (A @ xs # B)"
  obtains P p Q where "ix_list (sh_index sh) = P @ p # Q" "length P = length A" "A = map (\<lambda>p. blk_list (m p)) P" "xs = blk_list (m p)"
    "B = map (\<lambda>p. blk_list (m p)) Q" "blk_ok (m p)" "p \<notin> set P" "p \<notin> set Q" "p \<noteq> 0" "p \<noteq> sh_spare sh" "p \<in> owned sh"
proof -
  from assms have "map (\<lambda>p. blk_list (m p)) (ix_list (sh_index sh)) = A @ xs # B" by (simp add: shard_rep_def)
  then obtain P p Q where l: "ix_list (sh_index sh) = P @ p # Q" "A = map (\<lambda>p. blk_list (m p)) P" "xs = blk_list (m p)" "B = map (\<lambda>p. blk_list (m p)) Q"
    by (auto simp: map_eq_append_conv map_eq_Cons_conv)
  from assms l(1) have "blk_ok (m p)" "p \<notin> set P" "p \<notin> set Q" "p \<noteq> 0" "p \<noteq> sh_spare sh" "p \<in> owned sh"
    by (auto simp: shard_rep_def owned_def)
  with l that show ?thesis by simp
qed

lemma rep_at:
  assumes "shard_rep sh m (A @ xs # B)" and "ix_list (sh_index sh) = P @ p # Q" and "length P = length A"
  shows "ix_get (sh_index sh) (length A) = Inr p" "sh_block sh m (length A) = Inr (m p)"
  using rep_block [OF assms(1), of "length A"] assms(2,3) by (auto simp: nth_append)

lemma rep_update:
  assumes "shard_rep sh m (A @ xs # B)" and "ix_list (sh_index sh) = P @ p # Q" and "length P = length A" and "blk_ok b"
  shows "shard_rep sh (m(p := b)) (A @ blk_list b # B)"
proof -
  have "distinct (P @ p # Q)" and m: "map (\<lambda>p. blk_list (m p)) (P @ p # Q) = A @ xs # B" and s: "sh_spare sh \<noteq> 0 \<longrightarrow> sh_spare sh \<notin> set (P @ p # Q)"
    using assms(1,2) by (simp_all add: shard_rep_def)
  then have "p \<notin> set P" "p \<notin> set Q" by simp_all
  moreover have "map (\<lambda>p. blk_list (m p)) P = A" "map (\<lambda>p. blk_list (m p)) Q = B" using m assms(3) by simp_all
  ultimately have "map (\<lambda>q. blk_list ((m(p := b)) q)) (P @ p # Q) = A @ blk_list b # B" by auto
  then show ?thesis using assms(1,2,4) s unfolding shard_rep_def by auto
qed

lemma sh_put_ok:
  assumes rep: "shard_rep sh m (A @ xs # B)" and p: "ix_list (sh_index sh) = P @ p # Q" "length P = length A"
    and i: "length xs < 64" "i \<le> length xs"
  shows "\<exists>m'. sh_put p i e sh m = Inr (Done, sh, m') \<and> shard_rep sh m' (A @ (take i xs @ e # drop i xs) # B) \<and> (\<forall>q. q \<noteq> p \<longrightarrow> m' q = m q)"
proof -
  from rep_at [OF rep p] rep_block [OF rep, of "length A"] p have b: "blk_ok (m p)" "blk_list (m p) = xs" by (auto simp: nth_append)
  from insert_at_ok [OF b(1), of i e] i obtain k b' where b': "insert_at i e (m p) = Inr (k, b')" "blk_ok b'" "blk_list b' = take i xs @ e # drop i xs"
    unfolding b(2) by blast
  have "shard_rep sh (m(p := b')) (A @ (take i xs @ e # drop i xs) # B)" using rep_update [OF rep p b'(2)] by (simp add: b'(3))
  then show ?thesis by (intro exI [of _ "m(p := b')"]) (simp add: sh_put_def b'(1))
qed

lemma concat_cut: "concat (A @ xs # B) = (concat A @ take i xs) @ (drop i xs @ concat B)"
proof -
  have "concat (A @ xs # B) = concat A @ (take i xs @ drop i xs) @ concat B" by simp
  then show ?thesis by (simp only: append_assoc)
qed

lemma lists_ok_insert:
  assumes ok: "lists_ok ek (A @ xs # B)" and "\<forall>x \<in> set (concat A @ take i xs). ek x < ek e" and "\<forall>x \<in> set (drop i xs @ concat B). ek e < ek x"
  shows "lists_ok ek (A @ (take i xs @ e # drop i xs) # B)"
    "set (concat (A @ (take i xs @ e # drop i xs) # B)) = insert e (set (concat (A @ xs # B)))"
proof -
  have xs: "take i xs @ drop i xs = xs" by simp
  have k: "by_key ek ((concat A @ take i xs) @ (drop i xs @ concat B))" using ok unfolding lists_ok_def concat_cut [of A xs B i] by blast
  then have "by_key ek ((concat A @ take i xs) @ e # (drop i xs @ concat B))"
    using assms(2,3) by (auto simp: by_key_append by_key_Cons)
  moreover have "dense (A @ (take i xs @ e # drop i xs) # B)" using ok by (auto simp: lists_ok_def dense_append dense_Cons)
  ultimately show "lists_ok ek (A @ (take i xs @ e # drop i xs) # B)" using ok by (simp add: lists_ok_def)
  show "set (concat (A @ (take i xs @ e # drop i xs) # B)) = insert e (set (concat (A @ xs # B)))"
    using set_append [of "take i xs" "drop i xs", unfolded xs] by auto
qed

lemma lists_ok_halves:
  assumes ok: "lists_ok ek (A @ xs # B)" and l: "length xs = 64"
  shows "lists_ok ek (A @ take 32 xs # drop 32 xs # B)"
proof -
  have ne: "[] \<notin> set A" "[] \<notin> set B" using ok by (simp_all add: lists_ok_def)
  have "A \<noteq> [] \<Longrightarrow> last A \<noteq> []" using ne(1) last_in_set by metis
  moreover have "B \<noteq> [] \<Longrightarrow> hd B \<noteq> []" using ne(2) hd_in_set by metis
  ultimately have "dense (A @ take 32 xs # drop 32 xs # B)" using ok l by (auto simp: lists_ok_def dense_append dense_Cons)
  moreover have c: "concat (A @ take 32 xs # drop 32 xs # B) = concat (A @ xs # B)" by (simp flip: append_assoc)
  moreover have "by_key ek (concat (A @ xs # B))" using ok by (simp add: lists_ok_def)
  ultimately show ?thesis using ne l unfolding lists_ok_def c by auto
qed

text \<open>What an insertion leaves behind.\<close>

definition inserted :: "(nat \<Rightarrow> nat) \<Rightarrow> nat \<Rightarrow> nat list list \<Rightarrow> shard \<Rightarrow> blocks \<Rightarrow> shard \<Rightarrow> blocks \<Rightarrow> bool" where
  "inserted ek e L sh m sh' m' \<longleftrightarrow> (\<exists>L'. shard_rep sh' m' L' \<and> lists_ok ek L' \<and> set (concat L') = insert e (set (concat L))
     \<and> owned sh' = owned sh \<and> (\<forall>p. p \<notin> owned sh \<longrightarrow> m' p = m p))"

definition needs :: "shard \<Rightarrow> bool" where
  "needs sh \<longleftrightarrow> sh_spare sh = 0 \<or> wanted_cap (sh_index sh) \<noteq> 0"

lemma room_iff: "ix_ok ix \<Longrightarrow> wanted_cap ix = 0 \<longleftrightarrow> ix_len ix < ix_cap ix"
  by (auto simp: wanted_cap_def ix_ok_def min_def)

lemma insert_into_empty:
  assumes rep: "shard_rep sh m []" and "\<not> needs sh"
  shows "\<exists>sh' m'. sh_insert_at e b i sh m = Inr (Done, sh', m') \<and> inserted ek e [] sh m sh' m'"
proof -
  let ?ix = "sh_index sh" and ?f = "sh_spare sh"
  have l: "ix_len ?ix = 0" using rep_len [OF rep] by simp
  have ix: "ix_ok ?ix" "ix_list ?ix = []" using rep by (auto simp: shard_rep_def)
  have f: "?f \<noteq> 0" "wanted_cap ?ix = 0" "blk_ok (m ?f)" "blk_list (m ?f) = []" using assms by (auto simp: needs_def shard_rep_def)
  have c: "ix_len ?ix < ix_cap ?ix" using f(2) ix(1) by (simp add: room_iff)
  from ix_insert_ok [OF ix(1) c, of 0 ?f] obtain k ix' where
    ix': "ix_insert 0 ?f ?ix = Inr (k, ix')" "ix_ok ix'" "ix_list ix' = [?f]" by (auto simp: ix(2))
  let ?sh = "\<lparr>sh_index = ix', sh_spare = 0\<rparr>"
  have r: "shard_rep ?sh m ([] @ [] # [])" using ix' f by (simp add: shard_rep_def)
  have "\<exists>m'. sh_put ?f 0 e ?sh m = Inr (Done, ?sh, m') \<and> shard_rep ?sh m' ([] @ (take 0 [] @ e # drop 0 []) # []) \<and> (\<forall>q. q \<noteq> ?f \<longrightarrow> m' q = m q)"
    by (rule sh_put_ok [OF r, where P = "[]" and Q = "[]"]) (simp_all add: ix'(3))
  then obtain m' where m': "sh_put ?f 0 e ?sh m = Inr (Done, ?sh, m')" "shard_rep ?sh m' [[e]]" "\<And>q. q \<noteq> ?f \<Longrightarrow> m' q = m q" by auto
  have "sh_insert_at e b i sh m = Inr (Done, ?sh, m')" using l f(1,2) by (simp add: sh_insert_at_def Let_def ix'(1) m'(1))
  moreover have "inserted ek e [] sh m ?sh m'"
    unfolding inserted_def using m'(2,3) f(1) ix'(3) ix(2) by (intro exI [of _ "[[e]]"]) (simp add: lists_ok_def owned_def)
  ultimately show ?thesis by blast
qed

lemma insert_room:
  assumes rep: "shard_rep sh m (A @ xs # B)" and ok: "lists_ok ek (A @ xs # B)" and i: "length xs < 64" "i \<le> length xs"
    and lo: "\<forall>x \<in> set (concat A @ take i xs). ek x < ek e" and hi: "\<forall>x \<in> set (drop i xs @ concat B). ek e < ek x"
  shows "\<exists>sh' m'. sh_insert_at e (length A) i sh m = Inr (Done, sh', m') \<and> inserted ek e (A @ xs # B) sh m sh' m'"
proof -
  obtain P p Q where p: "ix_list (sh_index sh) = P @ p # Q" "length P = length A" "xs = blk_list (m p)" "blk_ok (m p)" "p \<in> owned sh"
    using rep by (rule rep_split) (rule that)
  from sh_put_ok [OF rep p(1,2) i] obtain m' where
    m': "sh_put p i e sh m = Inr (Done, sh, m')" "shard_rep sh m' (A @ (take i xs @ e # drop i xs) # B)" "\<And>q. q \<noteq> p \<Longrightarrow> m' q = m q" by blast
  have l: "ix_len (sh_index sh) \<noteq> 0" using rep_len [OF rep] by simp
  have "blk_len (m p) \<noteq> BLOCK_CAP" using i(1) p(4) by (simp add: p(3))
  then have "sh_insert_at e (length A) i sh m = Inr (Done, sh, m')"
    using l by (simp add: sh_insert_at_def Let_def rep_at [OF rep p(1,2)] m'(1))
  moreover have "inserted ek e (A @ xs # B) sh m sh m'"
  proof -
    have fr: "\<forall>q. q \<notin> owned sh \<longrightarrow> m' q = m q" using m'(3) p(5) by metis
    show ?thesis unfolding inserted_def by (intro exI conjI) (rule m'(2) lists_ok_insert [OF ok lo hi] refl fr)+
  qed
  ultimately show ?thesis by blast
qed

lemma insert_need: "shard_rep sh m (A @ xs # B) \<Longrightarrow> length xs = 64 \<Longrightarrow> needs sh
    \<Longrightarrow> sh_insert_at e (length A) i sh m = Inr (Need (sh_spare sh = 0) (wanted_cap (sh_index sh)), sh, m)"
  using rep_len [of sh m "A @ xs # B"] rep_block [of sh m "A @ xs # B" "length A"] by (auto simp: sh_insert_at_def needs_def)

lemma insert_split:
  assumes rep: "shard_rep sh m (A @ xs # B)" and ok: "lists_ok ek (A @ xs # B)" and i: "length xs = 64" "i \<le> length xs" and free: "\<not> needs sh"
    and lo: "\<forall>x \<in> set (concat A @ take i xs). ek x < ek e" and hi: "\<forall>x \<in> set (drop i xs @ concat B). ek e < ek x"
  shows "\<exists>sh' m'. sh_insert_at e (length A) i sh m = Inr (Done, sh', m') \<and> inserted ek e (A @ xs # B) sh m sh' m'"
proof -
  let ?ix = "sh_index sh" and ?f = "sh_spare sh"
  obtain P p Q where p: "ix_list ?ix = P @ p # Q" "length P = length A" "A = map (\<lambda>p. blk_list (m p)) P" "xs = blk_list (m p)"
    "B = map (\<lambda>p. blk_list (m p)) Q" "blk_ok (m p)" "p \<notin> set P" "p \<notin> set Q" "p \<noteq> 0" "p \<noteq> ?f" "p \<in> owned sh"
    using rep by (rule rep_split) (rule that)
  have ixok: "ix_ok ?ix" and bs: "\<forall>p \<in> set (ix_list ?ix). blk_ok (m p)" "distinct (ix_list ?ix)" "0 \<notin> set (ix_list ?ix)"
    using rep by (simp_all add: shard_rep_def)
  have f: "?f \<noteq> 0" "wanted_cap ?ix = 0" "blk_ok (m ?f)" "blk_list (m ?f) = []" "?f \<notin> set (ix_list ?ix)"
    using rep free by (auto simp: needs_def shard_rep_def)
  have c: "ix_len ?ix < ix_cap ?ix" using f(2) ixok by (simp add: room_iff)
  have l: "ix_len ?ix \<noteq> 0" and full: "blk_len (m p) = BLOCK_CAP" using rep_len [OF rep] i(1) p(6) by (simp_all add: p(4))
  from split_into_ok [OF p(6) f(3)] i(1) f(4) obtain k b d where
    bd: "split_into (m p) (m ?f) = Inr (k, b, d)" "blk_ok b" "blk_ok d" "blk_list b = take 32 xs" "blk_list d = drop 32 xs" by (auto simp: p(4))
  have "length A + 1 \<le> length (ix_list ?ix)" using p(1,2) by simp
  from ix_insert_ok [OF ixok c this, of ?f] obtain k' ix' where
    ix': "ix_insert (length A + 1) ?f ?ix = Inr (k', ix')" "ix_ok ix'" "ix_list ix' = P @ p # ?f # Q" by (auto simp: p(1,2))
  let ?sh = "\<lparr>sh_index = ix', sh_spare = 0\<rparr>" and ?m = "m(p := b, ?f := d)"
  have r: "shard_rep ?sh ?m (A @ take 32 xs # drop 32 xs # B)"
    unfolding shard_rep_def using ix'(2,3) bs f(1,5) p(1,3,5,7-10) bd by (auto simp: p(1))
  have ok2: "lists_ok ek (A @ take 32 xs # drop 32 xs # B)" by (rule lists_ok_halves [OF ok i(1)])
  have own: "owned ?sh = owned sh" using ix'(3) p(1) f(1) by (auto simp: owned_def)
  have cat: "concat (A @ take 32 xs # drop 32 xs # B) = concat (A @ xs # B)" by (simp flip: append_assoc)
  have run: "sh_insert_at e (length A) i sh m = (if i \<le> 32 then sh_put p i e ?sh ?m else sh_put ?f (i - 32) e ?sh ?m)"
    using l f(1,2) full by (simp add: sh_insert_at_def Let_def rep_at [OF rep p(1,2)] bd(1) ix'(1) [simplified])
  show ?thesis
  proof (cases "i \<le> 32")
    case True
    have "drop i xs = drop i (take 32 xs @ drop 32 xs)" by simp
    also have "\<dots> = drop i (take 32 xs) @ drop 32 xs" using True i(1) by (simp only: drop_append) simp
    finally have d: "drop i (take 32 xs) @ concat (drop 32 xs # B) = drop i xs @ concat B" by simp
    have t: "concat A @ take i (take 32 xs) = concat A @ take i xs" using True by (simp add: min_def)
    have "\<exists>m'. sh_put p i e ?sh ?m = Inr (Done, ?sh, m') \<and> shard_rep ?sh m' (A @ (take i (take 32 xs) @ e # drop i (take 32 xs)) # drop 32 xs # B)
        \<and> (\<forall>q. q \<noteq> p \<longrightarrow> m' q = ?m q)"
      by (rule sh_put_ok [OF r _ p(2)]) (use True i ix'(3) in simp_all)
    then obtain m' where m': "sh_put p i e ?sh ?m = Inr (Done, ?sh, m')"
      "shard_rep ?sh m' (A @ (take i (take 32 xs) @ e # drop i (take 32 xs)) # drop 32 xs # B)" "\<And>q. q \<noteq> p \<Longrightarrow> m' q = ?m q" by blast
    have fo: "?f \<in> owned sh" using f(1) by (simp add: owned_def)
    have fr: "\<forall>q. q \<notin> owned sh \<longrightarrow> m' q = m q" using m'(3) p(11) fo by (metis fun_upd_other)
    note li = lists_ok_insert [OF ok2, of i e, unfolded t d cat, OF lo hi]
    have "inserted ek e (A @ xs # B) sh m ?sh m'" unfolding inserted_def by (intro exI conjI) (rule m'(2) li own fr)+
    then show ?thesis using run True m'(1) by auto
  next
    case False
    then have i32: "32 + (i - 32) = i" by simp
    have r': "shard_rep ?sh ?m ((A @ [take 32 xs]) @ drop 32 xs # B)" using r by simp
    have ok2': "lists_ok ek ((A @ [take 32 xs]) @ drop 32 xs # B)" using ok2 by simp
    have t: "concat (A @ [take 32 xs]) @ take (i - 32) (drop 32 xs) = concat A @ take i xs"
      using take_add [of 32 "i - 32" xs] i32 by simp
    have d: "drop (i - 32) (drop 32 xs) @ concat B = drop i xs @ concat B" using i32 by simp
    have "\<exists>m'. sh_put ?f (i - 32) e ?sh ?m = Inr (Done, ?sh, m')
        \<and> shard_rep ?sh m' ((A @ [take 32 xs]) @ (take (i - 32) (drop 32 xs) @ e # drop (i - 32) (drop 32 xs)) # B) \<and> (\<forall>q. q \<noteq> ?f \<longrightarrow> m' q = ?m q)"
      by (rule sh_put_ok [OF r', where P = "P @ [p]" and Q = Q]) (use i ix'(3) p(2) in simp_all)
    then obtain m' where m': "sh_put ?f (i - 32) e ?sh ?m = Inr (Done, ?sh, m')"
      "shard_rep ?sh m' ((A @ [take 32 xs]) @ (take (i - 32) (drop 32 xs) @ e # drop (i - 32) (drop 32 xs)) # B)" "\<And>q. q \<noteq> ?f \<Longrightarrow> m' q = ?m q" by blast
    have cat': "concat ((A @ [take 32 xs]) @ drop 32 xs # B) = concat (A @ xs # B)" using cat by simp
    have fo: "?f \<in> owned sh" using f(1) by (simp add: owned_def)
    have fr: "\<forall>q. q \<notin> owned sh \<longrightarrow> m' q = m q" using m'(3) p(11) fo by (metis fun_upd_other)
    note li = lists_ok_insert [OF ok2', of "i - 32" e, unfolded t d cat', OF lo hi]
    have "inserted ek e (A @ xs # B) sh m ?sh m'" unfolding inserted_def by (intro exI conjI) (rule m'(2) li own fr)+
    then show ?thesis using run False m'(1) by auto
  qed
qed

lemma sh_insert_ok:
  assumes rep: "shard_rep sh m L" and ok: "lists_ok ek L"
  shows "(ek e \<in> ek ` set (concat L) \<and> sh_insert ek (ek e) e sh m = Inr (Duplicate, sh, m))
    \<or> (ek e \<notin> ek ` set (concat L) \<and> needs sh \<and> sh_insert ek (ek e) e sh m = Inr (Need (sh_spare sh = 0) (wanted_cap (sh_index sh)), sh, m))
    \<or> (ek e \<notin> ek ` set (concat L) \<and> (\<exists>sh' m'. sh_insert ek (ek e) e sh m = Inr (Done, sh', m') \<and> inserted ek e L sh m sh' m'))"
proof (cases "L = []")
  case True
  have l: "ix_len (sh_index sh) = 0" using rep_len [OF rep] True by simp
  have r: "sh_insert ek (ek e) e sh m = sh_insert_at e 0 0 sh m" using rep True locate_empty by (simp add: sh_insert_def)
  show ?thesis
  proof (cases "needs sh")
    case n: True
    then have "sh_insert_at e 0 0 sh m = Inr (Need (sh_spare sh = 0) (wanted_cap (sh_index sh)), sh, m)"
      using l by (simp add: sh_insert_at_def needs_def Let_def)
    then show ?thesis using r n True by simp
  next
    case False
    then show ?thesis using insert_into_empty [OF rep [unfolded True] False, of e 0 0 ek] r True by simp
  qed
next
  case False
  from locate_ok [OF rep ok False, of "ek e"] obtain b i where
    bi: "b < length L" "i \<le> length (L ! b)"
      "locate ek sh m (ek e) = Inr (Some (b, if i < length (L ! b) \<and> ek (L ! b ! i) = ek e then Found i else Missing i))"
      "\<forall>x \<in> set (concat (take b L) @ take i (L ! b)). ek x < ek e"
      "\<And>x. x \<in> set (drop i (L ! b)) \<Longrightarrow> ek e \<le> ek x" "\<And>x. x \<in> set (concat (drop (Suc b) L)) \<Longrightarrow> ek e < ek x" by blast
  define A xs B where "A = take b L" and "xs = L ! b" and "B = drop (Suc b) L"
  have L: "L = A @ xs # B" and b: "length A = b" using id_take_nth_drop [OF bi(1)] bi(1) by (simp_all add: A_def xs_def B_def)
  have k: "by_key ek (concat L)" using ok by (simp add: lists_ok_def)
  show ?thesis
  proof (cases "i < length xs \<and> ek (xs ! i) = ek e")
    case True
    then have "xs ! i \<in> set (concat L)" by (simp add: L)
    then have "ek e \<in> ek ` set (concat L)" using True by (metis imageI)
    moreover have "sh_insert ek (ek e) e sh m = Inr (Duplicate, sh, m)" using True by (simp add: sh_insert_def bi(3) xs_def)
    ultimately show ?thesis by blast
  next
    case miss: False
    have lo: "\<forall>x \<in> set (concat A @ take i xs). ek x < ek e" using bi(4) by (simp add: A_def xs_def)
    have "ek e < ek x" if x: "x \<in> set (drop i xs)" for x
    proof (cases "drop i xs")
      case (Cons y ys)
      then have y: "i < length xs" "y = xs ! i" using nth_via_drop [OF Cons] by (auto intro: ccontr)
      have "by_key ek ((concat A @ take i xs) @ drop i xs @ concat B)" 
        using k unfolding L concat_cut [of A xs B i] .
      then have "by_key ek (y # ys)" unfolding Cons by (simp add: by_key_append by_key_Cons)
      moreover have "ek e \<le> ek y" using bi(5) [of y] Cons by (simp add: xs_def)
      ultimately show ?thesis using x Cons y miss by (auto simp: by_key_Cons)
    qed (use x in simp)
    then have hi: "\<forall>x \<in> set (drop i xs @ concat B). ek e < ek x" using bi(6) by (auto simp: B_def)
    have "set (concat L) = set (concat A @ take i xs) \<union> set (drop i xs @ concat B)" unfolding L concat_cut [of A xs B i] set_append ..
    then have "ek x \<noteq> ek e" if "x \<in> set (concat L)" for x using lo hi that by (metis UnE less_irrefl)
    then have new: "ek e \<notin> ek ` set (concat L)" by force
    have run: "sh_insert ek (ek e) e sh m = sh_insert_at e (length A) i sh m"
      unfolding sh_insert_def bi(3) if_not_P [OF miss [unfolded xs_def]] by (simp add: b)
    have il: "i \<le> length xs" using bi(2) by (simp add: xs_def)
    show ?thesis
    proof (cases "length xs < 64")
      case True
      from insert_room [OF rep [unfolded L] ok [unfolded L] True il lo hi] show ?thesis using new run L by simp
    next
      case False
      moreover have "length xs \<le> 64"
      proof -
        from rep_block [OF rep bi(1)] obtain p where "blk_ok (m p)" "blk_len (m p) = length (L ! b)" by blast
        then show ?thesis by (simp add: xs_def blk_ok_def)
      qed
      ultimately have full: "length xs = 64" by simp
      show ?thesis
      proof (cases "needs sh")
        case True
        then show ?thesis using insert_need [OF rep [unfolded L] full True] run new by simp
      next
        case False
        from insert_split [OF rep [unfolded L] ok [unfolded L] full il False lo hi] show ?thesis using new run L by simp
      qed
    qed
  qed
qed

subsection \<open>Removal\<close>

definition gone :: "retired \<Rightarrow> nat set" where
  "gone r = set_option (fst r) \<union> set_option (snd r)"

lemma retire_ok:
  assumes "snd r = None" and "b \<noteq> 0" and "b \<notin> owned sh" and "gone r \<inter> insert b (owned sh) = {}"
  shows "\<exists>sh' r'. retire b sh r = (sh', r') \<and> sh_index sh' = sh_index sh \<and> (sh_spare sh' = sh_spare sh \<or> sh_spare sh = 0 \<and> sh_spare sh' = b)
    \<and> owned sh' \<union> gone r' = insert b (owned sh \<union> gone r) \<and> owned sh' \<inter> gone r' = {} \<and> (fst r = None \<longrightarrow> snd r' = None)"
proof (cases "sh_spare sh = 0")
  case True
  then have "retire b sh r = (sh\<lparr>sh_spare := b\<rparr>, r)" "owned (sh\<lparr>sh_spare := b\<rparr>) = insert b (owned sh)"
    using assms(2) by (simp_all add: retire_def owned_def)
  then show ?thesis using assms True by auto
next
  case False
  then have "retire b sh r = (sh, retired_push b r)" by (simp add: retire_def)
  moreover have "gone (retired_push b r) = insert b (gone r)" "fst r = None \<longrightarrow> snd (retired_push b r) = None"
    using assms(1) by (auto simp: retired_push_def gone_def)
  ultimately show ?thesis using assms(3,4) by auto
qed

text \<open>A block emptied and taken out of the index.\<close>

lemma rep_drop:
  assumes rep: "shard_rep sh m (A @ [] # B)" and p: "ix_list (sh_index sh) = P @ p # Q" "length P = length A"
    and r: "snd r = None" "gone r \<inter> owned sh = {}"
  shows "\<exists>k ix' sh' r'. ix_remove (length A) (sh_index sh) = Inr (k, ix') \<and> retire p (sh\<lparr>sh_index := ix'\<rparr>) r = (sh', r') \<and> shard_rep sh' m (A @ B)
    \<and> owned sh' \<union> gone r' = owned sh \<union> gone r \<and> owned sh' \<inter> gone r' = {} \<and> (fst r = None \<longrightarrow> snd r' = None)"
proof -
  have ok: "ix_ok (sh_index sh)" and d: "distinct (P @ p # Q)" "0 \<notin> set (P @ p # Q)" and bs: "\<forall>q \<in> set (P @ p # Q). blk_ok (m q)"
    and mp: "map (\<lambda>q. blk_list (m q)) (P @ p # Q) = A @ [] # B"
    and sp: "sh_spare sh \<noteq> 0 \<longrightarrow> sh_spare sh \<notin> set (P @ p # Q) \<and> blk_ok (m (sh_spare sh)) \<and> blk_list (m (sh_spare sh)) = []"
    using rep p(1) by (simp_all add: shard_rep_def)
  have "length A < length (ix_list (sh_index sh))" using p by simp
  note ix_remove_ok [OF ok this]
  then obtain k ix' where ix': "ix_remove (length A) (sh_index sh) = Inr (k, ix')" "ix_ok ix'" "ix_list ix' = P @ Q"
  proof -
    have "take (length A) (P @ p # Q) = P" "drop (Suc (length A)) (P @ p # Q) = Q" using p(2) by simp_all
    then show ?thesis using that \<open>\<exists>k ix'. _\<close> by (auto simp: p(1))
  qed
  let ?sh = "sh\<lparr>sh_index := ix'\<rparr>"
  have o: "p \<notin> owned ?sh" "insert p (owned ?sh) = owned sh" "p \<noteq> 0" using d sp p(1) ix'(3) by (auto simp: owned_def)
  from retire_ok [OF r(1) o(3,1)] r(2) obtain sh' r' where
    r': "retire p ?sh r = (sh', r')" "sh_index sh' = ix'" "sh_spare sh' = sh_spare sh \<or> sh_spare sh = 0 \<and> sh_spare sh' = p"
      "owned sh' \<union> gone r' = insert p (owned ?sh \<union> gone r)" "owned sh' \<inter> gone r' = {}" "fst r = None \<longrightarrow> snd r' = None"
    unfolding o(2) by auto
  have m: "map (\<lambda>q. blk_list (m q)) P = A" "blk_list (m p) = []" "map (\<lambda>q. blk_list (m q)) Q = B" using mp p(2) by simp_all
  have "shard_rep sh' m (A @ B)" unfolding shard_rep_def r'(2) ix'(3) using ix'(2) d bs m sp r'(3) o(3) by auto
  moreover have "owned sh' \<union> gone r' = owned sh \<union> gone r" using r'(4) o(2) by blast
  ultimately show ?thesis using ix'(1) r'(1,5,6) by (intro exI conjI) assumption+
qed

lemma sh_merge_ok:
  assumes rep: "shard_rep sh m (A @ xs # ys # B)" and r: "snd r = None" "gone r \<inter> owned sh = {}"
  shows "\<exists>sh' m' r'. sh_merge (length A) (sh, m, r) = Inr (sh', m', r')
    \<and> shard_rep sh' m' (if length xs + length ys \<le> 32 then A @ (xs @ ys) # B else A @ xs # ys # B)
    \<and> owned sh' \<union> gone r' = owned sh \<union> gone r \<and> owned sh' \<inter> gone r' = {} \<and> (fst r = None \<longrightarrow> snd r' = None) \<and> (\<forall>q. q \<notin> owned sh \<longrightarrow> m' q = m q)"
proof -
  obtain P p Q where p: "ix_list (sh_index sh) = P @ p # Q" "length P = length A" "xs = blk_list (m p)" "ys # B = map (\<lambda>p. blk_list (m p)) Q"
    "blk_ok (m p)" "p \<notin> set P" "p \<notin> set Q" "p \<in> owned sh" using rep by (rule rep_split) (rule that)
  then obtain q Q' where q: "Q = q # Q'" "ys = blk_list (m q)" "B = map (\<lambda>p. blk_list (m p)) Q'" by (auto simp: Cons_eq_map_conv)
  have rep2: "shard_rep sh m ((A @ [xs]) @ ys # B)" using rep by simp
  have pq: "ix_list (sh_index sh) = (P @ [p]) @ q # Q'" "length (P @ [p]) = length (A @ [xs])" using p(1,2) q(1) by simp_all
  have qm: "blk_ok (m q)" "q \<in> owned sh" using rep pq(1) by (simp_all add: shard_rep_def owned_def)
  have g: "ix_get (sh_index sh) (length A) = Inr p" "ix_get (sh_index sh) (Suc (length A)) = Inr q"
    using rep_at [OF rep p(1,2)] rep_at [OF rep2 pq] by simp_all
  have l: "blk_len (m p) = length xs" "blk_len (m q) = length ys" using p(3,5) q(2) qm by simp_all
  show ?thesis
  proof (cases "length xs + length ys \<le> 32")
    case False
    then have "sh_merge (length A) (sh, m, r) = Inr (sh, m, r)" by (simp add: sh_merge_def g l)
    then show ?thesis using rep r False by (auto simp: Int_commute)
  next
    case True
    from absorb_ok [OF p(5) qm(1)] True obtain k b d where
      bd: "absorb (m p) (m q) = Inr (k, b, d)" "blk_ok b" "blk_ok d" "blk_list b = xs @ ys" "blk_list d = []"
      by (auto simp: p(3) q(2) simp del: blk_list_length)
    let ?m = "m(p := b, q := d)"
    have "shard_rep sh (m(p := b)) (A @ (xs @ ys) # ys # B)" using rep_update [OF rep p(1,2) bd(2)] by (simp add: bd(4))
    then have r2: "shard_rep sh (m(p := b)) ((A @ [xs @ ys]) @ ys # B)" by simp
    have "shard_rep sh ?m ((A @ [xs @ ys]) @ [] # B)" using rep_update [OF r2 pq(1) _ bd(3)] p(2) by (simp add: bd(5))
    from rep_drop [OF this pq(1) _ r] p(2) obtain k' ix' sh' r' where
      d: "ix_remove (Suc (length A)) (sh_index sh) = Inr (k', ix')" "retire q (sh\<lparr>sh_index := ix'\<rparr>) r = (sh', r')" "shard_rep sh' ?m ((A @ [xs @ ys]) @ B)"
        "owned sh' \<union> gone r' = owned sh \<union> gone r" "owned sh' \<inter> gone r' = {}" "fst r = None \<longrightarrow> snd r' = None" by auto
    have "sh_merge (length A) (sh, m, r) = Inr (sh', ?m, r')" using True by (simp add: sh_merge_def g l bd(1) d(1,2))
    moreover have "\<forall>x. x \<notin> owned sh \<longrightarrow> ?m x = m x" using p(8) qm(2) by auto
    ultimately show ?thesis using True d(3-6) by (intro exI conjI) (assumption | simp)+
  qed
qed

text \<open>Which lists remain after a block lost an entry and was merged.\<close>

lemma lists_ok_merge:
  assumes "lists_ok ek (A @ xs # ys # B)" and "length xs + length ys \<le> 32"
  shows "lists_ok ek (A @ (xs @ ys) # B)"
proof -
  have "dense (A @ (xs @ ys) # B)" using assms unfolding lists_ok_def dense_append dense_Cons by (cases "A = []"; cases "B = []") simp_all
  then show ?thesis using assms(1) by (auto simp: lists_ok_def)
qed

text \<open>The lists after an entry left its block, before the block is merged: its neighbours may be sparse.\<close>

lemma by_key_drop: "by_key ek (X @ e # Y) \<Longrightarrow> by_key ek (X @ Y)"
  by (simp add: by_key_append by_key_Cons)

text \<open>What a removal leaves behind.\<close>

definition removed :: "(nat \<Rightarrow> nat) \<Rightarrow> nat \<Rightarrow> nat list list \<Rightarrow> shard \<Rightarrow> blocks \<Rightarrow> shard \<Rightarrow> blocks \<Rightarrow> retired \<Rightarrow> bool" where
  "removed ek e L sh m sh' m' r \<longleftrightarrow> (\<exists>L' X Y. shard_rep sh' m' L' \<and> lists_ok ek L' \<and> concat L = X @ e # Y \<and> concat L' = X @ Y
     \<and> owned sh' \<union> gone r = owned sh \<and> owned sh' \<inter> gone r = {} \<and> (\<forall>p. p \<notin> owned sh \<longrightarrow> m' p = m p))"

lemma merge_prev:
  assumes rep: "shard_rep sh m (A @ xs # B)" and ok: "[] \<notin> set (A @ xs # B)" "by_key ek (concat (A @ xs # B))" "dense A" "dense (xs # B)"
    and r: "snd r = None" "gone r \<inter> owned sh = {}"
  shows "\<exists>sh' m' r' L'. (if 0 < length A then sh_merge (length A - 1) (sh, m, r) else Inr (sh, m, r)) = Inr (sh', m', r')
    \<and> shard_rep sh' m' L' \<and> lists_ok ek L' \<and> concat L' = concat (A @ xs # B)
    \<and> owned sh' \<union> gone r' = owned sh \<union> gone r \<and> owned sh' \<inter> gone r' = {} \<and> (\<forall>q. q \<notin> owned sh \<longrightarrow> m' q = m q)"
proof (cases A rule: rev_cases)
  case Nil
  then have "lists_ok ek (A @ xs # B)" using ok by (simp add: lists_ok_def)
  then show ?thesis using rep r Nil by (intro exI [of _ sh] exI [of _ m] exI [of _ r] exI [of _ "A @ xs # B"]) (simp add: Int_commute)
next
  case (snoc A' z)
  have la: "length A - 1 = length A'" "0 < length A" using snoc by simp_all
  have rep': "shard_rep sh m (A' @ z # xs # B)" using rep snoc by simp
  let ?L = "if length z + length xs \<le> 32 then A' @ (z @ xs) # B else A' @ z # xs # B"
  from sh_merge_ok [OF rep' r] obtain sh' m' r' where m: "sh_merge (length A') (sh, m, r) = Inr (sh', m', r')" "shard_rep sh' m' ?L"
    "owned sh' \<union> gone r' = owned sh \<union> gone r" "owned sh' \<inter> gone r' = {}" "\<forall>q. q \<notin> owned sh \<longrightarrow> m' q = m q" by blast
  have d: "dense A'" "A' = [] \<or> 32 < length (last A') + length z" using ok(3) by (auto simp: snoc dense_append)
  have d': "B = [] \<or> 32 < length xs + length (hd B)" "dense B" using ok(4) by (auto simp: dense_Cons)
  have "dense ?L" using d d' by (auto simp: dense_append dense_Cons)
  then have "lists_ok ek ?L" using ok(1,2) by (auto simp: lists_ok_def snoc)
  moreover have "concat ?L = concat (A @ xs # B)" by (simp add: snoc)
  ultimately show ?thesis using m la by (intro exI conjI) (simp, assumption+)
qed

lemma sh_remove_ok:
  assumes rep: "shard_rep sh m L" and ok: "lists_ok ek L" and e: "e \<in> set (concat L)"
  shows "\<exists>sh' m' r. sh_remove ek (ek e) e sh m = Inr (sh', m', r) \<and> removed ek e L sh m sh' m' r"
proof -
  have ne: "L \<noteq> []" using e by auto
  from locate_ok [OF rep ok ne, of "ek e"] obtain b i where
    bi: "b < length L" "i \<le> length (L ! b)"
      "locate ek sh m (ek e) = Inr (Some (b, if i < length (L ! b) \<and> ek (L ! b ! i) = ek e then Found i else Missing i))"
      "\<forall>x \<in> set (concat (take b L) @ take i (L ! b)). ek x < ek e"
      "\<And>x. x \<in> set (drop i (L ! b)) \<Longrightarrow> ek e \<le> ek x" "\<And>x. x \<in> set (concat (drop (Suc b) L)) \<Longrightarrow> ek e < ek x" by blast
  define A xs B where "A = take b L" and "xs = L ! b" and "B = drop (Suc b) L"
  have L: "L = A @ xs # B" and b: "length A = b" using id_take_nth_drop [OF bi(1)] bi(1) by (simp_all add: A_def xs_def B_def)
  have k: "by_key ek (concat L)" using ok by (simp add: lists_ok_def)
  have cut: "concat L = (concat A @ take i xs) @ drop i xs @ concat B" unfolding L concat_cut [of A xs B i] ..
  have d: "e \<in> set (drop i xs)" using e bi(4,6) unfolding cut by (auto simp: A_def B_def xs_def)
  then obtain y ys where dy: "drop i xs = y # ys" by (cases "drop i xs") auto
  have i: "i < length xs" and y: "y = xs ! i" using dy nth_via_drop [OF dy] by (auto intro: ccontr)
  have "by_key ek (y # ys)" using k unfolding cut dy by (simp add: by_key_append by_key_Cons)
  moreover have "ek e \<le> ek y" using bi(5) [of y] dy by (simp add: xs_def)
  ultimately have ye: "y = e" using d dy by (auto simp: by_key_Cons)
  have dr: "drop (Suc i) xs = ys" using dy by (metis drop_Suc list.sel(3) tl_drop)
  define xs' where "xs' = take i xs @ drop (Suc i) xs"
  have XY: "concat L = (concat A @ take i xs) @ e # (ys @ concat B)" "concat (A @ xs' # B) = (concat A @ take i xs) @ (ys @ concat B)"
    using cut dy ye by (simp_all add: xs'_def dr)
  have k': "by_key ek (concat (A @ xs' # B))" using k unfolding XY by (rule by_key_drop)
  obtain P p Q where p: "ix_list (sh_index sh) = P @ p # Q" "length P = length A" "xs = blk_list (m p)" "blk_ok (m p)" "p \<in> owned sh"
    using rep [unfolded L] by (rule rep_split) (rule that)
  have pg: "ix_get (sh_index sh) b = Inr p" using rep_at(1) [OF rep [unfolded L] p(1,2)] b by simp
  have eg: "blk_get (m p) i = Inr e" using blk_get_ok [OF p(4), of i] i y ye by (simp add: p(3) del: blk_list_length)
  from remove_at_ok [OF p(4), of i] i obtain n blk where rm: "remove_at i (m p) = Inr (n, blk)" "blk_ok blk" "blk_list blk = xs'"
    by (auto simp: p(3) xs'_def simp del: blk_list_length)
  let ?m = "m(p := blk)"
  have bl: "blk_len blk = length xs'" using rm(2) by (simp flip: rm(3))
  have rep1: "shard_rep sh ?m (A @ xs' # B)" using rep_update [OF rep [unfolded L] p(1,2) rm(2)] by (simp add: rm(3))
  have fr1: "\<forall>q. q \<notin> owned sh \<longrightarrow> ?m q = m q" using p(5) by auto
  have "xs ! i = e" using y ye by simp
  then have run: "sh_remove ek (ek e) e sh m =
      (if xs' = [] then rbind (ix_remove b (sh_index sh)) (\<lambda>(moved, ix').
          let (sh', r') = retire p (sh\<lparr>sh_index := ix'\<rparr>) (None, None) in Inr (sh', ?m, r'))
       else rbind (if b + 1 < length L then sh_merge b (sh, ?m, (None, None)) else Inr (sh, ?m, (None, None))) (\<lambda>smr.
          if 0 < b then sh_merge (b - 1) smr else Inr smr))"
    unfolding sh_remove_def using i by (simp add: bi(3) pg eg rm(1) Let_def bl rep_len [OF rep] flip: xs_def)
  have okA: "[] \<notin> set A" "[] \<notin> set B" "dense A" "dense B" "A = [] \<or> 32 < length (last A) + length xs" "B = [] \<or> 32 < length xs + length (hd B)"
    using ok by (auto simp: L lists_ok_def dense_append dense_Cons)
  have g0: "gone (None, None) = {}" by (simp add: gone_def)
  show ?thesis
  proof (cases "xs' = []")
    case True
    have rep2: "shard_rep sh ?m (A @ [] # B)" using rep1 True by simp
    from rep_drop [OF rep2 p(1,2), of "(None, None)"] obtain k ix' sh' r' where
      r: "ix_remove (length A) (sh_index sh) = Inr (k, ix')" "retire p (sh\<lparr>sh_index := ix'\<rparr>) (None, None) = (sh', r')" "shard_rep sh' ?m (A @ B)"
        "owned sh' \<union> gone r' = owned sh" "owned sh' \<inter> gone r' = {}" by (auto simp: g0)
    have "length xs = 1" using True i by (cases xs) (auto simp: xs'_def)
    moreover have "B \<noteq> [] \<Longrightarrow> hd B \<noteq> []" using okA(2) hd_in_set by metis
    then have "B \<noteq> [] \<Longrightarrow> 0 < length (hd B)" by simp
    ultimately have "dense (A @ B)" using okA(3-6) by (auto simp: dense_append)
    then have "lists_ok ek (A @ B)" using okA(1,2) k' True by (auto simp: lists_ok_def)
    moreover have "concat (A @ B) = (concat A @ take i xs) @ (ys @ concat B)" using XY(2) True by simp
    ultimately have "removed ek e L sh m sh' ?m r'" unfolding removed_def using r(3-5) XY(1) fr1 by blast
    moreover have "sh_remove ek (ek e) e sh m = Inr (sh', ?m, r')" unfolding run using True r(1,2) b by simp
    ultimately show ?thesis by blast
  next
    case False
    have 1: "\<exists>sh1 m1 r1 ys' B1. (if b + 1 < length L then sh_merge b (sh, ?m, (None, None)) else Inr (sh, ?m, (None, None))) = Inr (sh1, m1, r1)
        \<and> shard_rep sh1 m1 (A @ ys' # B1) \<and> concat (ys' # B1) = concat (xs' # B) \<and> [] \<notin> set (ys' # B1) \<and> dense (ys' # B1)
        \<and> owned sh1 \<union> gone r1 = owned sh \<and> owned sh1 \<inter> gone r1 = {} \<and> snd r1 = None \<and> (\<forall>q. q \<notin> owned sh \<longrightarrow> m1 q = m q)"
    proof (cases B)
      case Nil
      then have "\<not> b + 1 < length L" using b L by simp
      then show ?thesis using rep1 False fr1 Nil
        by (intro exI [of _ sh] exI [of _ ?m] exI [of _ "(None, None)"] exI [of _ xs'] exI [of _ "[]"]) (simp add: g0)
    next
      case (Cons w B')
      then have lt: "b + 1 < length L" using b L by simp
      have rep2: "shard_rep sh ?m (A @ xs' # w # B')" using rep1 Cons by simp
      from sh_merge_ok [OF rep2, of "(None, None)"] obtain sh1 m1 r1 where
        m1: "sh_merge (length A) (sh, ?m, (None, None)) = Inr (sh1, m1, r1)"
          "shard_rep sh1 m1 (if length xs' + length w \<le> 32 then A @ (xs' @ w) # B' else A @ xs' # w # B')"
          "owned sh1 \<union> gone r1 = owned sh" "owned sh1 \<inter> gone r1 = {}" "snd r1 = None" "\<forall>q. q \<notin> owned sh \<longrightarrow> m1 q = ?m q" by (auto simp: g0)
      have run1: "(if b + 1 < length L then sh_merge b (sh, ?m, (None, None)) else Inr (sh, ?m, (None, None))) = Inr (sh1, m1, r1)"
        using lt m1(1) b by simp
      have fr: "\<forall>q. q \<notin> owned sh \<longrightarrow> m1 q = m q" using m1(6) fr1 by simp
      show ?thesis
      proof (cases "length xs' + length w \<le> 32")
        case True
        have "dense ((xs' @ w) # B')" using okA(4) by (auto simp: Cons dense_Cons)
        then show ?thesis using run1 m1(2-5) True fr okA(2) False
          by (intro exI [of _ sh1] exI [of _ m1] exI [of _ r1] exI [of _ "xs' @ w"] exI [of _ B']) (simp add: Cons)
      next
        case f: False
        have "dense (xs' # w # B')" using okA(4) f by (auto simp: Cons dense_Cons)
        then show ?thesis using run1 m1(2-5) f fr okA(2) False
          by (intro exI [of _ sh1] exI [of _ m1] exI [of _ r1] exI [of _ xs'] exI [of _ "w # B'"]) (simp add: Cons)
      qed
    qed
    then obtain sh1 m1 r1 ys' B1 where s1:
      "(if b + 1 < length L then sh_merge b (sh, ?m, (None, None)) else Inr (sh, ?m, (None, None))) = Inr (sh1, m1, r1)"
      "shard_rep sh1 m1 (A @ ys' # B1)" "concat (ys' # B1) = concat (xs' # B)" "[] \<notin> set (ys' # B1)" "dense (ys' # B1)"
      "owned sh1 \<union> gone r1 = owned sh" "owned sh1 \<inter> gone r1 = {}" "snd r1 = None" "\<forall>q. q \<notin> owned sh \<longrightarrow> m1 q = m q" by blast
    have c1: "concat (A @ ys' # B1) = concat (A @ xs' # B)" using s1(3) by simp
    have k1: "by_key ek (concat (A @ ys' # B1))" unfolding c1 by (rule k')
    have n1: "[] \<notin> set (A @ ys' # B1)" using okA(1) s1(4) by simp
    have g1: "gone r1 \<inter> owned sh1 = {}" using s1(7) by (simp add: Int_commute)
    from merge_prev [OF s1(2) n1 k1 okA(3) s1(5,8) g1] obtain sh2 m2 r2 L' where
      s2: "(if 0 < length A then sh_merge (length A - 1) (sh1, m1, r1) else Inr (sh1, m1, r1)) = Inr (sh2, m2, r2)"
        "shard_rep sh2 m2 L'" "lists_ok ek L'" "concat L' = concat (A @ ys' # B1)"
        "owned sh2 \<union> gone r2 = owned sh1 \<union> gone r1" "owned sh2 \<inter> gone r2 = {}" "\<forall>q. q \<notin> owned sh1 \<longrightarrow> m2 q = m1 q" by blast
    have "owned sh1 \<subseteq> owned sh" using s1(6) by blast
    then have fr2: "\<forall>q. q \<notin> owned sh \<longrightarrow> m2 q = m q" using s2(7) s1(9) by (metis subsetD)
    have c2: "concat L' = (concat A @ take i xs) @ (ys @ concat B)" using s2(4) c1 XY(2) by simp
    have "removed ek e L sh m sh2 m2 r2" unfolding removed_def
      using s2(2,3,5,6) s1(6) fr2 XY(1) c2 by (intro exI [of _ L'] exI [of _ "concat A @ take i xs"] exI [of _ "ys @ concat B"]) simp
    moreover have "sh_remove ek (ek e) e sh m = Inr (sh2, m2, r2)" 
      unfolding run if_not_P [OF False] s1(1) rbind.simps using s2(1) unfolding b .
    ultimately show ?thesis by blast
  qed
qed

subsection \<open>Supplies\<close>

lemma sh_install_ok:
  assumes rep: "shard_rep sh m L" and b: "\<And>b. block = Some b \<Longrightarrow> b \<noteq> 0 \<and> b \<notin> owned sh \<and> blk_ok (m b) \<and> blk_list (m b) = []"
    and ix: "\<And>x. index = Some x \<Longrightarrow> x = with_capacity (ix_cap x)"
  shows "\<exists>sh' sb si. sh_install block index sh = Inr (sh', sb, si) \<and> shard_rep sh' m L
    \<and> owned sh' \<union> set_option sb = owned sh \<union> set_option block \<and> owned sh' \<inter> set_option sb = {}
    \<and> (sh_spare sh \<noteq> 0 \<or> block \<noteq> None \<longrightarrow> sh_spare sh' \<noteq> 0)
    \<and> (wanted_cap (sh_index sh) = 0 \<or> (\<exists>x. index = Some x \<and> ix_cap (sh_index sh) < ix_cap x) \<longrightarrow> wanted_cap (sh_index sh') = 0)"
proof -
  define s1 where "s1 = (case block of None \<Rightarrow> (sh, None) | Some b \<Rightarrow> if sh_spare sh = 0 then (sh\<lparr>sh_spare := b\<rparr>, None) else (sh, Some b))"
  have one: "shard_rep (fst s1) m L" "owned (fst s1) \<union> set_option (snd s1) = owned sh \<union> set_option block"
    "owned (fst s1) \<inter> set_option (snd s1) = {}" "sh_index (fst s1) = sh_index sh" "sh_spare sh \<noteq> 0 \<or> block \<noteq> None \<longrightarrow> sh_spare (fst s1) \<noteq> 0"
    using rep b unfolding s1_def by (auto simp: shard_rep_def owned_def split: option.splits)
  have s1: "s1 = (fst s1, snd s1)" by simp
  have iok: "ix_ok (sh_index sh)" using rep by (simp add: shard_rep_def)
  show ?thesis
  proof (cases "\<exists>x. index = Some x \<and> ix_len (sh_index sh) = ix_cap (sh_index sh) \<and> ix_cap (sh_index sh) < ix_cap x")
    case True
    then obtain x where x: "index = Some x" "ix_len (sh_index sh) = ix_cap (sh_index sh)" "ix_cap (sh_index sh) < ix_cap x" by blast
    from ix_copy_ok [OF iok, of x] x(3) obtain k e where e: "ix_copy_from x (sh_index sh) = Inr (k, e)" "ix_ok e" "ix_cap e = ix_cap x"
      "ix_list e = ix_list (sh_index sh)" by auto
    have "sh_install block index sh = Inr ((fst s1)\<lparr>sh_index := e\<rparr>, snd s1, Some (sh_index sh))"
      unfolding sh_install_def s1_def [symmetric] Let_def case_prod_beta one(4) using x e(1) by (simp add: case_prod_beta)
    moreover have "shard_rep ((fst s1)\<lparr>sh_index := e\<rparr>) m L" using one(1,4) e(2,4) by (simp add: shard_rep_def)
    moreover have "ix_len e < ix_cap e" using x(2,3) e(2-4) iok ix_list_length [OF e(2)] ix_list_length [OF iok] by simp
    then have "wanted_cap e = 0" by (simp add: wanted_cap_def)
    moreover have "owned ((fst s1)\<lparr>sh_index := e\<rparr>) = owned (fst s1)" using e(4) one(4) by (simp add: owned_def)
    ultimately show ?thesis using one(2,3,5) by simp
  next
    case False
    then have "sh_install block index sh = Inr (fst s1, snd s1, index)"
      unfolding sh_install_def s1_def [symmetric] Let_def case_prod_beta one(4) by (auto split: option.split)
    moreover have "wanted_cap (sh_index sh) = 0" if "\<exists>x. index = Some x \<and> ix_cap (sh_index sh) < ix_cap x"
      using that False iok room_iff [OF iok] by (auto simp: ix_ok_def)
    ultimately show ?thesis using one by auto
  qed
qed

end
