(* ===== verification/RouteDirectory.thy ===== *)
theory RouteDirectory
  imports RouteShard LargeHeap Interfaces "HOL-Library.Multiset"
begin

text \<open>
  The route directory (\<open>src/registry/segment_route/directory/route_directory.rs\<close>, \<open>registration.rs\<close>,
  \<open>pin.rs\<close>): the process-wide map from segment keys to reference-counted entries.  Registration numbers
  an entry, inserts it under the lock of its shard and supplies a full shard between two attempts; a
  lookup pins an entry under that lock; the last handle frees it.  One step is one critical section of
  a shard, one access to a counter or one request to the system.
\<close>

subsection \<open>Entries and their handles\<close>

datatype route_kind = RouteSmall | RoutePrimordial | RouteLarge

datatype route_error = InvalidSpan | DuplicateRoute | OutOfMemory | IncarnationExhausted | ProcessExiting

record route_entry =
  en_key :: nat
  en_end :: nat
  en_payload :: nat
  en_root :: nat
  en_owner :: nat
  en_kind :: route_kind
  en_incarnation :: nat
  en_refs :: nat
  en_linked :: bool

definition SHARDS :: nat where "SHARDS = 64"

definition shard_index :: "nat \<Rightarrow> nat" where
  "shard_index key = (let value = key div SEGMENT in ((value XOR drop_bit 13 value) XOR drop_bit 26 value) mod SHARDS)"

text \<open>\<open>entry_at\<close>: the entries allocated; \<open>block_at\<close>: the memory of the blocks of all shards.\<close>

record route_directory =
  shards :: "nat \<Rightarrow> shard"
  next_incarnation :: nat
  entry_at :: "nat \<Rightarrow> route_entry option"
  block_at :: blocks

definition directory_new :: route_directory where
  "directory_new = \<lparr>shards = \<lambda>_. shard_empty, next_incarnation = 0, entry_at = \<lambda>_. None, block_at = \<lambda>_. block_new\<rparr>"

definition key_in :: "route_directory \<Rightarrow> nat \<Rightarrow> nat" where
  "key_in D a = (case entry_at D a of None \<Rightarrow> 0 | Some e \<Rightarrow> en_key e)"

definition deref :: "nat \<Rightarrow> route_directory \<Rightarrow> string + route_entry" where
  "deref a D = (case entry_at D a of None \<Rightarrow> Inl ''use of a freed entry'' | Some e \<Rightarrow> Inr e)"

definition entry_new :: "nat \<Rightarrow> nat \<Rightarrow> nat \<Rightarrow> nat \<Rightarrow> nat \<Rightarrow> route_kind \<Rightarrow> nat \<Rightarrow> route_entry" where
  "entry_new root key end payload owner rk incarnation =
     \<lparr>en_key = key, en_end = end, en_payload = payload, en_root = root, en_owner = owner, en_kind = rk,
      en_incarnation = incarnation, en_refs = 1, en_linked = True\<rparr>"

definition set_entry :: "nat \<Rightarrow> route_entry \<Rightarrow> route_directory \<Rightarrow> route_directory" where
  "set_entry a e D = D\<lparr>entry_at := (entry_at D)(a \<mapsto> e)\<rparr>"

text \<open>\<open>pin_from_array\<close> and the drop of a handle.\<close>

definition pin_from_array :: "nat \<Rightarrow> route_directory \<Rightarrow> string + route_directory" where
  "pin_from_array a D =
     rbind (deref a D) (\<lambda>e.
       if en_refs e = usize_max then Inl ''directory: pin reference count overflow''
       else if en_refs e = 0 then Inl ''pin taken on an entry whose last reference is gone''
       else Inr (set_entry a (e\<lparr>en_refs := en_refs e + 1\<rparr>) D))"

definition drop_handle :: "nat \<Rightarrow> route_directory \<Rightarrow> string + route_directory" where
  "drop_handle a D =
     rbind (deref a D) (\<lambda>e.
       if en_refs e = 0 then Inl ''route entry refs underflow''
       else if en_refs e \<noteq> 1 then Inr (set_entry a (e\<lparr>en_refs := en_refs e - 1\<rparr>) D)
       else Inr (D\<lparr>entry_at := (entry_at D)(a := None)\<rparr>))"

definition span_contains_addr :: "route_entry \<Rightarrow> nat \<Rightarrow> bool" where
  "span_contains_addr e addr \<longleftrightarrow> en_payload e \<le> addr \<and> addr < en_end e
     \<and> (if en_kind e = RouteLarge then large_payload_address_matches addr (en_payload e) 0 else True)"

definition contains_payload :: "route_entry \<Rightarrow> nat \<Rightarrow> nat \<Rightarrow> bool" where
  "contains_payload e addr sz \<longleftrightarrow> en_payload e \<le> addr
     \<and> (en_kind e \<noteq> RouteLarge \<or> large_payload_address_matches addr (en_payload e) 0)
     \<and> (addr + sz \<le> usize_max \<and> addr + sz \<le> en_end e)"

subsection \<open>Critical sections\<close>

definition shard_of :: "nat \<Rightarrow> route_directory \<Rightarrow> shard" where
  "shard_of key D = shards D (shard_index key)"

definition put_shard :: "nat \<Rightarrow> shard \<Rightarrow> blocks \<Rightarrow> route_directory \<Rightarrow> route_directory" where
  "put_shard key sh m D = D\<lparr>shards := (shards D)(shard_index key := sh), block_at := m\<rparr>"

definition dir_find :: "nat \<Rightarrow> route_directory \<Rightarrow> string + nat option" where
  "dir_find key D = sh_find (key_in D) (shard_of key D) (block_at D) key"

definition dir_lookup :: "nat \<Rightarrow> route_directory \<Rightarrow> string + nat option \<times> route_directory" where
  "dir_lookup addr D =
     (let key = segment_base_of addr
      in rbind (dir_find key D) (\<lambda>r.
        case r of
          None \<Rightarrow> Inr (None, D)
        | Some raw \<Rightarrow> rbind (deref raw D) (\<lambda>e.
            if addr < en_payload e \<or> en_end e \<le> addr
                \<or> en_kind e = RouteLarge \<and> \<not> large_payload_address_matches addr (en_payload e) 0
            then Inr (None, D)
            else rbind (pin_from_array raw D) (\<lambda>D'. rbind (dir_find key D') (\<lambda>again. rbind (deref raw D') (\<lambda>e'.
              if again \<noteq> Some raw \<or> en_incarnation e' \<noteq> en_incarnation e
              then Inl ''directory: pin key or incarnation mismatch''
              else Inr (Some raw, D')))))))"

definition dir_insert :: "nat \<Rightarrow> route_directory \<Rightarrow> string + insert_result \<times> route_directory" where
  "dir_insert a D =
     (let key = key_in D a
      in rbind (sh_insert (key_in D) key a (shard_of key D) (block_at D)) (\<lambda>(r, sh, m). Inr (r, put_shard key sh m D)))"

definition dir_install :: "nat \<Rightarrow> nat option \<Rightarrow> block_index option \<Rightarrow> route_directory \<Rightarrow> string + route_directory" where
  "dir_install a blk index D =
     (let key = key_in D a
      in rbind (sh_install blk index (shard_of key D)) (\<lambda>(sh, surplus). Inr (put_shard key sh (block_at D) D)))"

definition dir_remove :: "nat \<Rightarrow> route_directory \<Rightarrow> string + route_directory" where
  "dir_remove a D =
     rbind (deref a D) (\<lambda>e.
       rbind (sh_remove (key_in D) (en_key e) a (shard_of (en_key e) D) (block_at D)) (\<lambda>(sh, m, retired).
         Inr (set_entry a (e\<lparr>en_linked := False\<rparr>) (put_shard (en_key e) sh m D))))"

text \<open>The checks of \<open>register_route\<close>; the result is the end of the span.\<close>

definition check_span :: "nat \<Rightarrow> nat \<Rightarrow> nat \<Rightarrow> nat \<Rightarrow> route_kind \<Rightarrow> route_error + nat" where
  "check_span page root len route_ptr rk =
     (if usize_max < root + len then Inl InvalidSpan
      else if root = 0 \<or> root AND (page - 1) \<noteq> 0 \<or> len = 0 \<or> route_ptr < root \<or> root + len \<le> route_ptr then Inl InvalidSpan
      else if rk \<noteq> RouteLarge \<and> (len \<noteq> SEGMENT \<or> root AND (SEGMENT - 1) \<noteq> 0) then Inl InvalidSpan
      else Inr (root + len))"

subsection \<open>The callers\<close>

text \<open>Where a call of \<open>register_route\<close> is.  \<open>RegFailed\<close>: about to drop its entry and to return the error.\<close>

datatype reg_pc =
    RegIdle
  | RegNumbered route_entry
  | RegTry nat
  | RegNeed nat bool nat
  | RegSupply nat "nat option" "block_index option"
  | RegFailed nat route_error
  | RegDone "route_error + nat"

text \<open>\<open>pins\<close>: the handles of lookups and of registrations already unlinked; \<open>regs\<close>: the registrations alive.\<close>

record route_system =
  dir :: route_directory
  callers :: "nat \<Rightarrow> reg_pc"
  pins :: "nat multiset"
  regs :: "nat set"

definition move_to :: "nat \<Rightarrow> reg_pc \<Rightarrow> route_system \<Rightarrow> route_system" where
  "move_to t pc s = s\<lparr>callers := (callers s)(t := pc)\<rparr>"

abbreviation in_dir :: "route_directory \<Rightarrow> route_system \<Rightarrow> route_system" where
  "in_dir D s \<equiv> s\<lparr>dir := D\<rparr>"

fun holds :: "reg_pc \<Rightarrow> nat option" where
  "holds (RegTry a) = Some a"
| "holds (RegNeed a b c) = Some a"
| "holds (RegSupply a b i) = Some a"
| "holds (RegFailed a e) = Some a"
| "holds pc = None"

fun in_flight :: "reg_pc \<Rightarrow> nat option" where
  "in_flight (RegSupply a b i) = b"
| "in_flight pc = None"

text \<open>The law of the system's allocator: a new block or entry is none that is in use.\<close>

definition fresh_block :: "nat \<Rightarrow> route_system \<Rightarrow> bool" where
  "fresh_block p s \<longleftrightarrow> p \<noteq> 0 \<and> (\<forall>i < SHARDS. p \<notin> owned (shards (dir s) i)) \<and> (\<forall>t. in_flight (callers s t) \<noteq> Some p)"

inductive route_step :: "nat \<Rightarrow> route_system \<Rightarrow> route_system \<Rightarrow> bool" for page :: nat where
  reg_refuse: "callers s t = RegIdle \<Longrightarrow> check_span page root len route_ptr rk = Inl e
    \<Longrightarrow> route_step page s (move_to t (RegDone (Inl e)) s)"
| reg_number: "callers s t = RegIdle \<Longrightarrow> check_span page root len route_ptr rk = Inr end
    \<Longrightarrow> route_step page s
      (if next_incarnation (dir s) = 2 ^ 64 - 1 then move_to t (RegDone (Inl IncarnationExhausted)) s
       else move_to t (RegNumbered (entry_new root (segment_base_of route_ptr) end route_ptr owner rk (next_incarnation (dir s) + 1)))
         (in_dir ((dir s)\<lparr>next_incarnation := next_incarnation (dir s) + 1\<rparr>) s))"
| reg_no_entry: "callers s t = RegNumbered e \<Longrightarrow> route_step page s (move_to t (RegDone (Inl OutOfMemory)) s)"
| reg_entry: "callers s t = RegNumbered e \<Longrightarrow> a \<noteq> 0 \<Longrightarrow> entry_at (dir s) a = None
    \<Longrightarrow> route_step page s (move_to t (RegTry a) (in_dir (set_entry a e (dir s)) s))"
| reg_done: "callers s t = RegTry a \<Longrightarrow> dir_insert a (dir s) = Inr (Done, D)
    \<Longrightarrow> route_step page s (move_to t (RegDone (Inr a)) (s\<lparr>dir := D, regs := insert a (regs s)\<rparr>))"
| reg_duplicate: "callers s t = RegTry a \<Longrightarrow> dir_insert a (dir s) = Inr (Duplicate, D)
    \<Longrightarrow> route_step page s (move_to t (RegFailed a DuplicateRoute) (in_dir D s))"
| reg_need: "callers s t = RegTry a \<Longrightarrow> dir_insert a (dir s) = Inr (Need blk cap, D)
    \<Longrightarrow> route_step page s (move_to t (RegNeed a blk cap) (in_dir D s))"
| reg_no_supply: "callers s t = RegNeed a blk cap \<Longrightarrow> blk \<or> cap \<noteq> 0 \<Longrightarrow> route_step page s (move_to t (RegFailed a OutOfMemory) s)"
| reg_supply: "callers s t = RegNeed a blk cap \<Longrightarrow> fresh_block p s
    \<Longrightarrow> route_step page s
      (move_to t (RegSupply a (if blk then Some p else None) (if cap \<noteq> 0 then Some (with_capacity cap) else None))
        (in_dir (if blk then (dir s)\<lparr>block_at := (block_at (dir s))(p := block_new)\<rparr> else dir s) s))"
| reg_install: "callers s t = RegSupply a blk index \<Longrightarrow> dir_install a blk index (dir s) = Inr D
    \<Longrightarrow> route_step page s (move_to t (RegTry a) (in_dir D s))"
| reg_exiting: "callers s t \<in> {RegTry a, RegSupply a blk index}
    \<Longrightarrow> route_step page s (move_to t (RegFailed a ProcessExiting) s)"
| reg_fail: "callers s t = RegFailed a e \<Longrightarrow> drop_handle a (dir s) = Inr D
    \<Longrightarrow> route_step page s (move_to t (RegDone (Inl e)) (in_dir D s))"
| reg_return: "callers s t = RegDone r \<Longrightarrow> route_step page s (move_to t RegIdle s)"
| lookup_pin: "dir_lookup addr (dir s) = Inr (Some a, D) \<Longrightarrow> route_step page s (s\<lparr>dir := D, pins := add_mset a (pins s)\<rparr>)"
| drop_pin: "a \<in># pins s \<Longrightarrow> drop_handle a (dir s) = Inr D \<Longrightarrow> route_step page s (s\<lparr>dir := D, pins := pins s - {#a#}\<rparr>)"
| unregister: "a \<in> regs s \<Longrightarrow> dir_remove a (dir s) = Inr D
    \<Longrightarrow> route_step page s (s\<lparr>dir := D, regs := regs s - {a}, pins := add_mset a (pins s)\<rparr>)"

definition route_start :: "route_system \<Rightarrow> bool" where
  "route_start s \<longleftrightarrow> dir s = directory_new \<and> callers s = (\<lambda>_. RegIdle) \<and> pins s = {#} \<and> regs s = {}"

subsection \<open>The invariant\<close>

definition shards_good :: "route_directory \<Rightarrow> nat set \<Rightarrow> bool" where
  "shards_good D R \<longleftrightarrow> (\<forall>i < SHARDS. \<exists>L. shard_rep (shards D i) (block_at D) L \<and> lists_ok (key_in D) L
       \<and> set (concat L) = {a \<in> R. shard_index (key_in D a) = i})
     \<and> (\<forall>i < SHARDS. \<forall>j < SHARDS. i \<noteq> j \<longrightarrow> owned (shards D i) \<inter> owned (shards D j) = {})"

definition flights_good :: "route_directory \<Rightarrow> (nat \<Rightarrow> reg_pc) \<Rightarrow> bool" where
  "flights_good D C \<longleftrightarrow> (\<forall>t p. in_flight (C t) = Some p \<longrightarrow>
       p \<noteq> 0 \<and> blk_ok (block_at D p) \<and> blk_list (block_at D p) = [] \<and> (\<forall>i < SHARDS. p \<notin> owned (shards D i))
       \<and> (\<forall>u. in_flight (C u) = Some p \<longrightarrow> u = t))
     \<and> (\<forall>t a b i. C t = RegSupply a b (Some i) \<longrightarrow> i = with_capacity (ix_cap i))"

text \<open>An entry with \<open>n\<close> pins, registered (\<open>r\<close>) or being registered (\<open>h\<close>).\<close>

definition entry_ok :: "route_entry option \<Rightarrow> nat \<Rightarrow> bool \<Rightarrow> bool \<Rightarrow> bool" where
  "entry_ok x n r h \<longleftrightarrow> (case x of
       None \<Rightarrow> \<not> r \<and> n = 0 \<and> \<not> h
     | Some e \<Rightarrow> 0 < en_refs e \<and> en_refs e = n + (if r \<or> h then 1 else 0) \<and> (en_linked e \<longleftrightarrow> r \<or> h))"

definition refs_good :: "route_directory \<Rightarrow> (nat \<Rightarrow> reg_pc) \<Rightarrow> nat multiset \<Rightarrow> nat set \<Rightarrow> bool" where
  "refs_good D C P R \<longleftrightarrow> (\<forall>t u a. holds (C t) = Some a \<longrightarrow> a \<notin> R \<and> count P a = 0 \<and> (holds (C u) = Some a \<longrightarrow> u = t))
     \<and> (\<forall>a. entry_ok (entry_at D a) (count P a) (a \<in> R) (\<exists>t. holds (C t) = Some a))"

definition numbered :: "reg_pc \<Rightarrow> nat option" where
  "numbered pc = (case pc of RegNumbered e \<Rightarrow> Some (en_incarnation e) | _ \<Rightarrow> None)"

definition numbers_good :: "route_directory \<Rightarrow> (nat \<Rightarrow> reg_pc) \<Rightarrow> bool" where
  "numbers_good D C \<longleftrightarrow> (\<forall>a e. entry_at D a = Some e \<longrightarrow> en_incarnation e \<le> next_incarnation D
        \<and> (\<forall>b f. entry_at D b = Some f \<longrightarrow> en_incarnation f = en_incarnation e \<longrightarrow> b = a)
        \<and> (\<forall>t. numbered (C t) \<noteq> Some (en_incarnation e)) \<and> en_key e = segment_base_of (en_payload e))
     \<and> (\<forall>t e. C t = RegNumbered e \<longrightarrow> en_incarnation e \<le> next_incarnation D \<and> en_refs e = 1 \<and> en_linked e
        \<and> en_key e = segment_base_of (en_payload e) \<and> (\<forall>u. numbered (C u) = Some (en_incarnation e) \<longrightarrow> u = t))"

definition route_good :: "route_system \<Rightarrow> bool" where
  "route_good s \<longleftrightarrow> shards_good (dir s) (regs s) \<and> flights_good (dir s) (callers s)
     \<and> refs_good (dir s) (callers s) (pins s) (regs s) \<and> numbers_good (dir s) (callers s)"

subsection \<open>Critical sections keep the shards good\<close>

lemma shard_index_less [simp]: "shard_index key < SHARDS"
  by (simp add: shard_index_def SHARDS_def Let_def)

lemma key_in_simps [simp]:
  "key_in (D\<lparr>shards := s\<rparr>) = key_in D" "key_in (D\<lparr>block_at := m\<rparr>) = key_in D" "key_in (D\<lparr>next_incarnation := n\<rparr>) = key_in D"
  "key_in (put_shard k sh m D) = key_in D"
  by (simp_all add: key_in_def put_shard_def fun_eq_iff)

lemma put_shard_fields [simp]:
  "shards (put_shard k sh m D) = (shards D)(shard_index k := sh)" "block_at (put_shard k sh m D) = m"
  "entry_at (put_shard k sh m D) = entry_at D" "next_incarnation (put_shard k sh m D) = next_incarnation D"
  by (simp_all add: put_shard_def)

lemma set_entry_fields [simp]:
  "shards (set_entry a e D) = shards D" "block_at (set_entry a e D) = block_at D"
  "entry_at (set_entry a e D) = (entry_at D)(a \<mapsto> e)" "next_incarnation (set_entry a e D) = next_incarnation D"
  by (simp_all add: set_entry_def)

lemma put_same: "put_shard k (shard_of k D) (block_at D) D = D"
  by (simp add: put_shard_def shard_of_def)

lemma key_in_set: "entry_at D a = Some e \<Longrightarrow> en_key e' = en_key e \<Longrightarrow> key_in (set_entry a e' D) = key_in D"
  by (simp add: key_in_def fun_eq_iff)

lemma lists_ok_cong: "(\<And>x. x \<in> set (concat L) \<Longrightarrow> ek' x = ek x) \<Longrightarrow> lists_ok ek' L = lists_ok ek L"
  unfolding lists_ok_def by_key_def by (metis (no_types, lifting) map_eq_conv)

lemma shards_good_at:
  assumes "shards_good D R" and "i < SHARDS"
  obtains L where "shard_rep (shards D i) (block_at D) L" "lists_ok (key_in D) L" "set (concat L) = {a \<in> R. shard_index (key_in D a) = i}"
  using assms unfolding shards_good_def by blast

lemma shards_good_cong:
  assumes good: "shards_good D R" and "shards D' = shards D" and m: "\<And>i p. i < SHARDS \<Longrightarrow> p \<in> owned (shards D i) \<Longrightarrow> block_at D' p = block_at D p"
    and k: "\<And>a. a \<in> R \<Longrightarrow> key_in D' a = key_in D a"
  shows "shards_good D' R"
proof -
  have "\<exists>L. shard_rep (shards D' i) (block_at D') L \<and> lists_ok (key_in D') L \<and> set (concat L) = {a \<in> R. shard_index (key_in D' a) = i}"
    if i: "i < SHARDS" for i
  proof -
    obtain L where L: "shard_rep (shards D i) (block_at D) L" "lists_ok (key_in D) L" "set (concat L) = {a \<in> R. shard_index (key_in D a) = i}"
      using good i by (rule shards_good_at)
    have "shard_rep (shards D' i) (block_at D') L" unfolding assms(2) by (rule shard_rep_frame [OF L(1)]) (rule m [OF i])
    moreover have "lists_ok (key_in D') L" using L(2,3) k lists_ok_cong [of L "key_in D'" "key_in D"] by auto
    moreover have "set (concat L) = {a \<in> R. shard_index (key_in D' a) = i}" using L(3) k by auto
    ultimately show ?thesis by blast
  qed
  then show ?thesis using good unfolding shards_good_def assms(2) by blast
qed

lemma shards_good_update:
  assumes good: "shards_good D R" and i: "i = shard_index k" and rep: "shard_rep sh m L" and ok: "lists_ok (key_in D) L"
    and R: "set (concat L) = {a \<in> R'. shard_index (key_in D a) = i}" "\<And>a. shard_index (key_in D a) \<noteq> i \<Longrightarrow> a \<in> R' \<longleftrightarrow> a \<in> R"
    and own: "\<And>j. j < SHARDS \<Longrightarrow> j \<noteq> i \<Longrightarrow> owned sh \<inter> owned (shards D j) = {}"
    and frame: "\<And>j p. j < SHARDS \<Longrightarrow> j \<noteq> i \<Longrightarrow> p \<in> owned (shards D j) \<Longrightarrow> m p = block_at D p"
  shows "shards_good (put_shard k sh m D) R'"
proof -
  let ?D = "put_shard k sh m D"
  have "\<exists>L. shard_rep (shards ?D j) (block_at ?D) L \<and> lists_ok (key_in ?D) L \<and> set (concat L) = {a \<in> R'. shard_index (key_in ?D a) = j}"
    if j: "j < SHARDS" for j
  proof (cases "j = i")
    case True
    then show ?thesis using rep ok R(1) i by (intro exI [of _ L]) simp
  next
    case False
    obtain L' where L': "shard_rep (shards D j) (block_at D) L'" "lists_ok (key_in D) L'" "set (concat L') = {a \<in> R. shard_index (key_in D a) = j}"
      using good j by (rule shards_good_at)
    have "shard_rep (shards D j) m L'" by (rule shard_rep_frame [OF L'(1)]) (rule frame [OF j False])
    moreover have "set (concat L') = {a \<in> R'. shard_index (key_in D a) = j}" using L'(3) R(2) False by auto
    ultimately show ?thesis using False L'(2) i by (intro exI [of _ L']) simp
  qed
  moreover have "owned (shards ?D j) \<inter> owned (shards ?D l) = {}" if "j < SHARDS" "l < SHARDS" "j \<noteq> l" for j l
    using that good own [of j] own [of l] i unfolding shards_good_def by (cases "j = i"; cases "l = i") (auto simp: Int_commute)
  ultimately show ?thesis unfolding shards_good_def by blast
qed

lemma owned_apart: "shards_good D R \<Longrightarrow> j < SHARDS \<Longrightarrow> j \<noteq> shard_index k \<Longrightarrow> owned (shard_of k D) \<inter> owned (shards D j) = {}"
  unfolding shards_good_def shard_of_def by simp

lemma dir_find_ok:
  assumes "shards_good D R"
  shows "\<exists>r. dir_find k D = Inr r \<and> (\<forall>a. r = Some a \<longleftrightarrow> a \<in> R \<and> key_in D a = k)"
proof -
  obtain L where L: "shard_rep (shard_of k D) (block_at D) L" "lists_ok (key_in D) L"
      "set (concat L) = {a \<in> R. shard_index (key_in D a) = shard_index k}"
    using assms shard_index_less unfolding shard_of_def by (rule shards_good_at)
  have "by_key (key_in D) (concat L)" using L(2) by (simp add: lists_ok_def)
  then show ?thesis using sh_find_ok [OF L(1,2)] L(3) by (auto simp: dir_find_def entry_map_Some)
qed

lemma keys_distinct:
  assumes "shards_good D R" and "a \<in> R" and "b \<in> R" and "key_in D a = key_in D b"
  shows "a = b"
  using dir_find_ok [OF assms(1), of "key_in D a"] assms(2-4) by (metis option.inject)

text \<open>Where the blocks of the shards are after an operation on one of them.\<close>

definition same_elsewhere :: "nat \<Rightarrow> route_directory \<Rightarrow> route_directory \<Rightarrow> bool" where
  "same_elsewhere k D D' \<longleftrightarrow> (\<forall>j < SHARDS. owned (shards D' j) \<subseteq> owned (shards D j))
     \<and> (\<forall>p. (\<forall>j < SHARDS. p \<notin> owned (shards D j)) \<longrightarrow> block_at D' p = block_at D p)
     \<and> entry_at D' = entry_at D \<and> next_incarnation D' = next_incarnation D"

lemma dir_insert_ok:
  assumes good: "shards_good D R" and a: "a \<notin> R"
  shows "(\<exists>b \<in> R. key_in D b = key_in D a) \<and> dir_insert a D = Inr (Duplicate, D)
    \<or> (\<forall>b \<in> R. key_in D b \<noteq> key_in D a) \<and> needs (shard_of (key_in D a) D)
        \<and> dir_insert a D = Inr (Need (sh_spare (shard_of (key_in D a) D) = 0) (wanted_cap (sh_index (shard_of (key_in D a) D))), D)
    \<or> (\<forall>b \<in> R. key_in D b \<noteq> key_in D a)
        \<and> (\<exists>D'. dir_insert a D = Inr (Done, D') \<and> shards_good D' (insert a R) \<and> same_elsewhere (key_in D a) D D' \<and> key_in D' = key_in D)"
proof -
  let ?k = "key_in D a" and ?sh = "shard_of (key_in D a) D"
  obtain L where L: "shard_rep ?sh (block_at D) L" "lists_ok (key_in D) L" "set (concat L) = {b \<in> R. shard_index (key_in D b) = shard_index ?k}"
    using good shard_index_less unfolding shard_of_def by (rule shards_good_at)
  have dup: "?k \<in> key_in D ` set (concat L) \<longleftrightarrow> (\<exists>b \<in> R. key_in D b = ?k)" unfolding L(3) by (auto intro: rev_image_eqI)
  have run: "dir_insert a D = rbind (sh_insert (key_in D) ?k a ?sh (block_at D)) (\<lambda>(r, sh, m). Inr (r, put_shard ?k sh m D))"
    unfolding dir_insert_def Let_def ..
  from sh_insert_ok [OF L(1,2), of a] consider
      (duplicate) "?k \<in> key_in D ` set (concat L)" "sh_insert (key_in D) ?k a ?sh (block_at D) = Inr (Duplicate, ?sh, block_at D)"
    | (need) "?k \<notin> key_in D ` set (concat L)" "needs ?sh"
        "sh_insert (key_in D) ?k a ?sh (block_at D) = Inr (Need (sh_spare ?sh = 0) (wanted_cap (sh_index ?sh)), ?sh, block_at D)"
    | (entered) sh' m' where "?k \<notin> key_in D ` set (concat L)" "sh_insert (key_in D) ?k a ?sh (block_at D) = Inr (Done, sh', m')"
        "inserted (key_in D) a L ?sh (block_at D) sh' m'" by blast
  then show ?thesis
  proof cases
    case duplicate
    then show ?thesis using dup run put_same by simp
  next
    case need
    then show ?thesis using dup run put_same by auto
  next
    case entered
    from entered(3) obtain L' where L': "shard_rep sh' m' L'" "lists_ok (key_in D) L'" "set (concat L') = insert a (set (concat L))"
      "owned sh' = owned ?sh" "\<And>p. p \<notin> owned ?sh \<Longrightarrow> m' p = block_at D p" unfolding inserted_def by blast
    let ?D = "put_shard ?k sh' m' D"
    have "shards_good ?D (insert a R)"
    proof (rule shards_good_update [OF good refl L'(1,2)])
      show "set (concat L') = {b \<in> insert a R. shard_index (key_in D b) = shard_index ?k}" unfolding L'(3) L(3) by auto
      show "owned sh' \<inter> owned (shards D j) = {}" if "j < SHARDS" "j \<noteq> shard_index ?k" for j unfolding L'(4) by (rule owned_apart [OF good that])
      show "m' p = block_at D p" if "j < SHARDS" "j \<noteq> shard_index ?k" "p \<in> owned (shards D j)" for j p
        using owned_apart [OF good that(1,2)] that(3) by (intro L'(5)) auto
    qed auto
    moreover have "same_elsewhere ?k D ?D" using L'(4,5) unfolding same_elsewhere_def shard_of_def by auto
    ultimately show ?thesis using run entered dup by auto
  qed
qed

lemma dir_remove_ok:
  assumes good: "shards_good D R" and a: "a \<in> R" and e: "entry_at D a = Some e"
  shows "\<exists>D1. dir_remove a D = Inr (set_entry a (e\<lparr>en_linked := False\<rparr>) D1) \<and> shards_good D1 (R - {a}) \<and> same_elsewhere (en_key e) D D1 \<and> key_in D1 = key_in D"
proof -
  let ?k = "en_key e"
  have k: "key_in D a = ?k" using e by (simp add: key_in_def)
  obtain L where L: "shard_rep (shard_of ?k D) (block_at D) L" "lists_ok (key_in D) L" "set (concat L) = {b \<in> R. shard_index (key_in D b) = shard_index ?k}"
    using good shard_index_less unfolding shard_of_def by (rule shards_good_at)
  have "a \<in> set (concat L)" unfolding L(3) using a k by simp
  from sh_remove_ok [OF L(1,2) this] obtain sh' m' r where
    r: "sh_remove (key_in D) ?k a (shard_of ?k D) (block_at D) = Inr (sh', m', r)" "removed (key_in D) a L (shard_of ?k D) (block_at D) sh' m' r"
    unfolding k by blast
  from r(2) obtain L' X Y where L': "shard_rep sh' m' L'" "lists_ok (key_in D) L'" "concat L = X @ a # Y" "concat L' = X @ Y"
    "owned sh' \<union> gone r = owned (shard_of ?k D)" "\<And>p. p \<notin> owned (shard_of ?k D) \<Longrightarrow> m' p = block_at D p" unfolding removed_def by blast
  have "by_key (key_in D) (X @ a # Y)" using L(2) by (simp add: lists_ok_def flip: L'(3))
  then have "a \<notin> set (X @ Y)" by (auto simp: by_key_append by_key_Cons)
  then have sL: "set (concat L') = set (concat L) - {a}" unfolding L'(3,4) by auto
  have sub: "owned sh' \<subseteq> owned (shard_of ?k D)" using L'(5) by blast
  let ?D = "put_shard ?k sh' m' D"
  have "shards_good ?D (R - {a})"
  proof (rule shards_good_update [OF good refl L'(1,2)])
    show "set (concat L') = {b \<in> R - {a}. shard_index (key_in D b) = shard_index ?k}" unfolding sL L(3) by auto
    show "b \<in> R - {a} \<longleftrightarrow> b \<in> R" if "shard_index (key_in D b) \<noteq> shard_index ?k" for b using that k by auto
    show "owned sh' \<inter> owned (shards D j) = {}" if "j < SHARDS" "j \<noteq> shard_index ?k" for j using sub owned_apart [OF good that] by blast
    show "m' p = block_at D p" if "j < SHARDS" "j \<noteq> shard_index ?k" "p \<in> owned (shards D j)" for j p
      using owned_apart [OF good that(1,2)] that(3) by (intro L'(6)) auto
  qed
  moreover have "same_elsewhere ?k D ?D" using sub L'(6) unfolding same_elsewhere_def shard_of_def by auto
  moreover have "dir_remove a D = Inr (set_entry a (e\<lparr>en_linked := False\<rparr>) ?D)" by (simp add: dir_remove_def deref_def e r(1))
  ultimately show ?thesis by (intro exI [of _ ?D]) simp
qed

lemma dir_install_ok:
  assumes good: "shards_good D R" and b: "\<And>p. b = Some p \<Longrightarrow> p \<noteq> 0 \<and> blk_ok (block_at D p) \<and> blk_list (block_at D p) = [] \<and> (\<forall>i < SHARDS. p \<notin> owned (shards D i))"
    and x: "\<And>i. x = Some i \<Longrightarrow> i = with_capacity (ix_cap i)"
  shows "\<exists>D'. dir_install a b x D = Inr D' \<and> shards_good D' R \<and> key_in D' = key_in D \<and> entry_at D' = entry_at D \<and> block_at D' = block_at D
    \<and> next_incarnation D' = next_incarnation D \<and> (\<forall>j < SHARDS. owned (shards D' j) \<subseteq> owned (shards D j) \<union> set_option b)
    \<and> (\<forall>sh. sh = shard_of (key_in D a) D \<longrightarrow> (sh_spare sh \<noteq> 0 \<or> b \<noteq> None \<longrightarrow> sh_spare (shard_of (key_in D a) D') \<noteq> 0)
      \<and> (wanted_cap (sh_index sh) = 0 \<or> (\<exists>i. x = Some i \<and> ix_cap (sh_index sh) < ix_cap i) \<longrightarrow> wanted_cap (sh_index (shard_of (key_in D a) D')) = 0))"
proof -
  let ?k = "key_in D a"
  obtain L where L: "shard_rep (shard_of ?k D) (block_at D) L" "lists_ok (key_in D) L" "set (concat L) = {b \<in> R. shard_index (key_in D b) = shard_index ?k}"
    using good shard_index_less unfolding shard_of_def by (rule shards_good_at)
  have b': "p \<noteq> 0 \<and> p \<notin> owned (shard_of ?k D) \<and> blk_ok (block_at D p) \<and> blk_list (block_at D p) = []" if "b = Some p" for p
    using b [OF that] by (simp add: shard_of_def)
  from sh_install_ok [OF L(1) b' x] obtain sh' sb si where
    s: "sh_install b x (shard_of ?k D) = Inr (sh', sb, si)" "shard_rep sh' (block_at D) L"
      "owned sh' \<union> set_option sb = owned (shard_of ?k D) \<union> set_option b"
      "sh_spare (shard_of ?k D) \<noteq> 0 \<or> b \<noteq> None \<longrightarrow> sh_spare sh' \<noteq> 0"
      "wanted_cap (sh_index (shard_of ?k D)) = 0 \<or> (\<exists>i. x = Some i \<and> ix_cap (sh_index (shard_of ?k D)) < ix_cap i) \<longrightarrow> wanted_cap (sh_index sh') = 0" by blast
  let ?D = "put_shard ?k sh' (block_at D) D"
  have sub: "owned sh' \<subseteq> owned (shard_of ?k D) \<union> set_option b" using s(3) by blast
  have "shards_good ?D R"
  proof (rule shards_good_update [OF good refl s(2) L(2,3)])
    show "owned sh' \<inter> owned (shards D j) = {}" if "j < SHARDS" "j \<noteq> shard_index ?k" for j
      using sub owned_apart [OF good that] b that(1) by (cases b) auto
  qed simp_all
  moreover have "dir_install a b x D = Inr ?D" by (simp add: dir_install_def s(1))
  moreover have "shard_of ?k ?D = sh'" by (simp add: shard_of_def)
  moreover have "\<forall>j < SHARDS. owned (shards ?D j) \<subseteq> owned (shards D j) \<union> set_option b" using sub by (auto simp: shard_of_def)
  ultimately show ?thesis using s(4,5) by (intro exI [of _ ?D]) simp
qed

text \<open>A lookup.\<close>

lemma dir_lookup_ok:
  assumes good: "shards_good D R" and refs: "\<forall>a \<in> R. \<exists>e. entry_at D a = Some e \<and> en_refs e \<noteq> 0"
  shows "(\<exists>a e. a \<in> R \<and> en_key e = segment_base_of addr \<and> entry_at D a = Some e \<and> span_contains_addr e addr
      \<and> dir_lookup addr D = (if en_refs e = usize_max then Inl ''directory: pin reference count overflow''
          else Inr (Some a, set_entry a (e\<lparr>en_refs := en_refs e + 1\<rparr>) D)))
    \<or> ((\<forall>a \<in> R. \<forall>e. entry_at D a = Some e \<longrightarrow> en_key e = segment_base_of addr \<longrightarrow> \<not> span_contains_addr e addr) \<and> dir_lookup addr D = Inr (None, D))"
proof -
  let ?k = "segment_base_of addr"
  from dir_find_ok [OF good, of ?k] obtain r where r: "dir_find ?k D = Inr r" "\<And>a. r = Some a \<longleftrightarrow> a \<in> R \<and> key_in D a = ?k" by blast
  show ?thesis
  proof (cases r)
    case None
    have "\<forall>a \<in> R. \<forall>e. entry_at D a = Some e \<longrightarrow> en_key e = ?k \<longrightarrow> \<not> span_contains_addr e addr"
    proof (intro ballI allI impI)
      fix b f assume b: "b \<in> R" "entry_at D b = Some f" "en_key f = ?k"
      then have "key_in D b = ?k" by (simp add: key_in_def)
      then show "\<not> span_contains_addr f addr" using b(1) r(2) [of b] None by simp
    qed
    then show ?thesis using None r(1) by (simp add: dir_lookup_def)
  next
    case (Some a)
    then have a: "a \<in> R" "key_in D a = ?k" using r(2) by blast+
    then obtain e where e: "entry_at D a = Some e" "en_refs e \<noteq> 0" using refs by blast
    have k: "en_key e = ?k" using a(2) e(1) by (simp add: key_in_def)
    have sp: "addr < en_payload e \<or> en_end e \<le> addr \<or> en_kind e = RouteLarge \<and> \<not> large_payload_address_matches addr (en_payload e) 0
        \<longleftrightarrow> \<not> span_contains_addr e addr" by (auto simp: span_contains_addr_def)
    show ?thesis
    proof (cases "span_contains_addr e addr")
      case False
      have "\<forall>b \<in> R. \<forall>f. entry_at D b = Some f \<longrightarrow> en_key f = ?k \<longrightarrow> \<not> span_contains_addr f addr"
      proof (intro ballI allI impI)
        fix b f assume b: "b \<in> R" "entry_at D b = Some f" "en_key f = ?k"
        then have "b = a" using r(2) [of b] Some by (simp add: key_in_def)
        then show "\<not> span_contains_addr f addr" using b(2) e(1) False by simp
      qed
      moreover have "dir_lookup addr D = Inr (None, D)"
        unfolding dir_lookup_def Let_def r(1) rbind.simps Some option.case deref_def e(1) sp using False by simp
      ultimately show ?thesis by blast
    next
      case True
      let ?D = "set_entry a (e\<lparr>en_refs := en_refs e + 1\<rparr>) D"
      have ki: "key_in ?D = key_in D" by (rule key_in_set [OF e(1)]) simp
      have again: "dir_find ?k ?D = Inr (Some a)" using r(1) Some ki by (simp add: dir_find_def shard_of_def)
      have "dir_lookup addr D = (if en_refs e = usize_max then Inl ''directory: pin reference count overflow'' else Inr (Some a, ?D))"
        unfolding dir_lookup_def Let_def r(1) rbind.simps Some option.case deref_def e(1) sp
        using True e again by (simp add: pin_from_array_def deref_def)
      then show ?thesis using a e(1) k True by blast
    qed
  qed
qed

subsection \<open>Every step keeps the invariant\<close>

lemma refs_good_pc: "(\<And>u. holds (C' u) = holds (C u)) \<Longrightarrow> refs_good D C P R \<Longrightarrow> refs_good D C' P R"
  by (simp add: refs_good_def)

lemma flights_good_pc:
  assumes "flights_good D C" and "\<And>u. in_flight (C' u) = in_flight (C u) \<or> in_flight (C' u) = None"
    and "\<And>u a b i. C' u = RegSupply a b (Some i) \<Longrightarrow> C u = RegSupply a b (Some i) \<or> i = with_capacity (ix_cap i)"
  shows "flights_good D C'"
proof -
  have sub: "in_flight (C u) = Some p" if "in_flight (C' u) = Some p" for u p using assms(2) [of u] that by auto
  then have "in_flight (C' u) = Some p \<Longrightarrow> p \<noteq> 0 \<and> blk_ok (block_at D p) \<and> blk_list (block_at D p) = [] \<and> (\<forall>i < SHARDS. p \<notin> owned (shards D i))
      \<and> (\<forall>w. in_flight (C' w) = Some p \<longrightarrow> w = u)" for u p
    using assms(1) unfolding flights_good_def by metis
  moreover have "i = with_capacity (ix_cap i)" if "C' u = RegSupply a b (Some i)" for u a b i
    using assms(1) assms(3) [OF that] unfolding flights_good_def by blast
  ultimately show ?thesis unfolding flights_good_def by blast
qed

lemma flights_good_dir:
  assumes "flights_good D C" and "\<And>j. j < SHARDS \<Longrightarrow> owned (shards D' j) \<subseteq> owned (shards D j)"
    and "\<And>p. (\<And>j. j < SHARDS \<Longrightarrow> p \<notin> owned (shards D j)) \<Longrightarrow> block_at D' p = block_at D p"
  shows "flights_good D' C"
proof -
  have "p \<noteq> 0 \<and> blk_ok (block_at D' p) \<and> blk_list (block_at D' p) = [] \<and> (\<forall>i < SHARDS. p \<notin> owned (shards D' i)) \<and> (\<forall>u. in_flight (C u) = Some p \<longrightarrow> u = t)"
    if "in_flight (C t) = Some p" for t p
  proof -
    from that assms(1) have p: "p \<noteq> 0" "blk_ok (block_at D p)" "blk_list (block_at D p) = []" "\<And>i. i < SHARDS \<Longrightarrow> p \<notin> owned (shards D i)"
      "\<forall>u. in_flight (C u) = Some p \<longrightarrow> u = t" unfolding flights_good_def by blast+
    then show ?thesis using assms(2) assms(3) [of p] by auto
  qed
  then show ?thesis using assms(1) unfolding flights_good_def by blast
qed

lemma numbers_entry:
  assumes "numbers_good D C" and "entry_at D a = Some e"
  shows "en_incarnation e \<le> next_incarnation D" "entry_at D b = Some f \<Longrightarrow> en_incarnation f = en_incarnation e \<Longrightarrow> b = a"
    "numbered (C t) \<noteq> Some (en_incarnation e)" "en_key e = segment_base_of (en_payload e)"
  using assms unfolding numbers_good_def by blast+

lemma numbers_caller:
  assumes "numbers_good D C" and "C t = RegNumbered e"
  shows "en_incarnation e \<le> next_incarnation D" "en_refs e = 1" "en_linked e" "en_key e = segment_base_of (en_payload e)"
    "numbered (C u) = Some (en_incarnation e) \<Longrightarrow> u = t"
  using assms unfolding numbers_good_def by blast+

lemma numbers_good_pc:
  assumes "numbers_good D C" and "\<And>u e. C' u = RegNumbered e \<Longrightarrow> C u = RegNumbered e"
  shows "numbers_good D C'"
proof -
  have sub: "numbered (C u) = Some n" if "numbered (C' u) = Some n" for u n
    using that assms(2) [of u] by (cases "C' u") (auto simp: numbered_def)
  show ?thesis unfolding numbers_good_def
  proof (intro conjI allI impI)
    fix a e t assume "entry_at D a = Some e"
    then show "numbered (C' t) \<noteq> Some (en_incarnation e)" using assms(1) sub unfolding numbers_good_def by blast
  next
    fix t u e assume e: "C' t = RegNumbered e"
    then have c: "C t = RegNumbered e" by (rule assms(2))
    show "u = t" if "numbered (C' u) = Some (en_incarnation e)" using c sub [OF that] assms(1) unfolding numbers_good_def by blast
    show "en_incarnation e \<le> next_incarnation D" "en_refs e = 1" "en_linked e" "en_key e = segment_base_of (en_payload e)"
      using c assms(1) unfolding numbers_good_def by blast+
  qed (use assms(1) in \<open>unfold numbers_good_def, blast\<close>)+
qed

lemma numbers_good_dir:
  assumes "numbers_good D C" and "next_incarnation D' = next_incarnation D"
    and "\<And>a e. entry_at D' a = Some e \<Longrightarrow> \<exists>f. entry_at D a = Some f \<and> en_incarnation e = en_incarnation f \<and> en_key e = en_key f \<and> en_payload e = en_payload f"
  shows "numbers_good D' C"
  unfolding numbers_good_def assms(2)
proof (intro conjI allI impI)
  fix a e assume "entry_at D' a = Some e"
  from assms(3) [OF this] obtain f where f: "entry_at D a = Some f" "en_incarnation e = en_incarnation f" "en_key e = en_key f" "en_payload e = en_payload f" by blast
  then show "en_incarnation e \<le> next_incarnation D" "en_key e = segment_base_of (en_payload e)" using assms(1) by (auto simp: numbers_good_def)
  show "numbered (C t) \<noteq> Some (en_incarnation e)" for t using assms(1) f unfolding numbers_good_def by metis
  show "b = a" if "entry_at D' b = Some g" "en_incarnation g = en_incarnation e" for b g
    using assms(1) f assms(3) [OF that(1)] that(2) unfolding numbers_good_def by metis
qed (use assms(1) in \<open>auto simp: numbers_good_def\<close>)

lemma move_fields [simp]: "dir (move_to t pc s) = dir s" "callers (move_to t pc s) = (callers s)(t := pc)" "pins (move_to t pc s) = pins s" "regs (move_to t pc s) = regs s"
  by (simp_all add: move_to_def)

text \<open>A step of a caller that leaves the directory alone and keeps its entry.\<close>

lemma good_pc:
  assumes "route_good s" and "holds pc = holds (callers s t)" and "in_flight pc = None" and "\<And>e. pc \<noteq> RegNumbered e" and "\<And>a b i. pc \<noteq> RegSupply a b i"
  shows "route_good (move_to t pc s)"
proof -
  let ?C = "(callers s)(t := pc)"
  from assms(1) have g: "shards_good (dir s) (regs s)" "flights_good (dir s) (callers s)" "refs_good (dir s) (callers s) (pins s) (regs s)"
    "numbers_good (dir s) (callers s)" by (simp_all add: route_good_def)
  have "refs_good (dir s) ?C (pins s) (regs s)" by (rule refs_good_pc [OF _ g(3)]) (use assms(2) in simp)
  moreover have "flights_good (dir s) ?C" by (rule flights_good_pc [OF g(2)]) (use assms(3,5) in \<open>auto split: if_splits\<close>)
  moreover have "numbers_good (dir s) ?C" by (rule numbers_good_pc [OF g(4)]) (use assms(4) in \<open>auto split: if_splits\<close>)
  ultimately show ?thesis using g(1) by (simp add: route_good_def)
qed

text \<open>Entries change at one address only.\<close>

lemma refs_good_at:
  assumes good: "refs_good D C P R" and other: "\<And>b. b \<noteq> a \<Longrightarrow> entry_at D' b = entry_at D b \<and> count P' b = count P b \<and> (b \<in> R' \<longleftrightarrow> b \<in> R)
      \<and> (\<forall>t. holds (C' t) = Some b \<longleftrightarrow> holds (C t) = Some b)"
    and own: "\<And>t u. holds (C' t) = Some a \<Longrightarrow> a \<notin> R' \<and> count P' a = 0 \<and> (holds (C' u) = Some a \<longrightarrow> u = t)"
    and at_a: "entry_ok (entry_at D' a) (count P' a) (a \<in> R') (\<exists>t. holds (C' t) = Some a)"
  shows "refs_good D' C' P' R'"
proof -
  have "b \<notin> R' \<and> count P' b = 0 \<and> (holds (C' u) = Some b \<longrightarrow> u = t)" if h: "holds (C' t) = Some b" for t u b
  proof (cases "b = a")
    case False
    note o = other [OF False]
    have "holds (C t) = Some b" using o h by blast
    then have "b \<notin> R \<and> count P b = 0 \<and> (holds (C u) = Some b \<longrightarrow> u = t)" using good unfolding refs_good_def by blast
    then show ?thesis using o by simp
  next
    case True
    then show ?thesis using own [of t u] h by simp
  qed
  moreover have "entry_ok (entry_at D' b) (count P' b) (b \<in> R') (\<exists>t. holds (C' t) = Some b)" for b
  proof (cases "b = a")
    case False
    have "entry_ok (entry_at D b) (count P b) (b \<in> R) (\<exists>t. holds (C t) = Some b)" using good unfolding refs_good_def by blast
    then show ?thesis using other [OF False] by simp
  qed (use at_a in simp)
  ultimately show ?thesis unfolding refs_good_def by blast
qed

lemma refs_entry:
  assumes "refs_good D C P R" and "a \<in> R \<or> a \<in># P \<or> holds (C t) = Some a"
  obtains e where "entry_at D a = Some e" "0 < en_refs e" "en_refs e = count P a + (if a \<in> R \<or> (\<exists>t. holds (C t) = Some a) then 1 else 0)"
    "en_linked e \<longleftrightarrow> a \<in> R \<or> (\<exists>t. holds (C t) = Some a)"
proof -
  have "entry_ok (entry_at D a) (count P a) (a \<in> R) (\<exists>t. holds (C t) = Some a)" using assms(1) unfolding refs_good_def by blast
  moreover have "a \<in> R \<or> count P a \<noteq> 0 \<or> (\<exists>t. holds (C t) = Some a)" using assms(2) by (auto simp: count_eq_zero_iff)
  ultimately show ?thesis unfolding entry_ok_def using that by (cases "entry_at D a") (simp, fastforce)
qed

text \<open>The steps, one by one.\<close>

lemma good_number:
  assumes good: "route_good s" and pc: "callers s t = RegIdle"
  shows "route_good (move_to t (RegNumbered (entry_new root (segment_base_of route_ptr) end route_ptr owner rk (next_incarnation (dir s) + 1)))
         (in_dir ((dir s)\<lparr>next_incarnation := next_incarnation (dir s) + 1\<rparr>) s))" (is "route_good (move_to t (RegNumbered ?e) ?s)")
proof -
  let ?D = "dir s" and ?C = "(callers s)(t := RegNumbered ?e)" and ?N = "next_incarnation (dir s) + 1"
  let ?D' = "?D\<lparr>next_incarnation := ?N\<rparr>"
  from good have g: "shards_good ?D (regs s)" "flights_good ?D (callers s)" "refs_good ?D (callers s) (pins s) (regs s)"
    "numbers_good ?D (callers s)" by (simp_all add: route_good_def)
  have "shards_good ?D' (regs s)" by (rule shards_good_cong [OF g(1)]) simp_all
  moreover have "flights_good ?D' ?C"
    by (rule flights_good_pc [where C = "callers s"]) (use g(2) in \<open>auto simp: flights_good_def split: if_splits\<close>)
  moreover have "refs_good ?D' ?C (pins s) (regs s)"
    by (rule refs_good_pc [where C = "callers s"]) (use g(3) pc in \<open>auto simp: refs_good_def\<close>)
  moreover have "numbers_good ?D' ?C"
  proof -
    have e: "en_incarnation ?e = ?N" "en_refs ?e = 1" "en_linked ?e" "en_key ?e = segment_base_of (en_payload ?e)" by (simp_all add: entry_new_def)
    have le: "en_incarnation f \<le> next_incarnation ?D" if "entry_at ?D a = Some f" for a f using g(4) that unfolding numbers_good_def by blast
    have len: "n \<le> next_incarnation ?D" if "numbered (callers s u) = Some n" for u n
      using g(4) that unfolding numbers_good_def by (cases "callers s u") (auto simp: numbered_def)
    have new: "numbered (?C u) = Some n \<longleftrightarrow> (if u = t then n = ?N else numbered (callers s u) = Some n)" for u n
      by (auto simp: numbered_def entry_new_def)
    show ?thesis unfolding numbers_good_def
    proof (intro conjI allI impI)
      fix a f assume f: "entry_at ?D' a = Some f"
      then have f': "entry_at ?D a = Some f" by simp
      show "en_incarnation f \<le> next_incarnation ?D'" using le [OF f'] by simp
      show "b = a" if "entry_at ?D' b = Some h" "en_incarnation h = en_incarnation f" for b h
        using numbers_entry(2) [OF g(4) f'] that by simp
      show "numbered (?C u) \<noteq> Some (en_incarnation f)" for u
        using le [OF f'] numbers_entry(3) [OF g(4) f', of u] unfolding new by (cases "u = t") auto
      show "en_key f = segment_base_of (en_payload f)" using numbers_entry(4) [OF g(4) f'] .
    next
      fix u f assume u: "?C u = RegNumbered f"
      show "en_incarnation f \<le> next_incarnation ?D'" "en_refs f = 1" "en_linked f" "en_key f = segment_base_of (en_payload f)"
      proof -
        have "en_incarnation f \<le> ?N \<and> en_refs f = 1 \<and> en_linked f \<and> en_key f = segment_base_of (en_payload f)"
          using u e numbers_caller [OF g(4), of u f] by (cases "u = t") auto
        then show "en_incarnation f \<le> next_incarnation ?D'" "en_refs f = 1" "en_linked f" "en_key f = segment_base_of (en_payload f)" by simp_all
      qed
      show "w = u" if "numbered (?C w) = Some (en_incarnation f)" for w
      proof (cases "u = t")
        case True
        then have "en_incarnation f = ?N" using u e(1) by simp
        then show ?thesis using that len [of w ?N] True unfolding new by (cases "w = t") auto
      next
        case False
        then have c: "callers s u = RegNumbered f" using u by simp
        then have "en_incarnation f \<le> next_incarnation ?D" using len [of u] by (simp add: numbered_def)
        then show ?thesis using that numbers_caller(5) [OF g(4) c, of w] unfolding new by (cases "w = t") auto
      qed
    qed
  qed
  ultimately show ?thesis by (simp add: route_good_def)
qed

lemma good_entry:
  assumes good: "route_good s" and pc: "callers s t = RegNumbered e" and a: "entry_at (dir s) a = None"
  shows "route_good (move_to t (RegTry a) (in_dir (set_entry a e (dir s)) s))"
proof -
  let ?D = "dir s" and ?C = "(callers s)(t := RegTry a)" and ?D' = "set_entry a e (dir s)"
  from good have g: "shards_good ?D (regs s)" "flights_good ?D (callers s)" "refs_good ?D (callers s) (pins s) (regs s)"
    "numbers_good ?D (callers s)" by (simp_all add: route_good_def)
  have "entry_ok (entry_at ?D a) (count (pins s) a) (a \<in> regs s) (\<exists>t. holds (callers s t) = Some a)" using g(3) unfolding refs_good_def by blast
  then have none: "a \<notin> regs s" "count (pins s) a = 0" "\<And>u. holds (callers s u) \<noteq> Some a" using a by (auto simp: entry_ok_def)
  have en: "en_incarnation e \<le> next_incarnation ?D" "en_refs e = 1" "en_linked e" "en_key e = segment_base_of (en_payload e)"
    using g(4) pc unfolding numbers_good_def by blast+
  have num: "numbered (callers s u) = Some (en_incarnation e) \<Longrightarrow> u = t" for u using g(4) pc unfolding numbers_good_def by blast
  have "shards_good ?D' (regs s)"
    by (rule shards_good_cong [OF g(1)]) (use none(1) in \<open>auto simp: key_in_def\<close>)
  moreover have "flights_good ?D' ?C"
    by (rule flights_good_pc [where C = "callers s"], rule flights_good_dir [OF g(2)]) (auto split: if_splits)
  moreover have "refs_good ?D' ?C (pins s) (regs s)"
    by (rule refs_good_at [OF g(3), where a = a]) (use none en pc in \<open>auto simp: entry_ok_def split: if_splits\<close>)
  moreover have "numbers_good ?D' ?C"
  proof -
    have nc: "numbered (?C u) = Some n \<longleftrightarrow> u \<noteq> t \<and> numbered (callers s u) = Some n" for u n by (auto simp: numbered_def)
    have other: "en_incarnation f \<noteq> en_incarnation e" if "entry_at ?D b = Some f" for b f
      using numbers_entry(3) [OF g(4) that, of t] pc by (simp add: numbered_def)
    have inj: "c = b" if "entry_at ?D b = Some f" "entry_at ?D c = Some h" "en_incarnation h = en_incarnation f" for b f c h
      using numbers_entry(2) [OF g(4) that(1)] that(2,3) by blast
    show ?thesis unfolding numbers_good_def
    proof (intro conjI allI impI)
      fix b f assume f: "entry_at ?D' b = Some f"
      show "en_incarnation f \<le> next_incarnation ?D'" "en_key f = segment_base_of (en_payload f)"
      proof -
        have "en_incarnation f \<le> next_incarnation ?D \<and> en_key f = segment_base_of (en_payload f)"
          using f en numbers_entry(1,4) [OF g(4), of b f] by (cases "b = a") auto
        then show "en_incarnation f \<le> next_incarnation ?D'" "en_key f = segment_base_of (en_payload f)" by simp_all
      qed
      show "c = b" if "entry_at ?D' c = Some h" "en_incarnation h = en_incarnation f" for c h
      proof -
        have e': "entry_at ?D' x = Some g \<longleftrightarrow> (if x = a then g = e else entry_at ?D x = Some g)" for x g by auto
        show ?thesis
        proof (cases "b = a")
          case True
          then have "f = e" using f unfolding e' by simp
          then show ?thesis using that other [of c h] True unfolding e' by (cases "c = a") simp_all
        next
          case False
          then have fb: "entry_at ?D b = Some f" using f unfolding e' by simp
          show ?thesis
          proof (cases "c = a")
            case True
            then have "h = e" using that(1) unfolding e' by simp
            then show ?thesis using that(2) other [OF fb] by simp
          next
            case nc: False
            then have "entry_at ?D c = Some h" using that(1) unfolding e' by simp
            then show ?thesis using inj [OF fb] that(2) by blast
          qed
        qed
      qed
      show "numbered (?C u) \<noteq> Some (en_incarnation f)" for u
      proof (cases "b = a")
        case True
        then show ?thesis using f num [of u] unfolding nc by auto
      next
        case False
        then show ?thesis using f numbers_entry(3) [OF g(4), of b f u] unfolding nc by simp
      qed
    next
      fix u f assume u: "?C u = RegNumbered f"
      then have c: "callers s u = RegNumbered f" by (auto split: if_splits)
      then show "en_incarnation f \<le> next_incarnation ?D'" "en_refs f = 1" "en_linked f" "en_key f = segment_base_of (en_payload f)"
        using numbers_caller(1-4) [OF g(4) c] by simp_all
      show "w = u" if "numbered (?C w) = Some (en_incarnation f)" for w
        using that numbers_caller(5) [OF g(4) c, of w] unfolding nc by blast
    qed
  qed
  ultimately show ?thesis by (simp add: route_good_def)
qed

lemma elsewhere_flights:
  assumes "same_elsewhere k D D'" and "flights_good D C"
  shows "flights_good D' C"
  by (rule flights_good_dir [OF assms(2)]) (use assms(1) in \<open>simp_all add: same_elsewhere_def\<close>)

lemma elsewhere_numbers: "same_elsewhere k D D' \<Longrightarrow> numbers_good D C \<Longrightarrow> numbers_good D' C"
  by (rule numbers_good_dir) (auto simp: same_elsewhere_def)

lemma refs_holds: "refs_good D C P R \<Longrightarrow> holds (C t) = Some a \<Longrightarrow> a \<notin> R \<and> count P a = 0 \<and> (holds (C u) = Some a \<longrightarrow> u = t)"
  unfolding refs_good_def by blast

lemma good_done:
  assumes good: "route_good s" and pc: "callers s t = RegTry a" and D: "dir_insert a (dir s) = Inr (Done, D)"
  shows "route_good (move_to t (RegDone (Inr a)) (s\<lparr>dir := D, regs := insert a (regs s)\<rparr>))"
proof -
  let ?C = "(callers s)(t := RegDone (Inr a))"
  from good have g: "shards_good (dir s) (regs s)" "flights_good (dir s) (callers s)" "refs_good (dir s) (callers s) (pins s) (regs s)"
    "numbers_good (dir s) (callers s)" by (simp_all add: route_good_def)
  have h: "a \<notin> regs s" "count (pins s) a = 0" "\<And>u. holds (callers s u) = Some a \<longleftrightarrow> u = t"
    using refs_holds [OF g(3), of t a] pc by auto
  from dir_insert_ok [OF g(1) h(1)] D have d: "shards_good D (insert a (regs s))" "same_elsewhere (key_in (dir s) a) (dir s) D" by auto
  then have e: "entry_at D = entry_at (dir s)" by (simp add: same_elsewhere_def)
  have "entry_ok (entry_at (dir s) a) (count (pins s) a) (a \<in> regs s) (\<exists>t. holds (callers s t) = Some a)" using g(3) unfolding refs_good_def by blast
  then have ok: "entry_ok (entry_at D a) (count (pins s) a) True False" using h e by (auto simp: entry_ok_def split: option.splits)
  have "flights_good D ?C" by (rule flights_good_pc [OF elsewhere_flights [OF d(2) g(2)]]) (auto split: if_splits)
  moreover have "numbers_good D ?C" by (rule numbers_good_pc [OF elsewhere_numbers [OF d(2) g(4)]]) (auto split: if_splits)
  moreover have "refs_good D ?C (pins s) (insert a (regs s))"
    by (rule refs_good_at [OF g(3), where a = a]) (use ok h e pc in \<open>auto split: if_splits\<close>)
  ultimately show ?thesis using d(1) by (simp add: route_good_def)
qed

text \<open>An attempt that did not enter the entry left the directory as it was.\<close>

lemma insert_same:
  assumes good: "route_good s" and pc: "callers s t = RegTry a" and D: "dir_insert a (dir s) = Inr (r, D)" and r: "r \<noteq> Done"
  shows "D = dir s"
proof -
  from good have g: "shards_good (dir s) (regs s)" "refs_good (dir s) (callers s) (pins s) (regs s)" by (simp_all add: route_good_def)
  have "a \<notin> regs s" using refs_holds [OF g(2), of t a] pc by simp
  from dir_insert_ok [OF g(1) this] D r show ?thesis by auto
qed

lemma good_supply:
  assumes good: "route_good s" and pc: "callers s t = RegNeed a b c" and p: "fresh_block p s"
  shows "route_good (move_to t (RegSupply a (if b then Some p else None) (if c \<noteq> 0 then Some (with_capacity c) else None))
        (in_dir (if b then (dir s)\<lparr>block_at := (block_at (dir s))(p := block_new)\<rparr> else dir s) s))"
    (is "route_good (move_to t ?pc (in_dir ?D s))")
proof -
  let ?C = "(callers s)(t := ?pc)"
  from good have g: "shards_good (dir s) (regs s)" "flights_good (dir s) (callers s)" "refs_good (dir s) (callers s) (pins s) (regs s)"
    "numbers_good (dir s) (callers s)" by (simp_all add: route_good_def)
  have p': "p \<noteq> 0" "\<And>i. i < SHARDS \<Longrightarrow> p \<notin> owned (shards (dir s) i)" "\<And>u. in_flight (callers s u) \<noteq> Some p"
    using p by (simp_all add: fresh_block_def)
  have "shards_good ?D (regs s)" by (rule shards_good_cong [OF g(1)]) (use p'(2) in auto)
  moreover have "refs_good ?D ?C (pins s) (regs s)"
    by (rule refs_good_pc [where C = "callers s"]) (use g(3) pc in \<open>auto simp: refs_good_def\<close>)
  moreover have "numbers_good ?D ?C"
    by (rule numbers_good_pc [where C = "callers s"], rule numbers_good_dir [OF g(4)]) (auto split: if_splits)
  moreover have "flights_good ?D ?C"
    unfolding flights_good_def
  proof (intro conjI allI impI)
    fix u q assume q: "in_flight (?C u) = Some q"
    have c: "(u = t \<and> b \<and> q = p) \<or> (u \<noteq> t \<and> in_flight (callers s u) = Some q)" using q by (auto split: if_splits)
    have old: "q \<noteq> 0 \<and> blk_ok (block_at (dir s) q) \<and> blk_list (block_at (dir s) q) = [] \<and> (\<forall>i < SHARDS. q \<notin> owned (shards (dir s) i))
        \<and> (\<forall>w. in_flight (callers s w) = Some q \<longrightarrow> w = u) \<and> q \<noteq> p" if "in_flight (callers s u) = Some q"
      using g(2) p'(3) that unfolding flights_good_def by metis
    show "q \<noteq> 0" "blk_ok (block_at ?D q)" "blk_list (block_at ?D q) = []"
      using c old p'(1) by auto
    show "q \<notin> owned (shards ?D i)" if "i < SHARDS" for i using c old p'(2) that by auto
    show "w = u" if w: "in_flight (?C w) = Some q" for w
    proof -
      have "(w = t \<and> b \<and> q = p) \<or> (w \<noteq> t \<and> in_flight (callers s w) = Some q)" using w by (auto split: if_splits)
      then show ?thesis using c old p'(3) by metis
    qed
  next
    fix u x y i assume "?C u = RegSupply x y (Some i)"
    then show "i = with_capacity (ix_cap i)" using g(2) unfolding flights_good_def by (auto simp: with_capacity_def split: if_splits)
  qed
  ultimately show ?thesis by (simp add: route_good_def)
qed

lemma good_install:
  assumes good: "route_good s" and pc: "callers s t = RegSupply a b x" and D: "dir_install a b x (dir s) = Inr D"
  shows "route_good (move_to t (RegTry a) (in_dir D s))"
proof -
  let ?C = "(callers s)(t := RegTry a)"
  from good have g: "shards_good (dir s) (regs s)" "flights_good (dir s) (callers s)" "refs_good (dir s) (callers s) (pins s) (regs s)"
    "numbers_good (dir s) (callers s)" by (simp_all add: route_good_def)
  have b: "p \<noteq> 0 \<and> blk_ok (block_at (dir s) p) \<and> blk_list (block_at (dir s) p) = [] \<and> (\<forall>i < SHARDS. p \<notin> owned (shards (dir s) i))"
    if "b = Some p" for p using g(2) pc that unfolding flights_good_def by (metis in_flight.simps(1))
  have x: "i = with_capacity (ix_cap i)" if "x = Some i" for i using g(2) pc that unfolding flights_good_def by blast
  from dir_install_ok [OF g(1) b x, where a = a] obtain D1 where D1: "dir_install a b x (dir s) = Inr D1"
    "shards_good D1 (regs s)" "entry_at D1 = entry_at (dir s)" "block_at D1 = block_at (dir s)" "next_incarnation D1 = next_incarnation (dir s)"
    "\<forall>j < SHARDS. owned (shards D1 j) \<subseteq> owned (shards (dir s) j) \<union> set_option b" by blast
  then have d: "shards_good D (regs s)" "entry_at D = entry_at (dir s)" "block_at D = block_at (dir s)"
    "next_incarnation D = next_incarnation (dir s)" "\<And>j. j < SHARDS \<Longrightarrow> owned (shards D j) \<subseteq> owned (shards (dir s) j) \<union> set_option b"
    using D by simp_all
  have "refs_good D ?C (pins s) (regs s)"
    by (rule refs_good_pc [where C = "callers s"]) (use g(3) pc d(2) in \<open>auto simp: refs_good_def\<close>)
  moreover have "numbers_good D ?C"
    by (rule numbers_good_pc [where C = "callers s"], rule numbers_good_dir [OF g(4)]) (use d in \<open>auto split: if_splits\<close>)
  moreover have "flights_good D ?C"
    unfolding flights_good_def
  proof (intro conjI allI impI)
    fix u q assume q: "in_flight (?C u) = Some q"
    then have u: "u \<noteq> t" "in_flight (callers s u) = Some q" by (auto split: if_splits)
    then have old: "q \<noteq> 0" "blk_ok (block_at (dir s) q)" "blk_list (block_at (dir s) q) = []" "\<And>i. i < SHARDS \<Longrightarrow> q \<notin> owned (shards (dir s) i)"
      "\<And>w. in_flight (callers s w) = Some q \<Longrightarrow> w = u" using g(2) unfolding flights_good_def by blast+
    have "b \<noteq> Some q" using old(5) [of t] pc u(1) by auto
    then show "q \<notin> owned (shards D i)" if "i < SHARDS" for i using d(5) [OF that] old(4) [OF that] by auto
    show "q \<noteq> 0" "blk_ok (block_at D q)" "blk_list (block_at D q) = []" using old d(3) by simp_all
    show "w = u" if "in_flight (?C w) = Some q" for w using old(5) [of w] that by (auto split: if_splits)
  next
    fix u y z i assume "?C u = RegSupply y z (Some i)"
    then show "i = with_capacity (ix_cap i)" using g(2) unfolding flights_good_def by (auto split: if_splits)
  qed
  ultimately show ?thesis using d(1) by (simp add: route_good_def)
qed

text \<open>The drop of a handle: of a pin, or of an entry that was never linked.\<close>

lemma drop_handle_ok:
  assumes e: "entry_at D a = Some e" "0 < en_refs e" and D: "drop_handle a D = Inr D'"
  shows "entry_at D' = (if en_refs e = 1 then (entry_at D)(a := None) else (entry_at D)(a \<mapsto> e\<lparr>en_refs := en_refs e - 1\<rparr>))"
    "shards D' = shards D" "block_at D' = block_at D" "next_incarnation D' = next_incarnation D"
  using assms by (auto simp: drop_handle_def deref_def set_entry_def split: if_splits)

lemma drop_handle_runs: "entry_at D a = Some e \<Longrightarrow> 0 < en_refs e \<Longrightarrow> \<exists>D'. drop_handle a D = Inr D'"
  by (simp add: drop_handle_def deref_def)

lemma good_drop:
  assumes g: "shards_good D R" "flights_good D C" "refs_good D C P R" "numbers_good D C"
    and e: "entry_at D a = Some e" "0 < en_refs e" and D: "drop_handle a D = Inr D'" and free: "en_refs e = 1 \<Longrightarrow> a \<notin> R"
  shows "shards_good D' R \<and> flights_good D' C \<and> numbers_good D' C"
proof (intro conjI)
  note d = drop_handle_ok [OF e D]
  show "shards_good D' R"
    by (rule shards_good_cong [OF g(1)]) (use d e(1) free in \<open>auto simp: key_in_def split: if_splits option.splits\<close>)
  show "flights_good D' C" by (rule flights_good_dir [OF g(2)]) (use d in auto)
  show "numbers_good D' C" by (rule numbers_good_dir [OF g(4)]) (use d e(1) in \<open>auto split: if_splits\<close>)
qed

lemma good_fail:
  assumes good: "route_good s" and pc: "callers s t = RegFailed a r" and D: "drop_handle a (dir s) = Inr D"
  shows "route_good (move_to t (RegDone (Inl r)) (in_dir D s))"
proof -
  let ?C = "(callers s)(t := RegDone (Inl r))"
  from good have g: "shards_good (dir s) (regs s)" "flights_good (dir s) (callers s)" "refs_good (dir s) (callers s) (pins s) (regs s)"
    "numbers_good (dir s) (callers s)" by (simp_all add: route_good_def)
  have h: "a \<notin> regs s" "count (pins s) a = 0" "\<And>u. holds (callers s u) = Some a \<longleftrightarrow> u = t"
    using refs_holds [OF g(3), of t a] pc by auto
  obtain e where e: "entry_at (dir s) a = Some e" "0 < en_refs e" "en_refs e = 1"
  proof -
    obtain e where "entry_at (dir s) a = Some e" "0 < en_refs e"
        "en_refs e = count (pins s) a + (if a \<in> regs s \<or> (\<exists>t. holds (callers s t) = Some a) then 1 else 0)"
      by (rule refs_entry [OF g(3), of a t]) (use pc in simp)+
    then show ?thesis using that h by simp
  qed
  note d = drop_handle_ok [OF e(1,2) D] and gd = good_drop [OF g e(1,2) D h(1)]
  have "flights_good D ?C" by (rule flights_good_pc [OF conjunct1 [OF conjunct2 [OF gd]]]) (auto split: if_splits)
  moreover have "numbers_good D ?C" by (rule numbers_good_pc [OF conjunct2 [OF conjunct2 [OF gd]]]) (auto split: if_splits)
  moreover have "refs_good D ?C (pins s) (regs s)"
    by (rule refs_good_at [OF g(3), where a = a]) (use h e(3) d(1) pc in \<open>auto simp: entry_ok_def split: if_splits\<close>)
  ultimately show ?thesis using gd by (simp add: route_good_def)
qed

text \<open>An entry whose count or link changes.\<close>

lemma good_set_entry:
  assumes g: "shards_good D R" "flights_good D C" "numbers_good D C" and e: "entry_at D a = Some e"
    and e': "en_key e' = en_key e" "en_incarnation e' = en_incarnation e" "en_payload e' = en_payload e"
  shows "shards_good (set_entry a e' D) R \<and> flights_good (set_entry a e' D) C \<and> numbers_good (set_entry a e' D) C"
proof (intro conjI)
  have k: "key_in (set_entry a e' D) = key_in D" by (rule key_in_set [OF e e'(1)])
  show "shards_good (set_entry a e' D) R" by (rule shards_good_cong [OF g(1)]) (simp_all add: k)
  show "flights_good (set_entry a e' D) C" by (rule flights_good_dir [OF g(2)]) simp_all
  show "numbers_good (set_entry a e' D) C" by (rule numbers_good_dir [OF g(3)]) (use e e' in \<open>auto split: if_splits\<close>)
qed

lemma route_goodD:
  assumes "route_good s"
  shows "shards_good (dir s) (regs s)" "flights_good (dir s) (callers s)" "refs_good (dir s) (callers s) (pins s) (regs s)"
    "numbers_good (dir s) (callers s)"
  using assms by (simp_all add: route_good_def)

lemma registered_entry:
  assumes "route_good s" and "a \<in> regs s"
  obtains e where "entry_at (dir s) a = Some e" "en_refs e = count (pins s) a + 1" "en_linked e" "\<And>t. holds (callers s t) \<noteq> Some a"
proof -
  obtain e where e: "entry_at (dir s) a = Some e" "en_refs e = count (pins s) a + (if a \<in> regs s \<or> (\<exists>t. holds (callers s t) = Some a) then 1 else 0)"
    "en_linked e \<longleftrightarrow> a \<in> regs s \<or> (\<exists>t. holds (callers s t) = Some a)" by (rule refs_entry [OF route_goodD(3) [OF assms(1)], of a]) (use assms(2) in simp)+
  have "holds (callers s t) \<noteq> Some a" for t using refs_holds [OF route_goodD(3) [OF assms(1)], of t a] assms(2) by blast
  then show ?thesis using e assms(2) that by simp
qed

lemma registered_refs:
  assumes "route_good s"
  shows "\<forall>a \<in> regs s. \<exists>e. entry_at (dir s) a = Some e \<and> en_refs e \<noteq> 0"
proof
  fix a assume "a \<in> regs s"
  with assms show "\<exists>e. entry_at (dir s) a = Some e \<and> en_refs e \<noteq> 0" by (rule registered_entry) simp
qed

lemma pinned_entry:
  assumes "route_good s" and "a \<in># pins s"
  obtains e where "entry_at (dir s) a = Some e" "en_refs e = count (pins s) a + (if a \<in> regs s then 1 else 0)" "en_linked e \<longleftrightarrow> a \<in> regs s"
    "\<And>t. holds (callers s t) \<noteq> Some a"
proof -
  obtain e where e: "entry_at (dir s) a = Some e" "en_refs e = count (pins s) a + (if a \<in> regs s \<or> (\<exists>t. holds (callers s t) = Some a) then 1 else 0)"
    "en_linked e \<longleftrightarrow> a \<in> regs s \<or> (\<exists>t. holds (callers s t) = Some a)" by (rule refs_entry [OF route_goodD(3) [OF assms(1)], of a]) (use assms(2) in simp)+
  have "holds (callers s t) \<noteq> Some a" for t using refs_holds [OF route_goodD(3) [OF assms(1)], of t a] assms(2) by (auto simp: count_eq_zero_iff)
  then show ?thesis using e that by simp
qed

lemma good_pin:
  assumes good: "route_good s" and D: "dir_lookup addr (dir s) = Inr (Some a, D)"
  shows "route_good (s\<lparr>dir := D, pins := add_mset a (pins s)\<rparr>)"
proof -
  note g = route_goodD [OF good]
  from dir_lookup_ok [OF g(1) registered_refs [OF good], of addr] D obtain e where a: "a \<in> regs s" "entry_at (dir s) a = Some e"
    "D = set_entry a (e\<lparr>en_refs := en_refs e + 1\<rparr>) (dir s)" by (auto split: if_splits)
  obtain f where "entry_at (dir s) a = Some f" "en_refs f = count (pins s) a + 1" "en_linked f" "\<And>t. holds (callers s t) \<noteq> Some a"
    by (rule registered_entry [OF good a(1)]) (rule that)
  then have e: "en_refs e = count (pins s) a + 1" "en_linked e" "\<And>t. holds (callers s t) \<noteq> Some a" using a(2) by auto
  have "refs_good D (callers s) (add_mset a (pins s)) (regs s)" unfolding a(3)
    by (rule refs_good_at [OF g(3), where a = a]) (use a(1) e in \<open>auto simp: entry_ok_def\<close>)
  then show ?thesis using good_set_entry [OF g(1,2,4) a(2), of "e\<lparr>en_refs := en_refs e + 1\<rparr>"] by (simp add: route_good_def a(3))
qed

lemma good_drop_pin:
  assumes good: "route_good s" and a: "a \<in># pins s" and D: "drop_handle a (dir s) = Inr D"
  shows "route_good (s\<lparr>dir := D, pins := pins s - {#a#}\<rparr>)"
proof -
  note g = route_goodD [OF good]
  obtain e where e: "entry_at (dir s) a = Some e" "en_refs e = count (pins s) a + (if a \<in> regs s then 1 else 0)" "en_linked e \<longleftrightarrow> a \<in> regs s"
    "\<And>t. holds (callers s t) \<noteq> Some a" using good a by (rule pinned_entry) (rule that)
  have c: "0 < count (pins s) a" using a by (simp add: count_greater_zero_iff)
  have pos: "0 < en_refs e" using c e(2) by simp
  have free: "en_refs e = 1 \<Longrightarrow> a \<notin> regs s" using a e(2) by (auto simp: count_eq_zero_iff split: if_splits)
  note d = drop_handle_ok [OF e(1) pos D]
  have "refs_good D (callers s) (pins s - {#a#}) (regs s)"
  proof (rule refs_good_at [OF g(3), where a = a])
    have "entry_ok (entry_at D a) (count (pins s) a - 1) (a \<in> regs s) False"
    proof (cases "en_refs e = 1")
      case True
      have "entry_at D a = None" using d(1) True by simp
      moreover have r: "a \<notin> regs s" by (rule free [OF True])
      moreover have "count (pins s) a = 1" using e(2) unfolding True if_not_P [OF r] by simp
      ultimately show ?thesis by (simp add: entry_ok_def)
    next
      case False
      then have "entry_at D a = Some (e\<lparr>en_refs := en_refs e - 1\<rparr>)" "1 < en_refs e" using d(1) pos by simp_all
      with e(2,3) c show ?thesis by (cases "a \<in> regs s") (simp_all add: entry_ok_def)
    qed
    then show "entry_ok (entry_at D a) (count (pins s - {#a#}) a) (a \<in> regs s) (\<exists>t. holds (callers s t) = Some a)" using e(4) by simp
  qed (use d(1) e(4) in simp_all)
  then show ?thesis using good_drop [OF g e(1) pos D free] by (simp add: route_good_def)
qed

lemma good_unregister:
  assumes good: "route_good s" and a: "a \<in> regs s" and D: "dir_remove a (dir s) = Inr D"
  shows "route_good (s\<lparr>dir := D, regs := regs s - {a}, pins := add_mset a (pins s)\<rparr>)"
proof -
  note g = route_goodD [OF good]
  obtain e where e: "entry_at (dir s) a = Some e" "en_refs e = count (pins s) a + 1" "en_linked e" "\<And>t. holds (callers s t) \<noteq> Some a"
    using good a by (rule registered_entry) (rule that)
  let ?e = "e\<lparr>en_linked := False\<rparr>"
  from dir_remove_ok [OF g(1) a e(1)] D obtain D1 where d: "D = set_entry a ?e D1" "shards_good D1 (regs s - {a})" "same_elsewhere (en_key e) (dir s) D1" by auto
  have ea: "entry_at D1 = entry_at (dir s)" using d(3) by (simp add: same_elsewhere_def)
  have "refs_good D (callers s) (add_mset a (pins s)) (regs s - {a})" unfolding d(1)
    by (rule refs_good_at [OF g(3), where a = a]) (use a e ea in \<open>auto simp: entry_ok_def\<close>)
  moreover have "entry_at D1 a = Some e" using ea e(1) by simp
  from good_set_entry [OF d(2) elsewhere_flights [OF d(3) g(2)] elsewhere_numbers [OF d(3) g(4)] this, of ?e]
  have "shards_good D (regs s - {a}) \<and> flights_good D (callers s) \<and> numbers_good D (callers s)" by (simp add: d(1))
  ultimately show ?thesis by (simp add: route_good_def)
qed

lemma route_step_good:
  assumes good: "route_good s" and step: "route_step page s s'"
  shows "route_good s'"
  using step
proof cases
  case (reg_number t root len route_ptr rk e owner)
  then show ?thesis using good_number [OF good reg_number(2)] good_pc [OF good, of "RegDone (Inl IncarnationExhausted)" t] by simp
next
  case (reg_duplicate t a D)
  then have "D = dir s" using insert_same [OF good] by blast
  then show ?thesis using reg_duplicate good_pc [OF good, of "RegFailed a DuplicateRoute" t] by (simp add: move_to_def)
next
  case (reg_need t a blk cap D)
  then have "D = dir s" using insert_same [OF good] by blast
  then show ?thesis using reg_need good_pc [OF good, of "RegNeed a blk cap" t] by (simp add: move_to_def)
next
  case (reg_exiting t a blk index)
  then show ?thesis using good_pc [OF good, of "RegFailed a ProcessExiting" t] by auto
qed (use good_pc [OF good] good_entry [OF good] good_done [OF good] good_supply [OF good] good_install [OF good] good_fail [OF good]
    good_pin [OF good] good_drop_pin [OF good] good_unregister [OF good] in \<open>simp_all\<close>)

lemma route_start_good:
  assumes "route_start s"
  shows "route_good s"
proof -
  have d: "dir s = directory_new" "callers s = (\<lambda>_. RegIdle)" "pins s = {#}" "regs s = {}" using assms by (simp_all add: route_start_def)
  have "shards_good directory_new {}" unfolding shards_good_def
    by (auto simp: directory_new_def lists_ok_def intro!: exI [of _ "[]"])
  then show ?thesis by (simp add: route_good_def d flights_good_def refs_good_def numbers_good_def numbered_def directory_new_def entry_ok_def)
qed

interpretation route_life: transition_system route_start "route_step page" route_good
  by unfold_locales (rule route_start_good route_step_good; assumption)+

subsection \<open>A registration left alone\<close>

lemma four_steps: "r a b \<Longrightarrow> r b c \<Longrightarrow> r c d \<Longrightarrow> r d e \<Longrightarrow> (r ^^ 4) a e" for r :: "'s \<Rightarrow> 's \<Rightarrow> bool"
  by (auto simp: numeral_eq_Suc relcompp.simps)

lemma register_alone:
  assumes good: "route_good s" and pc: "callers s t = RegTry a" and p: "fresh_block p s"
    and cap: "ix_cap (sh_index (shard_of (key_in (dir s) a) (dir s))) < 2 ^ 64 - 1"
  shows "\<exists>n \<le> 4. \<exists>s'. (route_step page ^^ n) s s' \<and> pins s' = pins s \<and> (\<forall>u. u \<noteq> t \<longrightarrow> callers s' u = callers s u)
    \<and> entry_at (dir s') = entry_at (dir s)
    \<and> (if \<exists>b \<in> regs s. key_in (dir s) b = key_in (dir s) a
       then callers s' t = RegFailed a DuplicateRoute \<and> regs s' = regs s else callers s' t = RegDone (Inr a) \<and> regs s' = insert a (regs s))"
proof -
  let ?k = "key_in (dir s) a"
  note g = route_goodD [OF good]
  have a: "a \<notin> regs s" using refs_holds [OF g(3), of t a] pc by simp
  from dir_insert_ok [OF g(1) a] consider
      (dup) "\<exists>b \<in> regs s. key_in (dir s) b = ?k" "dir_insert a (dir s) = Inr (Duplicate, dir s)"
    | (need) "\<forall>b \<in> regs s. key_in (dir s) b \<noteq> ?k"
        "dir_insert a (dir s) = Inr (Need (sh_spare (shard_of ?k (dir s)) = 0) (wanted_cap (sh_index (shard_of ?k (dir s)))), dir s)"
    | (entered) D where "\<forall>b \<in> regs s. key_in (dir s) b \<noteq> ?k" "dir_insert a (dir s) = Inr (Done, D)" "same_elsewhere ?k (dir s) D" by blast
  then show ?thesis
  proof cases
    case dup
    from reg_duplicate [OF pc dup(2), of page] show ?thesis
      using dup(1) by (intro exI [of _ 1] exI [of _ "move_to t (RegFailed a DuplicateRoute) (in_dir (dir s) s)"]) auto
  next
    case entered
    from reg_done [OF pc entered(2), of page] show ?thesis
      using entered(1,3) by (intro exI [of _ 1] exI [of _ "move_to t (RegDone (Inr a)) (s\<lparr>dir := D, regs := insert a (regs s)\<rparr>)"]) (auto simp: same_elsewhere_def)
  next
    case need
    let ?sh = "shard_of ?k (dir s)"
    define b where "b = (sh_spare ?sh = 0)"
    define c where "c = wanted_cap (sh_index ?sh)"
    define x where "x = (if c \<noteq> 0 then Some (with_capacity c) else None)"
    define q where "q = (if b then Some p else None)"
    define D2 where "D2 = (if b then (dir s)\<lparr>block_at := (block_at (dir s))(p := block_new)\<rparr> else dir s)"
    let ?s1 = "move_to t (RegNeed a b c) (in_dir (dir s) s)"
    have 1: "route_step page s ?s1" by (rule reg_need [OF pc]) (simp add: need(2) b_def c_def)
    have p1: "fresh_block p ?s1" using p by (auto simp: fresh_block_def)
    let ?s2 = "move_to t (RegSupply a q x) (in_dir D2 ?s1)"
    have 2: "route_step page ?s1 ?s2" 
    proof -
      have c1: "callers ?s1 t = RegNeed a b c" and d1: "dir ?s1 = dir s" by simp_all
      show ?thesis unfolding q_def x_def D2_def using reg_supply [OF c1 p1, of page] unfolding d1 .
    qed
    have g2: "route_good ?s2" using route_step_good [OF route_step_good [OF good 1] 2] .
    have d2: "shards D2 = shards (dir s)" "entry_at D2 = entry_at (dir s)" by (simp_all add: D2_def)
    have k2: "key_in D2 = key_in (dir s)" "shard_of ?k D2 = ?sh" using d2 by (simp_all add: key_in_def shard_of_def fun_eq_iff)
    have b2: "r \<noteq> 0 \<and> blk_ok (block_at D2 r) \<and> blk_list (block_at D2 r) = [] \<and> (\<forall>i < SHARDS. r \<notin> owned (shards D2 i))"
      if "q = Some r" for r
      using that p by (auto simp: fresh_block_def q_def D2_def split: if_splits)
    have x2: "i = with_capacity (ix_cap i)" if "x = Some i" for i using that by (auto simp: x_def with_capacity_def split: if_splits)
    have sg2: "shards_good D2 (regs s)" using route_goodD(1) [OF g2] by simp
    from dir_install_ok [OF sg2 b2 x2, where a = a] obtain D3 where
      d3: "dir_install a q x D2 = Inr D3" "shards_good D3 (regs s)" "key_in D3 = key_in D2" "entry_at D3 = entry_at D2"
        "\<And>sh. sh = shard_of (key_in D2 a) D2 \<Longrightarrow> (sh_spare sh \<noteq> 0 \<or> q \<noteq> None \<longrightarrow> sh_spare (shard_of (key_in D2 a) D3) \<noteq> 0)
          \<and> (wanted_cap (sh_index sh) = 0 \<or> (\<exists>i. x = Some i \<and> ix_cap (sh_index sh) < ix_cap i) \<longrightarrow> wanted_cap (sh_index (shard_of (key_in D2 a) D3)) = 0)" by blast
    let ?s3 = "move_to t (RegTry a) (in_dir D3 ?s2)"
    have 3: "route_step page ?s2 ?s3" by (rule reg_install [where blk = q and index = x]) (simp_all add: d3(1))
    have "c \<noteq> 0 \<Longrightarrow> ix_cap (sh_index ?sh) < c" using cap by (auto simp: c_def wanted_cap_def)
    then have w: "wanted_cap (sh_index ?sh) = 0 \<or> (\<exists>i. x = Some i \<and> ix_cap (sh_index ?sh) < ix_cap i)" by (auto simp: x_def with_capacity_def c_def)
    have b: "sh_spare ?sh \<noteq> 0 \<or> q \<noteq> None" by (simp add: q_def b_def)
    note d5 = d3(5) [OF refl, unfolded k2]
    have n1: "sh_spare (shard_of ?k D3) \<noteq> 0" by (rule mp [OF conjunct1 [OF d5] b])
    have n2: "wanted_cap (sh_index (shard_of ?k D3)) = 0" by (rule mp [OF conjunct2 [OF d5] w])
    have "\<not> needs (shard_of ?k D3)" by (simp add: needs_def n1 n2)
    then obtain D4 where d4: "dir_insert a D3 = Inr (Done, D4)" "same_elsewhere ?k D3 D4"
      using dir_insert_ok [OF d3(2) a] need(1) unfolding d3(3) k2 by blast
    let ?s4 = "move_to t (RegDone (Inr a)) (?s3\<lparr>dir := D4, regs := insert a (regs ?s3)\<rparr>)"
    have 4: "route_step page ?s3 ?s4" by (rule reg_done) (use d4(1) in simp_all)
    from four_steps [of "route_step page", OF 1 2 3 4] have run: "(route_step page ^^ 4) s ?s4" .
    have "entry_at D4 = entry_at (dir s)" using d4(2) d3(4) d2(2) by (simp add: same_elsewhere_def)
    then have "pins ?s4 = pins s \<and> (\<forall>u. u \<noteq> t \<longrightarrow> callers ?s4 u = callers s u) \<and> entry_at (dir ?s4) = entry_at (dir s)
      \<and> callers ?s4 t = RegDone (Inr a) \<and> regs ?s4 = insert a (regs s)" by simp
    moreover have "\<not> (\<exists>b \<in> regs s. key_in (dir s) b = ?k)" using need(1) by blast
    ultimately show ?thesis using run by (metis order_refl)
  qed
qed

text \<open>The blocks of a dense sequence hold sixteen entries on average.\<close>

lemma dense_count: "dense L \<Longrightarrow> 33 * (length L div 2) \<le> length (concat L)"
proof (induction L rule: induct_list012)
  case (3 x y zs)
  then have "dense zs" "32 < length x + length y" by (auto simp: dense_Cons)
  then show ?case using 3(1) by simp
qed simp_all

subsection \<open>Properties\<close>

text \<open>C31: A lookup is exact: it answers with the registered entry of the address's segment when the address lies in
  its span (for a large route: is its payload), pinned by one more reference, and with nothing otherwise.\<close>

theorem route_lookup_exact:
  assumes "reachable route_start (route_step page) s" and "dir_lookup addr (dir s) = Inr (r, D)"
  shows "(r = Some a \<longleftrightarrow> a \<in> regs s \<and> (\<exists>e. entry_at (dir s) a = Some e \<and> en_key e = segment_base_of addr \<and> span_contains_addr e addr))
    \<and> D = (case r of None \<Rightarrow> dir s | Some a \<Rightarrow> set_entry a ((the (entry_at (dir s) a))\<lparr>en_refs := en_refs (the (entry_at (dir s) a)) + 1\<rparr>) (dir s))"
proof -
  have good: "route_good s" by (rule route_life.reachable_good [OF assms(1)])
  note ok = dir_lookup_ok [OF route_goodD(1) [OF good] registered_refs [OF good], of addr]
  have one: "b = c" if "b \<in> regs s" "c \<in> regs s" "entry_at (dir s) b = Some e" "entry_at (dir s) c = Some f" "en_key e = en_key f" for b c e f
    using keys_distinct [OF route_goodD(1) [OF good] that(1,2)] that(3-5) by (simp add: key_in_def)
  from ok show "(r = Some a \<longleftrightarrow> a \<in> regs s \<and> (\<exists>e. entry_at (dir s) a = Some e \<and> en_key e = segment_base_of addr \<and> span_contains_addr e addr))
    \<and> D = (case r of None \<Rightarrow> dir s | Some a \<Rightarrow> set_entry a ((the (entry_at (dir s) a))\<lparr>en_refs := en_refs (the (entry_at (dir s) a)) + 1\<rparr>) (dir s))"
  proof (elim disjE exE conjE)
    fix b e assume b: "b \<in> regs s" "en_key e = segment_base_of addr" "entry_at (dir s) b = Some e" "span_contains_addr e addr"
      "dir_lookup addr (dir s) = (if en_refs e = usize_max then Inl ''directory: pin reference count overflow''
          else Inr (Some b, set_entry b (e\<lparr>en_refs := en_refs e + 1\<rparr>) (dir s)))"
    have r: "r = Some b" "D = set_entry b (e\<lparr>en_refs := en_refs e + 1\<rparr>) (dir s)" using b(5) assms(2) by (simp_all split: if_splits)
    have "a = b" if "a \<in> regs s" "entry_at (dir s) a = Some f" "en_key f = segment_base_of addr" for f
      using one [OF that(1) b(1) that(2) b(3)] that(3) b(2) by simp
    then show ?thesis using r b(1-4) by auto
  next
    assume none: "\<forall>b \<in> regs s. \<forall>e. entry_at (dir s) b = Some e \<longrightarrow> en_key e = segment_base_of addr \<longrightarrow> \<not> span_contains_addr e addr"
      and "dir_lookup addr (dir s) = Inr (None, dir s)"
    then have "r = None" "D = dir s" using assms(2) by simp_all
    then show ?thesis using none by auto
  qed
qed

text \<open>C32: No handle outlives its entry and no entry its handles: an entry is allocated exactly while a registration,
  a call under way or a pin refers to it, its count is their number, its link flag is cleared exactly when it is
  unlinked, and no two have the same incarnation.\<close>

theorem route_handles_exact:
  assumes "reachable route_start (route_step page) s"
  shows "case entry_at (dir s) a of
      None \<Rightarrow> a \<notin> regs s \<and> a \<notin># pins s \<and> (\<forall>t. holds (callers s t) \<noteq> Some a)
    | Some e \<Rightarrow> 0 < en_refs e \<and> en_refs e = count (pins s) a + (if a \<in> regs s \<or> (\<exists>t. holds (callers s t) = Some a) then 1 else 0)
        \<and> (en_linked e \<longleftrightarrow> a \<in> regs s \<or> (\<exists>t. holds (callers s t) = Some a))
        \<and> (\<forall>b f. entry_at (dir s) b = Some f \<longrightarrow> en_incarnation f = en_incarnation e \<longrightarrow> b = a)"
proof -
  note g = route_goodD [OF route_life.reachable_good [OF assms]]
  have "entry_ok (entry_at (dir s) a) (count (pins s) a) (a \<in> regs s) (\<exists>t. holds (callers s t) = Some a)" using g(3) unfolding refs_good_def by blast
  note ok = this [unfolded entry_ok_def]
  show ?thesis
  proof (cases "entry_at (dir s) a")
    case None
    then show ?thesis using ok by (simp add: count_eq_zero_iff)
  next
    case (Some e)
    have "\<forall>b f. entry_at (dir s) b = Some f \<longrightarrow> en_incarnation f = en_incarnation e \<longrightarrow> b = a"
      using numbers_entry(2) [OF g(4) Some] by blast
    then show ?thesis using ok unfolding Some option.case by blast
  qed
qed

text \<open>C33: No fatal branch is reached: dropping, unlinking, inserting and supplying never abort, nor does a lookup
  short of 2 ^ 64 - 1 handles on one entry (no pin on an entry whose last handle is gone, no underflow, no
  mismatch between key and entry, no precondition of the blocks violated).\<close>

theorem route_no_abort:
  assumes "reachable route_start (route_step page) s"
  shows "(\<forall>a \<in> regs s. \<exists>D. dir_remove a (dir s) = Inr D) \<and> (\<forall>a \<in># pins s. \<exists>D. drop_handle a (dir s) = Inr D)
    \<and> (\<forall>t a e. callers s t = RegFailed a e \<longrightarrow> (\<exists>D. drop_handle a (dir s) = Inr D))
    \<and> (\<forall>t a. callers s t = RegTry a \<longrightarrow> (\<exists>r. dir_insert a (dir s) = Inr r))
    \<and> (\<forall>t a b x. callers s t = RegSupply a b x \<longrightarrow> (\<exists>D. dir_install a b x (dir s) = Inr D))
    \<and> (\<forall>addr. (\<exists>r. dir_lookup addr (dir s) = Inr r) \<or> (\<exists>a \<in> regs s. \<exists>e. entry_at (dir s) a = Some e \<and> en_refs e = usize_max))"
proof (intro conjI ballI allI impI)
  have good: "route_good s" by (rule route_life.reachable_good [OF assms])
  note g = route_goodD [OF good]
  show "\<exists>D. dir_remove a (dir s) = Inr D" if "a \<in> regs s" for a
    by (rule registered_entry [OF good that]) (use dir_remove_ok [OF g(1) that] in blast)
  show "\<exists>D. drop_handle a (dir s) = Inr D" if "a \<in># pins s" for a
    by (rule refs_entry [OF g(3), of a]) (use that drop_handle_runs in blast)+
  show "\<exists>D. drop_handle a (dir s) = Inr D" if "callers s t = RegFailed a e" for t a e
    by (rule refs_entry [OF g(3), of a t]) (use that drop_handle_runs in auto)
  show "\<exists>r. dir_insert a (dir s) = Inr r" if "callers s t = RegTry a" for t a
  proof -
    have "a \<notin> regs s" using refs_holds [OF g(3), of t a] that by simp
    from dir_insert_ok [OF g(1) this] show ?thesis by blast
  qed
  show "\<exists>D. dir_install a b x (dir s) = Inr D" if "callers s t = RegSupply a b x" for t a b x
  proof -
    have b: "p \<noteq> 0 \<and> blk_ok (block_at (dir s) p) \<and> blk_list (block_at (dir s) p) = [] \<and> (\<forall>i < SHARDS. p \<notin> owned (shards (dir s) i))"
      if "b = Some p" for p using g(2) \<open>callers s t = RegSupply a b x\<close> that unfolding flights_good_def by (metis in_flight.simps(1))
    have x: "i = with_capacity (ix_cap i)" if "x = Some i" for i
      using g(2) \<open>callers s t = RegSupply a b x\<close> that unfolding flights_good_def by blast
    from dir_install_ok [OF g(1) b x] show ?thesis by blast
  qed
  show "(\<exists>r. dir_lookup addr (dir s) = Inr r) \<or> (\<exists>a \<in> regs s. \<exists>e. entry_at (dir s) a = Some e \<and> en_refs e = usize_max)" for addr
    using dir_lookup_ok [OF g(1) registered_refs [OF good], of addr] by (auto split: if_splits)
qed

text \<open>A registration left alone returns: with memory for a block and an index it ends within four steps, with its
  entry registered unless its key is taken, and with the error of a duplicate if it is.\<close>

theorem route_register_returns:
  assumes "reachable route_start (route_step page) s" and "callers s t = RegTry a" and "fresh_block p s"
    and "ix_cap (sh_index (shard_of (key_in (dir s) a) (dir s))) < 2 ^ 64 - 1"
  shows "\<exists>n \<le> 4. \<exists>s'. (route_step page ^^ n) s s' \<and> pins s' = pins s \<and> (\<forall>u. u \<noteq> t \<longrightarrow> callers s' u = callers s u)
    \<and> (if \<exists>b \<in> regs s. key_in (dir s) b = key_in (dir s) a
       then callers s' t = RegFailed a DuplicateRoute \<and> regs s' = regs s else callers s' t = RegDone (Inr a) \<and> regs s' = insert a (regs s))"
  using register_alone [OF route_life.reachable_good [OF assms(1)] assms(2-4)] by blast

text \<open>C34: The blocks of a shard do not thin out, whatever was registered and unlinked before: each holds
  1 to 64 entries, two neighbouring blocks hold together more than 32 (else they would have been merged),
  and so a shard with \<open>n\<close> entries has at most \<open>1 + 2 * (n div 33)\<close> blocks.\<close>

theorem route_blocks_bound:
  assumes "reachable route_start (route_step page) s" and "i < SHARDS"
  shows "ix_len (sh_index (shards (dir s) i)) \<le> 1 + 2 * (card {a \<in> regs s. shard_index (key_in (dir s) a) = i} div 33)
    \<and> (\<forall>p \<in> set (ix_list (sh_index (shards (dir s) i))). 0 < blk_len (block_at (dir s) p) \<and> blk_len (block_at (dir s) p) \<le> 64)
    \<and> (\<forall>j. Suc j < ix_len (sh_index (shards (dir s) i)) \<longrightarrow>
         BLOCK_HALF < blk_len (block_at (dir s) (ix_list (sh_index (shards (dir s) i)) ! j))
           + blk_len (block_at (dir s) (ix_list (sh_index (shards (dir s) i)) ! Suc j)))"
proof -
  have good: "shards_good (dir s) (regs s)" using route_goodD(1) [OF route_life.reachable_good [OF assms(1)]] .
  obtain L where L: "shard_rep (shards (dir s) i) (block_at (dir s)) L" "lists_ok (key_in (dir s)) L"
    "set (concat L) = {a \<in> regs s. shard_index (key_in (dir s) a) = i}" using good assms(2) by (rule shards_good_at)
  have "distinct (map (key_in (dir s)) (concat L))" using L(2) by (simp add: lists_ok_def by_key_def strict_sorted_iff)
  then have "card (set (concat L)) = length (concat L)" by (simp add: distinct_map distinct_card del: set_concat)
  moreover have "33 * (length L div 2) \<le> length (concat L)" using L(2) dense_count by (simp add: lists_ok_def)
  ultimately have "length L div 2 \<le> card {a \<in> regs s. shard_index (key_in (dir s) a) = i} div 33"
    unfolding L(3) [symmetric] by (simp add: less_eq_div_iff_mult_less_eq mult.commute del: set_concat)
  then have "ix_len (sh_index (shards (dir s) i)) \<le> 1 + 2 * (card {a \<in> regs s. shard_index (key_in (dir s) a) = i} div 33)"
    using rep_len [OF L(1)] by linarith
  moreover have "0 < blk_len (block_at (dir s) p) \<and> blk_len (block_at (dir s) p) \<le> 64" if "p \<in> set (ix_list (sh_index (shards (dir s) i)))" for p
  proof -
    have "blk_ok (block_at (dir s) p)" "blk_list (block_at (dir s) p) \<in> set L" using L(1) that by (auto simp: shard_rep_def)
    moreover have "blk_list (block_at (dir s) p) \<noteq> []" using calculation(2) L(2) by (auto simp: lists_ok_def)
    ultimately show ?thesis by (auto simp: blk_ok_def blk_list_def)
  qed
  moreover have "BLOCK_HALF < blk_len (block_at (dir s) (ix_list (sh_index (shards (dir s) i)) ! j))
      + blk_len (block_at (dir s) (ix_list (sh_index (shards (dir s) i)) ! Suc j))" if j: "Suc j < ix_len (sh_index (shards (dir s) i))" for j
  proof -
    have l: "Suc j < length L" using j rep_len [OF L(1)] by simp
    then have "32 < length (L ! j) + length (L ! Suc j)"
      using L(2) successively_nth [of "\<lambda>a b. 32 < length a + length b" L j] by (simp add: lists_ok_def dense_def)
    moreover have "blk_len (block_at (dir s) (ix_list (sh_index (shards (dir s) i)) ! k)) = length (L ! k)" if "k < length L" for k
      using rep_block [OF L(1) that] by auto
    ultimately show ?thesis using l by simp
  qed
  ultimately show ?thesis by blast
qed

subsection \<open>A sample run\<close>

text \<open>Caller 1 registers the segment at 4 MiB with the entry 5.\<close>

abbreviation sample_entry :: route_entry where
  "sample_entry \<equiv> entry_new 4194304 4194304 8388608 4194304 0 RouteSmall 1"

lemma reachable_steps: "(step ^^ n) s s' \<Longrightarrow> reachable start step s \<Longrightarrow> reachable start step s'" for step :: "'s \<Rightarrow> 's \<Rightarrow> bool"
  by (induction n arbitrary: s') (auto intro: reach_step)

lemma sample_base: "segment_base_of 4194304 = 4194304" "segment_base_of 4194320 = 4194304" "shard_index 4194304 = 1"
  by (simp_all add: segment_base_of_def SEGMENT_def shard_index_def SHARDS_def)

lemma route_sample:
  "\<exists>s. reachable route_start (route_step 4096) s \<and> callers s 1 = RegTry 5 \<and> regs s = {} \<and> pins s = {#} \<and> (\<forall>t. t \<noteq> 1 \<longrightarrow> callers s t = RegIdle)
    \<and> shards (dir s) = (\<lambda>_. shard_empty) \<and> entry_at (dir s) 5 = Some sample_entry"
proof -
  let ?R = "reachable route_start (route_step 4096)"
  let ?s0 = "\<lparr>dir = directory_new, callers = \<lambda>_. RegIdle, pins = {#}, regs = {}\<rparr>"
  have "?R ?s0" by (rule reach_start) (simp add: route_start_def)
  moreover have "check_span 4096 4194304 SEGMENT 4194304 RouteSmall = Inr 8388608"
    by (simp add: check_span_def SEGMENT_def)
  from reg_number [OF _ this, of ?s0 1 0]
  have "route_step 4096 ?s0 (move_to 1 (RegNumbered sample_entry) (in_dir (directory_new\<lparr>next_incarnation := 1\<rparr>) ?s0))"
    by (simp add: directory_new_def sample_base)
  ultimately have r1: "?R (move_to 1 (RegNumbered sample_entry) (in_dir (directory_new\<lparr>next_incarnation := 1\<rparr>) ?s0))" (is "reachable _ _ ?s1")
    by (rule reach_step)
  have "route_step 4096 ?s1 (move_to 1 (RegTry 5) (in_dir (set_entry 5 sample_entry (dir ?s1)) ?s1))"
    by (rule reg_entry) (simp_all add: directory_new_def)
  with r1 have r2: "?R (move_to 1 (RegTry 5) (in_dir (set_entry 5 sample_entry (dir ?s1)) ?s1))" (is "reachable _ _ ?s2") by (rule reach_step)
  then show ?thesis by (intro exI [of _ ?s2]) (simp add: directory_new_def)
qed

lemma sample_free:
  assumes "shards (dir s) = (\<lambda>_. shard_empty)" and "callers s 1 = RegTry 5" and "\<forall>t. t \<noteq> 1 \<longrightarrow> callers s t = RegIdle"
  shows "fresh_block 9 s" "ix_cap (sh_index (shard_of k (dir s))) < 2 ^ 64 - 1"
proof -
  have "in_flight (callers s t) = None" for t using assms(2,3) by (cases "t = 1") simp_all
  then show "fresh_block 9 s" using assms(1) by (simp add: fresh_block_def)
  show "ix_cap (sh_index (shard_of k (dir s))) < 2 ^ 64 - 1" using assms(1) by (simp add: shard_of_def shard_empty_def index_empty_def)
qed

lemma route_sample_registered:
  "\<exists>s. reachable route_start (route_step 4096) s \<and> regs s = {5} \<and> pins s = {#} \<and> entry_at (dir s) 5 = Some sample_entry"
proof -
  obtain s where s: "reachable route_start (route_step 4096) s" "callers s 1 = RegTry 5" "regs s = {}" "pins s = {#}"
    "\<forall>t. t \<noteq> 1 \<longrightarrow> callers s t = RegIdle" "shards (dir s) = (\<lambda>_. shard_empty)" "entry_at (dir s) 5 = Some sample_entry"
    using route_sample by blast
  have good: "route_good s" by (rule route_life.reachable_good [OF s(1)])
  from register_alone [OF good s(2) sample_free [OF s(6,2,5)], of 4096] obtain n s' where
    "(route_step 4096 ^^ n) s s'" "pins s' = pins s" "entry_at (dir s') = entry_at (dir s)" "regs s' = insert 5 (regs s)"
    using s(3) by auto
  then show ?thesis using reachable_steps s by (intro exI [of _ s']) auto
qed

lemma sample_span: "span_contains_addr sample_entry 4194320" "en_key sample_entry = 4194304" "en_refs sample_entry = 1"
  by (simp_all add: span_contains_addr_def entry_new_def)

lemma route_lookup_exact_witness: "\<exists>(s :: route_system) D. regs s = {5} \<and> dir_lookup 4194320 (dir s) = Inr (Some 5, D)"
proof -
  obtain s where s: "reachable route_start (route_step 4096) s" "regs s = {5}" "entry_at (dir s) 5 = Some sample_entry"
    using route_sample_registered by blast
  have good: "route_good s" by (rule route_life.reachable_good [OF s(1)])
  have "en_refs sample_entry \<noteq> usize_max" by (simp add: entry_new_def)
  then obtain r D where rD: "dir_lookup 4194320 (dir s) = Inr (r, D)"
    using dir_lookup_ok [OF route_goodD(1) [OF good] registered_refs [OF good], of 4194320] s(2,3) by auto
  from route_lookup_exact [OF s(1) rD, of 5] have "r = Some 5" using s(2,3) sample_span sample_base(2) by simp
  then show ?thesis using rD s(2) by blast
qed

lemma route_handles_exact_witness: "\<exists>(s :: route_system) e. regs s = {5} \<and> entry_at (dir s) 5 = Some e \<and> en_refs e = count (pins s) 5 + 1"
proof -
  obtain s where s: "reachable route_start (route_step 4096) s" "regs s = {5}" "entry_at (dir s) 5 = Some sample_entry"
    using route_sample_registered by blast
  have "5 \<in> regs s \<or> (\<exists>t. holds (callers s t) = Some 5)" using s(2) by simp
  from route_handles_exact [OF s(1), of 5, unfolded s(3) option.case if_P [OF this]]
  have "en_refs sample_entry = count (pins s) 5 + 1" by (elim conjE)
  then show ?thesis using s(2,3) by blast
qed

lemma route_no_abort_witness: "\<exists>(s :: route_system) D. regs s = {5} \<and> dir_remove 5 (dir s) = Inr D"
proof -
  obtain s where s: "reachable route_start (route_step 4096) s" "regs s = {5}" using route_sample_registered by blast
  from route_no_abort [OF s(1)] show ?thesis using s(2) by blast
qed

lemma route_register_returns_witness: "\<exists>(s :: route_system) n (s' :: route_system). n \<le> 4 \<and> (route_step 4096 ^^ n) s s' \<and> callers s 1 = RegTry 5 \<and> callers s' 1 = RegDone (Inr 5)"
proof -
  obtain s where s: "reachable route_start (route_step 4096) s" "callers s 1 = RegTry 5" "regs s = {}"
    "\<forall>t. t \<noteq> 1 \<longrightarrow> callers s t = RegIdle" "shards (dir s) = (\<lambda>_. shard_empty)" using route_sample by blast
  from route_register_returns [OF s(1,2) sample_free [OF s(5,2,4)]] obtain n s' where
    "n \<le> 4" "(route_step 4096 ^^ n) s s'" "callers s' 1 = RegDone (Inr 5)" using s(3) by auto
  then show ?thesis using s(2) by blast
qed

lemma route_blocks_bound_witness: "\<exists>s :: route_system. regs s = {5} \<and> ix_len (sh_index (shards (dir s) 1)) \<le> 1"
proof -
  obtain s where s: "reachable route_start (route_step 4096) s" "regs s = {5}" using route_sample_registered by blast
  have "card {a \<in> regs s. shard_index (key_in (dir s) a) = 1} \<le> card {5 :: nat}" by (rule card_mono) (use s(2) in auto)
  then have "card {a \<in> regs s. shard_index (key_in (dir s) a) = 1} div 33 = 0" by simp
  moreover have "1 < SHARDS" by (simp add: SHARDS_def)
  note route_blocks_bound [OF s(1) this]
  then have "ix_len (sh_index (shards (dir s) 1)) \<le> 1 + 2 * (card {a \<in> regs s. shard_index (key_in (dir s) a) = 1} div 33)" by (rule conjunct1)
  ultimately have "ix_len (sh_index (shards (dir s) 1)) \<le> 1" by (simp only: mult_0_right add_0_right)
  then show ?thesis using s(2) by blast
qed

end
