(* ===== verification/Sidecar.thy ===== *)
theory Sidecar
  imports SmallBlocks BitLoops
begin

text \<open>
  The sidecar of a small route (\<open>src/alloc_core/segment/remote_bitmap/*\<close>,
  \<open>src/registry/segment_route/small_sidecar.rs\<close>): one pending bit per granule, set by the thread that
  frees a block remotely and cut by the owner of the segment, and the class codes of the issued blocks
  in leaves of 256 granules, carved from chunks of 16 leaves on demand; and the owner's retirement of
  one record (\<open>alloc_core_small_reclaim.rs\<close>).
\<close>

subsection \<open>Class codes in leaves\<close>

definition LEAF_GRANULES :: nat where "LEAF_GRANULES = 256"
definition LEAVES :: nat where "LEAVES = 1024"
definition PRESENT_WORDS :: nat where "PRESENT_WORDS = LEAVES div 64"
definition CHUNK_LEAVES :: nat where "CHUNK_LEAVES = 16"
definition CHUNK_BYTES :: nat where "CHUNK_BYTES = CHUNK_LEAVES * LEAF_GRANULES"
definition CHUNKS :: nat where "CHUNKS = LEAVES div CHUNK_LEAVES"

text \<open>\<open>leaf_mem\<close> is the memory of the chunks, by address; a pointer is an address, 0 the null pointer.\<close>

record class_leaves =
  mixed :: "nat list"
  present :: "u64 list"
  chunk_ptrs :: "nat list"
  promoted :: nat
  leaf_mem :: "nat \<Rightarrow> nat"

definition leaves_init :: "(nat \<Rightarrow> nat) \<Rightarrow> class_leaves" where
  "leaves_init m = \<lparr>mixed = replicate LEAVES 0, present = replicate PRESENT_WORDS 0, chunk_ptrs = replicate CHUNKS 0,
     promoted = 0, leaf_mem = m\<rparr>"

definition leaf_index :: "nat \<Rightarrow> nat" where "leaf_index granule = granule div LEAF_GRANULES"

definition out_of_leaves :: "nat \<Rightarrow> nat \<Rightarrow> bool" where
  "out_of_leaves granule c \<longleftrightarrow> LEAVES * LEAF_GRANULES \<le> granule \<or> SMALL_CLASS_COUNT \<le> c"

definition prepared :: "nat \<Rightarrow> nat \<Rightarrow> class_leaves \<Rightarrow> bool" where
  "prepared granule c L = (if out_of_leaves granule c then False else mixed L ! (granule div LEAF_GRANULES) \<noteq> 0)"

text \<open>\<open>sys\<close> is the system's answer to a request for a chunk, should there be one.\<close>

definition next_leaf_slot :: "nat \<Rightarrow> class_leaves \<Rightarrow> fatal + nat \<times> class_leaves" where
  "next_leaf_slot sys L =
     (let n = promoted L; chunk = n div CHUNK_LEAVES; slot = n mod CHUNK_LEAVES
      in if \<not> n < LEAVES then Inl ''more promotions than leaves''
         else if slot = 0 \<and> sys = 0 then Inr (0, L)
         else let L1 = (if slot = 0 then L\<lparr>chunk_ptrs := (chunk_ptrs L)[chunk := sys]\<rparr> else L)
              in Inr (chunk_ptrs L1 ! chunk + slot * LEAF_GRANULES, L1\<lparr>promoted := n + 1\<rparr>))"

definition promote :: "nat \<Rightarrow> nat \<Rightarrow> class_leaves \<Rightarrow> fatal + bool \<times> class_leaves" where
  "promote sys leaf L =
     rbind (next_leaf_slot sys L) (\<lambda>(fresh, L1).
       if fresh = 0 then Inr (False, L1)
       else Inr (True, L1\<lparr>leaf_mem := (\<lambda>a. if fresh \<le> a \<and> a < fresh + LEAF_GRANULES then 0 else leaf_mem L1 a),
         mixed := (mixed L1)[leaf := fresh],
         present := (present L1)[leaf div 64 := (present L1 ! (leaf div 64)) OR push_bit (leaf mod 64) 1]\<rparr>))"

definition prepare :: "nat \<Rightarrow> nat \<Rightarrow> nat \<Rightarrow> class_leaves \<Rightarrow> fatal + bool \<times> class_leaves" where
  "prepare sys granule c L =
     (if out_of_leaves granule c then Inr (False, L)
      else if prepared granule c L then Inr (True, L)
      else promote sys (granule div LEAF_GRANULES) L)"

text \<open>The cursor of a batch: a leaf and its resolved pointer.\<close>

record leaf_cursor =
  leaf_idx :: nat
  leaf_ptr :: nat

definition resolve_leaf :: "nat \<Rightarrow> class_leaves \<Rightarrow> leaf_cursor option" where
  "resolve_leaf granule L =
     (if LEAVES * LEAF_GRANULES \<le> granule then None
      else let i = granule div LEAF_GRANULES
           in if mixed L ! i = 0 then None else Some \<lparr>leaf_idx = i, leaf_ptr = mixed L ! i\<rparr>)"

definition prepare_leaf :: "nat \<Rightarrow> nat \<Rightarrow> nat \<Rightarrow> class_leaves \<Rightarrow> fatal + leaf_cursor option \<times> class_leaves" where
  "prepare_leaf sys granule c L =
     (if out_of_leaves granule c then Inr (None, L)
      else rbind (if prepared granule c L then Inr (True, L) else promote sys (granule div LEAF_GRANULES) L) (\<lambda>(ok, L1).
        if \<not> ok then Inr (None, L1)
        else let i = granule div LEAF_GRANULES; p = mixed L1 ! i
             in Inr (if p = 0 then None else Some \<lparr>leaf_idx = i, leaf_ptr = p\<rparr>, L1)))"

definition issue_in :: "leaf_cursor \<Rightarrow> nat \<Rightarrow> nat \<Rightarrow> class_leaves \<Rightarrow> fatal + class_leaves" where
  "issue_in cursor granule c L =
     (if leaf_idx cursor \<noteq> leaf_index granule then Inl ''assertion failed: left == right''
      else if out_of_leaves granule c then Inl ''assertion failed''
      else Inr (L\<lparr>leaf_mem := (leaf_mem L)(leaf_ptr cursor + granule mod LEAF_GRANULES := c + 1)\<rparr>))"

definition leaf_issue :: "nat \<Rightarrow> nat \<Rightarrow> class_leaves \<Rightarrow> bool \<times> class_leaves" where
  "leaf_issue granule c L =
     (if out_of_leaves granule c then (False, L)
      else let p = mixed L ! (granule div LEAF_GRANULES)
           in if p = 0 then (False, L)
              else (True, L\<lparr>leaf_mem := (leaf_mem L)(p + granule mod LEAF_GRANULES := c + 1)\<rparr>))"

definition encoded :: "nat \<Rightarrow> class_leaves \<Rightarrow> nat" where
  "encoded granule L =
     (let p = mixed L ! (granule div LEAF_GRANULES) in if p = 0 then 0 else leaf_mem L (p + granule mod LEAF_GRANULES))"

text \<open>The drop: its assertions, then the chunks given back.\<close>

definition free_chunks :: "class_leaves \<Rightarrow> nat list" where
  "free_chunks L = filter (\<lambda>p. p \<noteq> 0) (chunk_ptrs L)"

definition leaves_drop :: "class_leaves \<Rightarrow> fatal + nat list" where
  "leaves_drop L =
     (if \<exists>w \<in> set [0..<length (present L)]. \<exists>i \<in> set (set_bits_of (present L ! w)). mixed L ! (w * 64 + i) = 0
      then Inl ''present bit without a leaf pointer''
      else if \<exists>l \<in> set [0..<length (mixed L)]. bit (present L ! (l div 64)) (l mod 64) \<noteq> (mixed L ! l \<noteq> 0)
      then Inl ''leaf presence invariant broken''
      else Inr (free_chunks L))"

subsection \<open>Leaves never overlap\<close>

text \<open>The law of the system's allocator: a new chunk is not null and apart from those in use.\<close>

definition spans_apart :: "nat \<Rightarrow> nat \<Rightarrow> nat \<Rightarrow> bool" where
  "spans_apart n p q \<longleftrightarrow> p + n \<le> q \<or> q + n \<le> p"

definition fresh_chunk :: "nat \<Rightarrow> class_leaves \<Rightarrow> bool" where
  "fresh_chunk p L \<longleftrightarrow> (\<forall>c < CHUNKS. chunk_ptrs L ! c \<noteq> 0 \<longrightarrow> spans_apart CHUNK_BYTES p (chunk_ptrs L ! c))"

definition slot_addr :: "class_leaves \<Rightarrow> nat \<Rightarrow> nat" where
  "slot_addr L n = chunk_ptrs L ! (n div CHUNK_LEAVES) + (n mod CHUNK_LEAVES) * LEAF_GRANULES"

definition chunks_ok :: "class_leaves \<Rightarrow> bool" where
  "chunks_ok L \<longleftrightarrow> length (chunk_ptrs L) = CHUNKS \<and> promoted L \<le> LEAVES
     \<and> (\<forall>c < CHUNKS. chunk_ptrs L ! c \<noteq> 0 \<longleftrightarrow> c * CHUNK_LEAVES < promoted L)
     \<and> (\<forall>c < CHUNKS. \<forall>d < CHUNKS. c \<noteq> d \<longrightarrow> chunk_ptrs L ! c \<noteq> 0 \<longrightarrow> chunk_ptrs L ! d \<noteq> 0
          \<longrightarrow> spans_apart CHUNK_BYTES (chunk_ptrs L ! c) (chunk_ptrs L ! d))"

definition leaves_ok :: "class_leaves \<Rightarrow> bool" where
  "leaves_ok L \<longleftrightarrow> chunks_ok L \<and> length (mixed L) = LEAVES \<and> length (present L) = PRESENT_WORDS
     \<and> (\<forall>l < LEAVES. mixed L ! l \<noteq> 0 \<longrightarrow> (\<exists>n < promoted L. mixed L ! l = slot_addr L n))
     \<and> (\<forall>l < LEAVES. \<forall>k < LEAVES. l \<noteq> k \<longrightarrow> mixed L ! l \<noteq> 0 \<longrightarrow> mixed L ! k \<noteq> 0
          \<longrightarrow> spans_apart LEAF_GRANULES (mixed L ! l) (mixed L ! k))
     \<and> promoted L = card {l. l < LEAVES \<and> mixed L ! l \<noteq> 0}
     \<and> (\<forall>l < LEAVES. bit (present L ! (l div 64)) (l mod 64) \<longleftrightarrow> mixed L ! l \<noteq> 0)"

lemmas leaf_sizes = LEAF_GRANULES_def LEAVES_def PRESENT_WORDS_def CHUNK_LEAVES_def CHUNK_BYTES_def CHUNKS_def

lemma spans_apart_sym: "spans_apart n p q \<Longrightarrow> spans_apart n q p"
  by (auto simp: spans_apart_def)

lemma slots_apart:
  assumes ok: "chunks_ok L" and m: "m < n" and n: "n < promoted L"
  shows "spans_apart LEAF_GRANULES (slot_addr L m) (slot_addr L n)"
proof -
  let ?c = "m div CHUNK_LEAVES" and ?d = "n div CHUNK_LEAVES"
  have n': "n < 1024" using ok n by (simp add: chunks_ok_def LEAVES_def)
  have d: "?c < CHUNKS" "?d < CHUNKS" using m n' by (auto simp: leaf_sizes)
  have nz: "chunk_ptrs L ! ?c \<noteq> 0" "chunk_ptrs L ! ?d \<noteq> 0"
    using ok d m n unfolding chunks_ok_def by (auto simp: leaf_sizes)
  show ?thesis
  proof (cases "?c = ?d")
    case True
    then have "m mod 16 < n mod 16" using m by (metis CHUNK_LEAVES_def div_mod_decomp nat_add_left_cancel_less)
    then show ?thesis using True by (auto simp: spans_apart_def slot_addr_def leaf_sizes)
  next
    case False
    then have "spans_apart CHUNK_BYTES (chunk_ptrs L ! ?c) (chunk_ptrs L ! ?d)" using ok d nz unfolding chunks_ok_def by blast
    moreover have "m mod 16 < 16" "n mod 16 < 16" by simp_all
    ultimately show ?thesis unfolding spans_apart_def slot_addr_def leaf_sizes by linarith
  qed
qed

lemma prepared_iff: "prepared granule c L \<longleftrightarrow> \<not> out_of_leaves granule c \<and> mixed L ! (granule div 256) \<noteq> 0"
  by (simp add: prepared_def LEAF_GRANULES_def)

lemma leaf_less: "\<not> out_of_leaves granule c \<Longrightarrow> granule div 256 < 1024"
  by (auto simp: out_of_leaves_def LEAVES_def LEAF_GRANULES_def)

lemma null_leaf_room:
  assumes "leaves_ok L" and "l < 1024" and "mixed L ! l = 0"
  shows "promoted L < 1024"
proof -
  have "l \<in> {..<LEAVES}" "l \<notin> {k. k < LEAVES \<and> mixed L ! k \<noteq> 0}" using assms(2,3) by (simp_all add: LEAVES_def)
  then have "{k. k < LEAVES \<and> mixed L ! k \<noteq> 0} \<subset> {..<LEAVES}" by blast
  then have "card {k. k < LEAVES \<and> mixed L ! k \<noteq> 0} < card {..<LEAVES}" by (rule psubset_card_mono [rotated]) simp
  moreover have "promoted L = card {k. k < LEAVES \<and> mixed L ! k \<noteq> 0}" using assms(1) unfolding leaves_ok_def by blast
  ultimately show ?thesis by (simp add: LEAVES_def)
qed

text \<open>The next slot is new, lies apart from those handed out, and leaves them where they are.\<close>

lemma next_slot_ok:
  assumes ok: "chunks_ok L" and room: "promoted L < 1024" and fresh: "sys \<noteq> 0 \<longrightarrow> fresh_chunk sys L"
    and run: "next_leaf_slot sys L = Inr (p, L')"
  shows "chunks_ok L' \<and> mixed L' = mixed L \<and> present L' = present L \<and> leaf_mem L' = leaf_mem L
    \<and> (if promoted L mod 16 = 0 \<and> sys = 0 then p = 0 \<and> L' = L
       else p \<noteq> 0 \<and> promoted L' = promoted L + 1 \<and> p = slot_addr L' (promoted L) \<and> (\<forall>n < promoted L. slot_addr L' n = slot_addr L n))"
proof -
  let ?n = "promoted L"
  define c where "c = ?n div 16"
  have c: "c < 64" using room by (simp add: c_def)
  have len: "length (chunk_ptrs L) = 64" using ok by (simp add: chunks_ok_def leaf_sizes)
  have nz: "chunk_ptrs L ! d \<noteq> 0 \<longleftrightarrow> d * 16 < ?n" if "d < 64" for d using ok that by (simp add: chunks_ok_def leaf_sizes)
  have ap: "spans_apart 4096 (chunk_ptrs L ! d) (chunk_ptrs L ! e)" if "d < 64" "e < 64" "d \<noteq> e" "chunk_ptrs L ! d \<noteq> 0" "chunk_ptrs L ! e \<noteq> 0" for d e
    using ok that unfolding chunks_ok_def leaf_sizes by simp
  consider (no) "?n mod 16 = 0" "sys = 0" | (new) "?n mod 16 = 0" "sys \<noteq> 0" | (old) "?n mod 16 \<noteq> 0" by blast
  then show ?thesis
  proof cases
    case no
    then show ?thesis using run ok room by (simp add: next_leaf_slot_def leaf_sizes)
  next
    case new
    have n: "?n = c * 16" using new(1) unfolding c_def by presburger
    have f: "spans_apart 4096 sys (chunk_ptrs L ! d)" if "d < 64" "chunk_ptrs L ! d \<noteq> 0" for d
      using fresh new(2) that by (simp add: fresh_chunk_def leaf_sizes)
    have L': "L' = L\<lparr>chunk_ptrs := (chunk_ptrs L)[c := sys], promoted := ?n + 1\<rparr>" and p: "p = sys"
      using run new room c len by (auto simp: next_leaf_slot_def leaf_sizes c_def Let_def)
    have nth: "chunk_ptrs L' ! d = (if d = c then sys else chunk_ptrs L ! d)" if "d < 64" for d
      using that len by (simp add: L' nth_list_update)
    have "chunk_ptrs L' ! d \<noteq> 0 \<longleftrightarrow> d * 16 < promoted L'" if "d < 64" for d
      using nz [OF that] nth [OF that] new(2) n by (auto simp: L')
    moreover have "spans_apart 4096 (chunk_ptrs L' ! d) (chunk_ptrs L' ! e)" if "d < 64" "e < 64" "d \<noteq> e" "chunk_ptrs L' ! d \<noteq> 0" "chunk_ptrs L' ! e \<noteq> 0" for d e
      using that ap [of d e] f [of d] f [of e] nth by (auto split: if_splits intro: spans_apart_sym)
    ultimately have "chunks_ok L'" using len room by (simp add: chunks_ok_def leaf_sizes L')
    moreover have "slot_addr L' n = slot_addr L n" if "n < ?n" for n
    proof -
      have "n div 16 < c" using that n by (simp add: less_mult_imp_div_less)
      then show ?thesis using nth c by (simp add: slot_addr_def leaf_sizes)
    qed
    moreover have "p = slot_addr L' ?n" using new(1) p nth c by (simp add: slot_addr_def leaf_sizes c_def [symmetric])
    ultimately show ?thesis using new p by (simp add: L')
  next
    case old
    have L': "L' = L\<lparr>promoted := ?n + 1\<rparr>" and p: "p = chunk_ptrs L ! c + (?n mod 16) * 256"
      using run old room by (auto simp: next_leaf_slot_def leaf_sizes c_def Let_def)
    have "d * 16 < ?n \<longleftrightarrow> d * 16 < ?n + 1" for d using old by (metis less_SucE less_SucI mod_mult_self2_is_0 Suc_eq_plus1 mult.commute)
    then have "chunks_ok L'" using ok room by (simp add: chunks_ok_def leaf_sizes L')
    moreover have "chunk_ptrs L ! c \<noteq> 0"
    proof -
      have "c * 16 < ?n" using old unfolding c_def by (metis div_mult_mod_eq less_add_same_cancel1 neq0_conv)
      then show ?thesis using nz c by blast
    qed
    ultimately show ?thesis using old p by (simp add: L' slot_addr_def leaf_sizes c_def)
  qed
qed

lemma leaf_apart:
  assumes "leaves_ok L" and "l < 1024" and "k < 1024" and "l \<noteq> k" and "mixed L ! l \<noteq> 0" and "mixed L ! k \<noteq> 0" and "i < 256" and "j < 256"
  shows "mixed L ! l + i \<noteq> mixed L ! k + j"
proof -
  have "spans_apart LEAF_GRANULES (mixed L ! l) (mixed L ! k)" using assms unfolding leaves_ok_def LEAVES_def by blast
  then show ?thesis using assms(7,8) by (auto simp: spans_apart_def LEAF_GRANULES_def)
qed

lemma promote_ok:
  assumes ok: "leaves_ok L" and leaf: "leaf < 1024" "mixed L ! leaf = 0" and fresh: "sys \<noteq> 0 \<longrightarrow> fresh_chunk sys L"
  shows "\<exists>L'. promote sys leaf L = Inr (\<not> (promoted L mod 16 = 0 \<and> sys = 0), L') \<and> leaves_ok L'
    \<and> (if promoted L mod 16 = 0 \<and> sys = 0 then L' = L
       else mixed L' ! leaf \<noteq> 0 \<and> (\<forall>k < 1024. k \<noteq> leaf \<longrightarrow> mixed L' ! k = mixed L ! k)
         \<and> (\<forall>i < 256. leaf_mem L' (mixed L' ! leaf + i) = 0)
         \<and> (\<forall>k < 1024. \<forall>i < 256. k \<noteq> leaf \<longrightarrow> mixed L ! k \<noteq> 0 \<longrightarrow> leaf_mem L' (mixed L ! k + i) = leaf_mem L (mixed L ! k + i)))"
proof -
  have ch: "chunks_ok L" and len: "length (mixed L) = 1024" "length (present L) = 16"
    using ok by (simp_all add: leaves_ok_def leaf_sizes)
  have room: "promoted L < 1024" by (rule null_leaf_room [OF ok leaf])
  have "\<exists>r. next_leaf_slot sys L = Inr r" using room by (simp add: next_leaf_slot_def LEAVES_def Let_def)
  then obtain p L1 where run: "next_leaf_slot sys L = Inr (p, L1)" by auto
  note nx = next_slot_ok [OF ch room fresh run]
  show ?thesis
  proof (cases "promoted L mod 16 = 0 \<and> sys = 0")
    case True
    then have "p = 0" "L1 = L" using nx by simp_all
    then show ?thesis using run True ok by (simp add: promote_def)
  next
    case False
    then have p: "p \<noteq> 0" "promoted L1 = promoted L + 1" "p = slot_addr L1 (promoted L)" "\<And>n. n < promoted L \<Longrightarrow> slot_addr L1 n = slot_addr L n"
      using nx unfolding if_not_P [OF False] by blast+
    have same: "chunks_ok L1" "mixed L1 = mixed L" "present L1 = present L" "leaf_mem L1 = leaf_mem L" using nx by simp_all
    define L' where "L' = L1\<lparr>leaf_mem := (\<lambda>a. if p \<le> a \<and> a < p + LEAF_GRANULES then 0 else leaf_mem L1 a), mixed := (mixed L1)[leaf := p],
      present := (present L1)[leaf div 64 := (present L1 ! (leaf div 64)) OR push_bit (leaf mod 64) 1]\<rparr>"
    have r: "promote sys leaf L = Inr (True, L')" using run p(1) by (simp add: promote_def L'_def)
    have mx: "mixed L' ! k = (if k = leaf then p else mixed L ! k)" if "k < 1024" for k
      using that len leaf by (simp add: L'_def same nth_list_update)
    have old: "\<exists>n < promoted L. mixed L ! k = slot_addr L n" if "k < 1024" "mixed L ! k \<noteq> 0" for k
      using ok that unfolding leaves_ok_def LEAVES_def by blast
    have slots: "slot_addr L' = slot_addr L1" by (simp add: L'_def slot_addr_def fun_eq_iff)
    have apart_new: "spans_apart 256 (mixed L ! k) p" if k: "k < 1024" "mixed L ! k \<noteq> 0" for k
    proof -
      obtain n where n: "n < promoted L" "mixed L ! k = slot_addr L n" using old [OF k] by blast
      have "spans_apart LEAF_GRANULES (slot_addr L1 n) (slot_addr L1 (promoted L))" by (rule slots_apart [OF same(1) n(1)]) (simp add: p(2))
      then show ?thesis using n p(3) p(4) [OF n(1)] by (simp add: LEAF_GRANULES_def)
    qed
    have "chunks_ok L'" using same(1) by (simp add: chunks_ok_def L'_def)
    moreover have "length (mixed L') = LEAVES" "length (present L') = PRESENT_WORDS" using len by (simp_all add: L'_def same leaf_sizes)
    moreover have "\<exists>n < promoted L'. mixed L' ! k = slot_addr L' n" if k: "k < LEAVES" "mixed L' ! k \<noteq> 0" for k
    proof (cases "k = leaf")
      case True
      then show ?thesis using mx leaf p(2,3) slots by (intro exI [of _ "promoted L"]) (simp add: L'_def)
    next
      case False
      then obtain n where "n < promoted L" "mixed L ! k = slot_addr L n" using old [of k] mx [of k] k by (auto simp: LEAVES_def)
      then show ?thesis using False mx [of k] k p(2,4) slots by (intro exI [of _ n]) (simp add: L'_def LEAVES_def)
    qed
    moreover have "spans_apart LEAF_GRANULES (mixed L' ! l) (mixed L' ! k)" if "l < LEAVES" "k < LEAVES" "l \<noteq> k" "mixed L' ! l \<noteq> 0" "mixed L' ! k \<noteq> 0" for l k
    proof -
      have "spans_apart LEAF_GRANULES (mixed L ! l) (mixed L ! k)" if "mixed L ! l \<noteq> 0" "mixed L ! k \<noteq> 0"
        using ok \<open>l < LEAVES\<close> \<open>k < LEAVES\<close> \<open>l \<noteq> k\<close> that unfolding leaves_ok_def by blast
      then show ?thesis using that mx [of l] mx [of k] apart_new [of l] apart_new [of k]
        by (auto simp: LEAVES_def LEAF_GRANULES_def split: if_splits intro: spans_apart_sym)
    qed
    moreover have "promoted L' = card {l. l < LEAVES \<and> mixed L' ! l \<noteq> 0}"
    proof -
      have "{l. l < LEAVES \<and> mixed L' ! l \<noteq> 0} = insert leaf {l. l < LEAVES \<and> mixed L ! l \<noteq> 0}"
        using mx leaf p(1) by (auto simp: LEAVES_def)
      moreover have "leaf \<notin> {l. l < LEAVES \<and> mixed L ! l \<noteq> 0}" using leaf by simp
      moreover have "promoted L = card {l. l < LEAVES \<and> mixed L ! l \<noteq> 0}" using ok unfolding leaves_ok_def by blast
      ultimately show ?thesis using p(2) by (simp add: L'_def)
    qed
    moreover have "bit (present L' ! (l div 64)) (l mod 64) \<longleftrightarrow> mixed L' ! l \<noteq> 0" if "l < LEAVES" for l
    proof -
      have old: "bit (present L ! (l div 64)) (l mod 64) \<longleftrightarrow> mixed L ! l \<noteq> 0" using ok that unfolding leaves_ok_def by blast
      define w where "w = present L ! (leaf div 64)"
      have pr: "present L' ! (l div 64) = (if l div 64 = leaf div 64 then w OR push_bit (leaf mod 64) 1 else present L ! (l div 64))"
        using leaf(1) len by (simp add: L'_def same w_def nth_list_update)
      have b: "bit (w OR push_bit (leaf mod 64) 1) j \<longleftrightarrow> bit w j \<or> j = leaf mod 64" if "j < 64" for j
        using that by (auto simp: bit_or_iff bit_exp_iff)
      have l: "l < 1024" using that by (simp add: LEAVES_def)
      show ?thesis
      proof (cases "l = leaf")
        case True
        then show ?thesis using pr b [of "l mod 64"] mx [OF l] p(1) by simp
      next
        case False
        then have "l mod 64 \<noteq> leaf mod 64" if "l div 64 = leaf div 64" using that by (metis div_mod_decomp)
        then show ?thesis using pr b [of "l mod 64"] mx [OF l] False old by (auto simp: w_def)
      qed
    qed
    ultimately have "leaves_ok L'" unfolding leaves_ok_def by blast
    moreover have "leaf_mem L' (mixed L ! k + i) = leaf_mem L (mixed L ! k + i)" if "k < 1024" "i < 256" "k \<noteq> leaf" "mixed L ! k \<noteq> 0" for k i
      using apart_new [OF that(1,4)] that(2) by (auto simp: L'_def same spans_apart_def LEAF_GRANULES_def)
    moreover have "leaf_mem L' (p + i) = 0" if "i < 256" for i using that by (simp add: L'_def LEAF_GRANULES_def)
    ultimately show ?thesis using r mx leaf p(1) unfolding if_not_P [OF False] by (intro exI [of _ L']) (use False in auto)
  qed
qed

subsection \<open>The leaves as a map from granules to codes\<close>

lemma encoded_at: "encoded g L = (let p = mixed L ! (g div 256) in if p = 0 then 0 else leaf_mem L (p + g mod 256))"
  by (simp add: encoded_def LEAF_GRANULES_def Let_def)

text \<open>Preparing a granule changes no code; the leaf it may add is all zero.\<close>

lemma promote_encoded:
  assumes "leaves_ok L" and "leaf < 1024" "mixed L ! leaf = 0" and "sys \<noteq> 0 \<longrightarrow> fresh_chunk sys L" and "promote sys leaf L = Inr (b, L')"
  shows "leaves_ok L' \<and> (b \<longleftrightarrow> mixed L' ! leaf \<noteq> 0) \<and> (b \<longleftrightarrow> \<not> (promoted L mod 16 = 0 \<and> sys = 0))
    \<and> (\<forall>g < 262144. encoded g L' = encoded g L) \<and> (\<forall>k < 1024. mixed L ! k \<noteq> 0 \<longrightarrow> mixed L' ! k = mixed L ! k)"
proof -
  from promote_ok [OF assms(1-4)] assms(5) have ok: "leaves_ok L'" and b: "b \<longleftrightarrow> \<not> (promoted L mod 16 = 0 \<and> sys = 0)" by auto
  show ?thesis
  proof (cases b)
    case True
    then have n: "mixed L' ! leaf \<noteq> 0" "\<And>k. k < 1024 \<Longrightarrow> k \<noteq> leaf \<Longrightarrow> mixed L' ! k = mixed L ! k"
      "\<And>i. i < 256 \<Longrightarrow> leaf_mem L' (mixed L' ! leaf + i) = 0"
      "\<And>k i. k < 1024 \<Longrightarrow> i < 256 \<Longrightarrow> k \<noteq> leaf \<Longrightarrow> mixed L ! k \<noteq> 0 \<Longrightarrow> leaf_mem L' (mixed L ! k + i) = leaf_mem L (mixed L ! k + i)"
      using promote_ok [OF assms(1-4)] assms(5) b by (auto split: if_splits)
    have "encoded g L' = encoded g L" if "g < 262144" for g
    proof -
      have "g div 256 < 1024" using that by simp
      then show ?thesis using n assms(3) by (cases "g div 256 = leaf") (auto simp: encoded_at Let_def)
    qed
    moreover have "mixed L' ! k = mixed L ! k" if "k < 1024" "mixed L ! k \<noteq> 0" for k
      using n(2) [OF that(1)] that(2) assms(3) by (cases "k = leaf") auto
    ultimately show ?thesis using ok b True n(1) by blast
  next
    case False
    then have "L' = L" using promote_ok [OF assms(1-4)] assms(5) b by auto
    then show ?thesis using ok b False assms(3) by simp
  qed
qed

lemma leaf_prepare_ok:
  assumes ok: "leaves_ok L" and fresh: "sys \<noteq> 0 \<longrightarrow> fresh_chunk sys L"
  shows "\<exists>b L'. prepare sys g c L = Inr (b, L') \<and> leaves_ok L' \<and> b = prepared g c L'
    \<and> (b \<longleftrightarrow> \<not> out_of_leaves g c \<and> (prepared g c L \<or> sys \<noteq> 0 \<or> promoted L mod 16 \<noteq> 0))
    \<and> (\<forall>h < 262144. encoded h L' = encoded h L) \<and> (\<forall>k < 1024. mixed L ! k \<noteq> 0 \<longrightarrow> mixed L' ! k = mixed L ! k)"
proof (cases "out_of_leaves g c \<or> prepared g c L")
  case True
  then show ?thesis using ok by (auto simp: prepare_def prepared_iff)
next
  case False
  then have leaf: "g div 256 < 1024" "mixed L ! (g div 256) = 0" using leaf_less by (auto simp: prepared_iff)
  obtain b L' where run: "promote sys (g div 256) L = Inr (b, L')" using promote_ok [OF ok leaf fresh] by blast
  show ?thesis using promote_encoded [OF ok leaf fresh run] run False leaf
    by (intro exI [of _ b] exI [of _ L']) (auto simp: prepare_def prepared_iff LEAF_GRANULES_def)
qed

text \<open>Issuing writes the code of one granule and of no other, through the leaf or through a cursor resolved before.\<close>

lemma store_code:
  assumes ok: "leaves_ok L" and g: "g < 262144" "mixed L ! (g div 256) \<noteq> 0"
    and L': "L' = L\<lparr>leaf_mem := (leaf_mem L)(mixed L ! (g div 256) + g mod 256 := v)\<rparr>"
  shows "leaves_ok L' \<and> (\<forall>h < 262144. encoded h L' = (if h = g then v else encoded h L))"
proof -
  have eqs: "slot_addr L' = slot_addr L" "chunks_ok L' = chunks_ok L" "mixed L' = mixed L" "present L' = present L" "promoted L' = promoted L"
    by (simp_all add: L' slot_addr_def chunks_ok_def fun_eq_iff)
  have "leaves_ok L'" using ok unfolding leaves_ok_def eqs .
  moreover have "encoded h L' = (if h = g then v else encoded h L)" if "h < 262144" for h
  proof (cases "h div 256 = g div 256")
    case True
    then have "h = g \<longleftrightarrow> h mod 256 = g mod 256" by (metis div_mod_decomp)
    then show ?thesis using True g by (auto simp: encoded_at L')
  next
    case False
    have "h div 256 < 1024" "g div 256 < 1024" using that g by simp_all
    then have "mixed L ! (h div 256) + h mod 256 \<noteq> mixed L ! (g div 256) + g mod 256" if "mixed L ! (h div 256) \<noteq> 0"
      using leaf_apart [OF ok _ _ False that g(2)] by simp
    then show ?thesis using False by (auto simp: encoded_at L' Let_def)
  qed
  ultimately show ?thesis by blast
qed

lemma leaf_issue_ok:
  assumes "leaves_ok L" and "prepared g c L"
  shows "\<exists>L'. leaf_issue g c L = (True, L') \<and> leaves_ok L' \<and> mixed L' = mixed L
    \<and> (\<forall>h < 262144. encoded h L' = (if h = g then c + 1 else encoded h L))"
proof -
  have g: "g < 262144" "mixed L ! (g div 256) \<noteq> 0" "\<not> out_of_leaves g c"
    using assms(2) by (auto simp: prepared_iff out_of_leaves_def LEAVES_def LEAF_GRANULES_def)
  show ?thesis using store_code [OF assms(1) g(1,2) refl, of "c + 1"] g by (simp add: leaf_issue_def LEAF_GRANULES_def Let_def)
qed

lemma cursor_issue_ok:
  assumes "leaves_ok L" and "prepared g c L" and "resolve_leaf h L = Some cursor" and "leaf_index g = leaf_index h"
  shows "issue_in cursor g c L = Inr (snd (leaf_issue g c L))"
  using assms(2-4)
  by (auto simp: issue_in_def resolve_leaf_def leaf_issue_def leaf_index_def prepared_iff LEAF_GRANULES_def Let_def split: if_splits)

text \<open>A new sidecar holds no code; the drop of one gives every chunk back once and passes its assertions.\<close>

lemma leaves_init_ok: "leaves_ok (leaves_init m)" "g < 262144 \<Longrightarrow> encoded g (leaves_init m) = 0"
proof -
  have "{l. l < LEAVES \<and> replicate LEAVES (0 :: nat) ! l \<noteq> 0} = {}" by auto
  then show "leaves_ok (leaves_init m)" by (simp add: leaves_ok_def chunks_ok_def leaves_init_def leaf_sizes)
  show "g < 262144 \<Longrightarrow> encoded g (leaves_init m) = 0" by (simp add: encoded_at leaves_init_def LEAVES_def)
qed

lemma leaves_drop_ok:
  assumes ok: "leaves_ok L"
  shows "leaves_drop L = Inr (free_chunks L) \<and> distinct (free_chunks L) \<and> length (free_chunks L) = div_ceil (promoted L) CHUNK_LEAVES"
proof -
  have len: "length (mixed L) = 1024" "length (present L) = 16" "length (chunk_ptrs L) = 64" and ch: "chunks_ok L"
    using ok by (simp_all add: leaves_ok_def chunks_ok_def leaf_sizes)
  have pres: "bit (present L ! (l div 64)) (l mod 64) \<longleftrightarrow> mixed L ! l \<noteq> 0" if "l < 1024" for l
    using ok that unfolding leaves_ok_def LEAVES_def by blast
  have "mixed L ! (w * 64 + i) \<noteq> 0" if "w < 16" "bit (present L ! w) i" for w i
  proof -
    have "i < 64" using bit_imp_le_length [OF that(2)] by simp
    then show ?thesis using pres [of "w * 64 + i"] that by simp
  qed
  then have 1: "\<not> (\<exists>w \<in> set [0..<length (present L)]. \<exists>i \<in> set (set_bits_of (present L ! w)). mixed L ! (w * 64 + i) = 0)"
    using len by auto
  have 2: "\<not> (\<exists>l \<in> set [0..<length (mixed L)]. bit (present L ! (l div 64)) (l mod 64) \<noteq> (mixed L ! l \<noteq> 0))"
    using pres len by auto
  have nz: "chunk_ptrs L ! c \<noteq> 0 \<longleftrightarrow> c * 16 < promoted L" if "c < 64" for c using ch that by (simp add: chunks_ok_def leaf_sizes)
  have ap: "chunk_ptrs L ! c \<noteq> chunk_ptrs L ! d" if "c < 64" "d < 64" "c \<noteq> d" "chunk_ptrs L ! c \<noteq> 0" "chunk_ptrs L ! d \<noteq> 0" for c d
  proof -
    have "spans_apart CHUNK_BYTES (chunk_ptrs L ! c) (chunk_ptrs L ! d)" using ch that unfolding chunks_ok_def leaf_sizes by simp
    then show ?thesis by (auto simp: spans_apart_def leaf_sizes)
  qed
  let ?n = "div_ceil (promoted L) 16"
  have "promoted L \<le> 1024" using ch by (simp add: chunks_ok_def LEAVES_def)
  moreover have "promoted L = 16 * (promoted L div 16) + promoted L mod 16" "promoted L mod 16 < 16" by simp_all
  ultimately have n: "?n \<le> 64" and n': "c * 16 < promoted L \<longleftrightarrow> c < ?n" for c
    unfolding div_ceil_def by (cases "promoted L mod 16 = 0"; (simp only: if_True if_False simp_thms)?; linarith)+
  have chunks: "chunk_ptrs L = map ((!) (chunk_ptrs L)) [0..<64]" using len by (metis map_nth)
  have "free_chunks L = map ((!) (chunk_ptrs L)) (filter (\<lambda>c. chunk_ptrs L ! c \<noteq> 0) [0..<64])"
    unfolding free_chunks_def by (subst chunks) (simp add: filter_map comp_def)
  also have "filter (\<lambda>c. chunk_ptrs L ! c \<noteq> 0) [0..<64] = filter (\<lambda>c. c < ?n) [0..<64]"
    by (rule filter_cong) (use nz n' in auto)
  also have "\<dots> = [0..<?n]"
  proof -
    have "[0..<64] = [0..<?n] @ [?n..<64]" using n by (metis le0 le_add_diff_inverse upt_add_eq_append)
    then show ?thesis by (simp add: filter_empty_conv filter_id_conv)
  qed
  finally have f: "free_chunks L = map ((!) (chunk_ptrs L)) [0..<?n]" .
  have "distinct (free_chunks L)" unfolding f distinct_map using ap nz n n' by (auto simp: inj_on_def) (metis less_le_trans)
  then show ?thesis using 1 2 f by (simp add: leaves_drop_def CHUNK_LEAVES_def)
qed

subsection \<open>The pending bits\<close>

definition GRANULES :: nat where "GRANULES = SEGMENT div MIN_BLOCK"
definition WORDS :: nat where "WORDS = GRANULES div 64"
definition SIDECAR_WORD_BYTES :: nat where "SIDECAR_WORD_BYTES = 64 * MIN_BLOCK"

record small_sidecar =
  pending :: "u64 list"
  classes :: class_leaves

definition sidecar_init :: "(nat \<Rightarrow> nat) \<Rightarrow> small_sidecar" where
  "sidecar_init m = \<lparr>pending = replicate WORDS 0, classes = leaves_init m\<rparr>"

definition granule_of :: "nat \<Rightarrow> nat option" where
  "granule_of offset = (if offset < SEGMENT \<and> offset mod MIN_BLOCK = 0 then Some (offset div MIN_BLOCK) else None)"

definition bitmap_issue :: "nat \<Rightarrow> nat \<Rightarrow> small_sidecar \<Rightarrow> bool \<times> small_sidecar" where
  "bitmap_issue offset c S =
     (case granule_of offset of
        None \<Rightarrow> (False, S)
      | Some granule \<Rightarrow>
          if SMALL_CLASS_COUNT \<le> c then (False, S)
          else let (ok, L) = leaf_issue granule c (classes S) in (ok, S\<lparr>classes := L\<rparr>))"

definition side_prepared :: "nat \<Rightarrow> nat \<Rightarrow> small_sidecar \<Rightarrow> bool" where
  "side_prepared offset c S \<longleftrightarrow> offset < SEGMENT \<and> offset mod MIN_BLOCK = 0 \<and> prepared (offset div MIN_BLOCK) c (classes S)"

definition side_prepare :: "nat \<Rightarrow> nat \<Rightarrow> nat \<Rightarrow> small_sidecar \<Rightarrow> fatal + bool \<times> small_sidecar" where
  "side_prepare sys offset c S =
     (if offset < SEGMENT \<and> offset mod MIN_BLOCK = 0
      then rbind (prepare sys (offset div MIN_BLOCK) c (classes S)) (\<lambda>(ok, L). Inr (ok, S\<lparr>classes := L\<rparr>))
      else Inr (False, S))"

definition side_issue :: "nat \<Rightarrow> nat \<Rightarrow> nat \<Rightarrow> small_sidecar \<Rightarrow> fatal + bool \<times> small_sidecar" where
  "side_issue sys offset c S =
     rbind (if side_prepared offset c S then Inr (True, S) else side_prepare sys offset c S) (\<lambda>(ok, S1).
       if ok then Inr (bitmap_issue offset c S1) else Inr (False, S1))"

text \<open>The two accesses of \<open>publish\<close>: the reading of the class code and the setting of the bit.\<close>

definition publish_check :: "bool \<Rightarrow> nat \<Rightarrow> small_sidecar \<Rightarrow> fatal + nat option" where
  "publish_check safe_mode offset S =
     (case granule_of offset of
        None \<Rightarrow> Inr None
      | Some granule \<Rightarrow>
          if encoded granule (classes S) = 0
          then shadow_reject safe_mode ''misuse check rejected a foreign free of an unissued granule'' None
          else Inr (Some granule))"

definition publish_or :: "nat \<Rightarrow> small_sidecar \<Rightarrow> small_sidecar" where
  "publish_or granule S =
     S\<lparr>pending := (pending S)[granule div 64 := (pending S ! (granule div 64)) OR push_bit (granule mod 64) 1]\<rparr>"

record bitmap_scan =
  next_word :: nat
  end_word :: nat

definition scan_from :: "nat \<Rightarrow> nat \<Rightarrow> small_sidecar \<Rightarrow> bitmap_scan option" where
  "scan_from high_water start_word S =
     (if SEGMENT < high_water then None
      else let e = div_ceil high_water SIDECAR_WORD_BYTES
           in if e < start_word \<or> length (pending S) < start_word then None else Some \<lparr>next_word = start_word, end_word = e\<rparr>)"

text \<open>The two accesses of \<open>next_cut\<close>, and the records popped from a cut.\<close>

definition cut_load :: "nat \<Rightarrow> small_sidecar \<Rightarrow> fatal + u64" where
  "cut_load w S = (if length (pending S) \<le> w then Inl ''bitmap_scan: sidecar scan iterator exhausted early'' else Inr (pending S ! w))"

definition cut_swap :: "nat \<Rightarrow> small_sidecar \<Rightarrow> u64 \<times> small_sidecar" where
  "cut_swap w S = (pending S ! w, S\<lparr>pending := (pending S)[w := 0]\<rparr>)"

record bitmap_record =
  rec_offset :: nat
  rec_class :: nat

record bitmap_cut =
  cut_word :: nat
  cut_bits :: u64

definition cut_pop :: "class_leaves \<Rightarrow> bitmap_cut \<Rightarrow> fatal + bitmap_record option \<times> bitmap_cut" where
  "cut_pop L d =
     (if cut_bits d = 0 then Inr (None, d)
      else let granule = cut_word d * 64 + word_tz (cut_bits d); code = encoded granule L
           in if code = 0 \<or> SMALL_CLASS_COUNT < code then Inl ''bitmap_cut: invalid sidecar class encoding''
              else Inr (Some \<lparr>rec_offset = granule * MIN_BLOCK, rec_class = code - 1\<rparr>, d\<lparr>cut_bits := cut_bits d AND (cut_bits d - 1)\<rparr>))"

subsection \<open>The retirement of a record\<close>

definition reclaim_sidecar_record :: "bool \<Rightarrow> nat \<Rightarrow> nat \<Rightarrow> nat \<Rightarrow> small_segment \<Rightarrow> fatal + bool \<times> small_segment" where
  "reclaim_sidecar_record safe_mode base off c s =
     (if SMALL_CLASS_COUNT \<le> c then Inl ''alloc_core_small_reclaim: small class index out of range''
      else if kind (seg_hdr s) \<noteq> Small \<and> kind (seg_hdr s) \<noteq> Primordial then Inl ''alloc_core_small_reclaim: sidecar record kind is not small''
      else if off < payload_start (kind (seg_hdr s)) \<or> off mod class_size c \<noteq> 0 \<or> bump (seg_hdr s) < off + class_size c
      then Inl ''alloc_core_small_reclaim: sidecar record offset geometry invalid''
      else if drop_bit 6 (state_read off s) = FREE
      then shadow_reject safe_mode ''misuse check rejected a remote free in safe mode (reclaim FREE)'' (False, s)
      else if drop_bit 6 (state_read off s) = MAG
      then shadow_reject safe_mode ''misuse check rejected a remote free in safe mode (reclaim MAG)'' (False, s)
      else rbind (bin_head c s) (\<lambda>old_head.
        let nxt = (if old_head = FREE_LIST_NULL then 0 else base + old_head)
        in if base + off = 0 then Inl ''alloc_core_small_reclaim: reclaimed record resolves to null''
           else rbind (set_bin_head c off (s\<lparr>cells := (cells s)(off := nxt)\<rparr>)) (\<lambda>s2.
             rbind (on_hdr (\<lambda>h. rbind (dec_live h) (\<lambda>(_, h'). Inr h')) (state_write off c FREE s2)) (\<lambda>s3. Inr (True, s3)))))"

text \<open>On a block in use it does what a free by the owner does.\<close>

lemma reclaim_live:
  assumes ok: "seg_ok base s" and b: "block s off = Some (c, LIVE)"
  shows "reclaim_sidecar_record safe_mode base off c s = dealloc_small safe_mode base (base + off) c s"
proof -
  have k: "kind (seg_hdr s) \<in> {Primordial, Small}" and base: "0 < base" using ok by (simp_all add: seg_ok_def based_def)
  have pl: "payload_start (kind (seg_hdr s)) \<le> off" "off + class_size c \<le> bump (seg_hdr s)" "class_size c dvd off"
    using ok b unfolding seg_ok_def placed_def by blast+
  have c: "c < 49" "off < SEGMENT" "16 dvd off" using block_bounds [OF b] by simp_all
  then have st: "state_read off s = encode c LIVE" using b state_read_block [of off c LIVE s] by simp
  have "drop_bit 6 (encode c LIVE) = LIVE"
  proof -
    have "unat (encode c LIVE) = c + 1" using unat_encode [OF c(1), of LIVE] by (simp add: LIVE_def)
    then have "unat (drop_bit 6 (encode c LIVE)) = 0" using c(1) by (simp add: drop_bit_eq_div unat_div)
    then show ?thesis by (simp add: LIVE_def unat_eq_0)
  qed
  moreover have "0 < class_size c" using class_size_facts(2) [OF c(1)] by simp
  moreover have "off AND (MIN_BLOCK - 1) = 0" using c(3) low_bits_16 [of off] by (simp add: MIN_BLOCK_def)
  moreover have "off mod 2 ^ 32 = off" using c(2) by simp
  ultimately show ?thesis using k pl c st base
    by (auto simp: reclaim_sidecar_record_def dealloc_small_def Let_def)
qed

subsection \<open>The blocks in the callers' hands\<close>

definition live_of :: "small_segment \<Rightarrow> nat \<Rightarrow> nat option" where
  "live_of s off = (case block s off of None \<Rightarrow> None | Some (c, st) \<Rightarrow> if st = LIVE then Some c else None)"

lemma live_Some: "live_of s off = Some c \<longleftrightarrow> block s off = Some (c, LIVE)"
  by (auto simp: live_of_def split: option.split)

lemma live_bounds:
  assumes "seg_ok base s" and "live_of s off = Some c"
  shows "payload_start (kind (seg_hdr s)) \<le> off" "off + class_size c \<le> bump (seg_hdr s)" "bump (seg_hdr s) \<le> SEGMENT"
    "16 dvd off" "off < SEGMENT" "c < 49"
proof -
  have b: "block s off = Some (c, LIVE)" using assms(2) by (simp only: live_Some)
  show "payload_start (kind (seg_hdr s)) \<le> off" "off + class_size c \<le> bump (seg_hdr s)" "bump (seg_hdr s) \<le> SEGMENT"
    using assms(1) b unfolding seg_ok_def placed_def by blast+
  show "16 dvd off" "off < SEGMENT" "c < 49" using block_bounds [OF b] by simp_all
qed

lemma pop_live:
  assumes ok: "seg_ok base s" and c: "c < 49" and run: "pop_free base c s = Inr (Some p, s')"
  shows "seg_ok base s' \<and> base \<le> p \<and> live_of s (p - base) = None \<and> live_of s' = (live_of s)(p - base \<mapsto> c)"
proof -
  from free_list_of [OF ok c] obtain xs where xs: "free_chain base (cells s) (bins s c) xs" "distinct xs"
    "set xs = {off. block s off = Some (c, FREE)}" .
  from pop_free_ok [OF ok c xs] run obtain x ys where x: "xs = x # ys" and s': "seg_ok base s'" "block s' = issue c LIVE {x} (block s)" "p = base + x"
    by (cases xs) auto
  then have "block s x = Some (c, FREE)" using xs(3) by auto
  then show ?thesis using s' by (auto simp: live_of_def issue_def fun_eq_iff)
qed

lemma refill_live:
  assumes ok: "seg_ok base s" and c: "c < 49" and run: "carve_block_with_refill safe_mode recommit base c (class_size c) s = Inr (Some p, s')"
  shows "seg_ok base s' \<and> base \<le> p \<and> live_of s (p - base) = None \<and> live_of s' = (live_of s)(p - base \<mapsto> c)"
proof -
  let ?a = "carve_start c s"
  have r: "seg_ok base s'" "p = base + ?a" "block s ?a = None" "block s' ?a = Some (c, LIVE)"
    "\<And>off. off \<noteq> ?a \<Longrightarrow> held (block s') off = held (block s) off" "\<And>off. block s off \<noteq> None \<Longrightarrow> block s' off = block s off"
    using carve_with_refill_ok [OF ok c, of recommit safe_mode] run by (auto split: if_splits)
  have "live_of s' off = live_of s off" if "off \<noteq> ?a" for off
  proof (cases "block s off")
    case None
    then have "held (block s') off = None" using r(5) [OF that] by (simp add: held_def)
    then show ?thesis using None by (auto simp: live_of_def held_def split: option.splits if_splits)
  qed (use r(6) [of off] in \<open>simp add: live_of_def\<close>)
  then show ?thesis using r by (auto simp: live_of_def fun_eq_iff)
qed

lemma free_live:
  assumes ok: "seg_ok base s" and b: "live_of s off = Some c"
  shows "\<exists>s'. dealloc_small safe_mode base (base + off) c s = Inr (True, s') \<and> seg_ok base s' \<and> live_of s' = (live_of s)(off := None)"
proof -
  note bd = live_bounds [OF ok b]
  have "base \<le> base + off" "base + off < base + SEGMENT" using bd(5) by simp_all
  from dealloc_small_ok [OF ok bd(6) this, of safe_mode] b [unfolded live_Some] show ?thesis by (auto simp: live_of_def fun_eq_iff)
qed

lemma write_live:
  fixes g :: "nat \<Rightarrow> nat"
  assumes "seg_ok base s" and "live_of s off = Some c"
  defines "s' \<equiv> s\<lparr>cells := \<lambda>p. if off < p + 8 \<and> p < off + class_size c then g p else cells s p\<rparr>"
  shows "seg_ok base s' \<and> live_of s' = live_of s"
  using write_ok [OF assms(1) assms(2) [unfolded live_Some], of g] unfolding s'_def by (simp add: live_of_def fun_eq_iff)

lemma fresh_live: "seg_fresh base s \<Longrightarrow> live_of s = (\<lambda>_. None)"
  by (auto simp: seg_fresh_def fresh_segment_def live_of_def block_def state_read_def decode_def fun_eq_iff)

lemma no_live: "seg_ok base s \<Longrightarrow> live_count (seg_hdr s) = 0 \<Longrightarrow> live_of s = (\<lambda>_. None)"
proof
  fix off assume ok: "seg_ok base s" "live_count (seg_hdr s) = 0"
  then have "dom (held (block s)) = {}" using finite_held [of s] by (simp add: seg_ok_def)
  then have "held (block s) off = None" by blast
  then show "live_of s off = None" by (auto simp: live_of_def held_def split: option.splits if_splits)
qed

subsection \<open>Operations on a good sidecar\<close>

definition side_ok :: "small_sidecar \<Rightarrow> bool" where
  "side_ok S \<longleftrightarrow> length (pending S) = 4096 \<and> leaves_ok (classes S)"

definition pending_bit :: "small_sidecar \<Rightarrow> nat \<Rightarrow> bool" where
  "pending_bit S g \<longleftrightarrow> g < 262144 \<and> bit (pending S ! (g div 64)) (g mod 64)"

lemma granule_of_eq: "granule_of offset = (if offset < 4194304 \<and> 16 dvd offset then Some (offset div 16) else None)"
  by (auto simp: granule_of_def MIN_BLOCK_def)

lemma side_init_ok: "side_ok (sidecar_init m)" "\<not> pending_bit (sidecar_init m) g"
  using leaves_init_ok(1) by (auto simp: side_ok_def sidecar_init_def pending_bit_def WORDS_def GRANULES_def MIN_BLOCK_def)

lemma side_issue_ok:
  assumes ok: "side_ok S" and fresh: "sys \<noteq> 0 \<longrightarrow> fresh_chunk sys (classes S)" and c: "c < 49" "off < SEGMENT" "16 dvd off"
    and run: "side_issue sys off c S = Inr (True, S')"
  shows "side_ok S' \<and> pending S' = pending S \<and> (\<forall>g < 262144. encoded g (classes S') = (if g = off div 16 then c + 1 else encoded g (classes S)))"
proof -
  have L: "leaves_ok (classes S)" using ok by (simp add: side_ok_def)
  have g: "off div 16 < 262144" using c(2) by auto
  obtain S1 where S1: "(if side_prepared off c S then Inr (True, S) else side_prepare sys off c S) = Inr (True, S1)"
    and b: "bitmap_issue off c S1 = (True, S')"
    using run by (auto simp: side_issue_def rbind_Inr_iff split: if_splits)
  have 1: "pending S1 = pending S \<and> leaves_ok (classes S1) \<and> prepared (off div 16) c (classes S1)
    \<and> (\<forall>g < 262144. encoded g (classes S1) = encoded g (classes S))"
  proof (cases "side_prepared off c S")
    case True
    then show ?thesis using S1 L by (auto simp: side_prepared_def MIN_BLOCK_def)
  next
    case False
    then obtain L1 where "prepare sys (off div 16) c (classes S) = Inr (True, L1)" "S1 = S\<lparr>classes := L1\<rparr>"
      using S1 c by (auto simp: side_prepare_def rbind_Inr_iff MIN_BLOCK_def)
    then show ?thesis using leaf_prepare_ok [OF L fresh, of "off div 16" c] by auto
  qed
  then obtain L' where "leaf_issue (off div 16) c (classes S1) = (True, L')" "leaves_ok L'"
    "\<forall>h < 262144. encoded h L' = (if h = off div 16 then c + 1 else encoded h (classes S1))" using leaf_issue_ok by blast
  then show ?thesis using b 1 c ok by (auto simp: bitmap_issue_def granule_of_eq side_ok_def split: if_splits)
qed

lemma publish_or_ok:
  assumes "side_ok S" and "g < 262144"
  shows "side_ok (publish_or g S)" "classes (publish_or g S) = classes S" "pending_bit (publish_or g S) h \<longleftrightarrow> pending_bit S h \<or> h = g"
proof -
  show "side_ok (publish_or g S)" "classes (publish_or g S) = classes S" using assms by (simp_all add: side_ok_def publish_or_def)
  have len: "g div 64 < length (pending S)" using assms by (auto simp: side_ok_def)
  have b: "bit (w OR push_bit (g mod 64) 1 :: u64) (h mod 64) \<longleftrightarrow> bit w (h mod 64) \<or> h mod 64 = g mod 64" for w
    by (auto simp: bit_or_iff bit_exp_iff)
  have "h = g \<longleftrightarrow> h div 64 = g div 64 \<and> h mod 64 = g mod 64" by (metis div_mod_decomp)
  then show "pending_bit (publish_or g S) h \<longleftrightarrow> pending_bit S h \<or> h = g"
    using len b assms(2) by (auto simp: pending_bit_def publish_or_def nth_list_update simp del: push_bit_of_1)
qed

lemma cut_swap_ok:
  assumes "side_ok S" and "w < 4096" and "cut_swap w S = (bits, S')"
  shows "side_ok S'" "classes S' = classes S" "pending_bit S' g \<longleftrightarrow> pending_bit S g \<and> g div 64 \<noteq> w"
    "j < 64 \<Longrightarrow> bit bits j \<longleftrightarrow> pending_bit S (w * 64 + j)"
proof -
  have len: "length (pending S) = 4096" and S': "S' = S\<lparr>pending := (pending S)[w := 0]\<rparr>" and bits: "bits = pending S ! w"
    using assms by (auto simp: cut_swap_def side_ok_def)
  show "side_ok S'" "classes S' = classes S" using assms(1) by (simp_all add: S' side_ok_def)
  show "pending_bit S' g \<longleftrightarrow> pending_bit S g \<and> g div 64 \<noteq> w"
    using len assms(2) by (cases "g div 64 = w") (simp_all add: pending_bit_def S')
  show "j < 64 \<Longrightarrow> bit bits j \<longleftrightarrow> pending_bit S (w * 64 + j)" using assms(2) by (simp add: pending_bit_def bits)
qed
subsection \<open>Properties\<close>

text \<open>C40: The class codes of a sidecar are a map from granules to codes.  On leaves in good order,
  if the system hands out chunks apart from those in use, \<open>prepare\<close> succeeds exactly when the granule and
  the class are in range and there is memory (the leaf is there, the current chunk has a slot left, or the
  system gave a chunk); it changes no code, whatever leaves and chunks it adds.  After it, \<open>issue\<close> writes
  the code of its granule and of no other.  The leaves stay in good order, and dropping them passes the
  assertions of \<open>drop\<close> and gives each chunk back exactly once, one per 16 promotions.\<close>

theorem class_codes_exact:
  assumes "leaves_ok L" and "sys \<noteq> 0 \<longrightarrow> fresh_chunk sys L"
  shows "\<exists>b L1. prepare sys g c L = Inr (b, L1) \<and> leaves_ok L1
    \<and> (b \<longleftrightarrow> \<not> out_of_leaves g c \<and> (prepared g c L \<or> sys \<noteq> 0 \<or> promoted L mod CHUNK_LEAVES \<noteq> 0))
    \<and> (\<forall>h < GRANULES. encoded h L1 = encoded h L)
    \<and> (b \<longrightarrow> (\<exists>L2. leaf_issue g c L1 = (True, L2) \<and> leaves_ok L2
          \<and> (\<forall>h < GRANULES. encoded h L2 = (if h = g then c + 1 else encoded h L))
          \<and> leaves_drop L2 = Inr (free_chunks L2) \<and> distinct (free_chunks L2)
          \<and> length (free_chunks L2) = div_ceil (promoted L2) CHUNK_LEAVES))"
proof -
  have n: "GRANULES = 262144" "CHUNK_LEAVES = 16" by (simp_all add: GRANULES_def MIN_BLOCK_def CHUNK_LEAVES_def)
  obtain b L1 where L1: "prepare sys g c L = Inr (b, L1)" "leaves_ok L1" "b = prepared g c L1"
    "b \<longleftrightarrow> \<not> out_of_leaves g c \<and> (prepared g c L \<or> sys \<noteq> 0 \<or> promoted L mod 16 \<noteq> 0)" "\<forall>h < 262144. encoded h L1 = encoded h L"
    using leaf_prepare_ok [OF assms, of g c] by blast
  have "\<exists>L2. leaf_issue g c L1 = (True, L2) \<and> leaves_ok L2 \<and> (\<forall>h < 262144. encoded h L2 = (if h = g then c + 1 else encoded h L))
      \<and> leaves_drop L2 = Inr (free_chunks L2) \<and> distinct (free_chunks L2) \<and> length (free_chunks L2) = div_ceil (promoted L2) 16" if b
  proof -
    obtain L2 where "leaf_issue g c L1 = (True, L2)" "leaves_ok L2" "\<forall>h < 262144. encoded h L2 = (if h = g then c + 1 else encoded h L1)"
      using leaf_issue_ok [OF L1(2), of g c] L1(3) \<open>b\<close> by blast
    then show ?thesis using leaves_drop_ok [of L2] L1(5) by (simp add: n)
  qed
  then show ?thesis using L1(1,2,4,5) unfolding n by blast
qed

lemma class_codes_exact_witness:
  "\<exists>L1 L2. prepare 4096 5 0 (leaves_init (\<lambda>_. 7)) = Inr (True, L1) \<and> leaf_issue 5 0 L1 = (True, L2) \<and> encoded 5 L2 = 1 \<and> encoded 6 L2 = 0"
proof -
  let ?L = "leaves_init (\<lambda>_. 7)"
  have "fresh_chunk 4096 ?L" by (simp add: fresh_chunk_def leaves_init_def CHUNKS_def LEAVES_def CHUNK_LEAVES_def)
  moreover have "encoded 6 ?L = 0" by (rule leaves_init_ok(2)) simp
  moreover have "\<not> out_of_leaves 5 0" by (simp add: out_of_leaves_def LEAVES_def LEAF_GRANULES_def)
  ultimately show ?thesis using class_codes_exact [OF leaves_init_ok(1), of 4096 "\<lambda>_. 7" 5 0]
    by (auto simp: GRANULES_def MIN_BLOCK_def)
qed

text \<open>The first block of a new sidecar is issued when the system gives a chunk.\<close>

lemma side_issue_new:
  assumes "c < 49" and "off < SEGMENT" and "16 dvd off" and sys: "sys \<noteq> 0"
  shows "fresh_chunk sys (classes (sidecar_init m)) \<and> (\<exists>S. side_issue sys off c (sidecar_init m) = Inr (True, S))"
proof -
  have fresh: "fresh_chunk sys (leaves_init m)" by (simp add: fresh_chunk_def leaves_init_def CHUNKS_def LEAVES_def CHUNK_LEAVES_def)
  have "off div 16 < 262144" using assms(2) by auto
  then have r: "\<not> out_of_leaves (off div 16) c" using assms(1) by (simp add: out_of_leaves_def LEAVES_def LEAF_GRANULES_def)
  from leaf_prepare_ok [OF leaves_init_ok(1), of sys m "off div 16" c] fresh sys r obtain L1 where
    L1: "prepare sys (off div 16) c (leaves_init m) = Inr (True, L1)" "leaves_ok L1" "prepared (off div 16) c L1" by auto
  obtain L2 where "leaf_issue (off div 16) c L1 = (True, L2)" using leaf_issue_ok [OF L1(2,3)] by blast
  moreover have "\<not> side_prepared off c (sidecar_init m)"
    using \<open>off div 16 < 262144\<close> by (simp add: side_prepared_def sidecar_init_def prepared_def leaves_init_def LEAVES_def LEAF_GRANULES_def MIN_BLOCK_def)
  ultimately show ?thesis using assms L1(1) fresh
    by (auto simp: side_issue_def side_prepare_def sidecar_init_def MIN_BLOCK_def bitmap_issue_def granule_of_eq)
qed

end
