(* ===== verification/RemoteFree.thy ===== *)
theory RemoteFree
  imports Sidecar
begin

text \<open>
  Frees by other threads (\<open>registry/segment_route/directory/ingress.rs\<close>, \<open>segment_route/pin.rs\<close>,
  \<open>find_segment/ingress_discovery.rs\<close>, \<open>find_segment/scan.rs\<close>, \<open>alloc_core/sidecar_drain.rs\<close>): one heap
  with its small segments, their routes, and the notification cell of the heap.  A thread that frees a
  block publishes it in the sidecar of the route and notifies the heap once per arming; the owner takes
  the notified slots, arms each and drains it.  One step is one atomic access, in any interleaving, under
  sequential consistency: the code uses \<open>SeqCst\<close> where the order of two locations matters (the bit and
  the ingress state).  Work of the owner that no other thread sees (issuing a block, a free by itself,
  the retirement of one record) is one step.
\<close>

subsection \<open>Routes and the notification cell\<close>

definition ARMED :: nat where "ARMED = 0"
definition NOTIFIED :: nat where "NOTIFIED = 1"
definition INGRESS_WORDS :: nat where "INGRESS_WORDS = 64"

text \<open>\<open>rt_seg\<close> is the segment at \<open>rt_base\<close>: only its owner touches it.\<close>

record remote_route =
  rt_slot :: nat
  rt_state :: nat
  rt_base :: nat
  rt_side :: small_sidecar
  rt_seg :: small_segment

record heap_ingress =
  summary :: u64
  mask :: "u64 list"

definition ingress_new :: heap_ingress where
  "ingress_new = \<lparr>summary = 0, mask = replicate INGRESS_WORDS 0\<rparr>"

definition route_new :: "nat \<Rightarrow> nat \<Rightarrow> (nat \<Rightarrow> nat) \<Rightarrow> small_segment \<Rightarrow> remote_route" where
  "route_new slot base m seg = \<lparr>rt_slot = slot, rt_state = ARMED, rt_base = base, rt_side = sidecar_init m, rt_seg = seg\<rparr>"

text \<open>The two accesses of \<open>HeapIngress::notify\<close>.\<close>

definition notify_mask :: "nat \<Rightarrow> heap_ingress \<Rightarrow> heap_ingress" where
  "notify_mask s H = H\<lparr>mask := (mask H)[s div 64 := (mask H ! (s div 64)) OR push_bit (s mod 64) 1]\<rparr>"

definition notify_summary :: "nat \<Rightarrow> heap_ingress \<Rightarrow> heap_ingress" where
  "notify_summary s H = H\<lparr>summary := summary H OR push_bit (s div 64) 1\<rparr>"

subsection \<open>The threads\<close>

text \<open>Where a call of \<open>publish_small\<close> is: about to read the class code, to set the bit, to load the
  ingress state, to swap it, to mark the slot, to mark its word.\<close>

datatype producer_pc = PIdle | PCheck nat nat | POr nat nat | PLoad nat | PCas nat | PMask nat | PSummary nat

text \<open>Where the owner is.  A position in \<open>take\<close>: the words and the bits still to visit.\<close>

type_synonym take_pos = "u64 \<times> nat \<times> u64"

datatype owner_pc =
    OIdle
  | OSwap
  | OWords u64
  | OBits take_pos
  | OArm take_pos nat
  | OScan take_pos nat nat nat
  | OCut take_pos nat nat nat
  | OPop take_pos nat nat nat u64

record remote_system =
  routes :: "nat \<Rightarrow> remote_route option"
  slot_route :: "nat \<Rightarrow> nat option"
  ingress :: heap_ingress
  producers :: "nat \<Rightarrow> producer_pc"
  owner :: owner_pc
  in_use :: "(nat \<times> nat) set"

definition at_route :: "nat \<Rightarrow> remote_system \<Rightarrow> remote_route" where
  "at_route e s = the (routes s e)"

definition set_route :: "nat \<Rightarrow> remote_route \<Rightarrow> remote_system \<Rightarrow> remote_system" where
  "set_route e r s = s\<lparr>routes := (routes s)(e \<mapsto> r)\<rparr>"

definition go :: "nat \<Rightarrow> producer_pc \<Rightarrow> remote_system \<Rightarrow> remote_system" where
  "go t pc s = s\<lparr>producers := (producers s)(t := pc)\<rparr>"

definition own :: "owner_pc \<Rightarrow> remote_system \<Rightarrow> remote_system" where
  "own pc s = s\<lparr>owner := pc\<rparr>"

text \<open>\<open>publish_small\<close>, its last access and the two accesses of \<open>after_publish\<close> before the marks.  The heap of
  the model has its notification cell: the abort of \<open>notify\<close> on an armed route without one is no branch here.
  The thread has found its route before (\<open>RouteDirectory\<close> models the lookup).\<close>

definition publish_small :: "bool \<Rightarrow> nat \<Rightarrow> nat \<Rightarrow> nat \<Rightarrow> remote_system \<Rightarrow> fatal + remote_system" where
  "publish_small safe_mode t e offset s =
     rbind (publish_check safe_mode offset (rt_side (at_route e s))) (\<lambda>g.
       case g of None \<Rightarrow> Inr (go t PIdle s) | Some granule \<Rightarrow> Inr (go t (POr e granule) s))"

definition publish_bit :: "nat \<Rightarrow> nat \<Rightarrow> nat \<Rightarrow> remote_system \<Rightarrow> remote_system" where
  "publish_bit t e granule s =
     (let r = at_route e s in go t (PLoad e) (set_route e (r\<lparr>rt_side := publish_or granule (rt_side r)\<rparr>) s))"

definition after_publish :: "nat \<Rightarrow> nat \<Rightarrow> remote_system \<Rightarrow> remote_system" where
  "after_publish t e s = go t (if rt_state (at_route e s) = ARMED then PCas e else PIdle) s"

definition notify :: "nat \<Rightarrow> nat \<Rightarrow> remote_system \<Rightarrow> remote_system" where
  "notify t e s =
     (let r = at_route e s
      in if rt_state r = ARMED then go t (PMask e) (set_route e (r\<lparr>rt_state := NOTIFIED\<rparr>) s) else go t PIdle s)"

definition producer_step :: "bool \<Rightarrow> nat \<Rightarrow> remote_system \<Rightarrow> fatal + remote_system" where
  "producer_step safe_mode t s =
     (case producers s t of
        PIdle \<Rightarrow> Inr s
      | PCheck e offset \<Rightarrow> publish_small safe_mode t e offset s
      | POr e granule \<Rightarrow> Inr (publish_bit t e granule s)
      | PLoad e \<Rightarrow> Inr (after_publish t e s)
      | PCas e \<Rightarrow> Inr (notify t e s)
      | PMask e \<Rightarrow> Inr (go t (PSummary e) (s\<lparr>ingress := notify_mask (rt_slot (at_route e s)) (ingress s)\<rparr>))
      | PSummary e \<Rightarrow> Inr (go t PIdle (s\<lparr>ingress := notify_summary (rt_slot (at_route e s)) (ingress s)\<rparr>)))"

text \<open>The words a scan of a segment visits.\<close>

definition start_word :: "small_segment \<Rightarrow> nat" where
  "start_word seg = payload_start (kind (seg_hdr seg)) div SIDECAR_WORD_BYTES"

definition begin_scan :: "take_pos \<Rightarrow> nat \<Rightarrow> remote_system \<Rightarrow> fatal + remote_system" where
  "begin_scan p e s =
     (let r = at_route e s; high_water = bump (seg_hdr (rt_seg r)); end_w = div_ceil high_water SIDECAR_WORD_BYTES
      in case scan_from high_water (min (start_word (rt_seg r)) end_w) (rt_side r) of
           None \<Rightarrow> Inl ''find_segment: routed scan unavailable''
         | Some scan \<Rightarrow> Inr (own (OScan p e (next_word scan) (end_word scan)) s))"

definition arm :: "remote_route \<Rightarrow> remote_route" where [simp]:
  "arm r = r\<lparr>rt_state := ARMED\<rparr>"

definition drain_notified_slot :: "take_pos \<Rightarrow> nat \<Rightarrow> remote_system \<Rightarrow> remote_system" where
  "drain_notified_slot p i s = (case slot_route s i of None \<Rightarrow> own (OBits p) s | Some e \<Rightarrow> own (OArm p e) s)"

text \<open>One access of \<open>take\<close>, and one access or one record of \<open>consume_small_cuts\<close>.\<close>

definition ingress_take :: "remote_system \<Rightarrow> remote_system" where
  "ingress_take s =
     (case owner s of
        OIdle \<Rightarrow> if summary (ingress s) = 0 then s else own OSwap s
      | OSwap \<Rightarrow> own (OWords (summary (ingress s))) (s\<lparr>ingress := (ingress s)\<lparr>summary := 0\<rparr>\<rparr>)
      | OWords words \<Rightarrow>
          if words = 0 then own OIdle s
          else let w = word_tz words
               in own (OBits (words AND (words - 1), w, mask (ingress s) ! w))
                    (s\<lparr>ingress := (ingress s)\<lparr>mask := (mask (ingress s))[w := 0]\<rparr>\<rparr>)
      | OBits (words, w, bits) \<Rightarrow>
          if bits = 0 then own (OWords words) s
          else drain_notified_slot (words, w, bits AND (bits - 1)) (w * 64 + word_tz bits) s
      | _ \<Rightarrow> s)"

definition consume_small_cuts :: "bool \<Rightarrow> remote_system \<Rightarrow> fatal + remote_system" where
  "consume_small_cuts safe_mode s =
     (case owner s of
        OScan p e k end_w \<Rightarrow>
          if k = end_w then Inr (own (OBits p) s)
          else rbind (cut_load k (rt_side (at_route e s))) (\<lambda>bits.
            Inr (own (if bits = 0 then OScan p e (k + 1) end_w else OCut p e k end_w) s))
      | OCut p e k end_w \<Rightarrow>
          let r = at_route e s; (bits, side) = cut_swap k (rt_side r)
          in Inr (own (OPop p e k end_w bits) (set_route e (r\<lparr>rt_side := side\<rparr>) s))
      | OPop p e k end_w bits \<Rightarrow>
          let r = at_route e s
          in rbind (cut_pop (classes (rt_side r)) \<lparr>cut_word = k, cut_bits = bits\<rparr>) (\<lambda>(record, d).
             case record of
               None \<Rightarrow> Inr (own (OScan p e (k + 1) end_w) s)
             | Some x \<Rightarrow> rbind (reclaim_sidecar_record safe_mode (rt_base r) (rec_offset x) (rec_class x) (rt_seg r)) (\<lambda>(reclaimed, seg).
                 Inr (own (OPop p e k end_w (cut_bits d)) (set_route e (r\<lparr>rt_seg := seg\<rparr>) s))))
      | _ \<Rightarrow> Inr s)"

definition owner_step :: "bool \<Rightarrow> remote_system \<Rightarrow> fatal + remote_system" where
  "owner_step safe_mode s =
     (case owner s of
        OArm p e \<Rightarrow> begin_scan p e (set_route e (arm (at_route e s)) s)
      | OScan _ _ _ _ \<Rightarrow> consume_small_cuts safe_mode s
      | OCut _ _ _ _ \<Rightarrow> consume_small_cuts safe_mode s
      | OPop _ _ _ _ _ \<Rightarrow> consume_small_cuts safe_mode s
      | _ \<Rightarrow> Inr (ingress_take s))"

subsection \<open>The system\<close>

text \<open>The place in \<open>take\<close> of a scan outside it, by a trim or a maintenance step.\<close>

definition no_take :: take_pos where "no_take = (0, 0, 0)"

inductive remote_step :: "bool \<Rightarrow> remote_system \<Rightarrow> remote_system \<Rightarrow> bool" for safe_mode :: bool where
  remote_free: "producers s t = PIdle \<Longrightarrow> (e, g) \<in> in_use s
    \<Longrightarrow> remote_step safe_mode s (go t (PCheck e (g * MIN_BLOCK)) (s\<lparr>in_use := in_use s - {(e, g)}\<rparr>))"
| remote_producer: "producer_step safe_mode t s = Inr s' \<Longrightarrow> remote_step safe_mode s s'"
| remote_owner: "owner_step safe_mode s = Inr s' \<Longrightarrow> remote_step safe_mode s s'"
| remote_trim: "owner s = OIdle \<Longrightarrow> slot_route s i = Some e \<Longrightarrow> seg = rt_seg (at_route e s) \<Longrightarrow> start_word seg \<le> k \<Longrightarrow> k \<le> end_w
    \<Longrightarrow> end_w \<le> div_ceil (bump (seg_hdr seg)) SIDECAR_WORD_BYTES \<Longrightarrow> remote_step safe_mode s (own (OScan no_take e k end_w) s)"
| remote_issue: "owner s = OIdle \<Longrightarrow> slot_route s i = Some e \<Longrightarrow> r = at_route e s \<Longrightarrow> c < SMALL_CLASS_COUNT
    \<Longrightarrow> pop_free (rt_base r) c (rt_seg r) = Inr (Some p, seg)
        \<or> carve_block_with_refill safe_mode recommit (rt_base r) c (class_size c) (rt_seg r) = Inr (Some p, seg)
    \<Longrightarrow> sys \<noteq> 0 \<longrightarrow> fresh_chunk sys (classes (rt_side r)) \<Longrightarrow> side_issue sys (p - rt_base r) c (rt_side r) = Inr (True, side)
    \<Longrightarrow> remote_step safe_mode s (set_route e (r\<lparr>rt_seg := seg, rt_side := side\<rparr>)
          (s\<lparr>in_use := insert (e, (p - rt_base r) div MIN_BLOCK) (in_use s)\<rparr>))"
| remote_own_free: "owner s = OIdle \<Longrightarrow> (e, g) \<in> in_use s \<Longrightarrow> r = at_route e s \<Longrightarrow> live_of (rt_seg r) (g * MIN_BLOCK) = Some c
    \<Longrightarrow> dealloc_small safe_mode (rt_base r) (rt_base r + g * MIN_BLOCK) c (rt_seg r) = Inr (freed, seg)
    \<Longrightarrow> remote_step safe_mode s (set_route e (r\<lparr>rt_seg := seg\<rparr>) (s\<lparr>in_use := in_use s - {(e, g)}\<rparr>))"
| remote_write: "(e, g) \<in> in_use s \<Longrightarrow> r = at_route e s \<Longrightarrow> live_of (rt_seg r) (g * MIN_BLOCK) = Some c
    \<Longrightarrow> remote_step safe_mode s (set_route e (r\<lparr>rt_seg := (rt_seg r)\<lparr>cells := \<lambda>q. if g * MIN_BLOCK < q + 8 \<and> q < g * MIN_BLOCK + class_size c
          then f q else cells (rt_seg r) q\<rparr>\<rparr>) s)"
| remote_register: "owner s = OIdle \<Longrightarrow> i < 64 * INGRESS_WORDS \<Longrightarrow> slot_route s i = None \<Longrightarrow> routes s e = None \<Longrightarrow> seg_fresh base seg
    \<Longrightarrow> remote_step safe_mode s (set_route e (route_new i base m seg) (s\<lparr>slot_route := (slot_route s)(i \<mapsto> e)\<rparr>))"
| remote_release: "owner s = OIdle \<or> (\<exists>p. owner s = OBits p) \<Longrightarrow> slot_route s i = Some e \<Longrightarrow> live_count (seg_hdr (rt_seg (at_route e s))) = 0
    \<Longrightarrow> remote_step safe_mode s (s\<lparr>slot_route := (slot_route s)(i := None)\<rparr>)"

definition remote_start :: "remote_system \<Rightarrow> bool" where
  "remote_start s \<longleftrightarrow> routes s = (\<lambda>_. None) \<and> slot_route s = (\<lambda>_. None) \<and> ingress s = ingress_new
     \<and> producers s = (\<lambda>_. PIdle) \<and> owner s = OIdle \<and> in_use s = {}"

subsection \<open>Where the blocks are\<close>

text \<open>
  The live blocks \<open>L\<close> of all segments are in the callers' hands (\<open>U\<close>), held by one thread that frees
  them (\<open>H\<close>), pending (\<open>P\<close>) or detached by the owner (\<open>D\<close>), each in one place.
\<close>

definition places_ok :: "'a set \<Rightarrow> (nat \<Rightarrow> 'a option) \<Rightarrow> 'a set \<Rightarrow> 'a set \<Rightarrow> 'a set \<Rightarrow> bool" where
  "places_ok U H P D L \<longleftrightarrow> L = U \<union> ran H \<union> P \<union> D \<and> U \<inter> P = {} \<and> U \<inter> D = {} \<and> P \<inter> D = {}
     \<and> (\<forall>t x. H t = Some x \<longrightarrow> x \<notin> U \<and> x \<notin> P \<and> x \<notin> D) \<and> (\<forall>t u x. H t = Some x \<longrightarrow> H u = Some x \<longrightarrow> t = u)"

lemma places_free: "places_ok U H P D L \<Longrightarrow> x \<in> U \<Longrightarrow> H t = None \<Longrightarrow> places_ok (U - {x}) (H(t \<mapsto> x)) P D L"
  unfolding places_ok_def by (auto simp: ran_map_upd split: if_splits)

lemma places_publish:
  assumes ok: "places_ok U H P D L" and t: "H t = Some x"
  shows "places_ok U (H(t := None)) (insert x P) D L"
proof -
  have "ran H = insert x (ran (H(t := None)))"
  proof (intro equalityI subsetI)
    fix y assume "y \<in> ran H"
    then obtain u where "H u = Some y" by (auto simp: ran_def)
    then show "y \<in> insert x (ran (H(t := None)))" using t by (cases "u = t") (auto simp: ran_def)
  qed (use t in \<open>auto simp: ran_def split: if_splits\<close>)
  moreover have "x \<notin> ran (H(t := None))" using ok t unfolding places_ok_def by (auto simp: ran_def)
  ultimately show ?thesis using ok t unfolding places_ok_def by (auto simp: ran_def split: if_splits)
qed

lemma places_cut: "places_ok U H P {} L \<Longrightarrow> places_ok U H {x \<in> P. \<not> c x} {x \<in> P. c x} L"
  unfolding places_ok_def by blast

lemma places_reclaim: "places_ok U H P D L \<Longrightarrow> x \<in> D \<Longrightarrow> places_ok U H P (D - {x}) (L - {x})"
  unfolding places_ok_def by (auto simp: ran_def)

lemma places_issue: "places_ok U H P D L \<Longrightarrow> x \<notin> L \<Longrightarrow> places_ok (insert x U) H P D (insert x L)"
  unfolding places_ok_def by (auto simp: ran_def)

lemma places_own_free: "places_ok U H P D L \<Longrightarrow> x \<in> U \<Longrightarrow> places_ok (U - {x}) H P D (L - {x})"
  unfolding places_ok_def by (auto simp: ran_def)

fun holding :: "producer_pc \<Rightarrow> (nat \<times> nat) option" where
  "holding (PCheck e offset) = Some (e, offset div 16)"
| "holding (POr e g) = Some (e, g)"
| "holding pc = None"

definition live_blocks :: "remote_system \<Rightarrow> (nat \<times> nat) set" where
  "live_blocks s = {(e, g). \<exists>r. routes s e = Some r \<and> live_of (rt_seg r) (16 * g) \<noteq> None}"

definition pending_blocks :: "remote_system \<Rightarrow> (nat \<times> nat) set" where
  "pending_blocks s = {(e, g). \<exists>r. routes s e = Some r \<and> pending_bit (rt_side r) g}"

definition cut_blocks :: "owner_pc \<Rightarrow> (nat \<times> nat) set" where
  "cut_blocks pc = (case pc of OPop p e k n bits \<Rightarrow> {(e, g) | g. g div 64 = k \<and> bit bits (g mod 64)} | _ \<Rightarrow> {})"

abbreviation held_by :: "remote_system \<Rightarrow> nat \<Rightarrow> (nat \<times> nat) option" where
  "held_by s \<equiv> \<lambda>t. holding (producers s t)"

definition blocks_good :: "remote_system \<Rightarrow> bool" where
  "blocks_good s \<longleftrightarrow> places_ok (in_use s) (held_by s) (pending_blocks s) (cut_blocks (owner s)) (live_blocks s)"

subsection \<open>The invariant\<close>

definition current :: "remote_system \<Rightarrow> nat \<Rightarrow> bool" where
  "current s e \<longleftrightarrow> slot_route s (rt_slot (at_route e s)) = Some e"

definition remote_route_good :: "remote_route \<Rightarrow> bool" where
  "remote_route_good r \<longleftrightarrow> rt_slot r < 4096 \<and> side_ok (rt_side r) \<and> seg_ok (rt_base r) (rt_seg r)
     \<and> (\<forall>off c. live_of (rt_seg r) off = Some c \<longrightarrow> encoded (off div 16) (classes (rt_side r)) = c + 1)"

definition routes_good :: "remote_system \<Rightarrow> bool" where
  "routes_good s \<longleftrightarrow> (\<forall>e r. routes s e = Some r \<longrightarrow> remote_route_good r \<and> (\<not> current s e \<longrightarrow> (\<forall>off. live_of (rt_seg r) off = None)))
     \<and> (\<forall>i e. slot_route s i = Some e \<longrightarrow> routes s e \<noteq> None \<and> rt_slot (at_route e s) = i)"

fun route_of :: "producer_pc \<Rightarrow> nat option" where
  "route_of PIdle = None"
| "route_of (PCheck e _) = Some e"
| "route_of (POr e _) = Some e"
| "route_of (PLoad e) = Some e"
| "route_of (PCas e) = Some e"
| "route_of (PMask e) = Some e"
| "route_of (PSummary e) = Some e"

definition producers_good :: "remote_system \<Rightarrow> bool" where
  "producers_good s \<longleftrightarrow> (\<forall>t e. route_of (producers s t) = Some e \<longrightarrow> routes s e \<noteq> None)
     \<and> (\<forall>t e off. producers s t = PCheck e off \<longrightarrow> 16 dvd off)"

fun take_pos_of :: "owner_pc \<Rightarrow> take_pos option" where
  "take_pos_of (OBits p) = Some p"
| "take_pos_of (OArm p _) = Some p"
| "take_pos_of (OScan p _ _ _) = Some p"
| "take_pos_of (OCut p _ _ _) = Some p"
| "take_pos_of (OPop p _ _ _ _) = Some p"
| "take_pos_of _ = None"

fun scanned :: "owner_pc \<Rightarrow> (nat \<times> nat \<times> nat) option" where
  "scanned (OScan _ e k n) = Some (e, k, n)"
| "scanned (OCut _ e k n) = Some (e, k, n)"
| "scanned (OPop _ e k n _) = Some (e, k, n)"
| "scanned _ = None"

definition owner_good :: "remote_system \<Rightarrow> bool" where
  "owner_good s \<longleftrightarrow> (\<forall>words w bits. take_pos_of (owner s) = Some (words, w, bits) \<longrightarrow> w < 64)
     \<and> (\<forall>p e. owner s = OArm p e \<longrightarrow> current s e \<and> routes s e \<noteq> None)
     \<and> (\<forall>e k n. scanned (owner s) = Some (e, k, n) \<longrightarrow> current s e \<and> routes s e \<noteq> None \<and> k \<le> n \<and> n \<le> 4096)
     \<and> (\<forall>p e k n. owner s = OCut p e k n \<longrightarrow> k < n) \<and> (\<forall>p e k n b. owner s = OPop p e k n b \<longrightarrow> k < n)"

definition anyone :: "remote_system \<Rightarrow> (producer_pc \<Rightarrow> bool) \<Rightarrow> bool" where
  "anyone s Q \<longleftrightarrow> (\<exists>t. Q (producers s t))"

text \<open>A slot that was notified is marked, or about to be, or in the owner's hands.\<close>

definition in_hand :: "owner_pc \<Rightarrow> nat \<Rightarrow> bool" where
  "in_hand pc i \<longleftrightarrow> (\<exists>words bits. take_pos_of pc = Some (words, i div 64, bits) \<and> bit bits (i mod 64))"

definition marked :: "heap_ingress \<Rightarrow> nat \<Rightarrow> bool" where
  "marked H i \<longleftrightarrow> bit (mask H ! (i div 64)) (i mod 64)"

definition noted :: "remote_system \<Rightarrow> nat \<Rightarrow> bool" where
  "noted s i \<longleftrightarrow> anyone s (\<lambda>pc. \<exists>e. pc = PMask e \<and> rt_slot (at_route e s) = i) \<or> marked (ingress s) i
     \<or> in_hand (owner s) i \<or> (\<exists>p e. owner s = OArm p e \<and> rt_slot (at_route e s) = i)"

definition words_left :: "owner_pc \<Rightarrow> nat \<Rightarrow> bool" where
  "words_left pc w \<longleftrightarrow> (\<exists>words. (pc = OWords words \<or> (\<exists>v bits. take_pos_of pc = Some (words, v, bits))) \<and> bit words w)"

definition summed :: "remote_system \<Rightarrow> nat \<Rightarrow> bool" where
  "summed s w \<longleftrightarrow> bit (summary (ingress s)) w \<or> words_left (owner s) w
     \<or> anyone s (\<lambda>pc. \<exists>e. pc = PSummary e \<and> rt_slot (at_route e s) div 64 = w)"

definition loading :: "remote_system \<Rightarrow> nat \<Rightarrow> bool" where
  "loading s e \<longleftrightarrow> anyone s (\<lambda>pc. pc = PLoad e \<or> pc = PCas e)"

text \<open>The words of a scan not yet cut.\<close>

definition ahead :: "owner_pc \<Rightarrow> nat \<Rightarrow> nat \<Rightarrow> bool" where
  "ahead pc e w \<longleftrightarrow> (case pc of
       OScan p e' k n \<Rightarrow> e' = e \<and> k \<le> w \<and> w < n
     | OCut p e' k n \<Rightarrow> e' = e \<and> k \<le> w \<and> w < n
     | OPop p e' k n b \<Rightarrow> e' = e \<and> k < w \<and> w < n
     | _ \<Rightarrow> False)"

definition ingress_good :: "remote_system \<Rightarrow> bool" where
  "ingress_good s \<longleftrightarrow> length (mask (ingress s)) = 64
     \<and> (\<forall>i < 4096. marked (ingress s) i \<longrightarrow> summed s (i div 64))
     \<and> (\<forall>e r. routes s e = Some r \<longrightarrow> current s e \<longrightarrow> rt_state r \<noteq> ARMED \<longrightarrow> noted s (rt_slot r))
     \<and> (\<forall>e r g. routes s e = Some r \<longrightarrow> current s e \<longrightarrow> rt_state r = ARMED \<longrightarrow> pending_bit (rt_side r) g
          \<longrightarrow> loading s e \<or> ahead (owner s) e (g div 64))"

definition remote_good :: "remote_system \<Rightarrow> bool" where
  "remote_good s \<longleftrightarrow> blocks_good s \<and> routes_good s \<and> producers_good s \<and> owner_good s \<and> ingress_good s"

subsection \<open>Parts of the state\<close>

lemma go_fields [simp]:
  "routes (go t pc s) = routes s" "slot_route (go t pc s) = slot_route s" "ingress (go t pc s) = ingress s"
  "owner (go t pc s) = owner s" "in_use (go t pc s) = in_use s" "producers (go t pc s) = (producers s)(t := pc)"
  "at_route e (go t pc s) = at_route e s"
  by (simp_all add: go_def at_route_def)

lemma own_fields [simp]:
  "routes (own pc s) = routes s" "slot_route (own pc s) = slot_route s" "ingress (own pc s) = ingress s"
  "owner (own pc s) = pc" "in_use (own pc s) = in_use s" "producers (own pc s) = producers s" "at_route e (own pc s) = at_route e s"
  by (simp_all add: own_def at_route_def)

lemma set_route_fields [simp]:
  "routes (set_route e r s) = (routes s)(e \<mapsto> r)" "slot_route (set_route e r s) = slot_route s" "ingress (set_route e r s) = ingress s"
  "owner (set_route e r s) = owner s" "in_use (set_route e r s) = in_use s" "producers (set_route e r s) = producers s"
  "at_route x (set_route e r s) = (if x = e then r else at_route x s)"
  by (simp_all add: set_route_def at_route_def)

lemma upd_fields [simp]:
  "at_route e (s\<lparr>ingress := H\<rparr>) = at_route e s" "at_route e (s\<lparr>in_use := U\<rparr>) = at_route e s" "at_route e (s\<lparr>slot_route := R\<rparr>) = at_route e s"
  by (simp_all add: at_route_def)

lemma anyone_simps [simp]:
  "anyone (set_route e r s) Q = anyone s Q" "anyone (own pc s) Q = anyone s Q" "anyone (s\<lparr>ingress := H\<rparr>) Q = anyone s Q"
  "anyone (s\<lparr>in_use := U\<rparr>) Q = anyone s Q" "anyone (s\<lparr>slot_route := R\<rparr>) Q = anyone s Q"
  by (simp_all add: anyone_def)

lemma anyone_go: "\<not> Q (producers s t) \<Longrightarrow> anyone (go t pc s) Q \<longleftrightarrow> Q pc \<or> anyone s Q"
  unfolding anyone_def by (metis go_fields(6) fun_upd_apply)

lemma anyone_here: "Q pc \<Longrightarrow> anyone (go t pc s) Q"
  unfolding anyone_def by (metis go_fields(6) fun_upd_same)

lemma at_route_Some [simp]: "routes s e = Some r \<Longrightarrow> at_route e s = r"
  by (simp add: at_route_def)

lemma current_cong:
  "slot_route s' = slot_route s \<Longrightarrow> rt_slot (at_route e s') = rt_slot (at_route e s) \<Longrightarrow> current s' e = current s e"
  by (simp add: current_def)

lemma goodD:
  assumes "remote_good s"
  shows "blocks_good s" "routes_good s" "producers_good s" "owner_good s" "ingress_good s"
  using assms by (simp_all add: remote_good_def)

lemma remote_route_goodD:
  assumes "remote_route_good r"
  shows "rt_slot r < 4096" "side_ok (rt_side r)" "seg_ok (rt_base r) (rt_seg r)"
    "live_of (rt_seg r) off = Some c \<Longrightarrow> encoded (off div 16) (classes (rt_side r)) = c + 1"
  using assms by (simp_all add: remote_route_good_def)

lemma routes_goodD:
  assumes "routes_good s"
  shows "routes s e = Some r \<Longrightarrow> remote_route_good r" "routes s e = Some r \<Longrightarrow> \<not> current s e \<Longrightarrow> live_of (rt_seg r) off = None"
    "slot_route s i = Some e \<Longrightarrow> \<exists>r. routes s e = Some r \<and> rt_slot r = i"
proof -
  show "routes s e = Some r \<Longrightarrow> remote_route_good r" "routes s e = Some r \<Longrightarrow> \<not> current s e \<Longrightarrow> live_of (rt_seg r) off = None"
    using assms unfolding routes_good_def by blast+
  assume "slot_route s i = Some e"
  then have "routes s e \<noteq> None" "rt_slot (at_route e s) = i" using assms unfolding routes_good_def by blast+
  then show "\<exists>r. routes s e = Some r \<and> rt_slot r = i" by auto
qed

lemma ingress_goodD:
  assumes "ingress_good s"
  shows "length (mask (ingress s)) = 64" "i < 4096 \<Longrightarrow> marked (ingress s) i \<Longrightarrow> summed s (i div 64)"
    "routes s e = Some r \<Longrightarrow> current s e \<Longrightarrow> rt_state r \<noteq> ARMED \<Longrightarrow> noted s (rt_slot r)"
    "routes s e = Some r \<Longrightarrow> current s e \<Longrightarrow> rt_state r = ARMED \<Longrightarrow> pending_bit (rt_side r) g \<Longrightarrow> loading s e \<or> ahead (owner s) e (g div 64)"
  using assms unfolding ingress_good_def by blast+

lemma ingress_goodI:
  assumes "length (mask (ingress s)) = 64" "\<And>i. i < 4096 \<Longrightarrow> marked (ingress s) i \<Longrightarrow> summed s (i div 64)"
    "\<And>e r. routes s e = Some r \<Longrightarrow> current s e \<Longrightarrow> rt_state r \<noteq> ARMED \<Longrightarrow> noted s (rt_slot r)"
    "\<And>e r g. routes s e = Some r \<Longrightarrow> current s e \<Longrightarrow> rt_state r = ARMED \<Longrightarrow> pending_bit (rt_side r) g \<Longrightarrow> loading s e \<or> ahead (owner s) e (g div 64)"
  shows "ingress_good s"
  using assms unfolding ingress_good_def by blast

lemma below_div_ceil:
  assumes "x < b" and "0 < m"
  shows "x div m < div_ceil b m"
proof (cases "b mod m = 0")
  case True
  then have "x < b div m * m" using assms(1) by (metis add_0_right div_mult_mod_eq)
  then show ?thesis using True by (simp add: div_ceil_def less_mult_imp_div_less)
next
  case False
  then show ?thesis using div_le_mono [of x b m] assms(1) by (simp add: div_ceil_def)
qed

text \<open>A block that is being freed, pending or detached is live, at a granule of its segment.\<close>

lemma block_facts:
  assumes good: "remote_good s" and "(e, g) \<in> in_use s \<union> ran (held_by s) \<union> pending_blocks s \<union> cut_blocks (owner s)"
  shows "\<exists>r c. routes s e = Some r \<and> remote_route_good r \<and> current s e \<and> live_of (rt_seg r) (16 * g) = Some c \<and> g < 262144 \<and> c < 49
    \<and> encoded g (classes (rt_side r)) = c + 1 \<and> start_word (rt_seg r) \<le> g div 64 \<and> g div 64 < div_ceil (bump (seg_hdr (rt_seg r))) 1024"
proof -
  have "(e, g) \<in> live_blocks s" using goodD(1) [OF good] assms(2) unfolding blocks_good_def places_ok_def by blast
  then obtain r c where r: "routes s e = Some r" "live_of (rt_seg r) (16 * g) = Some c" by (auto simp: live_blocks_def)
  have rg: "remote_route_good r" by (rule routes_goodD(1) [OF goodD(2) [OF good] r(1)])
  have cur: "current s e" using routes_goodD(2) [OF goodD(2) [OF good] r(1), of "16 * g"] r(2) by auto
  note b = live_bounds [OF remote_route_goodD(3) [OF rg] r(2)]
  have "16 * g < bump (seg_hdr (rt_seg r))" using b(2) class_size_facts(2) [OF b(6)] by linarith
  from below_div_ceil [OF this, of 1024] have "g div 64 < div_ceil (bump (seg_hdr (rt_seg r))) 1024" by simp
  moreover have "start_word (rt_seg r) \<le> g div 64"
  proof -
    have "payload_start (kind (seg_hdr (rt_seg r))) div 1024 \<le> (16 * g) div 1024" using b(1) by (rule div_le_mono)
    then show ?thesis by (simp add: start_word_def SIDECAR_WORD_BYTES_def MIN_BLOCK_def)
  qed
  ultimately show ?thesis using r rg cur b(5,6) remote_route_goodD(4) [OF rg r(2)] by auto
qed

lemma held_live: "remote_good s \<Longrightarrow> holding (producers s t) = Some (e, g) \<Longrightarrow> (e, g) \<in> ran (held_by s)"
  by (auto simp: ran_def)

text \<open>The two programs, access by access.\<close>

lemma producer_step_eq:
  "producer_step safe_mode t s =
     (case producers s t of
        PIdle \<Rightarrow> Inr s
      | PCheck e offset \<Rightarrow>
          rbind (publish_check safe_mode offset (rt_side (at_route e s))) (\<lambda>g.
            case g of None \<Rightarrow> Inr (go t PIdle s) | Some granule \<Rightarrow> Inr (go t (POr e granule) s))
      | POr e granule \<Rightarrow>
          let r = at_route e s
          in Inr (go t (PLoad e) (set_route e (r\<lparr>rt_side := publish_or granule (rt_side r)\<rparr>) s))
      | PLoad e \<Rightarrow> Inr (go t (if rt_state (at_route e s) = ARMED then PCas e else PIdle) s)
      | PCas e \<Rightarrow>
          let r = at_route e s
          in if rt_state r = ARMED then Inr (go t (PMask e) (set_route e (r\<lparr>rt_state := NOTIFIED\<rparr>) s)) else Inr (go t PIdle s)
      | PMask e \<Rightarrow> Inr (go t (PSummary e) (s\<lparr>ingress := notify_mask (rt_slot (at_route e s)) (ingress s)\<rparr>))
      | PSummary e \<Rightarrow> Inr (go t PIdle (s\<lparr>ingress := notify_summary (rt_slot (at_route e s)) (ingress s)\<rparr>)))"
  by (simp add: producer_step_def publish_small_def publish_bit_def after_publish_def notify_def Let_def split: producer_pc.split)

lemma owner_step_eq:
  "owner_step safe_mode s =
     (case owner s of
        OIdle \<Rightarrow> Inr (if summary (ingress s) = 0 then s else own OSwap s)
      | OSwap \<Rightarrow> Inr (own (OWords (summary (ingress s))) (s\<lparr>ingress := (ingress s)\<lparr>summary := 0\<rparr>\<rparr>))
      | OWords words \<Rightarrow>
          if words = 0 then Inr (own OIdle s)
          else let w = word_tz words
               in Inr (own (OBits (words AND (words - 1), w, mask (ingress s) ! w))
                    (s\<lparr>ingress := (ingress s)\<lparr>mask := (mask (ingress s))[w := 0]\<rparr>\<rparr>))
      | OBits (words, w, bits) \<Rightarrow>
          if bits = 0 then Inr (own (OWords words) s)
          else let p = (words, w, bits AND (bits - 1))
               in (case slot_route s (w * 64 + word_tz bits) of None \<Rightarrow> Inr (own (OBits p) s) | Some e \<Rightarrow> Inr (own (OArm p e) s))
      | OArm p e \<Rightarrow> begin_scan p e (set_route e (arm (at_route e s)) s)
      | OScan p e k end_w \<Rightarrow>
          if k = end_w then Inr (own (OBits p) s)
          else rbind (cut_load k (rt_side (at_route e s))) (\<lambda>bits.
            Inr (own (if bits = 0 then OScan p e (k + 1) end_w else OCut p e k end_w) s))
      | OCut p e k end_w \<Rightarrow>
          let r = at_route e s; (bits, side) = cut_swap k (rt_side r)
          in Inr (own (OPop p e k end_w bits) (set_route e (r\<lparr>rt_side := side\<rparr>) s))
      | OPop p e k end_w bits \<Rightarrow>
          let r = at_route e s
          in rbind (cut_pop (classes (rt_side r)) \<lparr>cut_word = k, cut_bits = bits\<rparr>) (\<lambda>(record, d).
             case record of
               None \<Rightarrow> Inr (own (OScan p e (k + 1) end_w) s)
             | Some x \<Rightarrow> rbind (reclaim_sidecar_record safe_mode (rt_base r) (rec_offset x) (rec_class x) (rt_seg r)) (\<lambda>(reclaimed, seg).
                 Inr (own (OPop p e k end_w (cut_bits d)) (set_route e (r\<lparr>rt_seg := seg\<rparr>) s)))))"
  by (simp add: owner_step_def ingress_take_def consume_small_cuts_def drain_notified_slot_def Let_def split: owner_pc.split prod.split option.split)

subsection \<open>The steps of a freeing thread\<close>

lemma holding_go: "holding ((producers (go t pc s)) u) = (if u = t then holding pc else holding (producers s u))"
  by simp

lemma held_by_go: "held_by (go t pc s) = (held_by s)(t := holding pc)"
  by (auto simp: fun_eq_iff)

lemma blocks_cong:
  assumes "in_use s' = in_use s" "held_by s' = held_by s" "pending_blocks s' = pending_blocks s" "cut_blocks (owner s') = cut_blocks (owner s)"
    "live_blocks s' = live_blocks s"
  shows "blocks_good s' = blocks_good s"
  unfolding blocks_good_def assms ..
definition rest_good :: "remote_system \<Rightarrow> bool" where
  "rest_good s \<longleftrightarrow> routes_good s \<and> producers_good s \<and> owner_good s \<and> ingress_good s"

lemma good_split: "remote_good s \<longleftrightarrow> blocks_good s \<and> rest_good s"
  by (simp add: remote_good_def rest_good_def)

lemma rest_goodD:
  assumes "rest_good s"
  shows "routes_good s" "producers_good s" "owner_good s" "ingress_good s"
  using assms by (simp_all add: rest_good_def)

lemma rest_in_use [simp]: "rest_good (s\<lparr>in_use := U\<rparr>) = rest_good s"
proof -
  have "current (s\<lparr>in_use := U\<rparr>) = current s" by (simp add: current_def fun_eq_iff)
  moreover have "noted (s\<lparr>in_use := U\<rparr>) = noted s" "summed (s\<lparr>in_use := U\<rparr>) = summed s" "loading (s\<lparr>in_use := U\<rparr>) = loading s"
    by (simp_all add: fun_eq_iff noted_def summed_def loading_def)
  ultimately show ?thesis by (simp add: rest_good_def routes_good_def producers_good_def owner_good_def ingress_good_def)
qed

text \<open>A step that moves a thread and drops neither a duty to mark nor one to look at the ingress state.\<close>

lemma move_rest:
  assumes good: "rest_good s" and r: "\<And>e. route_of pc = Some e \<Longrightarrow> routes s e \<noteq> None"
    and c: "\<And>e off. pc = PCheck e off \<Longrightarrow> 16 dvd off"
    and l: "\<And>e. producers s t \<in> {PLoad e, PCas e} \<Longrightarrow> current s e \<Longrightarrow> rt_state (at_route e s) = ARMED \<Longrightarrow> pc \<in> {PLoad e, PCas e}"
    and m: "\<And>e. producers s t \<noteq> PMask e" and u: "\<And>e. producers s t \<noteq> PSummary e"
  shows "rest_good (go t pc s)"
proof -
  let ?s = "go t pc s"
  note g = rest_goodD [OF good]
  have cur: "current ?s = current s" by (simp add: current_def fun_eq_iff)
  have "routes_good ?s" using g(1) unfolding routes_good_def cur by simp
  moreover have "producers_good ?s" using g(2) r c unfolding producers_good_def by auto
  moreover have "owner_good ?s" using g(3) unfolding owner_good_def cur by simp
  moreover have "ingress_good ?s"
  proof -
    have "noted s i \<Longrightarrow> noted ?s i" for i unfolding noted_def using m by (auto simp: anyone_go)
    moreover have "summed s w \<Longrightarrow> summed ?s w" for w unfolding summed_def using u by (auto simp: anyone_go)
    moreover have "loading ?s e" if "loading s e" "current s e" "rt_state (at_route e s) = ARMED" for e
    proof (cases "producers s t \<in> {PLoad e, PCas e}")
      case True
      then have "pc \<in> {PLoad e, PCas e}" using l that by blast
      then show ?thesis unfolding loading_def by (intro anyone_here) auto
    next
      case False
      then show ?thesis using that(1) unfolding loading_def by (simp add: anyone_go)
    qed
    moreover note inv = ingress_goodD [OF g(4)]
    ultimately show ?thesis
      by (intro ingress_goodI; unfold cur go_fields) (rule inv(1), blast dest: inv(2), blast dest: inv(3), metis inv(4) at_route_Some)
  qed
  ultimately show ?thesis by (simp add: rest_good_def)
qed

lemma move_blocks: "blocks_good s \<Longrightarrow> holding pc = holding (producers s t) \<Longrightarrow> blocks_good (go t pc s)"
proof -
  assume ok: "blocks_good s" and h: "holding pc = holding (producers s t)"
  have "held_by (go t pc s) = held_by s" unfolding held_by_go using h by auto
  then show ?thesis using ok by (subst blocks_cong [of "go t pc s" s]) (simp_all add: pending_blocks_def live_blocks_def)
qed

lemma free_step:
  assumes good: "remote_good s" and t: "producers s t = PIdle" and u: "(e, g) \<in> in_use s"
  shows "remote_good (go t (PCheck e (g * MIN_BLOCK)) (s\<lparr>in_use := in_use s - {(e, g)}\<rparr>))"
proof -
  let ?s = "go t (PCheck e (g * MIN_BLOCK)) (s\<lparr>in_use := in_use s - {(e, g)}\<rparr>)"
  have "routes s e \<noteq> None" using block_facts [OF good, of e g] u by auto
  then have "rest_good ?s" using good t by (intro move_rest) (auto simp: good_split MIN_BLOCK_def)
  moreover have "blocks_good ?s"
  proof -
    have "places_ok (in_use s - {(e, g)}) ((held_by s)(t \<mapsto> (e, g))) (pending_blocks s) (cut_blocks (owner s)) (live_blocks s)"
      using goodD(1) [OF good] u t unfolding blocks_good_def by (intro places_free) simp_all
    moreover have "held_by ?s = (held_by s)(t \<mapsto> (e, g))" unfolding held_by_go by (simp add: MIN_BLOCK_def fun_eq_iff)
    moreover have "pending_blocks ?s = pending_blocks s" "live_blocks ?s = live_blocks s" by (simp_all add: pending_blocks_def live_blocks_def)
    ultimately show ?thesis unfolding blocks_good_def by simp
  qed
  ultimately show ?thesis by (simp add: good_split)
qed

lemma check_step:
  assumes good: "remote_good s" and t: "producers s t = PCheck e off"
  shows "publish_check safe_mode off (rt_side (at_route e s)) = Inr (Some (off div 16)) \<and> remote_good (go t (POr e (off div 16)) s)"
proof -
  have "(e, off div 16) \<in> ran (held_by s)" using held_live [OF good, of t] t by simp
  then obtain r c where r: "routes s e = Some r" "off div 16 < 262144" "encoded (off div 16) (classes (rt_side r)) = c + 1"
    using block_facts [OF good, of e "off div 16"] by blast
  have d: "16 dvd off" using goodD(3) [OF good] t unfolding producers_good_def by blast
  then have "granule_of off = Some (off div 16)" using r(2) by (auto simp: granule_of_eq)
  moreover have "remote_good (go t (POr e (off div 16)) s)"
    using good t r(1) unfolding good_split by (auto intro!: move_rest move_blocks)
  ultimately show ?thesis using r by (simp add: publish_check_def)
qed

lemma producer_route:
  assumes "remote_good s" and "route_of (producers s t) = Some e"
  obtains r where "routes s e = Some r" "remote_route_good r"
  using assms goodD(3) [OF assms(1)] routes_goodD(1) [OF goodD(2) [OF assms(1)]] unfolding producers_good_def by blast

lemma load_step:
  assumes good: "remote_good s" and t: "producers s t = PLoad e"
  shows "remote_good (go t (if rt_state (at_route e s) = ARMED then PCas e else PIdle) s)"
proof -
  obtain r where "routes s e = Some r" by (rule producer_route [OF good, of t e]) (simp add: t)
  then show ?thesis using good t unfolding good_split by (auto intro!: move_rest move_blocks)
qed

lemma cas_lost_step:
  assumes good: "remote_good s" and t: "producers s t = PCas e" and "rt_state (at_route e s) \<noteq> ARMED"
  shows "remote_good (go t PIdle s)"
  using assms unfolding good_split by (auto intro!: move_rest move_blocks)

lemma current_go [simp]: "current (go t pc s) = current s" "current (own pc' s) = current s" "current (s\<lparr>ingress := H\<rparr>) = current s"
  "current (s\<lparr>in_use := U\<rparr>) = current s"
  by (simp_all add: current_def fun_eq_iff)

lemma current_set: "routes s e = Some r \<Longrightarrow> rt_slot r' = rt_slot r \<Longrightarrow> current (set_route e r' s) = current s"
  by (auto simp: current_def fun_eq_iff)

lemma routes_good_simps [simp]:
  "routes_good (go t pc s) = routes_good s" "routes_good (own pc' s) = routes_good s" "routes_good (s\<lparr>ingress := H\<rparr>) = routes_good s"
  "routes_good (s\<lparr>in_use := U\<rparr>) = routes_good s"
  by (simp_all add: routes_good_def)

lemma routes_good_set:
  assumes good: "routes_good s" and r: "routes s e = Some r" and r': "remote_route_good r'" "rt_slot r' = rt_slot r"
    and live: "current s e \<or> live_of (rt_seg r') = live_of (rt_seg r)"
  shows "routes_good (set_route e r' s)"
proof -
  note g = routes_goodD [OF good]
  have "live_of (rt_seg q) off = None" if "routes (set_route e r' s) x = Some q" "\<not> current s x" for x q off
    using that g(2) [of x] g(2) [OF r] live by (cases "x = e") auto
  moreover have "remote_route_good q" if "routes (set_route e r' s) x = Some q" for x q
    using that g(1) [of x] r'(1) by (cases "x = e") auto
  moreover have "routes (set_route e r' s) x \<noteq> None \<and> rt_slot (at_route x (set_route e r' s)) = i" if "slot_route s i = Some x" for i x
    using g(3) [OF that] r r'(2) by auto
  ultimately show ?thesis unfolding routes_good_def current_set [OF r r'(2)] set_route_fields(2) by blast
qed

text \<open>The setting of the bit: from here on the thread answers for the notification.\<close>

lemma publish_step:
  assumes good: "remote_good s" and t: "producers s t = POr e g"
  defines "r \<equiv> at_route e s"
  shows "remote_good (go t (PLoad e) (set_route e (r\<lparr>rt_side := publish_or g (rt_side r)\<rparr>) s))"
proof -
  let ?r = "r\<lparr>rt_side := publish_or g (rt_side r)\<rparr>" let ?s = "go t (PLoad e) (set_route e ?r s)"
  have "(e, g) \<in> ran (held_by s)" using held_live [OF good, of t] t by simp
  then have f: "routes s e = Some r" "remote_route_good r" "g < 262144" using block_facts [OF good, of e g] unfolding r_def by auto
  note or = publish_or_ok [OF remote_route_goodD(2) [OF f(2)] f(3)]
  have cur: "current ?s = current s" by (simp add: current_def fun_eq_iff r_def)
  have pend: "pending_bit (rt_side ?r) h \<longleftrightarrow> pending_bit (rt_side r) h \<or> h = g" for h using or(3) by simp
  have "blocks_good ?s"
  proof -
    have "places_ok (in_use s) ((held_by s)(t := None)) (insert (e, g) (pending_blocks s)) (cut_blocks (owner s)) (live_blocks s)"
      using goodD(1) [OF good] t unfolding blocks_good_def by (intro places_publish) simp_all
    moreover have "held_by ?s = (held_by s)(t := None)" by (auto simp: fun_eq_iff)
    moreover have "pending_blocks ?s = insert (e, g) (pending_blocks s)" using f(1) pend by (auto simp: pending_blocks_def split: if_splits)
    moreover have "live_blocks ?s = live_blocks s" using f(1) by (auto simp: live_blocks_def split: if_splits)
    ultimately show ?thesis unfolding blocks_good_def by simp
  qed
  moreover have "routes_good ?s"
  proof -
    have "remote_route_good ?r" using f(2) or(1,2) by (simp add: remote_route_good_def)
    then show ?thesis using routes_good_set [OF goodD(2) [OF good] f(1)] by simp
  qed
  moreover have "producers_good ?s" using goodD(3) [OF good] unfolding producers_good_def by auto
  moreover have "owner_good ?s" using goodD(4) [OF good] unfolding owner_good_def cur by auto
  moreover have "ingress_good ?s"
  proof -
    note inv = ingress_goodD [OF goodD(5) [OF good]]
    have slot: "rt_slot (at_route x ?s) = rt_slot (at_route x s)" for x by (simp add: r_def)
    have no: "noted ?s = noted s" "summed ?s = summed s" unfolding noted_def summed_def fun_eq_iff slot using t by (simp_all add: anyone_go)
    have lo: "loading s x \<Longrightarrow> loading ?s x" "loading ?s e" for x using t unfolding loading_def by (simp_all add: anyone_go)
    show ?thesis
    proof (rule ingress_goodI; (unfold cur no)?)
      fix x q assume q: "routes ?s x = Some q" "current s x"
      show "rt_state q \<noteq> ARMED \<Longrightarrow> noted s (rt_slot q)"
        using inv(3) [of x] q f(1) by (cases "x = e") auto
      fix h assume "rt_state q = ARMED" "pending_bit (rt_side q) h"
      then show "loading ?s x \<or> ahead (owner ?s) x (h div 64)"
        using inv(4) [of x q h] q lo by (cases "x = e") auto
    qed (use inv(1,2) in auto)
  qed
  ultimately show ?thesis by (simp add: remote_good_def)
qed

lemma cas_won_step:
  assumes good: "remote_good s" and t: "producers s t = PCas e"
  defines "r \<equiv> at_route e s"
  shows "remote_good (go t (PMask e) (set_route e (r\<lparr>rt_state := NOTIFIED\<rparr>) s))"
proof -
  let ?r = "r\<lparr>rt_state := NOTIFIED\<rparr>" let ?s = "go t (PMask e) (set_route e ?r s)"
  have f: "routes s e = Some r" "remote_route_good r" unfolding r_def by (rule producer_route [OF good, of t e]; simp add: t)+
  have cur: "current ?s = current s" by (simp add: current_def fun_eq_iff r_def)
  have "blocks_good ?s"
  proof -
    have "held_by ?s = held_by s" using t by (auto simp: fun_eq_iff)
    moreover have "pending_blocks ?s = pending_blocks s" "live_blocks ?s = live_blocks s"
      using f(1) by (auto simp: pending_blocks_def live_blocks_def split: if_splits)
    ultimately show ?thesis using goodD(1) [OF good] by (subst blocks_cong [of ?s s]) simp_all
  qed
  moreover have "routes_good ?s"
  proof -
    have "remote_route_good ?r" using f(2) by (simp add: remote_route_good_def)
    then show ?thesis using routes_good_set [OF goodD(2) [OF good] f(1)] by simp
  qed
  moreover have "producers_good ?s" using goodD(3) [OF good] unfolding producers_good_def by auto
  moreover have "owner_good ?s" using goodD(4) [OF good] unfolding owner_good_def cur by auto
  moreover have "ingress_good ?s"
  proof -
    note inv = ingress_goodD [OF goodD(5) [OF good]]
    have slot: "rt_slot (at_route x ?s) = rt_slot (at_route x s)" for x by (simp add: r_def)
    have no: "noted s i \<Longrightarrow> noted ?s i" "summed s i \<Longrightarrow> summed ?s i" "noted ?s (rt_slot r)" for i
      unfolding noted_def summed_def slot using t by (auto simp: anyone_go r_def)
    have lo: "loading s x \<Longrightarrow> x \<noteq> e \<Longrightarrow> loading ?s x" for x using t unfolding loading_def by (simp add: anyone_go)
    show ?thesis
    proof (rule ingress_goodI; (unfold cur)?)
      fix x q assume q: "routes ?s x = Some q" "current s x"
      show "rt_state q \<noteq> ARMED \<Longrightarrow> noted ?s (rt_slot q)"
        using inv(3) [of x] q no(1,3) by (cases "x = e") auto
      fix h assume "rt_state q = ARMED" "pending_bit (rt_side q) h"
      then show "loading ?s x \<or> ahead (owner ?s) x (h div 64)"
        using inv(4) [of x q h] q lo by (cases "x = e") (auto simp: ARMED_def NOTIFIED_def)
    qed (use inv(1,2) no(2) in auto)
  qed
  ultimately show ?thesis by (simp add: remote_good_def)
qed

text \<open>Marking the slot, then its word.\<close>

lemma marked_notify:
  assumes "length (mask H) = 64" and "s < 4096" and "i < 4096"
  shows "marked (notify_mask s H) i \<longleftrightarrow> marked H i \<or> i = s"
proof -
  have b: "bit (w OR push_bit (s mod 64) 1 :: u64) (i mod 64) \<longleftrightarrow> bit w (i mod 64) \<or> i mod 64 = s mod 64" for w
    by (auto simp: bit_or_iff bit_exp_iff)
  have "i = s \<longleftrightarrow> i div 64 = s div 64 \<and> i mod 64 = s mod 64" by (metis div_mod_decomp)
  then show ?thesis using b assms by (auto simp: marked_def notify_mask_def nth_list_update simp del: push_bit_of_1)
qed

lemma mask_step:
  assumes good: "remote_good s" and t: "producers s t = PMask e"
  shows "remote_good (go t (PSummary e) (s\<lparr>ingress := notify_mask (rt_slot (at_route e s)) (ingress s)\<rparr>))"
proof -
  let ?H = "notify_mask (rt_slot (at_route e s)) (ingress s)" let ?s = "go t (PSummary e) (s\<lparr>ingress := ?H\<rparr>)"
  obtain r where r: "routes s e = Some r" "remote_route_good r" by (rule producer_route [OF good, of t e]) (simp add: t)
  note inv = ingress_goodD [OF goodD(5) [OF good]]
  have sl: "rt_slot (at_route e s) = rt_slot r" "rt_slot r < 4096" using r remote_route_goodD(1) by simp_all
  have mk: "marked ?H i \<longleftrightarrow> marked (ingress s) i \<or> i = rt_slot r" if "i < 4096" for i
    unfolding sl(1) by (rule marked_notify [OF inv(1) sl(2) that])
  have su: "summary ?H = summary (ingress s)" "length (mask ?H) = 64" using inv(1) by (simp_all add: notify_mask_def)
  have cur: "current ?s = current s" by (simp add: current_def fun_eq_iff)
  have "blocks_good ?s"
  proof -
    have "held_by ?s = held_by s" using t by (auto simp: fun_eq_iff)
    then show ?thesis using goodD(1) [OF good] by (subst blocks_cong [of ?s s]) (simp_all add: pending_blocks_def live_blocks_def)
  qed
  moreover have "routes_good ?s" using goodD(2) [OF good] unfolding routes_good_def cur by simp
  moreover have "producers_good ?s" using goodD(3) [OF good] r unfolding producers_good_def by auto
  moreover have "owner_good ?s" using goodD(4) [OF good] unfolding owner_good_def cur by simp
  moreover have "ingress_good ?s"
  proof -
    have no: "noted ?s i" if "noted s i" "i < 4096" for i
    proof (cases "i = rt_slot r")
      case True
      then show ?thesis using mk [OF that(2)] by (simp add: noted_def)
    next
      case False
      then show ?thesis using that mk [OF that(2)] t sl(1) unfolding noted_def by (auto simp: anyone_go)
    qed
    have sm: "summed s w \<Longrightarrow> summed ?s w" "summed ?s (rt_slot r div 64)" for w
      using t sl(1) su(1) unfolding summed_def by (auto simp: anyone_go)
    have lo: "loading ?s = loading s" using t unfolding loading_def fun_eq_iff by (simp add: anyone_go)
    show ?thesis
    proof (rule ingress_goodI; (unfold cur lo)?)
      show "length (mask (ingress ?s)) = 64" using su(2) by simp
      show "summed ?s (i div 64)" if "i < 4096" "marked (ingress ?s) i" for i
        using inv(2) [OF that(1)] mk [OF that(1)] sm that(2) by auto
      show "noted ?s (rt_slot q)" if "routes ?s x = Some q" "current s x" "rt_state q \<noteq> ARMED" for x q
        using inv(3) [of x q] no that remote_route_goodD(1) [OF routes_goodD(1) [OF goodD(2) [OF good], of x q]] by simp
      show "loading s x \<or> ahead (owner ?s) x (h div 64)"
        if "routes ?s x = Some q" "current s x" "rt_state q = ARMED" "pending_bit (rt_side q) h" for x q h
        using inv(4) [of x q h] that by simp
    qed
  qed
  ultimately show ?thesis by (simp add: remote_good_def)
qed

lemma summary_step:
  assumes good: "remote_good s" and t: "producers s t = PSummary e"
  shows "remote_good (go t PIdle (s\<lparr>ingress := notify_summary (rt_slot (at_route e s)) (ingress s)\<rparr>))"
proof -
  let ?H = "notify_summary (rt_slot (at_route e s)) (ingress s)" let ?s = "go t PIdle (s\<lparr>ingress := ?H\<rparr>)"
  obtain r where r: "routes s e = Some r" "remote_route_good r" by (rule producer_route [OF good, of t e]) (simp add: t)
  note inv = ingress_goodD [OF goodD(5) [OF good]]
  have w: "rt_slot (at_route e s) div 64 < 64" using r remote_route_goodD(1) by (simp add: less_mult_imp_div_less)
  have mk: "mask ?H = mask (ingress s)" by (simp add: notify_summary_def)
  have su: "bit (summary ?H) v \<longleftrightarrow> bit (summary (ingress s)) v \<or> v = rt_slot (at_route e s) div 64" for v
    using w by (auto simp: notify_summary_def bit_or_iff bit_exp_iff)
  have cur: "current ?s = current s" by (simp add: current_def fun_eq_iff)
  have "blocks_good ?s"
  proof -
    have "held_by ?s = held_by s" using t by (auto simp: fun_eq_iff)
    then show ?thesis using goodD(1) [OF good] by (subst blocks_cong [of ?s s]) (simp_all add: pending_blocks_def live_blocks_def)
  qed
  moreover have "routes_good ?s" using goodD(2) [OF good] unfolding routes_good_def cur by simp
  moreover have "producers_good ?s" using goodD(3) [OF good] unfolding producers_good_def by auto
  moreover have "owner_good ?s" using goodD(4) [OF good] unfolding owner_good_def cur by simp
  moreover have "ingress_good ?s"
  proof -
    have no: "noted ?s = noted s" "loading ?s = loading s" using t mk unfolding noted_def loading_def marked_def fun_eq_iff by (simp_all add: anyone_go)
    have sm: "summed ?s v" if "summed s v" for v
    proof (cases "v = rt_slot (at_route e s) div 64")
      case True
      then show ?thesis using su by (simp add: summed_def)
    next
      case False
      then show ?thesis using that t su unfolding summed_def by (auto simp: anyone_go)
    qed
    show ?thesis
      by (rule ingress_goodI; (unfold cur no)?; use inv mk sm in \<open>simp add: marked_def\<close>)
  qed
  ultimately show ?thesis by (simp add: remote_good_def)
qed

lemma producer_step_good:
  assumes good: "remote_good s"
  shows "\<exists>s'. producer_step safe_mode t s = Inr s' \<and> remote_good s'"
proof (cases "producers s t")
  case PIdle
  then show ?thesis using good by (simp add: producer_step_eq)
next
  case (PCheck e off)
  then show ?thesis using check_step [OF good PCheck, of safe_mode] by (simp add: producer_step_eq)
next
  case (POr e g)
  then show ?thesis using publish_step [OF good POr] by (simp add: producer_step_eq Let_def)
next
  case (PLoad e)
  then show ?thesis using load_step [OF good PLoad] by (simp add: producer_step_eq)
next
  case (PCas e)
  then show ?thesis using cas_won_step [OF good PCas] cas_lost_step [OF good PCas] by (simp add: producer_step_eq Let_def)
next
  case (PMask e)
  then show ?thesis using mask_step [OF good PMask] by (simp add: producer_step_eq)
next
  case (PSummary e)
  then show ?thesis using summary_step [OF good PSummary] by (simp add: producer_step_eq)
qed

subsection \<open>The steps of the owner\<close>

lemma producers_good_simps [simp]:
  "producers_good (own pc s) = producers_good s" "producers_good (s\<lparr>ingress := H\<rparr>) = producers_good s"
  by (simp_all add: producers_good_def)

lemma producers_good_set: "producers_good s \<Longrightarrow> producers_good (set_route e r s)"
  unfolding producers_good_def by auto

lemma own_blocks: "blocks_good s \<Longrightarrow> cut_blocks pc = cut_blocks (owner s) \<Longrightarrow> blocks_good (own pc (s\<lparr>ingress := H\<rparr>)) \<and> blocks_good (own pc s)"
  by (intro conjI; subst blocks_cong [of _ s]) (simp_all add: pending_blocks_def live_blocks_def)

lemma own_rest:
  assumes good: "rest_good s" and og: "owner_good (own pc s)"
    and n: "\<And>e r. routes s e = Some r \<Longrightarrow> current s e \<Longrightarrow> rt_state r \<noteq> ARMED \<Longrightarrow>
      in_hand (owner s) (rt_slot r) \<or> (\<exists>p e'. owner s = OArm p e' \<and> rt_slot (at_route e' s) = rt_slot r) \<Longrightarrow> noted (own pc s) (rt_slot r)"
    and w: "\<And>i. i < 4096 \<Longrightarrow> marked (ingress s) i \<Longrightarrow> words_left (owner s) (i div 64) \<Longrightarrow> words_left pc (i div 64)"
    and a: "\<And>e r g. routes s e = Some r \<Longrightarrow> pending_bit (rt_side r) g \<Longrightarrow> ahead (owner s) e (g div 64) \<Longrightarrow> ahead pc e (g div 64)"
  shows "rest_good (own pc s)"
proof -
  note g = rest_goodD [OF good] and inv = ingress_goodD [OF rest_goodD(4) [OF good]]
  have "ingress_good (own pc s)"
  proof (rule ingress_goodI; (unfold current_go)?)
    show "length (mask (ingress (own pc s))) = 64" using inv(1) by simp
    show "summed (own pc s) (i div 64)" if i: "i < 4096" "marked (ingress (own pc s)) i" for i
      using inv(2) [OF i(1)] w [OF i(1)] i(2) unfolding summed_def by auto
    fix e r assume r: "routes (own pc s) e = Some r" "current s e"
    then have r': "routes s e = Some r" by simp
    show "noted (own pc s) (rt_slot r)" if st: "rt_state r \<noteq> ARMED"
      using inv(3) [OF r' r(2) st] n [OF r' r(2) st] unfolding noted_def [of s] by (auto simp: noted_def)
    show "loading (own pc s) e \<or> ahead (owner (own pc s)) e (g div 64)" if "rt_state r = ARMED" "pending_bit (rt_side r) g" for g
      using inv(4) [OF r' r(2) that] a [OF r' that(2)] unfolding loading_def by auto
  qed
  then show ?thesis using g og by (simp add: rest_good_def)
qed

lemma idle_good:
  assumes "remote_good s" and "owner s = OIdle"
  shows "remote_good (own OSwap s)"
  unfolding good_split
proof
  show "blocks_good (own OSwap s)" using assms own_blocks [of s OSwap] by (simp add: good_split cut_blocks_def)
  show "rest_good (own OSwap s)"
    by (rule own_rest) (use assms in \<open>auto simp: good_split owner_good_def in_hand_def words_left_def ahead_def\<close>)
qed

lemma swap_good:
  assumes good: "remote_good s" and o: "owner s = OSwap"
  shows "remote_good (own (OWords (summary (ingress s))) (s\<lparr>ingress := (ingress s)\<lparr>summary := 0\<rparr>\<rparr>))"
proof -
  let ?pc = "OWords (summary (ingress s))" let ?s = "own ?pc (s\<lparr>ingress := (ingress s)\<lparr>summary := 0\<rparr>\<rparr>)"
  note inv = ingress_goodD [OF goodD(5) [OF good]]
  have "blocks_good ?s" using own_blocks [OF goodD(1) [OF good], of ?pc] o by (simp add: cut_blocks_def)
  moreover have "owner_good ?s" by (simp add: owner_good_def)
  moreover have "ingress_good ?s"
  proof (rule ingress_goodI; (unfold current_go)?)
    show "summed ?s (i div 64)" if "i < 4096" "marked (ingress ?s) i" for i
      using inv(2) [OF that(1)] that(2) o unfolding summed_def by (auto simp: marked_def words_left_def)
    fix e r assume r: "routes ?s e = Some r" "current s e"
    show "noted ?s (rt_slot r)" if "rt_state r \<noteq> ARMED"
      using inv(3) [of e r] r that o unfolding noted_def by (simp add: marked_def in_hand_def)
    show "loading ?s e \<or> ahead (owner ?s) e (g div 64)" if "rt_state r = ARMED" "pending_bit (rt_side r) g" for g
      using inv(4) [of e r g] r that o unfolding loading_def by (simp add: ahead_def)
  qed (use inv(1) in simp)
  ultimately show ?thesis using goodD [OF good] by (simp add: remote_good_def)
qed

lemma words_done_good:
  assumes "remote_good s" and "owner s = OWords 0"
  shows "remote_good (own OIdle s)"
  unfolding good_split
proof
  show "blocks_good (own OIdle s)" using assms own_blocks [of s OIdle] by (simp add: good_split cut_blocks_def)
  show "rest_good (own OIdle s)"
    by (rule own_rest) (use assms in \<open>auto simp: good_split owner_good_def in_hand_def words_left_def ahead_def\<close>)
qed

lemma word_good:
  assumes good: "remote_good s" and o: "owner s = OWords words" and nz: "words \<noteq> 0"
  defines "w \<equiv> word_tz words"
  shows "remote_good (own (OBits (words AND (words - 1), w, mask (ingress s) ! w)) (s\<lparr>ingress := (ingress s)\<lparr>mask := (mask (ingress s))[w := 0]\<rparr>\<rparr>))"
proof -
  let ?pc = "OBits (words AND (words - 1), w, mask (ingress s) ! w)"
  let ?s = "own ?pc (s\<lparr>ingress := (ingress s)\<lparr>mask := (mask (ingress s))[w := 0]\<rparr>\<rparr>)"
  note inv = ingress_goodD [OF goodD(5) [OF good]] and tz = word_tz [OF nz, folded w_def]
  have mk: "marked (ingress ?s) i \<longleftrightarrow> marked (ingress s) i \<and> i div 64 \<noteq> w" for i
    using inv(1) tz(1) by (cases "i div 64 = w") (simp_all add: marked_def)
  have ih: "in_hand ?pc i \<longleftrightarrow> i div 64 = w \<and> marked (ingress s) i" for i by (auto simp: in_hand_def marked_def)
  have "blocks_good ?s" using own_blocks [OF goodD(1) [OF good], of ?pc] o by (simp add: cut_blocks_def)
  moreover have "owner_good ?s" using tz(1) by (simp add: owner_good_def)
  moreover have "ingress_good ?s"
  proof (rule ingress_goodI; (unfold current_go)?)
    show "summed ?s (i div 64)" if i: "i < 4096" "marked (ingress ?s) i" for i
    proof -
      have "words_left (owner s) (i div 64) \<Longrightarrow> words_left ?pc (i div 64)" using i(2) mk tz(4) o by (auto simp: words_left_def)
      then show ?thesis using inv(2) [OF i(1)] i(2) mk unfolding summed_def by auto
    qed
    fix e r assume r: "routes ?s e = Some r" "current s e"
    show "noted ?s (rt_slot r)" if "rt_state r \<noteq> ARMED"
    proof -
      have "noted s (rt_slot r)" using inv(3) [of e r] r that by simp
      then show ?thesis using o mk ih by (auto simp: noted_def in_hand_def)
    qed
    show "loading ?s e \<or> ahead (owner ?s) e (g div 64)" if "rt_state r = ARMED" "pending_bit (rt_side r) g" for g
      using inv(4) [of e r g] r that o unfolding loading_def by (simp add: ahead_def)
  qed (use inv(1) in simp)
  ultimately show ?thesis using goodD [OF good] by (simp add: remote_good_def)
qed

lemma bits_good:
  assumes good: "remote_good s" and o: "owner s = OBits (words, w, bits)"
  shows "bits = 0 \<Longrightarrow> remote_good (own (OWords words) s)"
    "bits \<noteq> 0 \<Longrightarrow> remote_good (own (case slot_route s (w * 64 + word_tz bits) of None \<Rightarrow> OBits (words, w, bits AND (bits - 1))
       | Some e \<Rightarrow> OArm (words, w, bits AND (bits - 1)) e) s)"
proof -
  have w: "w < 64" using goodD(4) [OF good] o by (simp add: owner_good_def)
  note b = goodD(1) [OF good] and g = good [unfolded good_split]
  show "remote_good (own (OWords words) s)" if "bits = 0"
    unfolding good_split
  proof
    show "blocks_good (own (OWords words) s)" using own_blocks [OF b] o by (simp add: cut_blocks_def)
    show "rest_good (own (OWords words) s)"
      by (rule own_rest) (use g o that in \<open>auto simp: owner_good_def in_hand_def words_left_def ahead_def\<close>)
  qed
  let ?i = "w * 64 + word_tz bits" let ?p = "(words, w, bits AND (bits - 1))"
  let ?pc = "case slot_route s ?i of None \<Rightarrow> OBits ?p | Some e \<Rightarrow> OArm ?p e"
  show "remote_good (own ?pc s)" if nz: "bits \<noteq> 0"
    unfolding good_split
  proof
    note tz = word_tz [OF nz]
    have tp: "take_pos_of ?pc = Some ?p" by (simp split: option.split)
    have j: "?i div 64 = w" "?i mod 64 = word_tz bits" using tz(1) by simp_all
    show "blocks_good (own ?pc s)" using own_blocks [OF b] o by (simp add: cut_blocks_def split: option.split)
    show "rest_good (own ?pc s)"
    proof (rule own_rest)
      show "owner_good (own ?pc s)" using w routes_goodD(3) [OF goodD(2) [OF good], of ?i]
        by (auto simp: owner_good_def current_def split: option.splits)
      fix e r assume r: "routes s e = Some r" "current s e"
        "in_hand (owner s) (rt_slot r) \<or> (\<exists>p e'. owner s = OArm p e' \<and> rt_slot (at_route e' s) = rt_slot r)"
      have c: "slot_route s (rt_slot r) = Some e" using r(1,2) by (simp add: current_def)
      have h: "rt_slot r div 64 = w" "bit bits (rt_slot r mod 64)" using r(3) o by (auto simp: in_hand_def)
      show "noted (own ?pc s) (rt_slot r)"
      proof (cases "rt_slot r mod 64 = word_tz bits")
        case True
        then have "rt_slot r = ?i" using h(1) by (metis div_mult_mod_eq)
        then show ?thesis using c r(1) by (auto simp: noted_def)
      next
        case False
        then have "in_hand ?pc (rt_slot r)" unfolding in_hand_def tp using h tz(4) by auto
        then show ?thesis by (simp add: noted_def)
      qed
    qed (use g o tp in \<open>auto simp: words_left_def ahead_def split: option.splits\<close>)
  qed
qed

lemma end_word_le:
  assumes "seg_ok base seg"
  shows "div_ceil (bump (seg_hdr seg)) 1024 \<le> 4096"
proof -
  have b: "bump (seg_hdr seg) \<le> 4194304" using assms by (simp add: seg_ok_def)
  show ?thesis
  proof (cases "bump (seg_hdr seg) = 4194304")
    case False
    then have "bump (seg_hdr seg) div 1024 < 4096" using b by (simp add: less_mult_imp_div_less)
    then show ?thesis by (simp add: div_ceil_def)
  qed (simp add: div_ceil_def)
qed

text \<open>The arming of a route, before its scan.\<close>

lemma arm_good:
  assumes good: "remote_good s" and o: "owner s = OArm p e"
  shows "\<exists>s'. begin_scan p e (set_route e ((at_route e s)\<lparr>rt_state := ARMED\<rparr>) s) = Inr s' \<and> remote_good s' \<and> (\<exists>k n. owner s' = OScan p e k n)"
proof -
  have "current s e \<and> routes s e \<noteq> None" using goodD(4) [OF good] o unfolding owner_good_def by blast
  then obtain r where r: "routes s e = Some r" and c: "current s e" by blast
  have rg: "remote_route_good r" by (rule routes_goodD(1) [OF goodD(2) [OF good] r])
  let ?r = "r\<lparr>rt_state := ARMED\<rparr>" let ?s1 = "set_route e ?r s"
  let ?n = "div_ceil (bump (seg_hdr (rt_seg r))) 1024"
  let ?k = "min (start_word (rt_seg r)) ?n" let ?pc = "OScan p e ?k ?n" let ?s = "own ?pc ?s1"
  have n: "?n \<le> 4096" by (rule end_word_le [OF remote_route_goodD(3) [OF rg]])
  have len: "length (pending (rt_side r)) = 4096" using remote_route_goodD(2) [OF rg] by (simp add: side_ok_def)
  have "bump (seg_hdr (rt_seg r)) \<le> SEGMENT" using remote_route_goodD(3) [OF rg] by (simp add: seg_ok_def)
  then have run: "begin_scan p e ?s1 = Inr ?s"
    using n len by (simp add: begin_scan_def scan_from_def SIDECAR_WORD_BYTES_def MIN_BLOCK_def Let_def)
  have cur: "current ?s1 = current s" by (rule current_set [OF r]) simp
  have "blocks_good ?s"
  proof -
    have "pending_blocks ?s = pending_blocks s" "live_blocks ?s = live_blocks s"
      using r by (auto simp: pending_blocks_def live_blocks_def split: if_splits)
    then show ?thesis using goodD(1) [OF good] o by (subst blocks_cong [of ?s s]) (simp_all add: cut_blocks_def)
  qed
  moreover have "routes_good ?s"
  proof -
    have "remote_route_good ?r" using rg by (simp add: remote_route_good_def)
    then show ?thesis using routes_good_set [OF goodD(2) [OF good] r] by simp
  qed
  moreover have "producers_good ?s" using producers_good_set [OF goodD(3) [OF good]] by simp
  moreover have "owner_good ?s" using goodD(4) [OF good] o c n by (auto simp: owner_good_def cur)
  moreover have "ingress_good ?s"
  proof (rule ingress_goodI; (unfold current_go cur)?)
    note inv = ingress_goodD [OF goodD(5) [OF good]]
    have slot: "rt_slot (at_route x ?s) = rt_slot (at_route x s)" for x using r by simp
    show "length (mask (ingress ?s)) = 64" using inv(1) by simp
    show "summed ?s (i div 64)" if i: "i < 4096" "marked (ingress ?s) i" for i
      using inv(2) [OF i(1)] i(2) o unfolding summed_def slot by (auto simp: words_left_def)
    fix x q assume q: "routes ?s x = Some q" "current s x"
    have noarm: "rt_slot (at_route e s) \<noteq> rt_slot q" if "x \<noteq> e"
      using that q c r unfolding current_def by auto
    show "noted ?s (rt_slot q)" if st: "rt_state q \<noteq> ARMED"
    proof -
      have ne: "x \<noteq> e" using q(1) st by auto
      then have "noted s (rt_slot q)" using inv(3) [of x q] q st by simp
      then show ?thesis using noarm [OF ne] o unfolding noted_def slot by (auto simp: in_hand_def)
    qed
    show "loading ?s x \<or> ahead (owner ?s) x (g div 64)" if st: "rt_state q = ARMED" and g: "pending_bit (rt_side q) g" for g
    proof (cases "x = e")
      case True
      then have "(e, g) \<in> pending_blocks s" using q(1) g r by (auto simp: pending_blocks_def)
      then have "start_word (rt_seg r) \<le> g div 64" "g div 64 < ?n" using block_facts [OF good, of e g] r by auto
      then show ?thesis using True by (simp add: ahead_def)
    next
      case False
      then show ?thesis using inv(4) [of x q g] q st g o unfolding loading_def by (simp add: ahead_def)
    qed
  qed
  ultimately have "remote_good ?s" by (simp add: remote_good_def)
  then show ?thesis using run r by simp
qed

lemma scan_good:
  assumes good: "remote_good s" and o: "owner s = OScan p e k n"
  shows "k = n \<Longrightarrow> remote_good (own (OBits p) s)"
    "k \<noteq> n \<Longrightarrow> \<exists>bits. cut_load k (rt_side (at_route e s)) = Inr bits \<and> remote_good (own (if bits = 0 then OScan p e (k + 1) n else OCut p e k n) s)"
proof -
  have og: "current s e" "routes s e \<noteq> None" "k \<le> n" "n \<le> 4096" using goodD(4) [OF good] o by (simp_all add: owner_good_def)
  then obtain r where r: "routes s e = Some r" by blast
  have len: "length (pending (rt_side r)) = 4096"
    using remote_route_goodD(2) [OF routes_goodD(1) [OF goodD(2) [OF good] r]] by (simp add: side_ok_def)
  note b = goodD(1) [OF good] and g = good [unfolded good_split]
  have w: "\<And>words w bits. p = (words, w, bits) \<Longrightarrow> w < 64" using goodD(4) [OF good] o by (simp add: owner_good_def)
  show "remote_good (own (OBits p) s)" if "k = n"
    unfolding good_split
  proof
    show "blocks_good (own (OBits p) s)" using own_blocks [OF b] o by (simp add: cut_blocks_def)
    show "rest_good (own (OBits p) s)"
      by (rule own_rest) (use g o that w in \<open>auto simp: owner_good_def noted_def in_hand_def words_left_def ahead_def\<close>)
  qed
  assume ne: "k \<noteq> n"
  let ?bits = "pending (rt_side r) ! k" let ?pc = "if ?bits = 0 then OScan p e (k + 1) n else OCut p e k n"
  have "remote_good (own ?pc s)"
    unfolding good_split
  proof
    show "blocks_good (own ?pc s)" using own_blocks [OF b] o by (simp add: cut_blocks_def)
    show "rest_good (own ?pc s)"
    proof (rule own_rest)
      show "owner_good (own ?pc s)" using og ne w by (auto simp: owner_good_def)
      fix x q h assume q: "routes s x = Some q" "pending_bit (rt_side q) h" "ahead (owner s) x (h div 64)"
      then have x: "x = e" "q = r" "k \<le> h div 64" "h div 64 < n" using o r by (auto simp: ahead_def)
      have "k \<noteq> h div 64" if "?bits = 0" using q(2) that by (auto simp: x(2) pending_bit_def)
      then show "ahead ?pc x (h div 64)" using x by (auto simp: ahead_def)
    qed (use g o in \<open>auto simp: noted_def in_hand_def words_left_def\<close>)
  qed
  then show "\<exists>bits. cut_load k (rt_side (at_route e s)) = Inr bits \<and> remote_good (own (if bits = 0 then OScan p e (k + 1) n else OCut p e k n) s)"
    using r len og(3,4) ne by (simp add: cut_load_def)
qed

text \<open>A change of a route that keeps its slot and its ingress state and sets no pending bit.\<close>

lemma set_rest:
  assumes good: "rest_good s" and r: "routes s e = Some r" and r': "remote_route_good r'" "rt_slot r' = rt_slot r" "rt_state r' = rt_state r"
    and live: "current s e \<or> live_of (rt_seg r') = live_of (rt_seg r)" and p: "\<And>g. pending_bit (rt_side r') g \<Longrightarrow> pending_bit (rt_side r) g"
  shows "rest_good (set_route e r' s)"
proof -
  let ?s = "set_route e r' s"
  note g = rest_goodD [OF good] and cur = current_set [OF r r'(2)]
  have slot: "rt_slot (at_route x ?s) = rt_slot (at_route x s)" for x using r r'(2) by simp
  have eq: "noted ?s = noted s" "summed ?s = summed s" "loading ?s = loading s"
    unfolding noted_def summed_def loading_def fun_eq_iff slot by simp_all
  have "owner_good ?s" using g(3) unfolding owner_good_def cur by auto
  moreover have "ingress_good ?s"
  proof (rule ingress_goodI; (unfold cur eq)?)
    note inv = ingress_goodD [OF g(4)]
    fix x q assume q: "routes ?s x = Some q" "current s x"
    show "rt_state q \<noteq> ARMED \<Longrightarrow> noted s (rt_slot q)" using inv(3) [of x] q r r' by (cases "x = e") auto
    show "rt_state q = ARMED \<Longrightarrow> pending_bit (rt_side q) h \<Longrightarrow> loading s x \<or> ahead (owner ?s) x (h div 64)" for h
      using inv(4) [of x] q r r' p [of h] by (cases "x = e") auto
  qed (use ingress_goodD(1,2) [OF g(4)] in auto)
  ultimately show ?thesis using routes_good_set [OF g(1) r r'(1,2) live] producers_good_set [OF g(2)] by (simp add: rest_good_def)
qed

lemma scanned_route:
  assumes good: "remote_good s" and o: "scanned (owner s) = Some (e, k, n)"
  obtains r where "routes s e = Some r" "remote_route_good r" "current s e" "k \<le> n" "n \<le> 4096"
proof -
  have og: "current s e" "routes s e \<noteq> None" "k \<le> n" "n \<le> 4096" using goodD(4) [OF good] o unfolding owner_good_def by blast+
  then obtain r where "routes s e = Some r" by blast
  then show thesis using that og routes_goodD(1) [OF goodD(2) [OF good]] by blast
qed

lemma cut_good:
  assumes good: "remote_good s" and o: "owner s = OCut p e k n" and r: "r = at_route e s" and c: "cut_swap k (rt_side r) = (bits, side)"
  shows "remote_good (own (OPop p e k n bits) (set_route e (r\<lparr>rt_side := side\<rparr>) s))"
proof -
  let ?r = "r\<lparr>rt_side := side\<rparr>" let ?s1 = "set_route e ?r s" let ?pc = "OPop p e k n bits"
  obtain q where q: "routes s e = Some q" "remote_route_good q" "current s e" "k \<le> n" "n \<le> 4096"
    by (rule scanned_route [OF good, of e k n]) (simp_all add: o)
  have rq: "q = r" using q(1) r by simp
  have kn: "k < n" using goodD(4) [OF good] o unfolding owner_good_def by blast
  then have k: "k < 4096" using q(5) by simp
  note sw = cut_swap_ok [OF remote_route_goodD(2) [OF q(2)] k c [folded rq]]
  have rg: "remote_route_good ?r" using q(2) sw(1,2) by (simp add: remote_route_good_def rq)
  have rest1: "rest_good ?s1" using good rg q(1,3) sw(3) by (intro set_rest [of s e q]) (auto simp: good_split rq)
  have "rest_good (own ?pc ?s1)"
  proof (rule own_rest [OF rest1])
    have "owner_good ?s1" using rest_goodD(3) [OF rest1] .
    then show "owner_good (own ?pc ?s1)" using o kn unfolding owner_good_def by simp
    fix x y h assume "routes ?s1 x = Some y" "pending_bit (rt_side y) h" "ahead (owner ?s1) x (h div 64)"
    then have "x = e" "pending_bit side h" "k \<le> h div 64" "h div 64 < n" using o by (auto simp: ahead_def)
    then show "ahead ?pc x (h div 64)" using sw(3) by (auto simp: ahead_def)
  qed (use o in \<open>auto simp: noted_def in_hand_def words_left_def\<close>)
  moreover have "blocks_good (own ?pc ?s1)"
  proof -
    let ?c = "\<lambda>(x, g). x = e \<and> g div 64 = k"
    have cutb: "cut_blocks ?pc = {x \<in> pending_blocks s. ?c x}"
    proof -
      have "pending_bit (rt_side r) g \<longleftrightarrow> bit bits (g mod 64)" if "g div 64 = k" for g
      proof -
        have "k * 64 + g mod 64 = g" using that by (metis div_mult_mod_eq)
        then show ?thesis using sw(4) [of "g mod 64"] by (simp add: rq)
      qed
      then show ?thesis using q(1) by (auto simp: cut_blocks_def pending_blocks_def rq)
    qed
    have "places_ok (in_use s) (held_by s) {x \<in> pending_blocks s. \<not> ?c x} {x \<in> pending_blocks s. ?c x} (live_blocks s)"
      using goodD(1) [OF good] o by (intro places_cut) (simp add: blocks_good_def cut_blocks_def)
    moreover have "x \<in> pending_blocks (own ?pc ?s1) \<longleftrightarrow> x \<in> pending_blocks s \<and> \<not> ?c x" for x
      using q(1) sw(3) by (cases x; cases "fst x = e") (simp_all add: pending_blocks_def rq)
    then have "pending_blocks (own ?pc ?s1) = {x \<in> pending_blocks s. \<not> ?c x}" by blast
    moreover have "live_blocks (own ?pc ?s1) = live_blocks s" using q(1) by (auto simp: live_blocks_def rq split: if_splits)
    ultimately show ?thesis unfolding blocks_good_def using cutb by simp
  qed
  ultimately show ?thesis by (simp add: good_split)
qed

lemma pop_done_good:
  assumes good: "remote_good s" and o: "owner s = OPop p e k n 0"
  shows "remote_good (own (OScan p e (k + 1) n) s)"
  unfolding good_split
proof
  have og: "owner_good s" and g: "rest_good s" "blocks_good s" using good goodD(4) by (simp_all add: good_split rest_good_def)
  have "cut_blocks (owner s) = {}" by (simp add: o cut_blocks_def)
  then show "blocks_good (own (OScan p e (k + 1) n) s)" using own_blocks [OF g(2), of "OScan p e (k + 1) n"] by (simp add: cut_blocks_def)
  show "rest_good (own (OScan p e (k + 1) n) s)"
  proof (rule own_rest [OF g(1)])
    have "k < n" using og o unfolding owner_good_def by blast
    then show "owner_good (own (OScan p e (k + 1) n) s)" using og o unfolding owner_good_def by (cases p) (simp add: Suc_le_eq)
  qed (use o in \<open>auto simp: noted_def in_hand_def words_left_def ahead_def\<close>)
qed

lemma record_good:
  assumes good: "remote_good s" and o: "owner s = OPop p e k n bits" and nz: "bits \<noteq> 0" and r: "r = at_route e s"
  defines "g \<equiv> k * 64 + word_tz bits"
  shows "\<exists>c seg. cut_pop (classes (rt_side r)) \<lparr>cut_word = k, cut_bits = bits\<rparr>
        = Inr (Some \<lparr>rec_offset = g * MIN_BLOCK, rec_class = c\<rparr>, \<lparr>cut_word = k, cut_bits = bits AND (bits - 1)\<rparr>)
    \<and> live_of (rt_seg r) (g * MIN_BLOCK) = Some c
    \<and> reclaim_sidecar_record safe_mode (rt_base r) (g * MIN_BLOCK) c (rt_seg r) = Inr (True, seg)
    \<and> live_of seg = (live_of (rt_seg r))(g * MIN_BLOCK := None)
    \<and> remote_good (own (OPop p e k n (bits AND (bits - 1))) (set_route e (r\<lparr>rt_seg := seg\<rparr>) s))"
proof -
  note tz = word_tz [OF nz]
  have gd: "g div 64 = k" "g mod 64 = word_tz bits" using tz(1) by (simp_all add: g_def)
  have "(e, g) \<in> cut_blocks (owner s)" using tz(2) gd by (simp add: o cut_blocks_def)
  then obtain q c where q: "routes s e = Some q" "remote_route_good q" "current s e" "live_of (rt_seg q) (16 * g) = Some c" "c < 49"
    "encoded g (classes (rt_side q)) = c + 1" using block_facts [OF good, of e g] by blast
  have "q = r" using q(1) r by simp
  note f = q [unfolded this]
  have mb: "g * MIN_BLOCK = 16 * g" by (simp add: MIN_BLOCK_def)
  have pop: "cut_pop (classes (rt_side r)) \<lparr>cut_word = k, cut_bits = bits\<rparr>
      = Inr (Some \<lparr>rec_offset = g * MIN_BLOCK, rec_class = c\<rparr>, \<lparr>cut_word = k, cut_bits = bits AND (bits - 1)\<rparr>)"
    using f(5,6) nz by (simp add: cut_pop_def g_def [symmetric] Let_def)
  have ok: "seg_ok (rt_base r) (rt_seg r)" by (rule remote_route_goodD(3) [OF f(2)])
  from free_live [OF ok f(4), of safe_mode] obtain seg where seg: "dealloc_small safe_mode (rt_base r) (rt_base r + 16 * g) c (rt_seg r) = Inr (True, seg)"
    "seg_ok (rt_base r) seg" "live_of seg = (live_of (rt_seg r))(16 * g := None)" by blast
  have rec: "reclaim_sidecar_record safe_mode (rt_base r) (16 * g) c (rt_seg r) = Inr (True, seg)"
    using reclaim_live [OF ok f(4) [unfolded live_Some], of safe_mode] seg(1) by simp
  let ?r = "r\<lparr>rt_seg := seg\<rparr>" let ?s1 = "set_route e ?r s" let ?pc = "OPop p e k n (bits AND (bits - 1))"
  have "remote_route_good ?r" using f(2) seg(2,3) by (auto simp: remote_route_good_def split: if_splits)
  then have rest1: "rest_good ?s1" using good f(1,3) by (intro set_rest [of s e r]) (auto simp: good_split)
  have "rest_good (own ?pc ?s1)"
  proof (rule own_rest [OF rest1])
    show "owner_good (own ?pc ?s1)" using rest_goodD(3) [OF rest1] o unfolding owner_good_def by simp
  qed (use o in \<open>auto simp: noted_def in_hand_def words_left_def ahead_def\<close>)
  moreover have "blocks_good (own ?pc ?s1)"
  proof -
    have "cut_blocks ?pc = cut_blocks (owner s) - {(e, g)}"
    proof -
      have "h = g \<longleftrightarrow> h div 64 = k \<and> h mod 64 = word_tz bits" for h using gd by (metis div_mult_mod_eq)
      then show ?thesis using tz(4) by (auto simp: cut_blocks_def o)
    qed
    moreover have "places_ok (in_use s) (held_by s) (pending_blocks s) (cut_blocks (owner s) - {(e, g)}) (live_blocks s - {(e, g)})"
      using goodD(1) [OF good] \<open>(e, g) \<in> cut_blocks (owner s)\<close> by (intro places_reclaim) (simp_all add: blocks_good_def)
    moreover have "pending_blocks (own ?pc ?s1) = pending_blocks s" using f(1) by (auto simp: pending_blocks_def split: if_splits)
    moreover have "live_blocks (own ?pc ?s1) = live_blocks s - {(e, g)}" using f(1) seg(3) by (auto simp: live_blocks_def split: if_splits)
    ultimately show ?thesis unfolding blocks_good_def by simp
  qed
  ultimately have "remote_good (own ?pc ?s1)" by (simp add: good_split)
  then show ?thesis using pop rec seg(3) f(4) unfolding mb by blast
qed

lemma owner_step_good:
  assumes good: "remote_good s"
  shows "\<exists>s'. owner_step safe_mode s = Inr s' \<and> remote_good s'"
proof (cases "owner s")
  case OIdle
  then show ?thesis using good idle_good [OF good] by (simp add: owner_step_eq)
next
  case OSwap
  then show ?thesis using swap_good [OF good] by (simp add: owner_step_eq)
next
  case (OWords words)
  then show ?thesis using good words_done_good [of s] word_good [OF good OWords] by (simp add: owner_step_eq Let_def)
next
  case (OBits p)
  obtain words w bits where p: "p = (words, w, bits)" by (cases p)
  show ?thesis using bits_good [OF good OBits [unfolded p]] by (auto simp: owner_step_eq OBits p Let_def split: option.splits)
next
  case (OArm p e)
  then show ?thesis using arm_good [OF good OArm] by (auto simp: owner_step_eq)
next
  case (OScan p e k n)
  then show ?thesis using scan_good [OF good OScan] by (cases "k = n") (auto simp: owner_step_eq)
next
  case (OCut p e k n)
  then show ?thesis using cut_good [OF good OCut refl] by (auto simp: owner_step_eq Let_def split: prod.split)
next
  case (OPop p e k n bits)
  show ?thesis
  proof (cases "bits = 0")
    case True
    then show ?thesis using pop_done_good [of s p e k n] good OPop by (simp add: owner_step_eq cut_pop_def Let_def)
  next
    case False
    from record_good [OF good OPop False refl, of safe_mode] show ?thesis by (auto simp: owner_step_eq OPop Let_def)
  qed
qed

subsection \<open>The other steps\<close>

lemma trim_good:
  assumes good: "remote_good s" and o: "owner s = OIdle" and e: "slot_route s i = Some e" and seg: "seg = rt_seg (at_route e s)"
    and k: "k \<le> n" "n \<le> div_ceil (bump (seg_hdr seg)) SIDECAR_WORD_BYTES"
  shows "remote_good (own (OScan no_take e k n) s)"
  unfolding good_split
proof
  obtain r where r: "routes s e = Some r" "rt_slot r = i" using routes_goodD(3) [OF goodD(2) [OF good] e] by blast
  have "n \<le> 4096"
    using k(2) end_word_le [OF remote_route_goodD(3) [OF routes_goodD(1) [OF goodD(2) [OF good] r(1)]]] r(1) seg
    by (simp add: SIDECAR_WORD_BYTES_def MIN_BLOCK_def)
  moreover have "current s e" using e r by (simp add: current_def)
  ultimately have og: "owner_good (own (OScan no_take e k n) s)" using r(1) k(1) by (simp add: owner_good_def no_take_def)
  show "blocks_good (own (OScan no_take e k n) s)" using own_blocks [of s "OScan no_take e k n"] good o by (simp add: good_split cut_blocks_def)
  show "rest_good (own (OScan no_take e k n) s)"
    by (rule own_rest [OF _ og]) (use good o in \<open>auto simp: good_split in_hand_def words_left_def ahead_def\<close>)
qed

lemma in_use_route:
  assumes good: "remote_good s" and "(e, g) \<in> in_use s" and r: "r = at_route e s"
  shows "routes s e = Some r" "remote_route_good r" "current s e"
proof -
  obtain q where "routes s e = Some q" "remote_route_good q" "current s e" using block_facts [OF good, of e g] assms(2) by blast
  then show "routes s e = Some r" "remote_route_good r" "current s e" using r by simp_all
qed

lemma write_good:
  assumes good: "remote_good s" and u: "(e, g) \<in> in_use s" and r: "r = at_route e s" and l: "live_of (rt_seg r) (g * MIN_BLOCK) = Some c"
  shows "remote_good (set_route e (r\<lparr>rt_seg := (rt_seg r)\<lparr>cells := \<lambda>q. if g * MIN_BLOCK < q + 8 \<and> q < g * MIN_BLOCK + class_size c
    then f q else cells (rt_seg r) q\<rparr>\<rparr>) s)"
proof -
  note q = in_use_route [OF good u r]
  let ?seg = "(rt_seg r)\<lparr>cells := \<lambda>q. if g * MIN_BLOCK < q + 8 \<and> q < g * MIN_BLOCK + class_size c then f q else cells (rt_seg r) q\<rparr>"
  let ?s = "set_route e (r\<lparr>rt_seg := ?seg\<rparr>) s"
  have seg: "seg_ok (rt_base r) ?seg" "live_of ?seg = live_of (rt_seg r)" using write_live [OF remote_route_goodD(3) [OF q(2)] l, of f] by simp_all
  have "remote_route_good (r\<lparr>rt_seg := ?seg\<rparr>)" using q(2) seg by (simp add: remote_route_good_def)
  then have "rest_good ?s" using good q by (intro set_rest [of s e r]) (simp_all add: good_split)
  moreover have "blocks_good ?s"
  proof -
    have "pending_blocks ?s = pending_blocks s" using q(1) by (auto simp: pending_blocks_def split: if_splits)
    moreover have "x \<in> live_blocks ?s \<longleftrightarrow> x \<in> live_blocks s" for x
      using q(1) seg(2) by (cases x; cases "fst x = e") (simp_all add: live_blocks_def)
    ultimately show ?thesis using goodD(1) [OF good] by (subst blocks_cong [of ?s s]) auto
  qed
  ultimately show ?thesis by (simp add: good_split)
qed

lemma own_free_good:
  assumes good: "remote_good s" and u: "(e, g) \<in> in_use s" and r: "r = at_route e s" and l: "live_of (rt_seg r) (g * MIN_BLOCK) = Some c"
    and run: "dealloc_small safe_mode (rt_base r) (rt_base r + g * MIN_BLOCK) c (rt_seg r) = Inr (freed, seg)"
  shows "freed \<and> remote_good (set_route e (r\<lparr>rt_seg := seg\<rparr>) (s\<lparr>in_use := in_use s - {(e, g)}\<rparr>))"
proof -
  note q = in_use_route [OF good u r]
  let ?s = "set_route e (r\<lparr>rt_seg := seg\<rparr>) (s\<lparr>in_use := in_use s - {(e, g)}\<rparr>)"
  have seg: "freed" "seg_ok (rt_base r) seg" "live_of seg = (live_of (rt_seg r))(g * MIN_BLOCK := None)"
    using free_live [OF remote_route_goodD(3) [OF q(2)] l, of safe_mode] run by auto
  have "remote_route_good (r\<lparr>rt_seg := seg\<rparr>)" using q(2) seg(2,3) by (auto simp: remote_route_good_def split: if_splits)
  then have "rest_good ?s" using good q by (intro set_rest [of _ e r]) (simp_all add: good_split)
  moreover have "blocks_good ?s"
  proof -
    have "places_ok (in_use s - {(e, g)}) (held_by s) (pending_blocks s) (cut_blocks (owner s)) (live_blocks s - {(e, g)})"
      using goodD(1) [OF good] u by (intro places_own_free) (simp_all add: blocks_good_def)
    moreover have "pending_blocks ?s = pending_blocks s" using q(1) by (auto simp: pending_blocks_def split: if_splits)
    moreover have "x \<in> live_blocks ?s \<longleftrightarrow> x \<in> live_blocks s \<and> x \<noteq> (e, g)" for x
      using q(1) seg(3) by (cases x; cases "fst x = e") (auto simp: live_blocks_def MIN_BLOCK_def)
    then have "live_blocks ?s = live_blocks s - {(e, g)}" by blast
    ultimately show ?thesis unfolding blocks_good_def by simp
  qed
  ultimately show ?thesis using seg(1) by (simp add: good_split)
qed

lemma issue_good:
  assumes good: "remote_good s" and e: "slot_route s i = Some e" and r: "r = at_route e s" and c: "c < SMALL_CLASS_COUNT"
    and run: "pop_free (rt_base r) c (rt_seg r) = Inr (Some p, seg)
        \<or> carve_block_with_refill safe_mode recommit (rt_base r) c (class_size c) (rt_seg r) = Inr (Some p, seg)"
    and sys: "sys \<noteq> 0 \<longrightarrow> fresh_chunk sys (classes (rt_side r))" and side: "side_issue sys (p - rt_base r) c (rt_side r) = Inr (True, side)"
  shows "remote_good (set_route e (r\<lparr>rt_seg := seg, rt_side := side\<rparr>) (s\<lparr>in_use := insert (e, (p - rt_base r) div MIN_BLOCK) (in_use s)\<rparr>))"
proof -
  obtain q where "routes s e = Some q" "rt_slot q = i" using routes_goodD(3) [OF goodD(2) [OF good] e] by blast
  then have q: "routes s e = Some r" "current s e" using r e by (simp_all add: current_def)
  have rg: "remote_route_good r" by (rule routes_goodD(1) [OF goodD(2) [OF good] q(1)])
  note ok = remote_route_goodD(3) [OF rg] and so = remote_route_goodD(2) [OF rg]
  define off where "off = p - rt_base r"
  have c49: "c < 49" using c by simp
  have seg: "seg_ok (rt_base r) seg" "live_of (rt_seg r) off = None" "live_of seg = (live_of (rt_seg r))(off \<mapsto> c)"
    using run pop_live [OF ok c49] refill_live [OF ok c49] unfolding off_def by blast+
  have off: "off < SEGMENT" "16 dvd off" using live_bounds(4,5) [OF seg(1), of off c] seg(3) by simp_all
  have sd: "side_ok side" "pending side = pending (rt_side r)"
    "\<And>g. g < 262144 \<Longrightarrow> encoded g (classes side) = (if g = off div 16 then c + 1 else encoded g (classes (rt_side r)))"
    using side_issue_ok [OF so sys c49 off side [folded off_def]] by blast+
  let ?r = "r\<lparr>rt_seg := seg, rt_side := side\<rparr>" let ?g = "off div 16"
  let ?s = "set_route e ?r (s\<lparr>in_use := insert (e, ?g) (in_use s)\<rparr>)"
  have mb: "off div MIN_BLOCK = ?g" "16 * ?g = off" using off by (simp_all add: MIN_BLOCK_def)
  have "encoded (x div 16) (classes side) = d + 1" if "live_of seg x = Some d" for x d
  proof -
    have x: "x < SEGMENT" "16 dvd x" using live_bounds(4,5) [OF seg(1) that] by simp_all
    have "x div 16 = ?g \<longleftrightarrow> x = off" using x(2) off(2) by (metis dvd_mult_div_cancel)
    moreover have "x div 16 < 262144" using x(1) by (simp add: less_mult_imp_div_less)
    ultimately show ?thesis using sd(3) that seg(3) remote_route_goodD(4) [OF rg, of x d] by (auto split: if_splits)
  qed
  then have "remote_route_good ?r" using rg seg(1) sd(1) by (simp add: remote_route_good_def)
  then have "rest_good ?s" using good q sd(2) by (intro set_rest [of _ e r]) (simp_all add: good_split pending_bit_def)
  moreover have "blocks_good ?s"
  proof -
    have "(e, ?g) \<notin> live_blocks s" using q(1) seg(2) mb(2) by (simp add: live_blocks_def)
    then have "places_ok (insert (e, ?g) (in_use s)) (held_by s) (pending_blocks s) (cut_blocks (owner s)) (insert (e, ?g) (live_blocks s))"
      using goodD(1) [OF good] by (intro places_issue) (simp_all add: blocks_good_def)
    moreover have "x \<in> pending_blocks ?s \<longleftrightarrow> x \<in> pending_blocks s" for x
      using q(1) sd(2) by (cases x; cases "fst x = e") (simp_all add: pending_blocks_def pending_bit_def)
    then have "pending_blocks ?s = pending_blocks s" by blast
    moreover have "x \<in> live_blocks ?s \<longleftrightarrow> x \<in> live_blocks s \<or> x = (e, ?g)" for x
    proof (cases x)
      case (Pair y h)
      have "16 * h = off \<longleftrightarrow> h = ?g" using mb(2) by auto
      then show ?thesis using q(1) seg(3) Pair by (cases "y = e") (auto simp: live_blocks_def)
    qed
    then have "live_blocks ?s = insert (e, ?g) (live_blocks s)" by blast
    ultimately show ?thesis unfolding blocks_good_def by simp
  qed
  ultimately show ?thesis by (simp add: good_split off_def [symmetric] mb(1))
qed

lemma register_good:
  assumes good: "remote_good s" and o: "owner s = OIdle" and i: "i < 64 * INGRESS_WORDS" and free: "slot_route s i = None" "routes s e = None"
    and seg: "seg_fresh base seg"
  shows "remote_good (set_route e (route_new i base m seg) (s\<lparr>slot_route := (slot_route s)(i \<mapsto> e)\<rparr>))"
proof -
  let ?r = "route_new i base m seg" let ?s = "set_route e ?r (s\<lparr>slot_route := (slot_route s)(i \<mapsto> e)\<rparr>)"
  have live: "live_of seg off = None" for off using fresh_live [OF seg] by simp
  have rf: "rt_slot ?r = i" "rt_seg ?r = seg" "rt_state ?r = ARMED" "rt_side ?r = sidecar_init m" "rt_base ?r = base" by (simp_all add: route_new_def)
  have rg: "remote_route_good ?r" using i fresh_ok [OF seg] side_init_ok(1) [of m] live by (simp add: remote_route_good_def rf INGRESS_WORDS_def)
  have here: "x \<noteq> e" if "routes s x = Some q" for x q using that free(2) by auto
  have pc: "route_of (producers s t) \<noteq> Some e" for t using goodD(3) [OF good] free(2) unfolding producers_good_def by blast
  have cur: "current ?s x \<longleftrightarrow> x = e \<or> current s x" if "x = e \<or> routes s x \<noteq> None" for x
    using that free here by (auto simp: current_def rf)
  have at: "at_route x ?s = at_route x s" if "x \<noteq> e" for x using that by simp
  have "blocks_good ?s"
  proof -
    have "pending_blocks ?s = pending_blocks s" "live_blocks ?s = live_blocks s"
      using free(2) side_init_ok(2) [of m] live by (auto simp: pending_blocks_def live_blocks_def rf split: if_splits)
    then show ?thesis using goodD(1) [OF good] by (subst blocks_cong [of ?s s]) auto
  qed
  moreover have "routes_good ?s"
    unfolding routes_good_def
  proof (intro conjI allI impI)
    note g = routes_goodD [OF goodD(2) [OF good]]
    fix x q assume q: "routes ?s x = Some q"
    show "remote_route_good q" using q rg g(1) [of x q] by (cases "x = e") auto
    show "live_of (rt_seg q) off = None" if "\<not> current ?s x" for off
      using q that cur [of x] g(2) [of x q off] by (cases "x = e") auto
  next
    fix j x assume "slot_route ?s j = Some x"
    then show "routes ?s x \<noteq> None" "rt_slot (at_route x ?s) = j"
      using routes_goodD(3) [OF goodD(2) [OF good], of j x] here by (auto simp: rf split: if_splits)
  qed
  moreover have "producers_good ?s" using goodD(3) [OF good] unfolding producers_good_def by auto
  moreover have "owner_good ?s" using o by (simp add: owner_good_def)
  moreover have "ingress_good ?s"
  proof (rule ingress_goodI)
    note inv = ingress_goodD [OF goodD(5) [OF good]]
    have any: "(\<exists>x. producers s t = PMask x \<and> rt_slot (at_route x ?s) = j) \<longleftrightarrow> (\<exists>x. producers s t = PMask x \<and> rt_slot (at_route x s) = j)"
      "(\<exists>x. producers s t = PSummary x \<and> rt_slot (at_route x ?s) div 64 = w) \<longleftrightarrow> (\<exists>x. producers s t = PSummary x \<and> rt_slot (at_route x s) div 64 = w)" for t j w
      using pc [of t] by auto
    have parts: "producers ?s = producers s" "ingress ?s = ingress s" "owner ?s = owner s" by simp_all
    have eq: "noted ?s j \<longleftrightarrow> noted s j" "summed ?s w \<longleftrightarrow> summed s w" "loading ?s x \<longleftrightarrow> loading s x" for j w x
      unfolding noted_def summed_def loading_def anyone_def parts any o by simp_all
    show "length (mask (ingress ?s)) = 64" using inv(1) by simp
    show "j < 4096 \<Longrightarrow> marked (ingress ?s) j \<Longrightarrow> summed ?s (j div 64)" for j using inv(2) [of j] by (simp add: eq)
    fix x q assume q: "routes ?s x = Some q" "current ?s x"
    then have c: "current s x" if "x \<noteq> e" using that cur [of x] by auto
    show "noted ?s (rt_slot q)" if "rt_state q \<noteq> ARMED"
      using that q c inv(3) [of x q] unfolding eq by (cases "x = e") (auto simp: rf)
    show "loading ?s x \<or> ahead (owner ?s) x (h div 64)" if "rt_state q = ARMED" "pending_bit (rt_side q) h" for h
      using that q c inv(4) [of x q h] side_init_ok(2) [of m h] unfolding eq by (cases "x = e") (auto simp: rf)
  qed
  ultimately show ?thesis by (simp add: remote_good_def)
qed

lemma release_good:
  assumes good: "remote_good s" and o: "owner s = OIdle \<or> (\<exists>p. owner s = OBits p)" and e: "slot_route s i = Some e"
    and l: "live_count (seg_hdr (rt_seg (at_route e s))) = 0"
  shows "remote_good (s\<lparr>slot_route := (slot_route s)(i := None)\<rparr>)"
proof -
  let ?s = "s\<lparr>slot_route := (slot_route s)(i := None)\<rparr>"
  obtain r where r: "routes s e = Some r" "rt_slot r = i" using routes_goodD(3) [OF goodD(2) [OF good] e] by blast
  have dead: "live_of (rt_seg r) off = None" for off
    using no_live [OF remote_route_goodD(3) [OF routes_goodD(1) [OF goodD(2) [OF good] r(1)]]] l r by simp
  have cur: "current ?s x \<longleftrightarrow> current s x \<and> rt_slot (at_route x s) \<noteq> i" for x by (auto simp: current_def)
  have only: "x = e" if "current s x" "rt_slot (at_route x s) = i" for x using that e by (simp add: current_def)
  have "blocks_good ?s" using goodD(1) [OF good] by (subst blocks_cong [of ?s s]) (simp_all add: pending_blocks_def live_blocks_def)
  moreover have "routes_good ?s"
    unfolding routes_good_def
  proof (intro conjI allI impI)
    note g = routes_goodD [OF goodD(2) [OF good]]
    fix x q assume q: "routes ?s x = Some q"
    show "remote_route_good q" using q g(1) [of x q] by simp
    show "live_of (rt_seg q) off = None" if "\<not> current ?s x" for off
    proof (cases "current s x")
      case True
      then have "x = e" using that cur only by blast
      then show ?thesis using dead q r by simp
    qed (use g(2) [of x q off] q in simp)
  next
    fix j x assume "slot_route ?s j = Some x"
    then show "routes ?s x \<noteq> None" "rt_slot (at_route x ?s) = j"
      using routes_goodD(3) [OF goodD(2) [OF good], of j x] by (auto split: if_splits)
  qed
  moreover have "producers_good ?s" using goodD(3) [OF good] by (simp add: producers_good_def)
  moreover have "owner_good ?s" using goodD(4) [OF good] o by (auto simp: owner_good_def)
  moreover have "ingress_good ?s"
  proof (rule ingress_goodI)
    note inv = ingress_goodD [OF goodD(5) [OF good]]
    have eq: "noted ?s = noted s" "summed ?s = summed s" "loading ?s = loading s"
      by (simp_all add: fun_eq_iff noted_def summed_def loading_def)
    show "length (mask (ingress ?s)) = 64" using inv(1) by simp
    show "j < 4096 \<Longrightarrow> marked (ingress ?s) j \<Longrightarrow> summed ?s (j div 64)" for j using inv(2) [of j] unfolding eq by simp
    fix x q assume q: "routes ?s x = Some q" "current ?s x"
    then have c: "current s x" using cur by blast
    show "rt_state q \<noteq> ARMED \<Longrightarrow> noted ?s (rt_slot q)" using q c inv(3) [of x q] unfolding eq by simp
    show "rt_state q = ARMED \<Longrightarrow> pending_bit (rt_side q) h \<Longrightarrow> loading ?s x \<or> ahead (owner ?s) x (h div 64)" for h
      using q c inv(4) [of x q h] unfolding eq by simp
  qed
  ultimately show ?thesis by (simp add: remote_good_def)
qed

lemma remote_start_good: "remote_start s \<Longrightarrow> remote_good s"
  by (auto simp: remote_start_def remote_good_def blocks_good_def places_ok_def routes_good_def producers_good_def owner_good_def
      ingress_good_def pending_blocks_def live_blocks_def cut_blocks_def ingress_new_def marked_def INGRESS_WORDS_def)

lemma remote_step_good:
  assumes good: "remote_good s" and step: "remote_step safe_mode s s'"
  shows "remote_good s'"
  using step
proof (cases rule: remote_step.cases)
  case (remote_producer t)
  then show ?thesis using producer_step_good [OF good, of safe_mode t] by auto
next
  case remote_owner
  then show ?thesis using owner_step_good [OF good, of safe_mode] by auto
next
  case (remote_free t e g)
  show ?thesis unfolding remote_free(1) by (rule free_step [OF good remote_free(2,3)])
next
  case (remote_trim i e seg k end_w)
  show ?thesis unfolding remote_trim(1) by (rule trim_good [OF good remote_trim(2,3,4,6,7)])
next
  case (remote_issue i e r c p seg recommit sys side)
  show ?thesis unfolding remote_issue(1) by (rule issue_good [OF good remote_issue(3-8)])
next
  case (remote_own_free e g r c freed seg)
  show ?thesis unfolding remote_own_free(1) using own_free_good [OF good remote_own_free(3-6)] ..
next
  case (remote_write e g r c f)
  show ?thesis unfolding remote_write(1) by (rule write_good [OF good remote_write(2-4)])
next
  case (remote_register i e base seg m)
  show ?thesis unfolding remote_register(1) by (rule register_good [OF good remote_register(2-6)])
next
  case (remote_release i e)
  show ?thesis unfolding remote_release(1) by (rule release_good [OF good remote_release(2-4)])
qed

interpretation remote_life: transition_system remote_start "remote_step safe_mode" remote_good
  by unfold_locales (blast intro: remote_start_good remote_step_good)+

subsection \<open>The owner left alone\<close>

definition owner_alone :: "bool \<Rightarrow> remote_system \<Rightarrow> remote_system \<Rightarrow> bool" where
  "owner_alone safe_mode s s' \<longleftrightarrow> owner_step safe_mode s = Inr s'"

text \<open>What is left of a pass: words, slots, words of the segment, bits of a cut.\<close>

definition stage :: "owner_pc \<Rightarrow> nat" where
  "stage pc = (case pc of OArm _ _ \<Rightarrow> 2 | OScan _ _ _ _ \<Rightarrow> 1 | OCut _ _ _ _ \<Rightarrow> 1 | OPop _ _ _ _ _ \<Rightarrow> 1 | _ \<Rightarrow> 0)"

definition words_rank :: "owner_pc \<Rightarrow> nat" where
  "words_rank pc = (case take_pos_of pc of Some (words, w, bits) \<Rightarrow> unat words | None \<Rightarrow> (case pc of OWords words \<Rightarrow> unat words | _ \<Rightarrow> 0))"

definition slots_rank :: "owner_pc \<Rightarrow> nat" where
  "slots_rank pc = (case take_pos_of pc of Some (words, w, bits) \<Rightarrow> unat bits + 1 | None \<Rightarrow> 0)"

definition scan_rank :: "owner_pc \<Rightarrow> nat" where
  "scan_rank pc = (case scanned pc of Some (e, k, n) \<Rightarrow> n - k | None \<Rightarrow> 0)"

definition cut_rank :: "owner_pc \<Rightarrow> nat" where
  "cut_rank pc = (case pc of OScan _ _ _ _ \<Rightarrow> 2 | OCut _ _ _ _ \<Rightarrow> 1 | _ \<Rightarrow> 0)"

definition bits_rank :: "owner_pc \<Rightarrow> nat" where
  "bits_rank pc = (case pc of OPop _ _ _ _ bits \<Rightarrow> unat bits | _ \<Rightarrow> 0)"

definition pass_order :: "(owner_pc \<times> owner_pc) set" where
  "pass_order = measures [\<lambda>pc. if pc = OSwap then 1 else 0, words_rank, slots_rank, stage, scan_rank, cut_rank, bits_rank]"

lemmas pass_ranks = pass_order_def stage_def words_rank_def slots_rank_def scan_rank_def cut_rank_def bits_rank_def

lemma owner_step_rank:
  assumes good: "remote_good s" and busy: "owner s \<noteq> OIdle" and run: "owner_step safe_mode s = Inr s'"
  shows "(owner s' = OIdle \<or> (owner s', owner s) \<in> pass_order) \<and> producers s' = producers s \<and> in_use s' = in_use s
    \<and> summary (ingress s') = (if owner s = OSwap then 0 else summary (ingress s))"
proof (cases "owner s")
  case OIdle
  then show ?thesis using busy by simp
next
  case OSwap
  then show ?thesis using run by (auto simp: owner_step_eq pass_ranks)
next
  case (OWords words)
  then show ?thesis using run clear_lowest_less [of words] by (auto simp: owner_step_eq pass_ranks Let_def split: if_splits)
next
  case (OBits p)
  obtain words w bits where p: "p = (words, w, bits)" by (cases p)
  show ?thesis using run clear_lowest_less [of bits]
    by (auto simp: owner_step_eq OBits p pass_ranks Let_def split: if_splits option.splits)
next
  case (OArm p e)
  obtain words w bits where p: "p = (words, w, bits)" by (cases p)
  show ?thesis using run by (auto simp: owner_step_eq OArm p begin_scan_def pass_ranks Let_def split: option.splits)
next
  case (OScan p e k n)
  obtain words w bits where p: "p = (words, w, bits)" by (cases p)
  have "k \<le> n" using goodD(4) [OF good] by (simp add: owner_good_def OScan)
  then show ?thesis using run by (auto simp: owner_step_eq OScan p pass_ranks rbind_Inr_iff split: if_splits)
next
  case (OCut p e k n)
  obtain words w bits where p: "p = (words, w, bits)" by (cases p)
  show ?thesis using run by (auto simp: owner_step_eq OCut p pass_ranks Let_def split: prod.splits)
next
  case (OPop p e k n b)
  obtain words w bits where p: "p = (words, w, bits)" by (cases p)
  have kn: "k < n" using goodD(4) [OF good] by (simp add: owner_good_def OPop p)
  show ?thesis
  proof (cases "b = 0")
    case True
    then show ?thesis using run kn by (auto simp: owner_step_eq OPop p cut_pop_def pass_ranks Let_def)
  next
    case False
    from record_good [OF good OPop False refl, of safe_mode] run show ?thesis
      using clear_lowest_less [OF False] by (auto simp: owner_step_eq OPop p pass_ranks Let_def)
  qed
qed

text \<open>A pass ends.\<close>

lemma pass_ends:
  assumes "remote_good s"
  shows "\<exists>n s'. (owner_alone safe_mode ^^ n) s s' \<and> remote_good s' \<and> owner s' = OIdle \<and> producers s' = producers s \<and> in_use s' = in_use s
    \<and> (owner s = OSwap \<or> summary (ingress s) = 0 \<longrightarrow> summary (ingress s') = 0)"
  using assms
proof (induction "owner s" arbitrary: s rule: wf_induct_rule [OF wf_measures [of "[\<lambda>pc. if pc = OSwap then 1 else 0, words_rank, slots_rank, stage, scan_rank, cut_rank, bits_rank]", folded pass_order_def]])
  case (1 s)
  show ?case
  proof (cases "owner s = OIdle")
    case True
    then show ?thesis using 1(2) by (intro exI [of _ 0] exI [of _ s]) simp
  next
    case busy: False
    obtain s1 where s1: "owner_step safe_mode s = Inr s1" "remote_good s1" using owner_step_good [OF 1(2)] by blast
    note k = owner_step_rank [OF 1(2) busy s1(1)]
    have "\<exists>n s'. (owner_alone safe_mode ^^ n) s1 s' \<and> remote_good s' \<and> owner s' = OIdle \<and> producers s' = producers s1 \<and> in_use s' = in_use s1
      \<and> (owner s1 = OSwap \<or> summary (ingress s1) = 0 \<longrightarrow> summary (ingress s') = 0)"
    proof (cases "owner s1 = OIdle")
      case True
      then show ?thesis using s1(2) by (intro exI [of _ 0] exI [of _ s1]) simp
    next
      case False
      then show ?thesis using 1(1) [OF _ s1(2)] k by blast
    qed
    then obtain n s' where n: "(owner_alone safe_mode ^^ n) s1 s'" "remote_good s'" "owner s' = OIdle" "producers s' = producers s1" "in_use s' = in_use s1"
      "owner s1 = OSwap \<or> summary (ingress s1) = 0 \<longrightarrow> summary (ingress s') = 0" by blast
    have "(owner_alone safe_mode ^^ Suc n) s s'" by (rule relpowp_Suc_I2 [OF _ n(1)]) (simp add: owner_alone_def s1(1))
    then show ?thesis using n k by (intro exI [of _ "Suc n"] exI [of _ s']) auto
  qed
qed

definition publishing :: "producer_pc \<Rightarrow> bool" where
  "publishing pc \<longleftrightarrow> (case pc of PLoad _ \<Rightarrow> True | PCas _ \<Rightarrow> True | PMask _ \<Rightarrow> True | PSummary _ \<Rightarrow> True | _ \<Rightarrow> False)"

lemma pending_noted:
  assumes good: "remote_good s" and o: "owner s = OIdle" and q: "\<forall>t. \<not> publishing (producers s t)" and x: "(e, g) \<in> pending_blocks s"
  shows "\<exists>i. slot_route s i = Some e \<and> i < 4096 \<and> marked (ingress s) i \<and> bit (summary (ingress s)) (i div 64)"
proof -
  obtain r where r: "routes s e = Some r" "remote_route_good r" "current s e" using block_facts [OF good, of e g] x by blast
  have p: "pending_bit (rt_side r) g" using x r(1) by (simp add: pending_blocks_def)
  note inv = ingress_goodD [OF goodD(5) [OF good]]
  have none: "\<not> anyone s Q" if "\<And>pc. Q pc \<Longrightarrow> publishing pc" for Q using q that by (auto simp: anyone_def)
  have "\<not> loading s e" unfolding loading_def by (rule none) (auto simp: publishing_def)
  then have "rt_state r \<noteq> ARMED" using inv(4) [OF r(1,3) _ p] o by (auto simp: ahead_def)
  then have "noted s (rt_slot r)" using inv(3) [OF r(1,3)] by blast
  moreover have "\<not> anyone s (\<lambda>pc. \<exists>e. pc = PMask e \<and> rt_slot (at_route e s) = rt_slot r)" by (rule none) (auto simp: publishing_def)
  ultimately have m: "marked (ingress s) (rt_slot r)" using o by (simp add: noted_def in_hand_def)
  have i: "rt_slot r < 4096" by (rule remote_route_goodD(1) [OF r(2)])
  have "summed s (rt_slot r div 64)" by (rule inv(2) [OF i m])
  moreover have "\<not> anyone s (\<lambda>pc. \<exists>e. pc = PSummary e \<and> rt_slot (at_route e s) div 64 = rt_slot r div 64)" by (rule none) (auto simp: publishing_def)
  ultimately have "bit (summary (ingress s)) (rt_slot r div 64)" using o by (simp add: summed_def words_left_def)
  then show ?thesis using m i r by (auto simp: current_def)
qed

lemma owner_drains:
  assumes good: "remote_good s" and q: "\<forall>t. \<not> publishing (producers s t)"
  shows "\<exists>n s'. (owner_alone safe_mode ^^ n) s s' \<and> owner s' = OIdle \<and> producers s' = producers s \<and> in_use s' = in_use s
    \<and> pending_blocks s' = {} \<and> live_blocks s' = in_use s \<union> ran (held_by s)"
proof -
  have fin: "pending_blocks s' = {} \<and> live_blocks s' = in_use s' \<union> ran (held_by s')"
    if s': "remote_good s'" "owner s' = OIdle" "producers s' = producers s" "summary (ingress s') = 0" for s'
  proof -
    have "\<forall>t. \<not> publishing (producers s' t)" using q s'(3) by simp
    then have "x \<notin> pending_blocks s'" for x using pending_noted [OF s'(1,2)] s'(4) by (cases x) fastforce
    then have e: "pending_blocks s' = {}" by blast
    have "cut_blocks (owner s') = {}" using s'(2) by (simp add: cut_blocks_def)
    then show ?thesis using goodD(1) [OF s'(1)] e unfolding blocks_good_def places_ok_def by blast
  qed
  obtain n s1 where s1: "(owner_alone safe_mode ^^ n) s s1" "remote_good s1" "owner s1 = OIdle" "producers s1 = producers s" "in_use s1 = in_use s"
    using pass_ends [OF good, of safe_mode] by blast
  show ?thesis
  proof (cases "summary (ingress s1) = 0")
    case True
    then show ?thesis using fin [OF s1(2-4)] s1 by (intro exI [of _ n] exI [of _ s1]) simp
  next
    case False
    have "owner_alone safe_mode s1 (own OSwap s1)" using s1(3) False by (simp add: owner_alone_def owner_step_eq)
    with s1(1) have r: "(owner_alone safe_mode ^^ Suc n) s (own OSwap s1)" by (rule relpowp_Suc_I)
    obtain m s2 where s2: "(owner_alone safe_mode ^^ m) (own OSwap s1) s2" "remote_good s2" "owner s2 = OIdle" "producers s2 = producers s1"
      "in_use s2 = in_use s1" "summary (ingress s2) = 0"
      using pass_ends [OF idle_good [OF s1(2,3)], of safe_mode] by auto
    have "(owner_alone safe_mode ^^ (Suc n + m)) s s2" using r s2(1) by (auto simp only: relpowp_add relcompp.simps)
    then show ?thesis using fin [OF s2(2,3)] s1 s2 by (intro exI [of _ "Suc n + m"] exI [of _ s2]) simp
  qed
qed

subsection \<open>A freeing thread left alone\<close>

definition thread_alone :: "bool \<Rightarrow> nat \<Rightarrow> remote_system \<Rightarrow> remote_system \<Rightarrow> bool" where
  "thread_alone safe_mode t s s' \<longleftrightarrow> producers s t \<noteq> PIdle \<and> producer_step safe_mode t s = Inr s'"

definition accesses_left :: "producer_pc \<Rightarrow> nat" where
  "accesses_left pc = (case pc of PIdle \<Rightarrow> 0 | PCheck _ _ \<Rightarrow> 6 | POr _ _ \<Rightarrow> 5 | PLoad _ \<Rightarrow> 4 | PCas _ \<Rightarrow> 3 | PMask _ \<Rightarrow> 2 | PSummary _ \<Rightarrow> 1)"

text \<open>One step comes closer to the end and moves no block but the one held, which becomes pending.\<close>

lemma thread_step:
  assumes good: "remote_good s" and busy: "producers s t \<noteq> PIdle"
  shows "\<exists>s' pc. producer_step safe_mode t s = Inr s' \<and> remote_good s' \<and> producers s' = (producers s)(t := pc) \<and> accesses_left pc < accesses_left (producers s t)
    \<and> owner s' = owner s \<and> in_use s' = in_use s \<and> slot_route s' = slot_route s
    \<and> pending_blocks s' \<union> set_option (holding pc) = pending_blocks s \<union> set_option (holding (producers s t))"
proof -
  have pending_go: "pending_blocks (go t pc z) = pending_blocks z" for pc z by (simp add: pending_blocks_def)
  have same: "pending_blocks (go t pc (set_route e (r\<lparr>rt_state := st\<rparr>) s)) = pending_blocks s" if "routes s e = Some r" for e r st pc
    using that by (auto simp: pending_blocks_def split: if_splits)
  have quiet: "pending_blocks (go t pc s) = pending_blocks s" "pending_blocks (go t pc (s\<lparr>ingress := H\<rparr>)) = pending_blocks s" for pc H
    by (simp_all add: pending_blocks_def)
  obtain s' where s': "producer_step safe_mode t s = Inr s'" "remote_good s'" using producer_step_good [OF good] by blast
  show ?thesis
  proof (cases "producers s t")
    case (PCheck e off)
    then show ?thesis using s' check_step [OF good PCheck, of safe_mode] quiet
      by (intro exI [of _ s'] exI [of _ "POr e (off div 16)"]) (auto simp: producer_step_eq accesses_left_def)
  next
    case (POr e g)
    let ?r = "at_route e s"
    obtain r where r: "routes s e = Some r" "remote_route_good r" by (rule producer_route [OF good, of t e]) (simp add: POr)
    have "g < 262144" using block_facts [OF good, of e g] held_live [OF good, of t e g] POr by auto
    then have "x \<in> pending_blocks (set_route e (r\<lparr>rt_side := publish_or g (rt_side r)\<rparr>) s) \<longleftrightarrow> x \<in> pending_blocks s \<or> x = (e, g)" for x
      using publish_or_ok(3) [OF remote_route_goodD(2) [OF r(2)], of g] r(1) by (cases x; cases "fst x = e") (auto simp: pending_blocks_def)
    then have "pending_blocks (set_route e (r\<lparr>rt_side := publish_or g (rt_side r)\<rparr>) s) = pending_blocks s \<union> {(e, g)}" by blast
    moreover have "s' = go t (PLoad e) (set_route e (r\<lparr>rt_side := publish_or g (rt_side r)\<rparr>) s)" using s'(1) r(1) POr
      by (simp add: producer_step_eq Let_def)
    ultimately have "pending_blocks s' = pending_blocks s \<union> {(e, g)}" using pending_go by simp
    then show ?thesis using s' POr
      by (intro exI [of _ s'] exI [of _ "PLoad e"]) (auto simp: producer_step_eq Let_def accesses_left_def)
  next
    case (PLoad e)
    then show ?thesis using s' quiet
      by (intro exI [of _ s'] exI [of _ "if rt_state (at_route e s) = ARMED then PCas e else PIdle"]) (auto simp: producer_step_eq accesses_left_def)
  next
    case (PCas e)
    obtain r where r: "routes s e = Some r" by (rule producer_route [OF good, of t e]) (simp add: PCas)
    then show ?thesis using s' quiet same [OF r] PCas
      by (intro exI [of _ s'] exI [of _ "if rt_state (at_route e s) = ARMED then PMask e else PIdle"]) (auto simp: producer_step_eq accesses_left_def Let_def)
  next
    case (PMask e)
    then show ?thesis using s' quiet by (intro exI [of _ s'] exI [of _ "PSummary e"]) (auto simp: producer_step_eq accesses_left_def)
  next
    case (PSummary e)
    then show ?thesis using s' quiet by (intro exI [of _ s'] exI [of _ PIdle]) (auto simp: producer_step_eq accesses_left_def)
  qed (use busy in simp)
qed




text \<open>A run with \<open>n\<close> accesses of the thread \<open>t\<close> in it, between them any steps of the others.\<close>

inductive thread_run :: "bool \<Rightarrow> nat \<Rightarrow> nat \<Rightarrow> remote_system \<Rightarrow> remote_system \<Rightarrow> bool" for safe_mode :: bool and t :: nat where
  run_nil: "thread_run safe_mode t 0 s s"
| run_own: "thread_run safe_mode t n s s1 \<Longrightarrow> producers s1 t \<noteq> PIdle \<Longrightarrow> producer_step safe_mode t s1 = Inr s'
    \<Longrightarrow> thread_run safe_mode t (Suc n) s s'"
| run_other: "thread_run safe_mode t n s s1 \<Longrightarrow> remote_step safe_mode s1 s' \<Longrightarrow> producers s' t = producers s1 t
    \<Longrightarrow> thread_run safe_mode t n s s'"





lemma thread_ends:
  assumes "remote_good s"
  shows "\<exists>n s'. n \<le> accesses_left (producers s t) \<and> (thread_alone safe_mode t ^^ n) s s' \<and> remote_good s' \<and> producers s' = (producers s)(t := PIdle)
    \<and> owner s' = owner s \<and> in_use s' = in_use s \<and> slot_route s' = slot_route s
    \<and> pending_blocks s' = pending_blocks s \<union> set_option (holding (producers s t))"
  using assms
proof (induction "accesses_left (producers s t)" arbitrary: s rule: less_induct)
  case less
  show ?case
  proof (cases "producers s t = PIdle")
    case True
    then have "(producers s)(t := PIdle) = producers s" by auto
    then show ?thesis using less.prems True by (intro exI [of _ 0] exI [of _ s]) simp
  next
    case busy: False
    from thread_step [OF less.prems busy, of safe_mode] obtain s1 pc where s1: "producer_step safe_mode t s = Inr s1" "remote_good s1"
      "producers s1 = (producers s)(t := pc)" "accesses_left pc < accesses_left (producers s t)" "owner s1 = owner s" "in_use s1 = in_use s"
      "slot_route s1 = slot_route s" "pending_blocks s1 \<union> set_option (holding pc) = pending_blocks s \<union> set_option (holding (producers s t))" by blast
    have p: "producers s1 t = pc" using s1(3) by simp
    from less.hyps [OF _ s1(2)] s1(4) p obtain n s' where n: "n \<le> accesses_left pc" "(thread_alone safe_mode t ^^ n) s1 s'" "remote_good s'"
      "producers s' = (producers s1)(t := PIdle)" "owner s' = owner s1" "in_use s' = in_use s1" "slot_route s' = slot_route s1"
      "pending_blocks s' = pending_blocks s1 \<union> set_option (holding pc)" by auto
    have "(thread_alone safe_mode t ^^ Suc n) s s'" by (rule relpowp_Suc_I2 [OF _ n(2)]) (simp add: thread_alone_def s1(1) busy)
    then show ?thesis using n s1 by (intro exI [of _ "Suc n"] exI [of _ s']) simp
  qed
qed

lemma thread_reachable: "(thread_alone safe_mode t ^^ n) s s' \<Longrightarrow> reachable remote_start (remote_step safe_mode) s \<Longrightarrow> reachable remote_start (remote_step safe_mode) s'"
proof (induction n arbitrary: s')
  case (Suc n)
  then obtain s1 where "(thread_alone safe_mode t ^^ n) s s1" "thread_alone safe_mode t s1 s'" by (auto elim: relpowp_Suc_E)
  then show ?case using Suc by (meson reach_step remote_producer thread_alone_def)
qed simp
subsection \<open>A block freed by another thread\<close>

text \<open>A heap with one small segment, one block carved from it and handed to thread 0, which frees it.\<close>

definition sample_heap :: remote_system where
  "sample_heap = \<lparr>routes = \<lambda>_. None, slot_route = \<lambda>_. None, ingress = ingress_new, producers = \<lambda>_. PIdle, owner = OIdle, in_use = {}\<rparr>"

lemma sample_freeing:
  "\<exists>s g. reachable remote_start (remote_step True) s \<and> producers s = (\<lambda>_. PIdle)(0 := PCheck 1 (g * MIN_BLOCK)) \<and> owner s = OIdle \<and> in_use s = {}"
proof -
  let ?r = "route_new 5 sample_base (\<lambda>_. 0) sample_seg"
  define s1 where "s1 = set_route 1 ?r (sample_heap\<lparr>slot_route := (slot_route sample_heap)(5 \<mapsto> 1)\<rparr>)"
  have "reachable remote_start (remote_step True) sample_heap" by (rule reach_start) (simp add: remote_start_def sample_heap_def)
  moreover have "remote_step True sample_heap s1" unfolding s1_def
    by (rule remote_register [OF _ _ _ _ sample_fresh]) (simp_all add: sample_heap_def INGRESS_WORDS_def)
  ultimately have r1: "reachable remote_start (remote_step True) s1" by (rule reach_step)
  have at1: "at_route 1 s1 = ?r" "owner s1 = OIdle" "slot_route s1 5 = Some 1" "producers s1 = (\<lambda>_. PIdle)" "in_use s1 = {}"
    by (simp_all add: s1_def sample_heap_def)
  let ?a = "carve_start 0 sample_seg"
  have b: "bump (seg_hdr sample_seg) = small_meta_end" "is_decommitted (seg_hdr sample_seg) = False"
    by (simp_all add: sample_seg_def fresh_segment_def header_small_def is_decommitted_def)
  have "carvable True 0 sample_seg" by (simp add: carvable_def carve_start_def b class_size_0 div_ceil_def)
  with carve_with_refill_ok [OF fresh_ok [OF sample_fresh], of 0 True True] obtain seg where
    seg: "carve_block_with_refill True True sample_base 0 (class_size 0) sample_seg = Inr (Some (sample_base + ?a), seg)" "block seg ?a = Some (0, LIVE)" by auto
  note a = block_bounds [OF seg(2)]
  obtain side where side: "side_issue 4096 ?a 0 (sidecar_init (\<lambda>_. 0)) = Inr (True, side)"
    using side_issue_new [of 0 ?a 4096] a by auto
  have fresh: "fresh_chunk 4096 (classes (sidecar_init (\<lambda>_. 0)))" using side_issue_new [of 0 ?a 4096] a by simp
  define s2 where "s2 = set_route 1 (?r\<lparr>rt_seg := seg, rt_side := side\<rparr>) (s1\<lparr>in_use := insert (1, ?a div MIN_BLOCK) (in_use s1)\<rparr>)"
  have step: "remote_step True s1 (set_route 1 (?r\<lparr>rt_seg := seg, rt_side := side\<rparr>) (s1\<lparr>in_use := insert (1, (sample_base + ?a - rt_base ?r) div MIN_BLOCK) (in_use s1)\<rparr>))"
    by (rule remote_issue [OF at1(2,3) at1(1) [symmetric], where c = 0 and sys = 4096 and recommit = True])
      (use seg(1) side fresh in \<open>simp_all add: route_new_def\<close>)
  then have "remote_step True s1 s2" unfolding s2_def by (simp add: route_new_def)
  with r1 have r2: "reachable remote_start (remote_step True) s2" by (rule reach_step)
  have at2: "producers s2 0 = PIdle" "(1, ?a div MIN_BLOCK) \<in> in_use s2" by (simp_all add: s2_def at1)
  define s3 where "s3 = go 0 (PCheck 1 (?a div MIN_BLOCK * MIN_BLOCK)) (s2\<lparr>in_use := in_use s2 - {(1, ?a div MIN_BLOCK)}\<rparr>)"
  have "reachable remote_start (remote_step True) s3" unfolding s3_def by (rule reach_step [OF r2 remote_free [OF at2]])
  moreover have "owner s3 = OIdle" "in_use s3 = {}" "producers s3 = (\<lambda>_. PIdle)(0 := PCheck 1 (?a div MIN_BLOCK * MIN_BLOCK))"
    by (simp_all add: s3_def s2_def at1)
  ultimately show ?thesis by blast
qed

lemma sample_pending:
  "\<exists>s. reachable remote_start (remote_step True) s \<and> (\<forall>t. producers s t = PIdle) \<and> owner s = OIdle \<and> in_use s = {} \<and> (\<exists>g. (1, g) \<in> pending_blocks s)"
proof -
  from sample_freeing obtain s g where s: "reachable remote_start (remote_step True) s"
    "producers s = (\<lambda>_. PIdle)(0 := PCheck 1 (g * MIN_BLOCK))" "owner s = OIdle" "in_use s = {}" by blast
  from thread_ends [OF remote_life.reachable_good [OF s(1)], of 0 True] obtain n s' where
    "(thread_alone True 0 ^^ n) s s'" "producers s' = (producers s)(0 := PIdle)" "owner s' = owner s" "in_use s' = in_use s"
    "pending_blocks s' = pending_blocks s \<union> set_option (holding (producers s 0))" by blast
  with s thread_reachable [OF this(1) s(1)] show ?thesis by (intro exI [of _ s']) auto
qed
subsection \<open>Properties\<close>

text \<open>C35: Remote frees lose no block and free none twice.  In every state that a heap, its owner and
  any number of freeing threads can reach, in any interleaving of their atomic accesses, each live block
  of each segment is in exactly one place: with the callers, held by one thread that is publishing it,
  pending in the sidecar of its segment, or detached by the owner and about to be reclaimed.  Every
  segment stays well formed, and the class code its sidecar keeps of a live block is the block's class.\<close>

theorem remote_conserved:
  assumes "reachable remote_start (remote_step safe_mode) s"
  shows "places_ok (in_use s) (held_by s) (pending_blocks s) (cut_blocks (owner s)) (live_blocks s)
    \<and> (\<forall>e r. routes s e = Some r \<longrightarrow> seg_ok (rt_base r) (rt_seg r)
         \<and> (\<forall>off c. live_of (rt_seg r) off = Some c \<longrightarrow> encoded (off div MIN_BLOCK) (classes (rt_side r)) = c + 1))"
proof -
  have good: "remote_good s" by (rule remote_life.reachable_good [OF assms])
  note r = remote_route_goodD [OF routes_goodD(1) [OF goodD(2) [OF good]]]
  have "seg_ok (rt_base q) (rt_seg q) \<and> (\<forall>off c. live_of (rt_seg q) off = Some c \<longrightarrow> encoded (off div MIN_BLOCK) (classes (rt_side q)) = c + 1)"
    if "routes s e = Some q" for e q
    using r(3,4) [OF that] by (simp add: MIN_BLOCK_def)
  then show ?thesis using goodD(1) [OF good] by (simp add: blocks_good_def)
qed

lemma remote_conserved_witness: "\<exists>s g. owner s = OIdle \<and> (1, g) \<in> pending_blocks s \<and> (1, g) \<in> live_blocks s \<and> in_use s = {}"
proof -
  from sample_pending obtain s g where s: "reachable remote_start (remote_step True) s" "owner s = OIdle" "in_use s = {}" "(1, g) \<in> pending_blocks s" by blast
  from remote_conserved [OF s(1)] s(4) have "(1, g) \<in> live_blocks s" unfolding places_ok_def by blast
  then show ?thesis using s by blast
qed

text \<open>C36: No remote free aborts the process and none is turned away.  In every reachable state the next
  access of every freeing thread and of the owner returns; a thread that frees a block it was given finds
  the block's class code, so its free is published and not rejected as misuse; and each bit the owner
  detached leads to a record of a live block with that block's class, whose reclaim succeeds, leaves the
  other live blocks as they are, and is what a free of the block by the owner itself would have done.\<close>

theorem remote_no_abort:
  assumes "reachable remote_start (remote_step safe_mode) s"
  shows "(\<exists>s'. producer_step safe_mode t s = Inr s') \<and> (\<exists>s'. owner_step safe_mode s = Inr s')
    \<and> (\<forall>e off. producers s t = PCheck e off \<longrightarrow> producer_step safe_mode t s = Inr (go t (POr e (off div MIN_BLOCK)) s))
    \<and> (\<forall>p e k n bits. owner s = OPop p e k n bits \<longrightarrow> bits \<noteq> 0 \<longrightarrow>
         (let r = at_route e s; off = (k * 64 + word_tz bits) * MIN_BLOCK
          in \<exists>c seg. live_of (rt_seg r) off = Some c
            \<and> cut_pop (classes (rt_side r)) \<lparr>cut_word = k, cut_bits = bits\<rparr>
              = Inr (Some \<lparr>rec_offset = off, rec_class = c\<rparr>, \<lparr>cut_word = k, cut_bits = bits AND (bits - 1)\<rparr>)
            \<and> reclaim_sidecar_record safe_mode (rt_base r) off c (rt_seg r) = Inr (True, seg)
            \<and> dealloc_small safe_mode (rt_base r) (rt_base r + off) c (rt_seg r) = Inr (True, seg)
            \<and> live_of seg = (live_of (rt_seg r))(off := None)))"
proof (intro conjI allI impI)
  have good: "remote_good s" by (rule remote_life.reachable_good [OF assms])
  show "\<exists>s'. producer_step safe_mode t s = Inr s'" "\<exists>s'. owner_step safe_mode s = Inr s'"
    using producer_step_good [OF good] owner_step_good [OF good] by blast+
  show "producer_step safe_mode t s = Inr (go t (POr e (off div MIN_BLOCK)) s)" if "producers s t = PCheck e off" for e off
    using check_step [OF good that, of safe_mode] that by (simp add: producer_step_eq MIN_BLOCK_def)
  fix p e k n bits assume o: "owner s = OPop p e k n bits" and nz: "bits \<noteq> 0"
  have "current s e \<and> routes s e \<noteq> None" using goodD(4) [OF good] o by (simp add: owner_good_def)
  then have ok: "seg_ok (rt_base (at_route e s)) (rt_seg (at_route e s))" using remote_route_goodD(3) [OF routes_goodD(1) [OF goodD(2) [OF good]]] by auto
  from record_good [OF good o nz refl, of safe_mode] obtain c seg where
    "live_of (rt_seg (at_route e s)) ((k * 64 + word_tz bits) * MIN_BLOCK) = Some c"
    "cut_pop (classes (rt_side (at_route e s))) \<lparr>cut_word = k, cut_bits = bits\<rparr>
       = Inr (Some \<lparr>rec_offset = (k * 64 + word_tz bits) * MIN_BLOCK, rec_class = c\<rparr>, \<lparr>cut_word = k, cut_bits = bits AND (bits - 1)\<rparr>)"
    "reclaim_sidecar_record safe_mode (rt_base (at_route e s)) ((k * 64 + word_tz bits) * MIN_BLOCK) c (rt_seg (at_route e s)) = Inr (True, seg)"
    "live_of seg = (live_of (rt_seg (at_route e s)))((k * 64 + word_tz bits) * MIN_BLOCK := None)" by blast
  then show "let r = at_route e s; off = (k * 64 + word_tz bits) * MIN_BLOCK
      in \<exists>c seg. live_of (rt_seg r) off = Some c
        \<and> cut_pop (classes (rt_side r)) \<lparr>cut_word = k, cut_bits = bits\<rparr>
          = Inr (Some \<lparr>rec_offset = off, rec_class = c\<rparr>, \<lparr>cut_word = k, cut_bits = bits AND (bits - 1)\<rparr>)
        \<and> reclaim_sidecar_record safe_mode (rt_base r) off c (rt_seg r) = Inr (True, seg)
        \<and> dealloc_small safe_mode (rt_base r) (rt_base r + off) c (rt_seg r) = Inr (True, seg)
        \<and> live_of seg = (live_of (rt_seg r))(off := None)"
    using reclaim_live [OF ok, of _ _ safe_mode] by (auto simp: Let_def live_Some)
qed

lemma remote_no_abort_witness: "\<exists>s g s'. producers s 0 = PCheck 1 (g * MIN_BLOCK) \<and> producer_step True 0 s = Inr s' \<and> producers s' 0 = POr 1 g"
proof -
  from sample_freeing obtain s g where s: "reachable remote_start (remote_step True) s" "producers s = (\<lambda>_. PIdle)(0 := PCheck 1 (g * MIN_BLOCK))" by blast
  from remote_no_abort [OF s(1), of 0] have "producers s 0 = PCheck 1 (g * 16) \<longrightarrow> producer_step True 0 s = Inr (go 0 (POr 1 g) s)"
    by (simp add: MIN_BLOCK_def)
  then have "producer_step True 0 s = Inr (go 0 (POr 1 g) s)" using s(2) by (simp add: MIN_BLOCK_def)
  moreover have "producers (go 0 (POr 1 g) s) 0 = POr 1 g" "producers s 0 = PCheck 1 (g * MIN_BLOCK)" using s(2) by simp_all
  ultimately show ?thesis by blast
qed

text \<open>C37: No wake-up is lost.  In every reachable state in which the owner is between two passes and no
  freeing thread is between publishing a block and the end of its notification, a pending block means that
  the route of its segment is registered in a slot, that the slot is marked in the heap's mask and that the
  word of the mask is marked in the summary: the next look of the owner at the summary finds it.\<close>

theorem remote_notified:
  assumes "reachable remote_start (remote_step safe_mode) s" and "owner s = OIdle" and "\<forall>t. \<not> publishing (producers s t)"
    and "(e, g) \<in> pending_blocks s"
  shows "\<exists>i < 64 * INGRESS_WORDS. slot_route s i = Some e \<and> bit (mask (ingress s) ! (i div 64)) (i mod 64) \<and> bit (summary (ingress s)) (i div 64)"
  using pending_noted [OF remote_life.reachable_good [OF assms(1)] assms(2-4)] by (auto simp: INGRESS_WORDS_def marked_def)

lemma remote_notified_witness: "\<exists>s g. (1, g) \<in> pending_blocks s \<and> summary (ingress s) \<noteq> 0"
proof -
  from sample_pending obtain s g where s: "reachable remote_start (remote_step True) s" "\<forall>t. producers s t = PIdle" "owner s = OIdle" "(1, g) \<in> pending_blocks s" by blast
  have "\<forall>t. \<not> publishing (producers s t)" using s(2) by (simp add: publishing_def)
  from remote_notified [OF s(1,3) this s(4)] have "\<exists>j. bit (summary (ingress s)) j" by blast
  then have "summary (ingress s) \<noteq> 0" by auto
  then show ?thesis using s(4) by blast
qed

text \<open>C38: The owner reclaims what was freed.  From every reachable state in which no thread is between
  publishing and the end of its notification, the owner, running alone, comes after finitely many of its
  steps to the end of a pass with no block pending: the blocks still live are those with the callers and
  those that a thread holds but has not published.\<close>

theorem remote_owner_drains:
  assumes "reachable remote_start (remote_step safe_mode) s" and "\<forall>t. \<not> publishing (producers s t)"
  shows "\<exists>n s'. (owner_alone safe_mode ^^ n) s s' \<and> owner s' = OIdle \<and> pending_blocks s' = {}
    \<and> live_blocks s' = in_use s \<union> ran (held_by s) \<and> in_use s' = in_use s \<and> producers s' = producers s"
  using owner_drains [OF remote_life.reachable_good [OF assms(1)] assms(2)] by blast

lemma remote_owner_drains_witness:
  "\<exists>s s' g n. (1, g) \<in> pending_blocks s \<and> (owner_alone True ^^ n) s s' \<and> pending_blocks s' = {} \<and> live_blocks s' = {}"
proof -
  from sample_pending obtain s g where s: "reachable remote_start (remote_step True) s" "\<forall>t. producers s t = PIdle" "in_use s = {}" "(1, g) \<in> pending_blocks s" by blast
  have "\<forall>t. \<not> publishing (producers s t)" using s(2) by (simp add: publishing_def)
  from remote_owner_drains [OF s(1) this] s show ?thesis by auto
qed



end
