(* ===== verification/Spec2Isabelle.thy ===== *)
theory Spec2Isabelle
  imports CoreDrop OncePtrCell TaggedStack LockFreeRegion RouteDirectory RemoteFree
begin

text \<open>
  A model of the core of \<open>sefer-alloc\<close>, a segment-based memory allocator written in Rust: the
  allocator state \<open>AllocCore\<close> (\<open>src/alloc_core\<close>) with its small-object path, its segment table,
  its pool of empty segments and its cache of large reservations, and three of the lock-free or
  pure crates it is built from (\<open>crates/size-classes\<close>, \<open>crates/once-ptr-cell\<close>,
  \<open>crates/tagged-index-stack\<close>).

  How the program works.  Memory comes from the operating system in segments aligned to 4 MiB.  A
  small segment carries its metadata (header, table of free-list heads, one state byte per 16
  bytes) in front of a payload that is cut into blocks of 49 size classes; freed blocks are linked
  into one list per class through their own first word.  A large allocation is a reservation of
  its own.  A table of at most 4096 slots, hosted in the first (primordial) segment, registers
  the segments; a hash index with a memo in front of it maps a segment address to its slot, and a
  two-level bitmap enumerates the slots of each kind.  Small segments that empty are kept in a
  bounded pool, freed large reservations in a bounded cache, both of which decay with time.

  Theories, in the order of their imports:

  \<^item> \<open>Prelude\<close>: bit and arithmetic lemmas, the constants of the layout, shared by all.
  \<^item> \<open>Results\<close>: sequencing of operations that may fail; \<open>BitLoops\<close>: loops over the set bits of a
    word; \<open>Interfaces\<close>: the locales \<open>key_index\<close>, \<open>ordered_set\<close>, \<open>transition_system\<close> and
    \<open>ranked_system\<close>, each interpreted on the definitions of the model in the theory that provides
    them.
  \<^item> \<open>SizeClasses\<close> (\<open>crates/size-classes/src/lib.rs\<close>): the construction of the class table by a
    two-cursor merge, of the size-to-class table, and the classification; the lemmas show the
    table to be the sorted union of the geometric sizes and the extras, and classification to be
    first fit.
  \<^item> \<open>ClassTable\<close> (\<open>platform/size_classes.rs\<close>, \<open>segment/bitmap/live_tag.rs\<close>): the production
    parameters, the divisibility test by reciprocals and the entry points.
  \<^item> \<open>HashIndex\<close> (\<open>segment_table/hash.rs\<close>): open addressing with backward-shift removal; the
    lemmas show a finite map.
  \<^item> \<open>SegmentHeader\<close> (\<open>segment/segment_header/*\<close>, \<open>platform/os.rs\<close>): the header record, the owner
    word, the placement of the metadata, the placement of biased reservations.
  \<^item> \<open>ActiveKind\<close> (\<open>segment_table/active_kind_index.rs\<close>): the two-level bitmaps as sets of slots.
  \<^item> \<open>SegmentTable\<close> (\<open>segment_table/segment_table_impl.rs\<close>, \<open>active_kind_ops.rs\<close>): registration,
    lookup, removal; the invariant \<open>table_inv\<close> ties registry, free list, hash, bitmaps and memo
    to one map from keys to slots.
  \<^item> \<open>LargeState\<close> (\<open>terminal_words.rs\<close>, \<open>large/reservation_state.rs\<close>): the packed generation and
    phase word of a large reservation, its transitions and any interleaving of claimants.
  \<^item> \<open>LargeCache\<close> (\<open>large/alloc_core_large_cache*.rs\<close>, parts of \<open>alloc_core_large.rs\<close> and
    \<open>mem_impl.rs\<close>): the cache of freed reservations: best fit, admission under the budget,
    eviction in order of deposit, decay.
  \<^item> \<open>SmallPool\<close> (\<open>alloc_core_small_pool/*\<close>, \<open>find_segment/class_cursor.rs\<close>): the doubly linked pool
    in the headers, admission, draining, decay, class cursors.
  \<^item> \<open>SmallBlocks\<close> (\<open>bitmap/state_byte.rs\<close>, \<open>alloc_core_small_impl.rs\<close>, \<open>dealloc.rs\<close>): the blocks
    of one segment: pop, batch, carve, refill, free; the invariant \<open>seg_ok\<close> and the transition
    system \<open>seg_life\<close>.
  \<^item> \<open>SmallHeap\<close> (\<open>alloc_core_small_impl.rs\<close>, \<open>dealloc.rs\<close>, \<open>reserve.rs\<close>, \<open>find_segment/scan.rs\<close>,
    \<open>lifecycle.rs\<close>, \<open>bootstrap.rs\<close>): the small-object path over all segments: allocation with its
    four attempts, deallocation with the release or pooling of what empties, a new heap; the
    transition system \<open>heap_life\<close>, whose invariant joins those of the table, the pool and every
    segment.
  \<^item> \<open>LargeHeap\<close>, \<open>LargeFree\<close> (\<open>large/alloc_core_large.rs\<close>, \<open>dealloc_large_at_base\<close> of
    \<open>mem_impl.rs\<close>, \<open>Segment\<close> of \<open>os.rs\<close>): large blocks over the table, the cache and the
    reservation states; the invariant \<open>core_inv\<close> says that segments and cached reservations lie
    apart, each large one with its block inside and a live state word; the lemmas show what an
    allocation (fresh, reused, after draining the pool, refused) and a free do to the blocks in use.
  \<^item> \<open>Config\<close> (\<open>config/*\<close>): the configuration records, profiles and the resolution of their fields.
  \<^item> \<open>AllocCore\<close>, \<open>Realloc\<close> (\<open>alloc_core/mem/mem_impl.rs\<close>, \<open>mem/realloc_fastpath.rs\<close>): the entry
    points \<open>alloc\<close> and \<open>dealloc\<close>, which route a request by its class and an address by its segment,
    \<open>realloc\<close> in place and by copy, \<open>alloc_zeroed\<close>; \<open>homed\<close> ties a block to the segment that serves it.
  \<^item> \<open>CoreLife\<close> (\<open>state.rs\<close>, \<open>lifecycle.rs\<close>): a configured new instance, the transition system
    \<open>core_life\<close> of an instance with its callers, and the properties that span all components;
    \<open>CoreDrop\<close>: the drop of an instance.
  \<^item> \<open>OncePtrCell\<close>, \<open>TaggedStack\<close> (\<open>crates/once-ptr-cell\<close>, \<open>crates/tagged-index-stack\<close>): lock-free
    components as programs of single atomic accesses, any number of callers interleaved; safety
    as invariants and refinement, and termination of a caller left alone.
  \<^item> \<open>PageTable\<close>, \<open>LockFreeRegion\<close> (\<open>concurrent/lock_free/*\<close>): a persistent tree of pages, shown to be
    a list; generational slots over it, whose invariant \<open>snap_ok\<close> carries the free list and the handles
    issued; readers and writers of the published snapshot interleaved, shown to be linearizable.
  \<^item> \<open>RouteBlocks\<close>, \<open>RouteShard\<close>, \<open>RouteDirectory\<close> (\<open>registry/segment_route/directory/*\<close>,
    \<open>registration.rs\<close>, \<open>pin.rs\<close>): the process-wide directory of the multi-threaded build, from segment
    addresses to reference-counted entries; arrays shifted in place read as lists, sorted blocks with
    splitting and merging refined to a finite map (\<open>shard_rep\<close>, \<open>lists_ok\<close>), and registrations,
    lookups and unlinks of any number of callers interleaved, one critical section at a time
    (\<open>route_good\<close>).  Giving up on the lock or on memory is a step of its own that may always be taken;
    the law of the system's allocator is \<open>fresh_block\<close>.
  \<^item> \<open>Sidecar\<close> (\<open>segment/remote_bitmap/*\<close>, \<open>segment_route/small_sidecar.rs\<close>,
    \<open>alloc_core_small_reclaim.rs\<close>): the pending bits of a small route and its class codes in leaves
    promoted on demand, refined to a map from granules to codes (\<open>leaves_ok\<close>); the retirement of one
    record.  The law of the system's allocator is \<open>fresh_chunk\<close>.
  \<^item> \<open>RemoteFree\<close> (\<open>directory/ingress.rs\<close>, \<open>segment_route/pin.rs\<close>, \<open>ingress_discovery.rs\<close>, \<open>scan.rs\<close>,
    \<open>sidecar_drain.rs\<close>): one heap with its segments and the threads that free its blocks, interleaved at
    single atomic accesses under sequential consistency; the invariant \<open>remote_good\<close> of the transition
    system \<open>remote_life\<close> accounts for every live block and for every notification; the owner left
    alone comes to an end, and a freeing thread does within six accesses of its own, however the others
    are interleaved with them (the lookup of the route, under a spin lock, comes before).  The slot of a segment in
    the table and its route slot are one.

  The builds modelled: \<open>alloc-decommit\<close> on; in the theories up to \<open>CoreDrop\<close> no \<open>alloc-global\<close> routes,
  magazines, ingress or sidecars (\<open>RouteDirectory\<close> and \<open>RemoteFree\<close> model those routes, the ingress and
  the sidecars beside it); no segment directory, no lazy commit, not \<open>hardened\<close>, one memory node; no extended or
  adaptive large cache; production size classes without medium classes; 64-bit addresses; debug
  assertions and overflow checks on, a failed one being the value \<open>Inl\<close> with its message.  The
  feature \<open>misuse-checks\<close> is the parameter \<open>safe_mode\<close>: it decides whether a rejected free is
  ignored or fatal.  What the operating system answers is a function of the state in which it is
  asked, the clock and the page size are arguments of the operations.  The laws asked of them:
  \<open>fresh_system\<close> (\<open>maps_fresh\<close> for small segments alone): a new mapping is aligned, lies in the
  address space and overlaps nothing registered or cached; \<open>page_ok\<close>: pages are a power of two of
  at most 64 KiB; \<open>clock_ok\<close>: the clock does not run backwards.

  Loops: recursion over lists and fuel-free \<open>function\<close>s with a measure where the bound is evident
  (\<open>drain_small_pool\<close>: the pooled count; \<open>drain_loop\<close>, \<open>refill_loop\<close>: the batch size);
  \<open>partial_function\<close> with the value \<open>None\<close> for not returning where the code probes or scans
  (\<open>find_loop\<close>, \<open>probe_free\<close>, \<open>remove_find\<close>, \<open>shift_back\<close>, \<open>scan_range\<close>, the eviction loops), and
  each theorem about such a loop states that it returns.

  Not modelled.  The multi-threaded front end (heap registry, magazines, thread-local heaps, the frees of
  large blocks by other threads; \<open>src/registry\<close>, \<open>src/global\<close>): it is another build of the same functions
  with a second protocol around them, of which the route directory and the remote frees of small blocks
  are modelled, each by itself.  In \<open>RemoteFree\<close> a block is issued to a caller directly, not through a
  magazine; the synchronisation of the segment directory after a drain, the pooling of a segment that
  a drain empties (\<open>SmallPool\<close> models it) and the cursor of the background maintenance, which chooses
  the words of a scan, are left out: a scan outside a pass may visit any range of words, and a segment
  without live blocks may be released.  Weak memory orders are not modelled.
  The epoch and sharded regions
  (\<open>src/concurrent/epoch\<close>, \<open>src/concurrent/sharded\<close>) are not modelled; nor are the
  crates \<open>aligned-vmem\<close>, \<open>numa-shim\<close>, \<open>proc-memstat\<close>: system calls and their error handling, whose
  answers are arguments here.  Diagnostics, statistics, test hooks, benchmarks, the model-checking
  harnesses.  The segment directory, lazy commit and node awareness, which are optional features.
  Contents of blocks are modelled as the word that starts at each address; a bulk copy or zeroing
  gives the words inside its range their new value and those that straddle an end an arbitrary one.
\<close>

end
